(* ===== verification/Ese_Prelude.thy ===== *)
theory Ese_Prelude
  imports Main "HOL-Library.Word" "HOL-Library.Multiset"
begin

unbundle bit_operations_syntax

text \<open>
  Shared vocabulary of the development: the machine integers of the engine
  (\<open>BYTE\<close>, \<open>USHORT\<close>, \<open>ULONG\<close>, \<open>QWORD\<close>), byte-addressed memory with the C library
  operations the code uses on it (\<open>memset\<close>, \<open>memmove\<close>, \<open>memcpy\<close>), little-endian
  16-bit loads and stores, and the generic facts about words, lists and memory that
  several components use.  A memory maps an address (an \<open>int\<close>, so that no address
  computation of the model is cut off at zero) to a byte.

  \<open>mem_simps\<close> collects the equations that evaluate a read after a write;
  \<open>word_conv\<close> the equations that turn a cast or a mask into integer arithmetic.
\<close>

named_theorems mem_simps "reads after writes on byte memory"
named_theorems word_conv "casts and masks as integer arithmetic"

subsection \<open>Machine integers\<close>

type_synonym u8 = "8 word"
type_synonym u16 = "16 word"
type_synonym u32 = "32 word"
type_synonym u64 = "64 word"

lemma uint16_of_int [word_conv]:
  "0 \<le> x \<Longrightarrow> x < 65536 \<Longrightarrow> uint (word_of_int x :: u16) = x"
  by (simp add: uint_word_of_int_eq take_bit_int_eq_self)

lemma uint16_less: "uint (w :: u16) < 65536"
  using unsigned_less [of w] by simp

lemma uint16_nonneg: "0 \<le> uint (w :: u16)"
  by simp

lemma unat16_less: "unat (w :: u16) < 65536"
  using unsigned_less [of w] by simp

lemma uint16_add [word_conv]:
  "uint a + uint b < 65536 \<Longrightarrow> uint (a + b :: u16) = uint a + uint b"
  using uint_plus_simple_iff [of a b] by (simp add: uint_word_ariths)

lemma uint16_diff [word_conv]:
  "uint b \<le> uint a \<Longrightarrow> uint (a - b :: u16) = uint a - uint b"
  using uint_sub_lem [of b a] by blast

text \<open>
  A field of the low \<open>n\<close> bits of a word: clearing it and storing a value that fits
  reads back that value, and leaves the bits above the field alone.
\<close>

lemma take_bit_fits: "uint w < 2 ^ n \<Longrightarrow> take_bit n (w :: 'a::len word) = w"
  by (simp add: word_uint_eq_iff unsigned_take_bit_eq take_bit_int_eq_self)

lemma fits_mask:
  fixes w :: "'a::len word"
  assumes "uint w < 2 ^ n"
  shows "w AND mask n = w" and "w AND NOT (mask n) = 0"
proof -
  show m: "w AND mask n = w"
    using take_bit_fits [OF assms] by (simp add: take_bit_eq_mask)
  have "w AND NOT (mask n) = w AND (mask n AND NOT (mask n))"
    by (metis m and.assoc)
  then show "w AND NOT (mask n) = 0" by simp
qed

lemma uint_and_mask: "uint (w AND mask n :: 'a::len word) < 2 ^ n"
  by (simp flip: take_bit_eq_mask add: unsigned_take_bit_eq)

lemma set_field:
  fixes x c :: "'a::len word"
  assumes "uint c < 2 ^ n"
  shows "((x AND NOT (mask n)) OR c) AND mask n = c"
    and "((x AND NOT (mask n)) OR c) AND NOT (mask n) = x AND NOT (mask n)"
  using fits_mask [OF assms]
  by (simp_all add: bit.conj_disj_distrib2 and.assoc)

subsection \<open>Inserting into and removing from a list at an index\<close>

definition list_ins :: "nat \<Rightarrow> 'a \<Rightarrow> 'a list \<Rightarrow> 'a list" where
  "list_ins k x xs = take k xs @ x # drop k xs"

definition list_del :: "nat \<Rightarrow> 'a list \<Rightarrow> 'a list" where
  "list_del k xs = take k xs @ drop (Suc k) xs"

lemma length_list_ins [simp]: "length (list_ins k x xs) = Suc (length xs)"
  by (simp add: list_ins_def)

lemma length_list_del [simp]: "k < length xs \<Longrightarrow> length (list_del k xs) = length xs - 1"
  by (simp add: list_del_def)

lemma map_list_ins: "map f (list_ins k x xs) = list_ins k (f x) (map f xs)"
  by (simp add: list_ins_def take_map drop_map)

lemma map_list_del: "map f (list_del k xs) = list_del k (map f xs)"
  by (simp add: list_del_def take_map drop_map)

lemma set_list_ins [simp]: "set (list_ins k x xs) = insert x (set xs)"
  unfolding list_ins_def by (metis append_take_drop_id list.simps(15) set_append Un_insert_right)

lemma set_list_del: "set (list_del k xs) \<subseteq> set xs"
  by (auto simp: list_del_def dest: in_set_takeD in_set_dropD)

lemma nth_list_ins:
  "k \<le> length xs \<Longrightarrow> i \<le> length xs \<Longrightarrow>
    list_ins k x xs ! i = (if i < k then xs ! i else if i = k then x else xs ! (i - 1))"
  by (auto simp: list_ins_def nth_append nth_Cons')

lemma nth_list_del:
  "k < length xs \<Longrightarrow> i < length xs - 1 \<Longrightarrow>
    list_del k xs ! i = (if i < k then xs ! i else xs ! Suc i)"
  by (auto simp: list_del_def nth_append)

lemma sum_list_ins: "sum_list (list_ins k x xs) = x + sum_list (xs :: int list)"
  unfolding list_ins_def
  by (metis append_take_drop_id sum_list.append sum_list.Cons add.left_commute)

lemma sum_list_del: "k < length xs \<Longrightarrow> sum_list (list_del k xs) = sum_list xs - (xs ! k :: int)"
  unfolding list_del_def
  by (subst (3) id_take_nth_drop [of k xs]) simp_all

lemma sum_list_upd: "k < length xs \<Longrightarrow> sum_list (xs[k := x]) = sum_list xs - xs ! k + (x :: int)"
  by (induction xs arbitrary: k) (auto split: nat.splits)

lemma sorted_wrt_ins:
  assumes "sorted_wrt R xs" "\<And>y. y \<in> set xs \<Longrightarrow> R x y" "\<And>x y. R x y \<Longrightarrow> R y x"
  shows "sorted_wrt R (list_ins k x xs)"
proof -
  have "sorted_wrt R (take k xs @ drop k xs)" using assms(1) by simp
  then show ?thesis
    unfolding list_ins_def sorted_wrt_append using assms(2,3)
    by (auto dest: in_set_takeD in_set_dropD)
qed

lemma sorted_wrt_del:
  assumes "sorted_wrt R xs"
  shows "sorted_wrt R (list_del k xs)"
proof -
  have "sorted_wrt R (take k xs @ drop k xs)" using assms by simp
  moreover have "drop (Suc k) xs = tl (drop k xs)" by (simp add: tl_drop drop_Suc)
  ultimately show ?thesis
    unfolding list_del_def sorted_wrt_append
    by (cases "drop k xs") auto
qed

lemma sorted_wrt_upd:
  assumes "sorted_wrt R xs" "\<And>x y. R x y \<Longrightarrow> R y x"
    "\<And>j. j < length xs \<Longrightarrow> j \<noteq> k \<Longrightarrow> R x (xs ! j)"
  shows "sorted_wrt R (xs[k := x])"
  unfolding sorted_wrt_iff_nth_less
proof (intro allI impI)
  fix i j assume ij: "i < j" "j < length (xs[k := x])"
  show "R (xs[k := x] ! i) (xs[k := x] ! j)"
    using ij assms(1) assms(2) assms(3) [of i] assms(3) [of j]
    by (cases "i = k"; cases "j = k") (auto simp: sorted_wrt_iff_nth_less)
qed

subsection \<open>Byte-addressed memory\<close>

type_synonym mem = "int \<Rightarrow> u8"

definition memset :: "int \<Rightarrow> u8 \<Rightarrow> int \<Rightarrow> mem \<Rightarrow> mem" where
  "memset a c n b = (\<lambda>i. if a \<le> i \<and> i < a + n then c else b i)"

text \<open>\<open>memmove\<close> reads the whole source before it writes, so the ranges may overlap.\<close>

definition memmove :: "int \<Rightarrow> int \<Rightarrow> int \<Rightarrow> mem \<Rightarrow> mem" where
  "memmove dst src n b = (\<lambda>i. if dst \<le> i \<and> i < dst + n then b (src + (i - dst)) else b i)"

text \<open>A copy whose source is another object: the bytes are given as a list.\<close>

definition store_bytes :: "int \<Rightarrow> u8 list \<Rightarrow> mem \<Rightarrow> mem" where
  "store_bytes a bs b = (\<lambda>i. if a \<le> i \<and> i < a + int (length bs) then bs ! nat (i - a) else b i)"

definition load_bytes :: "mem \<Rightarrow> int \<Rightarrow> int \<Rightarrow> u8 list" where
  "load_bytes b a n = map (\<lambda>k. b (a + int k)) [0..<nat n]"

text \<open>\<open>UnalignedLittleEndian<USHORT>\<close>: a 16-bit load and store, low byte first.\<close>

definition rd16 :: "mem \<Rightarrow> int \<Rightarrow> u16" where
  "rd16 b a = ucast (b a) OR push_bit 8 (ucast (b (a + 1)))"

definition wr16 :: "int \<Rightarrow> u16 \<Rightarrow> mem \<Rightarrow> mem" where
  "wr16 a w b = b(a := ucast w, a + 1 := ucast (drop_bit 8 w))"

lemma length_load_bytes [simp]: "length (load_bytes b a n) = nat n"
  by (simp add: load_bytes_def)

lemma nth_load_bytes [simp]: "k < nat n \<Longrightarrow> load_bytes b a n ! k = b (a + int k)"
  by (simp add: load_bytes_def)

lemma load_bytes_eqI:
  "(\<And>i. a \<le> i \<Longrightarrow> i < a + n \<Longrightarrow> b (i + d) = b' i) \<Longrightarrow> load_bytes b (a + d) n = load_bytes b' a n"
proof (rule nth_equalityI)
  assume eq: "\<And>i. a \<le> i \<Longrightarrow> i < a + n \<Longrightarrow> b (i + d) = b' i"
  fix k assume "k < length (load_bytes b (a + d) n)"
  then have "int k < n" by simp
  with eq [of "a + int k"] show "load_bytes b (a + d) n ! k = load_bytes b' a n ! k"
    by (simp add: algebra_simps)
qed simp

lemma load_bytes_cong:
  "(\<And>i. a \<le> i \<Longrightarrow> i < a + n \<Longrightarrow> b i = b' i) \<Longrightarrow> load_bytes b a n = load_bytes b' a n"
  using load_bytes_eqI [of a n b 0 b'] by simp

lemma load_store_bytes:
  "load_bytes (store_bytes a bs b) a (int (length bs)) = bs"
  by (rule nth_equalityI) (auto simp: store_bytes_def)

lemma rd16_cong: "b a = b' a \<Longrightarrow> b (a + 1) = b' (a + 1) \<Longrightarrow> rd16 b a = rd16 b' a"
  by (simp add: rd16_def)

lemma rd16_wr16 [mem_simps]: "rd16 (wr16 a w b) a = w"
  by (rule bit_word_eqI)
    (auto simp: rd16_def wr16_def bit_or_iff bit_push_bit_iff bit_ucast_iff bit_drop_bit_eq)

lemma rd16_wr16_other [mem_simps]:
  "a' + 1 < a \<or> a + 1 < a' \<Longrightarrow> rd16 (wr16 a w b) a' = rd16 b a'"
  by (rule rd16_cong) (auto simp: wr16_def)

lemma wr16_other [mem_simps]: "i < a \<or> a + 1 < i \<Longrightarrow> wr16 a w b i = b i"
  by (auto simp: wr16_def)

lemma memset_in [mem_simps]: "a \<le> i \<Longrightarrow> i < a + n \<Longrightarrow> memset a c n b i = c"
  by (simp add: memset_def)

lemma memset_out [mem_simps]: "i < a \<or> a + n \<le> i \<Longrightarrow> memset a c n b i = b i"
  by (auto simp: memset_def)

lemma memmove_in [mem_simps]:
  "dst \<le> i \<Longrightarrow> i < dst + n \<Longrightarrow> memmove dst src n b i = b (src + (i - dst))"
  by (simp add: memmove_def)

lemma memmove_out [mem_simps]: "i < dst \<or> dst + n \<le> i \<Longrightarrow> memmove dst src n b i = b i"
  by (auto simp: memmove_def)

lemma store_bytes_in [mem_simps]:
  "a \<le> i \<Longrightarrow> i < a + int (length bs) \<Longrightarrow> store_bytes a bs b i = bs ! nat (i - a)"
  by (simp add: store_bytes_def)

lemma store_bytes_out [mem_simps]:
  "i < a \<or> a + int (length bs) \<le> i \<Longrightarrow> store_bytes a bs b i = b i"
  by (auto simp: store_bytes_def)

end
