(* ===== verification/Page_Layout.thy ===== *)
theory Page_Layout
  imports Ese_Prelude
begin

text \<open>
  The database page of \<open>src/ese/cpage.cxx\<close> and \<open>src/inc/cpage.hxx\<close>: the page header,
  the tag array that grows down from the end of the buffer, and the accessors of
  \<open>CPAGE\<close> and \<open>CPAGE::TAG\<close>.

  A \<open>CPAGE\<close> holds the members of the class and the buffer it is latched to.  The
  persisted header is a record of words; everything behind it, the data area and the
  tags, is raw memory addressed from the start of the buffer, as \<open>m_bfl.pv\<close> is.  A
  \<open>TAG *\<close> is the address of four bytes of that memory: \<open>cb_\<close> at offset 0 and \<open>ib_\<close> at
  offset 2, each a little-endian \<open>USHORT\<close>.  So a store into the data area that runs
  into the tag array changes the tags, as it does in the program.
\<close>

subsection \<open>The header and the page object\<close>

record PGHDR =
  checksum :: u64
  dbtimeDirtied :: u64
  pgnoPrev :: u32
  pgnoNext :: u32
  objidFDP :: u32
  cbFree :: u16
  cbUncommittedFree :: u16
  ibMicFree :: u16
  itagState :: u16
  fFlags :: u32

text \<open>
  The rest of the large-page header, \<open>PGHDR2\<close> without its reserved bytes; small pages do not
  have it.
\<close>

record PGHDR2 =
  rgChecksum :: "u64 list"
  pgno :: u32

text \<open>
  \<open>cbBuffer\<close> and \<open>cbPage\<close> are what the latch manager answers for \<open>CbBuffer\<close> and
  \<open>CbPage\<close>; they differ while the page is dehydrated.  \<open>fResvTagFormat\<close> is the answer of
  \<open>FResvTagFormatEnabled\<close> (a database format feature), \<open>fScrubbing\<close> that of
  \<open>FRuntimeScrubbingEnabled_\<close> (an instance parameter), \<open>fDirty\<close> that of the latch manager's \<open>FDirty\<close>.
\<close>

record CPAGE =
  cbBuffer :: int
  cbPage :: int
  fSmallFormat :: bool
  m_itagMicFree :: u16
  m_ctagReserved :: u16
  fResvTagFormat :: bool
  fScrubbing :: bool
  fDirty :: bool
  pghdr :: PGHDR
  pghdr2 :: PGHDR2
  buf :: mem

definition cbTAG :: int where "cbTAG = 4"

definition CTAG_RESERVED_MAX :: int where "CTAG_RESERVED_MAX = 7"

definition FIsSmallPage :: "int \<Rightarrow> bool" where
  "FIsSmallPage cb \<longleftrightarrow> cb \<le> 1024 * 8"

definition CbPageHeader :: "CPAGE \<Rightarrow> int" where
  "CbPageHeader p = (if fSmallFormat p then 40 else 80)"

definition ITagMicFree :: "CPAGE \<Rightarrow> int" where
  "ITagMicFree p = uint (m_itagMicFree p)"

definition CTagReserved :: "CPAGE \<Rightarrow> int" where
  "CTagReserved p = uint (m_ctagReserved p)"

definition Clines :: "CPAGE \<Rightarrow> int" where
  "Clines p = ITagMicFree p - CTagReserved p"

definition CbTagArray :: "CPAGE \<Rightarrow> int" where
  "CbTagArray p = ITagMicFree p * cbTAG"

definition PtagFromItag :: "CPAGE \<Rightarrow> int \<Rightarrow> int" where
  "PtagFromItag p itag = cbBuffer p - cbTAG * (itag + 1)"

definition PbFromIb :: "CPAGE \<Rightarrow> int \<Rightarrow> int" where
  "PbFromIb p ib = CbPageHeader p + ib"

definition PbDataStart :: "CPAGE \<Rightarrow> int" where
  "PbDataStart p = (if fSmallFormat p then 40 else 80)"

definition PbDataEnd :: "CPAGE \<Rightarrow> int" where
  "PbDataEnd p = cbBuffer p - CbTagArray p - 1"

subsection \<open>Sizes and free space\<close>

definition CbAdjustForPage :: "CPAGE \<Rightarrow> u16" where
  "CbAdjustForPage p = word_of_int (cbPage p) - word_of_int (cbBuffer p)"

definition CbBufferData :: "CPAGE \<Rightarrow> int" where
  "CbBufferData p = cbBuffer p - CbPageHeader p"

definition CbPageData :: "CPAGE \<Rightarrow> int" where
  "CbPageData p = CbBufferData p + uint (CbAdjustForPage p)"

definition CbContiguousBufferFree :: "CPAGE \<Rightarrow> int" where
  "CbContiguousBufferFree p = CbBufferData p - uint (ibMicFree (pghdr p)) - CbTagArray p"

definition CbContiguousFree :: "CPAGE \<Rightarrow> int" where
  "CbContiguousFree p = CbContiguousBufferFree p + uint (CbAdjustForPage p)"

definition CbFree :: "CPAGE \<Rightarrow> u16" where
  "CbFree p = cbFree (pghdr p)"

definition CbPageFree :: "CPAGE \<Rightarrow> u16" where
  "CbPageFree p = cbFree (pghdr p) + CbAdjustForPage p"

definition FIsNormalSized :: "CPAGE \<Rightarrow> bool" where
  "FIsNormalSized p \<longleftrightarrow> cbBuffer p = cbPage p"

subsection \<open>Tags\<close>

definition mskTagFlags :: u16 where "mskTagFlags = 0xe000"
definition shfTagFlags :: nat where "shfTagFlags = 13"
definition mskLargeTagIbCb :: u16 where "mskLargeTagIbCb = 0x7fff"
definition mskSmallTagIbCb :: u16 where "mskSmallTagIbCb = 0x1fff"

definition mskTagIbCb :: "CPAGE \<Rightarrow> u16" where
  "mskTagIbCb p = (if fSmallFormat p then mskSmallTagIbCb else mskLargeTagIbCb)"

definition TAG_Cb :: "CPAGE \<Rightarrow> int \<Rightarrow> u16" where
  "TAG_Cb p ptag =
     (if fSmallFormat p then rd16 (buf p) ptag AND mskSmallTagIbCb
      else rd16 (buf p) ptag AND mskLargeTagIbCb)"

definition TAG_Ib :: "CPAGE \<Rightarrow> int \<Rightarrow> u16" where
  "TAG_Ib p ptag =
     (if fSmallFormat p then rd16 (buf p) (ptag + 2) AND mskSmallTagIbCb
      else rd16 (buf p) (ptag + 2) AND mskLargeTagIbCb)"

text \<open>
  On small pages the flags are in the tag, on large pages in the first word of the
  line itself (so a line of less than two bytes has none).
\<close>

definition TAG_FFlags :: "CPAGE \<Rightarrow> int \<Rightarrow> u16" where
  "TAG_FFlags p ptag =
     (if fSmallFormat p then drop_bit shfTagFlags (rd16 (buf p) (ptag + 2) AND mskTagFlags)
      else if 2 \<le> uint (TAG_Cb p ptag)
      then drop_bit shfTagFlags (rd16 (buf p) (PbFromIb p (uint (TAG_Ib p ptag))) AND mskTagFlags)
      else 0)"

definition TAG_SetIb :: "int \<Rightarrow> u16 \<Rightarrow> CPAGE \<Rightarrow> CPAGE" where
  "TAG_SetIb ptag ib p =
     (let ibT = rd16 (buf p) (ptag + 2);
          ibT = ibT AND NOT (mskTagIbCb p);
          ibT = ibT OR ib
      in p\<lparr>buf := wr16 (ptag + 2) ibT (buf p)\<rparr>)"

definition TAG_SetCb :: "int \<Rightarrow> u16 \<Rightarrow> CPAGE \<Rightarrow> CPAGE" where
  "TAG_SetCb ptag cb p =
     (let cbT = rd16 (buf p) ptag;
          cbT = cbT AND NOT (mskTagIbCb p);
          cbT = cbT OR cb
      in p\<lparr>buf := wr16 ptag cbT (buf p)\<rparr>)"

definition TAG_SetFlags :: "int \<Rightarrow> u16 \<Rightarrow> CPAGE \<Rightarrow> CPAGE" where
  "TAG_SetFlags ptag flags p =
     (if fSmallFormat p then
        let ibT = rd16 (buf p) (ptag + 2);
            ibT = ibT AND NOT mskTagFlags;
            ibT = ibT OR push_bit shfTagFlags flags
        in p\<lparr>buf := wr16 (ptag + 2) ibT (buf p)\<rparr>
      else if PtagFromItag p 0 \<noteq> ptag \<and> 2 \<le> uint (TAG_Cb p ptag) then
        let pus = PbFromIb p (uint (TAG_Ib p ptag));
            ibT = rd16 (buf p) pus;
            ibT = ibT AND NOT mskTagFlags;
            ibT = ibT OR push_bit shfTagFlags flags
        in p\<lparr>buf := wr16 pus ibT (buf p)\<rparr>
      else p)"

subsection \<open>The itag state word\<close>

definition ITAG_MIC_FREE_MASK :: u16 where "ITAG_MIC_FREE_MASK = 0x0fff"
definition SHF_CTAG_RESERVED :: nat where "SHF_CTAG_RESERVED = 12"

definition InitItagState :: "PGHDR \<Rightarrow> CPAGE \<Rightarrow> CPAGE" where
  "InitItagState h p =
     p\<lparr>m_itagMicFree := itagState h AND ITAG_MIC_FREE_MASK,
       m_ctagReserved := max 1 (drop_bit SHF_CTAG_RESERVED (itagState h))\<rparr>"

definition SetITagState :: "int \<Rightarrow> int \<Rightarrow> CPAGE \<Rightarrow> CPAGE" where
  "SetITagState itagMic ctag p =
     (let p = p\<lparr>m_itagMicFree := word_of_int itagMic, m_ctagReserved := word_of_int ctag\<rparr>
      in if fResvTagFormat p \<or> 0 < drop_bit SHF_CTAG_RESERVED (itagState (pghdr p))
         then p\<lparr>pghdr := (pghdr p)\<lparr>itagState :=
                push_bit SHF_CTAG_RESERVED (word_of_int ctag) OR word_of_int itagMic\<rparr>\<rparr>
         else p\<lparr>pghdr := (pghdr p)\<lparr>itagState := word_of_int itagMic\<rparr>\<rparr>)"

definition SetITagMicFree :: "int \<Rightarrow> CPAGE \<Rightarrow> CPAGE" where
  "SetITagMicFree itagMic p = SetITagState itagMic (uint (m_ctagReserved p)) p"

definition SetCTagReserved :: "int \<Rightarrow> CPAGE \<Rightarrow> CPAGE" where
  "SetCTagReserved ctag p = SetITagState (uint (m_itagMicFree p)) ctag p"

subsection \<open>Reading a tag after writing it\<close>

text \<open>
  Facts about single accesses.  \<open>tag_read\<close> evaluates a reader after a setter of the same
  tag, \<open>tag_frame\<close> after a setter of a tag that is elsewhere (tags are four bytes apart).
\<close>

named_theorems tag_read "a tag reader after a setter"
named_theorems tag_frame "what a setter leaves alone"

lemma small_mask: "mskSmallTagIbCb = mask 13"
  by (simp add: mskSmallTagIbCb_def mask_eq_exp_minus_1)

lemma large_mask: "mskLargeTagIbCb = mask 15"
  by (simp add: mskLargeTagIbCb_def mask_eq_exp_minus_1)

lemma flags_mask: "mskTagFlags = NOT (mask 13)"
  by (simp add: mskTagFlags_def mask_eq_exp_minus_1)

definition tag_bits :: "CPAGE \<Rightarrow> nat" where
  "tag_bits p = (if fSmallFormat p then 13 else 15)"

lemma TAG_Cb_bits: "TAG_Cb p t = rd16 (buf p) t AND mask (tag_bits p)"
  by (simp add: TAG_Cb_def tag_bits_def small_mask large_mask)

lemma TAG_Ib_bits: "TAG_Ib p t = rd16 (buf p) (t + 2) AND mask (tag_bits p)"
  by (simp add: TAG_Ib_def tag_bits_def small_mask large_mask)

lemma mskTagIbCb_bits: "mskTagIbCb p = mask (tag_bits p)"
  by (simp add: mskTagIbCb_def tag_bits_def small_mask large_mask)

lemma push_flags_mask: "push_bit 13 (x :: u16) AND mask 13 = 0"
  by (simp add: bit_eq_iff bit_and_iff bit_push_bit_iff bit_mask_iff)

lemma push_flags_not_mask: "push_bit 13 (x :: u16) AND NOT (mask 13) = push_bit 13 x"
  by (auto simp add: bit_eq_iff bit_and_iff bit_push_bit_iff bit_mask_iff bit_not_iff)

lemma drop_push_flags: "drop_bit 13 (push_bit 13 (x :: u16)) = x AND 7"
proof -
  have "7 = (mask 3 :: u16)" by (simp add: mask_eq_exp_minus_1)
  then show ?thesis
    by (auto simp add: bit_eq_iff bit_and_iff bit_push_bit_iff bit_drop_bit_eq bit_mask_iff)
qed

end
