(* ===== verification/Page_Ops.thy ===== *)
theory Page_Ops
  imports Page_Layout
begin

text \<open>
  The operations of \<open>CPAGE\<close> that change the page image (\<open>src/ese/cpage.cxx\<close>): compaction,
  insertion, replacement, deletion and flag changes of lines, reserved tags, creation of
  a new page, scrubbing of unused space, and the hydration changes.

  An operation whose code contains an enforce (\<open>PageEnforce\<close>, \<open>Enforce\<close>, or
  \<open>ErrCaptureCorruptedPageInfo\<close> in the mode \<open>OnErrorEnforce\<close>, which all end the process)
  returns an option; \<open>None\<close> is the failed enforce.
\<close>

abbreviation set_cbFree :: "u16 \<Rightarrow> CPAGE \<Rightarrow> CPAGE" where
  "set_cbFree x p \<equiv> p\<lparr>pghdr := (pghdr p)\<lparr>cbFree := x\<rparr>\<rparr>"

abbreviation set_ibMicFree :: "u16 \<Rightarrow> CPAGE \<Rightarrow> CPAGE" where
  "set_ibMicFree x p \<equiv> p\<lparr>pghdr := (pghdr p)\<lparr>ibMicFree := x\<rparr>\<rparr>"

abbreviation upd_buf :: "(mem \<Rightarrow> mem) \<Rightarrow> CPAGE \<Rightarrow> CPAGE" where
  "upd_buf f p \<equiv> p\<lparr>buf := f (buf p)\<rparr>"

definition chPAGEReplaceFill :: u8 where "chPAGEReplaceFill = 0x52"
definition chPAGEDeleteFill :: u8 where "chPAGEDeleteFill = 0x44"
definition chPAGEReorgContiguousFreeFill :: u8 where "chPAGEReorgContiguousFreeFill = 0x4F"
definition chPAGEReHydrateFill :: u8 where "chPAGEReHydrateFill = 0x48"

subsection \<open>Data arguments\<close>

text \<open>
  A \<open>DATA\<close> is a pointer and a length.  Most callers pass bytes that are elsewhere;
  \<open>Replace\<close> also accepts pointers to existing parts of the page, which are read when
  they are copied.
\<close>

datatype DATA = OffPage "u8 list" | OnPage int int

fun DATA_Cb :: "DATA \<Rightarrow> int" where
  "DATA_Cb (OffPage bs) = int (length bs)"
| "DATA_Cb (OnPage pv cb) = cb"

fun CbDataTotal :: "DATA list \<Rightarrow> int" where
  "CbDataTotal [] = 0"
| "CbDataTotal (d # rgdata) = DATA_Cb d + CbDataTotal rgdata"

fun memmove_data :: "int \<Rightarrow> DATA \<Rightarrow> mem \<Rightarrow> mem" where
  "memmove_data pb (OffPage bs) b = store_bytes pb bs b"
| "memmove_data pb (OnPage pv cb) b = memmove pb pv cb b"

fun CopyLines :: "int \<Rightarrow> DATA list \<Rightarrow> mem \<Rightarrow> mem" where
  "CopyLines pb [] b = b"
| "CopyLines pb (d # rgdata) b = CopyLines (pb + DATA_Cb d) rgdata (memmove_data pb d b)"

definition CopyData :: "int \<Rightarrow> DATA list \<Rightarrow> CPAGE \<Rightarrow> CPAGE" where
  "CopyData ptag rgdata p =
     (let usFlags = TAG_FFlags p ptag;
          pb = PbFromIb p (uint (TAG_Ib p ptag));
          p = upd_buf (CopyLines pb rgdata) p
      in if PtagFromItag p 0 \<noteq> ptag then TAG_SetFlags ptag usFlags p else p)"

subsection \<open>Growing and shrinking the tag array\<close>

text \<open>
  \<open>ExpandTagArray_\<close> moves the tags down by one with an unrolled loop entered in its
  middle (Duff's device): the first pass makes \<open>cTagsToMove % 8\<close> copies (8 when that is
  0), every later pass 8, until \<open>pdw\<close> has reached \<open>pdwLast\<close>.
\<close>

fun copy_dwords :: "nat \<Rightarrow> int \<Rightarrow> mem \<Rightarrow> mem" where
  "copy_dwords 0 pdw b = b"
| "copy_dwords (Suc n) pdw b = copy_dwords n (pdw + 4) (memmove pdw (pdw + 4) 4 b)"

function duff_copy :: "int \<Rightarrow> nat \<Rightarrow> int \<Rightarrow> mem \<Rightarrow> mem" where
  "duff_copy pdwLast r pdw b =
     (let n = (if r = 0 then 8 else r);
          b = copy_dwords n pdw b;
          pdw = pdw + 4 * int n
      in if pdw < pdwLast then duff_copy pdwLast 0 pdw b else b)"
  by pat_completeness auto
termination
  by (relation "measure (\<lambda>(pdwLast, r, pdw, b). nat (pdwLast - pdw))") auto

declare duff_copy.simps [simp del]

definition ExpandTagArray :: "int \<Rightarrow> CPAGE \<Rightarrow> CPAGE" where
  "ExpandTagArray itag p =
     (let p = (if itag \<noteq> ITagMicFree p then
                 let pvTagDest = PtagFromItag p (ITagMicFree p);
                     cTagsToMove = ITagMicFree p - itag;
                     pdwLast = pvTagDest + 4 * cTagsToMove
                 in upd_buf (duff_copy pdwLast (nat (cTagsToMove mod 8)) pvTagDest) p
               else p)
      in SetITagMicFree (ITagMicFree p + 1) p)"

subsection \<open>Compaction\<close>

fun ReorganizeLoop :: "int list \<Rightarrow> u16 \<Rightarrow> int \<Rightarrow> CPAGE \<Rightarrow> (u16 \<times> CPAGE) option" where
  "ReorganizeLoop [] ibDest pbDest p = Some (ibDest, p)"
| "ReorganizeLoop (ptag # rgptag) ibDest pbDest p =
     (let cb = uint (TAG_Cb p ptag);
          pbSrc = PbFromIb p (uint (TAG_Ib p ptag))
      in if cb \<noteq> 0 \<and> pbSrc < pbDest then None
         else let p = (if cb \<noteq> 0 then upd_buf (memmove pbDest pbSrc cb) p else p);
                  p = TAG_SetIb ptag ibDest p
              in ReorganizeLoop rgptag (ibDest + TAG_Cb p ptag)
                   (pbDest + uint (TAG_Cb p ptag)) p)"

definition rgptag :: "CPAGE \<Rightarrow> int list" where
  "rgptag p = map (PtagFromItag p) [0..ITagMicFree p - 1]"

definition ReorganizeData :: "CPAGE \<Rightarrow> CPAGE option" where
  "ReorganizeData p =
     (case ReorganizeLoop (sort_key (\<lambda>ptag. uint (TAG_Ib p ptag)) (rgptag p))
             0 (PbFromIb p 0) p of
        None \<Rightarrow> None
      | Some (ibDest, p) \<Rightarrow>
          let p = set_ibMicFree ibDest p
          in Some (if fScrubbing p
                   then upd_buf (memset (PbFromIb p (uint (ibMicFree (pghdr p))))
                          chPAGEReorgContiguousFreeFill (CbContiguousBufferFree p)) p
                   else p))"

definition FreeSpace :: "int \<Rightarrow> CPAGE \<Rightarrow> CPAGE option" where
  "FreeSpace cb p =
     (case (if CbContiguousFree p < cb then ReorganizeData p else Some p) of
        None \<Rightarrow> None
      | Some p \<Rightarrow> if cb \<le> CbContiguousFree p then Some p else None)"

subsection \<open>Insert, replace, delete\<close>

definition Insert_at :: "int \<Rightarrow> DATA list \<Rightarrow> u16 \<Rightarrow> CPAGE \<Rightarrow> CPAGE option" where
  "Insert_at itag rgdata flags p =
     (let cbTotal = word_of_int (CbDataTotal rgdata) :: u16
      in case FreeSpace (uint cbTotal + cbTAG) p of
           None \<Rightarrow> None
         | Some p \<Rightarrow>
             let p = ExpandTagArray itag p;
                 ptag = PtagFromItag p itag;
                 p = TAG_SetCb ptag 0 p;
                 p = TAG_SetIb ptag 0 p;
                 p = TAG_SetFlags ptag 0 p;
                 p = TAG_SetIb ptag (ibMicFree (pghdr p)) p;
                 p = set_ibMicFree (ibMicFree (pghdr p) + cbTotal) p;
                 p = TAG_SetCb ptag cbTotal p;
                 p = set_cbFree (cbFree (pghdr p) - (cbTotal + word_of_int cbTAG)) p;
                 p = TAG_SetFlags ptag flags p
             in Some (CopyData ptag rgdata p))"

text \<open>
  \<open>Replace_\<close>: the line stays in place when it does not grow, or when it is the last one
  and the free space behind it is enough; otherwise it is taken off the page and put at
  the end, after a compaction when that is needed.
\<close>

definition ReplaceInPlace :: "bool \<Rightarrow> int \<Rightarrow> CPAGE \<Rightarrow> CPAGE" where
  "ReplaceInPlace fLast cbDiff p =
     (let p = (if fLast
               then set_ibMicFree (word_of_int (uint (ibMicFree (pghdr p)) - cbDiff)) p else p)
      in set_cbFree (word_of_int (uint (cbFree (pghdr p)) + cbDiff)) p)"

definition ReplaceGrow :: "int \<Rightarrow> u16 \<Rightarrow> CPAGE \<Rightarrow> CPAGE option" where
  "ReplaceGrow ptag cbTotal p =
     (let p = (if fScrubbing p
               then upd_buf (memset (PbFromIb p (uint (TAG_Ib p ptag))) chPAGEReplaceFill
                      (uint (TAG_Cb p ptag))) p
               else p);
          p = set_cbFree (cbFree (pghdr p) + TAG_Cb p ptag) p;
          p = TAG_SetIb ptag 0 p;
          p = TAG_SetCb ptag 0 p;
          p = TAG_SetFlags ptag 0 p
      in case FreeSpace (uint cbTotal) p of
           None \<Rightarrow> None
         | Some p \<Rightarrow>
             let p = TAG_SetIb ptag (ibMicFree (pghdr p)) p;
                 p = set_ibMicFree (ibMicFree (pghdr p) + cbTotal) p
             in Some (set_cbFree (cbFree (pghdr p) - cbTotal) p))"

definition Replace_at :: "int \<Rightarrow> DATA list \<Rightarrow> u16 \<Rightarrow> CPAGE \<Rightarrow> CPAGE option" where
  "Replace_at itag rgdata flags p =
     (let cbTotal = word_of_int (CbDataTotal rgdata) :: u16;
          ptag = PtagFromItag p itag;
          cbDiff = sint (word_of_int (uint (TAG_Cb p ptag) - uint cbTotal) :: u16);
          fLast = (uint (TAG_Ib p ptag) + uint (TAG_Cb p ptag) = uint (ibMicFree (pghdr p)))
      in case (if 0 \<le> cbDiff \<or> (fLast \<and> - cbDiff \<le> CbContiguousFree p)
               then Some (ReplaceInPlace fLast cbDiff p)
               else ReplaceGrow ptag cbTotal p) of
           None \<Rightarrow> None
         | Some p \<Rightarrow>
             let p = TAG_SetCb ptag cbTotal p;
                 p = TAG_SetFlags ptag flags p;
                 p = CopyData ptag rgdata p
             in Some (if 0 < cbDiff \<and> fScrubbing p
                      then upd_buf (memset (PbFromIb p (uint (TAG_Ib p ptag + TAG_Cb p ptag)))
                             chPAGEReplaceFill cbDiff) p
                      else p))"

definition ReplaceFlags_at :: "int \<Rightarrow> u16 \<Rightarrow> CPAGE \<Rightarrow> CPAGE" where
  "ReplaceFlags_at itag flags p = TAG_SetFlags (PtagFromItag p itag) flags p"

text \<open>
  \<open>Delete_\<close> closes the gap in the tag array with \<open>copy_backward\<close> over the tags
  \<open>itag + 1, \<dots>, itagMicFree - 1\<close>, which lie below the tag that goes away.
\<close>

definition Delete_at :: "int \<Rightarrow> CPAGE \<Rightarrow> CPAGE" where
  "Delete_at itag p =
     (let ptag = PtagFromItag p itag;
          p = (if fScrubbing p
               then upd_buf (memset (PbFromIb p (uint (TAG_Ib p ptag))) chPAGEDeleteFill
                      (uint (TAG_Cb p ptag))) p
               else p);
          p = (if uint (TAG_Cb p ptag) + uint (TAG_Ib p ptag) = uint (ibMicFree (pghdr p))
               then set_ibMicFree (ibMicFree (pghdr p) - TAG_Cb p ptag) p else p);
          p = set_cbFree (cbFree (pghdr p) + TAG_Cb p ptag + word_of_int cbTAG) p;
          p = SetITagMicFree (ITagMicFree p - 1) p;
          first = PtagFromItag p (ITagMicFree p);
          cbMove = PtagFromItag p itag - first;
          p = upd_buf (memmove (PtagFromItag p (itag - 1) - cbMove) first cbMove) p
      in if uint (cbFree (pghdr p)) + cbTAG + CbPageHeader p = cbBuffer p
         then set_ibMicFree 0 p else p)"

subsection \<open>The public line interface\<close>

definition Insert :: "int \<Rightarrow> DATA list \<Rightarrow> u16 \<Rightarrow> CPAGE \<Rightarrow> CPAGE option" where
  "Insert iline rgdata flags p = Insert_at (iline + CTagReserved p) rgdata flags p"

definition Replace :: "int \<Rightarrow> DATA list \<Rightarrow> u16 \<Rightarrow> CPAGE \<Rightarrow> CPAGE option" where
  "Replace iline rgdata flags p = Replace_at (iline + CTagReserved p) rgdata flags p"

definition ReplaceFlags :: "int \<Rightarrow> u16 \<Rightarrow> CPAGE \<Rightarrow> CPAGE" where
  "ReplaceFlags iline flags p = ReplaceFlags_at (iline + CTagReserved p) flags p"

definition Delete :: "int \<Rightarrow> CPAGE \<Rightarrow> CPAGE" where
  "Delete iline p = Delete_at (iline + CTagReserved p) p"

definition SetExternalHeader :: "DATA list \<Rightarrow> u16 \<Rightarrow> CPAGE \<Rightarrow> CPAGE option" where
  "SetExternalHeader rgdata flags p = Replace_at 0 rgdata flags p"

definition ReplaceReservedTag :: "int \<Rightarrow> DATA list \<Rightarrow> CPAGE \<Rightarrow> CPAGE option" where
  "ReplaceReservedTag itag rgdata p = Replace_at itag rgdata 0 p"

text \<open>
  \<open>IAddReservedTag\<close> returns the new tag's index, or -1 when the format does not allow
  another reserved tag.
\<close>

definition IAddReservedTag :: "int \<Rightarrow> u8 \<Rightarrow> CPAGE \<Rightarrow> (int \<times> CPAGE) option" where
  "IAddReservedTag cb fill p =
     (let itag = CTagReserved p
      in if fResvTagFormat p \<and> itag < CTAG_RESERVED_MAX then
           case FreeSpace cb p of
             None \<Rightarrow> None
           | Some p \<Rightarrow>
               let p = ExpandTagArray itag p;
                   p = SetCTagReserved (itag + 1) p;
                   ptag = PtagFromItag p itag;
                   p = TAG_SetCb ptag 0 p;
                   p = TAG_SetIb ptag 0 p;
                   p = TAG_SetFlags ptag 0 p;
                   p = TAG_SetIb ptag (ibMicFree (pghdr p)) p;
                   p = set_ibMicFree (ibMicFree (pghdr p) + word_of_int cb) p;
                   p = TAG_SetCb ptag (word_of_int cb) p;
                   p = set_cbFree (cbFree (pghdr p) - word_of_int cb - word_of_int cbTAG) p
               in Some (itag, upd_buf (memset (PbFromIb p (uint (TAG_Ib p ptag))) fill
                                (uint (TAG_Cb p ptag))) p)
         else Some (-1, p))"

subsection \<open>Line flags\<close>

definition data_itags :: "CPAGE \<Rightarrow> int list" where
  "data_itags p = rev [CTagReserved p..ITagMicFree p - 1]"

definition ResetAllFlags :: "u16 \<Rightarrow> CPAGE \<Rightarrow> CPAGE" where
  "ResetAllFlags flags p =
     fold (\<lambda>itag p. let ptag = PtagFromItag p itag
                     in TAG_SetFlags ptag (TAG_FFlags p ptag AND NOT flags) p)
       (data_itags p) p"

definition FAnyLineHasFlagSet :: "u16 \<Rightarrow> CPAGE \<Rightarrow> bool" where
  "FAnyLineHasFlagSet flags p =
     list_ex (\<lambda>itag. TAG_FFlags p (PtagFromItag p itag) AND flags \<noteq> 0) (data_itags p)"

end
