(* ===== verification/Page_Inv.thy ===== *)
theory Page_Inv
  imports Page_Ops
begin

subsection \<open>Fields no tag setter writes\<close>

lemma setter_fields [simp]:
  "cbBuffer (TAG_SetIb t x p) = cbBuffer p" "cbPage (TAG_SetIb t x p) = cbPage p"
  "fSmallFormat (TAG_SetIb t x p) = fSmallFormat p"
  "m_itagMicFree (TAG_SetIb t x p) = m_itagMicFree p"
  "m_ctagReserved (TAG_SetIb t x p) = m_ctagReserved p"
  "fResvTagFormat (TAG_SetIb t x p) = fResvTagFormat p"
  "fScrubbing (TAG_SetIb t x p) = fScrubbing p" "pghdr (TAG_SetIb t x p) = pghdr p"
  "cbBuffer (TAG_SetCb t x p) = cbBuffer p" "cbPage (TAG_SetCb t x p) = cbPage p"
  "fSmallFormat (TAG_SetCb t x p) = fSmallFormat p"
  "m_itagMicFree (TAG_SetCb t x p) = m_itagMicFree p"
  "m_ctagReserved (TAG_SetCb t x p) = m_ctagReserved p"
  "fResvTagFormat (TAG_SetCb t x p) = fResvTagFormat p"
  "fScrubbing (TAG_SetCb t x p) = fScrubbing p" "pghdr (TAG_SetCb t x p) = pghdr p"
  "cbBuffer (TAG_SetFlags t x p) = cbBuffer p" "cbPage (TAG_SetFlags t x p) = cbPage p"
  "fSmallFormat (TAG_SetFlags t x p) = fSmallFormat p"
  "m_itagMicFree (TAG_SetFlags t x p) = m_itagMicFree p"
  "m_ctagReserved (TAG_SetFlags t x p) = m_ctagReserved p"
  "fResvTagFormat (TAG_SetFlags t x p) = fResvTagFormat p"
  "fScrubbing (TAG_SetFlags t x p) = fScrubbing p" "pghdr (TAG_SetFlags t x p) = pghdr p"
  "cbBuffer (CopyData t d p) = cbBuffer p" "cbPage (CopyData t d p) = cbPage p"
  "fSmallFormat (CopyData t d p) = fSmallFormat p"
  "m_itagMicFree (CopyData t d p) = m_itagMicFree p"
  "m_ctagReserved (CopyData t d p) = m_ctagReserved p"
  "fResvTagFormat (CopyData t d p) = fResvTagFormat p"
  "fScrubbing (CopyData t d p) = fScrubbing p" "pghdr (CopyData t d p) = pghdr p"
  by (simp_all add: TAG_SetIb_def TAG_SetCb_def TAG_SetFlags_def CopyData_def Let_def)

text \<open>Everything computed from the sizes, the header or the itag state only.\<close>

lemmas size_defs = CbPageHeader_def ITagMicFree_def CTagReserved_def CbTagArray_def PtagFromItag_def
  PbFromIb_def CbBufferData_def CbAdjustForPage_def CbContiguousBufferFree_def CbContiguousFree_def
  tag_bits_def

lemma size_fields_buf [simp]:
  "CbPageHeader (p\<lparr>buf := b\<rparr>) = CbPageHeader p" "ITagMicFree (p\<lparr>buf := b\<rparr>) = ITagMicFree p"
  "CTagReserved (p\<lparr>buf := b\<rparr>) = CTagReserved p" "CbTagArray (p\<lparr>buf := b\<rparr>) = CbTagArray p"
  "PtagFromItag (p\<lparr>buf := b\<rparr>) i = PtagFromItag p i" "PbFromIb (p\<lparr>buf := b\<rparr>) i = PbFromIb p i"
  "CbBufferData (p\<lparr>buf := b\<rparr>) = CbBufferData p" "CbAdjustForPage (p\<lparr>buf := b\<rparr>) = CbAdjustForPage p"
  "CbContiguousBufferFree (p\<lparr>buf := b\<rparr>) = CbContiguousBufferFree p"
  "CbContiguousFree (p\<lparr>buf := b\<rparr>) = CbContiguousFree p" "tag_bits (p\<lparr>buf := b\<rparr>) = tag_bits p"
  by (simp_all add: size_defs)

lemma size_fields_hdr [simp]:
  "CbPageHeader (p\<lparr>pghdr := h\<rparr>) = CbPageHeader p" "ITagMicFree (p\<lparr>pghdr := h\<rparr>) = ITagMicFree p"
  "CTagReserved (p\<lparr>pghdr := h\<rparr>) = CTagReserved p" "CbTagArray (p\<lparr>pghdr := h\<rparr>) = CbTagArray p"
  "PtagFromItag (p\<lparr>pghdr := h\<rparr>) i = PtagFromItag p i" "PbFromIb (p\<lparr>pghdr := h\<rparr>) i = PbFromIb p i"
  "CbBufferData (p\<lparr>pghdr := h\<rparr>) = CbBufferData p"
  "CbAdjustForPage (p\<lparr>pghdr := h\<rparr>) = CbAdjustForPage p" "tag_bits (p\<lparr>pghdr := h\<rparr>) = tag_bits p"
  "TAG_Cb (p\<lparr>pghdr := h\<rparr>) t = TAG_Cb p t" "TAG_Ib (p\<lparr>pghdr := h\<rparr>) t = TAG_Ib p t"
  "TAG_FFlags (p\<lparr>pghdr := h\<rparr>) t = TAG_FFlags p t"
  by (simp_all add: size_defs TAG_Cb_def TAG_Ib_def TAG_FFlags_def)

lemma size_fields_set [simp]:
  "CbPageHeader (TAG_SetIb t x p) = CbPageHeader p" "ITagMicFree (TAG_SetIb t x p) = ITagMicFree p"
  "CbTagArray (TAG_SetIb t x p) = CbTagArray p" "CTagReserved (TAG_SetIb t x p) = CTagReserved p"
  "PtagFromItag (TAG_SetIb t x p) i = PtagFromItag p i" "PbFromIb (TAG_SetIb t x p) i = PbFromIb p i"
  "CbBufferData (TAG_SetIb t x p) = CbBufferData p" "tag_bits (TAG_SetIb t x p) = tag_bits p"
  "CbPageHeader (TAG_SetCb t x p) = CbPageHeader p" "ITagMicFree (TAG_SetCb t x p) = ITagMicFree p"
  "CbTagArray (TAG_SetCb t x p) = CbTagArray p" "CTagReserved (TAG_SetCb t x p) = CTagReserved p"
  "PtagFromItag (TAG_SetCb t x p) i = PtagFromItag p i" "PbFromIb (TAG_SetCb t x p) i = PbFromIb p i"
  "CbBufferData (TAG_SetCb t x p) = CbBufferData p" "tag_bits (TAG_SetCb t x p) = tag_bits p"
  "CbPageHeader (TAG_SetFlags t x p) = CbPageHeader p" "ITagMicFree (TAG_SetFlags t x p) = ITagMicFree p"
  "CbTagArray (TAG_SetFlags t x p) = CbTagArray p" "CTagReserved (TAG_SetFlags t x p) = CTagReserved p"
  "PtagFromItag (TAG_SetFlags t x p) i = PtagFromItag p i"
  "PbFromIb (TAG_SetFlags t x p) i = PbFromIb p i"
  "CbBufferData (TAG_SetFlags t x p) = CbBufferData p" "tag_bits (TAG_SetFlags t x p) = tag_bits p"
  "CbPageHeader (CopyData t d p) = CbPageHeader p" "ITagMicFree (CopyData t d p) = ITagMicFree p"
  "CbTagArray (CopyData t d p) = CbTagArray p" "CTagReserved (CopyData t d p) = CTagReserved p"
  "PtagFromItag (CopyData t d p) i = PtagFromItag p i" "PbFromIb (CopyData t d p) i = PbFromIb p i"
  "CbBufferData (CopyData t d p) = CbBufferData p" "tag_bits (CopyData t d p) = tag_bits p"
  by (simp_all add: size_defs)

subsection \<open>Reading back\<close>

lemma TAG_Cb_SetCb [tag_read]:
  "uint c < 2 ^ tag_bits p \<Longrightarrow> TAG_Cb (TAG_SetCb t c p) t = c"
  by (simp add: TAG_Cb_bits) (simp add: TAG_SetCb_def mskTagIbCb_bits rd16_wr16 set_field)

lemma TAG_Ib_SetIb [tag_read]:
  "uint c < 2 ^ tag_bits p \<Longrightarrow> TAG_Ib (TAG_SetIb t c p) t = c"
  by (simp add: TAG_Ib_bits) (simp add: TAG_SetIb_def mskTagIbCb_bits rd16_wr16 set_field)

lemma TAG_Cb_SetIb [tag_read]:
  assumes "t' < t + 1 \<or> t + 3 < t'"
  shows "TAG_Cb (TAG_SetIb t c p) t' = TAG_Cb p t'"
proof -
  have "t' + 1 < t + 2 \<or> (t + 2) + 1 < t'" using assms by linarith
  then have "rd16 (wr16 (t + 2) w b) t' = rd16 b t'" for w b by (rule rd16_wr16_other)
  then show ?thesis by (simp add: TAG_Cb_bits) (simp add: TAG_SetIb_def)
qed

lemma TAG_Ib_SetCb [tag_read]:
  assumes "t' + 3 < t \<or> t < t' + 1"
  shows "TAG_Ib (TAG_SetCb t c p) t' = TAG_Ib p t'"
proof -
  have "(t' + 2) + 1 < t \<or> t + 1 < t' + 2" using assms by linarith
  then have "rd16 (wr16 t w b) (t' + 2) = rd16 b (t' + 2)" for w b by (rule rd16_wr16_other)
  then show ?thesis by (simp add: TAG_Ib_bits) (simp add: TAG_SetCb_def)
qed

lemma uint_TAG_Cb: "0 \<le> uint (TAG_Cb p t)" "uint (TAG_Cb p t) < 2 ^ tag_bits p"
  by (simp_all add: TAG_Cb_bits uint_and_mask)

lemma uint_TAG_Ib: "0 \<le> uint (TAG_Ib p t)" "uint (TAG_Ib p t) < 2 ^ tag_bits p"
  by (simp_all add: TAG_Ib_bits uint_and_mask)

subsection \<open>The tag array as a list\<close>

text \<open>
  \<open>tags p\<close> reads the whole tag array: offset, size, and, on small pages, the flags that are
  kept in the tag (on large pages the flags are in the line).
\<close>

record tagv =
  t_ib :: int
  t_cb :: int
  t_fl :: u16

definition tag_fl :: "CPAGE \<Rightarrow> int \<Rightarrow> u16" where
  "tag_fl p t = (if fSmallFormat p then drop_bit 13 (rd16 (buf p) (t + 2)) else 0)"

definition tag_at :: "CPAGE \<Rightarrow> int \<Rightarrow> tagv" where
  "tag_at p t = \<lparr>t_ib = uint (TAG_Ib p t), t_cb = uint (TAG_Cb p t), t_fl = tag_fl p t\<rparr>"

definition tags :: "CPAGE \<Rightarrow> tagv list" where
  "tags p = map (\<lambda>k. tag_at p (PtagFromItag p (int k))) [0..<nat (ITagMicFree p)]"

lemma length_tags [simp]: "length (tags p) = nat (ITagMicFree p)"
  by (simp add: tags_def)

lemma nth_tags [simp]:
  "int k < ITagMicFree p \<Longrightarrow> tags p ! k = tag_at p (PtagFromItag p (int k))"
  by (simp add: tags_def)

lemma tag_at_sel [simp]:
  "t_ib (tag_at p t) = uint (TAG_Ib p t)" "t_cb (tag_at p t) = uint (TAG_Cb p t)"
  "t_fl (tag_at p t) = tag_fl p t"
  by (simp_all add: tag_at_def)

text \<open>A tag reads the same on two pages of the same format whose memories agree on it.\<close>

lemma tag_at_cong:
  assumes "fSmallFormat p = fSmallFormat q" "\<And>i. t \<le> i \<Longrightarrow> i < t + 4 \<Longrightarrow> buf p i = buf q (i + d)"
  shows "tag_at p t = tag_at q (t + d)"
proof -
  have "rd16 (buf p) t = rd16 (buf q) (t + d)" and "rd16 (buf p) (t + 2) = rd16 (buf q) (t + d + 2)"
    using assms(2) [of t] assms(2) [of "t + 1"] assms(2) [of "t + 2"] assms(2) [of "t + 3"]
    by (simp_all add: rd16_def algebra_simps)
  then show ?thesis using assms(1)
    by (simp add: tag_at_def TAG_Cb_def TAG_Ib_def tag_fl_def)
qed

lemma tags_eqI:
  assumes "ITagMicFree q = int n" "length ts = n"
    "\<And>k. k < n \<Longrightarrow> tag_at q (PtagFromItag q (int k)) = ts ! k"
  shows "tags q = ts"
  using assms by (intro nth_equalityI) auto

lemma tags_frame:
  assumes "fSmallFormat q = fSmallFormat p" "cbBuffer q = cbBuffer p" "ITagMicFree q = ITagMicFree p"
    "\<And>i. cbBuffer p - CbTagArray p \<le> i \<Longrightarrow> i < cbBuffer p \<Longrightarrow> buf q i = buf p i"
  shows "tags q = tags p"
proof (rule tags_eqI)
  show "ITagMicFree q = int (nat (ITagMicFree p))"
    using assms(3) by (simp add: ITagMicFree_def)
  fix k assume k: "k < nat (ITagMicFree p)"
  have "tag_at q (PtagFromItag q (int k)) = tag_at p (PtagFromItag q (int k) + 0)"
    by (rule tag_at_cong) (use assms k in \<open>auto simp: PtagFromItag_def CbTagArray_def cbTAG_def\<close>)
  with k show "tag_at q (PtagFromItag q (int k)) = tags p ! k"
    using assms(2) by (simp add: PtagFromItag_def)
qed simp

lemma tags_hdr [simp]: "tags (p\<lparr>pghdr := h\<rparr>) = tags p"
  by (rule tags_frame) simp_all

subsection \<open>The setters on the tag list\<close>

lemma buf_SetIb: "i < t + 2 \<or> t + 3 < i \<Longrightarrow> buf (TAG_SetIb t x p) i = buf p i"
  by (auto simp: TAG_SetIb_def Let_def wr16_other)

lemma buf_SetCb: "i < t \<or> t + 1 < i \<Longrightarrow> buf (TAG_SetCb t x p) i = buf p i"
  by (auto simp: TAG_SetCb_def Let_def wr16_other)

lemma buf_SetFlags_small:
  "fSmallFormat p \<Longrightarrow> i < t + 2 \<or> t + 3 < i \<Longrightarrow> buf (TAG_SetFlags t x p) i = buf p i"
  by (auto simp: TAG_SetFlags_def Let_def wr16_other)

lemma buf_SetFlags_large:
  "\<not> fSmallFormat p \<Longrightarrow> i \<noteq> PbFromIb p (uint (TAG_Ib p t)) \<Longrightarrow> i \<noteq> PbFromIb p (uint (TAG_Ib p t)) + 1 \<Longrightarrow>
    buf (TAG_SetFlags t x p) i = buf p i"
  by (simp add: TAG_SetFlags_def Let_def) (simp add: wr16_def)

lemma SetFlags_none:
  "\<not> fSmallFormat p \<Longrightarrow> PtagFromItag p 0 = t \<or> uint (TAG_Cb p t) < 2 \<Longrightarrow> TAG_SetFlags t x p = p"
  by (auto simp: TAG_SetFlags_def)

lemma drop_13_field:
  fixes w c :: u16
  assumes "uint c < 2 ^ 13"
  shows "drop_bit 13 ((w AND NOT (mask 13)) OR c) = drop_bit 13 w"
proof -
  have "drop_bit 13 c = 0"
    using take_bit_fits [OF assms] by (metis take_bit_eq_self_iff_drop_bit_eq_0)
  moreover have "drop_bit 13 (w AND NOT (mask 13)) = drop_bit 13 w"
    by (auto simp: bit_eq_iff bit_drop_bit_eq bit_and_iff bit_not_iff bit_mask_iff
        dest: bit_imp_le_length)
  ultimately show ?thesis by simp
qed

lemma tag_at_SetIb:
  assumes "uint x < 2 ^ tag_bits p"
  shows "tag_at (TAG_SetIb t x p) t = (tag_at p t)\<lparr>t_ib := uint x\<rparr>"
proof -
  have "tag_fl (TAG_SetIb t x p) t = tag_fl p t"
  proof (cases "fSmallFormat p")
    case True
    have "rd16 (buf (TAG_SetIb t x p)) (t + 2) = (rd16 (buf p) (t + 2) AND NOT (mask 13)) OR x"
      using True by (simp add: TAG_SetIb_def mem_simps mskTagIbCb_bits tag_bits_def)
    moreover have "uint x < 2 ^ 13" using True assms by (simp add: tag_bits_def)
    ultimately show ?thesis by (simp only: tag_fl_def drop_13_field setter_fields)
  qed (simp add: tag_fl_def)
  with assms show ?thesis by (simp add: tag_at_def tag_read)
qed

lemma tag_at_SetCb:
  assumes "uint x < 2 ^ tag_bits p"
  shows "tag_at (TAG_SetCb t x p) t = (tag_at p t)\<lparr>t_cb := uint x\<rparr>"
proof -
  have "tag_fl (TAG_SetCb t x p) t = tag_fl p t"
    by (simp add: tag_fl_def TAG_SetCb_def mem_simps)
  with assms show ?thesis by (simp add: tag_at_def tag_read)
qed

lemma tag_at_SetFlags_small:
  assumes "fSmallFormat p"
  shows "tag_at (TAG_SetFlags t x p) t = (tag_at p t)\<lparr>t_fl := x AND 7\<rparr>"
proof -
  let ?w = "(rd16 (buf p) (t + 2) AND mask 13) OR push_bit 13 x"
  have "drop_bit 13 (rd16 (buf p) (t + 2) AND mask 13) = 0"
    by (auto simp: bit_eq_iff bit_drop_bit_eq bit_and_iff bit_mask_iff)
  then have 1: "drop_bit 13 ?w = x AND 7" by (simp add: drop_push_flags)
  have 2: "?w AND mask 13 = rd16 (buf p) (t + 2) AND mask 13"
    by (simp add: bit.conj_disj_distrib2 push_flags_mask and.assoc)
  show ?thesis using assms 1 2
    by (simp add: tag_at_def TAG_Ib_bits TAG_Cb_bits tag_fl_def tag_bits_def)
      (simp add: TAG_SetFlags_def flags_mask shfTagFlags_def mem_simps)
qed

lemma tags_write1:
  assumes "fSmallFormat q = fSmallFormat p" "cbBuffer q = cbBuffer p" "ITagMicFree q = ITagMicFree p"
    "\<And>i. cbBuffer p - CbTagArray p \<le> i \<Longrightarrow> i < t \<or> t + 4 \<le> i \<Longrightarrow> i < cbBuffer p \<Longrightarrow>
      buf q i = buf p i"
    "t = PtagFromItag p (int k)"
  shows "tags q = (tags p)[k := tag_at q t]"
proof (rule tags_eqI)
  show "ITagMicFree q = int (nat (ITagMicFree p))"
    using assms(3) by (simp add: ITagMicFree_def)
  have P: "PtagFromItag q j = PtagFromItag p j" for j
    using assms(2) by (simp add: PtagFromItag_def)
  fix j assume j: "j < nat (ITagMicFree p)"
  have "buf q i = buf p (i + 0)"
    if "j \<noteq> k" "PtagFromItag q (int j) \<le> i" "i < PtagFromItag q (int j) + 4" for i
  proof -
    have "int j + 1 \<le> ITagMicFree p" using j by linarith
    moreover have "int j < int k \<or> int k < int j" using that(1) by linarith
    ultimately show ?thesis
      using that(2,3) assms(5) unfolding P
      by (simp, intro assms(4)) (auto simp: PtagFromItag_def CbTagArray_def cbTAG_def)
  qed
  then have "j \<noteq> k \<Longrightarrow> tag_at q (PtagFromItag q (int j)) = tag_at p (PtagFromItag q (int j) + 0)"
    by (intro tag_at_cong assms(1))
  with j assms(5) P show "tag_at q (PtagFromItag q (int j)) = (tags p)[k := tag_at q t] ! j"
    by (cases "j = k") simp_all
qed simp

lemma tags_SetIb:
  assumes "uint x < 2 ^ tag_bits p" "t = PtagFromItag p (int k)" "int k < ITagMicFree p"
  shows "tags (TAG_SetIb t x p) = (tags p)[k := (tags p ! k)\<lparr>t_ib := uint x\<rparr>]"
proof -
  have "tags (TAG_SetIb t x p) = (tags p)[k := tag_at (TAG_SetIb t x p) t]"
    by (rule tags_write1) (auto simp: assms(2) buf_SetIb)
  then show ?thesis using assms by (simp add: tag_at_SetIb)
qed

lemma tags_SetCb:
  assumes "uint x < 2 ^ tag_bits p" "t = PtagFromItag p (int k)" "int k < ITagMicFree p"
  shows "tags (TAG_SetCb t x p) = (tags p)[k := (tags p ! k)\<lparr>t_cb := uint x\<rparr>]"
proof -
  have "tags (TAG_SetCb t x p) = (tags p)[k := tag_at (TAG_SetCb t x p) t]"
    by (rule tags_write1) (auto simp: assms(2) buf_SetCb)
  then show ?thesis using assms by (simp add: tag_at_SetCb)
qed

lemma tags_SetFlags_small:
  assumes "fSmallFormat p" "t = PtagFromItag p (int k)" "int k < ITagMicFree p"
  shows "tags (TAG_SetFlags t x p) = (tags p)[k := (tags p ! k)\<lparr>t_fl := x AND 7\<rparr>]"
proof -
  have "tags (TAG_SetFlags t x p) = (tags p)[k := tag_at (TAG_SetFlags t x p) t]"
    by (rule tags_write1) (use assms in \<open>auto simp: buf_SetFlags_small\<close>)
  then show ?thesis using assms by (simp add: tag_at_SetFlags_small)
qed

lemma tags_SetFlags_large:
  assumes "\<not> fSmallFormat p"
    "2 \<le> uint (TAG_Cb p t) \<Longrightarrow>
      PbFromIb p (uint (TAG_Ib p t)) + uint (TAG_Cb p t) \<le> cbBuffer p - CbTagArray p"
  shows "tags (TAG_SetFlags t x p) = tags p"
proof (cases "2 \<le> uint (TAG_Cb p t)")
  case True
  show ?thesis
    by (rule tags_frame)
      (use assms True in \<open>simp_all add: buf_SetFlags_large\<close>)
next
  case False
  then show ?thesis using assms(1) by (simp add: SetFlags_none)
qed

subsection \<open>The invariant and the lines of a page\<close>

text \<open>
  A line is what the users of the page see: its flags (on large pages they are in the
  bytes) and its bytes.
\<close>

type_synonym line = "u16 \<times> u8 list"

definition line_of :: "CPAGE \<Rightarrow> tagv \<Rightarrow> line" where
  "line_of p t = (t_fl t, load_bytes (buf p) (PbFromIb p (t_ib t)) (t_cb t))"

definition lines :: "CPAGE \<Rightarrow> line list" where
  "lines p = map (line_of p) (tags p)"

definition apart :: "tagv \<Rightarrow> tagv \<Rightarrow> bool" where
  "apart s t \<longleftrightarrow> t_cb s = 0 \<or> t_cb t = 0 \<or> t_ib s + t_cb s \<le> t_ib t \<or> t_ib t + t_cb t \<le> t_ib s"

text \<open>
  The well-formedness of a page: the format fits the size, the cached itag state is that
  of the header, the data area and the tag array do not meet, every non-empty line lies
  below \<open>ibMicFree\<close>, no two lines overlap, and \<open>cbFree\<close> is what is really free.
\<close>

definition shape_ok :: "CPAGE \<Rightarrow> bool" where
  "shape_ok p \<longleftrightarrow> fSmallFormat p = FIsSmallPage (cbPage p) \<and> CbPageHeader p < cbBuffer p \<and>
     cbBuffer p \<le> cbPage p \<and> cbPage p \<le> 32768"

definition itags_ok :: "CPAGE \<Rightarrow> bool" where
  "itags_ok p \<longleftrightarrow> 1 \<le> CTagReserved p \<and> CTagReserved p \<le> CTAG_RESERVED_MAX \<and>
     CTagReserved p \<le> ITagMicFree p \<and> ITagMicFree p \<le> 4095 \<and>
     m_itagMicFree p = itagState (pghdr p) AND ITAG_MIC_FREE_MASK \<and>
     m_ctagReserved p = max 1 (drop_bit SHF_CTAG_RESERVED (itagState (pghdr p)))"

definition tags_ok :: "CPAGE \<Rightarrow> bool" where
  "tags_ok p \<longleftrightarrow> uint (ibMicFree (pghdr p)) + CbTagArray p \<le> CbBufferData p \<and>
     list_all (\<lambda>t. t_cb t \<noteq> 0 \<longrightarrow> t_ib t + t_cb t \<le> uint (ibMicFree (pghdr p))) (tags p) \<and>
     sorted_wrt apart (tags p)"

definition free_ok :: "CPAGE \<Rightarrow> bool" where
  "free_ok p \<longleftrightarrow>
     uint (cbFree (pghdr p)) = CbBufferData p - CbTagArray p - sum_list (map t_cb (tags p))"

definition page_ok :: "CPAGE \<Rightarrow> bool" where
  "page_ok p \<longleftrightarrow> shape_ok p \<and> itags_ok p \<and> tags_ok p \<and> free_ok p"

lemma apart_sym: "apart s t = apart t s"
  by (auto simp: apart_def)

lemma apart_fl [simp]: "apart (s\<lparr>t_fl := x\<rparr>) t = apart s t" "apart s (t\<lparr>t_fl := x\<rparr>) = apart s t"
  by (auto simp: apart_def)

lemma length_lines [simp]: "length (lines p) = nat (ITagMicFree p)"
  by (simp add: lines_def)

lemma line_of_eqI:
  assumes "t_fl s = t_fl t" "t_cb s = t_cb t"
    "\<And>i. 0 \<le> i \<Longrightarrow> i < t_cb t \<Longrightarrow> buf q (PbFromIb q (t_ib s) + i) = buf p (PbFromIb p (t_ib t) + i)"
  shows "line_of q s = line_of p t"
  using assms unfolding line_of_def by (auto intro!: nth_equalityI)

lemma line_of_cong:
  assumes "CbPageHeader q = CbPageHeader p"
    "\<And>i. PbFromIb p (t_ib t) \<le> i \<Longrightarrow> i < PbFromIb p (t_ib t) + t_cb t \<Longrightarrow> buf q i = buf p i"
  shows "line_of q t = line_of p t"
  using assms by (intro line_of_eqI) (simp_all add: PbFromIb_def)

lemma lines_hdr [simp]: "lines (p\<lparr>pghdr := h\<rparr>) = lines p"
  by (simp add: lines_def line_of_def [abs_def])

lemma tag_nonneg:
  assumes "t \<in> set (tags p)"
  shows "0 \<le> t_ib t" "0 \<le> t_cb t" "t_ib t < 2 ^ tag_bits p" "t_cb t < 2 ^ tag_bits p"
  using assms uint_TAG_Ib uint_TAG_Cb by (auto simp: tags_def)

lemma data_fits:
  assumes "shape_ok p"
  shows "CbBufferData p < 2 ^ tag_bits p" "CbBufferData p < 32768" "0 < CbBufferData p"
  using assms by (auto simp: shape_ok_def FIsSmallPage_def CbBufferData_def CbPageHeader_def tag_bits_def
      split: if_splits)

lemma CbTagArray_nonneg: "0 \<le> CbTagArray p" "0 \<le> ITagMicFree p"
  by (simp_all add: CbTagArray_def ITagMicFree_def cbTAG_def)

lemma CbAdjust_eq:
  "shape_ok p \<Longrightarrow> uint (CbAdjustForPage p) = cbPage p - cbBuffer p"
  by (auto simp: shape_ok_def CbAdjustForPage_def CbPageHeader_def uint_word_of_int_eq
      take_bit_int_eq_self simp flip: of_int_diff split: if_splits)

lemma CbContiguousFree_eq:
  "shape_ok p \<Longrightarrow> CbContiguousFree p =
    CbBufferData p - uint (ibMicFree (pghdr p)) - CbTagArray p + (cbPage p - cbBuffer p)"
  by (simp add: CbContiguousFree_def CbContiguousBufferFree_def CbAdjust_eq)

lemma CbContiguous_normal:
  "shape_ok p \<Longrightarrow> FIsNormalSized p \<Longrightarrow> CbContiguousFree p =
    CbBufferData p - uint (ibMicFree (pghdr p)) - CbTagArray p"
  by (simp add: CbContiguousFree_eq FIsNormalSized_def)

end
