(* ===== verification/Page_Reorg.thy ===== *)
theory Page_Reorg
  imports Page_Inv
begin

text \<open>
  Compaction (\<open>CPAGE::ReorganizeData_\<close>) and the free-space guard \<open>CPAGE::FreeSpace_\<close>: on a
  well-formed page the compaction never meets a line that would move up, keeps every line,
  and leaves all free space in one piece; the guard succeeds exactly when the page has the
  space.
\<close>

declare nth_tags [simp del]

subsection \<open>One step of the compaction\<close>

text \<open>
  \<open>reorg_pre p d e ks\<close>: the tags still to be moved, in the order they are moved; each
  non-empty one lies in \<open>d \<dots> e\<close> and in front of the later ones.
\<close>

definition before :: "tagv \<Rightarrow> tagv \<Rightarrow> bool" where
  "before s t \<longleftrightarrow> t_cb s = 0 \<or> t_cb t = 0 \<or> t_ib s + t_cb s \<le> t_ib t"

definition reorg_pre :: "CPAGE \<Rightarrow> int \<Rightarrow> int \<Rightarrow> nat list \<Rightarrow> bool" where
  "reorg_pre p d e ks \<longleftrightarrow> distinct ks \<and> 0 \<le> d \<and> d \<le> e \<and> e < 2 ^ tag_bits p \<and>
     PbFromIb p e \<le> cbBuffer p - CbTagArray p \<and>
     (\<forall>k\<in>set ks. int k < ITagMicFree p \<and>
        (t_cb (tags p ! k) \<noteq> 0 \<longrightarrow> d \<le> t_ib (tags p ! k) \<and> t_ib (tags p ! k) + t_cb (tags p ! k) \<le> e)) \<and>
     sorted_wrt (\<lambda>j k. before (tags p ! j) (tags p ! k)) ks"

definition move_line :: "nat \<Rightarrow> int \<Rightarrow> CPAGE \<Rightarrow> CPAGE" where
  "move_line k d p =
     (let t = tags p ! k;
          ptag = PtagFromItag p (int k);
          p = (if t_cb t \<noteq> 0 then upd_buf (memmove (PbFromIb p d) (PbFromIb p (t_ib t)) (t_cb t)) p else p)
      in TAG_SetIb ptag (word_of_int d) p)"

lemma move_line_fields [simp]:
  "\<exists>b. move_line k d p = p\<lparr>buf := b\<rparr>"
  "fSmallFormat (move_line k d p) = fSmallFormat p" "cbBuffer (move_line k d p) = cbBuffer p"
  "CbPageHeader (move_line k d p) = CbPageHeader p" "ITagMicFree (move_line k d p) = ITagMicFree p"
  "CbTagArray (move_line k d p) = CbTagArray p" "tag_bits (move_line k d p) = tag_bits p"
  "PtagFromItag (move_line k d p) i = PtagFromItag p i" "PbFromIb (move_line k d p) i = PbFromIb p i"
  by (auto simp: move_line_def Let_def TAG_SetIb_def)

lemma reorg_preD:
  assumes "reorg_pre p d e (k # ks)"
  shows "int k < ITagMicFree p" "uint (word_of_int d :: u16) = d" "d < 2 ^ tag_bits p"
    "0 \<le> d" "d \<le> e" "k \<notin> set ks" "PbFromIb p e \<le> cbBuffer p - CbTagArray p"
    "t_cb (tags p ! k) \<noteq> 0 \<Longrightarrow> d \<le> t_ib (tags p ! k) \<and> t_ib (tags p ! k) + t_cb (tags p ! k) \<le> e"
    "0 \<le> t_cb (tags p ! k)" "d + t_cb (tags p ! k) \<le> e"
proof -
  show 1: "int k < ITagMicFree p" "0 \<le> d" "d \<le> e" "k \<notin> set ks"
    "PbFromIb p e \<le> cbBuffer p - CbTagArray p"
    using assms by (simp_all add: reorg_pre_def)
  show 2: "d < 2 ^ tag_bits p" using assms by (auto simp: reorg_pre_def)
  then have "d < 65536" by (auto simp: tag_bits_def split: if_splits)
  with 1 show "uint (word_of_int d :: u16) = d" by (simp add: word_conv)
  show 3: "t_cb (tags p ! k) \<noteq> 0 \<Longrightarrow> d \<le> t_ib (tags p ! k) \<and> t_ib (tags p ! k) + t_cb (tags p ! k) \<le> e"
    using assms unfolding reorg_pre_def by (meson list.set_intros(1))
  show "0 \<le> t_cb (tags p ! k)" using 1(1) by (simp add: nth_tags)
  show "d + t_cb (tags p ! k) \<le> e" using 3 1(3) by linarith
qed

lemma tags_move_line:
  assumes pre: "reorg_pre p d e (k # ks)"
  shows "tags (move_line k d p) = (tags p)[k := (tags p ! k)\<lparr>t_ib := d\<rparr>]"
proof -
  note D = reorg_preD [OF pre]
  let ?p1 = "if t_cb (tags p ! k) \<noteq> 0
    then upd_buf (memmove (PbFromIb p d) (PbFromIb p (t_ib (tags p ! k))) (t_cb (tags p ! k))) p else p"
  have t1: "tags ?p1 = tags p"
    by (rule tags_frame)
      (use D(7,10) in \<open>auto simp: memmove_def PbFromIb_def\<close>)
  have "tags (TAG_SetIb (PtagFromItag p (int k)) (word_of_int d) ?p1) =
    (tags ?p1)[k := (tags ?p1 ! k)\<lparr>t_ib := uint (word_of_int d :: u16)\<rparr>]"
    by (rule tags_SetIb) (use D in auto)
  then show ?thesis unfolding t1 D(2) by (simp only: move_line_def Let_def)
qed

lemma buf_move_line:
  assumes pre: "reorg_pre p d e (k # ks)" and i: "i < cbBuffer p - CbTagArray p"
  shows "buf (move_line k d p) i =
    (if PbFromIb p d \<le> i \<and> i < PbFromIb p d + t_cb (tags p ! k)
     then buf p (i - PbFromIb p d + PbFromIb p (t_ib (tags p ! k))) else buf p i)"
proof -
  note D = reorg_preD [OF pre]
  have "i < PtagFromItag p (int k) + 2"
    using i D(1) by (simp add: PtagFromItag_def CbTagArray_def cbTAG_def)
  then show ?thesis
    by (auto simp: move_line_def Let_def buf_SetIb memmove_def algebra_simps)
qed

lemma reorg_pre_step:
  assumes pre: "reorg_pre p d e (k # ks)"
  shows "reorg_pre (move_line k d p) (d + t_cb (tags p ! k)) e ks"
proof -
  note D = reorg_preD [OF pre]
  have same: "tags (move_line k d p) ! j = tags p ! j" if "j \<in> set ks" for j
    using that D(6) by (cases "j = k") (simp_all add: tags_move_line [OF pre])
  have B: "before (tags p ! k) (tags p ! j)" if "j \<in> set ks" for j
    using that pre by (simp add: reorg_pre_def)
  have "d + t_cb (tags p ! k) \<le> t_ib (tags p ! j)"
    if "j \<in> set ks" "t_cb (tags p ! j) \<noteq> 0" for j
    using B [OF that(1)] that D(8) pre by (cases "t_cb (tags p ! k) = 0") (auto simp: before_def reorg_pre_def)
  moreover have "sorted_wrt (\<lambda>i j. before (tags (move_line k d p) ! i) (tags (move_line k d p) ! j)) ks"
    using pre same by (auto simp: reorg_pre_def intro: sorted_wrt_mono_rel [rotated])
  ultimately show ?thesis
    using pre D(9,10) by (auto simp: reorg_pre_def same)
qed

lemma ReorganizeLoop_step:
  assumes pre: "reorg_pre p d e (k # ks)"
  shows "ReorganizeLoop (PtagFromItag p (int k) # ts) (word_of_int d) (PbFromIb p d) p =
    ReorganizeLoop ts (word_of_int (d + t_cb (tags p ! k))) (PbFromIb p (d + t_cb (tags p ! k)))
      (move_line k d p)"
proof -
  note D = reorg_preD [OF pre]
  let ?t = "PtagFromItag p (int k)"
  have c: "uint (TAG_Cb p ?t) = t_cb (tags p ! k)" "uint (TAG_Ib p ?t) = t_ib (tags p ! k)"
    using D(1) by (simp_all add: nth_tags)
  have t: "t_cb (tags (move_line k d p) ! k) = t_cb (tags p ! k)"
    using D(1) by (simp add: tags_move_line [OF pre])
  have c': "uint (TAG_Cb (move_line k d p) ?t) = t_cb (tags p ! k)"
    using D(1) t by (simp add: nth_tags)
  then have c'': "TAG_Cb (move_line k d p) ?t = word_of_int (t_cb (tags p ! k))"
    by (metis word_of_int_uint)
  have ok: "\<not> (t_cb (tags p ! k) \<noteq> 0 \<and> PbFromIb p (t_ib (tags p ! k)) < PbFromIb p d)"
    using D(8) by (auto simp: PbFromIb_def)
  have P: "PbFromIb p d + t_cb (tags p ! k) = PbFromIb p (d + t_cb (tags p ! k))"
    by (simp add: PbFromIb_def)
  have m: "TAG_SetIb ?t (word_of_int d)
      (if t_cb (tags p ! k) \<noteq> 0
       then upd_buf (memmove (PbFromIb p d) (PbFromIb p (t_ib (tags p ! k))) (t_cb (tags p ! k))) p
       else p) = move_line k d p"
    by (simp add: move_line_def Let_def)
  show ?thesis
    unfolding ReorganizeLoop.simps Let_def c m c' P using ok c''
    by (simp only: if_False of_int_add)
qed

subsection \<open>The whole loop\<close>

definition reorg_post :: "CPAGE \<Rightarrow> int \<Rightarrow> int \<Rightarrow> nat list \<Rightarrow> CPAGE \<Rightarrow> bool" where
  "reorg_post p d e ks q \<longleftrightarrow> (\<exists>b. q = p\<lparr>buf := b\<rparr>) \<and>
     (\<forall>k. k \<notin> set ks \<longrightarrow> int k < ITagMicFree p \<longrightarrow> tags q ! k = tags p ! k) \<and>
     (\<forall>k\<in>set ks. t_cb (tags q ! k) = t_cb (tags p ! k) \<and> d \<le> t_ib (tags q ! k) \<and>
        t_ib (tags q ! k) + t_cb (tags q ! k) \<le> e \<and>
        line_of q (tags q ! k) = line_of p (tags p ! k)) \<and>
     sorted_wrt (\<lambda>j k. t_ib (tags q ! j) + t_cb (tags q ! j) \<le> t_ib (tags q ! k)) ks \<and>
     (\<forall>i. i < PbFromIb p d \<longrightarrow> buf q i = buf p i)"

lemma line_of_move:
  assumes pre: "reorg_pre p d e (k # ks)" and j: "j = k \<or> j \<in> set ks"
  shows "line_of (move_line k d p) (tags (move_line k d p) ! j) = line_of p (tags p ! j)"
proof -
  note D = reorg_preD [OF pre]
  have below: "PbFromIb p a + i < cbBuffer p - CbTagArray p" if "i < c" "a + c \<le> e" for a c i
    using that D(7) by (simp add: PbFromIb_def)
  show ?thesis
  proof (cases "j = k")
    case True
    have "buf (move_line k d p) (PbFromIb p d + i) = buf p (PbFromIb p (t_ib (tags p ! k)) + i)"
      if i: "0 \<le> i" "i < t_cb (tags p ! k)" for i
      using i D(4) buf_move_line [OF pre below [OF i(2) D(10)]] by (simp add: algebra_simps)
    with True D(1) show ?thesis
      by (intro line_of_eqI) (simp_all add: tags_move_line [OF pre])
  next
    case False
    with j have jks: "j \<in> set ks" by simp
    have same: "tags (move_line k d p) ! j = tags p ! j"
      using False by (simp add: tags_move_line [OF pre])
    have "buf (move_line k d p) i = buf p i"
      if i: "PbFromIb p (t_ib (tags p ! j)) \<le> i" "i < PbFromIb p (t_ib (tags p ! j)) + t_cb (tags p ! j)" for i
    proof -
      have J: "t_cb (tags p ! j) \<noteq> 0" using i by auto
      have le: "t_ib (tags p ! j) + t_cb (tags p ! j) \<le> e"
        using pre J jks by (simp add: reorg_pre_def)
      have B: "before (tags p ! k) (tags p ! j)" using pre jks by (simp add: reorg_pre_def)
      have "PbFromIb p d + t_cb (tags p ! k) \<le> i" if "t_cb (tags p ! k) \<noteq> 0"
        using B J D(8) that i(1) by (auto simp: before_def PbFromIb_def)
      moreover have "i < cbBuffer p - CbTagArray p"
        using i le D(7) by (simp add: PbFromIb_def)
      ultimately show ?thesis using buf_move_line [OF pre] by auto
    qed
    then show ?thesis unfolding same by (intro line_of_cong) simp_all
  qed
qed

lemma reorg_post_step:
  assumes pre: "reorg_pre p d e (k # ks)" and e': "d + t_cb (tags p ! k) \<le> e'"
    and post: "reorg_post (move_line k d p) (d + t_cb (tags p ! k)) e' ks q"
  shows "reorg_post p d e' (k # ks) q"
proof -
  note D = reorg_preD [OF pre]
  let ?m = "move_line k d p"
  have kq: "tags q ! k = (tags p ! k)\<lparr>t_ib := d\<rparr>"
    using post D(1,6) by (simp add: reorg_post_def tags_move_line [OF pre])
  have jm: "tags ?m ! j = tags p ! j" if "j \<noteq> k" for j
    using that by (simp add: tags_move_line [OF pre])
  have shape: "\<exists>b. q = p\<lparr>buf := b\<rparr>"
  proof -
    obtain b where "move_line k d p = p\<lparr>buf := b\<rparr>" using move_line_fields(1) [of k d p] ..
    with post show ?thesis by (auto simp: reorg_post_def)
  qed
  have frame: "buf q i = buf p i" if "i < PbFromIb p d" for i
  proof -
    have "i < PbFromIb ?m (d + t_cb (tags p ! k))" using that D(9) by (simp add: PbFromIb_def)
    then have "buf q i = buf ?m i" using post by (simp add: reorg_post_def)
    moreover have "i < cbBuffer p - CbTagArray p" using that D(5,7) by (simp add: PbFromIb_def)
    ultimately show ?thesis using that by (simp add: buf_move_line [OF pre])
  qed
  have H: "CbPageHeader q = CbPageHeader p" using shape by auto
  have lk: "line_of q (tags q ! k) = line_of p (tags p ! k)"
  proof -
    have "line_of q (tags ?m ! k) = line_of ?m (tags ?m ! k)"
      using post D(1,9) H
      by (intro line_of_cong) (auto simp: reorg_post_def tags_move_line [OF pre] PbFromIb_def)
    then show ?thesis using line_of_move [OF pre, of k] kq D(1)
      by (simp add: tags_move_line [OF pre])
  qed
  have main: "t_cb (tags q ! j) = t_cb (tags p ! j) \<and> d \<le> t_ib (tags q ! j) \<and>
      t_ib (tags q ! j) + t_cb (tags q ! j) \<le> e' \<and> line_of q (tags q ! j) = line_of p (tags p ! j)"
    if "j \<in> set (k # ks)" for j
  proof (cases "j = k")
    case True
    with kq lk e' show ?thesis by simp
  next
    case False
    then have j: "j \<in> set ks" using that by simp
    then have "line_of q (tags q ! j) = line_of ?m (tags ?m ! j)"
      using post by (simp add: reorg_post_def)
    with j line_of_move [OF pre, of j] have "line_of q (tags q ! j) = line_of p (tags p ! j)" by simp
    with j False post jm D(9) show ?thesis by (auto simp: reorg_post_def)
  qed
  have rest: "tags q ! j = tags p ! j" if "j \<notin> set (k # ks)" "int j < ITagMicFree p" for j
    using that post jm by (simp add: reorg_post_def)
  have "sorted_wrt (\<lambda>j k. t_ib (tags q ! j) + t_cb (tags q ! j) \<le> t_ib (tags q ! k)) (k # ks)"
    using post kq by (auto simp: reorg_post_def)
  with shape frame main rest show ?thesis unfolding reorg_post_def by blast
qed

lemma ReorganizeLoop_spec:
  assumes "reorg_pre p d e ks"
  obtains q where
    "ReorganizeLoop (map (\<lambda>k. PtagFromItag p (int k)) ks) (word_of_int d) (PbFromIb p d) p =
      Some (word_of_int (d + sum_list (map (\<lambda>k. t_cb (tags p ! k)) ks)), q)"
    "d + sum_list (map (\<lambda>k. t_cb (tags p ! k)) ks) \<le> e"
    "reorg_post p d (d + sum_list (map (\<lambda>k. t_cb (tags p ! k)) ks)) ks q"
  using assms
proof (induction ks arbitrary: p d thesis)
  case Nil
  have "reorg_post p d d [] p" by (auto simp: reorg_post_def intro: exI [of _ "buf p"])
  with Nil show ?case by (simp add: reorg_pre_def)
next
  case (Cons k ks)
  note pre = Cons.prems(2)
  note D = reorg_preD [OF pre]
  let ?m = "move_line k d p" and ?S = "sum_list (map (\<lambda>k. t_cb (tags p ! k)) ks)"
  have same: "map (\<lambda>k. t_cb (tags ?m ! k)) ks = map (\<lambda>k. t_cb (tags p ! k)) ks"
  proof (rule map_cong [OF refl])
    fix j assume "j \<in> set ks"
    then have "j \<noteq> k" using D(6) by auto
    then show "t_cb (tags ?m ! j) = t_cb (tags p ! j)" by (simp add: tags_move_line [OF pre])
  qed
  obtain q where q:
    "ReorganizeLoop (map (\<lambda>k. PtagFromItag p (int k)) ks) (word_of_int (d + t_cb (tags p ! k)))
      (PbFromIb p (d + t_cb (tags p ! k))) ?m = Some (word_of_int (d + t_cb (tags p ! k) + ?S), q)"
    "d + t_cb (tags p ! k) + ?S \<le> e" "reorg_post ?m (d + t_cb (tags p ! k)) (d + t_cb (tags p ! k) + ?S) ks q"
    using Cons.IH [OF _ reorg_pre_step [OF pre]] unfolding same by auto
  have "0 \<le> ?S"
    by (rule sum_list_nonneg) (use pre in \<open>auto simp: reorg_pre_def nth_tags\<close>)
  then have "reorg_post p d (d + (t_cb (tags p ! k) + ?S)) (k # ks) q"
    using reorg_post_step [OF pre _ q(3)] by (simp add: add.assoc)
  with q(1,2) show ?case
    by (intro Cons.prems(1) [of q])
      (simp_all add: ReorganizeLoop_step [OF pre] add.assoc del: ReorganizeLoop.simps)
qed

subsection \<open>The compaction\<close>

lemma insort_key_map: "insort_key f (g x) (map g xs) = map g (insort_key (\<lambda>x. f (g x)) x xs)"
  by (induction xs) auto

lemma sort_key_map: "sort_key f (map g xs) = map g (sort_key (\<lambda>x. f (g x)) xs)"
  by (induction xs) (simp_all add: insort_key_map)

definition itags_by_ib :: "CPAGE \<Rightarrow> nat list" where
  "itags_by_ib p = sort_key (\<lambda>k. t_ib (tags p ! k)) [0..<nat (ITagMicFree p)]"

lemma sort_key_cong: "(\<And>x. x \<in> set xs \<Longrightarrow> f x = g x) \<Longrightarrow> sort_key f xs = sort_key g xs"
proof (induction xs)
  case (Cons x xs)
  have "insort_key f x ys = insort_key g x ys" if "\<And>y. y \<in> set (x # ys) \<Longrightarrow> f y = g y" for ys
    using that by (induction ys) auto
  from this [of "sort_key g xs"] Cons show ?case by simp
qed simp

lemma rgptag_sorted:
  "sort_key (\<lambda>ptag. uint (TAG_Ib p ptag)) (rgptag p) =
    map (\<lambda>k. PtagFromItag p (int k)) (itags_by_ib p)"
proof -
  have "[0..ITagMicFree p - 1] = map int [0..<nat (ITagMicFree p)]"
    by (rule nth_equalityI) simp_all
  then have "rgptag p = map (\<lambda>k. PtagFromItag p (int k)) [0..<nat (ITagMicFree p)]"
    by (simp add: rgptag_def comp_def)
  moreover have "sort_key (\<lambda>k. uint (TAG_Ib p (PtagFromItag p (int k))))
      [0..<nat (ITagMicFree p)] = itags_by_ib p"
    unfolding itags_by_ib_def by (rule sort_key_cong) (simp add: nth_tags)
  ultimately show ?thesis by (simp add: sort_key_map)
qed

lemma itags_by_ib_set: "set (itags_by_ib p) = {k. int k < ITagMicFree p}"
  by (auto simp: itags_by_ib_def)

lemma itags_by_ib_sum:
  "sum_list (map (\<lambda>k. t_cb (tags p ! k)) (itags_by_ib p)) = sum_list (map t_cb (tags p))"
proof -
  let ?f = "\<lambda>k. t_cb (tags p ! k)"
  have "sum_mset (mset (map ?f (itags_by_ib p))) = sum_mset (mset (map ?f [0..<nat (ITagMicFree p)]))"
    by (simp add: itags_by_ib_def)
  then have "sum_list (map ?f (itags_by_ib p)) = sum_list (map ?f [0..<nat (ITagMicFree p)])"
    by (simp only: sum_mset_sum_list)
  also have "map ?f [0..<nat (ITagMicFree p)] = map t_cb (tags p)"
    by (rule nth_equalityI) simp_all
  finally show ?thesis .
qed

lemma tags_okD:
  assumes "tags_ok p" "int k < ITagMicFree p" "t_cb (tags p ! k) \<noteq> 0"
  shows "t_ib (tags p ! k) + t_cb (tags p ! k) \<le> uint (ibMicFree (pghdr p))"
  using assms nth_mem [of k "tags p"] unfolding tags_ok_def list_all_iff by auto

lemma tags_ok_apart:
  assumes "tags_ok p" "int j < ITagMicFree p" "int k < ITagMicFree p" "j \<noteq> k"
  shows "apart (tags p ! j) (tags p ! k)"
proof -
  have *: "apart (tags p ! a) (tags p ! b)" if "a < b" "int b < ITagMicFree p" for a b
    using assms(1) that by (simp add: tags_ok_def sorted_wrt_iff_nth_less)
  show ?thesis
    using * [of j k] * [of k j] assms(2-) apart_sym by (cases "j < k") auto
qed

lemma reorg_pre_all:
  assumes "shape_ok p" "tags_ok p"
  shows "reorg_pre p 0 (uint (ibMicFree (pghdr p))) (itags_by_ib p)"
proof -
  let ?m = "uint (ibMicFree (pghdr p))" and ?ks = "itags_by_ib p"
  have fit: "PbFromIb p ?m \<le> cbBuffer p - CbTagArray p" "?m < 2 ^ tag_bits p"
    using assms(2) data_fits [OF assms(1)] CbTagArray_nonneg [of p]
    by (auto simp: tags_ok_def PbFromIb_def CbBufferData_def)
  have ks: "distinct ?ks" "sorted (map (\<lambda>k. t_ib (tags p ! k)) ?ks)"
    by (simp_all add: itags_by_ib_def)
  have "before (tags p ! (?ks ! i)) (tags p ! (?ks ! j))" if "i < j" "j < length ?ks" for i j
  proof -
    have "?ks ! i \<in> set ?ks" "?ks ! j \<in> set ?ks" using that by simp_all
    then have "apart (tags p ! (?ks ! i)) (tags p ! (?ks ! j))"
      using that ks(1) nth_eq_iff_index_eq [of ?ks i j]
      by (intro tags_ok_apart [OF assms(2)]) (auto simp: itags_by_ib_set)
    moreover have "t_ib (tags p ! (?ks ! i)) \<le> t_ib (tags p ! (?ks ! j))"
      using sorted_nth_mono [OF ks(2), of i j] that by simp
    moreover have "0 \<le> t_cb (tags p ! (?ks ! j))"
      using \<open>?ks ! j \<in> set ?ks\<close> by (auto simp: itags_by_ib_set intro!: tag_nonneg(2) nth_mem)
    ultimately show ?thesis by (auto simp: apart_def before_def)
  qed
  moreover have "0 \<le> t_ib (tags p ! k)" if "k \<in> set ?ks" for k
    using that by (auto simp: itags_by_ib_set intro!: tag_nonneg(1) nth_mem)
  ultimately show ?thesis
    using fit ks(1) tags_okD [OF assms(2)]
    by (auto simp: reorg_pre_def itags_by_ib_set sorted_wrt_iff_nth_less)
qed

lemma reorg_post_lines:
  assumes "reorg_post p 0 e (itags_by_ib p) q"
  shows "map t_cb (tags q) = map t_cb (tags p)" "lines q = lines p"
    "list_all (\<lambda>t. t_ib t + t_cb t \<le> e) (tags q)" "sorted_wrt apart (tags q)"
proof -
  let ?ks = "itags_by_ib p"
  have n: "ITagMicFree q = ITagMicFree p" using assms by (auto simp: reorg_post_def)
  have main: "t_cb (tags q ! k) = t_cb (tags p ! k) \<and> t_ib (tags q ! k) + t_cb (tags q ! k) \<le> e \<and>
      line_of q (tags q ! k) = line_of p (tags p ! k)" if "int k < ITagMicFree p" for k
    using assms that unfolding reorg_post_def by (simp add: itags_by_ib_set) metis
  then show "map t_cb (tags q) = map t_cb (tags p)" "lines q = lines p"
    by (auto simp: n lines_def intro!: nth_equalityI)
  show "list_all (\<lambda>t. t_ib t + t_cb t \<le> e) (tags q)"
    using conjunct1 [OF conjunct2 [OF main]] by (simp add: list_all_length n zless_nat_eq_int_zless)
  have srt: "apart (tags q ! (?ks ! i)) (tags q ! (?ks ! j))" if "i < j" "j < length ?ks" for i j
    using assms that by (auto simp: reorg_post_def sorted_wrt_iff_nth_less apart_def)
  have "apart (tags q ! j) (tags q ! k)" if "j < k" "k < length (tags q)" for j k
  proof -
    have "j \<in> set ?ks" "k \<in> set ?ks" using that n by (auto simp: itags_by_ib_set)
    then obtain a b where ab: "a < length ?ks" "?ks ! a = j" "b < length ?ks" "?ks ! b = k"
      by (metis in_set_conv_nth)
    with that(1) have "a < b \<or> b < a" by (metis less_irrefl linorder_neqE_nat)
    with ab srt apart_sym show ?thesis by blast
  qed
  then show "sorted_wrt apart (tags q)" by (simp add: sorted_wrt_iff_nth_less)
qed


lemma lines_frame:
  assumes "fSmallFormat q = fSmallFormat p" "cbBuffer q = cbBuffer p" "ITagMicFree q = ITagMicFree p"
    "\<And>i. cbBuffer p - CbTagArray p \<le> i \<Longrightarrow> i < cbBuffer p \<Longrightarrow> buf q i = buf p i"
    "\<And>t i. t \<in> set (tags p) \<Longrightarrow> PbFromIb p (t_ib t) \<le> i \<Longrightarrow> i < PbFromIb p (t_ib t) + t_cb t \<Longrightarrow>
      buf q i = buf p i"
  shows "lines q = lines p"
proof -
  have t: "tags q = tags p" by (rule tags_frame [OF assms(1-4)])
  have "CbPageHeader q = CbPageHeader p" using assms(1) by (simp add: CbPageHeader_def)
  then have "line_of q t = line_of p t" if "t \<in> set (tags p)" for t
    using assms(5) [OF that] by (intro line_of_cong)
  with t show ?thesis by (simp add: lines_def)
qed

lemma ReorganizeData_spec:
  assumes "shape_ok p" "tags_ok p"
  obtains q where "ReorganizeData p = Some q"
    "q = p\<lparr>buf := buf q, pghdr := (pghdr p)\<lparr>ibMicFree := ibMicFree (pghdr q)\<rparr>\<rparr>"
    "uint (ibMicFree (pghdr q)) = sum_list (map t_cb (tags p))"
    "sum_list (map t_cb (tags p)) \<le> uint (ibMicFree (pghdr p))"
    "lines q = lines p" "map t_cb (tags q) = map t_cb (tags p)" "tags_ok q"
proof -
  let ?S = "sum_list (map t_cb (tags p))"
  obtain q where
    loop: "ReorganizeLoop (map (\<lambda>k. PtagFromItag p (int k)) (itags_by_ib p)) 0 (PbFromIb p 0) p =
      Some (word_of_int ?S, q)"
    and le: "?S \<le> uint (ibMicFree (pghdr p))" and post: "reorg_post p 0 ?S (itags_by_ib p) q"
    using ReorganizeLoop_spec [OF reorg_pre_all [OF assms]] unfolding itags_by_ib_sum by auto
  obtain b where b: "q = p\<lparr>buf := b\<rparr>" using post by (auto simp: reorg_post_def)
  note L = reorg_post_lines [OF post, unfolded b]
  have "0 \<le> ?S" using tag_nonneg(2) by (auto intro!: sum_list_nonneg)
  moreover have "?S < 65536" using le uint16_less [of "ibMicFree (pghdr p)"] by linarith
  ultimately have S: "uint (word_of_int ?S :: u16) = ?S" by (simp add: word_conv)
  let ?p1 = "set_ibMicFree (word_of_int ?S) (p\<lparr>buf := b\<rparr>)"
  let ?q = "if fScrubbing p then upd_buf (memset (PbFromIb ?p1 ?S) chPAGEReorgContiguousFreeFill
      (CbContiguousBufferFree ?p1)) ?p1 else ?p1"
  have q: "ReorganizeData p = Some ?q"
    unfolding ReorganizeData_def rgptag_sorted loop b by (simp add: S Let_def)
  have ends: "PbFromIb ?p1 ?S + CbContiguousBufferFree ?p1 = cbBuffer p - CbTagArray p"
    by (simp add: PbFromIb_def CbContiguousBufferFree_def CbBufferData_def S)
  have "lines ?q = lines ?p1"
  proof (rule lines_frame)
    fix t i
    assume t: "t \<in> set (tags ?p1)" and i: "i < PbFromIb ?p1 (t_ib t) + t_cb t"
    from t L(3) have "t_ib t + t_cb t \<le> ?S" by (simp add: list_all_iff)
    with i show "buf ?q i = buf ?p1 i" by (auto simp: memset_def PbFromIb_def)
  qed (use ends in \<open>auto simp: memset_def\<close>)
  then have lq: "lines ?q = lines p" using L(2) by simp
  have "tags ?q = tags ?p1"
    by (rule tags_frame) (use ends in \<open>auto simp: memset_def\<close>)
  then have tq: "tags ?q = tags (p\<lparr>buf := b\<rparr>)" by simp
  have ok: "tags_ok ?q"
    unfolding tags_ok_def tq using L(3,4) assms(2) le
    by (auto simp: tags_ok_def S list_all_iff)
  show thesis
    by (rule that [of ?q]) (use q lq tq L(1) ok le in \<open>simp_all add: S\<close>)
qed

end
