(* ===== verification/Page_Lines.thy ===== *)
theory Page_Lines
  imports Page_Reorg
begin

text \<open>
  The pieces of the line operations of \<open>CPAGE\<close>: the free-space guard, the growing tag array
  (Duff's device), the setters applied to one tag, and the writing of the bytes of a line.
\<close>

subsection \<open>The free-space guard\<close>

lemma cbs_le_mic:
  assumes "shape_ok p" "tags_ok p"
  shows "sum_list (map t_cb (tags p)) \<le> uint (ibMicFree (pghdr p))"
  using ReorganizeData_spec [OF assms] by blast

lemma page_ok_reorg:
  assumes ok: "page_ok p"
    and q: "q = p\<lparr>buf := buf q, pghdr := (pghdr p)\<lparr>ibMicFree := ibMicFree (pghdr q)\<rparr>\<rparr>"
    and t: "map t_cb (tags q) = map t_cb (tags p)" "tags_ok q"
  shows "page_ok q"
proof -
  let ?q = "p\<lparr>buf := buf q, pghdr := (pghdr p)\<lparr>ibMicFree := ibMicFree (pghdr q)\<rparr>\<rparr>"
  have "shape_ok ?q \<and> itags_ok ?q" using ok by (simp add: page_ok_def shape_ok_def itags_ok_def)
  moreover have "cbFree (pghdr q) = cbFree (pghdr p)" by (subst q) simp
  moreover have "CbBufferData q = CbBufferData p" "CbTagArray q = CbTagArray p" by (subst q, simp)+
  ultimately show ?thesis using ok t q by (simp add: page_ok_def free_ok_def)
qed

lemma FreeSpace_spec:
  assumes ok: "page_ok p" and norm: "FIsNormalSized p" and cb: "cb \<le> uint (cbFree (pghdr p))"
  obtains q where "FreeSpace cb p = Some q"
    "q = p\<lparr>buf := buf q, pghdr := (pghdr p)\<lparr>ibMicFree := ibMicFree (pghdr q)\<rparr>\<rparr>"
    "page_ok q" "lines q = lines p" "map t_cb (tags q) = map t_cb (tags p)"
    "cb \<le> CbContiguousFree q"
proof (cases "CbContiguousFree p < cb")
  case False
  with that [of p] ok show thesis by (simp add: FreeSpace_def)
next
  case True
  have s: "shape_ok p" "tags_ok p" using ok by (simp_all add: page_ok_def)
  obtain q where q: "ReorganizeData p = Some q"
    "q = p\<lparr>buf := buf q, pghdr := (pghdr p)\<lparr>ibMicFree := ibMicFree (pghdr q)\<rparr>\<rparr>"
    "uint (ibMicFree (pghdr q)) = sum_list (map t_cb (tags p))"
    "lines q = lines p" "map t_cb (tags q) = map t_cb (tags p)" "tags_ok q"
    using ReorganizeData_spec [OF s] by blast
  have okq: "page_ok q" by (rule page_ok_reorg [OF ok q(2,5,6)])
  have norm': "FIsNormalSized q" using norm by (subst q(2)) (simp add: FIsNormalSized_def)
  have "CbContiguousFree q = CbBufferData q - CbTagArray q - sum_list (map t_cb (tags p))"
    using okq norm' q(3) by (simp add: page_ok_def CbContiguous_normal)
  also have "\<dots> = uint (cbFree (pghdr q))" using okq q(5) by (simp add: page_ok_def free_ok_def)
  also have "\<dots> = uint (cbFree (pghdr p))" by (subst q(2)) simp
  finally have "cb \<le> CbContiguousFree q" using cb by simp
  with True q okq that show thesis by (simp add: FreeSpace_def)
qed

lemma FreeSpace_None:
  assumes ok: "page_ok p" and norm: "FIsNormalSized p" and cb: "uint (cbFree (pghdr p)) < cb"
  shows "FreeSpace cb p = None"
proof -
  have le: "CbContiguousFree q \<le> uint (cbFree (pghdr q))" if "page_ok q" "FIsNormalSized q" for q
    using that cbs_le_mic [of q] by (simp add: page_ok_def free_ok_def CbContiguous_normal)
  have s: "shape_ok p" "tags_ok p" using ok by (simp_all add: page_ok_def)
  obtain q where q: "ReorganizeData p = Some q"
    "q = p\<lparr>buf := buf q, pghdr := (pghdr p)\<lparr>ibMicFree := ibMicFree (pghdr q)\<rparr>\<rparr>"
    "map t_cb (tags q) = map t_cb (tags p)" "tags_ok q"
    using ReorganizeData_spec [OF s] by blast
  have "page_ok q" by (rule page_ok_reorg [OF ok q(2-4)])
  moreover have "FIsNormalSized q" using norm by (subst q(2)) (simp add: FIsNormalSized_def)
  moreover have "cbFree (pghdr q) = cbFree (pghdr p)" by (subst q(2)) simp
  ultimately show ?thesis using cb le [of q] le [OF ok norm] q(1) by (simp add: FreeSpace_def)
qed

subsection \<open>The tag array grows\<close>

lemma copy_dwords_add:
  "copy_dwords (m + n) pdw b = copy_dwords n (pdw + 4 * int m) (copy_dwords m pdw b)"
  by (induction m arbitrary: pdw b) (simp_all add: algebra_simps)

lemma copy_dwords_memmove: "copy_dwords n pdw b = memmove pdw (pdw + 4) (4 * int n) b"
proof (induction n arbitrary: pdw b)
  case (Suc n)
  show ?case
    by (simp only: copy_dwords.simps Suc) (rule ext, auto simp: memmove_def)
qed (auto simp: memmove_def fun_eq_iff)

lemma duff_copy_dwords:
  "0 < c \<Longrightarrow> duff_copy (pdw + 4 * int c) (c mod 8) pdw b = copy_dwords c pdw b"
proof (induction c arbitrary: pdw b rule: less_induct)
  case (less c)
  define n where "n = (if c mod 8 = 0 then 8 else c mod 8)"
  have n: "0 < n" "n \<le> c" "(c - n) mod 8 = 0"
    using less.prems unfolding n_def by (auto split: if_splits)
  define m where "m = c - n"
  have c: "c = n + m" and m: "m mod 8 = 0" using n by (simp_all add: m_def)
  have "duff_copy (pdw + 4 * int c) 0 (pdw + 4 * int n) (copy_dwords n pdw b) =
      copy_dwords m (pdw + 4 * int n) (copy_dwords n pdw b)" if "0 < m"
    using less.IH [of m "pdw + 4 * int n" "copy_dwords n pdw b"] that c n(1) m
    by (simp add: algebra_simps)
  moreover have "duff_copy (pdw + 4 * int c) (c mod 8) pdw b =
      (if pdw + 4 * int n < pdw + 4 * int c
       then duff_copy (pdw + 4 * int c) 0 (pdw + 4 * int n) (copy_dwords n pdw b)
       else copy_dwords n pdw b)"
    by (subst duff_copy.simps) (simp add: Let_def n_def)
  ultimately show ?case
    using copy_dwords_add [of n m pdw b] by (cases "m = 0") (simp_all add: c)
qed


lemma SetITagState_fields [simp]:
  "cbBuffer (SetITagState m c p) = cbBuffer p" "cbPage (SetITagState m c p) = cbPage p"
  "fSmallFormat (SetITagState m c p) = fSmallFormat p" "buf (SetITagState m c p) = buf p"
  "fScrubbing (SetITagState m c p) = fScrubbing p" "fResvTagFormat (SetITagState m c p) = fResvTagFormat p"
  "m_itagMicFree (SetITagState m c p) = word_of_int m"
  "m_ctagReserved (SetITagState m c p) = word_of_int c"
  "ibMicFree (pghdr (SetITagState m c p)) = ibMicFree (pghdr p)"
  "cbFree (pghdr (SetITagState m c p)) = cbFree (pghdr p)"
  "CbPageHeader (SetITagState m c p) = CbPageHeader p"
  "PtagFromItag (SetITagState m c p) i = PtagFromItag p i" "PbFromIb (SetITagState m c p) i = PbFromIb p i"
  "CbBufferData (SetITagState m c p) = CbBufferData p" "tag_bits (SetITagState m c p) = tag_bits p"
  by (simp_all add: SetITagState_def Let_def size_defs)

lemma itag_state_word:
  assumes "0 \<le> m" "m \<le> 4095" "0 \<le> c" "c \<le> 15"
  shows "(push_bit 12 (word_of_int c) OR word_of_int m :: u16) AND 0x0fff = word_of_int m"
    "drop_bit 12 (push_bit 12 (word_of_int c) OR word_of_int m :: u16) = word_of_int c"
    "(word_of_int m :: u16) AND 0x0fff = word_of_int m" "drop_bit 12 (word_of_int m :: u16) = 0"
proof -
  have M: "(0x0fff :: u16) = mask 12" by (simp add: mask_eq_exp_minus_1)
  have m: "uint (word_of_int m :: u16) < 2 ^ 12" using assms by (simp add: word_conv)
  have c: "uint (word_of_int c :: u16) < 2 ^ 4" using assms by (simp add: word_conv)
  note t = take_bit_fits [OF m] take_bit_fits [OF c]
  show 1: "(word_of_int m :: u16) AND 0x0fff = word_of_int m" using fits_mask(1) [OF m] M by simp
  show 2: "drop_bit 12 (word_of_int m :: u16) = 0"
    using t(1) by (metis take_bit_eq_self_iff_drop_bit_eq_0)
  have "push_bit 12 (word_of_int c :: u16) AND mask 12 = 0"
    by (simp add: bit_eq_iff bit_and_iff bit_push_bit_iff bit_mask_iff)
  then show "(push_bit 12 (word_of_int c) OR word_of_int m :: u16) AND 0x0fff = word_of_int m"
    using 1 by (simp add: M bit.conj_disj_distrib2)
  have "drop_bit 12 (push_bit 12 (word_of_int c :: u16)) = take_bit 4 (word_of_int c)"
    by (auto simp: bit_eq_iff bit_drop_bit_eq bit_push_bit_iff bit_take_bit_iff)
  then show "drop_bit 12 (push_bit 12 (word_of_int c) OR word_of_int m :: u16) = word_of_int c"
    using 2 t(2) by simp
qed

lemma itags_ok_SetITagState:
  assumes "itags_ok p" "1 \<le> c" "c \<le> CTAG_RESERVED_MAX" "c \<le> m" "m \<le> 4095"
    "c = CTagReserved p \<or> fResvTagFormat p"
  shows "itags_ok (SetITagState m c p)"
proof -
  have b: "0 \<le> m" "0 \<le> c" "c \<le> 15" using assms by (simp_all add: CTAG_RESERVED_MAX_def)
  note W = itag_state_word [OF b(1) assms(5) b(2,3)]
  have u: "uint (word_of_int m :: u16) = m" "uint (word_of_int c :: u16) = c"
    using b assms(5) by (simp_all add: word_conv)
  have c1: "max 1 (word_of_int c) = (word_of_int c :: u16)"
    using u(2) assms(2) by (simp add: max_def word_le_def)
  have c2: "(word_of_int c :: u16) = 1"
    if "\<not> fResvTagFormat p" "\<not> 0 < drop_bit SHF_CTAG_RESERVED (itagState (pghdr p))"
  proof -
    have "word_of_int c = m_ctagReserved p"
      using that assms(6) by (simp add: CTagReserved_def)
    also have "\<dots> = 1" using assms(1) that(2) by (auto simp: itags_ok_def max_def word_greater_zero_iff)
    finally show ?thesis .
  qed
  let ?q = "SetITagState m c p"
  have n: "CTagReserved ?q = c" "ITagMicFree ?q = m"
    using u by (simp_all add: CTagReserved_def ITagMicFree_def)
  have st: "itagState (pghdr ?q) =
      (if fResvTagFormat p \<or> 0 < drop_bit SHF_CTAG_RESERVED (itagState (pghdr p))
       then push_bit 12 (word_of_int c) OR word_of_int m else word_of_int m)"
    by (simp add: SetITagState_def Let_def SHF_CTAG_RESERVED_def)
  show ?thesis
  proof (cases "fResvTagFormat p \<or> 0 < drop_bit SHF_CTAG_RESERVED (itagState (pghdr p))")
    case True
    then show ?thesis using assms(2-5) n W(1,2) c1 st
      by (simp only: itags_ok_def SetITagState_fields ITAG_MIC_FREE_MASK_def SHF_CTAG_RESERVED_def if_True)
  next
    case False
    have "max 1 (0 :: u16) = 1" by (simp add: max_def)
    with False show ?thesis using assms(2-5) n W(3,4) c2 st
      by (simp only: itags_ok_def SetITagState_fields ITAG_MIC_FREE_MASK_def SHF_CTAG_RESERVED_def if_False)
        simp
  qed
qed


lemma take_drop_nth:
  assumes "length xs = Suc (length ys)" "k \<le> length ys"
    "\<And>i. i < k \<Longrightarrow> xs ! i = ys ! i" "\<And>i. k < i \<Longrightarrow> i \<le> length ys \<Longrightarrow> xs ! i = ys ! (i - 1)"
  shows "xs = take k ys @ xs ! k # drop k ys"
proof (rule nth_equalityI)
  fix i assume i: "i < length xs"
  show "xs ! i = (take k ys @ xs ! k # drop k ys) ! i"
    using assms i by (cases "i < k"; cases "i = k") (auto simp: nth_append nth_Cons')
qed (use assms in simp)

lemma ExpandTagArray_buf:
  assumes "0 \<le> itag" "itag \<le> ITagMicFree p"
  shows "buf (ExpandTagArray itag p) =
    memmove (cbBuffer p - CbTagArray p - 4) (cbBuffer p - CbTagArray p) (4 * (ITagMicFree p - itag)) (buf p)"
proof (cases "itag = ITagMicFree p")
  case True
  then show ?thesis by (auto simp: ExpandTagArray_def SetITagMicFree_def memmove_def fun_eq_iff)
next
  case False
  define c where "c = nat (ITagMicFree p - itag)"
  have c: "0 < c" "ITagMicFree p - itag = int c" using False assms by (simp_all add: c_def)
  have A: "PtagFromItag p (ITagMicFree p) = cbBuffer p - CbTagArray p - 4"
    by (simp add: PtagFromItag_def CbTagArray_def cbTAG_def)
  have "nat (int c mod 8) = c mod 8" by (simp add: nat_mod_distrib)
  then show ?thesis
    using False c duff_copy_dwords [OF c(1), of "cbBuffer p - CbTagArray p - 4" "buf p"]
    by (simp add: ExpandTagArray_def SetITagMicFree_def Let_def A copy_dwords_memmove)
qed

lemma ExpandTagArray_fields [simp]:
  "cbBuffer (ExpandTagArray itag p) = cbBuffer p" "cbPage (ExpandTagArray itag p) = cbPage p"
  "fSmallFormat (ExpandTagArray itag p) = fSmallFormat p"
  "fScrubbing (ExpandTagArray itag p) = fScrubbing p"
  "fResvTagFormat (ExpandTagArray itag p) = fResvTagFormat p"
  "m_ctagReserved (ExpandTagArray itag p) = m_ctagReserved p"
  "m_itagMicFree (ExpandTagArray itag p) = word_of_int (ITagMicFree p + 1)"
  "ibMicFree (pghdr (ExpandTagArray itag p)) = ibMicFree (pghdr p)"
  "cbFree (pghdr (ExpandTagArray itag p)) = cbFree (pghdr p)"
  "CbPageHeader (ExpandTagArray itag p) = CbPageHeader p"
  "PtagFromItag (ExpandTagArray itag p) i = PtagFromItag p i"
  "PbFromIb (ExpandTagArray itag p) i = PbFromIb p i"
  "CbBufferData (ExpandTagArray itag p) = CbBufferData p" "tag_bits (ExpandTagArray itag p) = tag_bits p"
  "CTagReserved (ExpandTagArray itag p) = CTagReserved p"
  by (simp_all add: ExpandTagArray_def SetITagMicFree_def Let_def CTagReserved_def)

lemma ITagMicFree_Expand:
  "ITagMicFree p < 65535 \<Longrightarrow> ITagMicFree (ExpandTagArray itag p) = ITagMicFree p + 1"
proof -
  assume n: "ITagMicFree p < 65535"
  have "ITagMicFree (ExpandTagArray itag p) = uint (word_of_int (ITagMicFree p + 1) :: u16)"
    by (subst ITagMicFree_def) simp
  also have "\<dots> = ITagMicFree p + 1"
    using n by (intro uint16_of_int) (simp_all add: ITagMicFree_def)
  finally show ?thesis .
qed

lemma ExpandTagArray_spec:
  assumes "int k \<le> ITagMicFree p" "ITagMicFree p < 65535"
  defines "q \<equiv> ExpandTagArray (int k) p"
  shows "tags q = take k (tags p) @ tags q ! k # drop k (tags p)"
    "i < cbBuffer p - CbTagArray p - 4 \<Longrightarrow> buf q i = buf p i"
proof -
  note b = ExpandTagArray_buf [of "int k" p, folded q_def]
  have n: "ITagMicFree q = ITagMicFree p + 1"
    unfolding q_def by (rule ITagMicFree_Expand [OF assms(2)])
  have T: "CbTagArray p = 4 * ITagMicFree p" by (simp add: CbTagArray_def cbTAG_def)
  have P: "PtagFromItag q j = cbBuffer p - 4 * j - 4" "PtagFromItag p j = cbBuffer p - 4 * j - 4" for j
    by (simp_all add: q_def PtagFromItag_def cbTAG_def)
  have small: "fSmallFormat q = fSmallFormat p" by (simp add: q_def)
  show "tags q = take k (tags p) @ tags q ! k # drop k (tags p)"
  proof (rule take_drop_nth)
    show "length (tags q) = Suc (length (tags p))" using n CbTagArray_nonneg(2) [of p] by simp
    show "k \<le> length (tags p)" using assms(1) by simp
    fix i assume i: "i < k"
    have "tag_at q (PtagFromItag q (int i)) = tag_at p (PtagFromItag q (int i) + 0)"
      by (rule tag_at_cong [OF small])
        (use i assms(1) in \<open>auto simp: b memmove_def T P\<close>)
    then show "tags q ! i = tags p ! i" using i assms(1) n by (simp add: nth_tags P)
  next
    fix i assume i: "k < i" "i \<le> length (tags p)"
    have "tag_at q (PtagFromItag q (int i)) = tag_at p (PtagFromItag q (int i) + 4)"
      by (rule tag_at_cong [OF small])
        (use i assms(1) in \<open>auto simp: b memmove_def T P algebra_simps\<close>)
    then show "tags q ! i = tags p ! (i - 1)" using i assms(1) n by (simp add: nth_tags P of_nat_diff)
  qed
  show "i < cbBuffer p - CbTagArray p - 4 \<Longrightarrow> buf q i = buf p i"
    using assms(1) by (simp add: b memmove_def)
qed

subsection \<open>Setting one tag\<close>

text \<open>
  \<open>retag p k v q\<close>: \<open>q\<close> is \<open>p\<close> with tag \<open>k\<close> now reading \<open>v\<close>; nothing in front of the tag array
  has changed.  (The header may have.)
\<close>

definition same_obj :: "CPAGE \<Rightarrow> CPAGE \<Rightarrow> bool" where
  "same_obj p q \<longleftrightarrow> cbBuffer q = cbBuffer p \<and> cbPage q = cbPage p \<and>
     fSmallFormat q = fSmallFormat p \<and> m_itagMicFree q = m_itagMicFree p \<and>
     m_ctagReserved q = m_ctagReserved p \<and> fResvTagFormat q = fResvTagFormat p \<and>
     fScrubbing q = fScrubbing p"

definition retag :: "CPAGE \<Rightarrow> nat \<Rightarrow> tagv \<Rightarrow> CPAGE \<Rightarrow> bool" where
  "retag p k v q \<longleftrightarrow> same_obj p q \<and> tags q = (tags p)[k := v] \<and>
     (\<forall>i. i < cbBuffer p - CbTagArray p \<longrightarrow> buf q i = buf p i)"

lemma same_obj_fields:
  assumes "same_obj p q"
  shows "cbBuffer q = cbBuffer p" "cbPage q = cbPage p" "fSmallFormat q = fSmallFormat p"
    "fScrubbing q = fScrubbing p" "fResvTagFormat q = fResvTagFormat p"
    "m_itagMicFree q = m_itagMicFree p" "m_ctagReserved q = m_ctagReserved p"
    "ITagMicFree q = ITagMicFree p" "CTagReserved q = CTagReserved p" "CbTagArray q = CbTagArray p"
    "CbPageHeader q = CbPageHeader p" "PtagFromItag q i = PtagFromItag p i"
    "PbFromIb q j = PbFromIb p j" "CbBufferData q = CbBufferData p" "tag_bits q = tag_bits p"
    "CbAdjustForPage q = CbAdjustForPage p"
  using assms by (simp_all add: same_obj_def size_defs)

lemma same_obj_refl [simp]: "same_obj p p"
  by (simp add: same_obj_def)

lemma same_obj_upd [simp]:
  "same_obj p (q\<lparr>pghdr := h\<rparr>) = same_obj p q" "same_obj p (q\<lparr>buf := b\<rparr>) = same_obj p q"
  "same_obj (p\<lparr>pghdr := h\<rparr>) q = same_obj p q" "same_obj (p\<lparr>buf := b\<rparr>) q = same_obj p q"
  "same_obj p (TAG_SetIb t x q) = same_obj p q" "same_obj p (TAG_SetCb t x q) = same_obj p q"
  "same_obj p (TAG_SetFlags t x q) = same_obj p q" "same_obj p (CopyData t d q) = same_obj p q"
  by (simp_all add: same_obj_def)

lemma same_obj_trans: "same_obj p q \<Longrightarrow> same_obj q r \<Longrightarrow> same_obj p r"
  by (simp add: same_obj_def)

lemma retag_fields:
  assumes "retag p k v q"
  shows "same_obj p q" "tags q = (tags p)[k := v]"
    "i < cbBuffer p - CbTagArray p \<Longrightarrow> buf q i = buf p i"
  using assms by (simp_all add: retag_def)

lemma retag_trans: "retag p k v q \<Longrightarrow> retag q k w r \<Longrightarrow> retag p k w r"
  using same_obj_fields [of p q] same_obj_trans [of p q r] by (simp add: retag_def)

lemma retag_hdr: "retag p k v q \<Longrightarrow> retag p k v (q\<lparr>pghdr := h\<rparr>)"
  by (simp add: retag_def)

lemma retag_refl: "v = tags p ! k \<Longrightarrow> int k < ITagMicFree p \<Longrightarrow> retag p k v p"
  by (simp add: retag_def)

lemma below_tag:
  assumes "int k < ITagMicFree p" "i < cbBuffer p - CbTagArray p"
  shows "i < PtagFromItag p (int k)" "i < PtagFromItag p (int k) + 2"
  using assms by (simp_all add: PtagFromItag_def CbTagArray_def cbTAG_def)

lemma retag_SetIb:
  assumes "uint x < 2 ^ tag_bits p" "t = PtagFromItag p (int k)" "int k < ITagMicFree p"
  shows "retag p k ((tags p ! k)\<lparr>t_ib := uint x\<rparr>) (TAG_SetIb t x p)"
  using tags_SetIb [OF assms] below_tag [OF assms(3)] assms(2)
  by (simp add: retag_def buf_SetIb)

lemma retag_SetCb:
  assumes "uint x < 2 ^ tag_bits p" "t = PtagFromItag p (int k)" "int k < ITagMicFree p"
  shows "retag p k ((tags p ! k)\<lparr>t_cb := uint x\<rparr>) (TAG_SetCb t x p)"
  using tags_SetCb [OF assms] below_tag [OF assms(3)] assms(2)
  by (simp add: retag_def buf_SetCb)

text \<open>The flags of a tag whose line has no word of its own.\<close>

definition tag_flags :: "CPAGE \<Rightarrow> u16 \<Rightarrow> u16" where
  "tag_flags p fl = (if fSmallFormat p then fl AND 7 else 0)"

lemma retag_SetFlags_short:
  assumes "t = PtagFromItag p (int k)" "int k < ITagMicFree p" "t_cb (tags p ! k) < 2"
  shows "retag p k ((tags p ! k)\<lparr>t_fl := tag_flags p x\<rparr>) (TAG_SetFlags t x p)"
proof (cases "fSmallFormat p")
  case True
  then show ?thesis
    using tags_SetFlags_small [OF True assms(1,2)] below_tag [OF assms(2)] assms(1)
    by (simp add: retag_def buf_SetFlags_small tag_flags_def)
next
  case False
  have "(tags p ! k)\<lparr>t_fl := 0\<rparr> = tags p ! k"
    using False assms(2) by (simp add: nth_tags tag_at_def tag_fl_def)
  then show ?thesis
    using False assms by (simp add: SetFlags_none retag_refl tag_flags_def nth_tags)
qed

subsection \<open>Writing the bytes of a line\<close>

text \<open>
  What is stored for the bytes \<open>bs\<close> and flags \<open>fl\<close>: on large pages, except in the external
  header (tag 0) and in lines of less than two bytes, the flags replace the top three
  bits of the second byte.
\<close>

definition stamp :: "u16 \<Rightarrow> u8 list \<Rightarrow> u8 list" where
  "stamp fl bs = bs[1 := (bs ! 1 AND 0x1f) OR push_bit 5 (ucast fl)]"

definition stored :: "CPAGE \<Rightarrow> nat \<Rightarrow> u16 \<Rightarrow> u8 list \<Rightarrow> line" where
  "stored p itag fl bs = (tag_flags p fl,
     if fSmallFormat p \<or> itag = 0 \<or> length bs < 2 then bs else stamp fl bs)"

lemma length_stamp [simp]: "length (stamp fl bs) = length bs"
  by (simp add: stamp_def)

lemma length_stored [simp]: "length (snd (stored p itag fl bs)) = length bs"
  by (simp add: stored_def)

lemma stored_flags7: "stored p itag (fl AND 7) bs = stored p itag fl bs"
proof -
  have "push_bit 5 (ucast (fl AND 7) :: u8) = push_bit 5 (ucast fl)"
  proof -
    have "(7 :: u16) = mask 3" by (simp add: mask_eq_exp_minus_1)
    then show ?thesis
      by (auto simp: bit_eq_iff bit_push_bit_iff bit_ucast_iff bit_and_iff bit_mask_iff)
  qed
  then show ?thesis by (simp add: stored_def tag_flags_def stamp_def and.assoc)
qed

lemma wr16_stamp:
  "wr16 a ((rd16 b a AND NOT mskTagFlags) OR push_bit shfTagFlags w) b =
    b(a + 1 := (b (a + 1) AND 0x1f) OR push_bit 5 (ucast w))"
proof -
  have m: "NOT mskTagFlags = mask 13" "(0x1f :: u8) = mask 5"
    by (simp_all add: flags_mask mask_eq_exp_minus_1)
  have lo: "ucast ((rd16 b a AND mask 13) OR push_bit 13 w) = b a"
    by (rule bit_word_eqI)
      (auto simp: rd16_def bit_or_iff bit_and_iff bit_push_bit_iff bit_ucast_iff bit_mask_iff)
  have hi: "ucast (drop_bit 8 ((rd16 b a AND mask 13) OR push_bit 13 w)) =
      (b (a + 1) AND mask 5) OR push_bit 5 (ucast w)"
    by (rule bit_word_eqI)
      (auto simp: rd16_def bit_or_iff bit_and_iff bit_push_bit_iff bit_ucast_iff bit_mask_iff
        bit_drop_bit_eq dest: bit_imp_le_length)
  show ?thesis unfolding wr16_def shfTagFlags_def m lo hi by (auto simp: fun_eq_iff)
qed

lemma CopyLines_OffPage: "CopyLines pb (map OffPage bss) b = store_bytes pb (concat bss) b"
proof (induction bss arbitrary: pb b)
  case (Cons bs bss)
  show ?case
    by (auto simp: Cons store_bytes_def fun_eq_iff nth_append intro!: arg_cong [of _ _ "(!) (concat bss)"])
qed (auto simp: store_bytes_def fun_eq_iff)

lemma CbDataTotal_OffPage: "CbDataTotal (map OffPage bss) = int (length (concat bss))"
  by (induction bss) auto

text \<open>
  \<open>write_line\<close>: setting the flags and copying the data, as \<open>Insert_\<close> and \<open>Replace_\<close> do it,
  stores exactly \<open>stored p k fl bs\<close> and touches nothing but that line and its tag.
\<close>

definition wrote :: "CPAGE \<Rightarrow> nat \<Rightarrow> line \<Rightarrow> CPAGE \<Rightarrow> bool" where
  "wrote p k l q \<longleftrightarrow> same_obj p q \<and> pghdr q = pghdr p \<and>
     tags q = (tags p)[k := (tags p ! k)\<lparr>t_fl := fst l\<rparr>] \<and>
     (\<forall>i. i < cbBuffer p - CbTagArray p \<longrightarrow> buf q i =
        store_bytes (PbFromIb p (t_ib (tags p ! k))) (snd l) (buf p) i)"

lemma tag_at_obj:
  assumes "same_obj p q" "int k < ITagMicFree p"
  shows "tag_at q (PtagFromItag p (int k)) = tags q ! k"
  using same_obj_fields [OF assms(1)] assms(2) nth_tags [of k q] by simp

lemma tags_store:
  assumes "0 < length bs \<Longrightarrow> a + int (length bs) \<le> cbBuffer p - CbTagArray p"
  shows "tags (p\<lparr>buf := store_bytes a bs (buf p)\<rparr>) = tags p"
proof (cases "bs = []")
  case False
  then show ?thesis
    by (intro tags_frame) (use assms in \<open>auto simp: store_bytes_def\<close>)
next
  case True
  then have "store_bytes a bs (buf p) = buf p" by (auto simp: store_bytes_def fun_eq_iff)
  then show ?thesis by simp
qed

lemma store_store:
  "length xs = length ys \<Longrightarrow> store_bytes a xs (store_bytes a ys b) = store_bytes a xs b"
  by (auto simp: store_bytes_def fun_eq_iff)

lemma store_stamp:
  assumes "2 \<le> length bs"
  shows "(store_bytes a bs b)(a + 1 := (store_bytes a bs b (a + 1) AND 0x1f) OR push_bit 5 (ucast fl)) =
    store_bytes a (stamp fl bs) b"
  using assms by (auto simp: store_bytes_def stamp_def fun_eq_iff nth_list_update nat_eq_iff)

lemma TAG_FFlags_small:
  "fSmallFormat p \<Longrightarrow> TAG_FFlags p t = tag_fl p t"
proof -
  have "drop_bit 13 (w AND NOT (mask 13)) = drop_bit 13 w" for w :: u16
    by (auto simp: bit_eq_iff bit_drop_bit_eq bit_and_iff bit_not_iff bit_mask_iff dest: bit_imp_le_length)
  then show "fSmallFormat p \<Longrightarrow> TAG_FFlags p t = tag_fl p t"
    by (simp only: TAG_FFlags_def tag_fl_def flags_mask shfTagFlags_def if_True)
qed

lemma PtagFromItag_0: "PtagFromItag p 0 = PtagFromItag p (int k) \<longleftrightarrow> k = 0"
  by (simp add: PtagFromItag_def cbTAG_def)

lemma write_line_small:
  assumes small: "fSmallFormat p" and k: "int k < ITagMicFree p"
    and cb: "t_cb (tags p ! k) = int (length (concat bss))"
    and fit: "t_cb (tags p ! k) \<noteq> 0 \<Longrightarrow>
      PbFromIb p (t_ib (tags p ! k) + t_cb (tags p ! k)) \<le> cbBuffer p - CbTagArray p"
  defines "t \<equiv> PtagFromItag p (int k)"
  shows "wrote p k (stored p k fl (concat bss)) (CopyData t (map OffPage bss) (TAG_SetFlags t fl p))"
proof -
  let ?a = "PbFromIb p (t_ib (tags p ! k))" and ?bs = "concat bss"
  define p1 where "p1 = TAG_SetFlags t fl p"
  define p2 where "p2 = p1\<lparr>buf := store_bytes ?a ?bs (buf p1)\<rparr>"
  have s1: "fSmallFormat p1" "same_obj p p1" using small by (simp_all add: p1_def)
  note f1 = same_obj_fields [OF s1(2)]
  have t1: "tags p1 = (tags p)[k := (tags p ! k)\<lparr>t_fl := fl AND 7\<rparr>]"
    unfolding p1_def by (rule tags_SetFlags_small [OF small _ k]) (simp add: t_def)
  have b1: "buf p1 i = buf p i" if "i < cbBuffer p - CbTagArray p" for i
    using below_tag [OF k that] small by (simp add: p1_def t_def buf_SetFlags_small)
  have t2: "tags p2 = tags p1"
    unfolding p2_def by (rule tags_store) (use fit cb f1 in \<open>simp add: PbFromIb_def\<close>)
  have fl1: "TAG_FFlags p1 t = fl AND 7" "PbFromIb p1 (uint (TAG_Ib p1 t)) = ?a"
  proof -
    have A: "tag_at p1 t = (tags p ! k)\<lparr>t_fl := fl AND 7\<rparr>"
      using tag_at_obj [OF s1(2) k] k t1 by (simp add: t_def)
    show "TAG_FFlags p1 t = fl AND 7"
      using arg_cong [OF A, of t_fl] s1(1) by (simp add: TAG_FFlags_small)
    show "PbFromIb p1 (uint (TAG_Ib p1 t)) = ?a"
      using arg_cong [OF A, of t_ib] f1 by simp
  qed
  have q: "CopyData t (map OffPage bss) p1 = (if k = 0 then p2 else TAG_SetFlags t (fl AND 7) p2)"
    by (simp add: CopyData_def Let_def fl1 CopyLines_OffPage p2_def PtagFromItag_0)
      (simp add: t_def f1 PtagFromItag_0)
  let ?q = "CopyData t (map OffPage bss) p1"
  have k2: "fSmallFormat p2" "int k < ITagMicFree p2" "t = PtagFromItag p2 (int k)"
    using s1 k f1 by (simp_all add: p2_def t_def)
  have "tags (TAG_SetFlags t (fl AND 7) p2) = (tags p2)[k := (tags p2 ! k)\<lparr>t_fl := (fl AND 7) AND 7\<rparr>]"
    by (rule tags_SetFlags_small [OF k2(1,3,2)])
  then have tq: "tags ?q = (tags p)[k := (tags p ! k)\<lparr>t_fl := fl AND 7\<rparr>]"
    using k t2 unfolding q t1 by (simp add: and.assoc)
  have "buf ?q i = store_bytes ?a ?bs (buf p) i" if "i < cbBuffer p - CbTagArray p" for i
  proof -
    have "buf ?q i = buf p2 i"
      unfolding q using below_tag [OF k that] k2(1) by (simp add: t_def buf_SetFlags_small)
    then show ?thesis using b1 [OF that] by (simp add: p2_def store_bytes_def)
  qed
  moreover have "stored p k fl ?bs = (fl AND 7, ?bs)"
    using small by (simp add: stored_def tag_flags_def)
  ultimately show ?thesis
    using s1(2) tq unfolding p1_def by (simp add: wrote_def)
qed

lemma SetFlags_large:
  assumes "\<not> fSmallFormat p" "PtagFromItag p 0 \<noteq> t" "2 \<le> uint (TAG_Cb p t)"
    "PbFromIb p (uint (TAG_Ib p t)) = a"
  shows "TAG_SetFlags t x p = p\<lparr>buf := (buf p)(a + 1 := (buf p (a + 1) AND 0x1f) OR push_bit 5 (ucast x))\<rparr>"
  using assms(1-3) unfolding TAG_SetFlags_def assms(4) Let_def wr16_stamp by simp

lemma FFlags_stamped:
  fixes fl :: u16
  shows "drop_bit shfTagFlags (rd16 (b(a + 1 := (b (a + 1) AND 0x1f) OR push_bit 5 (ucast fl))) a
    AND mskTagFlags) = fl AND 7"
proof -
  let ?w = "(rd16 b a AND NOT mskTagFlags) OR push_bit shfTagFlags fl"
  have "rd16 (b(a + 1 := (b (a + 1) AND 0x1f) OR push_bit 5 (ucast fl))) a = ?w"
    by (simp only: wr16_stamp [symmetric] rd16_wr16)
  moreover have "drop_bit 13 (?w AND NOT (mask 13)) = fl AND 7"
    unfolding flags_mask shfTagFlags_def bit.conj_disj_distrib2 and.assoc push_flags_not_mask
    by (simp add: drop_push_flags)
  ultimately show ?thesis by (simp only: flags_mask shfTagFlags_def)
qed

lemma write_line_large:
  assumes large: "\<not> fSmallFormat p" and k: "int k < ITagMicFree p"
    and cb: "t_cb (tags p ! k) = int (length (concat bss))"
    and fit: "t_cb (tags p ! k) \<noteq> 0 \<Longrightarrow>
      PbFromIb p (t_ib (tags p ! k) + t_cb (tags p ! k)) \<le> cbBuffer p - CbTagArray p"
  defines "t \<equiv> PtagFromItag p (int k)"
  shows "wrote p k (stored p k fl (concat bss)) (CopyData t (map OffPage bss) (TAG_SetFlags t fl p))"
proof -
  let ?a = "PbFromIb p (t_ib (tags p ! k))" and ?bs = "concat bss"
  have tp: "uint (TAG_Cb p t) = int (length ?bs)" "PbFromIb p (uint (TAG_Ib p t)) = ?a"
    using k cb by (simp_all add: t_def nth_tags)
  have ed: "?a + int (length ?bs) \<le> cbBuffer p - CbTagArray p" if "0 < length ?bs"
    using fit cb that by (simp add: PbFromIb_def)
  have noflag: "(tags p ! k)\<lparr>t_fl := 0\<rparr> = tags p ! k"
    using large k by (simp add: nth_tags tag_at_def tag_fl_def)
  have st: "tags (p\<lparr>buf := store_bytes ?a xs (buf p)\<rparr>) = tags p" if "length xs = length ?bs" for xs
    using ed unfolding that [symmetric] by (intro tags_store)
  have wr: "wrote p k (0, xs) (p\<lparr>buf := store_bytes ?a xs (buf p)\<rparr>)" if "length xs = length ?bs" for xs
    using st [OF that] noflag k by (simp add: wrote_def)
  show ?thesis
  proof (cases "k = 0 \<or> length ?bs < 2")
    case True
    then have none: "TAG_SetFlags t x p = p" for x
      using large tp by (auto simp: t_def intro!: SetFlags_none)
    let ?p2 = "p\<lparr>buf := store_bytes ?a ?bs (buf p)\<rparr>"
    have "tag_at ?p2 t = tag_at p t"
      using st [of ?bs] k tag_at_obj [of p ?p2 k] nth_tags [OF k] by (simp only: t_def same_obj_upd same_obj_refl)
    then have "uint (TAG_Cb ?p2 t) = int (length ?bs)" using tp(1) by (simp add: tag_at_def)
    then have "TAG_SetFlags t x ?p2 = ?p2" if "k \<noteq> 0" for x
      using True that large by (intro SetFlags_none) auto
    then have "CopyData t (map OffPage bss) p = ?p2"
      using PtagFromItag_0 [of p k, folded t_def]
      by (auto simp: CopyData_def Let_def tp CopyLines_OffPage)
    then show ?thesis using wr [of ?bs] True large by (auto simp: none stored_def tag_flags_def)
  next
    case False
    then have c2: "k \<noteq> 0" "2 \<le> length ?bs" by simp_all
    have "0 < length ?bs" using c2(2) by linarith
    note ed2 = ed [OF this]
    have n0: "PtagFromItag p 0 \<noteq> t" using c2(1) by (simp add: t_def PtagFromItag_0)
    have same: "tag_at (p\<lparr>buf := b\<rparr>) t = tag_at p t" if "tags (p\<lparr>buf := b\<rparr>) = tags p" for b
      using that k tag_at_obj [of p "p\<lparr>buf := b\<rparr>" k] nth_tags [OF k]
      by (simp only: t_def same_obj_upd same_obj_refl)
    then have tb: "uint (TAG_Cb (p\<lparr>buf := b\<rparr>) t) = int (length ?bs)"
      "PbFromIb p (uint (TAG_Ib (p\<lparr>buf := b\<rparr>) t)) = ?a" if "tags (p\<lparr>buf := b\<rparr>) = tags p" for b
      using that tp by (simp_all add: tag_at_def)
    have sf: "TAG_SetFlags t x (p\<lparr>buf := b\<rparr>) =
        p\<lparr>buf := b(?a + 1 := (b (?a + 1) AND 0x1f) OR push_bit 5 (ucast x))\<rparr>"
      if "tags (p\<lparr>buf := b\<rparr>) = tags p" for b x
    proof -
      have 2: "2 \<le> uint (TAG_Cb (p\<lparr>buf := b\<rparr>) t)" unfolding tb(1) [OF that] using c2(2) by simp
      have "TAG_SetFlags t x (p\<lparr>buf := b\<rparr>) = (p\<lparr>buf := b\<rparr>)\<lparr>buf := (buf (p\<lparr>buf := b\<rparr>))
          (?a + 1 := (buf (p\<lparr>buf := b\<rparr>) (?a + 1) AND 0x1f) OR push_bit 5 (ucast x))\<rparr>"
        by (rule SetFlags_large [OF _ _ 2]) (use large n0 tb(2) [OF that] in simp_all)
      then show ?thesis by simp
    qed
    let ?b1 = "(buf p)(?a + 1 := (buf p (?a + 1) AND 0x1f) OR push_bit 5 (ucast fl))"
    let ?p1 = "p\<lparr>buf := ?b1\<rparr>" and ?p2 = "p\<lparr>buf := store_bytes ?a ?bs (buf p)\<rparr>"
    have p1: "TAG_SetFlags t fl p = ?p1" using sf [of "buf p" fl] by simp
    have t1: "tags ?p1 = tags p"
      unfolding p1 [symmetric]
      by (rule tags_SetFlags_large) (use large ed2 tp in simp_all)
    have f1: "TAG_FFlags ?p1 t = fl AND 7"
      using large tb [OF t1] c2 FFlags_stamped [of "buf p" ?a fl] by (simp add: TAG_FFlags_def)
    have "store_bytes ?a ?bs ?b1 = store_bytes ?a ?bs (buf p)"
      using c2 by (auto simp: store_bytes_def fun_eq_iff)
    then have "CopyData t (map OffPage bss) ?p1 = TAG_SetFlags t (fl AND 7) ?p2"
      using n0 by (simp add: CopyData_def Let_def tb(2) [OF t1] f1 CopyLines_OffPage)
    also have "\<dots> = p\<lparr>buf := store_bytes ?a (stamp (fl AND 7) ?bs) (buf p)\<rparr>"
      using sf [OF st [of ?bs], of "fl AND 7"] store_stamp [OF c2(2)] by simp
    finally have "CopyData t (map OffPage bss) (TAG_SetFlags t fl p) =
      p\<lparr>buf := store_bytes ?a (snd (stored p k (fl AND 7) ?bs)) (buf p)\<rparr>"
      using c2 large p1 by (simp add: stored_def)
    then show ?thesis
      using wr [of "snd (stored p k fl ?bs)"] large unfolding stored_flags7
      by (simp add: stored_def tag_flags_def)
  qed
qed

end
