(* ===== verification/Page_Refine.thy ===== *)
theory Page_Refine
  imports Page_Lines
begin

text \<open>
  The line operations of \<open>CPAGE\<close> against their specification: a page is a list of lines, and
  \<open>Insert_\<close>, \<open>Replace_\<close> and \<open>Delete_\<close> insert into, update and remove from that list, keep the
  page well formed and account for the free space exactly.
\<close>

subsection \<open>Well-formedness of a page with a given tag list\<close>

lemma tag_in_data:
  assumes "tags_ok p" "t \<in> set (tags p)" "PbFromIb p (t_ib t) \<le> i" "i < PbFromIb p (t_ib t) + t_cb t"
  shows "i < PbFromIb p (uint (ibMicFree (pghdr p)))" "i < cbBuffer p - CbTagArray p" "PbFromIb p 0 \<le> i"
proof -
  have "t_ib t + t_cb t \<le> uint (ibMicFree (pghdr p))"
    using assms by (auto simp: tags_ok_def list_all_iff)
  then show "i < PbFromIb p (uint (ibMicFree (pghdr p)))" "i < cbBuffer p - CbTagArray p"
    using assms(1,4) by (auto simp: tags_ok_def PbFromIb_def CbBufferData_def)
  show "PbFromIb p 0 \<le> i"
    using assms(3) tag_nonneg(1) [OF assms(2)] by (simp add: PbFromIb_def)
qed

lemma line_of_keep:
  assumes "tags_ok p" "t \<in> set (tags p)" "CbPageHeader q = CbPageHeader p"
    "\<And>i. PbFromIb p (t_ib t) \<le> i \<Longrightarrow> i < PbFromIb p (t_ib t) + t_cb t \<Longrightarrow>
      i < cbBuffer p - CbTagArray p \<Longrightarrow> buf q i = buf p i"
  shows "line_of q t = line_of p t"
  using assms tag_in_data [OF assms(1,2)] by (intro line_of_cong) blast+

lemma lines_nth: "int k < ITagMicFree p \<Longrightarrow> lines p ! k = line_of p (tags p ! k)"
  by (simp add: lines_def)

lemma tags_apart:
  assumes "tags_ok p" "j < length (tags p)" "k < length (tags p)" "j \<noteq> k"
    "t_cb (tags p ! j) \<noteq> 0" "t_cb (tags p ! k) \<noteq> 0"
  shows "t_ib (tags p ! j) + t_cb (tags p ! j) \<le> t_ib (tags p ! k) \<or>
    t_ib (tags p ! k) + t_cb (tags p ! k) \<le> t_ib (tags p ! j)"
  using tags_ok_apart [OF assms(1), of j k] assms(2-) by (auto simp: apart_def)

subsection \<open>Insertion\<close>

lemma place_tag:
  assumes k: "int k < ITagMicFree p" and t: "t = PtagFromItag p (int k)"
    and m: "uint mic < 2 ^ tag_bits p" and c: "uint c < 2 ^ tag_bits p"
  shows "retag p k \<lparr>t_ib = uint mic, t_cb = uint c, t_fl = tag_flags p 0\<rparr>
    (TAG_SetCb t c ((TAG_SetIb t mic (TAG_SetFlags t 0 (TAG_SetIb t 0 (TAG_SetCb t 0 p))))\<lparr>pghdr := h\<rparr>))"
proof -
  define p3 where "p3 = TAG_SetCb t 0 p"
  define p4 where "p4 = TAG_SetIb t 0 p3"
  define p5 where "p5 = TAG_SetFlags t 0 p4"
  define p6 where "p6 = (TAG_SetIb t mic p5)\<lparr>pghdr := h\<rparr>"
  have len: "k < length (tags p)" using k by simp
  obtain a b fl where T: "tags p ! k = \<lparr>t_ib = a, t_cb = b, t_fl = fl\<rparr>" by (cases "tags p ! k")
  have r3: "retag p k \<lparr>t_ib = a, t_cb = 0, t_fl = fl\<rparr> p3"
    using T retag_SetCb [of 0 p t k] k t by (simp add: p3_def)
  note f3 = same_obj_fields [OF retag_fields(1) [OF r3]] retag_fields(2) [OF r3]
  have r4: "retag p k \<lparr>t_ib = 0, t_cb = 0, t_fl = fl\<rparr> p4"
    using retag_trans [OF r3 retag_SetIb [of 0 p3 t k]] k t f3 len by (simp add: p4_def)
  note f4 = same_obj_fields [OF retag_fields(1) [OF r4]] retag_fields(2) [OF r4]
  have r5: "retag p k \<lparr>t_ib = 0, t_cb = 0, t_fl = tag_flags p 0\<rparr> p5"
    using retag_trans [OF r4 retag_SetFlags_short [of t p4 k 0]] k t f4 len
    by (simp add: p5_def tag_flags_def)
  note f5 = same_obj_fields [OF retag_fields(1) [OF r5]] retag_fields(2) [OF r5]
  have r6: "retag p k \<lparr>t_ib = uint mic, t_cb = 0, t_fl = tag_flags p 0\<rparr> p6"
    using retag_hdr [OF retag_trans [OF r5 retag_SetIb [of mic p5 t k]]] k t m f5 len
    by (simp add: p6_def)
  note f6 = same_obj_fields [OF retag_fields(1) [OF r6]] retag_fields(2) [OF r6]
  have "retag p k \<lparr>t_ib = uint mic, t_cb = uint c, t_fl = tag_flags p 0\<rparr> (TAG_SetCb t c p6)"
    using retag_trans [OF r6 retag_SetCb [of c p6 t k]] k t c f6 len by simp
  then show ?thesis
    by (simp add: p3_def p4_def p5_def p6_def)
qed

lemma write_line:
  assumes "int k < ITagMicFree p" "t_cb (tags p ! k) = int (length (concat bss))"
    "t_cb (tags p ! k) \<noteq> 0 \<Longrightarrow>
      PbFromIb p (t_ib (tags p ! k) + t_cb (tags p ! k)) \<le> cbBuffer p - CbTagArray p"
    "t = PtagFromItag p (int k)"
  shows "wrote p k (stored p k fl (concat bss)) (CopyData t (map OffPage bss) (TAG_SetFlags t fl p))"
  using write_line_small [OF _ assms(1-3)] write_line_large [OF _ assms(1-3)] assms(4)
  by (cases "fSmallFormat p") simp_all

lemma stored_obj: "same_obj p q \<Longrightarrow> stored q k fl bs = stored p k fl bs"
  by (simp add: stored_def tag_flags_def same_obj_fields)

text \<open>
  What \<open>Insert_\<close> does after the space is there, as one statement: \<open>q\<close> is the page that
  \<open>ExpandTagArray_\<close> left, with the new line at the end of the data.
\<close>

lemma Insert_at_tail:
  assumes k: "int k < ITagMicFree p2" and L: "L = int (length (concat bss))"
    and c: "uint (word_of_int L :: u16) = L" "L < 2 ^ tag_bits p2" "uint mic < 2 ^ tag_bits p2"
    and fit: "PbFromIb p2 (uint mic + L) \<le> cbBuffer p2 - CbTagArray p2"
    and t: "t = PtagFromItag p2 (int k)"
    and q: "q = CopyData t (map OffPage bss) (TAG_SetFlags t flags (set_cbFree cbf
        (TAG_SetCb t (word_of_int L) (set_ibMicFree m' (TAG_SetIb t mic
          (TAG_SetFlags t 0 (TAG_SetIb t 0 (TAG_SetCb t 0 p2))))))))"
  shows "same_obj p2 q" "pghdr q = (pghdr p2)\<lparr>ibMicFree := m', cbFree := cbf\<rparr>"
    "tags q = (tags p2)[k := \<lparr>t_ib = uint mic, t_cb = L, t_fl = tag_flags p2 flags\<rparr>]"
    "i < cbBuffer p2 - CbTagArray p2 \<Longrightarrow>
      buf q i = store_bytes (PbFromIb p2 (uint mic)) (snd (stored p2 k flags (concat bss))) (buf p2) i"
proof -
  let ?h = "(pghdr p2)\<lparr>ibMicFree := m'\<rparr>"
  define p9 where "p9 = set_cbFree cbf
        (TAG_SetCb t (word_of_int L) (set_ibMicFree m' (TAG_SetIb t mic
          (TAG_SetFlags t 0 (TAG_SetIb t 0 (TAG_SetCb t 0 p2))))))"
  have r: "retag p2 k \<lparr>t_ib = uint mic, t_cb = L, t_fl = tag_flags p2 0\<rparr> p9"
    using retag_hdr [OF place_tag [OF k t c(3), of "word_of_int L" ?h]] c by (simp add: p9_def)
  note f = same_obj_fields [OF retag_fields(1) [OF r]] retag_fields(2) [OF r]
  have w: "wrote p9 k (stored p9 k flags (concat bss)) q"
    unfolding q p9_def [symmetric]
    by (rule write_line) (use f k L fit t in simp_all)
  note st = stored_obj [OF retag_fields(1) [OF r]]
  show "same_obj p2 q" using w same_obj_trans [OF retag_fields(1) [OF r]] by (simp add: wrote_def)
  have "pghdr q = pghdr p9" using w by (simp add: wrote_def)
  then show "pghdr q = (pghdr p2)\<lparr>ibMicFree := m', cbFree := cbf\<rparr>" by (simp add: p9_def)
  have "tags q = (tags p9)[k := (tags p9 ! k)\<lparr>t_fl := fst (stored p9 k flags (concat bss))\<rparr>]"
    using w by (simp add: wrote_def)
  then show "tags q = (tags p2)[k := \<lparr>t_ib = uint mic, t_cb = L, t_fl = tag_flags p2 flags\<rparr>]"
    using f k by (simp add: st stored_def tag_flags_def)
  show "i < cbBuffer p2 - CbTagArray p2 \<Longrightarrow>
      buf q i = store_bytes (PbFromIb p2 (uint mic)) (snd (stored p2 k flags (concat bss))) (buf p2) i"
    using w f k retag_fields(3) [OF r] by (simp add: wrote_def st store_bytes_def)
qed

lemma itags_ok_obj:
  "same_obj p q \<Longrightarrow> itagState (pghdr q) = itagState (pghdr p) \<Longrightarrow> itags_ok q = itags_ok p"
  by (simp add: itags_ok_def same_obj_fields)

lemma shape_ok_obj: "same_obj p q \<Longrightarrow> shape_ok q = shape_ok p"
  by (simp add: shape_ok_def same_obj_fields)

text \<open>
  The new page when the tag list got one more entry at \<open>k\<close> and the bytes of that line went
  behind all others.
\<close>

lemma inserted_page:
  assumes ok: "page_ok p" and k: "int k \<le> ITagMicFree p" and L: "L = int (length bs)"
    and room: "uint (ibMicFree (pghdr p)) + L + 4 + CbTagArray p \<le> CbBufferData p"
    and shape: "shape_ok q" "itags_ok q" "ITagMicFree q = ITagMicFree p + 1"
    "cbBuffer q = cbBuffer p" "CbPageHeader q = CbPageHeader p"
    and hdr: "ibMicFree (pghdr q) = ibMicFree (pghdr p) + word_of_int L"
    "cbFree (pghdr q) = cbFree (pghdr p) - (word_of_int L + word_of_int cbTAG)"
    and tg: "tags q = list_ins k \<lparr>t_ib = uint (ibMicFree (pghdr p)), t_cb = L, t_fl = fl\<rparr> (tags p)"
    and b: "\<And>i. i < cbBuffer p - CbTagArray p - 4 \<Longrightarrow>
      buf q i = store_bytes (PbFromIb p (uint (ibMicFree (pghdr p)))) bs (buf p) i"
  shows "page_ok q" "lines q = list_ins k (fl, bs) (lines p)"
    "uint (cbFree (pghdr q)) = uint (cbFree (pghdr p)) - L - 4"
proof -
  let ?mic = "ibMicFree (pghdr p)" and ?v = "\<lparr>t_ib = uint (ibMicFree (pghdr p)), t_cb = L, t_fl = fl\<rparr>"
  have s: "shape_ok p" "tags_ok p" "free_ok p" using ok by (simp_all add: page_ok_def)
  have L0: "0 \<le> L" "L < 32768"
    using L room data_fits [OF s(1)] CbTagArray_nonneg [of p] uint16_nonneg [of ?mic] by linarith+
  have w: "uint (word_of_int L :: u16) = L" "uint (word_of_int L + word_of_int cbTAG :: u16) = L + 4"
    using L0 uint16_add [of "word_of_int L" "word_of_int cbTAG"]
    by (simp_all add: uint16_of_int cbTAG_def)
  have mic: "uint (?mic + word_of_int L) = uint ?mic + L"
    using w room data_fits [OF s(1)] CbTagArray_nonneg [of p] uint16_add [of ?mic "word_of_int L"] by simp
  have S: "sum_list (map t_cb (tags p)) \<le> uint ?mic" by (rule cbs_le_mic [OF s(1,2)])
  have cbf: "L + 4 \<le> uint (cbFree (pghdr p))" using s(3) S room by (simp add: free_ok_def)
  then show F: "uint (cbFree (pghdr q)) = uint (cbFree (pghdr p)) - L - 4"
    using w hdr(2) uint16_diff [of "word_of_int L + word_of_int cbTAG" "cbFree (pghdr p)"] by simp
  have C: "CbTagArray q = CbTagArray p + 4" "CbBufferData q = CbBufferData p"
    using shape by (simp_all add: CbTagArray_def cbTAG_def CbBufferData_def)
  have fit: "t_cb t \<noteq> 0 \<Longrightarrow> t_ib t + t_cb t \<le> uint ?mic" if "t \<in> set (tags p)" for t
    using s(2) that by (auto simp: tags_ok_def list_all_iff)
  have "sorted_wrt apart (tags q)"
    unfolding tg using s(2) fit L0
    by (intro sorted_wrt_ins) (auto simp: tags_ok_def apart_def)
  moreover have "list_all (\<lambda>t. t_cb t \<noteq> 0 \<longrightarrow> t_ib t + t_cb t \<le> uint ?mic + L) (tags q)"
    using fit L0 by (force simp: tg list_all_iff)
  ultimately have "tags_ok q" using room C hdr(1) mic by (simp add: tags_ok_def)
  moreover have "free_ok q"
    using s(3) F C by (simp add: free_ok_def tg map_list_ins sum_list_ins)
  ultimately show "page_ok q" using shape by (simp add: page_ok_def)
  have P: "PbFromIb q i = PbFromIb p i" for i using shape by (simp add: PbFromIb_def)
  have "line_of q t = line_of p t" if "t \<in> set (tags p)" for t
  proof (rule line_of_cong [OF shape(5)])
    fix i assume "PbFromIb p (t_ib t) \<le> i" "i < PbFromIb p (t_ib t) + t_cb t"
    with tag_in_data [OF s(2) that this] room L0
    show "buf q i = buf p i" by (subst b) (auto simp: store_bytes_def PbFromIb_def CbBufferData_def)
  qed
  moreover have "line_of q ?v = (fl, bs)"
    unfolding line_of_def P tagv.simps
    using L room load_bytes_cong [of "PbFromIb p (uint ?mic)" L "buf q"
      "store_bytes (PbFromIb p (uint ?mic)) bs (buf p)"] b
    by (auto simp: load_store_bytes PbFromIb_def CbBufferData_def)
  ultimately show "lines q = list_ins k (fl, bs) (lines p)"
    unfolding lines_def tg map_list_ins by (simp cong: map_cong)
qed

lemma obj_of_reorg:
  assumes "q = p\<lparr>buf := buf q, pghdr := (pghdr p)\<lparr>ibMicFree := ibMicFree (pghdr q)\<rparr>\<rparr>"
  shows "same_obj p q" "cbFree (pghdr q) = cbFree (pghdr p)" "itagState (pghdr q) = itagState (pghdr p)"
  by (subst assms, simp add: same_obj_def)+

lemma small_total:
  assumes "page_ok p" "int (length bs) + 4 \<le> uint (cbFree (pghdr p))"
  shows "uint (word_of_int (int (length bs)) :: u16) = int (length bs)" "int (length bs) < 32768"
proof -
  have "0 \<le> sum_list (map t_cb (tags p))"
    using tag_nonneg(2) by (auto intro!: sum_list_nonneg)
  then show "int (length bs) < 32768"
    using assms data_fits [of p] CbTagArray_nonneg [of p] by (simp add: page_ok_def free_ok_def)
  then show "uint (word_of_int (int (length bs)) :: u16) = int (length bs)"
    by (intro uint16_of_int) simp_all
qed

lemma itags_ok_SetITagMicFree:
  assumes "itags_ok p" "CTagReserved p \<le> n" "n \<le> 4095"
  shows "itags_ok (SetITagMicFree n p)"
  unfolding SetITagMicFree_def CTagReserved_def [symmetric]
  using assms by (intro itags_ok_SetITagState) (simp_all add: itags_ok_def)

lemma itags_ok_Expand:
  assumes "itags_ok p" "ITagMicFree p < 4095"
  shows "itags_ok (ExpandTagArray itag p)"
proof -
  have "itags_ok (SetITagMicFree (ITagMicFree q + 1) q)" if "q = p\<lparr>buf := b\<rparr>" for q b
  proof (rule itags_ok_SetITagMicFree)
    show "itags_ok q" using assms(1) itags_ok_obj [of p q] that by simp
    show "CTagReserved q \<le> ITagMicFree q + 1" "ITagMicFree q + 1 \<le> 4095"
      using assms that by (simp_all add: itags_ok_def)
  qed
  from this [OF refl] this [of p "buf p"] show ?thesis
    unfolding ExpandTagArray_def Let_def by simp
qed

lemma Insert_at_spec:
  assumes ok: "page_ok p" and norm: "FIsNormalSized p"
    and k: "CTagReserved p \<le> int k" "int k \<le> ITagMicFree p" "ITagMicFree p < 4095"
    and room: "int (length (concat bss)) + 4 \<le> uint (cbFree (pghdr p))"
  obtains q where "Insert_at (int k) (map OffPage bss) flags p = Some q" "page_ok q" "FIsNormalSized q"
    "lines q = list_ins k (stored p k flags (concat bss)) (lines p)"
    "uint (cbFree (pghdr q)) = uint (cbFree (pghdr p)) - int (length (concat bss)) - 4"
    "CTagReserved q = CTagReserved p" "cbPage q = cbPage p" "fResvTagFormat q = fResvTagFormat p"
proof -
  let ?bs = "concat bss"
  define L where "L = int (length ?bs)"
  let ?c = "word_of_int L :: u16"
  have c: "uint ?c = L" "L < 32768" using small_total [OF ok room] by (simp_all add: L_def)
  obtain p1 where p1: "FreeSpace (L + 4) p = Some p1"
    "p1 = p\<lparr>buf := buf p1, pghdr := (pghdr p)\<lparr>ibMicFree := ibMicFree (pghdr p1)\<rparr>\<rparr>"
    "page_ok p1" "lines p1 = lines p" "L + 4 \<le> CbContiguousFree p1"
    using FreeSpace_spec [OF ok norm, of "L + 4"] room L_def by metis
  note o1 = obj_of_reorg [OF p1(2)]
  note f1 = same_obj_fields [OF o1(1)]
  have norm1: "FIsNormalSized p1" using norm f1 by (simp add: FIsNormalSized_def)
  have s1: "shape_ok p1" "itags_ok p1" using p1(3) by (simp_all add: page_ok_def)
  let ?mic = "ibMicFree (pghdr p1)"
  have fit: "uint ?mic + L + 4 + CbTagArray p1 \<le> CbBufferData p1"
    using p1(5) CbContiguous_normal [OF s1(1) norm1] by simp
  have bits: "L < 2 ^ tag_bits p1" "uint ?mic < 2 ^ tag_bits p1"
    using fit data_fits [OF s1(1)] CbTagArray_nonneg [of p1] uint16_nonneg [of ?mic] L_def by linarith+
  define p2 where "p2 = ExpandTagArray (int k) p1"
  have n2: "ITagMicFree p2 = ITagMicFree p1 + 1"
    using k f1 unfolding p2_def by (intro ITagMicFree_Expand) simp
  have k2: "int k < ITagMicFree p2" using k n2 f1 by simp
  have T2: "CbTagArray p2 = CbTagArray p1 + 4" using n2 by (simp add: CbTagArray_def cbTAG_def)
  have e2: "tags p2 = take k (tags p1) @ tags p2 ! k # drop k (tags p1)"
    "\<And>i. i < cbBuffer p1 - CbTagArray p1 - 4 \<Longrightarrow> buf p2 i = buf p1 i"
    unfolding p2_def by (intro ExpandTagArray_spec; use k f1 in simp)+
  have i2: "itags_ok p2"
    unfolding p2_def using s1(2) k(3) f1 by (intro itags_ok_Expand) simp_all
  let ?t = "PtagFromItag p2 (int k)"
  define q where "q = CopyData ?t (map OffPage bss) (TAG_SetFlags ?t flags (set_cbFree
      (cbFree (pghdr p1) - (?c + word_of_int cbTAG)) (TAG_SetCb ?t ?c
        (set_ibMicFree (?mic + ?c) (TAG_SetIb ?t ?mic
          (TAG_SetFlags ?t 0 (TAG_SetIb ?t 0 (TAG_SetCb ?t 0 p2))))))))"
  have q: "Insert_at (int k) (map OffPage bss) flags p = Some q"
    unfolding Insert_at_def CbDataTotal_OffPage
    by (simp add: Let_def L_def [symmetric] c p1(1) cbTAG_def q_def p2_def del: length_concat)
  have fit2: "PbFromIb p2 (uint ?mic + L) \<le> cbBuffer p2 - CbTagArray p2"
    using fit T2 by (simp add: p2_def PbFromIb_def CbBufferData_def)
  have bits2: "L < 2 ^ tag_bits p2" "uint ?mic < 2 ^ tag_bits p2" using bits by (simp_all add: p2_def)
  note Q = Insert_at_tail [OF k2 L_def c(1) bits2 fit2 refl q_def]
  note fq = same_obj_fields [OF Q(1)]
  let ?l = "stored p1 k flags ?bs"
  have st: "stored p2 k flags ?bs = ?l" "?l = stored p k flags ?bs"
    using f1 by (simp_all add: p2_def stored_def tag_flags_def)
  have tg: "tags q = list_ins k \<lparr>t_ib = uint ?mic, t_cb = L, t_fl = fst ?l\<rparr> (tags p1)"
  proof -
    have "length (take k (tags p1)) = k" using k f1 by simp
    then show ?thesis
      unfolding Q(3) by (subst e2(1))
        (simp add: list_update_append list_ins_def stored_def tag_flags_def p2_def)
  qed
  have bq: "buf q i = store_bytes (PbFromIb p1 (uint ?mic)) (snd ?l) (buf p1) i"
    if "i < cbBuffer p1 - CbTagArray p1 - 4" for i
    using Q(4) [of i] that e2(2) [OF that] T2 st(1) by (simp add: p2_def store_bytes_def)
  have sq: "shape_ok q" "itags_ok q"
  proof -
    have "shape_ok p2" using s1(1) by (simp add: p2_def shape_ok_def)
    then show "shape_ok q" using shape_ok_obj [OF Q(1)] by simp
    show "itags_ok q" using i2 itags_ok_obj [OF Q(1)] Q(2) by simp
  qed
  have shp: "ITagMicFree q = ITagMicFree p1 + 1" "cbBuffer q = cbBuffer p1" "CbPageHeader q = CbPageHeader p1"
    using fq n2 by (simp_all add: p2_def)
  have hq: "ibMicFree (pghdr q) = ?mic + ?c"
    "cbFree (pghdr q) = cbFree (pghdr p1) - (?c + word_of_int cbTAG)" using Q(2) by simp_all
  have L': "L = int (length (snd ?l))" by (simp add: L_def)
  have k1: "int k \<le> ITagMicFree p1" using k f1 by simp
  note R = inserted_page [OF p1(3) k1 L' fit sq shp hq tg bq]
  show thesis
  proof (rule that [OF q R(1)])
    show "FIsNormalSized q" using norm fq f1 by (simp add: FIsNormalSized_def p2_def)
    show "lines q = list_ins k (stored p k flags ?bs) (lines p)" using R(2) st(2) p1(4) by simp
    show "uint (cbFree (pghdr q)) = uint (cbFree (pghdr p)) - int (length ?bs) - 4"
      using R(3) o1(2) by (simp add: L_def)
  qed (use fq f1 in \<open>simp_all add: p2_def\<close>)
qed

lemma Insert_at_None:
  assumes ok: "page_ok p" and norm: "FIsNormalSized p"
    and len: "int (length (concat bss)) < 65536"
    and room: "uint (cbFree (pghdr p)) < int (length (concat bss)) + 4"
  shows "Insert_at itag (map OffPage bss) flags p = None"
proof -
  define L where "L = int (length (concat bss))"
  have "uint (word_of_int L :: u16) = L" using len unfolding L_def by (intro uint16_of_int) simp_all
  moreover have "FreeSpace (L + 4) p = None" using room by (intro FreeSpace_None [OF ok norm]) (simp add: L_def)
  ultimately show ?thesis
    unfolding Insert_at_def CbDataTotal_OffPage
    by (simp add: Let_def L_def [symmetric] cbTAG_def del: length_concat)
qed

subsection \<open>Removal\<close>

lemma Delete_tail_tags:
  assumes k: "int k < ITagMicFree p" and n: "ITagMicFree q = ITagMicFree p - 1"
    and shape: "fSmallFormat q = fSmallFormat p" "cbBuffer q = cbBuffer p"
    and b: "\<And>i. cbBuffer p - CbTagArray p \<le> i \<Longrightarrow> i < cbBuffer p \<Longrightarrow> buf q i =
      memmove (cbBuffer p - CbTagArray p + 4) (cbBuffer p - CbTagArray p) (4 * (ITagMicFree p - 1 - int k))
        (buf p) i"
  shows "tags q = list_del k (tags p)"
proof (rule nth_equalityI)
  show len: "length (tags q) = length (list_del k (tags p))" using k n by simp
  fix j assume "j < length (tags q)"
  then have j: "int j < ITagMicFree p - 1" using n by simp
  have T: "CbTagArray p = 4 * ITagMicFree p" by (simp add: CbTagArray_def cbTAG_def)
  have P: "PtagFromItag q i = cbBuffer p - 4 * i - 4" "PtagFromItag p i = cbBuffer p - 4 * i - 4" for i
    by (simp_all add: shape PtagFromItag_def cbTAG_def)
  define d where "d = (if j < k then 0 else - 4 :: int)"
  have "tag_at q (PtagFromItag q (int j)) = tag_at p (PtagFromItag q (int j) + d)"
  proof (rule tag_at_cong [OF shape(1)])
    fix i assume i: "PtagFromItag q (int j) \<le> i" "i < PtagFromItag q (int j) + 4"
    show "buf q i = buf p (i + d)"
      using i j by (subst b) (auto simp: T P d_def memmove_def)
  qed
  moreover have "tags q ! j = tag_at q (PtagFromItag q (int j))" using j n by (intro nth_tags) simp
  ultimately show "tags q ! j = list_del k (tags p) ! j"
    using j k by (auto simp: nth_list_del nth_tags P d_def algebra_simps)
qed

text \<open>Every other line is outside the bytes of line \<open>k\<close>.\<close>

lemma line_of_other:
  assumes ok: "tags_ok p" and jk: "j < length (tags p)" "k < length (tags p)" "j \<noteq> k"
    and H: "CbPageHeader q = CbPageHeader p"
    and b: "\<And>i. i < cbBuffer p - CbTagArray p \<Longrightarrow> i < PbFromIb p (t_ib (tags p ! k)) \<or>
      PbFromIb p (t_ib (tags p ! k) + t_cb (tags p ! k)) \<le> i \<Longrightarrow> buf q i = buf p i"
  shows "line_of q (tags p ! j) = line_of p (tags p ! j)"
proof (rule line_of_keep [OF ok _ H])
  show "tags p ! j \<in> set (tags p)" using jk by simp
  fix i assume i: "PbFromIb p (t_ib (tags p ! j)) \<le> i"
    "i < PbFromIb p (t_ib (tags p ! j)) + t_cb (tags p ! j)" "i < cbBuffer p - CbTagArray p"
  then have "t_cb (tags p ! k) \<noteq> 0 \<Longrightarrow> t_ib (tags p ! j) + t_cb (tags p ! j) \<le> t_ib (tags p ! k) \<or>
      t_ib (tags p ! k) + t_cb (tags p ! k) \<le> t_ib (tags p ! j)"
    using tags_apart [OF ok jk] by force
  then show "buf q i = buf p i"
    using i by (cases "t_cb (tags p ! k) = 0"; intro b) (auto simp: PbFromIb_def)
qed

definition scrub_line :: "int \<Rightarrow> u8 \<Rightarrow> CPAGE \<Rightarrow> CPAGE" where
  "scrub_line ptag c p =
     (if fScrubbing p then upd_buf (memset (PbFromIb p (uint (TAG_Ib p ptag))) c (uint (TAG_Cb p ptag))) p
      else p)"

lemma scrub_line:
  assumes ok: "tags_ok p" and k: "int k < ITagMicFree p" and t: "t = PtagFromItag p (int k)"
  shows "same_obj p (scrub_line t c p)" "pghdr (scrub_line t c p) = pghdr p"
    "tags (scrub_line t c p) = tags p"
    "TAG_Cb (scrub_line t c p) t = TAG_Cb p t" "TAG_Ib (scrub_line t c p) t = TAG_Ib p t"
    "\<And>i. i < PbFromIb p (t_ib (tags p ! k)) \<or> PbFromIb p (t_ib (tags p ! k) + t_cb (tags p ! k)) \<le> i \<Longrightarrow>
      buf (scrub_line t c p) i = buf p i"
proof -
  let ?q = "scrub_line t c p"
  show o: "same_obj p ?q" "pghdr ?q = pghdr p" by (simp_all add: scrub_line_def)
  note f = same_obj_fields [OF o(1)]
  have cb: "uint (TAG_Cb p t) = t_cb (tags p ! k)" "uint (TAG_Ib p t) = t_ib (tags p ! k)"
    using k t by (simp_all add: nth_tags)
  show b: "\<And>i. i < PbFromIb p (t_ib (tags p ! k)) \<or> PbFromIb p (t_ib (tags p ! k) + t_cb (tags p ! k)) \<le> i \<Longrightarrow>
      buf ?q i = buf p i"
    by (auto simp: scrub_line_def cb memset_def PbFromIb_def)
  show tg: "tags ?q = tags p"
  proof (rule tags_frame [OF f(3,1,8)])
    fix i assume "cbBuffer p - CbTagArray p \<le> i"
    moreover have "t_cb (tags p ! k) \<noteq> 0 \<Longrightarrow>
        PbFromIb p (t_ib (tags p ! k) + t_cb (tags p ! k)) \<le> cbBuffer p - CbTagArray p"
      using tags_okD [OF ok k] ok by (auto simp: tags_ok_def PbFromIb_def CbBufferData_def)
    moreover have "PbFromIb p (t_ib (tags p ! k)) \<le> i \<or> i < PbFromIb p (t_ib (tags p ! k))" by linarith
    ultimately show "buf ?q i = buf p i"
      by (cases "t_cb (tags p ! k) = 0"; intro b) (auto simp: PbFromIb_def)
  qed
  have "tag_at ?q t = tag_at p t" using tag_at_obj [OF o(1) k] tg nth_tags [OF k] t by simp
  then show "TAG_Cb ?q t = TAG_Cb p t" "TAG_Ib ?q t = TAG_Ib p t"
    by (simp_all add: tag_at_def word_uint_eq_iff)
qed

lemma deleted_free:
  assumes ok: "page_ok p" and k: "int k < ITagMicFree p"
  shows "uint (word_of_int (t_cb (tags p ! k)) :: u16) = t_cb (tags p ! k)"
    "uint (cbFree (pghdr p) + word_of_int (t_cb (tags p ! k)) + word_of_int cbTAG) =
      uint (cbFree (pghdr p)) + t_cb (tags p ! k) + 4"
    "t_cb (tags p ! k) \<le> sum_list (map t_cb (tags p))"
proof -
  let ?t = "tags p ! k" and ?f = "cbFree (pghdr p)"
  have kl: "k < length (tags p)" using k by simp
  note tn = tag_nonneg [OF nth_mem [OF kl]]
  have "0 \<le> sum_list (map t_cb (list_del k (tags p)))"
    using set_list_del [of k "tags p"] tag_nonneg(2) [of _ p] by (intro sum_list_nonneg) force
  then show le: "t_cb ?t \<le> sum_list (map t_cb (tags p))"
    using kl by (simp add: map_list_del sum_list_del)
  have n4: "4 \<le> CbTagArray p" using k by (simp add: CbTagArray_def cbTAG_def)
  have small: "uint ?f + t_cb ?t + 4 < 65536"
    using ok le data_fits [of p] n4 by (simp add: free_ok_def page_ok_def)
  have "t_cb ?t < 65536" using small uint16_nonneg [of ?f] by linarith
  then show w: "uint (word_of_int (t_cb ?t) :: u16) = t_cb ?t" using tn by (intro uint16_of_int)
  have c: "uint (word_of_int cbTAG :: u16) = 4" by (simp add: cbTAG_def)
  show "uint (?f + word_of_int (t_cb ?t) + word_of_int cbTAG) = uint ?f + t_cb ?t + 4"
    using small w c uint16_nonneg [of ?f] tn uint16_add [of ?f "word_of_int (t_cb ?t)"]
      uint16_add [of "?f + word_of_int (t_cb ?t)" "word_of_int cbTAG"] by simp
qed

text \<open>The page with one tag less, whatever happened to the bytes of its line.\<close>

lemma deleted_page:
  assumes ok: "page_ok p" and k: "CTagReserved p \<le> int k" "int k < ITagMicFree p"
    and shape: "shape_ok q" "itags_ok q" "ITagMicFree q = ITagMicFree p - 1"
    "cbBuffer q = cbBuffer p" "CbPageHeader q = CbPageHeader p"
    and cbf: "cbFree (pghdr q) = cbFree (pghdr p) + word_of_int (t_cb (tags p ! k)) + word_of_int cbTAG"
    and mic: "ibMicFree (pghdr q) = ibMicFree (pghdr p) \<or>
      t_ib (tags p ! k) + t_cb (tags p ! k) = uint (ibMicFree (pghdr p)) \<and>
        ibMicFree (pghdr q) = ibMicFree (pghdr p) - word_of_int (t_cb (tags p ! k)) \<or>
      sum_list (map t_cb (tags p)) = t_cb (tags p ! k) \<and> ibMicFree (pghdr q) = 0"
    and tg: "tags q = list_del k (tags p)"
    and b: "\<And>i. i < cbBuffer p - CbTagArray p \<Longrightarrow> i < PbFromIb p (t_ib (tags p ! k)) \<or>
      PbFromIb p (t_ib (tags p ! k) + t_cb (tags p ! k)) \<le> i \<Longrightarrow> buf q i = buf p i"
  shows "page_ok q" "lines q = list_del k (lines p)"
    "uint (cbFree (pghdr q)) = uint (cbFree (pghdr p)) + t_cb (tags p ! k) + 4"
proof -
  let ?mic = "uint (ibMicFree (pghdr p))" and ?t = "tags p ! k"
  have s: "shape_ok p" "tags_ok p" "free_ok p" using ok by (simp_all add: page_ok_def)
  have kl: "k < length (tags p)" using k by simp
  have t: "?t \<in> set (tags p)" using kl by simp
  note tn = tag_nonneg [OF t]
  have C: "CbTagArray q = CbTagArray p - 4" "CbBufferData q = CbBufferData p"
    using shape by (simp_all add: CbTagArray_def cbTAG_def CbBufferData_def)
  have sum: "sum_list (map t_cb (list_del k (tags p))) = sum_list (map t_cb (tags p)) - t_cb ?t"
    using kl by (simp add: map_list_del sum_list_del)
  have cbs: "0 \<le> t_cb u" if "u \<in> set (list_del k (tags p))" for u
    using that set_list_del [of k "tags p"] tag_nonneg(2) [of u p] by blast
  have nn: "0 \<le> sum_list (map t_cb (list_del k (tags p)))"
    using cbs by (auto intro!: sum_list_nonneg)
  have room: "?mic + CbTagArray p \<le> CbBufferData p" using s(2) by (simp add: tags_ok_def)
  note w = deleted_free [OF ok k(2)]
  show F: "uint (cbFree (pghdr q)) = uint (cbFree (pghdr p)) + t_cb ?t + 4"
    unfolding cbf by (rule w(2))
  have m2: "uint (ibMicFree (pghdr p) - word_of_int (t_cb ?t)) = t_ib ?t" if "t_ib ?t + t_cb ?t = ?mic"
    using that w tn by (subst uint16_diff) simp_all
  have fit: "t_ib u + t_cb u \<le> uint (ibMicFree (pghdr q))"
    if u: "u \<in> set (list_del k (tags p))" "t_cb u \<noteq> 0" for u
  proof -
    obtain i where i: "u = list_del k (tags p) ! i" "i < length (tags p) - 1"
      using u(1) kl by (metis in_set_conv_nth length_list_del)
    define j where "j = (if i < k then i else Suc i)"
    have j: "u = tags p ! j" "j < length (tags p)" "j \<noteq> k"
      using i kl by (auto simp: j_def nth_list_del)
    have le: "t_ib u + t_cb u \<le> ?mic" using tags_okD [OF s(2), of j] j u(2) by simp
    have "0 \<le> t_cb u" using tag_nonneg(2) [of u p] j by simp
    moreover have "sum_list (map t_cb (list_del k (tags p))) \<noteq> 0"
      using u cbs by (subst sum_list_nonneg_eq_0_iff) auto
    moreover have "t_cb ?t \<noteq> 0 \<Longrightarrow> t_ib u + t_cb u \<le> t_ib ?t \<or> t_ib ?t + t_cb ?t \<le> t_ib u"
      using tags_apart [OF s(2) j(2) kl j(3)] u(2) j(1) by simp
    ultimately show ?thesis
      using mic m2 le u(2) sum by (cases "t_cb ?t = 0") auto
  qed
  have mq: "uint (ibMicFree (pghdr q)) \<le> ?mic"
    using mic m2 tn by auto
  have "sorted_wrt apart (tags q)"
    unfolding tg using s(2) by (intro sorted_wrt_del) (simp add: tags_ok_def)
  then have "tags_ok q"
    using fit mq room C by (simp add: tags_ok_def list_all_iff tg)
  moreover have "free_ok q" using s(3) F C sum by (simp add: free_ok_def tg)
  ultimately show "page_ok q" using shape by (simp add: page_ok_def)
  have "map (line_of q) (list_del k (tags p)) = map (line_of p) (list_del k (tags p))"
  proof (rule nth_equalityI)
    fix j assume j: "j < length (map (line_of q) (list_del k (tags p)))"
    define j' where "j' = (if j < k then j else Suc j)"
    have j': "list_del k (tags p) ! j = tags p ! j'" "j' < length (tags p)" "j' \<noteq> k"
      using j kl by (auto simp: j'_def nth_list_del)
    have "line_of q (tags p ! j') = line_of p (tags p ! j')"
      by (rule line_of_other [OF s(2) j'(2) kl j'(3) shape(5) b])
    then show "map (line_of q) (list_del k (tags p)) ! j = map (line_of p) (list_del k (tags p)) ! j"
      using j j'(1) by simp
  qed simp
  then show "lines q = list_del k (lines p)" by (simp add: lines_def tg map_list_del)
qed

lemma SetITagMicFree_obj:
  "itagState (pghdr q) = itagState (pghdr p) \<Longrightarrow> same_obj p q \<Longrightarrow>
    same_obj (SetITagMicFree n p) (SetITagMicFree n q) \<and>
    itagState (pghdr (SetITagMicFree n q)) = itagState (pghdr (SetITagMicFree n p))"
  by (simp add: SetITagMicFree_def SetITagState_def Let_def same_obj_def)

lemma Delete_at_spec:
  assumes ok: "page_ok p" and k: "CTagReserved p \<le> int k" "int k < ITagMicFree p"
  defines "q \<equiv> Delete_at (int k) p"
  shows "page_ok q" "lines q = list_del k (lines p)"
    "uint (cbFree (pghdr q)) = uint (cbFree (pghdr p)) + t_cb (tags p ! k) + 4"
    "CTagReserved q = CTagReserved p" "cbPage q = cbPage p" "cbBuffer q = cbBuffer p"
    "fResvTagFormat q = fResvTagFormat p"
proof -
  let ?t = "PtagFromItag p (int k)" and ?v = "tags p ! k" and ?n = "ITagMicFree p"
  have s: "shape_ok p" "itags_ok p" "tags_ok p" "free_ok p" using ok by (simp_all add: page_ok_def)
  define p1 where "p1 = scrub_line ?t chPAGEDeleteFill p"
  note S = scrub_line [OF s(3) k(2) refl, where c = chPAGEDeleteFill, folded p1_def]
  note f1 = same_obj_fields [OF S(1)]
  have cb: "uint (TAG_Cb p ?t) = t_cb ?v" "uint (TAG_Ib p ?t) = t_ib ?v"
    using k by (simp_all add: nth_tags)
  have cbw: "TAG_Cb p ?t = word_of_int (t_cb ?v)" using cb by (metis word_of_int_uint)
  define m where "m = (if t_cb ?v + t_ib ?v = uint (ibMicFree (pghdr p))
    then ibMicFree (pghdr p) - word_of_int (t_cb ?v) else ibMicFree (pghdr p))"
  define f where "f = cbFree (pghdr p) + word_of_int (t_cb ?v) + word_of_int cbTAG"
  define p3 where "p3 = p1\<lparr>pghdr := (pghdr p)\<lparr>ibMicFree := m, cbFree := f\<rparr>\<rparr>"
  define p4 where "p4 = SetITagMicFree (?n - 1) p3"
  define p5 where "p5 = upd_buf (memmove (cbBuffer p - CbTagArray p + 4) (cbBuffer p - CbTagArray p)
      (4 * (?n - 1 - int k))) p4"
  have n4: "m_itagMicFree p4 = word_of_int (?n - 1)" "ITagMicFree p4 = ?n - 1"
  proof -
    show 1: "m_itagMicFree p4 = word_of_int (?n - 1)" by (simp add: p4_def SetITagMicFree_def)
    have "0 \<le> ?n - 1" "?n - 1 < 65536" using k(2) s(2) by (simp_all add: itags_ok_def)
    then show "ITagMicFree p4 = ?n - 1" unfolding ITagMicFree_def 1 by (rule uint16_of_int)
  qed
  have ends: "PtagFromItag p (?n - 1) = cbBuffer p - CbTagArray p"
    "PtagFromItag p (int k) - (cbBuffer p - CbTagArray p) = 4 * (?n - 1 - int k)"
    "PtagFromItag p (int k - 1) - 4 * (?n - 1 - int k) = cbBuffer p - CbTagArray p + 4"
    by (simp_all add: PtagFromItag_def CbTagArray_def cbTAG_def)
  define p2 where "p2 = (if uint (TAG_Cb p1 ?t) + uint (TAG_Ib p1 ?t) = uint (ibMicFree (pghdr p1))
      then set_ibMicFree (ibMicFree (pghdr p1) - TAG_Cb p1 ?t) p1 else p1)"
  have p2: "p2 = set_ibMicFree m p1" "TAG_Cb p2 ?t = word_of_int (t_cb ?v)"
    using S cb cbw by (simp_all add: p2_def m_def)
  have p3: "set_cbFree (cbFree (pghdr p2) + TAG_Cb p2 ?t + word_of_int cbTAG) p2 = p3"
    unfolding p2(2) using S(2) by (simp add: p2(1) p3_def f_def)
  have f4: "ITagMicFree p3 = ?n" "PtagFromItag p4 i = PtagFromItag p i" for i
    using f1 by (simp_all add: p3_def p4_def SetITagMicFree_def)
  have u: "q = (if uint (cbFree (pghdr p5)) + cbTAG + CbPageHeader p5 = cbBuffer p5
      then set_ibMicFree 0 p5 else p5)"
    unfolding q_def Delete_at_def scrub_line_def [symmetric] Let_def p1_def [symmetric]
      p2_def [symmetric] p3 f4(1) p4_def [symmetric] n4(2) f4(2) ends p5_def [symmetric] ..
  have oq: "same_obj p4 q" "itagState (pghdr q) = itagState (pghdr p4)" by (simp_all add: u p5_def)
  note fq = same_obj_fields [OF oq(1)]
  have q4: "cbBuffer q = cbBuffer p" "cbPage q = cbPage p" "fSmallFormat q = fSmallFormat p"
    "CbPageHeader q = CbPageHeader p" "fResvTagFormat q = fResvTagFormat p"
    "ITagMicFree q = ?n - 1" "CTagReserved q = CTagReserved p"
    using fq f1 n4 by (simp_all add: p4_def p3_def SetITagMicFree_def CTagReserved_def)
  have "itags_ok p3"
  proof -
    have "same_obj p p3" "itagState (pghdr p3) = itagState (pghdr p)" using S(1) by (simp_all add: p3_def)
    with s(2) show ?thesis by (simp add: itags_ok_obj)
  qed
  then have "itags_ok p4"
    unfolding p4_def using k s(2) f1
    by (intro itags_ok_SetITagMicFree) (simp_all add: p3_def itags_ok_def)
  then have iq: "itags_ok q" by (simp add: itags_ok_obj [OF oq])
  have sq: "shape_ok q" using s(1) q4 by (simp add: shape_ok_def)
  have cbf: "cbFree (pghdr q) = f" by (simp add: u p5_def p4_def p3_def SetITagMicFree_def)
  have b4: "buf p4 = buf p1" by (simp add: p4_def p3_def SetITagMicFree_def)
  have bq: "buf q i = memmove (cbBuffer p - CbTagArray p + 4) (cbBuffer p - CbTagArray p)
      (4 * (?n - 1 - int k)) (buf p1) i" for i
    by (simp add: u p5_def b4)
  have t1: "tags p1 = tags p" by (rule S(3))
  have tg: "tags q = list_del k (tags p)"
    unfolding t1 [symmetric] using k q4 f1 bq by (intro Delete_tail_tags) simp_all
  have bd: "buf q i = buf p i" if "i < cbBuffer p - CbTagArray p" "i < PbFromIb p (t_ib ?v) \<or>
      PbFromIb p (t_ib ?v + t_cb ?v) \<le> i" for i
    using that S(6) [of i] by (simp add: bq memmove_def)
  note DF = deleted_free [OF ok k(2)]
  have "2 \<le> ?n" using k s(2) by (simp add: itags_ok_def)
  then have zero: "sum_list (map t_cb (tags p)) = t_cb ?v" if "uint f + 4 + CbPageHeader p = cbBuffer p"
    using that DF s(4) by (simp add: f_def free_ok_def CbBufferData_def CbTagArray_def cbTAG_def)
  have "ibMicFree (pghdr p5) = m" "cbFree (pghdr p5) = f" "CbPageHeader p5 = CbPageHeader p" "cbBuffer p5 = cbBuffer p"
    using f1 by (simp_all add: p5_def p4_def p3_def SetITagMicFree_def)
  then have mic: "ibMicFree (pghdr q) = ibMicFree (pghdr p) \<or>
      t_ib ?v + t_cb ?v = uint (ibMicFree (pghdr p)) \<and>
        ibMicFree (pghdr q) = ibMicFree (pghdr p) - word_of_int (t_cb ?v) \<or>
      sum_list (map t_cb (tags p)) = t_cb ?v \<and> ibMicFree (pghdr q) = 0"
    using zero by (auto simp: u m_def cbTAG_def add.commute)
  show "page_ok q" "lines q = list_del k (lines p)"
    "uint (cbFree (pghdr q)) = uint (cbFree (pghdr p)) + t_cb (tags p ! k) + 4"
    using deleted_page [OF ok k sq iq q4(6,1,4) cbf [unfolded f_def] mic tg bd] by blast+
  show "CTagReserved q = CTagReserved p" "cbPage q = cbPage p" "cbBuffer q = cbBuffer p"
    "fResvTagFormat q = fResvTagFormat p" using q4 by blast+
qed

end
