(* ===== verification/Page_Replace.thy ===== *)
theory Page_Replace
  imports Page_Refine
begin

text \<open>
  \<open>CPAGE::Replace_\<close>: a line that does not grow, or is the fLast one and has the space behind
  it, is overwritten in place; any other is taken out, the page compacted when that is
  needed, and the line put at the end.  Both ways the list of lines is updated at its index.
\<close>

subsection \<open>The page with one line replaced\<close>

lemma replaced_page:
  assumes ok: "page_ok p" and k: "int k < ITagMicFree p"
    and shape: "same_obj p q" "itagState (pghdr q) = itagState (pghdr p)"
    and tg: "tags q = (tags p)[k := v]" and L: "0 \<le> t_cb v"
    and cbf: "uint (cbFree (pghdr q)) = uint (cbFree (pghdr p)) + t_cb (tags p ! k) - t_cb v"
    and mic: "uint (ibMicFree (pghdr q)) + CbTagArray p \<le> CbBufferData p"
    and end_v: "t_cb v \<noteq> 0 \<Longrightarrow> t_ib v + t_cb v \<le> uint (ibMicFree (pghdr q))"
    and end_others: "\<And>j. j < length (tags p) \<Longrightarrow> j \<noteq> k \<Longrightarrow> t_cb (tags p ! j) \<noteq> 0 \<Longrightarrow>
      t_ib (tags p ! j) + t_cb (tags p ! j) \<le> uint (ibMicFree (pghdr q))"
    and ap: "\<And>j. j < length (tags p) \<Longrightarrow> j \<noteq> k \<Longrightarrow> apart v (tags p ! j)"
    and b: "\<And>i. i < cbBuffer p - CbTagArray p \<Longrightarrow>
      i < PbFromIb p (t_ib v) \<or> PbFromIb p (t_ib v + t_cb v) \<le> i \<Longrightarrow>
      i < PbFromIb p (t_ib (tags p ! k)) \<or> PbFromIb p (t_ib (tags p ! k) + t_cb (tags p ! k)) \<le> i \<Longrightarrow>
      buf q i = buf p i"
  shows "page_ok q" "lines q = (lines p)[k := line_of q v]"
proof -
  have s: "shape_ok p" "itags_ok p" "tags_ok p" "free_ok p" using ok by (simp_all add: page_ok_def)
  have kl: "k < length (tags p)" using k by simp
  note f = same_obj_fields [OF shape(1)]
  have "sorted_wrt apart (tags q)"
    unfolding tg using s(3) ap apart_sym by (intro sorted_wrt_upd) (auto simp: tags_ok_def)
  moreover have "list_all (\<lambda>t. t_cb t \<noteq> 0 \<longrightarrow> t_ib t + t_cb t \<le> uint (ibMicFree (pghdr q))) (tags q)"
    unfolding tg list_all_length
  proof (intro allI impI)
    fix n assume "n < length ((tags p)[k := v])" "t_cb ((tags p)[k := v] ! n) \<noteq> 0"
    then show "t_ib ((tags p)[k := v] ! n) + t_cb ((tags p)[k := v] ! n) \<le> uint (ibMicFree (pghdr q))"
      using end_v end_others [of n] by (cases "n = k") simp_all
  qed
  ultimately have "tags_ok q" using mic f by (simp add: tags_ok_def)
  moreover have "free_ok q"
    using s(4) cbf f kl by (simp add: free_ok_def tg map_update sum_list_upd)
  ultimately show "page_ok q"
    using s shape_ok_obj [OF shape(1)] itags_ok_obj [OF shape] by (simp add: page_ok_def)
  show "lines q = (lines p)[k := line_of q v]"
  proof (rule nth_equalityI)
    fix j assume "j < length (lines q)"
    then have j: "j < length (tags p)" using f by simp
    show "lines q ! j = (lines p)[k := line_of q v] ! j"
    proof (cases "j = k")
      case True
      then show ?thesis using j kl by (simp add: lines_def tg)
    next
      case False
      have "line_of q (tags p ! j) = line_of p (tags p ! j)"
      proof (rule line_of_keep [OF s(3) nth_mem [OF j] f(11)])
        fix i assume i: "PbFromIb p (t_ib (tags p ! j)) \<le> i"
          "i < PbFromIb p (t_ib (tags p ! j)) + t_cb (tags p ! j)" "i < cbBuffer p - CbTagArray p"
        then have c: "t_cb (tags p ! j) \<noteq> 0" by auto
        show "buf q i = buf p i"
        proof (rule b [OF i(3)])
          show "i < PbFromIb p (t_ib v) \<or> PbFromIb p (t_ib v + t_cb v) \<le> i"
            using ap [OF j False] i c by (auto simp: apart_def PbFromIb_def)
          show "i < PbFromIb p (t_ib (tags p ! k)) \<or> PbFromIb p (t_ib (tags p ! k) + t_cb (tags p ! k)) \<le> i"
            using tags_apart [OF s(3) j kl False c] i
            by (cases "t_cb (tags p ! k) = 0") (auto simp: PbFromIb_def)
        qed
      qed
      then show ?thesis using False j kl by (simp add: lines_def tg)
    qed
  qed (use f in simp)
qed

text \<open>The bytes a copy has stored, read as a line.\<close>

lemma line_of_stored:
  assumes "t_fl v = fst l" "t_cb v = int (length (snd l))"
    and "\<And>i. PbFromIb q (t_ib v) \<le> i \<Longrightarrow> i < PbFromIb q (t_ib v) + t_cb v \<Longrightarrow>
      buf q i = store_bytes (PbFromIb q (t_ib v)) (snd l) b i"
  shows "line_of q v = l"
  using load_bytes_cong [of "PbFromIb q (t_ib v)" "t_cb v" "buf q", OF assms(3)] assms(1,2)
  by (simp add: line_of_def load_store_bytes)

subsection \<open>Writing the new line\<close>

lemma put_line:
  assumes k: "int k < ITagMicFree p" and r: "retag p k v pA"
    and L: "L = int (length (concat bss))" "uint (word_of_int L :: u16) = L" "L < 2 ^ tag_bits p"
    and fit: "L \<noteq> 0 \<longrightarrow> PbFromIb p (t_ib v + L) \<le> cbBuffer p - CbTagArray p"
    and t: "t = PtagFromItag p (int k)"
    and q: "q = CopyData t (map OffPage bss) (TAG_SetFlags t flags (TAG_SetCb t (word_of_int L) pA))"
  shows "same_obj p q" "pghdr q = pghdr pA"
    "tags q = (tags p)[k := \<lparr>t_ib = t_ib v, t_cb = L, t_fl = tag_flags p flags\<rparr>]"
    "i < cbBuffer p - CbTagArray p \<Longrightarrow>
      buf q i = store_bytes (PbFromIb p (t_ib v)) (snd (stored p k flags (concat bss))) (buf p) i"
proof -
  note fA = same_obj_fields [OF retag_fields(1) [OF r]] retag_fields(2) [OF r]
  define p9 where "p9 = TAG_SetCb t (word_of_int L) pA"
  have r9: "retag p k (v\<lparr>t_cb := L\<rparr>) p9"
    using retag_trans [OF r retag_SetCb [of "word_of_int L" pA t k]] k L t fA by (simp add: p9_def)
  note f = same_obj_fields [OF retag_fields(1) [OF r9]] retag_fields(2) [OF r9]
  have w: "wrote p9 k (stored p9 k flags (concat bss)) q"
    unfolding q p9_def [symmetric]
    by (rule write_line) (use f k L fit t in simp_all)
  note st = stored_obj [OF retag_fields(1) [OF r9]]
  show "same_obj p q" using w same_obj_trans [OF retag_fields(1) [OF r9]] by (simp add: wrote_def)
  show "pghdr q = pghdr pA" using w by (simp add: wrote_def p9_def)
  have "tags q = (tags p9)[k := (tags p9 ! k)\<lparr>t_fl := fst (stored p9 k flags (concat bss))\<rparr>]"
    using w by (simp add: wrote_def)
  then show "tags q = (tags p)[k := \<lparr>t_ib = t_ib v, t_cb = L, t_fl = tag_flags p flags\<rparr>]"
    using f k by (cases v) (simp add: st stored_def tag_flags_def)
  show "i < cbBuffer p - CbTagArray p \<Longrightarrow>
      buf q i = store_bytes (PbFromIb p (t_ib v)) (snd (stored p k flags (concat bss))) (buf p) i"
    using w f k retag_fields(3) [OF r9] by (simp add: wrote_def st store_bytes_def)
qed

lemma retag_SetCb_0:
  assumes k: "int k < ITagMicFree p" and t: "t = PtagFromItag p (int k)"
  shows "retag p k \<lparr>t_ib = 0, t_cb = 0, t_fl = tag_flags p 0\<rparr>
    (TAG_SetFlags t 0 (TAG_SetCb t 0 (TAG_SetIb t 0 p)))"
proof -
  obtain a b fl where T: "tags p ! k = \<lparr>t_ib = a, t_cb = b, t_fl = fl\<rparr>" by (cases "tags p ! k")
  have r3: "retag p k \<lparr>t_ib = 0, t_cb = b, t_fl = fl\<rparr> (TAG_SetIb t 0 p)"
    using T retag_SetIb [of 0 p t k] k t by simp
  note f3 = same_obj_fields [OF retag_fields(1) [OF r3]] retag_fields(2) [OF r3]
  have r4: "retag p k \<lparr>t_ib = 0, t_cb = 0, t_fl = fl\<rparr> (TAG_SetCb t 0 (TAG_SetIb t 0 p))"
    using retag_trans [OF r3 retag_SetCb [of 0 "TAG_SetIb t 0 p" t k]] k t f3 by simp
  note f4 = same_obj_fields [OF retag_fields(1) [OF r4]] retag_fields(2) [OF r4]
  show ?thesis
    using retag_trans [OF r4 retag_SetFlags_short [of t "TAG_SetCb t 0 (TAG_SetIb t 0 p)" k 0]] k t f4
    by (simp add: tag_flags_def)
qed

text \<open>Taking the old line off the page, the first half of the growing case.\<close>

lemma emptied_page:
  fixes c :: u8
  assumes ok: "page_ok p" and k: "int k < ITagMicFree p" and t: "t = PtagFromItag p (int k)"
  defines "q \<equiv> TAG_SetFlags t 0 (TAG_SetCb t 0 (TAG_SetIb t 0
    (set_cbFree (cbFree (pghdr p) + TAG_Cb p t) (scrub_line t c p))))"
  shows "page_ok q" "same_obj p q" "lines q = (lines p)[k := (tag_flags p 0, [])]"
    "uint (cbFree (pghdr q)) = uint (cbFree (pghdr p)) + t_cb (tags p ! k)"
    "t_cb (tags q ! k) = 0"
proof -
  let ?v = "\<lparr>t_ib = 0, t_cb = 0, t_fl = tag_flags p 0\<rparr>" and ?t = "tags p ! k"
  have s: "tags_ok p" using ok by (simp add: page_ok_def)
  define p1 where "p1 = set_cbFree (cbFree (pghdr p) + TAG_Cb p t) (scrub_line t c p)"
  note S = scrub_line [OF s k t, where c = c]
  have o1: "same_obj p p1" "tags p1 = tags p" using S by (simp_all add: p1_def)
  note f1 = same_obj_fields [OF o1(1)]
  have r: "retag p1 k ?v q"
    using retag_SetCb_0 [of k p1 t] k t f1 by (simp add: q_def p1_def tag_flags_def)
  note fr = retag_fields [OF r]
  show oq: "same_obj p q" by (rule same_obj_trans [OF o1(1) fr(1)])
  have tq: "tags q = (tags p)[k := ?v]" using fr(2) o1(2) by simp
  have h: "pghdr q = (pghdr p)\<lparr>cbFree := cbFree (pghdr p) + TAG_Cb p t\<rparr>"
    using S(2) by (simp add: q_def)
  have cb: "uint (TAG_Cb p t) = t_cb ?t" using k t by (simp add: nth_tags)
  have F: "uint (cbFree (pghdr q)) = uint (cbFree (pghdr p)) + t_cb ?t"
    using deleted_free [OF ok k] cb h uint16_add [of "cbFree (pghdr p)" "TAG_Cb p t"]
      uint16_less [of "cbFree (pghdr p) + word_of_int (t_cb ?t) + word_of_int cbTAG"] by simp
  then show "uint (cbFree (pghdr q)) = uint (cbFree (pghdr p)) + t_cb ?t" .
  have b: "buf q i = buf p i" if "i < cbBuffer p - CbTagArray p"
    "i < PbFromIb p (t_ib ?t) \<or> PbFromIb p (t_ib ?t + t_cb ?t) \<le> i" for i
    using that S(6) [of i] fr(3) [of i] f1 by (simp add: p1_def)
  have R: "page_ok q" "lines q = (lines p)[k := line_of q ?v]"
    by (rule replaced_page [OF ok k oq _ tq];
        use h F b tags_okD [OF s] s in \<open>auto simp: tags_ok_def apart_def\<close>)+
  then show "page_ok q" by simp
  show "lines q = (lines p)[k := (tag_flags p 0, [])]"
    using R(2) by (simp add: line_of_def load_bytes_def)
  show "t_cb (tags q ! k) = 0" using k by (simp add: tq)
qed

subsection \<open>The two ways of replacing\<close>

lemma ReplaceGrow_spec:
  assumes ok: "page_ok p" and norm: "FIsNormalSized p" and k: "int k < ITagMicFree p"
    and t: "t = PtagFromItag p (int k)"
    and L: "L = int (length (concat bss))" "uint (word_of_int L :: u16) = L"
    and room: "L \<le> uint (cbFree (pghdr p)) + t_cb (tags p ! k)"
  obtains pA q where "ReplaceGrow t (word_of_int L) p = Some pA"
    "q = CopyData t (map OffPage bss) (TAG_SetFlags t flags (TAG_SetCb t (word_of_int L) pA))"
    "page_ok q" "same_obj p q" "lines q = (lines p)[k := stored p k flags (concat bss)]"
    "uint (cbFree (pghdr q)) = uint (cbFree (pghdr p)) + t_cb (tags p ! k) - L"
proof -
  define p1 where "p1 = TAG_SetFlags t 0 (TAG_SetCb t 0 (TAG_SetIb t 0
    (set_cbFree (cbFree (pghdr p) + TAG_Cb p t) (scrub_line t chPAGEReplaceFill p))))"
  note E = emptied_page [OF ok k t, where c = chPAGEReplaceFill, folded p1_def]
  have s0: "tags_ok p" using ok by (simp add: page_ok_def)
  have norm1: "FIsNormalSized p1" using norm same_obj_fields [OF E(2)] by (simp add: FIsNormalSized_def)
  obtain p2 where p2: "FreeSpace L p1 = Some p2"
    "p2 = p1\<lparr>buf := buf p2, pghdr := (pghdr p1)\<lparr>ibMicFree := ibMicFree (pghdr p2)\<rparr>\<rparr>"
    "page_ok p2" "lines p2 = lines p1" "map t_cb (tags p2) = map t_cb (tags p1)" "L \<le> CbContiguousFree p2"
    using FreeSpace_spec [OF E(1) norm1, of L] room E(4) by metis
  note o2 = obj_of_reorg [OF p2(2)]
  have o02: "same_obj p p2" by (rule same_obj_trans [OF E(2) o2(1)])
  note f2 = same_obj_fields [OF o02]
  have norm2: "FIsNormalSized p2" using norm f2 by (simp add: FIsNormalSized_def)
  have s2: "shape_ok p2" "tags_ok p2" using p2(3) by (simp_all add: page_ok_def)
  let ?mic = "ibMicFree (pghdr p2)" and ?c = "word_of_int L :: u16" and ?bs = "concat bss"
  have k2: "int k < ITagMicFree p2" using k f2 by simp
  have t2: "t = PtagFromItag p2 (int k)" using t f2 by simp
  have c2: "t_cb (tags p2 ! k) = 0"
    using E(5) arg_cong [OF p2(5), of "\<lambda>xs. xs ! k"] k2 f2 same_obj_fields(8) [OF E(2)] k by simp
  have fit: "uint ?mic + L + CbTagArray p2 \<le> CbBufferData p2"
    using p2(6) CbContiguous_normal [OF s2(1) norm2] by simp
  have bits: "L < 2 ^ tag_bits p2" "uint ?mic < 2 ^ tag_bits p2"
    using fit data_fits [OF s2(1)] CbTagArray_nonneg [of p2] uint16_nonneg [of ?mic] L(1) by linarith+
  define pA where "pA = set_cbFree (cbFree (pghdr p2) - ?c) (set_ibMicFree (?mic + ?c) (TAG_SetIb t ?mic p2))"
  have grow: "ReplaceGrow t ?c p = Some pA"
    unfolding ReplaceGrow_def scrub_line_def [symmetric] Let_def
    using scrub_line [OF s0 k t, where c = chPAGEReplaceFill] p2(1)
    by (simp add: L(2) p1_def pA_def)
  let ?v = "(tags p2 ! k)\<lparr>t_ib := uint ?mic\<rparr>" and ?w = "\<lparr>t_ib = uint ?mic, t_cb = L, t_fl = tag_flags p2 flags\<rparr>"
  have r: "retag p2 k ?v pA"
    unfolding pA_def by (intro retag_hdr retag_SetIb [OF bits(2) t2 k2])
  define q where "q = CopyData t (map OffPage bss) (TAG_SetFlags t flags (TAG_SetCb t ?c pA))"
  have fit2: "L \<noteq> 0 \<longrightarrow> PbFromIb p2 (t_ib ?v + L) \<le> cbBuffer p2 - CbTagArray p2"
    using fit by (simp add: PbFromIb_def CbBufferData_def)
  note Q = put_line [OF k2 r L bits(1) fit2 t2 q_def]
  note fq = same_obj_fields [OF Q(1)]
  have h: "pghdr q = (pghdr p2)\<lparr>ibMicFree := ?mic + ?c, cbFree := cbFree (pghdr p2) - ?c\<rparr>"
    using Q(2) by (simp add: pA_def)
  have le: "L \<le> uint (cbFree (pghdr p2))" using room E(4) o2(2) by simp
  have F: "uint (cbFree (pghdr q)) = uint (cbFree (pghdr p2)) + t_cb (tags p2 ! k) - t_cb ?w"
    using h c2 le L(2) uint16_diff [of ?c "cbFree (pghdr p2)"] by simp
  have M: "uint (ibMicFree (pghdr q)) = uint ?mic + L"
    using h L(2) fit data_fits [OF s2(1)] CbTagArray_nonneg [of p2] uint16_add [of ?mic ?c] by simp
  have tq: "tags q = (tags p2)[k := ?w]" using Q(3) by simp
  have L0: "0 \<le> L" using L(1) by simp
  have mic: "uint (ibMicFree (pghdr q)) + CbTagArray p2 \<le> CbBufferData p2" using M fit by simp
  have others: "t_cb (tags p2 ! j) \<noteq> 0 \<Longrightarrow> t_ib (tags p2 ! j) + t_cb (tags p2 ! j) \<le> uint ?mic"
    if "j < length (tags p2)" for j
    using tags_okD [OF s2(2), of j] that by simp
  have bq: "buf q i = buf p2 i" if "i < cbBuffer p2 - CbTagArray p2"
    "i < PbFromIb p2 (t_ib ?w) \<or> PbFromIb p2 (t_ib ?w + t_cb ?w) \<le> i" for i
    using that Q(4) [of i] L(1) by (auto simp: store_bytes_def PbFromIb_def)
  have st: "itagState (pghdr q) = itagState (pghdr p2)" "0 \<le> t_cb ?w" using h L0 by simp_all
  have ev: "t_ib ?w + t_cb ?w \<le> uint (ibMicFree (pghdr q))" using M by simp
  have eo: "t_ib (tags p2 ! j) + t_cb (tags p2 ! j) \<le> uint (ibMicFree (pghdr q))"
    if "j < length (tags p2)" "t_cb (tags p2 ! j) \<noteq> 0" for j
    using others [OF that] M L0 by linarith
  have ap: "apart ?w (tags p2 ! j)" if "j < length (tags p2)" for j
    using others [OF that] by (auto simp: apart_def)
  note R = replaced_page [OF p2(3) k2 Q(1) st(1) tq st(2) F mic ev eo ap bq]
  have "line_of q ?w = stored p2 k flags ?bs"
    using Q(4) fit fq L(1)
    by (intro line_of_stored) (auto simp: stored_def PbFromIb_def CbBufferData_def)
  then have lq: "lines q = (lines p)[k := stored p k flags ?bs]"
    using R(2) p2(4) E(3) stored_obj [OF o02] by simp
  have Fq: "uint (cbFree (pghdr q)) = uint (cbFree (pghdr p)) + t_cb (tags p ! k) - L"
    using F c2 E(4) o2(2) by simp
  show thesis
    by (rule that [OF grow q_def R(1) same_obj_trans [OF o02 Q(1)] lq Fq])
qed

lemma sint_diff16:
  assumes "- 32768 \<le> d" "d < 32768"
  shows "sint (word_of_int d :: u16) = d"
  using assms by (simp add: sint_sbintrunc' signed_take_bit_int_eq_self)

lemma ReplaceInPlace_spec:
  assumes ok: "page_ok p" and norm: "FIsNormalSized p" and k: "int k < ITagMicFree p"
    and t: "t = PtagFromItag p (int k)"
    and L: "L = int (length (concat bss))" "uint (word_of_int L :: u16) = L"
    and d: "d = t_cb (tags p ! k) - L"
    and last: "fLast \<longleftrightarrow> t_ib (tags p ! k) + t_cb (tags p ! k) = uint (ibMicFree (pghdr p))"
    and cond: "0 \<le> d \<or> fLast \<and> - d \<le> CbContiguousFree p"
    and q0: "q0 = CopyData t (map OffPage bss) (TAG_SetFlags t flags
      (TAG_SetCb t (word_of_int L) (ReplaceInPlace fLast d p)))"
    and q: "q = (if 0 < d \<and> fScrubbing q0
      then upd_buf (memset (PbFromIb q0 (uint (TAG_Ib q0 t + TAG_Cb q0 t))) chPAGEReplaceFill d) q0 else q0)"
  shows "page_ok q" "same_obj p q" "lines q = (lines p)[k := stored p k flags (concat bss)]"
    "uint (cbFree (pghdr q)) = uint (cbFree (pghdr p)) + t_cb (tags p ! k) - L"
proof -
  let ?v = "tags p ! k" and ?mic = "uint (ibMicFree (pghdr p))" and ?bs = "concat bss"
  let ?w = "\<lparr>t_ib = t_ib ?v, t_cb = L, t_fl = tag_flags p flags\<rparr>"
  have s: "shape_ok p" "tags_ok p" "free_ok p" using ok by (simp_all add: page_ok_def)
  have kl: "k < length (tags p)" using k by simp
  note tn = tag_nonneg [OF nth_mem [OF kl]]
  have room: "?mic + CbTagArray p \<le> CbBufferData p" using s(2) by (simp add: tags_ok_def)
  have fits: "CbBufferData p < 2 ^ tag_bits p" "CbBufferData p < 32768" using data_fits [OF s(1)] by simp_all
  have C0: "0 \<le> CbTagArray p" by (rule CbTagArray_nonneg)
  have L0: "0 \<le> L" using L(1) by simp
  define m where "m = (if fLast then ?mic - d else ?mic)"
  have old_end: "t_cb ?v \<noteq> 0 \<Longrightarrow> t_ib ?v + t_cb ?v \<le> ?mic" by (rule tags_okD [OF s(2) k])
  have m: "0 \<le> m" "m + CbTagArray p \<le> CbBufferData p" "L \<noteq> 0 \<Longrightarrow> t_ib ?v + L \<le> m"
    "L < 2 ^ tag_bits p"
  proof -
    have c: "t_ib ?v + t_cb ?v = ?mic \<and> L - t_cb ?v \<le> CbBufferData p - ?mic - CbTagArray p" if "d < 0"
      using cond that last CbContiguous_normal [OF s(1) norm] d by auto
    have e: "t_ib ?v + t_cb ?v \<le> ?mic" if "0 \<le> d" "L \<noteq> 0"
      using old_end that d L0 by linarith
    have m': "fLast \<Longrightarrow> m = t_ib ?v + L" "\<not> fLast \<Longrightarrow> m = ?mic" using last d by (simp_all add: m_def)
    show "0 \<le> m" using m' tn L0 uint16_nonneg [of "ibMicFree (pghdr p)"] by (cases fLast) simp_all
    show "m + CbTagArray p \<le> CbBufferData p"
    proof (cases "fLast \<and> d < 0")
      case True
      then show ?thesis using c m'(1) by simp
    next
      case False
      then show ?thesis using m' room last d by (cases fLast) auto
    qed
    show "t_ib ?v + L \<le> m" if "L \<noteq> 0"
      using m' e that cond d by (cases fLast) auto
    have "L \<le> ?mic \<or> L \<le> CbBufferData p - CbTagArray p"
      using c e tn L0 d by (cases "L = 0"; cases "d < 0") auto
    then show "L < 2 ^ tag_bits p" using room C0 fits by linarith
  qed
  have r: "retag p k ?v (ReplaceInPlace fLast d p)"
    unfolding ReplaceInPlace_def Let_def using k by (auto intro!: retag_hdr retag_refl)
  have hA: "pghdr (ReplaceInPlace fLast d p) = (pghdr p)\<lparr>ibMicFree := word_of_int m,
      cbFree := word_of_int (uint (cbFree (pghdr p)) + d)\<rparr>"
    by (simp add: ReplaceInPlace_def m_def)
  have fit: "PbFromIb p (t_ib ?v + L) \<le> cbBuffer p - CbTagArray p" if "L \<noteq> 0"
    using m(2) m(3) [OF that] by (simp add: PbFromIb_def CbBufferData_def)
  have fit': "L \<noteq> 0 \<longrightarrow> PbFromIb p (t_ib ?v + L) \<le> cbBuffer p - CbTagArray p" using fit by blast
  note Q = put_line [OF k r L m(4) fit' t q0]
  note f0 = same_obj_fields [OF Q(1)]
  have o: "same_obj p q" using Q(1) by (simp add: q)
  show "same_obj p q" by (rule o)
  have dcb: "t_ib ?v + L < 65536" if "0 < d"
    using that d old_end room C0 fits L0 by auto
  have tq0: "uint (TAG_Ib q0 t + TAG_Cb q0 t) = t_ib ?v + L" if "0 < d"
  proof -
    have "tag_at q0 t = ?w" using tag_at_obj [OF Q(1) k] Q(3) k t by simp
    then have "uint (TAG_Ib q0 t) = t_ib ?v" "uint (TAG_Cb q0 t) = L" by (auto simp: tag_at_def)
    then show ?thesis using dcb [OF that] by (simp add: uint16_add)
  qed
  have bq: "buf q i = buf q0 i" if "i < PbFromIb p (t_ib ?v + L) \<or> PbFromIb p (t_ib ?v + t_cb ?v) \<le> i" for i
    using that f0 d tq0 by (auto simp: q memset_def PbFromIb_def)
  have tq: "tags q = (tags p)[k := ?w]"
  proof -
    have "tags q = tags q0"
    proof (rule tags_frame)
      fix i assume i: "cbBuffer q0 - CbTagArray q0 \<le> i"
      show "buf q i = buf q0 i"
      proof (cases "0 < d")
        case True
        then have "PbFromIb p (t_ib ?v + t_cb ?v) \<le> i"
          using old_end room i f0 d L0 by (auto simp: PbFromIb_def CbBufferData_def)
        then show ?thesis by (simp add: bq)
      qed (simp add: q)
    qed (simp_all add: q)
    then show ?thesis using Q(3) by simp
  qed
  have h: "pghdr q = (pghdr p)\<lparr>ibMicFree := word_of_int m, cbFree := word_of_int (uint (cbFree (pghdr p)) + d)\<rparr>"
    using Q(2) hA by (simp add: q)
  have M: "uint (ibMicFree (pghdr q)) = m"
    using h m(1,2) C0 fits uint16_of_int [of m] by simp
  have cb0: "0 \<le> uint (cbFree (pghdr p)) + d" "uint (cbFree (pghdr p)) + d < 65536"
  proof -
    have S: "sum_list (map t_cb (tags p)) \<le> ?mic" by (rule cbs_le_mic [OF s(1,2)])
    show "0 \<le> uint (cbFree (pghdr p)) + d"
      using cond S s(3) CbContiguous_normal [OF s(1) norm] uint16_nonneg [of "cbFree (pghdr p)"]
      by (auto simp: free_ok_def)
    show "uint (cbFree (pghdr p)) + d < 65536"
      using deleted_free(3) [OF ok k] s(3) C0 fits L0 d by (simp add: free_ok_def)
  qed
  have F: "uint (cbFree (pghdr q)) = uint (cbFree (pghdr p)) + t_cb ?v - t_cb ?w"
    using h cb0 uint16_of_int [of "uint (cbFree (pghdr p)) + d"] d by simp
  then show "uint (cbFree (pghdr q)) = uint (cbFree (pghdr p)) + t_cb ?v - L" by simp
  have others: "t_cb (tags p ! j) \<noteq> 0 \<Longrightarrow> t_ib (tags p ! j) + t_cb (tags p ! j) \<le> m \<and>
      (L \<noteq> 0 \<longrightarrow> t_ib ?v + L \<le> t_ib (tags p ! j) \<or> t_ib (tags p ! j) + t_cb (tags p ! j) \<le> t_ib ?v)"
    if j: "j < length (tags p)" "j \<noteq> k" for j
  proof -
    assume c: "t_cb (tags p ! j) \<noteq> 0"
    have pos: "0 < t_cb (tags p ! j)" using c tag_nonneg(2) [OF nth_mem [OF j(1)]] by simp
    have ej: "t_ib (tags p ! j) + t_cb (tags p ! j) \<le> ?mic" using tags_okD [OF s(2), of j] j c by simp
    have ap: "t_cb ?v \<noteq> 0 \<Longrightarrow> t_ib (tags p ! j) + t_cb (tags p ! j) \<le> t_ib ?v \<or> t_ib ?v + t_cb ?v \<le> t_ib (tags p ! j)"
      using tags_apart [OF s(2) j(1) kl j(2) c] by simp
    show ?thesis
    proof (cases fLast)
      case True
      then have "t_ib (tags p ! j) + t_cb (tags p ! j) \<le> t_ib ?v"
        using last ap ej pos by (cases "t_cb ?v = 0") auto
      moreover have "m = t_ib ?v + L" using True last d by (simp add: m_def)
      ultimately show ?thesis using L0 by simp
    next
      case False
      then have "L \<le> t_cb ?v" using cond d by simp
      then show ?thesis using False ap ej L0 by (cases "t_cb ?v = 0") (auto simp: m_def)
    qed
  qed
  have st: "itagState (pghdr q) = itagState (pghdr p)" "0 \<le> t_cb ?w" using h L0 by simp_all
  have mic: "uint (ibMicFree (pghdr q)) + CbTagArray p \<le> CbBufferData p" using M m(2) by simp
  have ev: "t_ib ?w + t_cb ?w \<le> uint (ibMicFree (pghdr q))" if "t_cb ?w \<noteq> 0" using that M m(3) by simp
  have eo: "t_ib (tags p ! j) + t_cb (tags p ! j) \<le> uint (ibMicFree (pghdr q))"
    if "j < length (tags p)" "j \<noteq> k" "t_cb (tags p ! j) \<noteq> 0" for j
    using others [OF that] M by simp
  have ap: "apart ?w (tags p ! j)" if "j < length (tags p)" "j \<noteq> k" for j
    using others [OF that] by (auto simp: apart_def)
  have b: "buf q i = buf p i" if "i < cbBuffer p - CbTagArray p"
    "i < PbFromIb p (t_ib ?w) \<or> PbFromIb p (t_ib ?w + t_cb ?w) \<le> i"
    "i < PbFromIb p (t_ib ?v) \<or> PbFromIb p (t_ib ?v + t_cb ?v) \<le> i" for i
  proof -
    have "buf q i = buf q0 i" using that(2,3) L0 by (intro bq) (auto simp: PbFromIb_def)
    then show ?thesis using Q(4) [OF that(1)] that(2) L(1) by (auto simp: store_bytes_def PbFromIb_def)
  qed
  note R = replaced_page [OF ok k o st(1) tq st(2) F mic ev eo ap b]
  show "page_ok q" by (rule R(1))
  have "line_of q ?w = stored p k flags ?bs"
  proof (rule line_of_stored)
    fix i assume i: "PbFromIb q (t_ib ?w) \<le> i" "i < PbFromIb q (t_ib ?w) + t_cb ?w"
    note fq = same_obj_fields [OF o]
    have "buf q i = buf q0 i" using i fq by (intro bq) (simp add: PbFromIb_def)
    then show "buf q i = store_bytes (PbFromIb q (t_ib ?w)) (snd (stored p k flags ?bs)) (buf p) i"
      using Q(4) [of i] i fq fit by (auto simp: PbFromIb_def)
  qed (simp_all add: stored_def L(1))
  then show "lines q = (lines p)[k := stored p k flags ?bs]" using R(2) by simp
qed

subsection \<open>Replacement\<close>

lemma Replace_at_spec:
  assumes ok: "page_ok p" and norm: "FIsNormalSized p" and k: "int k < ITagMicFree p"
    and room: "int (length (concat bss)) \<le> uint (cbFree (pghdr p)) + t_cb (tags p ! k)"
  obtains q where "Replace_at (int k) (map OffPage bss) flags p = Some q" "page_ok q" "same_obj p q"
    "lines q = (lines p)[k := stored p k flags (concat bss)]"
    "uint (cbFree (pghdr q)) = uint (cbFree (pghdr p)) + t_cb (tags p ! k) - int (length (concat bss))"
proof -
  define L where "L = int (length (concat bss))"
  let ?t = "PtagFromItag p (int k)" and ?v = "tags p ! k" and ?c = "word_of_int L :: u16"
  have s: "shape_ok p" "tags_ok p" "free_ok p" using ok by (simp_all add: page_ok_def)
  have kl: "k < length (tags p)" using k by simp
  note tn = tag_nonneg [OF nth_mem [OF kl]]
  have cb: "uint (TAG_Cb p ?t) = t_cb ?v" "uint (TAG_Ib p ?t) = t_ib ?v" using k by (simp_all add: nth_tags)
  have L32: "0 \<le> L" "L < 32768" "t_cb ?v < 32768"
    using room s(3) deleted_free(3) [OF ok k] data_fits [OF s(1)] CbTagArray_nonneg [of p] tn
      uint16_nonneg [of "cbFree (pghdr p)"]
    by (simp_all add: L_def free_ok_def)
  have c: "uint ?c = L" using L32 by (intro uint16_of_int) simp_all
  define d where "d = t_cb ?v - L"
  have d: "sint (word_of_int d :: u16) = d" using L32 tn by (intro sint_diff16) (simp_all add: d_def)
  define fLast where "fLast = (t_ib ?v + t_cb ?v = uint (ibMicFree (pghdr p)))"
  define pB where "pB = (if 0 \<le> d \<or> fLast \<and> - d \<le> CbContiguousFree p
      then Some (ReplaceInPlace fLast d p) else ReplaceGrow ?t ?c p)"
  have R: "Replace_at (int k) (map OffPage bss) flags p = (case pB of None \<Rightarrow> None | Some p \<Rightarrow>
      let p = TAG_SetCb ?t ?c p;
          p = TAG_SetFlags ?t flags p;
          p = CopyData ?t (map OffPage bss) p
      in Some (if 0 < d \<and> fScrubbing p
          then upd_buf (memset (PbFromIb p (uint (TAG_Ib p ?t + TAG_Cb p ?t))) chPAGEReplaceFill d) p else p))"
    unfolding Replace_at_def CbDataTotal_OffPage L_def [symmetric] Let_def c cb d_def [symmetric] d
      fLast_def [symmetric] pB_def ..
  show thesis
  proof (cases "0 \<le> d \<or> fLast \<and> - d \<le> CbContiguousFree p")
    case True
    then have pB: "pB = Some (ReplaceInPlace fLast d p)" by (simp add: pB_def)
    define q0 where "q0 = CopyData ?t (map OffPage bss) (TAG_SetFlags ?t flags
      (TAG_SetCb ?t ?c (ReplaceInPlace fLast d p)))"
    define q where "q = (if 0 < d \<and> fScrubbing q0
      then upd_buf (memset (PbFromIb q0 (uint (TAG_Ib q0 ?t + TAG_Cb q0 ?t))) chPAGEReplaceFill d) q0 else q0)"
    note I = ReplaceInPlace_spec [OF ok norm k refl L_def c d_def _ True q0_def q_def]
    have "Replace_at (int k) (map OffPage bss) flags p = Some q"
      unfolding R pB option.case Let_def q0_def [symmetric] q_def ..
    with I show thesis by (intro that) (simp_all add: fLast_def L_def)
  next
    case False
    then have pB: "pB = ReplaceGrow ?t ?c p" and dn: "\<not> 0 < d" by (auto simp: pB_def)
    have room': "L \<le> uint (cbFree (pghdr p)) + t_cb ?v" using room by (simp add: L_def)
    obtain pA q where G: "ReplaceGrow ?t ?c p = Some pA"
      "q = CopyData ?t (map OffPage bss) (TAG_SetFlags ?t flags (TAG_SetCb ?t ?c pA))"
      "page_ok q" "same_obj p q" "lines q = (lines p)[k := stored p k flags (concat bss)]"
      "uint (cbFree (pghdr q)) = uint (cbFree (pghdr p)) + t_cb ?v - L"
      using ReplaceGrow_spec [OF ok norm k refl L_def c room'] by blast
    have "Replace_at (int k) (map OffPage bss) flags p = Some q"
      unfolding R pB G(1) option.case Let_def using dn G(2) by simp
    with G(3-6) show thesis by (intro that) (simp_all add: L_def)
  qed
qed

end
