(* ===== verification/Page_Image.thy ===== *)
theory Page_Image
  imports Page_Replace
begin

text \<open>
  The operations of \<open>CPAGE\<close> on the whole image (\<open>src/ese/cpage.cxx\<close>): a new page, the checked
  access to a line, the free-space counters of the version store, scrubbing, the logical
  checksum, and shrinking and growing the buffer (dehydration).
\<close>

subsection \<open>A new page\<close>

definition fPageNewRecordFormat :: u32 where "fPageNewRecordFormat = 0x0800"
definition fPageNewChecksumFormat :: u32 where "fPageNewChecksumFormat = 0x2000"
definition maskFlushType :: u32 where "maskFlushType = 0x18000"
definition fPagePreInit :: u32 where "fPagePreInit = 0x20000"
definition fPageFDPDelete :: u32 where "fPageFDPDelete = 0x40000"
definition fPageEmpty :: u32 where "fPageEmpty = 0x0008"
definition fPageScrubbed :: u32 where "fPageScrubbed = 0x4000"

definition SetFlags :: "u32 \<Rightarrow> CPAGE \<Rightarrow> CPAGE" where
  "SetFlags fl p = p\<lparr>pghdr := (pghdr p)\<lparr>fFlags := fl\<rparr>\<rparr>"

definition SetFNewRecordFormat :: "CPAGE \<Rightarrow> CPAGE" where
  "SetFNewRecordFormat p = SetFlags (fFlags (pghdr p) OR fPageNewRecordFormat) p"

definition PreInitializeNewPage :: "u32 \<Rightarrow> u32 \<Rightarrow> u64 \<Rightarrow> CPAGE \<Rightarrow> CPAGE" where
  "PreInitializeNewPage pgnoNew objid dbtime p =
     (let p = p\<lparr>m_itagMicFree := 0, m_ctagReserved := 0\<rparr>;
          p = p\<lparr>buf := memset 0 0 (cbBuffer p) (buf p)\<rparr>;
          p = p\<lparr>pghdr := \<lparr>checksum = 0, dbtimeDirtied = dbtime, pgnoPrev = 0, pgnoNext = 0,
                objidFDP = objid, cbFree = word_of_int (CbPageData p), cbUncommittedFree = 0,
                ibMicFree = 0, itagState = 0, fFlags = fPagePreInit\<rparr>,
                pghdr2 := \<lparr>rgChecksum = [0, 0, 0], pgno = 0\<rparr>\<rparr>;
          p = (if \<not> fSmallFormat p
               then p\<lparr>pghdr2 := \<lparr>rgChecksum = [0x6570755320455345, 0x524f584343452072, 0x6d75736b63656843],
                        pgno = pgnoNew\<rparr>,
                      pghdr := (pghdr p)\<lparr>checksum := 0xdeadbeefbaadf00d\<rparr>\<rparr>
               else p)
      in SetFNewRecordFormat p)"

definition ConsumePreInitPage :: "u32 \<Rightarrow> CPAGE \<Rightarrow> CPAGE" where
  "ConsumePreInitPage fPageFlags p =
     (let p = SetITagState 1 1 p;
          p = set_cbFree (cbFree (pghdr p) - word_of_int cbTAG) p;
          ptag = PtagFromItag p 0;
          p = TAG_SetIb ptag 0 p;
          p = TAG_SetCb ptag 0 p;
          p = TAG_SetFlags ptag 0 p
      in SetFlags ((fPageFlags OR fPageNewRecordFormat) AND NOT fPagePreInit) p)"

definition LoadNewPage :: "u32 \<Rightarrow> u32 \<Rightarrow> u32 \<Rightarrow> int \<Rightarrow> CPAGE \<Rightarrow> CPAGE" where
  "LoadNewPage pgnoNew objid fl cb p =
     (let p = p\<lparr>fSmallFormat := FIsSmallPage cb, cbBuffer := cb, cbPage := cb\<rparr>;
          p = PreInitializeNewPage pgnoNew objid 0 p;
          p = ConsumePreInitPage fl p
      in InitItagState (pghdr p) p)"

subsection \<open>Header fields\<close>

definition SetFEmpty :: "CPAGE \<Rightarrow> CPAGE" where
  "SetFEmpty p = SetFlags (fFlags (pghdr p) OR fPageEmpty) p"

definition SetPgno :: "u32 \<Rightarrow> CPAGE \<Rightarrow> CPAGE" where
  "SetPgno n p = (if \<not> fSmallFormat p then p\<lparr>pghdr2 := (pghdr2 p)\<lparr>pgno := n\<rparr>\<rparr> else p)"

definition SetPgnoNext :: "u32 \<Rightarrow> CPAGE \<Rightarrow> CPAGE" where
  "SetPgnoNext n p = p\<lparr>pghdr := (pghdr p)\<lparr>pgnoNext := n\<rparr>\<rparr>"

definition SetPgnoPrev :: "u32 \<Rightarrow> CPAGE \<Rightarrow> CPAGE" where
  "SetPgnoPrev n p = p\<lparr>pghdr := (pghdr p)\<lparr>pgnoPrev := n\<rparr>\<rparr>"

definition SetDbtime :: "u64 \<Rightarrow> CPAGE \<Rightarrow> CPAGE" where
  "SetDbtime t p = p\<lparr>pghdr := (pghdr p)\<lparr>dbtimeDirtied := t\<rparr>\<rparr>"

definition SetPageFDPDelete :: "bool \<Rightarrow> CPAGE \<Rightarrow> CPAGE" where
  "SetPageFDPDelete v p =
     (if v then SetFlags (fFlags (pghdr p) OR fPageFDPDelete) p
      else SetFlags (fFlags (pghdr p) AND NOT fPageFDPDelete) p)"

definition SetCbUncommittedFree :: "int \<Rightarrow> CPAGE \<Rightarrow> CPAGE" where
  "SetCbUncommittedFree cb p = p\<lparr>pghdr := (pghdr p)\<lparr>cbUncommittedFree := word_of_int cb\<rparr>\<rparr>"

definition AddUncommittedFreed :: "int \<Rightarrow> CPAGE \<Rightarrow> CPAGE" where
  "AddUncommittedFreed cb p =
     p\<lparr>pghdr := (pghdr p)\<lparr>cbUncommittedFree :=
       word_of_int (uint (cbUncommittedFree (pghdr p)) + cb)\<rparr>\<rparr>"

definition ReclaimUncommittedFreed :: "int \<Rightarrow> CPAGE \<Rightarrow> CPAGE" where
  "ReclaimUncommittedFreed cb p =
     p\<lparr>pghdr := (pghdr p)\<lparr>cbUncommittedFree :=
       word_of_int (uint (cbUncommittedFree (pghdr p)) - cb)\<rparr>\<rparr>"

subsection \<open>Access to a line\<close>

record LINE =
  l_pv :: int
  l_cb :: int
  l_fFlags :: u16

definition GetPtr_NoChecks :: "int \<Rightarrow> CPAGE \<Rightarrow> LINE" where
  "GetPtr_NoChecks itag p =
     (let ptag = PtagFromItag p itag;
          cb = uint (TAG_Cb p ptag);
          pv = (if cb = 0 then -29 else PbFromIb p (uint (TAG_Ib p ptag)))
      in \<lparr>l_pv = pv, l_cb = cb, l_fFlags = TAG_FFlags p ptag\<rparr>)"

text \<open>
  The checked variant also tells whether it set \<open>JET_errPageTagCorrupted\<close>.  A null pointer
  is 0.
\<close>

definition GetPtr_Checked :: "int \<Rightarrow> CPAGE \<Rightarrow> LINE \<times> bool" where
  "GetPtr_Checked itag p =
     (let ptag = PtagFromItag p itag;
          pbPageDataStart = CbPageHeader p;
          pbPageBufferEnd = cbBuffer p
      in if ptag < pbPageDataStart \<or> ptag + cbTAG - 1 > pbPageBufferEnd
         then (\<lparr>l_pv = 0, l_cb = 0, l_fFlags = 0\<rparr>, True)
         else
           let cb = uint (TAG_Cb p ptag)
           in if cb = 0
              then (\<lparr>l_pv = -29, l_cb = 0, l_fFlags = TAG_FFlags p ptag\<rparr>, CTagReserved p \<le> itag)
              else
                let pbLine = PbFromIb p (uint (TAG_Ib p ptag));
                    pbLineLastByte = pbLine + cb - 1;
                    pbPageDataEnd = cbBuffer p - CbTagArray p - 1
                in if pbLineLastByte > pbPageDataEnd \<or> pbLine < pbPageDataStart \<or>
                      pbLine \<ge> pbPageDataEnd \<or> pbLineLastByte < pbPageDataStart
                   then (\<lparr>l_pv = pbLine, l_cb = cb,
                          l_fFlags = (if fSmallFormat p \<or> pbLine + 1 < pbPageDataEnd
                                      then TAG_FFlags p ptag else 0)\<rparr>, True)
                   else (\<lparr>l_pv = pbLine, l_cb = cb, l_fFlags = TAG_FFlags p ptag\<rparr>, False))"

definition ErrGetPtr :: "int \<Rightarrow> CPAGE \<Rightarrow> LINE \<times> bool" where
  "ErrGetPtr iline p = GetPtr_Checked (iline + CTagReserved p) p"

definition ErrGetPtrExternalHeader :: "CPAGE \<Rightarrow> LINE \<times> bool" where
  "ErrGetPtrExternalHeader p = GetPtr_Checked 0 p"

definition ErrGetPtrReservedTag :: "int \<Rightarrow> CPAGE \<Rightarrow> LINE \<times> bool" where
  "ErrGetPtrReservedTag itag p = GetPtr_Checked itag p"

definition FOnPage :: "CPAGE \<Rightarrow> int \<Rightarrow> int \<Rightarrow> bool" where
  "FOnPage p pb cb \<longleftrightarrow> pb \<ge> 0 \<and> pb < cbBuffer p \<and> (cb = 0 \<or> pb + cb \<ge> 0) \<and>
     (cb = 0 \<or> pb + cb \<le> cbBuffer p)"

definition FOnData :: "CPAGE \<Rightarrow> int \<Rightarrow> int \<Rightarrow> bool" where
  "FOnData p pb cb \<longleftrightarrow>
     (let pbLastByte = pb + cb - 1;
          pbPageDataStart = PbDataStart p;
          pbPageDataEnd = PbDataEnd p
      in pb \<ge> pbPageDataStart \<and> pb < pbPageDataEnd \<and> pbLastByte \<ge> pbPageDataStart \<and>
         pbLastByte \<le> pbPageDataEnd)"

subsection \<open>Scrubbing\<close>

text \<open>
  \<open>ZeroOutGaps_\<close>: the loop over neighbouring tags, in the order of their offsets.  A line
  that starts before its predecessor ends is the enforce.
\<close>

fun ZeroGapsLoop :: "u8 \<Rightarrow> int list \<Rightarrow> CPAGE \<Rightarrow> CPAGE option" where
  "ZeroGapsLoop ch (ptag # ptagNext # rest) p =
     (let pbStartZeroing = PbFromIb p (uint (TAG_Ib p ptag)) + uint (TAG_Cb p ptag);
          cbToZero = PbFromIb p (uint (TAG_Ib p ptagNext)) - pbStartZeroing
      in if cbToZero > 0
         then ZeroGapsLoop ch (ptagNext # rest) (upd_buf (memset pbStartZeroing ch cbToZero) p)
         else if cbToZero \<noteq> 0 then None
         else ZeroGapsLoop ch (ptagNext # rest) p)"
| "ZeroGapsLoop ch rest p = Some p"

definition ZeroOutGaps :: "u8 \<Rightarrow> CPAGE \<Rightarrow> CPAGE option" where
  "ZeroOutGaps ch p =
     (let rg = filter (\<lambda>ptag. uint (TAG_Cb p ptag) > 0) (rgptag p);
          rg = sort_key (\<lambda>ptag. uint (TAG_Ib p ptag)) rg;
          p = (if rg = [] then set_ibMicFree 0 p
               else
                 let pbStartZeroing = PbFromIb p 0;
                     cbToZero = PbFromIb p (uint (TAG_Ib p (hd rg))) - pbStartZeroing;
                     p = upd_buf (memset pbStartZeroing ch cbToZero) p
                 in set_ibMicFree (TAG_Ib p (last rg) + TAG_Cb p (last rg)) p)
      in ZeroGapsLoop ch rg p)"

definition OverwriteUnusedSpace :: "u8 \<Rightarrow> CPAGE \<Rightarrow> CPAGE option" where
  "OverwriteUnusedSpace ch p =
     (case (if CbContiguousFree p \<noteq> uint (cbFree (pghdr p)) then ZeroOutGaps ch p else Some p) of
        None \<Rightarrow> None
      | Some p \<Rightarrow>
          Some (upd_buf (memset (PbFromIb p (uint (ibMicFree (pghdr p)))) ch (CbContiguousFree p)) p))"

text \<open>\<open>ReorganizePage\<close> returns the two used parts of the buffer, each as start and length.\<close>

definition ReorganizePage :: "CPAGE \<Rightarrow> (((int \<times> int) \<times> (int \<times> int)) \<times> CPAGE) option" where
  "ReorganizePage p =
     (case (if CbContiguousFree p \<noteq> uint (cbFree (pghdr p)) then ReorganizeData p else Some p) of
        None \<Rightarrow> None
      | Some p \<Rightarrow>
          let pbMin = 0;
              pbFree = PbFromIb p (uint (ibMicFree (pghdr p)));
              pbTags = PtagFromItag p (ITagMicFree p - 1);
              pbMax = pbMin + cbBuffer p
          in Some (((pbMin, pbFree - pbMin), (pbTags, pbMax - pbTags)), p))"

subsection \<open>The logical checksum\<close>

text \<open>
  \<open>UpdateLoggedDataChecksum_\<close> unrolls its loop eight times and enters it at
  \<open>cb % 8\<close>: \<open>checksum_steps\<close> is a fall through \<open>n\<close> of its cases, \<open>checksum_while\<close> the \<open>while\<close>.
\<close>

fun checksum_steps :: "nat \<Rightarrow> u8 list \<Rightarrow> nat \<Rightarrow> u64 \<Rightarrow> nat \<times> u64" where
  "checksum_steps 0 pb ib c = (ib, c)"
| "checksum_steps (Suc n) pb ib c =
     checksum_steps n pb (ib + 1) (word_rotl 6 c + ucast (pb ! ib))"

lemma checksum_steps_ib: "fst (checksum_steps n pb ib c) = ib + n"
  by (induction n arbitrary: ib c) simp_all

function checksum_while :: "nat \<Rightarrow> u8 list \<Rightarrow> nat \<Rightarrow> u64 \<Rightarrow> u64" where
  "checksum_while cb pb ib c =
     (if ib < cb then case checksum_steps 8 pb ib c of (ib, c) \<Rightarrow> checksum_while cb pb ib c else c)"
  by pat_completeness auto
termination
  by (relation "measure (\<lambda>(cb, pb, ib, c). cb - ib)") (auto simp: case_prod_beta checksum_steps_ib)

declare checksum_while.simps [simp del]

definition UpdateLoggedDataChecksum :: "u64 \<Rightarrow> u8 list \<Rightarrow> u64" where
  "UpdateLoggedDataChecksum c pb =
     (case checksum_steps (length pb mod 8) pb 0 c of (ib, c) \<Rightarrow> checksum_while (length pb) pb ib c)"

fun le_bytes :: "nat \<Rightarrow> u64 \<Rightarrow> u8 list" where
  "le_bytes 0 w = []"
| "le_bytes (Suc n) w = ucast w # le_bytes n (drop_bit 8 w)"

text \<open>The bytes of the header copy that is summed, with the ignored fields cleared.\<close>

definition logged_header :: "CPAGE \<Rightarrow> u8 list" where
  "logged_header p =
     (let h = pghdr p;
          ctagResvLegacy = drop_bit SHF_CTAG_RESERVED (itagState h);
          ctagResvLegacy = (if ctagResvLegacy \<le> 1 then 0 else ctagResvLegacy);
          itagState' = push_bit SHF_CTAG_RESERVED ctagResvLegacy OR (itagState h AND ITAG_MIC_FREE_MASK);
          fFlags' = fFlags h AND NOT (maskFlushType OR fPageNewChecksumFormat OR fPageFDPDelete)
      in le_bytes 8 0 @ le_bytes 8 (dbtimeDirtied h) @ le_bytes 4 (ucast (pgnoPrev h)) @
         le_bytes 4 (ucast (pgnoNext h)) @ le_bytes 4 (ucast (objidFDP h)) @ le_bytes 2 0 @
         le_bytes 2 0 @ le_bytes 2 0 @ le_bytes 2 (ucast itagState') @ le_bytes 4 (ucast fFlags') @
         (if fSmallFormat p then []
          else replicate 24 0 @ le_bytes 4 (ucast (pgno (pghdr2 p))) @ replicate 12 0))"

definition cbKeyCount :: int where "cbKeyCount = 2"
definition fNDVersion :: u16 where "fNDVersion = 1"
definition fNDDeleted :: u16 where "fNDDeleted = 2"

definition LoggedTag :: "CPAGE \<Rightarrow> int \<Rightarrow> u64 \<Rightarrow> u64" where
  "LoggedTag p itag acc =
     (let ptag = PtagFromItag p itag
      in if \<not> FOnPage p ptag cbTAG then acc
         else
           let cb = uint (TAG_Cb p ptag);
               pb = PbFromIb p (uint (TAG_Ib p ptag))
           in if \<not> cb < cbKeyCount \<and> \<not> FOnData p pb cb then acc
              else
                let bFlags = ucast (TAG_FFlags p ptag AND NOT fNDVersion) :: u8;
                    acc =
                      (if TAG_FFlags p ptag AND fNDDeleted = 0 \<and> cbKeyCount \<le> cb
                       then let cbKey = TAG_Cb p ptag;
                                acc = UpdateLoggedDataChecksum acc (le_bytes 2 (ucast cbKey))
                            in UpdateLoggedDataChecksum acc
                                 (load_bytes (buf p) (pb + cbKeyCount) (cb - cbKeyCount))
                       else acc)
                in word_rotl 6 acc + ucast bFlags)"

definition LoggedDataChecksum :: "CPAGE \<Rightarrow> u64" where
  "LoggedDataChecksum p =
     fold (LoggedTag p) [0..ITagMicFree p - 1] (UpdateLoggedDataChecksum 0 (logged_header p))"

subsection \<open>Shrinking and growing the buffer\<close>

definition roundup :: "int \<Rightarrow> int \<Rightarrow> int" where
  "roundup val align = ((val + align - 1) div align) * align"

definition CbContiguousDehydrateRequired :: "CPAGE \<Rightarrow> int" where
  "CbContiguousDehydrateRequired p =
     roundup (CbPageHeader p + uint (ibMicFree (pghdr p)) + CbTagArray p) 2"

definition CbReorganizedDehydrateRequired :: "CPAGE \<Rightarrow> int" where
  "CbReorganizedDehydrateRequired p = roundup (cbBuffer p - uint (CbFree p)) 2"

text \<open>
  The sizes are \<open>ULONG\<close>, so that a difference of a small buffer wraps around;
  \<open>gran\<close> is \<open>OSMemoryPageCommitGranularity\<close>.
\<close>

definition FPageIsDehydratable :: "int \<Rightarrow> CPAGE \<Rightarrow> int \<times> bool" where
  "FPageIsDehydratable gran p =
     (let h = pghdr p
      in if checksum h = 0 \<and> dbtimeDirtied h = 0 \<and> objidFDP h = 0 \<and> cbFree h = 0
         then (cbPage p, False)
         else
           let cbMin =
                 (if CbContiguousBufferFree p \<ge> gran \<and>
                     CbPageHeader p + uint (ibMicFree h) + CbTagArray p < (cbBuffer p - 4 * 1024) mod 2 ^ 32
                  then CbContiguousDehydrateRequired p else cbPage p)
           in (cbMin, cbMin < (cbBuffer p - gran) mod 2 ^ 32))"

text \<open>
  \<open>SetBufferSize\<close> of the latch manager sets \<open>CbBuffer\<close>.  A clean page gets a new checksum;
  \<open>setsum\<close> is \<open>SetPageChecksum\<close>.
\<close>

definition OptimizeInternalFragmentation :: "(int \<Rightarrow> int) \<Rightarrow> CPAGE \<Rightarrow> CPAGE option" where
  "OptimizeInternalFragmentation CbBFGetBufferSize p =
     (let cbMinCurrSize = CbContiguousDehydrateRequired p;
          cbMinReorgSize = CbReorganizedDehydrateRequired p
      in if cbMinReorgSize \<noteq> cbMinCurrSize \<and>
            CbBFGetBufferSize cbMinReorgSize < CbBFGetBufferSize cbMinCurrSize
         then ReorganizeData p else Some p)"

definition DehydratePageUnadjusted :: "(CPAGE \<Rightarrow> CPAGE) \<Rightarrow> int \<Rightarrow> CPAGE \<Rightarrow> CPAGE option" where
  "DehydratePageUnadjusted setsum cbNewSize p =
     (let cbShrinkage = cbBuffer p - cbNewSize
      in if \<not> cbShrinkage < cbPage p \<or> \<not> cbShrinkage < 0x10000 \<or>
            \<not> uint (cbFree (pghdr p)) \<ge> cbShrinkage \<or>
            \<not> uint (ibMicFree (pghdr p)) < cbBuffer p - cbShrinkage
         then None
         else
           let p = upd_buf (memmove (cbNewSize - CbTagArray p) (cbBuffer p - CbTagArray p) (CbTagArray p)) p;
               p = set_cbFree (cbFree (pghdr p) - word_of_int cbShrinkage) p;
               p = p\<lparr>cbBuffer := cbNewSize\<rparr>
           in Some (if \<not> fDirty p then setsum p else p))"

definition DehydratePage :: "(CPAGE \<Rightarrow> CPAGE) \<Rightarrow> int \<Rightarrow> int \<Rightarrow> CPAGE \<Rightarrow> CPAGE option" where
  "DehydratePage setsum gran cbNewSize p =
     (if \<not> snd (FPageIsDehydratable gran p) then Some p
      else DehydratePageUnadjusted setsum cbNewSize p)"

definition RehydratePage :: "(CPAGE \<Rightarrow> CPAGE) \<Rightarrow> int \<Rightarrow> CPAGE \<Rightarrow> CPAGE option" where
  "RehydratePage setsum cbPageMax p =
     (let cbBufferOrigSize = cbBuffer p
      in if \<not> cbBufferOrigSize \<le> cbPageMax \<or> \<not> cbPage p \<le> cbPageMax then None
         else
           let p = p\<lparr>cbBuffer := cbPage p\<rparr>;
               cbBufferNewSize = cbBuffer p
           in if \<not> cbBufferNewSize > cbBufferOrigSize then None
              else
                let cbGrowth = cbBufferNewSize - cbBufferOrigSize;
                    cbTagArray = CbTagArray p;
                    pvSource = cbBufferOrigSize - cbTagArray;
                    pvTarget = cbBufferNewSize - cbTagArray
                in if \<not> pvSource \<ge> 0 \<or> \<not> pvTarget + cbTagArray \<le> cbBufferNewSize then None
                   else
                     let p = upd_buf (memmove pvTarget pvSource cbTagArray) p
                     in if \<not> uint (cbFree (pghdr p)) + cbGrowth \<le> cbPageMax then None
                        else
                          let p = set_cbFree (cbFree (pghdr p) + word_of_int cbGrowth) p;
                              p = (if fScrubbing p
                                   then upd_buf (memset (PbFromIb p (uint (ibMicFree (pghdr p))))
                                          chPAGEReHydrateFill (CbContiguousBufferFree p)) p
                                   else p)
                          in Some (if \<not> fDirty p then setsum p else p))"

end
