(* ===== verification/Line_Store.thy ===== *)
theory Line_Store
  imports Ese_Prelude
begin

text \<open>
  The contract a page keeps with the code above it: a numbered list of lines that can be
  inserted, replaced and deleted as long as there is room.  Users of a page (\<open>node.cxx\<close>)
  rely on these laws only; what they give for a whole sequence of operations is proved
  once, here.
\<close>

datatype 'd line_op = Ins nat 'd | Rep nat 'd | Del nat

fun run :: "('o \<Rightarrow> 's \<Rightarrow> 's option) \<Rightarrow> 'o list \<Rightarrow> 's \<Rightarrow> 's option" where
  "run step [] s = Some s"
| "run step (op # ops) s = (case step op s of None \<Rightarrow> None | Some s \<Rightarrow> run step ops s)"

text \<open>
  The specification of one operation, on the list of lines and the free bytes: \<open>enc\<close> is what
  is kept of the data of a line, \<open>ovh\<close> what a line costs besides its bytes, \<open>limit\<close> how many
  lines there can be.
\<close>

fun spec_op :: "('d \<Rightarrow> 'l) \<Rightarrow> ('l \<Rightarrow> int) \<Rightarrow> int \<Rightarrow> int \<Rightarrow> 'd line_op \<Rightarrow> 'l list \<times> int \<Rightarrow>
    ('l list \<times> int) option" where
  "spec_op enc sz ovh limit (Ins k d) (ls, r) =
     (if k \<le> length ls \<and> int (length ls) < limit \<and> sz (enc d) + ovh \<le> r
      then Some (list_ins k (enc d) ls, r - sz (enc d) - ovh) else None)"
| "spec_op enc sz ovh limit (Rep k d) (ls, r) =
     (if k < length ls \<and> sz (enc d) \<le> r + sz (ls ! k)
      then Some (ls[k := enc d], r + sz (ls ! k) - sz (enc d)) else None)"
| "spec_op enc sz ovh limit (Del k) (ls, r) =
     (if k < length ls then Some (list_del k ls, r + sz (ls ! k) + ovh) else None)"

fun do_op :: "(nat \<Rightarrow> 'd \<Rightarrow> 's \<Rightarrow> 's option) \<Rightarrow> (nat \<Rightarrow> 'd \<Rightarrow> 's \<Rightarrow> 's option) \<Rightarrow>
    (nat \<Rightarrow> 's \<Rightarrow> 's) \<Rightarrow> 'd line_op \<Rightarrow> 's \<Rightarrow> 's option" where
  "do_op ins rep del (Ins k d) s = ins k d s"
| "do_op ins rep del (Rep k d) s = rep k d s"
| "do_op ins rep del (Del k) s = Some (del k s)"

locale line_store =
  fixes inv :: "'s \<Rightarrow> bool" and lns :: "'s \<Rightarrow> 'l list" and room :: "'s \<Rightarrow> int"
    and fmt :: "'s \<Rightarrow> 'f" and enc :: "'f \<Rightarrow> 'd \<Rightarrow> 'l" and sz :: "'l \<Rightarrow> int" and ovh :: int
    and limit :: "'f \<Rightarrow> int"
    and ins :: "nat \<Rightarrow> 'd \<Rightarrow> 's \<Rightarrow> 's option" and rep :: "nat \<Rightarrow> 'd \<Rightarrow> 's \<Rightarrow> 's option"
    and del :: "nat \<Rightarrow> 's \<Rightarrow> 's"
  assumes ins_law: "inv s \<Longrightarrow> k \<le> length (lns s) \<Longrightarrow> int (length (lns s)) < limit (fmt s) \<Longrightarrow>
      sz (enc (fmt s) d) + ovh \<le> room s \<Longrightarrow>
      \<exists>s'. ins k d s = Some s' \<and> inv s' \<and> fmt s' = fmt s \<and>
        lns s' = list_ins k (enc (fmt s) d) (lns s) \<and> room s' = room s - sz (enc (fmt s) d) - ovh"
    and rep_law: "inv s \<Longrightarrow> k < length (lns s) \<Longrightarrow>
      sz (enc (fmt s) d) \<le> room s + sz (lns s ! k) \<Longrightarrow>
      \<exists>s'. rep k d s = Some s' \<and> inv s' \<and> fmt s' = fmt s \<and>
        lns s' = (lns s)[k := enc (fmt s) d] \<and>
        room s' = room s + sz (lns s ! k) - sz (enc (fmt s) d)"
    and del_law: "inv s \<Longrightarrow> k < length (lns s) \<Longrightarrow>
      inv (del k s) \<and> fmt (del k s) = fmt s \<and> lns (del k s) = list_del k (lns s) \<and>
      room (del k s) = room s + sz (lns s ! k) + ovh"
begin

lemma do_op_simulates:
  assumes "inv s" "spec_op (enc (fmt s)) sz ovh (limit (fmt s)) op (lns s, room s) = Some (ls, r)"
  shows "\<exists>s'. do_op ins rep del op s = Some s' \<and> inv s' \<and> fmt s' = fmt s \<and> lns s' = ls \<and> room s' = r"
  using assms ins_law rep_law del_law
  by (cases op) (auto split: if_splits)

lemma run_simulates:
  assumes "inv s" "run (spec_op (enc (fmt s)) sz ovh (limit (fmt s))) ops (lns s, room s) = Some (ls, r)"
  shows "\<exists>s'. run (do_op ins rep del) ops s = Some s' \<and> inv s' \<and> fmt s' = fmt s \<and> lns s' = ls \<and> room s' = r"
  using assms
proof (induction ops arbitrary: s)
  case (Cons op ops)
  let ?spec = "spec_op (enc (fmt s)) sz ovh (limit (fmt s))"
  obtain ls1 r1 where 1: "?spec op (lns s, room s) = Some (ls1, r1)"
    using Cons.prems(2) by (auto split: option.splits)
  obtain s1 where "do_op ins rep del op s = Some s1" "inv s1" "fmt s1 = fmt s" "lns s1 = ls1" "room s1 = r1"
    using do_op_simulates [OF Cons.prems(1) 1] by blast
  with Cons.IH [of s1] Cons.prems(2) 1 show ?case by simp
qed simp

end

end
