(* ===== verification/Page_Props.thy ===== *)
theory Page_Props
  imports Page_Replace Line_Store
begin

text \<open>
  What the users of a page rely on, stated for the public operations: the data lines behind
  the reserved tags form a list that \<open>Insert\<close>, \<open>Replace\<close> and \<open>Delete\<close> change as a list, the
  reserved lines stay what they were, and the free space is accounted for to the byte.  The
  page is an instance of the line store.
\<close>

subsection \<open>The lines a client sees\<close>

definition data_lines :: "CPAGE \<Rightarrow> line list" where
  "data_lines p = drop (nat (CTagReserved p)) (lines p)"

definition reserved_lines :: "CPAGE \<Rightarrow> line list" where
  "reserved_lines p = take (nat (CTagReserved p)) (lines p)"

definition line_bytes :: "line \<Rightarrow> int" where
  "line_bytes l = int (length (snd l))"

text \<open>A small well-formed page with one data line of two bytes, for the examples.\<close>

definition sample_page :: CPAGE where
  "sample_page = \<lparr>cbBuffer = 64, cbPage = 64, fSmallFormat = True, m_itagMicFree = 2,
     m_ctagReserved = 1, fResvTagFormat = False, fScrubbing = True,
     fDirty = True, pghdr = \<lparr>checksum = 0, dbtimeDirtied = 0, pgnoPrev = 0, pgnoNext = 0, objidFDP = 0,
       cbFree = 14, cbUncommittedFree = 0, ibMicFree = 2, itagState = 2, fFlags = 0\<rparr>,
     pghdr2 = \<lparr>rgChecksum = [0, 0, 0], pgno = 0\<rparr>,
     buf = (\<lambda>i. if i = 40 then 1 else if i = 41 then 2 else if i = 56 then 2 else 0)\<rparr>"

lemma sample_ok: "page_ok sample_page" "FIsNormalSized sample_page"
  by code_simp+

lemma list_ins_drop: "r \<le> k \<Longrightarrow> k \<le> length xs \<Longrightarrow>
    drop r (list_ins k x xs) = list_ins (k - r) x (drop r xs)"
  "r \<le> k \<Longrightarrow> k \<le> length xs \<Longrightarrow> take r (list_ins k x xs) = take r xs"
  by (simp_all add: list_ins_def drop_take min_def)

lemma list_del_drop: "r \<le> k \<Longrightarrow> k < length xs \<Longrightarrow> drop r (list_del k xs) = list_del (k - r) (drop r xs)"
  "r \<le> k \<Longrightarrow> k < length xs \<Longrightarrow> take r (list_del k xs) = take r xs"
  by (simp_all add: list_del_def drop_take min_def Suc_diff_le)

lemma stored_data: "0 < k \<Longrightarrow> stored p k fl bs = stored p 1 fl bs"
  by (simp add: stored_def)

lemma reserved_le: "page_ok p \<Longrightarrow> nat (CTagReserved p) \<le> nat (ITagMicFree p) \<and> 0 < nat (CTagReserved p)"
  by (auto simp: page_ok_def itags_ok_def)

lemma line_index:
  assumes "page_ok p" "0 \<le> iline"
  shows "iline + CTagReserved p = int (nat iline + nat (CTagReserved p))"
  using assms by (simp add: page_ok_def itags_ok_def)

lemma line_cb: "int k < ITagMicFree p \<Longrightarrow> line_bytes (lines p ! k) = t_cb (tags p ! k)"
  using tag_nonneg(2) [of "tags p ! k" p] by (simp add: lines_nth line_bytes_def line_of_def)

lemma page_insert_ok:
  assumes "page_ok p" "FIsNormalSized p" "0 \<le> iline" "iline \<le> Clines p" "ITagMicFree p < 4095"
    "int (length (concat bss)) + 4 \<le> uint (CbFree p)"
  shows "\<exists>q. Insert iline (map OffPage bss) flags p = Some q \<and> page_ok q \<and> FIsNormalSized q \<and>
    data_lines q = list_ins (nat iline) (stored p 1 flags (concat bss)) (data_lines p) \<and>
    reserved_lines q = reserved_lines p \<and>
    uint (CbFree q) = uint (CbFree p) - int (length (concat bss)) - 4 \<and>
    CTagReserved q = CTagReserved p \<and> fSmallFormat q = fSmallFormat p"
proof -
  define r where "r = nat (CTagReserved p)"
  define k where "k = nat iline + r"
  have k: "iline + CTagReserved p = int k" using line_index [OF assms(1,3)] by (simp add: k_def r_def)
  have r: "CTagReserved p = int r" "0 < r" using reserved_le [OF assms(1)] by (simp_all add: r_def)
  have kn: "CTagReserved p \<le> int k" "int k \<le> ITagMicFree p"
    using assms(3,4) k by (simp_all add: Clines_def)
  obtain q where q: "Insert_at (int k) (map OffPage bss) flags p = Some q" "page_ok q" "FIsNormalSized q"
    "lines q = list_ins k (stored p k flags (concat bss)) (lines p)"
    "uint (cbFree (pghdr q)) = uint (cbFree (pghdr p)) - int (length (concat bss)) - 4"
    "CTagReserved q = CTagReserved p" "cbPage q = cbPage p"
    using Insert_at_spec [OF assms(1,2) kn assms(5) assms(6) [unfolded CbFree_def], of flags] by metis
  have "fSmallFormat q = fSmallFormat p" using q(2,7) assms(1) by (simp add: page_ok_def shape_ok_def)
  moreover have "k \<le> length (lines p)" "r \<le> k" using kn(2) by (simp, simp add: k_def)
  ultimately show ?thesis
    using q r k stored_data [of k p flags "concat bss"]
    by (simp add: Insert_def data_lines_def reserved_lines_def list_ins_drop CbFree_def)
      (simp add: k_def)
qed

lemma page_replace_ok:
  assumes "page_ok p" "FIsNormalSized p" "0 \<le> iline" "iline < Clines p"
    "int (length (concat bss)) \<le> uint (CbFree p) + line_bytes (data_lines p ! nat iline)"
  shows "\<exists>q. Replace iline (map OffPage bss) flags p = Some q \<and> page_ok q \<and> FIsNormalSized q \<and>
    data_lines q = (data_lines p)[nat iline := stored p 1 flags (concat bss)] \<and>
    reserved_lines q = reserved_lines p \<and>
    uint (CbFree q) = uint (CbFree p) + line_bytes (data_lines p ! nat iline) - int (length (concat bss)) \<and>
    CTagReserved q = CTagReserved p \<and> fSmallFormat q = fSmallFormat p"
proof -
  define r where "r = nat (CTagReserved p)"
  define k where "k = nat iline + r"
  have k: "iline + CTagReserved p = int k" using line_index [OF assms(1,3)] by (simp add: k_def r_def)
  have r: "CTagReserved p = int r" "0 < r" using reserved_le [OF assms(1)] by (simp_all add: r_def)
  have kn: "int k < ITagMicFree p" using assms(4) k by (simp add: Clines_def)
  have kl: "k < length (lines p)" "r \<le> k" using kn by (simp, simp add: k_def)
  have cb: "line_bytes (data_lines p ! nat iline) = t_cb (tags p ! k)"
    using line_cb [OF kn] kl by (simp add: data_lines_def r k_def add.commute)
  obtain q where q: "Replace_at (int k) (map OffPage bss) flags p = Some q" "page_ok q" "same_obj p q"
    "lines q = (lines p)[k := stored p k flags (concat bss)]"
    "uint (cbFree (pghdr q)) = uint (cbFree (pghdr p)) + t_cb (tags p ! k) - int (length (concat bss))"
    using Replace_at_spec [OF assms(1,2) kn assms(5) [unfolded cb CbFree_def], of flags] by metis
  note f = same_obj_fields [OF q(3)]
  have "FIsNormalSized q" using assms(2) f by (simp add: FIsNormalSized_def)
  moreover have "nat iline = k - r" by (simp add: k_def)
  ultimately show ?thesis
    using q f r k kl cb stored_data [of k p flags "concat bss"]
    by (simp add: Replace_def data_lines_def reserved_lines_def drop_update_swap CbFree_def)
qed

lemma page_delete_ok:
  assumes "page_ok p" "0 \<le> iline" "iline < Clines p"
  shows "page_ok (Delete iline p) \<and>
    data_lines (Delete iline p) = list_del (nat iline) (data_lines p) \<and>
    reserved_lines (Delete iline p) = reserved_lines p \<and>
    uint (CbFree (Delete iline p)) = uint (CbFree p) + line_bytes (data_lines p ! nat iline) + 4 \<and>
    CTagReserved (Delete iline p) = CTagReserved p \<and> cbPage (Delete iline p) = cbPage p \<and>
    cbBuffer (Delete iline p) = cbBuffer p"
proof -
  define r where "r = nat (CTagReserved p)"
  define k where "k = nat iline + r"
  have k: "iline + CTagReserved p = int k" using line_index [OF assms(1,2)] by (simp add: k_def r_def)
  have r: "CTagReserved p = int r" "0 < r" using reserved_le [OF assms(1)] by (simp_all add: r_def)
  have kn: "int k < ITagMicFree p" using assms(3) k by (simp add: Clines_def)
  have kl: "k < length (lines p)" "r \<le> k" using kn by (simp, simp add: k_def)
  have cb: "line_bytes (data_lines p ! nat iline) = t_cb (tags p ! k)"
    using line_cb [OF kn] kl by (simp add: data_lines_def r k_def add.commute)
  have rk: "CTagReserved p \<le> int k" using r kl(2) by simp
  note D = Delete_at_spec [OF assms(1) rk kn]
  have "nat iline = k - r" by (simp add: k_def)
  then show ?thesis
    using D r kl cb unfolding Delete_def k
    by (simp add: data_lines_def reserved_lines_def list_del_drop CbFree_def)
qed

subsection \<open>The page is a line store\<close>

definition page_inv :: "CPAGE \<Rightarrow> bool" where
  "page_inv p \<longleftrightarrow> page_ok p \<and> FIsNormalSized p"

definition page_enc :: "bool \<times> int \<Rightarrow> u8 list list \<times> u16 \<Rightarrow> line" where
  "page_enc f d = (case d of (bss, fl) \<Rightarrow>
     (if fst f then (fl AND 7, concat bss)
      else (0, if length (concat bss) < 2 then concat bss else stamp fl (concat bss))))"

abbreviation page_ins :: "nat \<Rightarrow> u8 list list \<times> u16 \<Rightarrow> CPAGE \<Rightarrow> CPAGE option" where
  "page_ins k d \<equiv> Insert (int k) (map OffPage (fst d)) (snd d)"

abbreviation page_rep :: "nat \<Rightarrow> u8 list list \<times> u16 \<Rightarrow> CPAGE \<Rightarrow> CPAGE option" where
  "page_rep k d \<equiv> Replace (int k) (map OffPage (fst d)) (snd d)"

abbreviation page_del :: "nat \<Rightarrow> CPAGE \<Rightarrow> CPAGE" where
  "page_del k \<equiv> Delete (int k)"

definition page_fmt :: "CPAGE \<Rightarrow> bool \<times> int" where
  "page_fmt p = (fSmallFormat p, CTagReserved p)"

lemma page_enc_stored: "page_enc (page_fmt p) d = stored p 1 (snd d) (concat (fst d))"
  by (simp add: page_enc_def page_fmt_def stored_def tag_flags_def split: prod.split)

lemma length_data_lines: "page_ok p \<Longrightarrow> int (length (data_lines p)) = Clines p"
  using reserved_le [of p] by (simp add: data_lines_def Clines_def page_ok_def itags_ok_def)

lemma bytes_enc: "line_bytes (stored p 1 fl bs) = int (length bs)"
  by (simp add: line_bytes_def)

interpretation pg: line_store page_inv data_lines "\<lambda>p. uint (CbFree p)" page_fmt page_enc line_bytes 4
  "\<lambda>f. 4095 - snd f" page_ins page_rep page_del
proof unfold_locales
  fix p k d
  assume p: "page_inv p"
  have ok: "page_ok p" "FIsNormalSized p" using p by (simp_all add: page_inv_def)
  note C = length_data_lines [OF ok(1)]
  show "\<exists>q. page_ins k d p = Some q \<and> page_inv q \<and> page_fmt q = page_fmt p \<and>
      data_lines q = list_ins k (page_enc (page_fmt p) d) (data_lines p) \<and>
      uint (CbFree q) = uint (CbFree p) - line_bytes (page_enc (page_fmt p) d) - 4"
    if "k \<le> length (data_lines p)" "int (length (data_lines p)) < 4095 - snd (page_fmt p)"
      "line_bytes (page_enc (page_fmt p) d) + 4 \<le> uint (CbFree p)"
    using page_insert_ok [OF ok, of "int k" "fst d" "snd d"] that C
    unfolding page_enc_stored bytes_enc by (simp add: page_fmt_def page_inv_def Clines_def) blast
  show "\<exists>q. page_rep k d p = Some q \<and> page_inv q \<and> page_fmt q = page_fmt p \<and>
      data_lines q = (data_lines p)[k := page_enc (page_fmt p) d] \<and>
      uint (CbFree q) = uint (CbFree p) + line_bytes (data_lines p ! k) - line_bytes (page_enc (page_fmt p) d)"
    if "k < length (data_lines p)" "line_bytes (page_enc (page_fmt p) d) \<le> uint (CbFree p) + line_bytes (data_lines p ! k)"
    using page_replace_ok [OF ok, of "int k" "fst d" "snd d"] that C
    unfolding page_enc_stored bytes_enc by (simp add: page_fmt_def page_inv_def Clines_def) blast
  show "page_inv (page_del k p) \<and> page_fmt (page_del k p) = page_fmt p \<and>
      data_lines (page_del k p) = list_del k (data_lines p) \<and>
      uint (CbFree (page_del k p)) = uint (CbFree p) + line_bytes (data_lines p ! k) + 4"
    if "k < length (data_lines p)"
    using page_delete_ok [OF ok(1), of "int k"] that C ok
    by (auto simp: page_fmt_def page_inv_def FIsNormalSized_def page_ok_def shape_ok_def)
qed

subsection \<open>The properties\<close>

text \<open>
  C1: inserting a line.  On a well-formed page with room for the bytes and a tag,
  \<open>CPAGE::Insert\<close> succeeds at every line number up to the number of lines, the data lines
  become the old ones with the new line at that position (its flags where the format keeps
  them), the reserved lines are untouched, the page is well formed again and exactly the
  bytes and the four of the tag are gone from the free space.
\<close>
theorem insert_refines:
  assumes "page_ok p" "FIsNormalSized p" "0 \<le> iline" "iline \<le> Clines p" "ITagMicFree p < 4095"
    "int (length (concat bss)) + 4 \<le> uint (CbFree p)"
  shows "\<exists>q. Insert iline (map OffPage bss) flags p = Some q \<and> page_ok q \<and> FIsNormalSized q \<and>
    data_lines q = list_ins (nat iline) (stored p 1 flags (concat bss)) (data_lines p) \<and>
    reserved_lines q = reserved_lines p \<and>
    uint (CbFree q) = uint (CbFree p) - int (length (concat bss)) - 4"
  using page_insert_ok [OF assms, of flags] by blast

lemma insert_refines_witness:
  "\<exists>q. Insert 1 (map OffPage [[7, 8], [9]]) 2 sample_page = Some q \<and> page_ok q \<and> FIsNormalSized q \<and>
    data_lines q = list_ins (nat 1) (stored sample_page 1 2 (concat [[7, 8], [9]])) (data_lines sample_page) \<and>
    reserved_lines q = reserved_lines sample_page \<and>
    uint (CbFree q) = uint (CbFree sample_page) - int (length (concat [[7, 8], [9 :: u8]])) - 4"
  by (rule insert_refines [OF sample_ok]) code_simp+

text \<open>
  C2: replacing a line, on every branch of \<open>CPAGE::Replace_\<close> (in place, at the end of the
  data, moved to the end, moved after a compaction): if the new bytes fit into the free
  space and the space of the old line, it succeeds, only that line changes, and the free
  space changes by the difference of the sizes.
\<close>
theorem replace_refines:
  assumes "page_ok p" "FIsNormalSized p" "0 \<le> iline" "iline < Clines p"
    "int (length (concat bss)) \<le> uint (CbFree p) + line_bytes (data_lines p ! nat iline)"
  shows "\<exists>q. Replace iline (map OffPage bss) flags p = Some q \<and> page_ok q \<and> FIsNormalSized q \<and>
    data_lines q = (data_lines p)[nat iline := stored p 1 flags (concat bss)] \<and>
    reserved_lines q = reserved_lines p \<and>
    uint (CbFree q) = uint (CbFree p) + line_bytes (data_lines p ! nat iline) - int (length (concat bss))"
  using page_replace_ok [OF assms, of flags] by blast

lemma replace_refines_witness:
  "\<exists>q. Replace 0 (map OffPage [[1, 2, 3], [4]]) 1 sample_page = Some q \<and> page_ok q \<and> FIsNormalSized q \<and>
    data_lines q = (data_lines sample_page)[nat 0 := stored sample_page 1 1 (concat [[1, 2, 3], [4]])] \<and>
    reserved_lines q = reserved_lines sample_page \<and>
    uint (CbFree q) = uint (CbFree sample_page) + line_bytes (data_lines sample_page ! nat 0) -
      int (length (concat [[1, 2, 3], [4 :: u8]]))"
  by (rule replace_refines [OF sample_ok]) code_simp+

text \<open>
  C3: deleting a line.  \<open>CPAGE::Delete\<close> removes exactly that line from the list, keeps the
  reserved lines and the invariant, and gives back its bytes and its tag; when the last
  line of the data goes, \<open>ibMicFree\<close> follows.
\<close>
theorem delete_refines:
  assumes "page_ok p" "0 \<le> iline" "iline < Clines p"
  shows "page_ok (Delete iline p) \<and>
    data_lines (Delete iline p) = list_del (nat iline) (data_lines p) \<and>
    reserved_lines (Delete iline p) = reserved_lines p \<and>
    uint (CbFree (Delete iline p)) = uint (CbFree p) + line_bytes (data_lines p ! nat iline) + 4"
  using page_delete_ok [OF assms] by blast

lemma delete_refines_witness:
  "page_ok (Delete 0 sample_page) \<and>
    data_lines (Delete 0 sample_page) = list_del (nat 0) (data_lines sample_page) \<and>
    reserved_lines (Delete 0 sample_page) = reserved_lines sample_page \<and>
    uint (CbFree (Delete 0 sample_page)) =
      uint (CbFree sample_page) + line_bytes (data_lines sample_page ! nat 0) + 4"
  by (rule delete_refines [OF sample_ok(1)]) code_simp+

text \<open>
  C4: sequences of operations.  Any sequence of insertions, replacements and deletions
  that the specification allows, a list of lines with a byte budget, runs to its end on the page, and
  the page then holds exactly the lines and the free bytes the specification computes:
  whatever was compacted or moved in between cannot be seen.
\<close>
theorem page_script_refines:
  assumes "page_ok p" "FIsNormalSized p"
    "run (spec_op (page_enc (page_fmt p)) line_bytes 4 (4095 - CTagReserved p)) ops
      (data_lines p, uint (CbFree p)) = Some (ls, r)"
  shows "\<exists>q. run (do_op page_ins page_rep page_del) ops p = Some q \<and> page_ok q \<and>
    data_lines q = ls \<and> uint (CbFree q) = r"
  using pg.run_simulates [of p ops ls r] assms by (auto simp: page_inv_def page_fmt_def)

lemma page_script_refines_witness:
  "\<exists>q. run (do_op page_ins page_rep page_del)
      [Ins 0 ([[5]], 1), Rep 1 ([[6, 7, 8]], 0), Del 0] sample_page = Some q \<and> page_ok q \<and>
    data_lines q = [(0, [6, 7, 8])] \<and> uint (CbFree q) = 13"
  by (rule page_script_refines [OF sample_ok]) code_simp

text \<open>
  C21: compaction.  On a well-formed page \<open>CPAGE::ReorganizeData_\<close> never meets the corruption
  it checks for, keeps the lines and the invariant, and afterwards the contiguous free
  space is all of the free space.
\<close>
theorem reorganize_keeps_lines:
  assumes "page_ok p" "FIsNormalSized p"
  shows "\<exists>q. ReorganizeData p = Some q \<and> page_ok q \<and> lines q = lines p \<and>
    CbFree q = CbFree p \<and> CbContiguousFree q = uint (CbFree p)"
proof -
  have s: "shape_ok p" "tags_ok p" using assms(1) by (simp_all add: page_ok_def)
  obtain q where q: "ReorganizeData p = Some q"
    "q = p\<lparr>buf := buf q, pghdr := (pghdr p)\<lparr>ibMicFree := ibMicFree (pghdr q)\<rparr>\<rparr>"
    "uint (ibMicFree (pghdr q)) = sum_list (map t_cb (tags p))"
    "lines q = lines p" "map t_cb (tags q) = map t_cb (tags p)" "tags_ok q"
    using ReorganizeData_spec [OF s] by blast
  have ok: "page_ok q" by (rule page_ok_reorg [OF assms(1) q(2,5,6)])
  note o = obj_of_reorg [OF q(2)]
  have "FIsNormalSized q" using assms(2) same_obj_fields [OF o(1)] by (simp add: FIsNormalSized_def)
  then have "CbContiguousFree q = uint (CbFree p)"
    using ok q(3,5) o(2) by (simp add: page_ok_def CbContiguous_normal free_ok_def CbFree_def)
  with q ok o show ?thesis by (simp add: CbFree_def)
qed

lemma reorganize_keeps_lines_witness:
  "\<exists>q. ReorganizeData sample_page = Some q \<and> page_ok q \<and> lines q = lines sample_page \<and>
    CbFree q = CbFree sample_page \<and> CbContiguousFree q = uint (CbFree sample_page)"
  by (rule reorganize_keeps_lines [OF sample_ok])

text \<open>
  The free-space guard.  \<open>CPAGE::FreeSpace_\<close> passes exactly when the free-space counter
  of the header promises the bytes, and then they are contiguous and no line has changed.
\<close>
theorem free_space_iff:
  assumes "page_ok p" "FIsNormalSized p"
  shows "cb \<le> uint (CbFree p) \<longleftrightarrow>
    (\<exists>q. FreeSpace cb p = Some q \<and> page_ok q \<and> lines q = lines p \<and> cb \<le> CbContiguousFree q)"
proof
  assume "cb \<le> uint (CbFree p)"
  then show "\<exists>q. FreeSpace cb p = Some q \<and> page_ok q \<and> lines q = lines p \<and> cb \<le> CbContiguousFree q"
    using FreeSpace_spec [OF assms, of cb] unfolding CbFree_def by metis
next
  assume "\<exists>q. FreeSpace cb p = Some q \<and> page_ok q \<and> lines q = lines p \<and> cb \<le> CbContiguousFree q"
  then show "cb \<le> uint (CbFree p)"
    using FreeSpace_None [OF assms, of cb] unfolding CbFree_def by force
qed

lemma free_space_iff_witness:
  "14 \<le> uint (CbFree sample_page) \<longleftrightarrow>
    (\<exists>q. FreeSpace 14 sample_page = Some q \<and> page_ok q \<and> lines q = lines sample_page \<and>
      14 \<le> CbContiguousFree q)"
  by (rule free_space_iff [OF sample_ok])

text \<open>
  An insertion that does not fit.  When the bytes and the tag exceed the free space,
  \<open>CPAGE::Insert\<close> ends in the enforce of \<open>FreeSpace_\<close> instead of writing over other lines.
\<close>
theorem insert_without_room:
  assumes "page_ok p" "FIsNormalSized p" "int (length (concat bss)) < 65536"
    "uint (CbFree p) < int (length (concat bss)) + 4"
  shows "Insert iline (map OffPage bss) flags p = None"
  using Insert_at_None [OF assms(1-3)] assms(4) by (simp add: Insert_def CbFree_def)

lemma insert_without_room_witness:
  "Insert 0 (map OffPage [replicate 11 1]) 0 sample_page = None"
  by (rule insert_without_room [OF sample_ok]) code_simp+

text \<open>
  the external header.  \<open>CPAGE::SetExternalHeader\<close> replaces tag 0 and nothing else; the
  bytes are stored as they are, on large pages too, where other lines get their flags
  stamped into their second byte.
\<close>
theorem set_external_header:
  assumes "page_ok p" "FIsNormalSized p"
    "int (length (concat bss)) \<le> uint (CbFree p) + line_bytes (lines p ! 0)"
  shows "\<exists>q. SetExternalHeader (map OffPage bss) flags p = Some q \<and> page_ok q \<and>
    lines q = (lines p)[0 := (if fSmallFormat p then flags AND 7 else 0, concat bss)] \<and>
    data_lines q = data_lines p"
proof -
  have k: "int 0 < ITagMicFree p" using assms(1) by (auto simp: page_ok_def itags_ok_def)
  obtain q where q: "Replace_at (int 0) (map OffPage bss) flags p = Some q" "page_ok q" "same_obj p q"
    "lines q = (lines p)[0 := stored p 0 flags (concat bss)]"
    using Replace_at_spec [OF assms(1,2) k] assms(3) line_cb [OF k] unfolding CbFree_def by metis
  have "0 < nat (CTagReserved p)" using reserved_le [OF assms(1)] by simp
  with q same_obj_fields [OF q(3)] show ?thesis
    by (simp add: SetExternalHeader_def stored_def tag_flags_def data_lines_def)
qed

lemma set_external_header_witness:
  "\<exists>q. SetExternalHeader (map OffPage [[3, 4]]) 1 sample_page = Some q \<and> page_ok q \<and>
    lines q = (lines sample_page)[0 := (if fSmallFormat sample_page then 1 AND 7 else 0, concat [[3, 4]])] \<and>
    data_lines q = data_lines sample_page"
  by (rule set_external_header [OF sample_ok]) code_simp

text \<open>
  Duff's device.  The unrolled loop of \<open>CPAGE::ExpandTagArray_\<close>, entered in its middle,
  moves exactly the tags behind the new one, each by one place, whatever their number is
  modulo eight.
\<close>
theorem expand_tag_array_moves:
  assumes "0 \<le> itag" "itag \<le> ITagMicFree p"
  shows "buf (ExpandTagArray itag p) =
    memmove (PtagFromItag p (ITagMicFree p)) (PtagFromItag p (ITagMicFree p - 1))
      (4 * (ITagMicFree p - itag)) (buf p)"
  using ExpandTagArray_buf [OF assms] by (simp add: PtagFromItag_def CbTagArray_def cbTAG_def algebra_simps)

lemma expand_tag_array_moves_witness:
  "buf (ExpandTagArray 1 sample_page) =
    memmove (PtagFromItag sample_page (ITagMicFree sample_page))
      (PtagFromItag sample_page (ITagMicFree sample_page - 1))
      (4 * (ITagMicFree sample_page - 1)) (buf sample_page)"
  by (rule expand_tag_array_moves) code_simp+

end
