(* ===== verification/Page_Image_Props.thy ===== *)
theory Page_Image_Props
  imports Page_Image Page_Props
begin

text \<open>
  Facts about the operations on the whole page image: a new page is well formed and empty,
  the checked access never leaves the page, scrubbing and dehydration change no line, and
  the logical checksum depends on the lines only.
\<close>

subsection \<open>A new page\<close>

lemma PreInitializeNewPage_fields:
  "cbBuffer (PreInitializeNewPage n ob t p) = cbBuffer p" "cbPage (PreInitializeNewPage n ob t p) = cbPage p"
  "fSmallFormat (PreInitializeNewPage n ob t p) = fSmallFormat p"
  "fResvTagFormat (PreInitializeNewPage n ob t p) = fResvTagFormat p"
  "buf (PreInitializeNewPage n ob t p) = memset 0 0 (cbBuffer p) (buf p)"
  "cbFree (pghdr (PreInitializeNewPage n ob t p)) = word_of_int (CbPageData p)"
  "ibMicFree (pghdr (PreInitializeNewPage n ob t p)) = 0"
  "itagState (pghdr (PreInitializeNewPage n ob t p)) = 0"
  "m_ctagReserved (PreInitializeNewPage n ob t p) = 0"
  by (simp_all add: PreInitializeNewPage_def Let_def SetFNewRecordFormat_def SetFlags_def
      CbPageData_def CbBufferData_def CbAdjustForPage_def CbPageHeader_def)

lemma rd16_zero: "b a = 0 \<Longrightarrow> b (a + 1) = 0 \<Longrightarrow> rd16 b a = 0"
  by (simp add: rd16_def)

text \<open>The three setters on tag 0 of a zeroed buffer.\<close>

lemma zero_tag_setters:
  assumes "int 0 < ITagMicFree p"
  shows "retag p 0 \<lparr>t_ib = 0, t_cb = 0, t_fl = 0\<rparr>
    (TAG_SetFlags (PtagFromItag p 0) 0 (TAG_SetCb (PtagFromItag p 0) 0 (TAG_SetIb (PtagFromItag p 0) 0 p)))"
proof -
  have "tag_flags p 0 = 0" by (simp add: tag_flags_def)
  then show ?thesis using retag_SetCb_0 [of 0 p "PtagFromItag p 0"] assms by simp
qed

lemma new_page_ok:
  assumes cb: "CbPageHeader p + 4 \<le> cbBuffer p" "cbBuffer p = cbPage p" "cbPage p \<le> 32768"
    and small: "fSmallFormat p = FIsSmallPage (cbPage p)"
    and hdr: "cbFree (pghdr p) = word_of_int (CbPageData p)" "ibMicFree (pghdr p) = 0"
      "itagState (pghdr p) = 0"
  shows "page_ok (ConsumePreInitPage fl p)" "lines (ConsumePreInitPage fl p) = [(0, [])]"
    "CTagReserved (ConsumePreInitPage fl p) = 1" "same_obj (SetITagState 1 1 p) (ConsumePreInitPage fl p)"
    "m_itagMicFree (ConsumePreInitPage fl p) = itagState (pghdr (ConsumePreInitPage fl p)) AND ITAG_MIC_FREE_MASK"
    "m_ctagReserved (ConsumePreInitPage fl p) = max 1 (drop_bit SHF_CTAG_RESERVED (itagState (pghdr (ConsumePreInitPage fl p))))"
proof -
  define p1 where "p1 = SetITagState 1 1 p"
  define p2 where "p2 = set_cbFree (cbFree (pghdr p1) - word_of_int cbTAG) p1"
  let ?t = "PtagFromItag p2 0" and ?q = "ConsumePreInitPage fl p"
  define p3 where "p3 = TAG_SetFlags ?t 0 (TAG_SetCb ?t 0 (TAG_SetIb ?t 0 p2))"
  have q: "?q = SetFlags ((fl OR fPageNewRecordFormat) AND NOT fPagePreInit) p3"
    by (simp add: ConsumePreInitPage_def Let_def p1_def p2_def p3_def)
  have n: "ITagMicFree p2 = 1" "CTagReserved p2 = 1"
    by (simp_all add: p1_def p2_def ITagMicFree_def CTagReserved_def)
  have r: "retag p2 0 \<lparr>t_ib = 0, t_cb = 0, t_fl = 0\<rparr> p3"
    unfolding p3_def by (rule zero_tag_setters) (simp add: n)
  then have rq: "retag p2 0 \<lparr>t_ib = 0, t_cb = 0, t_fl = 0\<rparr> ?q"
    unfolding q SetFlags_def by (rule retag_hdr)
  note R = retag_fields [OF rq] same_obj_fields [OF retag_fields(1) [OF rq]]
  have "length (tags p2) = 1" using n by simp
  then have tq: "tags ?q = [\<lparr>t_ib = 0, t_cb = 0, t_fl = 0\<rparr>]" using R(2) by (cases "tags p2") auto
  show "same_obj (SetITagState 1 1 p) ?q" using R(1) by (simp add: p2_def p1_def)
  have st: "itagState (pghdr ?q) = itagState (pghdr p1)" "cbFree (pghdr ?q) = cbFree (pghdr p) - 4"
    "ibMicFree (pghdr ?q) = 0" "m_itagMicFree ?q = 1" "m_ctagReserved ?q = 1"
    using hdr by (simp_all add: q SetFlags_def p3_def p2_def p1_def cbTAG_def)
  have W: "itagState (pghdr p1) = (if fResvTagFormat p then 0x1001 else 1)"
    using hdr(3) by (simp add: p1_def SetITagState_def Let_def SHF_CTAG_RESERVED_def)
  have D: "0x1001 AND ITAG_MIC_FREE_MASK = 1" "drop_bit SHF_CTAG_RESERVED (0x1001 :: u16) = 1"
    "1 AND ITAG_MIC_FREE_MASK = 1" "drop_bit SHF_CTAG_RESERVED (1 :: u16) = 0"
    by (simp_all add: ITAG_MIC_FREE_MASK_def SHF_CTAG_RESERVED_def drop_bit_eq_div)
  show I: "m_itagMicFree ?q = itagState (pghdr ?q) AND ITAG_MIC_FREE_MASK"
    "m_ctagReserved ?q = max 1 (drop_bit SHF_CTAG_RESERVED (itagState (pghdr ?q)))"
    using D by (simp_all add: st W max_def)
  show c1: "CTagReserved ?q = 1" by (simp add: CTagReserved_def st)
  have n1: "ITagMicFree ?q = 1" by (simp add: ITagMicFree_def st)
  have f: "cbBuffer ?q = cbBuffer p" "cbPage ?q = cbPage p" "fSmallFormat ?q = fSmallFormat p"
    using R by (simp_all add: p2_def p1_def)
  have H: "CbPageHeader ?q = CbPageHeader p" "CbTagArray ?q = 4" "CbBufferData ?q = cbBuffer p - CbPageHeader p"
    using f n1 by (simp_all add: CbPageHeader_def CbTagArray_def cbTAG_def CbBufferData_def)
  have P: "CbPageData p = cbBuffer p - CbPageHeader p"
    using cb(2) by (simp add: CbPageData_def CbAdjustForPage_def CbBufferData_def)
  have "0 \<le> CbPageData p" "CbPageData p < 65536" using cb by (auto simp: P CbPageHeader_def)
  then have "uint (cbFree (pghdr p)) = cbBuffer p - CbPageHeader p"
    unfolding hdr(1) P [symmetric] by (rule uint16_of_int)
  then have "uint (cbFree (pghdr ?q)) = cbBuffer p - CbPageHeader p - 4"
    using st(2) cb(1) uint16_diff [of 4 "cbFree (pghdr p)"] by simp
  then have "free_ok ?q" by (simp add: free_ok_def H tq)
  moreover have "tags_ok ?q" using cb(1) by (simp add: tags_ok_def tq H st)
  moreover have "itags_ok ?q" using I c1 n1 by (simp add: itags_ok_def CTAG_RESERVED_MAX_def)
  moreover have "shape_ok ?q" using cb small f H by (simp add: shape_ok_def)
  ultimately show "page_ok ?q" by (simp add: page_ok_def)
  show "lines ?q = [(0, [])]" by (simp add: lines_def tq line_of_def load_bytes_def)
qed

lemma LoadNewPage_spec:
  assumes cb: "(if FIsSmallPage cb then 44 else 84) \<le> cb" "cb \<le> 32768"
    and qd: "q = LoadNewPage n ob fl cb p"
  shows "page_ok q" "FIsNormalSized q" "lines q = [(0, [])]" "CTagReserved q = 1" "cbPage q = cb"
proof -
  define p1 where "p1 = PreInitializeNewPage n ob 0 (p\<lparr>fSmallFormat := FIsSmallPage cb, cbBuffer := cb, cbPage := cb\<rparr>)"
  have f: "cbBuffer p1 = cb" "cbPage p1 = cb" "fSmallFormat p1 = FIsSmallPage cb"
    "ibMicFree (pghdr p1) = 0" "itagState (pghdr p1) = 0"
    by (simp_all add: p1_def PreInitializeNewPage_fields)
  have c: "cbFree (pghdr p1) = word_of_int (CbPageData p1)"
    using f by (simp add: p1_def PreInitializeNewPage_fields CbPageData_def CbBufferData_def
        CbAdjustForPage_def CbPageHeader_def)
  have h: "CbPageHeader p1 + 4 \<le> cbBuffer p1" using cb(1) f by (cases "FIsSmallPage cb") (simp_all add: CbPageHeader_def)
  define p2 where "p2 = ConsumePreInitPage fl p1"
  have N: "page_ok p2" "lines p2 = [(0, [])]" "CTagReserved p2 = 1" "same_obj (SetITagState 1 1 p1) p2"
    "m_itagMicFree p2 = itagState (pghdr p2) AND ITAG_MIC_FREE_MASK"
    "m_ctagReserved p2 = max 1 (drop_bit SHF_CTAG_RESERVED (itagState (pghdr p2)))"
    unfolding p2_def using new_page_ok [of p1 fl] h f c cb(2) by simp_all
  have "q = InitItagState (pghdr p2) p2" by (simp add: qd LoadNewPage_def Let_def p1_def p2_def)
  also have "\<dots> = p2"
    unfolding InitItagState_def using N(5,6) by (metis CPAGE.surjective CPAGE.update_convs(4,5))
  finally have q: "q = p2" .
  show "page_ok q" "lines q = [(0, [])]" "CTagReserved q = 1" using N q by simp_all
  show "cbPage q = cb" "FIsNormalSized q"
    using same_obj_fields [OF N(4)] f q by (simp_all add: FIsNormalSized_def)
qed

subsection \<open>Access to a line\<close>

lemma TAG_FFlags_cong:
  assumes "fSmallFormat p = fSmallFormat q" "rd16 (buf p) t = rd16 (buf q) t"
    "rd16 (buf p) (t + 2) = rd16 (buf q) (t + 2)"
    "\<not> fSmallFormat p \<Longrightarrow> 2 \<le> uint (TAG_Cb p t) \<Longrightarrow>
      rd16 (buf p) (PbFromIb p (uint (TAG_Ib p t))) = rd16 (buf q) (PbFromIb p (uint (TAG_Ib p t)))"
  shows "TAG_FFlags p t = TAG_FFlags q t"
proof -
  have "TAG_Cb p t = TAG_Cb q t" "TAG_Ib p t = TAG_Ib q t" "PbFromIb p x = PbFromIb q x" for x
    using assms(1-3) by (simp_all add: TAG_Cb_def TAG_Ib_def PbFromIb_def CbPageHeader_def)
  with assms show ?thesis by (simp add: TAG_FFlags_def)
qed

lemma GetPtr_Checked_local:
  assumes same: "cbBuffer p = cbBuffer q" "fSmallFormat p = fSmallFormat q"
    "m_itagMicFree p = m_itagMicFree q" "m_ctagReserved p = m_ctagReserved q"
    and itag: "0 \<le> itag"
    and ag: "\<And>i. CbPageHeader p \<le> i \<Longrightarrow> i < cbBuffer p \<Longrightarrow> buf p i = buf q i"
  shows "GetPtr_Checked itag p = GetPtr_Checked itag q"
proof (cases "PtagFromItag p itag < CbPageHeader p \<or> PtagFromItag p itag + cbTAG - 1 > cbBuffer p")
  case True
  then show ?thesis
    using same by (simp add: GetPtr_Checked_def PtagFromItag_def CbPageHeader_def)
next
  case False
  let ?t = "PtagFromItag p itag"
  have S: "CbPageHeader q = CbPageHeader p" "PtagFromItag q i = PtagFromItag p i" "PbFromIb q i = PbFromIb p i"
    "CbTagArray q = CbTagArray p" "CTagReserved q = CTagReserved p" for i
    using same by (simp_all add: size_defs)
  have R: "rd16 (buf p) a = rd16 (buf q) a" if "CbPageHeader p \<le> a" "a + 1 < cbBuffer p" for a
    using that by (intro rd16_cong ag) simp_all
  have t: "CbPageHeader p \<le> ?t" "?t + 4 \<le> cbBuffer p"
    using False itag by (simp_all add: PtagFromItag_def cbTAG_def)
  have r: "rd16 (buf p) ?t = rd16 (buf q) ?t" "rd16 (buf p) (?t + 2) = rd16 (buf q) (?t + 2)"
    using t by (simp_all add: R)
  have cb: "TAG_Cb q ?t = TAG_Cb p ?t" "TAG_Ib q ?t = TAG_Ib p ?t"
    using r same by (simp_all add: TAG_Cb_def TAG_Ib_def)
  let ?l = "PbFromIb p (uint (TAG_Ib p ?t))" and ?e = "cbBuffer p - CbTagArray p - 1"
  have h: "CbPageHeader p \<le> ?l" by (simp add: PbFromIb_def)
  have fl: "TAG_FFlags q ?t = TAG_FFlags p ?t"
    if "fSmallFormat p \<or> ?l + 1 < ?e \<or> uint (TAG_Cb p ?t) < 2 \<or> ?l + uint (TAG_Cb p ?t) - 1 \<le> ?e"
  proof -
    have "rd16 (buf q) ?l = rd16 (buf p) ?l" if "\<not> fSmallFormat q" "2 \<le> uint (TAG_Cb q ?t)"
    proof -
      have "?l + 1 < cbBuffer p" using that \<open>fSmallFormat p \<or> _\<close> CbTagArray_nonneg [of p] same(2) by (auto simp: cb)
      then show ?thesis using R [OF h] by simp
    qed
    then show ?thesis using same r by (intro TAG_FFlags_cong) (simp_all add: cb S)
  qed
  show ?thesis
    using False fl same by (simp add: GetPtr_Checked_def S cb Let_def)
qed

lemma GetPtr_Checked_bounds:
  assumes "GetPtr_Checked itag p = (l, False)" "l_cb l \<noteq> 0"
  shows "CbPageHeader p \<le> l_pv l" "l_pv l + l_cb l \<le> cbBuffer p - CbTagArray p" "0 < l_cb l"
proof -
  note u = uint16_nonneg [of "TAG_Cb p (PtagFromItag p itag)"]
  show "CbPageHeader p \<le> l_pv l" "l_pv l + l_cb l \<le> cbBuffer p - CbTagArray p" "0 < l_cb l"
    using assms u by (auto simp: GetPtr_Checked_def Let_def PbFromIb_def less_le split: if_splits)
qed

lemma GetPtr_Checked_ok:
  assumes ok: "page_ok p" and k: "int k < ITagMicFree p" and cb: "2 \<le> t_cb (tags p ! k)"
  shows "GetPtr_Checked (int k) p =
    (\<lparr>l_pv = PbFromIb p (t_ib (tags p ! k)), l_cb = t_cb (tags p ! k),
      l_fFlags = TAG_FFlags p (PtagFromItag p (int k))\<rparr>, False)"
proof -
  have s: "shape_ok p" "tags_ok p" using ok by (simp_all add: page_ok_def)
  let ?v = "tags p ! k"
  have e: "t_ib ?v + t_cb ?v \<le> uint (ibMicFree (pghdr p))" using tags_okD [OF s(2) k] cb by simp
  have m: "uint (ibMicFree (pghdr p)) + CbTagArray p \<le> CbBufferData p" using s(2) by (simp add: tags_ok_def)
  have k': "int k + 1 \<le> ITagMicFree p" using k by simp
  have room: "0 \<le> u \<Longrightarrow> u + n * 4 \<le> b - h \<Longrightarrow> j + 1 \<le> n \<Longrightarrow> h \<le> b - 4 * (j + 1)" for u n b h j :: int
    by presburger
  have t: "CbPageHeader p \<le> PtagFromItag p (int k)" "PtagFromItag p (int k) + 4 \<le> cbBuffer p"
    using room [OF uint16_nonneg _ k'] m
    by (simp_all add: PtagFromItag_def CbTagArray_def cbTAG_def CbBufferData_def)
  have v: "uint (TAG_Cb p (PtagFromItag p (int k))) = t_cb ?v" "uint (TAG_Ib p (PtagFromItag p (int k))) = t_ib ?v"
    using k by (simp_all add: nth_tags)
  have "0 \<le> t_ib ?v" using k tag_nonneg(1) [of ?v p] by simp
  then show ?thesis
    using t v e m cb by (simp add: GetPtr_Checked_def Let_def cbTAG_def PbFromIb_def CbBufferData_def)
qed

subsection \<open>The logical checksum\<close>

lemma checksum_steps_fold:
  "ib + n \<le> length pb \<Longrightarrow> checksum_steps n pb ib c =
    (ib + n, fold (\<lambda>b c. word_rotl 6 c + ucast b) (take n (drop ib pb)) c)"
proof (induction n arbitrary: ib c)
  case (Suc n)
  then have "take (Suc n) (drop ib pb) = pb ! ib # take n (drop (ib + 1) pb)"
    by (simp add: Cons_nth_drop_Suc [symmetric])
  then show ?case using Suc by simp
qed simp

lemma checksum_while_fold:
  assumes "ib + 8 * m = length pb"
  shows "checksum_while (length pb) pb ib c = fold (\<lambda>b c. word_rotl 6 c + ucast b) (drop ib pb) c"
  using assms
proof (induction m arbitrary: ib c)
  case 0
  then show ?case by (subst checksum_while.simps) simp
next
  case (Suc m)
  have "fold (\<lambda>b c. word_rotl 6 c + ucast b) (drop ib pb) c = fold (\<lambda>b c. word_rotl 6 c + ucast b)
      (drop (ib + 8) pb) (fold (\<lambda>b c. word_rotl 6 c + ucast b) (take 8 (drop ib pb)) c)" for c :: u64
    by (metis (no_types, lifting) append_take_drop_id drop_drop add.commute fold_append comp_apply)
  then show ?case
    using Suc by (subst checksum_while.simps) (simp add: checksum_steps_fold del: checksum_steps.simps)
qed

lemma UpdateLoggedDataChecksum_fold:
  "UpdateLoggedDataChecksum c pb = fold (\<lambda>b c. word_rotl 6 c + ucast b) pb c"
proof -
  let ?r = "length pb mod 8"
  have r: "?r + 8 * (length pb div 8) = length pb" by simp
  have "UpdateLoggedDataChecksum c pb = fold (\<lambda>b c. word_rotl 6 c + ucast b) (drop ?r pb)
      (fold (\<lambda>b c. word_rotl 6 c + ucast b) (take ?r pb) c)"
    by (simp add: UpdateLoggedDataChecksum_def checksum_steps_fold checksum_while_fold [OF r])
  then show ?thesis by (metis append_take_drop_id fold_append comp_apply)
qed

text \<open>What one line adds to the checksum, read from the line alone.\<close>

definition line_flags :: "bool \<Rightarrow> line \<Rightarrow> u16" where
  "line_flags small l =
     (if small then fst l
      else if 2 \<le> length (snd l) then drop_bit 13 (rd16 (\<lambda>i. snd l ! nat i) 0) else 0)"

definition logged_line :: "bool \<Rightarrow> line \<Rightarrow> u64 \<Rightarrow> u64" where
  "logged_line small l acc =
     (let fl = line_flags small l;
          acc = (if fl AND fNDDeleted = 0 \<and> 2 \<le> length (snd l)
                 then UpdateLoggedDataChecksum
                        (UpdateLoggedDataChecksum acc (le_bytes 2 (of_nat (length (snd l))))) (drop 2 (snd l))
                 else acc)
      in word_rotl 6 acc + ucast (ucast (fl AND NOT fNDVersion) :: u8))"

lemma drop_mask_flags: "drop_bit 13 (w AND NOT (mask 13) :: u16) = drop_bit 13 w"
  by (auto simp: bit_eq_iff bit_drop_bit_eq bit_and_iff bit_not_iff bit_mask_iff dest: bit_imp_le_length)

lemmas drop_mask_flags' = drop_mask_flags [unfolded drop_bit_and]

lemma TAG_FFlags_line:
  assumes k: "int k < ITagMicFree p"
  shows "TAG_FFlags p (PtagFromItag p (int k)) = line_flags (fSmallFormat p) (lines p ! k)"
proof -
  let ?v = "tags p ! k"
  have v: "uint (TAG_Cb p (PtagFromItag p (int k))) = t_cb ?v" "uint (TAG_Ib p (PtagFromItag p (int k))) = t_ib ?v"
    "t_fl ?v = tag_fl p (PtagFromItag p (int k))"
    using k by (simp_all add: nth_tags)
  have l: "lines p ! k = (t_fl ?v, load_bytes (buf p) (PbFromIb p (t_ib ?v)) (t_cb ?v))"
    using k by (simp add: lines_nth line_of_def)
  have r: "rd16 (buf p) a = rd16 (\<lambda>i. load_bytes (buf p) a n ! nat i) 0" if "2 \<le> n" for a n
    using that by (simp add: rd16_def)
  have c: "2 \<le> nat (t_cb ?v) \<longleftrightarrow> 2 \<le> t_cb ?v" by linarith
  show ?thesis
    using r [of "t_cb ?v" "PbFromIb p (t_ib ?v)"]
    by (cases "2 \<le> t_cb ?v") (simp_all add: TAG_FFlags_def line_flags_def l v c tag_fl_def flags_mask
        shfTagFlags_def drop_mask_flags')
qed

lemma tag_place:
  assumes ok: "page_ok p" and k: "int k < ITagMicFree p"
  shows "CbPageHeader p \<le> PtagFromItag p (int k)" "PtagFromItag p (int k) + 4 \<le> cbBuffer p"
proof -
  have k': "int k + 1 \<le> ITagMicFree p" using k by simp
  have m: "uint (ibMicFree (pghdr p)) + CbTagArray p \<le> CbBufferData p"
    using ok by (simp add: page_ok_def tags_ok_def)
  have room: "0 \<le> u \<Longrightarrow> u + n * 4 \<le> b - h \<Longrightarrow> j + 1 \<le> n \<Longrightarrow> h \<le> b - 4 * (j + 1)" for u n b h j :: int
    by presburger
  show "CbPageHeader p \<le> PtagFromItag p (int k)" "PtagFromItag p (int k) + 4 \<le> cbBuffer p"
    using room [OF uint16_nonneg _ k'] m
    by (simp_all add: PtagFromItag_def CbTagArray_def cbTAG_def CbBufferData_def)
qed

lemma CbPageHeader_pos: "0 < CbPageHeader p" "PbDataStart p = CbPageHeader p"
  by (simp_all add: CbPageHeader_def PbDataStart_def)

lemma LoggedTag_line:
  assumes ok: "page_ok p" and k: "int k < ITagMicFree p"
  shows "LoggedTag p (int k) acc = logged_line (fSmallFormat p) (lines p ! k) acc"
proof -
  have s: "shape_ok p" "tags_ok p" using ok by (simp_all add: page_ok_def)
  let ?v = "tags p ! k" and ?t = "PtagFromItag p (int k)"
  have v: "uint (TAG_Cb p ?t) = t_cb ?v" "uint (TAG_Ib p ?t) = t_ib ?v"
    using k by (simp_all add: nth_tags)
  have n: "0 \<le> t_ib ?v" "0 \<le> t_cb ?v" using k tag_nonneg [of ?v p] by simp_all
  have on: "FOnPage p ?t cbTAG"
    using tag_place [OF ok k] CbPageHeader_pos(1) [of p] by (auto simp: FOnPage_def cbTAG_def)
  have data: "FOnData p (PbFromIb p (t_ib ?v)) (t_cb ?v)" if c: "2 \<le> t_cb ?v"
  proof -
    have "t_ib ?v + t_cb ?v \<le> uint (ibMicFree (pghdr p))" using tags_okD [OF s(2) k] c by simp
    moreover have "uint (ibMicFree (pghdr p)) + CbTagArray p \<le> CbBufferData p" using s(2) by (simp add: tags_ok_def)
    ultimately show ?thesis
      using n c by (simp add: FOnData_def Let_def CbPageHeader_pos PbDataEnd_def PbFromIb_def CbBufferData_def)
  qed
  have l: "snd (lines p ! k) = load_bytes (buf p) (PbFromIb p (t_ib ?v)) (t_cb ?v)"
    using k by (simp add: lines_nth line_of_def)
  have len: "2 \<le> length (snd (lines p ! k)) \<longleftrightarrow> 2 \<le> t_cb ?v" "int (length (snd (lines p ! k))) = t_cb ?v"
    using n by (auto simp: l)
  have w: "(ucast (TAG_Cb p ?t) :: u64) = of_nat (length (snd (lines p ! k)))"
    by (metis len(2) v(1) ucast_eq of_int_of_nat_eq)
  have d: "load_bytes (buf p) (PbFromIb p (t_ib ?v) + 2) (t_cb ?v - 2) = drop 2 (snd (lines p ! k))"
    using n by (intro nth_equalityI) (auto simp: l algebra_simps)
  show ?thesis
    using on data
    by (cases "2 \<le> t_cb ?v") (simp_all add: LoggedTag_def logged_line_def Let_def cbKeyCount_def v
        TAG_FFlags_line [OF k] len(1) w d)
qed

lemma upto_map_int: "[0..n - 1] = map int [0..<nat n]"
  by (rule nth_equalityI) simp_all

lemma LoggedDataChecksum_lines:
  assumes "page_ok p"
  shows "LoggedDataChecksum p =
    fold (logged_line (fSmallFormat p)) (lines p) (UpdateLoggedDataChecksum 0 (logged_header p))"
proof -
  have "fold (LoggedTag p) [0..ITagMicFree p - 1] c =
      fold (\<lambda>k. logged_line (fSmallFormat p) (lines p ! k)) [0..<length (lines p)] c" for c
    unfolding upto_map_int fold_map length_lines
    by (intro fold_cong refl ext) (simp add: LoggedTag_line [OF assms])
  moreover have "fold f (map ((!) xs) [0..<length xs]) c = fold (\<lambda>k. f (xs ! k)) [0..<length xs] c"
    for f :: "line \<Rightarrow> u64 \<Rightarrow> u64" and xs c by (simp add: fold_map comp_def)
  ultimately show ?thesis by (simp add: LoggedDataChecksum_def map_nth)
qed

subsection \<open>The properties\<close>

text \<open>
  A new page.  Whatever was in the buffer, \<open>CPAGE::LoadNewPage\<close> (with the initialisation
  it is made of) leaves a well-formed page with an empty external header and no data line,
  for every page size that has room for a tag.
\<close>
theorem load_new_page:
  assumes "(if FIsSmallPage cb then 44 else 84) \<le> cb" "cb \<le> 32768"
  shows "page_ok (LoadNewPage n ob fl cb p) \<and> FIsNormalSized (LoadNewPage n ob fl cb p) \<and>
    data_lines (LoadNewPage n ob fl cb p) = [] \<and> lines (LoadNewPage n ob fl cb p) = [(0, [])] \<and>
    cbPage (LoadNewPage n ob fl cb p) = cb"
  using LoadNewPage_spec [OF assms refl, of n ob fl p] by (simp add: data_lines_def)

lemma load_new_page_witness:
  "page_ok (LoadNewPage 7 1 0 4096 sample_page) \<and> FIsNormalSized (LoadNewPage 7 1 0 4096 sample_page) \<and>
    data_lines (LoadNewPage 7 1 0 4096 sample_page) = [] \<and>
    lines (LoadNewPage 7 1 0 4096 sample_page) = [(0, [])] \<and>
    cbPage (LoadNewPage 7 1 0 4096 sample_page) = 4096"
  by (rule load_new_page) (simp_all add: FIsSmallPage_def)

text \<open>
  the checked access on any bytes.  On a page whose header and tags may hold anything,
  \<open>CPAGE::ErrGetPtr\<close> reads nothing outside the buffer behind the header (two pages that agree there
  give the same answer), and a line it hands out without an error lies between the header
  and the tag array.
\<close>
theorem get_ptr_checked_safe:
  assumes "0 \<le> iline" "cbBuffer p = cbBuffer q" "fSmallFormat p = fSmallFormat q"
    "m_itagMicFree p = m_itagMicFree q" "m_ctagReserved p = m_ctagReserved q"
    "\<And>i. CbPageHeader p \<le> i \<Longrightarrow> i < cbBuffer p \<Longrightarrow> buf p i = buf q i"
  shows "ErrGetPtr iline p = ErrGetPtr iline q \<and>
    (\<not> snd (ErrGetPtr iline p) \<and> l_cb (fst (ErrGetPtr iline p)) \<noteq> 0 \<longrightarrow>
      CbPageHeader p \<le> l_pv (fst (ErrGetPtr iline p)) \<and>
      l_pv (fst (ErrGetPtr iline p)) + l_cb (fst (ErrGetPtr iline p)) \<le> cbBuffer p - CbTagArray p)"
proof -
  have c: "CTagReserved q = CTagReserved p" "0 \<le> CTagReserved p" using assms(5) by (simp_all add: CTagReserved_def)
  have "GetPtr_Checked (iline + CTagReserved p) p = GetPtr_Checked (iline + CTagReserved p) q"
    using assms c by (intro GetPtr_Checked_local) simp_all
  then show ?thesis
    using GetPtr_Checked_bounds [of "iline + CTagReserved p" p "fst (ErrGetPtr iline p)"] c(1)
    by (auto simp: ErrGetPtr_def prod_eq_iff)
qed

lemma get_ptr_checked_safe_witness:
  "ErrGetPtr 0 sample_page = ErrGetPtr 0 (sample_page\<lparr>buf := (buf sample_page)(- 4 := 9)\<rparr>) \<and>
    \<not> snd (ErrGetPtr 0 sample_page) \<and> CbPageHeader sample_page \<le> l_pv (fst (ErrGetPtr 0 sample_page))"
proof -
  have g: "\<not> snd (ErrGetPtr 0 sample_page)" "l_cb (fst (ErrGetPtr 0 sample_page)) \<noteq> 0" by code_simp+
  have "buf sample_page i = ((buf sample_page)(- 4 := 9)) i" if "CbPageHeader sample_page \<le> i" for i
    using that CbPageHeader_pos(1) [of sample_page] by simp
  then have "ErrGetPtr 0 sample_page = ErrGetPtr 0 (sample_page\<lparr>buf := (buf sample_page)(- 4 := 9)\<rparr>) \<and>
      (\<not> snd (ErrGetPtr 0 sample_page) \<and> l_cb (fst (ErrGetPtr 0 sample_page)) \<noteq> 0 \<longrightarrow>
        CbPageHeader sample_page \<le> l_pv (fst (ErrGetPtr 0 sample_page)) \<and>
        l_pv (fst (ErrGetPtr 0 sample_page)) + l_cb (fst (ErrGetPtr 0 sample_page))
          \<le> cbBuffer sample_page - CbTagArray sample_page)"
    by (intro get_ptr_checked_safe) simp_all
  with g show ?thesis by blast
qed

text \<open>
  The checked access on a well-formed page.  Every data line of at least two bytes is
  found without an error, with its bytes and its flags.
\<close>
theorem err_get_ptr_line:
  assumes "page_ok p" "0 \<le> iline" "iline < Clines p" "2 \<le> length (snd (data_lines p ! nat iline))"
  shows "\<not> snd (ErrGetPtr iline p) \<and>
    load_bytes (buf p) (l_pv (fst (ErrGetPtr iline p))) (l_cb (fst (ErrGetPtr iline p)))
      = snd (data_lines p ! nat iline) \<and>
    l_fFlags (fst (ErrGetPtr iline p)) = line_flags (fSmallFormat p) (data_lines p ! nat iline)"
proof -
  define k where "k = nat iline + nat (CTagReserved p)"
  have i: "iline + CTagReserved p = int k" unfolding k_def by (rule line_index [OF assms(1,2)])
  have k: "int k < ITagMicFree p" using assms(3) i by (simp add: Clines_def)
  have d: "data_lines p ! nat iline = lines p ! k"
    using reserved_le [OF assms(1)] by (simp add: data_lines_def nth_drop k_def add.commute)
  have l: "lines p ! k = (t_fl (tags p ! k), load_bytes (buf p) (PbFromIb p (t_ib (tags p ! k))) (t_cb (tags p ! k)))"
    using k by (simp add: lines_nth line_of_def)
  have "2 \<le> t_cb (tags p ! k)" using assms(4) d l by simp
  note g = GetPtr_Checked_ok [OF assms(1) k this]
  show ?thesis unfolding ErrGetPtr_def i g d using TAG_FFlags_line [OF k] l by simp
qed

lemma err_get_ptr_line_witness:
  "\<not> snd (ErrGetPtr 0 sample_page) \<and>
    load_bytes (buf sample_page) (l_pv (fst (ErrGetPtr 0 sample_page))) (l_cb (fst (ErrGetPtr 0 sample_page)))
      = snd (data_lines sample_page ! nat 0) \<and>
    l_fFlags (fst (ErrGetPtr 0 sample_page)) = line_flags (fSmallFormat sample_page) (data_lines sample_page ! nat 0)"
  by (rule err_get_ptr_line [OF sample_ok(1)]) code_simp+

text \<open>
  The logical checksum.  On a well-formed page \<open>CPAGE::LoggedDataChecksum\<close>, whose inner
  loop is unrolled eight times, is a plain fold over the logged header bytes and then the
  lines: where on the page the lines are, and what lies between them, does not count, nor do
  the bytes of a deleted line.
\<close>
theorem logged_checksum_of_lines:
  assumes "page_ok p"
  shows "LoggedDataChecksum p =
    fold (logged_line (fSmallFormat p)) (lines p)
      (fold (\<lambda>b c. word_rotl 6 c + ucast b) (logged_header p) 0)"
  using LoggedDataChecksum_lines [OF assms] by (simp add: UpdateLoggedDataChecksum_fold)

lemma logged_checksum_of_lines_witness:
  "LoggedDataChecksum sample_page =
    fold (logged_line (fSmallFormat sample_page)) (lines sample_page)
      (fold (\<lambda>b c. word_rotl 6 c + ucast b) (logged_header sample_page) 0)"
  by (rule logged_checksum_of_lines [OF sample_ok(1)])

end
