(* ===== verification/Page_Shrink.thy ===== *)
theory Page_Shrink
  imports Page_Image_Props
begin

text \<open>
  Scrubbing the unused space of a page and moving its tag array when the buffer shrinks
  (dehydration) or grows back: no line changes, and what is not a line is overwritten.
\<close>

subsection \<open>Moving the tag array\<close>

lemma tags_move:
  assumes "fSmallFormat q = fSmallFormat p" "ITagMicFree q = ITagMicFree p"
    "\<And>i. 0 \<le> i \<Longrightarrow> i < CbTagArray p \<Longrightarrow>
      buf q (cbBuffer q - CbTagArray p + i) = buf p (cbBuffer p - CbTagArray p + i)"
  shows "tags q = tags p"
proof (rule tags_eqI)
  show "ITagMicFree q = int (nat (ITagMicFree p))" using assms(2) by (simp add: ITagMicFree_def)
  fix k assume k: "k < nat (ITagMicFree p)"
  then have k': "int k + 1 \<le> ITagMicFree p" by linarith
  let ?d = "cbBuffer p - cbBuffer q"
  have "tag_at q (PtagFromItag q (int k)) = tag_at p (PtagFromItag q (int k) + ?d)"
  proof (rule tag_at_cong [OF assms(1)])
    fix i assume i: "PtagFromItag q (int k) \<le> i" "i < PtagFromItag q (int k) + 4"
    have "0 \<le> i - (cbBuffer q - CbTagArray p)" "i - (cbBuffer q - CbTagArray p) < CbTagArray p"
      using i k' by (simp_all add: PtagFromItag_def CbTagArray_def cbTAG_def)
    from assms(3) [OF this] show "buf q i = buf p (i + ?d)" by (simp add: algebra_simps)
  qed
  then show "tag_at q (PtagFromItag q (int k)) = tags p ! k"
    using k by (simp add: PtagFromItag_def nth_tags)
qed simp

lemma lines_move:
  assumes "tags q = tags p" "CbPageHeader q = CbPageHeader p" "tags_ok p"
    "\<And>i. PbFromIb p 0 \<le> i \<Longrightarrow> i < PbFromIb p (uint (ibMicFree (pghdr p))) \<Longrightarrow> buf q i = buf p i"
  shows "lines q = lines p"
proof -
  have "line_of q t = line_of p t" if t: "t \<in> set (tags p)" for t
    using tag_in_data [OF assms(3) t] assms(4) by (intro line_of_keep [OF assms(3) t assms(2)]) blast
  then show ?thesis using assms(1) by (simp add: lines_def)
qed

text \<open>\<open>SetPageChecksum\<close> may write the checksum fields and the flags of the header only.\<close>

definition checksum_only :: "(CPAGE \<Rightarrow> CPAGE) \<Rightarrow> bool" where
  "checksum_only f \<longleftrightarrow> (\<forall>q. \<exists>c fl h. f q = q\<lparr>pghdr := (pghdr q)\<lparr>checksum := c, fFlags := fl\<rparr>, pghdr2 := h\<rparr>)"

lemma page_ok_checksum:
  assumes "checksum_only f"
  shows "page_ok (f q) = page_ok q" "lines (f q) = lines q" "cbBuffer (f q) = cbBuffer q"
    "cbPage (f q) = cbPage q" "cbFree (pghdr (f q)) = cbFree (pghdr q)" "FIsNormalSized (f q) = FIsNormalSized q"
    "ibMicFree (pghdr (f q)) = ibMicFree (pghdr q)" "CTagReserved (f q) = CTagReserved q"
    "fSmallFormat (f q) = fSmallFormat q" "itagState (pghdr (f q)) = itagState (pghdr q)"
proof -
  obtain c fl h where e: "f q = q\<lparr>pghdr := (pghdr q)\<lparr>checksum := c, fFlags := fl\<rparr>, pghdr2 := h\<rparr>"
    using assms unfolding checksum_only_def by blast
  let ?q = "q\<lparr>pghdr := (pghdr q)\<lparr>checksum := c, fFlags := fl\<rparr>, pghdr2 := h\<rparr>"
  have s: "CbPageHeader ?q = CbPageHeader q" "ITagMicFree ?q = ITagMicFree q" "CTagReserved ?q = CTagReserved q"
    "CbTagArray ?q = CbTagArray q" "CbBufferData ?q = CbBufferData q"
    by (simp_all add: size_defs)
  have t: "tags ?q = tags q" by (rule tags_frame) (simp_all add: s)
  have l: "lines ?q = lines q" by (rule lines_frame) (simp_all add: s)
  show "page_ok (f q) = page_ok q" "lines (f q) = lines q" "cbBuffer (f q) = cbBuffer q"
    "cbPage (f q) = cbPage q" "cbFree (pghdr (f q)) = cbFree (pghdr q)" "FIsNormalSized (f q) = FIsNormalSized q"
    "ibMicFree (pghdr (f q)) = ibMicFree (pghdr q)" "CTagReserved (f q) = CTagReserved q"
    "fSmallFormat (f q) = fSmallFormat q" "itagState (pghdr (f q)) = itagState (pghdr q)"
    unfolding e page_ok_def by (simp_all add: s t l shape_ok_def itags_ok_def tags_ok_def free_ok_def FIsNormalSized_def)
qed

text \<open>A page with another buffer size, its tag array moved to the new end.\<close>

lemma resized_page:
  assumes ok: "page_ok p" and n: "cbBuffer q = n" "n \<le> cbPage p" "CbPageHeader p < n"
    "uint (ibMicFree (pghdr p)) + CbTagArray p \<le> n - CbPageHeader p"
    and f: "cbPage q = cbPage p" "fSmallFormat q = fSmallFormat p" "m_itagMicFree q = m_itagMicFree p"
      "m_ctagReserved q = m_ctagReserved p" "ibMicFree (pghdr q) = ibMicFree (pghdr p)"
      "itagState (pghdr q) = itagState (pghdr p)"
    and fr: "uint (cbFree (pghdr q)) = uint (cbFree (pghdr p)) + (n - cbBuffer p)"
    and tg: "\<And>i. 0 \<le> i \<Longrightarrow> i < CbTagArray p \<Longrightarrow> buf q (n - CbTagArray p + i) = buf p (cbBuffer p - CbTagArray p + i)"
    and dt: "\<And>i. PbFromIb p 0 \<le> i \<Longrightarrow> i < PbFromIb p (uint (ibMicFree (pghdr p))) \<Longrightarrow> buf q i = buf p i"
  shows "page_ok q" "lines q = lines p" "tags q = tags p"
proof -
  have s: "CbPageHeader q = CbPageHeader p" "ITagMicFree q = ITagMicFree p" "CTagReserved q = CTagReserved p"
    "CbTagArray q = CbTagArray p" "CbBufferData q = n - CbPageHeader p"
    using f n(1) by (simp_all add: size_defs)
  show t: "tags q = tags p" by (rule tags_move) (use f(2) s(2) tg n(1) in simp_all)
  show "lines q = lines p" by (rule lines_move [OF t s(1)]) (use ok dt in \<open>simp_all add: page_ok_def\<close>)
  have "shape_ok q" using ok n f s by (simp add: page_ok_def shape_ok_def)
  moreover have "itags_ok q" using ok f s by (simp add: page_ok_def itags_ok_def)
  moreover have "tags_ok q" using ok n f s t by (simp add: page_ok_def tags_ok_def)
  moreover have "free_ok q" using ok fr s t by (simp add: page_ok_def free_ok_def CbBufferData_def)
  ultimately show "page_ok q" by (simp add: page_ok_def)
qed

lemma cbFree_ge: "page_ok p \<Longrightarrow> CbContiguousBufferFree p \<le> uint (cbFree (pghdr p))"
  using cbs_le_mic [of p] by (simp add: page_ok_def free_ok_def CbContiguousBufferFree_def)

lemma Dehydrate_spec:
  assumes ok: "page_ok p" and sum: "checksum_only setsum"
    and n: "CbPageHeader p + uint (ibMicFree (pghdr p)) + CbTagArray p \<le> n" "n \<le> cbBuffer p" "CbPageHeader p < n"
  obtains q where "DehydratePageUnadjusted setsum n p = Some q" "page_ok q" "lines q = lines p"
    "cbBuffer q = n" "cbPage q = cbPage p" "CTagReserved q = CTagReserved p" "fSmallFormat q = fSmallFormat p"
    "ibMicFree (pghdr q) = ibMicFree (pghdr p)"
    "uint (CbFree q) = uint (CbFree p) - (cbBuffer p - n)"
proof -
  have s: "shape_ok p" using ok by (simp add: page_ok_def)
  have sh: "cbBuffer p \<le> cbPage p" "cbPage p \<le> 32768" using s by (simp_all add: shape_ok_def)
  define p1 where "p1 = upd_buf (memmove (n - CbTagArray p) (cbBuffer p - CbTagArray p) (CbTagArray p)) p"
  define p2 where "p2 = (set_cbFree (cbFree (pghdr p1) - word_of_int (cbBuffer p - n)) p1)\<lparr>cbBuffer := n\<rparr>"
  have h: "0 < CbPageHeader p" "0 \<le> uint (ibMicFree (pghdr p))" by (simp_all add: CbPageHeader_pos)
  have fr: "cbBuffer p - n \<le> uint (cbFree (pghdr p))"
    using cbFree_ge [OF ok] n(1) by (simp add: CbContiguousBufferFree_def CbBufferData_def)
  have w: "uint (word_of_int (cbBuffer p - n) :: u16) = cbBuffer p - n"
    using n h sh by (intro uint16_of_int) auto
  have f: "uint (cbFree (pghdr p2)) = uint (cbFree (pghdr p)) - (cbBuffer p - n)"
    using fr w uint16_diff [of "word_of_int (cbBuffer p - n)" "cbFree (pghdr p)"]
    by (simp add: p2_def p1_def)
  have T: "0 \<le> CbTagArray p" using CbTagArray_nonneg by simp
  have R: "page_ok p2" "lines p2 = lines p"
  proof -
    note r = resized_page [OF ok, of p2 n]
    show "page_ok p2" "lines p2 = lines p"
      using n sh h f T by (intro r; simp add: p2_def p1_def memmove_in memmove_out PbFromIb_def)+
  qed
  have d: "DehydratePageUnadjusted setsum n p = Some (if \<not> fDirty p2 then setsum p2 else p2)"
    using n h sh fr T by (auto simp: DehydratePageUnadjusted_def Let_def p2_def p1_def)
  have e: "cbBuffer p2 = n" "cbPage p2 = cbPage p" "CTagReserved p2 = CTagReserved p" "fSmallFormat p2 = fSmallFormat p"
    "ibMicFree (pghdr p2) = ibMicFree (pghdr p)"
    by (simp_all add: p2_def p1_def CTagReserved_def)
  show thesis
    using that [OF d] R e f page_ok_checksum [OF sum, of p2] by (simp add: CbFree_def)
qed

lemma Rehydrate_spec:
  assumes ok: "page_ok p" and sum: "checksum_only setsum" and n: "cbBuffer p < cbPage p" "cbPage p \<le> cbPageMax"
  obtains q where "RehydratePage setsum cbPageMax p = Some q" "page_ok q" "FIsNormalSized q" "lines q = lines p"
    "CTagReserved q = CTagReserved p" "fSmallFormat q = fSmallFormat p" "cbPage q = cbPage p"
    "uint (CbFree q) = uint (CbFree p) + (cbPage p - cbBuffer p)"
proof -
  have s: "shape_ok p" using ok by (simp add: page_ok_def)
  have sh: "CbPageHeader p < cbBuffer p" "cbPage p \<le> 32768" using s by (simp_all add: shape_ok_def)
  have tf: "uint (ibMicFree (pghdr p)) + CbTagArray p \<le> cbBuffer p - CbPageHeader p"
    using ok by (simp add: page_ok_def tags_ok_def CbBufferData_def)
  have h: "0 < CbPageHeader p" "0 \<le> uint (ibMicFree (pghdr p))" by (simp_all add: CbPageHeader_pos)
  have T: "0 \<le> CbTagArray p" using CbTagArray_nonneg by simp
  have sm: "0 \<le> sum_list (map t_cb (tags p))" using tag_nonneg(2) [of _ p] by (intro sum_list_nonneg) force
  define p1 where "p1 = (p\<lparr>cbBuffer := cbPage p\<rparr>)"
  define p2 where "p2 = upd_buf (memmove (cbPage p - CbTagArray p) (cbBuffer p - CbTagArray p) (CbTagArray p)) p1"
  define p3 where "p3 = set_cbFree (cbFree (pghdr p2) + word_of_int (cbPage p - cbBuffer p)) p2"
  define p4 where "p4 = (if fScrubbing p3 then upd_buf (memset (PbFromIb p3 (uint (ibMicFree (pghdr p3))))
      chPAGEReHydrateFill (CbContiguousBufferFree p3)) p3 else p3)"
  have bound: "uint (cbFree (pghdr p)) + (cbPage p - cbBuffer p) \<le> cbPage p"
    using ok sm T h by (simp add: page_ok_def free_ok_def CbBufferData_def)
  have w: "uint (word_of_int (cbPage p - cbBuffer p) :: u16) = cbPage p - cbBuffer p"
    using n h sh by (intro uint16_of_int) auto
  have fr: "uint (cbFree (pghdr p4)) = uint (cbFree (pghdr p)) + (cbPage p - cbBuffer p)"
    using bound sh w uint16_add [of "cbFree (pghdr p)" "word_of_int (cbPage p - cbBuffer p)"]
    by (simp add: p4_def p3_def p2_def p1_def)
  have sz: "CbTagArray p1 = CbTagArray p" "CbPageHeader p3 = CbPageHeader p" "CbTagArray p3 = CbTagArray p"
    by (simp_all add: p1_def p2_def p3_def size_defs)
  have fld: "cbBuffer p4 = cbPage p" "cbPage p4 = cbPage p" "fSmallFormat p4 = fSmallFormat p"
    "m_itagMicFree p4 = m_itagMicFree p" "m_ctagReserved p4 = m_ctagReserved p"
    "ibMicFree (pghdr p4) = ibMicFree (pghdr p)" "itagState (pghdr p4) = itagState (pghdr p)"
    by (simp_all add: p4_def p3_def p2_def p1_def)
  have end3: "PbFromIb p3 (uint (ibMicFree (pghdr p3))) + CbContiguousBufferFree p3 = cbPage p - CbTagArray p"
    "PbFromIb p3 (uint (ibMicFree (pghdr p3))) = PbFromIb p (uint (ibMicFree (pghdr p)))"
    using sz by (simp_all add: PbFromIb_def CbContiguousBufferFree_def CbBufferData_def)
      (simp_all add: p3_def p2_def p1_def)
  have b3: "buf p3 = memmove (cbPage p - CbTagArray p) (cbBuffer p - CbTagArray p) (CbTagArray p) (buf p)"
    by (simp add: p3_def p2_def p1_def)
  have out: "buf p4 i = buf p3 i" if "i < PbFromIb p (uint (ibMicFree (pghdr p))) \<or> cbPage p - CbTagArray p \<le> i" for i
    using that end3 by (auto simp: p4_def memset_def)
  have R: "page_ok p4" "lines p4 = lines p"
  proof -
    note r = resized_page [OF ok, of p4 "cbPage p"]
    have tg: "buf p4 (cbPage p - CbTagArray p + i) = buf p (cbBuffer p - CbTagArray p + i)"
      if "0 \<le> i" "i < CbTagArray p" for i
      using that by (subst out) (simp_all add: b3 memmove_in)
    have dt: "buf p4 i = buf p i" if "PbFromIb p 0 \<le> i" "i < PbFromIb p (uint (ibMicFree (pghdr p)))" for i
      using that tf n by (subst out) (simp_all add: b3 memmove_out PbFromIb_def)
    show "page_ok p4" "lines p4 = lines p" using n sh tf fld fr tg dt by (intro r; simp)+
  qed
  have d: "RehydratePage setsum cbPageMax p = Some (if \<not> fDirty p4 then setsum p4 else p4)"
  proof -
    have c0: "0 \<le> cbBuffer p - CbTagArray p" using tf h by linarith
    have c: "cbBuffer p \<le> cbPageMax" "cbPage p \<le> cbPageMax" "cbBuffer p1 = cbPage p" "cbPage p > cbBuffer p"
      "uint (cbFree (pghdr p2)) + (cbPage p - cbBuffer p) \<le> cbPageMax"
      using n bound by (simp_all add: p1_def p2_def)
    with c0 show ?thesis
      unfolding RehydratePage_def Let_def p1_def [symmetric] sz c(3)
      unfolding p2_def [symmetric] p3_def [symmetric] p4_def [symmetric] by simp
  qed
  show thesis
    using that [OF d] R fld fr page_ok_checksum [OF sum, of p4]
    by (simp add: CbFree_def FIsNormalSized_def CTagReserved_def)
qed

end
