(* ===== verification/Page_Scrub.thy ===== *)
theory Page_Scrub
  imports Page_Shrink
begin

text \<open>
  \<open>CPAGE::OverwriteUnusedSpace\<close> with \<open>ZeroOutGaps_\<close>, and the properties of the operations on
  the page image: scrubbing, dehydration and rehydration, reserved tags.
\<close>

subsection \<open>Overwriting the gaps between lines\<close>

definition in_line :: "CPAGE \<Rightarrow> nat \<Rightarrow> int \<Rightarrow> bool" where
  "in_line p k i \<longleftrightarrow> PbFromIb p (t_ib (tags p ! k)) \<le> i \<and>
     i < PbFromIb p (t_ib (tags p ! k) + t_cb (tags p ! k))"

lemma ZeroGapsLoop_spec:
  fixes p
  defines "end_of \<equiv> \<lambda>k. t_ib (tags p ! k) + t_cb (tags p ! k)"
  assumes "ks \<noteq> []" "tags (p\<lparr>buf := b\<rparr>) = tags p"
    "\<And>k. k \<in> set ks \<Longrightarrow> int k < ITagMicFree p \<and> 0 < t_cb (tags p ! k) \<and>
      PbFromIb p (end_of k) \<le> cbBuffer p - CbTagArray p"
    "sorted_wrt (\<lambda>j k. end_of j \<le> t_ib (tags p ! k)) ks"
  shows "\<exists>b'. ZeroGapsLoop ch (map (\<lambda>k. PtagFromItag p (int k)) ks) (p\<lparr>buf := b\<rparr>) = Some (p\<lparr>buf := b'\<rparr>) \<and>
    tags (p\<lparr>buf := b'\<rparr>) = tags p \<and>
    (\<forall>i. b' i = (if PbFromIb p (end_of (hd ks)) \<le> i \<and> i < PbFromIb p (t_ib (tags p ! last ks)) \<and>
      (\<forall>k\<in>set (tl ks). \<not> in_line p k i) then ch else b i))"
  using assms(2-)
proof (induction ks arbitrary: b)
  case Nil
  from Nil.prems(1) show ?case by blast
next
  case (Cons j ks)
  show ?case
  proof (cases ks)
    case Nil
    have "0 < t_cb (tags p ! j)" using Cons.prems(3) [of j] by simp
    then have "PbFromIb p (end_of j) \<le> i \<Longrightarrow> i < PbFromIb p (t_ib (tags p ! j)) \<Longrightarrow> False" for i
      by (simp add: end_of_def PbFromIb_def)
    then show ?thesis using Cons.prems(2) unfolding Nil by (intro exI [of _ b]) force
  next
    case (Cons k rest)
    note K = Cons and IH = Cons.IH and pr = Cons.prems
    have kj: "int j < ITagMicFree p" "int k < ITagMicFree p" "PbFromIb p (end_of k) \<le> cbBuffer p - CbTagArray p"
      "0 < t_cb (tags p ! k)" "0 < t_cb (tags p ! j)"
      using pr(3) K by simp_all
    let ?q = "p\<lparr>buf := b\<rparr>"
    have v: "uint (TAG_Cb ?q (PtagFromItag p (int i))) = t_cb (tags p ! i)"
      "uint (TAG_Ib ?q (PtagFromItag p (int i))) = t_ib (tags p ! i)" if "int i < ITagMicFree p" for i
      using nth_tags [of i ?q] that pr(2) by simp_all
    have le: "end_of j \<le> t_ib (tags p ! k)" using pr(4) K by simp
    define b1 where "b1 = memset (PbFromIb p (end_of j)) ch (t_ib (tags p ! k) - end_of j) b"
    have b1: "b1 i = (if PbFromIb p (end_of j) \<le> i \<and> i < PbFromIb p (t_ib (tags p ! k)) then ch else b i)" for i
      by (auto simp: b1_def memset_def PbFromIb_def)
    have t1: "tags (p\<lparr>buf := b1\<rparr>) = tags p"
    proof -
      have "tags (p\<lparr>buf := b1\<rparr>) = tags ?q"
        by (rule tags_frame) (use kj in \<open>auto simp: b1 end_of_def PbFromIb_def\<close>)
      with pr(2) show ?thesis by simp
    qed
    have st: "ZeroGapsLoop ch (map (\<lambda>k. PtagFromItag p (int k)) (j # ks)) ?q =
        ZeroGapsLoop ch (map (\<lambda>k. PtagFromItag p (int k)) ks) (p\<lparr>buf := b1\<rparr>)"
    proof (cases "end_of j = t_ib (tags p ! k)")
      case True
      then have "b1 = b" by (intro ext) (auto simp add: b1)
      with True show ?thesis using v kj by (simp add: K PbFromIb_def end_of_def)
    next
      case False
      then show ?thesis using v kj le by (simp add: K PbFromIb_def end_of_def b1_def algebra_simps)
    qed
    obtain b' where b': "ZeroGapsLoop ch (map (\<lambda>k. PtagFromItag p (int k)) ks) (p\<lparr>buf := b1\<rparr>) = Some (p\<lparr>buf := b'\<rparr>)"
      "tags (p\<lparr>buf := b'\<rparr>) = tags p"
      "\<And>i. b' i = (if PbFromIb p (end_of (hd ks)) \<le> i \<and> i < PbFromIb p (t_ib (tags p ! last ks)) \<and>
        (\<forall>k\<in>set (tl ks). \<not> in_line p k i) then ch else b1 i)"
      using IH [of b1] pr(3,4) K t1 by auto
    have rest: "end_of k \<le> t_ib (tags p ! m)" if "m \<in> set rest" for m using pr(4) K that by simp
    have lst: "t_ib (tags p ! k) \<le> t_ib (tags p ! last ks)"
      using rest [of "last rest"] kj(4) K by (auto simp: end_of_def)
    have "ks \<noteq> []" using K by simp
    have B: "b' i = (if PbFromIb p (end_of j) \<le> i \<and> i < PbFromIb p (t_ib (tags p ! last ks)) \<and>
        (\<forall>k\<in>set ks. \<not> in_line p k i) then ch else b i)" for i
    proof -
      consider (low) "i < PbFromIb p (t_ib (tags p ! k))" | (mid) "in_line p k i" | (high) "PbFromIb p (end_of k) \<le> i"
        unfolding in_line_def end_of_def by linarith
      then show ?thesis
      proof cases
        case low
        then have "\<not> in_line p m i" if "m \<in> set ks" for m
          using rest [of m] that K kj(4) by (auto simp: in_line_def end_of_def PbFromIb_def)
        moreover have "\<not> PbFromIb p (end_of k) \<le> i" using low kj(4) by (simp add: end_of_def PbFromIb_def)
        ultimately show ?thesis using low lst K by (auto simp: b' b1 PbFromIb_def)
      next
        case mid
        then show ?thesis using K by (auto simp: b' b1 in_line_def end_of_def)
      next
        case high
        then have "\<not> in_line p k i" "PbFromIb p (end_of j) \<le> i" "\<not> i < PbFromIb p (t_ib (tags p ! k))"
          using le kj(4) by (auto simp: in_line_def end_of_def PbFromIb_def)
        then show ?thesis using K high by (simp add: b' b1)
      qed
    qed
    have e: "hd (j # ks) = j" "last (j # ks) = last ks" "tl (j # ks) = ks" using \<open>ks \<noteq> []\<close> by simp_all
    show ?thesis unfolding st e by (intro exI [of _ b'] conjI b'(1,2) allI B)
  qed
qed

lemma filled_order:
  assumes "shape_ok p" "tags_ok p"
  defines "ks \<equiv> filter (\<lambda>k. 0 < t_cb (tags p ! k)) (itags_by_ib p)"
  shows "sorted_wrt (\<lambda>j k. t_ib (tags p ! j) + t_cb (tags p ! j) \<le> t_ib (tags p ! k)) ks"
    "\<And>k. k \<in> set ks \<longleftrightarrow> int k < ITagMicFree p \<and> 0 < t_cb (tags p ! k)"
proof -
  have "sorted_wrt (\<lambda>j k. before (tags p ! j) (tags p ! k)) ks"
    using reorg_pre_all [OF assms(1,2)] unfolding ks_def reorg_pre_def by (intro sorted_wrt_filter) simp
  then show "sorted_wrt (\<lambda>j k. t_ib (tags p ! j) + t_cb (tags p ! j) \<le> t_ib (tags p ! k)) ks"
    by (rule sorted_wrt_mono_rel [rotated]) (auto simp: before_def ks_def)
  show "\<And>k. k \<in> set ks \<longleftrightarrow> int k < ITagMicFree p \<and> 0 < t_cb (tags p ! k)"
    by (auto simp: ks_def itags_by_ib_set)
qed

lemma filled_tags:
  "sort_key (\<lambda>ptag. uint (TAG_Ib p ptag)) (filter (\<lambda>ptag. uint (TAG_Cb p ptag) > 0) (rgptag p)) =
    map (\<lambda>k. PtagFromItag p (int k)) (filter (\<lambda>k. 0 < t_cb (tags p ! k)) (itags_by_ib p))"
proof -
  have "filter (\<lambda>k. uint (TAG_Cb p (PtagFromItag p (int k))) > 0) (itags_by_ib p) =
      filter (\<lambda>k. 0 < t_cb (tags p ! k)) (itags_by_ib p)"
    by (rule filter_cong) (simp_all add: itags_by_ib_set nth_tags)
  then show ?thesis by (simp add: rgptag_sorted filter_map comp_def flip: filter_sort)
qed

lemma ZeroOutGaps_spec:
  assumes s: "shape_ok p" "tags_ok p"
  obtains q where "ZeroOutGaps ch p = Some q"
    "q = p\<lparr>buf := buf q, pghdr := (pghdr p)\<lparr>ibMicFree := ibMicFree (pghdr q)\<rparr>\<rparr>"
    "tags q = tags p" "uint (ibMicFree (pghdr q)) \<le> uint (ibMicFree (pghdr p))"
    "\<And>k. int k < ITagMicFree p \<Longrightarrow> t_cb (tags p ! k) \<noteq> 0 \<Longrightarrow>
      t_ib (tags p ! k) + t_cb (tags p ! k) \<le> uint (ibMicFree (pghdr q))"
    "\<And>i. buf q i = (if PbFromIb p 0 \<le> i \<and> i < PbFromIb p (uint (ibMicFree (pghdr q))) \<and>
      (\<forall>k. int k < ITagMicFree p \<longrightarrow> \<not> in_line p k i) then ch else buf p i)"
proof -
  define ks where "ks = filter (\<lambda>k. 0 < t_cb (tags p ! k)) (itags_by_ib p)"
  define rg where "rg = map (\<lambda>k. PtagFromItag p (int k)) ks"
  note ord = filled_order [OF s, folded ks_def]
  have tn: "0 \<le> t_ib (tags p ! k)" "0 \<le> t_cb (tags p ! k)" if "int k < ITagMicFree p" for k
    using that tag_nonneg [of "tags p ! k" p] by simp_all
  have empty: "\<not> in_line p k i" if "t_cb (tags p ! k) = 0" for k i using that by (simp add: in_line_def)
  have z: "ZeroOutGaps ch p = ZeroGapsLoop ch rg
      (if rg = [] then set_ibMicFree 0 p
       else let q = upd_buf (memset (PbFromIb p 0) ch (PbFromIb p (uint (TAG_Ib p (hd rg))) - PbFromIb p 0)) p
         in set_ibMicFree (TAG_Ib q (last rg) + TAG_Cb q (last rg)) q)"
    unfolding ZeroOutGaps_def Let_def filled_tags ks_def [symmetric] rg_def [symmetric] by (rule refl)
  show thesis
  proof (cases "ks = []")
    case True
    have none: "\<not> 0 < t_cb (tags p ! k)" if "int k < ITagMicFree p" for k using ord(2) [of k] True that by simp
    let ?q = "set_ibMicFree 0 p"
    show thesis
    proof (rule that [of ?q])
      show "ZeroOutGaps ch p = Some ?q" using z True by (simp add: rg_def)
      show "t_ib (tags p ! k) + t_cb (tags p ! k) \<le> uint (ibMicFree (pghdr ?q))"
        if "int k < ITagMicFree p" "t_cb (tags p ! k) \<noteq> 0" for k
        using none [OF that(1)] tn [OF that(1)] that(2) by linarith
    qed (auto simp: PbFromIb_def)
  next
    case False
    have hl: "hd ks \<in> set ks" "last ks \<in> set ks" using False by simp_all
    note H = hl [unfolded ord(2)]
    have m: "uint (ibMicFree (pghdr p)) + CbTagArray p \<le> CbBufferData p" using s(2) by (simp add: tags_ok_def)
    have e: "t_ib (tags p ! k) + t_cb (tags p ! k) \<le> uint (ibMicFree (pghdr p))" if "k \<in> set ks" for k
      using that tags_okD [OF s(2), of k] by (simp add: ord(2))
    have lastmax: "t_ib (tags p ! k) + t_cb (tags p ! k) \<le> t_ib (tags p ! last ks) + t_cb (tags p ! last ks)"
      if "k \<in> set ks" for k
    proof (cases "k = last ks")
      case False
      have "sorted_wrt (\<lambda>j k. t_ib (tags p ! j) + t_cb (tags p ! j) \<le> t_ib (tags p ! k)) (butlast ks @ [last ks])"
        using ord(1) \<open>ks \<noteq> []\<close> by simp
      moreover have "k \<in> set (butlast ks)"
        using that False \<open>ks \<noteq> []\<close> by (metis append_butlast_last_id in_set_conv_decomp rotate1.simps(2) set_ConsD set_rotate1)
      ultimately have "t_ib (tags p ! k) + t_cb (tags p ! k) \<le> t_ib (tags p ! last ks)"
        by (simp add: sorted_wrt_append)
      then show ?thesis using H(2) by linarith
    qed simp
    have firstmin: "t_ib (tags p ! hd ks) \<le> t_ib (tags p ! k)" if "k \<in> set ks" for k
    proof (cases ks)
      case (Cons a as)
      with that ord(1) H(1) show ?thesis by (cases "k = a") auto
    qed (use that in simp)
    let ?h = "hd ks" and ?l = "last ks"
    define mic where "mic = TAG_Ib p (PtagFromItag p (int ?l)) + TAG_Cb p (PtagFromItag p (int ?l))"
    have v: "uint (TAG_Cb p (PtagFromItag p (int k))) = t_cb (tags p ! k)"
      "uint (TAG_Ib p (PtagFromItag p (int k))) = t_ib (tags p ! k)" if "int k < ITagMicFree p" for k
      using that by (simp_all add: nth_tags)
    have mic: "uint mic = t_ib (tags p ! ?l) + t_cb (tags p ! ?l)"
      unfolding mic_def using v H e [OF hl(2)] uint16_less [of "ibMicFree (pghdr p)"]
      by (subst uint16_add) simp_all
    define b where "b = memset (PbFromIb p 0) ch (t_ib (tags p ! ?h)) (buf p)"
    define p0 where "p0 = set_ibMicFree mic p"
    have tp0: "tags p0 = tags p" by (simp add: p0_def)
    have sz: "ITagMicFree p0 = ITagMicFree p" "PbFromIb p0 i = PbFromIb p i" "cbBuffer p0 = cbBuffer p"
      "CbTagArray p0 = CbTagArray p" "buf p0 = buf p" "CbPageHeader p0 = CbPageHeader p" "PtagFromItag p0 j = PtagFromItag p j" "in_line p0 k i = in_line p k i" for i j k
      by (simp_all add: p0_def in_line_def)
    have tb: "tags (p0\<lparr>buf := b\<rparr>) = tags p0"
      by (rule tags_frame)
        (use e [OF hl(1)] m H(1) in \<open>auto simp: b_def memset_def sz PbFromIb_def CbBufferData_def\<close>)
    have tl: "TAG_Ib (p\<lparr>buf := b\<rparr>) (PtagFromItag p (int ?l)) + TAG_Cb (p\<lparr>buf := b\<rparr>) (PtagFromItag p (int ?l)) = mic"
    proof -
      have "p0\<lparr>buf := b\<rparr> = set_ibMicFree mic (p\<lparr>buf := b\<rparr>)" by (simp add: p0_def)
      then have "tags (p\<lparr>buf := b\<rparr>) = tags p" using tb tp0 by (simp only: tags_hdr)
      then have "tag_at (p\<lparr>buf := b\<rparr>) (PtagFromItag p (int ?l)) = tag_at p (PtagFromItag p (int ?l))"
        using nth_tags [of ?l "p\<lparr>buf := b\<rparr>"] nth_tags [of ?l p] H(2) by simp
      then have "TAG_Ib (p\<lparr>buf := b\<rparr>) (PtagFromItag p (int ?l)) = TAG_Ib p (PtagFromItag p (int ?l))"
        "TAG_Cb (p\<lparr>buf := b\<rparr>) (PtagFromItag p (int ?l)) = TAG_Cb p (PtagFromItag p (int ?l))"
        by (simp_all add: tag_at_def word_uint_eq_iff)
      then show ?thesis by (simp only: mic_def)
    qed
    have start: "ZeroOutGaps ch p = ZeroGapsLoop ch (map (\<lambda>k. PtagFromItag p0 (int k)) ks) (p0\<lparr>buf := b\<rparr>)"
    proof -
      have "upd_buf (memset (PbFromIb p 0) ch (PbFromIb p (uint (TAG_Ib p (hd rg))) - PbFromIb p 0)) p = p\<lparr>buf := b\<rparr>"
        using False v H by (simp add: rg_def hd_map b_def PbFromIb_def)
      moreover have "last rg = PtagFromItag p (int ?l)" using False by (simp add: rg_def last_map)
      moreover have "set_ibMicFree mic (p\<lparr>buf := b\<rparr>) = p0\<lparr>buf := b\<rparr>" by (simp add: p0_def)
      ultimately show ?thesis unfolding z Let_def using False tl by (simp add: rg_def sz)
    qed
    obtain b' where b': "ZeroOutGaps ch p = Some (p0\<lparr>buf := b'\<rparr>)" "tags (p0\<lparr>buf := b'\<rparr>) = tags p0"
      "\<And>i. b' i = (if PbFromIb p (t_ib (tags p ! ?h) + t_cb (tags p ! ?h)) \<le> i \<and> i < PbFromIb p (t_ib (tags p ! ?l)) \<and>
        (\<forall>k\<in>set (tl ks). \<not> in_line p k i) then ch else b i)"
    proof -
      have "PbFromIb p0 (t_ib (tags p0 ! k) + t_cb (tags p0 ! k)) \<le> cbBuffer p0 - CbTagArray p0" if "k \<in> set ks" for k
        using e [OF that] m by (simp add: sz tp0 PbFromIb_def CbBufferData_def)
      then show thesis
        using ZeroGapsLoop_spec [OF False tb, where ch = ch] ord that unfolding start
        by (auto simp: tp0 sz)
    qed
    let ?q = "p0\<lparr>buf := b'\<rparr>"
    have B: "b' i = (if PbFromIb p 0 \<le> i \<and> i < PbFromIb p (uint mic) \<and>
        (\<forall>k. int k < ITagMicFree p \<longrightarrow> \<not> in_line p k i) then ch else buf p i)" for i
    proof -
      have all: "(\<forall>k. int k < ITagMicFree p \<longrightarrow> \<not> in_line p k i) \<longleftrightarrow> (\<forall>k\<in>set ks. \<not> in_line p k i)"
        unfolding Ball_def ord(2) using empty tn by (metis order_le_less)
      have h: "(\<forall>k\<in>set ks. \<not> in_line p k i) \<longleftrightarrow> \<not> in_line p ?h i \<and> (\<forall>k\<in>set (tl ks). \<not> in_line p k i)"
        using False by (cases ks) auto
      consider (low) "i < PbFromIb p (t_ib (tags p ! ?h))" | (first) "in_line p ?h i"
        | (mid) "PbFromIb p (t_ib (tags p ! ?h) + t_cb (tags p ! ?h)) \<le> i" "i < PbFromIb p (t_ib (tags p ! ?l))"
        | (last) "in_line p ?l i" "PbFromIb p (t_ib (tags p ! ?l)) \<le> i" | (high) "PbFromIb p (uint mic) \<le> i"
        unfolding in_line_def mic by linarith
      then show ?thesis
      proof cases
        case low
        then have n: "\<forall>k\<in>set ks. \<not> in_line p k i" using firstmin by (force simp: in_line_def PbFromIb_def)
        have "i < PbFromIb p (uint mic)" "\<not> PbFromIb p (t_ib (tags p ! ?h) + t_cb (tags p ! ?h)) \<le> i"
          using low lastmax [OF hl(1)] H(1) by (simp_all add: mic PbFromIb_def)
        then show ?thesis using n low unfolding all b' by (auto simp: b_def memset_def PbFromIb_def)
      next
        case first
        then have "b' i = buf p i" unfolding b' in_line_def by (auto simp: b_def memset_def PbFromIb_def)
        then show ?thesis using first hl(1) all by auto
      next
        case mid
        then have "\<not> in_line p ?h i" "PbFromIb p 0 \<le> i" "i < PbFromIb p (uint mic)" "b i = buf p i"
          using tn(1) [of ?h] tn(1) [of ?l] H by (auto simp: in_line_def mic PbFromIb_def b_def memset_def)
        then show ?thesis using mid unfolding all h b' by simp
      next
        case last
        have "t_ib (tags p ! ?h) \<le> t_ib (tags p ! ?l)" by (rule firstmin [OF hl(2)])
        with last have "b' i = buf p i" unfolding b' by (auto simp: b_def memset_def PbFromIb_def)
        then show ?thesis using last hl(2) all by auto
      next
        case high
        have "t_ib (tags p ! ?h) \<le> uint mic" "t_ib (tags p ! ?l) \<le> uint mic"
          using lastmax [OF hl(1)] H mic by linarith+
        with high show ?thesis unfolding b' by (auto simp: b_def memset_def PbFromIb_def)
      qed
    qed
    show thesis
    proof (rule that [of ?q])
      show "?q = p\<lparr>buf := buf ?q, pghdr := (pghdr p)\<lparr>ibMicFree := ibMicFree (pghdr ?q)\<rparr>\<rparr>"
        by (simp add: p0_def)
      have im: "ibMicFree (pghdr ?q) = mic" by (simp add: p0_def)
      show "uint (ibMicFree (pghdr ?q)) \<le> uint (ibMicFree (pghdr p))" unfolding im mic by (rule e [OF hl(2)])
      show "t_ib (tags p ! k) + t_cb (tags p ! k) \<le> uint (ibMicFree (pghdr ?q))"
        if "int k < ITagMicFree p" "t_cb (tags p ! k) \<noteq> 0" for k
        unfolding im mic using lastmax [of k] that tn [OF that(1)] by (simp add: ord(2))
      show "buf ?q i = (if PbFromIb p 0 \<le> i \<and> i < PbFromIb p (uint (ibMicFree (pghdr ?q))) \<and>
          (\<forall>k. int k < ITagMicFree p \<longrightarrow> \<not> in_line p k i) then ch else buf p i)" for i
        unfolding im using B by simp
    qed (use b' tp0 in simp_all)
  qed
qed

text \<open>When the lines fill everything below \<open>ibMicFree\<close>, every byte there is in a line.\<close>

lemma lines_cover:
  assumes ok: "shape_ok p" "tags_ok p" and full: "sum_list (map t_cb (tags p)) = uint (ibMicFree (pghdr p))"
    and i: "PbFromIb p 0 \<le> i" "i < PbFromIb p (uint (ibMicFree (pghdr p)))"
  shows "\<exists>k. int k < ITagMicFree p \<and> in_line p k i"
proof -
  let ?n = "nat (ITagMicFree p)" and ?m = "uint (ibMicFree (pghdr p))"
  define A where "A k = {t_ib (tags p ! k) ..< t_ib (tags p ! k) + t_cb (tags p ! k)}" for k
  have tn: "0 \<le> t_ib (tags p ! k)" "0 \<le> t_cb (tags p ! k)" if "k < ?n" for k
    using that tag_nonneg [of "tags p ! k" p] by simp_all
  have sub: "A k \<subseteq> {0..<?m}" if "k < ?n" for k
    using tags_okD [OF ok(2), of k] tn [OF that] that unfolding A_def
    by (cases "t_cb (tags p ! k) = 0") auto
  have ns: "int (\<Sum>k<?n. nat (t_cb (tags p ! k))) = (\<Sum>k<?n. t_cb (tags p ! k))"
    by (simp only: of_nat_sum, rule sum.cong) (use tn in simp_all)
  have "card (\<Union>k<?n. A k) = (\<Sum>k<?n. card (A k))"
  proof (rule card_UN_disjoint)
    show "\<forall>i\<in>{..<?n}. \<forall>j\<in>{..<?n}. i \<noteq> j \<longrightarrow> A i \<inter> A j = {}"
    proof (intro ballI impI)
      fix i j assume ij: "i \<in> {..<?n}" "j \<in> {..<?n}" "i \<noteq> j"
      then have "apart (tags p ! i) (tags p ! j)" by (intro tags_ok_apart [OF ok(2)]) auto
      then show "A i \<inter> A j = {}" by (auto simp: A_def apart_def)
    qed
  qed (simp_all add: A_def)
  also have "\<dots> = (\<Sum>k<?n. nat (t_cb (tags p ! k)))" by (simp add: A_def)
  also have "\<dots> = nat (\<Sum>k<?n. t_cb (tags p ! k))" unfolding ns [symmetric] by (rule nat_int [symmetric])
  also have "(\<Sum>k<?n. t_cb (tags p ! k)) = ?m"
    using full by (simp add: sum_list_sum_nth atLeast0LessThan)
  finally have "card (\<Union>k<?n. A k) = card {0..<?m}" by simp
  then have "(\<Union>k<?n. A k) = {0..<?m}" using sub by (intro card_subset_eq) auto
  moreover have "i - PbFromIb p 0 \<in> {0..<?m}" using i by (simp add: PbFromIb_def)
  ultimately obtain k where "k < ?n" "i - PbFromIb p 0 \<in> A k" by blast
  then show ?thesis by (intro exI [of _ k]) (auto simp: A_def in_line_def PbFromIb_def)
qed

lemma scrubbed_page:
  assumes ok: "page_ok p"
    and q: "q = p\<lparr>buf := buf q, pghdr := (pghdr p)\<lparr>ibMicFree := ibMicFree (pghdr q)\<rparr>\<rparr>"
    and t: "tags q = tags p" "uint (ibMicFree (pghdr q)) \<le> uint (ibMicFree (pghdr p))"
    and e: "\<And>k. int k < ITagMicFree p \<Longrightarrow> t_cb (tags p ! k) \<noteq> 0 \<Longrightarrow>
      t_ib (tags p ! k) + t_cb (tags p ! k) \<le> uint (ibMicFree (pghdr q))"
    and b: "\<And>k i. int k < ITagMicFree p \<Longrightarrow> in_line p k i \<Longrightarrow> buf q i = buf p i"
  shows "page_ok q" "lines q = lines p" "LoggedDataChecksum q = LoggedDataChecksum p"
proof -
  have s: "tags_ok p" using ok by (simp add: page_ok_def)
  have z: "CbTagArray q = CbTagArray p" "CbBufferData q = CbBufferData p" "CbPageHeader q = CbPageHeader p"
    "fSmallFormat q = fSmallFormat p"
    by (subst q, simp)+
  have "tags_ok q" unfolding tags_ok_def z t(1)
    using s t(2) e by (auto simp: tags_ok_def list_all_length zless_nat_eq_int_zless)
  with page_ok_reorg [OF ok q] t(1) show okq: "page_ok q" by simp
  have "line_of q (tags p ! k) = line_of p (tags p ! k)" if "int k < ITagMicFree p" for k
    by (rule line_of_cong [OF z(3)]) (use b [OF that] in \<open>simp add: in_line_def PbFromIb_def add.assoc\<close>)
  then show l: "lines q = lines p"
    by (intro nth_equalityI) (simp_all add: lines_def t(1) zless_nat_eq_int_zless)
  have "logged_header q = logged_header p"
    by (subst q) (simp add: logged_header_def Let_def)
  then show "LoggedDataChecksum q = LoggedDataChecksum p"
    using LoggedDataChecksum_lines [OF ok] LoggedDataChecksum_lines [OF okq] l z(4) by simp
qed

lemma Overwrite_spec:
  assumes ok: "page_ok p" and norm: "FIsNormalSized p"
  obtains q where "OverwriteUnusedSpace ch p = Some q" "page_ok q" "lines q = lines p"
    "LoggedDataChecksum q = LoggedDataChecksum p"
    "\<And>i. PbFromIb p 0 \<le> i \<Longrightarrow> i < cbBuffer p - CbTagArray p \<Longrightarrow>
      (\<And>k. int k < ITagMicFree p \<Longrightarrow> \<not> in_line p k i) \<Longrightarrow> buf q i = ch"
proof -
  have s: "shape_ok p" "tags_ok p" "free_ok p" using ok by (simp_all add: page_ok_def)
  note goal = that
  have mid: thesis
    if z: "(if CbContiguousFree p \<noteq> uint (cbFree (pghdr p)) then ZeroOutGaps ch p else Some p) = Some r"
      and r: "r = p\<lparr>buf := buf r, pghdr := (pghdr p)\<lparr>ibMicFree := ibMicFree (pghdr r)\<rparr>\<rparr>"
      "tags r = tags p" "uint (ibMicFree (pghdr r)) \<le> uint (ibMicFree (pghdr p))"
      "\<And>k. int k < ITagMicFree p \<Longrightarrow> t_cb (tags p ! k) \<noteq> 0 \<Longrightarrow>
        t_ib (tags p ! k) + t_cb (tags p ! k) \<le> uint (ibMicFree (pghdr r))"
      "\<And>i. PbFromIb p 0 \<le> i \<Longrightarrow> i < PbFromIb p (uint (ibMicFree (pghdr r))) \<Longrightarrow>
        (\<And>k. int k < ITagMicFree p \<Longrightarrow> \<not> in_line p k i) \<Longrightarrow> buf r i = ch"
      "\<And>k i. int k < ITagMicFree p \<Longrightarrow> in_line p k i \<Longrightarrow> buf r i = buf p i" for r
  proof -
    let ?m = "uint (ibMicFree (pghdr r))"
    have z': "PbFromIb r i = PbFromIb p i" "CbTagArray r = CbTagArray p" "cbBuffer r = cbBuffer p" "shape_ok r"
      "FIsNormalSized r" "CbBufferData r = CbBufferData p" "ITagMicFree r = ITagMicFree p"
      "fSmallFormat r = fSmallFormat p" for i
      by (subst r(1), use s norm in \<open>simp add: shape_ok_def FIsNormalSized_def\<close>)+
    have fin: "PbFromIb r ?m + CbContiguousFree r = cbBuffer p - CbTagArray p"
      using CbContiguous_normal [OF z'(4,5)] z' by (simp add: PbFromIb_def CbBufferData_def)
    let ?q = "upd_buf (memset (PbFromIb r ?m) ch (CbContiguousFree r)) r"
    have d: "OverwriteUnusedSpace ch p = Some ?q"
      unfolding OverwriteUnusedSpace_def z by simp
    have bq: "buf ?q i = (if PbFromIb p ?m \<le> i \<and> i < cbBuffer p - CbTagArray p then ch else buf r i)" for i
      using fin z'(1) by (auto simp: memset_def)
    have in_end: "i < PbFromIb p ?m" if "int k < ITagMicFree p" "in_line p k i" for k i
      using r(4) [OF that(1)] that(2) by (cases "t_cb (tags p ! k) = 0") (auto simp: in_line_def PbFromIb_def)
    have tq: "tags ?q = tags p"
    proof -
      have "tags ?q = tags r" by (rule tags_frame) (use bq z' in simp_all)
      with r(2) show ?thesis by simp
    qed
    note S = scrubbed_page [OF ok, of ?q]
    have hq: "?q = p\<lparr>buf := buf ?q, pghdr := (pghdr p)\<lparr>ibMicFree := ibMicFree (pghdr ?q)\<rparr>\<rparr>"
      by (subst r(1)) simp
    have P: "page_ok ?q" "lines ?q = lines p" "LoggedDataChecksum ?q = LoggedDataChecksum p"
      by (rule S [OF hq tq]; use r(3,4,6) in_end bq in fastforce)+
    show thesis
    proof (rule goal [OF d P])
      fix i assume "PbFromIb p 0 \<le> i" "i < cbBuffer p - CbTagArray p"
        "\<And>k. int k < ITagMicFree p \<Longrightarrow> \<not> in_line p k i"
      then show "buf ?q i = ch" using r(5) [of i] bq [of i] by (cases "i < PbFromIb p ?m") auto
    qed
  qed
  show thesis
  proof (cases "CbContiguousFree p \<noteq> uint (cbFree (pghdr p))")
    case True
    obtain q where q: "ZeroOutGaps ch p = Some q"
      "q = p\<lparr>buf := buf q, pghdr := (pghdr p)\<lparr>ibMicFree := ibMicFree (pghdr q)\<rparr>\<rparr>"
      "tags q = tags p" "uint (ibMicFree (pghdr q)) \<le> uint (ibMicFree (pghdr p))"
      "\<And>k. int k < ITagMicFree p \<Longrightarrow> t_cb (tags p ! k) \<noteq> 0 \<Longrightarrow>
        t_ib (tags p ! k) + t_cb (tags p ! k) \<le> uint (ibMicFree (pghdr q))"
      "\<And>i. buf q i = (if PbFromIb p 0 \<le> i \<and> i < PbFromIb p (uint (ibMicFree (pghdr q))) \<and>
        (\<forall>k. int k < ITagMicFree p \<longrightarrow> \<not> in_line p k i) then ch else buf p i)"
      using ZeroOutGaps_spec [OF s(1,2), of ch] by metis
    show thesis
    proof (rule mid [OF _ q(2-5)])
      show "(if CbContiguousFree p \<noteq> uint (cbFree (pghdr p)) then ZeroOutGaps ch p else Some p) = Some q"
        using True q(1) by simp
      show "buf q i = ch" if "PbFromIb p 0 \<le> i" "i < PbFromIb p (uint (ibMicFree (pghdr q)))"
        "\<And>k. int k < ITagMicFree p \<Longrightarrow> \<not> in_line p k i" for i
        unfolding q(6) using that by simp
      show "buf q i = buf p i" if "int k < ITagMicFree p" "in_line p k i" for k i
        unfolding q(6) using that by auto
    qed
  next
    case False
    then have full: "sum_list (map t_cb (tags p)) = uint (ibMicFree (pghdr p))"
      using CbContiguous_normal [OF s(1) norm] s(3) by (simp add: free_ok_def)
    show thesis
      by (rule mid [of p]) (use False tags_okD [OF s(2)] lines_cover [OF s(1,2) full] in auto)
  qed
qed

subsection \<open>Reserved tags\<close>

lemma Expand_SetC_fields:
  "cbFree (pghdr (ExpandTagArray i p)) = cbFree (pghdr p)"
  "cbFree (pghdr (SetCTagReserved n p)) = cbFree (pghdr p)"
  by (simp_all add: ExpandTagArray_def SetCTagReserved_def SetITagMicFree_def SetITagState_def Let_def)

lemma IAddReservedTag_CbFree:
  assumes ok: "page_ok p" and norm: "FIsNormalSized p" and cb: "0 \<le> cb" "cb \<le> uint (CbFree p)"
    and fmt: "fResvTagFormat p" "CTagReserved p < CTAG_RESERVED_MAX"
  obtains q where "IAddReservedTag cb fill p = Some (CTagReserved p, q)"
    "CbFree q = CbFree p - word_of_int cb - 4"
proof -
  obtain r where r: "FreeSpace cb p = Some r"
    "r = p\<lparr>buf := buf r, pghdr := (pghdr p)\<lparr>ibMicFree := ibMicFree (pghdr r)\<rparr>\<rparr>"
    using FreeSpace_spec [OF ok norm, of cb] cb(2) unfolding CbFree_def by metis
  have c: "cbFree (pghdr r) = cbFree (pghdr p)" by (subst r(2)) simp
  have "word_of_int cbTAG = (4 :: u16)" by (simp add: cbTAG_def)
  then show thesis
    using that fmt unfolding IAddReservedTag_def Let_def r(1)
    by (simp add: CbFree_def Expand_SetC_fields c)
qed

subsection \<open>The properties\<close>

text \<open>
  Dehydration.  Shrinking the buffer of a well-formed page to any size that still holds
  the header, the used data and the tag array passes the enforces of
  \<open>CPAGE::DehydratePageUnadjusted_\<close>, keeps every line, moves the tag array to the new end and
  takes the difference from the free space.
\<close>
theorem dehydrate_keeps_lines:
  assumes "page_ok p" "checksum_only setsum"
    "CbPageHeader p + uint (ibMicFree (pghdr p)) + CbTagArray p \<le> n" "n \<le> cbBuffer p" "CbPageHeader p < n"
  shows "\<exists>q. DehydratePageUnadjusted setsum n p = Some q \<and> page_ok q \<and> lines q = lines p \<and>
    cbBuffer q = n \<and> cbPage q = cbPage p \<and> uint (CbFree q) = uint (CbFree p) - (cbBuffer p - n)"
  using Dehydrate_spec [OF assms] by metis

lemma dehydrate_keeps_lines_witness:
  "\<exists>q. DehydratePageUnadjusted (\<lambda>q. q\<lparr>pghdr := (pghdr q)\<lparr>checksum := 5\<rparr>\<rparr>) 52 sample_page = Some q \<and> page_ok q \<and>
    lines q = lines sample_page \<and> cbBuffer q = 52 \<and> cbPage q = cbPage sample_page \<and>
    uint (CbFree q) = uint (CbFree sample_page) - (cbBuffer sample_page - 52)"
proof (rule dehydrate_keeps_lines [OF sample_ok(1)])
  show "checksum_only (\<lambda>q. q\<lparr>pghdr := (pghdr q)\<lparr>checksum := 5\<rparr>\<rparr>)"
    unfolding checksum_only_def
  proof
    fix q :: CPAGE
    have "q\<lparr>pghdr := (pghdr q)\<lparr>checksum := 5\<rparr>\<rparr> =
        q\<lparr>pghdr := (pghdr q)\<lparr>checksum := 5, fFlags := fFlags (pghdr q)\<rparr>, pghdr2 := pghdr2 q\<rparr>"
      by simp
    then show "\<exists>c fl h. q\<lparr>pghdr := (pghdr q)\<lparr>checksum := 5\<rparr>\<rparr> =
        q\<lparr>pghdr := (pghdr q)\<lparr>checksum := c, fFlags := fl\<rparr>, pghdr2 := h\<rparr>" by blast
  qed
qed code_simp+

text \<open>
  dehydration and rehydration.  A normal-sized page that is shrunk and grown again is
  the same page to its users: normal-sized and well formed, with the same lines and the same
  free space.
\<close>
theorem rehydrate_dehydrated:
  assumes "page_ok p" "FIsNormalSized p" "checksum_only setsum"
    "CbPageHeader p + uint (ibMicFree (pghdr p)) + CbTagArray p \<le> n" "n < cbBuffer p" "CbPageHeader p < n"
    "cbPage p \<le> cbPageMax"
  shows "\<exists>r q. DehydratePageUnadjusted setsum n p = Some r \<and> RehydratePage setsum cbPageMax r = Some q \<and>
    page_ok q \<and> FIsNormalSized q \<and> lines q = lines p \<and> data_lines q = data_lines p \<and> CbFree q = CbFree p"
proof -
  obtain r where r: "DehydratePageUnadjusted setsum n p = Some r" "page_ok r" "lines r = lines p"
    "cbBuffer r = n" "cbPage r = cbPage p" "CTagReserved r = CTagReserved p"
    "uint (CbFree r) = uint (CbFree p) - (cbBuffer p - n)"
    using Dehydrate_spec [OF assms(1,3,4)] assms(5,6) by (metis order_less_imp_le)
  have "cbBuffer r < cbPage r" "cbPage r \<le> cbPageMax"
    using assms(2,5,7) r by (simp_all add: FIsNormalSized_def)
  from Rehydrate_spec [OF r(2) assms(3) this]
  obtain q where q: "RehydratePage setsum cbPageMax r = Some q" "page_ok q" "FIsNormalSized q" "lines q = lines r"
    "CTagReserved q = CTagReserved r" "uint (CbFree q) = uint (CbFree r) + (cbPage r - cbBuffer r)"
    by metis
  have "uint (CbFree q) = uint (CbFree p)"
    using q(6) r assms(2) by (simp add: FIsNormalSized_def)
  then have "CbFree q = CbFree p" by (simp add: word_uint_eq_iff)
  with q r show ?thesis by (auto simp: data_lines_def)
qed

lemma rehydrate_dehydrated_witness:
  "\<exists>r q. DehydratePageUnadjusted (\<lambda>q. q) 52 sample_page = Some r \<and> RehydratePage (\<lambda>q. q) 64 r = Some q \<and>
    page_ok q \<and> FIsNormalSized q \<and> lines q = lines sample_page \<and>
    data_lines q = data_lines sample_page \<and> CbFree q = CbFree sample_page"
proof (rule rehydrate_dehydrated [OF sample_ok])
  show "checksum_only (\<lambda>q. q)"
    unfolding checksum_only_def
  proof
    fix q :: CPAGE
    have "q = q\<lparr>pghdr := (pghdr q)\<lparr>checksum := checksum (pghdr q), fFlags := fFlags (pghdr q)\<rparr>, pghdr2 := pghdr2 q\<rparr>"
      by simp
    then show "\<exists>c fl h. q = q\<lparr>pghdr := (pghdr q)\<lparr>checksum := c, fFlags := fl\<rparr>, pghdr2 := h\<rparr>" by blast
  qed
qed code_simp+

text \<open>
  scrubbing.  After \<open>CPAGE::OverwriteUnusedSpace\<close> every byte between the header and the
  tag array that is in no line holds the pattern, so that nothing deleted can be read from the page,
  while the lines, the invariant and the logical checksum are what they were.
\<close>
theorem overwrite_unused_space:
  assumes "page_ok p" "FIsNormalSized p"
  shows "\<exists>q. OverwriteUnusedSpace ch p = Some q \<and> page_ok q \<and> lines q = lines p \<and>
    LoggedDataChecksum q = LoggedDataChecksum p \<and>
    (\<forall>i. CbPageHeader p \<le> i \<and> i < cbBuffer p - CbTagArray p \<and>
      (\<forall>k. int k < ITagMicFree p \<longrightarrow> \<not> in_line p k i) \<longrightarrow> buf q i = ch)"
proof (rule Overwrite_spec [OF assms, of ch])
  fix q
  assume q: "OverwriteUnusedSpace ch p = Some q" "page_ok q" "lines q = lines p"
    "LoggedDataChecksum q = LoggedDataChecksum p"
    "\<And>i. PbFromIb p 0 \<le> i \<Longrightarrow> i < cbBuffer p - CbTagArray p \<Longrightarrow>
      (\<And>k. int k < ITagMicFree p \<Longrightarrow> \<not> in_line p k i) \<Longrightarrow> buf q i = ch"
  then show ?thesis by (intro exI [of _ q]) (simp add: PbFromIb_def)
qed

lemma overwrite_unused_space_witness:
  "\<exists>q. OverwriteUnusedSpace 0x7a sample_page = Some q \<and> lines q = lines sample_page \<and> buf q 45 = 0x7a"
proof -
  have n: "ITagMicFree sample_page = 2" "CbPageHeader sample_page \<le> 45" "45 < cbBuffer sample_page - CbTagArray sample_page"
    by code_simp+
  have "\<not> in_line sample_page 0 45" "\<not> in_line sample_page 1 45" by code_simp+
  note * = this
  have "\<not> in_line sample_page k 45" if "int k < ITagMicFree sample_page" for k
  proof -
    have "k = 0 \<or> k = 1" using that n(1) by linarith
    with * show ?thesis by blast
  qed
  with overwrite_unused_space [OF sample_ok, of "0x7a"] n(2,3) show ?thesis by blast
qed

text \<open>
  C22: The space of a reserved tag.  \<open>CPAGE::IAddReservedTag\<close> asks \<open>FreeSpace_\<close> for the bytes of
  the line only, not for the tag: when the page has room for the bytes but not for the tag,
  it goes on, the free-space counter wraps around below zero, and the page is no longer
  well formed.
\<close>
theorem reserved_tag_underflow:
  assumes "page_ok p" "FIsNormalSized p" "fResvTagFormat p" "CTagReserved p < CTAG_RESERVED_MAX"
    "0 \<le> cb" "cb \<le> uint (CbFree p)" "uint (CbFree p) < cb + 4"
  shows "\<exists>q. IAddReservedTag cb fill p = Some (CTagReserved p, q) \<and>
    uint (CbFree q) = 65536 + uint (CbFree p) - cb - 4"
proof -
  obtain q where q: "IAddReservedTag cb fill p = Some (CTagReserved p, q)"
    "CbFree q = CbFree p - word_of_int cb - 4"
    using IAddReservedTag_CbFree [OF assms(1,2,5,6,3,4)] by metis
  have l: "cb < 65536" using assms(6) uint16_less [of "CbFree p"] by linarith
  let ?d = "CbFree p - word_of_int cb"
  have u: "uint (word_of_int cb :: u16) = cb" using l assms(5) by (intro uint16_of_int)
  then have d: "uint ?d = uint (CbFree p) - cb" using assms(6) by (subst uint16_diff) simp_all
  have "uint (CbFree q) = (uint ?d - 4) mod 65536"
    unfolding q(2) by (subst uint_word_ariths(2)) simp
  also have "\<dots> = (uint ?d - 4 + 65536) mod 65536" by (rule mod_add_self2 [symmetric])
  also have "\<dots> = uint ?d - 4 + 65536" using d assms(6,7) by (intro mod_pos_pos_trivial) linarith+
  finally show ?thesis using q(1) d by simp
qed

lemma reserved_tag_underflow_witness:
  "\<exists>q. IAddReservedTag 12 0 (sample_page\<lparr>fResvTagFormat := True\<rparr>) =
      Some (CTagReserved (sample_page\<lparr>fResvTagFormat := True\<rparr>), q) \<and>
    uint (CbFree q) = 65536 + uint (CbFree (sample_page\<lparr>fResvTagFormat := True\<rparr>)) - 12 - 4"
  by (rule reserved_tag_underflow) code_simp+

end
