(* ===== verification/Page_Checksum.thy ===== *)
theory Page_Checksum
  imports Ese_Prelude
begin

text \<open>
  The page checksums (\<open>src/checksum/checksum.cxx\<close> and \<open>checksum_amd64.cxx\<close>): the XOR checksum of the old
  format and the error-correcting checksum of the new one, each in the implementations the
  code selects between.  A block is the list of its little-endian 32-bit words \<open>pdw[0], pdw[1], \<dots>\<close>;
  a loop that advances by a fixed number of words is a recursion that takes as many off the list.
\<close>

unbundle bit_operations_syntax

subsection \<open>The old format\<close>

fun xor_dwords :: "u32 list \<Rightarrow> u32 \<Rightarrow> u32" where
  "xor_dwords (d0 # d1 # d2 # d3 # d4 # d5 # d6 # d7 # pdw) c =
     xor_dwords pdw (c XOR (d0 XOR d1 XOR d2 XOR d3 XOR d4 XOR d5 XOR d6 XOR d7))"
| "xor_dwords pdw c = c"

definition ChecksumOldFormatSlowly :: "u32 list \<Rightarrow> u32" where
  "ChecksumOldFormatSlowly pdw = xor_dwords pdw (0x89abcdef XOR pdw ! 0)"

definition ChecksumOldFormatSSE :: "u32 list \<Rightarrow> u32" where
  "ChecksumOldFormatSSE pdw = xor_dwords pdw (0x89abcdef XOR pdw ! 0)"

fun qwords :: "u32 list \<Rightarrow> u64 list" where
  "qwords (lo # hi # pdw) = (ucast lo OR push_bit 32 (ucast hi)) # qwords pdw"
| "qwords pdw = []"

fun xor_qwords :: "u64 list \<Rightarrow> u64 \<Rightarrow> u64" where
  "xor_qwords (q0 # q1 # q2 # q3 # pqw) c = xor_qwords pqw ((((c XOR q0) XOR q1) XOR q2) XOR q3)"
| "xor_qwords pqw c = c"

definition ChecksumOldFormat64Bit :: "u32 list \<Rightarrow> u32" where
  "ChecksumOldFormat64Bit pdw =
     (let pqw = qwords pdw;
          qwChecksum = pqw ! 0 AND 0x00000000FFFFFFFF;
          qwChecksum = xor_qwords pqw qwChecksum;
          qwUpper = drop_bit 32 qwChecksum;
          qwLower = qwChecksum AND 0x00000000FFFFFFFF;
          qwChecksum = qwUpper XOR qwLower
      in ucast qwChecksum XOR 0x89abcdef)"

text \<open>A 128-bit register as a word; the intrinsics used are XOR and the selection of a lane.\<close>

fun owords :: "u32 list \<Rightarrow> 128 word list" where
  "owords (d0 # d1 # d2 # d3 # pdw) =
     (ucast d0 OR push_bit 32 (ucast d1) OR push_bit 64 (ucast d2) OR push_bit 96 (ucast d3)) # owords pdw"
| "owords pdw = []"

fun xor_owords :: "128 word list \<Rightarrow> 128 word \<Rightarrow> 128 word" where
  "xor_owords (w0 # w1 # w2 # w3 # w4 # w5 # w6 # w7 # pow) c =
     (let t1 = w0 XOR w1; t2 = w2 XOR w3; t3 = w4 XOR w5; t4 = w6 XOR w7;
          t1 = t1 XOR t2;
          t3 = t3 XOR t4;
          c = c XOR t1;
          c = c XOR t3
      in xor_owords pow c)"
| "xor_owords pow c = c"

definition lane :: "nat \<Rightarrow> 128 word \<Rightarrow> u32" where
  "lane k w = ucast (drop_bit (32 * k) w)"

definition ChecksumOldFormatSSE2 :: "u32 list \<Rightarrow> u32" where
  "ChecksumOldFormatSSE2 pdw =
     (let owChecksum = xor_owords (owords pdw) 0;
          ulChecksum = 0x89abcdef XOR pdw ! 0
      in ulChecksum XOR (lane 0 owChecksum XOR lane 1 owChecksum XOR lane 2 owChecksum XOR lane 3 owChecksum))"

subsection \<open>The new format\<close>

definition MakeChecksumFromECCXORAndPgno :: "u32 \<Rightarrow> u32 \<Rightarrow> u32 \<Rightarrow> u64" where
  "MakeChecksumFromECCXORAndPgno eccChecksum xorChecksum pgno =
     (let low = ucast (xorChecksum XOR pgno);
          high = push_bit 32 (ucast eccChecksum)
      in high OR low)"

definition g_bParityLookupTable :: "int list" where
  "g_bParityLookupTable =
    [0, -1, -1, 0, -1, 0, 0, -1, -1, 0, 0, -1, 0, -1, -1, 0,
     -1, 0, 0, -1, 0, -1, -1, 0, 0, -1, -1, 0, -1, 0, 0, -1,
     -1, 0, 0, -1, 0, -1, -1, 0, 0, -1, -1, 0, -1, 0, 0, -1,
     0, -1, -1, 0, -1, 0, 0, -1, -1, 0, 0, -1, 0, -1, -1, 0,
     -1, 0, 0, -1, 0, -1, -1, 0, 0, -1, -1, 0, -1, 0, 0, -1,
     0, -1, -1, 0, -1, 0, 0, -1, -1, 0, 0, -1, 0, -1, -1, 0,
     0, -1, -1, 0, -1, 0, 0, -1, -1, 0, 0, -1, 0, -1, -1, 0,
     -1, 0, 0, -1, 0, -1, -1, 0, 0, -1, -1, 0, -1, 0, 0, -1,
     -1, 0, 0, -1, 0, -1, -1, 0, 0, -1, -1, 0, -1, 0, 0, -1,
     0, -1, -1, 0, -1, 0, 0, -1, -1, 0, 0, -1, 0, -1, -1, 0,
     0, -1, -1, 0, -1, 0, 0, -1, -1, 0, 0, -1, 0, -1, -1, 0,
     -1, 0, 0, -1, 0, -1, -1, 0, 0, -1, -1, 0, -1, 0, 0, -1,
     0, -1, -1, 0, -1, 0, 0, -1, -1, 0, 0, -1, 0, -1, -1, 0,
     -1, 0, 0, -1, 0, -1, -1, 0, 0, -1, -1, 0, -1, 0, 0, -1,
     -1, 0, 0, -1, 0, -1, -1, 0, 0, -1, -1, 0, -1, 0, 0, -1,
     0, -1, -1, 0, -1, 0, 0, -1, -1, 0, 0, -1, 0, -1, -1, 0]"

definition lParityMask :: "u32 \<Rightarrow> u32" where
  "lParityMask dw =
     (let dw1 = drop_bit 16 dw;
          dw2 = dw XOR dw1;
          dw3 = drop_bit 8 dw2;
          dw4 = dw2 XOR dw3
      in word_of_int (g_bParityLookupTable ! unat (dw4 AND 0xff)))"

definition DwXORChecksumBasic :: "u32 list \<Rightarrow> u32" where
  "DwXORChecksumBasic pdw = xor_dwords pdw (pdw ! 0 XOR pdw ! 1)"

text \<open>
  The loop state of the 32-bit implementations: the accumulated row parities \<open>p\<close>, the four
  accumulated columns and the double index.  \<open>EccRow\<close> is one half of the unrolled loop body.
\<close>

record ecc_state =
  e_p :: u32
  e_p0 :: u32
  e_p1 :: u32
  e_p2 :: u32
  e_p3 :: u32
  e_idxp :: u32

definition EccRow :: "u32 \<Rightarrow> u32 \<Rightarrow> u32 \<Rightarrow> u32 \<Rightarrow> ecc_state \<Rightarrow> ecc_state" where
  "EccRow pT0 pT1 pT2 pT3 s =
     \<lparr>e_p = e_p s XOR (e_idxp s AND lParityMask (pT0 XOR pT1 XOR pT2 XOR pT3)),
      e_p0 = e_p0 s XOR pT0, e_p1 = e_p1 s XOR pT1, e_p2 = e_p2 s XOR pT2, e_p3 = e_p3 s XOR pT3,
      e_idxp = e_idxp s + 0xff800080\<rparr>"

fun EccRows :: "u32 list \<Rightarrow> ecc_state \<Rightarrow> ecc_state" where
  "EccRows (pT0 # pT1 # pT2 # pT3 # pT4 # pT5 # pT6 # pT7 # pdw) s =
     EccRows pdw (EccRow pT4 pT5 pT6 pT7 (EccRow pT0 pT1 pT2 pT3 s))"
| "EccRows pdw s = s"

definition EccColumns :: "u32 \<Rightarrow> u32" where
  "EccColumns r2 =
     snd (fold (\<lambda>k (idxr, r).
           let mask = (if r2 AND push_bit k 1 \<noteq> 0 then - 1 else 0)
           in (idxr + 0xffff0001, r XOR (mask AND idxr)))
         [0..<32] (0xffff0000, 0))"

text \<open>With \<open>fHeaderBlock\<close> the loop is entered behind the first two words, which count as zero.\<close>

definition ecc_words :: "bool \<Rightarrow> u32 list \<Rightarrow> u32 list" where
  "ecc_words fHeaderBlock pdw = (if fHeaderBlock then 0 # 0 # drop 2 pdw else pdw)"

definition EccReduce :: "u32 \<Rightarrow> ecc_state \<Rightarrow> u32 \<times> u32" where
  "EccReduce cb s =
     (let p = e_p s;
          p = p OR (0x00400000 AND lParityMask (e_p0 s XOR e_p1 s));
          p = p OR (0x00000040 AND lParityMask (e_p2 s XOR e_p3 s));
          r0 = e_p0 s XOR e_p2 s;
          r1 = e_p1 s XOR e_p3 s;
          p = p OR (0x00200000 AND lParityMask r0);
          p = p OR (0x00000020 AND lParityMask r1);
          r2 = r0 XOR r1;
          r = EccColumns r2;
          mask = push_bit 19 cb - 1;
          ecc = (p AND 0xffe0ffe0 AND mask) OR (r AND 0x001f001f)
      in (ecc, r2))"

definition ecc_init :: ecc_state where
  "ecc_init = \<lparr>e_p = 0, e_p0 = 0, e_p1 = 0, e_p2 = 0, e_p3 = 0, e_idxp = 0xff800000\<rparr>"

definition ChecksumNewFormatSlowly :: "u32 list \<Rightarrow> u32 \<Rightarrow> bool \<Rightarrow> u64" where
  "ChecksumNewFormatSlowly pdw pgno fHeaderBlock =
     (case EccReduce (of_nat (4 * length pdw)) (EccRows (ecc_words fHeaderBlock pdw) ecc_init) of
        (ecc, r2) \<Rightarrow> MakeChecksumFromECCXORAndPgno ecc r2 pgno)"

definition ChecksumNewFormatSSE :: "u32 list \<Rightarrow> u32 \<Rightarrow> bool \<Rightarrow> u64" where
  "ChecksumNewFormatSSE pdw pgno fHeaderBlock =
     (case EccReduce (of_nat (4 * length pdw)) (EccRows (ecc_words fHeaderBlock pdw) ecc_init) of
        (ecc, r2) \<Rightarrow> MakeChecksumFromECCXORAndPgno ecc r2 pgno)"

definition ChecksumNewFormatBasic :: "u32 list \<Rightarrow> u32 \<Rightarrow> bool \<Rightarrow> u64" where
  "ChecksumNewFormatBasic pdw pgno fHeaderBlock =
     (case EccReduce (of_nat (4 * length pdw)) (EccRows (ecc_words fHeaderBlock pdw) ecc_init) of
        (ecc, _) \<Rightarrow> MakeChecksumFromECCXORAndPgno ecc (DwXORChecksumBasic pdw) pgno)"

text \<open>The 64-bit implementation works on rows of 32 bits.\<close>

definition EccRowLoop :: "nat \<Rightarrow> u32 list \<Rightarrow> u32 \<times> u32 \<times> u32" where
  "EccRowLoop iRowFirst rgdwRow =
     fold (\<lambda>iRow (dwColumnParity, p, q).
           let dwRow = rgdwRow ! iRow;
               dwColumnParity = dwColumnParity XOR dwRow;
               maskRow = lParityMask dwRow
           in (dwColumnParity, p XOR (maskRow AND of_nat iRow), q XOR (maskRow AND NOT (of_nat iRow))))
         [iRowFirst..<length rgdwRow] (0, 0, 0)"

definition EccColumnLoop :: "u32 \<Rightarrow> u32 \<times> u32" where
  "EccColumnLoop dwColumnParity =
     fold (\<lambda>iColumn (r, s).
           let maskColumn = (if dwColumnParity AND push_bit iColumn 1 \<noteq> 0 then - 1 else 0)
           in (r XOR (maskColumn AND of_nat iColumn), s XOR (maskColumn AND NOT (of_nat iColumn))))
         [0..<32] (0, 0)"

definition ChecksumNewFormat64Bit :: "u32 list \<Rightarrow> u32 \<Rightarrow> bool \<Rightarrow> u64" where
  "ChecksumNewFormat64Bit rgdwRow pgno fHeaderBlock =
     (let cColumn = 32 :: u32;
          cRow = of_nat (length rgdwRow) :: u32
      in case EccRowLoop (if fHeaderBlock then 2 else 0) rgdwRow of (dwColumnParity, p, q) \<Rightarrow>
         case EccColumnLoop dwColumnParity of (r, s) \<Rightarrow>
           let ulEcc = push_bit 21 (q AND (cRow - 1)) OR push_bit 16 (s AND (cColumn - 1)) OR
                       push_bit 5 (p AND (cRow - 1)) OR push_bit 0 (r AND (cColumn - 1)) OR 0
           in MakeChecksumFromECCXORAndPgno ulEcc dwColumnParity pgno)"

subsection \<open>Using the checksum\<close>

definition DwECCChecksumFromXEChecksum :: "u64 \<Rightarrow> u32" where
  "DwECCChecksumFromXEChecksum c = ucast (drop_bit 32 c)"

definition DwXORChecksumFromXEChecksum :: "u64 \<Rightarrow> u32" where
  "DwXORChecksumFromXEChecksum c = ucast (c AND 0xffffffff)"

definition CbitSet :: "u32 \<Rightarrow> nat" where
  "CbitSet dw = fold (\<lambda>ibit cbit. if dw AND push_bit ibit 1 \<noteq> 0 then cbit + 1 else cbit) [0..<32] 0"

definition FECCErrorIsCorrectable_dw :: "u32 \<Rightarrow> u32 \<Rightarrow> u32 \<Rightarrow> bool" where
  "FECCErrorIsCorrectable_dw cb dwExpected dwActual =
     (let dwEcc = dwActual XOR dwExpected;
          ulMask = push_bit 3 cb - 1;
          ulX = (drop_bit 16 dwEcc XOR dwEcc) AND ulMask
      in ulMask = ulX)"

definition FECCErrorIsCorrectable :: "u32 \<Rightarrow> u64 \<Rightarrow> u64 \<Rightarrow> bool" where
  "FECCErrorIsCorrectable cb xeExpected xeActual =
     (let dwExpected = DwECCChecksumFromXEChecksum xeExpected;
          dwActual = DwECCChecksumFromXEChecksum xeActual
      in FECCErrorIsCorrectable_dw cb dwExpected dwActual \<and>
         CbitSet (DwXORChecksumFromXEChecksum xeActual XOR DwXORChecksumFromXEChecksum xeExpected) = 1)"

definition ulMax :: u32 where "ulMax = 0xffffffff"

definition IbitCorrupted_dw :: "u32 \<Rightarrow> u32 \<Rightarrow> u32 \<Rightarrow> u32" where
  "IbitCorrupted_dw cb dwExpected dwActual =
     (let dwEcc = dwActual XOR dwExpected
      in if dwEcc = 0 then ulMax
         else let ibitCorrupted = dwEcc AND 0xffff;
                  ibCorrupted = ibitCorrupted div 8
              in if ibCorrupted \<ge> cb then ulMax else ibitCorrupted)"

definition IbitCorrupted :: "u32 \<Rightarrow> u64 \<Rightarrow> u64 \<Rightarrow> u32" where
  "IbitCorrupted cb xeExpected xeActual =
     IbitCorrupted_dw cb (DwECCChecksumFromXEChecksum xeExpected) (DwECCChecksumFromXEChecksum xeActual)"

end
