(* ===== verification/Page_Ecc.thy ===== *)
theory Page_Ecc
  imports Page_Checksum
begin

text \<open>
  All implementations of the error-correcting checksum are one sum over GF(2): every set bit
  of the block contributes its index and the complement of its index.  The implementations
  agree, a single flipped bit is found and corrected, and two flipped bits are noticed and
  never taken for one.
\<close>

subsection \<open>Sums of words under XOR\<close>

primrec xsum :: "(nat \<Rightarrow> 'a::len word) \<Rightarrow> nat \<Rightarrow> 'a word" where
  "xsum f 0 = 0"
| "xsum f (Suc n) = xsum f n XOR f n"

definition gate :: "bool \<Rightarrow> 'a::len word \<Rightarrow> 'a word" where
  "gate b x = (if b then x else 0)"

primrec par :: "nat \<Rightarrow> 'a::len word \<Rightarrow> bool" where
  "par 0 w = False"
| "par (Suc n) w = (par n w \<noteq> bit w n)"

named_theorems gf2 "distribution over XOR sums"

lemma gate_simps [simp]: "gate True x = x" "gate False x = 0" "gate b 0 = 0"
  by (simp_all add: gate_def)

lemma gate_xor: "gate (a \<noteq> b) x = gate a x XOR gate b x" "gate (a = (\<not> b)) x = gate a x XOR gate b x"
  by (cases a; cases b; simp)+

lemma gate_and [gf2]: "gate b x AND m = gate b (x AND m)" "m AND gate b x = gate b (m AND x)"
  by (cases b, simp_all)+

lemma gate_push [gf2]: "push_bit n (gate b x) = gate b (push_bit n x)"
  by (cases b) simp_all

lemma gate_xor_dist: "gate b (x XOR y) = gate b x XOR gate b y"
  by (cases b) simp_all

lemma mask_gate: "(if b then - 1 else 0) AND x = gate b x" "x AND (if b then - 1 else 0) = gate b x"
  by (simp_all add: gate_def)

lemma xor_and [gf2]: "(a XOR b) AND m = (a AND m) XOR (b AND m :: 'a::len word)"
  by (simp add: bit.conj_xor_distrib2)

lemma and_xor [gf2]: "m AND (a XOR b) = (m AND a) XOR (m AND b :: 'a::len word)"
  by (simp add: bit.conj_xor_distrib)

lemma push_xor [gf2]: "push_bit n (a XOR b) = push_bit n a XOR push_bit n (b :: 'a::len word)"
  by (simp add: bit_eq_iff bit_simps)

lemma xsum_and [gf2]: "xsum f n AND m = xsum (\<lambda>k. f k AND m) n"
  by (induction n) (simp_all add: xor_and)

lemma xsum_push [gf2]: "push_bit m (xsum f n) = xsum (\<lambda>k. push_bit m (f k)) n"
  by (induction n) (simp_all add: push_xor)

lemma xsum_xor: "xsum (\<lambda>k. f k XOR g k) n = xsum f n XOR xsum g n"
  by (induction n) (simp_all add: ac_simps)

lemma xsum_cong: "(\<And>k. k < n \<Longrightarrow> f k = g k) \<Longrightarrow> xsum f n = xsum g n"
  by (induction n) simp_all

lemma xsum_zero: "(\<And>i. i < n \<Longrightarrow> f i = 0) \<Longrightarrow> xsum f n = 0"
  by (induction n) simp_all

lemma xsum_0 [simp]: "xsum (\<lambda>k. 0) n = 0"
  by (induction n) simp_all

lemma xsum_gate: "xsum (\<lambda>c. gate (bit w c) x) n = gate (par n w) x"
  by (induction n) (simp_all add: gate_xor)

lemma gate_xsum: "gate b (xsum f n) = xsum (\<lambda>k. gate b (f k)) n"
  by (cases b) simp_all

lemma par_xor: "par n (a XOR b) = (par n a \<noteq> par n b)"
  by (induction n) (auto simp: bit_xor_iff)

lemma par_0 [simp]: "par n 0 = False"
  by (induction n) simp_all

lemma xsum_4: "xsum f (4 * n) = xsum (\<lambda>j. f (4 * j) XOR f (4 * j + 1) XOR f (4 * j + 2) XOR f (4 * j + 3)) n"
proof (induction n)
  case (Suc n)
  have "4 * Suc n = Suc (Suc (Suc (Suc (4 * n))))" by simp
  then show ?case using Suc by (simp only: xsum.simps) (simp add: ac_simps numeral_eq_Suc)
qed simp

subsection \<open>The parity mask\<close>

lemma par_add: "par (m + n) w = (par m w \<noteq> par n (drop_bit m w))"
  by (induction n) (auto simp: bit_drop_bit_eq)

text \<open>The lookup table, checked entry by entry against the parity of the index.\<close>

primrec int_par :: "nat \<Rightarrow> int \<Rightarrow> bool" where
  "int_par 0 k = False"
| "int_par (Suc n) k = (odd k \<noteq> int_par n (k div 2))"

lemma par_int: "par n (w :: u32) = int_par n (uint w)"
proof (induction n arbitrary: w)
  case (Suc n)
  have "par (Suc n) w = (bit w 0 \<noteq> par n (drop_bit 1 w))" using par_add [of 1 n w] by simp
  moreover have "uint (drop_bit 1 w) = uint w div 2" by (simp add: drop_bit_eq_div uint_div)
  moreover have "bit w 0 = odd (uint w)" using bit_uint_iff [of w 0] by (simp add: bit_0)
  ultimately show ?case using Suc [of "drop_bit 1 w"] by simp
qed simp

lemma table_entries: "g_bParityLookupTable = map (\<lambda>k. if int_par 8 k then - 1 else 0) [0..255]"
  by code_simp

lemma table_parity:
  fixes b :: u32
  assumes "uint b < 256"
  shows "word_of_int (g_bParityLookupTable ! unat b) = gate (par 8 b) (- 1 :: u32)"
proof -
  have u: "unat b < 256" unfolding unat_eq_nat_uint by (subst nat_less_iff) (simp_all add: assms)
  have "g_bParityLookupTable ! unat b = (if int_par 8 (int (unat b)) then - 1 else 0)"
  proof -
    have "[0..255] ! unat b = 0 + int (unat b)" by (rule nth_upto) (use u in linarith)
    then show ?thesis unfolding table_entries using u by (subst nth_map) simp_all
  qed
  then show ?thesis by (simp add: par_int gate_def)
qed

lemma par_and_mask: "n \<le> m \<Longrightarrow> par n (w AND mask m) = par n w"
  by (induction n) (auto simp: bit_simps dest: bit_imp_le_length)

lemma lParityMask_eq: "lParityMask w = gate (par 32 w) (- 1)"
proof -
  let ?d2 = "w XOR drop_bit 16 w"
  let ?d4 = "?d2 XOR drop_bit 8 ?d2"
  have m: "(0xff :: u32) = mask 8" by (simp add: mask_eq_exp_minus_1)
  have "uint (?d4 AND mask 8) < 256" using uint_and_mask [of ?d4 8] by simp
  then have "lParityMask w = gate (par 8 (?d4 AND mask 8)) (- 1)"
    unfolding lParityMask_def Let_def m by (rule table_parity)
  also have "par 8 (?d4 AND mask 8) = par 8 ?d4" by (rule par_and_mask) simp
  also have "par 8 ?d4 = par 16 ?d2" using par_add [of 8 8 ?d2] by (simp add: par_xor)
  also have "par 16 ?d2 = par 32 w" using par_add [of 16 16 w] by (simp add: par_xor)
  finally show ?thesis .
qed

lemma and_lParityMask: "x AND lParityMask w = gate (par 32 w) x" "lParityMask w AND x = gate (par 32 w) x"
  by (simp_all add: lParityMask_eq gate_def)

subsection \<open>The reference: one contribution per set bit\<close>

definition colsum :: "(nat \<Rightarrow> u32) \<Rightarrow> u32 \<Rightarrow> u32" where
  "colsum K w = xsum (\<lambda>c. gate (bit w c) (K c)) 32"

definition row_code :: "nat \<Rightarrow> nat \<Rightarrow> u32" where
  "row_code k i = push_bit 21 (NOT (of_nat i) AND mask k) XOR push_bit 5 (of_nat i AND mask k)"

definition col_code :: "nat \<Rightarrow> u32" where
  "col_code c = push_bit 16 (NOT (of_nat c) AND 31) XOR (of_nat c AND 31)"

text \<open>\<open>2 ^ k\<close> is the number of 32-bit words of the block.\<close>

definition ecc_ref :: "nat \<Rightarrow> (nat \<Rightarrow> u32) \<Rightarrow> u32" where
  "ecc_ref k d = xsum (\<lambda>i. gate (par 32 (d i)) (row_code k i) XOR colsum col_code (d i)) (2 ^ k)"

definition checksum_ref :: "nat \<Rightarrow> u32 list \<Rightarrow> u32 \<Rightarrow> bool \<Rightarrow> u64" where
  "checksum_ref k pdw pgno h =
     (let d = (\<lambda>i. ecc_words h pdw ! i)
      in MakeChecksumFromECCXORAndPgno (ecc_ref k d) (xsum d (2 ^ k)) pgno)"

lemma colsum_0 [simp]: "colsum K 0 = 0"
  by (simp add: colsum_def)

lemma colsum_xor: "colsum K (a XOR b) = colsum K a XOR colsum K b"
proof -
  have "colsum K (a XOR b) = xsum (\<lambda>c. gate (bit a c) (K c) XOR gate (bit b c) (K c)) 32"
    unfolding colsum_def by (intro xsum_cong) (simp add: bit_xor_iff gate_xor)
  then show ?thesis by (simp add: colsum_def xsum_xor)
qed

lemma colsum_xsum: "colsum K (xsum d n) = xsum (\<lambda>i. colsum K (d i)) n"
  by (induction n) (simp_all add: colsum_xor)

lemma colsum_and: "colsum K w AND m = colsum (\<lambda>c. K c AND m) w"
  by (simp add: colsum_def gf2)

lemma colsum_push: "push_bit m (colsum K w) = colsum (\<lambda>c. push_bit m (K c)) w"
  by (simp add: colsum_def gf2)

lemma colsum_add: "colsum K w XOR colsum L w = colsum (\<lambda>c. K c XOR L c) w"
  by (simp add: colsum_def gate_xor_dist flip: xsum_xor)

lemma colsum_cong: "(\<And>c. c < 32 \<Longrightarrow> K c = L c) \<Longrightarrow> colsum K w = colsum L w"
  unfolding colsum_def by (intro xsum_cong) simp

lemma par_xsum: "gate (par 32 (xsum d n)) x = xsum (\<lambda>i. gate (par 32 (d i)) x) n"
  by (induction n) (simp_all add: par_xor gate_xor)

subsection \<open>The 64-bit implementation\<close>

lemma fold3_xsum:
  "fold (\<lambda>i (a, p, q). (a XOR f i, p XOR g i, q XOR h i)) [m..<n] (0, 0, 0) =
    (xsum (\<lambda>i. if m \<le> i then f i else 0) n, xsum (\<lambda>i. if m \<le> i then g i else 0) n,
     xsum (\<lambda>i. if m \<le> i then h i else (0 :: u32)) n)"
  by (induction n) (auto simp: xsum_zero)

lemma fold2_xsum:
  "fold (\<lambda>i (p, q). (p XOR g i, q XOR h i)) [0..<n] (0, 0) = (xsum g n, xsum h n :: u32)"
  by (induction n) simp_all

lemma bit_and_push: "(w AND push_bit c 1 \<noteq> 0) = bit w c"
  by (simp add: bit_iff_and_push_bit_not_eq_0)

lemma EccColumnLoop_eq: "EccColumnLoop w = (colsum of_nat w, colsum (\<lambda>c. NOT (of_nat c)) w)"
  unfolding EccColumnLoop_def Let_def bit_and_push mask_gate fold2_xsum colsum_def by simp

lemma nth_ecc_words:
  "i < length pdw \<Longrightarrow> 2 \<le> length pdw \<Longrightarrow> ecc_words h pdw ! i = (if (if h then 2 else 0) \<le> i then pdw ! i else 0)"
  by (auto simp: ecc_words_def nth_Cons split: nat.split)

lemma EccRowLoop_eq:
  assumes "2 \<le> length pdw"
  shows "EccRowLoop (if h then 2 else 0) pdw =
    (xsum (\<lambda>i. ecc_words h pdw ! i) (length pdw),
     xsum (\<lambda>i. gate (par 32 (ecc_words h pdw ! i)) (of_nat i)) (length pdw),
     xsum (\<lambda>i. gate (par 32 (ecc_words h pdw ! i)) (NOT (of_nat i))) (length pdw))"
  unfolding EccRowLoop_def Let_def and_lParityMask fold3_xsum prod.inject
  by (intro conjI xsum_cong) (simp_all add: nth_ecc_words assms)

lemma join_fields:
  assumes "k \<le> 11"
  shows "push_bit 21 (q AND mask k) OR push_bit 16 (s AND 31) OR push_bit 5 (p AND mask k) OR (r AND 31) =
    (push_bit 21 (q AND mask k) XOR push_bit 5 (p AND mask k)) XOR (push_bit 16 (s AND 31) XOR (r AND (31 :: u32)))"
proof -
  have m: "(31 :: u32) = mask 5" by (simp add: mask_eq_exp_minus_1)
  show ?thesis unfolding m
  proof (rule bit_word_eqI)
    fix n :: nat
    consider "21 \<le> n" "\<not> n - 16 < 5" "\<not> n - 5 < k" | "16 \<le> n" "n < 21" "\<not> n - 5 < k"
      | "5 \<le> n" "n < 16" | "n < 5" using assms by arith
    then show "bit (push_bit 21 (q AND mask k) OR push_bit 16 (s AND mask 5) OR push_bit 5 (p AND mask k) OR
        r AND mask 5) n = bit ((push_bit 21 (q AND mask k) XOR push_bit 5 (p AND mask k)) XOR
        push_bit 16 (s AND mask 5) XOR (r AND mask 5)) n"
      by cases (use assms in \<open>auto simp: bit_simps\<close>)
  qed
qed

lemma cRow_mask: "k < 32 \<Longrightarrow> of_nat (2 ^ k) - 1 = (mask k :: u32)"
  by (simp add: mask_eq_exp_minus_1)

lemma ChecksumNewFormat64Bit_eq:
  assumes n: "length pdw = 2 ^ k" and k: "1 \<le> k" "k \<le> 11"
  shows "ChecksumNewFormat64Bit pdw pgno h =
    checksum_ref k pdw pgno h"
proof -
  define d where "d = (\<lambda>i. ecc_words h pdw ! i)"
  have l: "2 \<le> length pdw" using k power_increasing [of 1 k "2 :: nat"] by (simp add: n)
  let ?c = "xsum d (2 ^ k)"
  have row: "push_bit 21 (xsum (\<lambda>i. gate (par 32 (d i)) (NOT (of_nat i))) (2 ^ k) AND mask k) XOR
      push_bit 5 (xsum (\<lambda>i. gate (par 32 (d i)) (of_nat i)) (2 ^ k) AND mask k) =
      xsum (\<lambda>i. gate (par 32 (d i)) (row_code k i)) (2 ^ k)"
    unfolding row_code_def gate_xor_dist xsum_xor by (simp only: xsum_and xsum_push gate_and gate_push)
  have col: "push_bit 16 (colsum (\<lambda>c. NOT (of_nat c)) ?c AND 31) XOR (colsum of_nat ?c AND 31) = colsum col_code ?c"
    unfolding colsum_and colsum_push colsum_add col_code_def [abs_def] by (rule refl)
  have "ecc_ref k d = xsum (\<lambda>i. gate (par 32 (d i)) (row_code k i)) (2 ^ k) XOR colsum col_code ?c"
    by (simp add: ecc_ref_def xsum_xor colsum_xsum)
  note E = this [folded row col]
  have R: "EccRowLoop (if h then 2 else 0) pdw = (?c, xsum (\<lambda>i. gate (par 32 (d i)) (of_nat i)) (2 ^ k),
      xsum (\<lambda>i. gate (par 32 (d i)) (NOT (of_nat i))) (2 ^ k))"
    using EccRowLoop_eq [OF l, of h] by (simp add: n d_def)
  have c: "of_nat (2 ^ k) - 1 = (mask k :: u32)" "(32 :: u32) - 1 = 31" by (simp_all add: mask_eq_exp_minus_1)
  have z: "push_bit 0 x = x" "x OR 0 = x" for x :: u32 by simp_all
  show ?thesis
    unfolding ChecksumNewFormat64Bit_def Let_def R EccColumnLoop_eq prod.case n c z join_fields [OF k(2)]
      checksum_ref_def d_def [symmetric] E by (rule refl)
qed

subsection \<open>The 32-bit implementations\<close>

lemma xsum_front: "xsum f (Suc n) = f 0 XOR xsum (\<lambda>j. f (Suc j)) n"
  by (induction n) (simp_all add: ac_simps)

definition row_idx :: "u32 \<Rightarrow> nat \<Rightarrow> u32" where
  "row_idx idx j = idx + of_nat j * 0xff800080"

definition wd :: "u32 list \<Rightarrow> nat \<Rightarrow> nat \<Rightarrow> u32" where
  "wd ws c j = ws ! (4 * j + c)"

definition row_par :: "u32 list \<Rightarrow> nat \<Rightarrow> u32" where
  "row_par ws j = wd ws 0 j XOR wd ws 1 j XOR wd ws 2 j XOR wd ws 3 j"

lemma EccRows_spec:
  assumes "length ws = 8 * m"
  shows "EccRows ws s =
    \<lparr>e_p = e_p s XOR xsum (\<lambda>j. gate (par 32 (row_par ws j)) (row_idx (e_idxp s) j)) (2 * m),
     e_p0 = e_p0 s XOR xsum (wd ws 0) (2 * m), e_p1 = e_p1 s XOR xsum (wd ws 1) (2 * m),
     e_p2 = e_p2 s XOR xsum (wd ws 2) (2 * m), e_p3 = e_p3 s XOR xsum (wd ws 3) (2 * m),
     e_idxp = row_idx (e_idxp s) (2 * m)\<rparr>"
  using assms
proof (induction m arbitrary: ws s)
  case 0
  then show ?case by (simp add: row_idx_def)
next
  case (Suc m)
  define vs where "vs = drop 8 ws"
  have vs: "length vs = 8 * m" "\<And>i. vs ! i = ws ! (8 + i)" using Suc.prems by (simp_all add: vs_def)
  have w: "ws = [ws ! 0, ws ! 1, ws ! 2, ws ! 3, ws ! 4, ws ! 5, ws ! 6, ws ! 7] @ vs"
  proof -
    have c: "drop k ws = ws ! k # drop (Suc k) ws" if "k < 8" for k
      using that Suc.prems by (intro Cons_nth_drop_Suc [symmetric]) simp
    show ?thesis using c [of 0] c [of 1] c [of 2] c [of 3] c [of 4] c [of 5] c [of 6] c [of 7]
      by (simp add: vs_def flip: numeral_2_eq_2)
  qed
  let ?s = "EccRow (ws ! 4) (ws ! 5) (ws ! 6) (ws ! 7) (EccRow (ws ! 0) (ws ! 1) (ws ! 2) (ws ! 3) s)"
  have st: "EccRows ws s = EccRows vs ?s" by (subst w) simp
  have two: "2 * Suc m = Suc (Suc (2 * m))" by simp
  have sh: "wd vs c = (\<lambda>j. wd ws c (Suc (Suc j)))" for c
    by (rule ext) (simp add: wd_def vs(2) algebra_simps)
  have shp: "row_par vs j = row_par ws (Suc (Suc j))" for j by (simp add: row_par_def sh)
  have shi: "row_idx (e_idxp ?s) j = row_idx (e_idxp s) (Suc (Suc j))" for j
    by (simp add: row_idx_def EccRow_def algebra_simps)
  have f: "e_p ?s = e_p s XOR gate (par 32 (row_par ws 0)) (row_idx (e_idxp s) 0) XOR
      gate (par 32 (row_par ws (Suc 0))) (row_idx (e_idxp s) (Suc 0))"
    "e_p0 ?s = e_p0 s XOR wd ws 0 0 XOR wd ws 0 (Suc 0)" "e_p1 ?s = e_p1 s XOR wd ws 1 0 XOR wd ws 1 (Suc 0)"
    "e_p2 ?s = e_p2 s XOR wd ws 2 0 XOR wd ws 2 (Suc 0)" "e_p3 ?s = e_p3 s XOR wd ws 3 0 XOR wd ws 3 (Suc 0)"
    by (simp_all add: EccRow_def and_lParityMask row_par_def wd_def row_idx_def xor.assoc flip: numeral_2_eq_2)
  show ?case
    unfolding st Suc.IH [OF vs(1)] two xsum_front f shi shp by (simp add: sh xor.assoc)
qed

text \<open>The double index of a row, with the constants of the code, is the row code of its words.\<close>

lemma small_nat_bit: "j < 2 ^ n \<Longrightarrow> bit (j :: nat) i \<Longrightarrow> i < n"
  by (metis bit_take_bit_iff take_bit_nat_eq_self_iff)

lemma small_bit:
  assumes "j < 2 ^ n" "bit (of_nat j :: u32) i"
  shows "i < n"
proof -
  have "take_bit n j = j" using assms(1) by (simp add: take_bit_nat_eq_self_iff)
  then show ?thesis using assms(2) by (metis bit_of_nat_iff bit_take_bit_iff)
qed

lemma row_idx_bits:
  assumes "j < 512"
  shows "row_idx 0xff800000 j = push_bit 23 (NOT (of_nat j)) XOR push_bit 7 (of_nat j)"
proof -
  have z: "(4294967296 :: u32) = 0" by simp
  have e: "row_idx 0xff800000 j = push_bit 23 (NOT (of_nat j)) + push_bit 7 (of_nat j :: u32)"
    by (simp add: row_idx_def push_bit_eq_mult not_eq_complement algebra_simps z)
  have "bit (of_nat j :: u32) i \<Longrightarrow> i < 9" for i
    using small_bit [of j 9 i] assms by simp
  then have "push_bit 23 (NOT (of_nat j)) AND push_bit 7 (of_nat j :: u32) = 0"
    by (simp add: bit_eq_iff bit_simps) fastforce
  then show ?thesis unfolding e by (rule disjunctive_add_eq_xor)
qed

lemma bit_index:
  assumes "w < 4"
  shows "bit (4 * j + w :: nat) n = (if n = 0 then odd w else if n = 1 then 2 \<le> w else bit j (n - 2))"
proof -
  have w: "w = 0 \<or> w = 1 \<or> w = 2 \<or> w = 3" using assms by auto
  consider "n = 0" | "n = 1" | m where "n = Suc (Suc m)" by (metis One_nat_def not0_implies_Suc)
  then show ?thesis
  proof cases
    case 2
    have "(4 * j + w) div 2 = 2 * j + w div 2" by simp
    then show ?thesis using 2 w by (auto simp: bit_Suc bit_0)
  next
    case 3
    have "(4 * j + w) div 2 div 2 = j" using assms by simp
    then show ?thesis using 3 by (simp add: bit_Suc)
  qed (simp add: bit_0)
qed

lemma ecc_consts:
  "(0x00400000 :: u32) = push_bit 22 1" "(0x00000040 :: u32) = push_bit 6 1"
  "(0x00200000 :: u32) = push_bit 21 1" "(0x00000020 :: u32) = push_bit 5 1"
  "(0xffe0ffe0 :: u32) = push_bit 21 (mask 11) OR push_bit 5 (mask 11)"
  by (simp_all add: push_bit_eq_mult mask_eq_exp_minus_1)

definition word_code :: "nat \<Rightarrow> u32" where
  "word_code w = (if w < 2 then 0x00400000 else 0x00000040) XOR (if even w then 0x00200000 else 0x00000020)"

lemma bit_push_one: "n < 32 \<Longrightarrow> bit (push_bit m 1 :: u32) n = (n = m)"
  by (auto simp: bit_simps bit_1_iff)

lemma bit_const_mask: "bit (0xffe0ffe0 :: u32) n = (21 \<le> n \<and> n < 32 \<or> 5 \<le> n \<and> n < 16)"
  unfolding ecc_consts(5) by (simp only: bit_or_iff bit_push_bit_iff bit_mask_iff) auto

lemma bit_word_code:
  "n < 32 \<Longrightarrow> bit (word_code w) n = ((n = (if w < 2 then 22 else 6)) \<noteq> (n = (if even w then 21 else 5)))"
  by (cases "w < 2"; cases "even w")
    (simp_all only: word_code_def ecc_consts if_True if_False bit_xor_iff bit_push_one)

lemma bit_word_nat: "m < 32 \<Longrightarrow> bit (of_nat i :: u32) m = bit i m"
  by (simp add: Bit_Operations.bit_of_nat_iff)

lemma bit_row_code:
  assumes "n < 32"
  shows "bit (row_code k i) n =
    ((21 \<le> n \<and> \<not> bit i (n - 21) \<and> n - 21 < k) \<noteq> (5 \<le> n \<and> bit i (n - 5) \<and> n - 5 < k))"
proof -
  have "n - 21 < 32" "n - 5 < 32" using assms by linarith+
  then show ?thesis unfolding row_code_def bit_xor_iff using assms
    by (simp add: bit_push_bit_iff bit_not_iff bit_and_iff bit_mask_iff bit_word_nat) blast
qed

lemma row_word:
  assumes k: "3 \<le> k" "k \<le> 11" and i: "4 * j + w < 2 ^ k" "w < 4"
  shows "row_code k (4 * j + w) =
    (row_idx 0xff800000 j XOR word_code w) AND 0xffe0ffe0 AND mask (k + 21)"
proof (rule bit_word_eqI)
  fix n assume n': "n < LENGTH(32)"
  then have n: "n < 32" by simp
  let ?i = "4 * j + w"
  have "(2 :: nat) ^ k \<le> 2 ^ 11" using k(2) by (intro power_increasing) simp_all
  then have j: "j < 512" using i by simp
  have sj: "\<not> bit j m" if "9 \<le> m" for m using small_nat_bit [of j 9 m] j that by auto
  have si: "\<not> bit ?i m" if "k \<le> m" for m using small_nat_bit [OF i(1), of m] that by auto
  have L: "bit (row_code k ?i) n =
      ((21 \<le> n \<and> \<not> bit ?i (n - 21) \<and> n - 21 < k) \<noteq> (5 \<le> n \<and> bit ?i (n - 5) \<and> n - 5 < k))"
    by (rule bit_row_code [OF n])
  have R: "bit ((row_idx 0xff800000 j XOR word_code w) AND 0xffe0ffe0 AND mask (k + 21)) n =
      ((((23 \<le> n \<and> \<not> bit j (n - 23)) \<noteq> (7 \<le> n \<and> bit j (n - 7))) \<noteq> bit (word_code w) n) \<and>
       (21 \<le> n \<or> 5 \<le> n \<and> n < 16) \<and> n < k + 21)"
  proof -
    have "bit (row_idx 0xff800000 j) n = ((23 \<le> n \<and> \<not> bit j (n - 23)) \<noteq> (7 \<le> n \<and> bit j (n - 7)))"
      unfolding row_idx_bits [OF j] bit_xor_iff using n by (simp add: bit_push_bit_iff bit_not_iff bit_word_nat less_imp_diff_less)
    moreover have "bit (mask (k + 21) :: u32) n = (n < k + 21)" using n by (simp add: bit_mask_iff)
    ultimately show ?thesis unfolding bit_and_iff bit_const_mask bit_xor_iff using n by blast
  qed
  note B = bit_index [OF i(2), of j] and W = bit_word_code [OF n, of w]
  consider "23 \<le> n" | "n = 22" | "n = 21" | "16 \<le> n" "n < 21" | "7 \<le> n" "n < 16" | "n = 6" | "n = 5" | "n < 5"
    by linarith
  then show "bit (row_code k ?i) n =
      bit ((row_idx 0xff800000 j XOR word_code w) AND 0xffe0ffe0 AND mask (k + 21)) n"
    unfolding L R W
  proof cases
    case 1
    then have "\<not> bit ?i (n - 5)" "\<not> bit j (n - 7)" "n - 21 < k \<longleftrightarrow> n < k + 21" "bit ?i (n - 21) = bit j (n - 23)"
      using si [of "n - 5"] sj [of "n - 7"] k B [of "n - 21"] by auto
    with 1 show "((21 \<le> n \<and> \<not> bit ?i (n - 21) \<and> n - 21 < k) \<noteq> (5 \<le> n \<and> bit ?i (n - 5) \<and> n - 5 < k)) =
        ((((23 \<le> n \<and> \<not> bit j (n - 23)) \<noteq> (7 \<le> n \<and> bit j (n - 7))) \<noteq>
          ((n = (if w < 2 then 22 else 6)) \<noteq> (n = (if even w then 21 else 5)))) \<and>
         (21 \<le> n \<or> 5 \<le> n \<and> n < 16) \<and> n < k + 21)"
      by auto
  next
    case 5
    then have "n - 5 - 2 = n - 7" "bit ?i (n - 5) = bit j (n - 7)" using B [of "n - 5"] by auto
    moreover have "bit ?i (n - 5) \<Longrightarrow> n - 5 < k" using si [of "n - 5"] by (meson not_le)
    ultimately show "((21 \<le> n \<and> \<not> bit ?i (n - 21) \<and> n - 21 < k) \<noteq> (5 \<le> n \<and> bit ?i (n - 5) \<and> n - 5 < k)) =
        ((((23 \<le> n \<and> \<not> bit j (n - 23)) \<noteq> (7 \<le> n \<and> bit j (n - 7))) \<noteq>
          ((n = (if w < 2 then 22 else 6)) \<noteq> (n = (if even w then 21 else 5)))) \<and>
         (21 \<le> n \<or> 5 \<le> n \<and> n < 16) \<and> n < k + 21)"
      using 5 by auto
  qed (use B sj [of 14] sj [of 15] k in auto)
qed

lemma row_idx_clear:
  assumes "j < 512" "b < 7 \<or> 16 \<le> b" "b < 23"
  shows "\<not> bit (row_idx 0xff800000 j) b"
  unfolding row_idx_bits [OF assms(1)] bit_xor_iff using assms(2,3) small_nat_bit [of j 9 "b - 7"] assms(1)
  by (auto simp: bit_push_bit_iff bit_word_nat)

lemma xsum_bit: "(\<And>i. i < n \<Longrightarrow> \<not> bit (f i) b) \<Longrightarrow> \<not> bit (xsum f n) b"
  by (induction n) (auto simp: bit_xor_iff)

lemma bit_gate: "bit (gate c x) b = (c \<and> bit x b)"
  by (cases c) simp_all

lemma or_parity:
  "\<not> bit x b \<Longrightarrow> b < 32 \<Longrightarrow> x OR (push_bit b 1 AND lParityMask w) = x XOR gate (par 32 w) (push_bit b 1)"
  unfolding and_lParityMask
proof (cases "par 32 w")
  case True
  assume b: "\<not> bit x b"
  have "x OR push_bit b 1 = x XOR push_bit b 1"
  proof (rule bit_word_eqI)
    fix n assume "n < LENGTH(32)"
    then have "bit (push_bit b 1 :: u32) n = (n = b)" by (intro bit_push_one) simp
    then show "bit (x OR push_bit b 1) n = bit (x XOR push_bit b 1) n"
      unfolding bit_or_iff bit_xor_iff using b by blast
  qed
  then show "x OR gate (par 32 w) (push_bit b 1) = x XOR gate (par 32 w) (push_bit b 1)"
    unfolding gate_def using True by (simp only: if_True)
qed simp

lemma xor_cancel: "a XOR (a XOR b) = (b :: u32)"
  by (simp flip: xor.assoc)

lemma row_merge:
  "gate (par 32 (t0 XOR t1 XOR t2 XOR t3)) x XOR gate (par 32 (t0 XOR t1)) (push_bit 22 1) XOR
    gate (par 32 (t2 XOR t3)) (push_bit 6 1) XOR gate (par 32 (t0 XOR t2)) (push_bit 21 1) XOR
    gate (par 32 (t1 XOR t3)) (push_bit 5 1) =
    gate (par 32 t0) (x XOR word_code 0) XOR gate (par 32 t1) (x XOR word_code 1) XOR
    gate (par 32 t2) (x XOR word_code 2) XOR gate (par 32 t3) (x XOR word_code 3)"
  unfolding par_xor word_code_def
  by (cases "par 32 t0"; cases "par 32 t1"; cases "par 32 t2"; cases "par 32 t3")
    (simp_all add: ac_simps xor_cancel)

lemma EccColumns_eq: "EccColumns w AND 0x001f001f = colsum col_code w"
proof -
  have f: "fold (\<lambda>k (idxr, r). (idxr + 0xffff0001, r XOR gate (bit w k) idxr)) [0..<n] (0xffff0000, 0) =
      (0xffff0000 + of_nat n * 0xffff0001, xsum (\<lambda>k. gate (bit w k) (0xffff0000 + of_nat k * 0xffff0001 :: u32)) n)" for n
    by (induction n) (simp_all add: algebra_simps)
  have e: "EccColumns w = colsum (\<lambda>c. 0xffff0000 + of_nat c * 0xffff0001) w"
    unfolding EccColumns_def Let_def bit_and_push mask_gate(1) f colsum_def by simp
  have "list_all (\<lambda>c. (0xffff0000 + of_nat c * 0xffff0001) AND 0x001f001f = col_code c) [0..<32]"
    by code_simp
  then have c: "(0xffff0000 + of_nat c * 0xffff0001) AND 0x001f001f = col_code c" if "c < 32" for c
    using that by (simp add: list_all_iff)
  show ?thesis unfolding e colsum_and by (rule colsum_cong) (rule c)
qed

end
