(* ===== verification/Page_Ecc_Props.thy ===== *)
theory Page_Ecc_Props
  imports Page_Ecc
begin

text \<open>
  The implementations of the page checksums against the reference sum, and what the sum is for:
  one flipped bit is located, two are noticed.
\<close>

subsection \<open>The 32-bit implementations are the reference sum\<close>

definition bitc :: "nat \<Rightarrow> u32" where
  "bitc b = push_bit b 1"

lemmas bitc_consts = ecc_consts(1-4) [folded bitc_def]
lemmas or_bitc = or_parity [folded bitc_def]
lemmas row_merge_bitc = row_merge [folded bitc_def]

lemma next_clear: "\<not> bit x b \<Longrightarrow> b \<noteq> b' \<Longrightarrow> b < 32 \<Longrightarrow> \<not> bit (x XOR gate c (bitc b')) b"
  by (simp only: bit_xor_iff bit_gate bitc_def bit_push_one) simp

lemma EccReduce_ref:
  assumes n: "length ws = 2 ^ k" and k: "3 \<le> k" "k \<le> 11"
  shows "EccReduce (of_nat (4 * length ws)) (EccRows ws ecc_init) = (ecc_ref k (\<lambda>i. ws ! i), xsum (\<lambda>i. ws ! i) (2 ^ k))"
proof -
  define N where "N = (2 :: nat) ^ (k - 2)"
  have kN: "2 ^ k = 4 * N" "2 ^ k = 8 * (2 :: nat) ^ (k - 3)" "2 * 2 ^ (k - 3) = N"
  proof -
    obtain j where "k = j + 3" using k(1) by (metis le_Suc_ex add.commute)
    then show "2 ^ k = 4 * N" "2 ^ k = 8 * (2 :: nat) ^ (k - 3)" "2 * 2 ^ (k - 3) = N"
      by (simp_all add: N_def power_add)
  qed
  have "(2 :: nat) ^ k \<le> 2 ^ 11" using k(2) by (intro power_increasing) simp_all
  then have N: "j < 512" if "j < N" for j using that kN(1) by simp
  let ?idx = "row_idx 0xff800000" and ?d = "\<lambda>i. ws ! i" and ?g = bitc
  define P where "P = xsum (\<lambda>j. gate (par 32 (row_par ws j)) (?idx j)) N"
  define S where "S c = xsum (wd ws c) N" for c
  have st: "EccRows ws ecc_init =
      \<lparr>e_p = P, e_p0 = S 0, e_p1 = S 1, e_p2 = S 2, e_p3 = S 3, e_idxp = ?idx N\<rparr>"
    using EccRows_spec [of ws "2 ^ (k - 3)" ecc_init] n kN by (simp add: ecc_init_def P_def S_def)
  have clr: "\<not> bit P b" if "b < 7 \<or> 16 \<le> b" "b < 23" for b
    unfolding P_def using that N by (intro xsum_bit) (simp add: bit_gate row_idx_clear)
  let ?p = "(((P XOR gate (par 32 (S 0 XOR S 1)) (?g 22)) XOR gate (par 32 (S 2 XOR S 3)) (?g 6)) XOR
    gate (par 32 (S 0 XOR S 2)) (?g 21)) XOR gate (par 32 (S 1 XOR S 3)) (?g 5)"
  have or4: "(((P OR (?g 22 AND lParityMask (S 0 XOR S 1))) OR (?g 6 AND lParityMask (S 2 XOR S 3))) OR
      (?g 21 AND lParityMask (S 0 XOR S 2))) OR (?g 5 AND lParityMask (S 1 XOR S 3)) = ?p"
    using clr [of 22] clr [of 6] clr [of 21] clr [of 5] by (simp add: or_bitc next_clear)
  have "?p = xsum (\<lambda>j. gate (par 32 (wd ws 0 j)) (?idx j XOR word_code 0) XOR gate (par 32 (wd ws 1 j)) (?idx j XOR word_code 1) XOR
      gate (par 32 (wd ws 2 j)) (?idx j XOR word_code 2) XOR gate (par 32 (wd ws 3 j)) (?idx j XOR word_code 3)) N"
    unfolding P_def S_def xsum_xor [symmetric] par_xsum
    by (intro xsum_cong) (simp only: row_merge_bitc [symmetric] row_par_def xor.assoc)
  then have pe: "?p AND (0xffe0ffe0 AND mask (k + 21)) = xsum (\<lambda>i. gate (par 32 (?d i)) (row_code k i)) (4 * N)"
  proof -
    assume e: "?p = xsum (\<lambda>j. gate (par 32 (wd ws 0 j)) (?idx j XOR word_code 0) XOR gate (par 32 (wd ws 1 j)) (?idx j XOR word_code 1) XOR
      gate (par 32 (wd ws 2 j)) (?idx j XOR word_code 2) XOR gate (par 32 (wd ws 3 j)) (?idx j XOR word_code 3)) N"
    have rw: "(?idx j XOR word_code w) AND (0xffe0ffe0 AND mask (k + 21)) = row_code k (4 * j + w)"
      if "j < N" "w < 4" for j w
      using row_word [OF k, of j w] that kN(1) by (simp add: and.assoc)
    show ?thesis
      unfolding e xsum_4 xsum_and
    proof (rule xsum_cong)
      fix j assume "j < N"
      note r = rw [OF this]
      have four: "(a XOR b XOR c XOR d) AND m = (a AND m) XOR (b AND m) XOR (c AND m) XOR (d AND m)" for a b c d m :: u32
        by (simp only: xor_and)
      show "(gate (par 32 (wd ws 0 j)) (?idx j XOR word_code 0) XOR gate (par 32 (wd ws 1 j)) (?idx j XOR word_code 1) XOR
          gate (par 32 (wd ws 2 j)) (?idx j XOR word_code 2) XOR gate (par 32 (wd ws 3 j)) (?idx j XOR word_code 3)) AND
          (0xffe0ffe0 AND mask (k + 21)) =
          gate (par 32 (?d (4 * j))) (row_code k (4 * j)) XOR gate (par 32 (?d (4 * j + 1))) (row_code k (4 * j + 1)) XOR
          gate (par 32 (?d (4 * j + 2))) (row_code k (4 * j + 2)) XOR gate (par 32 (?d (4 * j + 3))) (row_code k (4 * j + 3))"
        unfolding four gate_and using r [of 0] r [of 1] r [of 2] r [of 3] by (simp only: wd_def) simp
    qed
  qed
  have tot: "(S 0 XOR S 2) XOR (S 1 XOR S 3) = xsum ?d (4 * N)"
    unfolding S_def xsum_4 xsum_xor [symmetric] by (intro xsum_cong) (simp add: wd_def ac_simps)
  have m: "push_bit 19 (of_nat (4 * length ws)) - 1 = (mask (k + 21) :: u32)"
    by (simp add: n mask_eq_exp_minus_1 push_bit_eq_mult power_add)
  have z: "(0xffe0ffe0 :: u32) AND 0x001f001f = 0" by simp
  have dis: "(a AND (0xffe0ffe0 AND mask (k + 21))) AND (c AND 0x001f001f) = 0" for a c :: u32
  proof -
    have "(a AND (A AND M)) AND (c AND L) = (a AND M AND c) AND (A AND L)" for A M L :: u32
      by (simp add: bit_eq_iff bit_and_iff) blast
    then show ?thesis by (simp only: z and_zero_eq)
  qed
  have "ecc_ref k ?d = xsum (\<lambda>i. gate (par 32 (?d i)) (row_code k i)) (4 * N) XOR colsum col_code (xsum ?d (4 * N))"
    unfolding ecc_ref_def kN(1) xsum_xor colsum_xsum by (rule refl)
  also have "\<dots> = (?p AND (0xffe0ffe0 AND mask (k + 21))) XOR (EccColumns (xsum ?d (4 * N)) AND 0x001f001f)"
    unfolding pe EccColumns_eq by (rule refl)
  also have "\<dots> = (?p AND (0xffe0ffe0 AND mask (k + 21))) OR (EccColumns (xsum ?d (4 * N)) AND 0x001f001f)"
    by (rule disjunctive_xor_eq_or [OF dis])
  finally have E: "(?p AND 0xffe0ffe0 AND mask (k + 21)) OR (EccColumns (xsum ?d (4 * N)) AND 0x001f001f) = ecc_ref k ?d"
    by (simp only: and.assoc)
  show ?thesis
    unfolding EccReduce_def Let_def st m ecc_state.simps bitc_consts or4 tot E kN(1) by (rule refl)
qed

lemma length_ecc_words: "2 \<le> length pdw \<Longrightarrow> length (ecc_words h pdw) = length pdw"
  by (auto simp: ecc_words_def)

lemma two_le_pow: "3 \<le> k \<Longrightarrow> 2 \<le> (2 :: nat) ^ k"
  using power_increasing [of 1 k "2 :: nat"] by simp

lemma ChecksumNewFormatSlowly_ref:
  assumes "length pdw = 2 ^ k" "3 \<le> k" "k \<le> 11"
  shows "ChecksumNewFormatSlowly pdw pgno h = checksum_ref k pdw pgno h"
proof -
  have l: "length (ecc_words h pdw) = 2 ^ k" using assms two_le_pow by (simp add: length_ecc_words)
  from EccReduce_ref [OF l assms(2,3)] show ?thesis
    by (simp add: ChecksumNewFormatSlowly_def checksum_ref_def Let_def l assms(1))
qed

lemma ChecksumNewFormatSSE_ref:
  assumes "length pdw = 2 ^ k" "3 \<le> k" "k \<le> 11"
  shows "ChecksumNewFormatSSE pdw pgno h = checksum_ref k pdw pgno h"
  using ChecksumNewFormatSlowly_ref [OF assms, of pgno h]
  unfolding ChecksumNewFormatSSE_def ChecksumNewFormatSlowly_def .

subsection \<open>Flipped bits\<close>

definition flip_bit_at :: "nat \<Rightarrow> u32 list \<Rightarrow> u32 list" where
  "flip_bit_at n pdw = pdw[n div 32 := pdw ! (n div 32) XOR push_bit (n mod 32) 1]"

definition bit_code :: "nat \<Rightarrow> nat \<Rightarrow> u32" where
  "bit_code k n = row_code k (n div 32) XOR col_code (n mod 32)"

lemma par_below: "n \<le> c \<Longrightarrow> n \<le> 32 \<Longrightarrow> \<not> par n (push_bit c 1 :: u32)"
  by (induction n) (simp_all add: bit_push_one del: push_bit_of_1)

lemma par_push_one: "c < n \<Longrightarrow> n \<le> 32 \<Longrightarrow> par n (push_bit c 1 :: u32)"
proof (induction n)
  case (Suc n)
  show ?case
  proof (cases "c = n")
    case True
    then show ?thesis using Suc.prems par_below [of n c] by (simp add: bit_push_one del: push_bit_of_1)
  next
    case False
    then show ?thesis using Suc by (simp add: bit_push_one del: push_bit_of_1)
  qed
qed simp

lemma xsum_single: "c < n \<Longrightarrow> xsum (\<lambda>i. gate (i = c) (K i)) n = K c"
proof (induction n)
  case (Suc n)
  show ?case
  proof (cases "c = n")
    case True
    then have "xsum (\<lambda>i. gate (i = c) (K i)) n = 0" by (intro xsum_zero) simp
    with True show ?thesis by simp
  next
    case False
    then show ?thesis using Suc by simp
  qed
qed simp

lemma colsum_push_one: "c < 32 \<Longrightarrow> colsum K (push_bit c 1) = K c"
  unfolding colsum_def using xsum_single [of c 32 K]
  by (subst xsum_cong [of 32 _ "\<lambda>i. gate (i = c) (K i)"]) (simp_all add: bit_push_one del: push_bit_of_1)

lemma xsum_update:
  "i < n \<Longrightarrow> xsum (\<lambda>j. if j = i then x else f j) n = xsum f n XOR (f i XOR x)"
proof (induction n)
  case (Suc n)
  show ?case
  proof (cases "i = n")
    case True
    have "xsum (\<lambda>j. if j = n then x else f j) n = xsum f n" by (rule xsum_cong) simp
    with True show ?thesis by (simp add: xor_cancel ac_simps)
  next
    case False
    then show ?thesis using Suc by (simp add: ac_simps)
  qed
qed simp

text \<open>A flipped bit adds its code to the error-correcting part and its column to the XOR part.\<close>

lemma flip_words:
  assumes "length pdw = 2 ^ k" "3 \<le> k" "n < 2 ^ (k + 5)" "h \<Longrightarrow> 64 \<le> n" "i < 2 ^ k"
  shows "ecc_words h (flip_bit_at n pdw) ! i =
    (if i = n div 32 then ecc_words h pdw ! i XOR push_bit (n mod 32) 1 else ecc_words h pdw ! i)"
proof -
  have l: "2 \<le> length pdw" using assms(1,2) two_le_pow by simp
  have "n div 32 < 2 ^ k" using assms(3) by (simp add: power_add less_mult_imp_div_less)
  moreover have "h \<Longrightarrow> 2 \<le> n div 32" using assms(4) by simp
  ultimately show ?thesis
    using l assms(1,5) by (auto simp: nth_ecc_words flip_bit_at_def nth_list_update simp del: push_bit_of_1)
qed

lemma flip_sums:
  assumes "length pdw = 2 ^ k" "3 \<le> k" "n < 2 ^ (k + 5)" "h \<Longrightarrow> 64 \<le> n"
  defines "d \<equiv> \<lambda>p i. ecc_words h p ! i"
  shows "ecc_ref k (d (flip_bit_at n pdw)) = ecc_ref k (d pdw) XOR bit_code k n"
    "xsum (d (flip_bit_at n pdw)) (2 ^ k) = xsum (d pdw) (2 ^ k) XOR push_bit (n mod 32) 1"
proof -
  let ?i = "n div 32" and ?e = "push_bit (n mod 32) 1 :: u32" and ?w = "d pdw"
  note f = flip_words [OF assms(1-4)]
  have i: "?i < 2 ^ k" using assms(3) by (simp add: power_add less_mult_imp_div_less)
  have c: "n mod 32 < 32" by simp
  have "xsum (d (flip_bit_at n pdw)) (2 ^ k) = xsum (\<lambda>j. if j = ?i then ?w ?i XOR ?e else ?w j) (2 ^ k)"
    by (intro xsum_cong) (auto simp: d_def f simp del: push_bit_of_1)
  also have "\<dots> = xsum ?w (2 ^ k) XOR (?w ?i XOR (?w ?i XOR ?e))" by (rule xsum_update [OF i])
  finally show "xsum (d (flip_bit_at n pdw)) (2 ^ k) = xsum ?w (2 ^ k) XOR ?e" by (simp only: xor_cancel)
  let ?g = "\<lambda>i w. gate (par 32 w) (row_code k i) XOR colsum col_code w"
  have g: "?g i (w XOR ?e) = ?g i w XOR (row_code k i XOR col_code (n mod 32))" for i w
    unfolding par_xor gate_xor colsum_xor colsum_push_one [OF c]
    using par_push_one [OF c] by (simp add: ac_simps del: push_bit_of_1)
  have "ecc_ref k (d (flip_bit_at n pdw)) = xsum (\<lambda>j. if j = ?i then ?g ?i (?w ?i XOR ?e) else ?g j (?w j)) (2 ^ k)"
    unfolding ecc_ref_def by (intro xsum_cong) (auto simp: d_def f simp del: push_bit_of_1)
  also have "\<dots> = ecc_ref k ?w XOR (?g ?i (?w ?i) XOR ?g ?i (?w ?i XOR ?e))"
    unfolding ecc_ref_def by (rule xsum_update [OF i])
  also have "?g ?i (?w ?i) XOR ?g ?i (?w ?i XOR ?e) = bit_code k n"
    unfolding g xor_cancel bit_code_def by (rule refl)
  finally show "ecc_ref k (d (flip_bit_at n pdw)) = ecc_ref k ?w XOR bit_code k n" .
qed

lemma bit_col_code:
  assumes "m < 32" "c < 32"
  shows "bit (col_code c) m = (16 \<le> m \<and> m < 21 \<and> \<not> bit c (m - 16) \<or> m < 5 \<and> bit c m)"
proof -
  have t: "(31 :: u32) = mask 5" by (simp add: mask_eq_exp_minus_1)
  have "m - 16 < 32" using assms(1) by simp
  then have "bit (push_bit 16 (NOT (of_nat c) AND mask 5 :: u32)) m = (16 \<le> m \<and> m < 21 \<and> \<not> bit c (m - 16))"
    using assms(1) by (auto simp: bit_push_bit_iff bit_and_iff bit_not_iff bit_mask_iff bit_word_nat)
  moreover have "bit (of_nat c AND mask 5 :: u32) m = (m < 5 \<and> bit c m)"
    using assms(1) by (auto simp: bit_and_iff bit_mask_iff bit_word_nat)
  ultimately show ?thesis unfolding col_code_def t bit_xor_iff by auto
qed

lemma bit_div_mod: "bit (n :: nat) m = (if m < 5 then bit (n mod 32) m else bit (n div 32) (m - 5))"
proof (cases "m < 5")
  case True
  then show ?thesis using bit_take_bit_iff [of 5 n m] by (simp add: take_bit_eq_mod)
next
  case False
  then show ?thesis using bit_drop_bit_eq [of 5 n] by (simp add: drop_bit_eq_div comp_def)
qed

lemma bit_bit_code:
  assumes k: "k \<le> 11" and n: "n < 2 ^ (k + 5)" and m: "m < 32"
  shows "bit (bit_code k n) m = (if m < 16 then bit n m else \<not> bit n (m - 16) \<and> m - 16 < k + 5)"
proof -
  have R: "bit (row_code k (n div 32)) m = ((21 \<le> m \<and> \<not> bit (n div 32) (m - 21) \<and> m - 21 < k) \<noteq>
      (5 \<le> m \<and> bit (n div 32) (m - 5) \<and> m - 5 < k))"
    by (rule bit_row_code [OF m])
  have C: "bit (col_code (n mod 32)) m = (16 \<le> m \<and> m < 21 \<and> \<not> bit (n mod 32) (m - 16) \<or> m < 5 \<and> bit (n mod 32) m)"
    by (rule bit_col_code [OF m]) simp
  have i: "j < k" if "bit (n div 32) j" for j
  proof (rule small_nat_bit [OF _ that])
    show "n div 32 < 2 ^ k" using n by (simp add: power_add less_mult_imp_div_less)
  qed
  consider "m < 5" | "5 \<le> m" "m < 16" | "16 \<le> m" "m < 21" | "21 \<le> m" by linarith
  then show ?thesis
  proof cases
    case 1
    then show ?thesis unfolding bit_code_def bit_xor_iff R C using bit_div_mod [of n m] by auto
  next
    case 2
    then show ?thesis unfolding bit_code_def bit_xor_iff R C using bit_div_mod [of n m] i [of "m - 5"] by auto
  next
    case 3
    then have "\<not> bit (n div 32) (m - 5)" using i [of "m - 5"] k by auto
    with 3 show ?thesis unfolding bit_code_def bit_xor_iff R C using bit_div_mod [of n "m - 16"] by auto
  next
    case 4
    then have "\<not> bit (n div 32) (m - 5)" using i [of "m - 5"] k by auto
    moreover have "m - 16 - 5 = m - 21" by simp
    ultimately show ?thesis using 4 unfolding bit_code_def bit_xor_iff R C bit_div_mod [of n "m - 16"] by auto
  qed
qed

lemma bit_code_complement:
  assumes "k \<le> 11" "n < 2 ^ (k + 5)"
  shows "(drop_bit 16 (bit_code k n) XOR bit_code k n) AND mask (k + 5) = mask (k + 5)"
proof (rule bit_word_eqI)
  fix m assume "m < LENGTH(32)"
  then have m: "m < 32" by simp
  show "bit ((drop_bit 16 (bit_code k n) XOR bit_code k n) AND mask (k + 5)) m = bit (mask (k + 5) :: u32) m"
  proof (cases "m < k + 5")
    case True
    then have "m < 16" "m + 16 < 32" using assms(1) by simp_all
    then show ?thesis
      using True m bit_bit_code [OF assms m] bit_bit_code [OF assms, of "m + 16"]
      by (simp add: bit_and_iff bit_xor_iff bit_drop_bit_eq bit_mask_iff add.commute)
  qed (simp add: bit_and_iff bit_mask_iff)
qed

lemma bit_code_low:
  assumes "k \<le> 11" "n < 2 ^ (k + 5)"
  shows "bit_code k n AND 0xffff = of_nat n"
proof (rule bit_word_eqI)
  fix m assume "m < LENGTH(32)"
  then have m: "m < 32" by simp
  have f: "(0xffff :: u32) = mask 16" by (simp add: mask_eq_exp_minus_1)
  have "(2 :: nat) ^ (k + 5) \<le> 2 ^ 16" using assms(1) by (intro power_increasing) simp_all
  then have "\<not> bit n m" if "16 \<le> m" using small_nat_bit [of n 16 m] assms(2) that by auto
  then show "bit (bit_code k n AND 0xffff) m = bit (of_nat n :: u32) m"
    unfolding f bit_and_iff bit_mask_iff bit_bit_code [OF assms m] bit_word_nat [OF m] using m by auto
qed

lemma cb_mask:
  assumes "length pdw = 2 ^ k"
  shows "push_bit 3 (of_nat (4 * length pdw)) - 1 = (mask (k + 5) :: u32)"
  by (simp add: assms mask_eq_exp_minus_1 push_bit_eq_mult power_add)

lemma Dw_Make:
  "DwECCChecksumFromXEChecksum (MakeChecksumFromECCXORAndPgno e x p) = e"
  "DwXORChecksumFromXEChecksum (MakeChecksumFromECCXORAndPgno e x p) = x XOR p"
proof -
  have m: "(0xffffffff :: u64) = mask 32" by (simp add: mask_eq_exp_minus_1)
  show "DwECCChecksumFromXEChecksum (MakeChecksumFromECCXORAndPgno e x p) = e"
    unfolding DwECCChecksumFromXEChecksum_def MakeChecksumFromECCXORAndPgno_def Let_def
    by (rule bit_word_eqI) (auto simp: bit_ucast_iff bit_drop_bit_eq bit_or_iff bit_push_bit_iff dest: bit_imp_le_length)
  show "DwXORChecksumFromXEChecksum (MakeChecksumFromECCXORAndPgno e x p) = x XOR p"
    unfolding DwXORChecksumFromXEChecksum_def MakeChecksumFromECCXORAndPgno_def Let_def m
    by (rule bit_word_eqI) (auto simp: bit_ucast_iff bit_and_iff bit_mask_iff bit_or_iff bit_push_bit_iff)
qed

lemma fold_count: "fold (\<lambda>i n. if P i then n + 1 else n) xs (n :: nat) = n + length (filter P xs)"
  by (induction xs arbitrary: n) simp_all

lemma CbitSet_bits: "CbitSet w = card {i. i < 32 \<and> bit w i}"
proof -
  have "{i. i < 32 \<and> bit w i} = set (filter (bit w) [0..<32])" by auto
  moreover have "CbitSet w = length (filter (bit w) [0..<32])"
    unfolding CbitSet_def fold_count bit_and_push by simp
  moreover have "card (set (filter (bit w) [0..<32])) = length (filter (bit w) [0..<32])"
    by (rule distinct_card) simp
  ultimately show ?thesis by (simp only:)
qed

lemma CbitSet_one: "c < 32 \<Longrightarrow> CbitSet (push_bit c 1) = 1"
proof -
  assume "c < 32"
  then have "{i. i < 32 \<and> bit (push_bit c 1 :: u32) i} = {c}" by (auto simp: bit_push_one simp del: push_bit_of_1)
  then show ?thesis by (simp only: CbitSet_bits) simp
qed

lemma length_flip [simp]: "length (flip_bit_at n pdw) = length pdw"
  by (simp add: flip_bit_at_def)

lemma bit_code_bound: "k \<le> 11 \<Longrightarrow> n < 2 ^ (k + 5) \<Longrightarrow> n < 2 ^ 16" for n :: nat
  using power_increasing [of "k + 5" 16 "2 :: nat"] by simp

lemma xor_eq_zeroD: "x XOR y = 0 \<Longrightarrow> x = y" for x y :: u32
  by (metis xor.assoc xor.left_neutral xor.right_neutral xor_self_eq)

lemma of_nat_16: "n < 2 ^ 16 \<Longrightarrow> unat (of_nat n :: u32) = n"
  by (simp add: unat_of_nat take_bit_eq_mod)

subsection \<open>The contract of a page checksum\<close>

text \<open>
  What the callers of the selected checksum function rely on: it is the reference sum on every block
  of a power of two words, from 256 bytes to 8 KB.  The code uses blocks of 2, 4 and 8 KB.
\<close>

locale page_checksum =
  fixes chk :: "u32 list \<Rightarrow> u32 \<Rightarrow> bool \<Rightarrow> u64"
  assumes chk_ref: "length pdw = 2 ^ k \<Longrightarrow> 6 \<le> k \<Longrightarrow> k \<le> 11 \<Longrightarrow> chk pdw pgno h = checksum_ref k pdw pgno h"
begin

lemma ecc_part:
  "length pdw = 2 ^ k \<Longrightarrow> 6 \<le> k \<Longrightarrow> k \<le> 11 \<Longrightarrow>
    DwECCChecksumFromXEChecksum (chk pdw pgno h) = ecc_ref k (\<lambda>i. ecc_words h pdw ! i)"
  "length pdw = 2 ^ k \<Longrightarrow> 6 \<le> k \<Longrightarrow> k \<le> 11 \<Longrightarrow>
    DwXORChecksumFromXEChecksum (chk pdw pgno h) = xsum (\<lambda>i. ecc_words h pdw ! i) (2 ^ k) XOR pgno"
  by (simp_all add: chk_ref checksum_ref_def Let_def Dw_Make)

lemma flip_parts:
  assumes "length pdw = 2 ^ k" "6 \<le> k" "k \<le> 11" "n < 2 ^ (k + 5)" "h \<Longrightarrow> 64 \<le> n"
  shows "DwECCChecksumFromXEChecksum (chk (flip_bit_at n pdw) pgno h) = DwECCChecksumFromXEChecksum (chk pdw pgno h) XOR bit_code k n"
    "DwXORChecksumFromXEChecksum (chk (flip_bit_at n pdw) pgno h) =
      DwXORChecksumFromXEChecksum (chk pdw pgno h) XOR push_bit (n mod 32) 1"
  using flip_sums [of pdw k n h] assms ecc_part [of pdw k pgno h] ecc_part [of "flip_bit_at n pdw" k pgno h]
  by (simp_all add: ac_simps del: push_bit_of_1)

lemma single_flip:
  fixes pgno :: u32
  assumes "length pdw = 2 ^ k" "6 \<le> k" "k \<le> 11" "n < 2 ^ (k + 5)" "h \<Longrightarrow> 64 \<le> n"
  defines "cb \<equiv> of_nat (4 * length pdw)" and "x \<equiv> chk pdw pgno h" and "y \<equiv> chk (flip_bit_at n pdw) pgno h"
  shows "FECCErrorIsCorrectable cb x y \<and> unat (IbitCorrupted cb x y) = n"
proof -
  have f: "DwECCChecksumFromXEChecksum (chk (flip_bit_at n pdw) pgno h) = DwECCChecksumFromXEChecksum (chk pdw pgno h) XOR bit_code k n"
    "DwXORChecksumFromXEChecksum (chk (flip_bit_at n pdw) pgno h) =
      DwXORChecksumFromXEChecksum (chk pdw pgno h) XOR push_bit (n mod 32) 1"
    using assms(1-5) by (intro flip_parts; simp)+
  let ?D = "bit_code k n"
  have ex: "DwECCChecksumFromXEChecksum y XOR DwECCChecksumFromXEChecksum x = ?D"
    "DwXORChecksumFromXEChecksum y XOR DwXORChecksumFromXEChecksum x = push_bit (n mod 32) 1"
    unfolding x_def y_def f by (simp_all add: ac_simps del: push_bit_of_1)
  have m: "push_bit 3 cb - 1 = mask (k + 5)" unfolding cb_def by (rule cb_mask [OF assms(1)])
  have ok: "FECCErrorIsCorrectable cb x y"
    unfolding FECCErrorIsCorrectable_def FECCErrorIsCorrectable_dw_def Let_def ex m
    using bit_code_complement [OF assms(3,4)] CbitSet_one [of "n mod 32"] by (simp del: push_bit_of_1)
  have "n < 2 ^ 16" by (rule bit_code_bound [OF assms(3,4)])
  then have u: "unat (of_nat n :: u32) = n" by (rule of_nat_16)
  have D0: "?D \<noteq> 0"
  proof
    assume "?D = 0"
    then have "mask (k + 5) = (0 :: u32)" using bit_code_complement [OF assms(3,4)] by simp
    moreover have "bit (mask (k + 5) :: u32) 0" by (simp add: bit_mask_iff)
    ultimately show False by simp
  qed
  have "n div 8 < 4 * 2 ^ k" using assms(4) by (simp add: power_add less_mult_imp_div_less)
  moreover have "(4 :: nat) * 2 ^ k \<le> 4 * 2 ^ 11" using assms(3) by (intro mult_left_mono power_increasing) simp_all
  ultimately have "unat (of_nat n div 8 :: u32) < unat cb"
    by (simp add: cb_def assms(1) unat_div u unat_of_nat take_bit_eq_mod del: of_nat_mult of_nat_power)
  then have "\<not> cb \<le> of_nat n div 8" by (simp add: word_less_nat_alt not_le)
  then have "IbitCorrupted cb x y = of_nat n"
    using D0 by (simp add: IbitCorrupted_def IbitCorrupted_dw_def Let_def ex bit_code_low [OF assms(3,4)])
  with ok u show ?thesis by simp
qed

lemma double_flip:
  fixes pgno :: u32
  assumes "length pdw = 2 ^ k" "6 \<le> k" "k \<le> 11" "n < 2 ^ (k + 5)" "h \<Longrightarrow> 64 \<le> n"
    "m < 2 ^ (k + 5)" "h \<Longrightarrow> 64 \<le> m" "m \<noteq> n"
  defines "cb \<equiv> of_nat (4 * length pdw)" and "x \<equiv> chk pdw pgno h"
    and "y \<equiv> chk (flip_bit_at m (flip_bit_at n pdw)) pgno h"
  shows "x \<noteq> y \<and> \<not> FECCErrorIsCorrectable cb x y"
proof -
  let ?D = "bit_code k m XOR bit_code k n"
  have l: "length (flip_bit_at n pdw) = 2 ^ k" using assms(1) by simp
  have ex: "DwECCChecksumFromXEChecksum y XOR DwECCChecksumFromXEChecksum x = ?D"
  proof -
    have "DwECCChecksumFromXEChecksum y = DwECCChecksumFromXEChecksum (chk (flip_bit_at n pdw) pgno h) XOR bit_code k m"
      unfolding y_def using l assms(2,3,6,7) by (intro flip_parts(1); simp)
    moreover have "DwECCChecksumFromXEChecksum (chk (flip_bit_at n pdw) pgno h) = DwECCChecksumFromXEChecksum x XOR bit_code k n"
      unfolding x_def using assms(1-5) by (intro flip_parts(1); simp)
    ultimately show ?thesis by (simp add: ac_simps)
  qed
  have b: "m < 2 ^ 16" "n < 2 ^ 16" using bit_code_bound assms(3,4,6) by blast+
  have "of_nat m \<noteq> (of_nat n :: u32)" using of_nat_16 [OF b(1)] of_nat_16 [OF b(2)] assms(8) by auto
  moreover have "?D AND 0xffff = of_nat m XOR of_nat n"
    unfolding xor_and using bit_code_low assms(3,4,6) by simp
  ultimately have "?D \<noteq> 0" using xor_eq_zeroD [of "of_nat m" "of_nat n"] by auto
  then have ne: "x \<noteq> y" using ex by auto
  let ?c = "\<lambda>D :: u32. (drop_bit 16 D XOR D) AND mask (k + 5)"
  have "?c ?D = ?c (bit_code k m) XOR ?c (bit_code k n)"
    unfolding xor_and [symmetric] drop_bit_xor by (simp add: ac_simps)
  then have "?c ?D = 0" using bit_code_complement assms(3,4,6) by simp
  moreover have "bit (mask (k + 5) :: u32) 0" by (simp add: bit_mask_iff)
  then have "mask (k + 5) \<noteq> (0 :: u32)" by auto
  moreover have m: "push_bit 3 cb - 1 = mask (k + 5)" unfolding cb_def by (rule cb_mask [OF assms(1)])
  ultimately have "\<not> FECCErrorIsCorrectable cb x y"
    unfolding FECCErrorIsCorrectable_def FECCErrorIsCorrectable_dw_def Let_def ex m by simp
  with ne show ?thesis by blast
qed

end

subsection \<open>The old format\<close>

definition xors :: "'a::len word list \<Rightarrow> 'a word" where
  "xors ws = foldr (XOR) ws 0"

lemma xors_simps [simp]: "xors [] = 0" "xors (w # ws) = w XOR xors ws"
  by (simp_all add: xors_def)

lemma xor_dwords_xors: "length pdw mod 8 = 0 \<Longrightarrow> xor_dwords pdw c = c XOR xors pdw"
proof (induction pdw c rule: xor_dwords.induct)
  case (1 d0 d1 d2 d3 d4 d5 d6 d7 pdw c)
  have "length (d0 # d1 # d2 # d3 # d4 # d5 # d6 # d7 # pdw) = 8 + length pdw" by simp
  with 1 show ?case by (simp add: ac_simps)
qed auto

lemma xor_qwords_xors: "length pqw mod 4 = 0 \<Longrightarrow> xor_qwords pqw c = c XOR xors pqw"
proof (induction pqw c rule: xor_qwords.induct)
  case (1 q0 q1 q2 q3 pqw c)
  have "length (q0 # q1 # q2 # q3 # pqw) = 4 + length pqw" by simp
  with 1 show ?case by (simp add: ac_simps)
qed auto

lemma xor_owords_xors: "length pow mod 8 = 0 \<Longrightarrow> xor_owords pow c = c XOR xors pow"
proof (induction pow c rule: xor_owords.induct)
  case (1 w0 w1 w2 w3 w4 w5 w6 w7 pow c)
  have "length (w0 # w1 # w2 # w3 # w4 # w5 # w6 # w7 # pow) = 8 + length pow" by simp
  with 1 show ?case by (simp add: ac_simps Let_def)
qed auto

text \<open>Both wide implementations fold a register onto 32 bits, and folding is linear.\<close>

definition fold64 :: "u64 \<Rightarrow> u32" where
  "fold64 q = ucast (drop_bit 32 q XOR (q AND 0x00000000FFFFFFFF))"

definition fold128 :: "128 word \<Rightarrow> u32" where
  "fold128 w = lane 0 w XOR lane 1 w XOR lane 2 w XOR lane 3 w"

lemma fold64_bit: "bit (fold64 q) n = (n < 32 \<and> (bit q n \<noteq> bit q (n + 32)))"
proof -
  have m: "(0x00000000FFFFFFFF :: u64) = mask 32" by (simp add: mask_eq_exp_minus_1)
  show ?thesis
    unfolding fold64_def m
    by (auto simp: bit_ucast_iff bit_xor_iff bit_drop_bit_eq bit_and_iff bit_mask_iff add.commute)
qed

lemma fold64_xor: "fold64 (a XOR b) = fold64 a XOR fold64 b"
  by (rule bit_word_eqI) (auto simp: fold64_bit bit_xor_iff)

lemma lane_xor: "lane k (a XOR b) = lane k a XOR lane k b"
  unfolding lane_def by (rule bit_word_eqI) (auto simp: bit_ucast_iff bit_xor_iff bit_drop_bit_eq)

lemma fold128_xor: "fold128 (a XOR b) = fold128 a XOR fold128 b"
  by (simp add: fold128_def lane_xor ac_simps)

lemma fold64_0: "fold64 0 = 0"
  by (simp add: fold64_def)

lemma fold64_dwords: "fold64 (ucast lo OR push_bit 32 (ucast hi)) = lo XOR hi"
  by (rule bit_word_eqI)
    (auto simp: fold64_bit bit_xor_iff bit_or_iff bit_ucast_iff bit_push_bit_iff dest: bit_imp_le_length)

lemma lane_bit: "bit (lane k w) n = (n < 32 \<and> bit w (32 * k + n))"
  by (auto simp: lane_def bit_ucast_iff bit_drop_bit_eq)

lemma bit_small_u32: "bit (d :: u32) (n - k) \<Longrightarrow> k + 32 \<le> n \<Longrightarrow> False"
  by (drule bit_imp_le_length) simp

lemma lane_dwords:
  fixes d0 d1 d2 d3 :: u32
  defines "w \<equiv> ucast d0 OR push_bit 32 (ucast d1) OR push_bit 64 (ucast d2) OR push_bit 96 (ucast d3)"
  shows "lane 0 w = d0" "lane 1 w = d1" "lane 2 w = d2" "lane 3 w = d3"
  unfolding w_def
  by (rule bit_word_eqI, auto simp: lane_bit bit_or_iff bit_ucast_iff bit_push_bit_iff dest: bit_imp_le_length)+

lemma fold64_qwords: "even (length pdw) \<Longrightarrow> fold64 (xors (qwords pdw)) = xors pdw"
  by (induction pdw rule: qwords.induct) (simp_all add: fold64_xor fold64_dwords fold64_0 ac_simps)

lemma fold128_owords: "length pdw mod 4 = 0 \<Longrightarrow> fold128 (xors (owords pdw)) = xors pdw"
proof (induction pdw rule: owords.induct)
  case (1 d0 d1 d2 d3 pdw)
  have "length (d0 # d1 # d2 # d3 # pdw) = 4 + length pdw" by simp
  with 1 have "fold128 (xors (owords pdw)) = xors pdw" by simp
  moreover have "fold128 (ucast d0 OR push_bit 32 (ucast d1) OR push_bit 64 (ucast d2) OR push_bit 96 (ucast d3)) =
      d0 XOR d1 XOR d2 XOR d3"
    unfolding fold128_def lane_dwords by (rule refl)
  ultimately show ?case by (simp add: fold128_xor ac_simps)
qed (auto simp: fold128_def lane_def)

lemma length_qwords: "length (qwords pdw) = length pdw div 2"
  by (induction pdw rule: qwords.induct) simp_all

lemma length_owords: "length (owords pdw) = length pdw div 4"
  by (induction pdw rule: owords.induct) simp_all

lemma ChecksumOldFormat_xors:
  assumes "length pdw mod 32 = 0" "pdw \<noteq> []"
  shows "ChecksumOldFormatSlowly pdw = 0x89abcdef XOR pdw ! 0 XOR xors pdw"
    "ChecksumOldFormatSSE pdw = 0x89abcdef XOR pdw ! 0 XOR xors pdw"
    "ChecksumOldFormat64Bit pdw = 0x89abcdef XOR pdw ! 0 XOR xors pdw"
    "ChecksumOldFormatSSE2 pdw = 0x89abcdef XOR pdw ! 0 XOR xors pdw"
proof -
  have m: "length pdw mod 8 = 0" "even (length pdw)" "length (qwords pdw) mod 4 = 0"
    "length pdw mod 4 = 0" "length (owords pdw) mod 8 = 0"
    using assms(1) by (auto simp: length_qwords length_owords)
  show "ChecksumOldFormatSlowly pdw = 0x89abcdef XOR pdw ! 0 XOR xors pdw"
    "ChecksumOldFormatSSE pdw = 0x89abcdef XOR pdw ! 0 XOR xors pdw"
    by (simp_all add: ChecksumOldFormatSlowly_def ChecksumOldFormatSSE_def xor_dwords_xors m ac_simps)
  show "ChecksumOldFormatSSE2 pdw = 0x89abcdef XOR pdw ! 0 XOR xors pdw"
    using fold128_owords [OF m(4)]
    unfolding ChecksumOldFormatSSE2_def Let_def fold128_def [symmetric] by (simp add: xor_owords_xors m ac_simps)
  obtain lo hi rest where p: "pdw = lo # hi # rest" using assms m(2) by (cases pdw rule: qwords.cases) auto
  then have "qwords pdw ! 0 AND 0x00000000FFFFFFFF = ucast lo OR push_bit 32 (ucast (0 :: u32))"
    by (intro bit_word_eqI) (auto simp: bit_and_iff bit_or_iff bit_ucast_iff bit_push_bit_iff bit_mask_iff
      mask_eq_exp_minus_1 [of 32, where 'a = u64, simplified, symmetric] dest: bit_imp_le_length)
  then have "fold64 (qwords pdw ! 0 AND 0x00000000FFFFFFFF) = lo" by (simp only: fold64_dwords) simp
  then have "fold64 (xor_qwords (qwords pdw) (qwords pdw ! 0 AND 0x00000000FFFFFFFF)) = lo XOR xors pdw"
    by (simp add: xor_qwords_xors m fold64_xor fold64_qwords)
  then show "ChecksumOldFormat64Bit pdw = 0x89abcdef XOR pdw ! 0 XOR xors pdw"
    unfolding ChecksumOldFormat64Bit_def Let_def fold64_def [symmetric] by (simp add: p ac_simps)
qed

subsection \<open>The basic implementation\<close>

lemma xsum_nth: "xsum (\<lambda>i. ws ! i) (length ws) = xors ws"
proof (induction ws)
  case (Cons a ws)
  have "xsum (\<lambda>i. (a # ws) ! i) (Suc (length ws)) = a XOR xsum (\<lambda>i. ws ! i) (length ws)"
    by (subst xsum_front) simp
  then show ?case using Cons by simp
qed simp

lemma DwXORChecksumBasic_xors:
  "length pdw mod 8 = 0 \<Longrightarrow> DwXORChecksumBasic pdw = pdw ! 0 XOR pdw ! 1 XOR xors pdw"
  by (simp add: DwXORChecksumBasic_def xor_dwords_xors ac_simps)

lemma two_words: "2 \<le> length xs \<Longrightarrow> xs = xs ! 0 # xs ! 1 # drop 2 xs" for xs :: "u32 list"
  by (cases xs rule: qwords.cases) simp_all

text \<open>Its XOR part leaves out the first two words of every block, with or without a header.\<close>

lemma basic_xor_part:
  assumes "length pdw = 2 ^ k" "3 \<le> k" "k \<le> 11"
  shows "ChecksumNewFormatBasic pdw pgno h =
    MakeChecksumFromECCXORAndPgno (ecc_ref k (\<lambda>i. ecc_words h pdw ! i)) (xsum (\<lambda>i. ecc_words True pdw ! i) (2 ^ k)) pgno"
proof -
  have l2: "2 \<le> length pdw" using assms two_le_pow by simp
  then have l: "length (ecc_words h pdw) = 2 ^ k" "length (ecc_words True pdw) = 2 ^ k"
    using assms(1) by (simp_all add: length_ecc_words)
  have m: "length pdw mod 8 = 0"
  proof -
    obtain j where "k = 3 + j" using assms(2) le_Suc_ex by blast
    then show ?thesis using assms(1) by (simp add: power_add)
  qed
  have "xsum (\<lambda>i. ecc_words True pdw ! i) (2 ^ k) = xors (drop 2 pdw)"
    using xsum_nth [of "ecc_words True pdw"] unfolding l(2) by (simp add: ecc_words_def)
  moreover have "xors pdw = pdw ! 0 XOR pdw ! 1 XOR xors (drop 2 pdw)"
    using two_words [OF l2] by (metis xors_simps(2) xor.assoc)
  moreover have "a XOR b XOR (a XOR b XOR c) = c" for a b c :: u32
    by (rule bit_word_eqI) (auto simp: bit_xor_iff)
  ultimately have "DwXORChecksumBasic pdw = xsum (\<lambda>i. ecc_words True pdw ! i) (2 ^ k)"
    by (simp add: DwXORChecksumBasic_xors [OF m])
  with EccReduce_ref [OF l(1) assms(2,3)] show ?thesis
    by (simp add: ChecksumNewFormatBasic_def Let_def l assms(1))
qed

end
