(* ===== verification/Page_Simd.thy ===== *)
theory Page_Simd
  imports Page_Checksum
begin

text \<open>
  The vector implementations of the error-correcting checksum: \<open>ChecksumNewFormatSSE2\<close>
  (\<open>src/checksum/checksum_amd64.cxx\<close>, a template over the way a parity is taken) and
  \<open>ChecksumNewFormatAVX\<close> (\<open>src/checksum/avx/checksum_avx.cxx\<close>), and the choice between all
  implementations (\<open>src/checksum/checksum.cxx\<close>).  A vector register is its 32-bit lanes; the
  intrinsics are defined on them as the processor manual does.
\<close>

subsection \<open>Registers and intrinsics\<close>

datatype m128 = M128 (lane0: u32) (lane1: u32) (lane2: u32) (lane3: u32)

datatype m256 = M256 (lo128: m128) (hi128: m128)

definition mm_setzero_si128 :: m128 where "mm_setzero_si128 = M128 0 0 0 0"

definition mm256_setzero_si256 :: m256 where "mm256_setzero_si256 = M256 mm_setzero_si128 mm_setzero_si128"

definition mm_xor_si128 :: "m128 \<Rightarrow> m128 \<Rightarrow> m128" where
  "mm_xor_si128 a b = M128 (lane0 a XOR lane0 b) (lane1 a XOR lane1 b) (lane2 a XOR lane2 b) (lane3 a XOR lane3 b)"

definition mm256_xor :: "m256 \<Rightarrow> m256 \<Rightarrow> m256" where
  "mm256_xor a b = M256 (mm_xor_si128 (lo128 a) (lo128 b)) (mm_xor_si128 (hi128 a) (hi128 b))"

definition lanes :: "m128 \<Rightarrow> u32 list" where
  "lanes a = [lane0 a, lane1 a, lane2 a, lane3 a]"

definition mm_shuffle_epi32 :: "m128 \<Rightarrow> nat \<Rightarrow> m128" where
  "mm_shuffle_epi32 a imm =
     M128 (lanes a ! (imm mod 4)) (lanes a ! (imm div 4 mod 4)) (lanes a ! (imm div 16 mod 4)) (lanes a ! (imm div 64 mod 4))"

definition mm_unpackhi_epi64 :: "m128 \<Rightarrow> m128 \<Rightarrow> m128" where
  "mm_unpackhi_epi64 a b = M128 (lane2 a) (lane3 a) (lane2 b) (lane3 b)"

definition mm256_permute2f128_si256_01 :: "m256 \<Rightarrow> m256 \<Rightarrow> m256" where
  "mm256_permute2f128_si256_01 a b = M256 (hi128 a) (lo128 a)"

definition mm_cvtsi128_si32 :: "m128 \<Rightarrow> u32" where
  "mm_cvtsi128_si32 a = lane0 a"

definition mm_cvtsi128_si64 :: "m128 \<Rightarrow> u64" where
  "mm_cvtsi128_si64 a = ucast (lane0 a) OR push_bit 32 (ucast (lane1 a))"

definition mm_popcnt :: "'a::len word \<Rightarrow> u32" where
  "mm_popcnt w = of_nat (length (filter (bit w) [0..<LENGTH('a)]))"

text \<open>The block as an array of registers.\<close>

fun dqwords :: "u32 list \<Rightarrow> m128 list" where
  "dqwords (d0 # d1 # d2 # d3 # pdw) = M128 d0 d1 d2 d3 # dqwords pdw"
| "dqwords pdw = []"

fun qqwords :: "m128 list \<Rightarrow> m256 list" where
  "qqwords (a # b # pdq) = M256 a b # qqwords pdq"
| "qqwords pdq = []"

subsection \<open>Parity masks\<close>

datatype ChecksumParityMaskFunc = ParityMaskFuncDefault | ParityMaskFuncPopcnt

definition lParityMask_dq :: "m128 \<Rightarrow> u32" where
  "lParityMask_dq dq =
     (let dq1 = mm_shuffle_epi32 dq 0x4e;
          dq2 = mm_xor_si128 dq dq1;
          dq3 = mm_shuffle_epi32 dq2 0x1b;
          dq4 = mm_xor_si128 dq2 dq3
      in lParityMask (mm_cvtsi128_si32 dq4))"

definition lParityMaskPopcnt_dq :: "m128 \<Rightarrow> u32" where
  "lParityMaskPopcnt_dq dq =
     (let dq1 = mm_shuffle_epi32 dq 0x4e;
          dq2 = mm_xor_si128 dq dq1;
          popcnt = mm_popcnt (mm_cvtsi128_si64 dq2)
      in - (popcnt AND 0x01))"

definition lParityMaskPopcnt :: "u32 \<Rightarrow> u32" where
  "lParityMaskPopcnt dw = (let popcnt = mm_popcnt dw in - (popcnt AND 0x01))"

definition parity_dq :: "ChecksumParityMaskFunc \<Rightarrow> m128 \<Rightarrow> u32" where
  "parity_dq f dq = (if f = ParityMaskFuncPopcnt then lParityMaskPopcnt_dq dq else lParityMask_dq dq)"

definition parity_dw :: "ChecksumParityMaskFunc \<Rightarrow> u32 \<Rightarrow> u32" where
  "parity_dw f dw = (if f = ParityMaskFuncPopcnt then lParityMaskPopcnt dw else lParityMask dw)"

definition lParityMaskAVX :: "m256 \<Rightarrow> u32" where
  "lParityMaskAVX qq =
     (let qq1 = mm256_permute2f128_si256_01 qq qq;
          dq2 = lo128 (mm256_xor qq1 qq);
          dq3 = mm_shuffle_epi32 dq2 0x4e;
          dq4 = mm_xor_si128 dq3 dq2;
          popcnt = mm_popcnt (mm_cvtsi128_si64 dq4)
      in - (popcnt AND 0x01))"

definition g_bECCLookupTable :: "int list" where
  "g_bECCLookupTable =
    [0x00, 0x70, 0x61, 0x11, 0x52, 0x22, 0x33, 0x43, 0x43, 0x33, 0x22, 0x52, 0x11, 0x61, 0x70, 0x00,
     0x34, 0x44, 0x55, 0x25, 0x66, 0x16, 0x07, 0x77, 0x77, 0x07, 0x16, 0x66, 0x25, 0x55, 0x44, 0x34,
     0x25, 0x55, 0x44, 0x34, 0x77, 0x07, 0x16, 0x66, 0x66, 0x16, 0x07, 0x77, 0x34, 0x44, 0x55, 0x25,
     0x11, 0x61, 0x70, 0x00, 0x43, 0x33, 0x22, 0x52, 0x52, 0x22, 0x33, 0x43, 0x00, 0x70, 0x61, 0x11,
     0x16, 0x66, 0x77, 0x07, 0x44, 0x34, 0x25, 0x55, 0x55, 0x25, 0x34, 0x44, 0x07, 0x77, 0x66, 0x16,
     0x22, 0x52, 0x43, 0x33, 0x70, 0x00, 0x11, 0x61, 0x61, 0x11, 0x00, 0x70, 0x33, 0x43, 0x52, 0x22,
     0x33, 0x43, 0x52, 0x22, 0x61, 0x11, 0x00, 0x70, 0x70, 0x00, 0x11, 0x61, 0x22, 0x52, 0x43, 0x33,
     0x07, 0x77, 0x66, 0x16, 0x55, 0x25, 0x34, 0x44, 0x44, 0x34, 0x25, 0x55, 0x16, 0x66, 0x77, 0x07,
     0x07, 0x77, 0x66, 0x16, 0x55, 0x25, 0x34, 0x44, 0x44, 0x34, 0x25, 0x55, 0x16, 0x66, 0x77, 0x07,
     0x33, 0x43, 0x52, 0x22, 0x61, 0x11, 0x00, 0x70, 0x70, 0x00, 0x11, 0x61, 0x22, 0x52, 0x43, 0x33,
     0x22, 0x52, 0x43, 0x33, 0x70, 0x00, 0x11, 0x61, 0x61, 0x11, 0x00, 0x70, 0x33, 0x43, 0x52, 0x22,
     0x16, 0x66, 0x77, 0x07, 0x44, 0x34, 0x25, 0x55, 0x55, 0x25, 0x34, 0x44, 0x07, 0x77, 0x66, 0x16,
     0x11, 0x61, 0x70, 0x00, 0x43, 0x33, 0x22, 0x52, 0x52, 0x22, 0x33, 0x43, 0x00, 0x70, 0x61, 0x11,
     0x25, 0x55, 0x44, 0x34, 0x77, 0x07, 0x16, 0x66, 0x66, 0x16, 0x07, 0x77, 0x34, 0x44, 0x55, 0x25,
     0x34, 0x44, 0x55, 0x25, 0x66, 0x16, 0x07, 0x77, 0x77, 0x07, 0x16, 0x66, 0x25, 0x55, 0x44, 0x34,
     0x00, 0x70, 0x61, 0x11, 0x52, 0x22, 0x33, 0x43, 0x43, 0x33, 0x22, 0x52, 0x11, 0x61, 0x70, 0x00]"

definition lECCLookup8bit :: "u32 \<Rightarrow> u32" where
  "lECCLookup8bit byte = word_of_int (g_bECCLookupTable ! unat (byte AND 0xff))"

subsection \<open>The column parities within a 32-bit word\<close>

text \<open>
  Both implementations end the same way: the parities of the four bytes give two index bits, a
  table lookup on the byte that is their XOR gives the other three.  The SSE2 code with the default
  parity reads the byte parity off the table of parities, whose entries are signed bytes.
\<close>

definition parity_byte :: "ChecksumParityMaskFunc \<Rightarrow> u32 \<Rightarrow> u32" where
  "parity_byte f byte =
     (if f = ParityMaskFuncPopcnt then lParityMaskPopcnt (byte AND 0xff)
      else word_of_int (g_bParityLookupTable ! unat (byte AND 0xff)))"

definition EccBytes :: "ChecksumParityMaskFunc \<Rightarrow> u32 \<Rightarrow> u32" where
  "EccBytes f dw0 =
     (case fold (\<lambda>_ (r, byteT, byte0, idxr).
             (r XOR (idxr AND parity_byte f byteT), drop_bit 8 byteT, byte0 XOR byteT, idxr + 0xfff80008))
           [0..<4] (0, dw0, 0, 0xfff80000 :: u32) of
        (r, _, byte0, _) \<Rightarrow>
          let bits = lECCLookup8bit byte0;
              r = r OR (bits AND 0x07);
              r = r OR (push_bit 12 bits AND 0x00070000)
          in r)"

subsection \<open>ChecksumNewFormatSSE2\<close>

record sse2_state =
  s_p :: u32
  s_dq0 :: m128
  s_dq1 :: m128
  s_dq2 :: m128
  s_dq3 :: m128
  s_idxp :: u32

definition Sse2Row :: "ChecksumParityMaskFunc \<Rightarrow> m128 \<Rightarrow> m128 \<Rightarrow> m128 \<Rightarrow> m128 \<Rightarrow> sse2_state \<Rightarrow> sse2_state" where
  "Sse2Row f dqL0 dqL1 dqL2 dqL3 s =
     (let dqLAcc = mm_xor_si128 (mm_xor_si128 (mm_xor_si128 dqL0 dqL1) dqL2) dqL3
      in \<lparr>s_p = s_p s XOR (s_idxp s AND parity_dq f dqLAcc),
          s_dq0 = mm_xor_si128 (s_dq0 s) dqL0, s_dq1 = mm_xor_si128 (s_dq1 s) dqL1,
          s_dq2 = mm_xor_si128 (s_dq2 s) dqL2, s_dq3 = mm_xor_si128 (s_dq3 s) dqL3,
          s_idxp = s_idxp s + 0xfe000200\<rparr>)"

fun Sse2Rows :: "ChecksumParityMaskFunc \<Rightarrow> m128 list \<Rightarrow> sse2_state \<Rightarrow> sse2_state" where
  "Sse2Rows f (dqL0 # dqL1 # dqL2 # dqL3 # dqH0 # dqH1 # dqH2 # dqH3 # pdq) s =
     Sse2Rows f pdq (Sse2Row f dqH0 dqH1 dqH2 dqH3 (Sse2Row f dqL0 dqL1 dqL2 dqL3 s))"
| "Sse2Rows f pdq s = s"

definition sse2_init :: sse2_state where
  "sse2_init = \<lparr>s_p = 0, s_dq0 = mm_setzero_si128, s_dq1 = mm_setzero_si128, s_dq2 = mm_setzero_si128,
     s_dq3 = mm_setzero_si128, s_idxp = 0xfe000000\<rparr>"

definition sse2_block :: "bool \<Rightarrow> m128 list \<Rightarrow> m128 list" where
  "sse2_block fHeaderBlock pdq =
     (if fHeaderBlock then mm_unpackhi_epi64 mm_setzero_si128 (hd pdq) # tl pdq else pdq)"

definition EccWords :: "(u32 \<Rightarrow> u32) \<Rightarrow> u32 list \<Rightarrow> u32 \<times> u32" where
  "EccWords parity pdw =
     (case fold (\<lambda>dwT (dw0, q, idxq). (dw0 XOR dwT, q XOR (idxq AND parity dwT), idxq + 0xffe00020))
           pdw (0, 0, 0xffe00000) of
        (dw0, q, _) \<Rightarrow> (dw0, q))"

definition ChecksumNewFormatSSE2 :: "ChecksumParityMaskFunc \<Rightarrow> u32 list \<Rightarrow> u32 \<Rightarrow> bool \<Rightarrow> u64" where
  "ChecksumNewFormatSSE2 f pdw pgno fHeaderBlock =
     (let s = Sse2Rows f (sse2_block fHeaderBlock (dqwords pdw)) sse2_init;
          arydq = lanes (s_dq0 s) @ lanes (s_dq1 s) @ lanes (s_dq2 s) @ lanes (s_dq3 s)
      in case EccWords (parity_dw f) arydq of (dw0, q) \<Rightarrow>
         let r = EccBytes f dw0;
             mask = push_bit 19 (of_nat (4 * length pdw)) - 1;
             ecc = (s_p s AND 0xfe00fe00 AND mask) OR (q AND 0x01e001e0) OR (r AND 0x001f001f)
         in MakeChecksumFromECCXORAndPgno ecc dw0 pgno)"

subsection \<open>ChecksumNewFormatAVX\<close>

record avx_state =
  a_p :: u32
  a_qq0 :: m256
  a_qq1 :: m256
  a_qq2 :: m256
  a_qq3 :: m256
  a_idxp :: u32

definition AvxRow :: "m256 \<Rightarrow> m256 \<Rightarrow> m256 \<Rightarrow> m256 \<Rightarrow> avx_state \<Rightarrow> avx_state" where
  "AvxRow qqL0 qqL1 qqL2 qqL3 s =
     (let qqLAcc = mm256_xor (mm256_xor (mm256_xor qqL0 qqL1) qqL2) qqL3
      in \<lparr>a_p = a_p s XOR (a_idxp s AND lParityMaskAVX qqLAcc),
          a_qq0 = mm256_xor (a_qq0 s) qqL0, a_qq1 = mm256_xor (a_qq1 s) qqL1,
          a_qq2 = mm256_xor (a_qq2 s) qqL2, a_qq3 = mm256_xor (a_qq3 s) qqL3,
          a_idxp = a_idxp s + 0xfc000400\<rparr>)"

fun AvxRows :: "m256 list \<Rightarrow> avx_state \<Rightarrow> avx_state" where
  "AvxRows (qqL0 # qqL1 # qqL2 # qqL3 # pqq) s = AvxRows pqq (AvxRow qqL0 qqL1 qqL2 qqL3 s)"
| "AvxRows pqq s = s"

definition avx_init :: avx_state where
  "avx_init = \<lparr>a_p = 0, a_qq0 = mm256_setzero_si256, a_qq1 = mm256_setzero_si256, a_qq2 = mm256_setzero_si256,
     a_qq3 = mm256_setzero_si256, a_idxp = 0xfc000000\<rparr>"

definition avx_block :: "bool \<Rightarrow> m128 list \<Rightarrow> m256 list" where
  "avx_block fHeaderBlock pdq =
     (if fHeaderBlock
      then M256 (mm_unpackhi_epi64 mm_setzero_si128 (pdq ! 0)) (pdq ! 1) # tl (qqwords pdq)
      else qqwords pdq)"

definition ChecksumNewFormatAVX :: "u32 list \<Rightarrow> u32 \<Rightarrow> bool \<Rightarrow> u64" where
  "ChecksumNewFormatAVX pdw pgno fHeaderBlock =
     (let s = AvxRows (avx_block fHeaderBlock (dqwords pdw)) avx_init;
          qqAcc = mm256_xor (mm256_xor (mm256_xor (a_qq0 s) (a_qq1 s)) (a_qq2 s)) (a_qq3 s);
          q = 0;
          idxq = 0xff000000;
          q = q XOR (idxq AND lParityMaskAVX (a_qq0 s));
          idxq = idxq + 0xff000100;
          q = q XOR (idxq AND lParityMaskAVX (a_qq1 s));
          idxq = idxq + 0xff000100;
          q = q XOR (idxq AND lParityMaskAVX (a_qq2 s));
          idxq = idxq + 0xff000100;
          q = q XOR (idxq AND lParityMaskAVX (a_qq3 s))
      in case EccWords lParityMaskPopcnt (lanes (lo128 qqAcc) @ lanes (hi128 qqAcc)) of (dwAcc, q_) \<Rightarrow>
         let r = EccBytes ParityMaskFuncPopcnt dwAcc;
             mask = push_bit 19 (of_nat (4 * length pdw)) - 1;
             ecc = (a_p s AND 0xfc00fc00 AND mask) OR (q AND 0x03000300) OR (q_ AND 0x00e000e0) OR (r AND 0x001f001f)
         in MakeChecksumFromECCXORAndPgno ecc dwAcc pgno)"

subsection \<open>The choice of the implementation\<close>

text \<open>
  What the processor answers, and the target of the build: \<open>fX86\<close> if it has the x86 intrinsics,
  \<open>fArmEmulation\<close> for the x86 code that runs on ARM.  The function pointers
  \<open>pfnChecksumOldFormat\<close> and \<open>pfnChecksumNewFormat\<close> are set by the first call to what these
  functions select.
\<close>

record cpu =
  fX86 :: bool
  fArmEmulation :: bool
  FAVXEnabled :: bool
  FPopcntAvailable :: bool
  FSSEInstructionsAvailable :: bool
  FSSE2InstructionsAvailable :: bool
  fPointer64 :: bool

definition ChecksumSelectOldFormat :: "cpu \<Rightarrow> u32 list \<Rightarrow> u32" where
  "ChecksumSelectOldFormat c =
     (if fArmEmulation c then ChecksumOldFormatSlowly
      else if FSSEInstructionsAvailable c then
        if FSSE2InstructionsAvailable c then ChecksumOldFormatSSE2 else ChecksumOldFormatSSE
      else if fPointer64 c then ChecksumOldFormat64Bit
      else ChecksumOldFormatSlowly)"

definition ChecksumSelectNewFormat :: "cpu \<Rightarrow> u32 list \<Rightarrow> u32 \<Rightarrow> bool \<Rightarrow> u64" where
  "ChecksumSelectNewFormat c =
     (if fX86 c \<and> \<not> fArmEmulation c \<and> FAVXEnabled c \<and> FPopcntAvailable c then ChecksumNewFormatAVX
      else if fX86 c \<and> \<not> fArmEmulation c \<and> FSSEInstructionsAvailable c then
        if FSSE2InstructionsAvailable c then
          if FPopcntAvailable c then ChecksumNewFormatSSE2 ParityMaskFuncPopcnt
          else ChecksumNewFormatSSE2 ParityMaskFuncDefault
        else ChecksumNewFormatSSE
      else if fPointer64 c then ChecksumNewFormat64Bit
      else ChecksumNewFormatSlowly)"

end
