(* ===== verification/Page_Simd_Props.thy ===== *)
theory Page_Simd_Props
  imports Page_Ecc_Props Page_Simd
begin

text \<open>
  The vector implementations are the reference sum too: the index of a word is split into the
  row of the wide array and the place in the row, and the code of the index is the XOR of the codes of
  the parts.
\<close>

subsection \<open>Splitting an index\<close>

lemma xsum_mult: "xsum f (R * n) = xsum (\<lambda>j. xsum (\<lambda>w. f (R * j + w)) R) n"
proof (induction n)
  case (Suc n)
  have "xsum f (a + b) = xsum f a XOR xsum (\<lambda>w. f (a + w)) b" for a b
    by (induction b) (simp_all add: ac_simps)
  from this [of "R * n" R] Suc show ?case by (simp add: algebra_simps)
qed simp

lemma xsum_swap: "xsum (\<lambda>j. xsum (\<lambda>w. f j w) R) n = xsum (\<lambda>w. xsum (\<lambda>j. f j w) n) R"
  by (induction n) (simp_all add: xsum_xor)

lemma gate_par_xsum: "gate (par 32 (xsum d n)) x = xsum (\<lambda>i. gate (par 32 (d i)) x) n"
  by (rule par_xsum)

lemma split_code:
  assumes "\<And>j w. j < n \<Longrightarrow> w < R \<Longrightarrow> C (R * j + w) = A j XOR B w"
  shows "xsum (\<lambda>i. gate (par 32 (d i)) (C i)) (R * n) =
    xsum (\<lambda>j. gate (par 32 (xsum (\<lambda>w. d (R * j + w)) R)) (A j)) n XOR
    xsum (\<lambda>w. gate (par 32 (xsum (\<lambda>j. d (R * j + w)) n)) (B w)) R"
proof -
  have "xsum (\<lambda>i. gate (par 32 (d i)) (C i)) (R * n) =
      xsum (\<lambda>j. xsum (\<lambda>w. gate (par 32 (d (R * j + w))) (A j) XOR gate (par 32 (d (R * j + w))) (B w)) R) n"
    unfolding xsum_mult by (intro xsum_cong) (simp add: assms gate_xor_dist)
  also have "\<dots> = xsum (\<lambda>j. xsum (\<lambda>w. gate (par 32 (d (R * j + w))) (A j)) R) n XOR
      xsum (\<lambda>w. xsum (\<lambda>j. gate (par 32 (d (R * j + w))) (B w)) n) R"
    unfolding xsum_xor by (subst (2) xsum_swap) (rule refl)
  finally show ?thesis by (simp only: gate_par_xsum)
qed

text \<open>The index \<open>x\<close> and its complement in \<open>m\<close> bits from bit \<open>lo\<close> on.\<close>

definition icode :: "nat \<Rightarrow> nat \<Rightarrow> nat \<Rightarrow> u32" where
  "icode lo m x = push_bit (16 + lo) (NOT (of_nat x) AND mask m) XOR push_bit lo (of_nat x AND mask m)"

lemma row_code_icode: "row_code k i = icode 5 k i"
  by (simp add: row_code_def icode_def)

lemma bit_icode:
  assumes "n < 32"
  shows "bit (icode lo m x) n =
    ((16 + lo \<le> n \<and> \<not> bit x (n - (16 + lo)) \<and> n - (16 + lo) < m) \<noteq> (lo \<le> n \<and> bit x (n - lo) \<and> n - lo < m))"
proof -
  have "n - (16 + lo) < 32" "n - lo < 32" using assms by linarith+
  then show ?thesis unfolding icode_def bit_xor_iff using assms
    by (simp add: bit_push_bit_iff bit_not_iff bit_and_iff bit_mask_iff bit_word_nat) blast
qed

lemma bit_split: "w < 2 ^ r \<Longrightarrow> bit (2 ^ r * j + w :: nat) n = (if n < r then bit w n else bit j (n - r))"
proof -
  assume w: "w < 2 ^ r"
  have e: "2 ^ r * j + w = push_bit r j OR w"
  proof -
    have "push_bit r j AND w = 0"
    proof (rule bit_eqI)
      fix i show "bit (push_bit r j AND w) i = bit (0 :: nat) i"
        using small_nat_bit [OF w, of i] by (auto simp: bit_and_iff bit_push_bit_iff)
    qed
    then have "push_bit r j + w = push_bit r j OR w" by (rule disjunctive_add_eq_or)
    then show ?thesis by (simp add: push_bit_eq_mult mult.commute)
  qed
  show ?thesis unfolding e using small_nat_bit [OF w, of n] by (auto simp: bit_or_iff bit_push_bit_iff)
qed

lemma icode_split:
  assumes "lo + r + m \<le> 16" "w < 2 ^ r" "j < 2 ^ m"
  shows "icode lo (r + m) (2 ^ r * j + w) = icode (lo + r) m j XOR icode lo r w"
proof (rule bit_word_eqI)
  fix n assume "n < LENGTH(32)"
  then have n: "n < 32" by simp
  have j: "i < m" if "bit j i" for i using small_nat_bit [OF assms(3) that] .
  have w: "i < r" if "bit w i" for i using small_nat_bit [OF assms(2) that] .
  have d: "n - (16 + lo) - r = n - (16 + (lo + r))" "n - lo - r = n - (lo + r)" by simp_all
  consider "n < lo" | "lo \<le> n" "n < lo + r" | "lo + r \<le> n" "n < 16 + lo" | "16 + lo \<le> n" "n < 16 + lo + r" |
    "16 + lo + r \<le> n" by linarith
  then show "bit (icode lo (r + m) (2 ^ r * j + w)) n = bit (icode (lo + r) m j XOR icode lo r w) n"
    unfolding bit_xor_iff bit_icode [OF n] bit_split [OF assms(2)] d using assms(1)
      j [of "n - (16 + (lo + r))"] j [of "n - (lo + r)"] w [of "n - (16 + lo)"] w [of "n - lo"]
    by cases auto
qed

subsection \<open>Parities by counting bits and by folding lanes\<close>

lemma popcnt_par: "odd (length (filter (bit w) [0..<n])) = par n w"
  by (induction n) auto

lemma parity_mask: "- (of_nat n AND 0x01) = gate (odd n) (- 1 :: u32)"
proof -
  have "(of_nat n AND 1 :: u32) = of_bool (odd n)"
    by (rule bit_word_eqI) (auto simp: bit_and_iff bit_1_iff bit_of_bool_iff bit_word_nat bit_0)
  then show ?thesis by (simp add: gate_def)
qed

lemma par_cong: "(\<And>i. i < n \<Longrightarrow> bit a i = bit b i) \<Longrightarrow> par n a = par n b"
  by (induction n) simp_all

lemma par_64: "par 64 (ucast a OR push_bit 32 (ucast b) :: u64) = par 32 (a XOR b)" for a b :: u32
proof -
  let ?q = "ucast a OR push_bit 32 (ucast b) :: u64"
  have "par 32 ?q = par 32 a"
    by (rule par_cong) (auto simp: bit_or_iff bit_ucast_iff bit_push_bit_iff)
  moreover have "par 32 (drop_bit 32 ?q) = par 32 b"
    by (rule par_cong) (auto simp: bit_or_iff bit_ucast_iff bit_push_bit_iff bit_drop_bit_eq dest: bit_imp_le_length)
  ultimately show ?thesis using par_add [of 32 32 ?q] by (simp add: par_xor)
qed

definition xor4 :: "m128 \<Rightarrow> u32" where
  "xor4 a = lane0 a XOR lane1 a XOR lane2 a XOR lane3 a"

definition xor8 :: "m256 \<Rightarrow> u32" where
  "xor8 a = xor4 (lo128 a) XOR xor4 (hi128 a)"

lemma xor4_xor: "xor4 (mm_xor_si128 a b) = xor4 a XOR xor4 b"
  by (simp add: xor4_def mm_xor_si128_def ac_simps)

lemma xor8_xor: "xor8 (mm256_xor a b) = xor8 a XOR xor8 b"
  by (simp add: xor8_def mm256_xor_def xor4_xor ac_simps)

lemma lParityMaskPopcnt_eq: "lParityMaskPopcnt w = gate (par 32 w) (- 1)"
  using popcnt_par [of w 32] by (simp add: lParityMaskPopcnt_def mm_popcnt_def parity_mask)

lemma parity_dw_eq: "parity_dw f w = gate (par 32 w) (- 1)"
  by (simp add: parity_dw_def lParityMaskPopcnt_eq lParityMask_eq)

lemma popcnt64: "- (mm_popcnt (mm_cvtsi128_si64 a) AND 0x01) = gate (par 32 (lane0 a XOR lane1 a)) (- 1)"
  using popcnt_par [of "mm_cvtsi128_si64 a" 64]
  by (simp add: mm_popcnt_def parity_mask mm_cvtsi128_si64_def par_64)

lemma shuffles: "mm_shuffle_epi32 a 0x4e = M128 (lane2 a) (lane3 a) (lane0 a) (lane1 a)"
  "mm_shuffle_epi32 a 0x1b = M128 (lane3 a) (lane2 a) (lane1 a) (lane0 a)"
  by (simp_all add: mm_shuffle_epi32_def lanes_def)

lemma parity_dq_eq: "parity_dq f a = gate (par 32 (xor4 a)) (- 1)"
  unfolding parity_dq_def lParityMaskPopcnt_dq_def lParityMask_dq_def Let_def popcnt64 lParityMask_eq
  by (simp add: shuffles mm_xor_si128_def xor4_def mm_cvtsi128_si32_def ac_simps)

lemma lParityMaskAVX_eq: "lParityMaskAVX a = gate (par 32 (xor8 a)) (- 1)"
  unfolding lParityMaskAVX_def Let_def popcnt64
  by (simp add: shuffles mm256_permute2f128_si256_01_def mm256_xor_def mm_xor_si128_def xor4_def xor8_def ac_simps)

lemma parity_byte_eq: "parity_byte f b = gate (par 8 b) (- 1)"
proof -
  have m: "(0xff :: u32) = mask 8" by (simp add: mask_eq_exp_minus_1)
  have "uint (b AND mask 8) < 256" using uint_and_mask [of b 8] by simp
  moreover have "par 32 (b AND mask 8) = par 8 b"
  proof -
    have "par 24 (drop_bit 8 (b AND mask 8)) = par 24 (0 :: u32)"
      by (rule par_cong) (simp add: bit_drop_bit_eq bit_and_iff bit_mask_iff)
    then show ?thesis using par_add [of 8 24 "b AND mask 8"] par_and_mask [of 8 8 b] by simp
  qed
  ultimately show ?thesis
    using table_parity [of "b AND mask 8"] par_and_mask [of 8 8 b]
    by (simp add: parity_byte_def lParityMaskPopcnt_eq m)
qed

lemma and_gate: "x AND gate b (- 1) = gate b x"
  by (cases b) simp_all

subsection \<open>The double index\<close>

lemma double_index:
  assumes "lo + m \<le> 16" "j < 2 ^ m"
  shows "(push_bit (16 + lo) (- 1) + of_nat j * (push_bit lo 1 - push_bit (16 + lo) 1)) AND
      ((push_bit (16 + lo) (mask (16 - lo)) OR push_bit lo (mask (16 - lo))) AND mask (16 + lo + m)) = icode lo m j"
proof -
  have sj: "i < m" if "bit j i" for i using small_nat_bit [OF assms(2) that] .
  have e: "push_bit (16 + lo) (- 1) + of_nat j * (push_bit lo 1 - push_bit (16 + lo) 1) =
      push_bit (16 + lo) (NOT (of_nat j)) + push_bit lo (of_nat j :: u32)"
    by (simp add: push_bit_eq_mult not_eq_complement algebra_simps)
  have "push_bit (16 + lo) (NOT (of_nat j)) AND push_bit lo (of_nat j :: u32) = 0"
  proof (rule bit_word_eqI)
    fix n assume "n < LENGTH(32)"
    then show "bit (push_bit (16 + lo) (NOT (of_nat j)) AND push_bit lo (of_nat j :: u32)) n = bit (0 :: u32) n"
      using sj [of "n - lo"] assms(1) by (auto simp: bit_and_iff bit_push_bit_iff bit_word_nat)
  qed
  then have e': "push_bit (16 + lo) (- 1) + of_nat j * (push_bit lo 1 - push_bit (16 + lo) 1) =
      push_bit (16 + lo) (NOT (of_nat j)) XOR push_bit lo (of_nat j :: u32)"
    unfolding e by (rule disjunctive_add_eq_xor)
  show ?thesis
    unfolding e'
  proof (rule bit_word_eqI)
    fix n assume "n < LENGTH(32)"
    then have n: "n < 32" "n - (16 + lo) < 32" "n - lo < 32" by auto
    have "n - (16 + lo) < m \<longleftrightarrow> n < 16 + lo + m" if "16 + lo \<le> n" using that by linarith
    then show "bit ((push_bit (16 + lo) (NOT (of_nat j)) XOR push_bit lo (of_nat j :: u32)) AND
        ((push_bit (16 + lo) (mask (16 - lo)) OR push_bit lo (mask (16 - lo))) AND mask (16 + lo + m))) n = bit (icode lo m j) n"
      unfolding bit_icode [OF n(1)] using n assms(1) sj [of "n - lo"] sj [of "n - (16 + lo)"]
      by (auto simp: bit_and_iff bit_or_iff bit_xor_iff bit_push_bit_iff bit_not_iff bit_mask_iff bit_word_nat)
  qed
qed

subsection \<open>Columns by bytes\<close>

definition lookup_code :: "int \<Rightarrow> int" where
  "lookup_code k = fold (\<lambda>t r. if k div 2 ^ t mod 2 = 1 then r XOR (int t + 16 * (7 - int t)) else r) [0..<8] 0"

lemma lookup_entries: "g_bECCLookupTable = map lookup_code [0..255]"
  by code_simp

lemma fold_xsum: "fold (\<lambda>t r. if P t then r XOR f t else r) [0..<n] 0 = xsum (\<lambda>t. gate (P t) (f t)) n"
  by (induction n) (simp_all add: gate_def)

lemma of_int_fold_xor:
  "word_of_int (fold (\<lambda>t r. if P t then r XOR f t else r) xs a) =
    fold (\<lambda>t r. if P t then r XOR word_of_int (f t) else r) xs (word_of_int a :: u32)"
proof (induction xs arbitrary: a)
  case (Cons t xs)
  have "word_of_int (a XOR f t) = (word_of_int a XOR word_of_int (f t) :: u32)"
    by (rule bit_word_eqI) (simp add: bit_word_of_int_iff bit_xor_iff)
  then show ?case by (simp add: Cons)
qed simp

lemma lECCLookup8bit_eq: "lECCLookup8bit b = xsum (\<lambda>t. gate (bit b t) (word_of_int (int t + 16 * (7 - int t)))) 8"
proof -
  have m: "(0xff :: u32) = mask 8" by (simp add: mask_eq_exp_minus_1)
  let ?b = "b AND mask 8"
  have l: "uint ?b < 256" using uint_and_mask [of b 8] by simp
  have u: "unat ?b < 256" using l unfolding unat_eq_nat_uint by (subst nat_less_iff) simp_all
  have "[0..255] ! unat ?b = 0 + int (unat ?b)" by (rule nth_upto) (use u in linarith)
  then have e: "g_bECCLookupTable ! unat ?b = lookup_code (uint ?b)"
    unfolding lookup_entries using u by (subst nth_map) simp_all
  have p: "(uint ?b div 2 ^ t mod 2 = 1) = (t < 8 \<and> bit b t)" for t
  proof -
    have "(uint ?b div 2 ^ t mod 2 = 1) = bit (uint ?b) t" by (simp add: bit_iff_odd odd_iff_mod_2_eq_one)
    then show ?thesis by (auto simp: bit_uint_iff bit_and_iff bit_mask_iff dest: bit_imp_le_length)
  qed
  have "lECCLookup8bit b = xsum (\<lambda>t. gate (t < 8 \<and> bit b t) (word_of_int (int t + 16 * (7 - int t)))) 8"
    unfolding lECCLookup8bit_def m e lookup_code_def of_int_fold_xor of_int_0 fold_xsum p by (rule refl)
  also have "\<dots> = xsum (\<lambda>t. gate (bit b t) (word_of_int (int t + 16 * (7 - int t)))) 8"
    by (rule xsum_cong) simp
  finally show ?thesis .
qed

lemma lookup_bits:
  "(lECCLookup8bit b AND 0x07) XOR (push_bit 12 (lECCLookup8bit b) AND 0x00070000) = xsum (\<lambda>t. gate (bit b t) (icode 0 3 t)) 8"
proof -
  have "list_all (\<lambda>t. (word_of_int (int t + 16 * (7 - int t)) AND 0x07) XOR
      (push_bit 12 (word_of_int (int t + 16 * (7 - int t))) AND 0x00070000) = icode 0 3 t) [0..<8]"
    by code_simp
  then have c: "(word_of_int (int t + 16 * (7 - int t)) AND 0x07) XOR
      (push_bit 12 (word_of_int (int t + 16 * (7 - int t))) AND 0x00070000) = icode 0 3 t" if "t < 8" for t
    using that by (simp add: list_all_iff)
  show ?thesis
    unfolding lECCLookup8bit_eq xsum_and xsum_push xsum_xor [symmetric] gf2
    by (rule xsum_cong) (simp only: gate_xor_dist [symmetric] c)
qed

definition one_bit :: "bool \<Rightarrow> u32" where
  "one_bit b = (if b then 1 else 0)"

lemma par_one_bit: "par 32 (one_bit b) = b"
  using par_push_one [of 0 32] by (simp add: one_bit_def)

lemma par_bits: "par 32 (xsum (\<lambda>u. one_bit (bit w (k + u))) n) = par n (drop_bit k w)"
  by (induction n) (simp_all add: par_xor par_one_bit bit_drop_bit_eq)

lemma byte_fold:
  fixes a s w :: u32
  shows "fold (\<lambda>_ (r, byteT, byte0, idxr). (r XOR gate (par 8 byteT) idxr, drop_bit 8 byteT, byte0 XOR byteT, idxr + s))
      [0..<4] (0, w, 0, a) =
    (xsum (\<lambda>t. gate (par 8 (drop_bit (8 * t) w)) (a + of_nat t * s)) 4, drop_bit 32 w,
     w XOR drop_bit 8 w XOR drop_bit 16 w XOR drop_bit 24 w, a + 4 * s)"
proof -
  have four: "[0..<4] = [0, 1, 2, 3 :: nat]" by code_simp
  have "xsum (\<lambda>t. gate (par 8 (drop_bit (8 * t) w)) (a + of_nat t * s)) 4 =
      gate (par 8 w) a XOR gate (par 8 (drop_bit 8 w)) (a + s) XOR gate (par 8 (drop_bit 16 w)) (a + s + s) XOR
      gate (par 8 (drop_bit 24 w)) (a + s + s + s)"
    by (simp add: eval_nat_numeral ac_simps distrib_right)
  moreover have "a + 4 * s = a + s + s + s + s"
  proof -
    have "(4 :: u32) = 1 + 1 + 1 + 1" by simp
    then show ?thesis by (simp only: distrib_right mult_1 add.assoc)
  qed
  ultimately show ?thesis by (simp add: four ac_simps)
qed

lemma EccBytes_eq: "EccBytes f w AND 0x001f001f = colsum col_code w"
proof -
  let ?b0 = "w XOR drop_bit 8 w XOR drop_bit 16 w XOR drop_bit 24 w"
  let ?r = "xsum (\<lambda>t. gate (par 8 (drop_bit (8 * t) w)) (0xfff80000 + of_nat t * 0xfff80008)) 4 :: u32"
  have x4: "xsum f 4 = f 0 XOR f 1 XOR f 2 XOR f 3" for f :: "nat \<Rightarrow> u32"
    by (simp add: eval_nat_numeral ac_simps)
  define bits where "bits = lECCLookup8bit ?b0"
  have e: "EccBytes f w = (?r OR (bits AND 0x07)) OR (push_bit 12 bits AND 0x00070000)"
    unfolding EccBytes_def parity_byte_eq and_gate byte_fold prod.case Let_def bits_def by (rule refl)
  have i: "list_all (\<lambda>t. (0xfff80000 + of_nat t * 0xfff80008 :: u32) AND 0x00180018 = icode 3 2 t \<and>
      (0xfff80000 + of_nat t * 0xfff80008 :: u32) AND 0x00070007 = 0) [0..<4]"
    by code_simp
  have r: "?r AND 0x00180018 = xsum (\<lambda>t. gate (par 8 (drop_bit (8 * t) w)) (icode 3 2 t)) 4"
    unfolding xsum_and gf2 by (rule xsum_cong) (use i in \<open>simp add: list_all_iff\<close>)
  have r0: "?r AND 0x00070007 = 0"
    unfolding xsum_and gf2 by (rule xsum_zero) (use i in \<open>simp add: list_all_iff\<close>)
  have m: "(0x001f001f :: u32) = 0x00180018 OR 0x00070007" "(0x07 :: u32) = 0x07 AND 0x00070007"
    "(0x00070000 :: u32) = 0x00070000 AND 0x00070007" "(0x00180018 :: u32) AND 0x00070007 = 0"
    "(0x07 :: u32) AND 0x00070000 = 0" by simp_all
  have b: "((x OR (y AND a)) OR (z AND c)) AND (A OR B) = (x AND A) XOR ((y AND a) XOR (z AND c))"
    if "x AND B = 0" "a AND B = a" "c AND B = c" "A AND B = 0" "a AND c = 0" for x y z a c A B :: u32
  proof (rule bit_word_eqI)
    fix n
    have "bit (x AND B) n = bit (0 :: u32) n" "bit (a AND B) n = bit a n" "bit (c AND B) n = bit c n"
      "bit (A AND B) n = bit (0 :: u32) n" "bit (a AND c) n = bit (0 :: u32) n"
      using that by simp_all
    then show "bit (((x OR (y AND a)) OR (z AND c)) AND (A OR B)) n = bit ((x AND A) XOR ((y AND a) XOR (z AND c))) n"
      by (auto simp: bit_and_iff bit_or_iff bit_xor_iff)
  qed
  have L: "EccBytes f w AND 0x001f001f =
      xsum (\<lambda>t. gate (par 8 (drop_bit (8 * t) w)) (icode 3 2 t)) 4 XOR xsum (\<lambda>t. gate (bit ?b0 t) (icode 0 3 t)) 8"
    unfolding e m(1) b [OF r0 m(2) [symmetric] m(3) [symmetric] m(4,5)] r bits_def lookup_bits by (rule refl)
  have c: "col_code (8 * j + u) = icode 3 2 j XOR icode 0 3 u" if "j < 4" "u < 8" for j u
    using icode_split [of 0 3 2 u j] that by (simp add: col_code_def icode_def mask_eq_exp_minus_1 numeral_eq_Suc)
  have "colsum col_code w = xsum (\<lambda>i. gate (par 32 (one_bit (bit w i))) (col_code i)) (8 * 4)"
    by (simp add: colsum_def par_one_bit)
  also have "\<dots> = xsum (\<lambda>j. gate (par 32 (xsum (\<lambda>u. one_bit (bit w (8 * j + u))) 8)) (icode 3 2 j)) 4 XOR
      xsum (\<lambda>u. gate (par 32 (xsum (\<lambda>j. one_bit (bit w (8 * j + u))) 4)) (icode 0 3 u)) 8"
    by (rule split_code) (rule c)
  also have "xsum (\<lambda>u. gate (par 32 (xsum (\<lambda>j. one_bit (bit w (8 * j + u))) 4)) (icode 0 3 u)) 8 =
      xsum (\<lambda>t. gate (bit ?b0 t) (icode 0 3 t)) 8"
  proof (rule xsum_cong)
    fix u assume "u < (8 :: nat)"
    have "par 32 (xsum (\<lambda>j. one_bit (bit w (8 * j + u))) 4) = bit ?b0 u"
      unfolding x4 by (simp add: par_xor par_one_bit bit_xor_iff bit_drop_bit_eq)
    then show "gate (par 32 (xsum (\<lambda>j. one_bit (bit w (8 * j + u))) 4)) (icode 0 3 u) = gate (bit ?b0 u) (icode 0 3 u)"
      by simp
  qed
  finally show ?thesis unfolding L par_bits ..
qed

subsection \<open>The words of the accumulated columns\<close>

lemma EccWords_eq:
  assumes "\<And>w. parity w = gate (par 32 w) (- 1)"
  shows "EccWords parity (map g [0..<n]) =
    (xsum g n, xsum (\<lambda>w. gate (par 32 (g w)) (0xffe00000 + of_nat w * 0xffe00020)) n)"
proof -
  have "fold (\<lambda>dwT (dw0, q, idxq). (dw0 XOR dwT, q XOR (idxq AND parity dwT), idxq + 0xffe00020))
      (map g [0..<n]) (0, 0, 0xffe00000) =
    (xsum g n, xsum (\<lambda>w. gate (par 32 (g w)) (0xffe00000 + of_nat w * 0xffe00020)) n, 0xffe00000 + of_nat n * 0xffe00020 :: u32)"
    unfolding assms and_gate by (induction n) (simp_all add: algebra_simps)
  then show ?thesis by (simp add: EccWords_def)
qed

subsection \<open>The blocks as registers\<close>

lemma length_dqwords: "length (dqwords ws) = length ws div 4"
  by (induction ws rule: dqwords.induct) simp_all

lemma nth_dqwords:
  "4 * i + 3 < length ws \<Longrightarrow>
    dqwords ws ! i = M128 (ws ! (4 * i)) (ws ! (4 * i + 1)) (ws ! (4 * i + 2)) (ws ! (4 * i + 3))"
proof (induction ws arbitrary: i rule: dqwords.induct)
  case (1 d0 d1 d2 d3 ws)
  show ?case
  proof (cases i)
    case (Suc i')
    have "4 * i = Suc (Suc (Suc (Suc (4 * i'))))" "4 * i + 1 = Suc (Suc (Suc (Suc (4 * i' + 1))))"
      "4 * i + 2 = Suc (Suc (Suc (Suc (4 * i' + 2))))" "4 * i + 3 = Suc (Suc (Suc (Suc (4 * i' + 3))))"
      using Suc by simp_all
    then show ?thesis using 1 Suc by (simp add: add.commute)
  qed simp
qed simp_all

lemma sse2_block_words:
  "4 \<le> length pdw \<Longrightarrow> sse2_block h (dqwords pdw) = dqwords (ecc_words h pdw)"
  by (cases pdw rule: dqwords.cases)
    (simp_all add: sse2_block_def ecc_words_def mm_unpackhi_epi64_def mm_setzero_si128_def numeral_2_eq_2)

lemma length_qqwords: "length (qqwords pdq) = length pdq div 2"
  by (induction pdq rule: qqwords.induct) simp_all

lemma nth_qqwords: "2 * i + 1 < length pdq \<Longrightarrow> qqwords pdq ! i = M256 (pdq ! (2 * i)) (pdq ! (2 * i + 1))"
proof (induction pdq arbitrary: i rule: qqwords.induct)
  case (1 a b pdq)
  then show ?case by (cases i) simp_all
qed simp_all

lemma avx_block_words:
  "8 \<le> length pdw \<Longrightarrow> avx_block h (dqwords pdw) = qqwords (dqwords (ecc_words h pdw))"
proof -
  assume "8 \<le> length pdw"
  then obtain d0 d1 d2 d3 d4 d5 d6 d7 rest where "pdw = d0 # d1 # d2 # d3 # d4 # d5 # d6 # d7 # rest"
    by (auto simp: Suc_le_length_iff numeral_eq_Suc)
  then show ?thesis
    by (simp add: avx_block_def ecc_words_def mm_unpackhi_epi64_def mm_setzero_si128_def numeral_2_eq_2)
qed

subsection \<open>SSE2\<close>

definition q128 :: "(nat \<Rightarrow> m128) \<Rightarrow> nat \<Rightarrow> m128" where
  "q128 f n = M128 (xsum (\<lambda>j. lane0 (f j)) n) (xsum (\<lambda>j. lane1 (f j)) n) (xsum (\<lambda>j. lane2 (f j)) n) (xsum (\<lambda>j. lane3 (f j)) n)"

lemma q128_simps [simp]: "q128 f 0 = mm_setzero_si128" "q128 f (Suc n) = mm_xor_si128 (q128 f n) (f n)"
  by (simp_all add: q128_def mm_setzero_si128_def mm_xor_si128_def)

lemma upt_front: "[0..<Suc n] = 0 # map Suc [0..<n]"
  by (simp add: upt_conv_Cons map_Suc_upt del: upt_Suc)

lemma fold_upt_2: "fold F [0..<Suc (Suc n)] s = fold (\<lambda>j. F (Suc (Suc j))) [0..<n] (F 1 (F 0 s))"
  by (simp add: upt_front fold_map comp_def del: upt_Suc)

lemma fold_upt_1: "fold F [0..<Suc n] s = fold (\<lambda>j. F (Suc j)) [0..<n] (F 0 s)"
  by (simp add: upt_front fold_map comp_def del: upt_Suc)

definition sse2_step :: "ChecksumParityMaskFunc \<Rightarrow> m128 list \<Rightarrow> nat \<Rightarrow> sse2_state \<Rightarrow> sse2_state" where
  "sse2_step f pdq j = Sse2Row f (pdq ! (4 * j)) (pdq ! (4 * j + 1)) (pdq ! (4 * j + 2)) (pdq ! (4 * j + 3))"

lemma Sse2Rows_fold: "length pdq = 8 * m \<Longrightarrow> Sse2Rows f pdq s = fold (sse2_step f pdq) [0..<2 * m] s"
proof (induction m arbitrary: pdq s)
  case (Suc m)
  then obtain a0 a1 a2 a3 a4 a5 a6 a7 rest where p: "pdq = a0 # a1 # a2 # a3 # a4 # a5 # a6 # a7 # rest"
    by (auto simp: length_Suc_conv eval_nat_numeral)
  have "length rest = 8 * m" using Suc.prems by (simp add: p)
  note IH = Suc.IH [OF this]
  have st: "sse2_step f pdq (Suc (Suc j)) = sse2_step f rest j" for j
  proof -
    have "4 * Suc (Suc j) + k = Suc (Suc (Suc (Suc (Suc (Suc (Suc (Suc (4 * j + k))))))))" for k by simp
    from this [of 0] this [of 1] this [of 2] this [of 3] show ?thesis by (simp add: sse2_step_def p add.commute)
  qed
  have "2 * Suc m = Suc (Suc (2 * m))" by simp
  then show ?case unfolding \<open>2 * Suc m = _\<close> fold_upt_2 st
    by (simp add: p IH) (simp add: sse2_step_def numeral_eq_Suc)
qed simp

lemma sse2_fold:
  "fold (sse2_step f pdq) [0..<n] sse2_init =
    \<lparr>s_p = xsum (\<lambda>j. gate (par 32 (xor4 (pdq ! (4 * j)) XOR xor4 (pdq ! (4 * j + 1)) XOR xor4 (pdq ! (4 * j + 2)) XOR
       xor4 (pdq ! (4 * j + 3)))) (0xfe000000 + of_nat j * 0xfe000200)) n,
     s_dq0 = q128 (\<lambda>j. pdq ! (4 * j)) n, s_dq1 = q128 (\<lambda>j. pdq ! (4 * j + 1)) n, s_dq2 = q128 (\<lambda>j. pdq ! (4 * j + 2)) n,
     s_dq3 = q128 (\<lambda>j. pdq ! (4 * j + 3)) n, s_idxp = 0xfe000000 + of_nat n * 0xfe000200\<rparr>"
  by (induction n)
    (simp_all add: sse2_init_def sse2_step_def Sse2Row_def Let_def parity_dq_eq and_gate xor4_xor algebra_simps xor.assoc)

lemma q128_cong: "(\<And>j. j < n \<Longrightarrow> f j = g j) \<Longrightarrow> q128 f n = q128 g n"
  by (induction n) simp_all

lemma two_level:
  assumes "k = r + m" "k \<le> 11"
  shows "xsum (\<lambda>i. gate (par 32 (d i)) (row_code k i)) (2 ^ k) =
    xsum (\<lambda>j. gate (par 32 (xsum (\<lambda>w. d (2 ^ r * j + w)) (2 ^ r))) (icode (5 + r) m j)) (2 ^ m) XOR
    xsum (\<lambda>w. gate (par 32 (xsum (\<lambda>j. d (2 ^ r * j + w)) (2 ^ m))) (icode 5 r w)) (2 ^ r)"
proof -
  have k: "2 ^ k = 2 ^ r * (2 :: nat) ^ m" by (simp add: assms(1) power_add)
  show ?thesis unfolding k
  proof (rule split_code)
    fix j w :: nat assume "j < 2 ^ m" "w < 2 ^ r"
    then show "row_code k (2 ^ r * j + w) = icode (5 + r) m j XOR icode 5 r w"
      using icode_split [of 5 r m w j] assms by (simp add: row_code_icode)
  qed
qed

lemma or_xor_masked: "A AND B = 0 \<Longrightarrow> (a AND A) OR (b AND B) = (a AND A) XOR (b AND B)" for a b A B :: u32
proof (rule bit_word_eqI)
  fix n assume "A AND B = 0"
  then have "bit (A AND B) n = bit (0 :: u32) n" by simp
  then show "bit ((a AND A) OR (b AND B)) n = bit ((a AND A) XOR (b AND B)) n"
    by (auto simp: bit_or_iff bit_and_iff bit_xor_iff)
qed

lemma cb_mask19: "length pdw = 2 ^ k \<Longrightarrow> push_bit 19 (of_nat (4 * length pdw)) - 1 = (mask (k + 21) :: u32)"
  by (simp add: mask_eq_exp_minus_1 push_bit_eq_mult power_add)

lemma ecc_ref_split:
  "ecc_ref k d = xsum (\<lambda>i. gate (par 32 (d i)) (row_code k i)) (2 ^ k) XOR colsum col_code (xsum d (2 ^ k))"
  unfolding ecc_ref_def xsum_xor colsum_xsum by (rule refl)

lemma sse2_p:
  assumes "4 \<le> k" "k \<le> 11" "j < 2 ^ (k - 4)"
  shows "(0xfe000000 + of_nat j * 0xfe000200) AND (0xfe00fe00 AND mask (k + 21)) = icode 9 (k - 4) j"
proof -
  have c: "(0xfe000000 :: u32) = push_bit (16 + 9) (- 1)" "(0xfe000200 :: u32) = push_bit 9 1 - push_bit (16 + 9) 1"
    "(0xfe00fe00 :: u32) = push_bit (16 + 9) (mask (16 - 9)) OR push_bit 9 (mask (16 - 9))"
    by (simp_all add: push_bit_eq_mult mask_eq_exp_minus_1)
  have m: "k + 21 = 16 + 9 + (k - 4)" using assms(1) by simp
  show ?thesis unfolding c m by (rule double_index) (use assms in auto)
qed

lemma word_idx_16: "w < 16 \<Longrightarrow> (0xffe00000 + of_nat w * 0xffe00020) AND 0x01e001e0 = icode 5 4 w"
proof -
  have "list_all (\<lambda>w. (0xffe00000 + of_nat w * 0xffe00020) AND 0x01e001e0 = icode 5 4 w) [0..<16]" by code_simp
  then show "w < 16 \<Longrightarrow> ?thesis" by (simp add: list_all_iff)
qed

text \<open>The row parities and the accumulated words behind the loop.\<close>

lemma sse2_loop:
  fixes f :: ChecksumParityMaskFunc
  assumes l: "length ws = 16 * n" and n: "n = 2 * m"
  defines "s \<equiv> Sse2Rows f (dqwords ws) sse2_init"
  shows "s_p s = xsum (\<lambda>j. gate (par 32 (xsum (\<lambda>w. ws ! (16 * j + w)) 16)) (0xfe000000 + of_nat j * 0xfe000200)) n"
    "lanes (s_dq0 s) @ lanes (s_dq1 s) @ lanes (s_dq2 s) @ lanes (s_dq3 s) =
      map (\<lambda>w. xsum (\<lambda>j. ws ! (16 * j + w)) n) [0..<16]"
proof -
  let ?pdq = "dqwords ws"
  have nq: "?pdq ! (4 * j + c) = M128 (ws ! (16 * j + 4 * c)) (ws ! (16 * j + (4 * c + 1)))
      (ws ! (16 * j + (4 * c + 2))) (ws ! (16 * j + (4 * c + 3)))"
    if "j < n" "c < 4" for j c
    using nth_dqwords [of "4 * j + c" ws] that l by (simp add: algebra_simps)
  have st: "s = fold (sse2_step f ?pdq) [0..<n] sse2_init"
    using Sse2Rows_fold [of ?pdq m] l n by (simp add: s_def length_dqwords)
  show "s_p s = xsum (\<lambda>j. gate (par 32 (xsum (\<lambda>w. ws ! (16 * j + w)) 16)) (0xfe000000 + of_nat j * 0xfe000200)) n"
    unfolding st sse2_fold sse2_state.simps
  proof (rule xsum_cong)
    fix j assume j: "j < n"
    have "xor4 (?pdq ! (4 * j)) XOR xor4 (?pdq ! (4 * j + 1)) XOR xor4 (?pdq ! (4 * j + 2)) XOR xor4 (?pdq ! (4 * j + 3)) =
        xsum (\<lambda>w. ws ! (16 * j + w)) 16"
      using nq [OF j, of 0] nq [OF j, of 1] nq [OF j, of 2] nq [OF j, of 3]
      by (simp add: xor4_def eval_nat_numeral ac_simps)
    then show "gate (par 32 (xor4 (?pdq ! (4 * j)) XOR xor4 (?pdq ! (4 * j + 1)) XOR xor4 (?pdq ! (4 * j + 2)) XOR
        xor4 (?pdq ! (4 * j + 3)))) (0xfe000000 + of_nat j * 0xfe000200) =
      gate (par 32 (xsum (\<lambda>w. ws ! (16 * j + w)) 16)) (0xfe000000 + of_nat j * 0xfe000200 :: u32)"
      by (simp only:)
  qed
  let ?col = "\<lambda>w. xsum (\<lambda>j. ws ! (16 * j + w)) n"
  have q: "q128 (\<lambda>j. ?pdq ! (4 * j + c)) n = M128 (?col (4 * c)) (?col (4 * c + 1)) (?col (4 * c + 2)) (?col (4 * c + 3))"
    if "c < 4" for c
    using nq that by (subst q128_cong) (auto simp: q128_def)
  have u: "[0..<16] = [0, 1, 2, 3, 4, 5, 6, 7, 8, 9, 10, 11, 12, 13, 14, 15 :: nat]" by code_simp
  show "lanes (s_dq0 s) @ lanes (s_dq1 s) @ lanes (s_dq2 s) @ lanes (s_dq3 s) = map ?col [0..<16]"
    unfolding st sse2_fold sse2_state.simps lanes_def u using q [of 0] q [of 1] q [of 2] q [of 3] by simp
qed

lemma or_chain3:
  fixes a b c A B C :: u32
  assumes "A AND B = 0" "(A OR B) AND C = 0"
  shows "((a AND A) OR (b AND B)) OR (c AND C) = ((a AND A) XOR (b AND B)) XOR (c AND C)"
proof -
  have "(a AND A) XOR (b AND B) = ((a AND A) XOR (b AND B)) AND (A OR B)"
    by (rule bit_word_eqI) (auto simp: bit_or_iff bit_and_iff bit_xor_iff)
  then show ?thesis
    unfolding or_xor_masked [OF assms(1)] using or_xor_masked [OF assms(2), of "(a AND A) XOR (b AND B)" c] by simp
qed

lemma mask_zero: "A AND B = 0 \<Longrightarrow> (A AND M) AND B = 0" for A B M :: u32
proof -
  have "(A AND M) AND B = (A AND B) AND M" by (simp only: ac_simps)
  then show "A AND B = 0 \<Longrightarrow> ?thesis" by simp
qed

lemma pow_split: "r < k \<Longrightarrow> (2 :: nat) ^ k = 2 ^ r * 2 ^ (k - r)" "r < k \<Longrightarrow> (2 :: nat) ^ (k - r) = 2 * 2 ^ (k - r - 1)"
  by (simp flip: power_add) (metis Suc_diff_1 power_Suc zero_less_diff)

lemma ChecksumNewFormatSSE2_ref:
  assumes "length pdw = 2 ^ k" "5 \<le> k" "k \<le> 11"
  shows "ChecksumNewFormatSSE2 f pdw pgno h = checksum_ref k pdw pgno h"
proof -
  define ws where "ws = ecc_words h pdw"
  define n where "n = (2 :: nat) ^ (k - 4)"
  let ?row = "\<lambda>j. xsum (\<lambda>w. ws ! (16 * j + w)) 16" and ?col = "\<lambda>w. xsum (\<lambda>j. ws ! (16 * j + w)) n"
  have k: "(2 :: nat) ^ k = 16 * n" "n = 2 * 2 ^ (k - 5)"
    using pow_split [of 4 k] assms(2) by (simp_all add: n_def)
  have l: "length ws = 16 * n" "4 \<le> length pdw" using assms(1) k by (simp_all add: ws_def length_ecc_words)
  define s where "s = Sse2Rows f (dqwords ws) sse2_init"
  note L = sse2_loop [OF l(1) k(2), where f = f, folded s_def]
  define Q where "Q = xsum (\<lambda>w. gate (par 32 (?col w)) (0xffe00000 + of_nat w * 0xffe00020 :: u32)) 16"
  have EW: "EccWords (parity_dw f) (map ?col [0..<16]) = (xsum (\<lambda>i. ws ! i) (2 ^ k), Q)"
  proof -
    have "xsum ?col 16 = xsum (\<lambda>i. ws ! i) (2 ^ k)" unfolding k(1) xsum_mult by (rule xsum_swap [symmetric])
    then show ?thesis unfolding EccWords_eq [OF parity_dw_eq] Q_def by (simp only:)
  qed
  have p: "s_p s AND (0xfe00fe00 AND mask (k + 21)) = xsum (\<lambda>j. gate (par 32 (?row j)) (icode 9 (k - 4) j)) n"
    unfolding L(1) xsum_and gf2 by (rule xsum_cong) (use sse2_p [of k] assms in \<open>simp add: n_def\<close>)
  have q: "Q AND 0x01e001e0 = xsum (\<lambda>w. gate (par 32 (?col w)) (icode 5 4 w)) 16"
    unfolding Q_def xsum_and gf2 by (rule xsum_cong) (simp only: word_idx_16)
  have z: "(0xfe00fe00 :: u32) AND 0x01e001e0 = 0" "(0xfe00fe00 :: u32) AND 0x001f001f = 0"
    "(0x01e001e0 :: u32) AND 0x001f001f = 0" by simp_all
  have z': "(0xfe00fe00 AND mask (k + 21) OR 0x01e001e0) AND 0x001f001f = (0 :: u32)"
    unfolding bit.conj_disj_distrib2 mask_zero [OF z(2)] z(3) by simp
  have "xsum (\<lambda>i. gate (par 32 (ws ! i)) (row_code k i)) (2 ^ k) =
      (s_p s AND (0xfe00fe00 AND mask (k + 21))) XOR (Q AND 0x01e001e0)"
    unfolding p q using two_level [of k 4 "k - 4" "\<lambda>i. ws ! i"] assms by (simp add: n_def)
  then have R: "ecc_ref k (\<lambda>i. ws ! i) = ((s_p s AND (0xfe00fe00 AND mask (k + 21))) XOR (Q AND 0x01e001e0)) XOR
      (EccBytes f (xsum (\<lambda>i. ws ! i) (2 ^ k)) AND 0x001f001f)"
    unfolding ecc_ref_split EccBytes_eq by (simp only:)
  note E = R [folded or_chain3 [OF mask_zero [OF z(1)] z']]
  show ?thesis
    unfolding ChecksumNewFormatSSE2_def Let_def sse2_block_words [OF l(2)] ws_def [symmetric] s_def [symmetric]
      L(2) EW prod.case cb_mask19 [OF assms(1)] checksum_ref_def
    using E by (simp only: and.assoc or.assoc)
qed

subsection \<open>AVX\<close>

definition q256 :: "(nat \<Rightarrow> m256) \<Rightarrow> nat \<Rightarrow> m256" where
  "q256 f n = M256 (q128 (\<lambda>j. lo128 (f j)) n) (q128 (\<lambda>j. hi128 (f j)) n)"

lemma q256_simps [simp]: "q256 f 0 = mm256_setzero_si256" "q256 f (Suc n) = mm256_xor (q256 f n) (f n)"
  by (simp_all add: q256_def mm256_setzero_si256_def mm256_xor_def)

lemma q256_cong: "(\<And>j. j < n \<Longrightarrow> f j = g j) \<Longrightarrow> q256 f n = q256 g n"
  by (induction n) simp_all

definition avx_step :: "m256 list \<Rightarrow> nat \<Rightarrow> avx_state \<Rightarrow> avx_state" where
  "avx_step pqq j = AvxRow (pqq ! (4 * j)) (pqq ! (4 * j + 1)) (pqq ! (4 * j + 2)) (pqq ! (4 * j + 3))"

lemma AvxRows_fold: "length pqq = 4 * n \<Longrightarrow> AvxRows pqq s = fold (avx_step pqq) [0..<n] s"
proof (induction n arbitrary: pqq s)
  case (Suc n)
  then obtain a0 a1 a2 a3 rest where p: "pqq = a0 # a1 # a2 # a3 # rest"
    by (auto simp: length_Suc_conv eval_nat_numeral)
  have "length rest = 4 * n" using Suc.prems by (simp add: p)
  note IH = Suc.IH [OF this]
  have st: "avx_step pqq (Suc j) = avx_step rest j" for j
  proof -
    have "4 * Suc j + k = Suc (Suc (Suc (Suc (4 * j + k))))" for k by simp
    from this [of 0] this [of 1] this [of 2] this [of 3] show ?thesis by (simp add: avx_step_def p add.commute)
  qed
  show ?case unfolding fold_upt_1 st by (simp add: p IH) (simp add: avx_step_def numeral_eq_Suc)
qed simp

lemma avx_fold:
  "fold (avx_step pqq) [0..<n] avx_init =
    \<lparr>a_p = xsum (\<lambda>j. gate (par 32 (xor8 (pqq ! (4 * j)) XOR xor8 (pqq ! (4 * j + 1)) XOR xor8 (pqq ! (4 * j + 2)) XOR
       xor8 (pqq ! (4 * j + 3)))) (0xfc000000 + of_nat j * 0xfc000400)) n,
     a_qq0 = q256 (\<lambda>j. pqq ! (4 * j)) n, a_qq1 = q256 (\<lambda>j. pqq ! (4 * j + 1)) n, a_qq2 = q256 (\<lambda>j. pqq ! (4 * j + 2)) n,
     a_qq3 = q256 (\<lambda>j. pqq ! (4 * j + 3)) n, a_idxp = 0xfc000000 + of_nat n * 0xfc000400\<rparr>"
  by (induction n)
    (simp_all add: avx_init_def avx_step_def AvxRow_def Let_def lParityMaskAVX_eq and_gate xor8_xor algebra_simps xor.assoc)

lemma avx_loop:
  assumes l: "length ws = 32 * n"
  defines "s \<equiv> AvxRows (qqwords (dqwords ws)) avx_init"
  defines "col \<equiv> \<lambda>w. xsum (\<lambda>j. ws ! (32 * j + w)) n"
  shows "a_p s = xsum (\<lambda>j. gate (par 32 (xsum (\<lambda>w. ws ! (32 * j + w)) 32)) (0xfc000000 + of_nat j * 0xfc000400)) n"
    "xor8 (a_qq0 s) = xsum col 8" "xor8 (a_qq1 s) = xsum (\<lambda>b. col (8 + b)) 8"
    "xor8 (a_qq2 s) = xsum (\<lambda>b. col (16 + b)) 8" "xor8 (a_qq3 s) = xsum (\<lambda>b. col (24 + b)) 8"
    "lanes (lo128 (mm256_xor (mm256_xor (mm256_xor (a_qq0 s) (a_qq1 s)) (a_qq2 s)) (a_qq3 s))) @
     lanes (hi128 (mm256_xor (mm256_xor (mm256_xor (a_qq0 s) (a_qq1 s)) (a_qq2 s)) (a_qq3 s))) =
      map (\<lambda>b. xsum (\<lambda>a. col (8 * a + b)) 4) [0..<8]"
proof -
  let ?pqq = "qqwords (dqwords ws)"
  let ?w = "\<lambda>j c. M256 (M128 (ws ! (32 * j + 8 * c)) (ws ! (32 * j + (8 * c + 1))) (ws ! (32 * j + (8 * c + 2))) (ws ! (32 * j + (8 * c + 3))))
      (M128 (ws ! (32 * j + (8 * c + 4))) (ws ! (32 * j + (8 * c + 5))) (ws ! (32 * j + (8 * c + 6))) (ws ! (32 * j + (8 * c + 7))))"
  have nq: "?pqq ! (4 * j + c) = ?w j c" if "j < n" "c < 4" for j c
    using nth_qqwords [of "4 * j + c" "dqwords ws"] nth_dqwords [of "2 * (4 * j + c)" ws] nth_dqwords [of "2 * (4 * j + c) + 1" ws] that l
    by (simp add: length_dqwords algebra_simps)
  have st: "s = fold (avx_step ?pqq) [0..<n] avx_init"
    using AvxRows_fold [of ?pqq n] l by (simp add: s_def length_dqwords length_qqwords)
  show "a_p s = xsum (\<lambda>j. gate (par 32 (xsum (\<lambda>w. ws ! (32 * j + w)) 32)) (0xfc000000 + of_nat j * 0xfc000400)) n"
    unfolding st avx_fold avx_state.simps
  proof (rule xsum_cong)
    fix j assume j: "j < n"
    have "xor8 (?pqq ! (4 * j)) XOR xor8 (?pqq ! (4 * j + 1)) XOR xor8 (?pqq ! (4 * j + 2)) XOR xor8 (?pqq ! (4 * j + 3)) =
        xsum (\<lambda>w. ws ! (32 * j + w)) 32"
      using nq [OF j, of 0] nq [OF j, of 1] nq [OF j, of 2] nq [OF j, of 3]
      by (simp add: xor8_def xor4_def eval_nat_numeral ac_simps)
    then show "gate (par 32 (xor8 (?pqq ! (4 * j)) XOR xor8 (?pqq ! (4 * j + 1)) XOR xor8 (?pqq ! (4 * j + 2)) XOR
        xor8 (?pqq ! (4 * j + 3)))) (0xfc000000 + of_nat j * 0xfc000400) =
      gate (par 32 (xsum (\<lambda>w. ws ! (32 * j + w)) 32)) (0xfc000000 + of_nat j * 0xfc000400 :: u32)"
      by (simp only:)
  qed
  have q: "q256 (\<lambda>j. ?pqq ! (4 * j + c)) n =
      M256 (M128 (col (8 * c)) (col (8 * c + 1)) (col (8 * c + 2)) (col (8 * c + 3)))
        (M128 (col (8 * c + 4)) (col (8 * c + 5)) (col (8 * c + 6)) (col (8 * c + 7)))"
    if "c < 4" for c
    using nq that by (subst q256_cong) (auto simp: q256_def q128_def col_def)
  note Q = q [of 0, simplified] q [of 1, simplified] q [of 2, simplified] q [of 3, simplified]
  have S: "a_qq0 s = q256 (\<lambda>j. ?pqq ! (4 * j)) n" "a_qq1 s = q256 (\<lambda>j. ?pqq ! (4 * j + 1)) n"
    "a_qq2 s = q256 (\<lambda>j. ?pqq ! (4 * j + 2)) n" "a_qq3 s = q256 (\<lambda>j. ?pqq ! (4 * j + 3)) n"
    unfolding st avx_fold by simp_all
  show "xor8 (a_qq0 s) = xsum col 8" "xor8 (a_qq1 s) = xsum (\<lambda>b. col (8 + b)) 8"
    "xor8 (a_qq2 s) = xsum (\<lambda>b. col (16 + b)) 8" "xor8 (a_qq3 s) = xsum (\<lambda>b. col (24 + b)) 8"
    unfolding S using Q by (simp_all add: xor8_def xor4_def eval_nat_numeral ac_simps)
  have u: "[0..<8] = [0, 1, 2, 3, 4, 5, 6, 7 :: nat]" by code_simp
  have x4: "xsum g 4 = g 0 XOR g 1 XOR g 2 XOR g 3" for g :: "nat \<Rightarrow> u32"
    by (simp add: eval_nat_numeral ac_simps)
  show "lanes (lo128 (mm256_xor (mm256_xor (mm256_xor (a_qq0 s) (a_qq1 s)) (a_qq2 s)) (a_qq3 s))) @
     lanes (hi128 (mm256_xor (mm256_xor (mm256_xor (a_qq0 s) (a_qq1 s)) (a_qq2 s)) (a_qq3 s))) =
      map (\<lambda>b. xsum (\<lambda>a. col (8 * a + b)) 4) [0..<8]"
    unfolding S u x4 using Q by (simp add: lanes_def mm256_xor_def mm_xor_si128_def ac_simps flip: numeral_2_eq_2)
qed

lemma avx_p:
  assumes "5 \<le> k" "k \<le> 11" "j < 2 ^ (k - 5)"
  shows "(0xfc000000 + of_nat j * 0xfc000400) AND (0xfc00fc00 AND mask (k + 21)) = icode 10 (k - 5) j"
proof -
  have c: "(0xfc000000 :: u32) = push_bit (16 + 10) (- 1)" "(0xfc000400 :: u32) = push_bit 10 1 - push_bit (16 + 10) 1"
    "(0xfc00fc00 :: u32) = push_bit (16 + 10) (mask (16 - 10)) OR push_bit 10 (mask (16 - 10))"
    by (simp_all add: push_bit_eq_mult mask_eq_exp_minus_1)
  have m: "k + 21 = 16 + 10 + (k - 5)" using assms(1) by simp
  show ?thesis unfolding c m by (rule double_index) (use assms in auto)
qed

lemma avx_word_idx:
  "w < 8 \<Longrightarrow> (0xffe00000 + of_nat w * 0xffe00020) AND 0x00e000e0 = icode 5 3 w"
  "a < 4 \<Longrightarrow> (0xff000000 + of_nat a * 0xff000100) AND 0x03000300 = icode 8 2 a"
proof -
  have "list_all (\<lambda>w. (0xffe00000 + of_nat w * 0xffe00020) AND 0x00e000e0 = icode 5 3 w) [0..<8]" by code_simp
  then show "w < 8 \<Longrightarrow> (0xffe00000 + of_nat w * 0xffe00020) AND 0x00e000e0 = icode 5 3 w" by (simp add: list_all_iff)
  have "list_all (\<lambda>w. (0xff000000 + of_nat w * 0xff000100) AND 0x03000300 = icode 8 2 w) [0..<4]" by code_simp
  then show "a < 4 \<Longrightarrow> (0xff000000 + of_nat a * 0xff000100) AND 0x03000300 = icode 8 2 a" by (simp add: list_all_iff)
qed

lemma or_chain4:
  fixes a b c d A B C D :: u32
  assumes "A AND B = 0" "(A OR B) AND C = 0" "(A OR B OR C) AND D = 0"
  shows "(((a AND A) OR (b AND B)) OR (c AND C)) OR (d AND D) = (((a AND A) XOR (b AND B)) XOR (c AND C)) XOR (d AND D)"
proof -
  have "((a AND A) XOR (b AND B)) XOR (c AND C) = (((a AND A) XOR (b AND B)) XOR (c AND C)) AND (A OR B OR C)"
    by (rule bit_word_eqI) (auto simp: bit_or_iff bit_and_iff bit_xor_iff)
  then show ?thesis
    unfolding or_chain3 [OF assms(1,2)]
    using or_xor_masked [OF assms(3), of "((a AND A) XOR (b AND B)) XOR (c AND C)" d] by simp
qed

lemma ChecksumNewFormatAVX_ref:
  assumes "length pdw = 2 ^ k" "6 \<le> k" "k \<le> 11"
  shows "ChecksumNewFormatAVX pdw pgno h = checksum_ref k pdw pgno h"
proof -
  define ws where "ws = ecc_words h pdw"
  define n where "n = (2 :: nat) ^ (k - 5)"
  define col where "col = (\<lambda>w. xsum (\<lambda>j. ws ! (32 * j + w)) n)"
  let ?row = "\<lambda>j. xsum (\<lambda>w. ws ! (32 * j + w)) 32"
  have k: "(2 :: nat) ^ k = 32 * n" "n = 2 * 2 ^ (k - 6)"
    using pow_split [of 5 k] assms(2) by (simp_all add: n_def)
  have l: "length ws = 32 * n" "8 \<le> length pdw" using assms(1) k by (simp_all add: ws_def length_ecc_words)
  define s where "s = AvxRows (qqwords (dqwords ws)) avx_init"
  have col: "xsum (\<lambda>j. ws ! (32 * j + w)) n = col w" for w by (simp add: col_def)
  note L = avx_loop [OF l(1), folded s_def, unfolded col]
  define Q where "Q = xsum (\<lambda>a. gate (par 32 (xsum (\<lambda>b. col (8 * a + b)) 8)) (0xff000000 + of_nat a * 0xff000100 :: u32)) 4"
  define Q' where "Q' = xsum (\<lambda>b. gate (par 32 (xsum (\<lambda>a. col (8 * a + b)) 4)) (0xffe00000 + of_nat b * 0xffe00020 :: u32)) 8"
  have Q: "((0xff000000 AND lParityMaskAVX (a_qq0 s)) XOR ((0xff000000 + 0xff000100) AND lParityMaskAVX (a_qq1 s))) XOR
      ((0xff000000 + 0xff000100 + 0xff000100) AND lParityMaskAVX (a_qq2 s)) XOR
      ((0xff000000 + 0xff000100 + 0xff000100 + 0xff000100) AND lParityMaskAVX (a_qq3 s)) = Q"
  proof -
    have "xsum g 4 = ((g 0 XOR g 1) XOR g 2) XOR g 3" for g :: "nat \<Rightarrow> u32" by (simp add: eval_nat_numeral)
    then show ?thesis unfolding Q_def lParityMaskAVX_eq and_gate L by (simp add: ac_simps)
  qed
  have tot: "xsum (\<lambda>b. xsum (\<lambda>a. col (8 * a + b)) 4) 8 = xsum (\<lambda>i. ws ! i) (2 ^ k)"
  proof -
    have "xsum (\<lambda>b. xsum (\<lambda>a. col (8 * a + b)) 4) 8 = xsum col 32"
      using xsum_mult [of col 8 4] by (subst xsum_swap) simp
    also have "\<dots> = xsum (\<lambda>i. ws ! i) (2 ^ k)" unfolding k(1) xsum_mult col_def by (rule xsum_swap [symmetric])
    finally show ?thesis .
  qed
  have EW: "EccWords lParityMaskPopcnt (map (\<lambda>b. xsum (\<lambda>a. col (8 * a + b)) 4) [0..<8]) = (xsum (\<lambda>i. ws ! i) (2 ^ k), Q')"
    unfolding EccWords_eq [OF lParityMaskPopcnt_eq] Q'_def tot by (rule refl)
  have p: "a_p s AND (0xfc00fc00 AND mask (k + 21)) = xsum (\<lambda>j. gate (par 32 (?row j)) (icode 10 (k - 5) j)) n"
    unfolding L(1) xsum_and gf2 by (rule xsum_cong) (use avx_p [of k] assms in \<open>simp add: n_def\<close>)
  have q: "Q AND 0x03000300 = xsum (\<lambda>a. gate (par 32 (xsum (\<lambda>b. col (8 * a + b)) 8)) (icode 8 2 a)) 4"
    "Q' AND 0x00e000e0 = xsum (\<lambda>b. gate (par 32 (xsum (\<lambda>a. col (8 * a + b)) 4)) (icode 5 3 b)) 8"
    unfolding Q_def Q'_def xsum_and gf2 by (rule xsum_cong, simp only: avx_word_idx)+
  have c: "xsum (\<lambda>w. gate (par 32 (col w)) (icode 5 5 w)) (8 * 4) = (Q AND 0x03000300) XOR (Q' AND 0x00e000e0)"
    unfolding q by (rule split_code) (use icode_split [of 5 3 2] in simp)
  have "xsum (\<lambda>i. gate (par 32 (ws ! i)) (row_code k i)) (2 ^ k) =
      (a_p s AND (0xfc00fc00 AND mask (k + 21))) XOR ((Q AND 0x03000300) XOR (Q' AND 0x00e000e0))"
    unfolding p c [symmetric] using two_level [of k 5 "k - 5" "\<lambda>i. ws ! i"] assms by (simp add: n_def col_def)
  then have R: "ecc_ref k (\<lambda>i. ws ! i) = (((a_p s AND (0xfc00fc00 AND mask (k + 21))) XOR (Q AND 0x03000300)) XOR (Q' AND 0x00e000e0)) XOR
      (EccBytes ParityMaskFuncPopcnt (xsum (\<lambda>i. ws ! i) (2 ^ k)) AND 0x001f001f)"
    unfolding ecc_ref_split EccBytes_eq by (simp only: xor.assoc)
  have z: "(0xfc00fc00 :: u32) AND 0x03000300 = 0" "(0xfc00fc00 :: u32) AND 0x00e000e0 = 0" "(0xfc00fc00 :: u32) AND 0x001f001f = 0"
    "(0x03000300 :: u32) AND 0x00e000e0 = 0" "(0x03000300 :: u32) AND 0x001f001f = 0" "(0x00e000e0 :: u32) AND 0x001f001f = 0" by simp_all
  have z': "(0xfc00fc00 AND mask (k + 21) OR 0x03000300) AND 0x00e000e0 = (0 :: u32)"
    "(0xfc00fc00 AND mask (k + 21) OR 0x03000300 OR 0x00e000e0) AND 0x001f001f = (0 :: u32)"
    unfolding bit.conj_disj_distrib2 mask_zero [OF z(2)] mask_zero [OF z(3)] z(4-6) by simp_all
  note E = R [folded or_chain4 [OF mask_zero [OF z(1)] z']]
  show ?thesis
    unfolding ChecksumNewFormatAVX_def Let_def avx_block_words [OF l(2)] ws_def [symmetric] s_def [symmetric]
      L(6) EW prod.case cb_mask19 [OF assms(1)] checksum_ref_def
    using E Q by (simp only: and.assoc or.assoc xor.assoc xor.left_neutral)
qed

subsection \<open>The selected implementation\<close>

lemma ChecksumSelectNewFormat_ref:
  assumes "length pdw = 2 ^ k" "6 \<le> k" "k \<le> 11"
  shows "ChecksumSelectNewFormat c pdw pgno h = checksum_ref k pdw pgno h"
  using assms
  by (simp add: ChecksumSelectNewFormat_def ChecksumNewFormatAVX_ref ChecksumNewFormatSSE2_ref ChecksumNewFormatSSE_ref
    ChecksumNewFormatSlowly_ref ChecksumNewFormat64Bit_eq)

interpretation selected: page_checksum "ChecksumSelectNewFormat c" for c
  by unfold_locales (rule ChecksumSelectNewFormat_ref)

definition sample_block :: "u32 list" where
  "sample_block = map (\<lambda>i. of_nat (i * i + 3)) [0..<64]"

definition sample_cpu :: cpu where
  "sample_cpu = \<lparr>fX86 = True, fArmEmulation = False, FAVXEnabled = False, FPopcntAvailable = True,
     FSSEInstructionsAvailable = True, FSSE2InstructionsAvailable = True, fPointer64 = True\<rparr>"

definition sample_arm :: cpu where
  "sample_arm = \<lparr>fX86 = False, fArmEmulation = False, FAVXEnabled = False, FPopcntAvailable = False,
     FSSEInstructionsAvailable = False, FSSE2InstructionsAvailable = False, fPointer64 = True\<rparr>"

lemma length_sample [simp]: "length sample_block = 64"
  by (simp add: sample_block_def)

subsection \<open>Properties\<close>

text \<open>C23: Whatever the processor, the selected implementation of the error-correcting checksum
  (table-driven 32-bit and 64-bit code, SSE, SSE2 with either parity, AVX) gives the same checksum, with and
  without a header, on every block of 256 bytes to 8 KB whose size is a power of two.  So a page
  written on one machine verifies on another.  The basic implementation agrees on blocks with a header.\<close>

theorem new_format_agree:
  assumes "length pdw = 2 ^ k" "6 \<le> k" "k \<le> 11"
  shows "ChecksumSelectNewFormat c pdw pgno h = ChecksumSelectNewFormat c' pdw pgno h \<and>
    ChecksumNewFormatBasic pdw pgno True = ChecksumSelectNewFormat c pdw pgno True"
  using selected.chk_ref [OF assms] basic_xor_part [of pdw k] assms
  by (simp add: checksum_ref_def Let_def)

lemma new_format_agree_witness:
  "ChecksumSelectNewFormat sample_cpu sample_block 7 False = ChecksumSelectNewFormat sample_arm sample_block 7 False \<and>
    ChecksumNewFormatBasic sample_block 7 True = ChecksumSelectNewFormat sample_cpu sample_block 7 True"
  using new_format_agree [of sample_block 6] by simp

text \<open>C24: When one bit of a checksummed block is flipped (outside the checksum itself, in a block that
  starts with it), the selected implementation yields a checksum whose difference from the stored one is
  recognised as correctable, and the position computed from it is that of the flipped bit.\<close>

theorem single_bit_error_located:
  fixes c :: cpu
  assumes "length pdw = 2 ^ k" "6 \<le> k" "k \<le> 11" "n < 32 * length pdw" "h \<longrightarrow> 64 \<le> n"
    "cb = of_nat (4 * length pdw)"
  defines "chk \<equiv> ChecksumSelectNewFormat c"
  shows "FECCErrorIsCorrectable cb (chk pdw pgno h) (chk (flip_bit_at n pdw) pgno h) \<and>
    unat (IbitCorrupted cb (chk pdw pgno h) (chk (flip_bit_at n pdw) pgno h)) = n"
  unfolding chk_def assms(6) using assms(1-5)
  by (intro selected.single_flip [of pdw k]) (auto simp: power_add mult.commute)

lemma single_bit_error_located_witness:
  "FECCErrorIsCorrectable 256 (ChecksumSelectNewFormat sample_cpu sample_block 7 True)
      (ChecksumSelectNewFormat sample_cpu (flip_bit_at 100 sample_block) 7 True) \<and>
    unat (IbitCorrupted 256 (ChecksumSelectNewFormat sample_cpu sample_block 7 True)
      (ChecksumSelectNewFormat sample_cpu (flip_bit_at 100 sample_block) 7 True)) = 100"
  using single_bit_error_located [of sample_block 6 100 True 256 sample_cpu 7] by simp

text \<open>C25: When two different bits are flipped, the checksum differs from the stored one and the
  difference is never taken for a correctable error.\<close>

theorem double_bit_error_detected:
  fixes c :: cpu
  assumes "length pdw = 2 ^ k" "6 \<le> k" "k \<le> 11" "n < 32 * length pdw" "m < 32 * length pdw" "m \<noteq> n"
    "h \<longrightarrow> 64 \<le> n \<and> 64 \<le> m" "cb = of_nat (4 * length pdw)"
  defines "chk \<equiv> ChecksumSelectNewFormat c"
  shows "chk pdw pgno h \<noteq> chk (flip_bit_at m (flip_bit_at n pdw)) pgno h \<and>
    \<not> FECCErrorIsCorrectable cb (chk pdw pgno h) (chk (flip_bit_at m (flip_bit_at n pdw)) pgno h)"
  unfolding chk_def assms(8) using assms(1-7)
  by (intro selected.double_flip [of pdw k]) (auto simp: power_add mult.commute)

lemma double_bit_error_detected_witness:
  "ChecksumSelectNewFormat sample_arm sample_block 7 False \<noteq>
      ChecksumSelectNewFormat sample_arm (flip_bit_at 3 (flip_bit_at 255 sample_block)) 7 False \<and>
    \<not> FECCErrorIsCorrectable 256 (ChecksumSelectNewFormat sample_arm sample_block 7 False)
      (ChecksumSelectNewFormat sample_arm (flip_bit_at 3 (flip_bit_at 255 sample_block)) 7 False)"
  using double_bit_error_detected [of sample_block 6 255 3 False 256 sample_arm 7] by simp

text \<open>Whatever the processor, the selected implementation of the old XOR checksum gives the same
  checksum on every block whose size is a multiple of 128 bytes.\<close>

theorem old_format_agree:
  assumes "length pdw mod 32 = 0" "pdw \<noteq> []"
  shows "ChecksumSelectOldFormat c pdw = ChecksumOldFormatSlowly pdw"
  using ChecksumOldFormat_xors [OF assms] by (simp add: ChecksumSelectOldFormat_def)

lemma old_format_agree_witness:
  "ChecksumSelectOldFormat sample_cpu sample_block = ChecksumOldFormatSlowly sample_block \<and>
    ChecksumSelectOldFormat sample_arm sample_block = ChecksumOldFormatSlowly sample_block"
proof -
  have "sample_block \<noteq> []" using length_sample by (metis length_0_conv zero_neq_numeral)
  then show ?thesis using old_format_agree [of sample_block] by simp
qed

end
