(* ===== verification/Byte_Lists.thy ===== *)
theory Byte_Lists
  imports Ese_Prelude
begin

text \<open>
  Buffers as lists of bytes: little-endian words in them, stores at an offset, and the bits of the
  bytes, words and stored words.  The page verification and the 7-bit compression work on such lists.
\<close>

subsection \<open>Loads and stores\<close>

fun dwords :: "u8 list \<Rightarrow> u32 list" where
  "dwords (b0 # b1 # b2 # b3 # pb) =
     (ucast b0 OR push_bit 8 (ucast b1) OR push_bit 16 (ucast b2) OR push_bit 24 (ucast b3)) # dwords pb"
| "dwords pb = []"

definition load_dw :: "u8 list \<Rightarrow> nat \<Rightarrow> u32" where
  "load_dw pv ib = dwords (take 4 (drop ib pv)) ! 0"

definition load_qw :: "u8 list \<Rightarrow> nat \<Rightarrow> u64" where
  "load_qw pv ib = ucast (load_dw pv ib) OR push_bit 32 (ucast (load_dw pv (ib + 4)))"

definition bytes_of :: "nat \<Rightarrow> 'a::len word \<Rightarrow> u8 list" where
  "bytes_of n w = map (\<lambda>i. ucast (drop_bit (8 * i) w)) [0..<n]"

definition store_at :: "nat \<Rightarrow> u8 list \<Rightarrow> u8 list \<Rightarrow> u8 list" where
  "store_at ib bs pv = take ib pv @ bs @ drop (ib + length bs) pv"

definition store_dw :: "nat \<Rightarrow> u32 \<Rightarrow> u8 list \<Rightarrow> u8 list" where
  "store_dw ib w pv = store_at ib (bytes_of 4 w) pv"

definition store_qw :: "nat \<Rightarrow> u64 \<Rightarrow> u8 list \<Rightarrow> u8 list" where
  "store_qw ib w pv = store_at ib (bytes_of 8 w) pv"

lemma length_dwords: "length (dwords pb) = length pb div 4"
  by (induction pb rule: dwords.induct) simp_all

lemma bit_dword:
  fixes b0 b1 b2 b3 :: u8
  assumes "m < 32"
  shows "bit (ucast b0 OR push_bit 8 (ucast b1) OR push_bit 16 (ucast b2) OR push_bit 24 (ucast b3) :: u32) m =
    bit ([b0, b1, b2, b3] ! (m div 8)) (m mod 8)"
proof -
  consider "m < 8" | "8 \<le> m" "m < 16" | "16 \<le> m" "m < 24" | "24 \<le> m" using assms by linarith
  then show ?thesis
  proof cases
    case 1
    then show ?thesis by (auto simp: bit_or_iff bit_ucast_iff bit_push_bit_iff)
  next
    case 2
    then have "m div 8 = 1" "m mod 8 = m - 8" by (simp_all add: div_eq_dividend_iff mod_if div_if)
    then show ?thesis using 2 by (auto simp: bit_or_iff bit_ucast_iff bit_push_bit_iff dest: bit_imp_le_length)
  next
    case 3
    then have "m div 8 = 2" "m mod 8 = m - 16" "m - 16 < 8" "\<not> m - 8 < 8" by (auto simp: mod_if div_if)
    then show ?thesis using 3 by (auto simp: bit_or_iff bit_ucast_iff bit_push_bit_iff dest: bit_imp_le_length)
  next
    case 4
    then have "m div 8 = 3" "m mod 8 = m - 24" "m - 24 < 8" "\<not> m - 16 < 8" "\<not> m - 8 < 8"
      using assms by (auto simp: mod_if div_if)
    then show ?thesis using 4 assms
      by (auto simp: bit_or_iff bit_ucast_iff bit_push_bit_iff numeral_3_eq_3 dest: bit_imp_le_length)
  qed
qed

lemma bit_dwords:
  "4 * i + 3 < length pb \<Longrightarrow> m < 32 \<Longrightarrow> bit (dwords pb ! i) m = bit (pb ! (4 * i + m div 8)) (m mod 8)"
proof (induction pb arbitrary: i rule: dwords.induct)
  case (1 b0 b1 b2 b3 pb)
  show ?case
  proof (cases i)
    case 0
    have "(b0 # b1 # b2 # b3 # pb) ! (m div 8) = [b0, b1, b2, b3] ! (m div 8)"
    proof -
      have "m div 8 < length [b0, b1, b2, b3]" using 1(3) by simp
      then show ?thesis using nth_append [of "[b0, b1, b2, b3]" pb "m div 8"] by simp
    qed
    then show ?thesis using 0 bit_dword [OF 1(3), of b0 b1 b2 b3] by simp
  next
    case (Suc i')
    have "4 * i + m div 8 = Suc (Suc (Suc (Suc (4 * i' + m div 8))))" using Suc by simp
    then show ?thesis using 1 Suc by simp
  qed
qed simp_all

lemma u8_eqI: "(\<And>m. m < 8 \<Longrightarrow> bit a m = bit b m) \<Longrightarrow> a = b" for a b :: u8
  by (rule bit_word_eqI) simp

lemma length_store_at [simp]: "ib + length bs \<le> length pv \<Longrightarrow> length (store_at ib bs pv) = length pv"
  by (simp add: store_at_def)

lemma nth_store_at:
  "ib + length bs \<le> length pv \<Longrightarrow> k < length pv \<Longrightarrow>
    store_at ib bs pv ! k = (if ib \<le> k \<and> k < ib + length bs then bs ! (k - ib) else pv ! k)"
  by (auto simp: store_at_def nth_append)

lemma length_store_qw [simp]: "ib + 8 \<le> length pv \<Longrightarrow> length (store_qw ib w pv) = length pv"
  by (simp add: store_qw_def bytes_of_def)

lemma bit_store_qw:
  "ib + 8 \<le> length pv \<Longrightarrow> k < length pv \<Longrightarrow> m < 8 \<Longrightarrow>
    bit (store_qw ib w pv ! k) m = (if ib \<le> k \<and> k < ib + 8 then bit w (8 * (k - ib) + m) else bit (pv ! k) m)"
  by (auto simp: store_qw_def nth_store_at bytes_of_def bit_ucast_iff bit_drop_bit_eq)

lemma nth_store_qw: "ib + 8 \<le> length pv \<Longrightarrow> k < length pv \<Longrightarrow> k < ib \<or> ib + 8 \<le> k \<Longrightarrow> store_qw ib w pv ! k = pv ! k"
  by (auto simp: store_qw_def nth_store_at bytes_of_def)

lemma bit_load_dw: "ib + 4 \<le> length pv \<Longrightarrow> m < 32 \<Longrightarrow> bit (load_dw pv ib) m = bit (pv ! (ib + m div 8)) (m mod 8)"
  using bit_dwords [of 0 "take 4 (drop ib pv)" m] by (simp add: load_dw_def)

lemma bit_load_qw: "ib + 8 \<le> length pv \<Longrightarrow> m < 64 \<Longrightarrow> bit (load_qw pv ib) m = bit (pv ! (ib + m div 8)) (m mod 8)"
proof -
  assume a: "ib + 8 \<le> length pv" "m < 64"
  show ?thesis
  proof (cases "m < 32")
    case True
    then show ?thesis using a bit_load_dw [of ib pv m]
      by (simp add: load_qw_def bit_or_iff bit_ucast_iff bit_push_bit_iff)
  next
    case False
    then have "(m - 32) div 8 = m div 8 - 4" "(m - 32) mod 8 = m mod 8" "4 \<le> m div 8"
      using div_mult_self1 [of 8 "m - 32" 4] mod_mult_self1 [of "m - 32" 4 8] by (simp_all add: le_div_geq)
    then show ?thesis using False a bit_load_dw [of "ib + 4" pv "m - 32"]
      by (auto simp: load_qw_def bit_or_iff bit_ucast_iff bit_push_bit_iff add.assoc dest: bit_imp_le_length)
  qed
qed

lemma u64_eqI: "(\<And>m. m < 64 \<Longrightarrow> bit a m = bit b m) \<Longrightarrow> a = b" for a b :: u64
  by (rule bit_word_eqI) simp

lemma load_qw_cong:
  "ib + 8 \<le> length pv \<Longrightarrow> ib + 8 \<le> length pw \<Longrightarrow> (\<And>k. k < 8 \<Longrightarrow> pv ! (ib + k) = pw ! (ib + k)) \<Longrightarrow> load_qw pv ib = load_qw pw ib"
  by (rule u64_eqI) (simp add: bit_load_qw)

lemma load_store_qw: "ib + 8 \<le> length pv \<Longrightarrow> load_qw (store_qw ib w pv) ib = w"
proof (rule u64_eqI)
  fix m :: nat assume "ib + 8 \<le> length pv" "m < 64"
  moreover have "m div 8 < 8" using \<open>m < 64\<close> by simp
  ultimately show "bit (load_qw (store_qw ib w pv) ib) m = bit w m"
    using bit_store_qw [of ib pv "ib + m div 8" "m mod 8" w] by (simp add: bit_load_qw)
qed

lemma load_store_qw_other:
  "ib + 8 \<le> length pv \<Longrightarrow> ia + 8 \<le> length pv \<Longrightarrow> ia + 8 \<le> ib \<or> ib + 8 \<le> ia \<Longrightarrow> load_qw (store_qw ib w pv) ia = load_qw pv ia"
  by (rule load_qw_cong) (auto simp: nth_store_qw)

lemma store_load_qw: "ib + 8 \<le> length pv \<Longrightarrow> store_qw ib (load_qw pv ib) pv = pv"
proof (rule nth_equalityI)
  fix k assume a: "ib + 8 \<le> length pv" "k < length (store_qw ib (load_qw pv ib) pv)"
  show "store_qw ib (load_qw pv ib) pv ! k = pv ! k"
  proof (rule u8_eqI)
    fix m :: nat assume "m < 8"
    moreover have "ib \<le> k \<Longrightarrow> k < ib + 8 \<Longrightarrow> (8 * (k - ib) + m) div 8 = k - ib \<and> 8 * (k - ib) + m < 64"
      using \<open>m < 8\<close> by auto
    ultimately show "bit (store_qw ib (load_qw pv ib) pv ! k) m = bit (pv ! k) m"
      using a by (simp add: bit_store_qw bit_load_qw)
  qed
qed simp

lemma length_bytes_of [simp]: "length (bytes_of n w) = n"
  by (simp add: bytes_of_def)

lemma bit_bytes_of: "k < n \<Longrightarrow> m < 8 \<Longrightarrow> bit (bytes_of n w ! k) m = bit w (8 * k + m)"
  by (simp add: bytes_of_def bit_ucast_iff bit_drop_bit_eq)

lemma u32_eqI: "(\<And>m. m < 32 \<Longrightarrow> bit a m = bit b m) \<Longrightarrow> a = b" for a b :: u32
  by (rule bit_word_eqI) simp

lemma length_store_dw [simp]: "ib + 4 \<le> length pv \<Longrightarrow> length (store_dw ib w pv) = length pv"
  by (simp add: store_dw_def)

end
