(* ===== verification/Page_Verify.thy ===== *)
theory Page_Verify
  imports Page_Simd Page_Layout Byte_Lists
begin

text \<open>
  Checksums on whole pages (\<open>src/ese/_osu/checksumu.cxx\<close>): writing the checksums of a page, verifying
  them and repairing a flipped bit.  A page is the list of its bytes; the checksum functions see the
  little-endian 32-bit words of a block of it.  \<open>c\<close> is the processor, which selects the
  implementation \<open>pfnChecksumNewFormat\<close> points to.  An \<open>Enforce\<close> that fails is \<open>None\<close>.  The fault
  injection of test builds is left out.
\<close>

subsection \<open>Bits of a page\<close>

definition FGetBit :: "u8 list \<Rightarrow> nat \<Rightarrow> bool" where
  "FGetBit pv ibitOffset =
     (let ibyte = ibitOffset div 8; ibitInByte = ibitOffset mod 8; bitMask = push_bit ibitInByte 1
      in pv ! ibyte AND bitMask \<noteq> 0)"

definition SetBit :: "u8 list \<Rightarrow> nat \<Rightarrow> u8 list" where
  "SetBit pv ibitOffset =
     (let ibyte = ibitOffset div 8; ibitInByte = ibitOffset mod 8; bitMask = push_bit ibitInByte 1
      in pv[ibyte := pv ! ibyte OR bitMask])"

definition FlipBit :: "u8 list \<Rightarrow> nat \<Rightarrow> u8 list" where
  "FlipBit pv ibitOffset =
     (let ibyte = ibitOffset div 8; ibitInByte = ibitOffset mod 8; bitMask = push_bit ibitInByte 1
      in pv[ibyte := pv ! ibyte XOR bitMask])"

subsection \<open>The checksums in the page header\<close>

text \<open>The page types whose numbers differ; log, flush map data and snapshot pages count as database pages.\<close>

datatype PAGETYPE = databasePage | databaseHeader | logfileHeader | flushmapHeaderPage

text \<open>The array of four checksums; a small page uses the first.\<close>

type_synonym PAGECHECKSUM = "u64 list"

definition PAGECHECKSUM1 :: "u64 \<Rightarrow> PAGECHECKSUM" where
  "PAGECHECKSUM1 xe = [xe, 0, 0, 0]"

definition cxeChecksumPerPage :: nat where "cxeChecksumPerPage = 4"

definition UINT_MAX :: u32 where "UINT_MAX = 0xffffffff"

definition LongChecksumFromShortChecksum :: "u32 \<Rightarrow> u32 \<Rightarrow> u64" where
  "LongChecksumFromShortChecksum xorChecksum pageno = push_bit 32 (ucast pageno) OR ucast xorChecksum"

definition IbitNewChecksumFormatFlag :: "PAGETYPE \<Rightarrow> u32" where
  "IbitNewChecksumFormatFlag pagetype = (if pagetype = databasePage then (9 * 32) + 13 else - 1)"

definition FPageHasNewChecksumFormat :: "u8 list \<Rightarrow> PAGETYPE \<Rightarrow> bool" where
  "FPageHasNewChecksumFormat pv pagetype =
     (if pagetype = databasePage then FGetBit pv (unat (IbitNewChecksumFormatFlag pagetype)) else False)"

definition SetNewChecksumFormatFlag :: "u8 list \<Rightarrow> PAGETYPE \<Rightarrow> u8 list" where
  "SetNewChecksumFormatFlag pv pagetype = SetBit pv (unat (IbitNewChecksumFormatFlag pagetype))"

definition FPageHasLongChecksum :: "PAGETYPE \<Rightarrow> bool" where
  "FPageHasLongChecksum pagetype = (pagetype = databasePage)"

definition ShortChecksumFromPage :: "u8 list \<Rightarrow> u32" where
  "ShortChecksumFromPage pv = load_dw pv 0"

definition SetShortChecksumOnPage :: "u8 list \<Rightarrow> u32 \<Rightarrow> u8 list" where
  "SetShortChecksumOnPage pv w = store_dw 0 w pv"

text \<open>\<open>pghdr.checksum\<close> is at offset 0, \<open>rgChecksum\<close> of the large header at offset 40.\<close>

definition ib_rgChecksum :: nat where "ib_rgChecksum = 40"

definition LongChecksumFromPage :: "u8 list \<Rightarrow> nat \<Rightarrow> PAGECHECKSUM" where
  "LongChecksumFromPage pv cb =
     (if FIsSmallPage (int cb) then PAGECHECKSUM1 (load_qw pv 0)
      else [load_qw pv 0, load_qw pv ib_rgChecksum, load_qw pv (ib_rgChecksum + 8), load_qw pv (ib_rgChecksum + 16)])"

definition store_rgChecksum :: "PAGECHECKSUM \<Rightarrow> u8 list \<Rightarrow> u8 list" where
  "store_rgChecksum rgxe pv =
     store_qw (ib_rgChecksum + 16) (rgxe ! 3) (store_qw (ib_rgChecksum + 8) (rgxe ! 2) (store_qw ib_rgChecksum (rgxe ! 1) pv))"

definition SetLongChecksumOnPage :: "u8 list \<Rightarrow> nat \<Rightarrow> PAGECHECKSUM \<Rightarrow> u8 list" where
  "SetLongChecksumOnPage pv cb rgxe =
     (let pv = store_qw 0 (rgxe ! 0) pv
      in if \<not> FIsSmallPage (int cb) then store_rgChecksum rgxe pv else pv)"

definition ChecksumFromPage :: "u8 list \<Rightarrow> nat \<Rightarrow> PAGETYPE \<Rightarrow> PAGECHECKSUM" where
  "ChecksumFromPage pv cb pagetype =
     (if FPageHasLongChecksum pagetype then LongChecksumFromPage pv cb
      else PAGECHECKSUM1 (ucast (ShortChecksumFromPage pv)))"

definition SetChecksumOnPage :: "u8 list \<Rightarrow> nat \<Rightarrow> PAGETYPE \<Rightarrow> PAGECHECKSUM \<Rightarrow> u8 list" where
  "SetChecksumOnPage pv cb pagetype rgxe =
     (if FPageHasLongChecksum pagetype then SetLongChecksumOnPage pv cb rgxe
      else SetShortChecksumOnPage pv (ucast (rgxe ! 0)))"

subsection \<open>Computing the checksums\<close>

definition CbBlockSize :: "nat \<Rightarrow> nat" where
  "CbBlockSize cb =
     (if \<not> FIsSmallPage (int cb) then
        if cb \<le> 16 * 1024 then 4096 else if cb \<le> 32 * 1024 then 8 * 1024 else cb
      else cb)"

definition ChecksumNewFormat :: "cpu \<Rightarrow> u32 list \<Rightarrow> u32 \<Rightarrow> bool \<Rightarrow> u64" where
  "ChecksumNewFormat c = ChecksumSelectNewFormat c"

definition ChecksumOldFormat :: "cpu \<Rightarrow> u32 list \<Rightarrow> u32" where
  "ChecksumOldFormat c = ChecksumSelectOldFormat c"

text \<open>
  The loop over the blocks behind the header block.  \<open>i\<close> is the next slot of the array; the code
  enforces that it is at most 3 inside the loop, and the model also stops where the write behind the loop would
  leave the array.
\<close>

function block_loop :: "cpu \<Rightarrow> u8 list \<Rightarrow> nat \<Rightarrow> nat \<Rightarrow> u32 \<Rightarrow> nat \<Rightarrow> nat \<Rightarrow> PAGECHECKSUM \<Rightarrow> PAGECHECKSUM option" where
  "block_loop c pv cb cbBlock pageno ibT i rgxe =
     (if ibT + cbBlock \<le> cb then
        if i \<le> 3
        then block_loop c pv cb cbBlock pageno (ibT + cbBlock) (i + 1)
               (rgxe[i := ChecksumNewFormat c (dwords (take cbBlock (drop ibT pv))) pageno False])
        else None
      else if 0 < cb - ibT then
        if i \<le> 3
        then Some (rgxe[i := ChecksumNewFormat c (dwords (take (cb - ibT) (drop ibT pv))) pageno False])
        else None
      else Some rgxe)"
  by pat_completeness auto
termination by (relation "measure (\<lambda>(c, pv, cb, cbBlock, pageno, ibT, i, rgxe). 4 - i)") auto

definition ComputePageChecksum ::
  "cpu \<Rightarrow> u8 list \<Rightarrow> nat \<Rightarrow> PAGETYPE \<Rightarrow> u32 \<Rightarrow> bool \<Rightarrow> (u8 list \<times> PAGECHECKSUM) option" where
  "ComputePageChecksum c pv cb pagetype pageno fNew =
     (if FPageHasLongChecksum pagetype then
        if FPageHasNewChecksumFormat pv pagetype then
          let cbBlock = CbBlockSize cb
          in case (if \<not> FIsSmallPage (int cb)
                   then map_option (\<lambda>rgxe. (if fNew then store_rgChecksum rgxe pv else pv, rgxe))
                          (block_loop c pv cb cbBlock pageno cbBlock 1 [0, 0, 0, 0])
                   else Some (pv, [0, 0, 0, 0])) of
               None \<Rightarrow> None
             | Some (pv, rgxe) \<Rightarrow>
                 Some (pv, rgxe[0 := ChecksumNewFormat c (dwords (take cbBlock pv)) pageno True])
        else Some (pv, PAGECHECKSUM1 (LongChecksumFromShortChecksum (ChecksumOldFormat c (dwords (take cb pv))) pageno))
      else Some (pv, PAGECHECKSUM1 (ucast (ChecksumOldFormat c (dwords (take cb pv))))))"

definition SetPageChecksum :: "cpu \<Rightarrow> u8 list \<Rightarrow> nat \<Rightarrow> PAGETYPE \<Rightarrow> u32 \<Rightarrow> u8 list option" where
  "SetPageChecksum c pv cb pagetype pageno =
     (let pv = (if FPageHasLongChecksum pagetype then SetNewChecksumFormatFlag pv pagetype else pv)
      in case ComputePageChecksum c pv cb pagetype pageno True of
           None \<Rightarrow> None
         | Some (pv, rgxe) \<Rightarrow> Some (SetChecksumOnPage pv cb pagetype rgxe))"

definition ChecksumPage :: "cpu \<Rightarrow> u8 list \<Rightarrow> nat \<Rightarrow> PAGETYPE \<Rightarrow> u32 \<Rightarrow> (PAGECHECKSUM \<times> PAGECHECKSUM) option" where
  "ChecksumPage c pv cb pagetype pageno =
     map_option (\<lambda>(_, actual). (ChecksumFromPage pv cb pagetype, actual)) (ComputePageChecksum c pv cb pagetype pageno False)"

subsection \<open>Repairing a page\<close>

datatype XECHECKSUMERROR = xeChecksumNoError | xeChecksumCorrectableError | xeChecksumFatalError

definition FTryFixBlock :: "nat \<Rightarrow> u32 \<Rightarrow> u64 \<Rightarrow> u64 \<Rightarrow> XECHECKSUMERROR \<times> u32" where
  "FTryFixBlock cb pibitCorrupted xeChecksumExpected xeChecksumActual =
     (if xeChecksumExpected = xeChecksumActual then (xeChecksumNoError, pibitCorrupted)
      else if FECCErrorIsCorrectable (of_nat cb) xeChecksumExpected xeChecksumActual then
        let ibitCorrupted = IbitCorrupted (of_nat cb) xeChecksumExpected xeChecksumActual
        in if pibitCorrupted \<noteq> ibitCorrupted \<and> ibitCorrupted < 8 * of_nat cb
           then (xeChecksumCorrectableError, ibitCorrupted)
           else (xeChecksumFatalError, pibitCorrupted)
      else (xeChecksumFatalError, pibitCorrupted))"

record fix_state =
  iblk :: nat
  ibT :: nat
  cbBlock :: nat
  rgErr :: "XECHECKSUMERROR list"
  rgibitCorrupted :: "u32 list"
  ibitCorrupted :: u32
  checksumExpected :: PAGECHECKSUM

definition flip_checksum_bit :: "PAGECHECKSUM \<Rightarrow> nat \<Rightarrow> PAGECHECKSUM" where
  "flip_checksum_bit rgxe ibit = rgxe[ibit div 64 := rgxe ! (ibit div 64) XOR push_bit (ibit mod 64) 1]"

text \<open>
  A correctable error in the header block may hit the stored checksum of another block; then the expected
  checksum is repaired before that block is looked at.
\<close>

definition first_correctable :: "bool \<Rightarrow> fix_state \<Rightarrow> fix_state" where
  "first_correctable fSmallPage s =
     (if ibitCorrupted s = UINT_MAX then
        let s = s\<lparr>ibitCorrupted := rgibitCorrupted s ! iblk s\<rparr>;
            ibitStart = 8 * of_nat ib_rgChecksum :: u32;
            ibitLength = 64 :: u32
        in if \<not> fSmallPage \<and> 0 = iblk s \<and> ibitStart \<le> ibitCorrupted s \<and>
              ibitCorrupted s < ibitStart + ibitLength * (of_nat cxeChecksumPerPage - 1)
           then s\<lparr>checksumExpected := flip_checksum_bit (checksumExpected s)
                    (unat (ibitLength + (ibitCorrupted s - ibitStart)))\<rparr>
           else s
      else s)"

definition next_block :: "nat \<Rightarrow> fix_state \<Rightarrow> fix_state" where
  "next_block cb s =
     (let ib = ibT s + cbBlock s in s\<lparr>iblk := iblk s + 1, ibT := ib, cbBlock := min (cb - ib) (cbBlock s)\<rparr>)"

text \<open>\<open>None\<close> is an early return: too many blocks or an error that is not correctable.\<close>

definition fix_block :: "nat \<Rightarrow> PAGECHECKSUM \<Rightarrow> fix_state \<Rightarrow> fix_state option" where
  "fix_block cb checksumActual s =
     (case FTryFixBlock (cbBlock s) (rgibitCorrupted s ! iblk s) (checksumExpected s ! iblk s) (checksumActual ! iblk s) of
        (err, ibit) \<Rightarrow>
          let s = s\<lparr>rgErr := (rgErr s)[iblk s := err],
                    rgibitCorrupted := (rgibitCorrupted s)[iblk s := ibit + 8 * of_nat (ibT s)]\<rparr>
          in case err of
               xeChecksumNoError \<Rightarrow> Some (next_block cb s)
             | xeChecksumCorrectableError \<Rightarrow> Some (next_block cb (first_correctable (FIsSmallPage (int cb)) s))
             | xeChecksumFatalError \<Rightarrow> None)"

lemma iblk_fix_block: "fix_block cb a s = Some s' \<Longrightarrow> iblk s' = iblk s + 1"
  by (auto simp: fix_block_def next_block_def first_correctable_def Let_def split: prod.splits XECHECKSUMERROR.splits if_splits)

function fix_blocks :: "nat \<Rightarrow> PAGECHECKSUM \<Rightarrow> fix_state \<Rightarrow> fix_state option" where
  "fix_blocks cb checksumActual s =
     (if 0 < cbBlock s then
        if cxeChecksumPerPage \<le> iblk s then None
        else case fix_block cb checksumActual s of
               None \<Rightarrow> None
             | Some s' \<Rightarrow> fix_blocks cb checksumActual s'
      else Some s)"
  by pat_completeness auto
termination
  by (relation "measure (\<lambda>(cb, a, s). cxeChecksumPerPage - iblk s)") (auto dest!: iblk_fix_block)

definition TryFixPage ::
  "u8 list \<Rightarrow> nat \<Rightarrow> PAGETYPE \<Rightarrow> bool \<Rightarrow> PAGECHECKSUM \<Rightarrow> PAGECHECKSUM \<Rightarrow> (u8 list \<times> u32) option" where
  "TryFixPage pv cb pagetype fCorrectError expected actual =
     (case fix_blocks cb actual
             \<lparr>iblk = 0, ibT = 0, cbBlock = CbBlockSize cb, rgErr = replicate cxeChecksumPerPage xeChecksumNoError,
              rgibitCorrupted = [IbitNewChecksumFormatFlag pagetype, UINT_MAX, UINT_MAX, UINT_MAX],
              ibitCorrupted = UINT_MAX, checksumExpected = expected\<rparr> of
        None \<Rightarrow> None
      | Some s \<Rightarrow>
          Some (fold (\<lambda>k pv. if fCorrectError \<and> rgErr s ! k = xeChecksumCorrectableError
                             then FlipBit pv (unat (rgibitCorrupted s ! k)) else pv) [0..<iblk s] pv,
                ibitCorrupted s))"

text \<open>What \<open>ChecksumAndPossiblyFixPage\<close> hands back: the page, the two checksums and the two answers about the error.\<close>

record fix_result =
  fr_page :: "u8 list"
  fr_expected :: PAGECHECKSUM
  fr_actual :: PAGECHECKSUM
  fr_fCorrectableError :: bool
  fr_ibitCorrupted :: int

definition ChecksumAndPossiblyFixPage ::
  "cpu \<Rightarrow> u8 list \<Rightarrow> nat \<Rightarrow> PAGETYPE \<Rightarrow> u32 \<Rightarrow> bool \<Rightarrow> fix_result option" where
  "ChecksumAndPossiblyFixPage c pv cb pagetype pageno fCorrectError =
     (let expected = ChecksumFromPage pv cb pagetype
      in case ComputePageChecksum c pv cb pagetype pageno False of
           None \<Rightarrow> None
         | Some (pv, actual) \<Rightarrow>
             let r = \<lparr>fr_page = pv, fr_expected = expected, fr_actual = actual,
                      fr_fCorrectableError = False, fr_ibitCorrupted = - 1\<rparr>
             in if actual \<noteq> expected \<and> FPageHasNewChecksumFormat pv pagetype then
                  case TryFixPage pv cb pagetype fCorrectError expected actual of
                    None \<Rightarrow> Some r
                  | Some (pv, ibit) \<Rightarrow>
                      let r = r\<lparr>fr_page := pv, fr_fCorrectableError := True, fr_ibitCorrupted := sint ibit\<rparr>
                      in if fCorrectError then
                           case ComputePageChecksum c pv cb pagetype pageno True of
                             None \<Rightarrow> None
                           | Some (pv', actual) \<Rightarrow>
                               Some (r\<lparr>fr_page := pv', fr_expected := ChecksumFromPage pv cb pagetype, fr_actual := actual\<rparr>)
                         else Some r
                else Some r)"

end
