(* ===== verification/Page_Verify_Props.thy ===== *)
theory Page_Verify_Props
  imports Page_Simd_Props Page_Verify
begin

text \<open>
  A page with its checksums written verifies; a page that verified and then lost one bit is
  recognised and restored byte for byte; with two flipped bits in a block the page is reported and left
  alone.
\<close>

subsection \<open>Bytes, words and bits\<close>

lemma length_FlipBit [simp]: "length (FlipBit pv n) = length pv"
  by (simp add: FlipBit_def Let_def)

lemma bit_FlipBit:
  "k < length pv \<Longrightarrow> m < 8 \<Longrightarrow> bit (FlipBit pv n ! k) m = (bit (pv ! k) m \<noteq> (k = n div 8 \<and> m = n mod 8))"
proof -
  assume "k < length pv" "m < 8"
  moreover have "bit (push_bit (n mod 8) 1 :: u8) m = (m = n mod 8)" using \<open>m < 8\<close>
    by (auto simp: bit_push_bit_iff bit_1_iff simp del: push_bit_of_1)
  ultimately show ?thesis
    by (cases "k = n div 8") (simp_all add: FlipBit_def Let_def bit_xor_iff del: push_bit_of_1)
qed

lemma FlipBit_FlipBit: "FlipBit (FlipBit pv n) n = pv"
  by (rule nth_equalityI) (auto intro!: u8_eqI simp: bit_FlipBit)

lemma nth_FlipBit_other: "k \<noteq> n div 8 \<Longrightarrow> FlipBit pv n ! k = pv ! k"
  by (simp add: FlipBit_def Let_def)

lemma place_iff: "m < 32 \<Longrightarrow> (4 * i + m div 8 = n div 8 \<and> m mod 8 = n mod 8) = (i = n div 32 \<and> m = n mod 32)"
  for i m n :: nat
proof -
  assume m: "m < 32"
  have a: "(4 * i + m div 8 = n div 8 \<and> m mod 8 = n mod 8) = (n = 32 * i + m)"
  proof
    assume "4 * i + m div 8 = n div 8 \<and> m mod 8 = n mod 8"
    then have "n = 8 * (4 * i + m div 8) + m mod 8" by (metis mult_div_mod_eq)
    also have "\<dots> = 32 * i + (8 * (m div 8) + m mod 8)" by (simp only: distrib_left)
    finally show "n = 32 * i + m" by simp
  next
    assume e: "n = 32 * i + m"
    have "n div 8 = 4 * i + m div 8" unfolding e by (simp add: div_mult_self1 [of 8 m "4 * i", simplified mult.assoc [symmetric]])
    moreover have "n mod 8 = m mod 8" unfolding e using mod_mult_self2 [of m 8 "4 * i"] by (simp add: mult.commute add.commute)
    ultimately show "4 * i + m div 8 = n div 8 \<and> m mod 8 = n mod 8" by simp
  qed
  show ?thesis unfolding a using m by auto
qed

lemma bit_flip_bit_at:
  "i < length ws \<Longrightarrow> m < 32 \<Longrightarrow> bit (flip_bit_at n ws ! i) m = (bit (ws ! i) m \<noteq> (i = n div 32 \<and> m = n mod 32))"
  by (cases "i = n div 32") (simp_all add: flip_bit_at_def bit_xor_iff bit_push_one del: push_bit_of_1)

lemma dwords_FlipBit: "4 dvd length pb \<Longrightarrow> dwords (FlipBit pb n) = flip_bit_at n (dwords pb)"
proof (rule nth_equalityI)
  assume d: "4 dvd length pb"
  fix i assume "i < length (dwords (FlipBit pb n))"
  then have i: "i < length (dwords pb)" "4 * i + 3 < length pb" using d by (auto simp: length_dwords)
  show "dwords (FlipBit pb n) ! i = flip_bit_at n (dwords pb) ! i"
  proof (rule bit_word_eqI)
    fix m assume "m < LENGTH(32)"
    then have m: "m < 32" by simp
    then have "4 * i + m div 8 < length pb" using i(2) by linarith
    then show "bit (dwords (FlipBit pb n) ! i) m = bit (flip_bit_at n (dwords pb) ! i) m"
      using bit_dwords [of i "FlipBit pb n" m] bit_dwords [of i pb m] bit_FlipBit [of "4 * i + m div 8" pb "m mod 8" n]
        bit_flip_bit_at [OF i(1) m, of n] place_iff [OF m, of i n] i(2) m
      by (simp add: del: One_nat_def)
  qed
qed (simp add: length_dwords)

subsection \<open>Blocks, loads and stores\<close>

lemma byte_place: "m < 8 \<Longrightarrow> (k = n div 8 \<and> m = n mod 8) = (n = 8 * k + m)" for k m n :: nat
  by auto

lemma block_FlipBit:
  assumes "ib + B \<le> length pv"
  shows "take B (drop ib (FlipBit pv n)) =
    (if 8 * ib \<le> n \<and> n < 8 * (ib + B) then FlipBit (take B (drop ib pv)) (n - 8 * ib) else take B (drop ib pv))"
proof (rule nth_equalityI)
  fix k assume "k < length (take B (drop ib (FlipBit pv n)))"
  then have k: "k < B" using assms by simp
  show "take B (drop ib (FlipBit pv n)) ! k =
    (if 8 * ib \<le> n \<and> n < 8 * (ib + B) then FlipBit (take B (drop ib pv)) (n - 8 * ib) else take B (drop ib pv)) ! k"
  proof (rule u8_eqI)
    fix m :: nat assume m: "m < 8"
    have L: "bit (take B (drop ib (FlipBit pv n)) ! k) m = (bit (pv ! (ib + k)) m \<noteq> (n = 8 * (ib + k) + m))"
      using k assms bit_FlipBit [of "ib + k" pv m n] byte_place [OF m, of "ib + k" n] m by simp
    have R: "bit (FlipBit (take B (drop ib pv)) (n - 8 * ib) ! k) m = (bit (pv ! (ib + k)) m \<noteq> (n - 8 * ib = 8 * k + m))"
      using k assms bit_FlipBit [of k "take B (drop ib pv)" m "n - 8 * ib"] byte_place [OF m, of k "n - 8 * ib"] m by simp
    show "bit (take B (drop ib (FlipBit pv n)) ! k) m =
      bit ((if 8 * ib \<le> n \<and> n < 8 * (ib + B) then FlipBit (take B (drop ib pv)) (n - 8 * ib) else take B (drop ib pv)) ! k) m"
    proof (cases "8 * ib \<le> n \<and> n < 8 * (ib + B)")
      case True
      then have "(n = 8 * (ib + k) + m) = (n - 8 * ib = 8 * k + m)" by auto
      then show ?thesis using True L R by simp
    next
      case False
      then have "n \<noteq> 8 * (ib + k) + m" using k m by auto
      then show ?thesis using False L k assms by auto
    qed
  qed
qed (use assms in simp)

subsection \<open>The checksums of the blocks\<close>

text \<open>The page sizes of the engine.  Pages of at most 8 KB are one block, larger ones four.\<close>

definition page_sizes :: "nat set" where
  "page_sizes = {2048, 4096, 8192, 16384, 32768}"

definition nblk :: "nat \<Rightarrow> nat" where
  "nblk cb = cb div CbBlockSize cb"

definition blk :: "cpu \<Rightarrow> u8 list \<Rightarrow> nat \<Rightarrow> u32 \<Rightarrow> nat \<Rightarrow> u64" where
  "blk c pv cb pn k = ChecksumSelectNewFormat c (dwords (take (CbBlockSize cb) (drop (CbBlockSize cb * k) pv))) pn (k = 0)"

definition sums :: "cpu \<Rightarrow> u8 list \<Rightarrow> nat \<Rightarrow> u32 \<Rightarrow> PAGECHECKSUM" where
  "sums c pv cb pn = map (\<lambda>k. if k < nblk cb then blk c pv cb pn k else 0) [0..<4]"

lemma page_sizesE:
  assumes "cb \<in> page_sizes"
  obtains "FIsSmallPage (int cb)" "nblk cb = 1" "CbBlockSize cb = cb" "cb \<in> {2048, 4096, 8192}"
  | "\<not> FIsSmallPage (int cb)" "nblk cb = 4" "cb = 4 * CbBlockSize cb" "CbBlockSize cb \<in> {4096, 8192}"
  using assms by (auto simp: page_sizes_def FIsSmallPage_def nblk_def CbBlockSize_def)

lemma block_size:
  assumes "cb \<in> page_sizes"
  obtains k where "CbBlockSize cb = 4 * 2 ^ k" "6 \<le> k" "k \<le> 11" "nblk cb * CbBlockSize cb = cb" "nblk cb \<le> 4" "0 < nblk cb"
proof -
  note d = CbBlockSize_def FIsSmallPage_def nblk_def
  have "cb = 2048 \<or> cb = 4096 \<or> cb = 8192 \<or> cb = 16384 \<or> cb = 32768" using assms by (simp add: page_sizes_def)
  then show thesis using that [of 9] that [of 10] that [of 11] by (elim disjE) (simp_all add: d)
qed

lemma upt_4: "[0..<4] = [0, 1, 2, 3 :: nat]"
  by code_simp

lemma nth_sums [simp]: "k < 4 \<Longrightarrow> sums c pv cb pn ! k = (if k < nblk cb then blk c pv cb pn k else 0)"
  by (simp add: sums_def)

lemma length_sums [simp]: "length (sums c pv cb pn) = 4"
  by (simp add: sums_def)

lemma compute_small:
  assumes "cb \<in> page_sizes" "FIsSmallPage (int cb)" "FPageHasNewChecksumFormat pv databasePage"
  shows "ComputePageChecksum c pv cb databasePage pn fNew = Some (pv, sums c pv cb pn)"
  using assms(1)
proof (cases rule: page_sizesE)
  case 1
  then show ?thesis
    using assms by (simp add: ComputePageChecksum_def FPageHasLongChecksum_def ChecksumNewFormat_def sums_def blk_def upt_4)
qed (use assms in simp)

definition store_sums :: "cpu \<Rightarrow> u8 list \<Rightarrow> nat \<Rightarrow> u32 \<Rightarrow> u8 list" where
  "store_sums c pv cb pn = store_rgChecksum (sums c pv cb pn) pv"

lemma store_rgChecksum_cong:
  "a ! 1 = b ! 1 \<Longrightarrow> a ! 2 = b ! 2 \<Longrightarrow> a ! 3 = b ! 3 \<Longrightarrow> store_rgChecksum a pv = store_rgChecksum b pv"
  by (simp add: store_rgChecksum_def)

lemma compute_large:
  assumes "cb \<in> page_sizes" "\<not> FIsSmallPage (int cb)" "FPageHasNewChecksumFormat pv databasePage" "length pv = cb"
  shows "ComputePageChecksum c pv cb databasePage pn fNew =
    (let pv' = if fNew then store_sums c pv cb pn else pv in Some (pv', (sums c pv cb pn)[0 := blk c pv' cb pn 0]))"
  using assms(1)
proof (cases rule: page_sizesE)
  case 2
  have "block_loop c pv cb (CbBlockSize cb) pn (CbBlockSize cb) 1 [0, 0, 0, 0] =
      Some [0, blk c pv cb pn 1, blk c pv cb pn 2, blk c pv cb pn 3]"
  proof -
    have "cb = 16384 \<or> cb = 32768" using assms(1,2) by (auto simp: page_sizes_def FIsSmallPage_def)
    then show ?thesis
    proof
      assume "cb = 16384"
      then show ?thesis by (simp add: CbBlockSize_def FIsSmallPage_def ChecksumNewFormat_def blk_def)
    next
      assume "cb = 32768"
      then show ?thesis by (simp add: CbBlockSize_def FIsSmallPage_def ChecksumNewFormat_def blk_def)
    qed
  qed
  moreover have "store_rgChecksum [0, blk c pv cb pn 1, blk c pv cb pn 2, blk c pv cb pn 3] pv = store_sums c pv cb pn"
    unfolding store_sums_def by (rule store_rgChecksum_cong) (use 2 in \<open>simp_all add: numeral_2_eq_2 numeral_3_eq_3\<close>)
  ultimately show ?thesis
    using assms 2 by (simp add: ComputePageChecksum_def FPageHasLongChecksum_def ChecksumNewFormat_def sums_def blk_def upt_4 Let_def)
qed (use assms in simp)

subsection \<open>A flipped bit\<close>

lemma block_words:
  assumes "cb \<in> page_sizes" "length pv = cb" "k < nblk cb" "B = CbBlockSize cb"
  obtains e where "length (dwords (take B (drop (B * k) pv))) = 2 ^ e" "6 \<le> e" "e \<le> 11" "B = 4 * 2 ^ e"
    "length (take B (drop (B * k) pv)) = B" "B * k + B \<le> length pv"
proof -
  obtain e where e: "CbBlockSize cb = 4 * 2 ^ e" "6 \<le> e" "e \<le> 11" "nblk cb * CbBlockSize cb = cb"
    using assms(1) by (rule block_size)
  have "B * (k + 1) \<le> B * nblk cb" using assms(3) by (intro mult_le_mono2) simp
  then have l: "B * k + B \<le> length pv" using e(4) assms(2,4) by (simp add: mult.commute)
  then have l': "length (take B (drop (B * k) pv)) = B" by simp
  then have "length (dwords (take B (drop (B * k) pv))) = 2 ^ e" using e(1) assms(4) by (simp only: length_dwords)
  with e l l' show thesis using that assms(4) by blast
qed

lemma blk_flip_other:
  assumes "cb \<in> page_sizes" "length pv = cb" "k < nblk cb" "k \<noteq> n div (8 * CbBlockSize cb)"
  shows "blk c (FlipBit pv n) cb pn k = blk c pv cb pn k"
proof -
  define B where "B = CbBlockSize cb"
  obtain e where e: "B = 4 * 2 ^ e" "B * k + B \<le> length pv"
    using block_words [OF assms(1-3) B_def] by blast
  have "\<not> (8 * (B * k) \<le> n \<and> n < 8 * (B * k + B))"
  proof
    assume "8 * (B * k) \<le> n \<and> n < 8 * (B * k + B)"
    then have "n div (8 * B) = k" by (intro div_nat_eqI) (simp_all add: algebra_simps)
    with assms(4) show False by (simp add: B_def)
  qed
  then have "take B (drop (B * k) (FlipBit pv n)) = take B (drop (B * k) pv)"
    using block_FlipBit [OF e(2), of n] by (simp only: if_False)
  then show ?thesis by (simp add: blk_def flip: B_def)
qed

lemma blk_flip:
  assumes "cb \<in> page_sizes" "length pv = cb" "k < nblk cb" "k = n div (8 * CbBlockSize cb)" "B = CbBlockSize cb"
  shows "dwords (take B (drop (B * k) (FlipBit pv n))) = flip_bit_at (n - 8 * (B * k)) (dwords (take B (drop (B * k) pv)))"
    "n - 8 * (B * k) < 8 * B" "8 * (B * k) \<le> n"
proof -
  obtain e where e: "B = 4 * 2 ^ e" "B * k + B \<le> length pv" "length (take B (drop (B * k) pv)) = B"
    using block_words [OF assms(1-3,5)] by blast
  have B: "0 < 8 * B" using e(1) by simp
  have "8 * B * k + n mod (8 * B) = n" using assms(4,5) by (metis mult_div_mod_eq)
  moreover have "n mod (8 * B) < 8 * B" using B by (rule mod_less_divisor)
  ultimately have n: "8 * (B * k) \<le> n" "n < 8 * (B * k + B)" by (simp_all add: algebra_simps)
  then show "n - 8 * (B * k) < 8 * B" "8 * (B * k) \<le> n" by (simp_all add: algebra_simps)
  have "4 dvd length (take B (drop (B * k) pv))" using e(1,3) by simp
  then show "dwords (take B (drop (B * k) (FlipBit pv n))) = flip_bit_at (n - 8 * (B * k)) (dwords (take B (drop (B * k) pv)))"
    using block_FlipBit [OF e(2), of n] n by (simp add: dwords_FlipBit)
qed

lemma small_u32: "n < 2 ^ 32 \<Longrightarrow> unat (of_nat n :: u32) = n"
  by (simp add: unat_of_nat take_bit_eq_mod)

lemma page_bound: "cb \<in> page_sizes \<Longrightarrow> 8 * cb \<le> 262144"
  by (auto simp: page_sizes_def)

lemma try_flipped:
  assumes "cb \<in> page_sizes" "length pv = cb" "k < nblk cb" "k = n div (8 * CbBlockSize cb)" "64 \<le> n"
    and p: "p \<noteq> of_nat (n - 8 * (CbBlockSize cb * k))"
  shows "FTryFixBlock (CbBlockSize cb) p (blk c pv cb pn k) (blk c (FlipBit pv n) cb pn k) =
    (xeChecksumCorrectableError, of_nat (n - 8 * (CbBlockSize cb * k)))"
proof -
  define B where "B = CbBlockSize cb"
  obtain e where e: "length (dwords (take B (drop (B * k) pv))) = 2 ^ e" "6 \<le> e" "e \<le> 11" "B = 4 * 2 ^ e"
    "B * k + B \<le> length pv"
    using block_words [OF assms(1-3) B_def] by blast
  let ?w = "dwords (take B (drop (B * k) pv))" and ?n = "n - 8 * (B * k)"
  let ?x = "blk c pv cb pn k" and ?y = "blk c (FlipBit pv n) cb pn k"
  have f: "dwords (take B (drop (B * k) (FlipBit pv n))) = flip_bit_at ?n ?w" "?n < 8 * B"
    using blk_flip [OF assms(1-4) B_def] by blast+
  have cb: "of_nat (4 * length ?w) = (of_nat B :: u32)" using e by simp
  have xy: "?x = ChecksumSelectNewFormat c ?w pn (k = 0)" "?y = ChecksumSelectNewFormat c (flip_bit_at ?n ?w) pn (k = 0)"
    by (simp_all add: blk_def f flip: B_def)
  have s: "FECCErrorIsCorrectable (of_nat B) ?x ?y \<and> unat (IbitCorrupted (of_nat B) ?x ?y) = ?n"
    unfolding xy cb [symmetric] by (rule selected.single_flip [OF e(1-3)]) (use f(2) e(4) assms(5) in \<open>simp_all add: power_add\<close>)
  have "B \<le> 32768" using e(5) page_bound [OF assms(1)] assms(2) by simp
  then have b: "unat (of_nat ?n :: u32) = ?n" "unat (8 * of_nat B :: u32) = 8 * B"
    using f(2) small_u32 [of ?n] small_u32 [of "8 * B"] by simp_all
  have i: "IbitCorrupted (of_nat B) ?x ?y = of_nat ?n" using s b(1) by (simp only: word_unat_eq_iff)
  moreover have "of_nat ?n < (8 * of_nat B :: u32)" using b f(2) by (simp add: word_less_nat_alt)
  moreover have "?x \<noteq> ?y"
  proof
    assume "?x = ?y"
    then have "FECCErrorIsCorrectable (of_nat B) ?x ?x" using s by simp
    then show False by (simp add: FECCErrorIsCorrectable_def FECCErrorIsCorrectable_dw_def CbitSet_bits Let_def)
  qed
  ultimately show ?thesis using s p by (simp add: FTryFixBlock_def flip: B_def)
qed

subsection \<open>The stored checksums of a page with a flipped bit\<close>

lemma load_qw_FlipBit:
  assumes "ib + 8 \<le> length pv"
  shows "load_qw (FlipBit pv n) ib =
    (if 8 * ib \<le> n \<and> n < 8 * ib + 64 then load_qw pv ib XOR push_bit (n - 8 * ib) 1 else load_qw pv ib)"
proof (rule u64_eqI)
  fix m :: nat assume m: "m < 64"
  have l: "ib + m div 8 < length pv" using m assms by linarith
  have "bit (push_bit (n - 8 * ib) 1 :: u64) m = (m = n - 8 * ib)"
    using m by (auto simp: bit_push_bit_iff bit_1_iff simp del: push_bit_of_1)
  moreover have "(ib + m div 8 = n div 8 \<and> m mod 8 = n mod 8) = (n = 8 * ib + m)"
  proof -
    have "(ib + m div 8 = n div 8 \<and> m mod 8 = n mod 8) = (n = 8 * (ib + m div 8) + m mod 8)" by (rule byte_place) simp
    also have "8 * (ib + m div 8) + m mod 8 = 8 * ib + m" using mult_div_mod_eq [of 8 m] by (simp only: distrib_left add.assoc)
    finally show ?thesis .
  qed
  ultimately show "bit (load_qw (FlipBit pv n) ib) m =
      bit (if 8 * ib \<le> n \<and> n < 8 * ib + 64 then load_qw pv ib XOR push_bit (n - 8 * ib) 1 else load_qw pv ib) m"
    using assms m l by (auto simp: bit_load_qw bit_FlipBit bit_xor_iff simp del: push_bit_of_1)
qed

definition in_slots :: "nat \<Rightarrow> bool" where
  "in_slots n \<longleftrightarrow> 320 \<le> n \<and> n < 512"

lemma page_length: "cb \<in> page_sizes \<Longrightarrow> 2048 \<le> cb"
  by (auto simp: page_sizes_def)

lemma xor_twice: "a XOR b XOR b = a" "(a XOR b) XOR b = a" for a b :: u64
  by (rule bit_word_eqI, auto simp: bit_xor_iff)+

lemma expected_flip:
  assumes "cb \<in> page_sizes" "length pv = cb" "64 \<le> n" "n < 8 * cb"
  shows "\<not> in_slots n \<or> FIsSmallPage (int cb) \<Longrightarrow> LongChecksumFromPage (FlipBit pv n) cb = LongChecksumFromPage pv cb"
    "in_slots n \<Longrightarrow> \<not> FIsSmallPage (int cb) \<Longrightarrow>
      flip_checksum_bit (LongChecksumFromPage (FlipBit pv n) cb) (64 + (n - 320)) = LongChecksumFromPage pv cb"
    "LongChecksumFromPage (FlipBit pv n) cb ! 0 = LongChecksumFromPage pv cb ! 0"
proof -
  have l: "ib + 8 \<le> length pv" if "ib \<le> 56" for ib using that assms(2) page_length [OF assms(1)] by simp
  note q = load_qw_FlipBit [OF l [of 0], of n] load_qw_FlipBit [OF l [of 40], of n] load_qw_FlipBit [OF l [of 48], of n]
    load_qw_FlipBit [OF l [of 56], of n]
  show "LongChecksumFromPage (FlipBit pv n) cb = LongChecksumFromPage pv cb" if "\<not> in_slots n \<or> FIsSmallPage (int cb)"
    using that q assms(3) by (auto simp: LongChecksumFromPage_def in_slots_def PAGECHECKSUM1_def ib_rgChecksum_def)
  show "LongChecksumFromPage (FlipBit pv n) cb ! 0 = LongChecksumFromPage pv cb ! 0"
    using q assms(3) by (auto simp: LongChecksumFromPage_def PAGECHECKSUM1_def)
  show "flip_checksum_bit (LongChecksumFromPage (FlipBit pv n) cb) (64 + (n - 320)) = LongChecksumFromPage pv cb"
    if s: "in_slots n" "\<not> FIsSmallPage (int cb)"
  proof -
    have m: "(64 + (n - 320)) div 64 = 1 \<and> (64 + (n - 320)) mod 64 = n - 320 \<and> n < 384 \<or>
      (64 + (n - 320)) div 64 = 2 \<and> (64 + (n - 320)) mod 64 = n - 384 \<and> 384 \<le> n \<and> n < 448 \<or>
      (64 + (n - 320)) div 64 = 3 \<and> (64 + (n - 320)) mod 64 = n - 448 \<and> 448 \<le> n"
      using s(1) unfolding in_slots_def by (auto simp: div_nat_eqI div_if mod_if)
    then show ?thesis
      using s q assms(3) unfolding in_slots_def
      by (elim disjE conjE) (simp_all add: LongChecksumFromPage_def flip_checksum_bit_def ib_rgChecksum_def
        numeral_2_eq_2 numeral_3_eq_3 xor_twice del: push_bit_of_1)
  qed
qed

subsection \<open>The loop over the blocks of a page with one flipped bit\<close>

definition fix_inv :: "nat \<Rightarrow> PAGECHECKSUM \<Rightarrow> PAGECHECKSUM \<Rightarrow> nat \<Rightarrow> nat \<Rightarrow> fix_state \<Rightarrow> bool" where
  "fix_inv cb E0 E n k s \<longleftrightarrow>
     (let B = CbBlockSize cb; j = n div (8 * B)
      in iblk s = k \<and> ibT s = B * k \<and> cbBlock s = (if k < nblk cb then B else 0) \<and>
         length (rgErr s) = 4 \<and> length (rgibitCorrupted s) = 4 \<and>
         (\<forall>i<4. rgErr s ! i = (if i = j \<and> i < k then xeChecksumCorrectableError else xeChecksumNoError)) \<and>
         (\<forall>i<4. k \<le> i \<longrightarrow> rgibitCorrupted s ! i = (if i = 0 then 301 else UINT_MAX)) \<and>
         (j < k \<longrightarrow> rgibitCorrupted s ! j = of_nat n) \<and>
         ibitCorrupted s = (if j < k then of_nat n else UINT_MAX) \<and>
         checksumExpected s = (if k = 0 then E0 else E))"

lemma next_size: "cb \<in> page_sizes \<Longrightarrow> k < nblk cb \<Longrightarrow>
    min (cb - (CbBlockSize cb * k + CbBlockSize cb)) (CbBlockSize cb) = (if k + 1 < nblk cb then CbBlockSize cb else 0)"
proof -
  assume a: "cb \<in> page_sizes" "k < nblk cb"
  obtain e where e: "nblk cb * CbBlockSize cb = cb" using a(1) by (rule block_size)
  obtain r where r: "nblk cb = k + 1 + r" using a(2) by (metis Suc_eq_plus1 Suc_leI le_Suc_ex)
  have "cb - (CbBlockSize cb * k + CbBlockSize cb) = r * CbBlockSize cb"
    using e unfolding r by (simp add: algebra_simps)
  then show ?thesis using r by (cases r) auto
qed

lemma first_correctable_flip:
  assumes n: "n < 262144" and s: "ibitCorrupted s = UINT_MAX" "rgibitCorrupted s ! iblk s = of_nat n"
    and i: "in_slots n \<Longrightarrow> iblk s = 0"
    and E: "\<not> in_slots n \<or> small \<Longrightarrow> checksumExpected s = E"
      "in_slots n \<Longrightarrow> \<not> small \<Longrightarrow> flip_checksum_bit (checksumExpected s) (64 + (n - 320)) = E"
  shows "first_correctable small s = s\<lparr>ibitCorrupted := of_nat n, checksumExpected := E\<rparr>"
proof -
  have un: "unat (of_nat n :: u32) = n" using n by (simp add: small_u32)
  have le: "(320 :: u32) \<le> of_nat n \<longleftrightarrow> 320 \<le> n" "(of_nat n :: u32) < 512 \<longleftrightarrow> n < 512"
    by (simp_all add: word_le_nat_alt word_less_nat_alt un)
  have u: "unat (64 + (of_nat n - 320) :: u32) = 64 + (n - 320)" if "320 \<le> n"
  proof -
    have "(64 + (of_nat n - 320) :: u32) = of_nat (64 + (n - 320))" using that by (simp add: of_nat_diff)
    then show ?thesis using small_u32 [of "64 + (n - 320)"] n by simp
  qed
  show ?thesis
    using s i E u unfolding in_slots_def
    by (cases "\<not> small \<and> 320 \<le> n \<and> n < 512") (auto simp: first_correctable_def Let_def le ib_rgChecksum_def cxeChecksumPerPage_def)
qed

lemma fix_step:
  assumes cb: "cb \<in> page_sizes" "length pv = cb" and n: "64 \<le> n" "n < 8 * cb" "n \<noteq> 301"
    and inv: "fix_inv cb E0 E n k s" and k: "k < nblk cb"
    and E: "E = sums c pv cb pn" and a: "a = sums c (FlipBit pv n) cb pn"
    and E0: "\<not> in_slots n \<or> FIsSmallPage (int cb) \<Longrightarrow> E0 = E" "E0 ! 0 = E ! 0"
      "in_slots n \<Longrightarrow> \<not> FIsSmallPage (int cb) \<Longrightarrow> flip_checksum_bit E0 (64 + (n - 320)) = E"
  shows "\<exists>s'. fix_block cb a s = Some s' \<and> fix_inv cb E0 E n (k + 1) s'"
proof -
  define B where "B = CbBlockSize cb"
  define j where "j = n div (8 * B)"
  obtain e where e: "B = 4 * 2 ^ e" "6 \<le> e" "nblk cb * B = cb" "nblk cb \<le> 4" using cb(1) unfolding B_def by (rule block_size)
  have "(2 :: nat) ^ 6 \<le> 2 ^ e" using e(2) by (intro power_increasing) simp_all
  then have B: "256 \<le> B" using e(1) by simp
  have k4: "k < 4" using k e(4) by simp
  note d = inv [unfolded fix_inv_def Let_def, folded B_def, folded j_def]
  have Ek: "checksumExpected s ! k = blk c pv cb pn k"
    using d E0(2) k k4 by (cases "k = 0") (simp_all add: E)
  have ak: "a ! k = blk c (FlipBit pv n) cb pn k" using k k4 by (simp add: a)
  have nb: "n < 262144" using n(2) page_bound [OF cb(1)] by simp
  then have un: "unat (of_nat n :: u32) = n" by (simp add: small_u32)
  have n_max: "of_nat m \<noteq> UINT_MAX" if "m < 262144" for m
  proof
    assume "of_nat m = UINT_MAX"
    then have "unat (of_nat m :: u32) = 4294967295" by (simp add: UINT_MAX_def)
    then show False using small_u32 [of m] that by simp
  qed
  have d1: "iblk s = k" "ibT s = B * k" "cbBlock s = B" "length (rgErr s) = 4" "length (rgibitCorrupted s) = 4"
    "ibitCorrupted s = (if j < k then of_nat n else UINT_MAX)"
    using d k by simp_all
  have d2: "rgErr s ! i = (if i = j \<and> i < k then xeChecksumCorrectableError else xeChecksumNoError)" if "i < 4" for i
    using d that by blast
  have d3: "rgibitCorrupted s ! i = (if i = 0 then 301 else UINT_MAX)" if "i < 4" "k \<le> i" for i
    using d that by blast
  have d4: "rgibitCorrupted s ! j = of_nat n" if "j < k" using d that by blast
  have nx: "min (cb - (B + B * k)) B = (if Suc k < nblk cb then B else 0)"
    using next_size [OF cb(1) k] by (simp add: B_def add.commute)
  show ?thesis
  proof (cases "k = j")
    case False
    let ?s = "s\<lparr>rgErr := (rgErr s)[k := xeChecksumNoError],
      rgibitCorrupted := (rgibitCorrupted s)[k := rgibitCorrupted s ! k + 8 * of_nat (B * k)]\<rparr>"
    have "FTryFixBlock B (rgibitCorrupted s ! k) (blk c pv cb pn k) (a ! k) = (xeChecksumNoError, rgibitCorrupted s ! k)"
      unfolding ak using blk_flip_other [OF cb k] False by (simp add: FTryFixBlock_def j_def B_def)
    then have "fix_block cb a s = Some (next_block cb ?s)"
      by (simp add: fix_block_def d1 Ek)
    moreover have "checksumExpected s = E"
    proof (cases "k = 0")
      case True
      then have "8 * B \<le> n" using False B by (simp add: j_def div_eq_0_iff not_less)
      then have "\<not> in_slots n" using B by (simp add: in_slots_def)
      then show ?thesis using E0(1) d True by simp
    qed (use d in simp)
    then have "fix_inv cb E0 E n (k + 1) (next_block cb ?s)"
      unfolding fix_inv_def Let_def B_def [symmetric] j_def [symmetric] next_block_def
      using False d2 d3 d4 k4 by (simp add: d1 nx nth_list_update less_Suc_eq add.commute)
    ultimately show ?thesis by blast
  next
    case True
    let ?m = "n - 8 * (B * k)"
    have m: "?m < 8 * B" "8 * (B * k) \<le> n" using blk_flip(2,3) [OF cb k _ B_def] True by (simp_all add: j_def B_def)
    have p: "rgibitCorrupted s ! k \<noteq> of_nat ?m"
    proof (cases "k = 0")
      case k0: True
      have "unat (301 :: u32) = 301" by simp
      then have "(301 :: u32) \<noteq> of_nat n" using un n(3) by metis
      then show ?thesis using d3 [OF k4] k0 by simp
    next
      case False
      then show ?thesis using d3 [OF k4] n_max [of ?m] nb by (simp add: less_imp_diff_less)
    qed
    have t: "FTryFixBlock B (rgibitCorrupted s ! k) (blk c pv cb pn k) (a ! k) = (xeChecksumCorrectableError, of_nat ?m)"
      unfolding ak B_def by (rule try_flipped [OF cb k]) (use True p n(1) in \<open>simp_all add: j_def B_def\<close>)
    have ib: "of_nat ?m + 8 * of_nat (B * k) = (of_nat n :: u32)"
    proof -
      have "of_nat n = (of_nat (?m + 8 * (B * k)) :: u32)" using m(2) by simp
      then show ?thesis by simp
    qed
    let ?s = "s\<lparr>rgErr := (rgErr s)[k := xeChecksumCorrectableError], rgibitCorrupted := (rgibitCorrupted s)[k := of_nat n]\<rparr>"
    have "fix_block cb a s = Some (next_block cb (first_correctable (FIsSmallPage (int cb)) ?s))"
      using t by (simp add: fix_block_def d1 Ek ib [simplified])
    moreover have f: "first_correctable (FIsSmallPage (int cb)) ?s = ?s\<lparr>ibitCorrupted := of_nat n, checksumExpected := E\<rparr>"
    proof (rule first_correctable_flip [OF nb])
      show "in_slots n \<Longrightarrow> iblk ?s = 0"
      proof -
        assume "in_slots n"
        then have "n < 8 * B" using B by (simp add: in_slots_def)
        then show "iblk ?s = 0" using True by (simp add: j_def d1)
      qed
      show "\<not> in_slots n \<or> FIsSmallPage (int cb) \<Longrightarrow> checksumExpected ?s = E"
        using E0(1) d by (cases "k = 0") auto
      show "flip_checksum_bit (checksumExpected ?s) (64 + (n - 320)) = E" if "in_slots n" "\<not> FIsSmallPage (int cb)"
        using that E0(3) d \<open>in_slots n \<Longrightarrow> iblk ?s = 0\<close> by (auto simp: d1)
    qed (use True d1 k4 in simp_all)
    moreover have "fix_inv cb E0 E n (k + 1) (next_block cb (?s\<lparr>ibitCorrupted := of_nat n, checksumExpected := E\<rparr>))"
      unfolding fix_inv_def Let_def B_def [symmetric] j_def [symmetric] next_block_def
      using True d2 d3 k4 nx by (simp add: d1 nth_list_update less_Suc_eq add.commute)
    ultimately show ?thesis unfolding f by blast
  qed
qed

lemma fix_blocks_flip:
  assumes cb: "cb \<in> page_sizes" "length pv = cb" and n: "64 \<le> n" "n < 8 * cb" "n \<noteq> 301"
    and E: "E = sums c pv cb pn" and a: "a = sums c (FlipBit pv n) cb pn"
    and E0: "\<not> in_slots n \<or> FIsSmallPage (int cb) \<Longrightarrow> E0 = E" "E0 ! 0 = E ! 0"
      "in_slots n \<Longrightarrow> \<not> FIsSmallPage (int cb) \<Longrightarrow> flip_checksum_bit E0 (64 + (n - 320)) = E"
    and s: "fix_inv cb E0 E n k s" "k \<le> nblk cb"
  shows "\<exists>s'. fix_blocks cb a s = Some s' \<and> fix_inv cb E0 E n (nblk cb) s'"
  using s
proof (induction "nblk cb - k" arbitrary: k s)
  case 0
  then have "k = nblk cb" by simp
  moreover have "cbBlock s = 0" using 0 \<open>k = nblk cb\<close> by (simp add: fix_inv_def Let_def)
  ultimately show ?case using 0 by (subst fix_blocks.simps) simp
next
  case (Suc d)
  then have k: "k < nblk cb" by simp
  obtain s' where s': "fix_block cb a s = Some s'" "fix_inv cb E0 E n (k + 1) s'"
    using fix_step [OF cb n Suc.prems(1) k E a E0] by blast
  obtain e where "CbBlockSize cb = 4 * 2 ^ e" "nblk cb \<le> 4" using cb(1) by (rule block_size)
  then have "0 < cbBlock s" "\<not> cxeChecksumPerPage \<le> iblk s"
    using Suc.prems(1) k by (simp_all add: fix_inv_def Let_def cxeChecksumPerPage_def)
  then have "fix_blocks cb a s = fix_blocks cb a s'" using s'(1) by (subst fix_blocks.simps) simp
  moreover have "\<exists>s''. fix_blocks cb a s' = Some s'' \<and> fix_inv cb E0 E n (nblk cb) s''"
    using Suc(1) [OF _ s'(2)] Suc(2) k by simp
  ultimately show ?case by simp
qed

lemma fold_one:
  assumes "j < n" "\<And>k. k < n \<Longrightarrow> P k = (k = j)"
  shows "fold (\<lambda>k x. if P k then f k x else x) [0..<n] x = f j x"
proof -
  have id: "fold (\<lambda>k x. if P k then f k x else x) xs x = x" if "\<And>k. k \<in> set xs \<Longrightarrow> \<not> P k" for xs and x
    using that by (induction xs arbitrary: x) auto
  have "[0..<n] = [0..<j] @ j # [Suc j..<n]" using assms(1) by (metis upt_add_eq_append upt_conv_Cons le0 less_imp_le_nat zero_le le_add_diff_inverse)
  then show ?thesis using assms id [of "[0..<j]"] id [of "[Suc j..<n]"] by simp
qed

text \<open>A page is valid if \<open>ChecksumPage\<close> computes the checksums it finds in the header.\<close>

definition valid_page :: "cpu \<Rightarrow> u8 list \<Rightarrow> nat \<Rightarrow> u32 \<Rightarrow> bool" where
  "valid_page c pv cb pn \<longleftrightarrow>
     length pv = cb \<and> FPageHasNewChecksumFormat pv databasePage \<and>
     (\<exists>rgxe. ChecksumPage c pv cb databasePage pn = Some (rgxe, rgxe))"

lemma valid_sums:
  assumes "cb \<in> page_sizes" "valid_page c pv cb pn"
  shows "LongChecksumFromPage pv cb = sums c pv cb pn" "length pv = cb" "FPageHasNewChecksumFormat pv databasePage"
proof -
  show l: "length pv = cb" and f: "FPageHasNewChecksumFormat pv databasePage" using assms(2) by (simp_all add: valid_page_def)
  have "(sums c pv cb pn)[0 := blk c pv cb pn 0] = sums c pv cb pn"
  proof -
    obtain e where "0 < nblk cb" using assms(1) by (rule block_size)
    then show ?thesis by (metis list_update_id nth_sums zero_less_numeral)
  qed
  then have "ComputePageChecksum c pv cb databasePage pn False = Some (pv, sums c pv cb pn)"
    using compute_small [OF assms(1) _ f] compute_large [OF assms(1) _ f l, of c pn False]
    by (cases "FIsSmallPage (int cb)") simp_all
  then show "LongChecksumFromPage pv cb = sums c pv cb pn"
    using assms(2) by (auto simp: valid_page_def ChecksumPage_def ChecksumFromPage_def FPageHasLongChecksum_def)
qed

lemma TryFixPage_flip:
  assumes cb: "cb \<in> page_sizes" and v: "valid_page c pv cb pn" and n: "64 \<le> n" "n < 8 * cb" "n \<noteq> 301"
  defines "pv' \<equiv> FlipBit pv n"
  shows "TryFixPage pv' cb databasePage fCorrect (LongChecksumFromPage pv' cb) (sums c pv' cb pn) =
    Some (if fCorrect then pv else pv', of_nat n)"
proof -
  note vs = valid_sums [OF cb v]
  define j where "j = n div (8 * CbBlockSize cb)"
  let ?X = "LongChecksumFromPage pv' cb" and ?E = "sums c pv cb pn"
  obtain e where e: "nblk cb * CbBlockSize cb = cb" "nblk cb \<le> 4" "0 < nblk cb" "CbBlockSize cb = 4 * 2 ^ e" using cb by (rule block_size)
  have j: "j < nblk cb" unfolding j_def using n(2) e(1,4) by (intro less_mult_imp_div_less) (simp add: algebra_simps)
  let ?s = "\<lparr>iblk = 0, ibT = 0, cbBlock = CbBlockSize cb, rgErr = replicate cxeChecksumPerPage xeChecksumNoError,
      rgibitCorrupted = [IbitNewChecksumFormatFlag databasePage, UINT_MAX, UINT_MAX, UINT_MAX],
      ibitCorrupted = UINT_MAX, checksumExpected = ?X\<rparr>"
  have inv: "fix_inv cb ?X ?E n 0 ?s"
    using e by (auto simp: fix_inv_def Let_def cxeChecksumPerPage_def IbitNewChecksumFormatFlag_def less_Suc_eq numeral_eq_Suc)
  have "\<exists>s. fix_blocks cb (sums c pv' cb pn) ?s = Some s \<and> fix_inv cb ?X ?E n (nblk cb) s"
  proof (rule fix_blocks_flip [OF cb vs(2) n refl _ _ _ _ inv])
    show "sums c pv' cb pn = sums c (FlipBit pv n) cb pn" by (simp add: pv'_def)
    show "\<not> in_slots n \<or> FIsSmallPage (int cb) \<Longrightarrow> ?X = ?E" "?X ! 0 = ?E ! 0"
      "in_slots n \<Longrightarrow> \<not> FIsSmallPage (int cb) \<Longrightarrow> flip_checksum_bit ?X (64 + (n - 320)) = ?E"
      unfolding pv'_def vs(1) [symmetric] by (rule expected_flip [OF cb vs(2) n(1,2)]; assumption)+
  qed simp
  then obtain s where s: "fix_blocks cb (sums c pv' cb pn) ?s = Some s" "fix_inv cb ?X ?E n (nblk cb) s"
    by blast
  note d = s(2) [unfolded fix_inv_def Let_def, folded j_def]
  have nb: "n < 262144" using n(2) page_bound [OF cb] by simp
  have "fold (\<lambda>k pv. if fCorrect \<and> rgErr s ! k = xeChecksumCorrectableError then FlipBit pv (unat (rgibitCorrupted s ! k)) else pv)
      [0..<iblk s] pv' = (if fCorrect then pv else pv')"
  proof (cases fCorrect)
    case True
    have "rgErr s ! k = xeChecksumCorrectableError \<longleftrightarrow> k = j" if "k < iblk s" for k using d that e(2) by auto
    then have "fold (\<lambda>k pv. if fCorrect \<and> rgErr s ! k = xeChecksumCorrectableError then FlipBit pv (unat (rgibitCorrupted s ! k)) else pv)
      [0..<iblk s] pv' = FlipBit pv' (unat (rgibitCorrupted s ! j))"
      using True j d by (intro fold_one) auto
    also have "\<dots> = pv" using d j nb by (simp add: small_u32 pv'_def FlipBit_FlipBit)
    finally show ?thesis using True by simp
  next
    case False
    have "fold (\<lambda>k pv. pv) xs x = x" for xs :: "nat list" and x :: "u8 list" by (induction xs) simp_all
    then show ?thesis using False by simp
  qed
  then show ?thesis unfolding TryFixPage_def s(1) option.case using d j by simp
qed

subsection \<open>Verifying and repairing\<close>

lemma FGetBit_bit: "FGetBit pv n = bit (pv ! (n div 8)) (n mod 8)"
  by (simp add: FGetBit_def Let_def bit_iff_and_push_bit_not_eq_0)

lemma format_bit: "FPageHasNewChecksumFormat pv databasePage = bit (pv ! 37) 5"
  by (simp add: FPageHasNewChecksumFormat_def FGetBit_bit IbitNewChecksumFormatFlag_def)

lemma format_flip:
  assumes "n \<noteq> 301" "37 < length pv"
  shows "FPageHasNewChecksumFormat (FlipBit pv n) databasePage = FPageHasNewChecksumFormat pv databasePage"
  using bit_FlipBit [OF assms(2), of 5 n] byte_place [of 5 37 n] assms(1) by (simp add: format_bit)

lemma sums_0: "cb \<in> page_sizes \<Longrightarrow> (sums c pv cb pn)[0 := blk c pv cb pn 0] = sums c pv cb pn"
proof -
  assume "cb \<in> page_sizes"
  then obtain e where "0 < nblk cb" by (rule block_size)
  then show ?thesis by (metis list_update_id nth_sums zero_less_numeral)
qed

lemma compute_False:
  assumes "cb \<in> page_sizes" "FPageHasNewChecksumFormat pv databasePage" "length pv = cb"
  shows "ComputePageChecksum c pv cb databasePage pn False = Some (pv, sums c pv cb pn)"
  using compute_small [OF assms(1) _ assms(2)] compute_large [OF assms(1) _ assms(2,3), of c pn False] sums_0 [OF assms(1)]
  by (cases "FIsSmallPage (int cb)") simp_all

lemma store_valid:
  assumes "cb \<in> page_sizes" "valid_page c pv cb pn" "\<not> FIsSmallPage (int cb)"
  shows "store_sums c pv cb pn = pv"
proof -
  note v = valid_sums [OF assms(1,2)]
  have l: "2048 \<le> length pv" using page_length [OF assms(1)] v(2) by simp
  have "sums c pv cb pn ! 1 = load_qw pv 40 \<and> sums c pv cb pn ! 2 = load_qw pv 48 \<and> sums c pv cb pn ! 3 = load_qw pv 56"
    unfolding v(1) [symmetric] using assms(3)
    by (simp add: LongChecksumFromPage_def ib_rgChecksum_def numeral_2_eq_2 numeral_3_eq_3)
  then show ?thesis using l
    by (simp add: store_sums_def store_rgChecksum_def ib_rgChecksum_def store_load_qw)
qed

lemma compute_valid:
  assumes "cb \<in> page_sizes" "valid_page c pv cb pn"
  shows "ComputePageChecksum c pv cb databasePage pn fNew = Some (pv, sums c pv cb pn)"
proof (cases "FIsSmallPage (int cb)")
  case True
  then show ?thesis using compute_small [OF assms(1)] valid_sums(3) [OF assms] by simp
next
  case False
  then show ?thesis
    using compute_large [OF assms(1) False] valid_sums [OF assms] store_valid [OF assms False] sums_0 [OF assms(1)] by simp
qed

lemma flip_detected:
  assumes "cb \<in> page_sizes" "valid_page c pv cb pn" "64 \<le> n" "n < 8 * cb"
  shows "sums c (FlipBit pv n) cb pn \<noteq> LongChecksumFromPage (FlipBit pv n) cb"
proof -
  note v = valid_sums [OF assms(1,2)]
  define j where "j = n div (8 * CbBlockSize cb)"
  obtain e where e: "nblk cb * CbBlockSize cb = cb" "nblk cb \<le> 4" "0 < nblk cb" "CbBlockSize cb = 4 * 2 ^ e" "6 \<le> e"
    using assms(1) by (rule block_size)
  have j: "j < nblk cb" unfolding j_def using assms(4) e(1,4) by (intro less_mult_imp_div_less) (simp add: algebra_simps)
  let ?m = "of_nat (n - 8 * (CbBlockSize cb * j)) :: u32"
  have "FTryFixBlock (CbBlockSize cb) (?m + 1) (blk c pv cb pn j) (blk c (FlipBit pv n) cb pn j) = (xeChecksumCorrectableError, ?m)"
    by (rule try_flipped [OF assms(1) v(2) j _ assms(3)]) (simp_all add: j_def)
  then have ne: "blk c pv cb pn j \<noteq> blk c (FlipBit pv n) cb pn j" by (auto simp: FTryFixBlock_def)
  have "LongChecksumFromPage (FlipBit pv n) cb ! j = blk c pv cb pn j"
  proof (cases "j = 0")
    case True
    then show ?thesis using expected_flip(3) [OF assms(1) v(2) assms(3,4)] e(3) by (simp add: v(1))
  next
    case False
    have "(2 :: nat) ^ 6 \<le> 2 ^ e" using e(5) by (intro power_increasing) simp_all
    then have "\<not> in_slots n" using False e(4) by (auto simp: j_def in_slots_def div_eq_0_iff)
    then show ?thesis using expected_flip(1) [OF assms(1) v(2) assms(3,4)] j e(2) by (simp add: v(1))
  qed
  then show ?thesis using ne j e(2) by (metis less_le_trans nth_sums)
qed

lemma repair_flip:
  assumes "cb \<in> page_sizes" "valid_page c pv cb pn" "64 \<le> n" "n < 8 * cb" "n \<noteq> 301"
  shows "ChecksumAndPossiblyFixPage c (FlipBit pv n) cb databasePage pn True =
      Some \<lparr>fr_page = pv, fr_expected = ChecksumFromPage pv cb databasePage, fr_actual = ChecksumFromPage pv cb databasePage,
        fr_fCorrectableError = True, fr_ibitCorrupted = int n\<rparr>"
proof -
  note v = valid_sums [OF assms(1,2)]
  have l: "length (FlipBit pv n) = cb" using v(2) by simp
  have f: "FPageHasNewChecksumFormat (FlipBit pv n) databasePage"
    using format_flip [OF assms(5)] v(2,3) page_length [OF assms(1)] by simp
  have s: "sint (of_nat n :: u32) = int n"
  proof -
    have "n < 262144" using assms(4) page_bound [OF assms(1)] by simp
    then show ?thesis by (simp add: signed_of_nat signed_take_bit_int_eq_self)
  qed
  have c: "ChecksumFromPage p cb databasePage = LongChecksumFromPage p cb" for p
    by (simp add: ChecksumFromPage_def FPageHasLongChecksum_def)
  show ?thesis
    using compute_False [OF assms(1) f l] flip_detected [OF assms(1-4)] f TryFixPage_flip [OF assms, of True]
      compute_valid [OF assms(1,2)] s v(1)
    by (simp add: ChecksumAndPossiblyFixPage_def Let_def c)
qed

subsection \<open>Two errors, and errors in the stored checksum\<close>

lemma fatal_first:
  assumes "cb \<in> page_sizes" "FTryFixBlock (CbBlockSize cb) 301 (ex ! 0) (a ! 0) = (xeChecksumFatalError, p)"
  shows "TryFixPage pv cb databasePage fCorrect ex a = None"
proof -
  obtain e where e: "CbBlockSize cb = 4 * 2 ^ e" using assms(1) by (rule block_size)
  show ?thesis
    unfolding TryFixPage_def
    by (subst fix_blocks.simps)
      (use e assms(2) in \<open>simp add: fix_block_def cxeChecksumPerPage_def IbitNewChecksumFormatFlag_def\<close>)
qed

lemma not_repaired:
  assumes "cb \<in> page_sizes" "length pv = cb" "FPageHasNewChecksumFormat pv databasePage"
    "FTryFixBlock (CbBlockSize cb) 301 (LongChecksumFromPage pv cb ! 0) (blk c pv cb pn 0) = (xeChecksumFatalError, p)"
  shows "ChecksumAndPossiblyFixPage c pv cb databasePage pn fCorrect =
      Some \<lparr>fr_page = pv, fr_expected = ChecksumFromPage pv cb databasePage, fr_actual = sums c pv cb pn,
        fr_fCorrectableError = False, fr_ibitCorrupted = - 1\<rparr>"
    "sums c pv cb pn \<noteq> ChecksumFromPage pv cb databasePage"
proof -
  obtain e where "0 < nblk cb" using assms(1) by (rule block_size)
  then have s0: "sums c pv cb pn ! 0 = blk c pv cb pn 0" by simp
  have c: "ChecksumFromPage pv cb databasePage = LongChecksumFromPage pv cb"
    by (simp add: ChecksumFromPage_def FPageHasLongChecksum_def)
  show ne: "sums c pv cb pn \<noteq> ChecksumFromPage pv cb databasePage"
  proof -
    have "LongChecksumFromPage pv cb ! 0 \<noteq> blk c pv cb pn 0" using assms(4) by (auto simp: FTryFixBlock_def)
    then show ?thesis unfolding c using s0 by metis
  qed
  show "ChecksumAndPossiblyFixPage c pv cb databasePage pn fCorrect =
      Some \<lparr>fr_page = pv, fr_expected = ChecksumFromPage pv cb databasePage, fr_actual = sums c pv cb pn,
        fr_fCorrectableError = False, fr_ibitCorrupted = - 1\<rparr>"
    using ne fatal_first [OF assms(1), of "LongChecksumFromPage pv cb" "sums c pv cb pn" p pv fCorrect] assms(4) s0
      compute_False [OF assms(1,3,2)] assms(3)
    by (simp add: ChecksumAndPossiblyFixPage_def Let_def c)
qed

lemma try_double:
  assumes "cb \<in> page_sizes" "length pv = cb" "64 \<le> n" "n < 8 * CbBlockSize cb" "64 \<le> m" "m < 8 * CbBlockSize cb" "m \<noteq> n"
  shows "FTryFixBlock (CbBlockSize cb) p (blk c pv cb pn 0) (blk c (FlipBit (FlipBit pv n) m) cb pn 0) = (xeChecksumFatalError, p)"
proof -
  define B where "B = CbBlockSize cb"
  obtain e0 where "0 < nblk cb" using assms(1) by (rule block_size)
  note b = block_words [OF assms(1,2) this B_def]
  obtain e where e: "length (dwords (take B (drop (B * 0) pv))) = 2 ^ e" "6 \<le> e" "e \<le> 11" "B = 4 * 2 ^ e"
    using b by blast
  let ?w = "dwords (take B (drop (B * 0) pv))"
  have d: "n div (8 * B) = 0" "m div (8 * B) = 0" using assms(4,6) by (simp_all add: B_def)
  have f1: "dwords (take B (drop (B * 0) (FlipBit pv n))) = flip_bit_at n ?w"
    using blk_flip(1) [OF assms(1,2) \<open>0 < nblk cb\<close> _ B_def, of n] d by (simp add: B_def)
  have "length (FlipBit pv n) = cb" using assms(2) by simp
  from blk_flip(1) [OF assms(1) this \<open>0 < nblk cb\<close> _ B_def, of m]
  have f2: "dwords (take B (drop (B * 0) (FlipBit (FlipBit pv n) m))) = flip_bit_at m (flip_bit_at n ?w)"
    using d f1 by (simp add: B_def)
  have cb: "of_nat (4 * length ?w) = (of_nat B :: u32)" using e by simp
  have xy: "blk c pv cb pn 0 = ChecksumSelectNewFormat c ?w pn True"
    "blk c (FlipBit (FlipBit pv n) m) cb pn 0 = ChecksumSelectNewFormat c (flip_bit_at m (flip_bit_at n ?w)) pn True"
    unfolding blk_def B_def [symmetric] f2 by simp_all
  have "blk c pv cb pn 0 \<noteq> blk c (FlipBit (FlipBit pv n) m) cb pn 0 \<and>
      \<not> FECCErrorIsCorrectable (of_nat B) (blk c pv cb pn 0) (blk c (FlipBit (FlipBit pv n) m) cb pn 0)"
    unfolding xy cb [symmetric]
    by (rule selected.double_flip [OF e(1-3)]) (use assms(3-7) e(4) in \<open>simp_all add: power_add B_def\<close>)
  then show ?thesis by (simp add: FTryFixBlock_def flip: B_def)
qed

text \<open>A difference in one bit of a stored checksum is no difference of a flipped data bit.\<close>

lemma stored_bit_fatal:
  assumes "cb \<in> page_sizes" "i < 64"
  shows "FTryFixBlock (CbBlockSize cb) p (x XOR push_bit i 1) x = (xeChecksumFatalError, p)"
proof -
  have ne: "x XOR push_bit i 1 \<noteq> x"
  proof
    assume "x XOR push_bit i 1 = x"
    then have "bit (x XOR push_bit i 1) i = bit x i" by simp
    then show False using assms(2) by (simp add: bit_xor_iff bit_push_bit_iff del: push_bit_of_1)
  qed
  obtain e where e: "CbBlockSize cb = 4 * 2 ^ e" "6 \<le> e" using assms(1) by (rule block_size)
  let ?x' = "x XOR push_bit i 1"
  let ?D = "DwECCChecksumFromXEChecksum x XOR DwECCChecksumFromXEChecksum ?x'"
  have D: "bit ?D m \<Longrightarrow> m + 32 = i" for m
    by (auto simp: DwECCChecksumFromXEChecksum_def bit_xor_iff bit_ucast_iff bit_drop_bit_eq bit_push_bit_iff bit_1_iff
      simp del: push_bit_of_1)
  have m: "push_bit 3 (of_nat (CbBlockSize cb)) - 1 = (mask (e + 5) :: u32)"
    by (simp add: e(1) mask_eq_exp_minus_1 push_bit_eq_mult power_add)
  have "(drop_bit 16 ?D XOR ?D) AND mask (e + 5) \<noteq> mask (e + 5)"
  proof
    assume "(drop_bit 16 ?D XOR ?D) AND mask (e + 5) = mask (e + 5)"
    then have b: "bit ((drop_bit 16 ?D XOR ?D) AND mask (e + 5)) k = bit (mask (e + 5) :: u32) k" for k by simp
    have "(bit ?D (16 + k) \<noteq> bit ?D k)" if "k < 3" for k
      using b [of k] that e(2) by (auto simp: bit_and_iff bit_xor_iff bit_drop_bit_eq bit_mask_iff)
    from this [of 0] this [of 1] this [of 2] show False
      using D [of 16] D [of 0] D [of 17] D [of 1] D [of 18] D [of 2] by auto
  qed
  then have "\<not> FECCErrorIsCorrectable (of_nat (CbBlockSize cb)) ?x' x"
    by (simp add: FECCErrorIsCorrectable_def FECCErrorIsCorrectable_dw_def Let_def m)
  then show ?thesis using ne by (simp add: FTryFixBlock_def del: push_bit_of_1)
qed

lemma ignores_stored:
  assumes "length v = 2 ^ k" "6 \<le> k" "k \<le> 11" "length w = length v" "drop 2 w = drop 2 v"
  shows "ChecksumSelectNewFormat c v pn True = ChecksumSelectNewFormat c w pn True"
proof -
  have "ecc_words True v = ecc_words True w" using assms(5) by (simp add: ecc_words_def)
  then show ?thesis
    using selected.chk_ref [OF assms(1-3), of c pn True] selected.chk_ref [of w k c pn True] assms by (simp add: checksum_ref_def)
qed

lemma drop_dwords: "drop 2 (dwords pb) = dwords (drop 8 pb)"
proof (cases "8 \<le> length pb")
  case True
  then obtain a b c d e f g h r where "pb = a # b # c # d # e # f # g # h # r"
    by (auto simp: Suc_le_length_iff numeral_eq_Suc)
  then show ?thesis by (simp add: numeral_2_eq_2)
next
  case False
  then have "length (dwords pb) \<le> 1" by (simp add: length_dwords)
  then show ?thesis using False by simp
qed

lemma blk_0_cong:
  assumes "cb \<in> page_sizes" "length pv = cb" "length pw = cb" "\<And>k. 8 \<le> k \<Longrightarrow> k < cb \<Longrightarrow> pv ! k = pw ! k"
  shows "blk c pv cb pn 0 = blk c pw cb pn 0"
proof -
  define B where "B = CbBlockSize cb"
  obtain e0 where "0 < nblk cb" using assms(1) by (rule block_size)
  note b = block_words [OF assms(1,2) this B_def] block_words [OF assms(1,3) this B_def]
  obtain e where e: "length (dwords (take B (drop (B * 0) pv))) = 2 ^ e" "6 \<le> e" "e \<le> 11" "B \<le> length pv"
    using b(1) by (metis mult_0_right add_0)
  have l: "length (dwords (take B (drop (B * 0) pw))) = length (dwords (take B (drop (B * 0) pv)))"
    using assms(2,3) by (simp add: length_dwords)
  have "drop 8 (take B pv) = drop 8 (take B pw)"
    by (rule nth_equalityI) (use assms e(4) in simp_all)
  then have "drop 2 (dwords (take B (drop (B * 0) pw))) = drop 2 (dwords (take B (drop (B * 0) pv)))"
    by (simp add: drop_dwords)
  then show ?thesis unfolding blk_def B_def [symmetric] by (simp add: ignores_stored [OF e(1-3) l, simplified])
qed

lemma blk_cong:
  assumes "length pv = cb" "length pw = cb" "\<And>k. 64 \<le> k \<Longrightarrow> k < cb \<Longrightarrow> pv ! k = pw ! k" "0 < k" "64 \<le> CbBlockSize cb"
  shows "blk c pv cb pn k = blk c pw cb pn k"
proof -
  have "64 \<le> CbBlockSize cb * k" using assms(4,5) by (metis One_nat_def Suc_leI le_trans mult.right_neutral mult_le_mono2)
  then have "drop (CbBlockSize cb * k) pv = drop (CbBlockSize cb * k) pw"
    by (intro nth_equalityI) (use assms in simp_all)
  then show ?thesis by (simp add: blk_def)
qed

subsection \<open>Writing the checksums\<close>

lemma length_store_rg [simp]: "64 \<le> length pv \<Longrightarrow> length (store_rgChecksum a pv) = length pv"
  by (simp add: store_rgChecksum_def ib_rgChecksum_def)

lemma bit_store_rg:
  "64 \<le> length pv \<Longrightarrow> k < length pv \<Longrightarrow> m < 8 \<Longrightarrow> bit (store_rgChecksum a pv ! k) m =
    (if 40 \<le> k \<and> k < 48 then bit (a ! 1) (8 * (k - 40) + m) else if 48 \<le> k \<and> k < 56 then bit (a ! 2) (8 * (k - 48) + m)
     else if 56 \<le> k \<and> k < 64 then bit (a ! 3) (8 * (k - 56) + m) else bit (pv ! k) m)"
  by (auto simp: store_rgChecksum_def ib_rgChecksum_def bit_store_qw)

lemma nth_store_rg: "64 \<le> length pv \<Longrightarrow> k < length pv \<Longrightarrow> k < 40 \<or> 64 \<le> k \<Longrightarrow> store_rgChecksum a pv ! k = pv ! k"
  by (auto intro!: u8_eqI simp: bit_store_rg)

lemma load_store_rg:
  "64 \<le> length pv \<Longrightarrow> load_qw (store_rgChecksum a pv) 40 = a ! 1 \<and> load_qw (store_rgChecksum a pv) 48 = a ! 2 \<and>
    load_qw (store_rgChecksum a pv) 56 = a ! 3 \<and> load_qw (store_rgChecksum a pv) 0 = load_qw pv 0"
  by (simp add: store_rgChecksum_def ib_rgChecksum_def load_store_qw load_store_qw_other)

lemma SetLong_valid:
  fixes c :: cpu and pn :: u32
  assumes cb: "cb \<in> page_sizes" and l: "length pv = cb" and f: "bit (pv ! 37) 5"
  defines "pv2 \<equiv> if FIsSmallPage (int cb) then pv else store_sums c pv cb pn"
  defines "S \<equiv> (sums c pv cb pn)[0 := blk c pv2 cb pn 0]"
  defines "r \<equiv> SetLongChecksumOnPage pv2 cb S"
  shows "valid_page c r cb pn" "8 \<le> k \<Longrightarrow> k < cb \<Longrightarrow> FIsSmallPage (int cb) \<or> k < 40 \<or> 64 \<le> k \<Longrightarrow> r ! k = pv ! k"
proof -
  have l64: "64 \<le> length pv" "2048 \<le> cb" using page_length [OF cb] l by simp_all
  obtain e where e: "CbBlockSize cb = 4 * 2 ^ e" "6 \<le> e" "nblk cb \<le> 4" "0 < nblk cb" using cb by (rule block_size)
  have "(2 :: nat) ^ 6 \<le> 2 ^ e" using e(2) by (intro power_increasing) simp_all
  then have B: "64 \<le> CbBlockSize cb" using e(1) by simp
  have l2: "length pv2 = cb" using l l64 by (simp add: pv2_def store_sums_def)
  have lr: "length r = cb" using l2 l64 by (simp add: r_def SetLongChecksumOnPage_def Let_def)
  have S: "S ! 0 = blk c pv2 cb pn 0" "i \<noteq> 0 \<Longrightarrow> S ! i = sums c pv cb pn ! i" for i
    by (simp_all add: S_def)
  have r2: "r ! i = pv2 ! i" if "8 \<le> i" "i < cb" for i
  proof (cases "FIsSmallPage (int cb)")
    case True
    then show ?thesis using that l2 l64 by (simp add: r_def SetLongChecksumOnPage_def nth_store_qw)
  next
    case False
    have "bit (r ! i) m = bit (pv2 ! i) m" if "m < 8" for m
      using that \<open>8 \<le> i\<close> \<open>i < cb\<close> l l64 l2 False S(2) [of 1] S(2) [of 2] S(2) [of 3]
      by (simp add: r_def SetLongChecksumOnPage_def Let_def bit_store_rg nth_store_qw) (simp add: pv2_def store_sums_def bit_store_rg)
    then show ?thesis by (intro u8_eqI)
  qed
  have r1: "r ! i = pv ! i" if "8 \<le> i" "i < cb" "FIsSmallPage (int cb) \<or> i < 40 \<or> 64 \<le> i" for i
    using r2 [OF that(1,2)] that l l64 by (auto simp: pv2_def store_sums_def nth_store_rg)
  show "8 \<le> k \<Longrightarrow> k < cb \<Longrightarrow> FIsSmallPage (int cb) \<or> k < 40 \<or> 64 \<le> k \<Longrightarrow> r ! k = pv ! k" by (rule r1)
  have "bit (r ! 37) 5" using r1 [of 37] f l64 by simp
  then have fr: "FPageHasNewChecksumFormat r databasePage" by (simp add: format_bit)
  have "sums c r cb pn = S"
  proof (rule nth_equalityI)
    fix i assume "i < length (sums c r cb pn)"
    then have i: "i < 4" by simp
    show "sums c r cb pn ! i = S ! i"
    proof (cases "i = 0")
      case True
      have "blk c r cb pn 0 = blk c pv2 cb pn 0" by (rule blk_0_cong [OF cb lr l2 r2])
      then show ?thesis using True S(1) e(4) by simp
    next
      case False
      have "blk c r cb pn i = blk c pv cb pn i"
        by (rule blk_cong [OF lr l _ _ B]) (use False r1 in auto)
      then show ?thesis using False S(2) i by simp
    qed
  qed (simp add: S_def)
  moreover have "LongChecksumFromPage r cb = S"
  proof (cases "FIsSmallPage (int cb)")
    case True
    have "nblk cb = 1" using cb by (cases rule: page_sizesE) (use True in simp_all)
    then have "S = [S ! 0, 0, 0, 0]" unfolding S_def by (simp add: sums_def upt_4)
    moreover have "load_qw r 0 = S ! 0" using True l2 l64 by (simp add: r_def SetLongChecksumOnPage_def load_store_qw)
    ultimately show ?thesis using True by (simp add: LongChecksumFromPage_def PAGECHECKSUM1_def)
  next
    case False
    have "S = [S ! 0, S ! 1, S ! 2, S ! 3]" unfolding S_def by (simp add: sums_def upt_4)
    then show ?thesis using False l2 l64 load_store_rg [of "store_qw 0 (S ! 0) pv2" S]
      by (simp add: LongChecksumFromPage_def r_def SetLongChecksumOnPage_def Let_def load_store_qw ib_rgChecksum_def)
  qed
  ultimately show "valid_page c r cb pn"
    using lr fr compute_False [OF cb fr lr, of c pn]
    by (simp add: valid_page_def ChecksumPage_def ChecksumFromPage_def FPageHasLongChecksum_def)
qed

lemma SetFlag:
  assumes "37 < length pv"
  shows "length (SetNewChecksumFormatFlag pv databasePage) = length pv"
    "bit (SetNewChecksumFormatFlag pv databasePage ! 37) 5"
    "k \<noteq> 37 \<Longrightarrow> SetNewChecksumFormatFlag pv databasePage ! k = pv ! k"
  using assms
  by (simp_all add: SetNewChecksumFormatFlag_def SetBit_def IbitNewChecksumFormatFlag_def Let_def bit_or_iff bit_push_bit_iff bit_1_iff)

lemma valid_cpu:
  assumes "cb \<in> page_sizes" "valid_page c pv cb pn"
  shows "valid_page c' pv cb pn"
proof -
  note v = valid_sums [OF assms]
  have "blk c pv cb pn k = blk c' pv cb pn k" if k: "k < nblk cb" for k
  proof -
    obtain e where "length (dwords (take (CbBlockSize cb) (drop (CbBlockSize cb * k) pv))) = 2 ^ e" "6 \<le> e" "e \<le> 11"
      using block_words [OF assms(1) v(2) k refl] by blast
    then show ?thesis unfolding blk_def by (simp add: selected.chk_ref)
  qed
  then have "sums c' pv cb pn = sums c pv cb pn" by (simp add: sums_def)
  then show ?thesis using compute_False [OF assms(1) v(3,2), of c' pn] v
    by (simp add: valid_page_def ChecksumPage_def ChecksumFromPage_def FPageHasLongChecksum_def)
qed

lemma SetPageChecksum_spec:
  assumes "cb \<in> page_sizes" "length pv = cb"
  shows "\<exists>r. SetPageChecksum c pv cb databasePage pn = Some r \<and> valid_page c' r cb pn \<and>
    (\<forall>k<cb. 8 \<le> k \<and> k \<noteq> 37 \<and> (cb \<le> 8192 \<or> k < 40 \<or> 64 \<le> k) \<longrightarrow> r ! k = pv ! k)"
proof -
  have "37 < length pv" using page_length [OF assms(1)] assms(2) by simp
  note f = SetFlag [OF this]
  let ?p = "SetNewChecksumFormatFlag pv databasePage"
  let ?p2 = "if FIsSmallPage (int cb) then ?p else store_sums c ?p cb pn"
  let ?r = "SetLongChecksumOnPage ?p2 cb ((sums c ?p cb pn)[0 := blk c ?p2 cb pn 0])"
  have l: "length ?p = cb" using f(1) assms(2) by simp
  have s: "SetPageChecksum c pv cb databasePage pn = Some ?r"
  proof -
    have n: "FPageHasNewChecksumFormat ?p databasePage" using f(2) by (simp add: format_bit)
    show ?thesis
      using compute_small [OF assms(1) _ n, of c pn True] compute_large [OF assms(1) _ n l, of c pn True] sums_0 [OF assms(1)]
      by (simp add: SetPageChecksum_def SetChecksumOnPage_def FPageHasLongChecksum_def Let_def)
  qed
  note r = SetLong_valid [OF assms(1) l f(2), where c = c and pn = pn]
  have "?r ! k = pv ! k" if "k < cb" "8 \<le> k" "k \<noteq> 37" "cb \<le> 8192 \<or> k < 40 \<or> 64 \<le> k" for k
    using r(2) [of k] that f(3) by (auto simp: FIsSmallPage_def)
  then show ?thesis using s valid_cpu [OF assms(1) r(1)] by blast
qed

subsection \<open>Properties\<close>

text \<open>C27: \<open>SetPageChecksum\<close> leaves a page that verifies: the checksums \<open>ChecksumPage\<close> then computes, on
  any processor, are those it finds in the header.  Outside the checksum fields and the byte of the format flag
  the page is unchanged.\<close>

theorem set_page_checksum_verifies:
  assumes "cb \<in> page_sizes" "length pv = cb"
  shows "\<exists>r. SetPageChecksum c pv cb databasePage pn = Some r \<and> valid_page c' r cb pn \<and>
    (\<forall>k<cb. 8 \<le> k \<and> k \<noteq> 37 \<and> (cb \<le> 8192 \<or> k < 40 \<or> 64 \<le> k) \<longrightarrow> r ! k = pv ! k)"
  using assms by (rule SetPageChecksum_spec)

definition sample_image :: "u8 list" where
  "sample_image = replicate 2048 7"

lemma sample_image [simp]: "length sample_image = 2048" "2048 \<in> page_sizes" "16384 \<in> page_sizes"
  by (simp_all add: sample_image_def page_sizes_def)

lemma set_page_checksum_verifies_witness:
  "\<exists>r. SetPageChecksum sample_cpu sample_image 2048 databasePage 9 = Some r \<and> valid_page sample_arm r 2048 9"
  using set_page_checksum_verifies [of 2048 sample_image sample_cpu 9 sample_arm] by auto

text \<open>C26: A page that verified and then lost a single bit, anywhere but in the first stored checksum and the
  format flag, is restored byte for byte by \<open>ChecksumAndPossiblyFixPage\<close>, which reports the position of the bit and
  ends with matching checksums; on a large page this covers the stored checksums of the other blocks.\<close>

theorem flipped_bit_repaired:
  assumes "cb \<in> page_sizes" "valid_page c pv cb pn" "64 \<le> n" "n < 8 * cb" "n \<noteq> 9 * 32 + 13"
  shows "ChecksumAndPossiblyFixPage c (FlipBit pv n) cb databasePage pn True =
    Some \<lparr>fr_page = pv, fr_expected = ChecksumFromPage pv cb databasePage, fr_actual = ChecksumFromPage pv cb databasePage,
      fr_fCorrectableError = True, fr_ibitCorrupted = int n\<rparr>"
  using repair_flip assms by simp

definition sample_page :: "nat \<Rightarrow> u8 list" where
  "sample_page cb = the (SetPageChecksum sample_cpu (replicate cb 7) cb databasePage 9)"

lemma sample_page_valid: "cb \<in> page_sizes \<Longrightarrow> valid_page sample_cpu (sample_page cb) cb 9"
  using SetPageChecksum_spec [of cb "replicate cb 7" sample_cpu 9 sample_cpu] by (auto simp: sample_page_def)

lemma flipped_bit_repaired_witness:
  "fr_page (the (ChecksumAndPossiblyFixPage sample_cpu (FlipBit (sample_page 16384) 350) 16384 databasePage 9 True)) =
    sample_page 16384"
  using flipped_bit_repaired [OF _ sample_page_valid, of 16384 350] by simp

text \<open>A page is reported as damaged and left alone when two different bits of its first block are flipped
  (the whole page, up to 8 KB), or one bit of its first stored checksum: the checksums differ, the error is
  not called correctable and no byte is changed, even if correction was asked for.\<close>

theorem damage_reported:
  assumes "cb \<in> page_sizes" "valid_page c pv cb pn"
    "n < 64 \<and> pv' = FlipBit pv n \<or>
     64 \<le> n \<and> n < 8 * CbBlockSize cb \<and> 64 \<le> m \<and> m < 8 * CbBlockSize cb \<and> m \<noteq> n \<and> n \<noteq> 9 * 32 + 13 \<and> m \<noteq> 9 * 32 + 13 \<and>
     pv' = FlipBit (FlipBit pv n) m"
  shows "\<exists>r. ChecksumAndPossiblyFixPage c pv' cb databasePage pn fCorrectError = Some r \<and>
    fr_page r = pv' \<and> fr_expected r \<noteq> fr_actual r \<and> \<not> fr_fCorrectableError r"
proof -
  note v = valid_sums [OF assms(1,2)]
  have l: "length pv' = cb" using assms(3) v(2) by auto
  have n0: "0 < nblk cb" using assms(1) by (rule block_size)
  have p37: "37 < length pv" using page_length [OF assms(1)] v(2) by simp
  have f: "FPageHasNewChecksumFormat pv' databasePage"
    using assms(3) format_flip [of n pv] format_flip [of m "FlipBit pv n"] p37 v(3) by auto
  have e0: "LongChecksumFromPage p cb ! 0 = load_qw p 0" for p by (simp add: LongChecksumFromPage_def PAGECHECKSUM1_def)
  have b0: "load_qw pv 0 = blk c pv cb pn 0" using v(1) n0 by (simp flip: e0)
  have "\<exists>p. FTryFixBlock (CbBlockSize cb) 301 (LongChecksumFromPage pv' cb ! 0) (blk c pv' cb pn 0) = (xeChecksumFatalError, p)"
    using assms(3)
  proof
    assume a: "n < 64 \<and> pv' = FlipBit pv n"
    then have "load_qw pv' 0 = blk c pv cb pn 0 XOR push_bit n 1"
      using load_qw_FlipBit [of 0 pv n] p37 b0 by simp
    moreover have "blk c pv' cb pn 0 = blk c pv cb pn 0"
      by (rule blk_0_cong [OF assms(1) l v(2)]) (use a in \<open>auto simp: nth_FlipBit_other\<close>)
    ultimately show ?thesis using stored_bit_fatal [OF assms(1), of n] a by (auto simp: e0)
  next
    assume a: "64 \<le> n \<and> n < 8 * CbBlockSize cb \<and> 64 \<le> m \<and> m < 8 * CbBlockSize cb \<and> m \<noteq> n \<and> n \<noteq> 9 * 32 + 13 \<and>
      m \<noteq> 9 * 32 + 13 \<and> pv' = FlipBit (FlipBit pv n) m"
    then have "load_qw pv' 0 = blk c pv cb pn 0"
      using load_qw_FlipBit [of 0 pv n] load_qw_FlipBit [of 0 "FlipBit pv n" m] p37 b0 by simp
    then show ?thesis using try_double [OF assms(1) v(2), of n m 301] a by (auto simp: e0)
  qed
  then obtain p where "FTryFixBlock (CbBlockSize cb) 301 (LongChecksumFromPage pv' cb ! 0) (blk c pv' cb pn 0) = (xeChecksumFatalError, p)"
    by blast
  from not_repaired [OF assms(1) l f this] show ?thesis by fastforce
qed

lemma damage_reported_witness:
  "\<exists>r. ChecksumAndPossiblyFixPage sample_cpu (FlipBit (FlipBit (sample_page 2048) 100) 9000) 2048 databasePage 9 True = Some r \<and>
    fr_page r = FlipBit (FlipBit (sample_page 2048) 100) 9000 \<and> fr_expected r \<noteq> fr_actual r \<and> \<not> fr_fCorrectableError r"
  using damage_reported [OF _ sample_page_valid, of 2048 100 "FlipBit (FlipBit (sample_page 2048) 100) 9000" 9000 True]
  by (simp add: CbBlockSize_def FIsSmallPage_def)

end
