(* ===== verification/Seven_Bit.thy ===== *)
theory Seven_Bit
  imports Byte_Lists "HOL-Library.Signed_Division"
begin

text \<open>
  Compression of column data (\<open>src/ese/compression.cxx\<close>): the 7-bit ASCII and 7-bit Unicode formats,
  the choice between them, and the dispatch of \<open>ErrCompress\<close> and \<open>ErrDecompress\<close>, as built without the
  optional \<open>XPRESS9_COMPRESSION\<close>, \<open>XPRESS10_COMPRESSION\<close> and \<open>LZ4_COMPRESSION\<close>, which no file of the
  repository defines.

  Data and output buffers are byte lists.  A load or store outside the buffer is \<open>None\<close>, so a theorem
  that an operation returns \<open>Some\<close> also says that it stays inside its buffers.  An operation returns
  its \<open>ERR\<close>, the size it reports and the output buffer.  \<open>INT\<close> sizes are integers: a record column is
  far below the range of an \<open>INT\<close>.  The loops \<open>while( true )\<close> are partial functions.
\<close>

subsection \<open>Schemes, flags and errors\<close>

datatype COMPRESSION_SCHEME = COMPRESS_NONE | COMPRESS_7BITASCII | COMPRESS_7BITUNICODE | COMPRESS_XPRESS |
  COMPRESS_SCRUB | COMPRESS_XPRESS9 | COMPRESS_XPRESS10 | COMPRESS_LZ4 | COMPRESS_MAXIMUM

fun bScheme :: "COMPRESSION_SCHEME \<Rightarrow> u8" where
  "bScheme COMPRESS_NONE = 0"
| "bScheme COMPRESS_7BITASCII = 1"
| "bScheme COMPRESS_7BITUNICODE = 2"
| "bScheme COMPRESS_XPRESS = 3"
| "bScheme COMPRESS_SCRUB = 4"
| "bScheme COMPRESS_XPRESS9 = 5"
| "bScheme COMPRESS_XPRESS10 = 6"
| "bScheme COMPRESS_LZ4 = 7"
| "bScheme COMPRESS_MAXIMUM = 0x1f"

definition compress7Bit :: u32 where "compress7Bit = 0x0004"
definition compressXpress :: u32 where "compressXpress = 0x0008"

type_synonym ERR = int

definition JET_errSuccess :: ERR where "JET_errSuccess = 0"
definition JET_wrnBufferTruncated :: ERR where "JET_wrnBufferTruncated = 1006"
definition JET_errOutOfMemory :: ERR where "JET_errOutOfMemory = -1011"
definition JET_errBufferTooSmall :: ERR where "JET_errBufferTooSmall = -1038"
definition JET_errDecompressionFailed :: ERR where "JET_errDecompressionFailed = -1620"
definition errRECCannotCompress :: ERR where "errRECCannotCompress = -418"
definition wrnRECCompressionScrubDetected :: ERR where "wrnRECCompressionScrubDetected = 420"

type_synonym outcome = "ERR \<times> int \<times> u8 list"

subsection \<open>Checked access to a buffer\<close>

definition get_at :: "nat \<Rightarrow> u8 list \<Rightarrow> u8 option" where
  "get_at ib pb = (if ib < length pb then Some (pb ! ib) else None)"

definition put_at :: "nat \<Rightarrow> u8 list \<Rightarrow> u8 list \<Rightarrow> u8 list option" where
  "put_at ib bs pb = (if ib + length bs \<le> length pb then Some (store_at ib bs pb) else None)"

definition load_w :: "u8 list \<Rightarrow> nat \<Rightarrow> u16" where
  "load_w pv ib = ucast (pv ! ib) OR push_bit 8 (ucast (pv ! (ib + 1)))"

subsection \<open>Which scheme applies\<close>

definition CbCompressed7BitAscii :: "int \<Rightarrow> int" where
  "CbCompressed7BitAscii cb = (cb * 7 + 7) div 8 + 1"

definition CbCompressed7BitUnicode :: "int \<Rightarrow> int" where
  "CbCompressed7BitUnicode cb = ((cb div 2) * 7 + 7) div 8 + 1"

text \<open>
  One copy of the unrolled test; \<open>None\<close> is the return of \<open>COMPRESS_NONE\<close>.  The \<open>switch\<close> enters the
  \<open>while\<close> in the middle: first \<open>cdw mod 8\<close> copies, then rounds of eight.
\<close>

definition SchemeStep :: "u32 \<Rightarrow> u8 list \<Rightarrow> nat \<times> bool \<Rightarrow> (nat \<times> bool) option" where
  "SchemeStep dwMaskAscii pb = (\<lambda>(idw, fUnicodePossible). let dw = load_dw pb (4 * idw) in
     if dw AND NOT dwMaskAscii \<noteq> 0 then None
     else Some (idw + 1, fUnicodePossible \<and> dw AND NOT 0x007f007f = 0))"

fun SchemeSteps :: "nat \<Rightarrow> u32 \<Rightarrow> u8 list \<Rightarrow> nat \<times> bool \<Rightarrow> (nat \<times> bool) option" where
  "SchemeSteps 0 dwMaskAscii pb s = Some s"
| "SchemeSteps (Suc n) dwMaskAscii pb s = Option.bind (SchemeStep dwMaskAscii pb s) (SchemeSteps n dwMaskAscii pb)"

lemma SchemeSteps_fst: "SchemeSteps n m pb s = Some t \<Longrightarrow> fst t = fst s + n"
  by (induction n arbitrary: s) (auto simp: SchemeStep_def Let_def bind_eq_Some_conv split: prod.splits if_splits)

function SchemeWhile :: "nat \<Rightarrow> u32 \<Rightarrow> u8 list \<Rightarrow> nat \<times> bool \<Rightarrow> (nat \<times> bool) option" where
  "SchemeWhile cdw dwMaskAscii pb s =
     (if fst s < cdw then
        case SchemeSteps 8 dwMaskAscii pb s of None \<Rightarrow> None | Some t \<Rightarrow> SchemeWhile cdw dwMaskAscii pb t
      else Some s)"
  by pat_completeness auto
termination
  by (relation "measure (\<lambda>(cdw, m, pb, s). cdw - fst s)") (auto dest!: SchemeSteps_fst)

declare SchemeWhile.simps [simp del]

text \<open>The remaining bytes.\<close>

fun SchemeTail :: "u8 list \<Rightarrow> nat list \<Rightarrow> bool \<Rightarrow> bool option" where
  "SchemeTail pb [] fUnicodePossible = Some fUnicodePossible"
| "SchemeTail pb (ib # ibs) fUnicodePossible =
     (if pb ! ib > 0x7f then None
      else SchemeTail pb ibs
        (if fUnicodePossible \<and> ib mod 2 = 0 then \<not> load_w pb ib > 0x007f else fUnicodePossible))"

definition Calculate7BitCompressionScheme :: "u8 list \<Rightarrow> bool \<Rightarrow> COMPRESSION_SCHEME" where
  "Calculate7BitCompressionScheme pb fUnicodeOnly =
     (let cb = length pb; fUnicodePossible = (cb mod 2 = 0) in
      if fUnicodeOnly \<and> \<not> fUnicodePossible then COMPRESS_NONE
      else
        let dwMaskAscii = (if fUnicodeOnly then 0x007f007f else 0x7f7f7f7f); cdw = cb div 4 in
        case Option.bind (SchemeSteps (cdw mod 8) dwMaskAscii pb (0, fUnicodePossible)) (SchemeWhile cdw dwMaskAscii pb) of
          None \<Rightarrow> COMPRESS_NONE
        | Some (idw, fUnicodePossible) \<Rightarrow>
            (case SchemeTail pb [4 * cdw..<cb] fUnicodePossible of
               None \<Rightarrow> COMPRESS_NONE
             | Some fUnicodePossible \<Rightarrow>
                 if fUnicodePossible then
                   (if CbCompressed7BitUnicode (int cb) < int cb then COMPRESS_7BITUNICODE else COMPRESS_NONE)
                 else if fUnicodeOnly then COMPRESS_NONE
                 else if CbCompressed7BitAscii (int cb) < int cb then COMPRESS_7BITASCII else COMPRESS_NONE))"

subsection \<open>Eight characters at a time\<close>

definition NBITMASK :: "nat \<Rightarrow> u64" where
  "NBITMASK n = push_bit n 1 - 1"

definition ASCII7BITMASKANDSHIFT :: "u64 \<Rightarrow> u64 \<Rightarrow> u64" where
  "ASCII7BITMASKANDSHIFT qw m = (qw AND m) OR (drop_bit 1 qw AND NOT m)"

definition ReverseEightBytes :: "u64 \<Rightarrow> u64" where
  "ReverseEightBytes qw =
     (let qw2 = drop_bit 8 (qw AND 0xFF00FF00FF00FF00) OR push_bit 8 (qw AND 0x00FF00FF00FF00FF);
          qw3 = drop_bit 16 (qw2 AND 0xFFFF0000FFFF0000) OR push_bit 16 (qw2 AND 0x0000FFFF0000FFFF)
      in drop_bit 32 (qw3 AND 0xFFFFFFFF00000000) OR push_bit 32 (qw3 AND 0x00000000FFFFFFFF))"

definition ReverseEightCompressedBytes :: "u64 \<Rightarrow> u64" where
  "ReverseEightCompressedBytes qw =
     (let at = (\<lambda>n. push_bit n (NBITMASK 7));
          qwMask1 = at 0 OR at 14 OR at 28 OR at 42;
          qwMask2 = at 7 OR at 21 OR at 35 OR at 49;
          qwMask3 = at 0 OR at 7 OR at 28 OR at 35;
          qwMask4 = at 14 OR at 21 OR at 42 OR at 49;
          qwMask5 = at 0 OR at 7 OR at 14 OR at 21;
          qwMask6 = at 28 OR at 35 OR at 42 OR at 49;
          qw2 = drop_bit 7 (qw AND qwMask2) OR push_bit 7 (qw AND qwMask1);
          qw3 = drop_bit 14 (qw2 AND qwMask4) OR push_bit 14 (qw2 AND qwMask3)
      in drop_bit 28 (qw3 AND qwMask6) OR push_bit 28 (qw3 AND qwMask5))"

definition PackQword :: "u64 \<Rightarrow> u64" where
  "PackQword qw = ReverseEightCompressedBytes
     (fold (\<lambda>n qw. ASCII7BITMASKANDSHIFT qw (NBITMASK n)) [7, 14, 21, 28, 35, 42, 49] (ReverseEightBytes qw))"

text \<open>The loop writes eight bytes and advances by seven.\<close>

fun AsciiQwords :: "nat \<Rightarrow> u8 list \<Rightarrow> nat \<times> nat \<times> u8 list \<Rightarrow> (nat \<times> nat \<times> u8 list) option" where
  "AsciiQwords 0 data s = Some s"
| "AsciiQwords (Suc n) data (ibInput, ibOutput, pb) =
     Option.bind (put_at ibOutput (bytes_of 8 (PackQword (load_qw data ibInput))) pb)
       (\<lambda>pb. AsciiQwords n data (ibInput + 8, ibOutput + 7, pb))"

subsection \<open>Filling a DWORD\<close>

record bitbuf =
  dwOutput :: u32
  ibitOutputCurr :: nat
  pbDataCompressed :: "u8 list"

record asciibuf = bitbuf +
  ibOutput :: nat

record unicodebuf = bitbuf +
  idwOutput :: nat

text \<open>
  The body of the copy loop up to the test of \<open>cbitsRemaining\<close>: \<open>n\<close> bits of \<open>i\<close> go to the accumulator,
  which is written when it is full.
\<close>

definition PutBitsAscii :: "nat \<Rightarrow> u32 \<Rightarrow> asciibuf \<Rightarrow> asciibuf option" where
  "PutBitsAscii cbitsToCopy i s =
     (let ulBitMask = push_bit cbitsToCopy 1 - 1;
          s = s\<lparr>dwOutput := dwOutput s OR push_bit (ibitOutputCurr s) (i AND ulBitMask),
                ibitOutputCurr := ibitOutputCurr s + cbitsToCopy\<rparr>
      in if ibitOutputCurr s = 32
         then map_option (\<lambda>pb. s\<lparr>pbDataCompressed := pb, ibOutput := ibOutput s + 4, dwOutput := 0, ibitOutputCurr := 0\<rparr>)
                (put_at (ibOutput s) (bytes_of 4 (dwOutput s)) (pbDataCompressed s))
         else Some s)"

definition PutBitsUnicode :: "nat \<Rightarrow> u32 \<Rightarrow> unicodebuf \<Rightarrow> unicodebuf option" where
  "PutBitsUnicode cbitsToCopy i s =
     (let ulBitMask = push_bit cbitsToCopy 1 - 1;
          s = s\<lparr>dwOutput := dwOutput s OR push_bit (ibitOutputCurr s) (i AND ulBitMask),
                ibitOutputCurr := ibitOutputCurr s + cbitsToCopy\<rparr>
      in if ibitOutputCurr s = 32
         then map_option (\<lambda>pb. s\<lparr>pbDataCompressed := pb, idwOutput := idwOutput s + 1, dwOutput := 0, ibitOutputCurr := 0\<rparr>)
                (put_at (1 + 4 * idwOutput s) (bytes_of 4 (dwOutput s)) (pbDataCompressed s))
         else Some s)"

partial_function (option) CopyBitsAscii :: "u32 \<Rightarrow> nat \<Rightarrow> asciibuf \<Rightarrow> asciibuf option" where
  "CopyBitsAscii i cbitsRemaining s =
     (let cbitsToCopy = min cbitsRemaining (32 - ibitOutputCurr s) in
      Option.bind (PutBitsAscii cbitsToCopy i s) (\<lambda>s.
        if cbitsRemaining - cbitsToCopy = 0 then Some s
        else CopyBitsAscii (drop_bit cbitsToCopy i) (cbitsRemaining - cbitsToCopy) s))"

partial_function (option) CopyBitsUnicode :: "u32 \<Rightarrow> nat \<Rightarrow> unicodebuf \<Rightarrow> unicodebuf option" where
  "CopyBitsUnicode i cbitsRemaining s =
     (let cbitsToCopy = min cbitsRemaining (32 - ibitOutputCurr s) in
      Option.bind (PutBitsUnicode cbitsToCopy i s) (\<lambda>s.
        if cbitsRemaining - cbitsToCopy = 0 then Some s
        else CopyBitsUnicode (drop_bit cbitsToCopy i) (cbitsRemaining - cbitsToCopy) s))"

fun AsciiBytes :: "u8 list \<Rightarrow> asciibuf \<Rightarrow> asciibuf option" where
  "AsciiBytes [] s = Some s"
| "AsciiBytes (b # bs) s = Option.bind (CopyBitsAscii (ucast b) 7 s) (AsciiBytes bs)"

fun UnicodeWords :: "u16 list \<Rightarrow> unicodebuf \<Rightarrow> unicodebuf option" where
  "UnicodeWords [] s = Some s"
| "UnicodeWords (w # ws) s = Option.bind (CopyBitsUnicode (ucast w) 7 s) (UnicodeWords ws)"

text \<open>The bytes of the last, incomplete \<open>DWORD\<close>.\<close>

fun FlushBytes :: "nat \<Rightarrow> u32 \<Rightarrow> nat \<times> u8 list \<Rightarrow> (nat \<times> u8 list) option" where
  "FlushBytes 0 dw s = Some s"
| "FlushBytes (Suc n) dw (ib, pb) =
     Option.bind (put_at ib [ucast (dw AND 0xff)] pb) (\<lambda>pb. FlushBytes n (drop_bit 8 dw) (ib + 1, pb))"

subsection \<open>Compression\<close>

text \<open>
  \<open>( cbDataCompressedMax - ibOutput - 1 ) / 7\<close> is negative only before truncation, for a buffer of one
  byte, so the natural number \<open>cqwOutput\<close> is the code's.
\<close>

definition ErrCompress7BitAscii :: "u8 list \<Rightarrow> u8 list \<Rightarrow> int \<Rightarrow> outcome option" where
  "ErrCompress7BitAscii data pb cbDataCompressedMax =
     (let cbData = length data; cbCompressed = CbCompressed7BitAscii (int cbData) in
      if cbCompressed > cbDataCompressedMax then Some (JET_errBufferTooSmall, 0, pb)
      else
        let cqwInput = cbData div 8; cqwOutput = nat ((cbDataCompressedMax - 1 - 1) sdiv 7) in
        Option.bind (AsciiQwords (min cqwInput cqwOutput) data (0, 1, pb)) (\<lambda>(ibInput, ib, pb).
        Option.bind (AsciiBytes (drop ibInput data)
            \<lparr>dwOutput = 0, ibitOutputCurr = 0, pbDataCompressed = pb, ibOutput = ib\<rparr>) (\<lambda>s.
        Option.bind (FlushBytes ((ibitOutputCurr s + 7) div 8) (dwOutput s) (ibOutput s, pbDataCompressed s)) (\<lambda>(ib, pb).
        let ibit = (if ibitOutputCurr s = 0 then 32 else ibitOutputCurr s);
            cbitFinalByte = (ibit - 1) mod 8;
            bSignature = push_bit 3 (bScheme COMPRESS_7BITASCII) OR of_nat cbitFinalByte
        in map_option (\<lambda>pb. (JET_errSuccess, int ib, pb)) (put_at 0 [bSignature] pb)))))"

definition ErrCompress7BitUnicode :: "u8 list \<Rightarrow> u8 list \<Rightarrow> int \<Rightarrow> outcome option" where
  "ErrCompress7BitUnicode data pb cbDataCompressedMax =
     (let cbCompressed = CbCompressed7BitUnicode (int (length data)) in
      if cbCompressed > cbDataCompressedMax then Some (JET_errBufferTooSmall, 0, pb)
      else
        Option.bind (UnicodeWords (map (\<lambda>iw. load_w data (2 * iw)) [0..<length data div 2])
            \<lparr>dwOutput = 0, ibitOutputCurr = 0, pbDataCompressed = pb, idwOutput = 0\<rparr>) (\<lambda>s.
        Option.bind (FlushBytes ((ibitOutputCurr s + 7) div 8) (dwOutput s) (1 + 4 * idwOutput s, pbDataCompressed s)) (\<lambda>(ib, pb).
        let (ibit, idw) = (if ibitOutputCurr s = 0 then (32, int (idwOutput s) - 1) else (ibitOutputCurr s, int (idwOutput s)));
            cbOutput = 1 + idw * 4 + (int ibit + 7) div 8;
            cbitFinalByte = (ibit - 1) mod 8;
            bSignature = push_bit 3 (bScheme COMPRESS_7BITUNICODE) OR of_nat cbitFinalByte
        in map_option (\<lambda>pb. (JET_errSuccess, cbOutput, pb)) (put_at 0 [bSignature] pb))))"

subsection \<open>Decompression\<close>

definition Extract7 :: "u8 list \<Rightarrow> nat \<Rightarrow> nat \<Rightarrow> u8 option" where
  "Extract7 pbCompressed ibCompressed ibitCompressed =
     (if ibitCompressed \<le> 1
      then map_option (\<lambda>b. drop_bit ibitCompressed b AND 0x7f) (get_at ibCompressed pbCompressed)
      else Option.bind (get_at ibCompressed pbCompressed) (\<lambda>b0.
           map_option (\<lambda>b1. ucast (drop_bit ibitCompressed (ucast b0 OR push_bit 8 (ucast b1) :: u16) AND 0x7f))
             (get_at (ibCompressed + 1) pbCompressed)))"

definition NextBits :: "nat \<Rightarrow> nat \<Rightarrow> nat \<times> nat" where
  "NextBits ibCompressed ibitCompressed =
     (let ibit = ibitCompressed + 7 in if ibit \<ge> 8 then (ibCompressed + 1, ibit mod 8) else (ibCompressed, ibit))"

text \<open>The first argument is \<open>ibDataMax - ibData\<close>.\<close>

fun AsciiUnpack :: "nat \<Rightarrow> u8 list \<Rightarrow> nat \<times> nat \<Rightarrow> nat \<Rightarrow> u8 list \<Rightarrow> u8 list option" where
  "AsciiUnpack 0 pc p ibData pb = Some pb"
| "AsciiUnpack (Suc n) pc (ib, ibit) ibData pb =
     Option.bind (Extract7 pc ib ibit) (\<lambda>b. Option.bind (put_at ibData [b] pb)
       (AsciiUnpack n pc (NextBits ib ibit) (ibData + 1)))"

text \<open>Each character takes two bytes; the loop breaks between them when the buffer ends there.\<close>

fun UnicodeUnpack :: "nat \<Rightarrow> u8 list \<Rightarrow> nat \<times> nat \<Rightarrow> nat \<Rightarrow> u8 list \<Rightarrow> u8 list option" where
  "UnicodeUnpack 0 pc p ibData pb = Some pb"
| "UnicodeUnpack (Suc 0) pc (ib, ibit) ibData pb = Option.bind (Extract7 pc ib ibit) (\<lambda>b. put_at ibData [b] pb)"
| "UnicodeUnpack (Suc (Suc n)) pc (ib, ibit) ibData pb =
     Option.bind (Extract7 pc ib ibit) (\<lambda>b. Option.bind (put_at ibData [b] pb) (\<lambda>pb.
     Option.bind (put_at (ibData + 1) [0] pb) (UnicodeUnpack n pc (NextBits ib ibit) (ibData + 2))))"

text \<open>The output buffer is \<open>None\<close> for \<open>NULL\<close>; then the buffer of the result is empty.\<close>

definition CbitTotal :: "u8 list \<Rightarrow> u8 \<Rightarrow> int" where
  "CbitTotal dataCompressed bHeader = (let cbitFinal = uint (bHeader AND 7) + 1 in (int (length dataCompressed) - 2) * 8 + cbitFinal)"

definition ErrDecompress7BitAscii :: "u8 list \<Rightarrow> u8 list option \<Rightarrow> int \<Rightarrow> outcome option" where
  "ErrDecompress7BitAscii pc pbData cbDataMax =
     Option.bind (get_at 0 pc) (\<lambda>bHeader.
     let cbTotal = CbitTotal pc bHeader sdiv 7;
         err = (if cbTotal > cbDataMax then JET_wrnBufferTruncated else JET_errSuccess)
     in case pbData of
          None \<Rightarrow> Some (err, cbTotal, [])
        | Some pb \<Rightarrow>
            if cbDataMax = 0 then Some (err, cbTotal, pb)
            else map_option (\<lambda>pb. (err, cbTotal, pb)) (AsciiUnpack (nat (min cbTotal cbDataMax)) pc (1, 0) 0 pb))"

definition ErrDecompress7BitUnicode :: "u8 list \<Rightarrow> u8 list option \<Rightarrow> int \<Rightarrow> outcome option" where
  "ErrDecompress7BitUnicode pc pbData cbDataMax =
     Option.bind (get_at 0 pc) (\<lambda>bHeader.
     let cwTotal = CbitTotal pc bHeader sdiv 7; cbActual = cwTotal * 2;
         err = (if cbActual > cbDataMax then JET_wrnBufferTruncated else JET_errSuccess)
     in case pbData of
          None \<Rightarrow> Some (err, cbActual, [])
        | Some pb \<Rightarrow>
            if cbDataMax = 0 then Some (err, cbActual, pb)
            else map_option (\<lambda>pb. (err, cbActual, pb)) (UnicodeUnpack (nat (min cbActual cbDataMax)) pc (1, 0) 0 pb))"

end
