(* ===== verification/Seven_Bit_Pack.thy ===== *)
theory Seven_Bit_Pack
  imports Seven_Bit
begin

text \<open>
  The 7-bit formats as a stream of bits: character \<open>k\<close> is bits \<open>7 k\<close> to \<open>7 k + 6\<close>, byte \<open>m\<close> of the
  output holds bits \<open>8 m\<close> to \<open>8 m + 7\<close>.  \<open>pack7\<close> and \<open>val7\<close> are this format; the loops of
  \<open>compression.cxx\<close>, the eight-character one and the \<open>DWORD\<close> ones, are proved to produce and to read it.
\<close>

subsection \<open>The format\<close>

definition bit7 :: "u8 list \<Rightarrow> nat \<Rightarrow> bool" where
  "bit7 ds p \<longleftrightarrow> p < 7 * length ds \<and> bit (ds ! (p div 7)) (p mod 7)"

definition byte_at :: "(nat \<Rightarrow> bool) \<Rightarrow> nat \<Rightarrow> u8" where
  "byte_at f m = horner_sum of_bool 2 (map (\<lambda>j. f (8 * m + j)) [0..<8])"

definition pack7 :: "u8 list \<Rightarrow> u8 list" where
  "pack7 ds = map (byte_at (bit7 ds)) [0..<(7 * length ds + 7) div 8]"

definition header7 :: "COMPRESSION_SCHEME \<Rightarrow> nat \<Rightarrow> u8" where
  "header7 c n = push_bit 3 (bScheme c) OR of_nat ((7 * n + 7) mod 8)"

definition sbit :: "u8 list \<Rightarrow> nat \<Rightarrow> bool" where
  "sbit pc p = bit (pc ! (1 + p div 8)) (p mod 8)"

definition val7 :: "u8 list \<Rightarrow> nat \<Rightarrow> u8" where
  "val7 pc k = horner_sum of_bool 2 (map (\<lambda>j. sbit pc (7 * k + j)) [0..<7])"

definition ascii7 :: "u8 list \<Rightarrow> bool" where
  "ascii7 ds \<longleftrightarrow> list_all (\<lambda>b. b < 0x80) ds"

lemma bit_byte_at: "j < 8 \<Longrightarrow> bit (byte_at f m) j = f (8 * m + j)"
  by (simp add: byte_at_def bit_horner_sum_bit_word_iff)

lemma bit_val7: "bit (val7 pc k) j = (j < 7 \<and> sbit pc (7 * k + j))"
  by (auto simp: val7_def bit_horner_sum_bit_word_iff)

lemma length_pack7 [simp]: "length (pack7 ds) = (7 * length ds + 7) div 8"
  by (simp add: pack7_def)

lemma bit_pack7: "k < (7 * length ds + 7) div 8 \<Longrightarrow> j < 8 \<Longrightarrow> bit (pack7 ds ! k) j = bit7 ds (8 * k + j)"
  by (simp add: pack7_def bit_byte_at)

lemma u8_top: "(b < 0x80) = (\<not> bit b 7)" for b :: u8
proof -
  have "bit b 7 = bit (uint b) 7" by (simp add: bit_uint_iff)
  also have "\<dots> = odd (uint b div 128)" by (simp add: bit_iff_odd)
  finally have "bit b 7 = odd (uint b div 128)" .
  moreover have "(x < 128) = even (x div 128)" if "0 \<le> x" "x < 256" for x :: int
    using that by presburger
  ultimately show ?thesis using uint_lt2p [of b] by (simp add: word_less_def)
qed

lemma seven_div: "(7 * k + j) div 7 = k \<and> (7 * k + j) mod 7 = j" if "j < 7" for k j :: nat
  using that by simp

lemma bit7_at: "k < length ds \<Longrightarrow> j < 7 \<Longrightarrow> bit7 ds (7 * k + j) = bit (ds ! k) j"
  using seven_div [of j k] by (auto simp: bit7_def)

lemma bit7_end: "7 * length ds \<le> p \<Longrightarrow> \<not> bit7 ds p"
  by (simp add: bit7_def)

text \<open>Unpacking what was packed.\<close>

lemma val7_pack7:
  assumes "ascii7 ds" "k < length ds"
  shows "val7 (h # pack7 ds) k = ds ! k"
proof (rule u8_eqI)
  fix j :: nat assume j: "j < 8"
  show "bit (val7 (h # pack7 ds) k) j = bit (ds ! k) j"
  proof (cases "j = 7")
    case True
    then show ?thesis using assms by (auto simp: bit_val7 ascii7_def list_all_length u8_top)
  next
    case False
    then have j7: "j < 7" using j by simp
    have "7 * k + j < 7 * length ds" using j7 assms(2) by simp
    then have "(7 * k + j) div 8 < (7 * length ds + 7) div 8" by (simp add: div_le_mono less_eq_div_iff_mult_less_eq)
    then have "sbit (h # pack7 ds) (7 * k + j) = bit7 ds (7 * k + j)"
      using bit_pack7 [of "(7 * k + j) div 8" ds "(7 * k + j) mod 8"] by (simp add: sbit_def)
    then show ?thesis using bit7_at [OF assms(2) j7] j7 by (simp add: bit_val7)
  qed
qed

subsection \<open>The accumulator\<close>

text \<open>
  The state after the first \<open>n\<close> bits of the stream \<open>f\<close>, written from byte \<open>ib0\<close> of the buffer on:
  full \<open>DWORD\<close>s are in the buffer, the other bits in \<open>dwOutput\<close>.
\<close>

definition filled :: "(nat \<Rightarrow> bool) \<Rightarrow> nat \<Rightarrow> u8 list \<Rightarrow> nat \<Rightarrow> asciibuf \<Rightarrow> bool" where
  "filled f ib0 pb0 n s \<longleftrightarrow>
     ibitOutputCurr s = n mod 32 \<and> ibOutput s = ib0 + 4 * (n div 32) \<and>
     length (pbDataCompressed s) = length pb0 \<and> take ib0 (pbDataCompressed s) = take ib0 pb0 \<and>
     (\<forall>k < 4 * (n div 32). \<forall>j < 8. bit (pbDataCompressed s ! (ib0 + k)) j = f (8 * k + j)) \<and>
     (\<forall>j < 32. bit (dwOutput s) j = (j < n mod 32 \<and> f (32 * (n div 32) + j)))"

lemma length_put_at: "put_at ib bs pb = Some pb' \<Longrightarrow> length pb' = length pb"
  by (auto simp: put_at_def split: if_splits)

lemma nth_put_at:
  "put_at ib bs pb = Some pb' \<Longrightarrow> k < length pb \<Longrightarrow> pb' ! k = (if ib \<le> k \<and> k < ib + length bs then bs ! (k - ib) else pb ! k)"
  by (auto simp: put_at_def nth_store_at split: if_splits)

lemma take_put_at: "put_at ib bs pb = Some pb' \<Longrightarrow> n \<le> ib \<Longrightarrow> take n pb' = take n pb"
  by (auto simp: put_at_def store_at_def split: if_splits)

lemma mask_put: "j < 32 \<Longrightarrow> n + c \<le> 32 \<Longrightarrow>
    bit (a OR push_bit n (i AND (push_bit c 1 - 1))) j = (bit a j \<or> (n \<le> j \<and> j < n + c \<and> bit i (j - n)))" for a i :: u32
proof -
  have "push_bit c (1 :: u32) - 1 = mask c" by (simp add: mask_eq_decr_exp)
  then show "j < 32 \<Longrightarrow> n + c \<le> 32 \<Longrightarrow> ?thesis"
    by (auto simp: bit_or_iff bit_push_bit_iff bit_and_iff bit_mask_iff)
qed

lemma dw_split: "x < 32 \<Longrightarrow> (32 * q + x) div 32 = q \<and> (32 * q + x) mod 32 = x" for q x :: nat
  by simp

lemma PutBitsAscii_step:
  assumes s: "filled f ib0 pb0 n s" and c: "n mod 32 + c \<le> 32" and i: "\<forall>j < c. bit i j = f (n + j)"
    and room: "ib0 + 4 * ((n + c) div 32) \<le> length pb0"
  shows "\<exists>s'. PutBitsAscii c i s = Some s' \<and> filled f ib0 pb0 (n + c) s'"
proof -
  define q where "q = n div 32"
  define r where "r = n mod 32"
  have n: "n = 32 * q + r" and r: "r < 32" by (simp_all add: q_def r_def)
  note c = c [folded r_def]
  note F = s [unfolded filled_def, folded q_def r_def]
  let ?dw = "dwOutput s OR push_bit r (i AND (push_bit c 1 - 1))"
  have dw: "bit ?dw j = (j < r + c \<and> f (32 * q + j))" if "j < 32" for j
  proof -
    have "bit i (j - r) = f (32 * q + j)" if "r \<le> j" "j < r + c"
    proof -
      have "n + (j - r) = 32 * q + j" "j - r < c" using n that by simp_all
      then show ?thesis using i by metis
    qed
    then show ?thesis using F that c mask_put [of j r c "dwOutput s" i] by auto
  qed
  show ?thesis
  proof (cases "r + c = 32")
    case False
    then have "(n + c) div 32 = q" "(n + c) mod 32 = r + c" using dw_split [of "r + c" q] n c by (simp_all add: add.assoc)
    then show ?thesis using False F dw
      by (simp add: PutBitsAscii_def Let_def filled_def add.assoc)
  next
    case True
    then have nc: "n + c = 32 * (q + 1)" using n by simp
    then have d: "(n + c) div 32 = q + 1" "(n + c) mod 32 = 0" by simp_all
    let ?pb = "store_at (ibOutput s) (bytes_of 4 ?dw) (pbDataCompressed s)"
    have p: "put_at (ibOutput s) (bytes_of 4 ?dw) (pbDataCompressed s) = Some ?pb"
      using F room d by (simp add: put_at_def)
    have b: "bit (?pb ! (ib0 + k)) j = f (8 * k + j)" if k: "k < 4 * (q + 1)" and j: "j < 8" for k j
    proof (cases "k < 4 * q")
      case True
      then show ?thesis using F nth_put_at [OF p, of "ib0 + k"] room d j by simp
    next
      case False
      then have "?pb ! (ib0 + k) = bytes_of 4 ?dw ! (k - 4 * q)"
        using F nth_put_at [OF p, of "ib0 + k"] room d k by simp
      moreover have "8 * (k - 4 * q) + j < 32" using k j by simp
      ultimately have "bit (?pb ! (ib0 + k)) j = f (32 * q + (8 * (k - 4 * q) + j))"
        using bit_bytes_of [of "k - 4 * q" 4 j ?dw] dw [of "8 * (k - 4 * q) + j"] \<open>r + c = 32\<close> k j by simp
      moreover have "32 * q + (8 * (k - 4 * q) + j) = 8 * k + j" using False by simp
      ultimately show ?thesis by simp
    qed
    have "take ib0 ?pb = take ib0 pb0" using take_put_at [OF p, of ib0] F by simp
    then show ?thesis using True F p b d length_put_at [OF p]
      by (simp add: PutBitsAscii_def Let_def filled_def)
  qed
qed

lemma CopyBits_two:
  assumes "ibitOutputCurr s < 32"
  shows "CopyBitsAscii i 7 s = (if ibitOutputCurr s + 7 \<le> 32 then PutBitsAscii 7 i s
    else let c = 32 - ibitOutputCurr s in
      Option.bind (PutBitsAscii c i s) (PutBitsAscii (7 - c) (drop_bit c i)))"
proof -
  let ?c = "32 - ibitOutputCurr s"
  have z: "ibitOutputCurr s' = 0" if "PutBitsAscii ?c i s = Some s'" for s'
    using that assms by (auto simp: PutBitsAscii_def Let_def split: if_splits)
  have "CopyBitsAscii (drop_bit ?c i) (7 - ?c) s' = PutBitsAscii (7 - ?c) (drop_bit ?c i) s'"
    if "\<not> ibitOutputCurr s + 7 \<le> 32" "PutBitsAscii ?c i s = Some s'" for s'
    using z [OF that(2)] that(1) assms by (subst CopyBitsAscii.simps) simp
  then show ?thesis
    by (subst CopyBitsAscii.simps) (auto simp: Let_def min_def intro!: Option.bind_cong)
qed

lemma CopyBitsAscii_step:
  assumes s: "filled f ib0 pb0 n s" and i: "\<forall>j < 7. bit i j = f (n + j)"
    and room: "ib0 + 4 * ((n + 7) div 32) \<le> length pb0"
  shows "\<exists>s'. CopyBitsAscii i 7 s = Some s' \<and> filled f ib0 pb0 (n + 7) s'"
proof -
  have cur: "ibitOutputCurr s = n mod 32" using s by (simp add: filled_def)
  show ?thesis
  proof (cases "n mod 32 + 7 \<le> 32")
    case True
    then show ?thesis using PutBitsAscii_step [OF s, of 7 i] i room cur by (simp add: CopyBits_two)
  next
    case False
    define c where "c = 32 - n mod 32"
    have c: "0 < c" "c < 7" "n mod 32 + c = 32" using False by (auto simp: c_def)
    then have "n + c = 32 * (n div 32 + 1)" by (metis add.assoc distrib_left mult.right_neutral mult_div_mod_eq)
    then have d: "(n + c) mod 32 = 0" by simp
    have "ib0 + 4 * ((n + c) div 32) \<le> length pb0"
      using room div_le_mono [of "n + c" "n + 7" 32] c by linarith
    then obtain s1 where s1: "PutBitsAscii c i s = Some s1" "filled f ib0 pb0 (n + c) s1"
      using PutBitsAscii_step [OF s, of c i] i c by auto
    have "\<forall>j < 7 - c. bit (drop_bit c i) j = f (n + c + j)"
      using i by (simp add: bit_drop_bit_eq add.assoc)
    moreover have "(n + c) mod 32 + (7 - c) \<le> 32" using d by simp
    moreover have "n + c + (7 - c) = n + 7" using c by simp
    ultimately obtain s2 where "PutBitsAscii (7 - c) (drop_bit c i) s1 = Some s2" "filled f ib0 pb0 (n + 7) s2"
      using PutBitsAscii_step [OF s1(2), of "7 - c" "drop_bit c i"] room by metis
    then show ?thesis using s1 cur False c by (simp add: CopyBits_two flip: c_def)
  qed
qed

lemma AsciiBytes_fill:
  assumes "filled f ib0 pb0 n s" "\<forall>k < length bs. \<forall>j < 7. bit (bs ! k) j = f (n + 7 * k + j)"
    "ib0 + 4 * ((n + 7 * length bs) div 32) \<le> length pb0"
  shows "\<exists>s'. AsciiBytes bs s = Some s' \<and> filled f ib0 pb0 (n + 7 * length bs) s'"
  using assms
proof (induction bs arbitrary: n s)
  case (Cons b bs)
  have "ib0 + 4 * ((n + 7) div 32) \<le> length pb0"
    using Cons.prems(3) div_le_mono [of "n + 7" "n + 7 * length (b # bs)" 32] by simp
  moreover have "\<forall>j < 7. bit (ucast b :: u32) j = f (n + j)" using Cons.prems(2) by (auto simp: bit_ucast_iff)
  ultimately obtain s1 where s1: "CopyBitsAscii (ucast b) 7 s = Some s1" "filled f ib0 pb0 (n + 7) s1"
    using CopyBitsAscii_step [OF Cons.prems(1)] by blast
  have "\<forall>k < length bs. \<forall>j < 7. bit (bs ! k) j = f (n + 7 + 7 * k + j)"
    using Cons.prems(2) [rule_format, of "Suc _"] by (simp add: algebra_simps)
  then have "\<exists>s'. AsciiBytes bs s1 = Some s' \<and> filled f ib0 pb0 (n + 7 + 7 * length bs) s'"
    using Cons.prems(3) by (intro Cons.IH [OF s1(2)]) (simp_all add: algebra_simps)
  then show ?case using s1 by (simp add: algebra_simps)
qed simp

text \<open>The Unicode loop runs the same steps; its \<open>DWORD\<close> index is the byte offset.\<close>

definition as_ascii :: "unicodebuf \<Rightarrow> asciibuf" where
  "as_ascii s = \<lparr>dwOutput = dwOutput s, ibitOutputCurr = ibitOutputCurr s, pbDataCompressed = pbDataCompressed s,
     ibOutput = 1 + 4 * idwOutput s\<rparr>"

lemma PutBitsUnicode_ascii: "map_option as_ascii (PutBitsUnicode c i s) = PutBitsAscii c i (as_ascii s)"
  by (simp add: PutBitsUnicode_def PutBitsAscii_def Let_def as_ascii_def option.map_comp o_def)

lemma CopyBitsUnicode_ascii:
  assumes "ibitOutputCurr s < 32"
  shows "map_option as_ascii (CopyBitsUnicode i 7 s) = CopyBitsAscii i 7 (as_ascii s)"
proof -
  let ?c = "32 - ibitOutputCurr s"
  have z: "ibitOutputCurr s' = 0" if "PutBitsUnicode ?c i s = Some s'" for s'
    using that assms by (auto simp: PutBitsUnicode_def Let_def split: if_splits)
  have "CopyBitsUnicode (drop_bit ?c i) (7 - ?c) s' = PutBitsUnicode (7 - ?c) (drop_bit ?c i) s'"
    if "\<not> ibitOutputCurr s + 7 \<le> 32" "PutBitsUnicode ?c i s = Some s'" for s'
    using z [OF that(2)] that(1) assms by (subst CopyBitsUnicode.simps) simp
  then have "CopyBitsUnicode i 7 s = (if ibitOutputCurr s + 7 \<le> 32 then PutBitsUnicode 7 i s
    else Option.bind (PutBitsUnicode ?c i s) (PutBitsUnicode (7 - ?c) (drop_bit ?c i)))"
    by (subst CopyBitsUnicode.simps) (auto simp: Let_def min_def intro!: Option.bind_cong)
  moreover have "map_option as_ascii (Option.bind (PutBitsUnicode a i s) (PutBitsUnicode b i')) =
      Option.bind (PutBitsAscii a i (as_ascii s)) (PutBitsAscii b i')" for a b i'
    by (cases "PutBitsUnicode a i s") (simp_all add: PutBitsUnicode_ascii flip: PutBitsUnicode_ascii [of a i s])
  ultimately show ?thesis using assms CopyBits_two [of "as_ascii s" i] PutBitsUnicode_ascii [of 7 i s]
    by (simp add: Let_def as_ascii_def [of s])
qed

lemma UnicodeWords_fill:
  assumes "filled f 1 pb0 n (as_ascii s)" "\<forall>k < length ws. \<forall>j < 7. bit (ws ! k) j = f (n + 7 * k + j)"
    "1 + 4 * ((n + 7 * length ws) div 32) \<le> length pb0"
  shows "\<exists>s'. UnicodeWords ws s = Some s' \<and> filled f 1 pb0 (n + 7 * length ws) (as_ascii s')"
  using assms
proof (induction ws arbitrary: n s)
  case (Cons w ws)
  have "1 + 4 * ((n + 7) div 32) \<le> length pb0"
    using Cons.prems(3) div_le_mono [of "n + 7" "n + 7 * length (w # ws)" 32] by simp
  moreover have "\<forall>j < 7. bit (ucast w :: u32) j = f (n + j)" using Cons.prems(2) by (auto simp: bit_ucast_iff)
  ultimately obtain s1 where s1: "CopyBitsAscii (ucast w) 7 (as_ascii s) = Some s1" "filled f 1 pb0 (n + 7) s1"
    using CopyBitsAscii_step [OF Cons.prems(1)] by blast
  have "ibitOutputCurr s < 32" using Cons.prems(1) by (simp add: filled_def as_ascii_def)
  then obtain s2 where s2: "CopyBitsUnicode (ucast w) 7 s = Some s2" "as_ascii s2 = s1"
    using CopyBitsUnicode_ascii [of s "ucast w"] s1(1) by auto
  have "\<forall>k < length ws. \<forall>j < 7. bit (ws ! k) j = f (n + 7 + 7 * k + j)"
    using Cons.prems(2) [rule_format, of "Suc _"] by (simp add: algebra_simps)
  then have "\<exists>s'. UnicodeWords ws s2 = Some s' \<and> filled f 1 pb0 (n + 7 + 7 * length ws) (as_ascii s')"
    using Cons.prems(3) s1(2) s2(2) by (intro Cons.IH) (simp_all add: algebra_simps)
  then show ?case using s2 by (simp add: algebra_simps)
qed simp

end
