(* ===== verification/Seven_Bit_Fast.thy ===== *)
theory Seven_Bit_Fast
  imports Seven_Bit_Pack
begin

text \<open>
  The last bytes of the 7-bit formats, and the loop of \<open>ErrCompress7BitAscii_\<close> that packs eight
  characters with masks and shifts.
\<close>

lemma take_prefix: "take n xs = take n ys \<Longrightarrow> m \<le> n \<Longrightarrow> take m xs = take m ys"
  by (metis min_absorb1 take_take)

lemma FlushBytes_spec:
  "ib + n \<le> length pb \<Longrightarrow> \<exists>pb'. FlushBytes n dw (ib, pb) = Some (ib + n, pb') \<and> length pb' = length pb \<and>
     take ib pb' = take ib pb \<and> (\<forall>k < n. \<forall>j < 8. bit (pb' ! (ib + k)) j = bit dw (8 * k + j))"
proof (induction n arbitrary: dw ib pb)
  case (Suc n)
  define pb1 where "pb1 = store_at ib [ucast (dw AND 0xff)] pb"
  have p: "put_at ib [ucast (dw AND 0xff)] pb = Some pb1" using Suc.prems by (simp add: put_at_def pb1_def)
  obtain pb' where pb': "FlushBytes n (drop_bit 8 dw) (ib + 1, pb1) = Some (ib + 1 + n, pb')" "length pb' = length pb1"
      "take (ib + 1) pb' = take (ib + 1) pb1" "\<forall>k < n. \<forall>j < 8. bit (pb' ! (ib + 1 + k)) j = bit (drop_bit 8 dw) (8 * k + j)"
    using Suc.IH [of "ib + 1" pb1 "drop_bit 8 dw"] Suc.prems length_put_at [OF p] by auto
  have i: "pb' ! ib = pb1 ! ib" using pb'(3) by (metis less_add_one nth_take)
  have "bit (pb' ! ib) j = bit dw j" if "j < 8" for j
  proof -
    have "bit (0xff :: u32) j" using that bit_mask_iff [where 'a = "32 word", of 8 j] by (simp add: mask_eq_exp_minus_1)
    then show ?thesis using i nth_put_at [OF p, of ib] Suc.prems that by (simp add: bit_ucast_iff bit_and_iff)
  qed
  note b0 = this
  have bS: "bit (pb' ! (ib + Suc k)) j = bit dw (8 * Suc k + j)" if "k < n" "j < 8" for k j
    using pb'(4) that by (simp add: bit_drop_bit_eq add.assoc)
  have "bit (pb' ! (ib + k)) j = bit dw (8 * k + j)" if "k < Suc n" "j < 8" for k j
    using that b0 bS by (cases k) simp_all
  moreover have "take ib pb' = take ib pb"
    using take_prefix [OF pb'(3), of ib] take_put_at [OF p, of ib] by simp
  ultimately show ?case using pb'(1,2) p length_put_at [OF p] by auto
qed simp

lemma filled_flush:
  assumes s: "filled f ib0 pb0 n s" and e: "\<And>p. n \<le> p \<Longrightarrow> \<not> f p" and room: "ib0 + (n + 7) div 8 \<le> length pb0"
  shows "\<exists>pb. FlushBytes ((ibitOutputCurr s + 7) div 8) (dwOutput s) (ibOutput s, pbDataCompressed s) =
      Some (ib0 + (n + 7) div 8, pb) \<and> length pb = length pb0 \<and> take ib0 pb = take ib0 pb0 \<and>
      (\<forall>k < (n + 7) div 8. \<forall>j < 8. bit (pb ! (ib0 + k)) j = f (8 * k + j))"
proof -
  define q where "q = n div 32"
  define c where "c = (n mod 32 + 7) div 8"
  note F = s [unfolded filled_def, folded q_def]
  have "n + 7 = (n mod 32 + 7) + 8 * (4 * q)" by (simp add: q_def)
  then have "(n + 7) div 8 = 4 * q + c" unfolding c_def by (metis add.commute div_mult_self4 zero_neq_numeral)
  note cq = this
  have "c \<le> 4" unfolding c_def by (simp add: less_eq_div_iff_mult_less_eq div_le_mono [of "n mod 32 + 7" 38 8, simplified] order.strict_implies_order)
  have "ib0 + 4 * q + c \<le> length (pbDataCompressed s)" using F room cq by simp
  then obtain pb where pb: "FlushBytes c (dwOutput s) (ib0 + 4 * q, pbDataCompressed s) = Some (ib0 + 4 * q + c, pb)"
      "length pb = length pb0" "take (ib0 + 4 * q) pb = take (ib0 + 4 * q) (pbDataCompressed s)"
      "\<forall>k < c. \<forall>j < 8. bit (pb ! (ib0 + 4 * q + k)) j = bit (dwOutput s) (8 * k + j)"
    using FlushBytes_spec [of "ib0 + 4 * q" c "pbDataCompressed s" "dwOutput s"] F by auto
  have "bit (pb ! (ib0 + k)) j = f (8 * k + j)" if k: "k < 4 * q + c" and j: "j < 8" for k j
  proof (cases "k < 4 * q")
    case True
    then have "pb ! (ib0 + k) = pbDataCompressed s ! (ib0 + k)" using pb(3) by (metis nat_add_left_cancel_less nth_take)
    then show ?thesis using F True j by simp
  next
    case False
    have a: "k - 4 * q < c" "32 * q + (8 * (k - 4 * q) + j) = 8 * k + j" "8 * (k - 4 * q) + j < 32"
      using False k j \<open>c \<le> 4\<close> by simp_all
    have "bit (pb ! (ib0 + k)) j = bit (dwOutput s) (8 * (k - 4 * q) + j)"
      using pb(4) [rule_format, OF a(1) j] False by simp
    also have "\<dots> = (8 * (k - 4 * q) + j < n mod 32 \<and> f (8 * k + j))" using F a(2,3) by metis
    also have "\<dots> = f (8 * k + j)"
      using e [of "8 * k + j"] a(2) mult_div_mod_eq [of 32 n] unfolding q_def [symmetric] by linarith
    finally show ?thesis .
  qed
  moreover have "take ib0 pb = take ib0 pb0" using take_prefix [OF pb(3), of ib0] F by simp
  ultimately show ?thesis using pb(1,2) F cq by (simp add: c_def add.assoc)
qed

subsection \<open>Eight characters in one word\<close>

lemma bit_NBITMASK: "bit (NBITMASK n) m = (m < n \<and> m < 64)"
proof -
  have "NBITMASK n = mask n" by (simp add: NBITMASK_def mask_eq_decr_exp)
  then show ?thesis by (auto simp: bit_mask_iff)
qed

lemma bit_MASKANDSHIFT: "m < 64 \<Longrightarrow>
    bit (ASCII7BITMASKANDSHIFT qw (NBITMASK n)) m = (if m < n then bit qw m else bit qw (m + 1))"
  by (auto simp: ASCII7BITMASKANDSHIFT_def bit_or_iff bit_and_iff bit_not_iff bit_drop_bit_eq bit_NBITMASK)

lemma bit_ReverseEight:
  "n < 64 \<Longrightarrow> bit (ReverseEightBytes qw) n = bit qw (8 * (7 - n div 8) + n mod 8)"
proof -
  have "list_all (\<lambda>n. bit (ReverseEightBytes qw) n = bit qw (8 * (7 - n div 8) + n mod 8)) [0..<64]"
    by (simp add: upt_rec ReverseEightBytes_def Let_def bit_or_iff bit_and_iff bit_drop_bit_eq bit_push_bit_iff)
      (simp add: eval_nat_numeral)
  then show "n < 64 \<Longrightarrow> ?thesis" by (simp add: list_all_length)
qed

lemma bit_ReverseCompressed: "n < 64 \<Longrightarrow>
    bit (ReverseEightCompressedBytes qw) n = (n < 56 \<and> bit qw (7 * (7 - n div 7) + n mod 7))"
proof -
  have "list_all (\<lambda>n. bit (ReverseEightCompressedBytes qw) n = (n < 56 \<and> bit qw (7 * (7 - n div 7) + n mod 7))) [0..<64]"
    by (simp add: upt_rec ReverseEightCompressedBytes_def Let_def bit_or_iff bit_and_iff bit_drop_bit_eq
        bit_push_bit_iff bit_NBITMASK) (simp add: eval_nat_numeral)
  then show "n < 64 \<Longrightarrow> ?thesis" by (simp add: list_all_length)
qed

lemma bit_shifted: "m < 56 \<Longrightarrow>
    bit (fold (\<lambda>n qw. ASCII7BITMASKANDSHIFT qw (NBITMASK n)) [7, 14, 21, 28, 35, 42, 49] qw) m = bit qw (m + m div 7)"
proof -
  have "list_all (\<lambda>m. bit (fold (\<lambda>n qw. ASCII7BITMASKANDSHIFT qw (NBITMASK n)) [7, 14, 21, 28, 35, 42, 49] qw) m =
      bit qw (m + m div 7)) [0..<56]"
    by (simp add: upt_rec bit_MASKANDSHIFT) (simp add: eval_nat_numeral)
  then show "m < 56 \<Longrightarrow> ?thesis" by (simp add: list_all_length)
qed

lemma bit_PackQword:
  assumes "n < 64"
  shows "bit (PackQword qw) n = (n < 56 \<and> bit qw (8 * (n div 7) + n mod 7))"
proof (cases "n < 56")
  case True
  define d where "d = n div 7"
  define r where "r = n mod 7"
  have d: "d < 8" "r < 7" using True by (simp_all add: d_def r_def)
  define m where "m = 7 * (7 - d) + r"
  have m: "m < 56" "m div 7 = 7 - d" "m mod 7 = r" using d by (simp_all add: m_def)
  have x: "m + m div 7 = 8 * (7 - d) + r" using d by (simp add: m m_def)
  have y: "(8 * (7 - d) + r) div 8 = 7 - d" "(8 * (7 - d) + r) mod 8 = r" "8 * (7 - d) + r < 64" using d by simp_all
  have "7 - (7 - d) = d" using d by simp
  then have "bit (PackQword qw) n = bit qw (8 * d + r)"
    using True bit_ReverseCompressed [OF assms] bit_shifted [OF m(1)] bit_ReverseEight [OF y(3)]
    by (simp only: PackQword_def x y m_def [unfolded d_def r_def, symmetric]) simp
  then show ?thesis using True by (simp add: d_def r_def)
qed (simp add: PackQword_def bit_ReverseCompressed assms)

lemma AsciiQwords_spec:
  assumes "8 * (a + n) \<le> length data" "0 < n \<Longrightarrow> 2 + 7 * (a + n) \<le> length pb"
    "\<forall>k < 7 * a. \<forall>j < 8. bit (pb ! (1 + k)) j = bit7 data (8 * k + j)"
  shows "\<exists>pb'. AsciiQwords n data (8 * a, 1 + 7 * a, pb) = Some (8 * (a + n), 1 + 7 * (a + n), pb') \<and>
    length pb' = length pb \<and> (\<forall>k < 7 * (a + n). \<forall>j < 8. bit (pb' ! (1 + k)) j = bit7 data (8 * k + j))"
  using assms
proof (induction n arbitrary: a pb)
  case (Suc n)
  define bs where "bs = bytes_of 8 (PackQword (load_qw data (8 * a)))"
  define pb1 where "pb1 = store_at (1 + 7 * a) bs pb"
  have p: "put_at (1 + 7 * a) bs pb = Some pb1" using Suc.prems(2) by (simp add: put_at_def pb1_def bs_def)
  have "bit (pb1 ! (1 + k)) j = bit7 data (8 * k + j)" if k: "k < 7 * (a + 1)" and j: "j < 8" for k j
  proof (cases "k < 7 * a")
    case True
    then show ?thesis using nth_put_at [OF p, of "1 + k"] Suc.prems(2,3) j by simp
  next
    case False
    define n where "n = 8 * (k - 7 * a) + j"
    have k8: "k - 7 * a < 8" using False k by simp
    have n: "n < 56" "8 * k + j = 56 * a + n" using False k j by (simp_all add: n_def)
    then have n7: "n div 7 < 8" by simp
    have i: "(56 * a + n) div 7 = 8 * a + n div 7" "(56 * a + n) mod 7 = n mod 7"
      using div_mult_self2 [of 7 n "8 * a"] mod_mult_self2 [of n 7 "8 * a"] by (simp_all add: add.commute mult.assoc [symmetric])
    have "bit (pb1 ! (1 + k)) j = bit (PackQword (load_qw data (8 * a))) n"
      using nth_put_at [OF p, of "1 + k"] Suc.prems(2) False k j bit_bytes_of [OF k8 j]
      by (simp add: bs_def n_def)
    also have "\<dots> = bit (data ! (8 * a + n div 7)) (n mod 7)"
    proof -
      have "n mod 7 < 8" "n mod 7 < 7" using mod_less_divisor [of 7 n] by linarith+
      then have "(8 * (n div 7) + n mod 7) div 8 = n div 7" "(8 * (n div 7) + n mod 7) mod 8 = n mod 7"
        "8 * (n div 7) + n mod 7 < 64" using n7 by simp_all
      then show ?thesis
        using bit_PackQword [of n] n(1) bit_load_qw [of "8 * a" data "8 * (n div 7) + n mod 7"] Suc.prems(1) by simp
    qed
    also have "\<dots> = bit7 data (8 * k + j)" using i n Suc.prems(1) by (simp add: bit7_def)
    finally show ?thesis .
  qed
  then have "\<exists>pb'. AsciiQwords n data (8 * (a + 1), 1 + 7 * (a + 1), pb1) = Some (8 * (a + 1 + n), 1 + 7 * (a + 1 + n), pb') \<and>
    length pb' = length pb1 \<and> (\<forall>k < 7 * (a + 1 + n). \<forall>j < 8. bit (pb' ! (1 + k)) j = bit7 data (8 * k + j))"
    using Suc.prems(1,2) length_put_at [OF p] by (intro Suc.IH) simp_all
  then show ?case using p length_put_at [OF p] by (simp add: bs_def algebra_simps)
qed simp

end
