(* ===== verification/Seven_Bit_Codec.thy ===== *)
theory Seven_Bit_Codec
  imports Seven_Bit_Fast
begin

text \<open>
  The four 7-bit routines against the format: what compression leaves in the buffer, and what
  decompression reads out of any buffer, well-formed or not.
\<close>

subsection \<open>Compression\<close>

lemma seven_eight: "8 * a \<le> N \<Longrightarrow> (7 * (N - 8 * a) + 7) div 8 = (7 * N + 7) div 8 - 7 * a \<and>
    (7 * (N - 8 * a)) mod 8 = (7 * N) mod 8 \<and> 7 * a \<le> (7 * N + 7) div 8" for a N :: nat
proof -
  assume "8 * a \<le> N"
  then obtain m where m: "N = 8 * a + m" using le_Suc_ex by blast
  have "7 * N + 7 = (7 * m + 7) + 8 * (7 * a)" "7 * N = 7 * m + 8 * (7 * a)" using m by simp_all
  then show ?thesis using m by (simp only: div_mult_self2 mod_mult_self2) simp
qed

lemma final_bits: "((if n mod 32 = 0 then 32 else n mod 32) - 1) mod 8 = (n + 7) mod 8" for n :: nat
proof -
  have "n = n mod 32 + 8 * (4 * (n div 32))" by simp
  then have "(n + 7) mod 8 = (n mod 32 + 7 + 8 * (4 * (n div 32))) mod 8" by (metis add.assoc add.commute)
  then have "(n + 7) mod 8 = (n mod 32 + 7) mod 8" by (simp only: mod_mult_self2)
  then show ?thesis by (cases "n mod 32") simp_all
qed

lemma dw_bytes: "(n + 7) div 8 = 4 * (n div 32) + (n mod 32 + 7) div 8" for n :: nat
proof -
  have "n + 7 = (n mod 32 + 7) + 8 * (4 * (n div 32))" by simp
  then show ?thesis by (metis add.commute div_mult_self4 zero_neq_numeral)
qed

lemma CbCompressed7BitAscii_nat: "CbCompressed7BitAscii (int n) = int (1 + (7 * n + 7) div 8)"
  by (simp add: CbCompressed7BitAscii_def zdiv_int algebra_simps)

lemma CbCompressed7BitUnicode_nat: "CbCompressed7BitUnicode (int n) = int (1 + (7 * (n div 2) + 7) div 8)"
  by (simp add: CbCompressed7BitUnicode_def zdiv_int algebra_simps)

lemma header_packed:
  assumes "length pb = L" "1 + (7 * length ds + 7) div 8 \<le> L"
    "\<forall>k < (7 * length ds + 7) div 8. \<forall>j < 8. bit (pb ! (1 + k)) j = bit7 ds (8 * k + j)"
  shows "put_at 0 [h] pb = Some (h # tl pb) \<and> length (h # tl pb) = L \<and>
    take (1 + (7 * length ds + 7) div 8) (h # tl pb) = h # pack7 ds"
proof -
  have "0 < length pb" using assms by simp
  then have "put_at 0 [h] pb = Some (h # tl pb)" by (cases pb) (auto simp: put_at_def store_at_def)
  moreover have "take ((7 * length ds + 7) div 8) (tl pb) = pack7 ds"
  proof (rule nth_equalityI)
    show "length (take ((7 * length ds + 7) div 8) (tl pb)) = length (pack7 ds)" using assms(1,2) by simp
    fix k assume k: "k < length (take ((7 * length ds + 7) div 8) (tl pb))"
    show "take ((7 * length ds + 7) div 8) (tl pb) ! k = pack7 ds ! k"
      by (rule u8_eqI) (use assms k in \<open>simp add: bit_pack7 nth_tl\<close>)
  qed
  ultimately show ?thesis using assms(1) \<open>0 < length pb\<close> by simp
qed

theorem compress_ascii:
  assumes max: "CbCompressed7BitAscii (int (length data)) \<le> cbMax" and buf: "cbMax \<le> int (length pb)"
  shows "\<exists>pb'. ErrCompress7BitAscii data pb cbMax = Some (JET_errSuccess, CbCompressed7BitAscii (int (length data)), pb') \<and>
    length pb' = length pb \<and>
    take (1 + (7 * length data + 7) div 8) pb' = header7 COMPRESS_7BITASCII (length data) # pack7 data"
proof -
  let ?N = "length data"
  define q where "q = nat ((cbMax - 1 - 1) sdiv 7)"
  define a where "a = min (?N div 8) q"
  have a8: "8 * a \<le> ?N" by (simp add: a_def)
  have room: "1 + (7 * ?N + 7) div 8 \<le> length pb" using max buf by (simp add: CbCompressed7BitAscii_nat)
  have "2 + 7 * a \<le> length pb" if "0 < a"
  proof -
    have "0 < (cbMax - 2) sdiv 7" using that by (simp add: a_def q_def)
    then have "(cbMax - 2) sdiv 7 = (cbMax - 2) div 7" "2 < cbMax"
      by (auto simp: signed_divide_int_def sgn_if split: if_splits)
    then have "int q = (cbMax - 2) div 7" using that by (simp add: q_def a_def)
    then have "7 * int q \<le> cbMax - 2" by simp
    then show ?thesis using buf by (simp add: a_def)
  qed
  then obtain pb1 where pb1: "AsciiQwords a data (0, 1, pb) = Some (8 * a, 1 + 7 * a, pb1)" "length pb1 = length pb"
      "\<forall>k < 7 * a. \<forall>j < 8. bit (pb1 ! (1 + k)) j = bit7 data (8 * k + j)"
    using AsciiQwords_spec [of 0 a data pb] a8 by auto
  define ib0 where "ib0 = 1 + 7 * a"
  let ?f = "\<lambda>p. bit7 data (56 * a + p)" and ?n = "7 * (?N - 8 * a)"
  let ?s0 = "\<lparr>dwOutput = 0, ibitOutputCurr = 0, pbDataCompressed = pb1, ibOutput = ib0\<rparr>"
  have "filled ?f ib0 pb1 0 ?s0" by (simp add: filled_def)
  moreover have "\<forall>k < length (drop (8 * a) data). \<forall>j < 7. bit (drop (8 * a) data ! k) j = ?f (0 + 7 * k + j)"
    using bit7_at [of "8 * a + _" data] a8 by (simp add: algebra_simps less_diff_conv)
  moreover have r: "ib0 + (?n + 7) div 8 \<le> length pb1"
    using seven_eight [OF a8] room pb1(2) by (simp add: ib0_def)
  moreover have "4 * (?n div 32) \<le> (?n + 7) div 8" by linarith
  ultimately obtain s where s: "AsciiBytes (drop (8 * a) data) ?s0 = Some s" "filled ?f ib0 pb1 ?n s"
    using AsciiBytes_fill [of ?f ib0 pb1 0 ?s0 "drop (8 * a) data"] by (auto simp: algebra_simps)
  have "\<not> ?f p" if "?n \<le> p" for p using that a8 by (intro bit7_end) simp
  then obtain pb2 where pb2: "FlushBytes ((ibitOutputCurr s + 7) div 8) (dwOutput s) (ibOutput s, pbDataCompressed s) =
      Some (1 + (7 * ?N + 7) div 8, pb2)" "length pb2 = length pb" "take ib0 pb2 = take ib0 pb1"
      "\<forall>k < (?n + 7) div 8. \<forall>j < 8. bit (pb2 ! (ib0 + k)) j = ?f (8 * k + j)"
    using filled_flush [OF s(2) _ r] seven_eight [OF a8] pb1(2) by (auto simp: ib0_def)
  have "bit (pb2 ! (1 + k)) j = bit7 data (8 * k + j)" if k: "k < (7 * ?N + 7) div 8" and j: "j < 8" for k j
  proof (cases "k < 7 * a")
    case True
    then have "pb2 ! (1 + k) = pb1 ! (1 + k)" using pb2(3) by (metis ib0_def nat_add_left_cancel_less nth_take)
    then show ?thesis using True pb1(3) j by simp
  next
    case False
    then have "k - 7 * a < (?n + 7) div 8" "ib0 + (k - 7 * a) = 1 + k" "56 * a + (8 * (k - 7 * a) + j) = 8 * k + j"
      using k seven_eight [OF a8] by (simp_all add: ib0_def)
    then show ?thesis using pb2(4) j by metis
  qed
  then have hp: "\<And>h. put_at 0 [h] pb2 = Some (h # tl pb2) \<and> length (h # tl pb2) = length pb \<and>
      take (1 + (7 * ?N + 7) div 8) (h # tl pb2) = h # pack7 data"
    using header_packed [OF pb2(2) room] by blast
  have "((if ibitOutputCurr s = 0 then 32 else ibitOutputCurr s) - 1) mod 8 = (7 * ?N + 7) mod 8"
  proof -
    have "ibitOutputCurr s = ?n mod 32" using s(2) by (simp add: filled_def)
    moreover have "(?n + 7) mod 8 = (7 * ?N + 7) mod 8" using seven_eight [OF a8] mod_add_cong by blast
    ultimately show ?thesis using final_bits [of ?n] by metis
  qed
  moreover have "min (?N div 8) (nat ((cbMax - 2) sdiv 7)) = a" by (simp add: a_def q_def)
  ultimately show ?thesis
    using max pb1(1) s(1) pb2(1) hp
    by (simp add: ErrCompress7BitAscii_def Let_def header7_def CbCompressed7BitAscii_nat ib0_def)
qed

text \<open>The low bytes of the little-endian 16-bit characters.\<close>

definition low_bytes :: "u8 list \<Rightarrow> u8 list" where
  "low_bytes data = map (\<lambda>i. data ! (2 * i)) [0..<length data div 2]"

lemma length_low_bytes [simp]: "length (low_bytes data) = length data div 2"
  by (simp add: low_bytes_def)

theorem compress_unicode:
  assumes max: "CbCompressed7BitUnicode (int (length data)) \<le> cbMax" and buf: "cbMax \<le> int (length pb)"
  shows "\<exists>pb'. ErrCompress7BitUnicode data pb cbMax = Some (JET_errSuccess, CbCompressed7BitUnicode (int (length data)), pb') \<and>
    length pb' = length pb \<and>
    take (1 + (7 * (length data div 2) + 7) div 8) pb' = header7 COMPRESS_7BITUNICODE (length data div 2) # pack7 (low_bytes data)"
proof -
  let ?N = "length data div 2" and ?f = "bit7 (low_bytes data)"
  let ?ws = "map (\<lambda>iw. load_w data (2 * iw)) [0..<?N]"
  let ?s0 = "\<lparr>dwOutput = 0, ibitOutputCurr = 0, pbDataCompressed = pb, idwOutput = 0\<rparr>"
  have room: "1 + (7 * ?N + 7) div 8 \<le> length pb" using max buf by (simp add: CbCompressed7BitUnicode_nat)
  have "filled ?f 1 pb 0 (as_ascii ?s0)" by (simp add: filled_def as_ascii_def)
  moreover have "\<forall>k < length ?ws. \<forall>j < 7. bit (?ws ! k) j = ?f (0 + 7 * k + j)"
    using bit7_at [of _ "low_bytes data"]
    by (simp add: low_bytes_def load_w_def bit_or_iff bit_ucast_iff bit_push_bit_iff)
  moreover have "4 * (7 * ?N div 32) \<le> (7 * ?N + 7) div 8" by linarith
  ultimately obtain s where s: "UnicodeWords ?ws ?s0 = Some s" "filled ?f 1 pb (7 * ?N) (as_ascii s)"
    using UnicodeWords_fill [of ?f pb 0 ?s0 ?ws] room by auto
  have f: "dwOutput (as_ascii s) = dwOutput s" "ibitOutputCurr (as_ascii s) = ibitOutputCurr s"
    "pbDataCompressed (as_ascii s) = pbDataCompressed s" "ibOutput (as_ascii s) = 1 + 4 * idwOutput s"
    by (simp_all add: as_ascii_def)
  have "\<not> ?f p" if "7 * ?N \<le> p" for p using that by (intro bit7_end) simp
  then obtain pb2 where pb2: "FlushBytes ((ibitOutputCurr s + 7) div 8) (dwOutput s) (1 + 4 * idwOutput s, pbDataCompressed s) =
      Some (1 + (7 * ?N + 7) div 8, pb2)" "length pb2 = length pb"
      "\<forall>k < (7 * ?N + 7) div 8. \<forall>j < 8. bit (pb2 ! (1 + k)) j = ?f (8 * k + j)"
    using filled_flush [OF s(2) _ room] by (auto simp: f)
  have hp: "put_at 0 [h] pb2 = Some (h # tl pb2) \<and> length (h # tl pb2) = length pb \<and>
      take (1 + (7 * ?N + 7) div 8) (h # tl pb2) = h # pack7 (low_bytes data)" for h
    using header_packed [OF pb2(2), of "low_bytes data" h] room pb2(3) by simp
  have cur: "ibitOutputCurr s = 7 * ?N mod 32" "idwOutput s = 7 * ?N div 32"
    using s(2) by (simp_all add: filled_def f)
  note fb = final_bits [of "7 * ?N"]
  have sz: "(if ibitOutputCurr s = 0 then (32, int (idwOutput s) - 1) else (ibitOutputCurr s, int (idwOutput s))) =
      (if 7 * ?N mod 32 = 0 then 32 else 7 * ?N mod 32, if 7 * ?N mod 32 = 0 then int (7 * ?N div 32) - 1 else int (7 * ?N div 32))"
    by (simp add: cur)
  have cb: "1 + (if n mod 32 = 0 then int (n div 32) - 1 else int (n div 32)) * 4 + (int (if n mod 32 = 0 then 32 else n mod 32) + 7) div 8
      = int (1 + (n + 7) div 8)" for n :: nat
    using dw_bytes [of n] by (auto simp: zdiv_int)
  show ?thesis
    using max s(1) pb2(1) hp
    by (simp add: ErrCompress7BitUnicode_def Let_def header7_def CbCompressed7BitUnicode_nat sz fb [simplified]
        cb [of "7 * ?N", simplified])
qed

subsection \<open>Decompression\<close>

lemma Extract7_spec:
  assumes "1 + (7 * k + 6) div 8 < length pc"
  shows "Extract7 pc (1 + 7 * k div 8) (7 * k mod 8) = Some (val7 pc k)"
proof -
  define q where "q = 7 * k div 8"
  define r where "r = 7 * k mod 8"
  have p: "7 * k = 8 * q + r" and r: "r < 8" by (simp_all add: q_def r_def)
  have in0: "1 + q < length pc" using assms div_le_mono [of "7 * k" "7 * k + 6" 8] by (simp add: q_def)
  show ?thesis
  proof (cases "r \<le> 1")
    case True
    have "drop_bit r (pc ! (1 + q)) AND 0x7f = val7 pc k"
    proof (rule u8_eqI)
      fix j :: nat assume j: "j < 8"
      have "bit (0x7f :: u8) j = (j < 7)" using j bit_mask_iff [where 'a = "8 word", of 7 j] by (simp add: mask_eq_exp_minus_1)
      moreover have "(7 * k + j) div 8 = q \<and> (7 * k + j) mod 8 = r + j" if "j < 7"
        using True that div_mult_self4 [of 8 q "r + j"] by (simp add: p add.assoc)
      ultimately show "bit (drop_bit r (pc ! (1 + q)) AND 0x7f) j = bit (val7 pc k) j"
        by (auto simp: bit_and_iff bit_drop_bit_eq bit_val7 sbit_def)
    qed
    then show ?thesis using True in0 by (simp add: Extract7_def get_at_def flip: q_def r_def)
  next
    case False
    then have "(7 * k + 6) div 8 = q + 1" using p r by (simp add: div_nat_eqI)
    then have in1: "2 + q < length pc" using assms by simp
    define w where "w = (ucast (pc ! (1 + q)) OR push_bit 8 (ucast (pc ! (2 + q))) :: u16)"
    have "ucast (drop_bit r w AND 0x7f) = val7 pc k"
    proof (rule u8_eqI)
      fix j :: nat assume j: "j < 8"
      have m: "bit (0x7f :: u16) j = (j < 7)" using j bit_mask_iff [where 'a = "16 word", of 7 j] by (simp add: mask_eq_exp_minus_1)
      have w: "bit w (r + j) = sbit pc (7 * k + j)" if "j < 7"
      proof (cases "r + j < 8")
        case True
        then have "(7 * k + j) div 8 = q" "(7 * k + j) mod 8 = r + j"
          using div_mult_self4 [of 8 q "r + j"] by (simp_all add: p add.assoc)
        then show ?thesis using True by (simp add: w_def sbit_def bit_or_iff bit_ucast_iff bit_push_bit_iff)
      next
        case False
        then have "7 * k + j = 8 * (q + 1) + (r + j - 8)" "r + j - 8 < 8" using p that r by simp_all
        then have "(7 * k + j) div 8 = q + 1" "(7 * k + j) mod 8 = r + j - 8"
          using div_mult_self4 [of 8 "q + 1" "r + j - 8"] mod_mult_self4 [of 8 "q + 1" "r + j - 8"] by simp_all
        then show ?thesis using False \<open>r + j - 8 < 8\<close>
          by (auto simp: w_def sbit_def bit_or_iff bit_ucast_iff bit_push_bit_iff dest: bit_imp_le_length)
      qed
      show "bit (ucast (drop_bit r w AND 0x7f) :: u8) j = bit (val7 pc k) j"
        using j m w by (auto simp: bit_ucast_iff bit_and_iff bit_drop_bit_eq bit_val7)
    qed
    then show ?thesis using False in0 in1
      by (simp add: Extract7_def get_at_def numeral_2_eq_2 w_def flip: q_def r_def)
  qed
qed

lemma NextBits_spec: "NextBits (1 + 7 * k div 8) (7 * k mod 8) = (1 + 7 * (k + 1) div 8, 7 * (k + 1) mod 8)"
proof -
  define q where "q = 7 * k div 8"
  define r where "r = 7 * k mod 8"
  have "7 * (k + 1) = (r + 7) + 8 * q" by (simp add: q_def r_def)
  then have "7 * (k + 1) div 8 = q + (r + 7) div 8 \<and> 7 * (k + 1) mod 8 = (r + 7) mod 8"
    by (simp only: div_mult_self2 mod_mult_self2)
  moreover have "r < 8" by (simp add: r_def)
  ultimately show ?thesis
    by (cases "r = 0") (simp_all add: NextBits_def div_nat_eqI flip: q_def r_def)
qed

lemma store_at_Cons:
  "i + Suc (length bs) \<le> length pb \<Longrightarrow> store_at (i + 1) bs (store_at i [b] pb) = store_at i (b # bs) pb"
  by (simp add: store_at_def min_absorb1 add.commute)

lemma put_at_one: "i < length pb \<Longrightarrow> put_at i [b] pb = Some (store_at i [b] pb)"
  by (simp add: put_at_def)

lemma in_reach: "7 * (k + 1) \<le> 8 * (L - 1) \<Longrightarrow> 1 + (7 * k + 6) div 8 < L" for k L :: nat
  using less_mult_imp_div_less [of "7 * k + 6" "L - 1" 8] by simp

lemma AsciiUnpack_spec:
  "7 * (k + n) \<le> 8 * (length pc - 1) \<Longrightarrow> ibData + n \<le> length pb \<Longrightarrow>
    AsciiUnpack n pc (1 + 7 * k div 8, 7 * k mod 8) ibData pb = Some (store_at ibData (map (val7 pc) [k..<k + n]) pb)"
proof (induction n arbitrary: k ibData pb)
  case 0
  then show ?case by (simp add: store_at_def)
next
  case (Suc n)
  have "Extract7 pc (1 + 7 * k div 8) (7 * k mod 8) = Some (val7 pc k)"
    using Suc.prems(1) by (intro Extract7_spec in_reach) simp
  moreover have "AsciiUnpack n pc (1 + 7 * (k + 1) div 8, 7 * (k + 1) mod 8) (ibData + 1) (store_at ibData [val7 pc k] pb) =
      Some (store_at (ibData + 1) (map (val7 pc) [k + 1..<k + 1 + n]) (store_at ibData [val7 pc k] pb))"
    using Suc.prems by (intro Suc.IH) simp_all
  moreover have "map (val7 pc) [k..<k + Suc n] = val7 pc k # map (val7 pc) [k + 1..<k + 1 + n]"
    by (subst upt_conv_Cons) (simp_all del: upt_Suc)
  ultimately show ?case
    using Suc.prems NextBits_spec [of k] by (simp add: put_at_one store_at_Cons [simplified])
qed

text \<open>Sixteen-bit characters: each 7-bit value and a zero byte.\<close>

definition wide :: "nat \<Rightarrow> u8 list \<Rightarrow> nat \<Rightarrow> u8 list" where
  "wide n pc k = map (\<lambda>i. if even i then val7 pc (k + i div 2) else 0) [0..<n]"

lemma length_wide [simp]: "length (wide n pc k) = n"
  by (simp add: wide_def)

lemma wide_simps:
  "wide 0 pc k = []" "wide (Suc 0) pc k = [val7 pc k]" "wide (Suc (Suc n)) pc k = val7 pc k # 0 # wide n pc (k + 1)"
proof -
  show "wide (Suc (Suc n)) pc k = val7 pc k # 0 # wide n pc (k + 1)"
  proof (rule nth_equalityI)
    fix i assume i: "i < length (wide (Suc (Suc n)) pc k)"
    consider "i = 0" | "i = 1" | i' where "i = Suc (Suc i')" by (metis One_nat_def not0_implies_Suc)
    then show "wide (Suc (Suc n)) pc k ! i = (val7 pc k # 0 # wide n pc (k + 1)) ! i"
      using i by cases (simp_all add: wide_def del: upt_Suc)
  qed simp
qed (simp_all add: wide_def)

lemma UnicodeUnpack_spec:
  "7 * (k + (n + 1) div 2) \<le> 8 * (length pc - 1) \<Longrightarrow> ibData + n \<le> length pb \<Longrightarrow>
    UnicodeUnpack n pc (1 + 7 * k div 8, 7 * k mod 8) ibData pb = Some (store_at ibData (wide n pc k) pb)"
proof (induction n arbitrary: k ibData pb rule: induct_nat_012)
  case 0
  then show ?case by (simp add: store_at_def wide_simps)
next
  case 1
  then have "Extract7 pc (1 + 7 * k div 8) (7 * k mod 8) = Some (val7 pc k)"
    by (intro Extract7_spec in_reach) simp
  with 1 show ?case by (simp add: put_at_one wide_simps)
next
  case (ge2 n)
  have "Extract7 pc (1 + 7 * k div 8) (7 * k mod 8) = Some (val7 pc k)"
    using ge2.prems(1) by (intro Extract7_spec in_reach) simp
  moreover have "UnicodeUnpack n pc (1 + 7 * (k + 1) div 8, 7 * (k + 1) mod 8) (ibData + 2)
      (store_at (ibData + 1) [0] (store_at ibData [val7 pc k] pb)) =
      Some (store_at (ibData + 2) (wide n pc (k + 1)) (store_at (ibData + 1) [0] (store_at ibData [val7 pc k] pb)))"
    using ge2.prems by (intro ge2.IH(1)) simp_all
  moreover have "store_at (ibData + 2) (wide n pc (k + 1)) (store_at (ibData + 1) [0] (store_at ibData [val7 pc k] pb)) =
      store_at ibData (wide (Suc (Suc n)) pc k) pb"
    using ge2.prems store_at_Cons [of "ibData + 1" "wide n pc (k + 1)" "store_at ibData [val7 pc k] pb" 0]
      store_at_Cons [of ibData "0 # wide n pc (k + 1)" pb "val7 pc k"] by (simp add: wide_simps)
  ultimately show ?case
    using ge2.prems NextBits_spec [of k] by (simp add: put_at_one)
qed

text \<open>The number of characters a buffer claims to hold; its bits are always in the buffer.\<close>

definition chars7 :: "u8 list \<Rightarrow> int" where
  "chars7 pc = CbitTotal pc (hd pc) sdiv 7"

lemma chars7_bits:
  assumes "pc \<noteq> []"
  shows "7 * nat (chars7 pc) \<le> 8 * (length pc - 1)"
proof -
  have "uint (hd pc AND 7) < 8" using uint_and_mask [of "hd pc" 3] by (simp add: mask_eq_exp_minus_1)
  then have t: "CbitTotal pc (hd pc) \<le> 8 * (int (length pc) - 1)" by (simp add: CbitTotal_def)
  show ?thesis
  proof (cases "0 \<le> CbitTotal pc (hd pc)")
    case True
    then have "chars7 pc = CbitTotal pc (hd pc) div 7"
      by (cases "CbitTotal pc (hd pc) = 0") (simp_all add: chars7_def signed_divide_int_def)
    moreover have "1 \<le> length pc" using assms by (cases pc) auto
    ultimately show ?thesis using t True by (simp add: of_nat_diff nat_le_iff)
  next
    case False
    then have "chars7 pc \<le> 0" by (simp add: chars7_def signed_divide_int_def)
    then show ?thesis by simp
  qed
qed

lemma decompress_ascii:
  assumes "pc \<noteq> []" "cbDataMax \<le> int (length pb)"
  shows "ErrDecompress7BitAscii pc (Some pb) cbDataMax =
    Some (if chars7 pc > cbDataMax then JET_wrnBufferTruncated else JET_errSuccess, chars7 pc,
      store_at 0 (map (val7 pc) [0..<nat (min (chars7 pc) cbDataMax)]) pb)"
proof -
  let ?n = "nat (min (chars7 pc) cbDataMax)"
  have "7 * ?n \<le> 7 * nat (chars7 pc)" by (intro mult_le_mono2 nat_mono) simp
  then have "7 * (0 + ?n) \<le> 8 * (length pc - 1)" using chars7_bits [OF assms(1)] by simp
  then have "AsciiUnpack ?n pc (1, 0) 0 pb = Some (store_at 0 (map (val7 pc) [0..<?n]) pb)"
    using AsciiUnpack_spec [of 0 ?n pc 0 pb] assms(2) by simp
  moreover have "get_at 0 pc = Some (hd pc)" using assms(1) by (simp add: get_at_def hd_conv_nth)
  moreover have "store_at 0 [] pb = pb" by (simp add: store_at_def)
  ultimately show ?thesis
    by (simp add: ErrDecompress7BitAscii_def Let_def flip: chars7_def)
qed

lemma decompress_unicode:
  assumes "pc \<noteq> []" "cbDataMax \<le> int (length pb)"
  shows "ErrDecompress7BitUnicode pc (Some pb) cbDataMax =
    Some (if chars7 pc * 2 > cbDataMax then JET_wrnBufferTruncated else JET_errSuccess, chars7 pc * 2,
      store_at 0 (wide (nat (min (chars7 pc * 2) cbDataMax)) pc 0) pb)"
proof -
  let ?n = "nat (min (chars7 pc * 2) cbDataMax)"
  have "7 * ((?n + 1) div 2) \<le> 7 * nat (chars7 pc)" by (intro mult_le_mono2) linarith
  then have "7 * (0 + (?n + 1) div 2) \<le> 8 * (length pc - 1)" using chars7_bits [OF assms(1)] by simp
  then have "UnicodeUnpack ?n pc (1, 0) 0 pb = Some (store_at 0 (wide ?n pc 0) pb)"
    using UnicodeUnpack_spec [of 0 ?n pc 0 pb] assms(2) by simp
  moreover have "get_at 0 pc = Some (hd pc)" using assms(1) by (simp add: get_at_def hd_conv_nth)
  moreover have "store_at 0 [] pb = pb" by (simp add: store_at_def)
  ultimately show ?thesis
    by (simp add: ErrDecompress7BitUnicode_def Let_def wide_simps flip: chars7_def)
qed

lemma header7_fields: "drop_bit 3 (header7 c n) = bScheme c" "uint (header7 c n AND 7) = int ((7 * n + 7) mod 8)"
proof -
  define r where "r = (7 * n + 7) mod 8"
  have "r < 8" by (simp add: r_def)
  then consider "r = 0" | "r = 1" | "r = 2" | "r = 3" | "r = 4" | "r = 5" | "r = 6" | "r = 7" by linarith
  then have "drop_bit 3 (header7 c n) = bScheme c \<and> uint (header7 c n AND 7) = int r"
    unfolding header7_def r_def [symmetric] by cases (cases c; simp)+
  then show "drop_bit 3 (header7 c n) = bScheme c" "uint (header7 c n AND 7) = int ((7 * n + 7) mod 8)"
    by (simp_all add: r_def)
qed

lemma chars7_packed: "chars7 (header7 c (length ds) # pack7 ds) = int (length ds)"
proof -
  have "8 * ((7 * length ds + 7) div 8) + (7 * length ds + 7) mod 8 = 7 * length ds + 7" by simp
  then have "8 * int ((7 * length ds + 7) div 8) + int ((7 * length ds + 7) mod 8) = 7 * int (length ds) + 7" by linarith
  then have "CbitTotal (header7 c (length ds) # pack7 ds) (header7 c (length ds)) = 7 * int (length ds)"
    by (simp add: CbitTotal_def header7_fields)
  then show ?thesis by (cases "length ds = 0") (simp_all add: chars7_def signed_divide_int_def)
qed

lemma unpack_packed: "ascii7 ds \<Longrightarrow> map (val7 (h # pack7 ds)) [0..<length ds] = ds"
  by (rule nth_equalityI) (simp_all add: val7_pack7)

lemma wide_packed:
  assumes "ascii7 (low_bytes data)" "even (length data)" "\<forall>i < length data. odd i \<longrightarrow> data ! i = 0"
  shows "wide (length data) (h # pack7 (low_bytes data)) 0 = data"
proof (rule nth_equalityI)
  fix i assume "i < length (wide (length data) (h # pack7 (low_bytes data)) 0)"
  then have i: "i < length data" by simp
  then have "even i \<Longrightarrow> i div 2 < length (low_bytes data)" using assms(2) by auto
  then have "even i \<Longrightarrow> val7 (h # pack7 (low_bytes data)) (i div 2) = data ! i"
    using val7_pack7 [OF assms(1)] by (simp add: low_bytes_def)
  then show "wide (length data) (h # pack7 (low_bytes data)) 0 ! i = data ! i"
    using i assms(3) by (simp add: wide_def)
qed simp

end
