(* ===== verification/Seven_Bit_Scheme.thy ===== *)
theory Seven_Bit_Scheme
  imports Seven_Bit_Pack
begin

text \<open>
  \<open>Calculate7BitCompressionScheme_\<close> against a test of one byte at a time: the unrolled loop over
  \<open>DWORD\<close>s, entered in the middle, and the loop over the last bytes see every byte once.
\<close>

definition unicode_byte :: "u8 list \<Rightarrow> nat \<Rightarrow> bool" where
  "unicode_byte pb i = (if even i then pb ! i < 0x80 else pb ! i = 0)"

definition unicode7 :: "u8 list \<Rightarrow> bool" where
  "unicode7 pb \<longleftrightarrow> even (length pb) \<and> list_all (unicode_byte pb) [0..<length pb]"

definition scheme_spec :: "u8 list \<Rightarrow> bool \<Rightarrow> COMPRESSION_SCHEME" where
  "scheme_spec pb fUnicodeOnly =
     (if unicode7 pb then
        if CbCompressed7BitUnicode (int (length pb)) < int (length pb) then COMPRESS_7BITUNICODE else COMPRESS_NONE
      else if \<not> fUnicodeOnly \<and> ascii7 pb \<and> CbCompressed7BitAscii (int (length pb)) < int (length pb)
        then COMPRESS_7BITASCII else COMPRESS_NONE)"

definition dw_in :: "u32 \<Rightarrow> u8 list \<Rightarrow> nat \<Rightarrow> bool" where
  "dw_in m pb k \<longleftrightarrow> load_dw pb (4 * k) AND NOT m = 0"

lemma SchemeSteps_all:
  "SchemeSteps n m pb (i, f) =
    (if \<forall>k \<in> {i..<i + n}. dw_in m pb k then Some (i + n, f \<and> (\<forall>k \<in> {i..<i + n}. dw_in 0x007f007f pb k)) else None)"
proof (induction n arbitrary: i f)
  case (Suc n)
  have s: "{i..<i + Suc n} = insert i {i + 1..<i + 1 + n}" by auto
  show ?case unfolding s
    by (simp add: SchemeStep_def Let_def Suc.IH dw_in_def)
qed simp

lemma SchemeWhile_all:
  "(cdw - i) mod 8 = 0 \<Longrightarrow> i \<le> cdw \<Longrightarrow> SchemeWhile cdw m pb (i, f) = SchemeSteps (cdw - i) m pb (i, f)"
proof (induction "cdw - i" arbitrary: i f rule: less_induct)
  case less
  show ?case
  proof (cases "i < cdw")
    case False
    then show ?thesis using less.prems by (simp add: SchemeWhile.simps)
  next
    case True
    then have i8: "i + 8 \<le> cdw" "(cdw - (i + 8)) mod 8 = 0"
    proof -
      obtain t where t: "cdw - i = 8 * t" using less.prems(1) by (metis mod_0_imp_dvd dvd_def)
      then obtain u where "t = Suc u" using True by (cases t) auto
      then have "cdw = i + 8 + 8 * u" using t True by simp
      then show "i + 8 \<le> cdw" "(cdw - (i + 8)) mod 8 = 0" by simp_all
    qed
    have IH: "SchemeWhile cdw m pb (i + 8, f') = SchemeSteps (cdw - (i + 8)) m pb (i + 8, f')" for f'
      using True i8 by (intro less.hyps) simp_all
    have s: "{i..<cdw} = {i..<i + 8} \<union> {i + 8..<cdw}" using i8 by auto
    have e: "i + (cdw - i) = cdw" "i + 8 + (cdw - (i + 8)) = cdw" using i8 by simp_all
    show ?thesis
      unfolding SchemeWhile.simps [of cdw m pb "(i, f)"] SchemeSteps_all [of 8] SchemeSteps_all [of "cdw - i"] e s
      using True by (auto simp: IH SchemeSteps_all e simp del: atLeastLessThan_iff)
  qed
qed

lemma Scheme_duff:
  "Option.bind (SchemeSteps (cdw mod 8) m pb (0, f)) (SchemeWhile cdw m pb) = SchemeSteps cdw m pb (0, f)"
proof -
  let ?r = "cdw mod 8"
  have w: "SchemeWhile cdw m pb (?r, f') = SchemeSteps (cdw - ?r) m pb (?r, f')" for f'
    by (rule SchemeWhile_all) (simp_all flip: minus_mod_eq_mult_div)
  have s: "{0..<cdw} = {0..<?r} \<union> {?r..<cdw}" using mod_less_eq_dividend [of cdw 8] by auto
  show ?thesis
    unfolding SchemeSteps_all [of ?r] SchemeSteps_all [of cdw] add_0 s
    by (auto simp: w SchemeSteps_all simp del: atLeastLessThan_iff)
qed

subsection \<open>A DWORD is four bytes\<close>

lemma bit_masks: "j < 32 \<Longrightarrow> bit (0x7f7f7f7f :: u32) j = (j mod 8 \<noteq> 7)" "j < 32 \<Longrightarrow> bit (0x007f007f :: u32) j = (j mod 16 < 7)"
proof -
  have "list_all (\<lambda>j. bit (0x7f7f7f7f :: u32) j = (j mod 8 \<noteq> 7) \<and> bit (0x007f007f :: u32) j = (j mod 16 < 7)) [0..<32]"
    by (simp add: upt_rec)
  then show "j < 32 \<Longrightarrow> bit (0x7f7f7f7f :: u32) j = (j mod 8 \<noteq> 7)" "j < 32 \<Longrightarrow> bit (0x007f007f :: u32) j = (j mod 16 < 7)"
    by (simp_all add: list_all_length)
qed

lemma dw_in_bits:
  assumes "4 * k + 3 < length pb"
  shows "dw_in m pb k \<longleftrightarrow> (\<forall>d < 4. \<forall>j < 8. bit (pb ! (4 * k + d)) j \<longrightarrow> bit m (8 * d + j))"
proof -
  have "dw_in m pb k \<longleftrightarrow> (\<forall>j < 32. bit (load_dw pb (4 * k)) j \<longrightarrow> bit m j)"
    unfolding dw_in_def by (auto simp: bit_eq_iff [where 'a = u32] bit_and_iff bit_not_iff)
  also have "\<dots> \<longleftrightarrow> (\<forall>j < 32. bit (pb ! (4 * k + j div 8)) (j mod 8) \<longrightarrow> bit m j)"
    using assms by (simp add: bit_load_dw)
  also have "\<dots> \<longleftrightarrow> (\<forall>d < 4. \<forall>j < 8. bit (pb ! (4 * k + d)) j \<longrightarrow> bit m (8 * d + j))"
  proof safe
    fix d j :: nat
    assume a: "\<forall>j < 32. bit (pb ! (4 * k + j div 8)) (j mod 8) \<longrightarrow> bit m j" "d < 4" "j < 8" "bit (pb ! (4 * k + d)) j"
    then show "bit m (8 * d + j)" using a(1) [rule_format, of "8 * d + j"] by simp
  next
    fix j :: nat
    assume a: "\<forall>d < 4. \<forall>j < 8. bit (pb ! (4 * k + d)) j \<longrightarrow> bit m (8 * d + j)" "j < 32" "bit (pb ! (4 * k + j div 8)) (j mod 8)"
    then show "bit m j" using a(1) [rule_format, of "j div 8" "j mod 8"] by simp
  qed
  finally show ?thesis .
qed

lemma u8_zero: "(b = 0) = (\<forall>j < 8. \<not> bit b j)" for b :: u8
  by (auto intro: u8_eqI)

lemma dw_in_ascii: "4 * k + 3 < length pb \<Longrightarrow> dw_in 0x7f7f7f7f pb k \<longleftrightarrow> (\<forall>d < 4. pb ! (4 * k + d) < 0x80)"
  by (auto simp: dw_in_bits bit_masks u8_top less_Suc_eq numeral_eq_Suc)

lemma dw_in_unicode: "4 * k + 3 < length pb \<Longrightarrow> dw_in 0x007f007f pb k \<longleftrightarrow> (\<forall>d < 4. unicode_byte pb (4 * k + d))"
proof -
  assume a: "4 * k + 3 < length pb"
  have m: "bit (0x007f007f :: u32) (8 * d + j) = (even d \<and> j \<noteq> 7)" if "d < 4" "j < 8" for d j
  proof -
    have "(8 * d + j) mod 16 = (if even d then j else 8 + j)"
    proof -
      have "d = 0 \<or> d = 1 \<or> d = 2 \<or> d = 3" using that(1) by linarith
      then show ?thesis using that(2) mod_mult_self3 [of 1 16 "8 + j"] by auto
    qed
    then show ?thesis using bit_masks(2) [of "8 * d + j"] that by auto
  qed
  have "(\<forall>j < 8. bit (pb ! (4 * k + d)) j \<longrightarrow> bit (0x007f007f :: u32) (8 * d + j)) = unicode_byte pb (4 * k + d)" if "d < 4" for d
    using m that by (cases "even d") (auto simp: unicode_byte_def u8_top u8_zero dest: spec [of _ 7])
  then show ?thesis unfolding dw_in_bits [OF a] by simp
qed

lemma SchemeTail_all:
  "SchemeTail pb ibs f = (if \<forall>ib \<in> set ibs. pb ! ib < 0x80
     then Some (f \<and> (\<forall>ib \<in> set ibs. even ib \<longrightarrow> load_w pb ib \<le> 0x7f)) else None)"
proof (induction ibs arbitrary: f)
  case (Cons ib ibs)
  have "(pb ! ib > 0x7f) = (\<not> pb ! ib < 0x80)" by (simp add: word_less_nat_alt) linarith
  then show ?case by (auto simp: Cons.IH even_iff_mod_2_eq_zero)
qed simp

lemma load_w_small:
  assumes "even ib"
  shows "(load_w pb ib \<le> 0x7f) = (unicode_byte pb ib \<and> unicode_byte pb (ib + 1))"
proof -
  let ?a = "pb ! ib" and ?b = "pb ! (ib + 1)"
  have "uint (load_w pb ib) = uint ?a + 256 * uint ?b"
  proof -
    have "load_w pb ib = (ucast ?a :: u16) + push_bit 8 (ucast ?b)"
      unfolding load_w_def
      by (rule disjunctive_add_eq_or [symmetric], rule bit_word_eqI)
        (auto simp: bit_and_iff bit_ucast_iff bit_push_bit_iff dest: bit_imp_le_length)
    then show ?thesis using uint_lt2p [of ?a] uint_lt2p [of ?b]
      by (simp add: push_bit_eq_mult uint_word_ariths unsigned_ucast_eq take_bit_int_eq_self mod_pos_pos_trivial)
  qed
  moreover have "(x + 256 * y \<le> 127) = (x < 128 \<and> y = 0)" if "0 \<le> x" "0 \<le> y" for x y :: int
    using that by auto
  ultimately show ?thesis using assms
    by (simp add: unicode_byte_def word_le_def word_less_def word_uint_eq_iff)
qed

subsection \<open>All bytes, four at a time and one at a time\<close>

lemma dwords_bytes: "(\<forall>k < n. \<forall>d < 4. P (4 * k + d)) \<longleftrightarrow> (\<forall>i < 4 * n. P i)" for n :: nat
proof safe
  fix i assume "\<forall>k < n. \<forall>d < 4. P (4 * k + d)" "i < 4 * n"
  then show "P i" by (metis div_mult_mod_eq mult.commute less_mult_imp_div_less mod_less_divisor zero_less_numeral)
qed auto

lemma pairs: "(\<forall>i. 4 * n \<le> i \<and> i < L \<and> even i \<longrightarrow> P i \<and> P (i + 1)) \<longleftrightarrow> (\<forall>i. 4 * n \<le> i \<and> i < L \<longrightarrow> P i)"
  if "even L" for n L :: nat
proof safe
  fix i assume a: "\<forall>i. 4 * n \<le> i \<and> i < L \<and> even i \<longrightarrow> P i \<and> P (i + 1)" "4 * n \<le> i" "i < L"
  show "P i"
  proof (cases "even i")
    case False
    then have "4 * n \<le> i - 1" "even (i - 1)" "i - 1 + 1 = i" using a(2) by (cases "i = 4 * n"; auto)+
    then show ?thesis using a(1) [rule_format, of "i - 1"] a(3) by simp
  qed (use a in blast)
next
  fix i assume a: "\<forall>i. 4 * n \<le> i \<and> i < L \<longrightarrow> P i" "4 * n \<le> i" "i < L" "even i"
  then have "i + 1 < L" using that by (metis add.commute dvd_add_times_triv_left_iff even_plus_one_iff less_iff_succ_less_eq linorder_neqE_nat not_less_eq Suc_eq_plus1)
  then show "P i" "P (i + 1)" using a by simp_all
qed

lemma split_bytes: "(\<forall>i < 4 * n. P i) \<and> (\<forall>i. 4 * n \<le> i \<and> i < L \<longrightarrow> P i) \<longleftrightarrow> (\<forall>i < L. P i)" if "4 * n \<le> L" for n L :: nat
  using that by (meson leI order_less_le_trans)

theorem Calculate_spec: "Calculate7BitCompressionScheme pb fUnicodeOnly = scheme_spec pb fUnicodeOnly"
proof -
  let ?L = "length pb" and ?n = "length pb div 4"
  have n: "4 * ?n \<le> ?L" by simp
  have k: "4 * k + 3 < ?L" if "k < ?n" for k using that by linarith
  let ?A = "\<lambda>i. pb ! i < 0x80" and ?U = "unicode_byte pb"
  have UA: "?U i \<Longrightarrow> ?A i" for i by (auto simp: unicode_byte_def split: if_splits)
  have dA: "(\<forall>k < ?n. dw_in 0x7f7f7f7f pb k) = (\<forall>i < 4 * ?n. ?A i)"
    using k dw_in_ascii [of _ pb] dwords_bytes [of ?n ?A] by auto
  have dU: "(\<forall>k < ?n. dw_in 0x007f007f pb k) = (\<forall>i < 4 * ?n. ?U i)"
    using k dw_in_unicode [of _ pb] dwords_bytes [of ?n ?U] by auto
  define hA where "hA \<longleftrightarrow> (\<forall>i < 4 * ?n. ?A i)"
  define hU where "hU \<longleftrightarrow> (\<forall>i < 4 * ?n. ?U i)"
  define tA where "tA \<longleftrightarrow> (\<forall>i. 4 * ?n \<le> i \<and> i < ?L \<longrightarrow> ?A i)"
  define tU where "tU \<longleftrightarrow> (\<forall>i. 4 * ?n \<le> i \<and> i < ?L \<longrightarrow> ?U i)"
  have steps: "SchemeSteps ?n (if uo then 0x007f007f else 0x7f7f7f7f) pb (0, f) =
      (if (if uo then hU else hA) then Some (?n, f \<and> hU) else None)" for uo f
    using dU dA by (auto simp: SchemeSteps_all Ball_def hA_def hU_def)
  have tail: "SchemeTail pb [4 * ?n..<?L] f = (if tA then Some (f \<and> tU) else None)" if "f \<longrightarrow> even ?L" for f
    using that pairs [of ?L ?n ?U] by (auto simp: SchemeTail_all load_w_small tA_def tU_def)
  have A: "ascii7 pb \<longleftrightarrow> hA \<and> tA"
    unfolding hA_def tA_def split_bytes [OF n] by (simp add: ascii7_def list_all_length)
  have U: "unicode7 pb \<longleftrightarrow> even ?L \<and> hU \<and> tU"
    unfolding hU_def tU_def split_bytes [OF n] by (simp add: unicode7_def list_all_length)
  have "hU \<Longrightarrow> hA" "tU \<Longrightarrow> tA" using UA by (simp_all add: hU_def hA_def tU_def tA_def)
  moreover have "even ?L = (?L mod 2 = 0)" by (simp add: even_iff_mod_2_eq_zero)
  ultimately show ?thesis
    unfolding Calculate7BitCompressionScheme_def Scheme_duff scheme_spec_def Let_def A U steps
    by (cases fUnicodeOnly; cases "even ?L"; cases hU; cases hA; simp add: tail)
qed

end
