(* ===== verification/Data_Compress.thy ===== *)
theory Data_Compress
  imports Seven_Bit_Codec Seven_Bit_Scheme
begin

text \<open>
  \<open>CDataCompressor::ErrCompress\<close> and \<open>ErrDecompress\<close>: Xpress first, when it is asked for, then the
  7-bit formats, and the dispatch on the signature of compressed data.  The Xpress library is not part
  of the repository (\<open>xpress.h\<close>): its functions are the fields of \<open>xpress_lib\<close>.  The statistics the
  routines collect are left out.
\<close>

subsection \<open>The Xpress library\<close>

text \<open>
  Whether an encoder and a decoder can be opened, and the calls: \<open>XpressEncode\<close> takes the data and the
  room in the output buffer and returns its result and the bytes it writes, \<open>XpressDecode\<close> takes the
  compressed bytes, the original size and the number of bytes wanted.
\<close>

record xpress_lib =
  xl_encoder :: bool
  xl_decoder :: bool
  XpressEncode :: "u8 list \<Rightarrow> int \<Rightarrow> int \<times> u8 list"
  XpressDecode :: "u8 list \<Rightarrow> int \<Rightarrow> int \<Rightarrow> int \<times> u8 list"

text \<open>
  What \<open>xpress.h\<close> documents: the encoder writes inside the buffer and returns the compressed size or 0;
  the decoder, given the compressed bytes and the original size, returns the leading bytes wanted.
\<close>

definition xpress_ok :: "xpress_lib \<Rightarrow> bool" where
  "xpress_ok X \<longleftrightarrow> xl_decoder X \<and>
     (\<forall>data cap n bs. XpressEncode X data cap = (n, bs) \<longrightarrow>
        0 \<le> n \<and> n \<le> int (length bs) \<and> int (length bs) \<le> max 0 cap \<and>
        (\<forall>want. 0 < n \<and> want \<le> length data \<longrightarrow>
           XpressDecode X (take (nat n) bs) (int (length data)) (int want) = (int want, take want data)))"

definition ErrXpressEncodeOpen :: "xpress_lib \<Rightarrow> ERR" where
  "ErrXpressEncodeOpen X = (if xl_encoder X then JET_errSuccess else JET_errOutOfMemory)"

definition ErrXpressDecodeOpen :: "xpress_lib \<Rightarrow> ERR" where
  "ErrXpressDecodeOpen X = (if xl_decoder X then JET_errSuccess else JET_errOutOfMemory)"

subsection \<open>Xpress data\<close>

definition ErrCompressXpress :: "xpress_lib \<Rightarrow> u8 list \<Rightarrow> u8 list \<Rightarrow> int \<Rightarrow> int \<Rightarrow> outcome option" where
  "ErrCompressXpress X data pb cbDataCompressedMax cbActual =
     (if ErrXpressEncodeOpen X < JET_errSuccess then Some (ErrXpressEncodeOpen X, cbActual, pb)
      else
        let cbReserved = 3;
            (cbCompressed, bs) = XpressEncode X data (cbDataCompressedMax - cbReserved)
        in Option.bind (if bs = [] then Some pb else put_at 3 bs pb) (\<lambda>pb.
           if cbCompressed = 0 \<or> cbCompressed + cbReserved \<ge> int (length data) then Some (errRECCannotCompress, cbActual, pb)
           else Option.bind (put_at 0 [push_bit 3 (bScheme COMPRESS_XPRESS)] pb) (\<lambda>pb.
                map_option (\<lambda>pb. (JET_errSuccess, cbCompressed + cbReserved, pb))
                  (put_at 1 (bytes_of 2 (of_nat (length data) :: u16)) pb))))"

definition ErrDecompressXpress :: "xpress_lib \<Rightarrow> u8 list \<Rightarrow> u8 list option \<Rightarrow> int \<Rightarrow> outcome option" where
  "ErrDecompressXpress X pc pbData cbDataMax =
     (if length pc < 3 then None
      else
        let cbUncompressed = uint (load_w pc 1); cbWanted = min cbUncompressed cbDataMax
        in case pbData of
             None \<Rightarrow> Some (JET_wrnBufferTruncated, cbUncompressed, [])
           | Some pb \<Rightarrow>
               if cbDataMax = 0 then Some (JET_wrnBufferTruncated, cbUncompressed, pb)
               else if ErrXpressDecodeOpen X < JET_errSuccess then Some (ErrXpressDecodeOpen X, cbUncompressed, pb)
               else
                 let (cbDecoded, bs) = XpressDecode X (drop 3 pc) cbUncompressed cbWanted
                 in map_option (\<lambda>pb.
                      (if cbDecoded = -1 then JET_errDecompressionFailed
                       else if cbUncompressed > cbDataMax then JET_wrnBufferTruncated else JET_errSuccess,
                       cbUncompressed, pb)) (put_at 0 bs pb))"

subsection \<open>Scrubbed data\<close>

definition ErrScrub :: "u8 list \<Rightarrow> u8 \<Rightarrow> u8 list option" where
  "ErrScrub data chScrub =
     map_option (\<lambda>pb. hd pb # replicate (length data - 1) chScrub) (put_at 0 [push_bit 3 (bScheme COMPRESS_SCRUB)] data)"

definition ErrDecompressScrub :: "u8 list \<Rightarrow> ERR" where
  "ErrDecompressScrub data = wrnRECCompressionScrubDetected"

subsection \<open>Dispatch\<close>

text \<open>The block of the advanced algorithms: the error, \<open>fCompressed\<close>, the size and the buffer.\<close>

definition TryXpress :: "xpress_lib \<Rightarrow> int \<Rightarrow> u8 list \<Rightarrow> u32 \<Rightarrow> u8 list \<Rightarrow> int \<Rightarrow> int \<Rightarrow> (ERR \<times> bool \<times> int \<times> u8 list) option" where
  "TryXpress X cbMin data compressFlags pb cbDataCompressedMax cbActual =
     (if int (length data) \<ge> cbMin \<and> compressFlags AND compressXpress \<noteq> 0
      then map_option (\<lambda>(err, cbActual, pb). (err, err \<ge> 0, cbActual, pb))
             (ErrCompressXpress X data pb cbDataCompressedMax cbActual)
      else Some (JET_errSuccess, False, cbActual, pb))"

definition ErrCompress :: "xpress_lib \<Rightarrow> int \<Rightarrow> u8 list \<Rightarrow> u32 \<Rightarrow> u8 list \<Rightarrow> int \<Rightarrow> int \<Rightarrow> outcome option" where
  "ErrCompress X cbMin data compressFlags pb cbDataCompressedMax cbActual =
     Option.bind (TryXpress X cbMin data compressFlags pb cbDataCompressedMax cbActual) (\<lambda>(err, fCompressed, cbActual, pb).
     let last = Some (if fCompressed then JET_errSuccess else errRECCannotCompress, cbActual, pb) in
     if fCompressed \<and> cbActual \<le> CbCompressed7BitUnicode (int (length data)) then Some (JET_errSuccess, cbActual, pb)
     else if err \<noteq> JET_errSuccess \<and> err \<noteq> errRECCannotCompress \<and> err \<noteq> JET_errOutOfMemory then Some (err, cbActual, pb)
     else if compressFlags AND compress7Bit \<noteq> 0 then
       (case Calculate7BitCompressionScheme data fCompressed of
          COMPRESS_7BITASCII \<Rightarrow> ErrCompress7BitAscii data pb cbDataCompressedMax
        | COMPRESS_7BITUNICODE \<Rightarrow> ErrCompress7BitUnicode data pb cbDataCompressedMax
        | _ \<Rightarrow> last)
     else last)"

definition ErrDecompress :: "xpress_lib \<Rightarrow> u8 list \<Rightarrow> u8 list option \<Rightarrow> int \<Rightarrow> outcome option" where
  "ErrDecompress X pc pbData cbDataMax =
     Option.bind (get_at 0 pc) (\<lambda>bHeader.
     let bIdentifier = drop_bit 3 bHeader; none = case_option [] id pbData in
     if bIdentifier = bScheme COMPRESS_7BITASCII then ErrDecompress7BitAscii pc pbData cbDataMax
     else if bIdentifier = bScheme COMPRESS_7BITUNICODE then ErrDecompress7BitUnicode pc pbData cbDataMax
     else if bIdentifier = bScheme COMPRESS_XPRESS then ErrDecompressXpress X pc pbData cbDataMax
     else if bIdentifier = bScheme COMPRESS_SCRUB then Some (ErrDecompressScrub pc, 0, none)
     else Some (JET_errDecompressionFailed, 0, none))"

end
