(* ===== verification/Data_Compress_Props.thy ===== *)
theory Data_Compress_Props
  imports Data_Compress
begin

text \<open>
  What \<open>ErrCompress\<close> stores, \<open>ErrDecompress\<close> gives back; neither leaves its buffers, whatever the data.
\<close>

text \<open>Decompressing \<open>pc\<close> into any buffer with room gives \<open>data\<close> and leaves the rest of the buffer.\<close>

definition decodes_to :: "xpress_lib \<Rightarrow> u8 list \<Rightarrow> u8 list \<Rightarrow> bool" where
  "decodes_to X pc data \<longleftrightarrow> (\<forall>out. length data \<le> length out \<longrightarrow>
     ErrDecompress X pc (Some out) (int (length out)) = Some (JET_errSuccess, int (length data), data @ drop (length data) out))"

named_theorems err_codes
declare JET_errSuccess_def [err_codes] JET_wrnBufferTruncated_def [err_codes] JET_errOutOfMemory_def [err_codes]
  JET_errBufferTooSmall_def [err_codes] JET_errDecompressionFailed_def [err_codes] errRECCannotCompress_def [err_codes]
  wrnRECCompressionScrubDetected_def [err_codes]

lemma ErrDecompress_header:
  "ErrDecompress X (header7 COMPRESS_7BITASCII n # pc) pbData m = ErrDecompress7BitAscii (header7 COMPRESS_7BITASCII n # pc) pbData m"
  "ErrDecompress X (header7 COMPRESS_7BITUNICODE n # pc) pbData m = ErrDecompress7BitUnicode (header7 COMPRESS_7BITUNICODE n # pc) pbData m"
  by (simp_all add: ErrDecompress_def get_at_def header7_fields)

lemma store_at_0: "store_at 0 bs pb = bs @ drop (length bs) pb"
  by (simp add: store_at_def)

lemma ascii_decodes:
  assumes "ascii7 data"
  shows "decodes_to X (header7 COMPRESS_7BITASCII (length data) # pack7 data) data"
  unfolding decodes_to_def ErrDecompress_header
  using assms by (simp add: decompress_ascii chars7_packed unpack_packed store_at_0)

lemma unicode7_low:
  assumes "unicode7 data"
  shows "even (length data)" "ascii7 (low_bytes data)" "\<forall>i < length data. odd i \<longrightarrow> data ! i = 0"
  using assms by (auto simp: unicode7_def unicode_byte_def ascii7_def low_bytes_def list_all_length)

lemma unicode_decodes:
  assumes "unicode7 data"
  shows "decodes_to X (header7 COMPRESS_7BITUNICODE (length data div 2) # pack7 (low_bytes data)) data"
proof -
  note u = unicode7_low [OF assms]
  have "chars7 (header7 COMPRESS_7BITUNICODE (length data div 2) # pack7 (low_bytes data)) * 2 = int (length data)"
    using chars7_packed [of COMPRESS_7BITUNICODE "low_bytes data"] u(1) by auto
  then show ?thesis
    unfolding decodes_to_def ErrDecompress_header
    using wide_packed [OF u(2,1,3)] by (simp add: decompress_unicode store_at_0)
qed

lemma xpress_decodes:
  assumes X: "xpress_ok X" and e: "XpressEncode X data cap = (n, bs)" "0 < n" and len: "length data \<le> 65535" "data \<noteq> []"
    and pc: "pc = push_bit 3 (bScheme COMPRESS_XPRESS) # bytes_of 2 (of_nat (length data) :: u16) @ take (nat n) bs"
  shows "decodes_to X pc data"
  unfolding decodes_to_def
proof (intro allI impI)
  fix out :: "u8 list" assume out: "length data \<le> length out"
  let ?w = "of_nat (length data) :: u16"
  have "load_w pc 1 = ?w"
    by (rule bit_word_eqI) (auto simp: pc load_w_def bytes_of_def bit_or_iff bit_ucast_iff bit_push_bit_iff bit_drop_bit_eq
        upt_rec dest: bit_imp_le_length)
  moreover have "uint ?w = int (length data)" using len by (simp add: unsigned_of_nat take_bit_nat_eq_self)
  ultimately have u: "uint (load_w pc 1) = int (length data)" by simp
  have d: "XpressDecode X (drop 3 pc) (int (length data)) (int (length data)) = (int (length data), data)"
    using X e by (auto simp: xpress_ok_def pc)
  have "ErrDecompress X pc (Some out) (int (length out)) = ErrDecompressXpress X pc (Some out) (int (length out))"
    by (simp add: ErrDecompress_def get_at_def pc)
  then show "ErrDecompress X pc (Some out) (int (length out)) = Some (JET_errSuccess, int (length data), data @ drop (length data) out)"
    using X out u d len
    by (auto simp: ErrDecompressXpress_def Let_def pc xpress_ok_def ErrXpressDecodeOpen_def put_at_def store_at_0 err_codes)
qed

text \<open>The outcome of a compression step: success with a smaller block that decodes, or an error.\<close>

definition packed_ok :: "xpress_lib \<Rightarrow> u8 list \<Rightarrow> int \<Rightarrow> outcome \<Rightarrow> bool" where
  "packed_ok X data cbMax = (\<lambda>(err, cb, pb). err = JET_errSuccess \<longrightarrow>
     0 \<le> cb \<and> cb < int (length data) \<and> cb \<le> cbMax \<and> (length data \<le> 65535 \<longrightarrow> decodes_to X (take (nat cb) pb) data))"

lemma compress_xpress:
  assumes X: "xpress_ok X" and buf: "cbMax \<le> int (length pb)"
  shows "\<exists>err cb pb'. ErrCompressXpress X data pb cbMax act = Some (err, cb, pb') \<and> length pb' = length pb \<and>
    packed_ok X data cbMax (err, cb, pb') \<and> err \<in> {JET_errSuccess, errRECCannotCompress, JET_errOutOfMemory}"
proof -
  obtain n bs where e: "XpressEncode X data (cbMax - 3) = (n, bs)" by fastforce
  then have b: "0 \<le> n" "n \<le> int (length bs)" "int (length bs) \<le> max 0 (cbMax - 3)"
    using X by (auto simp: xpress_ok_def)
  define pb1 where "pb1 = (if bs = [] then pb else store_at 3 bs pb)"
  have p: "(if bs = [] then Some pb else put_at 3 bs pb) = Some pb1"
    using b buf by (cases bs) (auto simp: put_at_def pb1_def)
  have l: "length pb1 = length pb" using b buf by (cases bs) (auto simp: pb1_def)
  show ?thesis
  proof (cases "xl_encoder X \<and> \<not> (n = 0 \<or> n + 3 \<ge> int (length data))")
    case False
    then show ?thesis using e p l by (auto simp: ErrCompressXpress_def ErrXpressEncodeOpen_def packed_ok_def Let_def err_codes)
  next
    case True
    then have n: "0 < n" "n + 3 < int (length data)" using b by auto
    then have ne: "bs \<noteq> []" "data \<noteq> []" using b by auto
    have room: "3 + length bs \<le> length pb" using b buf n by auto
    let ?w = "bytes_of 2 (of_nat (length data) :: u16)" and ?h = "push_bit 3 (bScheme COMPRESS_XPRESS)"
    define pb2 where "pb2 = ?h # ?w @ bs @ drop (3 + length bs) pb"
    have "store_at 1 ?w (store_at 0 [?h] pb1) = pb2"
      using ne room by (simp add: pb1_def pb2_def store_at_def)
    then have "Option.bind (put_at 0 [?h] pb1) (put_at 1 ?w) = Some pb2"
      using l room by (simp add: put_at_def)
    then have s: "ErrCompressXpress X data pb cbMax act = Some (JET_errSuccess, n + 3, pb2)"
      using True e p l room by (auto simp: ErrCompressXpress_def ErrXpressEncodeOpen_def Let_def put_at_def err_codes)
    have "take (nat (n + 3)) pb2 = ?h # ?w @ take (nat n) bs"
    proof -
      have "nat (n + 3) = Suc (2 + nat n)" using n by simp
      then show ?thesis using b by (simp add: pb2_def)
    qed
    then have "length data \<le> 65535 \<Longrightarrow> decodes_to X (take (nat (n + 3)) pb2) data"
      using xpress_decodes [OF X e n(1) _ ne(2)] by simp
    moreover have "length pb2 = length pb" using room by (simp add: pb2_def)
    moreover have "n + 3 \<le> cbMax" using b n by auto
    ultimately show ?thesis using s n by (simp add: packed_ok_def)
  qed
qed

lemma compress_ascii_ok:
  assumes "Calculate7BitCompressionScheme data fU = COMPRESS_7BITASCII" "cbMax \<le> int (length pb)"
  shows "\<exists>err cb pb'. ErrCompress7BitAscii data pb cbMax = Some (err, cb, pb') \<and> length pb' = length pb \<and>
    packed_ok X data cbMax (err, cb, pb') \<and> err \<in> {JET_errSuccess, JET_errBufferTooSmall}"
proof (cases "CbCompressed7BitAscii (int (length data)) \<le> cbMax")
  case True
  have a: "ascii7 data" "CbCompressed7BitAscii (int (length data)) < int (length data)"
    using assms(1) by (simp_all add: Calculate_spec scheme_spec_def split: if_splits)
  then show ?thesis
    using compress_ascii [OF True assms(2)] True ascii_decodes [OF a(1), of X]
    by (auto simp: packed_ok_def CbCompressed7BitAscii_nat nat_int simp del: of_nat_add of_nat_Suc)
next
  case False
  then show ?thesis by (simp add: ErrCompress7BitAscii_def Let_def packed_ok_def err_codes)
qed

lemma compress_unicode_ok:
  assumes "Calculate7BitCompressionScheme data fU = COMPRESS_7BITUNICODE" "cbMax \<le> int (length pb)"
  shows "\<exists>err cb pb'. ErrCompress7BitUnicode data pb cbMax = Some (err, cb, pb') \<and> length pb' = length pb \<and>
    packed_ok X data cbMax (err, cb, pb') \<and> err \<in> {JET_errSuccess, JET_errBufferTooSmall}"
proof (cases "CbCompressed7BitUnicode (int (length data)) \<le> cbMax")
  case True
  have a: "unicode7 data" "CbCompressed7BitUnicode (int (length data)) < int (length data)"
    using assms(1) by (simp_all add: Calculate_spec scheme_spec_def split: if_splits)
  then show ?thesis
    using compress_unicode [OF True assms(2)] True unicode_decodes [OF a(1), of X]
    by (auto simp: packed_ok_def CbCompressed7BitUnicode_nat nat_int simp del: of_nat_add of_nat_Suc)
next
  case False
  then show ?thesis by (simp add: ErrCompress7BitUnicode_def Let_def packed_ok_def err_codes)
qed

lemma ErrCompress_ok:
  assumes X: "xpress_ok X" and buf: "cbMax \<le> int (length pb)"
  shows "\<exists>err cb pb'. ErrCompress X cbMin data flags pb cbMax act = Some (err, cb, pb') \<and> length pb' = length pb \<and>
    packed_ok X data cbMax (err, cb, pb') \<and> err \<in> {JET_errSuccess, JET_errBufferTooSmall, errRECCannotCompress}"
proof -
  have "\<exists>err cb pb1. TryXpress X cbMin data flags pb cbMax act = Some (err, fC, cb, pb1) \<and> length pb1 = length pb \<and>
      (fC \<longrightarrow> packed_ok X data cbMax (JET_errSuccess, cb, pb1)) \<and> err \<in> {JET_errSuccess, errRECCannotCompress, JET_errOutOfMemory}"
    if "fC = (int (length data) \<ge> cbMin \<and> flags AND compressXpress \<noteq> 0 \<and>
       fst (the (ErrCompressXpress X data pb cbMax act)) = JET_errSuccess)" for fC
    using compress_xpress [OF X buf, of data act] that by (auto simp: TryXpress_def err_codes)
  then obtain err fC cb pb1 where t: "TryXpress X cbMin data flags pb cbMax act = Some (err, fC, cb, pb1)" "length pb1 = length pb"
      "fC \<Longrightarrow> packed_ok X data cbMax (JET_errSuccess, cb, pb1)" "err \<in> {JET_errSuccess, errRECCannotCompress, JET_errOutOfMemory}"
    by blast
  have buf1: "cbMax \<le> int (length pb1)" using buf t(2) by simp
  let ?last = "Some (if fC then JET_errSuccess else errRECCannotCompress, cb, pb1)"
  have last: "\<exists>err cb pb'. ?last = Some (err, cb, pb') \<and> length pb' = length pb \<and>
    packed_ok X data cbMax (err, cb, pb') \<and> err \<in> {JET_errSuccess, JET_errBufferTooSmall, errRECCannotCompress}"
    using t(2,3) by (cases fC) (auto simp: packed_ok_def err_codes)
  let ?r = "if flags AND compress7Bit \<noteq> 0 then
       (case Calculate7BitCompressionScheme data fC of
          COMPRESS_7BITASCII \<Rightarrow> ErrCompress7BitAscii data pb1 cbMax
        | COMPRESS_7BITUNICODE \<Rightarrow> ErrCompress7BitUnicode data pb1 cbMax
        | _ \<Rightarrow> ?last) else ?last"
  have r: "\<exists>err cb pb'. ?r = Some (err, cb, pb') \<and> length pb' = length pb \<and>
    packed_ok X data cbMax (err, cb, pb') \<and> err \<in> {JET_errSuccess, JET_errBufferTooSmall, errRECCannotCompress}"
  proof (cases "Calculate7BitCompressionScheme data fC")
    case COMPRESS_7BITASCII
    then show ?thesis using compress_ascii_ok [OF COMPRESS_7BITASCII buf1, of X] last t(2) by auto
  next
    case COMPRESS_7BITUNICODE
    then show ?thesis using compress_unicode_ok [OF COMPRESS_7BITUNICODE buf1, of X] last t(2) by auto
  qed (use last in simp_all)
  show ?thesis
  proof (cases "fC \<and> cb \<le> CbCompressed7BitUnicode (int (length data))")
    case True
    then show ?thesis using t by (auto simp: ErrCompress_def Let_def)
  next
    case False
    then have "ErrCompress X cbMin data flags pb cbMax act = ?r" using t by (auto simp: ErrCompress_def Let_def)
    then show ?thesis using r by simp
  qed
qed

lemma scrub_detected:
  assumes "data \<noteq> []"
  shows "\<exists>pb. ErrScrub data ch = Some pb \<and> length pb = length data \<and>
    ErrDecompress X pb None 0 = Some (wrnRECCompressionScrubDetected, 0, [])"
  using assms by (cases data) (auto simp: ErrScrub_def put_at_def store_at_def ErrDecompress_def get_at_def ErrDecompressScrub_def)

subsection \<open>A codec and data for the examples\<close>

text \<open>A codec for runs of one byte, which meets the contract of the library.\<close>

definition run_codec :: xpress_lib where
  "run_codec = \<lparr>xl_encoder = True, xl_decoder = True,
     XpressEncode = (\<lambda>data cap. if data \<noteq> [] \<and> list_all ((=) (hd data)) data \<and> 1 \<le> cap then (1, [hd data]) else (0, [])),
     XpressDecode = (\<lambda>bs total want. (want, replicate (nat want) (hd bs)))\<rparr>"

lemma run_codec_ok: "xpress_ok run_codec"
proof -
  have "take n data = replicate n (hd data)" if "list_all ((=) (hd data)) data" "n \<le> length data" for n and data :: "u8 list"
  proof (rule nth_equalityI)
    fix i assume "i < length (take n data)"
    then have i: "i < n" "i < length data" by simp_all
    then have "hd data = data ! i" using that(1) unfolding list_all_length by blast
    then show "take n data ! i = replicate n (hd data) ! i" using i by simp
  qed (use that in simp)
  then show ?thesis by (auto simp: xpress_ok_def run_codec_def)
qed

definition sample_data :: "u8 list" where
  "sample_data = map of_nat [65..<81]"

lemma sample_scheme: "length sample_data = 16" "Calculate7BitCompressionScheme sample_data False = COMPRESS_7BITASCII"
  by (simp_all add: sample_data_def Calculate_spec scheme_spec_def unicode7_def unicode_byte_def ascii7_def
      CbCompressed7BitAscii_def CbCompressed7BitUnicode_def upt_rec)

subsection \<open>The properties\<close>



text \<open>
  Compression stays inside the output buffer and returns one of three outcomes, for any data,
  flags and buffer.
\<close>
theorem compress_safe:
  assumes "xpress_ok X" "cbMax \<le> int (length pb)"
  shows "\<exists>err cb pb'. ErrCompress X cbMin data flags pb cbMax act = Some (err, cb, pb') \<and> length pb' = length pb \<and>
    err \<in> {JET_errSuccess, JET_errBufferTooSmall, errRECCannotCompress}"
  using ErrCompress_ok [OF assms, of cbMin data flags act] by blast

lemma compress_safe_witness:
  "\<exists>err cb pb'. ErrCompress run_codec 0 sample_data compress7Bit [] 0 0 = Some (err, cb, pb') \<and> length pb' = 0 \<and>
    err \<in> {JET_errSuccess, JET_errBufferTooSmall, errRECCannotCompress}"
  using compress_safe [OF run_codec_ok, of 0 "[]" 0 sample_data compress7Bit 0] by simp

text \<open>
  The unrolled loop over \<open>DWORD\<close>s that chooses the format decides what a test of one byte at a time
  decides, and a format is chosen only when it makes the data smaller.
\<close>
theorem scheme_choice: "Calculate7BitCompressionScheme pb fUnicodeOnly = scheme_spec pb fUnicodeOnly"
  by (rule Calculate_spec)

text \<open>
  C29: However many characters the buffer lets the eight-character loop pack, \<open>ErrCompress7BitAscii_\<close>
  writes the same bytes: the header and the low seven bits of each character, one after the other.
\<close>
theorem ascii_packing:
  assumes "CbCompressed7BitAscii (int (length data)) \<le> cbMax" "cbMax \<le> int (length pb)"
  shows "\<exists>pb'. ErrCompress7BitAscii data pb cbMax = Some (JET_errSuccess, CbCompressed7BitAscii (int (length data)), pb') \<and>
    take (1 + (7 * length data + 7) div 8) pb' = header7 COMPRESS_7BITASCII (length data) # pack7 data"
  using compress_ascii [OF assms] by blast

lemma ascii_packing_witness:
  "\<exists>pb'. ErrCompress7BitAscii sample_data (replicate 15 0) 15 = Some (JET_errSuccess, 15, pb') \<and>
    take 15 pb' = header7 COMPRESS_7BITASCII 16 # pack7 sample_data"
  using ascii_packing [of sample_data 15 "replicate 15 0"] by (simp add: sample_scheme CbCompressed7BitAscii_def)

text \<open>
  C30: The 7-bit decompressors are safe on any bytes, also on damaged ones: they read inside the block and
  write inside the buffer, fill it with the leading characters, and report the full size with
  \<open>JET_wrnBufferTruncated\<close> when there is more.
\<close>
theorem decompress_any_bytes:
  assumes "pc \<noteq> []" "cbDataMax \<le> int (length pb)"
  shows "ErrDecompress7BitAscii pc (Some pb) cbDataMax =
      Some (if chars7 pc > cbDataMax then JET_wrnBufferTruncated else JET_errSuccess, chars7 pc,
        store_at 0 (map (val7 pc) [0..<nat (min (chars7 pc) cbDataMax)]) pb) \<and>
    ErrDecompress7BitUnicode pc (Some pb) cbDataMax =
      Some (if chars7 pc * 2 > cbDataMax then JET_wrnBufferTruncated else JET_errSuccess, chars7 pc * 2,
        store_at 0 (wide (nat (min (chars7 pc * 2) cbDataMax)) pc 0) pb)"
  by (intro conjI decompress_ascii decompress_unicode assms)

lemma decompress_any_bytes_witness:
  "ErrDecompress7BitAscii [0x08] (Some [1, 2]) 2 = Some (JET_errSuccess, -1, [1, 2]) \<and>
    ErrDecompress7BitUnicode [0x16, 0x41] (Some [1, 2, 3]) 3 = Some (JET_errSuccess, 2, [0x41, 0, 3])"
  using decompress_any_bytes [of "[0x08]" 2 "[1, 2]"] decompress_any_bytes [of "[0x16, 0x41]" 3 "[1, 2, 3]"]
  by (simp add: chars7_def CbitTotal_def signed_divide_int_def store_at_def wide_def val7_def sbit_def upt_rec)

end
