(* ===== verification/Red_Black.thy ===== *)
theory Red_Black
  imports Main
begin

text \<open>
  The invasive red-black tree of \<open>published/inc/collection.hxx\<close>, a left-leaning one.  A tree is a pointer
  to its root, so the pointer graph is a value: \<open>Null\<close>, or a node with its colour, its children, its key
  and the object it is part of.  Following a null pointer is \<open>None\<close>; that an operation returns \<open>Some\<close>
  says that it never does.  The trees are not shared, so the in-place updates are functions.
\<close>

subsection \<open>Nodes\<close>

datatype RedBlackTreeColor = Red | Black

datatype ('k, 'o) node =
    Null
  | Node (Color: RedBlackTreeColor) (PnodeLeft: "('k, 'o) node") (Key: 'k) (PObject: 'o) (PnodeRight: "('k, 'o) node")

datatype ERR = errSuccess | errOutOfMemory | errEntryNotFound | errDuplicateEntry

fun FIsNonNullAndRed :: "('k, 'o) node \<Rightarrow> bool" where
  "FIsNonNullAndRed Null = False"
| "FIsNonNullAndRed (Node c l k x r) = (c = Red)"

fun FlipColor :: "RedBlackTreeColor \<Rightarrow> RedBlackTreeColor" where
  "FlipColor Red = Black"
| "FlipColor Black = Red"

fun FlipNode :: "('k, 'o) node \<Rightarrow> ('k, 'o) node" where
  "FlipNode Null = Null"
| "FlipNode (Node c l k x r) = Node (FlipColor c) l k x r"

subsection \<open>Rotations and colour flips\<close>

fun RotateLeft :: "('k, 'o) node \<Rightarrow> ('k, 'o) node option" where
  "RotateLeft (Node c l k x (Node c' rl k' x' rr)) = Some (Node c (Node Red l k x rl) k' x' rr)"
| "RotateLeft t = None"

fun RotateRight :: "('k, 'o) node \<Rightarrow> ('k, 'o) node option" where
  "RotateRight (Node c (Node c' ll k' x' lr) k x r) = Some (Node c ll k' x' (Node Red lr k x r))"
| "RotateRight t = None"

fun FlipColors :: "('k, 'o) node \<Rightarrow> ('k, 'o) node option" where
  "FlipColors Null = None"
| "FlipColors (Node c l k x r) = Some (Node (FlipColor c) (FlipNode l) k x (FlipNode r))"

text \<open>The guard of the second rotation: the left child is red, and so is its left child.\<close>

fun FLeftLeftRed :: "('k, 'o) node \<Rightarrow> bool" where
  "FLeftLeftRed (Node c (Node Red ll k' x' lr) k x r) = FIsNonNullAndRed ll"
| "FLeftLeftRed t = False"

definition Fixup :: "('k, 'o) node \<Rightarrow> ('k, 'o) node option" where
  "Fixup t =
     (if t = Null then None
      else
        Option.bind (if FIsNonNullAndRed (PnodeRight t) then RotateLeft t else Some t) (\<lambda>t.
        Option.bind (if FLeftLeftRed t then RotateRight t else Some t) (\<lambda>t.
        if FIsNonNullAndRed (PnodeLeft t) \<and> FIsNonNullAndRed (PnodeRight t) then FlipColors t else Some t)))"

definition MoveRedRight :: "('k, 'o) node \<Rightarrow> ('k, 'o) node option" where
  "MoveRedRight t =
     Option.bind (FlipColors t) (\<lambda>t.
     if PnodeLeft t = Null then None
     else if FIsNonNullAndRed (PnodeLeft (PnodeLeft t)) then Option.bind (RotateRight t) FlipColors
     else Some t)"

definition MoveRedLeft :: "('k, 'o) node \<Rightarrow> ('k, 'o) node option" where
  "MoveRedLeft t =
     Option.bind (FlipColors t) (\<lambda>t.
     case t of Null \<Rightarrow> None
     | Node c l k x r \<Rightarrow>
         if r = Null then None
         else if FIsNonNullAndRed (PnodeLeft r) then
           Option.bind (RotateRight r) (\<lambda>r. Option.bind (RotateLeft (Node c l k x r)) FlipColors)
         else Some t)"

lemma size_FlipNode [simp]: "size (FlipNode t) = size t"
  by (cases t) simp_all

lemma size_RotateLeft: "RotateLeft t = Some t' \<Longrightarrow> size t' = size t"
  by (cases t rule: RotateLeft.cases) auto

lemma size_RotateRight: "RotateRight t = Some t' \<Longrightarrow> size t' = size t"
  by (cases t rule: RotateRight.cases) auto

lemma size_FlipColors: "FlipColors t = Some t' \<Longrightarrow> size t' = size t"
  by (cases t) auto

lemma size_MoveRedRight: "MoveRedRight t = Some t' \<Longrightarrow> size t' = size t"
  by (auto simp: MoveRedRight_def bind_eq_Some_conv dest!: size_RotateRight size_FlipColors split: if_splits)

lemma size_MoveRedLeft: "MoveRedLeft t = Some t' \<Longrightarrow> size t' = size t"
  by (cases t) (auto simp: MoveRedLeft_def bind_eq_Some_conv dest!: size_RotateRight size_RotateLeft size_FlipColors
      split: if_splits)

subsection \<open>Lookup\<close>

fun Find :: "('k::linorder, 'o) node \<Rightarrow> 'k \<Rightarrow> ('k, 'o) node" where
  "Find Null key = Null"
| "Find (Node c l k x r) key = (if key = k then Node c l k x r else if key < k then Find l key else Find r key)"

definition FContainsKey :: "('k::linorder, 'o) node \<Rightarrow> 'k \<Rightarrow> bool" where
  "FContainsKey t key \<longleftrightarrow> Find t key \<noteq> Null"

definition ErrFind :: "('k::linorder, 'o) node \<Rightarrow> 'k \<Rightarrow> ERR \<times> 'o option" where
  "ErrFind t key = (case Find t key of Null \<Rightarrow> (errEntryNotFound, None) | Node c l k x r \<Rightarrow> (errSuccess, Some x))"

fun NearestLoop :: "('k::linorder, 'o) node \<Rightarrow> 'k \<Rightarrow> ('k \<times> 'o) option" where
  "NearestLoop Null key = None"
| "NearestLoop (Node c l k x r) key =
     (if key = k then Some (k, x)
      else if key < k then (if l = Null then Some (k, x) else NearestLoop l key)
      else (if r = Null then Some (k, x) else NearestLoop r key))"

definition ErrFindNearest :: "('k::linorder, 'o) node \<Rightarrow> 'k \<Rightarrow> ERR \<times> ('k \<times> 'o) option" where
  "ErrFindNearest t key =
     (if t = Null then (errEntryNotFound, None) else (errSuccess, NearestLoop t key))"

fun GreaterEqualLoop :: "('k::linorder, 'o) node \<Rightarrow> 'k \<Rightarrow> ('k \<times> 'o) option \<Rightarrow> ('k \<times> 'o) option" where
  "GreaterEqualLoop Null key pnodeMatch = pnodeMatch"
| "GreaterEqualLoop (Node c l k x r) key pnodeMatch =
     (if key = k then Some (k, x)
      else if key < k then GreaterEqualLoop l key (Some (k, x))
      else GreaterEqualLoop r key pnodeMatch)"

definition ErrFindGreaterThanOrEqual :: "('k::linorder, 'o) node \<Rightarrow> 'k \<Rightarrow> ERR \<times> ('k \<times> 'o) option" where
  "ErrFindGreaterThanOrEqual t key =
     (case GreaterEqualLoop t key None of None \<Rightarrow> (errEntryNotFound, None) | Some m \<Rightarrow> (errSuccess, Some m))"

fun PnodeMin :: "('k, 'o) node \<Rightarrow> ('k \<times> 'o) option" where
  "PnodeMin Null = None"
| "PnodeMin (Node c l k x r) = (if l = Null then Some (k, x) else PnodeMin l)"

subsection \<open>Insertion\<close>

fun Insert_node :: "'k::linorder \<Rightarrow> 'o \<Rightarrow> ('k, 'o) node \<Rightarrow> (ERR \<times> ('k, 'o) node) option" where
  "Insert_node key obj Null = Some (errSuccess, Node Red Null key obj Null)"
| "Insert_node key obj (Node c l k x r) =
     Option.bind
       (if key = k then Some (errDuplicateEntry, Node c l k x r)
        else if key < k then map_option (\<lambda>(err, l). (err, Node c l k x r)) (Insert_node key obj l)
        else map_option (\<lambda>(err, r). (err, Node c l k x r)) (Insert_node key obj r))
       (\<lambda>(err, t). map_option (Pair err) (Fixup t))"

definition ErrInsert :: "'k::linorder \<Rightarrow> 'o \<Rightarrow> ('k, 'o) node \<Rightarrow> (ERR \<times> ('k, 'o) node) option" where
  "ErrInsert key pObject m_pnodeRoot = Insert_node key pObject m_pnodeRoot"

subsection \<open>Deletion\<close>

function RemoveMinNode :: "('k, 'o) node \<Rightarrow> ('k, 'o) node option" where
  "RemoveMinNode t =
     (case t of
        Null \<Rightarrow> None
      | Node c l k x r \<Rightarrow>
          (if l = Null then Some Null
           else
             (case (if \<not> FIsNonNullAndRed l \<and> \<not> FIsNonNullAndRed (PnodeLeft l) then MoveRedLeft t else Some t) of
                None \<Rightarrow> None
              | Some Null \<Rightarrow> None
              | Some (Node c l k x r) \<Rightarrow>
                  (case RemoveMinNode l of None \<Rightarrow> None | Some l \<Rightarrow> Fixup (Node c l k x r)))))"
  by pat_completeness auto
termination
  by (relation "measure size") (auto split: if_splits dest!: size_MoveRedLeft)

declare RemoveMinNode.simps [simp del]

text \<open>The result is the new subtree with the key and the object of the node taken out.\<close>

function Delete_node :: "('k::linorder, 'o) node \<Rightarrow> 'k \<Rightarrow> (('k, 'o) node \<times> 'k \<times> 'o) option" where
  "Delete_node t key =
     (case t of
        Null \<Rightarrow> None
      | Node c l k x r \<Rightarrow>
          if key < k then
            (if l = Null then None
             else
               (case (if \<not> FIsNonNullAndRed l \<and> \<not> FIsNonNullAndRed (PnodeLeft l) then MoveRedLeft t else Some t) of
                  None \<Rightarrow> None
                | Some Null \<Rightarrow> None
                | Some (Node c l k x r) \<Rightarrow>
                    (case Delete_node l key of
                       None \<Rightarrow> None
                     | Some (l, del) \<Rightarrow> map_option (\<lambda>t. (t, del)) (Fixup (Node c l k x r)))))
          else
            (case (if FIsNonNullAndRed l then RotateRight t else Some t) of
               None \<Rightarrow> None
             | Some Null \<Rightarrow> None
             | Some (Node c l k x r) \<Rightarrow>
                 if key = k \<and> r = Null then Some (Null, k, x)
                 else if r = Null then None
                 else
                   (case (if \<not> FIsNonNullAndRed r \<and> \<not> FIsNonNullAndRed (PnodeLeft r) then MoveRedRight (Node c l k x r)
                          else Some (Node c l k x r)) of
                      None \<Rightarrow> None
                    | Some Null \<Rightarrow> None
                    | Some (Node c l k x r) \<Rightarrow>
                        if key = k then
                          Option.bind (PnodeMin r) (\<lambda>(kMin, xMin).
                          Option.bind (RemoveMinNode r) (\<lambda>r.
                          map_option (\<lambda>t. (t, k, x)) (Fixup (Node c l kMin xMin r))))
                        else
                          (case Delete_node r key of
                             None \<Rightarrow> None
                           | Some (r, del) \<Rightarrow> map_option (\<lambda>t. (t, del)) (Fixup (Node c l k x r))))))"
  by pat_completeness auto
termination
  by (relation "measure (\<lambda>(t, key). size t)")
    (auto split: if_splits dest!: size_MoveRedLeft size_MoveRedRight size_RotateRight)

declare Delete_node.simps [simp del]

definition ErrDelete :: "'k::linorder \<Rightarrow> ('k, 'o) node \<Rightarrow> (ERR \<times> ('k, 'o) node \<times> 'o option) option" where
  "ErrDelete key m_pnodeRoot =
     (if \<not> FContainsKey m_pnodeRoot key then Some (errEntryNotFound, m_pnodeRoot, None)
      else map_option (\<lambda>(t, k, x). (errSuccess, t, Some x)) (Delete_node m_pnodeRoot key))"

subsection \<open>Merging two trees\<close>

text \<open>\<open>Move\<close>: this tree, which must be empty, takes the root of the other.\<close>

definition Move :: "('k, 'o) node \<Rightarrow> ('k, 'o) node \<Rightarrow> ('k, 'o) node \<times> ('k, 'o) node" where
  "Move this src = (if this \<noteq> Null then (this, src) else (src, Null))"

partial_function (option) MergeLoop ::
  "('k::linorder, 'o) node \<Rightarrow> ('k, 'o) node \<Rightarrow> ('k, 'o) node \<Rightarrow> (('k, 'o) node \<times> ('k, 'o) node \<times> ('k, 'o) node) option" where
  "MergeLoop this src rbtLeftOvers =
     (case src of
        Null \<Rightarrow> Some (this, src, rbtLeftOvers)
      | Node c l keyMove x r \<Rightarrow>
          Option.bind (ErrDelete keyMove src) (\<lambda>(errDel, src, del).
          Option.bind (ErrInsert keyMove x this) (\<lambda>(errMove, this).
          if errMove \<noteq> errSuccess
          then Option.bind (ErrInsert keyMove x rbtLeftOvers) (\<lambda>(errLeftOver, rbtLeftOvers). MergeLoop this src rbtLeftOvers)
          else MergeLoop this src rbtLeftOvers)))"

definition ErrMerge :: "('k::linorder, 'o) node \<Rightarrow> ('k, 'o) node \<Rightarrow> (ERR \<times> ('k, 'o) node \<times> ('k, 'o) node) option" where
  "ErrMerge this src =
     (let (this, src) = (if this = Null then Move this src else (this, src)) in
      Option.bind (MergeLoop this src Null) (\<lambda>(this, src, rbtLeftOvers).
      if rbtLeftOvers \<noteq> Null then Some (errDuplicateEntry, this, fst (Move src rbtLeftOvers))
      else Some (errSuccess, this, src)))"

subsection \<open>The assertions of the code\<close>

fun AssertValid_node :: "('k::linorder, 'o) node \<Rightarrow> bool" where
  "AssertValid_node Null = True"
| "AssertValid_node (Node c l k x r) =
     ((l \<noteq> Null \<longrightarrow> Key l < k) \<and> (r \<noteq> Null \<longrightarrow> Key r > k) \<and>
      (l \<noteq> Null \<and> r \<noteq> Null \<longrightarrow> c = Black \<or> Color l = Black \<or> Color r = Black) \<and>
      (r \<noteq> Null \<and> Color r = Red \<longrightarrow> l \<noteq> Null \<and> Color l = Red))"

fun AssertValid :: "('k::linorder, 'o) node \<Rightarrow> bool" where
  "AssertValid Null = True"
| "AssertValid (Node c l k x r) = (AssertValid_node (Node c l k x r) \<and> AssertValid l \<and> AssertValid r)"

end
