(* ===== verification/Red_Black_Inv.thy ===== *)
theory Red_Black_Inv
  imports Red_Black
begin

text \<open>
  The balance of the left-leaning red-black tree.  The code never looks at the colour of the root, and the
  root may be red: \<open>weak\<close> is the invariant of a whole tree, whatever its root, and \<open>strong\<close> that of a
  proper subtree.  Every operation keeps them and so never follows a null pointer.
\<close>

subsection \<open>Contents and invariants\<close>

fun entries :: "('k, 'o) node \<Rightarrow> ('k \<times> 'o) list" where
  "entries Null = []"
| "entries (Node c l k x r) = entries l @ (k, x) # entries r"

fun bh :: "('k, 'o) node \<Rightarrow> nat" where
  "bh Null = 0"
| "bh (Node c l k x r) = bh l + (if c = Black then 1 else 0)"

fun strong :: "('k, 'o) node \<Rightarrow> bool" where
  "strong Null = True"
| "strong (Node c l k x r) = (strong l \<and> strong r \<and> bh l = bh r \<and> \<not> FIsNonNullAndRed r \<and> (c = Red \<longrightarrow> \<not> FIsNonNullAndRed l))"

fun weak :: "('k, 'o) node \<Rightarrow> bool" where
  "weak Null = True"
| "weak (Node c l k x r) = (strong l \<and> strong r \<and> bh l = bh r \<and> \<not> FIsNonNullAndRed r)"

lemma strong_weak: "strong t \<Longrightarrow> weak t"
  by (cases t) simp_all

lemma not_Red [simp]: "(c \<noteq> Red) = (c = Black)"
  by (cases c) simp_all

lemma not_Black [simp]: "(c \<noteq> Black) = (c = Red)"
  by (cases c) simp_all

lemma redE:
  assumes "FIsNonNullAndRed t"
  obtains l k x r where "t = Node Red l k x r"
  using assms by (cases t) auto

lemma bh_zero: "strong t \<Longrightarrow> bh t = 0 \<Longrightarrow> \<not> FIsNonNullAndRed t \<Longrightarrow> t = Null"
  by (cases t) (auto split: if_splits)

lemma FlipNode_red [simp]: "FIsNonNullAndRed (FlipNode t) = (t \<noteq> Null \<and> \<not> FIsNonNullAndRed t)"
  by (cases t) (auto elim: FlipColor.elims)

lemma FlipNode_Null [simp]: "(FlipNode t = Null) = (t = Null)"
  by (cases t) simp_all

lemma FlipColor_simps [simp]: "FlipColor c = Red \<longleftrightarrow> c = Black" "FlipColor c = Black \<longleftrightarrow> c = Red" "FlipColor (FlipColor c) = c"
  by (cases c; simp)+

lemma entries_FlipNode [simp]: "entries (FlipNode t) = entries t"
  by (cases t) simp_all

lemma weak_FlipNode [simp]: "weak (FlipNode t) = weak t"
  by (cases t) simp_all

lemma FlipNode_FlipNode [simp]: "FlipNode (FlipNode t) = t"
  by (cases t) simp_all

lemma flip_black: "strong t \<Longrightarrow> \<not> FIsNonNullAndRed t \<Longrightarrow> \<not> FIsNonNullAndRed (PnodeLeft t) \<Longrightarrow> t \<noteq> Null \<Longrightarrow>
    strong (FlipNode t) \<and> Suc (bh (FlipNode t)) = bh t"
  by (cases t) auto

lemma flip_red: "strong t \<Longrightarrow> FIsNonNullAndRed t \<Longrightarrow> strong (FlipNode t) \<and> bh (FlipNode t) = Suc (bh t)"
  by (cases t) auto

subsection \<open>Fixup\<close>

lemma Fixup_id: "weak (Node c l k x r) \<Longrightarrow> \<not> FLeftLeftRed (Node c l k x r) \<Longrightarrow> Fixup (Node c l k x r) = Some (Node c l k x r)"
  by (simp add: Fixup_def)

lemma FLeftLeftRed_iff: "FLeftLeftRed (Node c l k x r) \<longleftrightarrow> FIsNonNullAndRed l \<and> FIsNonNullAndRed (PnodeLeft l)"
proof (cases l)
  case (Node c' ll k' x' lr)
  then show ?thesis by (cases c') simp_all
qed simp

lemma LeftLeft_strong: "weak l \<Longrightarrow> FLeftLeftRed (Node c l k x r) \<longleftrightarrow> \<not> strong l"
  by (cases l) (auto simp: FLeftLeftRed_iff)

text \<open>After a change in the left subtree, which may have left it red with a red left child.\<close>

lemma Fixup_left:
  assumes "weak l" "strong r" "\<not> FIsNonNullAndRed r" "bh l = bh r"
  shows "\<exists>t. Fixup (Node c l k x r) = Some t \<and> weak t \<and> (c = Black \<longrightarrow> strong t \<and> bh t = Suc (bh r)) \<and>
    (c = Red \<and> strong l \<longrightarrow> bh t = bh r) \<and> entries t = entries l @ (k, x) # entries r"
proof (cases "strong l")
  case True
  then have "\<not> FLeftLeftRed (Node c l k x r)" using assms by (simp add: LeftLeft_strong)
  then show ?thesis using Fixup_id [of c l k x r] assms True by simp
next
  case False
  then have "FLeftLeftRed (Node c l k x r)" using assms by (simp add: LeftLeft_strong)
  then obtain ll k1 x1 lr k2 x2 l3 r3 where l: "l = Node Red ll k1 x1 lr" "ll = Node Red l3 k2 x2 r3"
    by (cases "Node c l k x r" rule: FLeftLeftRed.cases) (auto elim: redE)
  then show ?thesis using assms by (cases c) (auto simp: Fixup_def)
qed

text \<open>After a change in the right subtree, which may have made it red.\<close>

lemma Fixup_right:
  assumes "strong l" "strong r" "bh l = bh r"
  shows "\<exists>t. Fixup (Node c l k x r) = Some t \<and> weak t \<and> (c = Black \<longrightarrow> strong t \<and> bh t = Suc (bh l)) \<and>
    (c = Red \<and> \<not> FIsNonNullAndRed l \<longrightarrow> bh t = bh l) \<and>
    (c = Red \<and> \<not> FIsNonNullAndRed l \<and> \<not> FIsNonNullAndRed r \<longrightarrow> strong t) \<and>
    (c = Black \<and> \<not> (FIsNonNullAndRed l \<and> FIsNonNullAndRed r) \<longrightarrow> \<not> FIsNonNullAndRed t) \<and>
    entries t = entries l @ (k, x) # entries r"
proof (cases "FIsNonNullAndRed r")
  case False
  then have "\<not> FLeftLeftRed (Node c l k x r)" using assms by (simp add: LeftLeft_strong strong_weak)
  moreover have "weak (Node c l k x r)" using False assms by simp
  ultimately show ?thesis using False Fixup_id [of c l k x r] assms by (cases c) simp_all
next
  case True
  then obtain rl k1 x1 rr where r: "r = Node Red rl k1 x1 rr" by (rule redE)
  show ?thesis
  proof (cases "FIsNonNullAndRed l")
    case True
    then obtain ll k2 x2 lr where l: "l = Node Red ll k2 x2 lr" by (rule redE)
    then show ?thesis using assms r by (cases c) (auto simp: Fixup_def)
  next
    case False
    then have "Fixup (Node c l k x r) = Some (Node c (Node Red l k x rl) k1 x1 rr)"
      using assms r by (auto simp: Fixup_def)
    then show ?thesis using False assms r by auto
  qed
qed

subsection \<open>Insertion\<close>

theorem Insert_inv:
  "weak t \<Longrightarrow> \<exists>err t'. Insert_node key obj t = Some (err, t') \<and> weak t' \<and>
     (strong t \<longrightarrow> bh t' = bh t \<and> (\<not> FIsNonNullAndRed t \<longrightarrow> strong t'))"
proof (induction t)
  case (Node c l k x r)
  have w: "strong l" "strong r" "bh l = bh r" "\<not> FIsNonNullAndRed r" using Node.prems by simp_all
  consider "key = k" | "key < k" | "key \<noteq> k" "\<not> key < k" by blast
  then show ?case
  proof cases
    case 1
    have "\<not> FLeftLeftRed (Node c l k x r)" using w by (simp add: LeftLeft_strong strong_weak)
    then have "Fixup (Node c l k x r) = Some (Node c l k x r)" by (rule Fixup_id [OF Node.prems])
    then have "Insert_node key obj (Node c l k x r) = Some (errDuplicateEntry, Node c l k x r)" using 1 by simp
    then show ?thesis using Node.prems by (cases c) auto
  next
    case 2
    obtain err l' where l': "Insert_node key obj l = Some (err, l')" "weak l'" "bh l' = bh l" "\<not> FIsNonNullAndRed l \<longrightarrow> strong l'"
      using Node.IH(1) [OF strong_weak [OF w(1)]] w(1) by blast
    then show ?thesis using 2 w Fixup_left [of l' r c k x] by (cases c) auto
  next
    case 3
    obtain err r' where r': "Insert_node key obj r = Some (err, r')" "bh r' = bh r" "strong r'"
      using Node.IH(2) [OF strong_weak [OF w(2)]] w(2,4) by blast
    then show ?thesis using 3 w Fixup_right [of l r' c k x] by (cases c) auto
  qed
qed simp

subsection \<open>Contents\<close>

definition bst :: "('k::linorder, 'o) node \<Rightarrow> bool" where
  "bst t \<longleftrightarrow> sorted_wrt (<) (map fst (entries t))"

lemma bst_simps [simp]:
  "bst Null"
  "bst (Node c l k x r) \<longleftrightarrow> bst l \<and> bst r \<and> (\<forall>p \<in> set (entries l). fst p < k) \<and> (\<forall>p \<in> set (entries r). k < fst p)"
  by (auto simp: bst_def sorted_wrt_append) (metis fst_conv less_trans)

lemma bst_entries: "entries t' = entries t \<Longrightarrow> bst t' = bst t"
  by (simp add: bst_def)

lemma entries_RotateLeft: "RotateLeft t = Some t' \<Longrightarrow> entries t' = entries t"
  by (cases t rule: RotateLeft.cases) auto

lemma entries_RotateRight: "RotateRight t = Some t' \<Longrightarrow> entries t' = entries t"
  by (cases t rule: RotateRight.cases) auto

lemma entries_FlipColors: "FlipColors t = Some t' \<Longrightarrow> entries t' = entries t"
  by (cases t) auto

lemma entries_Fixup: "Fixup t = Some t' \<Longrightarrow> entries t' = entries t"
  by (auto simp: Fixup_def bind_eq_Some_conv dest!: entries_RotateLeft entries_RotateRight entries_FlipColors split: if_splits)

lemma Insert_entries:
  "Insert_node key obj t = Some (err, t') \<Longrightarrow> bst t \<Longrightarrow>
    err = (if key \<in> fst ` set (entries t) then errDuplicateEntry else errSuccess) \<and> bst t' \<and>
    set (entries t') = (if key \<in> fst ` set (entries t) then set (entries t) else insert (key, obj) (set (entries t)))"
proof (induction t arbitrary: err t')
  case (Node c l k x r)
  consider "key = k" | "key < k" | "k < key" by (rule linorder_cases)
  then show ?case
  proof cases
    case 1
    then have F: "Fixup (Node c l k x r) = Some t'" "err = errDuplicateEntry" using Node.prems(1) by auto
    then show ?thesis using 1 Node.prems(2) entries_Fixup [OF F(1)] bst_entries [OF entries_Fixup [OF F(1)]] by simp
  next
    case 2
    then obtain l' where l: "Insert_node key obj l = Some (err, l')" "Fixup (Node c l' k x r) = Some t'"
      using Node.prems(1) less_imp_neq [OF 2] by (auto simp: bind_eq_Some_conv)
    have "key \<notin> fst ` set (entries r)" using 2 Node.prems(2) by auto
    then show ?thesis
      using 2 Node.prems(2) Node.IH(1) [OF l(1)] entries_Fixup [OF l(2)] bst_entries [OF entries_Fixup [OF l(2)]]
      by (auto split: if_splits)
  next
    case 3
    then obtain r' where r: "Insert_node key obj r = Some (err, r')" "Fixup (Node c l k x r') = Some t'"
      using Node.prems(1) less_imp_neq [OF 3] less_not_sym [OF 3] by (auto simp: bind_eq_Some_conv)
    have "key \<notin> fst ` set (entries l)" using 3 Node.prems(2) by auto
    then show ?thesis
      using 3 Node.prems(2) Node.IH(2) [OF r(1)] entries_Fixup [OF r(2)] bst_entries [OF entries_Fixup [OF r(2)]]
      by (auto split: if_splits)
  qed
qed auto

lemma Find_entries:
  "bst t \<Longrightarrow> Find t key \<noteq> Null \<longleftrightarrow> key \<in> fst ` set (entries t)"
  "bst t \<Longrightarrow> Find t key = Node c l k x r \<Longrightarrow> k = key \<and> (key, x) \<in> set (entries t)"
proof -
  show "bst t \<Longrightarrow> Find t key \<noteq> Null \<longleftrightarrow> key \<in> fst ` set (entries t)"
  proof (induction t)
    case (Node c l k x r)
    have "key < k \<Longrightarrow> key \<notin> fst ` set (entries r)" "k < key \<Longrightarrow> key \<notin> fst ` set (entries l)"
      using Node.prems by auto
    then show ?case using Node by (cases key k rule: linorder_cases) auto
  qed simp
  show "bst t \<Longrightarrow> Find t key = Node c l k x r \<Longrightarrow> k = key \<and> (key, x) \<in> set (entries t)"
    by (induction t) (auto split: if_splits)
qed

subsection \<open>Moving a red link down\<close>

text \<open>
  The node from which deletion descends: the child it goes to is red or has a red left child, so a node
  can be taken out of it without a change of its black height.
\<close>

definition soft :: "('k, 'o) node \<Rightarrow> bool" where
  "soft t \<longleftrightarrow> FIsNonNullAndRed t \<or> FIsNonNullAndRed (PnodeLeft t) \<and> t \<noteq> Null"

definition ready :: "RedBlackTreeColor \<Rightarrow> ('k, 'o) node \<Rightarrow> ('k, 'o) node \<Rightarrow> bool" where
  "ready c l r \<longleftrightarrow> strong l \<and> strong r \<and> bh l = bh r \<and> (c = Red \<longrightarrow> \<not> FIsNonNullAndRed l \<and> \<not> FIsNonNullAndRed r)"

lemma MoveRedLeft_ready:
  assumes "strong (Node c0 l0 k0 x0 r0)" "soft (Node c0 l0 k0 x0 r0)" "l0 \<noteq> Null"
  shows "\<exists>c l k x r. (if \<not> FIsNonNullAndRed l0 \<and> \<not> FIsNonNullAndRed (PnodeLeft l0) then MoveRedLeft (Node c0 l0 k0 x0 r0)
      else Some (Node c0 l0 k0 x0 r0)) = Some (Node c l k x r) \<and> ready c l r \<and> soft l \<and>
    bh (Node c l k x r) = bh (Node c0 l0 k0 x0 r0) \<and> (c0 = Black \<longrightarrow> c = Black \<and> \<not> FIsNonNullAndRed r) \<and>
    entries (Node c l k x r) = entries (Node c0 l0 k0 x0 r0) \<and> set (entries l0) \<subseteq> set (entries l)"
proof (cases "\<not> FIsNonNullAndRed l0 \<and> \<not> FIsNonNullAndRed (PnodeLeft l0)")
  case False
  then show ?thesis using assms by (auto simp: ready_def soft_def)
next
  case True
  then have c0: "c0 = Red" using assms by (auto simp: soft_def)
  obtain ll k1 x1 lr where l0: "l0 = Node Black ll k1 x1 lr" using True assms(3) by (cases l0) auto
  obtain rl k2 x2 rr where r0: "r0 = Node Black rl k2 x2 rr" using assms(1) l0 by (cases r0) auto
  show ?thesis
  proof (cases "FIsNonNullAndRed rl")
    case False
    then show ?thesis using True assms(1) by (auto simp: c0 l0 r0 MoveRedLeft_def ready_def soft_def)
  next
    case rl: True
    then obtain rll k3 x3 rlr where "rl = Node Red rll k3 x3 rlr" by (rule redE)
    then show ?thesis using True assms(1) by (auto simp: c0 l0 r0 MoveRedLeft_def ready_def soft_def)
  qed
qed

end
