(* ===== verification/Red_Black_Delete.thy ===== *)
theory Red_Black_Delete
  imports Red_Black_Inv
begin

text \<open>Deletion from the left-leaning red-black tree: balance, contents, and the absence of null pointers.\<close>

lemma entries_not_Null: "t \<noteq> Null \<Longrightarrow> entries t \<noteq> []"
  by (cases t) simp_all

lemma ready_Fixup:
  assumes "ready c l r" "strong l'" "bh l' = bh l" "\<not> FIsNonNullAndRed l \<longrightarrow> \<not> FIsNonNullAndRed l'"
  shows "\<exists>t. Fixup (Node c l' k x r) = Some t \<and> strong t \<and> bh t = bh (Node c l k x r) \<and>
    (c = Black \<and> \<not> FIsNonNullAndRed r \<longrightarrow> \<not> FIsNonNullAndRed t) \<and> entries t = entries l' @ (k, x) # entries r"
  using assms Fixup_right [of l' r c k x] by (cases c) (auto simp: ready_def)

definition ready_right :: "RedBlackTreeColor \<Rightarrow> ('k, 'o) node \<Rightarrow> ('k, 'o) node \<Rightarrow> bool" where
  "ready_right c l r \<longleftrightarrow> strong l \<and> bh l = bh r \<and> (c = Red \<longrightarrow> \<not> FIsNonNullAndRed l \<and> \<not> FIsNonNullAndRed r)"

lemma ready_Fixup_right:
  assumes "ready_right c l r" "strong r'" "bh r' = bh r" "\<not> FIsNonNullAndRed r \<longrightarrow> \<not> FIsNonNullAndRed r'"
  shows "\<exists>t. Fixup (Node c l k x r') = Some t \<and> strong t \<and> bh t = bh (Node c l k x r) \<and>
    (c = Black \<and> \<not> FIsNonNullAndRed l \<longrightarrow> \<not> FIsNonNullAndRed t) \<and> entries t = entries l @ (k, x) # entries r'"
  using assms Fixup_right [of l r' c k x] by (cases c) (auto simp: ready_right_def)

subsection \<open>The smallest node\<close>

lemma PnodeMin_hd: "t \<noteq> Null \<Longrightarrow> PnodeMin t = Some (hd (entries t))"
  by (induction t) (auto simp: entries_not_Null)

lemma RemoveMin_inv:
  "strong t \<Longrightarrow> soft t \<Longrightarrow> \<exists>t'. RemoveMinNode t = Some t' \<and> strong t' \<and> bh t' = bh t \<and>
     (\<not> FIsNonNullAndRed t \<longrightarrow> \<not> FIsNonNullAndRed t') \<and> entries t' = tl (entries t)"
proof (induction t rule: measure_induct_rule [of size])
  case (less t)
  obtain c0 l0 k0 x0 r0 where t: "t = Node c0 l0 k0 x0 r0" using less.prems(2) by (cases t) (auto simp: soft_def)
  show ?case
  proof (cases "l0 = Null")
    case True
    then have "c0 = Red" "r0 = Null" using less.prems t bh_zero [of r0] by (auto simp: soft_def)
    then show ?thesis using True t by (subst RemoveMinNode.simps) simp
  next
    case False
    let ?s = "if \<not> FIsNonNullAndRed l0 \<and> \<not> FIsNonNullAndRed (PnodeLeft l0) then MoveRedLeft t else Some t"
    obtain c l k x r where s: "?s = Some (Node c l k x r)" "ready c l r" "soft l" "bh (Node c l k x r) = bh t"
        "c0 = Black \<longrightarrow> c = Black \<and> \<not> FIsNonNullAndRed r" "entries (Node c l k x r) = entries t"
      using MoveRedLeft_ready [of c0 l0 k0 x0 r0] less.prems False unfolding t by blast
    have sz: "size l < size t" using s(1) size_MoveRedLeft [of t "Node c l k x r"] by (auto split: if_splits)
    have sl: "strong l" using s(2) by (simp add: ready_def)
    obtain l' where l': "RemoveMinNode l = Some l'" "strong l'" "bh l' = bh l"
        "\<not> FIsNonNullAndRed l \<longrightarrow> \<not> FIsNonNullAndRed l'" "entries l' = tl (entries l)"
      using less.IH [OF sz sl s(3)] by blast
    obtain t' where t': "Fixup (Node c l' k x r) = Some t'" "strong t'" "bh t' = bh (Node c l k x r)"
        "c = Black \<and> \<not> FIsNonNullAndRed r \<longrightarrow> \<not> FIsNonNullAndRed t'" "entries t' = entries l' @ (k, x) # entries r"
      using ready_Fixup [OF s(2) l'(2-4), of k x] by blast
    have "RemoveMinNode t = Some t'"
      using s(1) l'(1) t'(1) False by (subst RemoveMinNode.simps) (simp add: t)
    moreover have "l \<noteq> Null" using s(3) by (auto simp: soft_def)
    then have "entries t' = tl (entries t)" using t'(5) l'(5) entries_not_Null [of l] by (simp flip: s(6))
    ultimately show ?thesis using t' s(4,5) by (auto simp: t)
  qed
qed

subsection \<open>The step to the right\<close>

text \<open>
  After the move to the right the right subtree is one a node can be taken out of; or it is a black node
  with a red right child, whose key is not greater than the key looked for.
\<close>

definition leaning :: "('k, 'o) node \<Rightarrow> bool" where
  "leaning t \<longleftrightarrow> (case t of Null \<Rightarrow> False
     | Node c l k x r \<Rightarrow> c = Black \<and> strong l \<and> strong r \<and> bh l = bh r \<and> \<not> FIsNonNullAndRed l \<and> FIsNonNullAndRed r)"

lemma RotateRight_ready:
  assumes "strong (Node c0 l0 k0 x0 r0)" "soft (Node c0 l0 k0 x0 r0)"
  shows "\<exists>c l k x r. (if FIsNonNullAndRed l0 then RotateRight (Node c0 l0 k0 x0 r0) else Some (Node c0 l0 k0 x0 r0)) =
      Some (Node c l k x r) \<and> (c = Red \<and> strong (Node c l k x r) \<or> leaning (Node c l k x r)) \<and>
    bh (Node c l k x r) = bh (Node c0 l0 k0 x0 r0) \<and> c = c0 \<and> (k = k0 \<or> FIsNonNullAndRed r) \<and>
    (k = k0 \<or> (k, x) \<in> set (entries l0)) \<and> entries (Node c l k x r) = entries (Node c0 l0 k0 x0 r0)"
proof (cases "FIsNonNullAndRed l0")
  case False
  then show ?thesis using assms by (auto simp: soft_def)
next
  case True
  then obtain ll k1 x1 lr where "l0 = Node Red ll k1 x1 lr" by (rule redE)
  then show ?thesis using assms by (auto simp: soft_def leaning_def)
qed

text \<open>What the deletion of \<open>key\<close> from \<open>t\<close> has to do.\<close>

definition del_ok :: "('k::linorder, 'o) node \<Rightarrow> 'k \<Rightarrow> bool" where
  "del_ok t key \<longleftrightarrow> (\<exists>t' x. Delete_node t key = Some (t', key, x) \<and> strong t' \<and> bh t' = bh t \<and>
     (\<not> FIsNonNullAndRed t \<longrightarrow> \<not> FIsNonNullAndRed t') \<and> (key, x) \<in> set (entries t) \<and>
     entries t' = filter (\<lambda>p. fst p \<noteq> key) (entries t))"

lemma filter_other: "key \<notin> fst ` set ps \<Longrightarrow> filter (\<lambda>p. fst p \<noteq> key) ps = ps"
  by (induction ps) auto

text \<open>The last part of a step to the right, with the node to leave or the subtree to delete from.\<close>

lemma finish_right:
  assumes s: "ready_right c l r" "key = k \<Longrightarrow> strong r \<and> soft r" "bst (Node c l k x r)" "key \<in> fst ` set (entries (Node c l k x r))"
    and ge: "k \<le> key" and del: "k < key \<Longrightarrow> del_ok r key"
  shows "\<exists>t' y. (if key = k then
        Option.bind (PnodeMin r) (\<lambda>(kMin, xMin). Option.bind (RemoveMinNode r) (\<lambda>r.
          map_option (\<lambda>t. (t, k, x)) (Fixup (Node c l kMin xMin r))))
      else (case Delete_node r key of None \<Rightarrow> None
            | Some (r, d) \<Rightarrow> map_option (\<lambda>t. (t, d)) (Fixup (Node c l k x r)))) = Some (t', key, y) \<and>
    strong t' \<and> bh t' = bh (Node c l k x r) \<and> (c = Black \<and> \<not> FIsNonNullAndRed l \<longrightarrow> \<not> FIsNonNullAndRed t') \<and>
    (key, y) \<in> set (entries (Node c l k x r)) \<and> entries t' = filter (\<lambda>p. fst p \<noteq> key) (entries (Node c l k x r))"
proof (cases "key = k")
  case True
  have r: "strong r" "soft r" using s(2) True by simp_all
  then obtain r' where r': "RemoveMinNode r = Some r'" "strong r'" "bh r' = bh r"
      "\<not> FIsNonNullAndRed r \<longrightarrow> \<not> FIsNonNullAndRed r'" "entries r' = tl (entries r)"
    using RemoveMin_inv by blast
  have ne: "r \<noteq> Null" using r(2) by (auto simp: soft_def)
  obtain kMin xMin where m: "hd (entries r) = (kMin, xMin)" by fastforce
  obtain t' where t': "Fixup (Node c l kMin xMin r') = Some t'" "strong t'" "bh t' = bh (Node c l kMin xMin r)"
      "c = Black \<and> \<not> FIsNonNullAndRed l \<longrightarrow> \<not> FIsNonNullAndRed t'" "entries t' = entries l @ (kMin, xMin) # entries r'"
    using ready_Fixup_right [OF s(1) r'(2-4), of kMin xMin] by blast
  have "(kMin, xMin) # entries r' = entries r" using m r'(5) entries_not_Null [OF ne] by (metis list.collapse)
  moreover have "filter (\<lambda>p. fst p \<noteq> k) (entries l) = entries l" "filter (\<lambda>p. fst p \<noteq> k) (entries r) = entries r"
    using s(3) by (auto intro!: filter_other)
  ultimately have "entries t' = filter (\<lambda>p. fst p \<noteq> key) (entries (Node c l k x r))" using t'(5) True by simp
  then show ?thesis using True t' r'(1) PnodeMin_hd [OF ne] m by simp
next
  case False
  then have "k < key" using ge by simp
  then obtain r' y where r': "Delete_node r key = Some (r', key, y)" "strong r'" "bh r' = bh r"
      "\<not> FIsNonNullAndRed r \<longrightarrow> \<not> FIsNonNullAndRed r'" "(key, y) \<in> set (entries r)"
      "entries r' = filter (\<lambda>p. fst p \<noteq> key) (entries r)"
    using del unfolding del_ok_def by blast
  obtain t' where t': "Fixup (Node c l k x r') = Some t'" "strong t'" "bh t' = bh (Node c l k x r)"
      "c = Black \<and> \<not> FIsNonNullAndRed l \<longrightarrow> \<not> FIsNonNullAndRed t'" "entries t' = entries l @ (k, x) # entries r'"
    using ready_Fixup_right [OF s(1) r'(2-4), of k x] by blast
  have "filter (\<lambda>p. fst p \<noteq> key) (entries l) = entries l"
    using s(3) \<open>k < key\<close> by (intro filter_other) auto
  then have "entries t' = filter (\<lambda>p. fst p \<noteq> key) (entries (Node c l k x r))" using t'(5) r'(6) False by simp
  then show ?thesis using False t' r'(1,5) by simp
qed

lemma MoveRedRight_ready:
  assumes s: "strong (Node Red l0 k0 x0 r0)" "r0 \<noteq> Null"
    and n: "\<not> FIsNonNullAndRed (PnodeLeft r0)"
  shows "\<exists>c l k x r. MoveRedRight (Node Red l0 k0 x0 r0) = Some (Node c l k x r) \<and> ready_right c l r \<and>
    bh (Node c l k x r) = bh (Node Red l0 k0 x0 r0) \<and> entries (Node c l k x r) = entries (Node Red l0 k0 x0 r0) \<and>
    (k = k0 \<and> strong r \<and> soft r \<or> (k, x) \<in> set (entries l0) \<and> leaning r \<and> Key r = k0)"
proof -
  obtain rl k1 x1 rr where r0: "r0 = Node Black rl k1 x1 rr" using s by (cases r0) auto
  obtain ll k2 x2 lr where l0: "l0 = Node Black ll k2 x2 lr" using s(1) r0 by (cases l0) auto
  show ?thesis
  proof (cases "FIsNonNullAndRed ll")
    case False
    then show ?thesis using s n by (auto simp: r0 l0 MoveRedRight_def ready_right_def soft_def)
  next
    case True
    then obtain l3 k3 x3 r3 where "ll = Node Red l3 k3 x3 r3" by (rule redE)
    then show ?thesis using s n by (auto simp: r0 l0 MoveRedRight_def ready_right_def leaning_def)
  qed
qed

subsection \<open>Deletion\<close>

text \<open>The part of \<open>Delete_\<close> behind the rotation to the right.\<close>

definition Delete_right :: "('k::linorder, 'o) node \<Rightarrow> 'k \<Rightarrow> (('k, 'o) node \<times> 'k \<times> 'o) option" where
  "Delete_right t key =
     (case t of Null \<Rightarrow> None
      | Node c l k x r \<Rightarrow>
         if key = k \<and> r = Null then Some (Null, k, x)
         else if r = Null then None
         else
           (case (if \<not> FIsNonNullAndRed r \<and> \<not> FIsNonNullAndRed (PnodeLeft r) then MoveRedRight (Node c l k x r)
                  else Some (Node c l k x r)) of
              None \<Rightarrow> None
            | Some Null \<Rightarrow> None
            | Some (Node c l k x r) \<Rightarrow>
                if key = k then
                  Option.bind (PnodeMin r) (\<lambda>(kMin, xMin).
                  Option.bind (RemoveMinNode r) (\<lambda>r.
                  map_option (\<lambda>t. (t, k, x)) (Fixup (Node c l kMin xMin r))))
                else
                  (case Delete_node r key of
                     None \<Rightarrow> None
                   | Some (r, del) \<Rightarrow> map_option (\<lambda>t. (t, del)) (Fixup (Node c l k x r)))))"

lemma Delete_node_right: "\<not> key < k \<Longrightarrow> Delete_node (Node c l k x r) key =
    Option.bind (if FIsNonNullAndRed l then RotateRight (Node c l k x r) else Some (Node c l k x r)) (\<lambda>t. Delete_right t key)"
  by (subst Delete_node.simps) (auto simp: Delete_right_def split: option.splits node.splits)

lemma Delete_right_inv:
  fixes t :: "('k::linorder, 'o) node"
  assumes t: "t = Node c l k x r" "c = Red \<and> strong t \<or> leaning t" "bst t" "key \<in> fst ` set (entries t)" "k \<le> key"
    and IH: "\<And>u :: ('k, 'o) node. size u < size t \<Longrightarrow> strong u \<and> soft u \<or> leaning u \<and> Key u \<le> key \<Longrightarrow> bst u \<Longrightarrow>
      key \<in> fst ` set (entries u) \<Longrightarrow> del_ok u key"
  shows "\<exists>t' y. Delete_right t key = Some (t', key, y) \<and> strong t' \<and> bh t' = bh t \<and>
    (c = Black \<longrightarrow> \<not> FIsNonNullAndRed t') \<and> (key, y) \<in> set (entries t) \<and> entries t' = filter (\<lambda>p. fst p \<noteq> key) (entries t)"
proof (cases "r = Null")
  case True
  then have c: "c = Red" "strong t" "key = k" using t by (auto simp: leaning_def)
  then have "l = Null" using t(1) True bh_zero [of l] by simp
  then show ?thesis using True c t(1) by (simp add: Delete_right_def)
next
  case r: False
  let ?m = "if \<not> FIsNonNullAndRed r \<and> \<not> FIsNonNullAndRed (PnodeLeft r) then MoveRedRight t else Some t"
  obtain c1 l1 k1 x1 r1 where m: "?m = Some (Node c1 l1 k1 x1 r1)" "ready_right c1 l1 r1" "bh (Node c1 l1 k1 x1 r1) = bh t"
      "entries (Node c1 l1 k1 x1 r1) = entries t" "c = Black \<longrightarrow> c1 = Black \<and> \<not> FIsNonNullAndRed l1"
      "k1 = k \<and> strong r1 \<and> soft r1 \<or> (k1, x1) \<in> set (entries l) \<and> leaning r1 \<and> Key r1 = k"
  proof (cases "\<not> FIsNonNullAndRed r \<and> \<not> FIsNonNullAndRed (PnodeLeft r)")
    case True
    then have "c = Red" "strong t" using t by (auto simp: leaning_def)
    then show ?thesis using that MoveRedRight_ready [of l k x r] True r t(1) by auto
  next
    case False
    then have "ready_right c l r" "strong r" "soft r" "c = Black \<longrightarrow> \<not> FIsNonNullAndRed l"
      using t(1,2) r by (auto simp: leaning_def ready_right_def soft_def)
    then show ?thesis using that [of c l k x r] False t(1) by simp
  qed
  have b1: "bst (Node c1 l1 k1 x1 r1)" using bst_entries [OF m(4)] t(3) by simp
  have k1: "k1 \<le> key" "(k1, x1) \<in> set (entries l) \<Longrightarrow> k1 < key"
    using m(6) t(1,3,5) by (auto dest!: bspec [where x = "(k1, x1)"])
  have key1: "key \<in> fst ` set (entries (Node c1 l1 k1 x1 r1))" using t(4) m(4) by simp
  have del: "del_ok r1 key" if "k1 < key"
  proof -
    have "size r1 < size t" using m(1) size_MoveRedRight [of t "Node c1 l1 k1 x1 r1"] by (auto split: if_splits)
    moreover have "strong r1 \<and> soft r1 \<or> leaning r1 \<and> Key r1 \<le> key" using m(6) t(5) by auto
    moreover have "bst r1" using b1 by simp
    moreover have "key \<in> fst ` set (entries r1)" using key1 that b1 by auto
    ultimately show ?thesis using IH [of r1] by blast
  qed
  have sr: "strong r1 \<and> soft r1" if "key = k1" using m(6) that k1(2) by auto
  have e: "Delete_right t key = (if key = k1 then
        Option.bind (PnodeMin r1) (\<lambda>(kMin, xMin). Option.bind (RemoveMinNode r1) (\<lambda>r.
          map_option (\<lambda>t. (t, k1, x1)) (Fixup (Node c1 l1 kMin xMin r))))
      else (case Delete_node r1 key of None \<Rightarrow> None
            | Some (r, d) \<Rightarrow> map_option (\<lambda>t. (t, d)) (Fixup (Node c1 l1 k1 x1 r))))"
    using m(1) r unfolding t(1) by (simp add: Delete_right_def)
  show ?thesis
    unfolding e using finish_right [OF m(2) sr b1 key1 k1(1) del] m(5) unfolding m(3,4) by blast
qed

theorem Delete_inv:
  "strong t \<and> soft t \<or> leaning t \<and> Key t \<le> key \<Longrightarrow> bst t \<Longrightarrow> key \<in> fst ` set (entries t) \<Longrightarrow> del_ok t key"
proof (induction t rule: measure_induct_rule [of size])
  case (less t)
  obtain c0 l0 k0 x0 r0 where t: "t = Node c0 l0 k0 x0 r0" using less.prems(3) by (cases t) auto
  show ?case
  proof (cases "key < k0")
    case True
    then have st: "strong t" "soft t" using less.prems(1) t by auto
    have k0: "key \<in> fst ` set (entries l0)" using less.prems(2,3) True t by auto
    then have "l0 \<noteq> Null" by auto
    then obtain c l k x r where s: "(if \<not> FIsNonNullAndRed l0 \<and> \<not> FIsNonNullAndRed (PnodeLeft l0) then MoveRedLeft t else Some t) =
          Some (Node c l k x r)" "ready c l r" "soft l" "bh (Node c l k x r) = bh t"
        "c0 = Black \<longrightarrow> c = Black \<and> \<not> FIsNonNullAndRed r" "entries (Node c l k x r) = entries t" "set (entries l0) \<subseteq> set (entries l)"
      using MoveRedLeft_ready [of c0 l0 k0 x0 r0] st unfolding t by blast
    have b: "bst (Node c l k x r)" using bst_entries [OF s(6)] less.prems(2) by simp
    have kl: "key \<in> fst ` set (entries l)" using k0 s(7) by auto
    have "size l < size t" using s(1) size_MoveRedLeft [of t "Node c l k x r"] by (auto split: if_splits)
    then have "del_ok l key" using less.IH [of l] s(2,3) b kl by (simp add: ready_def)
    then obtain l' y where l': "Delete_node l key = Some (l', key, y)" "strong l'" "bh l' = bh l"
        "\<not> FIsNonNullAndRed l \<longrightarrow> \<not> FIsNonNullAndRed l'" "(key, y) \<in> set (entries l)"
        "entries l' = filter (\<lambda>p. fst p \<noteq> key) (entries l)"
      unfolding del_ok_def by blast
    obtain t' where t': "Fixup (Node c l' k x r) = Some t'" "strong t'" "bh t' = bh (Node c l k x r)"
        "c = Black \<and> \<not> FIsNonNullAndRed r \<longrightarrow> \<not> FIsNonNullAndRed t'" "entries t' = entries l' @ (k, x) # entries r"
      using ready_Fixup [OF s(2) l'(2-4), of k x] by blast
    have "key < k" using b kl by auto
    then have "filter (\<lambda>p. fst p \<noteq> key) (entries r) = entries r" "k \<noteq> key" using b by (auto intro!: filter_other)
    then have "entries t' = filter (\<lambda>p. fst p \<noteq> key) (entries t)" using t'(5) l'(6) by (simp flip: s(6))
    moreover have "Delete_node t key = Some (t', key, y)"
      using s(1) l'(1) t'(1) True \<open>l0 \<noteq> Null\<close> by (subst Delete_node.simps) (simp add: t)
    moreover have "(key, y) \<in> set (entries t)" using l'(5) by (simp flip: s(6))
    ultimately show ?thesis using t'(2-4) s(4,5) by (auto simp: del_ok_def t)
  next
    case False
    have "\<exists>c l k x r. (if FIsNonNullAndRed l0 then RotateRight t else Some t) = Some (Node c l k x r) \<and>
        (c = Red \<and> strong (Node c l k x r) \<or> leaning (Node c l k x r)) \<and> bh (Node c l k x r) = bh t \<and> c = c0 \<and>
        (k = k0 \<or> (k, x) \<in> set (entries l0)) \<and> entries (Node c l k x r) = entries t"
    proof (cases "leaning t")
      case True
      then show ?thesis by (auto simp: t leaning_def)
    next
      case False
      then show ?thesis using RotateRight_ready [of c0 l0 k0 x0 r0] less.prems(1) unfolding t by blast
    qed
    then obtain c l k x r where s: "(if FIsNonNullAndRed l0 then RotateRight t else Some t) = Some (Node c l k x r)"
        "c = Red \<and> strong (Node c l k x r) \<or> leaning (Node c l k x r)" "bh (Node c l k x r) = bh t" "c = c0"
        "k = k0 \<or> (k, x) \<in> set (entries l0)" "entries (Node c l k x r) = entries t" by blast
    have b: "bst (Node c l k x r)" using bst_entries [OF s(6)] less.prems(2) by simp
    have k: "k \<le> key" using s(5) False less.prems(2) by (auto simp: t dest!: bspec [where x = "(k, x)"])
    have sz: "size (Node c l k x r) = size t" using s(1) size_RotateRight [of t "Node c l k x r"] by (auto split: if_splits)
    have "key \<in> fst ` set (entries (Node c l k x r))" using less.prems(3) s(6) by simp
    from Delete_right_inv [OF refl s(2) b this k] less.IH sz
    obtain t' y where t': "Delete_right (Node c l k x r) key = Some (t', key, y)" "strong t'" "bh t' = bh t"
        "c = Black \<longrightarrow> \<not> FIsNonNullAndRed t'" "(key, y) \<in> set (entries t)" "entries t' = filter (\<lambda>p. fst p \<noteq> key) (entries t)"
      unfolding s(3,6) by auto
    moreover have "Delete_node t key = Delete_right (Node c l k x r) key"
      using Delete_node_right [OF False, of c0 l0 x0 r0] s(1) unfolding t by simp
    ultimately show ?thesis using s(4) by (auto simp: del_ok_def t)
  qed
qed

end
