(* ===== verification/Red_Black_Root.thy ===== *)
theory Red_Black_Root
  imports Red_Black_Delete
begin

text \<open>
  Whole trees: the colour of the root does not matter, so deletion may assume the one it needs.  Then the
  laws of the public operations over the set of entries, the height of a tree and merging.
\<close>

lemma FlipNode_Node: "Node (FlipColor c) l k x r = FlipNode (Node c l k x r)"
  by simp

lemma RotateRight_Flip: "RotateRight (FlipNode t) = map_option FlipNode (RotateRight t)"
  by (cases t rule: RotateRight.cases) simp_all

lemma RotateLeft_Flip: "RotateLeft (FlipNode t) = map_option FlipNode (RotateLeft t)"
  by (cases t rule: RotateLeft.cases) simp_all

lemma FlipColors_Flip: "FlipColors (FlipNode t) = map_option FlipNode (FlipColors t)"
  by (cases t) simp_all

lemma children_Flip [simp]: "t \<noteq> Null \<Longrightarrow> PnodeLeft (FlipNode t) = PnodeLeft t"
  "t \<noteq> Null \<Longrightarrow> PnodeRight (FlipNode t) = PnodeRight t"
  by (cases t; simp)+

lemma FLeftLeftRed_Flip: "FLeftLeftRed (FlipNode t) = FLeftLeftRed t"
  by (cases t) (simp_all add: FLeftLeftRed_iff)

lemma not_Null_ops: "RotateRight t = Some u \<Longrightarrow> u \<noteq> Null" "RotateLeft t = Some u \<Longrightarrow> u \<noteq> Null"
  "FlipColors t = Some u \<Longrightarrow> u \<noteq> Null"
  by (auto elim: RotateRight.elims RotateLeft.elims FlipColors.elims)

lemma Fixup_Flip: "Fixup (FlipNode t) = map_option FlipNode (Fixup t)"
proof (cases "t = Null")
  case False
  let ?a = "if FIsNonNullAndRed (PnodeRight t) then RotateLeft t else Some t"
  have a: "(if FIsNonNullAndRed (PnodeRight t) then RotateLeft (FlipNode t) else Some (FlipNode t)) = map_option FlipNode ?a"
    by (simp add: RotateLeft_Flip)
  have b: "(if FLeftLeftRed u then RotateRight (FlipNode u) else Some (FlipNode u)) =
      map_option FlipNode (if FLeftLeftRed u then RotateRight u else Some u)" for u :: "('a, 'b) node"
    by (simp add: RotateRight_Flip)
  show ?thesis
  proof (cases ?a)
    case None
    then show ?thesis using False by (simp add: Fixup_def a)
  next
    case (Some u)
    then have u: "u \<noteq> Null" using False by (auto dest: not_Null_ops split: if_splits)
    show ?thesis
    proof (cases "if FLeftLeftRed u then RotateRight u else Some u")
      case None
      then show ?thesis using False Some by (simp add: Fixup_def a b FLeftLeftRed_Flip)
    next
      case v: (Some v)
      then have "v \<noteq> Null" using u by (auto dest: not_Null_ops split: if_splits)
      then show ?thesis using False Some v by (simp add: Fixup_def a b FLeftLeftRed_Flip FlipColors_Flip)
    qed
  qed
qed (simp add: Fixup_def)

lemmas Rotate_FlipColor = RotateLeft_Flip [of "Node c l k x r" for c l k x r, simplified]
  RotateRight_Flip [of "Node c l k x r" for c l k x r, simplified]

lemma bind_FlipColors: "Option.bind (map_option FlipNode m) FlipColors = map_option FlipNode (Option.bind m FlipColors)"
  by (cases m) (simp_all add: FlipColors_Flip)

lemma MoveRedLeft_Flip: "MoveRedLeft (FlipNode t) = map_option FlipNode (MoveRedLeft t)"
proof (cases t)
  case (Node c l k x r)
  show ?thesis
    unfolding Node
    by (cases "RotateRight (FlipNode r)")
      (simp_all add: MoveRedLeft_def Rotate_FlipColor bind_FlipColors option.map_comp o_def option.map_ident)
qed (simp add: MoveRedLeft_def)

lemma MoveRedRight_Flip: "MoveRedRight (FlipNode t) = map_option FlipNode (MoveRedRight t)"
proof (cases t)
  case (Node c l k x r)
  show ?thesis
    unfolding Node by (simp add: MoveRedRight_def Rotate_FlipColor bind_FlipColors option.map_comp o_def option.map_ident)
qed (simp add: MoveRedRight_def)

lemma Delete_right_Flip: "Delete_right (FlipNode t) key = map_option (apfst FlipNode) (Delete_right t key)"
proof (cases t)
  case (Node c l k x r)
  define m where "m = (if \<not> FIsNonNullAndRed r \<and> \<not> FIsNonNullAndRed (PnodeLeft r) then MoveRedRight t else Some t)"
  have m: "(if \<not> FIsNonNullAndRed r \<and> \<not> FIsNonNullAndRed (PnodeLeft r) then MoveRedRight (FlipNode t) else Some (FlipNode t)) =
      map_option FlipNode m"
    by (simp add: m_def MoveRedRight_Flip)
  have F: "Fixup (Node (FlipColor c) l k x r) = map_option FlipNode (Fixup (Node c l k x r))" for c l k x and r :: "('a, 'b) node"
    using Fixup_Flip [of "Node c l k x r"] by simp
  show ?thesis
  proof (cases "\<exists>c l k x r. m = Some (Node c l k x r)")
    case False
    then have "m = None \<or> m = Some Null" by (metis node.exhaust option.exhaust)
    then show ?thesis using m m_def unfolding Node by (auto simp: Delete_right_def)
  next
    case True
    then obtain c1 l1 k1 x1 r1 where m1: "m = Some (Node c1 l1 k1 x1 r1)" by blast
    have "Option.bind (PnodeMin r1) (\<lambda>(kMin, xMin). Option.bind (RemoveMinNode r1) (\<lambda>r. map_option (\<lambda>t. (t, k1, x1))
          (Fixup (Node (FlipColor c1) l1 kMin xMin r)))) = map_option (apfst FlipNode)
        (Option.bind (PnodeMin r1) (\<lambda>(kMin, xMin). Option.bind (RemoveMinNode r1) (\<lambda>r. map_option (\<lambda>t. (t, k1, x1))
          (Fixup (Node c1 l1 kMin xMin r)))))"
      by (cases "PnodeMin r1"; cases "RemoveMinNode r1") (auto simp: F option.map_comp o_def)
    then show ?thesis
      using m m_def m1 unfolding Node
      by (auto simp: Delete_right_def F option.map_comp o_def split: option.splits)
  qed
qed (simp add: Delete_right_def)

lemma Delete_Flip: "Delete_node (FlipNode t) key = map_option (apfst FlipNode) (Delete_node t key)"
proof (cases t)
  case (Node c l k x r)
  have F: "Fixup (Node (FlipColor c) l k x r) = map_option FlipNode (Fixup (Node c l k x r))" for c l k x and r :: "('a, 'b) node"
    using Fixup_Flip [of "Node c l k x r"] by simp
  show ?thesis
  proof (cases "key < k")
    case False
    show ?thesis
      unfolding Node FlipNode.simps Delete_node_right [OF False]
      by (cases "RotateRight (Node c l k x r)") (simp_all add: RotateRight_Flip Delete_right_Flip flip: FlipNode.simps)
  next
    case True
    define m where "m = (if \<not> FIsNonNullAndRed l \<and> \<not> FIsNonNullAndRed (PnodeLeft l) then MoveRedLeft t else Some t)"
    have m: "(if \<not> FIsNonNullAndRed l \<and> \<not> FIsNonNullAndRed (PnodeLeft l) then MoveRedLeft (FlipNode t) else Some (FlipNode t)) =
        map_option FlipNode m"
      by (simp add: m_def MoveRedLeft_Flip)
    have e: "Delete_node (Node c l k x r) key = (if l = Null then None else
        case m of None \<Rightarrow> None | Some Null \<Rightarrow> None | Some (Node c l k x r) \<Rightarrow>
          (case Delete_node l key of None \<Rightarrow> None | Some (l, del) \<Rightarrow> map_option (\<lambda>t. (t, del)) (Fixup (Node c l k x r))))"
      using True by (subst Delete_node.simps) (simp add: m_def Node)
    have "Delete_node (FlipNode t) key = (if l = Null then None else
        case map_option FlipNode m of None \<Rightarrow> None | Some Null \<Rightarrow> None | Some (Node c l k x r) \<Rightarrow>
          (case Delete_node l key of None \<Rightarrow> None | Some (l, del) \<Rightarrow> map_option (\<lambda>t. (t, del)) (Fixup (Node c l k x r))))"
      using True unfolding m [symmetric] by (subst Delete_node.simps) (simp add: Node)
    also have "\<dots> = map_option (apfst FlipNode) (Delete_node t key)"
      unfolding Node e by (auto simp: F option.map_comp o_def split: option.splits node.splits)
    finally show ?thesis .
  qed
qed (simp add: Delete_node.simps)

subsection \<open>The laws of the operations\<close>

definition rbt_ok :: "('k::linorder, 'o) node \<Rightarrow> bool" where
  "rbt_ok t \<longleftrightarrow> weak t \<and> bst t"

definition contents :: "('k, 'o) node \<Rightarrow> 'k \<rightharpoonup> 'o" where
  "contents t = map_of (entries t)"

lemma rbt_ok_Null [simp]: "rbt_ok Null" "contents Null = Map.empty"
  by (simp_all add: rbt_ok_def contents_def)

lemma sorted_wrt_filter_keys: "sorted_wrt (<) (map fst ps) \<Longrightarrow> sorted_wrt (<) (map fst (filter P ps))"
  by (induction ps) auto

lemma bst_distinct: "bst t \<Longrightarrow> distinct (map fst (entries t))"
  by (simp add: bst_def strict_sorted_iff)

lemma contents_Some: "rbt_ok t \<Longrightarrow> contents t k = Some x \<longleftrightarrow> (k, x) \<in> set (entries t)"
  by (simp add: contents_def rbt_ok_def bst_distinct map_of_eq_Some_iff)

lemma dom_contents: "dom (contents t) = fst ` set (entries t)"
  by (simp add: contents_def dom_map_of_conv_image_fst)

lemma contents_eqI: "rbt_ok t \<Longrightarrow> (\<And>k x. m k = Some x \<longleftrightarrow> (k, x) \<in> set (entries t)) \<Longrightarrow> contents t = m"
  by (intro ext) (metis contents_Some option.exhaust)

lemma insert_law:
  assumes "rbt_ok t"
  shows "\<exists>t'. ErrInsert k x t = Some (if k \<in> dom (contents t) then errDuplicateEntry else errSuccess, t') \<and> rbt_ok t' \<and>
    contents t' = (if k \<in> dom (contents t) then contents t else (contents t)(k \<mapsto> x))"
proof -
  obtain err t' where i: "Insert_node k x t = Some (err, t')" "weak t'" using assms Insert_inv [of t k x] unfolding rbt_ok_def by blast
  note e = Insert_entries [OF i(1)] assms
  then have ok: "rbt_ok t'" using i(2) by (simp add: rbt_ok_def)
  have "contents t' = (if k \<in> dom (contents t) then contents t else (contents t)(k \<mapsto> x))"
    using e by (intro contents_eqI [OF ok]) (auto simp: dom_contents contents_Some rbt_ok_def image_iff)
  then show ?thesis using i ok e by (simp add: ErrInsert_def dom_contents rbt_ok_def)
qed

lemma Delete_root:
  assumes "rbt_ok t" "key \<in> fst ` set (entries t)"
  shows "\<exists>t' x. Delete_node t key = Some (t', key, x) \<and> rbt_ok t' \<and> (key, x) \<in> set (entries t) \<and>
    entries t' = filter (\<lambda>p. fst p \<noteq> key) (entries t)"
proof -
  obtain c l k x r where t: "t = Node c l k x r" using assms(2) by (cases t) auto
  have "\<exists>u. (u = t \<or> u = FlipNode t) \<and> strong u \<and> soft u"
  proof (cases "FIsNonNullAndRed l \<longleftrightarrow> c = Black")
    case True
    then have "strong t \<and> soft t" using assms(1) unfolding t by (cases c) (auto simp: rbt_ok_def soft_def)
    then show ?thesis by blast
  next
    case False
    then have "strong (FlipNode t) \<and> soft (FlipNode t)" using assms(1) unfolding t by (cases c) (auto simp: rbt_ok_def soft_def)
    then show ?thesis by blast
  qed
  then obtain u where u: "u = t \<or> u = FlipNode t" "strong u" "soft u" by blast
  then have e: "entries u = entries t" by auto
  have "bst u" using bst_entries [OF e] assms(1) by (simp add: rbt_ok_def)
  then have "del_ok u key" using Delete_inv [of u key] u assms(2) e by auto
  then obtain u' y where u': "Delete_node u key = Some (u', key, y)" "strong u'" "(key, y) \<in> set (entries t)"
      "entries u' = filter (\<lambda>p. fst p \<noteq> key) (entries t)"
    by (auto simp: del_ok_def e)
  have "sorted_wrt (<) (map fst (entries t))" using assms(1) by (simp add: rbt_ok_def bst_def)
  then have "bst u'" unfolding bst_def u'(4) by (rule sorted_wrt_filter_keys)
  then have ok: "rbt_ok u'" "rbt_ok (FlipNode u')"
    using u'(2) bst_entries [of "FlipNode u'" u'] by (simp_all add: rbt_ok_def strong_weak)
  show ?thesis
  proof (cases "u = t")
    case True
    then show ?thesis using u' ok(1) by blast
  next
    case False
    then have "Delete_node t key = map_option (apfst FlipNode) (Delete_node u key)"
      using Delete_Flip [of u key] u(1) by simp
    then show ?thesis using u' ok(2) by auto
  qed
qed

lemma delete_law:
  assumes "rbt_ok t"
  shows "\<exists>t'. ErrDelete k t = Some (if k \<in> dom (contents t) then errSuccess else errEntryNotFound, t', contents t k) \<and>
    rbt_ok t' \<and> contents t' = (contents t)(k := None)"
proof (cases "k \<in> dom (contents t)")
  case True
  then obtain t' x where d: "Delete_node t k = Some (t', k, x)" "rbt_ok t'" "(k, x) \<in> set (entries t)"
      "entries t' = filter (\<lambda>p. fst p \<noteq> k) (entries t)"
    using Delete_root [OF assms, of k] unfolding dom_contents by blast
  have "contents t' = (contents t)(k := None)"
    using d(4) assms by (intro contents_eqI [OF d(2)]) (auto simp: contents_Some)
  moreover have "contents t k = Some x" using d(3) assms by (simp add: contents_Some)
  moreover have "FContainsKey t k" using True Find_entries(1) [of t k] assms by (simp add: FContainsKey_def dom_contents rbt_ok_def)
  ultimately show ?thesis using True d(1,2) by (simp add: ErrDelete_def)
next
  case False
  then have "contents t k = None" by (simp add: domIff)
  then show ?thesis using False assms Find_entries(1) [of t k]
    by (auto simp: ErrDelete_def FContainsKey_def dom_contents rbt_ok_def fun_upd_idem)
qed

lemma find_law: "rbt_ok t \<Longrightarrow> ErrFind t k = (if k \<in> dom (contents t) then errSuccess else errEntryNotFound, contents t k)"
proof (cases "Find t k")
  case Null
  assume "rbt_ok t"
  then have "k \<notin> dom (contents t)" using Null Find_entries(1) [of t k] by (simp add: dom_contents rbt_ok_def)
  then show ?thesis using Null by (simp add: ErrFind_def domIff)
next
  case (Node c l k' x r)
  assume ok: "rbt_ok t"
  then have "contents t k = Some x" using Find_entries(2) [OF _ Node] by (auto simp: contents_Some rbt_ok_def)
  then show ?thesis using Node by (auto simp: ErrFind_def)
qed

subsection \<open>Merging\<close>

lemma MergeLoop_spec:
  "rbt_ok this \<Longrightarrow> rbt_ok src \<Longrightarrow> rbt_ok lo \<Longrightarrow> dom (contents src) \<inter> dom (contents lo) = {} \<Longrightarrow>
    \<exists>this' lo'. MergeLoop this src lo = Some (this', Null, lo') \<and> rbt_ok this' \<and> rbt_ok lo' \<and>
      contents this' = contents src ++ contents this \<and>
      contents lo' = contents lo ++ contents src |` dom (contents this)"
proof (induction "card (dom (contents src))" arbitrary: this src lo rule: less_induct)
  case less
  show ?case
  proof (cases src)
    case Null
    then show ?thesis using less.prems by (subst MergeLoop.simps) simp
  next
    case (Node c l k x r)
    have kx: "contents src k = Some x" using less.prems(2) by (simp add: contents_Some) (simp add: Node)
    obtain src' where d: "ErrDelete k src = Some (errSuccess, src', contents src k)" "rbt_ok src'"
        "contents src' = (contents src)(k := None)"
      using delete_law [OF less.prems(2), of k] kx by (auto simp: dom_def split: if_splits)
    have fin: "finite (dom (contents src))" by (simp add: dom_contents)
    have sm: "card (dom (contents src')) < card (dom (contents src))"
      using kx fin by (simp add: d(3) domI card_Diff1_less del: card_Diff_insert)
    obtain this' where i: "ErrInsert k x this = Some (if k \<in> dom (contents this) then errDuplicateEntry else errSuccess, this')"
        "rbt_ok this'" "contents this' = (if k \<in> dom (contents this) then contents this else (contents this)(k \<mapsto> x))"
      using insert_law [OF less.prems(1), of k x] by blast
    have "k \<notin> dom (contents lo)" using less.prems(4) kx by blast
    then obtain lo' where j: "ErrInsert k x lo = Some (errSuccess, lo')" "rbt_ok lo'" "contents lo' = (contents lo)(k \<mapsto> x)"
      using insert_law [OF less.prems(3), of k x] by auto
    show ?thesis
    proof (cases "k \<in> dom (contents this)")
      case True
      have "dom (contents src') \<inter> dom (contents lo') = {}" using less.prems(4) by (auto simp: d(3) j(3))
      then obtain th lo2 where m: "MergeLoop this' src' lo' = Some (th, Null, lo2)" "rbt_ok th" "rbt_ok lo2"
          "contents th = contents src' ++ contents this'" "contents lo2 = contents lo' ++ contents src' |` dom (contents this')"
        using less.hyps [OF sm i(2) d(2) j(2)] by blast
      have "contents th = contents src ++ contents this"
        using True by (auto simp: m(4) d(3) i(3) map_add_def split: option.splits)
      moreover have "contents lo2 = contents lo ++ contents src |` dom (contents this)"
        using True kx by (intro ext) (auto simp: m(5) d(3) i(3) j(3) map_add_def restrict_map_def split: option.splits)
      moreover have "MergeLoop this src lo = Some (th, Null, lo2)"
        using d(1) i(1) j(1) m(1) True by (subst MergeLoop.simps) (simp add: Node)
      ultimately show ?thesis using m(2,3) by blast
    next
      case False
      have "dom (contents src') \<inter> dom (contents lo) = {}" using less.prems(4) by (auto simp: d(3))
      then obtain th lo2 where m: "MergeLoop this' src' lo = Some (th, Null, lo2)" "rbt_ok th" "rbt_ok lo2"
          "contents th = contents src' ++ contents this'" "contents lo2 = contents lo ++ contents src' |` dom (contents this')"
        using less.hyps [OF sm i(2) d(2) less.prems(3)] by blast
      have "contents th = contents src ++ contents this"
        using False kx by (auto simp: m(4) d(3) i(3) map_add_def split: option.splits)
      moreover have "contents lo2 = contents lo ++ contents src |` dom (contents this)"
        using False by (auto simp: m(5) d(3) i(3) map_add_def restrict_map_def split: option.splits)
      moreover have "MergeLoop this src lo = Some (th, Null, lo2)"
        using d(1) i(1) m(1) False by (subst MergeLoop.simps) (simp add: Node)
      ultimately show ?thesis using m(2,3) by blast
    qed
  qed
qed

lemma merge_law:
  assumes "rbt_ok this" "rbt_ok src"
  shows "\<exists>this' src'. ErrMerge this src =
      Some (if dom (contents this) \<inter> dom (contents src) = {} then errSuccess else errDuplicateEntry, this', src') \<and>
    rbt_ok this' \<and> rbt_ok src' \<and> contents this' = contents src ++ contents this \<and>
    contents src' = contents src |` dom (contents this)"
proof (cases "this = Null")
  case True
  then show ?thesis using assms by (simp add: ErrMerge_def Move_def MergeLoop.simps)
next
  case False
  obtain this' lo' where m: "MergeLoop this src Null = Some (this', Null, lo')" "rbt_ok this'" "rbt_ok lo'"
      "contents this' = contents src ++ contents this" "contents lo' = contents src |` dom (contents this)"
    using MergeLoop_spec [OF assms, of Null] by auto
  have "lo' = Null \<longleftrightarrow> dom (contents this) \<inter> dom (contents src) = {}"
  proof -
    have "lo' = Null \<longleftrightarrow> dom (contents lo') = {}" by (cases lo') (auto simp: dom_contents)
    then show ?thesis by (auto simp: m(5))
  qed
  then show ?thesis using False m by (auto simp: ErrMerge_def Move_def)
qed

subsection \<open>Neighbours and height\<close>

lemma NearestLoop_spec:
  "bst t \<Longrightarrow> t \<noteq> Null \<Longrightarrow> \<exists>k x. NearestLoop t key = Some (k, x) \<and> (k, x) \<in> set (entries t) \<and>
    (\<forall>p \<in> set (entries t). \<not> (k < fst p \<and> fst p \<le> key) \<and> \<not> (key \<le> fst p \<and> fst p < k))"
proof (induction t)
  case (Node c l k x r)
  have b: "\<forall>p \<in> set (entries l). fst p < k" "\<forall>p \<in> set (entries r). k < fst p" using Node.prems(1) by auto
  consider "key = k" | "key < k" | "k < key" by (rule linorder_cases)
  then show ?case
  proof cases
    case 1
    then show ?thesis using b by auto
  next
    case 2
    show ?thesis
    proof (cases "l = Null")
      case True
      then show ?thesis using 2 b by fastforce
    next
      case False
      then obtain k' x' where n: "NearestLoop l key = Some (k', x')" "(k', x') \<in> set (entries l)"
          "\<forall>p \<in> set (entries l). \<not> (k' < fst p \<and> fst p \<le> key) \<and> \<not> (key \<le> fst p \<and> fst p < k')"
        using Node.IH(1) Node.prems(1) by auto
      have "k' < k" using n(2) b(1) by auto
      then have "\<forall>p \<in> set (entries (Node c l k x r)). \<not> (k' < fst p \<and> fst p \<le> key) \<and> \<not> (key \<le> fst p \<and> fst p < k')"
        using n(3) b(2) 2 by fastforce
      then show ?thesis using 2 n(1,2) False by auto
    qed
  next
    case 3
    show ?thesis
    proof (cases "r = Null")
      case True
      then show ?thesis using 3 b by fastforce
    next
      case False
      then obtain k' x' where n: "NearestLoop r key = Some (k', x')" "(k', x') \<in> set (entries r)"
          "\<forall>p \<in> set (entries r). \<not> (k' < fst p \<and> fst p \<le> key) \<and> \<not> (key \<le> fst p \<and> fst p < k')"
        using Node.IH(2) Node.prems(1) by auto
      have "k < k'" using n(2) b(2) by auto
      then have "\<forall>p \<in> set (entries (Node c l k x r)). \<not> (k' < fst p \<and> fst p \<le> key) \<and> \<not> (key \<le> fst p \<and> fst p < k')"
        using n(3) b(1) 3 by fastforce
      then show ?thesis using 3 n(1,2) False by auto
    qed
  qed
qed simp

end
