(* ===== verification/Keyed_Map.thy ===== *)
theory Keyed_Map
  imports Red_Black
begin

text \<open>
  What a client of the red-black tree relies on: insertion that refuses a key it has, deletion and
  lookup over a finite map, none of which fails.  A sequence of operations then gives the answers of the
  map.
\<close>

datatype ('k, 'o) map_op = Op_Insert 'k 'o | Op_Delete 'k | Op_Find 'k

datatype 'o map_answer = Answer ERR "'o option"

fun map_spec :: "('k, 'o) map_op \<Rightarrow> ('k \<rightharpoonup> 'o) \<Rightarrow> 'o map_answer \<times> ('k \<rightharpoonup> 'o)" where
  "map_spec (Op_Insert k x) m =
     (if k \<in> dom m then (Answer errDuplicateEntry None, m) else (Answer errSuccess None, m(k \<mapsto> x)))"
| "map_spec (Op_Delete k) m = (Answer (if k \<in> dom m then errSuccess else errEntryNotFound) (m k), m(k := None))"
| "map_spec (Op_Find k) m = (Answer (if k \<in> dom m then errSuccess else errEntryNotFound) (m k), m)"

fun map_spec_run :: "('k, 'o) map_op list \<Rightarrow> ('k \<rightharpoonup> 'o) \<Rightarrow> 'o map_answer list \<times> ('k \<rightharpoonup> 'o)" where
  "map_spec_run [] m = ([], m)"
| "map_spec_run (i # is) m = (let (a, m) = map_spec i m; (as, m) = map_spec_run is m in (a # as, m))"

fun map_step :: "('k \<Rightarrow> 'o \<Rightarrow> 's \<Rightarrow> (ERR \<times> 's) option) \<Rightarrow> ('k \<Rightarrow> 's \<Rightarrow> (ERR \<times> 's \<times> 'o option) option) \<Rightarrow>
    ('s \<Rightarrow> 'k \<Rightarrow> ERR \<times> 'o option) \<Rightarrow> ('k, 'o) map_op \<Rightarrow> 's \<Rightarrow> ('o map_answer \<times> 's) option" where
  "map_step ins del get (Op_Insert k x) s = map_option (\<lambda>(err, s). (Answer err None, s)) (ins k x s)"
| "map_step ins del get (Op_Delete k) s = map_option (\<lambda>(err, s, x). (Answer err x, s)) (del k s)"
| "map_step ins del get (Op_Find k) s = Some (case get s k of (err, x) \<Rightarrow> Answer err x, s)"

fun map_run :: "('k \<Rightarrow> 'o \<Rightarrow> 's \<Rightarrow> (ERR \<times> 's) option) \<Rightarrow> ('k \<Rightarrow> 's \<Rightarrow> (ERR \<times> 's \<times> 'o option) option) \<Rightarrow>
    ('s \<Rightarrow> 'k \<Rightarrow> ERR \<times> 'o option) \<Rightarrow> ('k, 'o) map_op list \<Rightarrow> 's \<Rightarrow> ('o map_answer list \<times> 's) option" where
  "map_run ins del get [] s = Some ([], s)"
| "map_run ins del get (i # is) s =
     Option.bind (map_step ins del get i s) (\<lambda>(a, s). map_option (\<lambda>(as, s). (a # as, s)) (map_run ins del get is s))"

locale map_ops =
  fixes ok :: "'s \<Rightarrow> bool"
    and abs :: "'s \<Rightarrow> 'k \<rightharpoonup> 'o"
    and ins :: "'k \<Rightarrow> 'o \<Rightarrow> 's \<Rightarrow> (ERR \<times> 's) option"
    and del :: "'k \<Rightarrow> 's \<Rightarrow> (ERR \<times> 's \<times> 'o option) option"
    and get :: "'s \<Rightarrow> 'k \<Rightarrow> ERR \<times> 'o option"
  assumes ins_law: "ok s \<Longrightarrow> \<exists>s'. ins k x s = Some (if k \<in> dom (abs s) then errDuplicateEntry else errSuccess, s') \<and> ok s' \<and>
      abs s' = (if k \<in> dom (abs s) then abs s else (abs s)(k \<mapsto> x))"
    and del_law: "ok s \<Longrightarrow> \<exists>s'. del k s = Some (if k \<in> dom (abs s) then errSuccess else errEntryNotFound, s', abs s k) \<and> ok s' \<and>
      abs s' = (abs s)(k := None)"
    and get_law: "ok s \<Longrightarrow> get s k = (if k \<in> dom (abs s) then errSuccess else errEntryNotFound, abs s k)"
begin

lemma step: "ok s \<Longrightarrow> \<exists>s'. map_step ins del get i s = Some (fst (map_spec i (abs s)), s') \<and> ok s' \<and> abs s' = snd (map_spec i (abs s))"
proof (cases i)
  case (Op_Insert k x)
  then show "ok s \<Longrightarrow> ?thesis" using ins_law [of s k x] by auto
next
  case (Op_Delete k)
  then show "ok s \<Longrightarrow> ?thesis" using del_law [of s k] by auto
next
  case (Op_Find k)
  then show "ok s \<Longrightarrow> ?thesis" using get_law [of s k] by auto
qed

lemma run: "ok s \<Longrightarrow> \<exists>s'. map_run ins del get is s = Some (fst (map_spec_run is (abs s)), s') \<and> ok s' \<and>
    abs s' = snd (map_spec_run is (abs s))"
proof (induction "is" arbitrary: s)
  case (Cons i "is")
  obtain s1 where s1: "map_step ins del get i s = Some (fst (map_spec i (abs s)), s1)" "ok s1" "abs s1 = snd (map_spec i (abs s))"
    using step [OF Cons.prems] by blast
  obtain s2 where "map_run ins del get is s1 = Some (fst (map_spec_run is (abs s1)), s2)" "ok s2" "abs s2 = snd (map_spec_run is (abs s1))"
    using Cons.IH [OF s1(2)] by blast
  then show ?case using s1 by (auto simp: Let_def split: prod.splits)
qed simp

end

end
