(* ===== verification/Red_Black_Props.thy ===== *)
theory Red_Black_Props
  imports Red_Black_Root Keyed_Map
begin

text \<open>The properties of the red-black tree: it is a finite map, stays balanced, and merges by key.\<close>

interpretation rbt: map_ops rbt_ok contents ErrInsert ErrDelete ErrFind
  by unfold_locales (fact insert_law delete_law find_law)+

lemma GreaterEqualLoop_spec:
  "bst t \<Longrightarrow> GreaterEqualLoop t key m = (case filter (\<lambda>p. key \<le> fst p) (entries t) of [] \<Rightarrow> m | p # ps \<Rightarrow> Some p)"
proof (induction t arbitrary: m)
  case (Node c l k x r)
  have b: "\<forall>p \<in> set (entries l). fst p < k" "\<forall>p \<in> set (entries r). k < fst p" using Node.prems by auto
  have low: "filter (\<lambda>p. key \<le> fst p) (entries l) = []" if "k \<le> key"
    using b(1) that by (auto simp: filter_empty_conv)
  consider "key = k" | "key < k" | "k < key" by (rule linorder_cases)
  then show ?case
  proof cases
    case 1
    then show ?thesis using low by simp
  next
    case 2
    then show ?thesis using Node.IH(1) [of "Some (k, x)"] Node.prems
      by (auto split: list.splits)
  next
    case 3
    then show ?thesis using low Node.IH(2) [of m] Node.prems by auto
  qed
qed simp

fun height :: "('k, 'o) node \<Rightarrow> nat" where
  "height Null = 0"
| "height (Node c l k x r) = 1 + max (height l) (height r)"

lemma height_bh: "strong t \<Longrightarrow> height t \<le> 2 * bh t + (if FIsNonNullAndRed t then 1 else 0)"
proof (induction t)
  case (Node c l k x r)
  then show ?case by (cases c) (auto split: if_splits)
qed simp

lemma bh_size: "strong t \<Longrightarrow> 2 ^ bh t \<le> length (entries t) + 1"
proof (induction t)
  case (Node c l k x r)
  then show ?case by (cases c) auto
qed simp

lemma AssertValid_node_ok: "weak t \<Longrightarrow> bst t \<Longrightarrow> AssertValid_node t"
proof (cases t)
  case (Node c l k x r)
  assume w: "weak t" "bst t"
  then have "l \<noteq> Null \<Longrightarrow> Key l < k" "r \<noteq> Null \<Longrightarrow> k < Key r" unfolding Node by (cases l; cases r; auto)+
  moreover have "r \<noteq> Null \<Longrightarrow> Color r = Black" using w unfolding Node by (cases r) auto
  ultimately show ?thesis by (auto simp: Node)
qed simp

lemma AssertValid_strong: "strong t \<Longrightarrow> bst t \<Longrightarrow> AssertValid t"
proof (induction t)
  case (Node c l k x r)
  then show ?case using AssertValid_node_ok [OF strong_weak [OF Node.prems(1)] Node.prems(2)] by simp
qed simp

lemma AssertValid_ok: "rbt_ok t \<Longrightarrow> AssertValid t"
  using AssertValid_node_ok [of t] by (cases t) (auto simp: rbt_ok_def AssertValid_strong)

lemma height_law:
  assumes "rbt_ok t"
  shows "2 ^ height t \<le> (length (entries t) + 1)\<^sup>2"
proof (cases t)
  case (Node c l k x r)
  have s: "strong l" "strong r" "bh l = bh r" "\<not> FIsNonNullAndRed r" using assms by (simp_all add: Node rbt_ok_def)
  have "height t \<le> 2 * (bh l + 1)"
    using height_bh [OF s(1)] height_bh [OF s(2)] s(3) by (auto simp: Node split: if_splits)
  then have "(2 :: nat) ^ height t \<le> 2 ^ (2 * (bh l + 1))" by (intro power_increasing) simp_all
  also have "\<dots> = (2 ^ (bh l + 1))\<^sup>2" by (simp add: power_mult mult.commute flip: power_mult)
  also have "\<dots> \<le> (length (entries t) + 1)\<^sup>2"
    using bh_size [OF s(1)] bh_size [OF s(2)] s(3) by (intro power_mono) (simp_all add: Node)
  finally show ?thesis .
qed simp

subsection \<open>The properties\<close>

text \<open>
  C31: Any sequence of insertions, deletions and lookups on a well-formed tree runs without following a null
  pointer and gives the answers of a finite map; the tree it leaves is well-formed and passes the
  assertions of the code.
\<close>
theorem rbt_script_refines:
  assumes "rbt_ok t"
  shows "\<exists>t'. map_run ErrInsert ErrDelete ErrFind is t = Some (fst (map_spec_run is (contents t)), t') \<and> rbt_ok t' \<and>
    contents t' = snd (map_spec_run is (contents t)) \<and> AssertValid t'"
  using rbt.run [OF assms] AssertValid_ok by blast

lemma rbt_script_refines_witness:
  "\<exists>t'. map_run ErrInsert ErrDelete ErrFind [Op_Insert 5 True, Op_Delete 3, Op_Insert 5 False, Op_Delete (5 :: nat)] Null =
      Some ([Answer errSuccess None, Answer errEntryNotFound None, Answer errDuplicateEntry None, Answer errSuccess (Some True)], t') \<and>
    AssertValid t'"
  using rbt_script_refines [OF rbt_ok_Null(1), of "[Op_Insert 5 True, Op_Delete 3, Op_Insert 5 False, Op_Delete (5 :: nat)]"]
  by (auto simp: Let_def)

text \<open>
  A well-formed tree is balanced: its height is at most twice the binary logarithm of its size plus one.
\<close>
theorem rbt_height_bound:
  assumes "rbt_ok t"
  shows "2 ^ height t \<le> (length (entries t) + 1)\<^sup>2"
  by (rule height_law [OF assms])

lemma rbt_height_bound_witness:
  "2 ^ height (Node Red (Node Red Null 1 True Null) (2 :: nat) False Null) \<le> (2 + 1 :: nat)\<^sup>2"
  using rbt_height_bound [of "Node Red (Node Red Null 1 True Null) (2 :: nat) False Null"] by (simp add: rbt_ok_def)

text \<open>
  C32: Merging terminates and moves every entry of the other tree whose key is new; the entries with known
  keys stay behind, and \<open>errDuplicateEntry\<close> says whether there are any.
\<close>
theorem rbt_merge_terminates:
  assumes "rbt_ok this" "rbt_ok src"
  shows "\<exists>this' src'. ErrMerge this src =
      Some (if dom (contents this) \<inter> dom (contents src) = {} then errSuccess else errDuplicateEntry, this', src') \<and>
    rbt_ok this' \<and> rbt_ok src' \<and> contents this' = contents src ++ contents this \<and>
    contents src' = contents src |` dom (contents this)"
  by (rule merge_law [OF assms])

lemma rbt_merge_terminates_witness:
  "\<exists>this' src'. ErrMerge (Node Red Null (1 :: nat) True Null) (Node Black (Node Red Null 1 False Null) 2 False Null) =
      Some (errDuplicateEntry, this', src') \<and> contents this' 1 = Some True \<and> contents src' 1 = Some False \<and> contents src' 2 = None"
  using rbt_merge_terminates [of "Node Red Null (1 :: nat) True Null" "Node Black (Node Red Null 1 False Null) 2 False Null"]
  by (auto simp: rbt_ok_def contents_def)

text \<open>
  The searches by order: \<open>ErrFindGreaterThanOrEqual\<close> finds the first entry in key order that is not
  below the key, and \<open>ErrFindNearest\<close> an entry with no other between it and the key.
\<close>
theorem rbt_ordered_search:
  assumes "rbt_ok t"
  shows "ErrFindGreaterThanOrEqual t key =
      (case filter (\<lambda>p. key \<le> fst p) (entries t) of [] \<Rightarrow> (errEntryNotFound, None) | p # ps \<Rightarrow> (errSuccess, Some p)) \<and>
    (t \<noteq> Null \<longrightarrow> (\<exists>k x. ErrFindNearest t key = (errSuccess, Some (k, x)) \<and> contents t k = Some x \<and>
      (\<forall>k' \<in> dom (contents t). \<not> (k < k' \<and> k' \<le> key) \<and> \<not> (key \<le> k' \<and> k' < k))))"
proof (intro conjI impI)
  have b: "bst t" using assms by (simp add: rbt_ok_def)
  show "ErrFindGreaterThanOrEqual t key =
      (case filter (\<lambda>p. key \<le> fst p) (entries t) of [] \<Rightarrow> (errEntryNotFound, None) | p # ps \<Rightarrow> (errSuccess, Some p))"
    by (simp add: ErrFindGreaterThanOrEqual_def GreaterEqualLoop_spec [OF b] split: list.splits)
  assume "t \<noteq> Null"
  then show "\<exists>k x. ErrFindNearest t key = (errSuccess, Some (k, x)) \<and> contents t k = Some x \<and>
      (\<forall>k' \<in> dom (contents t). \<not> (k < k' \<and> k' \<le> key) \<and> \<not> (key \<le> k' \<and> k' < k))"
    using NearestLoop_spec [OF b, of key] contents_Some [OF assms] by (auto simp: ErrFindNearest_def dom_contents)
qed

lemma rbt_ordered_search_witness:
  "ErrFindGreaterThanOrEqual (Node Black (Node Red Null 1 False Null) (4 :: nat) True Null) 2 = (errSuccess, Some (4, True)) \<and>
    (\<exists>k x. ErrFindNearest (Node Black (Node Red Null 1 False Null) (4 :: nat) True Null) 2 = (errSuccess, Some (k, x)))"
  using rbt_ordered_search [of "Node Black (Node Red Null 1 False Null) (4 :: nat) True Null" 2] by (auto simp: rbt_ok_def)

end
