(* ===== verification/Red_Black_Facade.thy ===== *)
theory Red_Black_Facade
  imports Red_Black_Props
begin

text \<open>
  \<open>CRedBlackTree\<close> of \<open>published/inc/collection.hxx\<close>: the invasive tree with nodes of its own.  The objects of
  the invasive tree are the addresses of the nodes, \<open>heap\<close> holds the data of those that are allocated; reading
  or freeing an address that is not is \<open>None\<close>.  The allocator \<open>new_node\<close> is a parameter, and whether
  an allocation succeeds is part of the operation.
\<close>

type_synonym addr = nat

record ('k, 'd) CRedBlackTree =
  m_irbtBase :: "('k, addr) node"
  heap :: "addr \<rightharpoonup> 'd"

subsection \<open>Operations\<close>

definition PnodeAlloc :: "((addr \<rightharpoonup> 'd) \<Rightarrow> addr) \<Rightarrow> bool \<Rightarrow> 'd \<Rightarrow> (addr \<rightharpoonup> 'd) \<Rightarrow> (addr \<times> (addr \<rightharpoonup> 'd)) option" where
  "PnodeAlloc new_node fMemory data h = (if fMemory then Some (new_node h, h(new_node h \<mapsto> data)) else None)"

definition Free_node :: "addr \<Rightarrow> (addr \<rightharpoonup> 'd) \<Rightarrow> (addr \<rightharpoonup> 'd) option" where
  "Free_node pnode h = (if pnode \<in> dom h then Some (h(pnode := None)) else None)"

text \<open>The out parameters: \<open>*pdata\<close> is written from the node when the search succeeds.\<close>

definition ErrFind_data :: "('k::linorder, 'd) CRedBlackTree \<Rightarrow> 'k \<Rightarrow> (ERR \<times> 'd option) option" where
  "ErrFind_data s key =
     (case ErrFind (m_irbtBase s) key of
        (err, Some pnode) \<Rightarrow> map_option (\<lambda>d. (err, Some d)) (heap s pnode)
      | (err, None) \<Rightarrow> Some (err, None))"

definition read_found :: "(addr \<rightharpoonup> 'd) \<Rightarrow> ERR \<times> ('k \<times> addr) option \<Rightarrow> (ERR \<times> ('k \<times> 'd) option) option" where
  "read_found h found =
     (case found of
        (err, Some (k, pnode)) \<Rightarrow> map_option (\<lambda>d. (err, Some (k, d))) (h pnode)
      | (err, None) \<Rightarrow> Some (err, None))"

definition ErrFindNearest_data :: "('k::linorder, 'd) CRedBlackTree \<Rightarrow> 'k \<Rightarrow> (ERR \<times> ('k \<times> 'd) option) option" where
  "ErrFindNearest_data s key = read_found (heap s) (ErrFindNearest (m_irbtBase s) key)"

definition ErrFindGreaterThanOrEqual_data ::
  "('k::linorder, 'd) CRedBlackTree \<Rightarrow> 'k \<Rightarrow> (ERR \<times> ('k \<times> 'd) option) option" where
  "ErrFindGreaterThanOrEqual_data s key = read_found (heap s) (ErrFindGreaterThanOrEqual (m_irbtBase s) key)"

definition ErrInsert_data ::
  "((addr \<rightharpoonup> 'd) \<Rightarrow> addr) \<Rightarrow> bool \<Rightarrow> 'k::linorder \<Rightarrow> 'd \<Rightarrow> ('k, 'd) CRedBlackTree \<Rightarrow> (ERR \<times> ('k, 'd) CRedBlackTree) option" where
  "ErrInsert_data new_node fMemory key data s =
     (case PnodeAlloc new_node fMemory data (heap s) of
        None \<Rightarrow> Some (errOutOfMemory, s)
      | Some (pnode, h) \<Rightarrow>
          Option.bind (ErrInsert key pnode (m_irbtBase s)) (\<lambda>(err, t).
          if err \<noteq> errSuccess
          then map_option (\<lambda>h. (err, s\<lparr>m_irbtBase := t, heap := h\<rparr>)) (Free_node pnode h)
          else Some (err, s\<lparr>m_irbtBase := t, heap := h\<rparr>)))"

definition ErrDelete_data :: "'k::linorder \<Rightarrow> ('k, 'd) CRedBlackTree \<Rightarrow> (ERR \<times> ('k, 'd) CRedBlackTree) option" where
  "ErrDelete_data key s =
     Option.bind (ErrDelete key (m_irbtBase s)) (\<lambda>(err, t, pnode).
     if err = errSuccess
     then Option.bind pnode (\<lambda>pnode. map_option (\<lambda>h. (err, s\<lparr>m_irbtBase := t, heap := h\<rparr>)) (Free_node pnode (heap s)))
     else Some (err, s\<lparr>m_irbtBase := t\<rparr>))"

text \<open>The children are freed before their parent.\<close>

fun MakeEmpty_node :: "('k, addr) node \<Rightarrow> (addr \<rightharpoonup> 'd) \<Rightarrow> (addr \<rightharpoonup> 'd) option" where
  "MakeEmpty_node Null h = Some h"
| "MakeEmpty_node (Node c l k pnode r) h =
     Option.bind (MakeEmpty_node l h) (\<lambda>h. Option.bind (MakeEmpty_node r h) (Free_node pnode))"

definition MakeEmpty_data :: "('k, 'd) CRedBlackTree \<Rightarrow> ('k, 'd) CRedBlackTree option" where
  "MakeEmpty_data s =
     (case m_irbtBase s of
        Null \<Rightarrow> Some s
      | Node c l k pnodeRoot r \<Rightarrow>
          Option.bind (MakeEmpty_node l (heap s)) (\<lambda>h.
          Option.bind (MakeEmpty_node r h) (\<lambda>h.
          map_option (\<lambda>h. s\<lparr>m_irbtBase := Null, heap := h\<rparr>) (Free_node pnodeRoot h))))"

subsection \<open>The invariant: the allocated nodes are those of the tree\<close>

definition one_key :: "('k \<rightharpoonup> addr) \<Rightarrow> bool" where
  "one_key m \<longleftrightarrow> (\<forall>k k' p. m k = Some p \<longrightarrow> m k' = Some p \<longrightarrow> k = k')"

definition facade_ok :: "('k::linorder, 'd) CRedBlackTree \<Rightarrow> bool" where
  "facade_ok s \<longleftrightarrow> rbt_ok (m_irbtBase s) \<and> one_key (contents (m_irbtBase s)) \<and> ran (contents (m_irbtBase s)) = dom (heap s)"

definition data_map :: "('k::linorder, 'd) CRedBlackTree \<Rightarrow> 'k \<rightharpoonup> 'd" where
  "data_map s k = Option.bind (contents (m_irbtBase s) k) (heap s)"

lemma one_key_upd: "one_key m \<Longrightarrow> p \<notin> ran m \<Longrightarrow> one_key (m(k \<mapsto> p))"
  unfolding one_key_def ran_def by (simp) blast

lemma one_key_del: "one_key m \<Longrightarrow> one_key (m(k := None))"
  by (auto simp: one_key_def)

lemma ran_upd: "k \<notin> dom m \<Longrightarrow> ran (m(k \<mapsto> p)) = insert p (ran m)"
  by (auto simp: ran_def)

lemma ran_del:
  assumes "one_key m" "m k = Some p"
  shows "ran (m(k := None)) = ran m - {p}"
proof -
  have "k' = k \<longleftrightarrow> x = p" if "m k' = Some x" for k' x
    using assms that unfolding one_key_def by auto
  then have "x \<in> ran (m(k := None)) \<longleftrightarrow> x \<in> ran m - {p}" for x
    unfolding ran_def by (auto split: if_splits)
  then show ?thesis by blast
qed

lemma facade_live: "facade_ok s \<Longrightarrow> contents (m_irbtBase s) k = Some p \<Longrightarrow> \<exists>d. heap s p = Some d"
  using ranI [of "contents (m_irbtBase s)" k p] by (auto simp: facade_ok_def dom_def)

lemma dom_data_map: "facade_ok s \<Longrightarrow> dom (data_map s) = dom (contents (m_irbtBase s))"
  by (auto simp: data_map_def bind_eq_Some_conv dest: facade_live)

lemma facade_distinct:
  assumes "facade_ok s"
  shows "distinct (map snd (entries (m_irbtBase s)))" "snd ` set (entries (m_irbtBase s)) = dom (heap s)"
proof -
  have t: "rbt_ok (m_irbtBase s)" using assms by (simp add: facade_ok_def)
  have "inj_on snd (set (entries (m_irbtBase s)))"
    using assms contents_Some [OF t] by (auto simp: inj_on_def facade_ok_def one_key_def)
  moreover have "distinct (entries (m_irbtBase s))"
    using bst_distinct [of "m_irbtBase s"] t by (auto simp: rbt_ok_def distinct_map)
  ultimately show "distinct (map snd (entries (m_irbtBase s)))" by (simp add: distinct_map)
  have "ran (contents (m_irbtBase s)) = snd ` set (entries (m_irbtBase s))"
    using contents_Some [OF t] by (force simp: ran_def)
  then show "snd ` set (entries (m_irbtBase s)) = dom (heap s)" using assms by (simp add: facade_ok_def)
qed

lemma find_data:
  "facade_ok s \<Longrightarrow> ErrFind_data s k = Some (if k \<in> dom (data_map s) then errSuccess else errEntryNotFound, data_map s k)"
  using rbt.get_law [of "m_irbtBase s" k] facade_live [of s k]
  by (cases "contents (m_irbtBase s) k") (auto simp: facade_ok_def ErrFind_data_def dom_data_map data_map_def dom_def)

lemma insert_data:
  assumes ok: "facade_ok s" and fresh: "\<And>h. finite (dom h) \<Longrightarrow> new_node h \<notin> dom h"
  shows "\<exists>s'. ErrInsert_data new_node fMemory k d s =
      Some (if \<not> fMemory then errOutOfMemory else if k \<in> dom (data_map s) then errDuplicateEntry else errSuccess, s') \<and>
    facade_ok s' \<and> data_map s' = (if fMemory \<and> k \<notin> dom (data_map s) then (data_map s)(k \<mapsto> d) else data_map s)"
proof (cases fMemory)
  case False
  then show ?thesis using ok by (simp add: ErrInsert_data_def PnodeAlloc_def)
next
  case True
  define t h p where "t = m_irbtBase s" and "h = heap s" and "p = new_node h"
  have t: "rbt_ok t" "one_key (contents t)" "ran (contents t) = dom h" using ok by (simp_all add: facade_ok_def t_def h_def)
  have fin: "finite (dom h)" using facade_distinct(2) [OF ok] by (metis List.finite_set finite_imageI h_def)
  have p: "p \<notin> dom h" "h p = None" using fresh [OF fin] by (auto simp: p_def)
  have dom: "dom (data_map s) = dom (contents t)" using dom_data_map [OF ok] by (simp add: t_def)
  obtain t' where t': "ErrInsert k p t = Some (if k \<in> dom (contents t) then errDuplicateEntry else errSuccess, t')" "rbt_ok t'"
      "contents t' = (if k \<in> dom (contents t) then contents t else (contents t)(k \<mapsto> p))"
    using rbt.ins_law [OF t(1)] by metis
  show ?thesis
  proof (cases "k \<in> dom (contents t)")
    case k: True
    have h: "(h(p \<mapsto> d))(p := None) = h" using p by auto
    have e: "contents t' = contents t" using t'(3) k by simp
    have "data_map (s\<lparr>m_irbtBase := t', heap := h\<rparr>) = data_map s" by (simp add: data_map_def fun_eq_iff e t_def h_def)
    then show ?thesis
      using t t'(1,2) k h dom True
      by (simp add: ErrInsert_data_def PnodeAlloc_def Free_node_def facade_ok_def e flip: t_def h_def p_def)
  next
    case k: False
    have e: "contents t' = (contents t)(k \<mapsto> p)" using t' k by simp
    have inv: "one_key (contents t')" "ran (contents t') = dom (h(p \<mapsto> d))"
      using one_key_upd [OF t(2)] ran_upd [OF k] t(3) p by (simp_all add: e)
    have "Option.bind (contents t k') (h(p \<mapsto> d)) = Option.bind (contents t k') h" for k'
      using t(3) p by (cases "contents t k'") (auto simp: ran_def)
    then have "data_map (s\<lparr>m_irbtBase := t', heap := h(p \<mapsto> d)\<rparr>) = (data_map s)(k \<mapsto> d)"
      by (simp add: data_map_def fun_eq_iff e t_def h_def)
    then show ?thesis
      using t'(1,2) k dom True inv
      by (simp add: ErrInsert_data_def PnodeAlloc_def facade_ok_def flip: t_def h_def p_def)
  qed
qed

lemma delete_data:
  assumes ok: "facade_ok s"
  shows "\<exists>s'. ErrDelete_data k s = Some (if k \<in> dom (data_map s) then errSuccess else errEntryNotFound, s') \<and>
    facade_ok s' \<and> data_map s' = (data_map s)(k := None)"
proof -
  define t h where "t = m_irbtBase s" and "h = heap s"
  have t: "rbt_ok t" "one_key (contents t)" "ran (contents t) = dom h" using ok by (simp_all add: facade_ok_def t_def h_def)
  have dom: "dom (data_map s) = dom (contents t)" using dom_data_map [OF ok] by (simp add: t_def)
  obtain t' where t': "ErrDelete k t = Some (if k \<in> dom (contents t) then errSuccess else errEntryNotFound, t', contents t k)"
      "rbt_ok t'" "contents t' = (contents t)(k := None)"
    using rbt.del_law [OF t(1)] by metis
  show ?thesis
  proof (cases "contents t k")
    case None
    then have e: "contents t' = contents t" and k: "k \<notin> dom (contents t)" using t'(3) by (auto simp: fun_upd_idem)
    have "data_map (s\<lparr>m_irbtBase := t'\<rparr>) = (data_map s)(k := None)"
      using None by (simp add: data_map_def fun_eq_iff e t_def h_def)
    then show ?thesis
      using t t'(1,2) k dom by (simp add: ErrDelete_data_def facade_ok_def e flip: t_def h_def)
  next
    case (Some p)
    have p: "p \<in> dom h" using t(3) Some by (auto simp: ran_def)
    have r: "ran (contents t') = dom (h(p := None))" using ran_del [OF t(2) Some] t(3) t'(3) by simp
    have d: "Option.bind (contents t k') (h(p := None)) = Option.bind (contents t k') h" if "k' \<noteq> k" for k'
      using t(2) Some that by (cases "contents t k'") (auto simp: one_key_def)
    have "data_map (s\<lparr>m_irbtBase := t', heap := h(p := None)\<rparr>) = (data_map s)(k := None)"
      using d by (simp add: data_map_def fun_eq_iff t'(3) t_def h_def)
    moreover have "k \<in> dom (contents t)" using Some by blast
    ultimately show ?thesis
      using t'(1,2) dom p r Some one_key_del [OF t(2), of k]
      by (simp add: ErrDelete_data_def Free_node_def facade_ok_def t'(3) flip: t_def h_def)
  qed
qed

lemma MakeEmpty_entries:
  "distinct (map snd (entries t)) \<Longrightarrow> snd ` set (entries t) \<subseteq> dom h \<Longrightarrow>
    MakeEmpty_node t h = Some (h |` (- snd ` set (entries t)))"
proof (induction t arbitrary: h)
  case (Node c l k p r)
  have d: "distinct (map snd (entries l))" "distinct (map snd (entries r))" "p \<notin> snd ` set (entries l)" "p \<notin> snd ` set (entries r)"
      "snd ` set (entries l) \<inter> snd ` set (entries r) = {}"
    using Node.prems(1) by auto
  have l: "MakeEmpty_node l h = Some (h |` (- snd ` set (entries l)))" using Node.prems(2) by (intro Node.IH(1) d(1)) auto
  have r: "MakeEmpty_node r (h |` (- snd ` set (entries l))) = Some (h |` (- snd ` set (entries l)) |` (- snd ` set (entries r)))"
    using Node.prems(2) d(5) by (intro Node.IH(2) d(2)) auto
  have "p \<in> dom h" using Node.prems(2) by auto
  then show ?case using l r d(3,4) by (auto simp: Free_node_def restrict_map_def fun_eq_iff)
qed (simp add: restrict_map_def)

lemma MakeEmpty_data_node: "MakeEmpty_data s = map_option (\<lambda>h. s\<lparr>m_irbtBase := Null, heap := h\<rparr>) (MakeEmpty_node (m_irbtBase s) (heap s))"
  by (cases "m_irbtBase s") (simp_all add: MakeEmpty_data_def map_option_bind o_def)

lemma make_empty_data: "facade_ok s \<Longrightarrow> MakeEmpty_data s = Some (s\<lparr>m_irbtBase := Null, heap := Map.empty\<rparr>)"
  using MakeEmpty_entries [of "m_irbtBase s" "heap s"] facade_distinct [of s]
  by (auto simp: MakeEmpty_data_node restrict_map_def dom_def fun_eq_iff)

subsection \<open>Scripts of operations\<close>

datatype ('k, 'd) data_op = Data_Insert 'k 'd bool | Data_Delete 'k | Data_Find 'k

fun data_step :: "((addr \<rightharpoonup> 'd) \<Rightarrow> addr) \<Rightarrow> ('k::linorder, 'd) data_op \<Rightarrow> ('k, 'd) CRedBlackTree \<Rightarrow>
    ('d map_answer \<times> ('k, 'd) CRedBlackTree) option" where
  "data_step new_node (Data_Insert k d fMemory) s =
     map_option (\<lambda>(err, s). (Answer err None, s)) (ErrInsert_data new_node fMemory k d s)"
| "data_step new_node (Data_Delete k) s = map_option (\<lambda>(err, s). (Answer err None, s)) (ErrDelete_data k s)"
| "data_step new_node (Data_Find k) s = map_option (\<lambda>(err, d). (Answer err d, s)) (ErrFind_data s k)"

fun data_run :: "((addr \<rightharpoonup> 'd) \<Rightarrow> addr) \<Rightarrow> ('k::linorder, 'd) data_op list \<Rightarrow> ('k, 'd) CRedBlackTree \<Rightarrow>
    ('d map_answer list \<times> ('k, 'd) CRedBlackTree) option" where
  "data_run new_node [] s = Some ([], s)"
| "data_run new_node (i # is) s =
     Option.bind (data_step new_node i s) (\<lambda>(a, s). map_option (\<lambda>(as, s). (a # as, s)) (data_run new_node is s))"

fun data_spec :: "('k, 'd) data_op \<Rightarrow> ('k \<rightharpoonup> 'd) \<Rightarrow> 'd map_answer \<times> ('k \<rightharpoonup> 'd)" where
  "data_spec (Data_Insert k d fMemory) m =
     (if \<not> fMemory then (Answer errOutOfMemory None, m)
      else if k \<in> dom m then (Answer errDuplicateEntry None, m) else (Answer errSuccess None, m(k \<mapsto> d)))"
| "data_spec (Data_Delete k) m = (Answer (if k \<in> dom m then errSuccess else errEntryNotFound) None, m(k := None))"
| "data_spec (Data_Find k) m = (Answer (if k \<in> dom m then errSuccess else errEntryNotFound) (m k), m)"

fun data_spec_run :: "('k, 'd) data_op list \<Rightarrow> ('k \<rightharpoonup> 'd) \<Rightarrow> 'd map_answer list \<times> ('k \<rightharpoonup> 'd)" where
  "data_spec_run [] m = ([], m)"
| "data_spec_run (i # is) m = (let (a, m) = data_spec i m; (as, m) = data_spec_run is m in (a # as, m))"

lemma data_step_refines:
  assumes "facade_ok s" "\<And>h. finite (dom h) \<Longrightarrow> new_node h \<notin> dom h"
  shows "\<exists>s'. data_step new_node i s = Some (fst (data_spec i (data_map s)), s') \<and> facade_ok s' \<and>
    data_map s' = snd (data_spec i (data_map s))"
proof (cases i)
  case (Data_Insert k d fMemory)
  then show ?thesis using insert_data [OF assms, of fMemory k d] by auto
next
  case (Data_Delete k)
  then show ?thesis using delete_data [OF assms(1), of k] by auto
next
  case (Data_Find k)
  then show ?thesis using find_data [OF assms(1), of k] assms(1) by auto
qed

lemma data_run_refines:
  assumes "facade_ok s" "\<And>h. finite (dom h) \<Longrightarrow> new_node h \<notin> dom h"
  shows "\<exists>s'. data_run new_node is s = Some (fst (data_spec_run is (data_map s)), s') \<and> facade_ok s' \<and>
    data_map s' = snd (data_spec_run is (data_map s))"
  using assms(1)
proof (induction "is" arbitrary: s)
  case (Cons i "is")
  obtain s1 where s1: "data_step new_node i s = Some (fst (data_spec i (data_map s)), s1)" "facade_ok s1"
      "data_map s1 = snd (data_spec i (data_map s))"
    using data_step_refines [OF Cons.prems assms(2)] by blast
  obtain s2 where "data_run new_node is s1 = Some (fst (data_spec_run is (data_map s1)), s2)" "facade_ok s2"
      "data_map s2 = snd (data_spec_run is (data_map s1))"
    using Cons.IH [OF s1(2)] by blast
  then show ?case using s1 by (auto simp: Let_def split: prod.splits)
qed simp

lemma empty_facade [simp]:
  "facade_ok \<lparr>m_irbtBase = Null, heap = Map.empty\<rparr>" "data_map \<lparr>m_irbtBase = Null, heap = Map.empty\<rparr> = Map.empty"
  by (auto simp: facade_ok_def data_map_def one_key_def)

lemma searches_live:
  assumes ok: "facade_ok s"
  shows "ErrFindNearest_data s key \<noteq> None" "ErrFindGreaterThanOrEqual_data s key \<noteq> None"
proof -
  have t: "rbt_ok (m_irbtBase s)" "bst (m_irbtBase s)" using ok by (simp_all add: facade_ok_def rbt_ok_def)
  have live: "\<exists>d. heap s p = Some d" if "(k, p) \<in> set (entries (m_irbtBase s))" for k p
    using facade_live [OF ok] contents_Some [OF t(1)] that by blast
  show "ErrFindNearest_data s key \<noteq> None"
    using NearestLoop_spec [OF t(2), of key] live
    by (cases "m_irbtBase s = Null") (fastforce simp: ErrFindNearest_data_def read_found_def ErrFindNearest_def)+
  show "ErrFindGreaterThanOrEqual_data s key \<noteq> None"
  proof (cases "filter (\<lambda>p. key \<le> fst p) (entries (m_irbtBase s))")
    case (Cons p ps)
    then have "p \<in> set (entries (m_irbtBase s))" by (metis filter_is_subset list.set_intros(1) subsetD)
    then show ?thesis using live [of "fst p" "snd p"] Cons
      by (auto simp: ErrFindGreaterThanOrEqual_data_def read_found_def ErrFindGreaterThanOrEqual_def GreaterEqualLoop_spec [OF t(2)]
          split: prod.splits)
  qed (simp add: ErrFindGreaterThanOrEqual_data_def read_found_def ErrFindGreaterThanOrEqual_def GreaterEqualLoop_spec [OF t(2)])
qed

text \<open>
  C33: Whatever allocations fail, a sequence of operations on \<open>CRedBlackTree\<close> answers as a finite map that
  refuses an insertion when memory is short; no node is read or freed after it was freed, none is
  lost, and emptying the tree frees every node that is left.
\<close>
theorem facade_no_leak:
  assumes "facade_ok s" "\<And>h. finite (dom h) \<Longrightarrow> new_node h \<notin> dom h"
  shows "\<exists>s'. data_run new_node is s = Some (fst (data_spec_run is (data_map s)), s') \<and>
    data_map s' = snd (data_spec_run is (data_map s)) \<and> ran (contents (m_irbtBase s')) = dom (heap s') \<and>
    MakeEmpty_data s' = Some (s'\<lparr>m_irbtBase := Null, heap := Map.empty\<rparr>)"
  using data_run_refines [OF assms] make_empty_data by (metis facade_ok_def)

lemma Max_fresh: "finite (dom h) \<Longrightarrow> Suc (Max (insert 0 (dom h))) \<notin> dom h"
  using Max_ge [of "insert 0 (dom h)" "Suc (Max (insert 0 (dom h)))"] by fastforce

lemma facade_no_leak_witness:
  "\<exists>s'. data_run (\<lambda>h. Suc (Max (insert 0 (dom h))))
      [Data_Insert (5 :: nat) True True, Data_Insert 5 False True, Data_Insert 7 False False, Data_Delete 5]
      \<lparr>m_irbtBase = Null, heap = Map.empty\<rparr> =
    Some ([Answer errSuccess None, Answer errDuplicateEntry None, Answer errOutOfMemory None, Answer errSuccess None], s') \<and>
    MakeEmpty_data s' = Some (s'\<lparr>m_irbtBase := Null, heap := Map.empty\<rparr>)"
  using facade_no_leak [of "\<lparr>m_irbtBase = Null, heap = Map.empty\<rparr>" "\<lambda>h. Suc (Max (insert 0 (dom h)))"
      "[Data_Insert (5 :: nat) True True, Data_Insert 5 False True, Data_Insert 7 False False, Data_Delete 5]", OF _ Max_fresh]
  by (auto simp: Let_def)

end
