(* ===== verification/Node_Key.thy ===== *)
theory Node_Key
  imports Ese_Prelude "HOL-Library.List_Lexorder"
begin

text \<open>
  Keys, data and their comparison (\<open>src/inc/daedef.hxx\<close>).  A key is kept in two pieces, the prefix it
  shares with other keys of its page and the suffix stored with the node.  This theory works on the
  bytes of the pieces; a read behind the end of a piece is \<open>None\<close>.
\<close>

subsection \<open>The structures\<close>

datatype 'd KEY = KEY (prefix: 'd) (suffix: 'd)

datatype 'd BOOKMARK = BOOKMARK (bm_key: "'d KEY") (bm_data: 'd)

datatype 'd KEYDATAFLAGS = KDF (kdf_key: "'d KEY") (kdf_data: 'd) (kdf_fFlags: u16)

type_synonym bytes = "u8 list"

abbreviation Cb :: "bytes \<Rightarrow> int" where
  "Cb d \<equiv> int (length d)"

definition KEY_Cb :: "bytes KEY \<Rightarrow> int" where
  "KEY_Cb key = Cb (prefix key) + Cb (suffix key)"

definition KEY_FNull :: "bytes KEY \<Rightarrow> bool" where
  "KEY_FNull key \<longleftrightarrow> Cb (prefix key) = 0 \<and> Cb (suffix key) = 0"

text \<open>\<open>KEY::CopyIntoBuffer\<close>, with the buffer as a list of bytes.\<close>

definition CopyIntoBuffer :: "bytes KEY \<Rightarrow> bytes \<Rightarrow> int \<Rightarrow> bytes" where
  "CopyIntoBuffer key pvDest cbMax =
     (let cbPrefix = max 0 (Cb (prefix key));
          cbSuffix = max 0 (Cb (suffix key));
          pvDest = take (nat (min cbPrefix cbMax)) (prefix key) @ drop (nat (min cbPrefix cbMax)) pvDest;
          cbCopy = max 0 (min cbSuffix (cbMax - cbPrefix))
      in take (nat cbPrefix) pvDest @ take (nat cbCopy) (suffix key) @ drop (nat (cbPrefix + cbCopy)) pvDest)"

definition Advance :: "int \<Rightarrow> bytes KEY \<Rightarrow> bytes KEY" where
  "Advance cb key =
     (if cb < 0 then key
      else if cb < Cb (prefix key) then KEY (drop (nat cb) (prefix key)) (suffix key)
      else KEY [] (drop (nat (cb - Cb (prefix key))) (suffix key)))"

subsection \<open>Comparison\<close>

text \<open>The sign of the first difference, as \<open>memcmp\<close> returns it.\<close>

fun byte_cmp :: "bytes \<Rightarrow> bytes \<Rightarrow> int" where
  "byte_cmp (x # xs) (y # ys) = (if x < y then -1 else if y < x then 1 else byte_cmp xs ys)"
| "byte_cmp xs ys = 0"

definition memcmp :: "bytes \<Rightarrow> bytes \<Rightarrow> int \<Rightarrow> int option" where
  "memcmp pb1 pb2 cb =
     (if 0 \<le> cb \<and> cb \<le> Cb pb1 \<and> cb \<le> Cb pb2 then Some (byte_cmp (take (nat cb) pb1) (take (nat cb) pb2))
      else None)"

definition CmpData :: "bytes \<Rightarrow> bytes \<Rightarrow> int option" where
  "CmpData data1 data2 =
     (let db = Cb data1 - Cb data2
      in map_option (\<lambda>cmp. if cmp = 0 then db else cmp) (memcmp data1 data2 (if db < 0 then Cb data1 else Cb data2)))"

definition FDataEqual :: "bytes \<Rightarrow> bytes \<Rightarrow> bool option" where
  "FDataEqual data1 data2 =
     (if Cb data1 = Cb data2 then map_option (\<lambda>cmp. cmp = 0) (memcmp data1 data2 (Cb data1)) else Some False)"

text \<open>
  \<open>CmpKeyShortest\<close>.  The test whether the two prefixes are at the same address only saves the
  comparison of equal bytes.
\<close>

definition CmpKeyShortest :: "bytes KEY \<Rightarrow> bytes KEY \<Rightarrow> int option" where
  "CmpKeyShortest key1 key2 =
     (let fReversed = (\<not> Cb (prefix key1) < Cb (prefix key2));
          keySmallestPrefix = (if fReversed then key2 else key1);
          keyLargestPrefix = (if fReversed then key1 else key2);
          cbCompare = Cb (prefix keySmallestPrefix)
      in Option.bind (memcmp (prefix keySmallestPrefix) (prefix keyLargestPrefix) cbCompare) (\<lambda>cmp.
         map_option (\<lambda>cmp. if fReversed then - cmp else cmp)
           (if cmp \<noteq> 0 then Some cmp
            else
              let pb1 = suffix keySmallestPrefix;
                  pb2 = drop (nat cbCompare) (prefix keyLargestPrefix);
                  cbCompare = min (Cb (prefix keyLargestPrefix) - cbCompare) (Cb (suffix keySmallestPrefix))
              in Option.bind (memcmp pb1 pb2 cbCompare) (\<lambda>cmp.
                 if cmp \<noteq> 0 then Some cmp
                 else
                   let pb1 = drop (nat cbCompare) pb1;
                       pb2 = suffix keyLargestPrefix;
                       cbCompare = min (Cb (suffix keySmallestPrefix) - cbCompare) (Cb (suffix keyLargestPrefix))
                   in memcmp pb1 pb2 cbCompare))))"

definition CmpKey :: "bytes KEY \<Rightarrow> bytes KEY \<Rightarrow> int option" where
  "CmpKey key1 key2 =
     map_option (\<lambda>cmp. if cmp = 0 then KEY_Cb key1 - KEY_Cb key2 else cmp) (CmpKeyShortest key1 key2)"

definition CmpKey_pv :: "bytes \<Rightarrow> bytes \<Rightarrow> int option" where
  "CmpKey_pv pvkey1 pvkey2 = CmpKey (KEY [] pvkey1) (KEY [] pvkey2)"

definition FKeysEqual :: "bytes KEY \<Rightarrow> bytes KEY \<Rightarrow> bool option" where
  "FKeysEqual key1 key2 =
     (if KEY_Cb key1 = KEY_Cb key2 then map_option (\<lambda>cmp. cmp = 0) (CmpKeyShortest key1 key2) else Some False)"

definition CmpKeyData :: "bytes BOOKMARK \<Rightarrow> bytes BOOKMARK \<Rightarrow> int option" where
  "CmpKeyData kd1 kd2 =
     Option.bind (CmpKey (bm_key kd1) (bm_key kd2)) (\<lambda>cmp.
     if cmp = 0 then CmpData (bm_data kd1) (bm_data kd2) else Some cmp)"

definition CmpBM :: "bytes BOOKMARK \<Rightarrow> bytes BOOKMARK \<Rightarrow> int option" where
  "CmpBM bm1 bm2 = CmpKeyData bm1 bm2"

definition CmpKeyWithKeyData :: "bytes KEY \<Rightarrow> bytes BOOKMARK \<Rightarrow> int option" where
  "CmpKeyWithKeyData key keydata =
     (let keySegment1 = bm_key keydata;
          keySegment2 = KEY [] (bm_data keydata)
      in Option.bind (CmpKeyShortest key keySegment1) (\<lambda>cmp.
         map_option (\<lambda>cmp. if cmp = 0 then KEY_Cb key - (KEY_Cb (bm_key keydata) + Cb (bm_data keydata)) else cmp)
           (if cmp = 0 \<and> KEY_Cb key > KEY_Cb keySegment1
            then CmpKeyShortest (Advance (KEY_Cb keySegment1) key) keySegment2
            else Some cmp)))"

subsection \<open>Common bytes\<close>

fun CommonDataLoop :: "bytes \<Rightarrow> bytes \<Rightarrow> nat \<Rightarrow> nat" where
  "CommonDataLoop (x # pb1) (y # pb2) ib = (if x = y then CommonDataLoop pb1 pb2 (ib + 1) else ib)"
| "CommonDataLoop pb1 pb2 ib = ib"

definition CbCommonData :: "bytes \<Rightarrow> bytes \<Rightarrow> nat" where
  "CbCommonData data1 data2 = CommonDataLoop data1 data2 0"

text \<open>
  \<open>CbCommonKey\<close> walks two pointers, each of which changes to the suffix of its key at the
  end of the prefix.  \<open>fSamePv\<close> says that the two prefixes are at the same address, where the walk may start
  behind the shorter one.
\<close>

function CommonKeyLoop :: "bytes KEY \<Rightarrow> bytes KEY \<Rightarrow> nat \<Rightarrow> nat \<Rightarrow> bytes \<Rightarrow> bytes \<Rightarrow> nat option" where
  "CommonKeyLoop key1 key2 cbMax ib pb1 pb2 =
     (if ib < cbMax then
        let pb1 = (if length (prefix key1) = ib then suffix key1 else pb1);
            pb2 = (if length (prefix key2) = ib then suffix key2 else pb2)
        in if pb1 = [] \<or> pb2 = [] then None
           else if hd pb1 \<noteq> hd pb2 then Some ib
           else CommonKeyLoop key1 key2 cbMax (ib + 1) (tl pb1) (tl pb2)
      else Some ib)"
  by pat_completeness auto
termination
  by (relation "measure (\<lambda>(key1, key2, cbMax, ib, pb1, pb2). cbMax - ib)") auto

declare CommonKeyLoop.simps [simp del]

definition CbCommonKey :: "bool \<Rightarrow> bytes KEY \<Rightarrow> bytes KEY \<Rightarrow> nat option" where
  "CbCommonKey fSamePv key1 key2 =
     (let cbMax = nat (min (KEY_Cb key1) (KEY_Cb key2));
          ib = (if fSamePv then min (length (prefix key1)) (length (prefix key2)) else 0)
      in CommonKeyLoop key1 key2 cbMax ib (drop ib (prefix key1)) (drop ib (prefix key2)))"

subsection \<open>Numbers as keys\<close>

definition KeyFromLong :: "u32 \<Rightarrow> bytes" where
  "KeyFromLong ul = [ucast (drop_bit 24 ul), ucast (drop_bit 16 ul), ucast (drop_bit 8 ul), ucast ul]"

definition LongFromKey :: "bytes \<Rightarrow> u32" where
  "LongFromKey rgbKey =
     push_bit 24 (ucast (rgbKey ! 0)) OR push_bit 16 (ucast (rgbKey ! 1)) OR push_bit 8 (ucast (rgbKey ! 2)) OR
     ucast (rgbKey ! 3)"

definition LongFromKEY :: "bytes KEY \<Rightarrow> u32" where
  "LongFromKEY key = LongFromKey (CopyIntoBuffer key [0, 0, 0, 0] 4)"

subsection \<open>The order the comparisons compute\<close>

text \<open>The bytes of a key are those of its two pieces; keys are ordered as lists of bytes.\<close>

definition key_bytes :: "bytes KEY \<Rightarrow> bytes" where
  "key_bytes key = prefix key @ suffix key"

definition order_cmp :: "bytes \<Rightarrow> bytes \<Rightarrow> int" where
  "order_cmp xs ys = (if byte_cmp xs ys = 0 then Cb xs - Cb ys else byte_cmp xs ys)"

lemma KEY_Cb_bytes: "KEY_Cb key = Cb (key_bytes key)"
  by (simp add: KEY_Cb_def key_bytes_def)

lemma byte_cmp_Nil [simp]: "byte_cmp xs [] = 0"
  by (cases xs) simp_all

lemma byte_cmp_refl [simp]: "byte_cmp xs xs = 0"
  by (induction xs) simp_all

lemma Nil_less_iff [simp]: "[] < (ys :: bytes) \<longleftrightarrow> ys \<noteq> []"
  by (cases ys) simp_all

lemma nat_min_int: "nat (min a b) = min (nat a) (nat b)"
  by (simp add: min_def)

lemma byte_cmp_append:
  "length a = length b \<Longrightarrow> byte_cmp (a @ xs) (b @ ys) = (if byte_cmp a b = 0 then byte_cmp xs ys else byte_cmp a b)"
  by (induction a b rule: byte_cmp.induct) auto

lemma byte_cmp_take:
  "byte_cmp (take (min (length xs) (length ys)) xs) (take (min (length xs) (length ys)) ys) = byte_cmp xs ys"
  by (induction xs ys rule: byte_cmp.induct) auto

lemma byte_cmp_flip: "byte_cmp ys xs = - byte_cmp xs ys"
  by (induction xs ys rule: byte_cmp.induct) auto

lemma order_cmp_less: "order_cmp xs ys < 0 \<longleftrightarrow> xs < ys"
  unfolding order_cmp_def by (induction xs ys rule: byte_cmp.induct) (auto split: if_splits)

lemma order_cmp_flip: "order_cmp ys xs = - order_cmp xs ys"
  by (simp add: order_cmp_def byte_cmp_flip [of ys xs])

lemma order_cmp_greater: "0 < order_cmp xs ys \<longleftrightarrow> ys < xs"
  using order_cmp_less [of ys xs] order_cmp_flip [of ys xs] by linarith

lemma order_cmp_zero: "order_cmp xs ys = 0 \<longleftrightarrow> xs = ys"
  using order_cmp_less [of xs ys] order_cmp_greater [of xs ys] by (metis less_irrefl linorder_less_linear)

lemma memcmp_shortest:
  "cb = min (Cb xs) (Cb ys) \<Longrightarrow> memcmp xs ys cb = Some (byte_cmp xs ys)"
  using byte_cmp_take [of xs ys] by (simp add: memcmp_def nat_min_int min_def split: if_splits)

lemma CmpData_spec: "CmpData xs ys = Some (order_cmp xs ys)"
proof -
  have "(if Cb xs - Cb ys < 0 then Cb xs else Cb ys) = min (Cb xs) (Cb ys)" by simp
  then show ?thesis using memcmp_shortest [of "min (Cb xs) (Cb ys)" xs ys]
    by (simp only: CmpData_def Let_def) (simp add: order_cmp_def)
qed

lemma FDataEqual_spec: "FDataEqual xs ys = Some (xs = ys)"
  using memcmp_shortest [of "Cb xs" xs ys] order_cmp_zero [of xs ys]
  by (auto simp: FDataEqual_def order_cmp_def)

text \<open>Two walks over pieces, the first piece of the one not longer than that of the other.\<close>

lemma byte_cmp_pieces:
  assumes "length p1 \<le> length p2"
  shows "byte_cmp (p1 @ s1) (p2 @ s2) =
    (let c = byte_cmp p1 p2; d = drop (length p1) p2; c' = byte_cmp s1 d
     in if c \<noteq> 0 then c else if c' \<noteq> 0 then c' else byte_cmp (drop (length d) s1) s2)"
proof -
  define d where "d = drop (length p1) p2"
  have p2: "p2 = take (length p1) p2 @ d" by (simp add: d_def)
  have len: "length (take (length p1) p2) = length p1" using assms by simp
  have c: "byte_cmp p1 p2 = byte_cmp p1 (take (length p1) p2)"
    using byte_cmp_take [of p1 p2] assms by (simp add: min_def)
  have "byte_cmp (p1 @ s1) (p2 @ s2) = (if byte_cmp p1 p2 = 0 then byte_cmp s1 (d @ s2) else byte_cmp p1 p2)"
    using byte_cmp_append [of p1 "take (length p1) p2" s1 "d @ s2"] len c p2 by (metis append.assoc)
  moreover have "byte_cmp s1 (d @ s2) = (if byte_cmp s1 d \<noteq> 0 then byte_cmp s1 d else byte_cmp (drop (length d) s1) s2)"
  proof (cases "length d \<le> length s1")
    case True
    have "byte_cmp s1 d = byte_cmp (take (length d) s1) d"
      using byte_cmp_take [of s1 d] True by (simp add: min_absorb2)
    then show ?thesis
      using byte_cmp_append [of "take (length d) s1" d "drop (length d) s1" s2] True by simp
  next
    case False
    have "byte_cmp s1 (d @ s2) = byte_cmp s1 (take (length s1) d)"
      using byte_cmp_take [of s1 "d @ s2"] False by (simp add: min_absorb1)
    then show ?thesis using byte_cmp_take [of s1 d] False by (simp add: min_absorb1)
  qed
  ultimately show ?thesis by (simp add: Let_def d_def)
qed

lemma CmpKeyShortest_half:
  assumes "length (prefix k1) \<le> length (prefix k2)"
  shows "Option.bind (memcmp (prefix k1) (prefix k2) (Cb (prefix k1))) (\<lambda>cmp.
    map_option f (if cmp \<noteq> 0 then Some cmp
      else Option.bind (memcmp (suffix k1) (drop (length (prefix k1)) (prefix k2))
             (min (Cb (prefix k2) - Cb (prefix k1)) (Cb (suffix k1)))) (\<lambda>cmp.
           if cmp \<noteq> 0 then Some cmp
           else memcmp (drop (nat (min (Cb (prefix k2) - Cb (prefix k1)) (Cb (suffix k1)))) (suffix k1)) (suffix k2)
             (min (Cb (suffix k1) - min (Cb (prefix k2) - Cb (prefix k1)) (Cb (suffix k1))) (Cb (suffix k2)))))) =
    Some (f (byte_cmp (key_bytes k1) (key_bytes k2)))"
proof -
  define d where "d = drop (length (prefix k1)) (prefix k2)"
  have ld: "Cb d = Cb (prefix k2) - Cb (prefix k1)" using assms by (simp add: d_def)
  have 1: "memcmp (prefix k1) (prefix k2) (Cb (prefix k1)) = Some (byte_cmp (prefix k1) (prefix k2))"
    using assms by (intro memcmp_shortest) simp
  have 2: "memcmp (suffix k1) d (min (Cb d) (Cb (suffix k1))) = Some (byte_cmp (suffix k1) d)"
    by (intro memcmp_shortest) simp
  have dr: "drop (nat (min (Cb d) (Cb (suffix k1)))) (suffix k1) = drop (length d) (suffix k1)"
    by (simp add: nat_min_int min_def)
  have "min (Cb (suffix k1) - min (Cb d) (Cb (suffix k1))) (Cb (suffix k2)) =
      min (Cb (drop (length d) (suffix k1))) (Cb (suffix k2))"
    by (cases "length d \<le> length (suffix k1)") simp_all
  note 3 = memcmp_shortest [OF this]
  note P = byte_cmp_pieces [OF assms, of "suffix k1" "suffix k2", folded key_bytes_def d_def]
  show ?thesis unfolding ld [symmetric] d_def [symmetric] 1 dr
    by (auto simp: 2 3 P Let_def)
qed

lemma CmpKeyShortest_spec: "CmpKeyShortest k1 k2 = Some (byte_cmp (key_bytes k1) (key_bytes k2))"
proof (cases "Cb (prefix k1) < Cb (prefix k2)")
  case True
  then show ?thesis
    using CmpKeyShortest_half [of k1 k2 "\<lambda>c. c", OF less_imp_le [OF True [unfolded of_nat_less_iff]]] by (simp only: CmpKeyShortest_def Let_def True simp_thms if_True if_False nat_int)
next
  case False
  then show ?thesis
    using CmpKeyShortest_half [of k2 k1 uminus, OF leI [OF False [unfolded of_nat_less_iff]]]
    by (simp only: CmpKeyShortest_def Let_def False simp_thms if_True if_False nat_int
        byte_cmp_flip [of "key_bytes k1" "key_bytes k2"] minus_minus)
qed

lemma CmpKey_spec: "CmpKey k1 k2 = Some (order_cmp (key_bytes k1) (key_bytes k2))"
  by (simp add: CmpKey_def CmpKeyShortest_spec order_cmp_def KEY_Cb_bytes)

lemma FKeysEqual_spec: "FKeysEqual k1 k2 = Some (key_bytes k1 = key_bytes k2)"
  using order_cmp_zero [of "key_bytes k1" "key_bytes k2"]
  by (auto simp: FKeysEqual_def CmpKeyShortest_spec order_cmp_def KEY_Cb_bytes)

lemma CmpKeyData_spec:
  "CmpKeyData kd1 kd2 = Some (if key_bytes (bm_key kd1) = key_bytes (bm_key kd2) then order_cmp (bm_data kd1) (bm_data kd2)
    else order_cmp (key_bytes (bm_key kd1)) (key_bytes (bm_key kd2)))"
  by (simp add: CmpKeyData_def CmpKey_spec CmpData_spec order_cmp_zero)

lemma key_bytes_Advance: "0 \<le> cb \<Longrightarrow> key_bytes (Advance cb key) = drop (nat cb) (key_bytes key)"
  by (simp add: Advance_def key_bytes_def nat_diff_distrib)

lemma CmpKeyWithKeyData_spec:
  "CmpKeyWithKeyData key kd = Some (order_cmp (key_bytes key) (key_bytes (bm_key kd) @ bm_data kd))"
proof -
  define a b d where "a = key_bytes key" and "b = key_bytes (bm_key kd)" and "d = bm_data kd"
  have adv: "key_bytes (Advance (KEY_Cb (bm_key kd)) key) = drop (length b) a" "key_bytes (KEY [] d) = d"
    by (simp_all add: key_bytes_Advance KEY_Cb_bytes a_def b_def) (simp add: key_bytes_def)
  have "byte_cmp a (b @ d) = (if byte_cmp a b = 0 \<and> length a > length b then byte_cmp (drop (length b) a) d else byte_cmp a b)"
    using byte_cmp_pieces [of "[]" b a d] by (auto simp: Let_def)
  then show ?thesis
    using adv by (auto simp: CmpKeyWithKeyData_def CmpKeyShortest_spec KEY_Cb_bytes order_cmp_def Let_def
        simp flip: a_def b_def d_def)
qed

subsection \<open>Common bytes and copies\<close>

fun common_prefix :: "bytes \<Rightarrow> bytes \<Rightarrow> nat" where
  "common_prefix (x # xs) (y # ys) = (if x = y then Suc (common_prefix xs ys) else 0)"
| "common_prefix xs ys = 0"

lemma common_prefix_le: "common_prefix xs ys \<le> length xs" "common_prefix xs ys \<le> length ys"
  by (induction xs ys rule: common_prefix.induct) auto

lemma take_common_prefix: "take (common_prefix xs ys) xs = take (common_prefix xs ys) ys"
  by (induction xs ys rule: common_prefix.induct) auto

lemma common_prefix_Nil [simp]: "common_prefix xs [] = 0"
  by (cases xs) simp_all

lemma common_prefix_append: "take n xs = take n ys \<Longrightarrow> n \<le> length xs \<Longrightarrow> n \<le> length ys \<Longrightarrow>
    common_prefix xs ys = n + common_prefix (drop n xs) (drop n ys)"
proof (induction n arbitrary: xs ys)
  case (Suc n)
  then show ?case by (cases xs; cases ys) auto
qed simp

lemma CbCommonData_spec: "CbCommonData xs ys = common_prefix xs ys"
proof -
  have "CommonDataLoop xs ys ib = ib + common_prefix xs ys" for ib
    by (induction xs ys ib rule: CommonDataLoop.induct) auto
  then show ?thesis by (simp add: CbCommonData_def)
qed

text \<open>The walk: each pointer is at byte \<open>ib\<close> of its key.\<close>

definition walk_at :: "bytes KEY \<Rightarrow> nat \<Rightarrow> bytes \<Rightarrow> bool" where
  "walk_at key ib pb \<longleftrightarrow> (if ib \<le> length (prefix key) then pb = drop ib (prefix key)
     else pb = drop (ib - length (prefix key)) (suffix key))"

lemma walk_step:
  assumes "walk_at key ib pb" "ib < length (key_bytes key)"
  defines "pb' \<equiv> if length (prefix key) = ib then suffix key else pb"
  shows "pb' \<noteq> []" "hd pb' = key_bytes key ! ib" "walk_at key (ib + 1) (tl pb')"
proof -
  consider "ib < length (prefix key)" | "ib = length (prefix key)" | "length (prefix key) < ib" by linarith
  then have "pb' \<noteq> [] \<and> hd pb' = key_bytes key ! ib \<and> walk_at key (ib + 1) (tl pb')"
  proof cases
    case 1
    then show ?thesis using assms
      by (auto simp: walk_at_def pb'_def key_bytes_def hd_drop_conv_nth nth_append tl_drop drop_Suc)
  next
    case 2
    then show ?thesis using assms
      by (auto simp: walk_at_def pb'_def key_bytes_def nth_append hd_conv_nth drop_Suc)
  next
    case 3
    then show ?thesis using assms
      by (auto simp: walk_at_def pb'_def key_bytes_def hd_drop_conv_nth nth_append tl_drop drop_Suc Suc_diff_le)
  qed
  then show "pb' \<noteq> []" "hd pb' = key_bytes key ! ib" "walk_at key (ib + 1) (tl pb')" by simp_all
qed

lemma CommonKeyLoop_spec:
  assumes "walk_at k1 ib pb1" "walk_at k2 ib pb2" "cbMax = min (length (key_bytes k1)) (length (key_bytes k2))" "ib \<le> cbMax"
  shows "CommonKeyLoop k1 k2 cbMax ib pb1 pb2 =
    Some (ib + common_prefix (drop ib (key_bytes k1)) (drop ib (key_bytes k2)))"
  using assms
proof (induction "cbMax - ib" arbitrary: ib pb1 pb2)
  case 0
  then show ?case by (cases "length (key_bytes k1) \<le> length (key_bytes k2)") (simp_all add: CommonKeyLoop.simps)
next
  case (Suc n)
  have ib: "ib < cbMax" "ib < length (key_bytes k1)" "ib < length (key_bytes k2)" using Suc by auto
  note w1 = walk_step [OF Suc.prems(1) ib(2)] and w2 = walk_step [OF Suc.prems(2) ib(3)]
  have d: "drop ib (key_bytes k1) = key_bytes k1 ! ib # drop (Suc ib) (key_bytes k1)"
      "drop ib (key_bytes k2) = key_bytes k2 ! ib # drop (Suc ib) (key_bytes k2)"
    using ib by (simp_all add: Cons_nth_drop_Suc)
  have "n = cbMax - (ib + 1)" "ib + 1 \<le> cbMax" using Suc.hyps(2) ib by simp_all
  note IH = Suc.hyps(1) [OF this(1) w1(3) w2(3) Suc.prems(3) this(2)]
  show ?case
    by (subst CommonKeyLoop.simps) (use ib(1) w1 w2 IH d in \<open>simp add: Let_def\<close>)
qed

lemma CbCommonKey_spec:
  assumes "fSamePv \<Longrightarrow> take (min (length (prefix k1)) (length (prefix k2))) (prefix k1) =
      take (min (length (prefix k1)) (length (prefix k2))) (prefix k2)"
  shows "CbCommonKey fSamePv k1 k2 = Some (common_prefix (key_bytes k1) (key_bytes k2))"
proof -
  define ib where "ib = (if fSamePv then min (length (prefix k1)) (length (prefix k2)) else 0)"
  have ib: "ib \<le> length (prefix k1)" "ib \<le> length (prefix k2)" by (auto simp: ib_def)
  have t: "take ib (key_bytes k1) = take ib (key_bytes k2)" using assms ib by (auto simp: ib_def key_bytes_def)
  have w: "walk_at k1 ib (drop ib (prefix k1))" "walk_at k2 ib (drop ib (prefix k2))" using ib by (simp_all add: walk_at_def)
  have "CbCommonKey fSamePv k1 k2 = Some (ib + common_prefix (drop ib (key_bytes k1)) (drop ib (key_bytes k2)))"
    unfolding CbCommonKey_def Let_def ib_def [symmetric] KEY_Cb_bytes
    by (intro CommonKeyLoop_spec w) (use ib in \<open>auto simp: nat_min_int key_bytes_def\<close>)
  then show ?thesis using common_prefix_append [OF t] ib by (simp add: key_bytes_def)
qed

lemma CopyIntoBuffer_spec:
  assumes "0 \<le> cbMax" "cbMax \<le> Cb pv"
  shows "CopyIntoBuffer key pv cbMax = take (nat cbMax) (key_bytes key) @ drop (min (nat cbMax) (length (key_bytes key))) pv"
proof (cases "Cb (prefix key) \<le> cbMax")
  case True
  define P S n where "P = prefix key" and "S = suffix key" and "n = nat cbMax"
  define c where "c = min (length S) (n - length P)"
  have n: "cbMax = int n" "length P \<le> n" using True assms(1) by (simp_all add: P_def n_def)
  have m: "max 0 (Cb P) = Cb P" "max 0 (Cb S) = Cb S" by simp_all
  have c': "max 0 (min (Cb S) (int n - Cb P)) = int c" "nat (min (Cb P) (int n)) = length P"
    "nat (Cb P + int c) = length P + c" using n(2) by (auto simp: c_def min_def)
  have "CopyIntoBuffer key pv cbMax = P @ take c S @ drop (length P + c) pv"
    unfolding CopyIntoBuffer_def Let_def n(1) P_def [symmetric] S_def [symmetric] by (simp only: c' m nat_int) (simp add: add.commute)
  also have "take c S = take (n - length P) S" by (simp add: c_def min_def)
  also have "length P + c = min n (length P + length S)" using n(2) by (auto simp: c_def)
  finally show ?thesis using n(2) by (simp add: key_bytes_def take_all n_def P_def S_def)
next
  case False
  have d: "take (m - n) (drop n pv) @ drop m pv = drop n pv" if "n \<le> m" for n m
    using that append_take_drop_id [of "m - n" "drop n pv"] by simp
  from False show ?thesis using assms d [of "nat cbMax" "length (prefix key)"]
    by (auto simp: CopyIntoBuffer_def key_bytes_def Let_def min_def max_def)
qed

subsection \<open>Numbers\<close>

lemma LongFromKey_KeyFromLong: "LongFromKey (KeyFromLong ul) = ul"
proof (rule bit_word_eqI)
  fix n :: nat assume n: "n < LENGTH(32)"
  consider "n < 8" | "8 \<le> n" "n < 16" | "16 \<le> n" "n < 24" | "24 \<le> n" by linarith
  then show "bit (LongFromKey (KeyFromLong ul)) n = bit ul n"
    using n by cases (simp_all add: LongFromKey_def KeyFromLong_def bit_or_iff bit_push_bit_iff bit_ucast_iff
        bit_drop_bit_eq less_diff_conv2)
qed

lemma LongFromKEY_spec: "4 \<le> KEY_Cb key \<Longrightarrow> take 4 (key_bytes key) = KeyFromLong ul \<Longrightarrow> LongFromKEY key = ul"
  using CopyIntoBuffer_spec [of 4 "[0, 0, 0, 0]" key] LongFromKey_KeyFromLong [of ul]
  by (simp add: LongFromKEY_def KEY_Cb_bytes)

end
