(* ===== verification/Node.thy ===== *)
theory Node
  imports Page_Image Node_Key
begin

text \<open>
  The node layer (\<open>src/ese/node.cxx\<close>, \<open>src/inc/node.hxx\<close>): the nodes of a page, their encoding into
  lines, and the searches.  A node has a key, data and flags.  The line of a node holds the size of
  the suffix of its key, the suffix and the data; when the node is compressed the size of the
  prefix comes first, and the prefix itself is the beginning of the external header of the page.

  A \<open>DATA\<close> of the code is a pointer and a length; \<open>data_bytes\<close> reads what it points to.  A null
  pointer is 0.  As in the rest of the development an enforce that fails is \<open>None\<close>.  The build is
  the one without \<open>DEBUG\<close>.
\<close>

subsection \<open>Constants and page flags\<close>

definition usNDCbKeyMask :: u16 where "usNDCbKeyMask = 0x1fff"
definition fNDCompressed :: u16 where "fNDCompressed = 4"
definition cbPrefixOverhead :: int where "cbPrefixOverhead = cbKeyCount"
definition cb_SPLIT_BUFFER :: int where "cb_SPLIT_BUFFER = 16"
definition cb_SPACE_HEADER :: int where "cb_SPACE_HEADER = 16"

definition fPageRoot :: u32 where "fPageRoot = 0x0001"
definition fPageLeaf :: u32 where "fPageLeaf = 0x0002"
definition fPageParentOfLeaf :: u32 where "fPageParentOfLeaf = 0x0004"
definition fPageSpaceTree :: u32 where "fPageSpaceTree = 0x0020"

definition FRootPage :: "CPAGE \<Rightarrow> bool" where
  "FRootPage p \<longleftrightarrow> fFlags (pghdr p) AND fPageRoot \<noteq> 0"

definition FLeafPage :: "CPAGE \<Rightarrow> bool" where
  "FLeafPage p \<longleftrightarrow> fFlags (pghdr p) AND fPageLeaf \<noteq> 0"

definition FSpaceTree :: "CPAGE \<Rightarrow> bool" where
  "FSpaceTree p \<longleftrightarrow> fFlags (pghdr p) AND fPageSpaceTree \<noteq> 0"

datatype NDERR = JET_errSuccess | JET_errPageTagCorrupted | JET_errNodeCorrupted | JET_errBadEmptyPage
  | JET_errDatabaseCorrupted | JET_errBadLineCount | wrnNDFoundLess | wrnNDFoundGreater | errPMOutOfPageSpace
  | JET_errLogOperationInconsistentWithDatabase | JET_errInvalidBufferSize | JET_errInternalError | JET_errWriteConflict
  | JET_errPreviousVersion | JET_errOutOfMemory | JET_errInvalidOperation | err_log

text \<open>\<open>err_log\<close> stands for whatever error the log returns.\<close>

subsection \<open>Pointers\<close>

fun data_bytes :: "mem \<Rightarrow> DATA \<Rightarrow> bytes" where
  "data_bytes b (OffPage bs) = bs"
| "data_bytes b (OnPage pv cb) = load_bytes b pv cb"

text \<open>The data with the first \<open>n\<close> bytes left out: the pointer moves up, the length shrinks.\<close>

fun data_tail :: "int \<Rightarrow> DATA \<Rightarrow> DATA" where
  "data_tail n (OffPage bs) = OffPage (drop (nat n) bs)"
| "data_tail n (OnPage pv cb) = OnPage (pv + n) (cb - n)"

abbreviation null_data :: DATA where
  "null_data \<equiv> OnPage 0 0"

definition null_kdf :: "DATA KEYDATAFLAGS" where
  "null_kdf = KDF (KEY null_data null_data) null_data 0"

definition read_kdf :: "CPAGE \<Rightarrow> DATA KEYDATAFLAGS \<Rightarrow> bytes KEYDATAFLAGS" where
  "read_kdf p = map_KEYDATAFLAGS (data_bytes (buf p))"

definition le16 :: "u16 \<Rightarrow> bytes" where
  "le16 w = [ucast w, ucast (drop_bit 8 w)]"

subsection \<open>From lines to nodes\<close>

text \<open>
  \<open>NDILineToKeydataflags\<close>; \<open>chk\<close> is the template argument \<open>pgnbcChecked\<close>, with which the
  error is returned instead of an enforce.  The pointer of the prefix is left as it was.  The size of the data
  is computed on \<open>ULONG\<close> and read back as an \<open>INT\<close>.
\<close>

definition NDILineToKeydataflags :: "bool \<Rightarrow> LINE \<Rightarrow> int \<Rightarrow> CPAGE \<Rightarrow> (DATA KEYDATAFLAGS \<times> NDERR) option" where
  "NDILineToKeydataflags chk pline pvPrefix p =
     (let fCompressed = (l_fFlags pline AND fNDCompressed \<noteq> 0);
          cbPrefix = (if fCompressed then uint (rd16 (buf p) (l_pv pline) AND usNDCbKeyMask) else 0);
          pb = (if fCompressed then l_pv pline + cbPrefixOverhead else l_pv pline);
          cbKeyCountTotal = (if fCompressed then cbKeyCount + cbPrefixOverhead else cbKeyCount);
          cbSuffix = uint (rd16 (buf p) pb AND usNDCbKeyMask);
          cbData = sint (word_of_int (l_cb pline - cbSuffix - cbKeyCountTotal) :: u32);
          kdf = KDF (KEY (OnPage pvPrefix cbPrefix) (OnPage (pb + cbKeyCount) cbSuffix))
                  (OnPage (pb + cbKeyCount + cbSuffix) cbData) (l_fFlags pline)
      in if chk then
           Some (kdf, if l_cb pline \<le> cbKeyCountTotal \<or> cbSuffix \<ge> l_cb pline then JET_errNodeCorrupted else JET_errSuccess)
         else if l_cb pline \<le> cbKeyCountTotal \<and> \<not> cbSuffix < l_cb pline then None
         else Some (kdf, JET_errSuccess))"

text \<open>The pointer to the prefix and its size, for a compressed node of the page.\<close>

definition PrefixFromHeader :: "int \<Rightarrow> int \<Rightarrow> CPAGE \<Rightarrow> DATA" where
  "PrefixFromHeader pv cbPrefix p =
     (if \<not> FRootPage p then OnPage pv cbPrefix
      else if FSpaceTree p then OnPage (pv + cb_SPLIT_BUFFER) cbPrefix
      else null_data)"

definition NDIGetKeydataflags :: "int \<Rightarrow> CPAGE \<Rightarrow> DATA KEYDATAFLAGS option" where
  "NDIGetKeydataflags iline p =
     (case NDILineToKeydataflags False (GetPtr_NoChecks (iline + CTagReserved p) p) 0 p of
        None \<Rightarrow> None
      | Some (KDF (KEY pfx sfx) data fl, err) \<Rightarrow>
          Some (KDF (KEY (if fl AND fNDCompressed \<noteq> 0
                          then PrefixFromHeader (l_pv (GetPtr_NoChecks 0 p)) (DATA_Cb pfx) p
                          else OnPage 0 (DATA_Cb pfx)) sfx) data fl))"

text \<open>The first error is the one that is returned.\<close>

definition first_err :: "NDERR \<Rightarrow> NDERR \<Rightarrow> NDERR" where
  "first_err err err' = (if err = JET_errSuccess then err' else err)"

definition ErrNDIGetKeydataflags :: "int \<Rightarrow> CPAGE \<Rightarrow> DATA KEYDATAFLAGS \<times> NDERR" where
  "ErrNDIGetKeydataflags iline p =
     (let (line, fBad) = ErrGetPtr iline p;
          err = (if fBad then JET_errPageTagCorrupted else JET_errSuccess);
          cbMin = cbKeyCount + (if l_fFlags line AND fNDCompressed \<noteq> 0 then cbPrefixOverhead else 0)
      in if fBad \<and> (l_pv line = 0 \<or> \<not> FOnPage p (l_pv line) cbMin) then (null_kdf, err)
         else
           case NDILineToKeydataflags True line 0 p of
             None \<Rightarrow> (null_kdf, err)
           | Some (KDF (KEY pfx sfx) data fl, errKdf) \<Rightarrow>
               let err = first_err err errKdf
               in if fl AND fNDCompressed = 0 then (KDF (KEY (OnPage 0 (DATA_Cb pfx)) sfx) data fl, err)
                  else
                    let (line, fBad) = ErrGetPtrExternalHeader p;
                        err = first_err err (if fBad then JET_errPageTagCorrupted else JET_errSuccess)
                    in if fBad \<and> l_pv line = 0 then (KDF (KEY null_data sfx) data fl, err)
                       else
                         let pfx = PrefixFromHeader (l_pv line) (DATA_Cb pfx) p
                         in (KDF (KEY pfx sfx) data fl,
                             first_err err (if DATA_Cb pfx > l_cb line \<and> l_cb line \<noteq> 0 then JET_errNodeCorrupted
                                            else JET_errSuccess)))"

definition FNDCompressed :: "'d KEYDATAFLAGS \<Rightarrow> bool" where
  "FNDCompressed kdf \<longleftrightarrow> kdf_fFlags kdf AND fNDCompressed \<noteq> 0"

definition FNDDeleted :: "'d KEYDATAFLAGS \<Rightarrow> bool" where
  "FNDDeleted kdf \<longleftrightarrow> kdf_fFlags kdf AND fNDDeleted \<noteq> 0"

definition FNDVersion :: "'d KEYDATAFLAGS \<Rightarrow> bool" where
  "FNDVersion kdf \<longleftrightarrow> kdf_fFlags kdf AND fNDVersion \<noteq> 0"

definition NDGetBookmarkFromKDF :: "bytes KEYDATAFLAGS \<Rightarrow> bool \<Rightarrow> bytes BOOKMARK" where
  "NDGetBookmarkFromKDF kdf fUnique = BOOKMARK (kdf_key kdf) (if fUnique then [] else kdf_data kdf)"

definition NDIGetBookmark :: "int \<Rightarrow> bool \<Rightarrow> CPAGE \<Rightarrow> bytes BOOKMARK option" where
  "NDIGetBookmark iline fUnique p =
     map_option (\<lambda>kdf. NDGetBookmarkFromKDF (read_kdf p kdf) fUnique) (NDIGetKeydataflags iline p)"

subsection \<open>From nodes to lines\<close>

text \<open>
  The pieces of a line and its flags.  \<open>cbPrefix\<close> bytes of the key are to be the prefix; the pieces of the key
  that are left are the suffix.
\<close>

definition CdataNDIPrefixAndKeydataflagsToDataflags :: "DATA KEYDATAFLAGS \<Rightarrow> u16 \<Rightarrow> DATA list \<times> u16" where
  "CdataNDIPrefixAndKeydataflagsToDataflags kdf le_cbPrefix =
     (let pfx = prefix (kdf_key kdf); sfx = suffix (kdf_key kdf);
          cbPrefix = uint le_cbPrefix;
          (rgsuffix, cbSuffix) =
            (if DATA_Cb pfx \<le> cbPrefix
             then let cbPrefixInSuffix = cbPrefix - DATA_Cb pfx
                  in ([data_tail cbPrefixInSuffix sfx], DATA_Cb sfx - cbPrefixInSuffix)
             else ([data_tail cbPrefix pfx, sfx], DATA_Cb sfx + (DATA_Cb pfx - cbPrefix)));
          rgdata = (if cbPrefix > 0 then [OffPage (le16 le_cbPrefix)] else []) @
            [OffPage (le16 (word_of_int cbSuffix))] @ rgsuffix @ [kdf_data kdf]
      in (rgdata, if cbPrefix > 0 then kdf_fFlags kdf OR fNDCompressed else kdf_fFlags kdf AND NOT fNDCompressed))"

definition CdataNDIKeydataflagsToDataflags :: "DATA KEYDATAFLAGS \<Rightarrow> DATA list \<times> u16" where
  "CdataNDIKeydataflagsToDataflags kdf =
     ((if DATA_Cb (prefix (kdf_key kdf)) \<noteq> 0 then [OffPage (le16 (word_of_int (DATA_Cb (prefix (kdf_key kdf)))))] else []) @
      [OffPage (le16 (word_of_int (DATA_Cb (suffix (kdf_key kdf))))), suffix (kdf_key kdf), kdf_data kdf],
      kdf_fFlags kdf)"

subsection \<open>Searching a leaf page\<close>

text \<open>A node of the page with the bytes its pieces point to.\<close>

definition NodeAt :: "CPAGE \<Rightarrow> int \<Rightarrow> bytes KEYDATAFLAGS option" where
  "NodeAt p iline = map_option (read_kdf p) (NDIGetKeydataflags iline p)"

text \<open>
  The binary search of \<open>IlineNDISeekGEQ\<close>: the line, the last comparison and the last bookmark compared.
  A node without data is the enforce.
\<close>

function SeekGEQLoop :: "CPAGE \<Rightarrow> bytes BOOKMARK \<Rightarrow> bool \<Rightarrow> int \<Rightarrow> int \<Rightarrow> int \<Rightarrow> bytes BOOKMARK \<Rightarrow>
    (int \<times> int \<times> bytes BOOKMARK) option" where
  "SeekGEQLoop p bm fUnique ilineFirst ilineLast compare bmNode =
     (if ilineFirst \<le> ilineLast then
        let ilineMid = (ilineFirst + ilineLast) div 2
        in case NDIGetKeydataflags ilineMid p of
             None \<Rightarrow> None
           | Some kdfT \<Rightarrow>
               let bmNode = NDGetBookmarkFromKDF (read_kdf p kdfT) fUnique
               in if \<not> DATA_Cb (kdf_data kdfT) > 0 then None
                  else
                    case CmpKeyData bmNode bm of
                      None \<Rightarrow> None
                    | Some compare \<Rightarrow>
                        if compare < 0 then SeekGEQLoop p bm fUnique (ilineMid + 1) ilineLast compare bmNode
                        else if compare = 0 then Some (ilineMid, compare, bmNode)
                        else if ilineMid = ilineFirst then Some (ilineMid, compare, bmNode)
                        else SeekGEQLoop p bm fUnique ilineFirst ilineMid compare bmNode
      else Some (-1, compare, bmNode))"
  by pat_completeness auto
termination
  by (relation "measure (\<lambda>(p, bm, u, f, l, c, b). nat (l + 1 - f))") auto

declare SeekGEQLoop.simps [simp del]

definition IlineNDISeekGEQ :: "CPAGE \<Rightarrow> bytes BOOKMARK \<Rightarrow> bool \<Rightarrow> (int \<times> int) option" where
  "IlineNDISeekGEQ p bm fUnique =
     Option.bind (SeekGEQLoop p bm fUnique 0 (Clines p - 1) 0 (BOOKMARK (KEY [] []) [])) (\<lambda>(iline, compare, bmNode).
     map_option (Pair iline)
       (if compare \<noteq> 0 \<and> Cb (bm_data bm) = 0 then CmpKey (bm_key bmNode) (bm_key bm) else Some compare))"

text \<open>The linear search the code checks it against; the comparison is unset when no line is found.\<close>

function SeekGEQDebugLoop :: "CPAGE \<Rightarrow> bytes BOOKMARK \<Rightarrow> bool \<Rightarrow> int \<Rightarrow> (int \<times> int option) option" where
  "SeekGEQDebugLoop p bm fUnique iline =
     (if iline < Clines p then
        Option.bind (NDIGetBookmark iline fUnique p) (\<lambda>bmNode.
        Option.bind (CmpKey (bm_key bmNode) (bm_key bm)) (\<lambda>cmp.
        if cmp < 0 then SeekGEQDebugLoop p bm fUnique (iline + 1)
        else if cmp > 0 \<or> Cb (bm_data bm) = 0 then Some (iline, Some cmp)
        else
          Option.bind (CmpData (bm_data bmNode) (bm_data bm)) (\<lambda>cmp.
          if cmp \<ge> 0 then Some (iline, Some cmp) else SeekGEQDebugLoop p bm fUnique (iline + 1))))
      else Some (-1, None))"
  by pat_completeness auto
termination
  by (relation "measure (\<lambda>(p, bm, u, i). nat (Clines p - i))") auto

declare SeekGEQDebugLoop.simps [simp del]

definition IlineNDISeekGEQDebug :: "CPAGE \<Rightarrow> bytes BOOKMARK \<Rightarrow> bool \<Rightarrow> (int \<times> int option) option" where
  "IlineNDISeekGEQDebug p bm fUnique = SeekGEQDebugLoop p bm fUnique 0"

text \<open>\<open>ErrNDISeekLeafPage\<close>: the error code and the line of the currency.\<close>

definition ErrNDISeekLeafPage :: "CPAGE \<Rightarrow> bytes BOOKMARK \<Rightarrow> bool \<Rightarrow> (NDERR \<times> int) option" where
  "ErrNDISeekLeafPage p bm fUnique =
     map_option (\<lambda>(iline, compare).
       if iline \<ge> 0 \<and> compare = 0 then (JET_errSuccess, iline)
       else if iline < 0 then (wrnNDFoundLess, Clines p - 1)
       else (wrnNDFoundGreater, iline)) (IlineNDISeekGEQ p bm fUnique)"

subsection \<open>Searching an internal page\<close>

text \<open>
  The prefix of a node is read from the external header whatever kind of page it is;
  \<open>cbPageMax\<close> is the global \<open>g_cbPageMax\<close>.
\<close>

function SeekGEQInternalLoop :: "int \<Rightarrow> CPAGE \<Rightarrow> bytes BOOKMARK \<Rightarrow> int \<Rightarrow> int \<Rightarrow> int \<Rightarrow> int \<Rightarrow> (int \<times> int) option" where
  "SeekGEQInternalLoop cbPageMax p bm ilineFirst ilineLast ilineMid compare =
     (if ilineFirst \<le> ilineLast then
        let lineExternalHeader = GetPtr_NoChecks 0 p;
            ilineMid = (ilineFirst + ilineLast) div 2;
            line = GetPtr_NoChecks (ilineMid + CTagReserved p) p
        in case NDILineToKeydataflags False line (l_pv lineExternalHeader) p of
             None \<Rightarrow> None
           | Some (kdfNode, err) \<Rightarrow>
               if \<not> DATA_Cb (prefix (kdf_key kdfNode)) \<le> l_cb lineExternalHeader then None
               else if \<not> DATA_Cb (suffix (kdf_key kdfNode)) < l_cb line then None
               else if \<not> l_pv line + l_cb line < cbPageMax then None
               else
                 case CmpKeyWithKeyData (kdf_key (read_kdf p kdfNode)) bm of
                   None \<Rightarrow> None
                 | Some compare \<Rightarrow>
                     if compare < 0 then SeekGEQInternalLoop cbPageMax p bm (ilineMid + 1) ilineLast ilineMid compare
                     else if compare = 0 then Some (ilineMid, compare)
                     else if ilineMid = ilineFirst then Some (ilineMid, compare)
                     else SeekGEQInternalLoop cbPageMax p bm ilineFirst ilineMid ilineMid compare
      else Some (ilineMid, compare))"
  by pat_completeness auto
termination
  by (relation "measure (\<lambda>(n, p, bm, f, l, m, c). nat (l + 1 - f))") auto

declare SeekGEQInternalLoop.simps [simp del]

definition IlineNDISeekGEQInternal :: "int \<Rightarrow> CPAGE \<Rightarrow> bytes BOOKMARK \<Rightarrow> (int \<times> int) option" where
  "IlineNDISeekGEQInternal cbPageMax p bm =
     (if \<not> l_cb (GetPtr_NoChecks 0 p) < cbPageMax then None
      else
        map_option (\<lambda>(ilineMid, compare). (ilineMid, if compare = 0 \<and> \<not> KEY_FNull (bm_key bm) then 0 else 1))
          (SeekGEQInternalLoop cbPageMax p bm 0 (Clines p - 1) 0 0))"

function SeekGEQInternalDebugLoop :: "CPAGE \<Rightarrow> bytes BOOKMARK \<Rightarrow> int \<Rightarrow> (int \<times> int) option" where
  "SeekGEQInternalDebugLoop p bm iline =
     (if iline < Clines p - 1 then
        Option.bind (NDIGetKeydataflags iline p) (\<lambda>kdfNode.
        Option.bind (CmpKeyWithKeyData (kdf_key (read_kdf p kdfNode)) bm) (\<lambda>compare.
        if compare < 0 then SeekGEQInternalDebugLoop p bm (iline + 1) else Some (iline, compare)))
      else Some (iline, 1))"
  by pat_completeness auto
termination
  by (relation "measure (\<lambda>(p, bm, i). nat (Clines p - 1 - i))") auto

declare SeekGEQInternalDebugLoop.simps [simp del]

definition IlineNDISeekGEQInternalDebug :: "CPAGE \<Rightarrow> bytes BOOKMARK \<Rightarrow> (int \<times> int) option" where
  "IlineNDISeekGEQInternalDebug p bm = SeekGEQInternalDebugLoop p bm 0"

text \<open>An exact match takes the child behind the separator; on the last node it is the corruption.\<close>

definition ErrNDISeekInternalPage :: "int \<Rightarrow> CPAGE \<Rightarrow> bytes BOOKMARK \<Rightarrow> int \<Rightarrow> (NDERR \<times> int) option" where
  "ErrNDISeekInternalPage cbPageMax p bm ilineOld =
     map_option (\<lambda>(iline, compare).
       if compare = 0 then
         (if iline \<ge> Clines p - 1 then (JET_errDatabaseCorrupted, ilineOld) else (JET_errSuccess, iline + 1))
       else (wrnNDFoundGreater, iline)) (IlineNDISeekGEQInternal cbPageMax p bm)"

definition ErrNDSeekInternal :: "int \<Rightarrow> CPAGE \<Rightarrow> bytes BOOKMARK \<Rightarrow> (NDERR \<times> int) option" where
  "ErrNDSeekInternal cbPageMax p bm =
     map_option (\<lambda>(iline, compare). (if compare = 0 then JET_errSuccess else wrnNDFoundGreater, iline))
       (IlineNDISeekGEQInternal cbPageMax p bm)"

text \<open>\<open>ErrNDSeek\<close>: the error, the line of the currency and, unless it failed, the node there.\<close>

definition FSuccess :: "NDERR \<Rightarrow> bool" where
  "FSuccess err \<longleftrightarrow> err \<in> {JET_errSuccess, wrnNDFoundLess, wrnNDFoundGreater}"

definition ErrNDSeek :: "int \<Rightarrow> CPAGE \<Rightarrow> bytes BOOKMARK \<Rightarrow> bool \<Rightarrow> int \<Rightarrow> (NDERR \<times> int \<times> DATA KEYDATAFLAGS option) option" where
  "ErrNDSeek cbPageMax p bookmark fUnique ilineOld =
     (if Clines p \<le> 0 then Some (JET_errBadEmptyPage, ilineOld, None)
      else
        Option.bind
          (if \<not> FLeafPage p then ErrNDISeekInternalPage cbPageMax p bookmark ilineOld
           else ErrNDISeekLeafPage p bookmark fUnique) (\<lambda>(err, iline).
        if FSuccess err then map_option (\<lambda>kdf. (err, iline, Some kdf)) (NDIGetKeydataflags iline p)
        else Some (err, iline, None)))"

subsection \<open>The order of the nodes\<close>

text \<open>\<open>NDAssertNDInOrder\<close>, as a predicate: the assertion of the loop for one pair of neighbours.\<close>

definition FNDPairInOrder :: "CPAGE \<Rightarrow> bool \<Rightarrow> int \<Rightarrow> bool" where
  "FNDPairInOrder p fUnique iline =
     (case (NDIGetBookmark iline fUnique p, NDIGetBookmark (iline + 1) fUnique p) of
        (Some bmLess, Some bmGreater) \<Rightarrow>
          (if KEY_FNull (bm_key bmGreater) then \<not> FLeafPage p \<and> iline + 1 = Clines p - 1
           else
             \<not> KEY_FNull (bm_key bmLess) \<and>
             (case (if FLeafPage p then CmpBM bmLess bmGreater else CmpKey (bm_key bmLess) (bm_key bmGreater)) of
                None \<Rightarrow> False
              | Some cmp \<Rightarrow> \<not> (cmp > 0 \<or> (fUnique \<and> cmp = 0))))
      | _ \<Rightarrow> False)"

definition NDAssertNDInOrder :: "CPAGE \<Rightarrow> bool \<Rightarrow> bool" where
  "NDAssertNDInOrder p fUnique \<longleftrightarrow> list_all (FNDPairInOrder p fUnique) [0..Clines p - 2]"

end
