(* ===== verification/Node_Lines.thy ===== *)
theory Node_Lines
  imports Page_Image_Props Node
begin

text \<open>
  The nodes of a page as values: what the decoding routines return for a well-formed line, and what the
  encoding routines store for a node.
\<close>

subsection \<open>A line as a node\<close>

definition w16 :: "bytes \<Rightarrow> u16" where
  "w16 bs = ucast (bs ! 0) OR push_bit 8 (ucast (bs ! 1))"

definition key_size :: "bytes \<Rightarrow> nat" where
  "key_size bs = unat (w16 bs AND usNDCbKeyMask)"

definition line_compressed :: "bool \<Rightarrow> line \<Rightarrow> bool" where
  "line_compressed small l \<longleftrightarrow> line_flags small l AND fNDCompressed \<noteq> 0"

definition line_cbPrefix :: "bool \<Rightarrow> line \<Rightarrow> nat" where
  "line_cbPrefix small l = (if line_compressed small l then key_size (snd l) else 0)"

definition line_body :: "bool \<Rightarrow> line \<Rightarrow> bytes" where
  "line_body small l = (if line_compressed small l then drop 2 (snd l) else snd l)"

definition line_node :: "bytes \<Rightarrow> bool \<Rightarrow> line \<Rightarrow> bytes KEYDATAFLAGS" where
  "line_node pfx small l =
     KDF (KEY (take (line_cbPrefix small l) pfx) (take (key_size (line_body small l)) (drop 2 (line_body small l))))
       (drop (2 + key_size (line_body small l)) (line_body small l)) (line_flags small l)"

definition node_ok :: "bytes \<Rightarrow> bool \<Rightarrow> line \<Rightarrow> bool" where
  "node_ok pfx small l \<longleftrightarrow> 2 + key_size (line_body small l) < length (line_body small l) \<and> line_cbPrefix small l \<le> length pfx \<and>
     (line_compressed small l \<longrightarrow> 2 < line_cbPrefix small l)"

definition node_prefix :: "CPAGE \<Rightarrow> bytes" where
  "node_prefix p = (if \<not> FRootPage p then snd (lines p ! 0) else if FSpaceTree p then drop 16 (snd (lines p ! 0)) else [])"

definition nodes :: "CPAGE \<Rightarrow> bytes KEYDATAFLAGS list" where
  "nodes p = map (line_node (node_prefix p) (fSmallFormat p)) (data_lines p)"

definition nodes_ok :: "CPAGE \<Rightarrow> bool" where
  "nodes_ok p \<longleftrightarrow> page_inv p \<and> list_all (node_ok (node_prefix p) (fSmallFormat p)) (data_lines p)"

subsection \<open>Decoding\<close>

lemma key_size_less: "key_size bs < 8192"
proof -
  have m: "usNDCbKeyMask = mask 13" by (simp add: usNDCbKeyMask_def mask_eq_exp_minus_1)
  have "uint (w16 bs AND mask 13) < 8192" using uint_and_mask [of "w16 bs" 13] by simp
  then show ?thesis unfolding key_size_def m by (simp only: uint_nat of_nat_less_numeral_iff)
qed

lemma GetPtr_line:
  assumes "int k < ITagMicFree p"
  defines "l \<equiv> GetPtr_NoChecks (int k) p"
  shows "l_cb l = int (length (snd (lines p ! k)))" "l_fFlags l = line_flags (fSmallFormat p) (lines p ! k)"
    "i < length (snd (lines p ! k)) \<Longrightarrow> buf p (l_pv l + int i) = snd (lines p ! k) ! i"
proof -
  note t = nth_tags [OF assms(1)] lines_nth [OF assms(1)]
  have cb: "0 \<le> t_cb (tags p ! k)" using tag_nonneg(2) [of "tags p ! k" p] assms(1) by simp
  show "l_cb l = int (length (snd (lines p ! k)))" using cb t by (simp add: l_def GetPtr_NoChecks_def Let_def line_of_def)
  show "l_fFlags l = line_flags (fSmallFormat p) (lines p ! k)"
    using TAG_FFlags_line [OF assms(1)] by (simp add: l_def GetPtr_NoChecks_def Let_def)
  assume i: "i < length (snd (lines p ! k))"
  then have i': "i < nat (t_cb (tags p ! k))" unfolding t(2) line_of_def by simp
  have e: "t_cb (tags p ! k) = uint (TAG_Cb p (PtagFromItag p (int k)))" using t(1) by simp
  have c: "uint (TAG_Cb p (PtagFromItag p (int k))) \<noteq> 0" using i' [unfolded e] by fastforce
  have "l_pv l = PbFromIb p (t_ib (tags p ! k))" using c t(1) by (simp add: l_def GetPtr_NoChecks_def Let_def)
  then show "buf p (l_pv l + int i) = snd (lines p ! k) ! i" using i t(2) by (simp add: line_of_def)
qed

lemma GetPtr_pv:
  assumes "int k < ITagMicFree p" "snd (lines p ! k) \<noteq> []"
  shows "l_pv (GetPtr_NoChecks (int k) p) = PbFromIb p (t_ib (tags p ! k))"
proof -
  have "t_cb (tags p ! k) \<noteq> 0" using assms lines_nth [OF assms(1)] by (auto simp: line_of_def load_bytes_def)
  then show ?thesis using nth_tags [OF assms(1)] by (simp add: GetPtr_NoChecks_def Let_def)
qed

lemma GetPtr_line_load:
  assumes "int k < ITagMicFree p" "n + m \<le> length (snd (lines p ! k))"
  shows "load_bytes (buf p) (l_pv (GetPtr_NoChecks (int k) p) + int n) (int m) = take m (drop n (snd (lines p ! k)))"
proof (rule nth_equalityI)
  fix i assume i: "i < length (load_bytes (buf p) (l_pv (GetPtr_NoChecks (int k) p) + int n) (int m))"
  then show "load_bytes (buf p) (l_pv (GetPtr_NoChecks (int k) p) + int n) (int m) ! i = take m (drop n (snd (lines p ! k))) ! i"
    using GetPtr_line(3) [OF assms(1), of "n + i"] assms(2) by (simp add: add.assoc)
qed (use assms in simp)

lemma GetPtr_line_rd16:
  assumes "int k < ITagMicFree p" "n + 2 \<le> length (snd (lines p ! k))"
  shows "rd16 (buf p) (l_pv (GetPtr_NoChecks (int k) p) + int n) = w16 (drop n (snd (lines p ! k)))"
proof -
  have "l_pv (GetPtr_NoChecks (int k) p) + int n + 1 = l_pv (GetPtr_NoChecks (int k) p) + int (Suc n)" by simp
  then show ?thesis
    using GetPtr_line(3) [OF assms(1), of n] GetPtr_line(3) [OF assms(1), of "Suc n"] assms(2)
    by (simp only: rd16_def w16_def) simp
qed

lemma sint_small: "0 \<le> n \<Longrightarrow> n < 2 ^ 31 \<Longrightarrow> sint (word_of_int n :: u32) = n"
  by (simp add: signed_of_int signed_take_bit_int_eq_self)

lemma line_length:
  assumes "page_ok p" "int k < ITagMicFree p"
  shows "length (snd (lines p ! k)) < 32768"
proof -
  have s: "shape_ok p" "tags_ok p" using assms(1) by (simp_all add: page_ok_def)
  have m: "tags p ! k \<in> set (tags p)" using assms(2) by simp
  have "t_cb (tags p ! k) < 32768"
    using m tag_nonneg [OF m] data_fits [OF s(1)] CbTagArray_nonneg [of p] s(2)
    by (cases "t_cb (tags p ! k) = 0") (force simp: tags_ok_def list_all_iff)+
  then show ?thesis using lines_nth [OF assms(2)] by (simp add: line_of_def)
qed

lemma decode_line:
  fixes chk :: bool and pv :: int
  assumes ok: "page_ok p" and k: "int k < ITagMicFree p"
    and fits: "2 + key_size (line_body (fSmallFormat p) (lines p ! k)) < length (line_body (fSmallFormat p) (lines p ! k))"
  defines "L \<equiv> lines p ! k" and "B \<equiv> line_body (fSmallFormat p) (lines p ! k)"
  obtains pos where
    "NDILineToKeydataflags chk (GetPtr_NoChecks (int k) p) pv p =
      Some (KDF (KEY (OnPage pv (int (line_cbPrefix (fSmallFormat p) L))) (OnPage pos (int (key_size B))))
        (OnPage (pos + int (key_size B)) (int (length B - 2 - key_size B))) (line_flags (fSmallFormat p) L), JET_errSuccess)"
    "load_bytes (buf p) pos (int (key_size B)) = take (key_size B) (drop 2 B)"
    "load_bytes (buf p) (pos + int (key_size B)) (int (length B - 2 - key_size B)) = drop (2 + key_size B) B"
    "pos = PbFromIb p (t_ib (tags p ! k)) + (if line_compressed (fSmallFormat p) L then 4 else 2)"
proof -
  define l where "l = GetPtr_NoChecks (int k) p"
  define n where "n = (if line_compressed (fSmallFormat p) L then 2 else 0 :: nat)"
  have B: "B = drop n (snd L)" by (simp add: B_def L_def line_body_def n_def)
  have len: "n + 2 + key_size B < length (snd L)" using fits unfolding B_def [symmetric] B by simp
  have lt: "length (snd L) < 32768" unfolding L_def by (rule line_length [OF ok k])
  note g = GetPtr_line [OF k, folded l_def L_def]
  have c: "(line_flags (fSmallFormat p) L AND fNDCompressed \<noteq> 0) = line_compressed (fSmallFormat p) L"
    by (simp add: line_compressed_def)
  have sz: "uint (rd16 (buf p) (l_pv l) AND usNDCbKeyMask) = int (key_size (snd L))"
    using GetPtr_line_rd16 [OF k, of 0] len by (simp add: key_size_def l_def L_def)
  have sz2: "uint (rd16 (buf p) (l_pv l + int n) AND usNDCbKeyMask) = int (key_size B)"
    using GetPtr_line_rd16 [OF k, of n] len by (simp add: key_size_def l_def L_def B)
  have cbP: "(if line_compressed (fSmallFormat p) L then int (key_size (snd L)) else 0) = int (line_cbPrefix (fSmallFormat p) L)"
    by (simp add: line_cbPrefix_def)
  have pb: "(if line_compressed (fSmallFormat p) L then l_pv l + 2 else l_pv l) = l_pv l + int n"
    "(if line_compressed (fSmallFormat p) L then 2 + 2 else 2) = int n + 2" by (simp_all add: n_def)
  define m where "m = length B - 2 - key_size B"
  have m: "int (length (snd L)) - int (key_size B) - (int n + 2) = int m" "n + 2 + key_size B + m = length (snd L)"
    using len by (simp_all add: m_def B of_nat_diff)
  have sint: "sint (word_of_int (int m) :: u32) = int m" using m(2) lt by (intro sint_small) simp_all
  have 1: "NDILineToKeydataflags chk l pv p =
      Some (KDF (KEY (OnPage pv (int (line_cbPrefix (fSmallFormat p) L))) (OnPage (l_pv l + int n + 2) (int (key_size B))))
        (OnPage (l_pv l + int n + 2 + int (key_size B)) (int m)) (line_flags (fSmallFormat p) L), JET_errSuccess)"
    unfolding NDILineToKeydataflags_def Let_def cbPrefixOverhead_def cbKeyCount_def c sz cbP pb sz2 g(1) m(1) sint g(2)
    using len by auto
  have 2: "load_bytes (buf p) (l_pv l + int n + 2) (int (key_size B)) = take (key_size B) (drop 2 B)"
    using GetPtr_line_load [OF k, of "n + 2" "key_size B"] len by (simp add: l_def L_def B ac_simps)
  have 3: "load_bytes (buf p) (l_pv l + int n + 2 + int (key_size B)) (int m) = drop (2 + key_size B) B"
    using GetPtr_line_load [OF k, of "n + 2 + key_size B" m] m(2) by (simp add: l_def L_def B ac_simps)
  have "snd (lines p ! k) \<noteq> []" using len by (auto simp: L_def)
  note pv = GetPtr_pv [OF k this, folded l_def]
  have 4: "l_pv l + int n + 2 = PbFromIb p (t_ib (tags p ! k)) + (if line_compressed (fSmallFormat p) L then 4 else 2)"
    unfolding pv by (simp add: n_def)
  show thesis by (rule that [OF _ 2 _ 4]) (use 1 3 in \<open>simp_all add: l_def m_def\<close>)
qed

text \<open>Line numbers of the client and tags.\<close>

lemma client_line:
  assumes "page_ok p" "0 \<le> iline" "iline < Clines p"
  obtains k where "iline + CTagReserved p = int k" "int k < ITagMicFree p" "data_lines p ! nat iline = lines p ! k"
    "0 < k" "nat iline < length (data_lines p)"
proof -
  define k where "k = nat iline + nat (CTagReserved p)"
  have i: "iline + CTagReserved p = int k" unfolding k_def by (rule line_index [OF assms(1,2)])
  have k: "int k < ITagMicFree p" using assms(3) i by (simp add: Clines_def)
  have d: "data_lines p ! nat iline = lines p ! k"
    using reserved_le [OF assms(1)] by (simp add: data_lines_def nth_drop k_def add.commute)
  show thesis by (rule that [OF i k d])
    (use assms reserved_le [OF assms(1)] length_data_lines [OF assms(1)] in \<open>simp_all add: k_def\<close>)
qed

lemma header_line: "page_ok p \<Longrightarrow> int 0 < ITagMicFree p"
  by (auto simp: page_ok_def itags_ok_def)

lemma prefix_from_header:
  assumes ok: "page_ok p" and c: "c \<le> length (node_prefix p)"
  shows "data_bytes (buf p) (PrefixFromHeader (l_pv (GetPtr_NoChecks 0 p)) (int c) p) = take c (node_prefix p)"
    "DATA_Cb (PrefixFromHeader (l_pv (GetPtr_NoChecks 0 p)) (int c) p) = int c"
proof -
  note h = GetPtr_line_load [OF header_line [OF ok]]
  show "data_bytes (buf p) (PrefixFromHeader (l_pv (GetPtr_NoChecks 0 p)) (int c) p) = take c (node_prefix p)"
    using h [of 0 c] h [of 16 c] c
    by (cases "FRootPage p"; cases "FSpaceTree p"; cases "c = 0") (simp_all add: PrefixFromHeader_def node_prefix_def cb_SPLIT_BUFFER_def load_bytes_def)
  show "DATA_Cb (PrefixFromHeader (l_pv (GetPtr_NoChecks 0 p)) (int c) p) = int c"
    using c by (auto simp: PrefixFromHeader_def node_prefix_def split: if_splits)
qed

lemma NDIGetKeydataflags_ok:
  assumes ok: "page_ok p" and i: "0 \<le> iline" "iline < Clines p"
    and node: "node_ok (node_prefix p) (fSmallFormat p) (data_lines p ! nat iline)"
  obtains kdf where "NDIGetKeydataflags iline p = Some kdf"
    "read_kdf p kdf = line_node (node_prefix p) (fSmallFormat p) (data_lines p ! nat iline)"
    "DATA_Cb (kdf_data kdf) > 0" "DATA_Cb (prefix (kdf_key kdf)) = int (line_cbPrefix (fSmallFormat p) (data_lines p ! nat iline))"
    "kdf_fFlags kdf = line_flags (fSmallFormat p) (data_lines p ! nat iline)"
    "DATA_Cb (suffix (kdf_key kdf)) = int (key_size (line_body (fSmallFormat p) (data_lines p ! nat iline)))"
    "\<And>k. iline + CTagReserved p = int k \<Longrightarrow>
      \<exists>sfx. let pos = PbFromIb p (t_ib (tags p ! k)) + (if line_compressed (fSmallFormat p) (data_lines p ! nat iline) then 4 else 2)
        in kdf = KDF (KEY (prefix (kdf_key kdf)) (OnPage pos sfx)) (OnPage (pos + sfx) (DATA_Cb (kdf_data kdf))) (kdf_fFlags kdf)"
    "0 \<le> DATA_Cb (prefix (kdf_key kdf))"
proof -
  obtain k where k: "iline + CTagReserved p = int k" "int k < ITagMicFree p" "data_lines p ! nat iline = lines p ! k"
    using client_line [OF ok i] by metis
  define L where "L = lines p ! k"
  define B where "B = line_body (fSmallFormat p) L"
  define c where "c = line_cbPrefix (fSmallFormat p) L"
  have fits: "2 + key_size B < length B" "c \<le> length (node_prefix p)"
    using node unfolding k(3) L_def [symmetric] by (simp_all add: node_ok_def B_def c_def)
  obtain pos where d: "NDILineToKeydataflags False (GetPtr_NoChecks (int k) p) 0 p =
      Some (KDF (KEY (OnPage 0 (int c)) (OnPage pos (int (key_size B))))
        (OnPage (pos + int (key_size B)) (int (length B - 2 - key_size B))) (line_flags (fSmallFormat p) L), JET_errSuccess)"
    "load_bytes (buf p) pos (int (key_size B)) = take (key_size B) (drop 2 B)"
    "load_bytes (buf p) (pos + int (key_size B)) (int (length B - 2 - key_size B)) = drop (2 + key_size B) B"
    and pos: "pos = PbFromIb p (t_ib (tags p ! k)) + (if line_compressed (fSmallFormat p) L then 4 else 2)"
    using decode_line [OF ok k(2), of False 0] fits(1) unfolding L_def [symmetric] B_def [symmetric] c_def [symmetric] by metis
  define pfx where "pfx = (if line_flags (fSmallFormat p) L AND fNDCompressed \<noteq> 0
      then PrefixFromHeader (l_pv (GetPtr_NoChecks 0 p)) (int c) p else OnPage 0 (int c))"
  define kdf where "kdf = KDF (KEY pfx (OnPage pos (int (key_size B))))
      (OnPage (pos + int (key_size B)) (int (length B - 2 - key_size B))) (line_flags (fSmallFormat p) L)"
  have c0: "c = 0" if "line_flags (fSmallFormat p) L AND fNDCompressed = 0"
    using that by (simp add: c_def line_cbPrefix_def line_compressed_def)
  have p: "data_bytes (buf p) pfx = take c (node_prefix p)" "DATA_Cb pfx = int c"
    using prefix_from_header [OF ok fits(2)] c0 by (auto simp: pfx_def load_bytes_def)
  show thesis
  proof (rule that)
    show "NDIGetKeydataflags iline p = Some kdf"
      by (simp add: NDIGetKeydataflags_def k(1) d(1) kdf_def pfx_def)
    show "read_kdf p kdf = line_node (node_prefix p) (fSmallFormat p) (data_lines p ! nat iline)"
      using d(2,3) p(1) by (simp add: read_kdf_def kdf_def k(3) line_node_def flip: L_def B_def c_def)
    show "DATA_Cb (kdf_data kdf) > 0" using fits(1) by (simp add: kdf_def)
    show "\<exists>sfx. let pos = PbFromIb p (t_ib (tags p ! k')) + (if line_compressed (fSmallFormat p) (data_lines p ! nat iline) then 4 else 2)
        in kdf = KDF (KEY (prefix (kdf_key kdf)) (OnPage pos sfx)) (OnPage (pos + sfx) (DATA_Cb (kdf_data kdf))) (kdf_fFlags kdf)"
      if "iline + CTagReserved p = int k'" for k'
      using that k(1) pos by (simp add: kdf_def k(3) L_def)
  qed (simp_all add: kdf_def p(2) k(3) flip: L_def B_def c_def)
qed

lemma GetPtr_Checked_same:
  assumes "page_ok p" "int k < ITagMicFree p" "2 \<le> length (snd (lines p ! k))"
  shows "GetPtr_Checked (int k) p = (GetPtr_NoChecks (int k) p, False)"
proof -
  have t: "2 \<le> t_cb (tags p ! k)" using assms(3) unfolding lines_nth [OF assms(2)] line_of_def by simp
  show ?thesis unfolding GetPtr_Checked_ok [OF assms(1,2) t]
    using t nth_tags [OF assms(2)] by (simp add: GetPtr_NoChecks_def Let_def)
qed

lemma ErrNDIGetKeydataflags_ok:
  assumes ok: "page_ok p" and i: "0 \<le> iline" "iline < Clines p"
    and node: "node_ok (node_prefix p) (fSmallFormat p) (data_lines p ! nat iline)"
  shows "\<exists>kdf. ErrNDIGetKeydataflags iline p = (kdf, JET_errSuccess) \<and> NDIGetKeydataflags iline p = Some kdf"
proof -
  obtain k where k: "iline + CTagReserved p = int k" "int k < ITagMicFree p" "data_lines p ! nat iline = lines p ! k"
    using client_line [OF ok i] by metis
  define L where "L = lines p ! k"
  define B where "B = line_body (fSmallFormat p) L"
  define c where "c = line_cbPrefix (fSmallFormat p) L"
  have fits: "2 + key_size B < length B" "c \<le> length (node_prefix p)" "line_compressed (fSmallFormat p) L \<Longrightarrow> 2 < c"
    using node unfolding k(3) L_def [symmetric] by (simp_all add: node_ok_def B_def c_def)
  have "length B \<le> length (snd L)" by (simp add: B_def line_body_def)
  then have L2: "2 \<le> length (snd L)" using fits(1) by simp
  obtain pos where dT: "NDILineToKeydataflags True (GetPtr_NoChecks (int k) p) 0 p =
      Some (KDF (KEY (OnPage 0 (int c)) (OnPage pos (int (key_size B))))
        (OnPage (pos + int (key_size B)) (int (length B - 2 - key_size B))) (line_flags (fSmallFormat p) L), JET_errSuccess)"
    using decode_line [OF ok k(2), of True 0] fits(1) unfolding L_def [symmetric] B_def [symmetric] c_def [symmetric] by metis
  have d: "NDILineToKeydataflags chk (GetPtr_NoChecks (int k) p) 0 p =
      Some (KDF (KEY (OnPage 0 (int c)) (OnPage pos (int (key_size B))))
        (OnPage (pos + int (key_size B)) (int (length B - 2 - key_size B))) (line_flags (fSmallFormat p) L), JET_errSuccess)" for chk
    using dT by (cases chk) (auto simp: NDILineToKeydataflags_def Let_def split: if_splits)
  have g: "ErrGetPtr iline p = (GetPtr_NoChecks (int k) p, False)"
    unfolding ErrGetPtr_def k(1) by (rule GetPtr_Checked_same [OF ok k(2)]) (use L2 L_def in simp)
  show ?thesis
  proof (cases "line_compressed (fSmallFormat p) L")
    case False
    then show ?thesis
      by (simp add: ErrNDIGetKeydataflags_def NDIGetKeydataflags_def k(1) g d Let_def first_err_def line_compressed_def)
  next
    case True
    have "length (node_prefix p) \<le> length (snd (lines p ! 0))" by (simp add: node_prefix_def)
    then have h2: "2 < c" "c \<le> length (snd (lines p ! 0))" "2 \<le> length (snd (lines p ! 0))" using fits(2) fits(3) [OF True] by simp_all
    have h: "ErrGetPtrExternalHeader p = (GetPtr_NoChecks 0 p, False)"
      unfolding ErrGetPtrExternalHeader_def using GetPtr_Checked_same [OF ok header_line [OF ok]] h2(3) by simp
    have "l_cb (GetPtr_NoChecks 0 p) = int (length (snd (lines p ! 0)))" using GetPtr_line(1) [OF header_line [OF ok]] by simp
    then have le: "\<not> l_cb (GetPtr_NoChecks 0 p) < int c" using h2(2) by simp
    show ?thesis using True prefix_from_header(2) [OF ok fits(2)] le
      by (simp add: ErrNDIGetKeydataflags_def NDIGetKeydataflags_def k(1) g d h Let_def first_err_def line_compressed_def)
  qed
qed

subsection \<open>Encoding\<close>

lemma length_le16 [simp]: "length (le16 w) = 2"
  by (simp add: le16_def)

lemma w16_le16: "w16 (le16 w @ bs) = w"
  by (rule bit_word_eqI)
    (auto simp: w16_def le16_def bit_or_iff bit_push_bit_iff bit_ucast_iff bit_drop_bit_eq less_diff_conv2)

lemma key_size_le16: "uint w < 8192 \<Longrightarrow> key_size (le16 w @ bs) = unat w"
proof -
  have m: "usNDCbKeyMask = mask 13" by (simp add: usNDCbKeyMask_def mask_eq_exp_minus_1)
  show "uint w < 8192 \<Longrightarrow> key_size (le16 w @ bs) = unat w"
    unfolding key_size_def w16_le16 m by (simp add: fits_mask)
qed

text \<open>The bits of the flags are above the mask of the sizes.\<close>

lemma key_size_stamp: "2 \<le> length bs \<Longrightarrow> key_size (stamp fl bs) = key_size bs"
proof -
  assume l: "2 \<le> length bs"
  have m: "usNDCbKeyMask = mask 13" "(0x1f :: u8) = mask 5" by (simp_all add: usNDCbKeyMask_def mask_eq_exp_minus_1)
  have "w16 (stamp fl bs) AND mask 13 = w16 bs AND mask 13"
    using l by (intro bit_word_eqI)
      (auto simp: w16_def stamp_def m bit_or_iff bit_and_iff bit_push_bit_iff bit_ucast_iff bit_mask_iff nth_list_update)
  then show ?thesis by (simp add: key_size_def m)
qed

lemma line_flags_stored:
  assumes "2 \<le> length bs"
  shows "line_flags (fSmallFormat p) (stored p 1 fl bs) = fl AND 7"
proof (cases "fSmallFormat p")
  case False
  have m: "(0x1f :: u8) = mask 5" "(7 :: u16) = mask 3" by (simp_all add: mask_eq_exp_minus_1)
  have "drop_bit 13 (rd16 (\<lambda>i. stamp fl bs ! nat i) 0) = fl AND 7"
    using assms by (intro bit_word_eqI)
      (auto simp: rd16_def stamp_def m bit_or_iff bit_and_iff bit_push_bit_iff bit_ucast_iff bit_mask_iff bit_drop_bit_eq
        dest: bit_imp_le_length)
  then show ?thesis using False assms by (simp add: line_flags_def stored_def)
qed (simp add: line_flags_def stored_def tag_flags_def)

lemma drop_stamp: "2 \<le> n \<Longrightarrow> drop n (stamp fl bs) = drop n bs"
  by (simp add: stamp_def)

end
