(* ===== verification/Node_Ops.thy ===== *)
theory Node_Ops
  imports Node
begin

text \<open>
  The operations of the node layer that change a page (\<open>src/ese/node.cxx\<close>), without logging and
  versioning: insertion, replacement, deletion, flags, the prefix of the page and of its nodes,
  the fields of the external header, reserved tags and scrubbing.  The currency of a \<open>CSR\<close> is the argument
  \<open>iline\<close>, the node a cursor has read the argument \<open>kdfCurr\<close>.
\<close>

subsection \<open>Sizes\<close>

definition cbNDNullKeyData :: int where "cbNDNullKeyData = cbKeyCount + cbTAG"

definition CbNDNodeSizeTotal :: "DATA KEYDATAFLAGS \<Rightarrow> int" where
  "CbNDNodeSizeTotal kdf =
     DATA_Cb (prefix (kdf_key kdf)) + DATA_Cb (suffix (kdf_key kdf)) + DATA_Cb (kdf_data kdf) + cbNDNullKeyData"

definition CbNDNodeSizeCompressed :: "DATA KEYDATAFLAGS \<Rightarrow> int" where
  "CbNDNodeSizeCompressed kdf =
     (let cbSize = DATA_Cb (suffix (kdf_key kdf)) + DATA_Cb (kdf_data kdf) + cbNDNullKeyData
      in if DATA_Cb (prefix (kdf_key kdf)) > 0 then cbSize + cbPrefixOverhead else cbSize)"

subsection \<open>Insertion, replacement, deletion\<close>

definition NDInsert_cbPrefix :: "int \<Rightarrow> DATA KEYDATAFLAGS \<Rightarrow> int \<Rightarrow> CPAGE \<Rightarrow> CPAGE option" where
  "NDInsert_cbPrefix iline kdf cbPrefix p =
     (let (rgdata, fFlagsLine) = CdataNDIPrefixAndKeydataflagsToDataflags kdf (word_of_int cbPrefix)
      in Insert iline rgdata fFlagsLine p)"

text \<open>With the node read back, as \<open>NDGet\<close> leaves it in the cursor.\<close>

definition NDInsert :: "int \<Rightarrow> DATA KEYDATAFLAGS \<Rightarrow> CPAGE \<Rightarrow> (CPAGE \<times> DATA KEYDATAFLAGS) option" where
  "NDInsert iline kdf p =
     (let (rgdata, fFlagsLine) = CdataNDIKeydataflagsToDataflags kdf
      in Option.bind (Insert iline rgdata fFlagsLine p) (\<lambda>p. map_option (Pair p) (NDIGetKeydataflags iline p)))"

definition NDReplaceForUpgrade :: "int \<Rightarrow> DATA \<Rightarrow> DATA KEYDATAFLAGS \<Rightarrow> CPAGE \<Rightarrow> CPAGE option" where
  "NDReplaceForUpgrade iline pdata kdfOld p =
     (let (rgdata, fFlagsLine) = CdataNDIKeydataflagsToDataflags (KDF (kdf_key kdfOld) pdata (kdf_fFlags kdfOld))
      in Replace iline rgdata fFlagsLine p)"

definition NDReplace :: "int \<Rightarrow> DATA \<Rightarrow> CPAGE \<Rightarrow> CPAGE option" where
  "NDReplace iline pdata p =
     Option.bind (NDIGetKeydataflags iline p) (\<lambda>kdf.
     let (rgdata, fFlagsLine) = CdataNDIKeydataflagsToDataflags (KDF (kdf_key kdf) pdata (kdf_fFlags kdf))
     in Replace iline rgdata fFlagsLine p)"

definition NDDelete :: "int \<Rightarrow> CPAGE \<Rightarrow> CPAGE" where
  "NDDelete iline p = Delete iline p"

text \<open>From the last line down to the line of the currency.\<close>

definition NDBulkDelete :: "int \<Rightarrow> int \<Rightarrow> CPAGE \<Rightarrow> CPAGE" where
  "NDBulkDelete iline clines p = fold Delete (rev [iline..iline + clines - 1]) p"

subsection \<open>Flags\<close>

definition NDISetFlag :: "int \<Rightarrow> u16 \<Rightarrow> CPAGE \<Rightarrow> CPAGE option" where
  "NDISetFlag iline fl p = map_option (\<lambda>kdf. ReplaceFlags iline (kdf_fFlags kdf OR fl) p) (NDIGetKeydataflags iline p)"

definition NDIResetFlag :: "int \<Rightarrow> u16 \<Rightarrow> CPAGE \<Rightarrow> CPAGE option" where
  "NDIResetFlag iline fl p = map_option (\<lambda>kdf. ReplaceFlags iline (kdf_fFlags kdf AND NOT fl) p) (NDIGetKeydataflags iline p)"

definition NDResetFlagDelete :: "int \<Rightarrow> CPAGE \<Rightarrow> CPAGE option" where
  "NDResetFlagDelete iline p = NDIResetFlag iline fNDDeleted p"

definition ErrNDFlagVersion :: "int \<Rightarrow> CPAGE \<Rightarrow> (NDERR \<times> CPAGE) option" where
  "ErrNDFlagVersion iline p = map_option (Pair JET_errSuccess) (NDISetFlag iline fNDVersion p)"

definition NDResetVersionInfo :: "CPAGE \<Rightarrow> CPAGE" where
  "NDResetVersionInfo p =
     (if FLeafPage p \<and> \<not> FSpaceTree p then SetCbUncommittedFree 0 (ResetAllFlags fNDVersion p) else p)"

definition FNDAnyNodeIsVersioned :: "CPAGE \<Rightarrow> bool" where
  "FNDAnyNodeIsVersioned p \<longleftrightarrow>
     FLeafPage p \<and> \<not> FSpaceTree p \<and> (cbUncommittedFree (pghdr p) \<noteq> 0 \<or> FAnyLineHasFlagSet fNDVersion p)"

definition FNDAnyNodeIsCompressed :: "CPAGE \<Rightarrow> bool" where
  "FNDAnyNodeIsCompressed p \<longleftrightarrow> FAnyLineHasFlagSet fNDCompressed p"

subsection \<open>The prefix of the page and of its nodes\<close>

text \<open>
  \<open>NDSetPrefix\<close>: on a root page the space header or split buffer in front of the prefix is copied out of
  the page and put back.
\<close>

definition NDSetPrefix :: "DATA KEY \<Rightarrow> CPAGE \<Rightarrow> CPAGE option" where
  "NDSetPrefix key p =
     (if FRootPage p \<and> DATA_Cb (prefix key) = 0 \<and> DATA_Cb (suffix key) = 0 then Some p
      else
        let cbExtHdr = (if FSpaceTree p then cb_SPLIT_BUFFER else cb_SPACE_HEADER);
            line = GetPtr_NoChecks 0 p;
            rgexthdr = (if FRootPage p \<and> l_cb line \<noteq> 0 then [OffPage (load_bytes (buf p) (l_pv line) cbExtHdr)] else [])
        in SetExternalHeader (rgexthdr @ [prefix key, suffix key]) 0 p)"

definition NDGetPrefix :: "CPAGE \<Rightarrow> DATA" where
  "NDGetPrefix p =
     (let line = GetPtr_NoChecks 0 p
      in if \<not> FRootPage p then OnPage (l_pv line) (l_cb line)
         else if FSpaceTree p then
           (if l_cb line \<ge> cb_SPLIT_BUFFER then OnPage (l_pv line + cb_SPLIT_BUFFER) (l_cb line - cb_SPLIT_BUFFER)
            else OnPage (l_pv line) 0)
         else null_data)"

definition NDGrowCbPrefix :: "int \<Rightarrow> DATA KEYDATAFLAGS \<Rightarrow> int \<Rightarrow> CPAGE \<Rightarrow> CPAGE option" where
  "NDGrowCbPrefix iline kdfCurr cbPrefixNew p =
     (let kdf = KDF (kdf_key kdfCurr) (kdf_data kdfCurr) (kdf_fFlags kdfCurr OR fNDCompressed);
          (rgdata, fFlagsLine) = CdataNDIPrefixAndKeydataflagsToDataflags kdf (word_of_int cbPrefixNew)
      in Replace iline rgdata fFlagsLine p)"

text \<open>The suffix and the data are copied to a buffer first, since the node grows.\<close>

definition NDShrinkCbPrefix :: "int \<Rightarrow> DATA KEYDATAFLAGS \<Rightarrow> bytes \<Rightarrow> int \<Rightarrow> CPAGE \<Rightarrow> CPAGE option" where
  "NDShrinkCbPrefix iline kdfCurr dataOldPrefix cbPrefixNew p =
     (let fl = (if cbPrefixNew > 0 then kdf_fFlags kdfCurr OR fNDCompressed else kdf_fFlags kdfCurr AND NOT fNDCompressed);
          kdf = KDF (KEY (OffPage (take (nat (DATA_Cb (prefix (kdf_key kdfCurr)))) dataOldPrefix))
                       (OffPage (data_bytes (buf p) (suffix (kdf_key kdfCurr)))))
                  (OffPage (data_bytes (buf p) (kdf_data kdfCurr))) fl;
          (rgdata, fFlagsLine) = CdataNDIPrefixAndKeydataflagsToDataflags kdf (word_of_int cbPrefixNew)
      in Replace iline rgdata fFlagsLine p)"

definition NDSetEmptyTree :: "CPAGE \<Rightarrow> CPAGE" where
  "NDSetEmptyTree p =
     (let p = NDDelete 0 p;
          ulFlags = fFlags (pghdr p) AND NOT fPageParentOfLeaf
      in SetFlags (ulFlags OR fPageLeaf) p)"

definition NDEmptyPage :: "CPAGE \<Rightarrow> CPAGE option" where
  "NDEmptyPage p =
     map_option (\<lambda>p. SetFEmpty (NDBulkDelete 0 (Clines p) p)) (NDSetPrefix (KEY null_data null_data) p)"

subsection \<open>Fields of the external header\<close>

text \<open>
  The external header of a root page holds one or more fields: a space header alone, or a byte that says which
  fields there are, followed by them.
\<close>

datatype NodeRootField = noderfWhole | noderfSpaceHeader | noderfIsamAutoInc

fun g_rgcbExternalHeaderSize :: "NodeRootField \<Rightarrow> int" where
  "g_rgcbExternalHeaderSize noderfWhole = 0"
| "g_rgcbExternalHeaderSize noderfSpaceHeader = cb_SPACE_HEADER"
| "g_rgcbExternalHeaderSize noderfIsamAutoInc = 8"

fun BNDIGetPersistedNrfFlag :: "NodeRootField \<Rightarrow> u8" where
  "BNDIGetPersistedNrfFlag noderfWhole = 0"
| "BNDIGetPersistedNrfFlag noderfSpaceHeader = 1"
| "BNDIGetPersistedNrfFlag noderfIsamAutoInc = 2"

text \<open>The fields in front of the one that is asked for.\<close>

fun fields_before :: "NodeRootField \<Rightarrow> NodeRootField list" where
  "fields_before noderfWhole = []"
| "fields_before noderfSpaceHeader = []"
| "fields_before noderfIsamAutoInc = [noderfSpaceHeader]"

definition skip_fields :: "u8 \<Rightarrow> NodeRootField \<Rightarrow> int" where
  "skip_fields fStoredFlag noderf =
     sum_list (map (\<lambda>f. if fStoredFlag AND BNDIGetPersistedNrfFlag f \<noteq> 0 then g_rgcbExternalHeaderSize f else 0) (fields_before noderf))"

text \<open>A null pointer and no bytes when the field is not there; a field that leaves the line is the \<open>AssertRTL\<close>.\<close>

definition NDGetPtrExternalHeader :: "NodeRootField \<Rightarrow> CPAGE \<Rightarrow> DATA option" where
  "NDGetPtrExternalHeader noderfRequested p =
     (let line = GetPtr_NoChecks 0 p
      in if noderfRequested = noderfWhole then Some (OnPage (l_pv line) (l_cb line))
         else
           let (fStoredFlag, pbCursor) =
                 (if l_cb line = 0 then (0, l_pv line)
                  else if l_cb line = cb_SPACE_HEADER then (BNDIGetPersistedNrfFlag noderfSpaceHeader, l_pv line)
                  else (buf p (l_pv line), l_pv line + 1));
               fRequestFlag = BNDIGetPersistedNrfFlag noderfRequested
           in if fStoredFlag AND fRequestFlag \<noteq> fRequestFlag then Some null_data
              else
                let pbCursor = pbCursor + skip_fields fStoredFlag noderfRequested
                in if g_rgcbExternalHeaderSize noderfRequested \<le> l_cb line \<and> pbCursor \<ge> l_pv line \<and>
                      pbCursor + g_rgcbExternalHeaderSize noderfRequested \<le> l_pv line + l_cb line
                   then Some (OnPage pbCursor (g_rgcbExternalHeaderSize noderfRequested))
                   else None)"

definition NDGetExternalHeader :: "NodeRootField \<Rightarrow> CPAGE \<Rightarrow> DATA KEYDATAFLAGS option" where
  "NDGetExternalHeader noderfRequested p =
     map_option (\<lambda>line. KDF (KEY null_data null_data) line 0) (NDGetPtrExternalHeader noderfRequested p)"

text \<open>
  \<open>NewExternalHeader\<close> computes what \<open>ErrNDISetExternalHeader\<close> writes, from the bytes of the old header:
  \<open>Inl\<close> is the error for a header that is too large for the 32 bytes of the buffer.  The assertions \<open>AssertRTL\<close> on
  the sizes, which end the process in all builds but the RTM one, are \<open>None\<close>.
\<close>

definition NewExternalHeader :: "bytes \<Rightarrow> NodeRootField \<Rightarrow> bytes \<Rightarrow> (NDERR + bytes) option" where
  "NewExternalHeader line noderfRequested pdata =
     (if noderfRequested \<noteq> noderfWhole \<and> Cb pdata \<noteq> g_rgcbExternalHeaderSize noderfRequested then None
      else if noderfRequested = noderfWhole \<or>
         noderfRequested = noderfSpaceHeader \<and> (Cb line = cb_SPACE_HEADER \<or> Cb line = 0)
      then Some (Inr pdata)
      else
        let (fStoredFlag, pb) =
              (if Cb line = cb_SPACE_HEADER then (BNDIGetPersistedNrfFlag noderfSpaceHeader, line)
               else if Cb line = 0 then (0, line)
               else (hd line, tl line));
            cbPreceding = skip_fields fStoredFlag noderfRequested;
            cbField = g_rgcbExternalHeaderSize noderfRequested
        in if cbPreceding > Cb pb then None
           else if 32 < cbPreceding + 1 then Some (Inl JET_errInvalidBufferSize)
           else if 32 < cbPreceding + cbField + 1 then Some (Inl JET_errInvalidBufferSize)
           else
             let fRequestFlag = BNDIGetPersistedNrfFlag noderfRequested;
                 cbSkip = (if fRequestFlag AND fStoredFlag \<noteq> 0 then cbPreceding + cbField else cbPreceding);
                 cbPostceding = Cb pb - cbSkip
             in if cbPostceding < 0 \<or> 32 < 1 + cbPreceding + cbField + cbPostceding then None
                else Some (Inr ((fStoredFlag OR fRequestFlag) # take (nat cbPreceding) pb @ pdata @ drop (nat cbSkip) pb)))"

text \<open>
  \<open>ErrLG\<close> is the logging of the new header, which may fail, \<open>Dirty\<close> the marking of a page that is not logged;
  both only when the flags ask for them.
\<close>

definition ErrNDISetExternalHeader :: "(bytes \<Rightarrow> CPAGE \<Rightarrow> NDERR \<times> CPAGE) \<Rightarrow> (CPAGE \<Rightarrow> CPAGE) \<Rightarrow> bool \<Rightarrow> bool \<Rightarrow>
    bytes \<Rightarrow> NodeRootField \<Rightarrow> CPAGE \<Rightarrow> (NDERR \<times> CPAGE) option" where
  "ErrNDISetExternalHeader ErrLG Dirty fLogging fMustDirty pdata noderfRequested p =
     (let p = (if \<not> fLogging \<and> fMustDirty then Dirty p else p);
          line = GetPtr_NoChecks 0 p
      in case NewExternalHeader (load_bytes (buf p) (l_pv line) (l_cb line)) noderfRequested pdata of
           None \<Rightarrow> None
         | Some (Inl err) \<Rightarrow> Some (err, p)
         | Some (Inr newData) \<Rightarrow>
             (case (if fLogging then ErrLG newData p else (JET_errSuccess, p)) of
                (err, p) \<Rightarrow>
                  if err \<noteq> JET_errSuccess then Some (err, p)
                  else map_option (Pair JET_errSuccess) (SetExternalHeader [OffPage newData] 0 p)))"

text \<open>A new prefix must not be shorter than what a node uses of it.\<close>

fun ValidateLoop :: "CPAGE \<Rightarrow> int \<Rightarrow> int list \<Rightarrow> NDERR option" where
  "ValidateLoop p cb [] = Some JET_errSuccess"
| "ValidateLoop p cb (iline # ilines) =
     (case NDIGetKeydataflags iline p of
        None \<Rightarrow> None
      | Some kdfNode \<Rightarrow>
          if DATA_Cb (prefix (kdf_key kdfNode)) > cb then Some JET_errLogOperationInconsistentWithDatabase
          else ValidateLoop p cb ilines)"

definition ErrNDValidateSetExternalHeader :: "CPAGE \<Rightarrow> bytes \<Rightarrow> NDERR option" where
  "ErrNDValidateSetExternalHeader p pdata =
     (if FSpaceTree p \<or> FRootPage p then Some JET_errSuccess else ValidateLoop p (Cb pdata) [0..Clines p - 1])"

subsection \<open>Reserved tags\<close>

fun ReservedTagLoop :: "u8 \<Rightarrow> CPAGE \<Rightarrow> int list \<Rightarrow> int \<times> DATA" where
  "ReservedTagLoop resvTagId p [] = (-1, null_data)"
| "ReservedTagLoop resvTagId p (itag # itags) =
     (let line = GetPtr_NoChecks itag p
      in if buf p (l_pv line) = resvTagId then (itag, OnPage (l_pv line) (l_cb line))
         else ReservedTagLoop resvTagId p itags)"

definition INDIGetReservedTag :: "u8 \<Rightarrow> CPAGE \<Rightarrow> int \<times> DATA" where
  "INDIGetReservedTag resvTagId p = ReservedTagLoop resvTagId p [1..CTagReserved p - 1]"

definition INDIAddReservedTag :: "u8 \<Rightarrow> int \<Rightarrow> u8 \<Rightarrow> CPAGE \<Rightarrow> (int \<times> CPAGE) option" where
  "INDIAddReservedTag resvTagId cb fill p =
     (if \<not> fst (INDIGetReservedTag resvTagId p) < 0 then None
      else
        Option.bind (IAddReservedTag cb fill p) (\<lambda>(itag, p).
        if \<not> itag > 0 then None
        else Some (itag, upd_buf (\<lambda>b. b(l_pv (GetPtr_NoChecks itag p) := resvTagId)) p)))"

definition NDIReplaceReservedTag :: "u8 \<Rightarrow> DATA \<Rightarrow> CPAGE \<Rightarrow> CPAGE option" where
  "NDIReplaceReservedTag resvTagId data p =
     (let (itag, dataOld) = INDIGetReservedTag resvTagId p
      in if \<not> itag > 0 then None else ReplaceReservedTag itag [data] p)"

subsection \<open>Scrubbing\<close>

datatype SCRUBOPER = scrubOperNone | scrubOperScrubData | scrubOperScrubLVData

definition chSCRUBDBMaintDeletedDataFill :: u8 where "chSCRUBDBMaintDeletedDataFill = 0x44"
definition chSCRUBDBMaintLVChunkFill :: u8 where "chSCRUBDBMaintLVChunkFill = 0x4C"
definition chSCRUBDBMaintUsedPageFreeFill :: u8 where "chSCRUBDBMaintUsedPageFreeFill = 0x5A"
definition chSCRUBDBMaintUnusedPageFill :: u8 where "chSCRUBDBMaintUnusedPageFill = 0x55"

text \<open>\<open>ScrubLV\<close> is the overwriting of a chunk of a long value, \<open>ErrRECScrubLVChunk\<close>.\<close>

fun ScrubLoop :: "(bytes \<Rightarrow> u8 \<Rightarrow> bytes) \<Rightarrow> (int \<times> SCRUBOPER) list \<Rightarrow> CPAGE \<Rightarrow> CPAGE option" where
  "ScrubLoop ScrubLV [] p = Some p"
| "ScrubLoop ScrubLV ((iline, oper) # rest) p =
     (case NDIGetKeydataflags iline p of
        None \<Rightarrow> None
      | Some kdf \<Rightarrow>
          (case kdf_data kdf of
             OffPage bs \<Rightarrow> None
           | OnPage pv cb \<Rightarrow>
               (case oper of
                  scrubOperNone \<Rightarrow> ScrubLoop ScrubLV rest p
                | scrubOperScrubData \<Rightarrow>
                    ScrubLoop ScrubLV rest (ReplaceFlags iline (kdf_fFlags kdf AND NOT fNDVersion)
                      (upd_buf (memset pv chSCRUBDBMaintDeletedDataFill cb) p))
                | scrubOperScrubLVData \<Rightarrow>
                    ScrubLoop ScrubLV rest (ReplaceFlags iline (kdf_fFlags kdf AND NOT fNDVersion)
                      (upd_buf (store_bytes pv (ScrubLV (load_bytes (buf p) pv cb) chSCRUBDBMaintLVChunkFill)) p)))))"

definition NDScrubOneUsedPage :: "(bytes \<Rightarrow> u8 \<Rightarrow> bytes) \<Rightarrow> SCRUBOPER list \<Rightarrow> CPAGE \<Rightarrow> CPAGE option" where
  "NDScrubOneUsedPage ScrubLV rgscrubOper p =
     (if int (length rgscrubOper) \<noteq> Clines p then None
      else
        Option.bind (ScrubLoop ScrubLV (zip [0..Clines p - 1] rgscrubOper) p)
          (OverwriteUnusedSpace chSCRUBDBMaintUsedPageFreeFill))"

definition NDScrubOneUnusedPage :: "CPAGE \<Rightarrow> CPAGE option" where
  "NDScrubOneUnusedPage p =
     OverwriteUnusedSpace chSCRUBDBMaintUnusedPageFill (((\<lambda>p. Delete 0 p) ^^ nat (Clines p)) p)"

end
