(* ===== verification/Node_Refine.thy ===== *)
theory Node_Refine
  imports Node_Lines Node_Ops
begin

text \<open>
  The operations of the node layer as operations on the list of nodes: insertion, deletion, flags,
  replacement in place, and the changes of the prefix.
\<close>

subsection \<open>What the line operations keep\<close>

lemma ReorganizeLoop_pghdr: "ReorganizeLoop ts ib pb p = Some (ib', q) \<Longrightarrow> pghdr q = pghdr p"
  by (induction ts ib pb p rule: ReorganizeLoop.induct) (auto simp: Let_def split: if_splits)

lemma ReorganizeData_fFlags: "ReorganizeData p = Some q \<Longrightarrow> fFlags (pghdr q) = fFlags (pghdr p)"
  by (auto simp: ReorganizeData_def Let_def dest!: ReorganizeLoop_pghdr split: option.splits if_splits prod.splits)

lemma FreeSpace_fFlags: "FreeSpace cb p = Some q \<Longrightarrow> fFlags (pghdr q) = fFlags (pghdr p)"
  by (auto simp: FreeSpace_def dest!: ReorganizeData_fFlags split: option.splits if_splits)

lemma SetITagMicFree_fFlags [simp]: "fFlags (pghdr (SetITagMicFree n p)) = fFlags (pghdr p)"
  by (simp add: SetITagMicFree_def SetITagState_def Let_def)

lemma ExpandTagArray_fFlags [simp]: "fFlags (pghdr (ExpandTagArray itag p)) = fFlags (pghdr p)"
  by (simp add: ExpandTagArray_def Let_def)

lemma Insert_fFlags: "Insert iline ds fl p = Some q \<Longrightarrow> fFlags (pghdr q) = fFlags (pghdr p)"
  by (auto simp: Insert_def Insert_at_def Let_def dest!: FreeSpace_fFlags split: option.splits)

lemma ReplaceGrow_fFlags: "ReplaceGrow t cb p = Some q \<Longrightarrow> fFlags (pghdr q) = fFlags (pghdr p)"
  by (auto simp: ReplaceGrow_def Let_def dest!: FreeSpace_fFlags split: option.splits if_splits)

lemma Replace_at_fFlags: "Replace_at itag ds fl p = Some q \<Longrightarrow> fFlags (pghdr q) = fFlags (pghdr p)"
  by (auto simp: Replace_at_def ReplaceInPlace_def Let_def dest!: ReplaceGrow_fFlags split: option.splits if_splits)

lemma Delete_fFlags [simp]: "fFlags (pghdr (Delete iline p)) = fFlags (pghdr p)"
  by (simp add: Delete_def Delete_at_def Let_def)

lemma page_kind_cong: "fFlags (pghdr q) = fFlags (pghdr p) \<Longrightarrow>
    FRootPage q = FRootPage p \<and> FSpaceTree q = FSpaceTree p \<and> FLeafPage q = FLeafPage p"
  by (simp add: FRootPage_def FSpaceTree_def FLeafPage_def)

lemma reserved_0: "page_ok p \<Longrightarrow> lines p ! 0 = reserved_lines p ! 0"
  using reserved_le [of p] by (simp add: reserved_lines_def)

lemma node_prefix_cong:
  assumes "page_ok p" "page_ok q" "fFlags (pghdr q) = fFlags (pghdr p)" "reserved_lines q = reserved_lines p"
  shows "node_prefix q = node_prefix p"
  using page_kind_cong [OF assms(3)] reserved_0 [OF assms(1)] reserved_0 [OF assms(2)] assms(4) by (simp add: node_prefix_def)

subsection \<open>The pieces of a line\<close>

definition valid_data :: "DATA \<Rightarrow> bool" where
  "valid_data d \<longleftrightarrow> 0 \<le> DATA_Cb d"

definition valid_kdf :: "DATA KEYDATAFLAGS \<Rightarrow> bool" where
  "valid_kdf kdf \<longleftrightarrow> valid_data (prefix (kdf_key kdf)) \<and> valid_data (suffix (kdf_key kdf)) \<and> valid_data (kdf_data kdf)"

definition kdf_bytes :: "mem \<Rightarrow> DATA KEYDATAFLAGS \<Rightarrow> bytes" where
  "kdf_bytes b kdf = data_bytes b (prefix (kdf_key kdf)) @ data_bytes b (suffix (kdf_key kdf))"

definition enc_node :: "nat \<Rightarrow> bytes \<Rightarrow> bytes \<Rightarrow> bytes" where
  "enc_node c key d = (if c = 0 then [] else le16 (of_nat c)) @ le16 (of_nat (length key - c)) @ drop c key @ d"

lemma length_data_bytes: "valid_data d \<Longrightarrow> int (length (data_bytes b d)) = DATA_Cb d"
  by (cases d) (simp_all add: valid_data_def)

lemma data_bytes_tail: "0 \<le> n \<Longrightarrow> n \<le> DATA_Cb d \<Longrightarrow> data_bytes b (data_tail n d) = drop (nat n) (data_bytes b d)"
proof (cases d)
  case (OnPage pv cb)
  assume "0 \<le> n" "n \<le> DATA_Cb d"
  then show ?thesis unfolding OnPage
    by (intro nth_equalityI) (simp_all add: nat_diff_distrib add.assoc)
qed simp

lemma valid_tail: "0 \<le> n \<Longrightarrow> n \<le> DATA_Cb d \<Longrightarrow> valid_data (data_tail n d)"
  by (cases d) (auto simp: valid_data_def)

lemma Cdata_prefix_bytes:
  assumes v: "valid_kdf kdf" and c: "c < 65536" "c \<le> length (kdf_bytes b kdf)"
  shows "concat (map (data_bytes b) (fst (CdataNDIPrefixAndKeydataflagsToDataflags kdf (of_nat c)))) =
      enc_node c (kdf_bytes b kdf) (data_bytes b (kdf_data kdf))"
    "snd (CdataNDIPrefixAndKeydataflagsToDataflags kdf (of_nat c)) =
      (if c = 0 then kdf_fFlags kdf AND NOT fNDCompressed else kdf_fFlags kdf OR fNDCompressed)"
proof -
  let ?P = "prefix (kdf_key kdf)" and ?S = "suffix (kdf_key kdf)"
  have u: "uint (of_nat c :: u16) = int c" using c(1) by (simp add: uint_nat unat_of_nat)
  have len: "int (length (data_bytes b ?P)) = DATA_Cb ?P" "int (length (data_bytes b ?S)) = DATA_Cb ?S"
    using v length_data_bytes by (auto simp: valid_kdf_def)
  have tot: "int c \<le> DATA_Cb ?P + DATA_Cb ?S" using c(2) len by (simp add: kdf_bytes_def)
  define P S where "P = data_bytes b ?P" and "S = data_bytes b ?S"
  have P: "DATA_Cb ?P = int (length P)" and S: "DATA_Cb ?S = int (length S)" using len by (simp_all add: P_def S_def)
  have kb: "kdf_bytes b kdf = P @ S" by (simp add: kdf_bytes_def P_def S_def)
  have tot': "c \<le> length P + length S" using c(2) by (simp add: kb)
  have w: "word_of_int (int (length P) + int (length S) - int c) = (of_nat (length P + length S - c) :: u16)"
    using tot' by (simp flip: of_nat_add add: of_nat_diff)
  show "concat (map (data_bytes b) (fst (CdataNDIPrefixAndKeydataflagsToDataflags kdf (of_nat c)))) =
      enc_node c (kdf_bytes b kdf) (data_bytes b (kdf_data kdf))"
  proof (cases "length P \<le> c")
    case True
    have e: "int (length S) - (int c - int (length P)) = int (length P) + int (length S) - int c" by simp
    have "(word_of_int (int (length S) - (int c - int (length P))) :: u16) = of_nat (length P + length S - c)"
      unfolding e by (rule w)
    moreover have "data_bytes b (data_tail (int c - int (length P)) ?S) = drop c (P @ S)"
      using True tot' by (subst data_bytes_tail) (simp_all add: S nat_diff_distrib flip: S_def)
    ultimately show ?thesis
      using True by (simp add: CdataNDIPrefixAndKeydataflagsToDataflags_def u Let_def enc_node_def P S kb
        del: of_int_diff of_int_add of_int_of_nat_eq of_nat_add of_nat_diff)
  next
    case False
    have e: "int (length S) + (int (length P) - int c) = int (length P) + int (length S) - int c" by simp
    have "(word_of_int (int (length S) + (int (length P) - int c)) :: u16) = of_nat (length P + length S - c)"
      unfolding e by (rule w)
    moreover have "data_bytes b (data_tail (int c) ?P) @ data_bytes b ?S = drop c (P @ S)"
      using False by (subst data_bytes_tail) (simp_all add: P flip: P_def S_def)
    ultimately show ?thesis
      using False by (simp add: CdataNDIPrefixAndKeydataflagsToDataflags_def u Let_def enc_node_def P S kb
        del: of_int_diff of_int_add of_int_of_nat_eq of_nat_add of_nat_diff)
  qed
  show "snd (CdataNDIPrefixAndKeydataflagsToDataflags kdf (of_nat c)) =
      (if c = 0 then kdf_fFlags kdf AND NOT fNDCompressed else kdf_fFlags kdf OR fNDCompressed)"
    by (auto simp: CdataNDIPrefixAndKeydataflagsToDataflags_def u Let_def split: prod.splits)
qed

lemma Cdata_bytes:
  assumes v: "valid_kdf kdf" and c: "DATA_Cb (prefix (kdf_key kdf)) = int c" "c < 65536"
  shows "concat (map (data_bytes b) (fst (CdataNDIKeydataflagsToDataflags kdf))) =
      enc_node c (kdf_bytes b kdf) (data_bytes b (kdf_data kdf))"
    "snd (CdataNDIKeydataflagsToDataflags kdf) = kdf_fFlags kdf"
proof -
  let ?P = "prefix (kdf_key kdf)" and ?S = "suffix (kdf_key kdf)"
  have len: "length (data_bytes b ?P) = c" "int (length (data_bytes b ?S)) = DATA_Cb ?S"
    using v length_data_bytes [of ?P b] length_data_bytes [of ?S b] c by (auto simp: valid_kdf_def)
  have "(word_of_int (DATA_Cb ?S) :: u16) = of_nat (length (kdf_bytes b kdf) - c)"
    using len by (simp add: kdf_bytes_def flip: len(2))
  then show "concat (map (data_bytes b) (fst (CdataNDIKeydataflagsToDataflags kdf))) =
      enc_node c (kdf_bytes b kdf) (data_bytes b (kdf_data kdf))"
    using c len by (simp add: CdataNDIKeydataflagsToDataflags_def enc_node_def kdf_bytes_def)
qed (simp add: CdataNDIKeydataflagsToDataflags_def)

subsection \<open>The node of an encoded line\<close>

lemma le16_inj_less: "n < 8192 \<Longrightarrow> key_size (le16 (of_nat n) @ bs) = n"
proof -
  assume n: "n < 8192"
  have "uint (of_nat n :: u16) = int n" using n by (simp add: uint_nat unat_of_nat)
  then show ?thesis using key_size_le16 [of "of_nat n" bs] n by (simp add: unat_of_nat)
qed

lemma length_enc_node: "length (enc_node c key d) = (if c = 0 then 2 else 4) + (length key - c) + length d"
  by (simp add: enc_node_def)

lemma stored_node:
  fixes p :: CPAGE and d :: bytes
  assumes c: "c < 8192" "c \<le> length key" "length key - c < 8192" and fl: "(fl AND fNDCompressed = 0) = (c = 0)"
  defines "l \<equiv> stored p 1 fl (enc_node c key d)"
  shows "line_node pfx (fSmallFormat p) l = KDF (KEY (take c pfx) (drop c key)) d (fl AND 7)"
    "d \<noteq> [] \<Longrightarrow> c \<le> length pfx \<Longrightarrow> c = 0 \<or> 2 < c \<Longrightarrow> node_ok pfx (fSmallFormat p) l"
    "line_cbPrefix (fSmallFormat p) l = c"
proof -
  have len: "2 \<le> length (enc_node c key d)" by (simp add: length_enc_node)
  have flags: "line_flags (fSmallFormat p) l = fl AND 7" unfolding l_def by (rule line_flags_stored [OF len])
  have "(fl AND 7) AND fNDCompressed = fl AND fNDCompressed" by (simp add: fNDCompressed_def and.assoc)
  then have comp: "line_compressed (fSmallFormat p) l \<longleftrightarrow> c \<noteq> 0" using fl by (simp add: line_compressed_def flags)
  have snd: "snd l = enc_node c key d \<or> snd l = stamp fl (enc_node c key d)" by (auto simp: l_def stored_def)
  have cb: "line_cbPrefix (fSmallFormat p) l = c"
    using snd key_size_stamp [OF len, of fl] le16_inj_less [OF c(1)] by (auto simp: line_cbPrefix_def comp enc_node_def)
  define B where "B = line_body (fSmallFormat p) l"
  have B: "B = drop (if c = 0 then 0 else 2) (snd l)" by (simp add: B_def line_body_def comp)
  have szB: "key_size B = length key - c"
  proof (cases "c = 0")
    case True
    then show ?thesis using snd key_size_stamp [OF len, of fl] le16_inj_less [OF c(3)]
      by (auto simp: B enc_node_def)
  next
    case False
    then show ?thesis using snd le16_inj_less [OF c(3)] by (auto simp: B drop_stamp) (simp_all add: enc_node_def)
  qed
  have dB: "drop 2 B = drop c key @ d"
    using snd by (auto simp: B drop_stamp drop_drop) (auto simp: enc_node_def)
  have "drop (2 + key_size B) B = drop (key_size B) (drop 2 B)" by simp
  then show "line_node pfx (fSmallFormat p) l = KDF (KEY (take c pfx) (drop c key)) d (fl AND 7)"
    unfolding line_node_def B_def [symmetric] cb flags using dB szB by simp
  have "length B = 2 + length (drop 2 B)" using snd len by (auto simp: B length_enc_node)
  then show "d \<noteq> [] \<Longrightarrow> c \<le> length pfx \<Longrightarrow> c = 0 \<or> 2 < c \<Longrightarrow> node_ok pfx (fSmallFormat p) l"
    unfolding node_ok_def B_def [symmetric] cb comp using dB szB c(2) by (cases d) auto
  show "line_cbPrefix (fSmallFormat p) l = c" by (rule cb)
qed


subsection \<open>Insertion and deletion\<close>

lemma nodes_ok_page: "nodes_ok p \<Longrightarrow> page_ok p \<and> FIsNormalSized p"
  by (simp add: nodes_ok_def page_inv_def)

lemma length_nodes: "page_ok p \<Longrightarrow> int (length (nodes p)) = Clines p"
  by (simp add: nodes_def length_data_lines)

lemma list_ins_map: "list_ins k (f x) (map f xs) = map f (list_ins k x xs)"
  by (simp add: list_ins_def take_map drop_map)

lemma list_del_map: "list_del k (map f xs) = map f (list_del k xs)"
  by (simp add: list_del_def take_map drop_map)

text \<open>A list of pieces out of the page that make up a node, inserted as a line.\<close>

lemma Insert_node:
  fixes p :: CPAGE and d key :: bytes
  assumes ok: "nodes_ok p" and i: "0 \<le> iline" "iline \<le> Clines p" and n: "ITagMicFree p < 4095"
    and e: "concat bss = enc_node c key d" and room: "int (length (enc_node c key d)) + 4 \<le> uint (CbFree p)"
    and c: "c < 8192" "c \<le> length key" "length key - c < 8192" "c \<le> length (node_prefix p)" "c = 0 \<or> 2 < c"
    and k: "take c key = take c (node_prefix p)" and d: "d \<noteq> []"
    and fl: "(fl AND fNDCompressed = 0) = (c = 0)"
  obtains q where "Insert iline (map OffPage bss) fl p = Some q" "nodes_ok q" "node_prefix q = node_prefix p"
    "nodes q = list_ins (nat iline) (KDF (KEY (take c key) (drop c key)) d (fl AND 7)) (nodes p)"
    "uint (CbFree q) = uint (CbFree p) - int (length (enc_node c key d)) - 4" "fFlags (pghdr q) = fFlags (pghdr p)"
proof -
  let ?l = "stored p 1 fl (enc_node c key d)"
  have p: "page_ok p" "FIsNormalSized p" using nodes_ok_page [OF ok] by simp_all
  obtain q where q: "Insert iline (map OffPage bss) fl p = Some q" "page_ok q" "FIsNormalSized q"
    "data_lines q = list_ins (nat iline) ?l (data_lines p)" "reserved_lines q = reserved_lines p"
    "uint (CbFree q) = uint (CbFree p) - int (length (enc_node c key d)) - 4" "fSmallFormat q = fSmallFormat p"
    using page_insert_ok [OF p i n, of bss fl] room unfolding e by auto
  note f = Insert_fFlags [OF q(1)]
  have np: "node_prefix q = node_prefix p" by (rule node_prefix_cong [OF p(1) q(2) f q(5)])
  note s = stored_node(1,2) [where p = p and fl = fl and d = d and pfx = "node_prefix p", OF c(1-3) fl]
  have "nodes_ok q"
    using ok q(2-4,7) s(2) [OF d c(4,5)] set_list_ins [of "nat iline" ?l "data_lines p"]
    by (auto simp: nodes_ok_def page_inv_def np list_all_iff)
  moreover have "nodes q = list_ins (nat iline) (KDF (KEY (take c key) (drop c key)) d (fl AND 7)) (nodes p)"
    by (simp add: nodes_def np q(4,7) k s(1) del: One_nat_def flip: list_ins_map)
  ultimately show thesis using that q f np by blast
qed

lemma flag_bit: "(w AND NOT fNDCompressed) AND fNDCompressed = 0" "(w OR fNDCompressed) AND fNDCompressed \<noteq> 0"
proof -
  show "(w AND NOT fNDCompressed) AND fNDCompressed = 0" by (simp add: and.assoc)
  have "(w OR fNDCompressed) AND fNDCompressed = fNDCompressed" by (simp add: word_ao_absorbs)
  then show "(w OR fNDCompressed) AND fNDCompressed \<noteq> 0" by (simp add: fNDCompressed_def)
qed

lemma NDInsert_cbPrefix_spec:
  fixes p :: CPAGE and K :: "bytes KEYDATAFLAGS"
  assumes ok: "nodes_ok p" and i: "0 \<le> iline" "iline \<le> Clines p" and n: "ITagMicFree p < 4095"
    and c: "c < 8192" "c \<le> length (key_bytes (kdf_key K))" "length (key_bytes (kdf_key K)) - c < 8192" "c \<le> length (node_prefix p)" "c = 0 \<or> 2 < c"
    and k: "take c (key_bytes (kdf_key K)) = take c (node_prefix p)" and d: "kdf_data K \<noteq> []"
    and room: "int (length (enc_node c (key_bytes (kdf_key K)) (kdf_data K))) + 4 \<le> uint (CbFree p)"
  defines "fl \<equiv> (if c = 0 then kdf_fFlags K AND NOT fNDCompressed else kdf_fFlags K OR fNDCompressed)"
  obtains q where "NDInsert_cbPrefix iline (map_KEYDATAFLAGS OffPage K) (int c) p = Some q" "nodes_ok q" "node_prefix q = node_prefix p"
    "nodes q = list_ins (nat iline) (KDF (KEY (take c (key_bytes (kdf_key K))) (drop c (key_bytes (kdf_key K)))) (kdf_data K) (fl AND 7)) (nodes p)"
    "uint (CbFree q) = uint (CbFree p) - int (length (enc_node c (key_bytes (kdf_key K)) (kdf_data K))) - 4" "fFlags (pghdr q) = fFlags (pghdr p)"
proof -
  let ?K = "map_KEYDATAFLAGS OffPage K"
  have kb: "kdf_bytes b ?K = key_bytes (kdf_key K)" "data_bytes b (kdf_data ?K) = kdf_data K" "kdf_fFlags ?K = kdf_fFlags K" for b
    by (cases K; cases "kdf_key K"; simp add: kdf_bytes_def key_bytes_def)+
  have v: "valid_kdf ?K" by (cases K; cases "kdf_key K") (simp add: valid_kdf_def valid_data_def)
  note e = Cdata_prefix_bytes [OF v, of c, unfolded kb]
  define bss where "bss = map (data_bytes (buf p)) (fst (CdataNDIPrefixAndKeydataflagsToDataflags ?K (of_nat c)))"
  have off: "fst (CdataNDIPrefixAndKeydataflagsToDataflags ?K (of_nat c)) = map OffPage bss"
    by (cases K; cases "kdf_key K") (auto simp: bss_def CdataNDIPrefixAndKeydataflagsToDataflags_def Let_def)
  have c': "c < 65536" using c(1) by simp
  have fl: "(fl AND fNDCompressed = 0) = (c = 0)"
    using flag_bit by (simp add: fl_def del: word_ao_absorbs)
  have "CdataNDIPrefixAndKeydataflagsToDataflags ?K (of_nat c) = (map OffPage bss, fl)"
    unfolding fl_def e(2) [OF c' c(2), symmetric] off [symmetric] by (rule surjective_pairing)
  then have "NDInsert_cbPrefix iline ?K (int c) p = Insert iline (map OffPage bss) fl p"
    unfolding NDInsert_cbPrefix_def of_int_of_nat_eq by simp
  then show thesis
    using Insert_node [OF ok i n _ room c k d fl, of bss] e(1) [OF c' c(2), of "buf p"] that unfolding bss_def by metis
qed

end
