(* ===== verification/Node_Replace.thy ===== *)
theory Node_Replace
  imports Node_Refine
begin

text \<open>
  Replacing a node by pieces of which some still lie on the page: the copy works from left to right, so a
  piece that moves to the left, or not at all, is read before it is overwritten.  Such a replacement of a
  line that does not grow stores the bytes the pieces had before it began.
\<close>

subsection \<open>Copying pieces that lie on the page\<close>

fun copy_ok :: "int \<Rightarrow> DATA list \<Rightarrow> bool" where
  "copy_ok pb [] = True"
| "copy_ok pb (OffPage bs # ds) = copy_ok (pb + int (length bs)) ds"
| "copy_ok pb (OnPage pv cb # ds) = (0 \<le> cb \<and> (cb = 0 \<or> pb \<le> pv) \<and> copy_ok (pb + cb) ds)"

definition contents :: "mem \<Rightarrow> DATA list \<Rightarrow> bytes" where
  "contents b ds = concat (map (data_bytes b) ds)"

lemma load_bytes_above:
  assumes "\<And>i. pb \<le> i \<Longrightarrow> b i = b0 i" "n = 0 \<or> pb \<le> pv"
  shows "load_bytes b pv n = load_bytes b0 pv n"
  using assms by (auto intro!: nth_equalityI)

lemma store_append: "store_bytes pb (xs @ ys) b = store_bytes (pb + int (length xs)) ys (store_bytes pb xs b)"
  by (auto simp: store_bytes_def fun_eq_iff nth_append nat_diff_distrib intro!: arg_cong [of _ _ "(!) ys"])

lemma memmove_store: "memmove pb pv n b = store_bytes pb (load_bytes b pv n) b"
  by (auto simp: memmove_def store_bytes_def fun_eq_iff)

lemma store_above: "pb + int (length xs) \<le> i \<Longrightarrow> store_bytes pb xs b i = b i"
  by (simp add: store_bytes_def)

lemma CopyLines_contents:
  "copy_ok pb ds \<Longrightarrow> (\<And>i. pb \<le> i \<Longrightarrow> b i = b0 i) \<Longrightarrow> CopyLines pb ds b = store_bytes pb (contents b0 ds) b"
proof (induction pb ds arbitrary: b rule: copy_ok.induct)
  case (1 pb)
  then show ?case by (auto simp: contents_def store_bytes_def fun_eq_iff)
next
  case (2 pb bs ds)
  have "CopyLines (pb + int (length bs)) ds (store_bytes pb bs b) =
      store_bytes (pb + int (length bs)) (contents b0 ds) (store_bytes pb bs b)"
    by (rule "2.IH") (use "2.prems" in \<open>simp_all add: store_above\<close>)
  then show ?case by (simp add: contents_def store_append)
next
  case (3 pb pv cb ds)
  have l: "load_bytes b pv cb = load_bytes b0 pv cb"
    by (rule load_bytes_above [of pb]) (use "3.prems" in auto)
  have "CopyLines (pb + cb) ds (memmove pb pv cb b) = store_bytes (pb + cb) (contents b0 ds) (memmove pb pv cb b)"
    by (rule "3.IH") (use "3.prems" in \<open>auto simp: memmove_def\<close>)
  then show ?case using "3.prems"(1) by (simp add: contents_def store_append memmove_store l)
qed

lemma CbDataTotal_contents: "copy_ok pb ds \<Longrightarrow> CbDataTotal ds = int (length (contents b ds))"
  by (induction pb ds rule: copy_ok.induct) (simp_all add: contents_def)

lemma CopyData_contents:
  assumes "copy_ok (PbFromIb p (uint (TAG_Ib p t))) ds"
  shows "CopyData t ds p = CopyData t [OffPage (contents (buf p) ds)] p"
  using CopyLines_contents [OF assms, of "buf p" "buf p"]
  by (simp add: CopyData_def)

subsection \<open>Replacement by such pieces\<close>

definition sources_in :: "int \<Rightarrow> int \<Rightarrow> DATA list \<Rightarrow> bool" where
  "sources_in lo hi ds \<longleftrightarrow> list_all (\<lambda>d. case d of OffPage bs \<Rightarrow> True | OnPage pv cb \<Rightarrow> cb \<le> 0 \<or> lo \<le> pv \<and> pv + cb \<le> hi) ds"

lemma contents_cong:
  assumes "sources_in lo hi ds" "\<And>i. lo \<le> i \<Longrightarrow> i < hi \<Longrightarrow> b i = b' i"
  shows "contents b ds = contents b' ds"
proof -
  have "data_bytes b d = data_bytes b' d" if "d \<in> set ds" for d
  proof (cases d)
    case (OnPage pv cb)
    then have "cb \<le> 0 \<or> lo \<le> pv \<and> pv + cb \<le> hi" using assms(1) that by (auto simp: sources_in_def list_all_iff)
    then show ?thesis unfolding OnPage using assms(2) by (auto intro!: nth_equalityI)
  qed simp
  then show ?thesis unfolding contents_def by (metis map_cong)
qed

lemma SetFlags_buf:
  assumes k: "int k < ITagMicFree p" and t: "t = PtagFromItag p (int k)"
    and i: "PbFromIb p (t_ib (tags p ! k)) + 2 \<le> i" "i < cbBuffer p - CbTagArray p"
  shows "buf (TAG_SetFlags t fl p) i = buf p i"
proof (cases "fSmallFormat p")
  case True
  then show ?thesis using below_tag [OF k i(2)] by (simp add: t buf_SetFlags_small)
next
  case False
  then show ?thesis using i(1) nth_tags [OF k] by (simp add: t buf_SetFlags_large)
qed

lemma Replace_at_contents:
  assumes ok: "page_ok p" and k: "int k < ITagMicFree p"
    and src: "copy_ok (PbFromIb p (t_ib (tags p ! k))) ds"
      "sources_in (PbFromIb p (t_ib (tags p ! k)) + 2) (PbFromIb p (t_ib (tags p ! k)) + t_cb (tags p ! k)) ds"
    and fit: "CbDataTotal ds \<le> t_cb (tags p ! k)"
  shows "Replace_at (int k) ds flags p = Replace_at (int k) (map OffPage [contents (buf p) ds]) flags p"
proof -
  let ?a = "PbFromIb p (t_ib (tags p ! k))" and ?t = "PtagFromItag p (int k)"
  have s: "shape_ok p" "tags_ok p" using ok by (simp_all add: page_ok_def)
  have kl: "k < length (tags p)" using k by simp
  note tn = tag_nonneg [OF nth_mem [OF kl]]
  have cb: "uint (TAG_Cb p ?t) = t_cb (tags p ! k)" "uint (TAG_Ib p ?t) = t_ib (tags p ! k)" using k by (simp_all add: nth_tags)
  have end_k: "t_ib (tags p ! k) + t_cb (tags p ! k) + CbTagArray p \<le> CbBufferData p" if "t_cb (tags p ! k) \<noteq> 0"
    using tags_okD [OF s(2) k that] s(2) by (simp add: tags_ok_def)
  define L where "L = CbDataTotal ds"
  have L: "L = int (length (contents (buf p) ds))" unfolding L_def by (rule CbDataTotal_contents [OF src(1)])
  have t32: "t_cb (tags p ! k) < 32768"
  proof (cases "t_cb (tags p ! k) = 0")
    case False
    then show ?thesis using end_k tn(1) CbTagArray_nonneg(1) [of p] data_fits(2) [OF s(1)] by linarith
  qed simp
  have L16: "uint (word_of_int L :: u16) = L" using L fit [folded L_def] t32 by (intro uint16_of_int) linarith+
  have d: "sint (word_of_int (t_cb (tags p ! k) - L) :: u16) = t_cb (tags p ! k) - L"
    using fit [folded L_def] t32 L by (intro sint_diff16) linarith+
  define fLast where "fLast = (t_ib (tags p ! k) + t_cb (tags p ! k) = uint (ibMicFree (pghdr p)))"
  define pB where "pB = ReplaceInPlace fLast (t_cb (tags p ! k) - L) p"
  have B: "retag p k (tags p ! k) pB"
    unfolding pB_def ReplaceInPlace_def Let_def using k by (auto intro!: retag_hdr retag_refl)
  define pC where "pC = TAG_SetCb ?t (word_of_int L) pB"
  have bits: "uint (word_of_int L :: u16) < 2 ^ tag_bits pB"
    using L16 fit [folded L_def] tn(4) same_obj_fields [OF retag_fields(1) [OF B]] by simp
  have C: "retag p k ((tags p ! k)\<lparr>t_cb := L\<rparr>) pC"
    using retag_trans [OF B retag_SetCb [of "word_of_int L" pB ?t k]] bits k L16 same_obj_fields [OF retag_fields(1) [OF B]] retag_fields(2) [OF B]
    by (simp add: pC_def)
  note fC = same_obj_fields [OF retag_fields(1) [OF C]] retag_fields(2) [OF C]
  define pD where "pD = TAG_SetFlags ?t flags pC"
  have oD: "same_obj p pD" using retag_fields(1) [OF C] by (simp add: pD_def)
  have kC: "int k < ITagMicFree pC" "?t = PtagFromItag pC (int k)" "t_ib (tags pC ! k) = t_ib (tags p ! k)"
    "t_cb (tags pC ! k) = L" using fC k by simp_all
  have ibD: "uint (TAG_Ib pD ?t) = t_ib (tags p ! k)"
  proof -
    have "tags pD ! k = (tags pC ! k)\<lparr>t_fl := t_fl (tags pD ! k)\<rparr>"
    proof (cases "fSmallFormat pC")
      case True
      then show ?thesis using tags_SetFlags_small [OF True kC(2,1)] kC(1) by (simp add: pD_def)
    next
      case False
      have "tags pD = tags pC" unfolding pD_def
      proof (rule tags_SetFlags_large [OF False])
        assume "2 \<le> uint (TAG_Cb pC ?t)"
        then have "0 < L" "uint (TAG_Cb pC ?t) = L" "uint (TAG_Ib pC ?t) = t_ib (tags p ! k)"
          using kC nth_tags [OF kC(1)] by simp_all
        then show "PbFromIb pC (uint (TAG_Ib pC ?t)) + uint (TAG_Cb pC ?t) \<le> cbBuffer pC - CbTagArray pC"
          using end_k fit [folded L_def] fC by (simp add: PbFromIb_def CbBufferData_def)
      qed
      then show ?thesis by simp
    qed
    then have "t_ib (tags pD ! k) = t_ib (tags p ! k)" using kC(3) by (metis tagv.simps(1) tagv.surjective tagv.update_convs(3))
    then show ?thesis using k same_obj_fields [OF oD] nth_tags [of k pD] by simp
  qed
  have "contents (buf pD) ds = contents (buf p) ds"
  proof (rule contents_cong [OF src(2)])
    fix i assume i: "?a + 2 \<le> i" "i < ?a + t_cb (tags p ! k)"
    then have "i < cbBuffer p - CbTagArray p"
      using end_k by (force simp: PbFromIb_def CbBufferData_def)
    then show "buf pD i = buf p i"
      using SetFlags_buf [OF kC(1,2), of i flags] retag_fields(3) [OF C] i(1) fC kC(3) by (simp add: pD_def)
  qed
  moreover have "copy_ok (PbFromIb pD (uint (TAG_Ib pD ?t))) ds" using src(1) ibD same_obj_fields [OF oD] by simp
  ultimately have copy: "CopyData ?t ds pD = CopyData ?t (map OffPage [contents (buf p) ds]) pD"
    using CopyData_contents [of pD ?t ds] by simp
  have tot: "CbDataTotal (map OffPage [contents (buf p) ds]) = L" using L by simp
  have ge: "0 \<le> t_cb (tags p ! k) - L" using fit by (simp add: L_def)
  show ?thesis
    unfolding Replace_at_def tot L_def [symmetric] Let_def cb L16 d fLast_def [symmetric]
    unfolding if_P [OF disjI1 [OF ge]] option.case pB_def [symmetric] pC_def [symmetric] pD_def [symmetric] copy ..
qed


text \<open>The flags of a line other than the external header.\<close>

lemma ReplaceFlags_at_spec:
  fixes p :: CPAGE and fl :: u16
  assumes ok: "page_ok p" and k: "int k < ITagMicFree p" "k \<noteq> 0"
  defines "q \<equiv> ReplaceFlags_at (int k) fl p"
  shows "page_ok q" "same_obj p q" "pghdr q = pghdr p" "lines q = (lines p)[k := stored p k fl (snd (lines p ! k))]"
proof -
  let ?v = "(tags p ! k)\<lparr>t_fl := tag_flags p fl\<rparr>" and ?t = "PtagFromItag p (int k)"
  have s: "shape_ok p" "tags_ok p" using ok by (simp_all add: page_ok_def)
  have kl: "k < length (tags p)" using k by simp
  note tn = tag_nonneg [OF nth_mem [OF kl]]
  have cb: "uint (TAG_Cb p ?t) = t_cb (tags p ! k)" "uint (TAG_Ib p ?t) = t_ib (tags p ! k)" using k by (simp_all add: nth_tags)
  have end_k: "t_ib (tags p ! k) + t_cb (tags p ! k) \<le> uint (ibMicFree (pghdr p))" if "t_cb (tags p ! k) \<noteq> 0"
    using tags_okD [OF s(2) k(1) that] .
  have mic: "uint (ibMicFree (pghdr p)) + CbTagArray p \<le> CbBufferData p" using s(2) by (simp add: tags_ok_def)
  have room: "PbFromIb p (t_ib (tags p ! k)) + t_cb (tags p ! k) \<le> cbBuffer p - CbTagArray p" if "2 \<le> t_cb (tags p ! k)"
    using end_k mic that by (simp add: PbFromIb_def CbBufferData_def)
  show o: "same_obj p q" by (simp add: q_def ReplaceFlags_at_def)
  note f = same_obj_fields [OF o]
  show h: "pghdr q = pghdr p" by (simp add: q_def ReplaceFlags_at_def)
  have n0: "PtagFromItag p 0 \<noteq> ?t" using k(2) by (simp add: PtagFromItag_0)
  have tq: "tags q = (tags p)[k := ?v]"
  proof (cases "fSmallFormat p")
    case True
    then show ?thesis using tags_SetFlags_small [OF True refl k(1)] by (simp add: q_def ReplaceFlags_at_def tag_flags_def)
  next
    case False
    have "?v = tags p ! k" using False k by (simp add: nth_tags tag_at_def tag_fl_def tag_flags_def)
    moreover have "tags q = tags p" unfolding q_def ReplaceFlags_at_def
      by (rule tags_SetFlags_large [OF False]) (use room cb in simp)
    ultimately show ?thesis by simp
  qed
  have bq: "buf q i = store_bytes (PbFromIb p (t_ib (tags p ! k))) (snd (stored p k fl (snd (lines p ! k)))) (buf p) i"
    if "i < cbBuffer p - CbTagArray p" for i
  proof -
    have ln: "snd (lines p ! k) = load_bytes (buf p) (PbFromIb p (t_ib (tags p ! k))) (t_cb (tags p ! k))"
      by (simp add: lines_nth [OF k(1)] line_of_def)
    have same: "store_bytes a (load_bytes b a n) b = b" for a n b by (auto simp: store_bytes_def fun_eq_iff)
    show ?thesis
    proof (cases "fSmallFormat p \<or> t_cb (tags p ! k) < 2")
      case True
      then have "buf q i = buf p i"
        using below_tag [OF k(1) that] cb
        by (cases "fSmallFormat p") (simp_all add: q_def ReplaceFlags_at_def buf_SetFlags_small SetFlags_none)
      moreover have "snd (stored p k fl (snd (lines p ! k))) = snd (lines p ! k)" using True tn by (auto simp: stored_def ln)
      ultimately show ?thesis by (simp add: ln same)
    next
      case False
      then have "\<not> fSmallFormat p" "2 \<le> uint (TAG_Cb p ?t)" using cb by simp_all
      from SetFlags_large [OF this(1) n0 this(2), of _ fl] cb
      have "q = p\<lparr>buf := (buf p)(PbFromIb p (t_ib (tags p ! k)) + 1 := (buf p (PbFromIb p (t_ib (tags p ! k)) + 1) AND 0x1f) OR push_bit 5 (ucast fl))\<rparr>"
        by (simp add: q_def ReplaceFlags_at_def)
      moreover have "2 \<le> length (snd (lines p ! k))" using False by (simp add: ln) arith
      ultimately show ?thesis using store_stamp [of "snd (lines p ! k)" "PbFromIb p (t_ib (tags p ! k))" "buf p" fl] False k(2)
        by (simp add: ln same stored_def)
    qed
  qed
  have len: "int (length (snd (lines p ! k))) = t_cb (tags p ! k)"
    using tn by (simp add: lines_nth [OF k(1)] line_of_def)
  have ap: "apart ?v (tags p ! j)" if "j < length (tags p)" "j \<noteq> k" for j
    using tags_ok_apart [OF s(2) k(1), of j] that by (simp add: apart_def)
  have eo: "t_ib (tags p ! j) + t_cb (tags p ! j) \<le> uint (ibMicFree (pghdr q))"
    if "j < length (tags p)" "j \<noteq> k" "t_cb (tags p ! j) \<noteq> 0" for j
    using tags_okD [OF s(2), of j] that by (simp add: h)
  have b: "buf q i = buf p i" if "i < cbBuffer p - CbTagArray p"
    "i < PbFromIb p (t_ib ?v) \<or> PbFromIb p (t_ib ?v + t_cb ?v) \<le> i" for i
    using bq [OF that(1)] that(2) len by (auto simp: store_bytes_def PbFromIb_def)
  have st: "itagState (pghdr q) = itagState (pghdr p)" "0 \<le> t_cb ?v"
    "uint (cbFree (pghdr q)) = uint (cbFree (pghdr p)) + t_cb (tags p ! k) - t_cb ?v"
    "uint (ibMicFree (pghdr q)) + CbTagArray p \<le> CbBufferData p"
    "t_cb ?v \<noteq> 0 \<Longrightarrow> t_ib ?v + t_cb ?v \<le> uint (ibMicFree (pghdr q))"
    using end_k mic tn h by simp_all
  note R = replaced_page [OF ok k(1) o st(1) tq st(2-5) eo ap b]
  show "page_ok q" by (rule R(1))
  have "line_of q ?v = stored p k fl (snd (lines p ! k))"
  proof (rule line_of_stored)
    fix i assume i: "PbFromIb q (t_ib ?v) \<le> i" "i < PbFromIb q (t_ib ?v) + t_cb ?v"
    then have "t_cb (tags p ! k) \<noteq> 0" by auto
    then have "i < cbBuffer p - CbTagArray p" using i end_k mic f by (force simp: PbFromIb_def CbBufferData_def)
    then show "buf q i = store_bytes (PbFromIb q (t_ib ?v)) (snd (stored p k fl (snd (lines p ! k)))) (buf p) i"
      using bq f by simp
  qed (use len in \<open>simp_all add: stored_def\<close>)
  then show "lines q = (lines p)[k := stored p k fl (snd (lines p ! k))]" using R(2) by simp
qed

end
