(* ===== verification/Node_Spec.thy ===== *)
theory Node_Spec
  imports Node_Replace
begin

text \<open>
  What the operations of the node layer do to the list of nodes: deletion, flags, new data for a node, and a
  longer or shorter compressed prefix, which leaves the key of the node as it is.
\<close>

subsection \<open>Deletion and flags\<close>

lemma nodes_nth: "0 \<le> iline \<Longrightarrow> page_ok p \<Longrightarrow> iline < Clines p \<Longrightarrow>
    nodes p ! nat iline = line_node (node_prefix p) (fSmallFormat p) (data_lines p ! nat iline)"
  using length_data_lines [of p] by (simp add: nodes_def)

lemma nodes_ok_nth:
  assumes "nodes_ok p" "0 \<le> iline" "iline < Clines p"
  shows "node_ok (node_prefix p) (fSmallFormat p) (data_lines p ! nat iline)"
  using assms length_data_lines [of p] by (simp add: nodes_ok_def page_inv_def list_all_length)

lemma NDDelete_spec:
  assumes ok: "nodes_ok p" and i: "0 \<le> iline" "iline < Clines p"
  shows "nodes_ok (NDDelete iline p)" "nodes (NDDelete iline p) = list_del (nat iline) (nodes p)"
    "node_prefix (NDDelete iline p) = node_prefix p"
proof -
  have p: "page_ok p" "FIsNormalSized p" using nodes_ok_page [OF ok] by simp_all
  define q where "q = Delete iline p"
  have D: "page_ok q" "data_lines q = list_del (nat iline) (data_lines p)" "reserved_lines q = reserved_lines p"
    "cbPage q = cbPage p" "cbBuffer q = cbBuffer p"
    using page_delete_ok [OF p(1) i] by (simp_all add: q_def)
  have np: "node_prefix q = node_prefix p"
    by (rule node_prefix_cong [OF p(1) D(1) _ D(3)]) (simp add: q_def)
  have sm: "fSmallFormat q = fSmallFormat p" using D(1,4) p(1) by (simp add: page_ok_def shape_ok_def)
  have "FIsNormalSized q" using p(2) D by (simp add: FIsNormalSized_def)
  then show "nodes_ok (NDDelete iline p)"
    using ok D set_list_del [of "nat iline" "data_lines p"]
    by (auto simp: NDDelete_def q_def [symmetric] nodes_ok_def page_inv_def np sm list_all_iff)
  show "nodes (NDDelete iline p) = list_del (nat iline) (nodes p)"
    by (simp add: NDDelete_def q_def [symmetric] nodes_def np sm D(2) list_del_map)
  show "node_prefix (NDDelete iline p) = node_prefix p" using np by (simp add: NDDelete_def q_def)
qed

text \<open>A line with its flags stored again.\<close>

lemma reflagged_node:
  fixes p :: CPAGE and fl :: u16
  assumes c: "line_compressed (fSmallFormat p) l \<longleftrightarrow> fl AND fNDCompressed \<noteq> 0" and ok: "node_ok pfx (fSmallFormat p) l"
  defines "l' \<equiv> stored p 1 fl (snd l)" and "n \<equiv> line_node pfx (fSmallFormat p) l"
  shows "line_node pfx (fSmallFormat p) l' = KDF (kdf_key n) (kdf_data n) (fl AND 7)" "node_ok pfx (fSmallFormat p) l'"
proof -
  have "length (line_body (fSmallFormat p) l) \<le> length (snd l)" by (simp add: line_body_def)
  then have len: "2 \<le> length (snd l)" using ok by (simp add: node_ok_def)
  have flags: "line_flags (fSmallFormat p) l' = fl AND 7" unfolding l'_def by (rule line_flags_stored [OF len])
  have "(fl AND 7) AND fNDCompressed = fl AND fNDCompressed" by (simp add: fNDCompressed_def and.assoc)
  then have c': "line_compressed (fSmallFormat p) l' = line_compressed (fSmallFormat p) l"
    using c by (simp add: line_compressed_def flags)
  have snd: "snd l' = snd l \<or> snd l' = stamp fl (snd l)" by (auto simp: l'_def stored_def)
  have pf: "line_cbPrefix (fSmallFormat p) l' = line_cbPrefix (fSmallFormat p) l"
    using snd key_size_stamp [OF len, of fl] by (auto simp: line_cbPrefix_def c')
  have body: "line_body (fSmallFormat p) l' = line_body (fSmallFormat p) l \<or>
      line_body (fSmallFormat p) l' = stamp fl (snd l) \<and> line_body (fSmallFormat p) l = snd l"
    using snd by (auto simp: line_body_def c' drop_stamp)
  then have b: "length (line_body (fSmallFormat p) l') = length (line_body (fSmallFormat p) l)"
    "key_size (line_body (fSmallFormat p) l') = key_size (line_body (fSmallFormat p) l)"
    "2 \<le> m \<Longrightarrow> drop m (line_body (fSmallFormat p) l') = drop m (line_body (fSmallFormat p) l)" for m
    using key_size_stamp [OF len, of fl] by (auto simp: drop_stamp)
  show "line_node pfx (fSmallFormat p) l' = KDF (kdf_key n) (kdf_data n) (fl AND 7)"
    by (simp add: line_node_def n_def pf b flags)
  show "node_ok pfx (fSmallFormat p) l'" using ok by (simp add: node_ok_def c' pf b)
qed

lemma line_flags_7:
  assumes "int k < ITagMicFree p"
  shows "line_flags (fSmallFormat p) (lines p ! k) AND 7 = line_flags (fSmallFormat p) (lines p ! k)"
proof -
  have m: "(7 :: u16) = mask 3" by (simp add: mask_eq_exp_minus_1)
  have d: "drop_bit 13 w AND mask 3 = drop_bit 13 w" for w :: u16
    by (intro bit_word_eqI) (auto simp: bit_and_iff bit_mask_iff bit_drop_bit_eq dest: bit_imp_le_length)
  have "TAG_FFlags p t AND 7 = TAG_FFlags p t" for t
    unfolding TAG_FFlags_def m shfTagFlags_def Let_def by (simp add: d del: drop_bit_and)
  then show ?thesis using TAG_FFlags_line [OF assms] by metis
qed

lemma nodes_update:
  "nat iline < length (data_lines p) \<Longrightarrow> map f ((data_lines p)[nat iline := l]) = (map f (data_lines p))[nat iline := f l]"
  by (simp add: map_update)

text \<open>Any change of the page that replaces one line by the line of a node.\<close>

lemma nodes_of_update:
  assumes ok: "nodes_ok p" and q: "page_ok q" "FIsNormalSized q" "fFlags (pghdr q) = fFlags (pghdr p)"
    "reserved_lines q = reserved_lines p" "data_lines q = (data_lines p)[i := l]" "fSmallFormat q = fSmallFormat p"
    and l: "node_ok (node_prefix p) (fSmallFormat p) l"
  shows "nodes_ok q" "nodes q = (nodes p)[i := line_node (node_prefix p) (fSmallFormat p) l]" "node_prefix q = node_prefix p"
proof -
  have p: "page_ok p" "FIsNormalSized p" using nodes_ok_page [OF ok] by simp_all
  show np: "node_prefix q = node_prefix p" by (rule node_prefix_cong [OF p(1) q(1,3,4)])
  show "nodes_ok q" using ok q(1,2,5,6) l set_update_subset_insert [of "data_lines p" i l]
    by (auto simp: nodes_ok_def page_inv_def np list_all_iff)
  show "nodes q = (nodes p)[i := line_node (node_prefix p) (fSmallFormat p) l]"
    by (simp add: nodes_def np q map_update)
qed

lemma ReplaceFlags_node:
  assumes ok: "nodes_ok p" and i: "0 \<le> iline" "iline < Clines p"
    and c: "(kdf_fFlags (nodes p ! nat iline) AND fNDCompressed \<noteq> 0) = (fl AND fNDCompressed \<noteq> 0)"
  defines "n \<equiv> nodes p ! nat iline" and "q \<equiv> ReplaceFlags iline fl p"
  shows "nodes_ok q" "nodes q = (nodes p)[nat iline := KDF (kdf_key n) (kdf_data n) (fl AND 7)]" "node_prefix q = node_prefix p"
    "uint (CbFree q) = uint (CbFree p)" "fFlags (pghdr q) = fFlags (pghdr p)"
proof -
  have p: "page_ok p" "FIsNormalSized p" using nodes_ok_page [OF ok] by simp_all
  obtain k where k: "iline + CTagReserved p = int k" "int k < ITagMicFree p" "data_lines p ! nat iline = lines p ! k"
    "0 < k" "nat iline < length (data_lines p)"
    using client_line [OF p(1) i] by metis
  have q: "q = ReplaceFlags_at (int k) fl p" by (simp add: q_def ReplaceFlags_def k(1))
  have k0: "k \<noteq> 0" using k(4) by simp
  note F = ReplaceFlags_at_spec [OF p(1) k(2) k0, of fl, folded q]
  note f = same_obj_fields [OF F(2)]
  define r where "r = nat (CTagReserved p)"
  have kr: "k = nat iline + r" using line_index [OF p(1) i(1)] unfolding k(1) r_def of_nat_eq_iff .
  have dk: "drop r (lines p) ! nat iline = lines p ! k" using k(3) by (simp add: data_lines_def r_def)
  have L: "data_lines q = (data_lines p)[nat iline := stored p 1 fl (snd (data_lines p ! nat iline))]"
    "reserved_lines q = reserved_lines p"
    using F(4) stored_data [OF k(4)]
    by (simp_all add: data_lines_def reserved_lines_def f flip: r_def) (simp_all add: drop_update_swap dk kr)
  have nz: "FIsNormalSized q" using p(2) f by (simp add: FIsNormalSized_def)
  have cc: "line_compressed (fSmallFormat p) (data_lines p ! nat iline) \<longleftrightarrow> fl AND fNDCompressed \<noteq> 0"
    using c nodes_nth [OF i(1) p(1) i(2)] by (simp add: line_compressed_def line_node_def)
  note R = reflagged_node [OF cc nodes_ok_nth [OF ok i]]
  have hf: "fFlags (pghdr q) = fFlags (pghdr p)" by (simp add: F(3))
  note U = nodes_of_update [OF ok F(1) nz hf L(2,1) f(3) R(2)]
  show "nodes_ok q" "node_prefix q = node_prefix p" "uint (CbFree q) = uint (CbFree p)" using U F(3) by (simp_all add: CbFree_def)
  show "fFlags (pghdr q) = fFlags (pghdr p)" by (rule hf)
  show "nodes q = (nodes p)[nat iline := KDF (kdf_key n) (kdf_data n) (fl AND 7)]"
    unfolding U(2) R(1) n_def nodes_nth [OF i(1) p(1) i(2)] ..
qed


subsection \<open>The node under the cursor\<close>

text \<open>Where the pieces of the node of a line lie.\<close>

definition on_line :: "CPAGE \<Rightarrow> nat \<Rightarrow> DATA KEYDATAFLAGS \<Rightarrow> bool" where
  "on_line p k kdf \<longleftrightarrow>
     (\<exists>pfx sfx d fl. let pos = PbFromIb p (t_ib (tags p ! k)) + (if line_compressed (fSmallFormat p) (lines p ! k) then 4 else 2)
        in kdf = KDF (KEY pfx (OnPage pos sfx)) (OnPage (pos + sfx) d) fl \<and> 0 \<le> DATA_Cb pfx \<and> 0 \<le> sfx \<and> 0 \<le> d \<and>
           pos + sfx + d = PbFromIb p (t_ib (tags p ! k)) + t_cb (tags p ! k))"

lemma line_size: "int k < ITagMicFree p \<Longrightarrow> int (length (snd (lines p ! k))) = t_cb (tags p ! k)"
  using line_cb [of k p] by (simp add: line_bytes_def)

lemma current_node:
  assumes ok: "nodes_ok p" and i: "0 \<le> iline" "iline < Clines p"
  obtains kdf k where "NDIGetKeydataflags iline p = Some kdf" "read_kdf p kdf = nodes p ! nat iline"
    "DATA_Cb (prefix (kdf_key kdf)) = int (line_cbPrefix (fSmallFormat p) (lines p ! k))"
    "kdf_fFlags kdf = line_flags (fSmallFormat p) (lines p ! k)" "on_line p k kdf"
    "iline + CTagReserved p = int k" "int k < ITagMicFree p" "data_lines p ! nat iline = lines p ! k" "0 < k"
    "node_ok (node_prefix p) (fSmallFormat p) (lines p ! k)" "DATA_Cb (kdf_data kdf) > 0"
proof -
  have p: "page_ok p" "FIsNormalSized p" using nodes_ok_page [OF ok] by simp_all
  obtain k where k: "iline + CTagReserved p = int k" "int k < ITagMicFree p" "data_lines p ! nat iline = lines p ! k" "0 < k"
    using client_line [OF p(1) i] by metis
  have n: "node_ok (node_prefix p) (fSmallFormat p) (lines p ! k)" using nodes_ok_nth [OF ok i] k(3) by simp
  obtain kdf where kdf: "NDIGetKeydataflags iline p = Some kdf"
    "read_kdf p kdf = line_node (node_prefix p) (fSmallFormat p) (lines p ! k)"
    "DATA_Cb (kdf_data kdf) > 0" "DATA_Cb (prefix (kdf_key kdf)) = int (line_cbPrefix (fSmallFormat p) (lines p ! k))"
    "kdf_fFlags kdf = line_flags (fSmallFormat p) (lines p ! k)"
    "DATA_Cb (suffix (kdf_key kdf)) = int (key_size (line_body (fSmallFormat p) (lines p ! k)))"
    and pos: "\<exists>sfx. let pos = PbFromIb p (t_ib (tags p ! k)) + (if line_compressed (fSmallFormat p) (lines p ! k) then 4 else 2)
        in kdf = KDF (KEY (prefix (kdf_key kdf)) (OnPage pos sfx)) (OnPage (pos + sfx) (DATA_Cb (kdf_data kdf))) (kdf_fFlags kdf)"
    using NDIGetKeydataflags_ok [OF p(1) i nodes_ok_nth [OF ok i], unfolded k(3)] k(1) by metis
  let ?B = "line_body (fSmallFormat p) (lines p ! k)"
  have "length (data_bytes (buf p) (kdf_data kdf)) = length ?B - 2 - key_size ?B"
    using arg_cong [OF kdf(2), of "length \<circ> kdf_data"] by (cases kdf) (simp add: read_kdf_def line_node_def)
  moreover have v: "valid_data (kdf_data kdf)" using kdf(3) by (simp add: valid_data_def)
  moreover have fits: "2 + key_size ?B < length ?B" using n by (simp add: node_ok_def)
  ultimately have d: "DATA_Cb (kdf_data kdf) = int (length ?B) - 2 - int (key_size ?B)"
    using length_data_bytes [OF v, of "buf p"] by simp
  have lb: "length (snd (lines p ! k)) = (if line_compressed (fSmallFormat p) (lines p ! k) then 2 else 0) + length ?B"
    using fits by (simp add: line_body_def split: if_splits)
  have "on_line p k kdf"
    unfolding on_line_def
  proof (intro exI, unfold Let_def, intro conjI)
    let ?pos = "PbFromIb p (t_ib (tags p ! k)) + (if line_compressed (fSmallFormat p) (lines p ! k) then 4 else 2)"
    show "kdf = KDF (KEY (prefix (kdf_key kdf)) (OnPage ?pos (DATA_Cb (suffix (kdf_key kdf)))))
        (OnPage (?pos + DATA_Cb (suffix (kdf_key kdf))) (DATA_Cb (kdf_data kdf))) (kdf_fFlags kdf)"
      using pos by (metis DATA_Cb.simps(2) KEYDATAFLAGS.sel(1) KEY.sel(2))
    show "?pos + DATA_Cb (suffix (kdf_key kdf)) + DATA_Cb (kdf_data kdf) = PbFromIb p (t_ib (tags p ! k)) + t_cb (tags p ! k)"
      using line_size [OF k(2)] lb d kdf(6) by (cases "line_compressed (fSmallFormat p) (lines p ! k)") auto
  qed (use kdf in simp_all)
  then show thesis
    using that kdf k n nodes_nth [OF i(1) p(1) i(2)] by metis
qed

lemma read_kdf_parts:
  assumes "read_kdf p kdf = n"
  shows "data_bytes (buf p) (prefix (kdf_key kdf)) = prefix (kdf_key n)" "data_bytes (buf p) (suffix (kdf_key kdf)) = suffix (kdf_key n)"
    "data_bytes (buf p) (kdf_data kdf) = kdf_data n" "kdf_fFlags kdf = kdf_fFlags n"
    "kdf_bytes (buf p) kdf = key_bytes (kdf_key n)"
  using assms by (cases kdf; cases "kdf_key kdf"; auto simp: read_kdf_def kdf_bytes_def key_bytes_def)+

lemma NDISetFlag_spec:
  assumes ok: "nodes_ok p" and i: "0 \<le> iline" "iline < Clines p" and fl: "fl AND fNDCompressed = 0"
  defines "n \<equiv> nodes p ! nat iline"
  shows "\<exists>q. NDISetFlag iline fl p = Some q \<and> nodes_ok q \<and> node_prefix q = node_prefix p \<and>
    nodes q = (nodes p)[nat iline := KDF (kdf_key n) (kdf_data n) ((kdf_fFlags n OR fl) AND 7)]"
proof -
  obtain kdf where kdf: "NDIGetKeydataflags iline p = Some kdf" "read_kdf p kdf = n"
    using current_node [OF ok i] unfolding n_def by metis
  have f: "kdf_fFlags kdf = kdf_fFlags n" by (rule read_kdf_parts(4) [OF kdf(2)])
  have "(kdf_fFlags n OR fl) AND fNDCompressed = kdf_fFlags n AND fNDCompressed"
    using fl by (simp add: bit.conj_disj_distrib2)
  then show ?thesis
    using ReplaceFlags_node [OF ok i, of "kdf_fFlags n OR fl", folded n_def] kdf(1) f by (simp add: NDISetFlag_def)
qed

lemma NDIResetFlag_spec:
  assumes ok: "nodes_ok p" and i: "0 \<le> iline" "iline < Clines p" and fl: "fl AND fNDCompressed = 0"
  defines "n \<equiv> nodes p ! nat iline"
  shows "\<exists>q. NDIResetFlag iline fl p = Some q \<and> nodes_ok q \<and> node_prefix q = node_prefix p \<and>
    nodes q = (nodes p)[nat iline := KDF (kdf_key n) (kdf_data n) ((kdf_fFlags n AND NOT fl) AND 7)]"
proof -
  obtain kdf where kdf: "NDIGetKeydataflags iline p = Some kdf" "read_kdf p kdf = n"
    using current_node [OF ok i] unfolding n_def by metis
  have f: "kdf_fFlags kdf = kdf_fFlags n" by (rule read_kdf_parts(4) [OF kdf(2)])
  have "NOT fl AND fNDCompressed = fNDCompressed"
    using fl by (auto simp: bit_eq_iff bit_simps)
  then have "(kdf_fFlags n AND NOT fl) AND fNDCompressed = kdf_fFlags n AND fNDCompressed"
    by (simp add: and.assoc)
  then show ?thesis
    using ReplaceFlags_node [OF ok i, of "kdf_fFlags n AND NOT fl", folded n_def] kdf(1) f by (simp add: NDIResetFlag_def)
qed

end
