(* ===== verification/Node_Search.thy ===== *)
theory Node_Search
  imports Node_Spec "HOL-Library.Product_Lexorder"
begin

text \<open>
  The searches of the node layer.  A bookmark is read as the pair of the bytes of its key and its data, in
  lexicographic order; the position a search looks for is the number of nodes in front of the bookmark.
\<close>

subsection \<open>The position\<close>

definition first_geq :: "'a::linorder list \<Rightarrow> 'a \<Rightarrow> nat" where
  "first_geq xs v = length (filter (\<lambda>x. x < v) xs)"

lemma first_geqI:
  assumes "sorted_wrt (<) xs" "i \<le> length xs" "\<And>j. j < i \<Longrightarrow> xs ! j < v" "i < length xs \<Longrightarrow> v \<le> xs ! i"
  shows "first_geq xs v = i"
proof -
  have "filter (\<lambda>x. x < v) (take i xs) = take i xs"
    using assms(2,3) by (auto simp: filter_id_conv in_set_conv_nth)
  moreover have "filter (\<lambda>x. x < v) (drop i xs) = []"
  proof -
    have "\<not> xs ! j < v" if "i \<le> j" "j < length xs" for j
    proof (cases "i = j")
      case False
      then have "xs ! i < xs ! j" using that assms(1) by (simp add: sorted_wrt_iff_nth_less)
      then show ?thesis using assms(4) that by auto
    qed (use assms(4) that in auto)
    then show ?thesis by (auto simp: filter_empty_conv in_set_conv_nth)
  qed
  ultimately have "filter (\<lambda>x. x < v) xs = take i xs"
    by (metis append.right_neutral append_take_drop_id filter_append)
  then show ?thesis using assms(2) by (simp add: first_geq_def)
qed

lemma first_geq_le: "first_geq xs v \<le> length xs"
  by (simp add: first_geq_def)

lemma first_geqD:
  assumes "sorted_wrt (<) xs"
  shows "j < first_geq xs v \<Longrightarrow> xs ! j < v" "first_geq xs v \<le> j \<Longrightarrow> j < length xs \<Longrightarrow> v \<le> xs ! j"
proof -
  define i where "i = length (takeWhile (\<lambda>x. x < v) xs)"
  have i: "i \<le> length xs" by (simp add: i_def length_takeWhile_le)
  have lo: "xs ! j < v" if "j < i" for j using that nth_length_takeWhile [of "\<lambda>x. x < v" xs] set_takeWhileD
    by (metis i_def nth_mem takeWhile_nth)
  have hi: "v \<le> xs ! i" if "i < length xs" using nth_length_takeWhile [of "\<lambda>x. x < v" xs] that by (simp add: i_def)
  have e: "first_geq xs v = i" by (rule first_geqI [OF assms i lo hi])
  show "j < first_geq xs v \<Longrightarrow> xs ! j < v" using lo e by simp
  show "v \<le> xs ! j" if "first_geq xs v \<le> j" "j < length xs"
  proof (cases "i = j")
    case False
    then have "xs ! i < xs ! j" using that e assms by (simp add: sorted_wrt_iff_nth_less)
    then show ?thesis using hi that e by (metis leD less_imp_le not_le order.strict_trans1 le_less_trans)
  qed (use hi that e in auto)
qed

text \<open>
  The invariant of both binary searches: everything in front of \<open>lo\<close> is too small, and \<open>hi\<close> is the last line of the
  page, \<open>ub\<close>, or one that is too large.
\<close>

definition seek_inv :: "'a::linorder list \<Rightarrow> 'a \<Rightarrow> int \<Rightarrow> int \<Rightarrow> int \<Rightarrow> bool" where
  "seek_inv xs v ub lo hi \<longleftrightarrow> 0 \<le> lo \<and> lo \<le> int (length xs) \<and> hi \<le> ub \<and> (\<forall>j < nat lo. xs ! j < v) \<and>
     (hi = ub \<or> lo \<le> hi \<and> hi < int (length xs) \<and> v < xs ! nat hi)"

lemma seek_inv_init: "seek_inv xs v ub 0 ub"
  by (simp add: seek_inv_def)

lemma seek_inv_end: "seek_inv xs v ub lo hi \<Longrightarrow> \<not> lo \<le> hi \<Longrightarrow> hi = ub"
  by (auto simp: seek_inv_def)

lemma seek_inv_less:
  assumes "sorted_wrt (<) xs" "seek_inv xs v ub lo hi" "lo \<le> hi" "m = (lo + hi) div 2" "m < int (length xs)" "xs ! nat m < v"
  shows "seek_inv xs v ub (m + 1) hi"
proof -
  have m: "lo \<le> m" "m \<le> hi" "0 \<le> m" "nat m < length xs" using assms(2-5) by (auto simp: seek_inv_def)
  have "xs ! j < v" if "j < nat (m + 1)" for j
  proof (cases "j = nat m")
    case False
    then have "xs ! j < xs ! nat m" using that m assms(1) by (simp add: sorted_wrt_iff_nth_less)
    then show ?thesis using assms(6) by simp
  qed (use assms(6) in simp)
  moreover have "m + 1 \<le> hi" if "hi \<noteq> ub"
  proof (rule ccontr)
    assume "\<not> m + 1 \<le> hi"
    then have "m = hi" using m(2) by simp
    then show False using assms(2,6) that unfolding seek_inv_def by auto
  qed
  ultimately show ?thesis using assms(2) m unfolding seek_inv_def by auto
qed

lemma seek_inv_greater:
  assumes "seek_inv xs v ub lo hi" "lo \<le> hi" "m = (lo + hi) div 2" "m < int (length xs)" "v < xs ! nat m"
  shows "seek_inv xs v ub lo m"
  using assms by (auto simp: seek_inv_def)

lemma seek_inv_found:
  assumes "sorted_wrt (<) xs" "seek_inv xs v ub lo hi" "lo \<le> hi" "m = (lo + hi) div 2" "m < int (length xs)"
    "v = xs ! nat m \<or> m = lo \<and> v < xs ! nat m"
  shows "m = int (first_geq xs v)" "first_geq xs v < length xs"
proof -
  have m: "lo \<le> m" "m \<le> hi" "0 \<le> m" "nat m < length xs" using assms(2-5) by (auto simp: seek_inv_def)
  have "first_geq xs v = nat m"
  proof (rule first_geqI [OF assms(1)])
    fix j assume j: "j < nat m"
    then have "xs ! j < xs ! nat m" using m assms(1) by (simp add: sorted_wrt_iff_nth_less)
    then show "xs ! j < v" using assms(2,6) j by (auto simp: seek_inv_def)
  qed (use m assms(6) in auto)
  then show "m = int (first_geq xs v)" "first_geq xs v < length xs" using m by auto
qed

lemma seek_inv_past:
  assumes "sorted_wrt (<) xs" "seek_inv xs v ub lo hi" "int (length xs) \<le> lo"
  shows "first_geq xs v = length xs"
  using assms by (intro first_geqI) (auto simp: seek_inv_def)

subsection \<open>Bookmarks\<close>

definition bm_val :: "bytes BOOKMARK \<Rightarrow> bytes \<times> bytes" where
  "bm_val bm = (key_bytes (bm_key bm), bm_data bm)"

definition bms :: "bool \<Rightarrow> CPAGE \<Rightarrow> (bytes \<times> bytes) list" where
  "bms fUnique p = map (\<lambda>n. bm_val (NDGetBookmarkFromKDF n fUnique)) (nodes p)"

lemma CmpKeyData_sign:
  obtains c where "CmpKeyData a b = Some c" "c < 0 \<longleftrightarrow> bm_val a < bm_val b" "c = 0 \<longleftrightarrow> bm_val a = bm_val b"
    "0 < c \<longleftrightarrow> bm_val b < bm_val a"
proof -
  obtain c where c: "CmpKeyData a b = Some c" by (simp add: CmpKeyData_spec)
  show thesis
    by (rule that [OF c]) (use c in \<open>auto simp: CmpKeyData_spec bm_val_def order_cmp_less order_cmp_zero order_cmp_greater
      less_prod_def split: if_splits\<close>)
qed

lemma length_bms: "page_ok p \<Longrightarrow> int (length (bms u p)) = Clines p"
  using length_nodes [of p] by (simp add: bms_def)

lemma node_bookmark:
  assumes ok: "nodes_ok p" and i: "0 \<le> iline" "iline < Clines p"
  obtains kdf where "NDIGetKeydataflags iline p = Some kdf" "DATA_Cb (kdf_data kdf) > 0"
    "bm_val (NDGetBookmarkFromKDF (read_kdf p kdf) u) = bms u p ! nat iline" "read_kdf p kdf = nodes p ! nat iline"
proof -
  obtain kdf k where "NDIGetKeydataflags iline p = Some kdf" "DATA_Cb (kdf_data kdf) > 0" "read_kdf p kdf = nodes p ! nat iline"
    using current_node [OF ok i] by metis
  moreover have "nat iline < length (nodes p)" using i length_nodes [of p] ok nodes_ok_page by force
  ultimately show thesis using that by (simp add: bms_def)
qed

subsection \<open>The binary search of a leaf page\<close>

lemma SeekGEQLoop_spec:
  assumes ok: "nodes_ok p" and s: "sorted_wrt (<) (bms u p)"
    and inv: "seek_inv (bms u p) (bm_val bm) (Clines p - 1) lo hi"
  shows "\<exists>r c b. SeekGEQLoop p bm u lo hi c0 b0 = Some (r, c, b) \<and>
    (if first_geq (bms u p) (bm_val bm) = length (bms u p) then r = -1
     else r = int (first_geq (bms u p) (bm_val bm)) \<and> CmpKeyData b bm = Some c \<and>
       b = NDGetBookmarkFromKDF (nodes p ! nat r) u)"
  using assms
proof (induction p bm u lo hi c0 b0 rule: SeekGEQLoop.induct [case_names step])
  case (step p bm u lo hi c0 b0)
  note ok = step.prems(1) and s = step.prems(2) and inv = step.prems(3)
  have p: "page_ok p" using nodes_ok_page [OF ok] by simp
  note len = length_bms [OF p, of u]
  show ?case
  proof (cases "lo \<le> hi")
    case False
    then have "first_geq (bms u p) (bm_val bm) = length (bms u p)"
      using seek_inv_end [OF inv False] len by (intro seek_inv_past [OF s inv]) simp
    then show ?thesis using False by (simp add: SeekGEQLoop.simps [of p bm u lo hi])
  next
    case True
    define m where "m = (lo + hi) div 2"
    have m: "0 \<le> m" "m < Clines p" using inv True len by (auto simp: m_def seek_inv_def)
    have ml: "m < int (length (bms u p))" using m(2) len by simp
    obtain kdf where kdf: "NDIGetKeydataflags m p = Some kdf" "DATA_Cb (kdf_data kdf) > 0"
      "bm_val (NDGetBookmarkFromKDF (read_kdf p kdf) u) = bms u p ! nat m" "read_kdf p kdf = nodes p ! nat m"
      using node_bookmark [OF ok m] by metis
    define b where "b = NDGetBookmarkFromKDF (read_kdf p kdf) u"
    obtain c where c: "CmpKeyData b bm = Some c" "c < 0 \<longleftrightarrow> bms u p ! nat m < bm_val bm" "c = 0 \<longleftrightarrow> bms u p ! nat m = bm_val bm"
      "0 < c \<longleftrightarrow> bm_val bm < bms u p ! nat m"
      using CmpKeyData_sign [of b bm] kdf(3) unfolding b_def by metis
    have d: "\<not> \<not> DATA_Cb (kdf_data kdf) > 0" using kdf(2) by simp
    note IH = step.IH [OF True m_def kdf(1) b_def d c(1)]
    have e: "SeekGEQLoop p bm u lo hi c0 b0 = (if c < 0 then SeekGEQLoop p bm u (m + 1) hi c b
        else if c = 0 then Some (m, c, b) else if m = lo then Some (m, c, b) else SeekGEQLoop p bm u lo m c b)"
      using True d by (simp add: SeekGEQLoop.simps [of p bm u lo hi] m_def [symmetric] kdf(1) b_def [symmetric] c(1))
    consider (less) "c < 0" | (found) "c = 0 \<or> 0 < c \<and> m = lo" | (greater) "0 < c" "m \<noteq> lo" by linarith
    then show ?thesis
    proof cases
      case less
      then have "bms u p ! nat m < bm_val bm" using c(2) by simp
      from seek_inv_less [OF s inv True m_def ml this] show ?thesis
        using IH(1) [OF less ok s] less unfolding e by simp
    next
      case found
      then have "bm_val bm = bms u p ! nat m \<or> m = lo \<and> bm_val bm < bms u p ! nat m" using c(3,4) by auto
      note F = seek_inv_found [OF s inv True m_def ml this]
      have "SeekGEQLoop p bm u lo hi c0 b0 = Some (m, c, b)" using found unfolding e by auto
      then show ?thesis using F c(1) kdf(4) by (simp add: b_def)
    next
      case greater
      then have "bm_val bm < bms u p ! nat m" using c(4) by simp
      from seek_inv_greater [OF inv True m_def ml this] show ?thesis
        using IH(2) [OF _ _ _ ok s] greater unfolding e by simp
    qed
  qed
qed


lemma IlineNDISeekGEQ_spec:
  fixes p :: CPAGE and bm :: "bytes BOOKMARK" and u :: bool
  assumes ok: "nodes_ok p" and s: "sorted_wrt (<) (bms u p)"
  defines "f \<equiv> first_geq (bms u p) (bm_val bm)"
  shows "\<exists>c. IlineNDISeekGEQ p bm u = Some (if f = length (bms u p) then -1 else int f, c) \<and>
    (f < length (bms u p) \<longrightarrow>
      (let key = fst (bms u p ! f); data = snd (bms u p ! f)
       in c = (if key = key_bytes (bm_key bm) \<and> bm_data bm \<noteq> [] then order_cmp data (bm_data bm)
               else order_cmp key (key_bytes (bm_key bm)))))"
proof -
  have p: "page_ok p" using nodes_ok_page [OF ok] by simp
  obtain r c b where L: "SeekGEQLoop p bm u 0 (Clines p - 1) 0 (BOOKMARK (KEY [] []) []) = Some (r, c, b)"
    "if f = length (bms u p) then r = -1 else r = int f \<and> CmpKeyData b bm = Some c \<and> b = NDGetBookmarkFromKDF (nodes p ! nat r) u"
    using SeekGEQLoop_spec [OF ok s seek_inv_init] unfolding f_def by blast
  define c' where "c' = (if c \<noteq> 0 \<and> bm_data bm = [] then order_cmp (key_bytes (bm_key b)) (key_bytes (bm_key bm)) else c)"
  have e: "IlineNDISeekGEQ p bm u = Some (r, c')"
    by (simp add: IlineNDISeekGEQ_def L(1) CmpKey_spec c'_def)
  show ?thesis
  proof (cases "f = length (bms u p)")
    case True
    then show ?thesis using e L(2) by simp
  next
    case False
    then have r: "r = int f" "CmpKeyData b bm = Some c" "b = NDGetBookmarkFromKDF (nodes p ! f) u" "f < length (bms u p)"
      using L(2) first_geq_le [of "bms u p" "bm_val bm"] by (auto simp: f_def)
    then have b: "bms u p ! f = (key_bytes (bm_key b), bm_data b)" by (simp add: bms_def bm_val_def)
    show ?thesis using False r b e
      by (auto simp: c'_def CmpKeyData_spec order_cmp_zero Let_def split: if_splits)
  qed
qed

subsection \<open>The linear search\<close>

lemma SeekGEQDebugLoop_spec:
  fixes p :: CPAGE and bm :: "bytes BOOKMARK" and u :: bool and iline :: int
  assumes ok: "nodes_ok p" and "0 \<le> iline" "iline \<le> Clines p" "\<And>j. j < nat iline \<Longrightarrow> bms u p ! j < bm_val bm"
    and s: "sorted_wrt (<) (bms u p)"
  defines "f \<equiv> first_geq (bms u p) (bm_val bm)"
  shows "SeekGEQDebugLoop p bm u iline = Some (if f = length (bms u p) then (-1, None) else
    (int f, Some (let key = fst (bms u p ! f); data = snd (bms u p ! f)
       in if key = key_bytes (bm_key bm) \<and> bm_data bm \<noteq> [] then order_cmp data (bm_data bm)
          else order_cmp key (key_bytes (bm_key bm)))))"
  using assms(1-5) unfolding f_def
proof (induction p bm u iline rule: SeekGEQDebugLoop.induct [case_names step])
  case (step p bm u iline)
  note ok = step.prems(1) and i = step.prems(2,3) and small = step.prems(4) and s = step.prems(5)
  have p: "page_ok p" using nodes_ok_page [OF ok] by simp
  note len = length_bms [OF p, of u]
  show ?case
  proof (cases "iline < Clines p")
    case False
    then have "first_geq (bms u p) (bm_val bm) = length (bms u p)"
      using i len small by (intro first_geqI [OF s]) auto
    then show ?thesis using False by (simp add: SeekGEQDebugLoop.simps [of p bm u iline])
  next
    case True
    obtain kdf where kdf: "NDIGetKeydataflags iline p = Some kdf"
      "bm_val (NDGetBookmarkFromKDF (read_kdf p kdf) u) = bms u p ! nat iline"
      using node_bookmark [OF ok i(1) True] by metis
    define b where "b = NDGetBookmarkFromKDF (read_kdf p kdf) u"
    have b: "bms u p ! nat iline = (key_bytes (bm_key b), bm_data b)" using kdf(2) by (simp add: b_def bm_val_def)
    have g: "NDIGetBookmark iline u p = Some b" by (simp add: NDIGetBookmark_def kdf(1) b_def)
    have il: "nat iline < length (bms u p)" using True i len by simp
    show ?thesis
    proof (cases "bms u p ! nat iline < bm_val bm")
      case less: True
      have sm: "bms u p ! j < bm_val bm" if "j < nat (iline + 1)" for j
        using that small [of j] less i by (cases "j = nat iline") auto
      have i': "0 \<le> iline + 1" "iline + 1 \<le> Clines p" using i True by simp_all
      show ?thesis
      proof (cases "key_bytes (bm_key b) < key_bytes (bm_key bm)")
        case lt: True
        have "SeekGEQDebugLoop p bm u iline = SeekGEQDebugLoop p bm u (iline + 1)"
          using True lt by (subst SeekGEQDebugLoop.simps) (simp add: g CmpKey_spec order_cmp_less)
        then show ?thesis
          using step.IH(1) [OF True g _ _ ok i' sm s] lt by (simp add: CmpKey_spec order_cmp_less)
      next
        case False
        then have eq: "key_bytes (bm_key b) = key_bytes (bm_key bm)" "bm_data b < bm_data bm"
          using less by (auto simp: b bm_val_def less_prod_def)
        then have d: "bm_data bm \<noteq> []" by auto
        then have "SeekGEQDebugLoop p bm u iline = SeekGEQDebugLoop p bm u (iline + 1)"
          using True eq
          by (subst SeekGEQDebugLoop.simps) (simp add: g CmpKey_spec CmpData_spec order_cmp_zero order_cmp_less order_cmp_greater flip: not_less)
        then show ?thesis
          using step.IH(2) [OF True g _ _ _ _ _ ok i' sm s] eq d
          by (simp add: CmpKey_spec CmpData_spec order_cmp_zero order_cmp_greater order_cmp_less flip: not_less)
      qed
    next
      case False
      then have "first_geq (bms u p) (bm_val bm) = nat iline"
        using il small by (intro first_geqI [OF s]) auto
      then show ?thesis using True i il False
        by (subst SeekGEQDebugLoop.simps) (auto simp: g CmpKey_spec CmpData_spec b order_cmp_zero order_cmp_less order_cmp_greater
            bm_val_def less_prod_def Let_def not_le)
    qed
  qed
qed

end
