(* ===== verification/Node_Descend.thy ===== *)
theory Node_Descend
  imports Node_Search
begin

text \<open>
  The binary search of an internal page and the choice of the child.  The separators of an internal page are the keys of
  its nodes but the last, whose key is null; a bookmark is compared as its key followed by its data.
\<close>

definition seps :: "CPAGE \<Rightarrow> bytes list" where
  "seps p = butlast (map (\<lambda>n. key_bytes (kdf_key n)) (nodes p))"

definition bm_bytes :: "bytes BOOKMARK \<Rightarrow> bytes" where
  "bm_bytes bm = key_bytes (bm_key bm) @ bm_data bm"

definition internal_ok :: "CPAGE \<Rightarrow> bool" where
  "internal_ok p \<longleftrightarrow> nodes_ok p \<and> nodes p \<noteq> [] \<and> key_bytes (kdf_key (last (nodes p))) = [] \<and> sorted_wrt (<) (seps p) \<and>
     \<not> (FRootPage p \<and> FSpaceTree p)"

lemma line_end:
  assumes ok: "page_ok p" and k: "int k < ITagMicFree p"
  shows "l_cb (GetPtr_NoChecks (int k) p) < cbBuffer p"
    "snd (lines p ! k) \<noteq> [] \<Longrightarrow> l_pv (GetPtr_NoChecks (int k) p) + l_cb (GetPtr_NoChecks (int k) p) < cbBuffer p"
proof -
  have s: "shape_ok p" "tags_ok p" using ok by (simp_all add: page_ok_def)
  note cb = GetPtr_line(1) [OF k] line_size [OF k]
  have kl: "k < length (tags p)" using k by simp
  note tn = tag_nonneg [OF nth_mem [OF kl]]
  have pos: "0 < CbTagArray p" using header_line [OF ok] by (simp add: CbTagArray_def cbTAG_def)
  have e: "t_cb (tags p ! k) \<noteq> 0 \<Longrightarrow> t_ib (tags p ! k) + t_cb (tags p ! k) + CbTagArray p \<le> CbBufferData p"
    using tags_okD [OF s(2) k] s(2) by (simp add: tags_ok_def)
  have h: "0 < CbPageHeader p" by (rule CbPageHeader_pos)
  have d: "0 < CbBufferData p" by (rule data_fits(3) [OF s(1)])
  show "l_cb (GetPtr_NoChecks (int k) p) < cbBuffer p"
    unfolding cb using e tn pos h d by (cases "t_cb (tags p ! k) = 0") (auto simp: CbBufferData_def)
  assume ne: "snd (lines p ! k) \<noteq> []"
  then have "t_cb (tags p ! k) \<noteq> 0" using cb(2) by auto
  then show "l_pv (GetPtr_NoChecks (int k) p) + l_cb (GetPtr_NoChecks (int k) p) < cbBuffer p"
    unfolding GetPtr_pv [OF k ne] cb using e pos by (simp add: PbFromIb_def CbBufferData_def)
qed

lemma internal_node:
  assumes ok: "nodes_ok p" and kind: "\<not> (FRootPage p \<and> FSpaceTree p)" and i: "0 \<le> m" "m < Clines p"
  obtains kdf where
    "NDILineToKeydataflags False (GetPtr_NoChecks (m + CTagReserved p) p) (l_pv (GetPtr_NoChecks 0 p)) p = Some (kdf, JET_errSuccess)"
    "kdf_key (read_kdf p kdf) = kdf_key (nodes p ! nat m)"
    "DATA_Cb (prefix (kdf_key kdf)) \<le> l_cb (GetPtr_NoChecks 0 p)"
    "DATA_Cb (suffix (kdf_key kdf)) < l_cb (GetPtr_NoChecks (m + CTagReserved p) p)"
    "l_pv (GetPtr_NoChecks (m + CTagReserved p) p) + l_cb (GetPtr_NoChecks (m + CTagReserved p) p) < cbBuffer p"
proof -
  have p: "page_ok p" using nodes_ok_page [OF ok] by simp
  obtain k where k: "m + CTagReserved p = int k" "int k < ITagMicFree p" "data_lines p ! nat m = lines p ! k"
    using client_line [OF p i] by metis
  define L where "L = lines p ! k"
  define B where "B = line_body (fSmallFormat p) L"
  define c where "c = line_cbPrefix (fSmallFormat p) L"
  have nk: "node_ok (node_prefix p) (fSmallFormat p) L" using nodes_ok_nth [OF ok i] k(3) by (simp add: L_def)
  have fits: "2 + key_size B < length B" "c \<le> length (node_prefix p)" using nk by (simp_all add: node_ok_def B_def c_def)
  obtain pos where d: "NDILineToKeydataflags False (GetPtr_NoChecks (int k) p) (l_pv (GetPtr_NoChecks 0 p)) p =
      Some (KDF (KEY (OnPage (l_pv (GetPtr_NoChecks 0 p)) (int c)) (OnPage pos (int (key_size B))))
        (OnPage (pos + int (key_size B)) (int (length B - 2 - key_size B))) (line_flags (fSmallFormat p) L), JET_errSuccess)"
    "load_bytes (buf p) pos (int (key_size B)) = take (key_size B) (drop 2 B)"
    using decode_line [OF p k(2), of False "l_pv (GetPtr_NoChecks 0 p)"] fits(1)
    unfolding L_def [symmetric] B_def [symmetric] c_def [symmetric] by metis
  have np: "length (node_prefix p) \<le> length (snd (lines p ! 0))" by (simp add: node_prefix_def)
  have pf: "load_bytes (buf p) (l_pv (GetPtr_NoChecks 0 p)) (int c) = take c (node_prefix p)"
  proof (cases "FRootPage p")
    case True
    then have "c = 0" using fits(2) kind by (simp add: node_prefix_def)
    then show ?thesis by (simp add: load_bytes_def)
  next
    case False
    then show ?thesis
      using GetPtr_line_load [OF header_line [OF p], of 0 c] fits(2) by (simp add: node_prefix_def)
  qed
  have lb: "length B \<le> length (snd L)" by (simp add: B_def line_body_def)
  have ne: "snd (lines p ! k) \<noteq> []" using fits(1) lb by (auto simp: L_def)
  show thesis
  proof (rule that [unfolded k(1), OF d(1)])
    show "kdf_key (read_kdf p (KDF (KEY (OnPage (l_pv (GetPtr_NoChecks 0 p)) (int c)) (OnPage pos (int (key_size B))))
        (OnPage (pos + int (key_size B)) (int (length B - 2 - key_size B))) (line_flags (fSmallFormat p) L))) =
      kdf_key (nodes p ! nat m)"
      using pf d(2) nodes_nth [OF i(1) p i(2)] k(3) by (simp add: read_kdf_def line_node_def flip: L_def B_def c_def)
    show "DATA_Cb (prefix (kdf_key (KDF (KEY (OnPage (l_pv (GetPtr_NoChecks 0 p)) (int c)) (OnPage pos (int (key_size B))))
        (OnPage (pos + int (key_size B)) (int (length B - 2 - key_size B))) (line_flags (fSmallFormat p) L))))
      \<le> l_cb (GetPtr_NoChecks 0 p)"
      using GetPtr_line(1) [OF header_line [OF p]] fits(2) np by simp
    show "l_pv (GetPtr_NoChecks (int k) p) + l_cb (GetPtr_NoChecks (int k) p) < cbBuffer p"
      by (rule line_end(2) [OF p k(2) ne])
  qed (use GetPtr_line(1) [OF k(2)] fits(1) lb in \<open>simp add: L_def\<close>)
qed

lemma seps_nth: "j < length (nodes p) - 1 \<Longrightarrow> seps p ! j = key_bytes (kdf_key (nodes p ! j))"
  by (simp add: seps_def nth_butlast)

lemma length_seps: "length (seps p) = length (nodes p) - 1"
  by (simp add: seps_def)

lemma InternalLoop_spec:
  assumes ok: "internal_ok p" and cb: "cbBuffer p \<le> cbPageMax" and v: "bm_bytes bm \<noteq> []"
    and inv: "seek_inv (seps p) (bm_bytes bm) (Clines p - 1) lo hi" and le: "lo \<le> hi"
  shows "\<exists>c. SeekGEQInternalLoop cbPageMax p bm lo hi m0 c0 = Some (int (first_geq (seps p) (bm_bytes bm)), c) \<and>
    (c = 0 \<longleftrightarrow> first_geq (seps p) (bm_bytes bm) < length (seps p) \<and> seps p ! first_geq (seps p) (bm_bytes bm) = bm_bytes bm)"
  using assms
proof (induction cbPageMax p bm lo hi m0 c0 rule: SeekGEQInternalLoop.induct [case_names step])
  case (step cbPageMax p bm lo hi m0 c0)
  note prems = step.prems
  note le = prems(5) and inv = prems(4)
  have ok: "nodes_ok p" "sorted_wrt (<) (seps p)" "key_bytes (kdf_key (last (nodes p))) = []" "nodes p \<noteq> []"
    "\<not> (FRootPage p \<and> FSpaceTree p)" using prems(1) by (simp_all add: internal_ok_def)
  have p: "page_ok p" using nodes_ok_page [OF ok(1)] by simp
  have n: "int (length (nodes p)) = Clines p" "int (length (seps p)) = Clines p - 1"
    using length_nodes [OF p] length_seps [of p] ok(4) by (simp_all add: of_nat_diff Suc_le_eq)
  define m where "m = (lo + hi) div 2"
  have m: "0 \<le> m" "m < Clines p" using inv le by (auto simp: m_def seek_inv_def)
  obtain kdf where kdf: "NDILineToKeydataflags False (GetPtr_NoChecks (m + CTagReserved p) p) (l_pv (GetPtr_NoChecks 0 p)) p = Some (kdf, JET_errSuccess)"
    "kdf_key (read_kdf p kdf) = kdf_key (nodes p ! nat m)"
    "DATA_Cb (prefix (kdf_key kdf)) \<le> l_cb (GetPtr_NoChecks 0 p)"
    "DATA_Cb (suffix (kdf_key kdf)) < l_cb (GetPtr_NoChecks (m + CTagReserved p) p)"
    "l_pv (GetPtr_NoChecks (m + CTagReserved p) p) + l_cb (GetPtr_NoChecks (m + CTagReserved p) p) < cbBuffer p"
    using internal_node [OF ok(1,5) m] by metis
  have enf: "\<not> \<not> DATA_Cb (prefix (kdf_key kdf)) \<le> l_cb (GetPtr_NoChecks 0 p)"
    "\<not> \<not> DATA_Cb (suffix (kdf_key kdf)) < l_cb (GetPtr_NoChecks (m + CTagReserved p) p)"
    "\<not> \<not> l_pv (GetPtr_NoChecks (m + CTagReserved p) p) + l_cb (GetPtr_NoChecks (m + CTagReserved p) p) < cbPageMax"
    using kdf prems(2) by simp_all
  define x where "x = key_bytes (kdf_key (nodes p ! nat m))"
  define c where "c = order_cmp x (bm_bytes bm)"
  have cmp: "CmpKeyWithKeyData (kdf_key (read_kdf p kdf)) bm = Some c"
    by (simp add: CmpKeyWithKeyData_spec c_def x_def bm_bytes_def kdf(2))
  note IH = step.IH [OF le refl m_def refl kdf(1) refl enf cmp]
  have e: "SeekGEQInternalLoop cbPageMax p bm lo hi m0 c0 = (if c < 0 then SeekGEQInternalLoop cbPageMax p bm (m + 1) hi m c
      else if c = 0 then Some (m, c) else if m = lo then Some (m, c) else SeekGEQInternalLoop cbPageMax p bm lo m m c)"
    using le enf by (simp add: SeekGEQInternalLoop.simps [of cbPageMax p bm lo hi] m_def [symmetric] kdf(1) cmp Let_def)
  show ?case
  proof (cases "m < int (length (seps p))")
    case ml: True
    have x: "x = seps p ! nat m" using ml n(2) m by (simp add: x_def seps_nth n(1) [symmetric])
    note cc = order_cmp_less [of x "bm_bytes bm", folded c_def, unfolded x] order_cmp_zero [of x "bm_bytes bm", folded c_def, unfolded x]
      order_cmp_greater [of x "bm_bytes bm", folded c_def, unfolded x]
    consider (less) "c < 0" | (found) "c = 0 \<or> 0 < c \<and> m = lo" | (greater) "0 < c" "m \<noteq> lo" by linarith
    then show ?thesis
    proof cases
      case less
      then have lt: "seps p ! nat m < bm_bytes bm" using cc by simp
      note inv' = seek_inv_less [OF ok(2) inv le m_def ml lt]
      have "m + 1 \<le> hi" using inv' ml n(2) by (auto simp: seek_inv_def)
      then show ?thesis using IH(1) [OF less prems(1-3) inv'] less unfolding e by simp
    next
      case found
      then have "bm_bytes bm = seps p ! nat m \<or> m = lo \<and> bm_bytes bm < seps p ! nat m" using cc by auto
      note F = seek_inv_found [OF ok(2) inv le m_def ml this]
      have "SeekGEQInternalLoop cbPageMax p bm lo hi m0 c0 = Some (m, c)" using found unfolding e by auto
      then show ?thesis using F cc(2) by simp
    next
      case greater
      then have "bm_bytes bm < seps p ! nat m" using cc by simp
      from seek_inv_greater [OF inv le m_def ml this] show ?thesis
        using IH(2) [OF _ _ _ prems(1-3)] greater le unfolding e m_def by simp
    qed
  next
    case False
    then have mt: "m = Clines p - 1" using m n(2) by simp
    have hi: "hi \<le> Clines p - 1" "lo \<le> Clines p - 1" using inv n(2) by (simp_all add: seek_inv_def)
    then have lo: "lo = Clines p - 1" "hi = Clines p - 1" using mt le unfolding m_def by linarith+
    have "x = []" using ok(3,4) n(1) mt by (simp add: x_def last_conv_nth) (metis diff_Suc_1 nat_diff_distrib' nat_int nat_one_as_int of_nat_0_le_iff zero_le_one One_nat_def)
    then have c0: "c < 0" using prems(3) by (simp add: c_def order_cmp_less)
    have "SeekGEQInternalLoop cbPageMax p bm (m + 1) hi m c = Some (m, c)"
      using lo mt by (subst SeekGEQInternalLoop.simps) simp
    moreover have "first_geq (seps p) (bm_bytes bm) = length (seps p)"
      using lo n(2) by (intro seek_inv_past [OF ok(2) inv]) simp
    ultimately show ?thesis using c0 mt n(2) unfolding e by simp
  qed
qed


subsection \<open>The child\<close>

lemma internal_facts:
  assumes "internal_ok p"
  shows "page_ok p" "int (length (seps p)) = Clines p - 1" "0 < Clines p"
proof -
  show p: "page_ok p" using assms nodes_ok_page by (simp add: internal_ok_def)
  have "nodes p \<noteq> []" using assms by (simp add: internal_ok_def)
  then show "int (length (seps p)) = Clines p - 1" "0 < Clines p"
    using length_nodes [OF p] length_seps [of p] by (simp_all add: of_nat_diff Suc_le_eq flip: length_nodes [OF p])
qed

lemma IlineNDISeekGEQInternal_spec:
  assumes ok: "internal_ok p" and cb: "cbBuffer p \<le> cbPageMax" and bm: "\<not> KEY_FNull (bm_key bm)"
  defines "f \<equiv> first_geq (seps p) (bm_bytes bm)"
  shows "IlineNDISeekGEQInternal cbPageMax p bm = Some (int f, if f < length (seps p) \<and> seps p ! f = bm_bytes bm then 0 else 1)"
proof -
  have v: "bm_bytes bm \<noteq> []" using bm by (auto simp: bm_bytes_def key_bytes_def KEY_FNull_def KEY_Cb_def)
  note F = internal_facts [OF ok]
  have "seek_inv (seps p) (bm_bytes bm) (Clines p - 1) 0 (Clines p - 1)" by (rule seek_inv_init)
  then obtain c where "SeekGEQInternalLoop cbPageMax p bm 0 (Clines p - 1) 0 0 = Some (int f, c)"
    "c = 0 \<longleftrightarrow> f < length (seps p) \<and> seps p ! f = bm_bytes bm"
    using InternalLoop_spec [OF ok cb v, of 0 "Clines p - 1" 0 0] F(3) unfolding f_def by auto
  moreover have "l_cb (GetPtr_NoChecks 0 p) < cbPageMax"
    using line_end(1) [OF F(1) header_line [OF F(1)]] cb by simp
  ultimately show ?thesis using bm by (simp add: IlineNDISeekGEQInternal_def)
qed

lemma filter_le_split:
  assumes "sorted_wrt (<) xs"
  shows "length (filter (\<lambda>s. s \<le> v) xs) = first_geq xs v + (if first_geq xs v < length xs \<and> xs ! first_geq xs v = v then 1 else 0)"
  using assms
proof (induction xs)
  case (Cons x xs)
  then have s: "sorted_wrt (<) xs" "\<And>y. y \<in> set xs \<Longrightarrow> x < y" by simp_all
  show ?case
  proof (cases "x < v")
    case True
    then show ?thesis using Cons.IH [OF s(1)] by (simp add: first_geq_def)
  next
    case False
    then have "filter (\<lambda>y. y < v) xs = []" "filter (\<lambda>y. y \<le> v) xs = []"
      using s(2) by (auto simp: filter_empty_conv dest!: s(2))
    then show ?thesis using False by (auto simp: first_geq_def)
  qed
qed (simp add: first_geq_def)

lemma ErrNDISeekInternalPage_spec:
  assumes ok: "internal_ok p" and cb: "cbBuffer p \<le> cbPageMax" and bm: "\<not> KEY_FNull (bm_key bm)"
  shows "ErrNDISeekInternalPage cbPageMax p bm ilineOld =
    Some (if bm_bytes bm \<in> set (seps p) then JET_errSuccess else wrnNDFoundGreater,
      int (length (filter (\<lambda>s. s \<le> bm_bytes bm) (seps p))))"
proof -
  define f where "f = first_geq (seps p) (bm_bytes bm)"
  have s: "sorted_wrt (<) (seps p)" using ok by (simp add: internal_ok_def)
  have e: "bm_bytes bm \<in> set (seps p) \<longleftrightarrow> f < length (seps p) \<and> seps p ! f = bm_bytes bm"
  proof
    assume "bm_bytes bm \<in> set (seps p)"
    then obtain j where j: "j < length (seps p)" "seps p ! j = bm_bytes bm" by (auto simp: in_set_conv_nth)
    have "f = j" unfolding f_def
      by (rule first_geqI [OF s]) (use j sorted_wrt_nth_less [OF s] in \<open>auto simp flip: j(2)\<close>)
    then show "f < length (seps p) \<and> seps p ! f = bm_bytes bm" using j by simp
  qed (metis nth_mem)
  show ?thesis
    unfolding ErrNDISeekInternalPage_def IlineNDISeekGEQInternal_spec [OF ok cb bm] filter_le_split [OF s] f_def [symmetric] e
    using internal_facts(2) [OF ok] by auto
qed

text \<open>The linear search finds the same line.\<close>

lemma SeekGEQInternalDebugLoop_spec:
  assumes ok: "internal_ok p" and i: "0 \<le> iline" "iline \<le> Clines p - 1" and small: "\<And>j. j < nat iline \<Longrightarrow> seps p ! j < bm_bytes bm"
  shows "\<exists>c. SeekGEQInternalDebugLoop p bm iline = Some (int (first_geq (seps p) (bm_bytes bm)), c) \<and> 0 \<le> c \<and>
    (c = 0 \<longleftrightarrow> first_geq (seps p) (bm_bytes bm) < length (seps p) \<and> seps p ! first_geq (seps p) (bm_bytes bm) = bm_bytes bm)"
  using assms
proof (induction p bm iline rule: SeekGEQInternalDebugLoop.induct [case_names step])
  case (step p bm iline)
  note ok = step.prems(1) and i = step.prems(2,3) and small = step.prems(4)
  have n: "nodes_ok p" "sorted_wrt (<) (seps p)" using ok by (simp_all add: internal_ok_def)
  note F = internal_facts [OF ok]
  show ?case
  proof (cases "iline < Clines p - 1")
    case False
    then have e: "iline = Clines p - 1" using i by simp
    then have "first_geq (seps p) (bm_bytes bm) = length (seps p)"
      using F(2) small by (intro first_geqI [OF n(2)]) auto
    then show ?thesis using F(2) e by (subst SeekGEQInternalDebugLoop.simps) simp
  next
    case True
    have il: "nat iline < length (seps p)" using True F(2) i by simp
    then have x: "seps p ! nat iline = key_bytes (kdf_key (nodes p ! nat iline))" by (simp add: seps_nth length_seps)
    have ic: "iline < Clines p" using True by simp
    obtain kdf where kdf: "NDIGetKeydataflags iline p = Some kdf" "read_kdf p kdf = nodes p ! nat iline"
      using node_bookmark [OF n(1) i(1) ic] by metis
    define c where "c = order_cmp (seps p ! nat iline) (bm_bytes bm)"
    have cmp: "CmpKeyWithKeyData (kdf_key (read_kdf p kdf)) bm = Some c"
      by (simp add: CmpKeyWithKeyData_spec c_def x bm_bytes_def kdf(2))
    show ?thesis
    proof (cases "c < 0")
      case less: True
      have i': "0 \<le> iline + 1" "iline + 1 \<le> Clines p - 1" using True i by simp_all
      have sm: "seps p ! j < bm_bytes bm" if "j < nat (iline + 1)" for j
        using that small [of j] less i by (cases "j = nat iline") (auto simp: c_def order_cmp_less)
      have "SeekGEQInternalDebugLoop p bm iline = SeekGEQInternalDebugLoop p bm (iline + 1)"
        using True less by (subst SeekGEQInternalDebugLoop.simps) (simp add: kdf(1) cmp)
      then show ?thesis using step.IH [OF True kdf(1) cmp less ok i' sm] by simp
    next
      case False
      then have ge: "bm_bytes bm \<le> seps p ! nat iline" by (simp add: c_def order_cmp_less not_less)
      then have "first_geq (seps p) (bm_bytes bm) = nat iline" using il small by (intro first_geqI [OF n(2)]) auto
      then show ?thesis using True False il i
        by (subst SeekGEQInternalDebugLoop.simps) (auto simp: kdf(1) cmp c_def order_cmp_zero)
    qed
  qed
qed

end
