(* ===== verification/Node_Order.thy ===== *)
theory Node_Order
  imports Node_Descend "HOL-Library.Sublist"
begin

text \<open>
  The order of keys and bookmarks: the comparisons of the code, which take a key in two pieces, against the lexicographic order and the
  longest common prefix of the library.
\<close>

subsection \<open>The order of keys\<close>

lemma common_prefix_longest: "common_prefix xs ys = length (longest_common_prefix xs ys)"
  by (induction xs ys rule: common_prefix.induct) auto

text \<open>
  C34: the order of bookmarks.  Whatever way a key is split into prefix and suffix, \<open>CmpKeyData\<close> compares the bytes of the keys,
  then the data, lexicographically, \<open>CmpKeyWithKeyData\<close> compares the key with the key of the bookmark followed by
  its data, \<open>FKeysEqual\<close> is equality, \<open>CbCommonKey\<close> the length of the longest common prefix; none reads past the end of a piece.
\<close>
theorem bookmark_order:
  "\<exists>c d. CmpKeyData a b = Some c \<and> CmpKeyWithKeyData (bm_key a) b = Some d \<and>
    (c < 0 \<longleftrightarrow> bm_val a < bm_val b) \<and> (c = 0 \<longleftrightarrow> bm_val a = bm_val b) \<and>
    (d < 0 \<longleftrightarrow> key_bytes (bm_key a) < bm_bytes b) \<and> (d = 0 \<longleftrightarrow> key_bytes (bm_key a) = bm_bytes b) \<and>
    FKeysEqual (bm_key a) (bm_key b) = Some (key_bytes (bm_key a) = key_bytes (bm_key b)) \<and>
    CbCommonKey False (bm_key a) (bm_key b) = Some (length (longest_common_prefix (key_bytes (bm_key a)) (key_bytes (bm_key b))))"
proof -
  obtain c where c: "CmpKeyData a b = Some c" "c < 0 \<longleftrightarrow> bm_val a < bm_val b" "c = 0 \<longleftrightarrow> bm_val a = bm_val b"
    by (rule CmpKeyData_sign)
  show ?thesis
    by (rule exI [of _ c], rule exI [of _ "order_cmp (key_bytes (bm_key a)) (bm_bytes b)"])
      (simp add: c CmpKeyWithKeyData_spec bm_bytes_def order_cmp_less order_cmp_zero FKeysEqual_spec CbCommonKey_spec common_prefix_longest)
qed

end
