(* ===== verification/Node_Prefix.thy ===== *)
theory Node_Prefix
  imports Node_Spec
begin

text \<open>
  New data for a node, and a longer or a shorter compressed prefix: the list of nodes changes at the node of
  the cursor, and a change of the prefix leaves its key, its data and its other flags as they were.
\<close>

subsection \<open>Replacing the line of a node\<close>

lemma Replace_node:
  fixes p :: CPAGE and d key :: bytes
  assumes ok: "nodes_ok p" and i: "0 \<le> iline" "iline < Clines p"
    and e: "concat bss = enc_node c key d"
    and room: "int (length (enc_node c key d)) \<le> uint (CbFree p) + line_bytes (data_lines p ! nat iline)"
    and c: "c < 8192" "c \<le> length key" "length key - c < 8192" "c \<le> length (node_prefix p)" "c = 0 \<or> 2 < c"
    and key: "take c key = take c (node_prefix p)" and d: "d \<noteq> []"
    and fl: "(fl AND fNDCompressed = 0) = (c = 0)"
  obtains q where "Replace iline (map OffPage bss) fl p = Some q" "nodes_ok q" "node_prefix q = node_prefix p"
    "nodes q = (nodes p)[nat iline := KDF (KEY (take c key) (drop c key)) d (fl AND 7)]"
    "uint (CbFree q) = uint (CbFree p) + line_bytes (data_lines p ! nat iline) - int (length (enc_node c key d))"
    "fFlags (pghdr q) = fFlags (pghdr p)"
proof -
  let ?l = "stored p 1 fl (enc_node c key d)"
  have p: "page_ok p" "FIsNormalSized p" using nodes_ok_page [OF ok] by simp_all
  obtain q where q: "Replace iline (map OffPage bss) fl p = Some q" "page_ok q" "FIsNormalSized q"
    "data_lines q = (data_lines p)[nat iline := ?l]" "reserved_lines q = reserved_lines p"
    "uint (CbFree q) = uint (CbFree p) + line_bytes (data_lines p ! nat iline) - int (length (enc_node c key d))"
    "fSmallFormat q = fSmallFormat p"
    using page_replace_ok [OF p i, of bss fl] room unfolding e by auto
  have f: "fFlags (pghdr q) = fFlags (pghdr p)" using q(1) by (simp add: Replace_def Replace_at_fFlags)
  note s = stored_node(1,2) [where p = p and fl = fl and d = d and pfx = "node_prefix p", OF c(1-3) fl]
  note U = nodes_of_update [OF ok q(2,3) f q(5,4,7) s(2) [OF d c(4,5)]]
  have "nodes q = (nodes p)[nat iline := KDF (KEY (take c key) (drop c key)) d (fl AND 7)]"
    unfolding U(2) s(1) key ..
  with q f U show thesis by (intro that)
qed

lemma Replace_in_place:
  fixes p :: CPAGE and d key :: bytes
  assumes ok: "nodes_ok p" and i: "0 \<le> iline" "iline < Clines p" and k: "iline + CTagReserved p = int k" "int k < ITagMicFree p"
    and src: "copy_ok (PbFromIb p (t_ib (tags p ! k))) ds"
      "sources_in (PbFromIb p (t_ib (tags p ! k)) + 2) (PbFromIb p (t_ib (tags p ! k)) + t_cb (tags p ! k)) ds"
    and e: "contents (buf p) ds = enc_node c key d"
    and room: "int (length (enc_node c key d)) \<le> t_cb (tags p ! k)"
    and c: "c < 8192" "c \<le> length key" "length key - c < 8192" "c \<le> length (node_prefix p)" "c = 0 \<or> 2 < c"
    and key: "take c key = take c (node_prefix p)" and d: "d \<noteq> []"
    and fl: "(fl AND fNDCompressed = 0) = (c = 0)"
  obtains q where "Replace iline ds fl p = Some q" "nodes_ok q" "node_prefix q = node_prefix p"
    "nodes q = (nodes p)[nat iline := KDF (KEY (take c key) (drop c key)) d (fl AND 7)]"
    "uint (CbFree q) = uint (CbFree p) + line_bytes (data_lines p ! nat iline) - int (length (enc_node c key d))"
    "fFlags (pghdr q) = fFlags (pghdr p)"
proof -
  have p: "page_ok p" using nodes_ok_page [OF ok] by simp
  have lb: "line_bytes (data_lines p ! nat iline) = t_cb (tags p ! k)"
    using client_line [OF p i] k line_cb [of k p] by (metis of_nat_eq_iff)
  have fit: "CbDataTotal ds \<le> t_cb (tags p ! k)" using CbDataTotal_contents [OF src(1), of "buf p"] room e by simp
  have "Replace iline ds fl p = Replace iline (map OffPage [enc_node c key d]) fl p"
    unfolding Replace_def k(1) using Replace_at_contents [OF p k(2) src fit, of fl] e by simp
  then show thesis
    using Replace_node [OF ok i _ _ c key d fl, of "[enc_node c key d]"] room lb that
    by (metis concat.simps append_Nil2 uint16_nonneg add_increasing)
qed

subsection \<open>New data\<close>

lemma stored_key_bounds:
  assumes "node_ok pfx small l"
  shows "line_cbPrefix small l < 8192" "key_size (line_body small l) < 8192"
  using key_size_less by (simp_all add: line_cbPrefix_def)

lemma current_key:
  assumes n: "nodes p ! nat iline = line_node (node_prefix p) (fSmallFormat p) l" and ok: "node_ok (node_prefix p) (fSmallFormat p) l"
  defines "c \<equiv> line_cbPrefix (fSmallFormat p) l" and "key \<equiv> key_bytes (kdf_key (nodes p ! nat iline))"
  shows "c < 8192" "c \<le> length key" "length key - c < 8192" "c \<le> length (node_prefix p)" "c = 0 \<or> 2 < c"
    "take c key = take c (node_prefix p)" "KEY (take c key) (drop c key) = kdf_key (nodes p ! nat iline)"
    "length key = c + key_size (line_body (fSmallFormat p) l)"
    "(line_flags (fSmallFormat p) l AND fNDCompressed = 0) = (c = 0)"
proof -
  let ?B = "line_body (fSmallFormat p) l"
  have le: "c \<le> length (node_prefix p)" "2 + key_size ?B < length ?B" using ok by (simp_all add: node_ok_def c_def)
  have key: "key = take c (node_prefix p) @ take (key_size ?B) (drop 2 ?B)"
    by (simp add: key_def n line_node_def key_bytes_def c_def)
  show "c < 8192" using stored_key_bounds [OF ok] by (simp add: c_def)
  show "c \<le> length (node_prefix p)" by (rule le(1))
  show len: "length key = c + key_size ?B" using le by (simp add: key)
  then show "c \<le> length key" "length key - c < 8192" using stored_key_bounds [OF ok] by simp_all
  show "c = 0 \<or> 2 < c" using ok by (auto simp: c_def line_cbPrefix_def node_ok_def)
  show "take c key = take c (node_prefix p)" using le by (simp add: key)
  show "KEY (take c key) (drop c key) = kdf_key (nodes p ! nat iline)" using le by (simp add: key n line_node_def c_def)
  show "(line_flags (fSmallFormat p) l AND fNDCompressed = 0) = (c = 0)"
    using ok by (auto simp: c_def line_cbPrefix_def node_ok_def line_compressed_def)
qed

text \<open>
  The layout of the line of a node: \<open>c\<close> bytes of its key are in the prefix of the page, the \<open>sfx\<close> others and the
  \<open>dn\<close> bytes of the data fill the line behind the sizes.
\<close>

lemma current_layout:
  assumes ok: "nodes_ok p" and i: "0 \<le> iline" "iline < Clines p"
  defines "n \<equiv> nodes p ! nat iline"
  obtains kdf k a c pfx sfx dn where "NDIGetKeydataflags iline p = Some kdf" "read_kdf p kdf = n"
    "iline + CTagReserved p = int k" "int k < ITagMicFree p" "a = PbFromIb p (t_ib (tags p ! k))"
    "kdf = KDF (KEY pfx (OnPage (a + (if c = 0 then 2 else 4)) sfx)) (OnPage (a + (if c = 0 then 2 else 4) + sfx) dn) (kdf_fFlags n)"
    "DATA_Cb pfx = int c" "int (length (key_bytes (kdf_key n))) = int c + sfx" "int (length (kdf_data n)) = dn"
    "0 \<le> sfx" "0 < dn" "(if c = 0 then 2 else 4) + sfx + dn = t_cb (tags p ! k)"
    "line_bytes (data_lines p ! nat iline) = t_cb (tags p ! k)"
    "c < 8192" "c \<le> length (key_bytes (kdf_key n))" "length (key_bytes (kdf_key n)) - c < 8192"
    "c \<le> length (node_prefix p)" "c = 0 \<or> 2 < c"
    "take c (key_bytes (kdf_key n)) = take c (node_prefix p)"
    "KEY (take c (key_bytes (kdf_key n))) (drop c (key_bytes (kdf_key n))) = kdf_key n"
    "(kdf_fFlags n AND fNDCompressed = 0) = (c = 0)" "kdf_fFlags n AND 7 = kdf_fFlags n"
proof -
  have p: "page_ok p" using nodes_ok_page [OF ok] by simp
  obtain kdf k where K: "NDIGetKeydataflags iline p = Some kdf" "read_kdf p kdf = n"
    "DATA_Cb (prefix (kdf_key kdf)) = int (line_cbPrefix (fSmallFormat p) (lines p ! k))"
    "kdf_fFlags kdf = line_flags (fSmallFormat p) (lines p ! k)" "on_line p k kdf"
    and k: "iline + CTagReserved p = int k" "int k < ITagMicFree p" "data_lines p ! nat iline = lines p ! k"
    and nok: "node_ok (node_prefix p) (fSmallFormat p) (lines p ! k)" and dpos: "DATA_Cb (kdf_data kdf) > 0"
    using current_node [OF ok i] unfolding n_def by metis
  define c where "c = line_cbPrefix (fSmallFormat p) (lines p ! k)"
  define key where "key = key_bytes (kdf_key n)"
  have nn: "nodes p ! nat iline = line_node (node_prefix p) (fSmallFormat p) (lines p ! k)"
    using nodes_nth [OF i(1) p i(2)] k(3) by simp
  note C = current_key [OF nn nok, folded c_def n_def, folded key_def]
  note R = read_kdf_parts [OF K(2)]
  have comp: "line_compressed (fSmallFormat p) (lines p ! k) \<longleftrightarrow> c \<noteq> 0"
    using C(9) K(4) by (simp add: line_compressed_def)
  let ?a = "PbFromIb p (t_ib (tags p ! k))"
  obtain pfx sfx dn fl where kdf: "kdf = KDF (KEY pfx (OnPage (?a + (if c = 0 then 2 else 4)) sfx))
      (OnPage (?a + (if c = 0 then 2 else 4) + sfx) dn) fl"
    and sz: "0 \<le> DATA_Cb pfx" "0 \<le> sfx" "0 \<le> dn" "?a + (if c = 0 then 2 else 4) + sfx + dn = ?a + t_cb (tags p ! k)"
    using K(5) by (cases "c = 0") (auto simp: on_line_def comp Let_def)
  have pc: "DATA_Cb pfx = int c" using K(3) by (simp add: kdf c_def)
  have lens: "int (length key) - int c = sfx" "int (length (kdf_data n)) = dn"
    using R(2,3) C(7) sz by (simp_all add: kdf) (metis KEY.sel(2) length_drop length_load_bytes nat_0_le C(2) of_nat_diff)+
  have fl: "fl = kdf_fFlags n" using R(4) by (simp add: kdf)
  show thesis
    using that [OF K(1,2) k(1,2) refl kdf [unfolded fl] pc] lens sz dpos C [unfolded key_def] line_cb [OF k(2)] k(3)
      line_flags_7 [OF k(2)] K(4) R(4)
    unfolding key_def by (simp add: kdf)
qed

text \<open>The key of the node stays where it is; the new data follows it.\<close>

lemma NDReplace_spec:
  assumes ok: "nodes_ok p" and i: "0 \<le> iline" "iline < Clines p" and d: "d \<noteq> []" "length d \<le> length (kdf_data (nodes p ! nat iline))"
  defines "n \<equiv> nodes p ! nat iline"
  shows "\<exists>q. NDReplace iline (OffPage d) p = Some q \<and> nodes_ok q \<and> node_prefix q = node_prefix p \<and>
    nodes q = (nodes p)[nat iline := KDF (kdf_key n) d (kdf_fFlags n)] \<and>
    uint (CbFree q) = uint (CbFree p) + int (length (kdf_data n)) - int (length d)"
proof -
  define key where "key = key_bytes (kdf_key n)"
  obtain kdf k a c pfx sfx dn where K: "NDIGetKeydataflags iline p = Some kdf" "read_kdf p kdf = n"
    and k: "iline + CTagReserved p = int k" "int k < ITagMicFree p" and a: "a = PbFromIb p (t_ib (tags p ! k))"
    and kdf: "kdf = KDF (KEY pfx (OnPage (a + (if c = 0 then 2 else 4)) sfx)) (OnPage (a + (if c = 0 then 2 else 4) + sfx) dn) (kdf_fFlags n)"
    and sz: "DATA_Cb pfx = int c" "int (length key) = int c + sfx" "int (length (kdf_data n)) = dn"
      "0 \<le> sfx" "0 < dn" "(if c = 0 then 2 else 4) + sfx + dn = t_cb (tags p ! k)"
      "line_bytes (data_lines p ! nat iline) = t_cb (tags p ! k)"
    and C: "c < 8192" "c \<le> length key" "length key - c < 8192" "c \<le> length (node_prefix p)" "c = 0 \<or> 2 < c"
      "take c key = take c (node_prefix p)" "KEY (take c key) (drop c key) = kdf_key n"
    and fl: "(kdf_fFlags n AND fNDCompressed = 0) = (c = 0)" "kdf_fFlags n AND 7 = kdf_fFlags n"
    using current_layout [OF ok i, folded n_def] unfolding key_def by metis
  define kdf' where "kdf' = KDF (kdf_key kdf) (OffPage d) (kdf_fFlags kdf)"
  define ds where "ds = fst (CdataNDIKeydataflagsToDataflags kdf')"
  have v: "valid_kdf kdf'" using sz by (simp add: kdf'_def kdf valid_kdf_def valid_data_def)
  have c': "DATA_Cb (prefix (kdf_key kdf')) = int c" "c < 65536" using sz C(1) by (simp_all add: kdf'_def kdf)
  note E = Cdata_bytes(1) [OF v c', of "buf p"] Cdata_bytes(2) [OF v c']
  have kb: "kdf_bytes (buf p) kdf' = key" using read_kdf_parts(5) [OF K(2)] by (simp add: kdf'_def kdf_bytes_def key_def)
  have e: "contents (buf p) ds = enc_node c key d" using E(1) by (simp add: ds_def contents_def kb) (simp add: kdf'_def)
  have src: "copy_ok (PbFromIb p (t_ib (tags p ! k))) ds"
    "sources_in (PbFromIb p (t_ib (tags p ! k)) + 2) (PbFromIb p (t_ib (tags p ! k)) + t_cb (tags p ! k)) ds"
    using sz C(5) unfolding a [symmetric] by (auto simp: ds_def CdataNDIKeydataflagsToDataflags_def kdf'_def kdf sources_in_def)
  have room: "int (length (enc_node c key d)) \<le> t_cb (tags p ! k)"
    using sz d(2) C(2) unfolding n_def [symmetric] by (auto simp: length_enc_node of_nat_diff split: if_splits)
  obtain q where q: "Replace iline ds (kdf_fFlags n) p = Some q" "nodes_ok q" "node_prefix q = node_prefix p"
    "nodes q = (nodes p)[nat iline := KDF (KEY (take c key) (drop c key)) d (kdf_fFlags n AND 7)]"
    "uint (CbFree q) = uint (CbFree p) + line_bytes (data_lines p ! nat iline) - int (length (enc_node c key d))"
    using Replace_in_place [OF ok i k src e room C(1-6) d(1) fl(1)] by metis
  have "CdataNDIKeydataflagsToDataflags kdf' = (ds, kdf_fFlags n)"
    using E(2) by (intro prod_eqI) (simp_all add: ds_def kdf'_def kdf)
  then have "NDReplace iline (OffPage d) p = Some q"
    using q(1) unfolding NDReplace_def K(1) kdf'_def by simp
  moreover have "line_bytes (data_lines p ! nat iline) - int (length (enc_node c key d)) = int (length (kdf_data n)) - int (length d)"
    using sz C(2) by (auto simp: length_enc_node of_nat_diff split: if_splits)
  ultimately show ?thesis using q C(7) fl(2) by (intro exI [of _ q]) (simp add: n_def)
qed

subsection \<open>A longer prefix\<close>

text \<open>
  Bytes of the key move from the node to the prefix of the page, which already has them; what stays in the
  node moves to the left, the size of the prefix may be new.
\<close>

lemma NDGrowCbPrefix_spec:
  assumes ok: "nodes_ok p" and i: "0 \<le> iline" "iline < Clines p"
    and kdf0: "NDIGetKeydataflags iline p = Some kdf"
  defines "n \<equiv> nodes p ! nat iline"
  defines "key \<equiv> key_bytes (kdf_key n)"
  assumes c': "2 < c'" "c' < 8192" "length (prefix (kdf_key n)) \<le> c'" "c' \<le> length key" "c' \<le> length (node_prefix p)"
    "take c' key = take c' (node_prefix p)"
  shows "\<exists>q. NDGrowCbPrefix iline kdf (int c') p = Some q \<and> nodes_ok q \<and> node_prefix q = node_prefix p \<and>
    nodes q = (nodes p)[nat iline := KDF (KEY (take c' key) (drop c' key)) (kdf_data n) (kdf_fFlags n OR fNDCompressed)] \<and>
    uint (CbFree q) = uint (CbFree p) + int c' - int (length (prefix (kdf_key n))) - (if prefix (kdf_key n) = [] then 2 else 0)"
proof -
  obtain k a c pfx sfx dn where K: "read_kdf p kdf = n"
    and k: "iline + CTagReserved p = int k" "int k < ITagMicFree p" and a: "a = PbFromIb p (t_ib (tags p ! k))"
    and kdf: "kdf = KDF (KEY pfx (OnPage (a + (if c = 0 then 2 else 4)) sfx)) (OnPage (a + (if c = 0 then 2 else 4) + sfx) dn) (kdf_fFlags n)"
    and sz: "DATA_Cb pfx = int c" "int (length key) = int c + sfx" "int (length (kdf_data n)) = dn"
      "0 \<le> sfx" "0 < dn" "(if c = 0 then 2 else 4) + sfx + dn = t_cb (tags p ! k)"
      "line_bytes (data_lines p ! nat iline) = t_cb (tags p ! k)"
    and C: "c \<le> length key" "length key - c < 8192" "c = 0 \<or> 2 < c" "KEY (take c key) (drop c key) = kdf_key n"
    and fl: "kdf_fFlags n AND 7 = kdf_fFlags n"
    using current_layout [OF ok i, folded n_def] unfolding key_def kdf0 option.inject by metis
  have pn: "length (prefix (kdf_key n)) = c" using arg_cong [OF C(4), of "\<lambda>x. length (prefix x)"] C(1) by simp
  define kdf' where "kdf' = KDF (kdf_key kdf) (kdf_data kdf) (kdf_fFlags kdf OR fNDCompressed)"
  define ds where "ds = fst (CdataNDIPrefixAndKeydataflagsToDataflags kdf' (of_nat c'))"
  have v: "valid_kdf kdf'" using sz by (simp add: kdf'_def kdf valid_kdf_def valid_data_def)
  have kb: "kdf_bytes (buf p) kdf' = key" using read_kdf_parts(5) [OF K] by (simp add: kdf'_def kdf_bytes_def key_def)
  have "c' < 65536" "c' \<le> length (kdf_bytes (buf p) kdf')" using c' by (simp_all add: kb)
  note E = Cdata_prefix_bytes [OF v this, unfolded kb]
  have e: "contents (buf p) ds = enc_node c' key (kdf_data n)"
    using E(1) read_kdf_parts(3) [OF K] by (simp add: ds_def contents_def) (simp add: kdf'_def)
  have u: "uint (of_nat c' :: u16) = int c'" using c'(2) by (simp add: uint_nat unat_of_nat)
  have cc: "int c \<le> int c'" "int c' - int c \<le> sfx" using c'(3,4) sz(2) by (simp_all add: pn)
  have src: "copy_ok (PbFromIb p (t_ib (tags p ! k))) ds"
    "sources_in (PbFromIb p (t_ib (tags p ! k)) + 2) (PbFromIb p (t_ib (tags p ! k)) + t_cb (tags p ! k)) ds"
    using sz C(3) cc c'(1) unfolding a [symmetric]
    by (auto simp: ds_def CdataNDIPrefixAndKeydataflagsToDataflags_def Let_def kdf'_def kdf sources_in_def u)
  have len: "int (length (enc_node c' key (kdf_data n))) = 4 + int (length key) - int c' + dn"
    using c'(1,4) sz(3) by (simp add: length_enc_node of_nat_diff)
  have room: "int (length (enc_node c' key (kdf_data n))) \<le> t_cb (tags p ! k)"
    using sz cc c'(1) unfolding len by (auto split: if_splits)
  have flc: "((kdf_fFlags n OR fNDCompressed) AND fNDCompressed = 0) = (c' = 0)" using flag_bit(2) c'(1) by simp
  have d: "kdf_data n \<noteq> []" using sz(3,5) by auto
  have k8: "length key - c' < 8192" using C(2) c'(3) by (simp add: pn)
  have c2: "c' = 0 \<or> 2 < c'" using c'(1) by simp
  obtain q where q: "Replace iline ds (kdf_fFlags n OR fNDCompressed) p = Some q" "nodes_ok q" "node_prefix q = node_prefix p"
    "nodes q = (nodes p)[nat iline := KDF (KEY (take c' key) (drop c' key)) (kdf_data n) ((kdf_fFlags n OR fNDCompressed) AND 7)]"
    "uint (CbFree q) = uint (CbFree p) + line_bytes (data_lines p ! nat iline) - int (length (enc_node c' key (kdf_data n)))"
    using Replace_in_place [OF ok i k src e room c'(2,4) k8 c'(5) c2 c'(6) d flc] by metis
  have "CdataNDIPrefixAndKeydataflagsToDataflags kdf' (of_nat c') = (ds, kdf_fFlags n OR fNDCompressed)"
    using E(2) c'(1) by (intro prod_eqI) (simp_all add: ds_def kdf'_def kdf or.assoc)
  then have "NDGrowCbPrefix iline kdf (int c') p = Some q"
    using q(1) unfolding NDGrowCbPrefix_def kdf'_def [symmetric] Let_def of_int_of_nat_eq by simp
  moreover have "(kdf_fFlags n OR fNDCompressed) AND 7 = kdf_fFlags n OR fNDCompressed"
    using fl by (simp add: bit.conj_disj_distrib2 fNDCompressed_def)
  moreover have "line_bytes (data_lines p ! nat iline) - int (length (enc_node c' key (kdf_data n))) =
      int c' - int c - (if c = 0 then 2 else 0)"
    using sz unfolding len by (auto split: if_splits)
  ultimately show ?thesis using q pn by (intro exI [of _ q]) auto
qed


subsection \<open>A shorter prefix\<close>

lemma OffPage_pieces:
  assumes "prefix (kdf_key kdf) = OffPage x" "suffix (kdf_key kdf) = OffPage y" "kdf_data kdf = OffPage z"
  shows "fst (CdataNDIPrefixAndKeydataflagsToDataflags kdf w) =
    map OffPage (map (data_bytes b) (fst (CdataNDIPrefixAndKeydataflagsToDataflags kdf w)))"
  using assms by (simp add: CdataNDIPrefixAndKeydataflagsToDataflags_def Let_def)

lemma NDShrinkCbPrefix_spec:
  assumes ok: "nodes_ok p" and i: "0 \<le> iline" "iline < Clines p"
    and kdf0: "NDIGetKeydataflags iline p = Some kdf"
  defines "n \<equiv> nodes p ! nat iline"
  defines "key \<equiv> key_bytes (kdf_key n)"
  assumes old: "take (length (prefix (kdf_key n))) dataOldPrefix = prefix (kdf_key n)"
    and c': "c' \<le> length (prefix (kdf_key n))" "c' = 0 \<or> 2 < c'" "length key - c' < 8192"
    and room: "int (length (enc_node c' key (kdf_data n))) \<le> uint (CbFree p) + line_bytes (data_lines p ! nat iline)"
  shows "\<exists>q. NDShrinkCbPrefix iline kdf dataOldPrefix (int c') p = Some q \<and> nodes_ok q \<and> node_prefix q = node_prefix p \<and>
    nodes q = (nodes p)[nat iline := KDF (KEY (take c' key) (drop c' key)) (kdf_data n)
      (if c' = 0 then kdf_fFlags n AND NOT fNDCompressed else kdf_fFlags n OR fNDCompressed)]"
proof -
  obtain k a c pfx sfx dn where K: "read_kdf p kdf = n"
    and kdf: "kdf = KDF (KEY pfx (OnPage (a + (if c = 0 then 2 else 4)) sfx)) (OnPage (a + (if c = 0 then 2 else 4) + sfx) dn) (kdf_fFlags n)"
    and sz: "DATA_Cb pfx = int c" "int (length (kdf_data n)) = dn" "0 < dn"
    and C: "c < 8192" "c \<le> length key" "c \<le> length (node_prefix p)" "take c key = take c (node_prefix p)" "KEY (take c key) (drop c key) = kdf_key n"
    and fl: "kdf_fFlags n AND 7 = kdf_fFlags n"
    using current_layout [OF ok i, folded n_def] unfolding key_def kdf0 option.inject by metis
  have pn: "length (prefix (kdf_key n)) = c" "prefix (kdf_key n) = take c key" "suffix (kdf_key n) = drop c key"
    using C(2) by (simp_all flip: C(5))
  define fl' where "fl' = (if c' = 0 then kdf_fFlags n AND NOT fNDCompressed else kdf_fFlags n OR fNDCompressed)"
  define kdf' where "kdf' = KDF (KEY (OffPage (take (nat (DATA_Cb (prefix (kdf_key kdf)))) dataOldPrefix))
                       (OffPage (data_bytes (buf p) (suffix (kdf_key kdf)))))
                  (OffPage (data_bytes (buf p) (kdf_data kdf))) fl'"
  note R = read_kdf_parts [OF K]
  have kdf': "kdf' = KDF (KEY (OffPage (take c key)) (OffPage (drop c key))) (OffPage (kdf_data n)) fl'"
    using old R(2,3) sz(1) pn by (simp add: kdf'_def) (simp add: kdf)
  have v: "valid_kdf kdf'" by (simp add: kdf' valid_kdf_def valid_data_def)
  have kb: "kdf_bytes b kdf' = key" for b by (simp add: kdf' kdf_bytes_def)
  have le: "c' \<le> c" "c' \<le> length key" "c' < 8192" "c' < 65536" "c' \<le> length (node_prefix p)" "c' \<le> length (kdf_bytes (buf p) kdf')"
    using c'(1) C unfolding pn(1) kb by simp_all
  note E = Cdata_prefix_bytes [OF v le(4,6), unfolded kb]
  define bss where "bss = map (data_bytes (buf p)) (fst (CdataNDIPrefixAndKeydataflagsToDataflags kdf' (of_nat c')))"
  have e: "concat bss = enc_node c' key (kdf_data n)" using E(1) by (simp add: bss_def kdf')
  have ds: "CdataNDIPrefixAndKeydataflagsToDataflags kdf' (of_nat c') = (map OffPage bss, fl')"
  proof (rule prod_eqI)
    show "fst (CdataNDIPrefixAndKeydataflagsToDataflags kdf' (of_nat c')) = fst (map OffPage bss, fl')"
      unfolding bss_def by (simp only: fst_conv) (rule OffPage_pieces, simp_all add: kdf')
    show "snd (CdataNDIPrefixAndKeydataflagsToDataflags kdf' (of_nat c')) = snd (map OffPage bss, fl')"
      unfolding E(2) by (simp add: kdf' fl'_def and.assoc or.assoc)
  qed
  have flc: "(fl' AND fNDCompressed = 0) = (c' = 0)" using flag_bit by (simp add: fl'_def del: word_ao_absorbs)
  have "take c' key = take c' (take c key)" using le(1) by (simp add: min_def)
  also have "\<dots> = take c' (node_prefix p)" using le(1) by (simp add: C(4) min_def)
  finally have tk: "take c' key = take c' (node_prefix p)" .
  have d: "kdf_data n \<noteq> []" using sz by auto
  have f7: "fl' AND 7 = fl'"
  proof -
    have "(kdf_fFlags n AND NOT fNDCompressed) AND 7 = (kdf_fFlags n AND 7) AND NOT fNDCompressed"
      by (simp only: and.assoc and.commute [of "NOT fNDCompressed"])
    moreover have "(kdf_fFlags n OR fNDCompressed) AND 7 = (kdf_fFlags n AND 7) OR fNDCompressed"
      by (simp add: bit.conj_disj_distrib2 fNDCompressed_def)
    ultimately show ?thesis by (simp add: fl'_def fl)
  qed
  obtain q where q: "Replace iline (map OffPage bss) fl' p = Some q" "nodes_ok q" "node_prefix q = node_prefix p"
    "nodes q = (nodes p)[nat iline := KDF (KEY (take c' key) (drop c' key)) (kdf_data n) (fl' AND 7)]"
    using Replace_node [OF ok i e room le(3,2) c'(3) le(5) c'(2) tk d flc] by metis
  have fk: "(if int c' > 0 then kdf_fFlags kdf OR fNDCompressed else kdf_fFlags kdf AND NOT fNDCompressed) = fl'"
    by (simp add: fl'_def kdf)
  have "NDShrinkCbPrefix iline kdf dataOldPrefix (int c') p = Some q"
    using q(1) unfolding NDShrinkCbPrefix_def fk Let_def kdf'_def [symmetric] of_int_of_nat_eq ds by simp
  then show ?thesis using q by (intro exI [of _ q]) (simp add: fl'_def [symmetric] f7)
qed

end
