(* ===== verification/Ver_Space.thy ===== *)
theory Ver_Space
  imports Node_Prefix Node_Search
begin

text \<open>
  The space the version store reserves on a page (\<open>src/ese/ver.cxx\<close>).  A transaction that shrinks a node may roll
  back, so the bytes it gave up stay reserved until it commits: every replace of a node has a version with
  the largest size the node had in the transaction and its contribution to the reserved space, and the page
  counts the reserved bytes in \<open>cbUncommittedFree\<close>.

  The versions of a node form a chain, the newest first, found by the bytes of its bookmark.  The chains change only under the latch of the hash
  bucket, so reading one is a step of its own; the second look \<open>CbVERGetNodeReserve\<close> takes at the first version it found
  cannot differ from the first.
\<close>

subsection \<open>Versions\<close>

text \<open>\<open>fCommitted\<close> is \<open>TrxCommitted() != trxMax\<close>, \<open>fUndoInfo\<close> is \<open>PgnoUndoInfo() != pgnoNull\<close>.\<close>

datatype OPER = operInsert | operReplace | operFlagDelete | operDelta | operDelta64 | operReadLock | operWriteLock | operPreInsert

record RCE =
  oper :: OPER
  fCommitted :: bool
  fRolledBack :: bool
  fEmptyDiff :: bool
  fUndoInfo :: bool
  ppib :: nat
  cbMaxSize :: u16
  cbDelta :: u16
  rgbBeforeImage :: bytes

definition FOperReplace :: "RCE \<Rightarrow> bool" where
  "FOperReplace prce \<longleftrightarrow> oper prce = operReplace"

text \<open>What the node layer and the version store look up besides the page: the chains, and the state of the instance.\<close>

record VERENV =
  chains :: "bytes \<times> bytes \<Rightarrow> RCE list"
  fRecovering :: bool
  fWARLatch :: bool
  fPageRecentlyDirtied :: bool
  fFUCBUnique :: bool
  fFUCBSpace :: bool
  ppibSession :: nat

fun CbVERIGetNodeMax :: "RCE list \<Rightarrow> int" where
  "CbVERIGetNodeMax [] = 0"
| "CbVERIGetNodeMax (prce # rest) =
     (if fCommitted prce then 0
      else if FOperReplace prce \<and> \<not> fRolledBack prce then sint (cbMaxSize prce)
      else CbVERIGetNodeMax rest)"

text \<open>\<open>None\<close> stands for \<open>ppibNil\<close>, with which the versions of every session count.\<close>

fun CbVERGetNodeReserve :: "nat option \<Rightarrow> RCE list \<Rightarrow> int" where
  "CbVERGetNodeReserve pib [] = 0"
| "CbVERGetNodeReserve pib (prce # rest) =
     (if fCommitted prce then 0
      else
        (if (pib = None \<or> pib = Some (ppib prce)) \<and> FOperReplace prce \<and> \<not> fRolledBack prce then sint (cbDelta prce) else 0) +
        CbVERGetNodeReserve pib rest)"

text \<open>The previous replace of the transaction, from the version behind the given one on.\<close>

fun PrceVERIGetPrevReplace :: "RCE list \<Rightarrow> RCE option" where
  "PrceVERIGetPrevReplace [] = None"
| "PrceVERIGetPrevReplace (prce # rest) =
     (if \<not> FOperReplace prce \<and> \<not> fCommitted prce then PrceVERIGetPrevReplace rest
      else if \<not> FOperReplace prce \<or> fCommitted prce then None
      else Some prce)"

definition VERISetupInsertedDMLRCE :: "bytes \<Rightarrow> RCE list \<Rightarrow> RCE \<Rightarrow> RCE" where
  "VERISetupInsertedDMLRCE data prev prce =
     (case oper prce of
        operReplace \<Rightarrow>
          prce\<lparr>cbMaxSize := (case PrceVERIGetPrevReplace prev of
                 Some prcePrevReplace \<Rightarrow> cbMaxSize prcePrevReplace
               | None \<Rightarrow> word_of_int (Cb data)),
               cbDelta := 0,
               rgbBeforeImage := data\<rparr>
      | operDelta \<Rightarrow> prce\<lparr>rgbBeforeImage := data\<rparr>
      | operDelta64 \<Rightarrow> prce\<lparr>rgbBeforeImage := data\<rparr>
      | _ \<Rightarrow> prce)"

definition VERSetCbAdjust :: "RCE \<Rightarrow> int \<Rightarrow> int \<Rightarrow> bool \<Rightarrow> CPAGE \<Rightarrow> RCE \<times> CPAGE" where
  "VERSetCbAdjust prce cbDataNew cbDataOld fDoUpdatePage p =
     (let cbMax = sint (cbMaxSize prce);
          (prce, cbD) =
            (if cbDataNew > cbMax then (prce\<lparr>cbMaxSize := word_of_int cbDataNew\<rparr>, cbMax - cbDataOld)
             else (prce, cbDataNew - cbDataOld));
          prce = prce\<lparr>cbDelta := word_of_int (sint (cbDelta prce) - cbD)\<rparr>
      in (prce,
          if fDoUpdatePage then
            if cbD > 0 then ReclaimUncommittedFreed cbD p
            else if cbD < 0 then AddUncommittedFreed (- cbD) p else p
          else p))"

subsection \<open>Free space and reserved space\<close>

fun UncommittedLoop :: "VERENV \<Rightarrow> CPAGE \<Rightarrow> int list \<Rightarrow> int option" where
  "UncommittedLoop env p [] = Some 0"
| "UncommittedLoop env p (iline # ilines) =
     Option.bind (NDIGetKeydataflags iline p) (\<lambda>keydataflags.
     Option.bind
       (if FNDVersion keydataflags
        then map_option (\<lambda>bookmark. CbVERGetNodeReserve None (chains env (bm_val bookmark))) (NDIGetBookmark iline (fFUCBUnique env) p)
        else Some 0) (\<lambda>cb.
     map_option (\<lambda>rest. cb + rest) (UncommittedLoop env p ilines)))"

definition CbNDUncommittedFree :: "VERENV \<Rightarrow> CPAGE \<Rightarrow> int option" where
  "CbNDUncommittedFree env p = (if fPageRecentlyDirtied env then UncommittedLoop env p [0..Clines p - 1] else Some 0)"

definition FVERCheckUncommittedFreedSpace :: "VERENV \<Rightarrow> int \<Rightarrow> bool \<Rightarrow> CPAGE \<Rightarrow> (bool \<times> CPAGE) option" where
  "FVERCheckUncommittedFreedSpace env cbReq fPermitUpdateUncFree p =
     (if fRecovering env then
        Some (True,
          if fPermitUpdateUncFree \<and> cbUncommittedFree (pghdr p) \<noteq> 0 \<and> fWARLatch env then SetCbUncommittedFree 0 p else p)
      else if cbReq > uint (CbPageFree p) - uint (cbUncommittedFree (pghdr p)) then
        Option.bind (CbNDUncommittedFree env p) (\<lambda>cbUncommitted.
        if cbUncommitted = uint (cbUncommittedFree (pghdr p)) then Some (False, p)
        else
          let p = (if fPermitUpdateUncFree \<and> fWARLatch env then SetCbUncommittedFree cbUncommitted p else p)
          in Some (cbReq \<le> uint (CbPageFree p) - cbUncommitted, p))
      else Some (True, p))"

definition FNDFreePageSpace :: "VERENV \<Rightarrow> int \<Rightarrow> bool \<Rightarrow> CPAGE \<Rightarrow> (bool \<times> CPAGE) option" where
  "FNDFreePageSpace env cbReq fPermitUpdateUncFree p =
     (if uint (CbPageFree p) < cbReq then Some (False, p)
      else FVERCheckUncommittedFreedSpace env cbReq fPermitUpdateUncFree p)"

definition FNDPossiblyVersioned :: "VERENV \<Rightarrow> 'd KEYDATAFLAGS \<Rightarrow> bool" where
  "FNDPossiblyVersioned env kdfCurr \<longleftrightarrow> fPageRecentlyDirtied env \<and> FNDVersion kdfCurr"

definition CbNDReservedSizeOfNode :: "VERENV \<Rightarrow> bytes KEYDATAFLAGS \<Rightarrow> int" where
  "CbNDReservedSizeOfNode env kdfCurr =
     (if FNDPossiblyVersioned env kdfCurr \<or> fRecovering env \<and> \<not> fFUCBSpace env
      then CbVERGetNodeReserve (Some (ppibSession env)) (chains env (bm_val (NDGetBookmarkFromKDF kdfCurr (fFUCBUnique env))))
      else 0)"

subsection \<open>The chain of a node and its reserve\<close>

text \<open>
  What the replaces of a chain record, for a node of \<open>s\<close> bytes: \<open>hist_max\<close> is the largest size the node had in the
  transaction, and the \<open>cbDelta\<close> of a version is what its replace added to the difference to that size.
\<close>

definition live :: "RCE \<Rightarrow> bool" where
  "live prce \<longleftrightarrow> FOperReplace prce \<and> \<not> fRolledBack prce"

fun hist_max :: "RCE list \<Rightarrow> int \<Rightarrow> int" where
  "hist_max [] s = s"
| "hist_max (prce # rest) s =
     (if fCommitted prce then s else if FOperReplace prce then max s (hist_max rest (Cb (rgbBeforeImage prce))) else hist_max rest s)"

fun chain_ok :: "RCE list \<Rightarrow> int \<Rightarrow> bool" where
  "chain_ok [] s = (0 \<le> s \<and> s < 32768)"
| "chain_ok (prce # rest) s \<longleftrightarrow> 0 \<le> s \<and> s < 32768 \<and>
     (fCommitted prce \<or>
      (if FOperReplace prce then
         let b = Cb (rgbBeforeImage prce)
         in \<not> fRolledBack prce \<and> chain_ok rest b \<and> sint (cbMaxSize prce) = hist_max (prce # rest) s \<and>
            sint (cbDelta prce) = (hist_max (prce # rest) s - s) - (hist_max rest b - b)
       else chain_ok rest s))"

lemma hist_max_ge: "s \<le> hist_max C s"
  by (induction C s rule: hist_max.induct) auto

lemma chain_ok_range: "chain_ok C s \<Longrightarrow> 0 \<le> s \<and> s < 32768"
  by (cases C) auto

lemma hist_max_less: "chain_ok C s \<Longrightarrow> hist_max C s < 32768"
proof (induction C s rule: hist_max.induct)
  case (2 prce rest s)
  then show ?case using chain_ok_range [OF "2.prems"] by (auto simp: Let_def)
qed simp

text \<open>The two facts \<open>CbVERGetNodeReserve\<close> asserts.\<close>

lemma reserve_is_max_minus_size:
  "chain_ok C s \<Longrightarrow> CbVERGetNodeReserve None C = hist_max C s - s"
  by (induction C s rule: chain_ok.induct) (auto simp: Let_def)

lemma reserve_nonneg: "chain_ok C s \<Longrightarrow> 0 \<le> CbVERGetNodeReserve None C"
  using reserve_is_max_minus_size [of C s] hist_max_ge [of s C] by simp

lemma node_max_is_hist_max:
  assumes "chain_ok C s"
  shows "(case PrceVERIGetPrevReplace C of Some r \<Rightarrow> sint (cbMaxSize r) | None \<Rightarrow> s) = hist_max C s"
  using assms by (induction C s rule: chain_ok.induct) (auto simp: Let_def)

lemma CbVERIGetNodeMax_is_hist_max:
  "chain_ok C s \<Longrightarrow> PrceVERIGetPrevReplace C \<noteq> None \<Longrightarrow> CbVERIGetNodeMax C = hist_max C s"
  by (induction C s rule: chain_ok.induct) (auto simp: Let_def split: if_splits)

lemma sint16 [simp]: "- 32768 \<le> d \<Longrightarrow> d < 32768 \<Longrightarrow> sint (word_of_int d :: u16) = d"
  by (rule sint_diff16)

lemma sint16_nat [simp]: "n < 32768 \<Longrightarrow> sint (word_of_nat n :: u16) = int n"
  using sint16 [of "int n"] by simp

text \<open>A new version of a replace, before the node changes.\<close>

lemma chain_ok_setup:
  assumes "chain_ok C (Cb d)" "FOperReplace prce" "\<not> fCommitted prce" "\<not> fRolledBack prce"
  shows "chain_ok (VERISetupInsertedDMLRCE d C prce # C) (Cb d)"
    "CbVERGetNodeReserve None (VERISetupInsertedDMLRCE d C prce # C) = CbVERGetNodeReserve None C"
proof -
  define r where "r = VERISetupInsertedDMLRCE d C prce"
  note range = chain_ok_range [OF assms(1)]
  have m: "sint (case PrceVERIGetPrevReplace C of Some q \<Rightarrow> cbMaxSize q | None \<Rightarrow> (word_of_int (Cb d) :: u16)) = hist_max C (Cb d)"
    using node_max_is_hist_max [OF assms(1)] range by (cases "PrceVERIGetPrevReplace C") simp_all
  have r: "FOperReplace r" "\<not> fCommitted r" "\<not> fRolledBack r" "rgbBeforeImage r = d" "sint (cbDelta r) = 0"
    "sint (cbMaxSize r) = hist_max C (Cb d)"
    using assms(2-4) m by (simp_all add: r_def VERISetupInsertedDMLRCE_def FOperReplace_def)
  have "max (Cb d) (hist_max C (Cb d)) = hist_max C (Cb d)" using hist_max_ge [of "Cb d" C] by simp
  then show "chain_ok (VERISetupInsertedDMLRCE d C prce # C) (Cb d)" using r assms(1) range by (simp add: r_def [symmetric] Let_def)
  show "CbVERGetNodeReserve None (VERISetupInsertedDMLRCE d C prce # C) = CbVERGetNodeReserve None C"
    using r by (simp add: r_def [symmetric])
qed

text \<open>The size of the node changes.\<close>

lemma chain_ok_adjust:
  fixes prce :: RCE and old new :: int and fUpd :: bool and p :: CPAGE
  assumes ok: "chain_ok (prce # C) old" and prce: "FOperReplace prce" "\<not> fCommitted prce" "old = Cb (rgbBeforeImage prce)"
    and new: "0 \<le> new" "new < 32768"
  defines "r \<equiv> fst (VERSetCbAdjust prce new old fUpd p)"
  shows "chain_ok (r # C) new" "oper r = oper prce" "fCommitted r = fCommitted prce" "ppib r = ppib prce"
    "rgbBeforeImage r = rgbBeforeImage prce" "fRolledBack r = fRolledBack prce"
    "sint (cbDelta r) = (max new (hist_max C old) - new) - (hist_max C old - old)"
proof -
  define M where "M = hist_max C old"
  have c: "chain_ok C old" "\<not> fRolledBack prce" "sint (cbMaxSize prce) = M" "sint (cbDelta prce) = 0" "old \<le> M"
    using ok prce hist_max_ge [of old C] by (simp_all add: M_def Let_def)
  note range = chain_ok_range [OF c(1)] hist_max_less [OF c(1), folded M_def]
  show same: "oper r = oper prce" "fCommitted r = fCommitted prce" "ppib r = ppib prce" "rgbBeforeImage r = rgbBeforeImage prce"
    "fRolledBack r = fRolledBack prce"
    by (simp_all add: r_def VERSetCbAdjust_def Let_def)
  have v: "sint (cbMaxSize r) = max new M" "sint (cbDelta r) = (max new M - new) - (M - old)"
  proof -
    define D where "D = (if new > M then M - old else new - old)"
    have z: "cbDelta prce = 0" using arg_cong [OF c(4), of "word_of_int :: int \<Rightarrow> u16"] by simp
    have r: "cbMaxSize r = (if new > M then word_of_int new else cbMaxSize prce)" "cbDelta r = word_of_int (- D)"
      by (simp_all add: r_def VERSetCbAdjust_def Let_def c(3) z D_def)
    have D: "- 32768 \<le> - D" "- D < 32768" using c(5) range new by (auto simp: D_def)
    show "sint (cbMaxSize r) = max new M" using new c(3) by (auto simp: r(1) max_def)
    show "sint (cbDelta r) = (max new M - new) - (M - old)"
      unfolding r(2) sint16 [OF D] by (auto simp: D_def max_def)
  qed
  show "chain_ok (r # C) new" using c new same prce v
    by (simp add: FOperReplace_def M_def Let_def)
  show "sint (cbDelta r) = (max new (hist_max C old) - new) - (hist_max C old - old)"
    using v(2) by (simp add: M_def)
qed

end
