(* ===== verification/Node_Log.thy ===== *)
theory Node_Log
  imports Ver_Space
begin

text \<open>
  The operations of the node layer that are logged and versioned (\<open>src/ese/node.cxx\<close>), and the undo of a replace
  (\<open>src/ese/ver.cxx\<close>).  The log is an argument: for a record and a page it answers an error or marks the page dirty;
  the log position it returns is kept with the buffer of the page and not in the page.  Each operation gets the
  choices the code reads off \<open>dirflag\<close> and the database: \<open>fVersion\<close>, \<open>fLogging\<close>, \<open>fDirtying\<close>.  An assertion that has no effect in
  the retail build is left out.
\<close>

subsection \<open>The log\<close>

datatype LOGREC = lrInsert "bytes KEYDATAFLAGS" | lrReplace bytes bytes | lrFlagInsert "bytes KEYDATAFLAGS"
  | lrFlagInsertAndReplaceData "bytes KEYDATAFLAGS" | lrDelta "bytes BOOKMARK" int int | lrFlagDelete | lrDelete
  | lrUndoInfo | lrUndo | lrScrub

datatype DIFFS = fDIRLogFull | fDIRLogColumnDiffs | fDIRLogChunkDiffs

text \<open>The log with the routines that compute the difference of two records, which answer whether it overflowed and its size.\<close>

record LOGENV =
  ErrLG :: "LOGREC \<Rightarrow> CPAGE \<Rightarrow> NDERR \<times> CPAGE"
  Dirty :: "CPAGE \<Rightarrow> CPAGE"
  LGSetColumnDiffs :: "bytes \<Rightarrow> bytes \<Rightarrow> bool \<times> int"
  LGSetLVDiffs :: "bytes \<Rightarrow> bytes \<Rightarrow> bool \<times> int"
  fDiffBuffer :: bool
  cbRecordMin :: int
  CbRecordMost :: int
  cbLVChunkMost :: int

definition log_or_dirty :: "LOGENV \<Rightarrow> bool \<Rightarrow> bool \<Rightarrow> LOGREC \<Rightarrow> CPAGE \<Rightarrow> NDERR \<times> CPAGE" where
  "log_or_dirty lg fLogging fDirtying lr p =
     (if fLogging then ErrLG lg lr p
      else (JET_errSuccess, if fDirtying then Dirty lg p else p))"

subsection \<open>Insertion\<close>

definition ErrNDInsert :: "VERENV \<Rightarrow> LOGENV \<Rightarrow> bool \<Rightarrow> bool \<Rightarrow> int \<Rightarrow> DATA KEYDATAFLAGS \<Rightarrow> CPAGE \<Rightarrow>
    (NDERR \<times> CPAGE \<times> DATA KEYDATAFLAGS option) option" where
  "ErrNDInsert env lg fVersion fLogging iline kdf p =
     (let cbReq = CbNDNodeSizeCompressed kdf
      in Option.bind
           (if cbReq > uint (CbPageFree p) - uint (cbUncommittedFree (pghdr p)) then map_option snd (FNDFreePageSpace env cbReq True p)
            else Some p) (\<lambda>p.
         if cbReq > uint (CbPageFree p) - uint (cbUncommittedFree (pghdr p)) then Some (JET_errDatabaseCorrupted, p, None)
         else if iline < 0 \<or> iline > Clines p then Some (JET_errBadLineCount, p, None)
         else
           (case log_or_dirty lg fLogging True (lrInsert (read_kdf p kdf)) p of
              (err, p) \<Rightarrow>
                if err \<noteq> JET_errSuccess then Some (err, p, None)
                else
                  let kdf = KDF (kdf_key kdf) (kdf_data kdf) (if fVersion then kdf_fFlags kdf OR fNDVersion else kdf_fFlags kdf)
                  in Option.bind (NDInsert iline kdf p) (\<lambda>(p, kdfCurr).
                     map_option (\<lambda>kdfCurr. (JET_errSuccess, p, Some kdfCurr)) (NDIGetKeydataflags iline p)))))"

subsection \<open>Replacement\<close>

text \<open>The error, whether the new record is the old one, and the page.\<close>

definition ErrNDILogReplace :: "LOGENV \<Rightarrow> DIFFS \<Rightarrow> bytes \<Rightarrow> bytes \<Rightarrow> CPAGE \<Rightarrow> NDERR \<times> bool \<times> CPAGE" where
  "ErrNDILogReplace lg diffs data dataOld p =
     (let logged = (case ErrLG lg (lrReplace dataOld data) p of (err, p) \<Rightarrow> (err, False, p))
      in case diffs of
           fDIRLogFull \<Rightarrow> logged
         | fDIRLogColumnDiffs \<Rightarrow>
             if Cb data < cbRecordMin lg \<or> Cb data > CbRecordMost lg then (JET_errInternalError, False, p)
             else if fDiffBuffer lg \<and> snd (LGSetColumnDiffs lg data dataOld) = 0 \<and> \<not> fst (LGSetColumnDiffs lg data dataOld)
             then (JET_errSuccess, True, p)
             else logged
         | fDIRLogChunkDiffs \<Rightarrow>
             if Cb data > cbLVChunkMost lg then (JET_errInternalError, False, p)
             else if fDiffBuffer lg \<and> snd (LGSetLVDiffs lg data dataOld) = 0 \<and> \<not> fst (LGSetLVDiffs lg data dataOld)
             then (JET_errSuccess, True, p)
             else logged)"

text \<open>
  The check for space the replacements share: whether \<open>cbReq\<close> more bytes may be used, from the free space or from what
  the node itself has reserved; the sum is a \<open>ULONG\<close>.
\<close>

definition FNDRoomToGrow :: "VERENV \<Rightarrow> bytes KEYDATAFLAGS \<Rightarrow> int \<Rightarrow> CPAGE \<Rightarrow> (bool \<times> CPAGE) option" where
  "FNDRoomToGrow env kdfCurr cbReq p =
     (if cbReq > 0 then
        Option.bind (FNDFreePageSpace env cbReq True p) (\<lambda>(fSpace, p).
        if fSpace then Some (True, p)
        else
          let cbReserved = CbNDReservedSizeOfNode env kdfCurr
          in Some (\<not> cbReq > uint (word_of_int (cbReserved + uint (CbPageFree p) - uint (cbUncommittedFree (pghdr p))) :: u32), p))
      else Some (True, p))"

text \<open>
  The replacement proper: the new line is built from the key of the cursor, the prefix the node has now and the new data;
  the version of the replace is told the new size, before the line grows or after it has shrunk.
\<close>

definition NDReplaceData :: "int \<Rightarrow> bytes KEY \<Rightarrow> bytes \<Rightarrow> DATA KEYDATAFLAGS \<Rightarrow> bool \<Rightarrow> RCE option \<Rightarrow> CPAGE \<Rightarrow> (CPAGE \<times> RCE option) option" where
  "NDReplaceData iline key data kdfCurr fVersion prceReplace p =
     (let cbDataOld = DATA_Cb (kdf_data kdfCurr);
          cbReq = Cb data - cbDataOld;
          kdf = KDF (KEY (OffPage (prefix key)) (OffPage (suffix key))) (OffPage data)
                  (if fVersion then kdf_fFlags kdfCurr OR fNDVersion else kdf_fFlags kdfCurr);
          (rgdata, fFlagsLine) = CdataNDIPrefixAndKeydataflagsToDataflags kdf (word_of_int (DATA_Cb (prefix (kdf_key kdfCurr))));
          (prceReplace, p) =
            (case prceReplace of
               Some prce \<Rightarrow> if cbReq > 0 then (case VERSetCbAdjust prce (Cb data) cbDataOld True p of (prce, p) \<Rightarrow> (Some prce, p))
                            else (prceReplace, p)
             | None \<Rightarrow> (prceReplace, p))
      in Option.bind (Replace iline rgdata fFlagsLine p) (\<lambda>p.
         Some (case prceReplace of
                 Some prce \<Rightarrow> if cbReq < 0 then (case VERSetCbAdjust prce (Cb data) cbDataOld True p of (prce, p) \<Rightarrow> (p, Some prce))
                              else (p, prceReplace)
               | None \<Rightarrow> (p, prceReplace))))"

definition ErrNDReplace :: "VERENV \<Rightarrow> LOGENV \<Rightarrow> DIFFS \<Rightarrow> bool \<Rightarrow> bool \<Rightarrow> bool \<Rightarrow> int \<Rightarrow> bytes KEY \<Rightarrow> bytes \<Rightarrow> RCE option \<Rightarrow> CPAGE \<Rightarrow>
    (NDERR \<times> CPAGE \<times> RCE option) option" where
  "ErrNDReplace env lg diffs fVersion fLogging fDirtying iline keyCurr data prceReplace p =
     Option.bind (NDIGetKeydataflags iline p) (\<lambda>kdfCurr.
     Option.bind (FNDRoomToGrow env (read_kdf p kdfCurr) (Cb data - DATA_Cb (kdf_data kdfCurr)) p) (\<lambda>(fRoom, p).
     if \<not> fRoom then Some (errPMOutOfPageSpace, p, prceReplace)
     else
       (case (if fLogging then ErrNDILogReplace lg diffs data (data_bytes (buf p) (kdf_data kdfCurr)) p
              else (JET_errSuccess, False, if fDirtying then Dirty lg p else p)) of
          (err, fEmpty, p) \<Rightarrow>
            if err \<noteq> JET_errSuccess then Some (err, p, prceReplace)
            else if fEmpty then Some (JET_errSuccess, p, map_option (\<lambda>prce. prce\<lparr>fEmptyDiff := True\<rparr>) prceReplace)
            else
              Option.bind (NDReplaceData iline keyCurr data kdfCurr fVersion prceReplace p) (\<lambda>(p, prceReplace).
              map_option (\<lambda>_. (JET_errSuccess, p, prceReplace)) (NDIGetKeydataflags iline p)))))"

subsection \<open>Flags\<close>

definition ErrNDFlagInsert :: "LOGENV \<Rightarrow> bool \<Rightarrow> bool \<Rightarrow> bool \<Rightarrow> int \<Rightarrow> CPAGE \<Rightarrow> (NDERR \<times> CPAGE) option" where
  "ErrNDFlagInsert lg fVersion fLogging fDirtying iline p =
     Option.bind (NDIGetKeydataflags iline p) (\<lambda>kdfCurr.
     (case log_or_dirty lg fLogging fDirtying (lrFlagInsert (read_kdf p kdfCurr)) p of
        (err, p) \<Rightarrow>
          if err \<noteq> JET_errSuccess then Some (err, p)
          else
            Option.bind (NDIResetFlag iline fNDDeleted p) (\<lambda>p.
            map_option (Pair JET_errSuccess) (if fVersion then NDISetFlag iline fNDVersion p else Some p))))"

definition ErrNDFlagInsertAndReplaceData :: "VERENV \<Rightarrow> LOGENV \<Rightarrow> bool \<Rightarrow> bool \<Rightarrow> int \<Rightarrow> bytes KEYDATAFLAGS \<Rightarrow> RCE option \<Rightarrow> CPAGE \<Rightarrow>
    (NDERR \<times> CPAGE \<times> RCE option) option" where
  "ErrNDFlagInsertAndReplaceData env lg fVersion fLogging iline kdf prceReplace p =
     Option.bind (NDIGetKeydataflags iline p) (\<lambda>kdfCurr.
     Option.bind (FNDRoomToGrow env (read_kdf p kdfCurr) (Cb (kdf_data kdf) - DATA_Cb (kdf_data kdfCurr)) p) (\<lambda>(fRoom, p).
     if \<not> fRoom then Some (errPMOutOfPageSpace, p, prceReplace)
     else
       (case log_or_dirty lg fLogging True (lrFlagInsertAndReplaceData kdf) p of
          (err, p) \<Rightarrow>
            if err \<noteq> JET_errSuccess then Some (err, p, prceReplace)
            else
              Option.bind (NDReplaceData iline (kdf_key kdf) (kdf_data kdf) kdfCurr fVersion prceReplace p) (\<lambda>(p, prceReplace).
              map_option (\<lambda>p. (JET_errSuccess, p, prceReplace)) (NDIResetFlag iline fNDDeleted p)))))"

text \<open>The statistics of the thread are the pair of \<open>cNodesFlagDeleted\<close> and \<open>cbNodesFlagDeleted\<close>.\<close>

definition ErrNDFlagDelete :: "LOGENV \<Rightarrow> bool \<Rightarrow> bool \<Rightarrow> bool \<Rightarrow> int \<Rightarrow> int \<times> int \<Rightarrow> CPAGE \<Rightarrow> (NDERR \<times> CPAGE \<times> (int \<times> int)) option" where
  "ErrNDFlagDelete lg fVersion fLogging fDirtying iline threadstats p =
     (let fl = (if fVersion then fNDDeleted OR fNDVersion else fNDDeleted)
      in case log_or_dirty lg fLogging fDirtying lrFlagDelete p of
           (err, p) \<Rightarrow>
             if err \<noteq> JET_errSuccess then Some (err, p, threadstats)
             else
               Option.bind (NDISetFlag iline fl p) (\<lambda>p.
               map_option (\<lambda>kdf. (JET_errSuccess, p, (fst threadstats + 1, snd threadstats + DATA_Cb (prefix (kdf_key kdf)) +
                   DATA_Cb (suffix (kdf_key kdf)) + DATA_Cb (kdf_data kdf)))) (NDIGetKeydataflags iline p)))"

definition ErrNDDelete :: "LOGENV \<Rightarrow> bool \<Rightarrow> int \<Rightarrow> CPAGE \<Rightarrow> NDERR \<times> CPAGE" where
  "ErrNDDelete lg fLogging iline p =
     (case log_or_dirty lg fLogging True lrDelete p of
        (err, p) \<Rightarrow> if err \<noteq> JET_errSuccess then (err, p) else (JET_errSuccess, NDDelete iline p))"

text \<open>
  The bit that says a node is versioned is only a hint and is taken away without a log record; the page is only marked untidy.  \<open>fUpgraded\<close> is whether the latch of the page
  could be upgraded.
\<close>

definition NDDeferResetNodeVersion :: "LOGENV \<Rightarrow> bool \<Rightarrow> int \<Rightarrow> CPAGE \<Rightarrow> CPAGE option" where
  "NDDeferResetNodeVersion lg fUpgraded iline p =
     (if fUpgraded then map_option (Dirty lg) (NDIResetFlag iline fNDVersion p) else Some p)"

subsection \<open>Scrubbing\<close>

definition ErrNDScrubOneUsedPage :: "LOGENV \<Rightarrow> (bytes \<Rightarrow> u8 \<Rightarrow> bytes) \<Rightarrow> bool \<Rightarrow> SCRUBOPER list \<Rightarrow> CPAGE \<Rightarrow> (NDERR \<times> CPAGE) option" where
  "ErrNDScrubOneUsedPage lg ScrubLV fLogging rgscrubOper p =
     (case log_or_dirty lg fLogging True lrScrub p of
        (err, p) \<Rightarrow>
          if err \<noteq> JET_errSuccess then Some (err, p)
          else map_option (Pair JET_errSuccess) (NDScrubOneUsedPage ScrubLV rgscrubOper p))"

definition ErrNDScrubOneUnusedPage :: "LOGENV \<Rightarrow> bool \<Rightarrow> CPAGE \<Rightarrow> (NDERR \<times> CPAGE) option" where
  "ErrNDScrubOneUnusedPage lg fLogging p =
     (case log_or_dirty lg fLogging True lrScrub p of
        (err, p) \<Rightarrow>
          if err \<noteq> JET_errSuccess then Some (err, p)
          else map_option (Pair JET_errSuccess) (NDScrubOneUnusedPage p))"

subsection \<open>Visibility\<close>

text \<open>
  Whether a cursor sees a node.  What the versions of the node say is an argument here: \<open>VERAccessNode\<close> for \<open>ErrVERAccessNode\<close>
  and \<open>VERCheck\<close> for \<open>VsVERCheck\<close>; \<open>fPIBDirty\<close> is the isolation level of the session.
\<close>

datatype NS = nsNone | nsDatabase | nsVersionedUpdate | nsVersionedInsert | nsUncommittedVerInDB | nsCommittedVerInDB

datatype VS = vsNone | vsCommitted | vsUncommittedByCaller | vsUncommittedByOther

definition ErrNDVisibleToCursor :: "VERENV \<Rightarrow> (bytes BOOKMARK \<Rightarrow> NDERR \<times> NS) \<Rightarrow> bool \<Rightarrow> bytes KEYDATAFLAGS \<Rightarrow> NDERR \<times> (bool \<times> NS) option" where
  "ErrNDVisibleToCursor env VERAccessNode fPIBDirty kdfCurr =
     (if FNDPossiblyVersioned env kdfCurr \<and> \<not> fPIBDirty then
        (case VERAccessNode (NDGetBookmarkFromKDF kdfCurr (fFUCBUnique env)) of
           (err, ns) \<Rightarrow>
             if err \<noteq> JET_errSuccess then (err, None)
             else
               (JET_errSuccess, Some
                 (case ns of
                    nsVersionedUpdate \<Rightarrow> True
                  | nsDatabase \<Rightarrow> \<not> FNDDeleted kdfCurr
                  | nsUncommittedVerInDB \<Rightarrow> \<not> FNDDeleted kdfCurr
                  | nsCommittedVerInDB \<Rightarrow> \<not> FNDDeleted kdfCurr
                  | _ \<Rightarrow> False, ns)))
      else (JET_errSuccess, Some (\<not> FNDDeleted kdfCurr, nsDatabase)))"

definition FVERPotThere :: "VS \<Rightarrow> bool \<Rightarrow> bool" where
  "FVERPotThere vs fDelete \<longleftrightarrow> \<not> fDelete \<or> vs = vsUncommittedByOther"

definition FNDPotVisibleToCursor :: "VERENV \<Rightarrow> (bytes BOOKMARK \<Rightarrow> VS) \<Rightarrow> bool \<Rightarrow> bytes KEYDATAFLAGS \<Rightarrow> bool" where
  "FNDPotVisibleToCursor env VERCheck fPIBDirty kdfCurr =
     (let fVisible = (\<not> FNDDeleted kdfCurr)
      in if FNDVersion kdfCurr \<and> \<not> fPIBDirty
         then FVERPotThere (VERCheck (NDGetBookmarkFromKDF kdfCurr (fFUCBUnique env))) (\<not> fVisible)
         else fVisible)"

subsection \<open>Escrow updates\<close>

text \<open>
  \<open>ErrNDDelta\<close> adds to a number of \<open>n\<close> bytes of the data (4 for \<open>LONG\<close>, 8 for \<open>LONGLONG\<close>), little endian, in place; the sum wraps
  around.  The old value is read as a signed number.
\<close>

fun le_value :: "bytes \<Rightarrow> int" where
  "le_value [] = 0"
| "le_value (x # xs) = uint x + 256 * le_value xs"

fun le_bytes :: "nat \<Rightarrow> int \<Rightarrow> bytes" where
  "le_bytes 0 x = []"
| "le_bytes (Suc n) x = word_of_int x # le_bytes n (x div 256)"

definition ErrNDDelta :: "LOGENV \<Rightarrow> bool \<Rightarrow> bool \<Rightarrow> bool \<Rightarrow> bool \<Rightarrow> nat \<Rightarrow> int \<Rightarrow> int \<Rightarrow> int \<Rightarrow> CPAGE \<Rightarrow> (NDERR \<times> CPAGE \<times> int) option" where
  "ErrNDDelta lg fUnique fVersion fLogging fDirtying n iline cbOffset tDelta p =
     Option.bind (NDIGetKeydataflags iline p) (\<lambda>kdf.
     (case kdf_data kdf of
        OffPage bs \<Rightarrow> None
      | OnPage pv cb \<Rightarrow>
          Option.bind (NDIGetBookmark iline fUnique p) (\<lambda>bookmark.
          let tOldValue = le_value (load_bytes (buf p) (pv + cbOffset) (int n))
          in case log_or_dirty lg fLogging fDirtying (lrDelta bookmark cbOffset tDelta) p of
               (err, p) \<Rightarrow>
                 if err \<noteq> JET_errSuccess then Some (err, p, signed_take_bit (8 * n - 1) tOldValue)
                 else
                   let p = upd_buf (store_bytes (pv + cbOffset)
                             (le_bytes n (le_value (load_bytes (buf p) (pv + cbOffset) (int n)) + tDelta))) p
                   in map_option (\<lambda>p. (JET_errSuccess, p, signed_take_bit (8 * n - 1) tOldValue))
                        (if fVersion then NDISetFlag iline fNDVersion p else Some p))))"

subsection \<open>Rolling a replace back\<close>

text \<open>
  \<open>ErrVERIUndoReplacePhysical\<close>: the reserved bytes of the version are given back to the page, the before image is put back
  by \<open>ErrNDReplace\<close> without logging, versioning and marking the page, whose error is not looked at.
\<close>

definition ErrVERIUndoReplacePhysical :: "VERENV \<Rightarrow> LOGENV \<Rightarrow> RCE \<Rightarrow> int \<Rightarrow> bytes KEY \<Rightarrow> CPAGE \<Rightarrow> (NDERR \<times> CPAGE) option" where
  "ErrVERIUndoReplacePhysical env lg prce iline keyCurr p =
     (if fEmptyDiff prce then Some (JET_errSuccess, p)
      else
        (case (if fUndoInfo prce then ErrLG lg lrUndoInfo p else (JET_errSuccess, p)) of
           (err, p) \<Rightarrow>
             if err \<noteq> JET_errSuccess then Some (err, p)
             else
               (case ErrLG lg lrUndo p of
                  (err, p) \<Rightarrow>
                    if err \<noteq> JET_errSuccess then Some (err, p)
                    else
                      let cbD = sint (cbDelta prce);
                          p = (if cbD > 0 then ReclaimUncommittedFreed cbD p else p)
                      in map_option (\<lambda>(_, p, _). (JET_errSuccess, if cbD < 0 then AddUncommittedFreed (- cbD) p else p))
                           (ErrNDReplace env lg fDIRLogFull False False False iline keyCurr (rgbBeforeImage prce) None p))))"

end
