(* ===== verification/Node_Space.thy ===== *)
theory Node_Space
  imports Node_Log
begin

text \<open>
  The space accounting of replaces: a replace that is let through keeps the reserved space within the free space of the page,
  and with it the undo of a replace always has the room it needs.
\<close>

subsection \<open>Changes of the page that do not concern its lines\<close>

definition same_lines :: "CPAGE \<Rightarrow> CPAGE \<Rightarrow> bool" where
  "same_lines p q \<longleftrightarrow> same_obj p q \<and> buf q = buf p \<and> cbFree (pghdr q) = cbFree (pghdr p) \<and> ibMicFree (pghdr q) = ibMicFree (pghdr p) \<and>
     itagState (pghdr q) = itagState (pghdr p) \<and> fFlags (pghdr q) = fFlags (pghdr p)"

lemma same_lines_refl [simp]: "same_lines p p"
  by (simp add: same_lines_def)

lemma same_lines_trans: "same_lines p q \<Longrightarrow> same_lines q r \<Longrightarrow> same_lines p r"
  using same_obj_trans [of p q r] by (simp add: same_lines_def)

lemma same_lines_uncommitted [simp]:
  "same_lines p (SetCbUncommittedFree n q) = same_lines p q" "same_lines p (AddUncommittedFreed n q) = same_lines p q"
  "same_lines p (ReclaimUncommittedFreed n q) = same_lines p q"
  by (simp_all add: same_lines_def SetCbUncommittedFree_def AddUncommittedFreed_def ReclaimUncommittedFreed_def)

lemma same_lines_tags:
  assumes "same_lines p q"
  shows "tags q = tags p" "lines q = lines p" "data_lines q = data_lines p" "CbFree q = CbFree p" "CbPageFree q = CbPageFree p"
    "Clines q = Clines p" "page_ok q = page_ok p" "FIsNormalSized q = FIsNormalSized p"
proof -
  have o: "same_obj p q" and b: "buf q = buf p" and h: "cbFree (pghdr q) = cbFree (pghdr p)" "ibMicFree (pghdr q) = ibMicFree (pghdr p)"
    "itagState (pghdr q) = itagState (pghdr p)" using assms by (simp_all add: same_lines_def)
  note f = same_obj_fields [OF o]
  show t: "tags q = tags p" by (rule tags_frame) (use f b in simp_all)
  have "line_of q t = line_of p t" for t using f b by (simp add: line_of_def)
  then show l: "lines q = lines p" by (simp add: lines_def t)
  show "data_lines q = data_lines p" by (simp add: data_lines_def l f)
  show "CbFree q = CbFree p" "CbPageFree q = CbPageFree p" "Clines q = Clines p" "FIsNormalSized q = FIsNormalSized p"
    using f h by (simp_all add: CbFree_def CbPageFree_def Clines_def FIsNormalSized_def)
  have "tags_ok q = tags_ok p" "free_ok q = free_ok p" using f h t by (simp_all add: tags_ok_def free_ok_def)
  then show "page_ok q = page_ok p"
    using shape_ok_obj [OF o] itags_ok_obj [OF o h(3)] by (simp add: page_ok_def)
qed

lemma same_lines_nodes:
  assumes "same_lines p q"
  shows "node_prefix q = node_prefix p" "nodes q = nodes p" "nodes_ok q = nodes_ok p" "read_kdf q = read_kdf p"
    "NDIGetKeydataflags iline q = NDIGetKeydataflags iline p" "NDIGetBookmark iline u q = NDIGetBookmark iline u p"
proof -
  note t = same_lines_tags [OF assms]
  have o: "same_obj p q" and b: "buf q = buf p" and h: "fFlags (pghdr q) = fFlags (pghdr p)" using assms by (simp_all add: same_lines_def)
  note f = same_obj_fields [OF o]
  have k: "FRootPage q = FRootPage p" "FSpaceTree q = FSpaceTree p" using page_kind_cong [OF h] by simp_all
  show np: "node_prefix q = node_prefix p" using k t by (simp add: node_prefix_def)
  show "nodes q = nodes p" "nodes_ok q = nodes_ok p" using np t f by (simp_all add: nodes_def nodes_ok_def page_inv_def)
  show r: "read_kdf q = read_kdf p" by (simp add: read_kdf_def b fun_eq_iff)
  have g: "GetPtr_NoChecks itag q = GetPtr_NoChecks itag p" for itag
    using f b by (simp add: GetPtr_NoChecks_def TAG_Cb_def TAG_Ib_def TAG_FFlags_def Let_def)
  have pf: "PrefixFromHeader pv c q = PrefixFromHeader pv c p" for pv c using k by (simp add: PrefixFromHeader_def)
  have ln: "NDILineToKeydataflags chk l pv q = NDILineToKeydataflags chk l pv p" for chk l pv
    unfolding NDILineToKeydataflags_def b ..
  show n: "NDIGetKeydataflags iline q = NDIGetKeydataflags iline p"
    unfolding NDIGetKeydataflags_def f(9) g ln pf ..
  show "NDIGetBookmark iline u q = NDIGetBookmark iline u p" by (simp add: NDIGetBookmark_def n r)
qed

text \<open>What the log and the marking of a page may do to it: its lines and its count of uncommitted space stay.\<close>

definition keeps_page :: "(CPAGE \<Rightarrow> CPAGE) \<Rightarrow> bool" where
  "keeps_page f \<longleftrightarrow> (\<forall>p. same_lines p (f p) \<and> cbUncommittedFree (pghdr (f p)) = cbUncommittedFree (pghdr p))"

definition log_ok :: "LOGENV \<Rightarrow> bool" where
  "log_ok lg \<longleftrightarrow> (\<forall>lr. keeps_page (\<lambda>p. snd (ErrLG lg lr p))) \<and> keeps_page (Dirty lg)"

definition unc :: "CPAGE \<Rightarrow> int" where
  "unc p = uint (cbUncommittedFree (pghdr p))"

lemma page_free: "FIsNormalSized p \<Longrightarrow> CbPageFree p = CbFree p"
  by (simp add: FIsNormalSized_def CbPageFree_def CbFree_def CbAdjustForPage_def)

lemma unc_set:
  "0 \<le> n \<Longrightarrow> n < 65536 \<Longrightarrow> unc (SetCbUncommittedFree n p) = n"
  "0 \<le> unc p + n \<Longrightarrow> unc p + n < 65536 \<Longrightarrow> unc (AddUncommittedFreed n p) = unc p + n"
  "0 \<le> unc p - n \<Longrightarrow> unc p - n < 65536 \<Longrightarrow> unc (ReclaimUncommittedFreed n p) = unc p - n"
  by (simp_all add: unc_def SetCbUncommittedFree_def AddUncommittedFreed_def ReclaimUncommittedFreed_def uint16_of_int
    del: of_int_add of_int_diff word_of_int_uint)

lemma unc_nonneg: "0 \<le> unc p"
  by (simp add: unc_def)


lemma ReorganizeData_unc: "ReorganizeData p = Some q \<Longrightarrow> unc q = unc p"
  by (auto simp: unc_def ReorganizeData_def Let_def dest!: ReorganizeLoop_pghdr split: option.splits if_splits prod.splits)

lemma FreeSpace_unc: "FreeSpace cb p = Some q \<Longrightarrow> unc q = unc p"
  by (auto simp: FreeSpace_def dest!: ReorganizeData_unc split: option.splits if_splits)

lemma ReplaceGrow_unc: "ReplaceGrow t cb p = Some q \<Longrightarrow> unc q = unc p"
  by (auto simp: ReplaceGrow_def Let_def unc_def dest!: FreeSpace_unc [unfolded unc_def] split: option.splits if_splits)

lemma Replace_unc: "Replace iline ds fl p = Some q \<Longrightarrow> unc q = unc p"
  unfolding Replace_def Replace_at_def
  by (auto simp: ReplaceInPlace_def Let_def unc_def dest!: ReplaceGrow_unc [unfolded unc_def] split: option.splits if_splits)

lemma ReplaceFlags_unc: "unc (ReplaceFlags iline fl p) = unc p"
  by (simp add: unc_def ReplaceFlags_def ReplaceFlags_at_def)

subsection \<open>Room to grow\<close>

lemma room_to_grow:
  assumes p: "FIsNormalSized p" and env: "\<not> fRecovering env" "fWARLatch env"
    and u: "CbNDUncommittedFree env p = Some u" "u \<le> unc p" "unc p \<le> uint (CbFree p)"
    and R: "R = CbNDReservedSizeOfNode env n" "0 \<le> R" "R \<le> u"
  obtains b q where "FNDRoomToGrow env n cbReq p = Some (b, q)" "same_lines p q" "u \<le> unc q" "unc q \<le> unc p"
    "b \<longrightarrow> cbReq \<le> 0 \<or> cbReq \<le> R + uint (CbFree p) - unc q" "\<not> b \<longrightarrow> 0 < cbReq \<and> R + uint (CbFree p) - unc q < cbReq"
proof -
  have u16: "0 \<le> u" "u < 65536" "unc p < 65536" "uint (CbFree p) < 65536"
    using R u(2) uint_lt2p [of "cbUncommittedFree (pghdr p)"] uint_lt2p [of "CbFree p"] by (simp_all add: unc_def)
  define pu where "pu = SetCbUncommittedFree u p"
  have pu: "same_lines p pu" "unc pu = u" using u16 by (simp_all add: pu_def unc_set)
  have f: "CbPageFree q = CbFree p" if "same_lines p q" for q
    using same_lines_tags [OF that] page_free [of q] page_free [of p] p by simp
  define room where "room q \<longleftrightarrow> \<not> cbReq > uint (word_of_int (R + uint (CbPageFree q) - uint (cbUncommittedFree (pghdr q))) :: u32)" for q
  have room: "room q \<longleftrightarrow> cbReq \<le> R + uint (CbFree p) - unc q" if "same_lines p q" "u \<le> unc q" "unc q \<le> unc p" for q
  proof -
    have "0 \<le> R + uint (CbFree p) - unc q" "R + uint (CbFree p) - unc q < 2 ^ 32" using that u R u16 unc_nonneg [of q] by simp_all
    then have "uint (word_of_int (R + uint (CbFree p) - unc q) :: u32) = R + uint (CbFree p) - unc q"
      by (simp add: take_bit_int_eq_self unsigned_of_int del: of_int_diff of_int_add word_of_int_uint)
    then show ?thesis unfolding room_def f [OF that(1)] unc_def [symmetric] by auto
  qed
  show thesis
  proof (cases "cbReq > 0")
    case False
    then show thesis using that [of True p] u by (simp add: FNDRoomToGrow_def)
  next
    case True
    have e: "FNDRoomToGrow env n cbReq p = Option.bind (FNDFreePageSpace env cbReq True p)
        (\<lambda>(fSpace, p). if fSpace then Some (True, p) else Some (room p, p))"
      using True unfolding FNDRoomToGrow_def R(1) [symmetric] room_def Let_def by simp
    have F: "FNDFreePageSpace env cbReq True p = Some
       (if uint (CbFree p) < cbReq then (False, p)
        else if cbReq > uint (CbFree p) - unc p then (if u = unc p then (False, p) else (cbReq \<le> uint (CbFree p) - u, pu))
        else (True, p))"
      using env u(1) f [OF pu(1)] f [OF same_lines_refl]
      by (simp add: FNDFreePageSpace_def FVERCheckUncommittedFreedSpace_def unc_def [symmetric] pu_def)
    have fits: "room p \<longrightarrow> cbReq \<le> 0 \<or> cbReq \<le> R + uint (CbFree p) - unc p" "\<not> room p \<longrightarrow> 0 < cbReq \<and> R + uint (CbFree p) - unc p < cbReq"
      "room pu \<longrightarrow> cbReq \<le> 0 \<or> cbReq \<le> R + uint (CbFree p) - unc pu" "\<not> room pu \<longrightarrow> 0 < cbReq \<and> R + uint (CbFree p) - unc pu < cbReq"
      using room [of p] room [of pu] pu u True by auto
    show thesis
    proof (cases "uint (CbFree p) < cbReq \<or> cbReq > uint (CbFree p) - unc p \<and> u = unc p")
      case True
      then have "FNDRoomToGrow env n cbReq p = Some (room p, p)" unfolding e F by auto
      then show thesis using that [of "room p" p] fits u by simp
    next
      case no: False
      show thesis
      proof (cases "cbReq > uint (CbFree p) - unc p")
        case True
        then have "FNDRoomToGrow env n cbReq p = Some (if cbReq \<le> uint (CbFree p) - u then (True, pu) else (room pu, pu))"
          using no unfolding e F by auto
        then show thesis using that [of "cbReq \<le> uint (CbFree p) - u \<or> room pu" pu] fits pu u R(2) by (auto split: if_splits)
      next
        case False
        then have "FNDRoomToGrow env n cbReq p = Some (True, p)" using no unfolding e F by auto
        then show thesis using that [of True p] u R(2) False by simp
      qed
    qed
  qed
qed


subsection \<open>The new size of a node and the count of the page\<close>

lemma VERSet_same_lines: "same_lines p (snd (VERSetCbAdjust prce new old fUpd p))"
  by (simp add: VERSetCbAdjust_def Let_def)

lemma VERSet_cong:
  "fst (VERSetCbAdjust prce new old fUpd p) = fst (VERSetCbAdjust prce new old fUpd q)"
  "unc p = unc q \<Longrightarrow> unc (snd (VERSetCbAdjust prce new old fUpd p)) = unc (snd (VERSetCbAdjust prce new old fUpd q))"
  by (simp_all add: VERSetCbAdjust_def Let_def unc_def AddUncommittedFreed_def ReclaimUncommittedFreed_def)

lemma VERSet_page:
  fixes prce :: RCE and p :: CPAGE
  assumes ok: "chain_ok (prce # C) old" and prce: "FOperReplace prce" "\<not> fCommitted prce" "old = Cb (rgbBeforeImage prce)"
    and new: "0 \<le> new" "new < 32768"
    and range: "0 \<le> unc p + ((max new (hist_max C old) - new) - (hist_max C old - old))"
      "unc p + ((max new (hist_max C old) - new) - (hist_max C old - old)) < 65536"
  defines "q \<equiv> snd (VERSetCbAdjust prce new old True p)"
  shows "unc q = unc p + ((max new (hist_max C old) - new) - (hist_max C old - old))"
proof -
  define M where "M = hist_max C old"
  have M: "sint (cbMaxSize prce) = M" using ok prce hist_max_ge [of old C] by (simp add: M_def Let_def)
  define D where "D = (if new > M then M - old else new - old)"
  have q: "q = (if D > 0 then ReclaimUncommittedFreed D p else if D < 0 then AddUncommittedFreed (- D) p else p)"
    by (simp add: q_def VERSetCbAdjust_def Let_def M D_def)
  have e: "- D = (max new M - new) - (M - old)" by (auto simp: D_def max_def)
  have r: "0 \<le> unc p - D" "unc p - D < 65536" using range e by (simp_all add: M_def)
  have "unc q = unc p - D" using r by (auto simp: q unc_set)
  then show "unc q = unc p + ((max new (hist_max C old) - new) - (hist_max C old - old))" using e by (simp add: M_def)
qed

lemma flags_settle:
  fixes w :: u16
  assumes "w AND 7 = w"
  shows "w AND fNDCompressed = 0 \<Longrightarrow> (w AND NOT fNDCompressed) AND 7 = w" "w AND fNDCompressed \<noteq> 0 \<Longrightarrow> (w OR fNDCompressed) AND 7 = w"
    "w AND fNDCompressed = 0 \<Longrightarrow> (w OR fNDCompressed) AND NOT fNDCompressed = w" "w AND fNDCompressed \<noteq> 0 \<Longrightarrow> w OR fNDCompressed = w"
proof -
  have "w \<in> {0, 1, 2, 3, 4, 5, 6, 7}"
  proof -
    have m: "w AND mask 3 = w" using assms by (simp add: mask_eq_exp_minus_1)
    have "uint (w AND mask 3) < 8" using uint_and_mask [of w 3] by simp
    then have "unat w < 8" unfolding m by (simp only: uint_nat of_nat_less_numeral_iff)
    moreover have "w = of_nat (unat w)" by simp
    ultimately obtain k where k: "k < 8" "w = of_nat k" by blast
    then have "k \<in> {0, 1, 2, 3, 4, 5, 6, 7}" by auto
    then show ?thesis using k(2) by auto
  qed
  then show "w AND fNDCompressed = 0 \<Longrightarrow> (w AND NOT fNDCompressed) AND 7 = w" "w AND fNDCompressed \<noteq> 0 \<Longrightarrow> (w OR fNDCompressed) AND 7 = w"
    "w AND fNDCompressed = 0 \<Longrightarrow> (w OR fNDCompressed) AND NOT fNDCompressed = w" "w AND fNDCompressed \<noteq> 0 \<Longrightarrow> w OR fNDCompressed = w"
    by (auto simp: fNDCompressed_def)
qed


text \<open>The new line, on every way the page replaces it.\<close>

lemma current_replace:
  fixes p :: CPAGE and fVersion :: bool and iline :: int
  assumes ok: "nodes_ok p" and i: "0 \<le> iline" "iline < Clines p" and kdf0: "NDIGetKeydataflags iline p = Some kdfCurr"
    and key: "key_bytes key = key_bytes (kdf_key (nodes p ! nat iline))" and d: "data \<noteq> []"
    and room: "Cb data \<le> uint (CbFree p) + Cb (kdf_data (nodes p ! nat iline))"
  defines "n \<equiv> nodes p ! nat iline"
  defines "F \<equiv> (if fVersion then kdf_fFlags n OR fNDVersion else kdf_fFlags n)"
  obtains ds fl q where
    "CdataNDIPrefixAndKeydataflagsToDataflags (KDF (KEY (OffPage (prefix key)) (OffPage (suffix key))) (OffPage data)
       (if fVersion then kdf_fFlags kdfCurr OR fNDVersion else kdf_fFlags kdfCurr))
       (word_of_int (DATA_Cb (prefix (kdf_key kdfCurr)))) = (ds, fl)"
    "Replace iline ds fl p = Some q" "nodes_ok q" "node_prefix q = node_prefix p"
    "nodes q = (nodes p)[nat iline := KDF (kdf_key n) data F]" "uint (CbFree q) = uint (CbFree p) + Cb (kdf_data n) - Cb data"
    "unc q = unc p" "fFlags (pghdr q) = fFlags (pghdr p)" "DATA_Cb (kdf_data kdfCurr) = Cb (kdf_data n)"
proof -
  define K where "K = key_bytes (kdf_key n)"
  obtain k a c pfx sfx dn where K: "read_kdf p kdfCurr = n"
    and k: "iline + CTagReserved p = int k" "int k < ITagMicFree p"
    and kdf: "kdfCurr = KDF (KEY pfx (OnPage (a + (if c = 0 then 2 else 4)) sfx)) (OnPage (a + (if c = 0 then 2 else 4) + sfx) dn) (kdf_fFlags n)"
    and sz: "DATA_Cb pfx = int c" "int (length K) = int c + sfx" "int (length (kdf_data n)) = dn" "0 \<le> sfx"
      "(if c = 0 then 2 else 4) + sfx + dn = t_cb (tags p ! k)" "line_bytes (data_lines p ! nat iline) = t_cb (tags p ! k)"
    and C: "c < 8192" "c \<le> length K" "length K - c < 8192" "c \<le> length (node_prefix p)" "c = 0 \<or> 2 < c"
      "take c K = take c (node_prefix p)" "KEY (take c K) (drop c K) = kdf_key n"
    and fl: "(kdf_fFlags n AND fNDCompressed = 0) = (c = 0)" "kdf_fFlags n AND 7 = kdf_fFlags n"
    using current_layout [OF ok i, folded n_def] unfolding K_def kdf0 option.inject by metis
  define kdf' where "kdf' = KDF (KEY (OffPage (prefix key)) (OffPage (suffix key))) (OffPage data) F"
  have v: "valid_kdf kdf'" by (simp add: kdf'_def valid_kdf_def valid_data_def)
  have kb: "kdf_bytes b kdf' = K" for b using key by (simp add: kdf'_def kdf_bytes_def K_def n_def key_bytes_def)
  have c': "c < 65536" "c \<le> length (kdf_bytes (buf p) kdf')" using C by (simp_all add: kb)
  note E = Cdata_prefix_bytes [OF v c', unfolded kb]
  define ds where "ds = fst (CdataNDIPrefixAndKeydataflagsToDataflags kdf' (of_nat c))"
  define bss where "bss = map (data_bytes (buf p)) ds"
  have off: "ds = map OffPage bss" unfolding ds_def bss_def by (rule OffPage_pieces) (simp_all add: kdf'_def)
  have e: "concat bss = enc_node c K data" using E(1) by (simp add: bss_def ds_def kdf'_def)
  have "F AND 7 = F \<and> ((F AND fNDCompressed = 0) = (c = 0))"
  proof -
    have "(kdf_fFlags n OR fNDVersion) AND 7 = kdf_fFlags n OR fNDVersion"
      using fl(2) by (simp add: bit.conj_disj_distrib2 fNDVersion_def)
    moreover have "(kdf_fFlags n OR fNDVersion) AND fNDCompressed = kdf_fFlags n AND fNDCompressed"
      by (simp add: bit.conj_disj_distrib2 fNDVersion_def fNDCompressed_def)
    ultimately show ?thesis using fl by (simp add: F_def)
  qed
  note F = conjunct1 [OF this] conjunct2 [OF this]
  define G where "G = (if c = 0 then F AND NOT fNDCompressed else F OR fNDCompressed)"
  have G: "(G AND fNDCompressed = 0) = (c = 0)" "G AND 7 = F"
    using flag_bit flags_settle [OF F(1)] F(2) by (simp_all add: G_def del: word_ao_absorbs)
  have "DATA_Cb (prefix (kdf_key kdfCurr)) = int c" "kdf_fFlags kdfCurr = kdf_fFlags n" "DATA_Cb (kdf_data kdfCurr) = dn"
    using sz by (simp_all add: kdf)
  note kc = this
  have cd: "CdataNDIPrefixAndKeydataflagsToDataflags kdf' (word_of_int (int c)) = (ds, G)"
    using E(2) by (intro prod_eqI) (simp_all add: ds_def G_def kdf'_def)
  have len: "int (length (enc_node c K data)) = (if c = 0 then 2 else 4) + sfx + Cb data"
    using sz(2) C(2) by (simp add: length_enc_node of_nat_diff)
  have rm: "int (length (enc_node c K data)) \<le> uint (CbFree p) + line_bytes (data_lines p ! nat iline)"
    using room sz unfolding len n_def [symmetric] by auto
  obtain q where q: "Replace iline (map OffPage bss) G p = Some q" "nodes_ok q" "node_prefix q = node_prefix p"
    "nodes q = (nodes p)[nat iline := KDF (KEY (take c K) (drop c K)) data (G AND 7)]"
    "uint (CbFree q) = uint (CbFree p) + line_bytes (data_lines p ! nat iline) - int (length (enc_node c K data))"
    "fFlags (pghdr q) = fFlags (pghdr p)"
    using Replace_node [OF ok i e rm C(1-6) d G(1)] by metis
  show thesis
  proof (rule that [OF _ _ q(2,3) _ _ _ q(6)])
    show "CdataNDIPrefixAndKeydataflagsToDataflags (KDF (KEY (OffPage (prefix key)) (OffPage (suffix key))) (OffPage data)
       (if fVersion then kdf_fFlags kdfCurr OR fNDVersion else kdf_fFlags kdfCurr))
       (word_of_int (DATA_Cb (prefix (kdf_key kdfCurr)))) = (ds, G)"
      using cd unfolding kc kdf'_def F_def .
    show "Replace iline ds G p = Some q" using q(1) off by simp
    show "nodes q = (nodes p)[nat iline := KDF (kdf_key n) data F]" using q(4) C(7) G(2) by simp
    show "uint (CbFree q) = uint (CbFree p) + Cb (kdf_data n) - Cb data" using q(5) sz unfolding len by auto
    show "unc q = unc p" by (rule Replace_unc [OF q(1)])
  qed (use kc sz in simp)
qed


definition told :: "RCE option \<Rightarrow> int \<Rightarrow> int \<Rightarrow> CPAGE \<Rightarrow> RCE option \<times> CPAGE" where
  "told prceReplace new old p =
     (case prceReplace of
        Some prce \<Rightarrow> if new = old then (Some prce, p) else (case VERSetCbAdjust prce new old True p of (prce, p) \<Rightarrow> (Some prce, p))
      | None \<Rightarrow> (None, p))"

lemma NDReplaceData_spec:
  fixes p :: CPAGE and fVersion :: bool and iline :: int
  assumes ok: "nodes_ok p" and i: "0 \<le> iline" "iline < Clines p" and kdf0: "NDIGetKeydataflags iline p = Some kdfCurr"
    and key: "key_bytes key = key_bytes (kdf_key (nodes p ! nat iline))" and d: "data \<noteq> []"
    and room: "Cb data \<le> uint (CbFree p) + Cb (kdf_data (nodes p ! nat iline))"
  defines "n \<equiv> nodes p ! nat iline"
  obtains q where "NDReplaceData iline key data kdfCurr fVersion prceReplace p = Some (q, fst (told prceReplace (Cb data) (Cb (kdf_data n)) p))"
    "nodes_ok q" "nodes q = (nodes p)[nat iline := KDF (kdf_key n) data (if fVersion then kdf_fFlags n OR fNDVersion else kdf_fFlags n)]"
    "uint (CbFree q) = uint (CbFree p) + Cb (kdf_data n) - Cb data"
    "unc q = unc (snd (told prceReplace (Cb data) (Cb (kdf_data n)) p))" "fFlags (pghdr q) = fFlags (pghdr p)"
proof -
  define kdf where "kdf = KDF (KEY (OffPage (prefix key)) (OffPage (suffix key))) (OffPage data)
       (if fVersion then kdf_fFlags kdfCurr OR fNDVersion else kdf_fFlags kdfCurr)"
  define pre where "pre = (case prceReplace of
      Some prce \<Rightarrow> if Cb data - Cb (kdf_data n) > 0 then (case VERSetCbAdjust prce (Cb data) (Cb (kdf_data n)) True p of (prce, p) \<Rightarrow> (Some prce, p))
                    else (prceReplace, p)
    | None \<Rightarrow> (prceReplace, p))"
  define pv where "pv = snd pre"
  have sl: "same_lines p pv" using VERSet_same_lines by (auto simp: pv_def pre_def split: option.splits prod.splits) (metis snd_conv)
  note N = same_lines_nodes [OF sl] and T = same_lines_tags [OF sl]
  have ok': "nodes_ok pv" "iline < Clines pv" "NDIGetKeydataflags iline pv = Some kdfCurr"
    "key_bytes key = key_bytes (kdf_key (nodes pv ! nat iline))" "Cb data \<le> uint (CbFree pv) + Cb (kdf_data (nodes pv ! nat iline))"
    using ok i kdf0 key room N T by simp_all
  obtain ds fl q where q: "CdataNDIPrefixAndKeydataflagsToDataflags kdf (word_of_int (DATA_Cb (prefix (kdf_key kdfCurr)))) = (ds, fl)"
    "Replace iline ds fl pv = Some q" "nodes_ok q"
    "nodes q = (nodes p)[nat iline := KDF (kdf_key n) data (if fVersion then kdf_fFlags n OR fNDVersion else kdf_fFlags n)]"
    "uint (CbFree q) = uint (CbFree p) + Cb (kdf_data n) - Cb data" "unc q = unc pv" "fFlags (pghdr q) = fFlags (pghdr pv)"
    "DATA_Cb (kdf_data kdfCurr) = Cb (kdf_data n)"
    using current_replace [OF ok'(1) i(1) ok'(2-4) d ok'(5), of fVersion] unfolding N T n_def [symmetric] kdf_def [symmetric] by metis
  define post where "post = (case fst pre of
      Some prce \<Rightarrow> if Cb data - Cb (kdf_data n) < 0 then (case VERSetCbAdjust prce (Cb data) (Cb (kdf_data n)) True q of (prce, p) \<Rightarrow> (p, Some prce))
                    else (q, fst pre)
    | None \<Rightarrow> (q, fst pre))"
  have e: "NDReplaceData iline key data kdfCurr fVersion prceReplace p = Some post"
    unfolding NDReplaceData_def q(8) kdf_def [symmetric] Let_def q(1) pre_def [symmetric]
    using q(2) by (cases pre) (auto simp: pv_def post_def split: option.splits prod.splits)
  have hp: "fFlags (pghdr pv) = fFlags (pghdr p)" using sl by (simp add: same_lines_def)
  have slq: "same_lines q (fst post)" using VERSet_same_lines by (auto simp: post_def split: option.splits prod.splits) (metis snd_conv)
  note NQ = same_lines_nodes [OF slq] and TQ = same_lines_tags [OF slq]
  have r: "snd post = fst (told prceReplace (Cb data) (Cb (kdf_data n)) p)"
    using VERSet_cong(1) by (auto simp: post_def pre_def told_def split: option.splits prod.splits) (metis fst_conv)+
  have u: "unc (fst post) = unc (snd (told prceReplace (Cb data) (Cb (kdf_data n)) p))"
  proof -
    consider "prceReplace = None \<or> Cb data = Cb (kdf_data n)" | r where "prceReplace = Some r" "Cb data > Cb (kdf_data n)"
      | r where "prceReplace = Some r" "Cb data < Cb (kdf_data n)" by (cases prceReplace) force+
    then show ?thesis
    proof cases
      case 3
      then have "pv = p" "fst post = snd (VERSetCbAdjust r (Cb data) (Cb (kdf_data n)) True q)"
        by (simp_all add: pv_def pre_def post_def split: prod.split)
      then show ?thesis using 3 VERSet_cong(2) [of q p r] q(6) by (simp add: told_def split: prod.split)
    qed (use q(6) in \<open>auto simp: pv_def pre_def post_def told_def split: option.splits prod.splits\<close>)
  qed
  show thesis
    by (rule that [of "fst post"])
      (use e r u q NQ TQ hp slq in \<open>simp_all add: same_lines_def prod_eq_iff\<close>)
qed

end
