(* ===== verification/Node_Undo.thy ===== *)
theory Node_Undo
  imports Node_Space
begin

text \<open>
  The invariant of a page and the chain of one of its nodes: what the chain reserves is counted in \<open>cbUncommittedFree\<close>, which is
  within the free space.  A replace keeps it on every way it can end, and it is what the undo needs.
\<close>

definition reserve_ok :: "RCE list \<Rightarrow> int \<Rightarrow> CPAGE \<Rightarrow> bool" where
  "reserve_ok C iline p \<longleftrightarrow> nodes_ok p \<and> chain_ok C (Cb (kdf_data (nodes p ! nat iline))) \<and>
     CbVERGetNodeReserve None C \<le> unc p \<and> unc p \<le> uint (CbFree p)"

lemma reserve_head:
  assumes "chain_ok (prce # C) s" "FOperReplace prce" "\<not> fCommitted prce"
  shows "CbVERGetNodeReserve None (prce # C) = max s (hist_max C (Cb (rgbBeforeImage prce))) - s"
    "sint (cbDelta prce) = (max s (hist_max C (Cb (rgbBeforeImage prce))) - s) - (hist_max C (Cb (rgbBeforeImage prce)) - Cb (rgbBeforeImage prce))"
    "chain_ok C (Cb (rgbBeforeImage prce))"
    "CbVERGetNodeReserve None C = hist_max C (Cb (rgbBeforeImage prce)) - Cb (rgbBeforeImage prce)"
proof -
  show "CbVERGetNodeReserve None (prce # C) = max s (hist_max C (Cb (rgbBeforeImage prce))) - s"
    using reserve_is_max_minus_size [OF assms(1)] assms(2,3) by simp
  show c: "chain_ok C (Cb (rgbBeforeImage prce))" using assms by (simp add: Let_def)
  show "CbVERGetNodeReserve None C = hist_max C (Cb (rgbBeforeImage prce)) - Cb (rgbBeforeImage prce)"
    by (rule reserve_is_max_minus_size [OF c])
  show "sint (cbDelta prce) = (max s (hist_max C (Cb (rgbBeforeImage prce))) - s) - (hist_max C (Cb (rgbBeforeImage prce)) - Cb (rgbBeforeImage prce))"
    using assms by (simp add: Let_def)
qed

lemma log_keeps:
  assumes "log_ok lg"
  shows "same_lines p (snd (ErrLG lg lr p))" "unc (snd (ErrLG lg lr p)) = unc p" "same_lines p (Dirty lg p)" "unc (Dirty lg p) = unc p"
  using assms by (simp_all add: log_ok_def keeps_page_def unc_def)

lemma NDILogReplace_keeps:
  assumes "log_ok lg"
  shows "same_lines p (snd (snd (ErrNDILogReplace lg diffs data old p)))" "unc (snd (snd (ErrNDILogReplace lg diffs data old p))) = unc p"
  using log_keeps(1,2) [OF assms, where p = p and lr = "lrReplace old data"]
  by (auto simp: ErrNDILogReplace_def Let_def split: DIFFS.splits prod.splits)

lemma same_lines_reserve: "same_lines p q \<Longrightarrow> unc q = unc p \<Longrightarrow> reserve_ok C iline q = reserve_ok C iline p"
  by (simp add: reserve_ok_def same_lines_nodes same_lines_tags)

subsection \<open>Undo\<close>

lemma enough_room: "\<not> fRecovering env \<Longrightarrow> FIsNormalSized p \<Longrightarrow> 0 \<le> unc p \<Longrightarrow> cbReq \<le> 0 \<or> cbReq \<le> uint (CbFree p) - unc p \<Longrightarrow>
    FNDRoomToGrow env n cbReq p = Some (True, p)"
proof -
  assume a: "\<not> fRecovering env" "FIsNormalSized p" "0 \<le> unc p" "cbReq \<le> 0 \<or> cbReq \<le> uint (CbFree p) - unc p"
  show ?thesis
  proof (cases "cbReq > 0")
    case True
    then have "\<not> uint (CbFree p) < cbReq" "\<not> cbReq > uint (CbFree p) - unc p" using a(3,4) by linarith+
    then show ?thesis using a(1,2) True
      by (simp add: FNDRoomToGrow_def FNDFreePageSpace_def FVERCheckUncommittedFreedSpace_def page_free unc_def)
  qed (simp add: FNDRoomToGrow_def)
qed

lemma undo_replace_spec:
  fixes p :: CPAGE and prce :: RCE and iline :: int
  assumes inv: "reserve_ok (prce # C) iline p" and i: "0 \<le> iline" "iline < Clines p"
    and key: "key_bytes key = key_bytes (kdf_key (nodes p ! nat iline))"
    and prce: "FOperReplace prce" "\<not> fCommitted prce" "\<not> fEmptyDiff prce" "rgbBeforeImage prce \<noteq> []"
    and env: "\<not> fRecovering env" and lg: "log_ok lg" "\<And>q. fst (ErrLG lg lrUndoInfo q) = JET_errSuccess" "\<And>q. fst (ErrLG lg lrUndo q) = JET_errSuccess"
  defines "n \<equiv> nodes p ! nat iline"
  shows "\<exists>q. ErrVERIUndoReplacePhysical env lg prce iline key p = Some (JET_errSuccess, q) \<and>
    nodes q = (nodes p)[nat iline := KDF (kdf_key n) (rgbBeforeImage prce) (kdf_fFlags n)] \<and> reserve_ok C iline q \<and>
    unc q = unc p - sint (cbDelta prce)"
proof -
  define p1 where "p1 = (if fUndoInfo prce then snd (ErrLG lg lrUndoInfo p) else p)"
  define p2 where "p2 = snd (ErrLG lg lrUndo p1)"
  have "same_lines p p1" "unc p1 = unc p" using log_keeps [OF lg(1), where p = p] by (simp_all add: p1_def)
  then have sl2: "same_lines p p2" "unc p2 = unc p"
    using log_keeps [OF lg(1), where p = p1] same_lines_trans [of p p1 p2] by (simp_all add: p2_def)
  have r: "nodes_ok p" "chain_ok (prce # C) (Cb (kdf_data n))" "CbVERGetNodeReserve None (prce # C) \<le> unc p" "unc p \<le> uint (CbFree p)"
    using inv by (simp_all add: reserve_ok_def n_def)
  define s b P D where "s = Cb (kdf_data n)" and "b = Cb (rgbBeforeImage prce)" and "P = hist_max C b" and "D = sint (cbDelta prce)"
  note H = reserve_head [OF r(2) prce(1,2), folded s_def b_def, folded P_def D_def]
  have le: "b \<le> P" "0 \<le> b" "0 \<le> s" using hist_max_ge [of b C] by (simp_all add: P_def b_def s_def)
  have D: "b - s \<le> D" "D \<le> unc p" "P - b \<le> unc p - D" using H(2) le r(3) [unfolded H(1)] by auto
  define p3 where "p3 = (if D > 0 then ReclaimUncommittedFreed D p2 else p2)"
  have sl3: "same_lines p p3" using sl2 by (simp add: p3_def)
  have free: "uint (CbFree p) < 65536" using uint_lt2p [of "CbFree p"] by simp
  have u3: "unc p3 = (if D > 0 then unc p - D else unc p)"
    using D r(4) free unc_nonneg [of p] sl2 by (simp add: p3_def unc_set)
  note N3 = same_lines_nodes [OF sl3] and T3 = same_lines_tags [OF sl3]
  have p: "FIsNormalSized p" using nodes_ok_page [OF r(1)] by simp
  obtain kdf where kdf: "NDIGetKeydataflags iline p = Some kdf" "read_kdf p kdf = n" "DATA_Cb (kdf_data kdf) = s"
  proof -
    obtain kdf k a c pfx sfx dn where "NDIGetKeydataflags iline p = Some kdf" "read_kdf p kdf = n"
      "kdf = KDF (KEY pfx (OnPage (a + (if c = (0 :: nat) then 2 else 4)) sfx)) (OnPage (a + (if c = 0 then 2 else 4) + sfx) dn) (kdf_fFlags n)"
      "int (length (kdf_data n)) = dn"
      using current_layout [OF r(1) i] unfolding n_def by metis
    then show thesis by (intro that [of kdf]) (simp_all add: s_def)
  qed
  have fits: "b - s \<le> 0 \<or> b - s \<le> uint (CbFree p3) - unc p3"
    using D(1) r(4) u3 T3(4) by (cases "D > 0") auto
  have room: "FNDRoomToGrow env (read_kdf p3 kdf) (b - DATA_Cb (kdf_data kdf)) p3 = Some (True, p3)"
    unfolding kdf(3) using enough_room [OF env, of p3 "b - s"] p T3 fits unc_nonneg [of p3] by simp
  have "Cb (rgbBeforeImage prce) \<le> uint (CbFree p3) + Cb (kdf_data n)"
    using D r(4) unfolding T3(4) s_def [symmetric] b_def [symmetric] by linarith
  note rm = this
  have ok3: "nodes_ok p3" "iline < Clines p3" "NDIGetKeydataflags iline p3 = Some kdf"
    "key_bytes key = key_bytes (kdf_key (nodes p3 ! nat iline))"
    "Cb (rgbBeforeImage prce) \<le> uint (CbFree p3) + Cb (kdf_data (nodes p3 ! nat iline))"
    using r(1) i kdf(1) key rm unfolding N3 T3 n_def by simp_all
  obtain q where q: "NDReplaceData iline key (rgbBeforeImage prce) kdf False None p3 = Some (q, None)" "nodes_ok q"
    "nodes q = (nodes p)[nat iline := KDF (kdf_key n) (rgbBeforeImage prce) (kdf_fFlags n)]"
    "uint (CbFree q) = uint (CbFree p) + s - b" "unc q = unc p3"
    using NDReplaceData_spec [OF ok3(1) i(1) ok3(2-4) prce(4) ok3(5), of False None]
    unfolding N3 T3 n_def [symmetric] s_def [symmetric] b_def [symmetric] told_def by auto
  have il: "nat iline < length (nodes p)" using i length_nodes [of p] nodes_ok_page [OF r(1)] by simp
  have cq: "Clines q = Clines p"
    using length_nodes [of q] length_nodes [of p] nodes_ok_page [OF q(2)] nodes_ok_page [OF r(1)] arg_cong [OF q(3), of length] by simp
  obtain kdf' where kdf': "NDIGetKeydataflags iline q = Some kdf'"
    using node_bookmark [OF q(2) i(1)] i(2) cq by metis
  have R: "ErrNDReplace env lg fDIRLogFull False False False iline key (rgbBeforeImage prce) None p3 = Some (JET_errSuccess, q, None)"
    using room q(1) kdf' by (simp add: ErrNDReplace_def N3(5) kdf(1) b_def)
  define q' where "q' = (if D < 0 then AddUncommittedFreed (- D) q else q)"
  have uq: "unc p - D \<le> uint (CbFree q)" using D(1) r(4) q(4) by linarith
  have "uint (CbFree q) < 65536" using uint_lt2p [of "CbFree q"] by simp
  then have u': "unc q' = unc p - D"
    using uq u3 q(5) D unc_nonneg [of p] le by (cases "D < 0") (auto simp: q'_def unc_set)
  have sq: "same_lines q q'" by (simp add: q'_def)
  note NQ = same_lines_nodes [OF sq] and TQ = same_lines_tags [OF sq]
  have "ErrVERIUndoReplacePhysical env lg prce iline key p = Some (JET_errSuccess, q')"
  proof -
    have e1: "(if fUndoInfo prce then ErrLG lg lrUndoInfo p else (JET_errSuccess, p)) = (JET_errSuccess, p1)"
      using lg(2) [of p] by (simp add: p1_def prod_eq_iff)
    have e2: "ErrLG lg lrUndo p1 = (JET_errSuccess, p2)" using lg(3) [of p1] by (simp add: p2_def prod_eq_iff)
    show ?thesis unfolding ErrVERIUndoReplacePhysical_def e1 using prce(3) e2 R
      by (simp add: D_def [symmetric] p3_def [symmetric] q'_def)
  qed
  moreover have "reserve_ok C iline q'"
    using H(3,4) D(3) uq u' q(2,3) il by (simp add: reserve_ok_def NQ TQ b_def)
  ultimately show ?thesis using q(3) NQ u' by (intro exI [of _ q']) (simp add: D_def)
qed


subsection \<open>Replace\<close>

lemma NDReplace_reserve:
  fixes p :: CPAGE and prce :: RCE and iline :: int and fVersion :: bool
  assumes inv: "reserve_ok (prce # C) iline p" and i: "0 \<le> iline" "iline < Clines p"
    and kdf: "NDIGetKeydataflags iline p = Some kdfCurr"
    and key: "key_bytes key = key_bytes (kdf_key (nodes p ! nat iline))"
    and prce: "FOperReplace prce" "\<not> fCommitted prce" "rgbBeforeImage prce = kdf_data (nodes p ! nat iline)"
    and data: "data \<noteq> []" "length data < 32768"
    and room: "Cb data \<le> Cb (kdf_data (nodes p ! nat iline)) \<or>
      Cb data - Cb (kdf_data (nodes p ! nat iline)) \<le> CbVERGetNodeReserve None (prce # C) + uint (CbFree p) - unc p"
  defines "n \<equiv> nodes p ! nat iline"
  shows "\<exists>q r. NDReplaceData iline key data kdfCurr fVersion (Some prce) p = Some (q, Some r) \<and>
    nodes q = (nodes p)[nat iline := KDF (kdf_key n) data (if fVersion then kdf_fFlags n OR fNDVersion else kdf_fFlags n)] \<and>
    reserve_ok (r # C) iline q"
proof -
  define old new P where "old = Cb (kdf_data n)" and "new = Cb data" and "P = hist_max C old"
  have r: "nodes_ok p" "chain_ok (prce # C) old" "CbVERGetNodeReserve None (prce # C) \<le> unc p" "unc p \<le> uint (CbFree p)"
    using inv by (simp_all add: reserve_ok_def n_def old_def)
  have before: "Cb (rgbBeforeImage prce) = old" using prce(3) by (simp add: old_def n_def)
  note H = reserve_head [OF r(2) prce(1,2), unfolded before, folded P_def]
  have le: "old \<le> P" "0 \<le> old" "0 < new" "0 \<le> new" "new < 32768"
    using hist_max_ge [of old C] data by (simp_all add: P_def old_def new_def)
  have R: "CbVERGetNodeReserve None (prce # C) = P - old" using H(1) le by simp
  have rm: "new \<le> old \<or> new - old \<le> (P - old) + uint (CbFree p) - unc p"
    using room unfolding n_def [symmetric] old_def [symmetric] new_def [symmetric] R .
  have "new \<le> uint (CbFree p) + old" using rm r(3,4) R uint16_nonneg [of "CbFree p"] by linarith
  then obtain q where q: "NDReplaceData iline key data kdfCurr fVersion (Some prce) p = Some (q, fst (told (Some prce) new old p))"
    "nodes_ok q" "nodes q = (nodes p)[nat iline := KDF (kdf_key n) data (if fVersion then kdf_fFlags n OR fNDVersion else kdf_fFlags n)]"
    "uint (CbFree q) = uint (CbFree p) + old - new" "unc q = unc (snd (told (Some prce) new old p))"
    using NDReplaceData_spec [OF r(1) i kdf key data(1), of fVersion "Some prce"] unfolding n_def [symmetric] old_def [symmetric] new_def [symmetric]
    by metis
  have il: "nat iline < length (nodes p)" using i length_nodes [of p] nodes_ok_page [OF r(1)] by simp
  define D where "D = (max new P - new) - (P - old)"
  have le2: "0 \<le> unc p + D" "unc p + D \<le> uint (CbFree q)" "max new P - new \<le> unc p + D"
    using rm r(3,4) R le q(4) by (auto simp: D_def max_def)
  have "uint (CbFree q) < 65536" using uint_lt2p [of "CbFree q"] by simp
  then have lt: "unc p + D < 65536" using le2(2) by simp
  have "\<exists>r. fst (told (Some prce) new old p) = Some r \<and> chain_ok (r # C) new \<and> FOperReplace r \<and> \<not> fCommitted r \<and>
      rgbBeforeImage r = rgbBeforeImage prce \<and> unc q = unc p + D"
  proof (cases "new = old")
    case True
    then show ?thesis using r(2) q(5) le prce by (simp add: told_def D_def)
  next
    case False
    define t where "t = VERSetCbAdjust prce new old True p"
    have "old = Cb (rgbBeforeImage prce)" using before by simp
    note A = chain_ok_adjust [OF r(2) prce(1,2) this le(4,5), of True p, folded t_def]
      and U = VERSet_page [OF r(2) prce(1,2) this le(4,5), of p, folded P_def t_def, folded D_def, OF le2(1) lt]
    have "told (Some prce) new old p = (Some (fst t), snd t)" using False by (simp add: told_def t_def split: prod.split)
    then show ?thesis using A U q(5) prce by (simp add: FOperReplace_def)
  qed
  then obtain r' where r': "fst (told (Some prce) new old p) = Some r'" "chain_ok (r' # C) new" "FOperReplace r'" "\<not> fCommitted r'"
    "rgbBeforeImage r' = rgbBeforeImage prce" "unc q = unc p + D" by blast
  have "CbVERGetNodeReserve None (r' # C) = max new P - new"
    using reserve_head(1) [OF r'(2-4)] unfolding r'(5) before P_def .
  then have "reserve_ok (r' # C) iline q"
    using q(2,3) r'(2,6) le2 il by (simp add: reserve_ok_def new_def)
  then show ?thesis using q(1,3) r'(1) by auto
qed

lemma reserve_empty_diff: "reserve_ok (prce\<lparr>fEmptyDiff := b\<rparr> # C) iline p = reserve_ok (prce # C) iline p"
proof -
  have "chain_ok (prce\<lparr>fEmptyDiff := b\<rparr> # C) s = chain_ok (prce # C) s" for s
    by (simp add: FOperReplace_def Let_def)
  moreover have "CbVERGetNodeReserve None (prce\<lparr>fEmptyDiff := b\<rparr> # C) = CbVERGetNodeReserve None (prce # C)"
    by (simp add: FOperReplace_def)
  ultimately show ?thesis unfolding reserve_ok_def by (simp only:)
qed

lemma replace_reserve_spec:
  fixes p :: CPAGE and prce :: RCE and iline :: int and fVersion :: bool
  assumes inv: "reserve_ok (prce # C) iline p" and i: "0 \<le> iline" "iline < Clines p"
    and key: "key_bytes key = key_bytes (kdf_key (nodes p ! nat iline))"
    and prce: "FOperReplace prce" "\<not> fCommitted prce" "rgbBeforeImage prce = kdf_data (nodes p ! nat iline)"
    and data: "data \<noteq> []" "length data < 32768"
    and env: "\<not> fRecovering env" "fWARLatch env" "CbNDUncommittedFree env p = Some u" "u \<le> unc p"
      "CbVERGetNodeReserve None (prce # C) \<le> u" "0 \<le> CbNDReservedSizeOfNode env (nodes p ! nat iline)"
      "CbNDReservedSizeOfNode env (nodes p ! nat iline) \<le> CbVERGetNodeReserve None (prce # C)"
    and lg: "log_ok lg"
  defines "n \<equiv> nodes p ! nat iline"
  shows "\<exists>err q r. ErrNDReplace env lg diffs fVersion fLogging fDirtying iline key data (Some prce) p = Some (err, q, Some r) \<and>
    reserve_ok (r # C) iline q \<and>
    (nodes q = nodes p \<or> err = JET_errSuccess \<and>
       nodes q = (nodes p)[nat iline := KDF (kdf_key n) data (if fVersion then kdf_fFlags n OR fNDVersion else kdf_fFlags n)])"
proof -
  define old where "old = Cb (kdf_data n)"
  define Rv where "Rv = CbNDReservedSizeOfNode env n"
  have r: "nodes_ok p" "unc p \<le> uint (CbFree p)" using inv by (simp_all add: reserve_ok_def)
  have p: "FIsNormalSized p" using nodes_ok_page [OF r(1)] by simp
  obtain kdf where kdf: "NDIGetKeydataflags iline p = Some kdf" "read_kdf p kdf = n" "DATA_Cb (kdf_data kdf) = old"
  proof -
    obtain kdf k a c pfx sfx dn where "NDIGetKeydataflags iline p = Some kdf" "read_kdf p kdf = n"
      "kdf = KDF (KEY pfx (OnPage (a + (if c = (0 :: nat) then 2 else 4)) sfx)) (OnPage (a + (if c = 0 then 2 else 4) + sfx) dn) (kdf_fFlags n)"
      "int (length (kdf_data n)) = dn"
      using current_layout [OF r(1) i] unfolding n_def by metis
    then show thesis by (intro that [of kdf]) (simp_all add: old_def)
  qed
  have "0 \<le> Rv" "Rv \<le> u" using env(5-7) by (simp_all add: Rv_def n_def)
  from room_to_grow [OF p env(1-4) r(2) Rv_def this, where cbReq = "Cb data - old"] obtain b p1 where
    G: "FNDRoomToGrow env n (Cb data - old) p = Some (b, p1)" "same_lines p p1" "u \<le> unc p1" "unc p1 \<le> unc p"
    "b \<longrightarrow> Cb data - old \<le> 0 \<or> Cb data - old \<le> Rv + uint (CbFree p) - unc p1" by metis
  note N1 = same_lines_nodes [OF G(2)] and T1 = same_lines_tags [OF G(2)]
  have inv1: "reserve_ok (prce # C) iline p1" using inv G(3,4) env(5) by (simp add: reserve_ok_def N1 T1)
  define lp where "lp = (if fLogging then ErrNDILogReplace lg diffs data (data_bytes (buf p1) (kdf_data kdf)) p1
      else (JET_errSuccess, False, if fDirtying then Dirty lg p1 else p1))"
  obtain err fEmpty p2 where lp': "lp = (err, fEmpty, p2)" by (cases lp)
  have sl2: "same_lines p1 p2" "unc p2 = unc p1"
    using NDILogReplace_keeps [OF lg, where p = p1 and diffs = diffs and data = data and old = "data_bytes (buf p1) (kdf_data kdf)"] log_keeps(3,4) [OF lg, where p = p1] lp'
    by (auto simp: lp_def split: if_splits)
  note N2 = same_lines_nodes [OF sl2(1)] and T2 = same_lines_tags [OF sl2(1)]
  have inv2: "reserve_ok (prce # C) iline p2" using inv1 same_lines_reserve [OF sl2] by simp
  have e: "ErrNDReplace env lg diffs fVersion fLogging fDirtying iline key data (Some prce) p =
    (if \<not> b then Some (errPMOutOfPageSpace, p1, Some prce)
     else if err \<noteq> JET_errSuccess then Some (err, p2, Some prce)
     else if fEmpty then Some (JET_errSuccess, p2, Some (prce\<lparr>fEmptyDiff := True\<rparr>))
     else Option.bind (NDReplaceData iline key data kdf fVersion (Some prce) p2) (\<lambda>(p, prceReplace).
       map_option (\<lambda>_. (JET_errSuccess, p, prceReplace)) (NDIGetKeydataflags iline p)))"
    using G(1) lp' unfolding ErrNDReplace_def by (simp add: kdf lp_def)
  consider "\<not> b" | "b" "err \<noteq> JET_errSuccess" | "b" "err = JET_errSuccess" "fEmpty" | "b" "err = JET_errSuccess" "\<not> fEmpty" by blast
  then show ?thesis
  proof cases
    case 1
    then show ?thesis using e inv1 N1 by simp
  next
    case 2
    then show ?thesis using e inv2 N1 N2 by simp
  next
    case 3
    have "reserve_ok (prce\<lparr>fEmptyDiff := True\<rparr> # C) iline p2"
      using inv2 by (simp only: reserve_empty_diff)
    then show ?thesis using 3 e N1 N2 by simp
  next
    case 4
    have il2: "iline < Clines p2" using i T1 T2 by simp
    have kd: "NDIGetKeydataflags iline p2 = Some kdf" using kdf(1) N1 N2 by simp
    have ky: "key_bytes key = key_bytes (kdf_key (nodes p2 ! nat iline))" "rgbBeforeImage prce = kdf_data (nodes p2 ! nat iline)"
      using key prce(3) N1 N2 by simp_all
    have rm: "Cb data \<le> Cb (kdf_data (nodes p2 ! nat iline)) \<or>
      Cb data - Cb (kdf_data (nodes p2 ! nat iline)) \<le> CbVERGetNodeReserve None (prce # C) + uint (CbFree p2) - unc p2"
      using G(5) 4(1) env(7) sl2(2) unfolding N2 N1 T2 T1 Rv_def n_def [symmetric] old_def [symmetric] by auto
    obtain q r where q: "NDReplaceData iline key data kdf fVersion (Some prce) p2 = Some (q, Some r)"
      "nodes q = (nodes p)[nat iline := KDF (kdf_key n) data (if fVersion then kdf_fFlags n OR fNDVersion else kdf_fFlags n)]"
      "reserve_ok (r # C) iline q"
      using NDReplace_reserve [OF inv2 i(1) il2 kd ky(1) prce(1,2) ky(2) data rm, of fVersion] unfolding N2 N1 n_def [symmetric] by metis
    have qok: "nodes_ok q" using q(3) by (simp add: reserve_ok_def)
    have "Clines q = Clines p"
      using length_nodes [of q] length_nodes [of p] nodes_ok_page [OF qok] nodes_ok_page [OF r(1)] arg_cong [OF q(2), of length] by simp
    then obtain kdf' where "NDIGetKeydataflags iline q = Some kdf'" using node_bookmark [OF qok i(1)] i(2) by metis
    then have "ErrNDReplace env lg diffs fVersion fLogging fDirtying iline key data (Some prce) p = Some (JET_errSuccess, q, Some r)"
      unfolding e using 4 q(1) by simp
    then show ?thesis using q(2,3) by blast
  qed
qed

end
