(* ===== verification/Node_Props.thy ===== *)
theory Node_Props
  imports Node_Descend Node_Undo
begin

text \<open>
  The properties of the node layer: the order of bookmarks, the two searches, insertion at the place a search found, the
  operations on a node, the prefix, and the space a replace and its undo need.
\<close>

subsection \<open>Examples\<close>

text \<open>
  A leaf page with the prefix 1 2 3 and the nodes with the keys 1 2 and 1 2 3 5, the second one compressed, and an internal page
  with one separator, 3, and a last node without a key.
\<close>

definition sample_hdr :: "int \<Rightarrow> int \<Rightarrow> u32 \<Rightarrow> PGHDR" where
  "sample_hdr free mic fl = \<lparr>checksum = 0, dbtimeDirtied = 0, pgnoPrev = 0, pgnoNext = 0, objidFDP = 0,
       cbFree = word_of_int free, cbUncommittedFree = 0, ibMicFree = word_of_int mic, itagState = 3, fFlags = fl\<rparr>"

definition sample_mem :: "bytes \<Rightarrow> bytes \<Rightarrow> mem" where
  "sample_mem front rear i = (if 40 \<le> i \<and> i < 40 + int (length front) then front ! nat (i - 40)
     else if 128 - int (length rear) \<le> i \<and> i < 128 then rear ! nat (i - (128 - int (length rear))) else 0)"

definition sample_node_page :: "u32 \<Rightarrow> int \<Rightarrow> bytes \<Rightarrow> bytes \<Rightarrow> CPAGE" where
  "sample_node_page fl free front rear = \<lparr>cbBuffer = 128, cbPage = 128, fSmallFormat = True, m_itagMicFree = 3,
     m_ctagReserved = 1, fResvTagFormat = False, fScrubbing = False, fDirty = True,
     pghdr = sample_hdr free (int (length front)) fl, pghdr2 = \<lparr>rgChecksum = [0, 0, 0], pgno = 0\<rparr>,
     buf = sample_mem front rear\<rparr>"

definition sample_leaf :: CPAGE where
  "sample_leaf = sample_node_page 2 62 [1, 2, 3, 2, 0, 1, 2, 9, 3, 0, 1, 0, 5, 7] [6, 0, 8, 128, 5, 0, 3, 0, 3, 0, 0, 0]"

definition sample_internal :: CPAGE where
  "sample_internal = sample_node_page 0 69 [1, 0, 3, 7, 0, 0, 8] [3, 0, 4, 0, 4, 0, 0, 0, 0, 0, 0, 0]"

lemma sample_nodes_ok: "nodes_ok sample_leaf" "internal_ok sample_internal"
  "nodes sample_leaf = [KDF (KEY [] [1, 2]) [9] 0, KDF (KEY [1, 2, 3] [5]) [7] 4]"
  by code_simp+


subsection \<open>Searching\<close>

text \<open>
  C35: the search of a leaf page.  On a page whose bookmarks are in order the binary search of \<open>IlineNDISeekGEQ\<close> ends with the
  line and the comparison the linear search finds, which is the first bookmark not below the one searched for.
\<close>
theorem leaf_search_linear:
  assumes "nodes_ok p" "sorted_wrt (<) (bms u p)"
  shows "\<exists>c. IlineNDISeekGEQ p bm u = Some (if first_geq (bms u p) (bm_val bm) = length (bms u p) then -1
      else int (first_geq (bms u p) (bm_val bm)), c) \<and>
    IlineNDISeekGEQDebug p bm u = map_option (\<lambda>(iline, compare). (iline, if iline < 0 then None else Some compare)) (IlineNDISeekGEQ p bm u)"
proof -
  have p: "page_ok p" using nodes_ok_page [OF assms(1)] by simp
  define f where "f = first_geq (bms u p) (bm_val bm)"
  have C: "0 \<le> Clines p" using length_bms [OF p, of u] by (metis of_nat_0_le_iff)
  obtain c where c: "IlineNDISeekGEQ p bm u = Some (if f = length (bms u p) then -1 else int f, c)"
    "f < length (bms u p) \<longrightarrow>
      (let key = fst (bms u p ! f); data = snd (bms u p ! f)
       in c = (if key = key_bytes (bm_key bm) \<and> bm_data bm \<noteq> [] then order_cmp data (bm_data bm)
               else order_cmp key (key_bytes (bm_key bm))))"
    using IlineNDISeekGEQ_spec [OF assms, of bm, folded f_def] by blast
  have "f \<le> length (bms u p)" by (simp add: f_def first_geq_le)
  then show ?thesis
    using c SeekGEQDebugLoop_spec [OF assms(1) order_refl C _ assms(2), of bm, folded f_def]
    unfolding IlineNDISeekGEQDebug_def f_def [symmetric] by (cases "f = length (bms u p)") (auto simp: Let_def)
qed

lemma leaf_search_linear_witness:
  "\<exists>c. IlineNDISeekGEQ sample_leaf (BOOKMARK (KEY [1, 2, 3] [4]) []) True =
      Some (if first_geq (bms True sample_leaf) (bm_val (BOOKMARK (KEY [1, 2, 3] [4]) [])) = length (bms True sample_leaf) then -1
        else int (first_geq (bms True sample_leaf) (bm_val (BOOKMARK (KEY [1, 2, 3] [4]) []))), c) \<and>
    IlineNDISeekGEQDebug sample_leaf (BOOKMARK (KEY [1, 2, 3] [4]) []) True =
      map_option (\<lambda>(iline, compare). (iline, if iline < 0 then None else Some compare))
        (IlineNDISeekGEQ sample_leaf (BOOKMARK (KEY [1, 2, 3] [4]) []) True)"
  by (rule leaf_search_linear [OF sample_nodes_ok(1)]) code_simp

text \<open>
  C36: the descent.  On an internal page in order \<open>ErrNDISeekInternalPage\<close> never ends in an enforce or reports a corruption, and picks the child with
  as many separators in front of it as do not exceed the bookmark, so the bookmark lies between the separators on its two
  sides; the code is success exactly when a separator equals the bookmark.  The line it compared last is the one of the linear search.
\<close>
theorem descent_to_child:
  assumes "internal_ok p" "cbBuffer p \<le> cbPageMax" "\<not> KEY_FNull (bm_key bm)"
  shows "ErrNDISeekInternalPage cbPageMax p bm ilineOld =
      Some (if bm_bytes bm \<in> set (seps p) then JET_errSuccess else wrnNDFoundGreater,
        int (length (filter (\<lambda>s. s \<le> bm_bytes bm) (seps p)))) \<and>
    map_option fst (IlineNDISeekGEQInternalDebug p bm) = map_option fst (IlineNDISeekGEQInternal cbPageMax p bm)"
proof -
  have "0 \<le> Clines p - 1" using internal_facts(3) [OF assms(1)] by simp
  then have "map_option fst (IlineNDISeekGEQInternalDebug p bm) = Some (int (first_geq (seps p) (bm_bytes bm)))"
    using SeekGEQInternalDebugLoop_spec [OF assms(1) order_refl, of bm] by (auto simp: IlineNDISeekGEQInternalDebug_def)
  then show ?thesis
    using ErrNDISeekInternalPage_spec [OF assms] IlineNDISeekGEQInternal_spec [OF assms] by simp
qed

lemma descent_to_child_witness:
  "ErrNDISeekInternalPage 4096 sample_internal (BOOKMARK (KEY [] [4]) []) 0 =
      Some (if bm_bytes (BOOKMARK (KEY [] [4]) []) \<in> set (seps sample_internal) then JET_errSuccess else wrnNDFoundGreater,
        int (length (filter (\<lambda>s. s \<le> bm_bytes (BOOKMARK (KEY [] [4]) [])) (seps sample_internal)))) \<and>
    map_option fst (IlineNDISeekGEQInternalDebug sample_internal (BOOKMARK (KEY [] [4]) [])) =
      map_option fst (IlineNDISeekGEQInternal 4096 sample_internal (BOOKMARK (KEY [] [4]) []))"
  by (rule descent_to_child [OF sample_nodes_ok(2)]) code_simp+

subsection \<open>Insertion where the search ended\<close>

lemma sorted_list_ins:
  assumes "sorted_wrt (<) (xs :: 'a::linorder list)" "v \<notin> set xs"
  shows "sorted_wrt (<) (list_ins (first_geq xs v) v xs)"
proof -
  have "xs ! j < v" if "j < first_geq xs v" for j using first_geqD(1) [OF assms(1) that] .
  then have lo: "x < v" if "x \<in> set (take (first_geq xs v) xs)" for x
    using that by (auto simp: in_set_conv_nth)
  have "v < xs ! j" if "first_geq xs v \<le> j" "j < length xs" for j
    using first_geqD(2) [OF assms(1) that] that(2) assms(2) by (metis nth_mem order_le_less)
  then have hi: "v < x" if "x \<in> set (drop (first_geq xs v) xs)" for x
    using that by (auto simp: in_set_conv_nth)
  have "sorted_wrt (<) (take (first_geq xs v) xs @ drop (first_geq xs v) xs)" using assms(1) by simp
  then show ?thesis using lo hi unfolding list_ins_def sorted_wrt_append by (auto intro: less_trans)
qed

lemma set_list_ins_eq: "k \<le> length xs \<Longrightarrow> set (list_ins k x xs) = insert x (set xs)"
proof -
  have "set (take k xs) \<union> set (drop k xs) = set xs" by (metis append_take_drop_id set_append)
  then show ?thesis by (auto simp: list_ins_def)
qed

lemma ErrNDISeekLeafPage_miss:
  fixes p :: CPAGE and K :: "bytes KEYDATAFLAGS"
  assumes "nodes_ok p" "sorted_wrt (<) (bms u p)" "bm_val (NDGetBookmarkFromKDF K u) \<notin> set (bms u p)" "kdf_data K \<noteq> []"
  defines "f \<equiv> first_geq (bms u p) (bm_val (NDGetBookmarkFromKDF K u))"
  shows "ErrNDISeekLeafPage p (NDGetBookmarkFromKDF K u) u =
    Some (if f = length (bms u p) then (wrnNDFoundLess, Clines p - 1) else (wrnNDFoundGreater, int f))"
proof -
  define bm where "bm = NDGetBookmarkFromKDF K u"
  have fl: "f \<le> length (bms u p)" by (simp add: f_def first_geq_le)
  have bk: "key_bytes (bm_key bm) = key_bytes (kdf_key K)" "bm_data bm = (if u then [] else kdf_data K)"
    by (simp_all add: bm_def NDGetBookmarkFromKDF_def)
  obtain cmp where S: "IlineNDISeekGEQ p bm u = Some (if f = length (bms u p) then -1 else int f, cmp)"
    "f < length (bms u p) \<longrightarrow>
      (let key = fst (bms u p ! f); data = snd (bms u p ! f)
       in cmp = (if key = key_bytes (bm_key bm) \<and> bm_data bm \<noteq> [] then order_cmp data (bm_data bm)
               else order_cmp key (key_bytes (bm_key bm))))"
    using IlineNDISeekGEQ_spec [OF assms(1,2), of bm, folded f_def] unfolding f_def bm_def by blast
  have ne: "cmp \<noteq> 0" if "f < length (bms u p)"
  proof
    assume z: "cmp = 0"
    have "bms u p ! f \<in> set (bms u p)" using that by (rule nth_mem)
    then have m: "bms u p ! f \<noteq> bm_val bm" using assms(3) unfolding bm_def by metis
    have d: "snd (bms u p ! f) = []" if u using that \<open>f < length (bms u p)\<close> by (simp add: bms_def bm_val_def NDGetBookmarkFromKDF_def)
    show False using S(2) that z m d assms(4)
      by (cases "bms u p ! f"; cases u) (auto simp: Let_def order_cmp_zero bk bm_val_def split: if_splits)
  qed
  show ?thesis unfolding bm_def [symmetric] using S(1) ne fl by (auto simp: ErrNDISeekLeafPage_def)
qed

text \<open>
  C37: seek and insert.  When the bookmark of a new node is not on a leaf page in order, \<open>ErrNDISeekLeafPage\<close> says so, and inserting the node where
  it says (behind the line when that is the last one and is less) gives a page in order with exactly that bookmark more;
  the node is stored with the part of its key the prefix of the page does not have.
\<close>
theorem seek_and_insert:
  fixes p :: CPAGE and K :: "bytes KEYDATAFLAGS" and c :: nat and u :: bool
  assumes "nodes_ok p" "sorted_wrt (<) (bms u p)" "bm_val (NDGetBookmarkFromKDF K u) \<notin> set (bms u p)" "ITagMicFree p < 4095"
    and "c < 8192" "c \<le> length (key_bytes (kdf_key K))" "length (key_bytes (kdf_key K)) - c < 8192"
      "c \<le> length (node_prefix p)" "c = 0 \<or> 2 < c"
    and "take c (key_bytes (kdf_key K)) = take c (node_prefix p)" "kdf_data K \<noteq> []"
    and "int (length (enc_node c (key_bytes (kdf_key K)) (kdf_data K))) + 4 \<le> uint (CbFree p)"
  shows "\<exists>err iline q. ErrNDISeekLeafPage p (NDGetBookmarkFromKDF K u) u = Some (err, iline) \<and> err \<noteq> JET_errSuccess \<and>
    NDInsert_cbPrefix (if err = wrnNDFoundLess then iline + 1 else iline) (map_KEYDATAFLAGS OffPage K) (int c) p = Some q \<and>
    nodes_ok q \<and> sorted_wrt (<) (bms u q) \<and> set (bms u q) = insert (bm_val (NDGetBookmarkFromKDF K u)) (set (bms u p)) \<and>
    length (nodes q) = length (nodes p) + 1"
proof -
  define bm where "bm = NDGetBookmarkFromKDF K u"
  define key where "key = key_bytes (kdf_key K)"
  define f where "f = first_geq (bms u p) (bm_val bm)"
  define err where "err = (if f = length (bms u p) then wrnNDFoundLess else wrnNDFoundGreater)"
  define iline where "iline = (if f = length (bms u p) then Clines p - 1 else int f)"
  have fl: "f \<le> length (bms u p)" by (simp add: f_def first_geq_le)
  have i: "0 \<le> int f" "int f \<le> Clines p" and at: "(if err = wrnNDFoundLess then iline + 1 else iline) = int f"
    using fl length_bms [of p u] nodes_ok_page [OF assms(1)] by (simp_all add: err_def iline_def)
  have seek: "ErrNDISeekLeafPage p bm u = Some (err, iline)"
    using ErrNDISeekLeafPage_miss [OF assms(1-3,11), folded bm_def, folded f_def] by (simp add: err_def iline_def)
  define fls where "fls = (if c = 0 then kdf_fFlags K AND NOT fNDCompressed else kdf_fFlags K OR fNDCompressed)"
  obtain q where q: "NDInsert_cbPrefix (int f) (map_KEYDATAFLAGS OffPage K) (int c) p = Some q" "nodes_ok q"
    "nodes q = list_ins f (KDF (KEY (take c key) (drop c key)) (kdf_data K) (fls AND 7)) (nodes p)"
    by (rule NDInsert_cbPrefix_spec [OF assms(1) i assms(4-12)]) (simp add: key_def fls_def)
  have v: "bm_val (NDGetBookmarkFromKDF (KDF (KEY (take c key) (drop c key)) (kdf_data K) (fls AND 7)) u) = bm_val bm"
    by (simp add: bm_val_def bm_def NDGetBookmarkFromKDF_def key_bytes_def key_def [symmetric]) (simp add: key_def key_bytes_def)
  have b: "bms u q = list_ins f (bm_val bm) (bms u p)"
    by (simp add: bms_def q(3) v flip: list_ins_map)
  have "length (nodes q) = length (nodes p) + 1" using fl by (simp add: q(3) list_ins_def bms_def)
  moreover have "sorted_wrt (<) (bms u q)" unfolding b f_def using sorted_list_ins [OF assms(2,3)] by (simp add: bm_def)
  ultimately show ?thesis
    using seek q(1,2) b at set_list_ins_eq [OF fl, of "bm_val bm"] unfolding bm_def [symmetric]
    by (intro exI [of _ err] exI [of _ iline] exI [of _ q]) (auto simp: err_def)
qed

lemma seek_and_insert_witness:
  "\<exists>err iline q. ErrNDISeekLeafPage sample_leaf (NDGetBookmarkFromKDF (KDF (KEY [1, 2] [3, 4]) [8] 0) True) True = Some (err, iline) \<and>
    err \<noteq> JET_errSuccess \<and>
    NDInsert_cbPrefix (if err = wrnNDFoundLess then iline + 1 else iline)
      (map_KEYDATAFLAGS OffPage (KDF (KEY [1, 2] [3, 4]) [8] 0)) (int 3) sample_leaf = Some q \<and>
    nodes_ok q \<and> sorted_wrt (<) (bms True q) \<and>
    set (bms True q) = insert (bm_val (NDGetBookmarkFromKDF (KDF (KEY [1, 2] [3, 4]) [8] 0) True)) (set (bms True sample_leaf)) \<and>
    length (nodes q) = length (nodes sample_leaf) + 1"
  by (rule seek_and_insert [OF sample_nodes_ok(1)]) code_simp+


subsection \<open>The operations on a node\<close>

text \<open>
  C38: the nodes of a page stay well formed.  Every node of a page of nodes is read back by both decoding routines, the one with
  the checks finding nothing wrong, with the bytes of its key and data; and deletion, setting and resetting of
  flags and new data that is not longer give a page of nodes that differs in this node only.
\<close>
theorem node_operations:
  assumes "nodes_ok p" "0 \<le> iline" "iline < Clines p" "d \<noteq> []" "length d \<le> length (kdf_data (nodes p ! nat iline))"
  shows "(\<exists>kdf. NDIGetKeydataflags iline p = Some kdf \<and> ErrNDIGetKeydataflags iline p = (kdf, JET_errSuccess) \<and>
      read_kdf p kdf = nodes p ! nat iline) \<and>
    nodes_ok (NDDelete iline p) \<and> nodes (NDDelete iline p) = list_del (nat iline) (nodes p) \<and>
    (\<exists>q. NDISetFlag iline fNDVersion p = Some q \<and> nodes_ok q \<and> nodes q = (nodes p)[nat iline := KDF (kdf_key (nodes p ! nat iline))
      (kdf_data (nodes p ! nat iline)) ((kdf_fFlags (nodes p ! nat iline) OR fNDVersion) AND 7)]) \<and>
    (\<exists>q. NDResetFlagDelete iline p = Some q \<and> nodes_ok q \<and> nodes q = (nodes p)[nat iline := KDF (kdf_key (nodes p ! nat iline))
      (kdf_data (nodes p ! nat iline)) ((kdf_fFlags (nodes p ! nat iline) AND NOT fNDDeleted) AND 7)]) \<and>
    (\<exists>q. NDReplace iline (OffPage d) p = Some q \<and> nodes_ok q \<and> nodes q = (nodes p)[nat iline := KDF (kdf_key (nodes p ! nat iline))
      d (kdf_fFlags (nodes p ! nat iline))])"
proof (intro conjI)
  have p: "page_ok p" using nodes_ok_page [OF assms(1)] by simp
  obtain kdf where kdf: "NDIGetKeydataflags iline p = Some kdf" "read_kdf p kdf = nodes p ! nat iline"
    using node_bookmark [OF assms(1-3)] by metis
  then show "\<exists>kdf. NDIGetKeydataflags iline p = Some kdf \<and> ErrNDIGetKeydataflags iline p = (kdf, JET_errSuccess) \<and>
      read_kdf p kdf = nodes p ! nat iline"
    using ErrNDIGetKeydataflags_ok [OF p assms(2,3) nodes_ok_nth [OF assms(1-3)]] by auto
  show "nodes_ok (NDDelete iline p)" "nodes (NDDelete iline p) = list_del (nat iline) (nodes p)"
    using NDDelete_spec [OF assms(1-3)] by simp_all
  have f: "fNDVersion AND fNDCompressed = 0" "fNDDeleted AND fNDCompressed = 0"
    by (simp_all add: fNDVersion_def fNDDeleted_def fNDCompressed_def)
  show "\<exists>q. NDISetFlag iline fNDVersion p = Some q \<and> nodes_ok q \<and> nodes q = (nodes p)[nat iline := KDF (kdf_key (nodes p ! nat iline))
      (kdf_data (nodes p ! nat iline)) ((kdf_fFlags (nodes p ! nat iline) OR fNDVersion) AND 7)]"
    using NDISetFlag_spec [OF assms(1-3) f(1)] by blast
  show "\<exists>q. NDResetFlagDelete iline p = Some q \<and> nodes_ok q \<and> nodes q = (nodes p)[nat iline := KDF (kdf_key (nodes p ! nat iline))
      (kdf_data (nodes p ! nat iline)) ((kdf_fFlags (nodes p ! nat iline) AND NOT fNDDeleted) AND 7)]"
    using NDIResetFlag_spec [OF assms(1-3) f(2)] unfolding NDResetFlagDelete_def by blast
  show "\<exists>q. NDReplace iline (OffPage d) p = Some q \<and> nodes_ok q \<and> nodes q = (nodes p)[nat iline := KDF (kdf_key (nodes p ! nat iline))
      d (kdf_fFlags (nodes p ! nat iline))]"
    using NDReplace_spec [OF assms] by blast
qed

lemma node_operations_witness:
  "(\<exists>kdf. NDIGetKeydataflags 1 sample_leaf = Some kdf \<and> ErrNDIGetKeydataflags 1 sample_leaf = (kdf, JET_errSuccess) \<and>
      read_kdf sample_leaf kdf = nodes sample_leaf ! nat 1) \<and>
    nodes_ok (NDDelete 1 sample_leaf) \<and> nodes (NDDelete 1 sample_leaf) = list_del (nat 1) (nodes sample_leaf) \<and>
    (\<exists>q. NDISetFlag 1 fNDVersion sample_leaf = Some q \<and> nodes_ok q \<and>
      nodes q = (nodes sample_leaf)[nat 1 := KDF (kdf_key (nodes sample_leaf ! nat 1))
        (kdf_data (nodes sample_leaf ! nat 1)) ((kdf_fFlags (nodes sample_leaf ! nat 1) OR fNDVersion) AND 7)]) \<and>
    (\<exists>q. NDResetFlagDelete 1 sample_leaf = Some q \<and> nodes_ok q \<and>
      nodes q = (nodes sample_leaf)[nat 1 := KDF (kdf_key (nodes sample_leaf ! nat 1))
        (kdf_data (nodes sample_leaf ! nat 1)) ((kdf_fFlags (nodes sample_leaf ! nat 1) AND NOT fNDDeleted) AND 7)]) \<and>
    (\<exists>q. NDReplace 1 (OffPage [6]) sample_leaf = Some q \<and> nodes_ok q \<and>
      nodes q = (nodes sample_leaf)[nat 1 := KDF (kdf_key (nodes sample_leaf ! nat 1)) [6] (kdf_fFlags (nodes sample_leaf ! nat 1))])"
  by (rule node_operations [OF sample_nodes_ok(1)]) code_simp+

abbreviation keys_data :: "CPAGE \<Rightarrow> (bytes \<times> bytes) list" where
  "keys_data p \<equiv> map (\<lambda>n. (key_bytes (kdf_key n), kdf_data n)) (nodes p)"

text \<open>A node stored again with another split of the same key keeps the keys and data of the page.\<close>

lemma keys_data_resplit:
  assumes "nodes q = (nodes p)[k := KDF K d fl]" "k < length (nodes p)"
    and "key_bytes K = key_bytes (kdf_key (nodes p ! k))" "d = kdf_data (nodes p ! k)"
  shows "keys_data q = keys_data p"
proof -
  have "keys_data q = (keys_data p)[k := keys_data p ! k]" using assms by (simp add: map_update)
  then show ?thesis by simp
qed

text \<open>The bytes of the line of a node, and those it needs with a shorter prefix.\<close>

lemma line_bytes_node:
  fixes p :: CPAGE
  assumes "nodes_ok p" "0 \<le> iline" "iline < Clines p" "n = nodes p ! nat iline" "c = length (prefix (kdf_key n))"
  shows "line_bytes (data_lines p ! nat iline) = int (length (enc_node c (key_bytes (kdf_key n)) (kdf_data n)))"
    "c = 0 \<or> 2 < c" "length (key_bytes (kdf_key n)) - c < 8192" "c \<le> length (key_bytes (kdf_key n))"
    "kdf_key n = KEY (take c (key_bytes (kdf_key n))) (drop c (key_bytes (kdf_key n)))"
    "(kdf_fFlags n AND fNDCompressed = 0) = (c = 0)" "kdf_fFlags n AND 7 = kdf_fFlags n"
proof -
  obtain k cc sfx dn where
    sz: "int (length (key_bytes (kdf_key n))) = int cc + sfx" "int (length (kdf_data n)) = dn"
      "(if cc = 0 then 2 else 4) + sfx + dn = t_cb (tags p ! k)" "line_bytes (data_lines p ! nat iline) = t_cb (tags p ! k)"
    and C: "cc \<le> length (key_bytes (kdf_key n))" "length (key_bytes (kdf_key n)) - cc < 8192" "cc = 0 \<or> 2 < cc"
      "KEY (take cc (key_bytes (kdf_key n))) (drop cc (key_bytes (kdf_key n))) = kdf_key n"
    and fl: "(kdf_fFlags n AND fNDCompressed = 0) = (cc = 0)" "kdf_fFlags n AND 7 = kdf_fFlags n"
    using current_layout [OF assms(1-3), folded assms(4)] by metis
  have "cc = c" using arg_cong [OF C(4), of "\<lambda>k. length (prefix k)"] C(1) assms(5) by simp
  then show "line_bytes (data_lines p ! nat iline) = int (length (enc_node c (key_bytes (kdf_key n)) (kdf_data n)))"
    "c = 0 \<or> 2 < c" "length (key_bytes (kdf_key n)) - c < 8192" "c \<le> length (key_bytes (kdf_key n))"
    "kdf_key n = KEY (take c (key_bytes (kdf_key n))) (drop c (key_bytes (kdf_key n)))"
    "(kdf_fFlags n AND fNDCompressed = 0) = (c = 0)" "kdf_fFlags n AND 7 = kdf_fFlags n"
    using sz C fl by (auto simp: length_enc_node)
qed

text \<open>
  the prefix of a node.  \<open>NDGrowCbPrefix\<close>, which moves the rest of the node within its line, leaves the key and the data of
  every node as they are and gives the bytes it saves to the free space; \<open>NDShrinkCbPrefix\<close> then finds the room to take them
  back and restores the nodes exactly.
\<close>
theorem prefix_grow_and_shrink:
  fixes p :: CPAGE and iline :: int and c' :: nat
  assumes ok: "nodes_ok p" and i: "0 \<le> iline" "iline < Clines p"
    and kdf0: "NDIGetKeydataflags iline p = Some kdf"
    and c': "2 < c'" "c' < 8192" "length (prefix (kdf_key (nodes p ! nat iline))) \<le> c'"
      "c' \<le> length (key_bytes (kdf_key (nodes p ! nat iline)))" "c' \<le> length (node_prefix p)"
      "take c' (key_bytes (kdf_key (nodes p ! nat iline))) = take c' (node_prefix p)"
  shows "\<exists>q kdf' q'. NDGrowCbPrefix iline kdf (int c') p = Some q \<and> nodes_ok q \<and>
    map (\<lambda>n. (key_bytes (kdf_key n), kdf_data n)) (nodes q) = map (\<lambda>n. (key_bytes (kdf_key n), kdf_data n)) (nodes p) \<and>
    NDIGetKeydataflags iline q = Some kdf' \<and>
    NDShrinkCbPrefix iline kdf' (node_prefix p) (int (length (prefix (kdf_key (nodes p ! nat iline))))) q = Some q' \<and>
    nodes_ok q' \<and> nodes q' = nodes p"
proof -
  define n where "n = nodes p ! nat iline"
  define key where "key = key_bytes (kdf_key n)"
  define c where "c = length (prefix (kdf_key n))"
  note c' = c' [folded n_def, folded key_def c_def]
  note L = line_bytes_node [OF ok i n_def c_def, folded key_def]
  have il: "nat iline < length (nodes p)" using i length_nodes [of p] nodes_ok_page [OF ok] by simp
  obtain q where q: "NDGrowCbPrefix iline kdf (int c') p = Some q" "nodes_ok q" "node_prefix q = node_prefix p"
    "nodes q = (nodes p)[nat iline := KDF (KEY (take c' key) (drop c' key)) (kdf_data n) (kdf_fFlags n OR fNDCompressed)]"
    "uint (CbFree q) = uint (CbFree p) + int c' - int c - (if prefix (kdf_key n) = [] then 2 else 0)"
    using NDGrowCbPrefix_spec [OF ok i kdf0, folded n_def, folded key_def c_def, OF c'] by metis
  have nq: "KDF (KEY (take c' key) (drop c' key)) (kdf_data n) (kdf_fFlags n OR fNDCompressed) = nodes q ! nat iline"
    using il by (simp add: q(4))
  have cq: "iline < Clines q"
    using il i length_nodes [of q] nodes_ok_page [OF q(2)] by (simp add: q(4))
  obtain kdf' where kdf': "NDIGetKeydataflags iline q = Some kdf'" using node_bookmark [OF q(2) i(1) cq] by metis
  have kq: "key_bytes (kdf_key (nodes q ! nat iline)) = key" "kdf_data (nodes q ! nat iline) = kdf_data n"
    "prefix (kdf_key (nodes q ! nat iline)) = take c' key" "length (take c' key) = c'"
    using c'(4) by (simp_all add: key_bytes_def flip: nq)
  note Lq = line_bytes_node(1) [OF q(2) i(1) cq refl refl, unfolded kq]
  have old: "take (length (prefix (kdf_key (nodes q ! nat iline)))) (node_prefix p) = prefix (kdf_key (nodes q ! nat iline))"
    "c \<le> length (prefix (kdf_key (nodes q ! nat iline)))" "length (key_bytes (kdf_key (nodes q ! nat iline))) - c < 8192"
    using c'(3-6) L(3) by (simp_all add: kq min_absorb1)
  have "prefix (kdf_key n) = [] \<longleftrightarrow> c = 0" by (simp add: c_def)
  then have room: "int (length (enc_node c (key_bytes (kdf_key (nodes q ! nat iline))) (kdf_data (nodes q ! nat iline)))) \<le>
      uint (CbFree q) + line_bytes (data_lines q ! nat iline)"
    unfolding Lq kq(1,2) q(5) using c'(1,3,4) L(4) uint16_nonneg [of "CbFree p"]
    by (auto simp: length_enc_node of_nat_diff)
  obtain q' where q': "NDShrinkCbPrefix iline kdf' (node_prefix p) (int c) q = Some q'" "nodes_ok q'"
    "nodes q' = (nodes q)[nat iline := KDF (KEY (take c key) (drop c key)) (kdf_data n)
      (if c = 0 then (kdf_fFlags n OR fNDCompressed) AND NOT fNDCompressed else (kdf_fFlags n OR fNDCompressed) OR fNDCompressed)]"
    using NDShrinkCbPrefix_spec [OF q(2) i(1) cq kdf' old(1,2) L(2) old(3) room] unfolding kq(1) by (auto simp flip: nq)
  have "KDF (KEY (take c key) (drop c key)) (kdf_data n)
      (if c = 0 then (kdf_fFlags n OR fNDCompressed) AND NOT fNDCompressed else (kdf_fFlags n OR fNDCompressed) OR fNDCompressed) = n"
    using flags_settle(3,4) [OF L(7)] L(5,6) by (cases n) (auto simp: or.assoc)
  then have "nodes q' = nodes p" unfolding q'(3) q(4) by (simp add: n_def)
  moreover have "keys_data q = keys_data p"
    by (rule keys_data_resplit [OF q(4) il]) (simp_all add: key_bytes_def [of "KEY _ _"] flip: n_def key_def)
  ultimately show ?thesis using q(1,2) kdf' q'(1,2) unfolding n_def [symmetric] c_def [symmetric] by blast
qed

lemma prefix_grow_and_shrink_witness:
  "\<exists>q kdf' q'. NDGrowCbPrefix 1 (the (NDIGetKeydataflags 1 sample_leaf)) (int 3) sample_leaf = Some q \<and> nodes_ok q \<and>
    map (\<lambda>n. (key_bytes (kdf_key n), kdf_data n)) (nodes q) = map (\<lambda>n. (key_bytes (kdf_key n), kdf_data n)) (nodes sample_leaf) \<and>
    NDIGetKeydataflags 1 q = Some kdf' \<and>
    NDShrinkCbPrefix 1 kdf' (node_prefix sample_leaf) (int (length (prefix (kdf_key (nodes sample_leaf ! nat 1))))) q = Some q' \<and>
    nodes_ok q' \<and> nodes q' = nodes sample_leaf"
  by (rule prefix_grow_and_shrink [OF sample_nodes_ok(1)]) code_simp+

end
