(* ===== verification/Node_Space_Props.thy ===== *)
theory Node_Space_Props
  imports Node_Undo Node_Props
begin

text \<open>
  The properties of the space a replace and its undo need: a replace keeps what the versions reserve within the free space of
  the page, and an undo is never short of room.
\<close>

subsection \<open>An example\<close>

text \<open>
  The page \<open>sample_leaf\<close> while a transaction has shrunk the data of its first node from two bytes to one: the node is marked,
  its version has the larger size, and the byte it gave up is counted as reserved.
\<close>

definition sample_rce :: RCE where
  "sample_rce = \<lparr>oper = operReplace, fCommitted = False, fRolledBack = False, fEmptyDiff = False, fUndoInfo = True,
     ppib = 7, cbMaxSize = 2, cbDelta = 1, rgbBeforeImage = [5, 6]\<rparr>"

definition sample_shrunk :: CPAGE where
  "sample_shrunk = the (NDISetFlag 0 fNDVersion (AddUncommittedFreed 1 sample_leaf))"

definition sample_env :: VERENV where
  "sample_env = \<lparr>chains = (\<lambda>(key, data). if key = [1, 2] then [sample_rce] else []), fRecovering = False, fWARLatch = True,
     fPageRecentlyDirtied = True, fFUCBUnique = True, fFUCBSpace = False, ppibSession = 7\<rparr>"

definition sample_log :: LOGENV where
  "sample_log = \<lparr>ErrLG = (\<lambda>lr p. (JET_errSuccess, p\<lparr>fDirty := True\<rparr>)), Dirty = (\<lambda>p. p\<lparr>fDirty := True\<rparr>),
     LGSetColumnDiffs = (\<lambda>new old. (True, 0)), LGSetLVDiffs = (\<lambda>new old. (True, 0)), fDiffBuffer = False,
     cbRecordMin = 4, CbRecordMost = 100, cbLVChunkMost = 100\<rparr>"

lemma sample_log_ok: "log_ok sample_log" "fst (ErrLG sample_log lr p) = JET_errSuccess"
  by (simp_all add: sample_log_def log_ok_def keeps_page_def same_lines_def same_obj_def)

lemma sample_reserve: "reserve_ok [sample_rce] 0 sample_shrunk"
  by code_simp

subsection \<open>Replace and undo\<close>

text \<open>
  C39: the invariant of the reserved space.  A replace with a new version of the node, whether it is refused for space, fails in
  the log, turns out to change nothing or succeeds, leaves the chain with that version in order, what the chain reserves within what the page counts and that count within the
  free space of the page; the node changes only when the replace succeeds, and then to the new data.
\<close>
theorem replace_keeps_reserve:
  fixes p :: CPAGE and prce0 :: RCE and iline :: int
  assumes inv: "reserve_ok C iline p" and i: "0 \<le> iline" "iline < Clines p"
    and key: "key_bytes key = key_bytes (kdf_key (nodes p ! nat iline))"
    and new: "FOperReplace prce0" "\<not> fCommitted prce0" "\<not> fRolledBack prce0"
    and data: "data \<noteq> []" "length data < 32768"
    and env: "\<not> fRecovering env" "fWARLatch env" "CbNDUncommittedFree env p = Some u" "u \<le> uint (cbUncommittedFree (pghdr p))"
      "CbVERGetNodeReserve None C \<le> u" "0 \<le> CbNDReservedSizeOfNode env (nodes p ! nat iline)"
      "CbNDReservedSizeOfNode env (nodes p ! nat iline) \<le> CbVERGetNodeReserve None C"
    and lg: "log_ok lg"
  shows "\<exists>err q r. ErrNDReplace env lg diffs fVersion fLogging fDirtying iline key data
      (Some (VERISetupInsertedDMLRCE (kdf_data (nodes p ! nat iline)) C prce0)) p = Some (err, q, Some r) \<and>
    reserve_ok (r # C) iline q \<and>
    (nodes q = nodes p \<or> err = JET_errSuccess \<and>
       nodes q = (nodes p)[nat iline := KDF (kdf_key (nodes p ! nat iline)) data
         (if fVersion then kdf_fFlags (nodes p ! nat iline) OR fNDVersion else kdf_fFlags (nodes p ! nat iline))])"
proof -
  define d where "d = kdf_data (nodes p ! nat iline)"
  define prce where "prce = VERISetupInsertedDMLRCE d C prce0"
  have c: "chain_ok C (Cb d)" using inv by (simp add: reserve_ok_def d_def)
  note S = chain_ok_setup [OF c new, folded prce_def]
  have P: "FOperReplace prce" "\<not> fCommitted prce" "rgbBeforeImage prce = kdf_data (nodes p ! nat iline)"
    using new by (simp_all add: prce_def VERISetupInsertedDMLRCE_def FOperReplace_def d_def)
  have inv': "reserve_ok (prce # C) iline p" using inv S by (simp only: reserve_ok_def d_def)
  show ?thesis
    by (rule replace_reserve_spec [OF inv' i key P data env(1-3) env(4) [folded unc_def] env(5) [folded S(2)] env(6)
        env(7) [folded S(2)] lg, unfolded prce_def d_def])
qed

lemma replace_keeps_reserve_witness:
  "\<exists>err q r. ErrNDReplace sample_env sample_log fDIRLogFull True True False 0 (KEY [] [1, 2]) [1, 1, 1]
      (Some (VERISetupInsertedDMLRCE (kdf_data (nodes sample_shrunk ! nat 0)) [sample_rce] (sample_rce\<lparr>rgbBeforeImage := []\<rparr>))) sample_shrunk =
      Some (err, q, Some r) \<and>
    reserve_ok (r # [sample_rce]) 0 q \<and>
    (nodes q = nodes sample_shrunk \<or> err = JET_errSuccess \<and>
       nodes q = (nodes sample_shrunk)[nat 0 := KDF (kdf_key (nodes sample_shrunk ! nat 0)) [1, 1, 1]
         (if True then kdf_fFlags (nodes sample_shrunk ! nat 0) OR fNDVersion else kdf_fFlags (nodes sample_shrunk ! nat 0))])"
proof (rule replace_keeps_reserve [OF sample_reserve, where u = 1])
  show "CbNDUncommittedFree sample_env sample_shrunk = Some 1" by code_simp
qed (rule sample_log_ok | code_simp)+

text \<open>
  C40: undo never runs out of room.  From any page on which the invariant of the reserved space holds, undoing the newest
  replace of the chain succeeds: the node has its old data back, no other node changes, and the invariant holds for the rest of the chain.
\<close>
theorem undo_has_room:
  fixes p :: CPAGE and prce :: RCE and iline :: int
  assumes inv: "reserve_ok (prce # C) iline p" and i: "0 \<le> iline" "iline < Clines p"
    and key: "key_bytes key = key_bytes (kdf_key (nodes p ! nat iline))"
    and prce: "FOperReplace prce" "\<not> fCommitted prce" "\<not> fEmptyDiff prce" "rgbBeforeImage prce \<noteq> []"
    and env: "\<not> fRecovering env"
    and lg: "log_ok lg" "\<And>q. fst (ErrLG lg lrUndoInfo q) = JET_errSuccess" "\<And>q. fst (ErrLG lg lrUndo q) = JET_errSuccess"
  shows "\<exists>q. ErrVERIUndoReplacePhysical env lg prce iline key p = Some (JET_errSuccess, q) \<and>
    nodes q = (nodes p)[nat iline := KDF (kdf_key (nodes p ! nat iline)) (rgbBeforeImage prce) (kdf_fFlags (nodes p ! nat iline))] \<and>
    reserve_ok C iline q \<and> uint (cbUncommittedFree (pghdr q)) = uint (cbUncommittedFree (pghdr p)) - sint (cbDelta prce)"
  using undo_replace_spec [OF assms] unfolding unc_def .

lemma undo_has_room_witness:
  "\<exists>q. ErrVERIUndoReplacePhysical sample_env sample_log sample_rce 0 (KEY [] [1, 2]) sample_shrunk = Some (JET_errSuccess, q) \<and>
    nodes q = (nodes sample_shrunk)[nat 0 := KDF (kdf_key (nodes sample_shrunk ! nat 0)) (rgbBeforeImage sample_rce) (kdf_fFlags (nodes sample_shrunk ! nat 0))] \<and>
    reserve_ok [] 0 q \<and> uint (cbUncommittedFree (pghdr q)) = uint (cbUncommittedFree (pghdr sample_shrunk)) - sint (cbDelta sample_rce)"
  by (rule undo_has_room [OF sample_reserve]) (rule sample_log_ok | code_simp)+

end
