(* ===== verification/Ver_Visible.thy ===== *)
theory Ver_Visible
  imports Node_Log
begin

text \<open>
  The versions of a node and who sees what (\<open>src/ese/ver.cxx\<close>, \<open>src/inc/ver.hxx\<close>, \<open>src/inc/pib.hxx\<close>).  A
  transaction gets a number when it begins and one when it commits; the numbers are 32-bit and wrap
  around.  Every change of a node leaves a version with the number its transaction began with and, once that
  has committed, the number of the commit.  A session sees the node as it was when its transaction
  began, with its own changes, and a change is refused if another transaction has changed the node in the meantime.

  The versions of one node are a list, the newest first (\<open>PrcePrevOfNode\<close> leads to the tail); the list is
  what \<open>PrceRCEGet\<close> finds in the hash table for the bookmark.  \<open>m_trxCommitted\<close> is what \<open>TrxCommitted()\<close>
  answers: \<open>m_ptrxCommitted\<close> points to the \<open>trxCommit0\<close> of the session until the
  commit copies it.  The spin on \<open>trxPrecommit\<close> makes the commit of a session one step for the others.
  A session is its \<open>PIB\<close>; \<open>m_ppib\<close> is the identity of \<open>Pfucb()->ppib\<close>.
\<close>

subsection \<open>Transaction numbers\<close>

type_synonym TRX = u32
type_synonym RCEID = u32

definition trxMin :: TRX where "trxMin = 0"
definition trxMax :: TRX where "trxMax = 0xffffffff"
definition trxPrecommit :: TRX where "trxPrecommit = trxMax - 0x10"
definition rceidNull :: RCEID where "rceidNull = 0"
definition TRXID_INCR :: TRX where "TRXID_INCR = 4"

definition TrxCmp :: "TRX \<Rightarrow> TRX \<Rightarrow> int" where
  "TrxCmp trx1 trx2 =
     (if trx1 = trx2 then 0
      else if trxMax = trx2 then -1
      else if trxMax = trx1 then 1
      else sint (trx1 - trx2))"

definition RceidCmp :: "RCEID \<Rightarrow> RCEID \<Rightarrow> int" where
  "RceidCmp rceid1 rceid2 =
     (if rceid1 = rceid2 then 0
      else if rceidNull = rceid1 then -1
      else if rceidNull = rceid2 then 1
      else sint (rceid1 - rceid2))"

subsection \<open>Sessions\<close>

text \<open>
  \<open>rgfucb\<close> are the cursors of the session, each with \<open>FFUCBReplacePrepared\<close> and its \<open>updateid\<close>.
\<close>

record PIB =
  pib_id :: nat
  trxBegin0 :: TRX
  trxCommit0 :: TRX
  pib_level :: nat
  fReadOnlyTrx :: bool
  pib_updateid :: nat
  rgfucb :: "(bool \<times> nat) list"

definition updateidNil :: nat where "updateidNil = 0"

text \<open>The new \<open>m_trxNewest\<close> of the instance, and the session.\<close>

definition PIBSetTrxBegin0 :: "TRX \<Rightarrow> 'm PIB_scheme \<Rightarrow> TRX \<times> 'm PIB_scheme" where
  "PIBSetTrxBegin0 trxNewest pib =
     (if fReadOnlyTrx pib
      then (trxNewest, pib\<lparr>trxBegin0 := trxNewest + TRXID_INCR div 2, trxCommit0 := trxMax\<rparr>)
      else (trxNewest + TRXID_INCR, pib\<lparr>trxBegin0 := trxNewest + TRXID_INCR, trxCommit0 := trxMax\<rparr>))"

text \<open>
  The number of a commit, when the transaction has changed something; otherwise \<open>trxCommit0Hint\<close> will do.
\<close>

definition TrxCommit0 :: "TRX \<Rightarrow> bool \<Rightarrow> TRX \<Rightarrow> TRX \<times> TRX" where
  "TrxCommit0 trxNewest fSessionHasRCE trxCommit0Hint =
     (if fSessionHasRCE then (trxNewest + TRXID_INCR, trxNewest + TRXID_INCR) else (trxNewest, trxCommit0Hint))"

text \<open>The oldest transaction, over the oldest one of every processor; the cached value is an argument where the code uses it.\<close>

fun TrxOldestLoop :: "TRX \<Rightarrow> TRX list \<Rightarrow> TRX" where
  "TrxOldestLoop trxOldest [] = trxOldest"
| "TrxOldestLoop trxOldest (trx # rest) = TrxOldestLoop (if TrxCmp trx trxOldest < 0 then trx else trxOldest) rest"

definition UpdateCachedTrxOldest :: "TRX list \<Rightarrow> TRX" where
  "UpdateCachedTrxOldest rgtrx = TrxOldestLoop trxMax rgtrx"

fun FUpdateIsActive :: "(bool \<times> nat) list \<Rightarrow> nat \<Rightarrow> bool" where
  "FUpdateIsActive [] updateid = False"
| "FUpdateIsActive ((fPrepared, u) # rest) updateid = (if fPrepared \<and> u = updateid then True else FUpdateIsActive rest updateid)"

subsection \<open>Versions\<close>

text \<open>
  The fields of an \<open>RCE\<close> of the data of a node.  \<open>m_before\<close> is the before image of a replace; \<open>m_cbOffset\<close> and \<open>m_tDelta\<close> are
  those of a \<open>VERDELTA\<close>.
\<close>

record 'd VERSION =
  m_oper :: OPER
  m_ppib :: nat
  m_trxBegin0 :: TRX
  m_trxCommitted :: TRX
  m_level :: nat
  m_fRolledBack :: bool
  m_fProxy :: bool
  m_rceid :: RCEID
  m_updateid :: nat
  m_before :: 'd
  m_cbOffset :: int
  m_tDelta :: int

definition FOperConcurrent :: "OPER \<Rightarrow> bool" where
  "FOperConcurrent opr \<longleftrightarrow> opr \<in> {operDelta, operDelta64, operWriteLock, operPreInsert, operReadLock}"

definition FUndoableLoggedOper :: "OPER \<Rightarrow> bool" where
  "FUndoableLoggedOper opr \<longleftrightarrow> opr = operReplace \<or> opr = operInsert \<or> opr = operFlagDelete \<or> opr = operDelta \<or> opr = operDelta64"

definition FFullyCommitted :: "('d, 'm) VERSION_scheme \<Rightarrow> bool" where
  "FFullyCommitted prce \<longleftrightarrow> trxMax \<noteq> m_trxCommitted prce"

definition FActiveNotByMe :: "('d, 'm) VERSION_scheme \<Rightarrow> nat \<Rightarrow> TRX \<Rightarrow> bool" where
  "FActiveNotByMe prce pibid trxSession \<longleftrightarrow>
     (trxMax = m_trxCommitted prce \<and> m_ppib prce \<noteq> pibid) \<or>
     (trxMax \<noteq> m_trxCommitted prce \<and> TrxCmp (m_trxCommitted prce) trxSession > 0)"

definition TrxVERISession :: "'m PIB_scheme \<Rightarrow> TRX" where
  "TrxVERISession pib = trxBegin0 pib"

subsection \<open>Reading\<close>

text \<open>With each answer: whether the version bit of the node is to be reset (\<open>NDDeferResetNodeVersion\<close>).\<close>

definition VsVERCheck :: "bool \<Rightarrow> nat \<Rightarrow> ('d, 'm) VERSION_scheme list \<Rightarrow> VS \<times> bool" where
  "VsVERCheck fFUCBUpdatable pibid chain =
     (case chain of
        [] \<Rightarrow> (vsCommitted, fFUCBUpdatable)
      | prce # _ \<Rightarrow>
          (if m_trxCommitted prce \<noteq> trxMax then vsCommitted
           else if m_ppib prce \<noteq> pibid then vsUncommittedByOther
           else vsUncommittedByCaller, False))"

text \<open>The loop of \<open>ErrVERAccessNode\<close> over the versions the session does not see: the last one that is no delta or lock, and the last replace.\<close>

fun AccessLoop :: "TRX \<Rightarrow> ('d, 'm) VERSION_scheme list \<Rightarrow> ('d, 'm) VERSION_scheme \<Rightarrow> ('d, 'm) VERSION_scheme option \<Rightarrow>
    ('d, 'm) VERSION_scheme \<times> ('d, 'm) VERSION_scheme option" where
  "AccessLoop trxSession [] prceLastNonDelta prceLastReplace = (prceLastNonDelta, prceLastReplace)"
| "AccessLoop trxSession (prce # rest) prceLastNonDelta prceLastReplace =
     (if TrxCmp (m_trxCommitted prce) trxSession \<ge> 0 then
        if \<not> m_fRolledBack prce then
          (case m_oper prce of
             operDelta \<Rightarrow> AccessLoop trxSession rest prceLastNonDelta prceLastReplace
           | operDelta64 \<Rightarrow> AccessLoop trxSession rest prceLastNonDelta prceLastReplace
           | operReadLock \<Rightarrow> AccessLoop trxSession rest prceLastNonDelta prceLastReplace
           | operWriteLock \<Rightarrow> AccessLoop trxSession rest prceLastNonDelta prceLastReplace
           | operReplace \<Rightarrow> AccessLoop trxSession rest prce (Some prce)
           | _ \<Rightarrow> AccessLoop trxSession rest prce prceLastReplace)
        else AccessLoop trxSession rest prceLastNonDelta prceLastReplace
      else (prceLastNonDelta, prceLastReplace))"

text \<open>
  The before image is the data the cursor gets instead of those of the node.  At level 0 it is copied, and
  \<open>fAlloc\<close> tells whether there was memory for that.  The fast path for an empty bucket does
  what the slow one does for a node without versions.
\<close>

definition ErrVERAccessNode :: "'p PIB_scheme \<Rightarrow> bool \<Rightarrow> bool \<Rightarrow> ('d, 'm) VERSION_scheme list \<Rightarrow> NDERR \<times> NS \<times> 'd option \<times> bool" where
  "ErrVERAccessNode pib fFUCBUpdatable fAlloc chain =
     (let trxSession = TrxVERISession pib
      in case chain of
           [] \<Rightarrow> (JET_errSuccess, nsDatabase, None, fFUCBUpdatable)
         | prce # _ \<Rightarrow>
             if m_trxCommitted prce = trxMax \<and> m_ppib prce = pib_id pib then (JET_errSuccess, nsUncommittedVerInDB, None, False)
             else if TrxCmp (m_trxCommitted prce) trxSession < 0 then (JET_errSuccess, nsCommittedVerInDB, None, False)
             else
               case AccessLoop trxSession chain prce None of
                 (prce, prceLastReplace) \<Rightarrow>
                   let nsStatus =
                         (case m_oper prce of
                            operReplace \<Rightarrow> if m_fRolledBack prce then nsDatabase else nsVersionedUpdate
                          | operFlagDelete \<Rightarrow> if m_fRolledBack prce then nsDatabase else nsVersionedUpdate
                          | operInsert \<Rightarrow> nsVersionedInsert
                          | _ \<Rightarrow> nsDatabase)
                   in case prceLastReplace of
                        Some prceLastReplace \<Rightarrow>
                          if nsStatus \<noteq> nsVersionedInsert then
                            if pib_level pib = 0 \<and> \<not> fAlloc then (JET_errOutOfMemory, nsStatus, None, False)
                            else (JET_errSuccess, nsStatus, Some (m_before prceLastReplace), False)
                          else (JET_errSuccess, nsStatus, None, False)
                      | None \<Rightarrow> (JET_errSuccess, nsStatus, None, False))"

text \<open>The delta that compensates the versions the session does not see; \<open>opr\<close> is \<open>_VERDELTA<TDelta>::TRAITS::oper\<close>.\<close>

fun DeltaLoop :: "OPER \<Rightarrow> 'p PIB_scheme \<Rightarrow> int \<Rightarrow> ('d, 'm) VERSION_scheme list \<Rightarrow> 'w::len word \<Rightarrow> 'w word" where
  "DeltaLoop opr pib cbOffset [] tDelta = tDelta"
| "DeltaLoop opr pib cbOffset (prce # rest) tDelta =
     DeltaLoop opr pib cbOffset rest
       (if operReplace = m_oper prce then
          if FActiveNotByMe prce (pib_id pib) (TrxVERISession pib) then 0 else tDelta
        else if opr = m_oper prce then
          if m_cbOffset prce = cbOffset \<and>
             (FActiveNotByMe prce (pib_id pib) (TrxVERISession pib) \<or>
              (trxMax = m_trxCommitted prce \<and> m_ppib prce = pib_id pib \<and> FUpdateIsActive (rgfucb pib) (m_updateid prce)))
          then tDelta - word_of_int (m_tDelta prce) else tDelta
        else tDelta)"

definition DeltaVERGetDelta :: "OPER \<Rightarrow> bool \<Rightarrow> 'p PIB_scheme \<Rightarrow> ('d, 'm) VERSION_scheme list \<Rightarrow> int \<Rightarrow> 'w::len word" where
  "DeltaVERGetDelta opr fPIBDirty pib chain cbOffset = (if fPIBDirty then 0 else DeltaLoop opr pib cbOffset chain 0)"

text \<open>What a retrieval of an escrow column adds to the number it found in the data (\<open>fldext.cxx\<close>).\<close>

definition ErrRECAdjustEscrowedColumn :: "'p PIB_scheme \<Rightarrow> ('d, 'm) VERSION_scheme list \<Rightarrow> nat \<Rightarrow> int \<Rightarrow> bytes \<Rightarrow> NDERR \<times> bytes" where
  "ErrRECAdjustEscrowedColumn pib chain cbMaxLen ibRecordOffset pv =
     (if cbMaxLen \<noteq> length pv then (JET_errInvalidBufferSize, pv)
      else if cbMaxLen = 4 then
        (JET_errSuccess, le_bytes 4 (uint (word_of_int (le_value pv) + DeltaVERGetDelta operDelta False pib chain ibRecordOffset :: 32 word)))
      else if cbMaxLen = 8 then
        (JET_errSuccess, le_bytes 8 (uint (word_of_int (le_value pv) + DeltaVERGetDelta operDelta64 False pib chain ibRecordOffset :: 64 word)))
      else (JET_errInvalidOperation, pv))"

fun FVERDeltaActiveNotByMe :: "'p PIB_scheme \<Rightarrow> ('d, 'm) VERSION_scheme list \<Rightarrow> int \<Rightarrow> bool" where
  "FVERDeltaActiveNotByMe pib [] cbOffset = False"
| "FVERDeltaActiveNotByMe pib (prce # rest) cbOffset =
     (if m_oper prce \<in> {operDelta, operDelta64} \<and> m_cbOffset prce = cbOffset \<and> m_tDelta prce \<noteq> 0 \<and>
         ((trxMax = m_trxCommitted prce \<and> m_ppib prce \<noteq> pib_id pib) \<or>
          (trxMax \<noteq> m_trxCommitted prce \<and> TrxCmp (m_trxCommitted prce) (trxBegin0 pib) > 0))
      then True
      else FVERDeltaActiveNotByMe pib rest cbOffset)"

fun FVERActive :: "('d, 'm) VERSION_scheme list \<Rightarrow> TRX \<Rightarrow> bool" where
  "FVERActive [] trxSession = False"
| "FVERActive (prce # rest) trxSession = (if TrxCmp (m_trxCommitted prce) trxSession > 0 then True else FVERActive rest trxSession)"

subsection \<open>Write conflicts and new versions\<close>

text \<open>The two loops of \<open>FVERIWriteConflict\<close>.\<close>

fun CommuteLoop :: "OPER \<Rightarrow> TRX \<Rightarrow> ('d, 'm) VERSION_scheme list \<Rightarrow> bool" where
  "CommuteLoop opr trxSession [] = False"
| "CommuteLoop opr trxSession (prceT # rest) =
     (if TrxCmp (m_trxCommitted prceT) trxSession > 0
      then if m_oper prceT \<noteq> opr then True else CommuteLoop opr trxSession rest
      else False)"

fun OnlyMineLoop :: "'p PIB_scheme \<Rightarrow> ('d, 'm) VERSION_scheme list \<Rightarrow> bool" where
  "OnlyMineLoop pib [] = False"
| "OnlyMineLoop pib (prceT # rest) =
     (if FActiveNotByMe prceT (pib_id pib) (TrxVERISession pib) then True else OnlyMineLoop pib rest)"

definition FVERIWriteConflict :: "'p PIB_scheme \<Rightarrow> OPER \<Rightarrow> ('d, 'm) VERSION_scheme list \<Rightarrow> bool" where
  "FVERIWriteConflict pib opr chain =
     (case chain of
        [] \<Rightarrow> False
      | prce # _ \<Rightarrow>
          if FActiveNotByMe prce (pib_id pib) (TrxVERISession pib) then
            if operReadLock = opr \<or> operDelta = opr \<or> operDelta64 = opr
            then CommuteLoop opr (TrxVERISession pib) chain
            else True
          else if m_oper prce \<noteq> opr \<and> (operReadLock = m_oper prce \<or> operDelta = m_oper prce \<or> operDelta64 = m_oper prce)
          then OnlyMineLoop pib chain
          else False)"

text \<open>
  The constructor \<open>RCE::RCE\<close>, on memory of the bucket: the bookmark, which is the same for all versions of a node,
  is left out, and the data part comes with \<open>VERISetupInsertedDMLRCE\<close>.
\<close>

definition new_RCE :: "nat \<Rightarrow> TRX \<Rightarrow> nat \<Rightarrow> OPER \<Rightarrow> bool \<Rightarrow> RCEID \<Rightarrow> nat \<Rightarrow> ('d, 'm) VERSION_scheme \<Rightarrow> ('d, 'm) VERSION_scheme" where
  "new_RCE pibid trxBegin level opr fProxy rceid updateid prce =
     prce\<lparr>m_ppib := pibid, m_updateid := updateid, m_trxBegin0 := trxBegin, m_trxCommitted := trxMax, m_level := level,
       m_oper := opr, m_fRolledBack := False, m_fProxy := fProxy, m_rceid := rceid\<rparr>"

definition SetCommittedByProxy :: "TRX \<Rightarrow> ('d, 'm) VERSION_scheme \<Rightarrow> ('d, 'm) VERSION_scheme" where
  "SetCommittedByProxy trx prce = prce\<lparr>m_level := 0, m_trxCommitted := trx\<rparr>"

text \<open>The data part: the cursor has the current data of the node, or the \<open>VERDELTA\<close> (offset and delta) the caller put in their place.\<close>

definition SetupInsertedDMLRCE :: "'d \<Rightarrow> int \<times> int \<Rightarrow> ('d, 'm) VERSION_scheme \<Rightarrow> ('d, 'm) VERSION_scheme" where
  "SetupInsertedDMLRCE data verdelta prce =
     (case m_oper prce of
        operReplace \<Rightarrow> prce\<lparr>m_before := data\<rparr>
      | operDelta \<Rightarrow> prce\<lparr>m_cbOffset := fst verdelta, m_tDelta := snd verdelta\<rparr>
      | operDelta64 \<Rightarrow> prce\<lparr>m_cbOffset := fst verdelta, m_tDelta := snd verdelta\<rparr>
      | _ \<Rightarrow> prce)"

text \<open>
  \<open>ErrVERIInsertRCEIntoHash\<close> on the chain of the node: in recovery a version goes to its place in the order of
  \<open>rceid\<close>, unless it is there already.
\<close>

fun InsertInOrder :: "('d, 'm) VERSION_scheme \<Rightarrow> ('d, 'm) VERSION_scheme list \<Rightarrow> ('d, 'm) VERSION_scheme list option" where
  "InsertInOrder prce [] = Some [prce]"
| "InsertInOrder prce (prcePrev # rest) =
     (if RceidCmp (m_rceid prcePrev) (m_rceid prce) \<ge> 0
      then if m_rceid prcePrev = m_rceid prce then None else map_option ((#) prcePrev) (InsertInOrder prce rest)
      else Some (prce # prcePrev # rest))"

definition InsertRCEIntoChain :: "bool \<Rightarrow> ('d, 'm) VERSION_scheme \<Rightarrow> ('d, 'm) VERSION_scheme list \<Rightarrow> NDERR \<times> ('d, 'm) VERSION_scheme list" where
  "InsertRCEIntoChain fRecov prce chain =
     (if fRecov
      then case InsertInOrder prce chain of None \<Rightarrow> (JET_errPreviousVersion, chain) | Some chain \<Rightarrow> (JET_errSuccess, chain)
      else (JET_errSuccess, prce # chain))"

text \<open>
  What \<open>ErrVERModify\<close> gets from elsewhere: the errors of the allocation of a version and of opening the proxy cursor, the
  next \<open>rceid\<close>, and the content of the memory.
\<close>

record ('d, 'm) MODENV =
  mod_fRecovering :: bool
  mod_errCreateRCE :: NDERR
  mod_errDIROpenByProxy :: NDERR
  mod_rceid :: RCEID
  mod_prce :: "('d, 'm) VERSION_scheme"

datatype ('p, 'v) VERPROXY = proxyNone | proxyRedo RCEID nat | proxyCreateIndex 'p 'v

definition ErrVERModifyCommitted :: "('d, 'm) MODENV \<Rightarrow> OPER \<Rightarrow> TRX \<Rightarrow> TRX \<Rightarrow> ('d, 'm) VERSION_scheme list \<Rightarrow> NDERR \<times> ('d, 'm) VERSION_scheme list" where
  "ErrVERModifyCommitted env opr trxBegin trxCommitted chain =
     (if mod_errCreateRCE env \<noteq> JET_errSuccess then (mod_errCreateRCE env, chain)
      else InsertRCEIntoChain (mod_fRecovering env)
        (SetCommittedByProxy trxCommitted (new_RCE 0 trxBegin 0 opr True (mod_rceid env) updateidNil (mod_prce env))) chain)"

definition ErrVERModify :: "('d, 'm) MODENV \<Rightarrow> 'p PIB_scheme \<Rightarrow> OPER \<Rightarrow> 'd \<Rightarrow> int \<times> int \<Rightarrow>
    ('p PIB_scheme, ('d, 'm) VERSION_scheme) VERPROXY \<Rightarrow> ('d, 'm) VERSION_scheme list \<Rightarrow> NDERR \<times> ('d, 'm) VERSION_scheme list" where
  "ErrVERModify env pib opr data verdelta proxy chain =
     (let create = (\<lambda>pib updateid rceid level.
            if mod_errCreateRCE env \<noteq> JET_errSuccess then (mod_errCreateRCE env, chain)
            else if \<not> mod_fRecovering env \<and> FVERIWriteConflict pib opr chain then (JET_errWriteConflict, chain)
            else InsertRCEIntoChain (mod_fRecovering env)
              (SetupInsertedDMLRCE data verdelta
                (new_RCE (pib_id pib) (trxBegin0 pib) level opr (case proxy of proxyNone \<Rightarrow> False | _ \<Rightarrow> True)
                  (if rceid = rceidNull then mod_rceid env else rceid) updateid (mod_prce env))) chain)
      in case proxy of
           proxyCreateIndex pibPrimary prcePrimary \<Rightarrow>
             if m_trxCommitted prcePrimary \<noteq> trxMax
             then ErrVERModifyCommitted env opr (m_trxBegin0 prcePrimary) (m_trxCommitted prcePrimary) chain
             else if mod_errDIROpenByProxy env \<noteq> JET_errSuccess then (mod_errDIROpenByProxy env, chain)
             else create pibPrimary updateidNil rceidNull (m_level prcePrimary)
         | proxyRedo rceid level \<Rightarrow> create pib updateidNil rceid level
         | proxyNone \<Rightarrow>
             create pib (if FUndoableLoggedOper opr \<or> operPreInsert = opr then pib_updateid pib else updateidNil) rceidNull (pib_level pib))"

subsection \<open>Commit\<close>

text \<open>
  \<open>VERCommitTransaction\<close> on the versions of one node.  The list of the session has its uncommitted versions, those of deeper levels first, so the
  loop that stops at the first one of another level takes all of the current level.  The versions of a temporary
  database are dropped (\<open>fTempDB\<close>).
\<close>

definition mine :: "'p PIB_scheme \<Rightarrow> ('d, 'm) VERSION_scheme \<Rightarrow> bool" where
  "mine pib prce \<longleftrightarrow> m_trxCommitted prce = trxMax \<and> m_ppib prce = pib_id pib"

definition VERICommitTransactionToLevelGreaterThan0 :: "'p PIB_scheme \<Rightarrow> ('d, 'm) VERSION_scheme list \<Rightarrow> ('d, 'm) VERSION_scheme list" where
  "VERICommitTransactionToLevelGreaterThan0 pib chain =
     map (\<lambda>prce. if mine pib prce \<and> m_level prce = pib_level pib then prce\<lparr>m_level := pib_level pib - 1\<rparr> else prce) chain"

definition VERICommitOneRCEToLevel0 :: "'p PIB_scheme \<Rightarrow> ('d, 'm) VERSION_scheme \<Rightarrow> ('d, 'm) VERSION_scheme" where
  "VERICommitOneRCEToLevel0 pib prce = prce\<lparr>m_level := 0, m_trxCommitted := trxCommit0 pib\<rparr>"

definition VERICommitTransactionToLevel0 :: "bool \<Rightarrow> 'p PIB_scheme \<Rightarrow> ('d, 'm) VERSION_scheme list \<Rightarrow> ('d, 'm) VERSION_scheme list" where
  "VERICommitTransactionToLevel0 fTempDB pib chain =
     (if fTempDB then filter (\<lambda>prce. \<not> mine pib prce) chain
      else map (\<lambda>prce. if mine pib prce then VERICommitOneRCEToLevel0 pib prce else prce) chain)"

definition VERCommitTransaction :: "bool \<Rightarrow> 'p PIB_scheme \<Rightarrow> ('d, 'm) VERSION_scheme list \<Rightarrow> 'p PIB_scheme \<times> ('d, 'm) VERSION_scheme list" where
  "VERCommitTransaction fTempDB pib chain =
     (pib\<lparr>pib_level := pib_level pib - 1\<rparr>,
      if pib_level pib > 1 then VERICommitTransactionToLevelGreaterThan0 pib chain
      else VERICommitTransactionToLevel0 fTempDB pib chain)"

subsection \<open>Removing versions\<close>

text \<open>
  \<open>VERNullifyInactiveVersionsOnBM\<close> gets the cached oldest transaction and what \<open>UpdateCachedTrxOldest\<close> would make of it.
\<close>

fun NullifyInactiveLoop :: "TRX \<Rightarrow> bool \<Rightarrow> TRX \<Rightarrow> ('d, 'm) VERSION_scheme list \<Rightarrow> ('d, 'm) VERSION_scheme list" where
  "NullifyInactiveLoop trxUpdated fUpdatedTrxOldest trxOldest [] = []"
| "NullifyInactiveLoop trxUpdated fUpdatedTrxOldest trxOldest (prce # rest) =
     (let (fUpdatedTrxOldest, trxOldest) =
            (if TrxCmp (m_trxCommitted prce) trxOldest < 0 \<and> \<not> fUpdatedTrxOldest then (True, trxUpdated)
             else (fUpdatedTrxOldest, trxOldest));
          rest = NullifyInactiveLoop trxUpdated fUpdatedTrxOldest trxOldest rest
      in if TrxCmp (m_trxCommitted prce) trxOldest < 0 then rest else prce # rest)"

definition VERNullifyInactiveVersionsOnBM :: "TRX \<Rightarrow> TRX \<Rightarrow> ('d, 'm) VERSION_scheme list \<Rightarrow> ('d, 'm) VERSION_scheme list" where
  "VERNullifyInactiveVersionsOnBM trxOldestCached trxUpdated chain = NullifyInactiveLoop trxUpdated False trxOldestCached chain"

text \<open>
  \<open>RCE::ErrPrepareToDeallocate\<close>, when the version \<open>k\<close> was neither nullified nor moved before: the version goes, and the newer ones of the node
  as long as they are inactive too and their clean-up has nothing else to do.
\<close>

fun NullifyNewerLoop :: "TRX \<Rightarrow> ('d, 'm) VERSION_scheme list \<Rightarrow> ('d, 'm) VERSION_scheme list" where
  "NullifyNewerLoop trxOldest [] = []"
| "NullifyNewerLoop trxOldest (prce # newer) =
     (if FFullyCommitted prce \<and> TrxCmp (m_trxCommitted prce) trxOldest < 0 \<and>
         operFlagDelete \<noteq> m_oper prce \<and> operDelta \<noteq> m_oper prce \<and> operDelta64 \<noteq> m_oper prce
      then NullifyNewerLoop trxOldest newer
      else prce # newer)"

definition ErrPrepareToDeallocate :: "TRX \<Rightarrow> nat \<Rightarrow> ('d, 'm) VERSION_scheme list \<Rightarrow> ('d, 'm) VERSION_scheme list" where
  "ErrPrepareToDeallocate trxOldest k chain = rev (NullifyNewerLoop trxOldest (rev (take k chain))) @ drop (Suc k) chain"

text \<open>
  \<open>VERINullifyRolledBackRCE\<close>: the version \<open>k\<close> is dropped, or only flagged while an index is being created on the table.
\<close>

definition VERINullifyRolledBackRCE :: "bool \<Rightarrow> nat \<Rightarrow> ('d, 'm) VERSION_scheme list \<Rightarrow> ('d, 'm) VERSION_scheme list" where
  "VERINullifyRolledBackRCE fCreateIndexLock k chain =
     (if fCreateIndexLock then chain[k := (chain ! k)\<lparr>m_fRolledBack := True\<rparr>] else list_del k chain)"

end
