(* ===== verification/Ver_Trx.thy ===== *)
theory Ver_Trx
  imports Ver_Visible
begin

text \<open>
  Transaction numbers as times.  A transaction number is a time modulo \<open>2 ^ 32\<close>; as long as the times that are compared
  lie within \<open>2 ^ 31\<close> of each other, \<open>TrxCmp\<close> compares the times.  Versions and sessions get their times as additional fields, which no
  operation reads; with them the questions the code asks become questions about times: a transaction that began at time \<open>b\<close>
  sees its own versions and those committed before \<open>b\<close>.
\<close>

subsection \<open>Comparing times\<close>

definition near :: "nat \<Rightarrow> nat \<Rightarrow> bool" where
  "near x y \<longleftrightarrow> even x \<and> even y \<and> x < y + 2 ^ 31 \<and> y < x + 2 ^ 31"

lemma near_sym: "near x y \<longleftrightarrow> near y x"
  by (auto simp: near_def)

lemma of_nat_ne_trxMax:
  assumes "even n"
  shows "of_nat n \<noteq> trxMax" "trxMax \<noteq> of_nat n"
proof -
  have "bit (of_nat n :: 32 word) 0 \<noteq> bit trxMax 0" using assms by (simp add: bit_of_nat_iff trxMax_def bit_0)
  then show "of_nat n \<noteq> trxMax" "trxMax \<noteq> of_nat n" by metis+
qed

lemma sint_diff:
  assumes "x < y + 2 ^ 31" "y < x + 2 ^ 31"
  shows "sint (of_nat x - of_nat y :: 32 word) = int x - int y"
proof -
  have "of_nat x - of_nat y = (word_of_int (int x - int y) :: 32 word)" by simp
  moreover have "sint (word_of_int (int x - int y) :: 32 word) = int x - int y"
    unfolding sint_sbintrunc' using assms by (intro signed_take_bit_int_eq_self) simp_all
  ultimately show ?thesis by metis
qed

lemma TrxCmp_near:
  assumes "near x y"
  shows "TrxCmp (of_nat x) (of_nat y) = int x - int y"
proof (cases "x = y")
  case False
  have "sint (of_nat x - of_nat y :: 32 word) = int x - int y" using assms sint_diff by (simp add: near_def)
  moreover from this False have "of_nat x \<noteq> (of_nat y :: 32 word)" by auto
  ultimately show ?thesis using assms of_nat_ne_trxMax by (simp add: TrxCmp_def near_def)
qed (simp add: TrxCmp_def)

lemma TrxCmp_trxMax:
  "even x \<Longrightarrow> TrxCmp trxMax (of_nat x) = 1" "even x \<Longrightarrow> TrxCmp (of_nat x) trxMax = -1" "TrxCmp trxMax trxMax = 0"
  using of_nat_ne_trxMax by (auto simp: TrxCmp_def)

subsection \<open>Versions and sessions with their times\<close>

record 'd GVERSION = "'d VERSION" +
  t_begin :: nat
  t_commit :: "nat option"

record GPIB = PIB +
  t_pib :: nat

definition trx_of :: "nat option \<Rightarrow> TRX" where
  "trx_of t = (case t of None \<Rightarrow> trxMax | Some c \<Rightarrow> of_nat c)"

definition timed :: "'d GVERSION \<Rightarrow> bool" where
  "timed r \<longleftrightarrow> m_trxBegin0 r = of_nat (t_begin r) \<and> m_trxCommitted r = trx_of (t_commit r)"

text \<open>What a transaction that began at \<open>b\<close> sees.\<close>

definition seen :: "nat \<Rightarrow> 'd GVERSION \<Rightarrow> bool" where
  "seen b r \<longleftrightarrow> t_begin r = b \<or> (\<exists>c. t_commit r = Some c \<and> c < b)"

text \<open>A version as a session may find it: its times are even, near the session's and different from it, unless it is its own.\<close>

definition met :: "GPIB \<Rightarrow> 'd GVERSION \<Rightarrow> bool" where
  "met pib r \<longleftrightarrow> timed r \<and> trxBegin0 pib = of_nat (t_pib pib) \<and> even (t_pib pib) \<and>
     (case t_commit r of
        None \<Rightarrow> (m_ppib r = pib_id pib) = (t_begin r = t_pib pib)
      | Some c \<Rightarrow> near c (t_pib pib) \<and> c \<noteq> t_pib pib \<and> t_begin r \<noteq> t_pib pib)"

lemma met_committed:
  assumes "met pib r"
  shows "(m_trxCommitted r = trxMax) = (t_commit r = None)"
  using assms of_nat_ne_trxMax by (auto simp: met_def timed_def trx_of_def near_def split: option.splits)

lemma met_cmp_all:
  assumes "met pib r"
  shows "(0 < TrxCmp (m_trxCommitted r) (trxBegin0 pib)) = (\<not> seen (t_pib pib) r \<or> mine pib r) \<and>
    (TrxCmp (m_trxCommitted r) (trxBegin0 pib) < 0) = (seen (t_pib pib) r \<and> \<not> mine pib r) \<and>
    FActiveNotByMe r (pib_id pib) (trxBegin0 pib) = (\<not> seen (t_pib pib) r) \<and> mine pib r = (t_commit r = None \<and> seen (t_pib pib) r)"
proof (cases "t_commit r")
  case None
  then have "m_trxCommitted r = trxMax" "trxBegin0 pib = of_nat (t_pib pib)" "even (t_pib pib)" "seen (t_pib pib) r = (m_ppib r = pib_id pib)"
    using assms by (simp_all add: met_def timed_def trx_of_def seen_def)
  then show ?thesis
    using None by (simp add: mine_def FActiveNotByMe_def TrxCmp_trxMax)
next
  case (Some c)
  then have "m_trxCommitted r = of_nat c" "trxBegin0 pib = of_nat (t_pib pib)" "near c (t_pib pib)" "c \<noteq> t_pib pib"
    "seen (t_pib pib) r = (c < t_pib pib)"
    using assms by (simp_all add: met_def timed_def trx_of_def seen_def)
  moreover from this have "TrxCmp (m_trxCommitted r) (trxBegin0 pib) = int c - int (t_pib pib)" "m_trxCommitted r \<noteq> trxMax" "trxMax \<noteq> m_trxCommitted r"
    using TrxCmp_near of_nat_ne_trxMax by (simp_all add: near_def)
  ultimately show ?thesis
    using Some by (auto simp: mine_def FActiveNotByMe_def)
qed

lemma met_cmp:
  assumes "met pib r"
  shows "(0 < TrxCmp (m_trxCommitted r) (trxBegin0 pib)) = (\<not> seen (t_pib pib) r \<or> mine pib r)"
    "(TrxCmp (m_trxCommitted r) (trxBegin0 pib) < 0) = (seen (t_pib pib) r \<and> \<not> mine pib r)"
    "FActiveNotByMe r (pib_id pib) (trxBegin0 pib) = (\<not> seen (t_pib pib) r)"
    "mine pib r = (t_commit r = None \<and> seen (t_pib pib) r)"
  using met_cmp_all [OF assms] by simp_all

lemma met_cmp_ge:
  assumes "met pib r"
  shows "(0 \<le> TrxCmp (m_trxCommitted r) (trxBegin0 pib)) = (\<not> seen (t_pib pib) r \<or> mine pib r)"
  using met_cmp(1,2) [OF assms] by linarith

subsection \<open>The order of a chain\<close>

text \<open>The operations two transactions may do to a node at the same time.\<close>

definition commutes :: "('d, 'm) VERSION_scheme \<Rightarrow> bool" where
  "commutes r \<longleftrightarrow> m_oper r = operReadLock \<or> m_oper r = operDelta \<or> m_oper r = operDelta64"

definition ordered :: "'d GVERSION list \<Rightarrow> bool" where
  "ordered chain \<longleftrightarrow> sorted_wrt (\<lambda>r w. seen (t_begin r) w \<or> commutes r \<and> commutes w) chain"

text \<open>Versions of one transaction commit together, and after the transaction began.\<close>

definition coherent :: "'d GVERSION list \<Rightarrow> bool" where
  "coherent chain \<longleftrightarrow>
     (\<forall>r \<in> set chain. \<forall>w \<in> set chain. t_begin r = t_begin w \<longrightarrow> t_commit r = t_commit w \<and> m_ppib r = m_ppib w) \<and>
     (\<forall>r \<in> set chain. \<forall>c. t_commit r = Some c \<longrightarrow> t_begin r < c)"

lemma seen_trans:
  assumes "coherent chain" "r \<in> set chain" "w \<in> set chain" "seen b r" "seen (t_begin r) w"
  shows "seen b w"
proof (cases "t_begin w = t_begin r")
  case True
  then have "t_commit w = t_commit r" using assms(1-3) unfolding coherent_def by blast
  then show ?thesis using assms(4) True by (simp add: seen_def)
next
  case False
  then obtain c where c: "t_commit w = Some c" "c < t_begin r" using assms(5) by (auto simp: seen_def)
  moreover have "t_begin r \<le> b"
  proof (cases "t_begin r = b")
    case False
    then obtain d where "t_commit r = Some d" "d < b" using assms(4) by (auto simp: seen_def)
    moreover from this(1) have "t_begin r < d" using assms(1,2) unfolding coherent_def by blast
    ultimately show ?thesis by simp
  qed simp
  ultimately show ?thesis by (auto simp: seen_def)
qed

lemma ordered_Cons: "ordered (r # chain) \<longleftrightarrow> (\<forall>w \<in> set chain. seen (t_begin r) w \<or> commutes r \<and> commutes w) \<and> ordered chain"
  by (simp add: ordered_def)

lemma ordered_append:
  "ordered (us @ vs) \<longleftrightarrow> ordered us \<and> ordered vs \<and> (\<forall>r \<in> set us. \<forall>w \<in> set vs. seen (t_begin r) w \<or> commutes r \<and> commutes w)"
  by (auto simp: ordered_def sorted_wrt_append)

lemma coherent_subset: "coherent chain \<Longrightarrow> set vs \<subseteq> set chain \<Longrightarrow> coherent vs"
  unfolding coherent_def by blast

text \<open>Below a version it sees a transaction can only miss versions that commute, and above one it does not see it sees only such.\<close>

lemma unseen_below:
  assumes "ordered (us @ r # vs)" "coherent (us @ r # vs)" "seen b r" "w \<in> set vs" "\<not> seen b w"
  shows "commutes r \<and> commutes w"
  using assms(1,4,5) seen_trans [OF assms(2) _ _ assms(3), of w] by (auto simp: ordered_append ordered_Cons)

end
