(* ===== verification/Ver_Read.thy ===== *)
theory Ver_Read
  imports Ver_Trx
begin

text \<open>
  What a session reads.  The specification is simple: take the node in the database and undo, the newest first,
  every version the session does not see.  The code does not do that: \<open>ErrVERAccessNode\<close> looks for one version whose before image to use,
  and \<open>DeltaVERGetDelta\<close> compensates the escrow columns.  Both give the same on an ordered chain.
\<close>

subsection \<open>Undoing versions\<close>

text \<open>
  The content of a node: the numbers of the escrow columns, by the operation (\<open>operDelta\<close> for \<open>LONG\<close>, \<open>operDelta64\<close> for \<open>LONGLONG\<close>) and
  the offset in the data, and the rest of the data.  Escrow columns do not overlap.  A node that is deleted, or not
  on the page at all, is not present.
\<close>

type_synonym 'r ROW = "'r \<times> (OPER \<times> int \<Rightarrow> int)"

definition add_num :: "OPER \<Rightarrow> int \<Rightarrow> int \<Rightarrow> 'r ROW \<Rightarrow> 'r ROW" where
  "add_num opr off d row = (fst row, (snd row)((opr, off) := snd row (opr, off) + d))"

definition is_delta :: "OPER \<Rightarrow> bool" where
  "is_delta opr \<longleftrightarrow> opr = operDelta \<or> opr = operDelta64"

definition undo1 :: "('r ROW, 'm) VERSION_scheme \<Rightarrow> bool \<times> 'r ROW \<Rightarrow> bool \<times> 'r ROW" where
  "undo1 r st =
     (case m_oper r of
        operReplace \<Rightarrow> (fst st, m_before r)
      | operInsert \<Rightarrow> (False, snd st)
      | operFlagDelete \<Rightarrow> (True, snd st)
      | operDelta \<Rightarrow> (fst st, add_num operDelta (m_cbOffset r) (- m_tDelta r) (snd st))
      | operDelta64 \<Rightarrow> (fst st, add_num operDelta64 (m_cbOffset r) (- m_tDelta r) (snd st))
      | _ \<Rightarrow> st)"

primrec undos :: "('r ROW, 'm) VERSION_scheme list \<Rightarrow> bool \<times> 'r ROW \<Rightarrow> bool \<times> 'r ROW" where
  "undos [] st = st"
| "undos (r # vs) st = undos vs (undo1 r st)"

lemma undos_append: "undos (us @ vs) st = undos vs (undos us st)"
  by (induction us arbitrary: st) auto

definition unseen :: "nat \<Rightarrow> 'd GVERSION list \<Rightarrow> 'd GVERSION list" where
  "unseen b chain = filter (\<lambda>r. \<not> seen b r) chain"

lemma unseen_simps [simp]:
  "unseen b [] = []" "unseen b (r # vs) = (if seen b r then unseen b vs else r # unseen b vs)"
  "unseen b (us @ vs) = unseen b us @ unseen b vs" "set (unseen b vs) = {r \<in> set vs. \<not> seen b r}"
  by (simp_all add: unseen_def)

text \<open>The view of a transaction that began at \<open>b\<close>.\<close>

definition view :: "nat \<Rightarrow> 'r ROW GVERSION list \<Rightarrow> bool \<times> 'r ROW \<Rightarrow> 'r ROW option" where
  "view b chain st = (let (present, row) = undos (unseen b chain) st in if present then Some row else None)"

subsection \<open>Versions that change more than numbers\<close>

definition gentle :: "('d, 'm) VERSION_scheme \<Rightarrow> bool" where
  "gentle r \<longleftrightarrow> m_oper r = operDelta \<or> m_oper r = operDelta64 \<or> m_oper r = operReadLock \<or> m_oper r = operWriteLock"

lemma commutes_gentle: "commutes r \<Longrightarrow> gentle r"
  by (auto simp: commutes_def gentle_def)

lemma undos_gentle:
  "\<forall>r \<in> set vs. gentle r \<Longrightarrow> fst (undos vs st) = fst st \<and> fst (snd (undos vs st)) = fst (snd st)"
  by (induction vs arbitrary: st) (auto simp: gentle_def undo1_def add_num_def)

text \<open>
  How the flag of a node changes along the versions: a replace is done to a present node, or waits for the insert of
  a deleted one (it is right above the \<open>operPreInsert\<close>); at an \<open>operPreInsert\<close> nothing has been done yet.
\<close>

definition undo_present :: "('d, 'm) VERSION_scheme \<Rightarrow> bool \<Rightarrow> bool" where
  "undo_present r p = (case m_oper r of operInsert \<Rightarrow> False | operFlagDelete \<Rightarrow> True | _ \<Rightarrow> p)"

lemma fst_undo1 [simp]: "fst (undo1 r st) = undo_present r (fst st)"
  by (simp add: undo1_def undo_present_def split: OPER.split)

primrec wfd :: "bool \<Rightarrow> bool \<Rightarrow> ('d, 'm) VERSION_scheme list \<Rightarrow> bool" where
  "wfd p0 p [] = True"
| "wfd p0 p (r # vs) =
     ((m_oper r = operReplace \<longrightarrow> p \<or> (vs \<noteq> [] \<and> m_oper (hd vs) = operPreInsert)) \<and>
      (m_oper r = operPreInsert \<longrightarrow> p = p0) \<and> wfd p0 (undo_present r p) vs)"

subsection \<open>The loop of ErrVERAccessNode\<close>

text \<open>The versions the loop looks at.\<close>

definition looked :: "GPIB \<Rightarrow> 'd GVERSION \<Rightarrow> bool" where
  "looked pib r \<longleftrightarrow> \<not> seen (t_pib pib) r \<or> mine pib r"

lemma AccessLoop_eq:
  assumes "\<forall>r \<in> set chain. met pib r \<and> \<not> m_fRolledBack r"
  shows "AccessLoop (trxBegin0 pib) chain nd lr =
    (last (nd # filter (\<lambda>r. \<not> gentle r) (takeWhile (looked pib) chain)),
     last (lr # map Some (filter (\<lambda>r. m_oper r = operReplace) (takeWhile (looked pib) chain))))"
  using assms
proof (induction chain arbitrary: nd lr)
  case (Cons r chain)
  then show ?case
    by (cases "m_oper r") (auto simp: met_cmp_ge looked_def gentle_def)
qed simp

lemma unseen_gentle_below:
  assumes "ordered (s # chain)" "coherent (s # chain)" "seen b s" "r \<in> set (unseen b chain)"
  shows "commutes r"
  using unseen_below [of "[]" s chain b r] assms by simp

text \<open>What counts is the same among the versions the loop looks at and those the session does not see.\<close>

lemma looked_unseen:
  assumes "ordered chain" "coherent chain" "\<forall>r \<in> set chain. met pib r" "\<forall>r \<in> set chain. mine pib r \<longrightarrow> gentle r"
    and "\<And>r. P r \<Longrightarrow> \<not> gentle r"
  shows "filter P (takeWhile (looked pib) chain) = filter P (unseen (t_pib pib) chain)"
  using assms(1-4)
proof (induction chain)
  case (Cons r chain)
  have IH: "filter P (takeWhile (looked pib) chain) = filter P (unseen (t_pib pib) chain)"
    using Cons.IH Cons.prems coherent_subset [OF Cons.prems(2), of chain] by (auto simp: ordered_Cons)
  show ?case
  proof (cases "looked pib r")
    case True
    then have "seen (t_pib pib) r \<Longrightarrow> \<not> P r" using Cons.prems(4) assms(5) by (auto simp: looked_def)
    then show ?thesis using True IH by auto
  next
    case False
    then have "seen (t_pib pib) r" by (simp add: looked_def)
    then have "\<not> P w" if "w \<in> set (unseen (t_pib pib) chain)" for w
      using unseen_gentle_below [OF Cons.prems(1,2)] that commutes_gentle assms(5) by blast
    then show ?thesis using False \<open>seen (t_pib pib) r\<close> by (auto simp: filter_empty_conv)
  qed
qed simp

text \<open>Below a version it does not see, a session only has versions of its own that commute.\<close>

lemma mine_below_unseen:
  assumes "ordered (h # chain)" "coherent (h # chain)" "met pib h" "\<not> seen (t_pib pib) h" "r \<in> set chain" "met pib r" "mine pib r"
  shows "gentle r"
proof (rule ccontr)
  assume "\<not> gentle r"
  then have "seen (t_begin h) r" using assms(1,5) commutes_gentle by (auto simp: ordered_Cons)
  moreover have "t_commit r = None" "seen (t_pib pib) r" using met_cmp(4) [OF assms(6)] assms(7) by auto
  ultimately have "t_begin r = t_begin h" "t_begin r = t_pib pib" by (auto simp: seen_def)
  then show False using assms(4) by (simp add: seen_def)
qed

subsection \<open>Presence, data and numbers\<close>

lemma present_eq:
  assumes "wfd p0 (fst st) vs"
  shows "fst (undos vs st) =
    (let N = filter (\<lambda>r. \<not> gentle r) vs in if N = [] then fst st
     else case m_oper (last N) of operInsert \<Rightarrow> False | operPreInsert \<Rightarrow> p0 | _ \<Rightarrow> True)"
  using assms
proof (induction vs arbitrary: st)
  case (Cons r vs)
  have IH: "fst (undos vs (undo1 r st)) =
    (let N = filter (\<lambda>r. \<not> gentle r) vs in if N = [] then undo_present r (fst st)
     else case m_oper (last N) of operInsert \<Rightarrow> False | operPreInsert \<Rightarrow> p0 | _ \<Rightarrow> True)"
    using Cons.IH [of "undo1 r st"] Cons.prems by simp
  show ?case
  proof (cases "filter (\<lambda>r. \<not> gentle r) vs = []")
    case True
    then have "vs \<noteq> [] \<Longrightarrow> m_oper (hd vs) \<noteq> operPreInsert" by (cases vs) (auto simp: gentle_def split: if_splits)
    then show ?thesis
      using IH True Cons.prems by (cases "m_oper r") (auto simp: gentle_def undo_present_def)
  next
    case False
    then show ?thesis using IH by (simp add: Let_def)
  qed
qed simp

text \<open>The data a walk along the versions has arrived at: the last before image, or the data of the node.\<close>

definition base :: "'r ROW \<Rightarrow> ('r ROW, 'm) VERSION_scheme option \<Rightarrow> 'r ROW" where
  "base row lr = (case lr of None \<Rightarrow> row | Some r \<Rightarrow> m_before r)"

abbreviation last_replace :: "('d, 'm) VERSION_scheme option \<Rightarrow> ('d, 'm) VERSION_scheme list \<Rightarrow> ('d, 'm) VERSION_scheme option" where
  "last_replace lr vs \<equiv> last (lr # map Some (filter (\<lambda>r. m_oper r = operReplace) vs))"

lemma rest_eq:
  assumes "fst (base row lr) = fst (snd st)"
  shows "fst (base row (last_replace lr vs)) = fst (snd (undos vs st))"
  using assms
proof (induction vs arbitrary: st lr)
  case (Cons r vs)
  have "fst (base row (if m_oper r = operReplace then Some r else lr)) = fst (snd (undo1 r st))"
    using Cons.prems by (cases "m_oper r") (auto simp: undo1_def base_def add_num_def)
  from Cons.IH [OF this] show ?case by (cases "m_oper r = operReplace") simp_all
qed simp

lemma nums_eq:
  fixes t :: "'w::len word"
  assumes "is_delta opr" "rgfucb pib = []" "\<forall>r \<in> set chain. met pib r"
    and "word_of_int (snd (base row lr) (opr, off)) + t = word_of_int (snd (snd st) (opr, off))"
  shows "word_of_int (snd (base row (last_replace lr (unseen (t_pib pib) chain))) (opr, off)) + DeltaLoop opr pib off chain t =
    word_of_int (snd (snd (undos (unseen (t_pib pib) chain) st)) (opr, off))"
  using assms(3,4)
proof (induction chain arbitrary: st t lr)
  case (Cons r chain)
  have a: "FActiveNotByMe r (pib_id pib) (TrxVERISession pib) = (\<not> seen (t_pib pib) r)"
    using Cons.prems(1) met_cmp(3) [of pib r] by (simp add: TrxVERISession_def)
  define t' where "t' = (if operReplace = m_oper r then if \<not> seen (t_pib pib) r then 0 else t
     else if opr = m_oper r then if m_cbOffset r = off \<and> \<not> seen (t_pib pib) r then t - word_of_int (m_tDelta r) else t else t)"
  have D: "DeltaLoop opr pib off (r # chain) t = DeltaLoop opr pib off chain t'"
    using assms(2) by (simp add: a t'_def)
  show ?case
  proof (cases "seen (t_pib pib) r")
    case True
    then have "t' = t" by (simp add: t'_def)
    then show ?thesis using True Cons.IH [of lr t st] Cons.prems unfolding D by simp
  next
    case False
    have "word_of_int (snd (base row (if m_oper r = operReplace then Some r else lr)) (opr, off)) + t' =
        word_of_int (snd (snd (undo1 r st)) (opr, off))"
      using Cons.prems(2) False assms(1)
      by (cases "m_oper r") (auto simp: t'_def undo1_def base_def add_num_def is_delta_def algebra_simps)
    from Cons.IH [OF _ this] Cons.prems(1) show ?thesis
      using False unfolding D by (cases "m_oper r = operReplace") simp_all
  qed
qed simp

subsection \<open>What ErrVERAccessNode finds\<close>

lemma access_view:
  fixes chain :: "'r ROW GVERSION list" and row :: "'r ROW"
  assumes ord: "ordered chain" "coherent chain" and met: "\<forall>r \<in> set chain. met pib r \<and> \<not> m_fRolledBack r"
    and wfd: "wfd p0 p0 (unseen (t_pib pib) chain)" and lvl: "pib_level pib \<noteq> 0 \<or> fAlloc"
  shows "\<exists>ns img reset. ErrVERAccessNode pib fUpd fAlloc chain = (JET_errSuccess, ns, img, reset) \<and>
    (ns = nsVersionedUpdate \<or> ns \<in> {nsDatabase, nsUncommittedVerInDB, nsCommittedVerInDB} \<and> p0) =
      fst (undos (unseen (t_pib pib) chain) (p0, row)) \<and>
    (ns \<noteq> nsVersionedInsert \<longrightarrow> (case img of None \<Rightarrow> row | Some d \<Rightarrow> d) = base row (last_replace None (unseen (t_pib pib) chain)))"
proof (cases chain)
  case (Cons h vs)
  define V where "V = unseen (t_pib pib) chain"
  define N where "N = filter (\<lambda>r. \<not> gentle r) V"
  have pr: "fst (undos V (p0, row)) = (if N = [] then p0 else case m_oper (last N) of operInsert \<Rightarrow> False | operPreInsert \<Rightarrow> p0 | _ \<Rightarrow> True)"
    using present_eq [of p0 "(p0, row)" V] wfd by (simp add: V_def N_def)
  have repl: "filter (\<lambda>r. m_oper r = operReplace) V = filter (\<lambda>r. m_oper r = operReplace) N"
    unfolding N_def filter_filter by (rule filter_cong) (auto simp: gentle_def)
  have mh: "met pib h" and vs: "\<forall>r \<in> set vs. met pib r" using met Cons by simp_all
  show ?thesis
  proof (cases "seen (t_pib pib) h")
    case True
    then have "commutes r" if "r \<in> set V" for r
      using unseen_gentle_below [of h vs "t_pib pib" r] ord Cons that by (simp add: V_def)
    then have N: "N = []" by (auto simp: N_def filter_empty_conv intro: commutes_gentle)
    moreover have "ErrVERAccessNode pib fUpd fAlloc chain =
        (JET_errSuccess, if mine pib h then nsUncommittedVerInDB else nsCommittedVerInDB, None, False)"
      using True met_cmp(2) [OF mh] Cons by (auto simp: ErrVERAccessNode_def mine_def TrxVERISession_def Let_def)
    ultimately show ?thesis using pr repl by (auto simp: V_def [symmetric] base_def intro: exI [of _ False])
  next
    case False
    have mine: "\<forall>r \<in> set chain. mine pib r \<longrightarrow> gentle r"
    proof (intro ballI impI)
      fix r assume r: "r \<in> set chain" "mine pib r"
      then have "r \<noteq> h" using met_cmp(4) [OF mh] False by auto
      then show "gentle r"
        using mine_below_unseen [of h vs pib r] ord mh False r met Cons by simp
    qed
    have look: "filter P (takeWhile (looked pib) chain) = filter P V" if "\<And>r. P r \<Longrightarrow> \<not> gentle r" for P
      unfolding V_def using looked_unseen [OF ord _ mine that] met by simp
    have L: "AccessLoop (trxBegin0 pib) chain h None = (last (h # N), last_replace None V)"
      using AccessLoop_eq [OF met, of h None] look [of "\<lambda>r. \<not> gentle r"] look [of "\<lambda>r. m_oper r = operReplace"]
      by (simp add: N_def gentle_def)
    have "set N \<subseteq> set chain" by (auto simp: N_def V_def)
    moreover have "last (h # N) \<in> insert h (set N)" using last_in_set [of "h # N"] by simp
    ultimately have "last (h # N) \<in> set chain" using Cons by auto
    then have nr: "\<not> m_fRolledBack (last (h # N))" using met by simp
    have hN: "N = [] \<Longrightarrow> gentle h" using False Cons by (auto simp: N_def V_def split: if_splits)
    have nh: "\<not> mine pib h" "\<not> TrxCmp (m_trxCommitted h) (trxBegin0 pib) < 0" using met_cmp(2,4) [OF mh] False by auto
    define ns where "ns = (case m_oper (last (h # N)) of operReplace \<Rightarrow> nsVersionedUpdate | operFlagDelete \<Rightarrow> nsVersionedUpdate
       | operInsert \<Rightarrow> nsVersionedInsert | _ \<Rightarrow> nsDatabase)"
    obtain w lr where w: "w = last (h # N)" "lr = last_replace None V" by blast
    note L' = L [folded w] and nr' = nr [folded w] and ns' = ns_def [folded w]
    have E: "ErrVERAccessNode pib fUpd fAlloc chain = (JET_errSuccess, ns, if ns = nsVersionedInsert then None else map_option m_before lr, False)"
      unfolding ErrVERAccessNode_def TrxVERISession_def Let_def ns' using L' nr' nh lvl Cons
      by (cases lr; cases "m_oper w") (simp_all add: mine_def)
    have "(ns = nsVersionedUpdate \<or> ns \<in> {nsDatabase, nsUncommittedVerInDB, nsCommittedVerInDB} \<and> p0) = fst (undos V (p0, row))"
    proof (cases "N = []")
      case True
      then show ?thesis using hN pr by (auto simp: ns_def gentle_def)
    next
      case False
      then have "last N \<in> set N" by simp
      then have "\<not> gentle (last N)" by (simp add: N_def)
      then show ?thesis using False pr by (cases "m_oper (last N)") (auto simp: ns_def gentle_def)
    qed
    then show ?thesis
      unfolding V_def [symmetric] w(2) [symmetric] base_def using E by (cases lr) auto
  qed
qed (use wfd in \<open>simp add: ErrVERAccessNode_def base_def\<close>)

subsection \<open>Reading a node\<close>

text \<open>
  A node as the database has it: whether it is on the page, its content and its flags.  \<open>ReadNode\<close> puts together what a
  retrieval does: whether the cursor sees the node (\<open>ErrNDVisibleToCursor\<close>, which asks \<open>ErrVERAccessNode\<close> when the version bit is
  set), whose data it gets, and the compensation of the escrow columns.
\<close>

record 'r NODE =
  nd_there :: bool
  nd_row :: "'r ROW"
  nd_fFlags :: u16

definition nd_kdf :: "'r NODE \<Rightarrow> bytes KEYDATAFLAGS" where
  "nd_kdf n = KDF (KEY [] []) [] (nd_fFlags n)"

definition present :: "'r NODE \<Rightarrow> bool" where
  "present n \<longleftrightarrow> nd_there n \<and> \<not> FNDDeleted (nd_kdf n)"

definition as_columns :: "'r ROW \<Rightarrow> 'r \<times> (int \<Rightarrow> bytes) \<times> (int \<Rightarrow> bytes)" where
  "as_columns row = (fst row, \<lambda>off. le_bytes 4 (snd row (operDelta, off)), \<lambda>off. le_bytes 8 (snd row (operDelta64, off)))"

definition ReadNode :: "VERENV \<Rightarrow> GPIB \<Rightarrow> bool \<Rightarrow> bool \<Rightarrow> 'r NODE \<Rightarrow> 'r ROW GVERSION list \<Rightarrow> ('r \<times> (int \<Rightarrow> bytes) \<times> (int \<Rightarrow> bytes)) option" where
  "ReadNode env pib fUpd fAlloc n chain =
     (if nd_there n then
        case ErrVERAccessNode pib fUpd fAlloc chain of
          (err, ns, img, reset) \<Rightarrow>
            case ErrNDVisibleToCursor env (\<lambda>bm. (err, ns)) False (nd_kdf n) of
              (JET_errSuccess, Some (True, _)) \<Rightarrow>
                let cols = as_columns (if FNDPossiblyVersioned env (nd_kdf n) then case img of None \<Rightarrow> nd_row n | Some d \<Rightarrow> d else nd_row n)
                in Some (fst cols,
                     \<lambda>off. snd (ErrRECAdjustEscrowedColumn pib chain 4 off (fst (snd cols) off)),
                     \<lambda>off. snd (ErrRECAdjustEscrowedColumn pib chain 8 off (snd (snd cols) off)))
            | _ \<Rightarrow> None
      else None)"

lemma length_le_bytes [simp]: "length (le_bytes n x) = n"
  by (induction n arbitrary: x) auto

lemma le_value_bytes: "le_value (le_bytes n x) = x mod 256 ^ n"
proof (induction n arbitrary: x)
  case (Suc n)
  have "x mod 256 + 256 * (x div 256 mod 256 ^ n) = x mod (256 * 256 ^ n)" by (simp add: mod_mult2_eq' zmod_zmult2_eq)
  then show ?case by (simp add: Suc uint_word_of_int take_bit_eq_mod)
qed simp

lemma le_bytes_mod: "le_bytes n (x mod 256 ^ n) = le_bytes n x"
proof (induction n arbitrary: x)
  case (Suc n)
  have "x mod (256 * 256 ^ n) div 256 = x div 256 mod 256 ^ n" by (simp add: zmod_zmult2_eq)
  moreover have "(word_of_int (x mod (256 * 256 ^ n)) :: u8) = word_of_int x"
    by (simp add: word_of_int_eq_iff take_bit_eq_mod mod_mod_cancel)
  ultimately show ?case by (simp add: Suc)
qed simp

lemma adjust_escrow:
  assumes "rgfucb pib = []" "\<forall>r \<in> set chain. met pib r"
  shows "snd (ErrRECAdjustEscrowedColumn pib chain 4 off (le_bytes 4 (snd (base row (last_replace None (unseen (t_pib pib) chain))) (operDelta, off)))) =
      le_bytes 4 (snd (snd (undos (unseen (t_pib pib) chain) (p, row))) (operDelta, off))"
    "snd (ErrRECAdjustEscrowedColumn pib chain 8 off (le_bytes 8 (snd (base row (last_replace None (unseen (t_pib pib) chain))) (operDelta64, off)))) =
      le_bytes 8 (snd (snd (undos (unseen (t_pib pib) chain) (p, row))) (operDelta64, off))"
proof -
  let ?b = "base row (last_replace None (unseen (t_pib pib) chain))" and ?v = "snd (snd (undos (unseen (t_pib pib) chain) (p, row)))"
  have w: "(word_of_int (x mod 4294967296) :: 32 word) = word_of_int x" "(word_of_int (x mod 18446744073709551616) :: 64 word) = word_of_int x"
    "le_bytes 4 (uint (word_of_int x :: 32 word)) = le_bytes 4 x" "le_bytes 8 (uint (word_of_int x :: 64 word)) = le_bytes 8 x" for x
    using le_bytes_mod [of 4 x] le_bytes_mod [of 8 x] by (simp_all add: word_of_int_eq_iff uint_word_of_int take_bit_eq_mod)
  have "snd (ErrRECAdjustEscrowedColumn pib chain 4 off (le_bytes 4 x)) = le_bytes 4 y"
    if "word_of_int x + DeltaLoop operDelta pib off chain (0 :: 32 word) = word_of_int y" for x y
    using that w by (simp add: ErrRECAdjustEscrowedColumn_def DeltaVERGetDelta_def le_value_bytes)
  moreover have "snd (ErrRECAdjustEscrowedColumn pib chain 8 off (le_bytes 8 x)) = le_bytes 8 y"
    if "word_of_int x + DeltaLoop operDelta64 pib off chain (0 :: 64 word) = word_of_int y" for x y
    using that w by (simp add: ErrRECAdjustEscrowedColumn_def DeltaVERGetDelta_def le_value_bytes)
  moreover have "word_of_int (snd ?b (operDelta, off)) + DeltaLoop operDelta pib off chain (0 :: 32 word) = word_of_int (?v (operDelta, off))"
    "word_of_int (snd ?b (operDelta64, off)) + DeltaLoop operDelta64 pib off chain (0 :: 64 word) = word_of_int (?v (operDelta64, off))"
    using assms by (intro nums_eq; simp add: is_delta_def base_def)+
  ultimately show "snd (ErrRECAdjustEscrowedColumn pib chain 4 off (le_bytes 4 (snd ?b (operDelta, off)))) = le_bytes 4 (?v (operDelta, off))"
    "snd (ErrRECAdjustEscrowedColumn pib chain 8 off (le_bytes 8 (snd ?b (operDelta64, off)))) = le_bytes 8 (?v (operDelta64, off))"
    by blast+
qed

text \<open>When the version bit is not set, the versions the session does not see must not have changed anything yet.\<close>

definition bit_ok :: "GPIB \<Rightarrow> 'r NODE \<Rightarrow> 'r ROW GVERSION list \<Rightarrow> bool" where
  "bit_ok pib n chain \<longleftrightarrow> FNDVersion (nd_kdf n) \<or>
     (fst (undos (unseen (t_pib pib) chain) (present n, nd_row n)) = present n \<and>
      base (nd_row n) (last_replace None (unseen (t_pib pib) chain)) = nd_row n)"

lemma ReadNode_view:
  fixes chain :: "'r ROW GVERSION list"
  assumes ord: "ordered chain" "coherent chain" and met: "\<forall>r \<in> set chain. met pib r \<and> \<not> m_fRolledBack r"
    and wfd: "wfd (present n) (present n) (unseen (t_pib pib) chain)" and lvl: "pib_level pib \<noteq> 0 \<or> fAlloc"
    and bit: "bit_ok pib n chain" and there: "\<not> nd_there n \<Longrightarrow> \<not> fst (undos (unseen (t_pib pib) chain) (False, nd_row n))"
    and env: "fPageRecentlyDirtied env" "rgfucb pib = []"
  shows "ReadNode env pib fUpd fAlloc n chain = map_option as_columns (view (t_pib pib) chain (present n, nd_row n))"
proof (cases "nd_there n")
  case False
  then show ?thesis using there by (auto simp: ReadNode_def view_def present_def split: prod.split)
next
  case True
  define V where "V = unseen (t_pib pib) chain"
  obtain v row' where U: "undos V (present n, nd_row n) = (v, row')" by (rule prod.exhaust)
  note AV = access_view [OF ord met wfd lvl, where fUpd = fUpd and row = "nd_row n", folded V_def, unfolded U fst_conv]
  obtain ns img reset where A: "ErrVERAccessNode pib fUpd fAlloc chain = (JET_errSuccess, ns, img, reset)"
    "(ns = nsVersionedUpdate \<or> ns \<in> {nsDatabase, nsUncommittedVerInDB, nsCommittedVerInDB} \<and> present n) = v"
    "ns \<noteq> nsVersionedInsert \<longrightarrow> (case img of None \<Rightarrow> nd_row n | Some d \<Rightarrow> d) = base (nd_row n) (last_replace None V)"
    using AV by (elim exE conjE) (rule that)
  have d: "present n = (\<not> FNDDeleted (nd_kdf n))" using True by (simp add: present_def)
  define b where "b = base (nd_row n) (last_replace None V)"
  note esc = adjust_escrow [OF env(2), where chain = chain and row = "nd_row n" and p = "present n", folded V_def, folded b_def, unfolded U fst_conv snd_conv]
  have "fst (base (nd_row n) None) = fst (snd (present n, nd_row n))" by (simp add: base_def)
  note c1 = rest_eq [OF this, of V, folded b_def, unfolded U snd_conv]
  have m: "\<forall>r \<in> set chain. met pib r" using met by simp
  have cols: "fst b = fst row'"
    "(\<lambda>off. snd (ErrRECAdjustEscrowedColumn pib chain 4 off (le_bytes 4 (snd b (operDelta, off))))) = (\<lambda>off. le_bytes 4 (snd row' (operDelta, off)))"
    "(\<lambda>off. snd (ErrRECAdjustEscrowedColumn pib chain 8 off (le_bytes 8 (snd b (operDelta64, off))))) = (\<lambda>off. le_bytes 8 (snd row' (operDelta64, off)))"
    by (rule c1, intro ext esc m, intro ext esc m)
  let ?D = "case img of None \<Rightarrow> nd_row n | Some d \<Rightarrow> d"
  let ?vis = "ErrNDVisibleToCursor env (\<lambda>bm. (JET_errSuccess, ns)) False (nd_kdf n)"
  have bv: "\<not> FNDVersion (nd_kdf n) \<Longrightarrow> v = present n \<and> b = nd_row n"
    using bit unfolding bit_ok_def V_def [symmetric] b_def [symmetric] U fst_conv by blast
  have "\<exists>ns'. ?vis = (JET_errSuccess, Some (v, ns'))"
  proof (cases "FNDVersion (nd_kdf n)")
    case True
    then show ?thesis using A(2) env(1) unfolding ErrNDVisibleToCursor_def FNDPossiblyVersioned_def d by (cases ns) simp_all
  next
    case False
    then show ?thesis using bv d unfolding ErrNDVisibleToCursor_def FNDPossiblyVersioned_def by simp
  qed
  then obtain ns' where vis: "?vis = (JET_errSuccess, Some (v, ns'))" by blast
  have D: "v \<Longrightarrow> (if FNDPossiblyVersioned env (nd_kdf n) then ?D else nd_row n) = b"
    using A(2,3) bv env(1) unfolding b_def [symmetric] FNDPossiblyVersioned_def
    by (cases "FNDVersion (nd_kdf n)"; cases ns) simp_all
  have "ReadNode env pib fUpd fAlloc n chain = (if v then Some (fst row',
      \<lambda>off. le_bytes 4 (snd row' (operDelta, off)), \<lambda>off. le_bytes 8 (snd row' (operDelta64, off))) else None)"
  proof (cases v)
    case True
    note D' = D [OF True]
    show ?thesis
      unfolding ReadNode_def A(1) prod.case vis True option.case NDERR.case bool.case D' Let_def as_columns_def fst_conv snd_conv cols
      using \<open>nd_there n\<close> by simp
  qed (simp add: ReadNode_def A(1) vis)
  then show ?thesis using U by (simp add: view_def as_columns_def V_def)
qed

end
