(* ===== verification/Ver_Machine.thy ===== *)
theory Ver_Machine
  imports Ver_Read
begin

text \<open>
  Sessions at work on one node: a state, and the steps the B-tree layer (\<open>src/ese/bt.cxx\<close>), the
  transactions (\<open>src/ese/dir.cxx\<close>, \<open>src/ese/pib.cxx\<close>) and the clean-up of versions (\<open>src/ese/ver.cxx\<close>) make of the operations of
  the version store.  What happens under one latch on the page is one step; an
  operation that creates its version before it has the latch takes two, and other sessions
  may come in between:

  \<^item> \<open>ErrBTReplace\<close> creates the version and replaces the data under the write latch;
  \<^item> \<open>ErrBTDelta\<close> creates a version with delta 0 first, later it adds the delta to the page and to the version;
  \<^item> \<open>ErrBTFlagDelete\<close> creates its version first, and sets the flag later;
  \<^item> \<open>ErrBTInsert\<close> creates an \<open>operPreInsert\<close> before it seeks.  It then inserts the node, or, when the search has found a deleted
    one, resets the flag (\<open>ErrNDFlagInsert\<close>) or creates a replace as well and changes data and flag (\<open>ErrNDFlagInsertAndReplaceData\<close>), and the
    version becomes an \<open>operInsert\<close>; a key that is present, or any other error, takes back the versions.

  \<open>v_now\<close> is the time of \<open>m_trxNewest\<close>.
\<close>

datatype PC = Idle | MadeDelta | MadeDelete | MadeInsert | MadeInsertReplace

record 'r VSTATE =
  v_newest :: TRX
  v_now :: nat
  v_pibs :: "GPIB list"
  v_pc :: "nat \<Rightarrow> PC"
  v_node :: "'r NODE"
  v_chain :: "'r ROW GVERSION list"

subsection \<open>Pieces of steps\<close>

text \<open>A version is created without an error; \<open>prce\<close> is the memory it gets.\<close>

definition modenv :: "RCEID \<Rightarrow> 'r ROW GVERSION \<Rightarrow> ('r ROW, \<lparr>t_begin :: nat, t_commit :: nat option\<rparr>) MODENV" where
  "modenv rceid prce = \<lparr>mod_fRecovering = False, mod_errCreateRCE = JET_errSuccess, mod_errDIROpenByProxy = JET_errSuccess,
     mod_rceid = rceid, mod_prce = prce\<rparr>"

definition creates :: "GPIB \<Rightarrow> OPER \<Rightarrow> int \<times> int \<Rightarrow> 'r VSTATE \<Rightarrow> 'r ROW GVERSION list \<Rightarrow> bool" where
  "creates p opr verdelta s chain' \<longleftrightarrow> p \<in> set (v_pibs s) \<and> \<not> fReadOnlyTrx p \<and>
     (\<exists>rceid prce. t_begin prce = t_pib p \<and> t_commit prce = None \<and>
        ErrVERModify (modenv rceid prce) p opr (nd_row (v_node s)) verdelta proxyNone (v_chain s) = (JET_errSuccess, chain'))"

text \<open>The newest uncommitted version of a session: \<open>us\<close> are the versions above it.\<close>

definition newest_of :: "GPIB \<Rightarrow> 'r VSTATE \<Rightarrow> 'r ROW GVERSION list \<Rightarrow> 'r ROW GVERSION \<Rightarrow> 'r ROW GVERSION list \<Rightarrow> bool" where
  "newest_of p s us r vs \<longleftrightarrow> p \<in> set (v_pibs s) \<and> v_chain s = us @ r # vs \<and> mine p r \<and> (\<forall>u \<in> set us. \<not> mine p u)"

definition set_flags :: "u16 \<Rightarrow> u16 \<Rightarrow> 'r NODE \<Rightarrow> 'r NODE" where
  "set_flags on off n = n\<lparr>nd_fFlags := nd_fFlags n AND NOT off OR on\<rparr>"

text \<open>
  The undo of a logged operation on the page (\<open>ErrVERIUndoReplacePhysical\<close>, \<open>ErrVERIUndoInsertPhysical\<close>, \<open>ErrVERIUndoFlagDeletePhysical\<close>,
  \<open>ErrVERIUndoDeltaPhysical\<close>); for the others there is nothing to undo.
\<close>

definition undo_node :: "'r ROW GVERSION \<Rightarrow> 'r NODE \<Rightarrow> 'r NODE" where
  "undo_node r n =
     (case m_oper r of
        operReplace \<Rightarrow> n\<lparr>nd_row := m_before r\<rparr>
      | operInsert \<Rightarrow> set_flags fNDDeleted 0 n
      | operFlagDelete \<Rightarrow> set_flags 0 fNDDeleted n
      | operDelta \<Rightarrow> n\<lparr>nd_row := add_num operDelta (m_cbOffset r) (- m_tDelta r) (nd_row n)\<rparr>
      | operDelta64 \<Rightarrow> n\<lparr>nd_row := add_num operDelta64 (m_cbOffset r) (- m_tDelta r) (nd_row n)\<rparr>
      | _ \<Rightarrow> n)"

definition oldest :: "'r VSTATE \<Rightarrow> TRX" where
  "oldest s = UpdateCachedTrxOldest (map trxBegin0 (v_pibs s))"

text \<open>
  Numbers in use: no two of them may be \<open>2 ^ 31\<close> apart, so a transaction that goes on for that long stops new ones.
  The engine does not check this.
\<close>

definition times :: "'r VSTATE \<Rightarrow> nat set" where
  "times s = t_pib ` set (v_pibs s) \<union> t_begin ` set (v_chain s) \<union> {c. \<exists>r \<in> set (v_chain s). t_commit r = Some c}"

definition room :: "'r VSTATE \<Rightarrow> bool" where
  "room s \<longleftrightarrow> (\<forall>t \<in> times s. v_now s + 8 < t + 2 ^ 31)"

text \<open>The commit of a session gives its versions their time.\<close>

definition stamp_commit :: "GPIB \<Rightarrow> nat \<Rightarrow> 'r ROW GVERSION list \<Rightarrow> 'r ROW GVERSION list" where
  "stamp_commit p c chain = map (\<lambda>r. if t_commit r = None \<and> m_ppib r = pib_id p then r\<lparr>t_commit := Some c\<rparr> else r) chain"

subsection \<open>Steps\<close>

text \<open>
  A session that has created versions, of this node or of others, ends with \<open>commit\<close>, one without versions with \<open>finish\<close>.
\<close>

text \<open>The first argument is the session, or none for the clean-up; \<open>env\<close> is what the node layer looks up besides the versions.\<close>

inductive vstep :: "VERENV \<Rightarrow> nat option \<Rightarrow> 'r VSTATE \<Rightarrow> 'r VSTATE \<Rightarrow> bool" for env where
  begin_trx:
  "\<lbrakk> pib_id p \<notin> pib_id ` set (v_pibs s); v_pc s (pib_id p) = Idle; rgfucb p = []; pib_level p = 1; room s;
     PIBSetTrxBegin0 (v_newest s) p = (newest, p') \<rbrakk> \<Longrightarrow>
   vstep env (Some (pib_id p)) s
     (s\<lparr>v_newest := newest, v_now := (if fReadOnlyTrx p then v_now s else v_now s + 4),
        v_pibs := v_pibs s @ [p'\<lparr>t_pib := (if fReadOnlyTrx p then v_now s + 2 else v_now s + 4)\<rparr>]\<rparr>)"
| lock:
  "\<lbrakk> creates p opr vd s chain'; v_pc s (pib_id p) = Idle; opr = operReadLock \<or> opr = operWriteLock \<rbrakk> \<Longrightarrow>
   vstep env (Some (pib_id p)) s (s\<lparr>v_chain := chain'\<rparr>)"
| replace:
  "\<lbrakk> creates p operReplace vd s chain'; v_pc s (pib_id p) = Idle; ReadNode env p fUpd True (v_node s) (v_chain s) \<noteq> None \<rbrakk> \<Longrightarrow>
   vstep env (Some (pib_id p)) s (s\<lparr>v_chain := chain', v_node := set_flags fNDVersion 0 ((v_node s)\<lparr>nd_row := row\<rparr>)\<rparr>)"
| make_delta:
  "\<lbrakk> creates p opr (off, 0) s chain'; is_delta opr; v_pc s (pib_id p) = Idle;
     ReadNode env p fUpd True (v_node s) (v_chain s) \<noteq> None \<rbrakk> \<Longrightarrow>
   vstep env (Some (pib_id p)) s (s\<lparr>v_chain := chain', v_pc := (v_pc s)(pib_id p := MadeDelta)\<rparr>)"
| do_delta:
  "\<lbrakk> newest_of p s us r vs; v_pc s (pib_id p) = MadeDelta; nd_there (v_node s) \<rbrakk> \<Longrightarrow>
   vstep env (Some (pib_id p)) s
     (s\<lparr>v_chain := us @ r\<lparr>m_tDelta := d\<rparr> # vs, v_pc := (v_pc s)(pib_id p := Idle),
        v_node := set_flags fNDVersion 0 ((v_node s)\<lparr>nd_row := add_num (m_oper r) (m_cbOffset r) d (nd_row (v_node s))\<rparr>)\<rparr>)"
| make_delete:
  "\<lbrakk> creates p operFlagDelete vd s chain'; v_pc s (pib_id p) = Idle; ReadNode env p fUpd True (v_node s) (v_chain s) \<noteq> None \<rbrakk> \<Longrightarrow>
   vstep env (Some (pib_id p)) s (s\<lparr>v_chain := chain', v_pc := (v_pc s)(pib_id p := MadeDelete)\<rparr>)"
| do_delete:
  "\<lbrakk> newest_of p s us r vs; v_pc s (pib_id p) = MadeDelete \<rbrakk> \<Longrightarrow>
   vstep env (Some (pib_id p)) s
     (s\<lparr>v_pc := (v_pc s)(pib_id p := Idle), v_node := set_flags (fNDVersion OR fNDDeleted) 0 (v_node s)\<rparr>)"
| make_insert:
  "\<lbrakk> creates p operPreInsert vd s chain'; v_pc s (pib_id p) = Idle \<rbrakk> \<Longrightarrow>
   vstep env (Some (pib_id p)) s (s\<lparr>v_chain := chain', v_pc := (v_pc s)(pib_id p := MadeInsert)\<rparr>)"
| insert_new:
  "\<lbrakk> newest_of p s us r vs; v_pc s (pib_id p) = MadeInsert; \<not> nd_there (v_node s) \<rbrakk> \<Longrightarrow>
   vstep env (Some (pib_id p)) s
     (s\<lparr>v_chain := us @ r\<lparr>m_oper := operInsert\<rparr> # vs, v_pc := (v_pc s)(pib_id p := Idle),
        v_node := \<lparr>nd_there = True, nd_row = row, nd_fFlags = fNDVersion\<rparr>\<rparr>)"
| flag_insert:
  "\<lbrakk> newest_of p s us r vs; v_pc s (pib_id p) = MadeInsert; nd_there (v_node s); FNDDeleted (nd_kdf (v_node s)) \<rbrakk> \<Longrightarrow>
   vstep env (Some (pib_id p)) s
     (s\<lparr>v_chain := us @ r\<lparr>m_oper := operInsert\<rparr> # vs, v_pc := (v_pc s)(pib_id p := Idle),
        v_node := set_flags fNDVersion fNDDeleted (v_node s)\<rparr>)"
| make_insert_replace:
  "\<lbrakk> creates p operReplace vd s chain'; v_pc s (pib_id p) = MadeInsert; nd_there (v_node s); FNDDeleted (nd_kdf (v_node s)) \<rbrakk> \<Longrightarrow>
   vstep env (Some (pib_id p)) s (s\<lparr>v_chain := chain', v_pc := (v_pc s)(pib_id p := MadeInsertReplace)\<rparr>)"
| flag_insert_and_replace:
  "\<lbrakk> newest_of p s us r (w # vs); v_pc s (pib_id p) = MadeInsertReplace \<rbrakk> \<Longrightarrow>
   vstep env (Some (pib_id p)) s
     (s\<lparr>v_chain := us @ r # w\<lparr>m_oper := operInsert\<rparr> # vs, v_pc := (v_pc s)(pib_id p := Idle),
        v_node := set_flags fNDVersion fNDDeleted ((v_node s)\<lparr>nd_row := row\<rparr>)\<rparr>)"
| failed:
  "\<lbrakk> newest_of p s us r vs; v_pc s (pib_id p) \<noteq> Idle \<rbrakk> \<Longrightarrow>
   vstep env (Some (pib_id p)) s
     (s\<lparr>v_chain := us @ vs, v_pc := (v_pc s)(pib_id p := if v_pc s (pib_id p) = MadeInsertReplace then MadeInsert else Idle)\<rparr>)"
| undo:
  "\<lbrakk> newest_of p s us r vs; v_pc s (pib_id p) = Idle \<rbrakk> \<Longrightarrow>
   vstep env (Some (pib_id p)) s
     (s\<lparr>v_chain := VERINullifyRolledBackRCE False (length us) (v_chain s), v_node := undo_node r (v_node s)\<rparr>)"
| commit:
  "\<lbrakk> p \<in> set (v_pibs s); \<not> fReadOnlyTrx p; v_pc s (pib_id p) = Idle; room s; TrxCommit0 (v_newest s) True hint = (newest, c);
     VERCommitTransaction False (p\<lparr>trxCommit0 := c\<rparr>) (v_chain s) = (p', chain') \<rbrakk> \<Longrightarrow>
   vstep env (Some (pib_id p)) s
     (s\<lparr>v_newest := newest, v_now := v_now s + 4, v_pibs := filter (\<lambda>q. pib_id q \<noteq> pib_id p) (v_pibs s),
        v_chain := stamp_commit p (v_now s + 4) chain'\<rparr>)"
| finish:
  "\<lbrakk> p \<in> set (v_pibs s); v_pc s (pib_id p) = Idle; \<forall>r \<in> set (v_chain s). \<not> mine p r \<rbrakk> \<Longrightarrow>
   vstep env (Some (pib_id p)) s (s\<lparr>v_pibs := filter (\<lambda>q. pib_id q \<noteq> pib_id p) (v_pibs s)\<rparr>)"
| clean:
  "\<lbrakk> k < length (v_chain s); FFullyCommitted (v_chain s ! k); TrxCmp (m_trxCommitted (v_chain s ! k)) (oldest s) < 0 \<rbrakk> \<Longrightarrow>
   vstep env None s (s\<lparr>v_chain := ErrPrepareToDeallocate (oldest s) k (v_chain s)\<rparr>)"
| nullify:
  "vstep env None s (s\<lparr>v_chain := VERNullifyInactiveVersionsOnBM cached (oldest s) (v_chain s)\<rparr>)"
| expunge:
  "\<lbrakk> FNDDeleted (nd_kdf (v_node s)); \<not> FVERActive (v_chain s) (oldest s) \<rbrakk> \<Longrightarrow>
   vstep env None s (s\<lparr>v_node := (v_node s)\<lparr>nd_there := False\<rparr>\<rparr>)"
| reset_bit:
  "v_chain s = [] \<Longrightarrow> vstep env None s (s\<lparr>v_node := set_flags 0 fNDVersion (v_node s)\<rparr>)"

text \<open>It begins with a node without versions and no session.\<close>

inductive reach :: "VERENV \<Rightarrow> 'r VSTATE \<Rightarrow> bool" for env where
  start: "\<lbrakk> v_newest s = of_nat (v_now s); 4 dvd v_now s; v_pibs s = []; v_pc s = (\<lambda>i. Idle); v_chain s = [] \<rbrakk> \<Longrightarrow> reach env s"
| step: "\<lbrakk> reach env s; vstep env who s s' \<rbrakk> \<Longrightarrow> reach env s'"

end
