(* ===== verification/Ver_Time.thy ===== *)
theory Ver_Time
  imports Ver_Machine
begin

text \<open>
  The times in a reachable state.  \<open>time_ok\<close> says how the numbers of sessions and versions are related; with it
  the questions the code asks are questions about times, and a version the check for write conflicts
  lets through keeps the chain ordered.
\<close>

subsection \<open>The invariant\<close>

definition pib_ok :: "'r VSTATE \<Rightarrow> GPIB \<Rightarrow> bool" where
  "pib_ok s p \<longleftrightarrow> trxBegin0 p = of_nat (t_pib p) \<and> t_pib p \<le> v_now s + 2 \<and> rgfucb p = [] \<and> pib_level p = 1 \<and>
     (if fReadOnlyTrx p then t_pib p mod 4 = 2 else 4 dvd t_pib p)"

definition pibs_ok :: "'r VSTATE \<Rightarrow> bool" where
  "pibs_ok s \<longleftrightarrow> (\<forall>p \<in> set (v_pibs s). pib_ok s p) \<and> distinct (map pib_id (v_pibs s)) \<and>
     (\<forall>p \<in> set (v_pibs s). \<forall>q \<in> set (v_pibs s). \<not> fReadOnlyTrx p \<longrightarrow> t_pib p = t_pib q \<longrightarrow> p = q)"

definition version_ok :: "'r VSTATE \<Rightarrow> 'r ROW GVERSION \<Rightarrow> bool" where
  "version_ok s r \<longleftrightarrow> timed r \<and> \<not> m_fRolledBack r \<and> 4 dvd t_begin r \<and> t_begin r \<le> v_now s \<and>
     (case t_commit r of
        None \<Rightarrow> (\<exists>p \<in> set (v_pibs s). \<not> fReadOnlyTrx p \<and> pib_id p = m_ppib r \<and> t_pib p = t_begin r)
      | Some c \<Rightarrow> 4 dvd c \<and> c \<le> v_now s \<and> t_begin r < c \<and> (\<forall>p \<in> set (v_pibs s). c \<noteq> t_pib p \<and> t_begin r \<noteq> t_pib p))"

definition time_ok :: "'r VSTATE \<Rightarrow> bool" where
  "time_ok s \<longleftrightarrow> v_newest s = of_nat (v_now s) \<and> 4 dvd v_now s \<and> pibs_ok s \<and> (\<forall>r \<in> set (v_chain s). version_ok s r) \<and>
     coherent (v_chain s) \<and> (\<forall>t \<in> times s. v_now s + 2 < t + 2 ^ 31)"

lemma time_okD:
  assumes "time_ok s"
  shows "v_newest s = of_nat (v_now s)" "4 dvd v_now s" "pibs_ok s" "r \<in> set (v_chain s) \<Longrightarrow> version_ok s r"
    "coherent (v_chain s)" "t \<in> times s \<Longrightarrow> v_now s + 2 < t + 2 ^ 31"
    "p \<in> set (v_pibs s) \<Longrightarrow> pib_ok s p"
  using assms by (auto simp: time_ok_def pibs_ok_def)

text \<open>The part of a version the times depend on.\<close>

definition stamps :: "'r ROW GVERSION \<Rightarrow> nat \<times> nat option \<times> nat \<times> TRX \<times> TRX \<times> bool" where
  "stamps r = (t_begin r, t_commit r, m_ppib r, m_trxBegin0 r, m_trxCommitted r, m_fRolledBack r)"

lemma version_ok_stamps: "stamps r = stamps r' \<Longrightarrow> version_ok s r = version_ok s r'"
  by (simp add: stamps_def version_ok_def timed_def cong: option.case_cong)

lemma coherent_stamps:
  assumes "stamps ` set vs \<subseteq> stamps ` set chain" "coherent chain"
  shows "coherent vs"
proof -
  have "\<exists>r' \<in> set chain. stamps r' = stamps r" if "r \<in> set vs" for r
    using assms(1) that by (metis (no_types, lifting) image_iff subset_iff)
  then obtain f where f: "\<forall>r \<in> set vs. f r \<in> set chain \<and> stamps (f r) = stamps r" by metis
  then have "t_begin (f r) = t_begin r" "t_commit (f r) = t_commit r" "m_ppib (f r) = m_ppib r" if "r \<in> set vs" for r
    using that by (simp_all add: stamps_def)
  then show ?thesis using assms(2) f unfolding coherent_def by metis
qed

lemma time_mono:
  fixes s s' :: "'r VSTATE"
  assumes "time_ok s" "v_newest s' = v_newest s" "v_now s' = v_now s" "v_pibs s' = v_pibs s"
    "stamps ` set (v_chain s') \<subseteq> stamps ` set (v_chain s)"
  shows "time_ok s'"
proof -
  have v: "\<exists>r' \<in> set (v_chain s). stamps r' = stamps r" if "r \<in> set (v_chain s')" for r
    using assms(5) that by (metis (no_types, lifting) image_iff subset_iff)
  have "version_ok s' r" if r: "r \<in> set (v_chain s')" for r
  proof -
    obtain r' where "r' \<in> set (v_chain s)" "stamps r' = stamps r" using v [OF r] by blast
    then have "version_ok s r" using version_ok_stamps [of r' r s] time_okD(4) [OF assms(1)] by simp
    then show ?thesis using assms(3,4) by (simp add: version_ok_def cong: option.case_cong)
  qed
  moreover have "times s' \<subseteq> times s"
  proof
    fix t assume "t \<in> times s'"
    then consider "t \<in> t_pib ` set (v_pibs s)" | r where "r \<in> set (v_chain s')" "t = t_begin r \<or> t_commit r = Some t"
      using assms(4) by (auto simp: times_def)
    then show "t \<in> times s"
    proof cases
      case 2
      then obtain r' where "r' \<in> set (v_chain s)" "stamps r' = stamps r" using v by blast
      then have "r' \<in> set (v_chain s)" "t_begin r' = t_begin r" "t_commit r' = t_commit r" by (simp_all add: stamps_def)
      moreover from this(1) have "t_begin r' \<in> times s" "t_commit r' = Some t \<Longrightarrow> t \<in> times s" by (simp add: times_def, unfold times_def, blast)
      ultimately show ?thesis using 2(2) by auto
    qed (simp add: times_def)
  qed
  moreover have "coherent (v_chain s')" by (rule coherent_stamps [OF assms(5) time_okD(5) [OF assms(1)]])
  moreover have "pibs_ok s'" using time_okD(3) [OF assms(1)] assms(3,4) by (simp add: pibs_ok_def pib_ok_def)
  ultimately show ?thesis using assms(1-4) unfolding time_ok_def by auto
qed

subsection \<open>What the sessions meet\<close>

lemma even_times:
  assumes "4 dvd (n::nat)" shows "even n"
  using assms by (rule dvd_trans [rotated]) simp

lemma time_met:
  assumes "time_ok s" "p \<in> set (v_pibs s)" "r \<in> set (v_chain s)"
  shows "met p r"
proof -
  note v = time_okD(4) [OF assms(1,3)] and po = time_okD(7) [OF assms(1,2)]
  have "t_pib p mod 4 = 2 \<or> 4 dvd t_pib p" using po by (simp add: pib_ok_def split: if_splits)
  then have ev: "even (t_pib p)" by presburger
  show ?thesis
  proof (cases "t_commit r")
    case None
    then obtain q where q: "q \<in> set (v_pibs s)" "\<not> fReadOnlyTrx q" "pib_id q = m_ppib r" "t_pib q = t_begin r"
      using v by (auto simp: version_ok_def)
    have "q = p" if "pib_id q = pib_id p"
      using that q(1) assms(2) time_okD(3) [OF assms(1)] by (auto simp: pibs_ok_def distinct_map inj_on_def)
    moreover have "q = p" if "t_pib q = t_pib p"
      using that q(1,2) assms(2) time_okD(3) [OF assms(1)] unfolding pibs_ok_def by blast
    ultimately have "(m_ppib r = pib_id p) = (t_begin r = t_pib p)" using q(3,4) by metis
    then show ?thesis using None v po ev by (simp add: met_def version_ok_def pib_ok_def)
  next
    case (Some c)
    then have c: "4 dvd c" "c \<le> v_now s" "c \<noteq> t_pib p" "t_begin r \<noteq> t_pib p"
      using v assms(2) by (auto simp: version_ok_def)
    have "c \<in> times s" "t_pib p \<in> times s" using Some assms(2,3) by (auto simp: times_def)
    from this [THEN time_okD(6) [OF assms(1)]] have "near c (t_pib p)"
      using c(1,2) po ev even_times [OF c(1)] by (simp add: near_def pib_ok_def)
    then show ?thesis using Some c v po ev by (simp add: met_def version_ok_def pib_ok_def)
  qed
qed

subsection \<open>New versions\<close>

text \<open>What a created version looks like.\<close>

definition fresh :: "GPIB \<Rightarrow> OPER \<Rightarrow> int \<times> int \<Rightarrow> 'r VSTATE \<Rightarrow> 'r ROW GVERSION \<Rightarrow> bool" where
  "fresh p opr vd s r \<longleftrightarrow> p \<in> set (v_pibs s) \<and> \<not> fReadOnlyTrx p \<and>
     stamps r = (t_pib p, None, pib_id p, trxBegin0 p, trxMax, False) \<and> m_oper r = opr \<and>
     (opr = operReplace \<longrightarrow> m_before r = nd_row (v_node s)) \<and>
     (is_delta opr \<longrightarrow> m_cbOffset r = fst vd \<and> m_tDelta r = snd vd)"

lemma createsD:
  assumes "creates p opr vd s chain'"
  obtains r where "chain' = r # v_chain s" "fresh p opr vd s r" "\<not> FVERIWriteConflict p opr (v_chain s)"
proof -
  obtain rceid prce where c: "p \<in> set (v_pibs s)" "\<not> fReadOnlyTrx p" "t_begin prce = t_pib p" "t_commit prce = None"
    "ErrVERModify (modenv rceid prce) p opr (nd_row (v_node s)) vd proxyNone (v_chain s) = (JET_errSuccess, chain')"
    using assms unfolding creates_def by blast
  define upd where "upd = (if FUndoableLoggedOper opr \<or> operPreInsert = opr then pib_updateid p else updateidNil)"
  define r where "r = SetupInsertedDMLRCE (nd_row (v_node s)) vd (new_RCE (pib_id p) (trxBegin0 p) (pib_level p) opr False rceid upd prce)"
  have "\<not> FVERIWriteConflict p opr (v_chain s)" "chain' = r # v_chain s"
    using c(5) by (auto simp: ErrVERModify_def modenv_def InsertRCEIntoChain_def Let_def r_def upd_def split: if_splits)
  moreover have "fresh p opr vd s r"
    using c(1-4) by (cases opr) (auto simp: fresh_def r_def new_RCE_def SetupInsertedDMLRCE_def stamps_def is_delta_def)
  ultimately show thesis using that by blast
qed

lemma time_push:
  fixes s s' :: "'r VSTATE"
  assumes "time_ok s" "fresh p opr vd s r"
    and eqs: "v_newest s' = v_newest s" "v_now s' = v_now s" "v_pibs s' = v_pibs s" "v_chain s' = r # v_chain s"
  shows "time_ok s'"
proof -
  have f: "p \<in> set (v_pibs s)" "\<not> fReadOnlyTrx p" "t_begin r = t_pib p" "t_commit r = None" "m_ppib r = pib_id p"
    "m_trxBegin0 r = trxBegin0 p" "m_trxCommitted r = trxMax" "\<not> m_fRolledBack r"
    using assms(2) by (auto simp: fresh_def stamps_def)
  note po = time_okD(7) [OF assms(1) f(1)]
  have "4 dvd t_pib p" "t_pib p \<le> v_now s + 2" using po f(2) by (simp_all add: pib_ok_def)
  then have dv: "4 dvd t_pib p" "t_pib p \<le> v_now s" using time_okD(2) [OF assms(1)] by (simp, presburger)
  have "timed r" using f po by (simp add: timed_def trx_of_def pib_ok_def)
  then have "version_ok s r" using f(1-5,8) dv unfolding version_ok_def by auto
  moreover have "version_ok s' w = version_ok s w" for w using eqs by (simp add: version_ok_def cong: option.case_cong)
  ultimately have v: "\<forall>w \<in> set (v_chain s'). version_ok s' w"
    using time_okD(4) [OF assms(1)] eqs(4) by simp
  have w: "(t_begin w = t_begin r) = (t_commit w = None \<and> m_ppib w = m_ppib r)" if "w \<in> set (v_chain s)" for w
    using time_met [OF assms(1) f(1) that] f(3,5) unfolding met_def by (cases "t_commit w") simp_all
  then have "coherent (r # v_chain s)"
    using time_okD(5) [OF assms(1)] f(4) unfolding coherent_def by (metis option.distinct(1) set_ConsD)
  moreover have "times s' = times s" using eqs f(1,3,4) by (auto simp: times_def)
  ultimately show ?thesis
    using v assms(1) eqs by (simp add: time_ok_def pibs_ok_def pib_ok_def)
qed

subsection \<open>Begin and end of transactions\<close>

lemma even_of_4dvd: "4 dvd (n::nat) \<Longrightarrow> (n + 2) mod 4 = 2"
  by presburger

lemma time_begin:
  fixes s s' :: "'r VSTATE"
  assumes "time_ok s" "room s" "pib_id p \<notin> pib_id ` set (v_pibs s)" "rgfucb p = []" "pib_level p = 1"
    "PIBSetTrxBegin0 (v_newest s) p = (newest, p')"
    and s': "v_newest s' = newest" "v_now s' = (if fReadOnlyTrx p then v_now s else v_now s + 4)"
      "v_pibs s' = v_pibs s @ [p'\<lparr>t_pib := (if fReadOnlyTrx p then v_now s + 2 else v_now s + 4)\<rparr>]" "v_chain s' = v_chain s"
  shows "time_ok s'"
proof -
  define t where "t = (if fReadOnlyTrx p then v_now s + 2 else v_now s + 4)"
  define q where "q = p'\<lparr>t_pib := t\<rparr>"
  note T = time_okD [OF assms(1)]
  have q: "trxBegin0 q = of_nat t" "t_pib q = t" "fReadOnlyTrx q = fReadOnlyTrx p" "rgfucb q = []" "pib_level q = 1" "pib_id q = pib_id p"
    and nw: "newest = of_nat (v_now s')"
    using assms(4-6) T(1) s'(2) by (auto simp: q_def t_def PIBSetTrxBegin0_def TRXID_INCR_def split: if_splits)
  have n4: "4 dvd v_now s'" "v_now s \<le> v_now s'" "v_now s' \<le> v_now s + 4" using T(2) s'(2) by simp_all
  have tt: "v_now s < t" "t \<le> v_now s' + 2" "v_now s' \<le> t" using s'(2) by (simp_all add: t_def)
  have tq: "if fReadOnlyTrx p then t mod 4 = 2 else 4 dvd t \<and> v_now s + 4 = t"
    using T(2) even_of_4dvd by (simp add: t_def)
  have old: "pib_ok s' w" if "w \<in> set (v_pibs s)" for w
    using T(7) [OF that] n4(2) by (simp add: pib_ok_def split: if_splits)
  have "pib_ok s' q" using q tt(2) tq by (simp add: pib_ok_def split: if_splits)
  moreover have "t_pib w \<noteq> t" if "w \<in> set (v_pibs s)" "\<not> fReadOnlyTrx w \<or> \<not> fReadOnlyTrx p" for w
  proof
    assume e: "t_pib w = t"
    have w: "t_pib w \<le> v_now s + 2" "\<not> fReadOnlyTrx w \<Longrightarrow> 4 dvd t_pib w"
      using T(7) [OF that(1)] by (simp_all add: pib_ok_def split: if_splits)
    show False
    proof (cases "fReadOnlyTrx p")
      case True
      then have "t mod 4 = 2" "4 dvd t" using tq w(2) that(2) e by simp_all
      then show False by presburger
    qed (use tq w(1) e in simp)
  qed
  ultimately have pibs: "pibs_ok s'"
    using T(3) old q(2,3,6) assms(3) unfolding pibs_ok_def s'(3) t_def [symmetric] q_def [symmetric] by (auto; metis)
  have "version_ok s' r" if "r \<in> set (v_chain s)" for r
  proof (cases "t_commit r")
    case None
    then show ?thesis using T(4) [OF that] n4(2) unfolding version_ok_def s'(3) by auto
  next
    case (Some c)
    then have "c \<le> v_now s" "t_begin r \<le> v_now s" using T(4) [OF that] by (simp_all add: version_ok_def)
    then have "c \<noteq> t" "t_begin r \<noteq> t" using tt(1) by simp_all
    then show ?thesis using T(4) [OF that] n4(2) Some q(2) unfolding version_ok_def s'(3) t_def [symmetric] q_def [symmetric] by auto
  qed
  moreover have "times s' = insert t (times s)" unfolding times_def s'(3,4) t_def [symmetric] by auto
  ultimately show ?thesis
    using T(5) pibs nw s'(1,4) n4(1,3) tt(3) assms(2) by (auto simp: time_ok_def room_def)
qed

lemma time_finish:
  fixes s s' :: "'r VSTATE"
  assumes "time_ok s" "p \<in> set (v_pibs s)" "\<forall>r \<in> set (v_chain s). \<not> mine p r"
    and s': "v_newest s' = v_newest s" "v_now s' = v_now s" "v_pibs s' = filter (\<lambda>q. pib_id q \<noteq> pib_id p) (v_pibs s)" "v_chain s' = v_chain s"
  shows "time_ok s'"
proof -
  note T = time_okD [OF assms(1)]
  have "version_ok s' r" if "r \<in> set (v_chain s)" for r
  proof (cases "t_commit r")
    case None
    have "t_begin r \<noteq> t_pib p" using None assms(3) that met_cmp(4) [OF time_met [OF assms(1,2) that]] by (simp add: seen_def)
    then have "m_ppib r \<noteq> pib_id p" using time_met [OF assms(1,2) that] None by (simp add: met_def)
    then show ?thesis using None T(4) [OF that] s'(2,3) by (auto simp: version_ok_def)
  qed (use T(4) [OF that] s'(2,3) in \<open>auto simp: version_ok_def\<close>)
  moreover have "pibs_ok s'"
    using T(3) s'(2,3) by (auto simp: pibs_ok_def pib_ok_def distinct_map inj_on_def)
  moreover have "times s' \<subseteq> times s" using s'(3,4) by (auto simp: times_def)
  ultimately show ?thesis using T(1,2,5,6) s'(1,2,4) by (auto simp: time_ok_def)
qed

text \<open>The chain after a commit.\<close>

definition committed_at :: "GPIB \<Rightarrow> nat \<Rightarrow> 'r ROW GVERSION \<Rightarrow> 'r ROW GVERSION" where
  "committed_at p c r = (if mine p r then r\<lparr>m_level := 0, m_trxCommitted := of_nat c, t_commit := Some c\<rparr> else r)"

lemma commit_chain:
  assumes "time_ok s" "p \<in> set (v_pibs s)" "TrxCommit0 (v_newest s) True hint = (newest, c)"
    "VERCommitTransaction False (p\<lparr>trxCommit0 := c\<rparr>) (v_chain s) = (p', chain')"
  shows "newest = of_nat (v_now s + 4)" "stamp_commit p (v_now s + 4) chain' = map (committed_at p (v_now s + 4)) (v_chain s)"
proof -
  note T = time_okD [OF assms(1)]
  show n: "newest = of_nat (v_now s + 4)"
    using assms(3) T(1) by (simp add: TrxCommit0_def TRXID_INCR_def)
  then have c: "c = of_nat (v_now s + 4)" using assms(3) by (auto simp: TrxCommit0_def)
  have "pib_level p = 1" using T(7) [OF assms(2)] by (simp add: pib_ok_def)
  then have "chain' = map (\<lambda>prce. if mine p prce then VERICommitOneRCEToLevel0 (p\<lparr>trxCommit0 := c\<rparr>) prce else prce) (v_chain s)"
    using assms(4) by (simp add: VERCommitTransaction_def VERICommitTransactionToLevel0_def mine_def)
  moreover have "t_commit r = None \<and> m_ppib r = pib_id p \<longleftrightarrow> mine p r" if "r \<in> set (v_chain s)" for r
    using met_committed [OF time_met [OF assms(1,2) that]] by (auto simp: mine_def)
  ultimately show "stamp_commit p (v_now s + 4) chain' = map (committed_at p (v_now s + 4)) (v_chain s)"
    using c by (auto simp: stamp_commit_def committed_at_def VERICommitOneRCEToLevel0_def)
qed

lemma time_commit:
  fixes s s' :: "'r VSTATE"
  assumes "time_ok s" "room s" "p \<in> set (v_pibs s)"
    and s': "v_newest s' = of_nat (v_now s + 4)" "v_now s' = v_now s + 4" "v_pibs s' = filter (\<lambda>q. pib_id q \<noteq> pib_id p) (v_pibs s)"
      "v_chain s' = map (committed_at p (v_now s + 4)) (v_chain s)"
  shows "time_ok s'"
proof -
  note T = time_okD [OF assms(1)]
  let ?f = "committed_at p (v_now s + 4)"
  have mine: "mine p r \<longleftrightarrow> t_commit r = None \<and> m_ppib r = pib_id p" "mine p r \<longleftrightarrow> t_commit r = None \<and> t_begin r = t_pib p"
    if "r \<in> set (v_chain s)" for r
    using met_committed [OF time_met [OF assms(1,3) that]] met_cmp(4) [OF time_met [OF assms(1,3) that]]
    by (auto simp: mine_def seen_def)
  have sub: "q \<in> set (v_pibs s)" "pib_id q \<noteq> pib_id p" if "q \<in> set (v_pibs s')" for q using that s'(3) by auto
  have v: "version_ok s' (?f r)" if r: "r \<in> set (v_chain s)" for r
  proof (cases "mine p r")
    case True
    then obtain q where q: "q \<in> set (v_pibs s)" "\<not> fReadOnlyTrx q" "pib_id q = pib_id p" "t_pib q = t_begin r"
      using mine(1) [OF r] T(4) [OF r] by (auto simp: version_ok_def)
    have "t_begin r \<noteq> t_pib w \<and> v_now s + 4 \<noteq> t_pib w" if "w \<in> set (v_pibs s')" for w
    proof -
      have "t_pib q = t_pib w \<Longrightarrow> q = w" using q(1,2) sub(1) [OF that] T(3) unfolding pibs_ok_def by blast
      then have "t_begin r \<noteq> t_pib w" using sub(2) [OF that] q(3,4) by auto
      moreover have "t_pib w \<le> v_now s + 2" using T(7) [OF sub(1) [OF that]] by (simp add: pib_ok_def)
      ultimately show ?thesis by simp
    qed
    then show ?thesis
      using True T(2) T(4) [OF r] s'(2) by (auto simp: committed_at_def version_ok_def timed_def trx_of_def)
  next
    case False
    show ?thesis
    proof (cases "t_commit r")
      case None
      then obtain q where "q \<in> set (v_pibs s)" "\<not> fReadOnlyTrx q" "pib_id q = m_ppib r" "t_pib q = t_begin r"
        using T(4) [OF r] by (auto simp: version_ok_def)
      moreover have "m_ppib r \<noteq> pib_id p" using False mine(1) [OF r] None by simp
      ultimately show ?thesis using False None T(4) [OF r] s'(2,3) by (auto simp: committed_at_def version_ok_def)
    next
      case (Some c)
      then show ?thesis using False T(4) [OF r] s'(2) sub(1) by (auto simp: committed_at_def version_ok_def)
    qed
  qed
  have "coherent (v_chain s')"
    unfolding coherent_def
  proof (intro conjI ballI allI impI)
    fix a b assume "a \<in> set (v_chain s')" "b \<in> set (v_chain s')" and e: "t_begin a = t_begin b"
    then obtain r w where r: "r \<in> set (v_chain s)" "a = ?f r" and w: "w \<in> set (v_chain s)" "b = ?f w" using s'(4) by auto
    have "t_begin r = t_begin w" using e r(2) w(2) by (simp add: committed_at_def split: if_splits)
    then have rw: "t_commit r = t_commit w" "m_ppib r = m_ppib w" using T(5) r(1) w(1) unfolding coherent_def by blast+
    then show "t_commit a = t_commit b" "m_ppib a = m_ppib b"
      using mine(1) [OF r(1)] mine(1) [OF w(1)] r(2) w(2) by (auto simp: committed_at_def)
  next
    fix a c assume a: "a \<in> set (v_chain s')" "t_commit a = Some c"
    then have "version_ok s' a" using v s'(4) by auto
    then show "t_begin a < c" using a(2) by (simp add: version_ok_def)
  qed
  moreover have "pibs_ok s'"
    using T(3) s'(2,3) by (auto simp: pibs_ok_def pib_ok_def distinct_map inj_on_def)
  moreover have "times s' \<subseteq> insert (v_now s + 4) (times s)"
  proof
    fix t assume "t \<in> times s'"
    then consider "t \<in> t_pib ` set (v_pibs s)" | r where "r \<in> set (v_chain s)" "t = t_begin (?f r) \<or> t_commit (?f r) = Some t"
      unfolding times_def using s'(3,4) by auto
    then show "t \<in> insert (v_now s + 4) (times s)"
      by cases (auto simp: times_def committed_at_def split: if_splits)
  qed
  moreover from this have "\<forall>t \<in> times s'. v_now s' + 2 < t + 2 ^ 31"
    using assms(2) s'(2) by (fastforce simp: room_def)
  ultimately show ?thesis using T(2) v s' unfolding time_ok_def by auto
qed

end
