(* ===== verification/Ver_Order.thy ===== *)
theory Ver_Order
  imports Ver_Time
begin

text \<open>
  The chain of a node is ordered: a version only has below it what its transaction sees, or versions that commute with it.  This
  is what \<open>FVERIWriteConflict\<close> is for, although it does not look at all versions.
\<close>

subsection \<open>The check for write conflicts\<close>

lemma CommuteLoop_free:
  assumes "\<forall>r \<in> set chain. met p r" "\<not> CommuteLoop opr (trxBegin0 p) chain" "r \<in> set (takeWhile (looked p) chain)"
  shows "m_oper r = opr"
  using assms
proof (induction chain)
  case (Cons h chain)
  then show ?case by (auto simp: looked_def met_cmp(1) split: if_splits)
qed simp

lemma OnlyMineLoop_free:
  assumes "\<forall>r \<in> set chain. met p r" "\<not> OnlyMineLoop p chain" "r \<in> set chain"
  shows "seen (t_pib p) r"
  using assms by (induction chain) (auto simp: TrxVERISession_def met_cmp(3) split: if_splits)

lemma after_takeWhile:
  assumes "w \<in> set xs" "w \<notin> set (takeWhile P xs)"
  obtains us s vs where "xs = us @ s # vs" "\<not> P s" "w = s \<or> w \<in> set vs"
proof -
  have "w \<in> set (dropWhile P xs)" using assms by (metis takeWhile_dropWhile_id Un_iff set_append)
  then obtain s vs where s: "dropWhile P xs = s # vs" by (cases "dropWhile P xs") auto
  then have "\<not> P s" by (metis hd_dropWhile list.sel(1) list.simps(3))
  moreover have "xs = takeWhile P xs @ s # vs" using s by (metis takeWhile_dropWhile_id)
  ultimately show thesis using that \<open>w \<in> set (dropWhile P xs)\<close> s by auto
qed

lemma no_conflict:
  assumes met: "\<forall>r \<in> set chain. met p r" and ord: "ordered chain" "coherent chain"
    and nc: "\<not> FVERIWriteConflict p opr chain" and w: "w \<in> set chain" "\<not> seen (t_pib p) w"
  shows "(opr = operReadLock \<or> opr = operDelta \<or> opr = operDelta64) \<and> commutes w"
proof -
  obtain h vs where h: "chain = h # vs" using w(1) by (cases chain) auto
  have mh: "met p h" using met h by simp
  show ?thesis
  proof (cases "seen (t_pib p) h")
    case True
    then have wv: "w \<in> set vs" using w h by auto
    then have c: "commutes h \<and> commutes w" using unseen_below [of "[]" h vs "t_pib p" w] ord h True w(2) by simp
    have "\<not> FActiveNotByMe h (pib_id p) (trxBegin0 p)" using met_cmp(3) [OF mh] True by simp
    moreover have "OnlyMineLoop p chain" using OnlyMineLoop_free [OF met] w by blast
    ultimately have "m_oper h = opr" using nc h c by (auto simp: FVERIWriteConflict_def TrxVERISession_def commutes_def split: if_splits)
    then show ?thesis using c by (auto simp: commutes_def)
  next
    case False
    then have "FActiveNotByMe h (pib_id p) (trxBegin0 p)" using met_cmp(3) [OF mh] by simp
    then have o: "opr = operReadLock \<or> opr = operDelta \<or> opr = operDelta64" and cl: "\<not> CommuteLoop opr (trxBegin0 p) chain"
      using nc h by (auto simp: FVERIWriteConflict_def TrxVERISession_def split: if_splits)
    have "commutes w"
    proof (cases "w \<in> set (takeWhile (looked p) chain)")
      case True
      then show ?thesis using CommuteLoop_free [OF met cl] o by (auto simp: commutes_def)
    next
      case False
      then obtain us s vs where s: "chain = us @ s # vs" "\<not> looked p s" "w = s \<or> w \<in> set vs"
        using after_takeWhile [OF w(1)] by metis
      then have "seen (t_pib p) s" by (simp add: looked_def)
      then show ?thesis using unseen_below [of us s vs "t_pib p" w] ord s w(2) by auto
    qed
    then show ?thesis using o by blast
  qed
qed

subsection \<open>Ordered chains\<close>

definition order_ok :: "'r VSTATE \<Rightarrow> bool" where
  "order_ok s \<longleftrightarrow> time_ok s \<and> ordered (v_chain s)"

lemma order_okD:
  assumes "order_ok s"
  shows "time_ok s" "ordered (v_chain s)" "coherent (v_chain s)"
    "p \<in> set (v_pibs s) \<Longrightarrow> r \<in> set (v_chain s) \<Longrightarrow> met p r" "r \<in> set (v_chain s) \<Longrightarrow> \<not> m_fRolledBack r"
  using assms time_okD [of s] time_met [of s] by (auto simp: order_ok_def version_ok_def)

lemma order_push:
  fixes s s' :: "'r VSTATE"
  assumes "order_ok s" "fresh p opr vd s r" "\<not> FVERIWriteConflict p opr (v_chain s)"
    and eqs: "v_newest s' = v_newest s" "v_now s' = v_now s" "v_pibs s' = v_pibs s" "v_chain s' = r # v_chain s"
  shows "order_ok s'"
proof -
  note O = order_okD [OF assms(1)]
  have f: "p \<in> set (v_pibs s)" "t_begin r = t_pib p" "m_oper r = opr" using assms(2) by (auto simp: fresh_def stamps_def)
  have "seen (t_begin r) w \<or> commutes r \<and> commutes w" if "w \<in> set (v_chain s)" for w
    using no_conflict [OF _ O(2,3) assms(3) that] O(4) [OF f(1)] f(2,3) by (auto simp: commutes_def)
  then show ?thesis
    using time_push [OF O(1) assms(2) eqs] O(2) eqs(4) by (simp add: order_ok_def ordered_Cons)
qed

text \<open>Removing versions.\<close>

lemma ordered_remove: "ordered (us @ r # vs) \<Longrightarrow> ordered (us @ vs)"
  by (auto simp: ordered_append ordered_Cons)

lemma ordered_filter: "ordered chain \<Longrightarrow> ordered (filter P chain)"
  unfolding ordered_def by (rule sorted_wrt_filter)

lemma order_sub:
  fixes s s' :: "'r VSTATE"
  assumes "order_ok s" "v_newest s' = v_newest s" "v_now s' = v_now s" "v_pibs s' = v_pibs s"
    "set (v_chain s') \<subseteq> set (v_chain s)" "ordered (v_chain s')"
  shows "order_ok s'"
  using time_mono [of s s'] order_okD(1) [OF assms(1)] assms by (auto simp: order_ok_def)

text \<open>Changing a version without changing its times or whether it commutes.\<close>

lemma ordered_replace:
  assumes "ordered (us @ r # vs)" "stamps r' = stamps r" "commutes r' = commutes r"
  shows "ordered (us @ r' # vs)"
proof -
  have "t_begin r' = t_begin r" "seen b r' = seen b r" for b using assms(2) by (simp_all add: stamps_def seen_def)
  then show ?thesis using assms(1,3) by (auto simp: ordered_append ordered_Cons)
qed

lemma order_replace:
  fixes s s' :: "'r VSTATE"
  assumes "order_ok s" "v_newest s' = v_newest s" "v_now s' = v_now s" "v_pibs s' = v_pibs s"
    "v_chain s = us @ r # vs" "v_chain s' = us @ r' # vs" "stamps r' = stamps r" "commutes r' = commutes r"
  shows "order_ok s'"
  using time_mono [of s s'] order_okD(1,2) [OF assms(1)] ordered_replace [of us r vs r'] assms by (auto simp: order_ok_def)

lemma order_commit:
  fixes s s' :: "'r VSTATE"
  assumes "order_ok s" "room s" "p \<in> set (v_pibs s)"
    and s': "v_newest s' = of_nat (v_now s + 4)" "v_now s' = v_now s + 4" "v_pibs s' = filter (\<lambda>q. pib_id q \<noteq> pib_id p) (v_pibs s)"
      "v_chain s' = map (committed_at p (v_now s + 4)) (v_chain s)"
  shows "order_ok s'"
proof -
  note O = order_okD [OF assms(1)]
  let ?f = "committed_at p (v_now s + 4)"
  have c: "t_begin (?f r) = t_begin r" "commutes (?f r) = commutes r" for r by (simp_all add: committed_at_def commutes_def)
  have sn: "seen b (?f w) = seen b w" if "w \<in> set (v_chain s)" "b \<le> v_now s" for b w
    using met_cmp(4) [OF O(4) [OF assms(3) that(1)]] that(2) by (auto simp: committed_at_def seen_def)
  have "t_begin r \<le> v_now s" if "r \<in> set (v_chain s)" for r
    using time_okD(4) [OF O(1) that] by (simp add: version_ok_def)
  then have "ordered (v_chain s')"
    using O(2) sn unfolding s'(4) ordered_def sorted_wrt_map c by (auto elim!: sorted_wrt_mono_rel [rotated])
  then show ?thesis using time_commit [OF O(1) assms(2,3) s'] by (simp add: order_ok_def)
qed

subsection \<open>Exclusive versions\<close>

text \<open>
  Above an uncommitted version there are only versions of the same transaction or such that commute with it; above one that does not
  commute there are only versions of its own transaction.  While there is one that does not commute, no other session has an
  uncommitted version, nor can it create one.
\<close>

lemma above_uncommitted:
  assumes "order_ok s" "v_chain s = us @ r # vs" "t_commit r = None" "u \<in> set us"
  shows "t_begin u = t_begin r \<and> t_commit u = None \<and> m_ppib u = m_ppib r \<or> commutes u \<and> commutes r"
proof -
  note O = order_okD [OF assms(1)]
  have "seen (t_begin u) r \<or> commutes u \<and> commutes r" using O(2) assms(2,4) by (auto simp: ordered_append)
  moreover have "t_begin r = t_begin u" if "seen (t_begin u) r" using that assms(3) by (simp add: seen_def)
  moreover have "u \<in> set (v_chain s)" "r \<in> set (v_chain s)" using assms(2,4) by auto
  ultimately show ?thesis using O(3) assms(3) unfolding coherent_def by metis
qed

lemma exclusive:
  assumes "order_ok s" "r \<in> set (v_chain s)" "t_commit r = None" "\<not> commutes r" "w \<in> set (v_chain s)" "t_commit w = None"
  shows "m_ppib w = m_ppib r"
proof -
  obtain us vs where s: "v_chain s = us @ r # vs" using split_list [OF assms(2)] by blast
  then consider "w \<in> set us" | "w = r" | "w \<in> set vs" using assms(5) by auto
  then show ?thesis
  proof cases
    case 1
    then show ?thesis using above_uncommitted [OF assms(1) s assms(3)] assms(4) by blast
  next
    case 3
    then obtain xs ys where "vs = xs @ w # ys" using split_list by metis
    then have "v_chain s = (us @ r # xs) @ w # ys" using s by simp
    then have "t_begin r = t_begin w \<and> t_commit r = None \<and> m_ppib r = m_ppib w \<or> commutes r \<and> commutes w"
      using above_uncommitted [OF assms(1) _ assms(6)] by (meson in_set_conv_decomp)
    then show ?thesis using assms(4) by simp
  qed simp
qed

lemma exclusive_create:
  assumes "order_ok s" "fresh p opr vd s r'" "\<not> FVERIWriteConflict p opr (v_chain s)"
    "r \<in> set (v_chain s)" "t_commit r = None" "\<not> commutes r"
  shows "m_ppib r = pib_id p"
proof -
  note O = order_okD [OF assms(1)]
  have f: "p \<in> set (v_pibs s)" using assms(2) by (simp add: fresh_def)
  have "seen (t_pib p) r" using no_conflict [OF _ O(2,3) assms(3,4)] O(4) [OF f] assms(6) by auto
  then show ?thesis using O(4) [OF f assms(4)] assms(5) by (simp add: met_def seen_def)
qed

end
