(* ===== verification/Ver_Inv.thy ===== *)
theory Ver_Inv
  imports Ver_Order
begin

text \<open>
  The invariant of a node under work, and that every step keeps it together with the view of every session that has no part in it.
\<close>

subsection \<open>The invariant\<close>

text \<open>The uncommitted versions of a session.\<close>

definition own :: "nat \<Rightarrow> 'r ROW GVERSION list \<Rightarrow> 'r ROW GVERSION list" where
  "own i chain = filter (\<lambda>r. t_commit r = None \<and> m_ppib r = i) chain"

definition no_pre :: "'r ROW GVERSION list \<Rightarrow> bool" where
  "no_pre vs \<longleftrightarrow> (\<forall>r \<in> set vs. m_oper r \<noteq> operPreInsert)"

text \<open>What a session has left unfinished between two steps.\<close>

fun pend :: "PC \<Rightarrow> 'r NODE \<Rightarrow> 'r ROW GVERSION list \<Rightarrow> bool" where
  "pend Idle n vs = no_pre vs"
| "pend MadeDelta n vs = (\<exists>r us. vs = r # us \<and> is_delta (m_oper r) \<and> m_tDelta r = 0 \<and> no_pre us)"
| "pend MadeDelete n vs = (\<exists>r us. vs = r # us \<and> m_oper r = operFlagDelete \<and> present n \<and> no_pre us)"
| "pend MadeInsert n vs = (\<exists>r us. vs = r # us \<and> m_oper r = operPreInsert \<and> no_pre us)"
| "pend MadeInsertReplace n vs =
     (\<exists>r w us. vs = r # w # us \<and> m_oper r = operReplace \<and> m_before r = nd_row n \<and> m_oper w = operPreInsert \<and> no_pre us \<and>
        nd_there n \<and> \<not> present n)"

text \<open>A version whose operation has not changed the node.\<close>

definition idle :: "'r NODE \<Rightarrow> 'r ROW GVERSION \<Rightarrow> bool" where
  "idle n r \<longleftrightarrow> m_oper r = operReadLock \<or> m_oper r = operWriteLock \<or> m_oper r = operPreInsert \<or>
     is_delta (m_oper r) \<and> m_tDelta r = 0 \<or> m_oper r = operFlagDelete \<and> present n \<or> m_oper r = operReplace \<and> m_before r = nd_row n"

text \<open>Whoever looks: the sessions, and one that would begin now.\<close>

definition observers :: "'r VSTATE \<Rightarrow> nat set" where
  "observers s = insert (v_now s + 2) (t_pib ` set (v_pibs s))"

definition absent_ok :: "'r NODE \<Rightarrow> 'r ROW GVERSION list \<Rightarrow> bool" where
  "absent_ok n vs \<longleftrightarrow> nd_there n \<or> (\<forall>r \<in> set vs. gentle r \<or> m_oper r = operPreInsert)"

definition obs_ok :: "'r NODE \<Rightarrow> 'r ROW GVERSION list \<Rightarrow> bool" where
  "obs_ok n vs \<longleftrightarrow> wfd (present n) (present n) vs \<and> absent_ok n vs"

definition vinv :: "'r VSTATE \<Rightarrow> bool" where
  "vinv s \<longleftrightarrow> order_ok s \<and> (\<forall>i. pend (v_pc s i) (v_node s) (own i (v_chain s))) \<and>
     (\<forall>b \<in> observers s. obs_ok (v_node s) (unseen b (v_chain s))) \<and>
     (\<forall>r \<in> set (v_chain s). m_oper r = operPreInsert \<longrightarrow> t_commit r = None) \<and>
     (FNDVersion (nd_kdf (v_node s)) \<or> (\<forall>r \<in> set (v_chain s). idle (v_node s) r))"

definition seen_by :: "nat \<Rightarrow> 'r VSTATE \<Rightarrow> 'r ROW option" where
  "seen_by b s = view b (v_chain s) (present (v_node s), nd_row (v_node s))"

lemma vinvD:
  assumes "vinv s"
  shows "order_ok s" "pend (v_pc s i) (v_node s) (own i (v_chain s))"
    "b \<in> observers s \<Longrightarrow> obs_ok (v_node s) (unseen b (v_chain s))"
    "\<not> FNDVersion (nd_kdf (v_node s)) \<Longrightarrow> r \<in> set (v_chain s) \<Longrightarrow> idle (v_node s) r"
    "time_ok s" "p \<in> set (v_pibs s) \<Longrightarrow> t_pib p \<in> observers s" "v_now s + 2 \<in> observers s"
    "r \<in> set (v_chain s) \<Longrightarrow> m_oper r = operPreInsert \<Longrightarrow> t_commit r = None"
  using assms by (auto simp: vinv_def observers_def order_ok_def)

subsection \<open>The flags along the versions\<close>

lemma wfd_gentle: "\<forall>r \<in> set vs. gentle r \<Longrightarrow> wfd p0 p vs"
  by (induction vs arbitrary: p) (auto simp: gentle_def undo_present_def)

lemma wfd_p0: "no_pre vs \<Longrightarrow> wfd p0 p vs = wfd p1 p vs"
  by (induction vs arbitrary: p) (auto simp: no_pre_def)

lemma undo_present_gentle: "gentle r \<Longrightarrow> undo_present r p = p"
  by (auto simp: gentle_def undo_present_def)

lemma wfd_filter:
  assumes "wfd p0 p vs" "\<forall>r \<in> set vs. \<not> Q r \<longrightarrow> gentle r"
  shows "wfd p0 p (filter Q vs)"
  using assms
proof (induction vs arbitrary: p)
  case (Cons r vs)
  have IH: "wfd p0 (undo_present r p) (filter Q vs)" using Cons by simp
  show ?case
  proof (cases "Q r")
    case True
    have "filter Q vs \<noteq> [] \<and> m_oper (hd (filter Q vs)) = operPreInsert" if "vs \<noteq> []" "m_oper (hd vs) = operPreInsert"
      using that Cons.prems(2) by (cases vs) (auto simp: gentle_def)
    then show ?thesis using True IH Cons.prems(1) by auto
  next
    case False
    then show ?thesis using IH Cons.prems(2) by (simp add: undo_present_gentle)
  qed
qed simp

lemma wfd_remove:
  assumes "wfd p0 p (us @ r # vs)" "gentle r"
  shows "wfd p0 p (us @ vs)"
  using assms
proof (induction us arbitrary: p)
  case Nil
  then show ?case by (simp add: undo_present_gentle)
next
  case (Cons u us)
  have "m_oper r \<noteq> operPreInsert" using Cons.prems(2) by (auto simp: gentle_def)
  then have "us @ vs \<noteq> [] \<and> m_oper (hd (us @ vs)) = operPreInsert" if "m_oper (hd (us @ r # vs)) = operPreInsert"
    using that by (cases us) simp_all
  then show ?case using Cons.IH [of "undo_present u p"] Cons.prems by auto
qed

lemma wfd_oper:
  assumes "map m_oper vs = map m_oper ws"
  shows "wfd p0 p vs = wfd p0 p ws"
  using assms
proof (induction vs arbitrary: ws p)
  case (Cons r vs)
  then obtain r' ws' where w: "ws = r' # ws'" "m_oper r = m_oper r'" "map m_oper vs = map m_oper ws'" by auto
  then have "(vs \<noteq> [] \<and> m_oper (hd vs) = operPreInsert) = (ws' \<noteq> [] \<and> m_oper (hd ws') = operPreInsert)" by (cases vs; cases ws') auto
  then show ?case using Cons.IH [OF w(3)] w(1,2) by (simp add: undo_present_def)
qed simp

subsection \<open>Versions that commute\<close>

text \<open>A number is changed above or below versions that commute, with the same result.\<close>

lemma add_num_commute: "add_num o1 off1 d1 (add_num o2 off2 d2 row) = add_num o2 off2 d2 (add_num o1 off1 d1 row)"
  by (auto simp: add_num_def)

lemma add_num_add [simp]: "add_num opr off d (add_num opr off e row) = add_num opr off (d + e) row"
  by (auto simp: add_num_def)

lemma add_num_0 [simp]: "add_num opr off 0 row = row"
  by (auto simp: add_num_def)

lemma undos_add_num:
  assumes "\<forall>u \<in> set us. commutes u"
  shows "undos us (p, add_num opr off d row) = (let (p', row') = undos us (p, row) in (p', add_num opr off d row'))"
  using assms
proof (induction us arbitrary: p row)
  case (Cons u us)
  have "undo1 u (p, add_num opr off d row) = (fst (undo1 u (p, row)), add_num opr off d (snd (undo1 u (p, row))))"
    using Cons.prems by (auto simp: commutes_def undo1_def add_num_commute [of _ _ _ opr])
  then show ?case using Cons by (cases "undo1 u (p, row)") simp
qed simp

lemma undo1_delta: "is_delta (m_oper r) \<Longrightarrow> undo1 r st = (fst st, add_num (m_oper r) (m_cbOffset r) (- m_tDelta r) (snd st))"
  by (auto simp: is_delta_def undo1_def)

lemma undo1_lock: "commutes r \<Longrightarrow> \<not> is_delta (m_oper r) \<Longrightarrow> undo1 r st = st"
  by (auto simp: is_delta_def commutes_def undo1_def)

text \<open>Below versions that commute, one that commutes as well can be undone first.\<close>

lemma undos_first:
  assumes "\<forall>u \<in> set us. commutes u" "commutes r"
  shows "undos (us @ r # vs) st = undos (us @ vs) (undo1 r st)"
proof (cases "is_delta (m_oper r)")
  case True
  obtain p row where st: "st = (p, row)" by (cases st)
  show ?thesis
    using undos_add_num [OF assms(1), of p "m_oper r" "m_cbOffset r" "- m_tDelta r" row]
    by (simp add: st undos_append undo1_delta [OF True] split: prod.splits)
qed (simp add: undos_append undo1_lock assms(2))

subsection \<open>Own versions\<close>

lemma own_simps [simp]:
  "own i [] = []" "own i (us @ vs) = own i us @ own i vs"
  "own i (r # vs) = (if t_commit r = None \<and> m_ppib r = i then r # own i vs else own i vs)"
  "set (own i vs) = {r \<in> set vs. t_commit r = None \<and> m_ppib r = i}"
  by (auto simp: own_def)

lemma mine_own:
  assumes "vinv s" "p \<in> set (v_pibs s)" "r \<in> set (v_chain s)"
  shows "mine p r = (t_commit r = None \<and> m_ppib r = pib_id p)" "mine p r = (t_commit r = None \<and> t_begin r = t_pib p)"
  using order_okD(4) [OF vinvD(1) [OF assms(1)] assms(2,3)] met_committed [of p r] met_cmp(4) [of p r]
  by (auto simp: mine_def seen_def)

text \<open>The newest own version: the list of the session begins with it, and what is above it commutes with it.\<close>

lemma newest_own:
  assumes "vinv s" "newest_of p s us r vs"
  shows "own (pib_id p) (v_chain s) = r # own (pib_id p) vs" "own (pib_id p) us = []" "t_commit r = None" "m_ppib r = pib_id p" "t_begin r = t_pib p"
    "p \<in> set (v_pibs s)" "v_chain s = us @ r # vs" "us = [] \<or> commutes r \<and> (\<forall>u \<in> set us. commutes u)"
proof -
  have n: "p \<in> set (v_pibs s)" "v_chain s = us @ r # vs" "mine p r" "\<forall>u \<in> set us. \<not> mine p u"
    using assms(2) by (auto simp: newest_of_def)
  have r: "r \<in> set (v_chain s)" using n(2) by simp
  show rr: "t_commit r = None" "m_ppib r = pib_id p" "t_begin r = t_pib p" using mine_own [OF assms(1) n(1) r] n(3) by simp_all
  show ou: "own (pib_id p) us = []" using mine_own(1) [OF assms(1) n(1)] n(2,4) by (auto simp: own_def filter_empty_conv)
  show "own (pib_id p) (v_chain s) = r # own (pib_id p) vs" using n(2) rr ou by simp
  have "commutes u \<and> commutes r" if "u \<in> set us" for u
  proof -
    have "u \<in> set (v_chain s)" using that n(2) by simp
    then have "\<not> (t_commit u = None \<and> m_ppib u = pib_id p)" using mine_own(1) [OF assms(1) n(1)] n(4) that by blast
    then show ?thesis using above_uncommitted [OF vinvD(1) [OF assms(1)] n(2) rr(1) that] rr(2) by auto
  qed
  then show "us = [] \<or> commutes r \<and> (\<forall>u \<in> set us. commutes u)" by (cases us) auto
  show "p \<in> set (v_pibs s)" "v_chain s = us @ r # vs" by (fact n)+
qed

end
