(* ===== verification/Ver_Steps.thy ===== *)
theory Ver_Steps
  imports Ver_Inv
begin

text \<open>
  The steps that create a version or change the newest one of a session: each keeps the invariant, and no session but the one that makes the step
  sees a difference.
\<close>

subsection \<open>Flags\<close>

lemma flag_bits: "(w AND fNDVersion = 0) = (\<not> bit w 0)" "(w AND fNDDeleted = 0) = (\<not> bit w 1)" for w :: u16
  using and_exp_eq_0_iff_not_bit [of w 0] and_exp_eq_0_iff_not_bit [of w 1] by (simp_all add: fNDVersion_def fNDDeleted_def)

lemma bit_flags:
  "bit fNDVersion 0" "bit fNDDeleted (Suc 0)" "\<not> bit fNDVersion (Suc 0)" "\<not> bit fNDDeleted 0" "fNDVersion \<noteq> 0" "fNDDeleted \<noteq> 0"
  by (simp_all add: fNDVersion_def fNDDeleted_def bit_0 bit_1_iff)

lemma set_flags_simps [simp]:
  "nd_there (set_flags on off n) = nd_there n" "nd_row (set_flags on off n) = nd_row n"
  "FNDVersion (nd_kdf (set_flags fNDVersion 0 n))" "FNDVersion (nd_kdf (set_flags fNDVersion fNDDeleted n))"
  "FNDVersion (nd_kdf (set_flags (fNDVersion OR fNDDeleted) 0 n))"
  "FNDDeleted (nd_kdf (set_flags fNDVersion 0 n)) = FNDDeleted (nd_kdf n)" "\<not> FNDDeleted (nd_kdf (set_flags fNDVersion fNDDeleted n))"
  "FNDDeleted (nd_kdf (set_flags (fNDVersion OR fNDDeleted) 0 n))" "FNDDeleted (nd_kdf (set_flags fNDDeleted 0 n))"
  "\<not> FNDDeleted (nd_kdf (set_flags 0 fNDDeleted n))" "FNDVersion (nd_kdf (set_flags fNDDeleted 0 n)) = FNDVersion (nd_kdf n)"
  "FNDVersion (nd_kdf (set_flags 0 fNDDeleted n)) = FNDVersion (nd_kdf n)" "FNDDeleted (nd_kdf (set_flags 0 fNDVersion n)) = FNDDeleted (nd_kdf n)"
  by (simp_all add: set_flags_def nd_kdf_def FNDVersion_def FNDDeleted_def flag_bits bit_flags bit_or_iff bit_and_iff bit_not_iff)

lemma flags_row [simp]:
  "nd_there (n\<lparr>nd_row := row\<rparr>) = nd_there n" "nd_kdf (n\<lparr>nd_row := row\<rparr>) = nd_kdf n" "nd_row (n\<lparr>nd_row := row\<rparr>) = row"
  by (simp_all add: nd_kdf_def)

subsection \<open>Who may do what\<close>

text \<open>While a session has an uncommitted version that does not commute, the others have nothing under way.\<close>

lemma others_idle:
  assumes "vinv s" "r \<in> set (v_chain s)" "t_commit r = None" "\<not> commutes r" "i \<noteq> m_ppib r"
  shows "own i (v_chain s) = []" "v_pc s i = Idle"
proof -
  show o: "own i (v_chain s) = []"
    using exclusive [OF vinvD(1) [OF assms(1)] assms(2-4)] assms(5) by (auto simp: own_def filter_empty_conv)
  show "v_pc s i = Idle" using vinvD(2) [OF assms(1), of i] unfolding o by (cases "v_pc s i") auto
qed

lemma observer_other:
  assumes "vinv s" "p \<in> set (v_pibs s)" "\<not> fReadOnlyTrx p" "q \<in> set (v_pibs s)" "pib_id q \<noteq> pib_id p"
  shows "t_pib q \<noteq> t_pib p"
  using assms(2-5) time_okD(3) [OF vinvD(5) [OF assms(1)]] unfolding pibs_ok_def by metis

lemma writer_begin:
  assumes "vinv s" "p \<in> set (v_pibs s)" "\<not> fReadOnlyTrx p"
  shows "t_pib p \<le> v_now s" "t_pib p \<noteq> v_now s + 2"
proof -
  have "4 dvd t_pib p" "t_pib p \<le> v_now s + 2" "4 dvd v_now s"
    using time_okD(2,7) [OF vinvD(5) [OF assms(1)]] assms(2,3) by (auto simp: pib_ok_def)
  then show "t_pib p \<le> v_now s" "t_pib p \<noteq> v_now s + 2" by presburger+
qed

lemma owner_writes:
  assumes "vinv s" "p \<in> set (v_pibs s)" "r \<in> set (v_chain s)" "t_commit r = None" "m_ppib r = pib_id p"
  shows "\<not> fReadOnlyTrx p"
proof -
  obtain q where "q \<in> set (v_pibs s)" "\<not> fReadOnlyTrx q" "pib_id q = m_ppib r"
    using time_okD(4) [OF vinvD(5) [OF assms(1)] assms(3)] assms(4) by (auto simp: version_ok_def)
  then show ?thesis
    using assms(2,5) time_okD(3) [OF vinvD(5) [OF assms(1)]] by (auto simp: pibs_ok_def distinct_map inj_on_def)
qed

text \<open>What a session does not see of the chain when it may create a version.\<close>

lemma create_unseen:
  assumes "vinv s" "p \<in> set (v_pibs s)" "\<not> FVERIWriteConflict p opr (v_chain s)"
  shows "\<forall>w \<in> set (unseen (t_pib p) (v_chain s)). commutes w"
    "opr \<noteq> operReadLock \<Longrightarrow> \<not> is_delta opr \<Longrightarrow> unseen (t_pib p) (v_chain s) = []"
proof -
  note O = order_okD [OF vinvD(1) [OF assms(1)]]
  have n: "(opr = operReadLock \<or> opr = operDelta \<or> opr = operDelta64) \<and> commutes w" if "w \<in> set (v_chain s)" "\<not> seen (t_pib p) w" for w
    using no_conflict [OF _ O(2,3) assms(3) that] O(4) [OF assms(2)] by blast
  show "\<forall>w \<in> set (unseen (t_pib p) (v_chain s)). commutes w" using n by simp
  show "unseen (t_pib p) (v_chain s) = []" if "opr \<noteq> operReadLock" "\<not> is_delta opr"
    using n that by (auto simp: unseen_def filter_empty_conv is_delta_def)
qed

lemma absent_undos:
  assumes "\<forall>r \<in> set vs. gentle r \<or> m_oper r = operPreInsert" "\<not> fst st"
  shows "\<not> fst (undos vs st)"
  using assms
proof (induction vs arbitrary: st)
  case (Cons r vs)
  then have "\<not> fst (undo1 r st)" by (auto simp: undo_present_def gentle_def simp del: split_paired_All)
  then show ?case using Cons.IH [of "undo1 r st"] Cons.prems(1) by simp
qed simp

lemma ReadNode_session:
  assumes "vinv s" "p \<in> set (v_pibs s)" "fPageRecentlyDirtied env"
  shows "ReadNode env p fUpd fAlloc (v_node s) (v_chain s) = map_option as_columns (seen_by (t_pib p) s)"
  unfolding seen_by_def
proof (rule ReadNode_view)
  note O = order_okD [OF vinvD(1) [OF assms(1)]]
  have ob: "obs_ok (v_node s) (unseen (t_pib p) (v_chain s))" using vinvD(3,6) assms(1,2) by blast
  show "ordered (v_chain s)" "coherent (v_chain s)" "\<forall>r \<in> set (v_chain s). met p r \<and> \<not> m_fRolledBack r"
    using O assms(2) by auto
  show "wfd (present (v_node s)) (present (v_node s)) (unseen (t_pib p) (v_chain s))" using ob by (simp add: obs_ok_def)
  have "pib_ok s p" using time_okD(7) [OF vinvD(5)] assms(1,2) by blast
  then show "pib_level p \<noteq> 0 \<or> fAlloc" "rgfucb p = []" by (simp_all add: pib_ok_def)
  show "fPageRecentlyDirtied env" by (fact assms(3))
  show "\<not> fst (undos (unseen (t_pib p) (v_chain s)) (False, nd_row (v_node s)))" if "\<not> nd_there (v_node s)"
    using absent_undos [of "unseen (t_pib p) (v_chain s)"] ob that by (simp add: obs_ok_def absent_ok_def)
  have "undos vs (present (v_node s), nd_row (v_node s)) = (present (v_node s), nd_row (v_node s)) \<and>
      base (nd_row (v_node s)) (last_replace None vs) = nd_row (v_node s)" if "\<forall>r \<in> set vs. idle (v_node s) r" for vs
  proof -
    have "undos vs (present (v_node s), nd_row (v_node s)) = (present (v_node s), nd_row (v_node s))"
      using that by (induction vs) (auto simp: idle_def undo1_def is_delta_def)
    moreover have "\<forall>r \<in> set vs. m_oper r = operReplace \<longrightarrow> m_before r = nd_row (v_node s)" using that by (auto simp: idle_def is_delta_def)
    then have "base (nd_row (v_node s)) (last_replace lr vs) = nd_row (v_node s)" if "base (nd_row (v_node s)) lr = nd_row (v_node s)" for lr
      using that by (induction vs arbitrary: lr) (auto simp: base_def)
    ultimately show ?thesis by (simp add: base_def)
  qed
  then show "bit_ok p (v_node s) (v_chain s)" using vinvD(4) [OF assms(1)] unfolding bit_ok_def by (cases "FNDVersion (nd_kdf (v_node s))") auto
qed

subsection \<open>Creating a version\<close>

lemma visible_present:
  assumes "vinv s" "p \<in> set (v_pibs s)" "\<not> FVERIWriteConflict p opr (v_chain s)"
    "ReadNode env p fUpd fAlloc (v_node s) (v_chain s) \<noteq> None"
  shows "present (v_node s)"
proof (cases "fPageRecentlyDirtied env")
  case True
  have "\<forall>w \<in> set (unseen (t_pib p) (v_chain s)). gentle w"
    using create_unseen(1) [OF assms(1-3)] commutes_gentle by blast
  from undos_gentle [OF this] have "fst (undos (unseen (t_pib p) (v_chain s)) (present (v_node s), nd_row (v_node s))) = present (v_node s)" by simp
  then show ?thesis
    using assms(4) ReadNode_session [OF assms(1,2) True] by (auto simp: seen_by_def view_def split: prod.splits if_splits)
next
  case False
  then have "ErrNDVisibleToCursor env f False (nd_kdf (v_node s)) = (JET_errSuccess, Some (\<not> FNDDeleted (nd_kdf (v_node s)), nsDatabase))" for f
    by (simp add: ErrNDVisibleToCursor_def FNDPossiblyVersioned_def)
  then show ?thesis
    using assms(4) by (cases "FNDDeleted (nd_kdf (v_node s))") (auto simp: ReadNode_def present_def split: prod.splits if_splits)
qed

lemma observers_eq: "v_pibs s' = v_pibs s \<Longrightarrow> v_now s' = v_now s \<Longrightarrow> observers s' = observers s"
  by (simp add: observers_def)

text \<open>A version that has no effect yet.\<close>

definition harmless :: "'r NODE \<Rightarrow> 'r ROW GVERSION list \<Rightarrow> 'r ROW GVERSION \<Rightarrow> bool" where
  "harmless n vs r \<longleftrightarrow> m_oper r = operReadLock \<or> m_oper r = operWriteLock \<or> m_oper r = operPreInsert \<or>
     is_delta (m_oper r) \<and> m_tDelta r = 0 \<or> m_oper r = operFlagDelete \<and> present n \<or>
     m_oper r = operReplace \<and> m_before r = nd_row n \<and> nd_there n \<and> vs \<noteq> [] \<and> m_oper (hd vs) = operPreInsert"

lemma harmless_undo: "harmless n vs r \<Longrightarrow> undo1 r (present n, nd_row n) = (present n, nd_row n)"
  by (auto simp: harmless_def undo1_def is_delta_def)

lemma harmless_obs: "harmless n vs r \<Longrightarrow> obs_ok n vs \<Longrightarrow> obs_ok n (r # vs)"
  by (auto simp: harmless_def obs_ok_def absent_ok_def undo_present_def is_delta_def gentle_def present_def)

lemma fresh_simps:
  assumes "fresh p opr vd s r"
  shows "t_begin r = t_pib p" "t_commit r = None" "m_ppib r = pib_id p" "m_oper r = opr" "p \<in> set (v_pibs s)" "\<not> fReadOnlyTrx p"
  using assms by (auto simp: fresh_def stamps_def)

lemma own_other:
  assumes "m_ppib r \<noteq> i"
  shows "own i (us @ r # vs) = own i (us @ vs)"
  using assms by simp

lemma push_harmless:
  fixes s s' :: "'r VSTATE"
  assumes vinv: "vinv s" and fr: "fresh p opr vd s r" "\<not> FVERIWriteConflict p opr (v_chain s)"
    and harm: "\<And>b. b \<in> observers s \<Longrightarrow> b \<noteq> t_pib p \<Longrightarrow> harmless (v_node s) (unseen b (v_chain s)) r"
    and pd: "pend pc' (v_node s) (r # own (pib_id p) (v_chain s))"
    and s': "s' = s\<lparr>v_chain := r # v_chain s, v_pc := (v_pc s)(pib_id p := pc')\<rparr>"
  shows "vinv s' \<and> (\<forall>b \<in> observers s. seen_by b s' = seen_by b s)"
proof (intro conjI ballI)
  note F = fresh_simps [OF fr(1)]
  have seen: "seen b r \<longleftrightarrow> b = t_pib p" for b using F(1,2) by (auto simp: seen_def)
  have now: "v_now s + 2 \<in> observers s" "v_now s + 2 \<noteq> t_pib p"
    using vinvD(7) [OF vinv] writer_begin [OF vinv F(5,6)] by auto
  have idle: "idle (v_node s) r" using harm [OF now] by (auto simp: harmless_def idle_def)
  have "order_ok s'" using order_push [OF vinvD(1) [OF vinv] fr, of s'] by (simp add: s')
  moreover have "pend (v_pc s' i) (v_node s') (own i (v_chain s'))" for i
    using vinvD(2) [OF vinv, of i] pd F(2,3) by (auto simp: s')
  moreover have "obs_ok (v_node s') (unseen b (v_chain s'))" if "b \<in> observers s'" for b
  proof -
    have b: "b \<in> observers s" using that by (simp add: s' observers_def)
    then show ?thesis using vinvD(3) [OF vinv b] harmless_obs harm [OF b] seen by (auto simp: s')
  qed
  ultimately show "vinv s'" using vinvD(4,8) [OF vinv] idle F(2) by (auto simp: vinv_def s')
  show "seen_by b s' = seen_by b s" if "b \<in> observers s" for b
    using harmless_undo [OF harm [OF that]] seen by (auto simp: seen_by_def view_def s')
qed

text \<open>\<open>ErrBTReplace\<close>.\<close>

lemma step_replace:
  fixes s s' :: "'r VSTATE"
  assumes vinv: "vinv s" and c: "creates p operReplace vd s chain'" and pc: "v_pc s (pib_id p) = Idle"
    and vis: "ReadNode env p fUpd True (v_node s) (v_chain s) \<noteq> None"
    and s': "s' = s\<lparr>v_chain := chain', v_node := set_flags fNDVersion 0 ((v_node s)\<lparr>nd_row := row\<rparr>)\<rparr>"
  shows "vinv s' \<and> (\<forall>b \<in> observers s. b \<noteq> t_pib p \<longrightarrow> seen_by b s' = seen_by b s) \<and> seen_by (t_pib p) s' = Some row"
proof -
  obtain r where r: "chain' = r # v_chain s" and fr: "fresh p operReplace vd s r" "\<not> FVERIWriteConflict p operReplace (v_chain s)"
    using createsD [OF c] by metis
  note F = fresh_simps [OF fr(1)]
  have bef: "m_before r = nd_row (v_node s)" using fr(1) by (simp add: fresh_def)
  have P: "present (v_node s)" by (rule visible_present [OF vinv F(5) fr(2) vis])
  then have P': "present (v_node s')" "nd_there (v_node s')" "nd_row (v_node s') = row" "FNDVersion (nd_kdf (v_node s'))"
    by (simp_all add: s' present_def)
  have un: "unseen (t_pib p) (v_chain s) = []" using create_unseen(2) [OF vinv F(5) fr(2)] by (simp add: is_delta_def)
  have seen: "seen b r \<longleftrightarrow> b = t_pib p" for b using F(1,2) by (auto simp: seen_def)
  have "order_ok s'" using order_push [OF vinvD(1) [OF vinv] fr, of s'] by (simp add: s' r)
  moreover have "pend (v_pc s' i) (v_node s') (own i (v_chain s'))" for i
  proof (cases "i = pib_id p")
    case True
    then show ?thesis using vinvD(2) [OF vinv, of i] pc F(2-4) by (simp add: s' r no_pre_def)
  next
    case False
    have "own i (v_chain s) = []"
    proof -
      have "m_ppib w = pib_id p" if "w \<in> set (v_chain s)" "t_commit w = None" for w
      proof -
        have "seen (t_pib p) w" using un that(1) by (auto simp: unseen_def filter_empty_conv)
        then show ?thesis using order_okD(4) [OF vinvD(1) [OF vinv] F(5) that(1)] that(2) by (simp add: met_def seen_def)
      qed
      then show ?thesis using False by (auto simp: own_def filter_empty_conv)
    qed
    moreover from this have "v_pc s i = Idle" using vinvD(2) [OF vinv, of i] by (cases "v_pc s i") auto
    ultimately show ?thesis using False F(3) by (simp add: s' r no_pre_def)
  qed
  moreover have "obs_ok (v_node s') (unseen b (v_chain s'))" if "b \<in> observers s'" for b
  proof -
    have b: "b \<in> observers s" using that by (simp add: s' observers_def)
    have "wfd True True (unseen b (v_chain s))" using vinvD(3) [OF vinv b] P by (simp add: obs_ok_def)
    then show ?thesis using P' F(4) by (simp add: s' r obs_ok_def absent_ok_def undo_present_def)
  qed
  moreover have "seen_by b s' = seen_by b s" if "b \<noteq> t_pib p" for b
    using that seen P P' F(4) bef by (simp add: seen_by_def view_def s' r undo1_def)
  moreover have "seen_by (t_pib p) s' = Some row" using un seen P' by (simp add: seen_by_def view_def s' r)
  moreover have "\<forall>w \<in> set (v_chain s'). m_oper w = operPreInsert \<longrightarrow> t_commit w = None"
    using vinvD(8) [OF vinv] F(2) by (simp add: s' r)
  ultimately show ?thesis using P'(4) by (simp add: vinv_def)
qed

end
