(* ===== verification/Ver_Work.thy ===== *)
theory Ver_Work
  imports Ver_Steps
begin

text \<open>
  The steps in which an operation takes effect.
\<close>

subsection \<open>The newest version of a session\<close>

lemma own_split:
  assumes "own i chain = r # us"
  obtains xs vs where "chain = xs @ r # vs" "own i xs = []" "own i vs = us" "t_commit r = None" "m_ppib r = i"
proof -
  obtain xs vs where "chain = xs @ r # vs" "\<forall>u \<in> set xs. \<not> (t_commit u = None \<and> m_ppib u = i)" "t_commit r = None \<and> m_ppib r = i" "us = own i vs"
    using assms unfolding own_def filter_eq_Cons_iff by blast
  moreover from this(2) have "own i xs = []" by (simp add: own_def filter_empty_conv)
  ultimately show thesis using that by simp
qed

lemma own_head:
  assumes "vinv s" "own i (v_chain s) = r # us" "\<not> commutes r"
  obtains vs where "v_chain s = r # vs" "own i vs = us"
proof -
  obtain xs vs where x: "v_chain s = xs @ r # vs" "own i xs = []" "own i vs = us" "t_commit r = None" "m_ppib r = i"
    by (rule own_split [OF assms(2)])
  have "xs = []"
  proof (rule ccontr)
    assume "xs \<noteq> []"
    then obtain u where u: "u \<in> set xs" by (cases xs) auto
    then have "t_commit u = None \<and> m_ppib u = i"
      using above_uncommitted [OF vinvD(1) [OF assms(1)] x(1,4)] assms(3) x(5) by blast
    then show False using x(2) u by (auto simp: own_def filter_empty_conv)
  qed
  then show thesis using that x(1,3) by simp
qed

lemma pend_other:
  assumes "vinv s" "own (pib_id p) (v_chain s) \<noteq> []" "i \<noteq> pib_id p"
  shows "pend (v_pc s i) n (own i (v_chain s))"
proof -
  have "commutes r" if "r \<in> set (own i (v_chain s))" for r
    using others_idle(1) [OF assms(1), of r "pib_id p"] that assms(2,3) by auto
  then have "\<forall>r \<in> set (own i (v_chain s)). commutes r" by blast
  then show ?thesis
    using vinvD(2) [OF assms(1), of i] by (cases "v_pc s i") (auto simp: commutes_def is_delta_def simp del: own_simps(4))
qed

text \<open>A newest version that does not commute is the head of the chain, and the session sees everything below it.\<close>

lemma newest_head:
  assumes "vinv s" "newest_of p s us r vs" "\<not> commutes r"
  shows "v_chain s = r # vs" "us = []" "unseen (t_pib p) (v_chain s) = []" "t_commit r = None" "m_ppib r = pib_id p"
    "p \<in> set (v_pibs s)" "\<not> fReadOnlyTrx p" "own (pib_id p) (v_chain s) = r # own (pib_id p) vs"
    "seen b r \<longleftrightarrow> b = t_pib p" "i \<noteq> pib_id p \<Longrightarrow> own i vs = []" "i \<noteq> pib_id p \<Longrightarrow> v_pc s i = Idle"
proof -
  note N = newest_own [OF assms(1,2)]
  show us: "us = []" using N(8) assms(3) by blast
  then show ch: "v_chain s = r # vs" using N(7) by simp
  have r: "r \<in> set (v_chain s)" using ch by simp
  show "t_commit r = None" "m_ppib r = pib_id p" "p \<in> set (v_pibs s)" "own (pib_id p) (v_chain s) = r # own (pib_id p) vs"
    by (fact N)+
  show "\<not> fReadOnlyTrx p" by (rule owner_writes [OF assms(1) N(6) r N(3,4)])
  show "seen b r \<longleftrightarrow> b = t_pib p" for b using N(3,5) by (auto simp: seen_def)
  have "seen (t_pib p) r" using N(5) by (simp add: seen_def)
  then have "seen (t_pib p) w" if "w \<in> set vs" for w
    using unseen_below [of "[]" r vs "t_pib p" w] order_okD(2,3) [OF vinvD(1) [OF assms(1)]] ch that assms(3) by auto
  then show "unseen (t_pib p) (v_chain s) = []" using ch \<open>seen (t_pib p) r\<close> by (auto simp: unseen_def filter_empty_conv)
  show "own i vs = []" if "i \<noteq> pib_id p"
    using others_idle(1) [OF assms(1) r N(3) assms(3), of i] that N(3,4) ch by simp
  show "v_pc s i = Idle" if "i \<noteq> pib_id p"
    using others_idle(2) [OF assms(1) r N(3) assms(3), of i] that N(4) by simp
qed

lemma no_pre_below:
  assumes "vinv s" "newest_of p s us r vs" "\<not> commutes r" "no_pre (own (pib_id p) vs)"
  shows "no_pre vs"
  unfolding no_pre_def
proof (intro ballI notI)
  fix w assume w: "w \<in> set vs" "m_oper w = operPreInsert"
  have "t_commit w = None" using vinvD(8) [OF assms(1)] w newest_head(1) [OF assms(1-3)] by simp
  then have "w \<in> set (own (m_ppib w) vs)" using w(1) by simp
  then show False
    using newest_head(10) [OF assms(1-3), of "m_ppib w"] assms(4) w(2) by (cases "m_ppib w = pib_id p") (auto simp: no_pre_def)
qed

lemma no_pre_unseen: "no_pre vs \<Longrightarrow> no_pre (unseen b vs)"
  by (simp add: no_pre_def)

lemma inv_exclusive:
  fixes s s' :: "'r VSTATE"
  assumes vinv: "vinv s" and nw: "newest_of p s us r vs" "\<not> commutes r"
    and same: "order_ok s'" "v_now s' = v_now s" "v_pibs s' = v_pibs s" "v_pc s' = (v_pc s)(pib_id p := q)"
    and own: "\<And>i. i \<noteq> pib_id p \<Longrightarrow> own i (v_chain s') = []" "pend q (v_node s') (own (pib_id p) (v_chain s'))"
    and obs: "\<And>b. b \<in> observers s \<Longrightarrow> b \<noteq> t_pib p \<Longrightarrow> obs_ok (v_node s') (unseen b (v_chain s'))" "unseen (t_pib p) (v_chain s') = []"
    and pre: "\<forall>r \<in> set (v_chain s'). m_oper r = operPreInsert \<longrightarrow> t_commit r = None"
    and bit: "FNDVersion (nd_kdf (v_node s')) \<or> (\<forall>r \<in> set (v_chain s'). idle (v_node s') r)"
  shows "vinv s'"
proof -
  have "pend (v_pc s' i) (v_node s') (own i (v_chain s'))" for i
    using own newest_head(11) [OF vinv nw, of i] by (cases "i = pib_id p") (simp_all add: same(4) no_pre_def)
  moreover have "obs_ok (v_node s') (unseen b (v_chain s'))" if "b \<in> observers s'" for b
    using that obs observers_eq [OF same(3,2)] by (cases "b = t_pib p") (auto simp: obs_ok_def absent_ok_def)
  ultimately show ?thesis using same(1) pre bit by (simp add: vinv_def)
qed

subsection \<open>Delta\<close>

lemma step_do_delta:
  fixes s s' :: "'r VSTATE"
  assumes vinv: "vinv s" and nw: "newest_of p s us r vs" and pc: "v_pc s (pib_id p) = MadeDelta" and there: "nd_there (v_node s)"
    and s': "s' = s\<lparr>v_chain := us @ r\<lparr>m_tDelta := d\<rparr> # vs, v_pc := (v_pc s)(pib_id p := Idle),
        v_node := set_flags fNDVersion 0 ((v_node s)\<lparr>nd_row := add_num (m_oper r) (m_cbOffset r) d (nd_row (v_node s))\<rparr>)\<rparr>"
  shows "vinv s' \<and> (\<forall>b \<in> observers s. b \<noteq> t_pib p \<longrightarrow> seen_by b s' = seen_by b s) \<and>
    seen_by (t_pib p) s' = map_option (add_num (m_oper r) (m_cbOffset r) d) (seen_by (t_pib p) s)"
proof -
  note N = newest_own [OF vinv nw]
  define r' where "r' = r\<lparr>m_tDelta := d\<rparr>"
  have ch: "v_chain s' = us @ r' # vs" by (simp add: s' r'_def)
  have pd: "is_delta (m_oper r)" "m_tDelta r = 0" "no_pre (own (pib_id p) vs)"
    using vinvD(2) [OF vinv, of "pib_id p"] pc N(1) by auto
  have rc: "commutes r" "commutes r'" using pd(1) by (auto simp: r'_def commutes_def is_delta_def)
  have uc: "\<forall>u \<in> set us. commutes u" using N(8) by auto
  have st: "stamps r' = stamps r" "t_commit r' = None" "m_ppib r' = pib_id p" "m_oper r' = m_oper r" "m_cbOffset r' = m_cbOffset r" "m_tDelta r' = d"
    and sn: "seen b r' = seen b r" for b
    using N(3,4) by (simp_all add: r'_def stamps_def seen_def)
  have seen: "seen b r \<longleftrightarrow> b = t_pib p" for b using N(3,5) by (auto simp: seen_def)
  have n': "present (v_node s') = present (v_node s)" "nd_there (v_node s')" "FNDVersion (nd_kdf (v_node s'))"
    "nd_row (v_node s') = add_num (m_oper r) (m_cbOffset r) d (nd_row (v_node s))"
    using there by (simp_all add: s' present_def)
  have "order_ok s'"
    using order_replace [OF vinvD(1) [OF vinv] _ _ _ N(7) ch st(1)] rc by (simp add: s')
  moreover have "pend (v_pc s' i) (v_node s') (own i (v_chain s'))" for i
  proof (cases "i = pib_id p")
    case True
    then show ?thesis using pd N(2) st by (auto simp: s' no_pre_def is_delta_def r'_def)
  next
    case False
    then have "own i (v_chain s') = own i (v_chain s)" using N(4,7) st(3) by (simp add: ch)
    then show ?thesis using pend_other [OF vinv _ False] N(1) False by (simp add: s')
  qed
  moreover have "obs_ok (v_node s') (unseen b (v_chain s'))" if "b \<in> observers s'" for b
  proof -
    have b: "b \<in> observers s" using that by (simp add: s' observers_def)
    have "map m_oper (unseen b (v_chain s')) = map m_oper (unseen b (v_chain s))" using st(4) sn by (simp add: ch N(7))
    from wfd_oper [OF this] show ?thesis using vinvD(3) [OF vinv b] n'(1,2) by (simp add: obs_ok_def absent_ok_def)
  qed
  moreover have "seen_by b s' = seen_by b s" if "b \<noteq> t_pib p" for b
  proof -
    have "undos (unseen b (v_chain s')) (present (v_node s'), nd_row (v_node s')) = undos (unseen b us @ unseen b vs) (present (v_node s), nd_row (v_node s))"
      using undos_first [of "unseen b us" r'] uc rc(2) that seen pd(1) st sn n' by (simp add: ch undo1_delta)
    moreover have "undos (unseen b (v_chain s)) (present (v_node s), nd_row (v_node s)) = undos (unseen b us @ unseen b vs) (present (v_node s), nd_row (v_node s))"
      using undos_first [of "unseen b us" r] uc rc(1) that seen pd by (simp add: N(7) undo1_delta)
    ultimately show ?thesis by (simp add: seen_by_def view_def)
  qed
  moreover have "seen_by (t_pib p) s' = map_option (add_num (m_oper r) (m_cbOffset r) d) (seen_by (t_pib p) s)"
  proof -
    have "commutes w" if "w \<in> set vs" "\<not> seen (t_pib p) w" for w
      using unseen_below [of us r vs "t_pib p" w] order_okD(2,3) [OF vinvD(1) [OF vinv]] N(7) seen that by simp
    then have "\<forall>u \<in> set (unseen (t_pib p) us @ unseen (t_pib p) vs). commutes u" using uc by auto
    then show ?thesis
      using undos_add_num [of "unseen (t_pib p) us @ unseen (t_pib p) vs" "present (v_node s)" "m_oper r" "m_cbOffset r" d "nd_row (v_node s)"]
        seen sn n' by (auto simp: seen_by_def view_def ch N(7) split: prod.splits)
  qed
  moreover have "\<forall>w \<in> set (v_chain s'). m_oper w = operPreInsert \<longrightarrow> t_commit w = None"
    using vinvD(8) [OF vinv] st(2,4) N(3,7) by (auto simp: ch)
  ultimately show ?thesis using n'(3) by (simp add: vinv_def)
qed

subsection \<open>Delete\<close>

lemma step_do_delete:
  fixes s s' :: "'r VSTATE"
  assumes vinv: "vinv s" and nw: "newest_of p s us r vs" and pc: "v_pc s (pib_id p) = MadeDelete"
    and s': "s' = s\<lparr>v_pc := (v_pc s)(pib_id p := Idle), v_node := set_flags (fNDVersion OR fNDDeleted) 0 (v_node s)\<rparr>"
  shows "vinv s' \<and> (\<forall>b \<in> observers s. b \<noteq> t_pib p \<longrightarrow> seen_by b s' = seen_by b s) \<and> seen_by (t_pib p) s' = None"
proof -
  have pd: "m_oper r = operFlagDelete" "present (v_node s)" "no_pre (own (pib_id p) vs)"
    using vinvD(2) [OF vinv, of "pib_id p"] pc newest_own(1) [OF vinv nw] by auto
  then have nc: "\<not> commutes r" by (simp add: commutes_def)
  note H = newest_head [OF vinv nw nc]
  have n': "\<not> present (v_node s')" "nd_there (v_node s')" "FNDVersion (nd_kdf (v_node s'))" "nd_row (v_node s') = nd_row (v_node s)" "v_chain s' = v_chain s"
    using pd(2) by (simp_all add: s' present_def)
  have np: "no_pre (unseen b vs)" for b by (rule no_pre_unseen [OF no_pre_below [OF vinv nw nc pd(3)]])
  have un: "unseen b (v_chain s) = r # unseen b vs" if "b \<noteq> t_pib p" for b using H(1,9) that by simp
  have "vinv s'"
  proof (rule inv_exclusive [OF vinv nw nc])
    show "order_ok s'" using order_sub [OF vinvD(1) [OF vinv], of s'] order_okD(2) [OF vinvD(1) [OF vinv]] by (simp add: s')
    show "pend Idle (v_node s') (own (pib_id p) (v_chain s'))" using pd(1,3) H(8) n'(5) by (simp add: no_pre_def)
    show "obs_ok (v_node s') (unseen b (v_chain s'))" if b: "b \<in> observers s" "b \<noteq> t_pib p" for b
      using vinvD(3) [OF vinv b(1)] un [OF b(2)] n' pd(1,2) wfd_p0 [OF np, of True True b False]
      by (simp add: obs_ok_def absent_ok_def undo_present_def)
  qed (use H n' pd(1) vinvD(8) [OF vinv] in \<open>auto simp: s' unseen_def\<close>)
  moreover have "seen_by b s' = seen_by b s" if "b \<noteq> t_pib p" for b
    using un [OF that] n' pd(1,2) by (simp add: seen_by_def view_def undo1_def)
  moreover have "seen_by (t_pib p) s' = None" using H(3) n' by (simp add: seen_by_def view_def)
  ultimately show ?thesis by blast
qed

subsection \<open>Insert\<close>

lemma view_None: "\<not> fst (undos (unseen b chain) st) \<Longrightarrow> view b chain st = None"
  by (cases "undos (unseen b chain) st") (simp add: view_def)

lemma step_insert:
  fixes s s' :: "'r VSTATE"
  assumes vinv: "vinv s" and nw: "newest_of p s us r vs" and pc: "v_pc s (pib_id p) = MadeInsert"
    and n: "\<not> present (v_node s)" "present n'" "FNDVersion (nd_kdf n')" "nd_there (v_node s) \<Longrightarrow> nd_row n' = nd_row (v_node s)"
    and s': "s' = s\<lparr>v_chain := us @ r\<lparr>m_oper := operInsert\<rparr> # vs, v_pc := (v_pc s)(pib_id p := Idle), v_node := n'\<rparr>"
  shows "vinv s' \<and> (\<forall>b \<in> observers s. b \<noteq> t_pib p \<longrightarrow> seen_by b s' = seen_by b s) \<and> seen_by (t_pib p) s' = Some (nd_row n')"
proof -
  have pd: "m_oper r = operPreInsert" "no_pre (own (pib_id p) vs)"
    using vinvD(2) [OF vinv, of "pib_id p"] pc newest_own(1) [OF vinv nw] by auto
  then have nc: "\<not> commutes r" by (simp add: commutes_def)
  note H = newest_head [OF vinv nw nc]
  define r' where "r' = r\<lparr>m_oper := operInsert\<rparr>"
  have r': "stamps r' = stamps r" "m_oper r' = operInsert" "t_commit r' = None" "m_ppib r' = pib_id p" "\<not> commutes r'"
    and sn: "seen b r' \<longleftrightarrow> b = t_pib p" for b
    using H(4,5) H(9) [of b] by (simp_all add: r'_def stamps_def commutes_def seen_def)
  have ch: "v_chain s' = r' # vs" "v_node s' = n'" using H(2) by (simp_all add: s' r'_def)
  have there: "nd_there n'" using n(2) by (simp add: present_def)
  have np: "no_pre vs" by (rule no_pre_below [OF vinv nw nc pd(2)])
  have un: "unseen b (v_chain s) = r # unseen b vs" "unseen b (v_chain s') = r' # unseen b vs" if "b \<noteq> t_pib p" for b
    using H(1,9) sn that by (simp_all add: ch(1))
  have own0: "unseen (t_pib p) (v_chain s') = []" using H(1,3,9) sn by (simp add: ch(1))
  have "vinv s'"
  proof (rule inv_exclusive [OF vinv nw nc])
    show "order_ok s'"
      using order_replace [OF vinvD(1) [OF vinv], of s' "[]" r vs r'] H(1) ch r'(1,5) nc by (simp add: s')
    show "pend Idle (v_node s') (own (pib_id p) (v_chain s'))" using r' pd(2) by (simp add: ch(1) no_pre_def)
    show "obs_ok (v_node s') (unseen b (v_chain s'))" if b: "b \<in> observers s" "b \<noteq> t_pib p" for b
      using vinvD(3) [OF vinv b(1)] un [OF b(2)] n(1,2) there pd(1) r'(2) wfd_p0 [OF no_pre_unseen [OF np], of True False b False]
      by (simp add: ch(2) obs_ok_def absent_ok_def undo_present_def)
    show "own i (v_chain s') = []" if "i \<noteq> pib_id p" for i using H(10) r'(4) that by (simp add: ch(1))
    show "\<forall>w \<in> set (v_chain s'). m_oper w = operPreInsert \<longrightarrow> t_commit w = None" using np r'(2) by (auto simp: ch(1) no_pre_def)
  qed (use own0 n(3) in \<open>simp_all add: s'\<close>)
  moreover have "seen_by b s' = seen_by b s" if b: "b \<in> observers s" "b \<noteq> t_pib p" for b
  proof (cases "nd_there (v_node s)")
    case True
    then show ?thesis using un [OF b(2)] n(1,2,4) pd(1) r'(2) ch(2) by (simp add: seen_by_def view_def undo1_def)
  next
    case False
    then have "\<forall>w \<in> set (unseen b vs). gentle w \<or> m_oper w = operPreInsert"
      using vinvD(3) [OF vinv b(1)] un(1) [OF b(2)] by (simp add: obs_ok_def absent_ok_def)
    then have "\<not> fst (undos (unseen b vs) (False, row))" for row using absent_undos [of "unseen b vs"] by simp
    then show ?thesis using un [OF b(2)] n(1,2) pd(1) r'(2) ch(2) by (simp add: seen_by_def view_None undo1_def)
  qed
  moreover have "seen_by (t_pib p) s' = Some (nd_row n')" using own0 n(2) ch(2) by (simp add: seen_by_def view_def)
  ultimately show ?thesis by blast
qed

lemma step_insert_replace:
  fixes s s' :: "'r VSTATE"
  assumes vinv: "vinv s" and nw: "newest_of p s us r (w # vs)" and pc: "v_pc s (pib_id p) = MadeInsertReplace"
    and s': "s' = s\<lparr>v_chain := us @ r # w\<lparr>m_oper := operInsert\<rparr> # vs, v_pc := (v_pc s)(pib_id p := Idle),
        v_node := set_flags fNDVersion fNDDeleted ((v_node s)\<lparr>nd_row := row\<rparr>)\<rparr>"
  shows "vinv s' \<and> (\<forall>b \<in> observers s. b \<noteq> t_pib p \<longrightarrow> seen_by b s' = seen_by b s) \<and> seen_by (t_pib p) s' = Some row"
proof -
  obtain v ws where pd: "m_oper r = operReplace" "m_before r = nd_row (v_node s)" "own (pib_id p) (w # vs) = v # ws" "m_oper v = operPreInsert"
    "no_pre ws" "nd_there (v_node s)" "\<not> present (v_node s)"
    using vinvD(2) [OF vinv, of "pib_id p"] pc newest_own(1) [OF vinv nw] by auto
  then have nc: "\<not> commutes r" "\<not> commutes v" by (simp_all add: commutes_def)
  note H = newest_head [OF vinv nw nc(1)]
  obtain xs ys where xy: "w # vs = xs @ v # ys" "own (pib_id p) xs = []" "own (pib_id p) ys = ws" "t_commit v = None" "m_ppib v = pib_id p"
    by (rule own_split [OF pd(3)])
  have "xs = []"
  proof (rule ccontr)
    assume "xs \<noteq> []"
    then obtain u where u: "u \<in> set xs" by (cases xs) auto
    have "v_chain s = (r # xs) @ v # ys" using H(1) xy(1) by simp
    then have "t_commit u = None \<and> m_ppib u = pib_id p"
      using above_uncommitted [OF vinvD(1) [OF vinv] _ xy(4), of "r # xs" ys u] u nc(2) xy(5) by auto
    then show False using xy(2) u by (auto simp: own_def filter_empty_conv)
  qed
  then have w: "m_oper w = operPreInsert" "t_commit w = None" "m_ppib w = pib_id p" "no_pre (own (pib_id p) vs)"
    using xy pd(4,5) by auto
  define w' where "w' = w\<lparr>m_oper := operInsert\<rparr>"
  have w': "stamps w' = stamps w" "m_oper w' = operInsert" "t_commit w' = None" "m_ppib w' = pib_id p" "commutes w' = commutes w"
    and snw: "seen b w' = seen b w" for b
    using w by (simp_all add: w'_def stamps_def commutes_def seen_def)
  have wc: "w \<in> set (v_chain s)" using H(1) by simp
  have "t_begin w = t_pib p" using order_okD(4) [OF vinvD(1) [OF vinv] H(6) wc] w(2,3) by (simp add: met_def)
  then have sn: "seen b w \<longleftrightarrow> b = t_pib p" for b using w(2) by (auto simp: seen_def)
  have n': "present (v_node s')" "nd_there (v_node s')" "FNDVersion (nd_kdf (v_node s'))" "nd_row (v_node s') = row"
    using pd(6) by (simp_all add: s' present_def)
  have ch: "v_chain s = [r] @ w # vs" "v_chain s' = [r] @ w' # vs" using H(1,2) by (simp_all add: s' w'_def)
  have np: "no_pre vs"
    unfolding no_pre_def
  proof (intro ballI notI)
    fix z assume z: "z \<in> set vs" "m_oper z = operPreInsert"
    then have "t_commit z = None" using vinvD(8) [OF vinv] by (simp add: ch(1))
    then have "z \<in> set (own (m_ppib z) vs)" using z(1) by simp
    moreover have "own (m_ppib z) vs = []" if "m_ppib z \<noteq> pib_id p"
      using H(10) [OF that] w(3) that by (auto split: if_splits)
    ultimately show False using w(4) z(2) by (cases "m_ppib z = pib_id p") (auto simp: no_pre_def)
  qed
  have un: "unseen b (v_chain s) = r # w # unseen b vs" "unseen b (v_chain s') = r # w' # unseen b vs" if "b \<noteq> t_pib p" for b
    using H(9) sn snw that by (simp_all add: ch)
  have own0: "unseen (t_pib p) (v_chain s') = []" using H(3) snw by (auto simp: ch split: if_splits)
  have "vinv s'"
  proof (rule inv_exclusive [OF vinv nw nc(1)])
    show "order_ok s'"
      using order_replace [OF vinvD(1) [OF vinv] _ _ _ ch w'(1,5)] by (simp add: s')
    show "pend Idle (v_node s') (own (pib_id p) (v_chain s'))" using w' pd(1) H(4,5) w(4) by (simp add: ch no_pre_def)
    show "obs_ok (v_node s') (unseen b (v_chain s'))" if b: "b \<in> observers s" "b \<noteq> t_pib p" for b
      using vinvD(3) [OF vinv b(1)] un [OF b(2)] n' pd(1,7) w(1) w'(2) wfd_p0 [OF no_pre_unseen [OF np], of True False b False]
      by (simp add: obs_ok_def absent_ok_def undo_present_def)
    show "own i (v_chain s') = []" if "i \<noteq> pib_id p" for i
      using H(10) [OF that] H(5) w(3) w'(4) that by (simp add: ch split: if_splits)
    show "\<forall>z \<in> set (v_chain s'). m_oper z = operPreInsert \<longrightarrow> t_commit z = None" using np pd(1) w'(2) by (auto simp: ch no_pre_def)
  qed (use own0 n'(3) in \<open>simp_all add: s'\<close>)
  moreover have "seen_by b s' = seen_by b s" if "b \<noteq> t_pib p" for b
    using un [OF that] n' pd w(1) w'(2) by (simp add: seen_by_def view_def undo1_def)
  moreover have "seen_by (t_pib p) s' = Some row" using own0 n' by (simp add: seen_by_def view_def)
  ultimately show ?thesis by blast
qed

end
