(* ===== verification/Ver_Undo.thy ===== *)
theory Ver_Undo
  imports Ver_Work
begin

text \<open>
  The steps that take an operation back, and those that only create a version.
\<close>

subsection \<open>Failure and rollback\<close>

lemma idle_undo: "idle n r \<Longrightarrow> undo1 r (present n, nd_row n) = (present n, nd_row n)"
  by (auto simp: idle_def undo1_def is_delta_def)

lemma inv_remove:
  fixes s s' :: "'r VSTATE"
  assumes vinv: "vinv s" and nw: "newest_of p s us r vs"
    and n': "undo1 r (present (v_node s), nd_row (v_node s)) = (present n', nd_row n')" "nd_there n' = nd_there (v_node s)"
      "FNDVersion (nd_kdf n') = FNDVersion (nd_kdf (v_node s))"
    and pd: "pend q n' (own (pib_id p) vs)"
    and np: "commutes r \<or> no_pre vs \<or> present n' = present (v_node s)"
    and s': "s' = s\<lparr>v_chain := us @ vs, v_pc := (v_pc s)(pib_id p := q), v_node := n'\<rparr>"
  shows "vinv s' \<and> (\<forall>b \<in> observers s. b \<noteq> t_pib p \<longrightarrow> seen_by b s' = seen_by b s)"
proof -
  note N = newest_own [OF vinv nw]
  have seen: "seen b r \<longleftrightarrow> b = t_pib p" for b using N(3,5) by (auto simp: seen_def)
  have P': "present n' = undo_present r (present (v_node s))" using arg_cong [OF n'(1), of fst] by simp
  have Pc: "commutes r \<Longrightarrow> present n' = present (v_node s)" using P' by (auto simp: commutes_def undo_present_def)
  have "order_ok s'"
    using order_sub [OF vinvD(1) [OF vinv], of s'] order_okD(2) [OF vinvD(1) [OF vinv]] ordered_remove [of us r vs] N(7) by (auto simp: s')
  moreover have "pend (v_pc s' i) (v_node s') (own i (v_chain s'))" for i
  proof (cases "i = pib_id p")
    case False
    then have "own i (v_chain s') = own i (v_chain s)" using N(4,7) by (simp add: s')
    then show ?thesis using pend_other [OF vinv _ False] N(1) False by (simp add: s')
  qed (use pd N(2) in \<open>simp add: s'\<close>)
  moreover have "obs_ok n' (unseen b us @ unseen b vs)" if b: "b \<in> observers s" for b
  proof -
    have ob: "wfd (present (v_node s)) (present (v_node s)) (unseen b (v_chain s))" "absent_ok (v_node s) (unseen b (v_chain s))"
      using vinvD(3) [OF vinv b] by (simp_all add: obs_ok_def)
    have "set (unseen b us @ unseen b vs) \<subseteq> set (unseen b (v_chain s))" by (auto simp: N(7) simp del: unseen_simps(2))
    then have ab: "absent_ok n' (unseen b us @ unseen b vs)" using ob(2) n'(2) unfolding absent_ok_def by blast
    show ?thesis
    proof (cases "commutes r")
      case True
      have "wfd (present (v_node s)) (present (v_node s)) (unseen b us @ unseen b vs)"
        using ob(1) wfd_remove [OF _ commutes_gentle [OF True], of _ _ "unseen b us" "unseen b vs"] by (cases "seen b r") (simp_all add: N(7))
      then show ?thesis using ab Pc [OF True] by (simp add: obs_ok_def)
    next
      case False
      note H = newest_head [OF vinv nw False]
      show ?thesis
      proof (cases "b = t_pib p")
        case True
        then show ?thesis using H(1-3) seen ab by (simp add: obs_ok_def)
      next
        case b: False
        then have "wfd (present (v_node s)) (present n') (unseen b vs)" using ob(1) H(1) seen P' by simp
        then have "wfd (present n') (present n') (unseen b vs)" using np False wfd_p0 [OF no_pre_unseen, of vs "present (v_node s)" "present n'" b "present n'"] by auto
        then show ?thesis using ab H(2) by (simp add: obs_ok_def)
      qed
    qed
  qed
  then have "\<forall>b \<in> observers s'. obs_ok (v_node s') (unseen b (v_chain s'))" by (simp add: s' observers_def)
  moreover have "\<forall>w \<in> set (v_chain s'). idle (v_node s') w" if "\<not> FNDVersion (nd_kdf (v_node s'))"
  proof -
    have i: "\<forall>w \<in> set (v_chain s). idle (v_node s) w" using vinvD(4) [OF vinv] that n'(3) by (simp add: s')
    then have "present n' = present (v_node s)" "nd_row n' = nd_row (v_node s)"
      using idle_undo [of "v_node s" r] n'(1) N(7) by simp_all
    then have "idle n' w = idle (v_node s) w" for w by (simp add: idle_def)
    then show ?thesis using i N(7) by (simp add: s')
  qed
  moreover have "\<forall>w \<in> set (v_chain s'). m_oper w = operPreInsert \<longrightarrow> t_commit w = None"
    using vinvD(8) [OF vinv] N(7) by (simp add: s')
  moreover have "seen_by b s' = seen_by b s" if "b \<noteq> t_pib p" for b
  proof -
    have "undos (unseen b us @ r # unseen b vs) (present (v_node s), nd_row (v_node s)) =
        undos (unseen b us @ unseen b vs) (undo1 r (present (v_node s), nd_row (v_node s)))"
      using N(8) undos_first [of "unseen b us" r] by (cases "us = []") auto
    then show ?thesis using that seen N(7) n'(1) by (simp add: seen_by_def view_def s')
  qed
  ultimately show ?thesis by (auto simp: vinv_def)
qed

lemma step_failed:
  fixes s s' :: "'r VSTATE"
  assumes vinv: "vinv s" and nw: "newest_of p s us r vs" and pc: "v_pc s (pib_id p) \<noteq> Idle"
    and s': "s' = s\<lparr>v_chain := us @ vs, v_pc := (v_pc s)(pib_id p := if v_pc s (pib_id p) = MadeInsertReplace then MadeInsert else Idle)\<rparr>"
  shows "vinv s' \<and> (\<forall>b \<in> observers s. b \<noteq> t_pib p \<longrightarrow> seen_by b s' = seen_by b s)"
proof -
  let ?q = "if v_pc s (pib_id p) = MadeInsertReplace then MadeInsert else Idle"
  have pd: "idle (v_node s) r \<and> pend ?q (v_node s) (own (pib_id p) vs)"
    using vinvD(2) [OF vinv, of "pib_id p"] pc unfolding newest_own(1) [OF vinv nw] by (cases "v_pc s (pib_id p)") (auto simp: idle_def)
  show ?thesis
    by (rule inv_remove [OF vinv nw, of "v_node s" ?q]) (use pd idle_undo [of "v_node s" r] s' in simp_all)
qed

lemma list_del_append: "list_del (length us) (us @ r # vs) = us @ vs"
  by (simp add: list_del_def)

lemma step_undo:
  fixes s s' :: "'r VSTATE"
  assumes vinv: "vinv s" and nw: "newest_of p s us r vs" and pc: "v_pc s (pib_id p) = Idle"
    and s': "s' = s\<lparr>v_chain := VERINullifyRolledBackRCE False (length us) (v_chain s), v_node := undo_node r (v_node s)\<rparr>"
  shows "vinv s' \<and> (\<forall>b \<in> observers s. b \<noteq> t_pib p \<longrightarrow> seen_by b s' = seen_by b s)"
proof -
  note N = newest_own [OF vinv nw]
  have pd: "m_oper r \<noteq> operPreInsert" "no_pre (own (pib_id p) vs)"
    using vinvD(2) [OF vinv, of "pib_id p"] pc N(1) by (simp_all add: no_pre_def)
  have rw: "\<not> fReadOnlyTrx p" using owner_writes [OF vinv N(6) _ N(3,4)] N(7) by simp
  have "\<not> seen (v_now s + 2) r" using N(3,5) writer_begin(2) [OF vinv N(6) rw] by (auto simp: seen_def)
  then have "r \<in> set (unseen (v_now s + 2) (v_chain s))" using N(7) by simp
  then have there: "nd_there (v_node s) \<or> gentle r"
    using vinvD(3,7) [OF vinv] pd(1) unfolding obs_ok_def absent_ok_def by blast
  have u: "undo1 r (present (v_node s), nd_row (v_node s)) = (present (undo_node r (v_node s)), nd_row (undo_node r (v_node s)))"
    using there by (cases "m_oper r") (auto simp: undo1_def undo_node_def present_def gentle_def)
  show ?thesis
  proof (rule inv_remove [OF vinv nw u])
    show "nd_there (undo_node r (v_node s)) = nd_there (v_node s)"
      "FNDVersion (nd_kdf (undo_node r (v_node s))) = FNDVersion (nd_kdf (v_node s))"
      by (simp_all add: undo_node_def split: OPER.split)
    show "pend Idle (undo_node r (v_node s)) (own (pib_id p) vs)" using pd(2) by simp
    show "commutes r \<or> no_pre vs \<or> present (undo_node r (v_node s)) = present (v_node s)"
      using no_pre_below [OF vinv nw _ pd(2)] by blast
    have "(v_pc s)(pib_id p := Idle) = v_pc s" using pc by (simp add: fun_upd_idem)
    then show "s' = s\<lparr>v_chain := us @ vs, v_pc := (v_pc s)(pib_id p := Idle), v_node := undo_node r (v_node s)\<rparr>"
      using s' N(7) by (simp add: VERINullifyRolledBackRCE_def list_del_append)
  qed
qed

subsection \<open>Steps that only create a version\<close>

text \<open>The program counter a session has after creating a version.\<close>

fun made :: "OPER \<Rightarrow> PC \<Rightarrow> PC" where
  "made operDelta q = MadeDelta"
| "made operDelta64 q = MadeDelta"
| "made operFlagDelete q = MadeDelete"
| "made operPreInsert q = MadeInsert"
| "made operReplace q = MadeInsertReplace"
| "made _ q = q"

lemma step_create:
  fixes s s' :: "'r VSTATE"
  assumes vinv: "vinv s" and c: "creates p opr vd s chain'"
    and kind: "opr = operReadLock \<or> opr = operWriteLock \<or> opr = operPreInsert \<or> is_delta opr \<and> snd vd = 0 \<or>
      opr = operFlagDelete \<and> ReadNode env p fUpd True (v_node s) (v_chain s) \<noteq> None"
    and pc: "v_pc s (pib_id p) = Idle"
    and s': "s' = s\<lparr>v_chain := chain', v_pc := (v_pc s)(pib_id p := made opr Idle)\<rparr>"
  shows "vinv s' \<and> (\<forall>b \<in> observers s. seen_by b s' = seen_by b s)"
proof -
  obtain r where r: "chain' = r # v_chain s" and fr: "fresh p opr vd s r" "\<not> FVERIWriteConflict p opr (v_chain s)"
    using createsD [OF c] by metis
  note F = fresh_simps [OF fr(1)]
  have del: "present (v_node s)" if "opr = operFlagDelete"
    using kind that visible_present [OF vinv F(5) fr(2)] by (auto simp: is_delta_def)
  have np: "no_pre (own (pib_id p) (v_chain s))" using vinvD(2) [OF vinv, of "pib_id p"] pc by simp
  have d: "is_delta opr \<Longrightarrow> m_tDelta r = snd vd" using fr(1) by (simp add: fresh_def)
  show ?thesis
  proof (rule push_harmless [OF vinv fr])
    show "harmless (v_node s) (unseen b (v_chain s)) r" for b using kind F(4) d del by (auto simp: harmless_def is_delta_def)
    show "pend (made opr Idle) (v_node s) (r # own (pib_id p) (v_chain s))"
      using kind F(4) np d del by (auto simp: no_pre_def is_delta_def)
    show "s' = s\<lparr>v_chain := r # v_chain s, v_pc := (v_pc s)(pib_id p := made opr Idle)\<rparr>" by (simp add: s' r)
  qed
qed

lemma step_make_insert_replace:
  fixes s s' :: "'r VSTATE"
  assumes vinv: "vinv s" and c: "creates p operReplace vd s chain'" and pc: "v_pc s (pib_id p) = MadeInsert"
    and n: "nd_there (v_node s)" "FNDDeleted (nd_kdf (v_node s))"
    and s': "s' = s\<lparr>v_chain := chain', v_pc := (v_pc s)(pib_id p := MadeInsertReplace)\<rparr>"
  shows "vinv s' \<and> (\<forall>b \<in> observers s. seen_by b s' = seen_by b s)"
proof -
  obtain r where r: "chain' = r # v_chain s" and fr: "fresh p operReplace vd s r" "\<not> FVERIWriteConflict p operReplace (v_chain s)"
    using createsD [OF c] by metis
  note F = fresh_simps [OF fr(1)]
  have bef: "m_before r = nd_row (v_node s)" using fr(1) by (simp add: fresh_def)
  obtain w us where w: "own (pib_id p) (v_chain s) = w # us" "m_oper w = operPreInsert" "no_pre us"
    using vinvD(2) [OF vinv, of "pib_id p"] pc by auto
  have "\<not> commutes w" using w(2) by (simp add: commutes_def)
  from own_head [OF vinv w(1) this] obtain vs where vs: "v_chain s = w # vs" by metis
  have "w \<in> set (own (pib_id p) (v_chain s))" using w(1) by (metis list.set_intros(1))
  then have wc: "w \<in> set (v_chain s)" "t_commit w = None" "m_ppib w = pib_id p" by simp_all
  then have "t_begin w = t_pib p" using order_okD(4) [OF vinvD(1) [OF vinv] F(5) wc(1)] by (simp add: met_def)
  then have un: "unseen b (v_chain s) = w # unseen b vs" if "b \<noteq> t_pib p" for b using that wc(2) by (simp add: vs seen_def)
  show ?thesis
  proof (rule push_harmless [OF vinv fr])
    show "harmless (v_node s) (unseen b (v_chain s)) r" if "b \<noteq> t_pib p" for b
      using un [OF that] F(4) bef n(1) w(2) by (simp add: harmless_def)
    show "pend MadeInsertReplace (v_node s) (r # own (pib_id p) (v_chain s))"
      using w F(4) bef n by (simp add: present_def)
    show "s' = s\<lparr>v_chain := r # v_chain s, v_pc := (v_pc s)(pib_id p := MadeInsertReplace)\<rparr>" by (simp add: s' r)
  qed
qed

end
