(* ===== verification/Ver_Ends.thy ===== *)
theory Ver_Ends
  imports Ver_Undo
begin

text \<open>
  Begin and end of transactions.  A transaction begins with the committed state; a commit makes what the session saw the committed state.
\<close>

subsection \<open>Late observers\<close>

text \<open>The state without the uncommitted versions; this is what a session sees that begins now.\<close>

definition uncommitted :: "'d GVERSION list \<Rightarrow> 'd GVERSION list" where
  "uncommitted chain = filter (\<lambda>r. t_commit r = None) chain"

definition committed_row :: "'r VSTATE \<Rightarrow> 'r ROW option" where
  "committed_row s =
     (let (there, row) = undos (uncommitted (v_chain s)) (present (v_node s), nd_row (v_node s)) in if there then Some row else None)"

lemma unseen_late:
  assumes "time_ok s" "v_now s < b"
  shows "unseen b (v_chain s) = uncommitted (v_chain s)"
  unfolding unseen_def uncommitted_def
proof (rule filter_cong [OF refl])
  fix r assume r: "r \<in> set (v_chain s)"
  have v: "t_begin r \<le> v_now s" "\<And>c. t_commit r = Some c \<Longrightarrow> c \<le> v_now s"
    using time_okD(4) [OF assms(1) r] by (simp_all add: version_ok_def)
  then show "(\<not> seen b r) = (t_commit r = None)" using assms(2) by (cases "t_commit r") (force simp: seen_def)+
qed

lemma seen_by_late: "time_ok s \<Longrightarrow> v_now s < b \<Longrightarrow> seen_by b s = committed_row s"
  by (simp add: seen_by_def view_def committed_row_def unseen_late)

lemma obs_ok_late: "vinv s \<Longrightarrow> obs_ok (v_node s) (uncommitted (v_chain s))"
  using vinvD(3,5,7) unseen_late [of s "v_now s + 2"] by (metis less_add_same_cancel1 zero_less_numeral)

subsection \<open>Begin\<close>

lemma step_begin:
  fixes s s' :: "'r VSTATE"
  assumes vinv: "vinv s" and room: "room s" and p: "pib_id p \<notin> pib_id ` set (v_pibs s)" "rgfucb p = []" "pib_level p = 1"
    and b: "PIBSetTrxBegin0 (v_newest s) p = (newest, p')"
    and s': "s' = s\<lparr>v_newest := newest, v_now := (if fReadOnlyTrx p then v_now s else v_now s + 4),
        v_pibs := v_pibs s @ [p'\<lparr>t_pib := (if fReadOnlyTrx p then v_now s + 2 else v_now s + 4)\<rparr>]\<rparr>"
  shows "vinv s' \<and> (\<forall>b. seen_by b s' = seen_by b s) \<and>
    seen_by (if fReadOnlyTrx p then v_now s + 2 else v_now s + 4) s' = committed_row s"
proof -
  note T = vinvD(5) [OF vinv]
  define t where "t = (if fReadOnlyTrx p then v_now s + 2 else v_now s + 4)"
  have "time_ok s'" by (rule time_begin [OF T room p b]) (simp_all add: s')
  then have "order_ok s'" using order_okD(2) [OF vinvD(1) [OF vinv]] by (simp add: order_ok_def s')
  moreover have "obs_ok (v_node s') (unseen b (v_chain s'))" if "b \<in> observers s'" for b
  proof (cases "b \<in> observers s")
    case False
    then have "v_now s < b" using that by (auto simp: observers_def s' split: if_splits)
    then show ?thesis using unseen_late [OF T] obs_ok_late [OF vinv] by (simp add: s')
  qed (use vinvD(3) [OF vinv] in \<open>simp add: s'\<close>)
  ultimately have "vinv s'" using vinv by (simp add: vinv_def s')
  moreover have eq: "seen_by b s' = seen_by b s" for b by (simp add: seen_by_def s')
  moreover have "seen_by t s' = committed_row s" using seen_by_late [OF T, of t] by (simp add: eq t_def)
  ultimately show ?thesis unfolding t_def by blast
qed

subsection \<open>End without versions\<close>

lemma step_finish:
  fixes s s' :: "'r VSTATE"
  assumes vinv: "vinv s" and p: "p \<in> set (v_pibs s)" "\<forall>r \<in> set (v_chain s). \<not> mine p r"
    and s': "s' = s\<lparr>v_pibs := filter (\<lambda>q. pib_id q \<noteq> pib_id p) (v_pibs s)\<rparr>"
  shows "vinv s' \<and> (\<forall>b. seen_by b s' = seen_by b s)"
proof -
  have "time_ok s'" by (rule time_finish [OF vinvD(5) [OF vinv] p]) (simp_all add: s')
  then have "order_ok s'" using order_okD(2) [OF vinvD(1) [OF vinv]] by (simp add: order_ok_def s')
  moreover have "observers s' \<subseteq> observers s" by (auto simp: observers_def s')
  ultimately have "vinv s'" using vinv by (auto simp: vinv_def s')
  then show ?thesis by (simp add: seen_by_def s')
qed

subsection \<open>Commit\<close>

lemma committed_at_simps [simp]:
  "m_oper (committed_at p c r) = m_oper r" "m_before (committed_at p c r) = m_before r" "m_cbOffset (committed_at p c r) = m_cbOffset r"
  "m_tDelta (committed_at p c r) = m_tDelta r" "t_begin (committed_at p c r) = t_begin r" "m_ppib (committed_at p c r) = m_ppib r"
  by (simp_all add: committed_at_def)

lemma undos_committed_at: "undos (map (committed_at p c) vs) st = undos vs st"
  by (induction vs arbitrary: st) (simp_all add: undo1_def cong: OPER.case_cong)

lemma obs_ok_committed_at: "obs_ok n (map (committed_at p c) vs) = obs_ok n vs"
proof -
  have "map m_oper (map (committed_at p c) vs) = map m_oper vs" by simp
  note w = wfd_oper [OF this]
  show ?thesis unfolding obs_ok_def w by (simp add: absent_ok_def gentle_def)
qed

text \<open>The uncommitted versions after a commit.\<close>

lemma uncommitted_committed_at:
  assumes "vinv s" "p \<in> set (v_pibs s)"
  shows "uncommitted (map (committed_at p c) (v_chain s)) = filter (\<lambda>r. m_ppib r \<noteq> pib_id p) (uncommitted (v_chain s))"
proof -
  have "filter (\<lambda>r. t_commit r = None) (map (committed_at p c) vs) = filter (\<lambda>r. m_ppib r \<noteq> pib_id p) (filter (\<lambda>r. t_commit r = None) vs)"
    if "\<forall>r \<in> set vs. mine p r = (t_commit r = None \<and> m_ppib r = pib_id p)" for vs
    using that by (induction vs) (auto simp: committed_at_def)
  from this [of "v_chain s"] show ?thesis using mine_own(1) [OF assms] by (simp add: uncommitted_def del: filter_filter)
qed

lemma unseen_committed_at:
  assumes "vinv s" "p \<in> set (v_pibs s)" "b \<noteq> t_pib p" "b \<le> c"
  shows "unseen b (map (committed_at p c) (v_chain s)) = map (committed_at p c) (unseen b (v_chain s))"
proof -
  have "filter (\<lambda>r. \<not> seen b r) (map (committed_at p c) vs) = map (committed_at p c) (filter (\<lambda>r. \<not> seen b r) vs)"
    if "\<forall>r \<in> set vs. mine p r = (t_commit r = None \<and> t_begin r = t_pib p)" for vs
    using that assms(3,4) by (induction vs) (auto simp: committed_at_def seen_def)
  from this [of "v_chain s"] show ?thesis using mine_own(2) [OF assms(1,2)] by (simp add: unseen_def)
qed

text \<open>A session with a version that does not commute sees the whole chain, and no other session has an uncommitted version.\<close>

lemma owner_exclusive:
  assumes vinv: "vinv s" and p: "p \<in> set (v_pibs s)" and r: "r \<in> set (v_chain s)" "mine p r" "\<not> commutes r"
  shows "unseen (t_pib p) (v_chain s) = []" "filter (\<lambda>r. m_ppib r \<noteq> pib_id p) (uncommitted (v_chain s)) = []"
proof -
  have m: "t_commit r = None" "m_ppib r = pib_id p" "t_begin r = t_pib p" using mine_own [OF vinv p r(1)] r(2) by simp_all
  show "filter (\<lambda>r. m_ppib r \<noteq> pib_id p) (uncommitted (v_chain s)) = []"
    using exclusive [OF vinvD(1) [OF vinv] r(1) m(1) r(3)] m(2) by (auto simp: uncommitted_def filter_empty_conv)
  obtain us vs where ch: "v_chain s = us @ r # vs" using split_list [OF r(1)] by blast
  have sr: "seen (t_pib p) r" using m(3) by (simp add: seen_def)
  have "seen (t_pib p) w" if "w \<in> set (v_chain s)" for w
  proof -
    consider "w \<in> set us" | "w = r" | "w \<in> set vs" using \<open>w \<in> set (v_chain s)\<close> ch by auto
    then show ?thesis
    proof cases
      case 1
      then show ?thesis using above_uncommitted [OF vinvD(1) [OF vinv] ch m(1)] r(3) m(3) by (auto simp: seen_def)
    next
      case 3
      then show ?thesis
        using unseen_below [of us r vs "t_pib p" w] order_okD(2,3) [OF vinvD(1) [OF vinv]] ch sr r(3) by auto
    qed (use sr in simp)
  qed
  then show "unseen (t_pib p) (v_chain s) = []" by (auto simp: unseen_def filter_empty_conv)
qed

lemma step_commit:
  fixes s s' :: "'r VSTATE"
  assumes vinv: "vinv s" and room: "room s" and p: "p \<in> set (v_pibs s)" "\<not> fReadOnlyTrx p" and pc: "v_pc s (pib_id p) = Idle"
    and c: "TrxCommit0 (v_newest s) True hint = (newest, c)" "VERCommitTransaction False (p\<lparr>trxCommit0 := c\<rparr>) (v_chain s) = (p', chain')"
    and s': "s' = s\<lparr>v_newest := newest, v_now := v_now s + 4, v_pibs := filter (\<lambda>q. pib_id q \<noteq> pib_id p) (v_pibs s),
        v_chain := stamp_commit p (v_now s + 4) chain'\<rparr>"
  shows "vinv s' \<and> (\<forall>b \<in> observers s. b \<noteq> t_pib p \<longrightarrow> seen_by b s' = seen_by b s)"
proof -
  let ?f = "committed_at p (v_now s + 4)"
  note T = vinvD(5) [OF vinv]
  have ch: "v_newest s' = of_nat (v_now s + 4)" "v_chain s' = map ?f (v_chain s)"
    using commit_chain [OF T p(1) c] by (simp_all add: s')
  have eqs: "v_node s' = v_node s" "v_pc s' = v_pc s" "v_now s' = v_now s + 4" by (simp_all add: s')
  have oo: "order_ok s'" by (rule order_commit [OF vinvD(1) [OF vinv] room p(1) ch(1) _ _ ch(2)]) (simp_all add: s')
  have mine: "mine p r = (t_commit r = None \<and> m_ppib r = pib_id p)" if "r \<in> set (v_chain s)" for r
    by (rule mine_own(1) [OF vinv p(1) that])
  have late: "unseen (v_now s + 6) (v_chain s') = filter (\<lambda>r. m_ppib r \<noteq> pib_id p) (uncommitted (v_chain s))"
    using unseen_late [OF order_okD(1) [OF oo], of "v_now s + 6"] uncommitted_committed_at [OF vinv p(1)]
    unfolding ch(2) by (simp add: eqs)
  have ob: "obs_ok (v_node s) (filter (\<lambda>r. m_ppib r \<noteq> pib_id p) (uncommitted (v_chain s)))"
  proof (cases "\<exists>r \<in> set (v_chain s). mine p r \<and> \<not> commutes r")
    case True
    then have "filter (\<lambda>r. m_ppib r \<noteq> pib_id p) (uncommitted (v_chain s)) = []" using owner_exclusive(2) [OF vinv p(1)] by blast
    then show ?thesis by (simp add: obs_ok_def absent_ok_def)
  next
    case False
    then have "\<forall>r \<in> set (uncommitted (v_chain s)). \<not> m_ppib r \<noteq> pib_id p \<longrightarrow> gentle r"
      using mine commutes_gentle unfolding uncommitted_def set_filter by blast
    from wfd_filter [OF _ this] show ?thesis using obs_ok_late [OF vinv] by (auto simp: obs_ok_def absent_ok_def)
  qed
  have old: "unseen b (v_chain s') = map ?f (unseen b (v_chain s))" if b: "b \<in> observers s" "b \<noteq> t_pib p" for b
  proof -
    have "b \<le> v_now s + 4" using b(1) time_okD(7) [OF T] by (force simp: observers_def pib_ok_def)
    then show ?thesis unfolding ch(2) by (rule unseen_committed_at [OF vinv p(1) b(2)])
  qed
  have "pend (v_pc s' i) (v_node s') (own i (v_chain s'))" for i
  proof -
    have "own i (map ?f vs) = (if i = pib_id p then [] else own i vs)"
      if "\<forall>r \<in> set vs. mine p r = (t_commit r = None \<and> m_ppib r = pib_id p)" for vs
      using that by (induction vs) (auto simp: committed_at_def)
    from this [of "v_chain s"] mine show ?thesis
      using vinvD(2) [OF vinv, of i] pc unfolding ch(2) by (simp add: eqs no_pre_def del: own_simps(4))
  qed
  moreover have "obs_ok (v_node s') (unseen b (v_chain s'))" if bo: "b \<in> observers s'" for b
  proof (cases "b = v_now s + 6")
    case True
    then show ?thesis using late ob by (simp add: eqs)
  next
    case False
    then obtain q where q: "q \<in> set (v_pibs s)" "pib_id q \<noteq> pib_id p" "b = t_pib q"
      using bo by (auto simp: observers_def s')
    then show ?thesis
      using old [of b] vinvD(3) [OF vinv vinvD(6) [OF vinv q(1)]] observer_other [OF vinv p q(1,2)] vinvD(6) [OF vinv q(1)]
      by (simp add: obs_ok_committed_at eqs)
  qed
  moreover have "t_commit w = None" if w: "w \<in> set (v_chain s')" "m_oper w = operPreInsert" for w
  proof -
    obtain r where r: "r \<in> set (v_chain s)" "w = ?f r" using w(1) unfolding ch(2) by auto
    then have "m_oper r = operPreInsert" "t_commit r = None" using w(2) vinvD(8) [OF vinv r(1)] by simp_all
    moreover from this have "\<not> mine p r"
      using vinvD(2) [OF vinv, of "pib_id p"] pc mine [OF r(1)] r(1) by (auto simp: no_pre_def)
    ultimately show ?thesis using r(2) by (simp add: committed_at_def)
  qed
  moreover have "idle n (?f r) = idle n r" for n :: "'r NODE" and r by (simp add: idle_def)
  then have "FNDVersion (nd_kdf (v_node s')) \<or> (\<forall>r \<in> set (v_chain s'). idle (v_node s') r)"
    using vinv unfolding ch(2) eqs vinv_def by simp
  ultimately have "vinv s'" using oo by (simp add: vinv_def)
  moreover have "seen_by b s' = seen_by b s" if "b \<in> observers s" "b \<noteq> t_pib p" for b
    using old [OF that] by (simp add: seen_by_def view_def undos_committed_at eqs)
  ultimately show ?thesis by blast
qed

text \<open>What the session saw is the committed state, if it has changed more than numbers; otherwise its changes of the numbers are added.\<close>

lemma commit_publishes:
  fixes s s' :: "'r VSTATE"
  assumes vinv: "vinv s" and p: "p \<in> set (v_pibs s)" and r: "r \<in> set (v_chain s)" "mine p r" "\<not> commutes r"
    and s': "v_chain s' = map (committed_at p c) (v_chain s)" "v_node s' = v_node s"
  shows "committed_row s' = seen_by (t_pib p) s"
  using uncommitted_committed_at [OF vinv p] owner_exclusive [OF vinv p r]
  by (simp add: committed_row_def seen_by_def view_def s')

end
