(* ===== verification/Ver_Clean.thy ===== *)
theory Ver_Clean
  imports Ver_Ends "HOL-Library.Sublist"
begin

text \<open>
  The clean-up of versions and of deleted nodes: what it takes away makes no difference to any session, whether running or yet to begin.
\<close>

subsection \<open>The oldest transaction\<close>

lemma TrxOldestLoop_min:
  assumes "\<forall>x \<in> set (t # ts). \<forall>y \<in> set (t # ts). near x y"
  shows "\<exists>m \<in> set (t # ts). TrxOldestLoop (of_nat t) (map of_nat ts) = of_nat m \<and> (\<forall>x \<in> set (t # ts). m \<le> x)"
  using assms
proof (induction ts arbitrary: t)
  case (Cons x ts)
  have c: "TrxCmp (of_nat x) (of_nat t) = int x - int t" using Cons.prems TrxCmp_near [of x t] by simp
  define u where "u = (if x < t then x else t)"
  have "\<exists>m \<in> set (u # ts). TrxOldestLoop (of_nat u) (map of_nat ts) = of_nat m \<and> (\<forall>x \<in> set (u # ts). m \<le> x)"
    using Cons.prems by (intro Cons.IH) (auto simp: u_def)
  moreover have "TrxOldestLoop (of_nat t) (map of_nat (x # ts)) = TrxOldestLoop (of_nat u) (map of_nat ts)"
    using c by (simp add: u_def)
  ultimately obtain m where "m \<in> set (u # ts)" "TrxOldestLoop (of_nat t) (map of_nat (x # ts)) = of_nat m" "\<forall>x \<in> set (u # ts). m \<le> x"
    by metis
  then show ?case by (intro bexI [of _ m]) (auto simp: u_def split: if_splits)
qed simp

lemma UpdateCachedTrxOldest_min:
  assumes "\<forall>x \<in> set ts. \<forall>y \<in> set ts. near x y"
  shows "ts = [] \<and> UpdateCachedTrxOldest (map of_nat ts) = trxMax \<or>
    (\<exists>m \<in> set ts. UpdateCachedTrxOldest (map of_nat ts) = of_nat m \<and> (\<forall>x \<in> set ts. m \<le> x))"
proof (cases ts)
  case (Cons t vs)
  have "even t" using assms Cons by (simp add: near_def)
  then have "UpdateCachedTrxOldest (map of_nat ts) = TrxOldestLoop (of_nat t) (map of_nat vs)"
    by (simp add: UpdateCachedTrxOldest_def Cons TrxCmp_trxMax)
  then show ?thesis using TrxOldestLoop_min [of t vs] assms Cons by metis
qed (simp add: UpdateCachedTrxOldest_def)

lemma times_near:
  assumes "time_ok s" "p \<in> set (v_pibs s)"
  shows "q \<in> set (v_pibs s) \<Longrightarrow> near (t_pib p) (t_pib q)" "r \<in> set (v_chain s) \<Longrightarrow> t_commit r = Some c \<Longrightarrow> near c (t_pib p)"
proof -
  have e: "even (t_pib p)" "t_pib p \<le> v_now s + 2" "v_now s + 2 < t_pib p + 2 ^ 31" if "p \<in> set (v_pibs s)" for p
  proof -
    have "t_pib p mod 4 = 2 \<or> 4 dvd t_pib p" "t_pib p \<le> v_now s + 2"
      using time_okD(7) [OF assms(1) that] by (simp_all add: pib_ok_def split: if_splits)
    then show "even (t_pib p)" "t_pib p \<le> v_now s + 2" by presburger+
    show "v_now s + 2 < t_pib p + 2 ^ 31" using time_okD(6) [OF assms(1)] that by (simp add: times_def)
  qed
  show "near (t_pib p) (t_pib q)" if "q \<in> set (v_pibs s)"
    using e [OF assms(2)] e [OF that] by (simp add: near_def)
  show "near c (t_pib p)" if "r \<in> set (v_chain s)" "t_commit r = Some c"
    using time_met [OF assms that(1)] that(2) by (simp add: met_def)
qed

text \<open>The oldest transaction is one of the sessions, and no session is older.\<close>

lemma oldest_cases:
  assumes "time_ok s"
  shows "v_pibs s = [] \<and> oldest s = trxMax \<or>
    (\<exists>p \<in> set (v_pibs s). oldest s = of_nat (t_pib p) \<and> (\<forall>q \<in> set (v_pibs s). t_pib p \<le> t_pib q))"
proof -
  have "oldest s = UpdateCachedTrxOldest (map of_nat (map t_pib (v_pibs s)))"
    using time_okD(7) [OF assms] by (simp add: oldest_def pib_ok_def cong: map_cong)
  then show ?thesis
    using UpdateCachedTrxOldest_min [of "map t_pib (v_pibs s)"] times_near(1) [OF assms] by auto
qed

text \<open>A version is settled when whoever looks sees it.\<close>

definition settled :: "'r VSTATE \<Rightarrow> 'r ROW GVERSION \<Rightarrow> bool" where
  "settled s r \<longleftrightarrow> (\<forall>b \<in> observers s. seen b r) \<and> t_commit r \<noteq> None"

lemma inactive_settled:
  assumes "time_ok s" "r \<in> set (v_chain s)"
  shows "(TrxCmp (m_trxCommitted r) (oldest s) < 0) = settled s r" "(0 < TrxCmp (m_trxCommitted r) (oldest s)) = (\<not> settled s r \<and> v_pibs s \<noteq> [])"
proof -
  have v: "timed r" "\<And>c q. t_commit r = Some c \<Longrightarrow> q \<in> set (v_pibs s) \<Longrightarrow> c \<noteq> t_pib q \<and> t_begin r \<noteq> t_pib q"
    "\<And>c. t_commit r = Some c \<Longrightarrow> c \<le> v_now s \<and> even c"
    using time_okD(4) [OF assms] even_times by (auto simp: version_ok_def)
  show "(TrxCmp (m_trxCommitted r) (oldest s) < 0) = settled s r" "(0 < TrxCmp (m_trxCommitted r) (oldest s)) = (\<not> settled s r \<and> v_pibs s \<noteq> [])"
    using oldest_cases [OF assms(1)]
  proof (atomize (full), elim disjE bexE conjE)
    assume n: "v_pibs s = []" "oldest s = trxMax"
    then obtain c where c: "t_commit r = Some c" using time_okD(4) [OF assms] by (cases "t_commit r") (auto simp: version_ok_def)
    then show "(TrxCmp (m_trxCommitted r) (oldest s) < 0) = settled s r \<and> (0 < TrxCmp (m_trxCommitted r) (oldest s)) = (\<not> settled s r \<and> v_pibs s \<noteq> [])"
      using n v(1) v(3) [OF c] by (simp add: timed_def trx_of_def TrxCmp_trxMax settled_def observers_def seen_def)
  next
    fix p assume p: "p \<in> set (v_pibs s)" "oldest s = of_nat (t_pib p)" "\<forall>q \<in> set (v_pibs s). t_pib p \<le> t_pib q"
    show "(TrxCmp (m_trxCommitted r) (oldest s) < 0) = settled s r \<and> (0 < TrxCmp (m_trxCommitted r) (oldest s)) = (\<not> settled s r \<and> v_pibs s \<noteq> [])"
    proof (cases "t_commit r")
      case None
      have "even (t_pib p)" using times_near(1) [OF assms(1) p(1,1)] by (simp add: near_def)
      then show ?thesis using None v(1) p(1,2) by (auto simp: timed_def trx_of_def TrxCmp_trxMax settled_def)
    next
      case (Some c)
      have "TrxCmp (m_trxCommitted r) (oldest s) = int c - int (t_pib p)"
        using TrxCmp_near [OF times_near(2) [OF assms(1) p(1) assms(2) Some]] v(1) Some p(2) by (simp add: timed_def trx_of_def)
      moreover have "settled s r = (c < t_pib p)"
      proof
        assume "settled s r"
        then have "seen (t_pib p) r" using p(1) by (simp add: settled_def observers_def)
        then show "c < t_pib p" using v(2) [OF Some p(1)] Some by (simp add: seen_def)
      next
        assume "c < t_pib p"
        then have "c < b" if "b \<in> observers s" for b using that p(3) v(3) [OF Some] by (auto simp: observers_def)
        then show "settled s r" using Some by (simp add: settled_def seen_def)
      qed
      ultimately show ?thesis using v(2) [OF Some p(1)] p(1) by auto
    qed
  qed
qed

text \<open>Taking settled versions away.\<close>

definition pruned :: "'r VSTATE \<Rightarrow> 'r ROW GVERSION list \<Rightarrow> bool" where
  "pruned s chain' \<longleftrightarrow> subseq chain' (v_chain s) \<and> filter (\<lambda>r. \<not> settled s r) chain' = filter (\<lambda>r. \<not> settled s r) (v_chain s)"

lemma pruned_filter:
  assumes "pruned s chain'" "\<And>r. P r \<Longrightarrow> \<not> settled s r"
  shows "filter P chain' = filter P (v_chain s)"
proof -
  have "filter P vs = filter P (filter (\<lambda>r. \<not> settled s r) vs)" for vs
    unfolding filter_filter using assms(2) by (intro filter_cong) auto
  then show ?thesis using assms(1) unfolding pruned_def by metis
qed

lemma sorted_wrt_subseq: "subseq xs ys \<Longrightarrow> sorted_wrt P ys \<Longrightarrow> sorted_wrt P xs"
proof (induction rule: list_emb.induct)
  case (list_emb_Cons2 x y xs ys)
  then show ?case using list_emb_set [of "(=)" xs ys] by auto
qed simp_all

lemma remove_settled:
  fixes s s' :: "'r VSTATE"
  assumes vinv: "vinv s" and pr: "pruned s chain'" and s': "s' = s\<lparr>v_chain := chain'\<rparr>"
  shows "vinv s' \<and> (\<forall>b \<in> observers s. seen_by b s' = seen_by b s)"
proof -
  have sub: "set chain' \<subseteq> set (v_chain s)"
    using pr list_emb_set [of "(=)" chain' "v_chain s"] by (auto simp: pruned_def)
  have un: "unseen b chain' = unseen b (v_chain s)" if "b \<in> observers s" for b
    using that unfolding unseen_def by (intro pruned_filter [OF pr]) (auto simp: settled_def)
  have ow: "own i chain' = own i (v_chain s)" for i
    unfolding own_def by (rule pruned_filter [OF pr]) (simp add: settled_def)
  have "ordered chain'"
    using pr sorted_wrt_subseq order_okD(2) [OF vinvD(1) [OF vinv]] unfolding ordered_def pruned_def by blast
  then have "order_ok s'" using order_sub [OF vinvD(1) [OF vinv], of s'] sub by (simp add: s')
  moreover have "observers s' = observers s" by (simp add: s' observers_def)
  moreover have "FNDVersion (nd_kdf (v_node s')) \<or> (\<forall>r \<in> set (v_chain s'). idle (v_node s') r)"
    using vinvD(4) [OF vinv] sub by (auto simp: s')
  moreover have "\<forall>r \<in> set (v_chain s'). m_oper r = operPreInsert \<longrightarrow> t_commit r = None"
    using vinvD(8) [OF vinv] sub by (auto simp: s')
  ultimately have "vinv s'" using vinvD(2,3) [OF vinv] un ow by (simp add: vinv_def s')
  moreover have "seen_by b s' = seen_by b s" if "b \<in> observers s" for b
    using un [OF that] by (simp add: seen_by_def view_def s')
  ultimately show ?thesis by blast
qed

subsection \<open>The clean-up operations\<close>

lemma NullifyNewerLoop_pruned:
  assumes "time_ok s" "set newer \<subseteq> set (v_chain s)"
  shows "\<exists>us. newer = us @ NullifyNewerLoop (oldest s) newer \<and> (\<forall>r \<in> set us. settled s r)"
  using assms(2)
proof (induction newer)
  case (Cons r newer)
  then obtain us where us: "newer = us @ NullifyNewerLoop (oldest s) newer" "\<forall>r \<in> set us. settled s r" by auto
  show ?case
  proof (cases "NullifyNewerLoop (oldest s) (r # newer) = r # newer")
    case False
    then have "TrxCmp (m_trxCommitted r) (oldest s) < 0" "NullifyNewerLoop (oldest s) (r # newer) = NullifyNewerLoop (oldest s) newer"
      by (simp_all split: if_splits)
    then show ?thesis using us inactive_settled(1) [OF assms(1), of r] Cons.prems by (intro exI [of _ "r # us"]) simp
  qed (intro exI [of _ "[]"], simp)
qed simp

lemma ErrPrepareToDeallocate_pruned:
  assumes "time_ok s" "k < length (v_chain s)" "TrxCmp (m_trxCommitted (v_chain s ! k)) (oldest s) < 0"
  shows "pruned s (ErrPrepareToDeallocate (oldest s) k (v_chain s))"
proof -
  have "set (rev (take k (v_chain s))) \<subseteq> set (v_chain s)" by (auto dest: in_set_takeD)
  from NullifyNewerLoop_pruned [OF assms(1) this] obtain us where
    us: "rev (take k (v_chain s)) = us @ NullifyNewerLoop (oldest s) (rev (take k (v_chain s)))" "\<forall>r \<in> set us. settled s r" by blast
  define vs where "vs = rev (NullifyNewerLoop (oldest s) (rev (take k (v_chain s))))"
  have "take k (v_chain s) = vs @ rev us" using arg_cong [OF us(1), of rev] by (simp add: vs_def)
  then have ch: "v_chain s = (vs @ rev us) @ v_chain s ! k # drop (Suc k) (v_chain s)" using id_take_nth_drop [OF assms(2)] by simp
  have e: "ErrPrepareToDeallocate (oldest s) k (v_chain s) = vs @ drop (Suc k) (v_chain s)"
    by (simp add: ErrPrepareToDeallocate_def vs_def)
  have "settled s (v_chain s ! k)" using inactive_settled(1) [OF assms(1), of "v_chain s ! k"] assms(2,3) by simp
  then have "filter (\<lambda>r. \<not> settled s r) (v_chain s) = filter (\<lambda>r. \<not> settled s r) (vs @ drop (Suc k) (v_chain s))"
    using us(2) by (subst ch) simp
  moreover have "subseq (vs @ drop (Suc k) (v_chain s)) (v_chain s)"
    by (subst (2) ch) (auto intro: list_emb_append_mono list_emb_append2)
  ultimately show ?thesis by (simp add: pruned_def e)
qed

text \<open>Whatever the cached value is, a version goes only if it is older than the updated oldest transaction.\<close>

lemma NullifyInactiveLoop_keeps:
  assumes "fUpdated \<Longrightarrow> trxOldest = trxUpdated"
  shows "subseq (NullifyInactiveLoop trxUpdated fUpdated trxOldest chain) chain \<and>
    filter (\<lambda>r. \<not> TrxCmp (m_trxCommitted r) trxUpdated < 0) (NullifyInactiveLoop trxUpdated fUpdated trxOldest chain) =
    filter (\<lambda>r. \<not> TrxCmp (m_trxCommitted r) trxUpdated < 0) chain"
  using assms
proof (induction chain arbitrary: fUpdated trxOldest)
  case (Cons r chain)
  show ?case
  proof (cases "TrxCmp (m_trxCommitted r) trxOldest < 0 \<and> \<not> fUpdated")
    case True
    then show ?thesis using Cons.IH [of True trxUpdated] by (simp add: list_emb_Cons)
  next
    case False
    then have "TrxCmp (m_trxCommitted r) trxOldest < 0 \<Longrightarrow> TrxCmp (m_trxCommitted r) trxUpdated < 0" using Cons.prems by auto
    moreover have "NullifyInactiveLoop trxUpdated fUpdated trxOldest (r # chain) =
        (let rest = NullifyInactiveLoop trxUpdated fUpdated trxOldest chain in if TrxCmp (m_trxCommitted r) trxOldest < 0 then rest else r # rest)"
      using False by (auto simp: Let_def)
    ultimately show ?thesis
      using Cons.IH [of fUpdated trxOldest] Cons.prems
      by (cases "TrxCmp (m_trxCommitted r) trxOldest < 0") (simp_all add: list_emb_Cons)
  qed
qed simp

lemma VERNullifyInactiveVersionsOnBM_pruned:
  assumes "time_ok s"
  shows "pruned s (VERNullifyInactiveVersionsOnBM cached (oldest s) (v_chain s))"
proof -
  let ?P = "\<lambda>r. \<not> TrxCmp (m_trxCommitted r) (oldest s) < 0" and ?vs = "NullifyInactiveLoop (oldest s) False cached (v_chain s)"
  have "subseq ?vs (v_chain s) \<and> filter ?P ?vs = filter ?P (v_chain s)" by (rule NullifyInactiveLoop_keeps) simp
  then have k: "subseq ?vs (v_chain s)" "filter ?P ?vs = filter ?P (v_chain s)" by simp_all
  have "set ?vs \<subseteq> set (v_chain s)" using k(1) list_emb_set [of "(=)" ?vs "v_chain s"] by auto
  then have "filter (\<lambda>r. \<not> settled s r) ws = filter ?P ws" if "ws = ?vs \<or> ws = v_chain s" for ws
    using that inactive_settled(1) [OF assms] by (intro filter_cong) auto
  then show ?thesis using k by (simp add: pruned_def VERNullifyInactiveVersionsOnBM_def)
qed

text \<open>A deleted node is taken away when everybody sees all its versions.\<close>

lemma step_expunge:
  fixes s s' :: "'r VSTATE"
  assumes vinv: "vinv s" and d: "FNDDeleted (nd_kdf (v_node s))" "\<not> FVERActive (v_chain s) (oldest s)"
    and s': "s' = s\<lparr>v_node := (v_node s)\<lparr>nd_there := False\<rparr>\<rparr>"
  shows "vinv s' \<and> (\<forall>b \<in> observers s. seen_by b s' = seen_by b s)"
proof -
  have a: "\<not> 0 < TrxCmp (m_trxCommitted r) trx" if "r \<in> set vs" "\<not> FVERActive vs trx" for r trx and vs :: "'r ROW GVERSION list"
    using that by (induction vs) (auto split: if_splits)
  have "t_commit r \<noteq> None \<and> (\<forall>b \<in> observers s. seen b r)" if r: "r \<in> set (v_chain s)" for r
  proof (cases "v_pibs s = []")
    case True
    then obtain c where "t_commit r = Some c" "c \<le> v_now s"
      using time_okD(4) [OF vinvD(5) [OF vinv] r] by (cases "t_commit r") (auto simp: version_ok_def)
    then show ?thesis using True by (simp add: observers_def seen_def)
  next
    case False
    then show ?thesis using inactive_settled(2) [OF vinvD(5) [OF vinv] r] a [OF r d(2)] by (simp add: settled_def)
  qed
  then have un: "unseen b (v_chain s) = []" and ow: "own i (v_chain s) = []" if "b \<in> observers s" for b i
    using that by (auto simp: unseen_def own_def filter_empty_conv)
  note ow = ow [OF vinvD(7) [OF vinv]]
  have n': "\<not> present (v_node s)" "\<not> present (v_node s')" "nd_row (v_node s') = nd_row (v_node s)" "nd_kdf (v_node s') = nd_kdf (v_node s)"
    using d(1) by (simp_all add: present_def s' nd_kdf_def)
  have "order_ok s'" using order_sub [OF vinvD(1) [OF vinv], of s'] order_okD(2) [OF vinvD(1) [OF vinv]] by (simp add: s')
  moreover have "pend (v_pc s' i) (v_node s') (own i (v_chain s'))" for i
    using vinvD(2) [OF vinv, of i] ow [of i] by (cases "v_pc s i") (simp_all add: s' no_pre_def)
  moreover have "obs_ok (v_node s') (unseen b (v_chain s'))" if "b \<in> observers s'" for b
    using un [of b] that by (simp add: obs_ok_def absent_ok_def s' observers_def)
  moreover have "idle (v_node s') r = idle (v_node s) r" for r using n' by (simp add: idle_def)
  ultimately have "vinv s'" using vinv n'(4) by (simp add: vinv_def s')
  moreover have "seen_by b s' = seen_by b s" for b using n' by (simp add: seen_by_def view_def s')
  ultimately show ?thesis by blast
qed

lemma step_reset_bit:
  fixes s s' :: "'r VSTATE"
  assumes vinv: "vinv s" and c: "v_chain s = []" and s': "s' = s\<lparr>v_node := set_flags 0 fNDVersion (v_node s)\<rparr>"
  shows "vinv s' \<and> (\<forall>b. seen_by b s' = seen_by b s)"
proof -
  have n': "present (v_node s') = present (v_node s)" "nd_row (v_node s') = nd_row (v_node s)" "nd_there (v_node s') = nd_there (v_node s)"
    by (simp_all add: present_def s')
  have "order_ok s'" using order_sub [OF vinvD(1) [OF vinv], of s'] c by (simp add: s' ordered_def)
  moreover have "pend (v_pc s' i) (v_node s') (own i (v_chain s'))" for i
    using vinvD(2) [OF vinv, of i] by (cases "v_pc s i") (simp_all add: s' c no_pre_def)
  ultimately have "vinv s'" by (simp add: vinv_def s' c obs_ok_def absent_ok_def)
  then show ?thesis using n' c by (simp add: seen_by_def view_def s')
qed

end
