(* ===== verification/Ver_Laws.thy ===== *)
theory Ver_Laws
  imports Ver_Clean
begin

text \<open>
  The laws of a step: the invariant is kept, nobody else sees a difference, and the committed state changes only when a session ends.
\<close>

subsection \<open>Steps of a session\<close>

text \<open>A step that leaves the sessions alone and the view of all observers but one.\<close>

definition quiet :: "GPIB \<Rightarrow> 'r VSTATE \<Rightarrow> 'r VSTATE \<Rightarrow> bool" where
  "quiet p s s' \<longleftrightarrow> vinv s' \<and> v_pibs s' = v_pibs s \<and> (\<forall>q \<in> set (v_pibs s). pib_id q \<noteq> pib_id p \<longrightarrow> seen_by (t_pib q) s' = seen_by (t_pib q) s) \<and>
     committed_row s' = committed_row s"

lemma quietI:
  assumes "vinv s" "p \<in> set (v_pibs s)" "\<not> fReadOnlyTrx p" "vinv s' \<and> (\<forall>b \<in> observers s. b \<noteq> t_pib p \<longrightarrow> seen_by b s' = seen_by b s)"
    "v_pibs s' = v_pibs s" "v_now s' = v_now s"
  shows "quiet p s s'"
proof -
  have "seen_by (t_pib q) s' = seen_by (t_pib q) s" if "q \<in> set (v_pibs s)" "pib_id q \<noteq> pib_id p" for q
    using assms(4) observer_other [OF assms(1-3) that] vinvD(6) [OF assms(1) that(1)] by blast
  moreover have "seen_by (v_now s + 2) s' = seen_by (v_now s + 2) s"
    using assms(4) writer_begin(2) [OF assms(1-3)] vinvD(7) [OF assms(1)] by auto
  then have "committed_row s' = committed_row s"
    using seen_by_late [OF vinvD(5) [OF assms(1)], of "v_now s + 2"] seen_by_late [OF vinvD(5) [of s'], of "v_now s + 2"] assms(4,6) by simp
  ultimately show ?thesis using assms(4,5) by (simp add: quiet_def)
qed

lemma newest_writer: "vinv s \<Longrightarrow> newest_of p s us r vs \<Longrightarrow> p \<in> set (v_pibs s) \<and> \<not> fReadOnlyTrx p"
  using owner_writes [of s p r] newest_own [of s p us r vs] by auto

lemma creates_writer: "creates p opr vd s chain' \<Longrightarrow> p \<in> set (v_pibs s) \<and> \<not> fReadOnlyTrx p"
  by (simp add: creates_def)

lemma pc_same: "v_pc s i = q \<Longrightarrow> s\<lparr>v_chain := c, v_pc := (v_pc s)(i := q)\<rparr> = s\<lparr>v_chain := c\<rparr>"
  by (simp add: fun_upd_idem)

subsection \<open>The sum of the deltas of a session\<close>

definition tally :: "('d, 'm) VERSION_scheme list \<Rightarrow> OPER \<times> int \<Rightarrow> int" where
  "tally vs k = sum_list (map m_tDelta (filter (\<lambda>r. is_delta (m_oper r) \<and> (m_oper r, m_cbOffset r) = k) vs))"

definition add_tally :: "(OPER \<times> int \<Rightarrow> int) \<Rightarrow> 'r ROW \<Rightarrow> 'r ROW" where
  "add_tally t row = (fst row, \<lambda>k. snd row k + t k)"

lemma tally_Nil [simp]: "tally [] = (\<lambda>k. 0)" "add_tally (\<lambda>k. 0) row = row" "add_tally (\<lambda>k. 0) = (\<lambda>row. row)"
  by (auto simp: tally_def add_tally_def)

lemma undos_tally:
  assumes "\<forall>r \<in> set vs. commutes r"
  shows "undos vs (there, row) = (there, add_tally (\<lambda>k. - tally vs k) row)"
  using assms
proof (induction vs arbitrary: row)
  case (Cons r vs)
  show ?case
  proof (cases "is_delta (m_oper r)")
    case True
    then show ?thesis using Cons undo1_delta [OF True, of "(there, row)"] by (auto simp: add_tally_def tally_def add_num_def)
  next
    case False
    then show ?thesis using Cons undo1_lock [of r "(there, row)"] by (auto simp: add_tally_def tally_def)
  qed
qed (simp add: add_tally_def tally_def)

lemma tally_split: "tally vs k = tally (filter P vs) k + tally (filter (\<lambda>r. \<not> P r) vs) k"
  by (induction vs) (auto simp: tally_def)

subsection \<open>The end of a transaction\<close>

text \<open>The committed state after the end of a transaction.\<close>

definition published :: "GPIB \<Rightarrow> 'r VSTATE \<Rightarrow> 'r ROW option" where
  "published p s =
     (if \<exists>r \<in> set (own (pib_id p) (v_chain s)). \<not> commutes r then seen_by (t_pib p) s
      else map_option (add_tally (tally (own (pib_id p) (v_chain s)))) (committed_row s))"

lemma own_uncommitted: "own i chain = filter (\<lambda>r. m_ppib r = i) (uncommitted chain)"
  by (auto simp: own_def uncommitted_def intro: filter_cong)

lemma commit_published:
  fixes s s' :: "'r VSTATE"
  assumes vinv: "vinv s" and p: "p \<in> set (v_pibs s)"
    and s': "v_chain s' = map (committed_at p c) (v_chain s)" "v_node s' = v_node s"
  shows "committed_row s' = published p s"
proof (cases "\<exists>r \<in> set (own (pib_id p) (v_chain s)). \<not> commutes r")
  case True
  then obtain r where "r \<in> set (v_chain s)" "mine p r" "\<not> commutes r" using mine_own(1) [OF vinv p] by auto
  then show ?thesis using commit_publishes [OF vinv p _ _ _ s'] True by (simp add: published_def del: own_simps(4))
next
  case False
  let ?U = "uncommitted (v_chain s)" and ?O = "own (pib_id p) (v_chain s)"
  have U': "uncommitted (v_chain s') = filter (\<lambda>r. \<not> m_ppib r = pib_id p) ?U"
    using uncommitted_committed_at [OF vinv p] s'(1) by simp
  show ?thesis
  proof (cases "?O = []")
    case True
    then have "uncommitted (v_chain s') = ?U" unfolding U' own_uncommitted by (auto simp: filter_empty_conv filter_id_conv)
    then show ?thesis using True s'(2) by (simp add: published_def committed_row_def option.map_ident)
  next
    case ne: False
    then obtain w where w: "w \<in> set ?O" "commutes w" using False by (cases ?O) auto
    have cm: "commutes r" if r: "r \<in> set ?U" for r
    proof (rule ccontr)
      assume n: "\<not> commutes r"
      have "r \<in> set (v_chain s)" "t_commit r = None" "w \<in> set (v_chain s)" "t_commit w = None" "m_ppib w = pib_id p"
        using r w(1) by (auto simp: uncommitted_def)
      then have "m_ppib r = pib_id p" using exclusive [OF vinvD(1) [OF vinv] _ _ n] by metis
      then show False using False n r by (auto simp: uncommitted_def)
    qed
    then have "undos ?U (there, row) = (there, add_tally (\<lambda>k. - tally ?U k) row)"
      "undos (filter (\<lambda>r. \<not> m_ppib r = pib_id p) ?U) (there, row) = (there, add_tally (\<lambda>k. - tally (filter (\<lambda>r. \<not> m_ppib r = pib_id p) ?U) k) row)"
      for there and row :: "'r ROW"
      by (simp_all add: undos_tally)
    moreover have "tally ?U k = tally ?O k + tally (filter (\<lambda>r. \<not> m_ppib r = pib_id p) ?U) k" for k
      unfolding own_uncommitted by (rule tally_split)
    ultimately show ?thesis using False by (auto simp: committed_row_def published_def U' s'(2) add_tally_def)
  qed
qed

subsection \<open>All steps\<close>

definition lawful :: "nat option \<Rightarrow> 'r VSTATE \<Rightarrow> 'r VSTATE \<Rightarrow> bool" where
  "lawful who s s' \<longleftrightarrow> vinv s' \<and>
     (\<forall>q \<in> set (v_pibs s). who \<noteq> Some (pib_id q) \<longrightarrow> q \<in> set (v_pibs s') \<and> seen_by (t_pib q) s' = seen_by (t_pib q) s) \<and>
     (\<forall>q \<in> set (v_pibs s'). q \<notin> set (v_pibs s) \<longrightarrow> seen_by (t_pib q) s' = committed_row s) \<and>
     (if \<exists>p \<in> set (v_pibs s). p \<notin> set (v_pibs s')
      then \<exists>p \<in> set (v_pibs s). p \<notin> set (v_pibs s') \<and> committed_row s' = published p s
      else committed_row s' = committed_row s)"

lemma lawful_quiet: "quiet p s s' \<Longrightarrow> lawful (Some (pib_id p)) s s'"
  by (auto simp: quiet_def lawful_def)

lemma lawful_clean:
  assumes "vinv s" "vinv s' \<and> (\<forall>b \<in> observers s. seen_by b s' = seen_by b s)" "v_pibs s' = v_pibs s" "v_now s' = v_now s"
  shows "lawful who s s'"
proof -
  have "committed_row s' = committed_row s"
    using seen_by_late [OF vinvD(5) [OF assms(1)], of "v_now s + 2"] seen_by_late [OF vinvD(5) [of s'], of "v_now s + 2"] assms(2,4) vinvD(7) [OF assms(1)] by simp
  then show ?thesis using assms(2,3) vinvD(6) [OF assms(1)] by (auto simp: lawful_def)
qed

lemma lawful_steps:
  assumes "vinv s" "p \<in> set (v_pibs s) \<and> \<not> fReadOnlyTrx p" "vinv s' \<and> (\<forall>b \<in> observers s. b \<noteq> t_pib p \<longrightarrow> seen_by b s' = seen_by b s)"
    "v_pibs s' = v_pibs s" "v_now s' = v_now s"
  shows "lawful (Some (pib_id p)) s s'"
  using quietI [OF assms(1)] assms(2-5) by (intro lawful_quiet) blast

lemma lawful_begin:
  fixes s s' :: "'r VSTATE"
  assumes vinv: "vinv s" and room: "room s" and p: "pib_id p \<notin> pib_id ` set (v_pibs s)" "rgfucb p = []" "pib_level p = 1"
    and b: "PIBSetTrxBegin0 (v_newest s) p = (newest, p')"
    and s': "s' = s\<lparr>v_newest := newest, v_now := (if fReadOnlyTrx p then v_now s else v_now s + 4),
        v_pibs := v_pibs s @ [p'\<lparr>t_pib := (if fReadOnlyTrx p then v_now s + 2 else v_now s + 4)\<rparr>]\<rparr>"
  shows "lawful (Some (pib_id p)) s s'"
proof -
  note S = step_begin [OF assms]
  have "committed_row s' = committed_row s" by (simp add: committed_row_def s')
  then show ?thesis using S by (auto simp: lawful_def s')
qed

lemma lawful_end:
  fixes s s' :: "'r VSTATE"
  assumes "vinv s" "p \<in> set (v_pibs s)" "v_pibs s' = filter (\<lambda>q. pib_id q \<noteq> pib_id p) (v_pibs s)" "vinv s'"
    and v: "\<And>q. q \<in> set (v_pibs s) \<Longrightarrow> pib_id q \<noteq> pib_id p \<Longrightarrow> seen_by (t_pib q) s' = seen_by (t_pib q) s" "committed_row s' = published p s"
  shows "lawful (Some (pib_id p)) s s'"
proof -
  have "p \<notin> set (v_pibs s')" using assms(3) by simp
  then show ?thesis using assms by (auto simp: lawful_def)
qed

lemma lawful_commit:
  fixes s s' :: "'r VSTATE"
  assumes vinv: "vinv s" and room: "room s" and p: "p \<in> set (v_pibs s)" "\<not> fReadOnlyTrx p" and pc: "v_pc s (pib_id p) = Idle"
    and c: "TrxCommit0 (v_newest s) True hint = (newest, c)" "VERCommitTransaction False (p\<lparr>trxCommit0 := c\<rparr>) (v_chain s) = (p', chain')"
    and s': "s' = s\<lparr>v_newest := newest, v_now := v_now s + 4, v_pibs := filter (\<lambda>q. pib_id q \<noteq> pib_id p) (v_pibs s),
        v_chain := stamp_commit p (v_now s + 4) chain'\<rparr>"
  shows "lawful (Some (pib_id p)) s s'"
proof (rule lawful_end [OF vinv p(1)])
  note S = step_commit [OF assms]
  show "vinv s'" using S by simp
  show "seen_by (t_pib q) s' = seen_by (t_pib q) s" if "q \<in> set (v_pibs s)" "pib_id q \<noteq> pib_id p" for q
    using S observer_other [OF vinv p that] vinvD(6) [OF vinv that(1)] by blast
  show "committed_row s' = published p s"
    using commit_published [OF vinv p(1), of s' "v_now s + 4"] commit_chain(2) [OF vinvD(5) [OF vinv] p(1) c] by (simp add: s')
qed (simp add: s')

lemma lawful_finish:
  fixes s s' :: "'r VSTATE"
  assumes vinv: "vinv s" and p: "p \<in> set (v_pibs s)" "\<forall>r \<in> set (v_chain s). \<not> mine p r"
    and s': "s' = s\<lparr>v_pibs := filter (\<lambda>q. pib_id q \<noteq> pib_id p) (v_pibs s)\<rparr>"
  shows "lawful (Some (pib_id p)) s s'"
proof (rule lawful_end [OF vinv p(1)])
  note S = step_finish [OF assms]
  show "vinv s'" "seen_by (t_pib q) s' = seen_by (t_pib q) s" for q using S by simp_all
  have "own (pib_id p) (v_chain s) = []" using p(2) mine_own(1) [OF vinv p(1)] by (auto simp: own_def filter_empty_conv)
  then show "committed_row s' = published p s" by (simp add: published_def committed_row_def s' option.map_ident)
qed (simp add: s')

lemma vstep_lawful:
  assumes "vstep env who s s'" "vinv s"
  shows "lawful who s s'"
  using assms
proof cases
  case (begin_trx p newest p')
  show ?thesis using lawful_begin [OF assms(2) begin_trx(7,3,5,6,8,2)] begin_trx(1) by simp
next
  case (lock p opr vd chain')
  have "made opr Idle = Idle" using lock(5) by auto
  then have "s' = s\<lparr>v_chain := chain', v_pc := (v_pc s)(pib_id p := made opr Idle)\<rparr>" using lock(2,4) by (simp add: fun_upd_idem)
  from step_create [OF assms(2) lock(3) _ lock(4) this] show ?thesis
    using lock by (intro lawful_clean [OF assms(2)]) auto
next
  case (replace p vd chain' fUpd row)
  show ?thesis unfolding replace(1)
    using step_replace [OF assms(2) replace(3,4,5,2)] creates_writer [OF replace(3)] replace(2) by (intro lawful_steps [OF assms(2)]) auto
next
  case (make_delta p opr off chain' fUpd)
  have "s' = s\<lparr>v_chain := chain', v_pc := (v_pc s)(pib_id p := made opr Idle)\<rparr>" using make_delta(2,4) by (auto simp: is_delta_def)
  from step_create [OF assms(2) make_delta(3) _ make_delta(5) this] show ?thesis
    using make_delta by (intro lawful_clean [OF assms(2)]) auto
next
  case (do_delta p us r vs d)
  show ?thesis unfolding do_delta(1)
    using step_do_delta [OF assms(2) do_delta(3,4,5,2)] newest_writer [OF assms(2) do_delta(3)] do_delta(2) by (intro lawful_steps [OF assms(2)]) auto
next
  case (make_delete p vd chain' fUpd)
  have "s' = s\<lparr>v_chain := chain', v_pc := (v_pc s)(pib_id p := made operFlagDelete Idle)\<rparr>" using make_delete(2) by simp
  from step_create [OF assms(2) make_delete(3) _ make_delete(4) this, of env fUpd] show ?thesis
    using make_delete by (intro lawful_clean [OF assms(2)]) auto
next
  case (do_delete p us r vs)
  show ?thesis unfolding do_delete(1)
    using step_do_delete [OF assms(2) do_delete(3,4,2)] newest_writer [OF assms(2) do_delete(3)] do_delete(2) by (intro lawful_steps [OF assms(2)]) auto
next
  case (make_insert p vd chain')
  have "s' = s\<lparr>v_chain := chain', v_pc := (v_pc s)(pib_id p := made operPreInsert Idle)\<rparr>" using make_insert(2) by simp
  from step_create [OF assms(2) make_insert(3) _ make_insert(4) this] show ?thesis
    using make_insert by (intro lawful_clean [OF assms(2)]) auto
next
  case (insert_new p us r vs row)
  have "vinv s' \<and> (\<forall>b \<in> observers s. b \<noteq> t_pib p \<longrightarrow> seen_by b s' = seen_by b s) \<and> seen_by (t_pib p) s' = Some row"
    using step_insert [OF assms(2) insert_new(3,4) _ _ _ _ insert_new(2)] insert_new(5)
    by (auto simp: present_def nd_kdf_def FNDVersion_def FNDDeleted_def flag_bits bit_flags)
  then show ?thesis unfolding insert_new(1)
    using newest_writer [OF assms(2) insert_new(3)] insert_new(2) by (intro lawful_steps [OF assms(2)]) auto
next
  case (flag_insert p us r vs)
  have "vinv s' \<and> (\<forall>b \<in> observers s. b \<noteq> t_pib p \<longrightarrow> seen_by b s' = seen_by b s)"
    using step_insert [OF assms(2) flag_insert(3,4) _ _ _ _ flag_insert(2)] flag_insert(5,6) by (auto simp: present_def)
  then show ?thesis unfolding flag_insert(1)
    using newest_writer [OF assms(2) flag_insert(3)] flag_insert(2) by (intro lawful_steps [OF assms(2)]) auto
next
  case (make_insert_replace p vd chain')
  show ?thesis
    using step_make_insert_replace [OF assms(2) make_insert_replace(3-6,2)] make_insert_replace(2) by (intro lawful_clean [OF assms(2)]) auto
next
  case (flag_insert_and_replace p us r w vs row)
  show ?thesis unfolding flag_insert_and_replace(1)
    using step_insert_replace [OF assms(2) flag_insert_and_replace(3,4,2)] newest_writer [OF assms(2) flag_insert_and_replace(3)] flag_insert_and_replace(2)
    by (intro lawful_steps [OF assms(2)]) auto
next
  case (failed p us r vs)
  show ?thesis unfolding failed(1)
    using step_failed [OF assms(2) failed(3,4,2)] newest_writer [OF assms(2) failed(3)] failed(2) by (intro lawful_steps [OF assms(2)]) auto
next
  case (undo p us r vs)
  show ?thesis unfolding undo(1)
    using step_undo [OF assms(2) undo(3,4,2)] newest_writer [OF assms(2) undo(3)] undo(2) by (intro lawful_steps [OF assms(2)]) auto
next
  case (commit p hint newest c p' chain')
  show ?thesis unfolding commit(1) by (rule lawful_commit [OF assms(2) commit(6,3,4,5,7,8,2)])
next
  case (finish p)
  show ?thesis unfolding finish(1) by (rule lawful_finish [OF assms(2) finish(3,5,2)])
next
  case (clean k)
  show ?thesis
    using remove_settled [OF assms(2) ErrPrepareToDeallocate_pruned [OF vinvD(5) [OF assms(2)] clean(3,5)] clean(2)] clean(2)
    by (intro lawful_clean [OF assms(2)]) auto
next
  case (nullify cached)
  show ?thesis
    using remove_settled [OF assms(2) VERNullifyInactiveVersionsOnBM_pruned [OF vinvD(5) [OF assms(2)]] nullify(2)] nullify(2)
    by (intro lawful_clean [OF assms(2)]) auto
next
  case expunge
  show ?thesis using step_expunge [OF assms(2) expunge(3,4,2)] expunge(2) by (intro lawful_clean [OF assms(2)]) auto
next
  case reset_bit
  show ?thesis using step_reset_bit [OF assms(2) reset_bit(3,2)] reset_bit(2) by (intro lawful_clean [OF assms(2)]) auto
qed

lemma reach_vinv: "reach env s \<Longrightarrow> vinv s"
proof (induction rule: reach.induct)
  case (start s)
  then show ?case
    by (auto simp: vinv_def order_ok_def time_ok_def pibs_ok_def times_def coherent_def ordered_def obs_ok_def absent_ok_def no_pre_def)
qed (use vstep_lawful lawful_def in blast)

end
