(* ===== verification/Ver_Snapshot.thy ===== *)
theory Ver_Snapshot
  imports Ver_Laws
begin

text \<open>
  What the version store promises to the transactions, for every reachable state and every step: each reads the state that was committed when it began, with its
  own changes; none overwrites what it has not seen; a commit publishes what the session saw.
\<close>

subsection \<open>A run\<close>

text \<open>Two sessions; the first replaces the data and commits while the second is reading.\<close>

definition run_env :: VERENV where
  "run_env = \<lparr>chains = (\<lambda>k. []), fRecovering = False, fWARLatch = True, fPageRecentlyDirtied = True, fFUCBUnique = True, fFUCBSpace = False, ppibSession = 1\<rparr>"

definition run_pib :: "nat \<Rightarrow> nat \<Rightarrow> GPIB" where
  "run_pib i t = \<lparr>pib_id = i, trxBegin0 = of_nat t, trxCommit0 = trxMax, pib_level = 1, fReadOnlyTrx = False, pib_updateid = 0, rgfucb = [], t_pib = t\<rparr>"

definition run_rce :: "string ROW GVERSION" where
  "run_rce = \<lparr>m_oper = operReplace, m_ppib = 1, m_trxBegin0 = 4, m_trxCommitted = trxMax, m_level = 1, m_fRolledBack = False,
     m_fProxy = False, m_rceid = 4, m_updateid = 0, m_before = (''old'', \<lambda>k. 0), m_cbOffset = 0, m_tDelta = 0, t_begin = 4, t_commit = None\<rparr>"

definition state_at :: "nat \<Rightarrow> string VSTATE" where
  "state_at n =
     (let n0 = \<lparr>nd_there = True, nd_row = (''old'', \<lambda>k. 0), nd_fFlags = 0\<rparr>; n1 = \<lparr>nd_there = True, nd_row = (''new'', \<lambda>k. 0), nd_fFlags = fNDVersion\<rparr>;
          idle = (\<lambda>i. Idle)
      in if n = 0 then \<lparr>v_newest = 0, v_now = 0, v_pibs = [], v_pc = idle, v_node = n0, v_chain = []\<rparr>
         else if n = 1 then \<lparr>v_newest = 4, v_now = 4, v_pibs = [run_pib 1 4], v_pc = idle, v_node = n0, v_chain = []\<rparr>
         else if n = 2 then \<lparr>v_newest = 8, v_now = 8, v_pibs = [run_pib 1 4, run_pib 2 8], v_pc = idle, v_node = n0, v_chain = []\<rparr>
         else if n = 3 then \<lparr>v_newest = 8, v_now = 8, v_pibs = [run_pib 1 4, run_pib 2 8], v_pc = idle, v_node = n1, v_chain = [run_rce]\<rparr>
         else \<lparr>v_newest = 12, v_now = 12, v_pibs = [run_pib 2 8], v_pc = idle, v_node = n1,
                v_chain = [run_rce\<lparr>m_level := 0, m_trxCommitted := 12, t_commit := Some 12\<rparr>]\<rparr>)"

lemmas run_simps = state_at_def run_pib_def run_rce_def PIBSetTrxBegin0_def TRXID_INCR_def room_def times_def TrxCommit0_def stamp_commit_def

lemma run_begin:
  "vstep run_env (Some 1) (state_at 0) (state_at 1)" "vstep run_env (Some 2) (state_at 1) (state_at 2)"
proof -
  have b: "vstep run_env (Some i) s s'"
    if "s' = s\<lparr>v_newest := v_newest s + 4, v_now := v_now s + 4, v_pibs := v_pibs s @ [run_pib i (v_now s + 4)]\<rparr>"
      "v_newest s = of_nat (v_now s)" "i \<notin> pib_id ` set (v_pibs s)" "v_pc s i = Idle" "room s" for i s s'
    using vstep.begin_trx [of "run_pib i 0" s "v_newest s + 4" "(run_pib i (v_now s + 4))\<lparr>t_pib := 0\<rparr>" run_env] that
    by (simp add: run_simps)
  show "vstep run_env (Some 1) (state_at 0) (state_at 1)" "vstep run_env (Some 2) (state_at 1) (state_at 2)"
    by (rule b; simp add: run_simps)+
qed

lemma run_creates: "creates (run_pib 1 4) operReplace (0, 0) (state_at 2) [run_rce]"
  unfolding creates_def
  by (intro conjI exI [of _ 4] exI [of _ run_rce])
    (simp_all add: run_simps ErrVERModify_def modenv_def FVERIWriteConflict_def InsertRCEIntoChain_def SetupInsertedDMLRCE_def
      new_RCE_def FUndoableLoggedOper_def rceidNull_def Let_def)

lemma run_replace: "vstep run_env (Some 1) (state_at 2) (state_at 3)"
proof -
  note run_creates
  moreover have "ReadNode run_env (run_pib 1 4) False True (v_node (state_at 2)) (v_chain (state_at 2)) \<noteq> None"
    by (simp add: Let_def run_simps ReadNode_def ErrVERAccessNode_def ErrNDVisibleToCursor_def nd_kdf_def FNDDeleted_def FNDPossiblyVersioned_def FNDVersion_def)
  moreover have "state_at 3 = (state_at 2)\<lparr>v_chain := [run_rce], v_node := set_flags fNDVersion 0 ((v_node (state_at 2))\<lparr>nd_row := (''new'', \<lambda>k. 0)\<rparr>)\<rparr>"
    by (simp add: run_simps set_flags_def)
  ultimately have "vstep run_env (Some (pib_id (run_pib 1 4))) (state_at 2) (state_at 3)"
    using vstep.replace [of "run_pib 1 4" "(0, 0)" "state_at 2" "[run_rce]" run_env False "(''new'', \<lambda>k. 0)"] by (simp add: run_simps)
  then show ?thesis by (simp add: run_pib_def)
qed

lemma run_commit: "vstep run_env (Some 1) (state_at 3) (state_at 4)"
proof -
  have "VERCommitTransaction False ((run_pib 1 4)\<lparr>trxCommit0 := 12\<rparr>) (v_chain (state_at 3)) =
      ((run_pib 1 4)\<lparr>trxCommit0 := 12, pib_level := 0\<rparr>, [run_rce\<lparr>m_level := 0, m_trxCommitted := 12\<rparr>])"
    by (simp add: run_simps VERCommitTransaction_def VERICommitTransactionToLevel0_def VERICommitOneRCEToLevel0_def mine_def)
  from vstep.commit [OF _ _ _ _ _ this, where hint = 0 and newest = 12 and env = run_env]
  have "vstep run_env (Some (pib_id (run_pib 1 4))) (state_at 3)
      ((state_at 3)\<lparr>v_newest := 12, v_now := v_now (state_at 3) + 4, v_pibs := filter (\<lambda>q. pib_id q \<noteq> pib_id (run_pib 1 4)) (v_pibs (state_at 3)),
        v_chain := stamp_commit (run_pib 1 4) (v_now (state_at 3) + 4) [run_rce\<lparr>m_level := 0, m_trxCommitted := 12\<rparr>]\<rparr>)"
    by (simp add: run_simps)
  then show ?thesis by (simp add: run_simps)
qed

lemma run_start: "reach run_env (state_at 0)"
  by (rule reach.start) (simp_all add: run_simps)

lemma run_reach: "reach run_env (state_at 2)" "reach run_env (state_at 3)" "reach run_env (state_at 4)"
proof -
  show "reach run_env (state_at 2)" using run_start by (meson reach.step run_begin)
  then show "reach run_env (state_at 3)" by (meson reach.step run_replace)
  then show "reach run_env (state_at 4)" by (meson reach.step run_commit)
qed

subsection \<open>Reading\<close>

text \<open>
  C5: In every reachable state a session reads the node as it is without the changes the session does not see: those of other sessions that
  are not committed or were committed after it began.  \<open>ErrVERAccessNode\<close> and \<open>DeltaVERGetDelta\<close>, which look at before images
  and compensate numbers, give what undoing the versions one by one would.
\<close>
theorem snapshot_read:
  assumes "reach env s" "p \<in> set (v_pibs s)" "fPageRecentlyDirtied env"
  shows "ReadNode env p fUpd fAlloc (v_node s) (v_chain s) = map_option as_columns (view (t_pib p) (v_chain s) (present (v_node s), nd_row (v_node s)))"
  using ReadNode_session [OF reach_vinv [OF assms(1)] assms(2,3)] by (simp add: seen_by_def)

lemma snapshot_read_witness:
  "map_option fst (ReadNode run_env (run_pib 2 8) False True (v_node (state_at 3)) (v_chain (state_at 3))) = Some ''old'' \<and>
   map_option fst (ReadNode run_env (run_pib 1 4) False True (v_node (state_at 3)) (v_chain (state_at 3))) = Some ''new''"
  using snapshot_read [OF run_reach(2), of "run_pib 2 8"] snapshot_read [OF run_reach(2), of "run_pib 1 4"]
  by (simp add: run_simps run_env_def view_def seen_def undo1_def present_def nd_kdf_def FNDDeleted_def fNDVersion_def fNDDeleted_def as_columns_def)



subsection \<open>The committed state\<close>

text \<open>
  C7: The committed state (the node without uncommitted versions) is what a new session reads, and it changes only when a session ends: then it is what
  that session saw, or, if the session has only locked the node or changed escrow columns, its deltas are added.
\<close>
theorem committed_state:
  assumes "reach env s" "vstep env who s s'"
  shows "committed_row s' =
      (case filter (\<lambda>p. p \<notin> set (v_pibs s')) (v_pibs s) of [] \<Rightarrow> committed_row s | p # _ \<Rightarrow> published p s) \<and>
    list_all (\<lambda>q. q \<in> set (v_pibs s) \<or>
      ReadNode (env\<lparr>fPageRecentlyDirtied := True\<rparr>) q fUpd fAlloc (v_node s') (v_chain s') = map_option as_columns (committed_row s)) (v_pibs s')"
proof -
  have inv: "vinv s" by (rule reach_vinv [OF assms(1)])
  have L: "lawful who s s'" by (rule vstep_lawful [OF assms(2) inv])
  have u: "p = q" if "p \<in> set (v_pibs s)" "p \<notin> set (v_pibs s')" "q \<in> set (v_pibs s)" "q \<notin> set (v_pibs s')" for p q
  proof -
    have "who = Some (pib_id p)" "who = Some (pib_id q)" using L that by (auto simp: lawful_def)
    then show ?thesis using that(1,3) time_okD(3) [OF vinvD(5) [OF inv]] by (auto simp: pibs_ok_def distinct_map inj_on_def)
  qed
  have "committed_row s' = (case filter (\<lambda>p. p \<notin> set (v_pibs s')) (v_pibs s) of [] \<Rightarrow> committed_row s | p # _ \<Rightarrow> published p s)"
  proof (cases "filter (\<lambda>p. p \<notin> set (v_pibs s')) (v_pibs s)")
    case Nil
    then have "\<forall>p \<in> set (v_pibs s). p \<in> set (v_pibs s')" by (auto simp: filter_empty_conv)
    then show ?thesis using L Nil by (auto simp: lawful_def)
  next
    case (Cons p ps)
    then have "p \<in> set (filter (\<lambda>p. p \<notin> set (v_pibs s')) (v_pibs s))" by simp
    then have p: "p \<in> set (v_pibs s)" "p \<notin> set (v_pibs s')" by simp_all
    then have "\<exists>q \<in> set (v_pibs s). q \<notin> set (v_pibs s')" by blast
    then obtain q where "q \<in> set (v_pibs s)" "q \<notin> set (v_pibs s')" "committed_row s' = published q s" using L unfolding lawful_def by auto
    then show ?thesis using u [OF p, of q] Cons by simp
  qed
  moreover have "ReadNode (env\<lparr>fPageRecentlyDirtied := True\<rparr>) q fUpd fAlloc (v_node s') (v_chain s') = map_option as_columns (committed_row s)"
    if "q \<in> set (v_pibs s')" "q \<notin> set (v_pibs s)" for q
    using ReadNode_session [of s' q "env\<lparr>fPageRecentlyDirtied := True\<rparr>"] L that by (auto simp: lawful_def)
  ultimately show ?thesis by (auto simp: list_all_iff)
qed

lemma committed_state_witness:
  "committed_row (state_at 3) = Some (''old'', \<lambda>k. 0) \<and> committed_row (state_at 4) = Some (''new'', \<lambda>k. 0)"
proof -
  have "committed_row (state_at 3) = Some (''old'', \<lambda>k. 0)"
    by (simp add: committed_row_def uncommitted_def run_simps undo1_def present_def nd_kdf_def FNDDeleted_def fNDVersion_def fNDDeleted_def)
  moreover have "published (run_pib 1 4) (state_at 3) = Some (''new'', \<lambda>k. 0)"
    by (simp add: published_def seen_by_def view_def run_simps commutes_def seen_def present_def nd_kdf_def FNDDeleted_def fNDVersion_def fNDDeleted_def)
  moreover have "filter (\<lambda>p. p \<notin> set (v_pibs (state_at 4))) (v_pibs (state_at 3)) = [run_pib 1 4]" by (simp add: run_simps)
  ultimately show ?thesis using committed_state [OF run_reach(2) run_commit] by simp
qed

subsection \<open>Write conflicts\<close>

lemma conflict_unseen:
  assumes "\<forall>r \<in> set chain. met p r" "FVERIWriteConflict p opr chain"
  shows "\<exists>r \<in> set chain. \<not> seen (t_pib p) r"
proof -
  have o: "\<exists>r \<in> set vs. \<not> seen (t_pib p) r" if "OnlyMineLoop p vs" "set vs \<subseteq> set chain" for vs
    using that assms(1) by (induction vs) (auto simp: TrxVERISession_def met_cmp(3) split: if_splits)
  obtain h vs where h: "chain = h # vs" using assms(2) by (cases chain) (auto simp: FVERIWriteConflict_def)
  then have "FActiveNotByMe h (pib_id p) (trxBegin0 p) = (\<not> seen (t_pib p) h)" using met_cmp(3) [of p h] assms(1) by simp
  then show ?thesis using assms(2) o [of chain] h by (auto simp: FVERIWriteConflict_def TrxVERISession_def split: if_splits)
qed

text \<open>
  C8: In every reachable state \<open>ErrVERModify\<close> refuses a version that does not commute (a replace, an insert, a delete, a write lock) exactly if there is a
  version of the node the session does not see; a delta or a read lock it grants only if all those commute as well.  The
  code looks at the first version, or at those down to the first that is committed, only.
\<close>
theorem write_conflict_exact:
  assumes "reach env s" "p \<in> set (v_pibs s)" "mod_errCreateRCE menv = JET_errSuccess" "\<not> mod_fRecovering menv"
  shows "case ErrVERModify menv p opr data vd proxyNone (v_chain s) of
    (err, chain') \<Rightarrow>
      (err = JET_errWriteConflict \<and> chain' = v_chain s \<and> (\<exists>r \<in> set (v_chain s). \<not> seen (t_pib p) r)) \<or>
      (err = JET_errSuccess \<and> tl chain' = v_chain s \<and> mine p (hd chain') \<and> m_oper (hd chain') = opr \<and>
       (if commutes (hd chain') then list_all (\<lambda>r. seen (t_pib p) r \<or> commutes r) (v_chain s)
        else list_all (seen (t_pib p)) (v_chain s)))"
proof (cases "FVERIWriteConflict p opr (v_chain s)")
  case True
  note O = order_okD [OF vinvD(1) [OF reach_vinv [OF assms(1)]]]
  show ?thesis using True conflict_unseen [OF _ True] O(4) [OF assms(2)] assms(3,4) by (simp add: ErrVERModify_def Let_def)
next
  case False
  note O = order_okD [OF vinvD(1) [OF reach_vinv [OF assms(1)]]]
  define r where "r = SetupInsertedDMLRCE data vd (new_RCE (pib_id p) (trxBegin0 p) (pib_level p) opr False (mod_rceid menv)
      (if FUndoableLoggedOper opr \<or> operPreInsert = opr then pib_updateid p else updateidNil) (mod_prce menv))"
  have E: "ErrVERModify menv p opr data vd proxyNone (v_chain s) = (JET_errSuccess, r # v_chain s)"
    using False assms(3,4) by (simp add: ErrVERModify_def Let_def InsertRCEIntoChain_def r_def)
  have r: "m_oper r = opr" "mine p r" by (cases opr; simp add: r_def SetupInsertedDMLRCE_def new_RCE_def mine_def)+
  have "w \<in> set (v_chain s) \<Longrightarrow> seen (t_pib p) w \<or> commutes r \<and> commutes w" for w
    using no_conflict [OF _ O(2,3) False, of w] O(4) [OF assms(2)] r(1) by (auto simp: commutes_def)
  then show ?thesis using E r by (auto simp: list_all_iff)
qed

lemma write_conflict_exact_witness:
  "fst (ErrVERModify (modenv 8 run_rce) (run_pib 2 8) operReplace (''new'', \<lambda>k. 0) (0, 0) proxyNone (v_chain (state_at 3))) = JET_errWriteConflict"
proof -
  have "run_pib 2 8 \<in> set (v_pibs (state_at 3))" "mod_errCreateRCE (modenv 8 run_rce) = JET_errSuccess" "\<not> mod_fRecovering (modenv 8 run_rce)"
    by (simp_all add: run_simps modenv_def)
  note W = write_conflict_exact [OF run_reach(2) this, of operReplace "(''new'', \<lambda>k. 0)" "(0, 0)"]
  have "\<not> seen (t_pib (run_pib 2 8)) run_rce" "v_chain (state_at 3) = [run_rce]" by (simp_all add: run_simps seen_def)
  then show ?thesis using W by (auto simp: commutes_def split: prod.splits if_splits)
qed

text \<open>
  No update is lost: when a session that sees the node gets to replace or to delete it, the data it then replaces are those it has read.
\<close>
theorem no_lost_update:
  assumes "reach env s" "creates p opr vd s chain'" "opr \<in> {operReplace, operFlagDelete, operWriteLock}" "fPageRecentlyDirtied env"
  shows "ReadNode env p fUpd fAlloc (v_node s) (v_chain s) = (if present (v_node s) then Some (as_columns (nd_row (v_node s))) else None)"
proof -
  have p: "p \<in> set (v_pibs s)" using assms(2) by (simp add: creates_def)
  obtain r where "\<not> FVERIWriteConflict p opr (v_chain s)" using createsD [OF assms(2)] by metis
  then have "unseen (t_pib p) (v_chain s) = []"
    using create_unseen(2) [OF reach_vinv [OF assms(1)] p] assms(3) by (auto simp: is_delta_def)
  then show ?thesis using ReadNode_session [OF reach_vinv [OF assms(1)] p assms(4)] by (simp add: seen_by_def view_def)
qed

lemma no_lost_update_witness:
  "map_option fst (ReadNode run_env (run_pib 1 4) False True (v_node (state_at 2)) (v_chain (state_at 2))) = Some ''old''"
  using no_lost_update [OF run_reach(1) run_creates, of False True]
  by (simp add: run_simps run_env_def present_def nd_kdf_def FNDDeleted_def as_columns_def)


end
