(* ===== verification/Ver_History.thy ===== *)
theory Ver_History
  imports Ver_Snapshot
begin

text \<open>
  What the laws of single steps mean for whole histories.  The interface is a locale: sessions that read, a committed state, and steps that change what
  others read in no way.  The version store provides it.
\<close>

inductive path :: "('w \<Rightarrow> 's \<Rightarrow> 's \<Rightarrow> bool) \<Rightarrow> 'w list \<Rightarrow> 's \<Rightarrow> 's \<Rightarrow> bool" for step where
  path_Nil: "path step [] s s"
| path_Cons: "\<lbrakk> step w s s'; path step ws s' s'' \<rbrakk> \<Longrightarrow> path step (w # ws) s s''"

inductive_simps path_Nil_iff [simp]: "path step [] s s'"
inductive_cases path_ConsE [elim!]: "path step (w # ws) s s'"

lemma path_append: "path step us s t \<Longrightarrow> path step vs t u \<Longrightarrow> path step (us @ vs) s u"
  by (induction rule: path.induct) (auto intro: path_Cons)

locale snapshots =
  fixes step :: "nat option \<Rightarrow> 's \<Rightarrow> 's \<Rightarrow> bool" and valid :: "'s \<Rightarrow> bool"
    and here :: "'p \<Rightarrow> 's \<Rightarrow> bool" and ident :: "'p \<Rightarrow> nat" and reads :: "'p \<Rightarrow> 's \<Rightarrow> 'v" and committed :: "'s \<Rightarrow> 'v"
  assumes valid_step: "valid s \<Longrightarrow> step who s s' \<Longrightarrow> valid s'"
    and repeatable: "valid s \<Longrightarrow> step who s s' \<Longrightarrow> here p s \<Longrightarrow> who \<noteq> Some (ident p) \<Longrightarrow> here p s' \<and> reads p s' = reads p s"
    and snapshot: "valid s \<Longrightarrow> step who s s' \<Longrightarrow> here p s' \<Longrightarrow> \<not> here p s \<Longrightarrow> reads p s' = committed s"
begin

lemma valid_path: "path step ws s s' \<Longrightarrow> valid s \<Longrightarrow> valid s'"
  by (induction rule: path.induct) (auto intro: valid_step)

lemma undisturbed:
  "path step ws s s' \<Longrightarrow> valid s \<Longrightarrow> here p s \<Longrightarrow> Some (ident p) \<notin> set ws \<Longrightarrow> here p s' \<and> reads p s' = reads p s"
proof (induction rule: path.induct)
  case (path_Cons w s s' ws s'')
  then show ?case using repeatable [of s w s' p] valid_step [of s w s'] by auto
qed simp

lemma reads_snapshot:
  assumes "valid s" "step who s s'" "here p s'" "\<not> here p s" "path step ws s' s''" "Some (ident p) \<notin> set ws"
  shows "here p s'' \<and> reads p s'' = committed s"
  using undisturbed [OF assms(5) valid_step [OF assms(1,2)] assms(3,6)] snapshot [OF assms(1-4)] by simp

end

interpretation vs: snapshots "vstep env" "reach env" "\<lambda>p s. p \<in> set (v_pibs s)" pib_id "\<lambda>p s. seen_by (t_pib p) s" committed_row for env
proof
  fix s s' :: "'r VSTATE" and who and p :: GPIB
  assume r: "reach env s" and v: "vstep env who s s'"
  have L: "lawful who s s'" by (rule vstep_lawful [OF v reach_vinv [OF r]])
  show "reach env s'" by (rule reach.step [OF r v])
  show "p \<in> set (v_pibs s') \<and> seen_by (t_pib p) s' = seen_by (t_pib p) s" if "p \<in> set (v_pibs s)" "who \<noteq> Some (pib_id p)"
    using L that by (auto simp: lawful_def)
  show "seen_by (t_pib p) s' = committed_row s" if "p \<in> set (v_pibs s')" "p \<notin> set (v_pibs s)"
    using L that by (auto simp: lawful_def)
qed



end
