(* ===== verification/Key_Build.thy ===== *)
theory Key_Build
  imports Node_Key
begin

text \<open>
  The keys of an index (\<open>src/ese/fldnorm.cxx\<close>).  Every column of an index is normalised to a segment of bytes, so that \<open>memcmp\<close> of two
  keys compares the columns one after the other.  This theory has the normalisation of the columns of all types, the
  loop that makes the key of a record, the search key a client makes column by column, with its limits, and the way
  back from a key to a column.

  A segment is the list of the bytes written to \<open>rgbSeg\<close>, its length what comes back in \<open>pcbSeg\<close>.  A read behind the end of the column or
  of the key is \<open>None\<close>.  The machine is little-endian, so that data in machine format (\<open>fDataPassedFromUser\<close>) are the bytes of the record.
  The sort keys of Unicode text come from the operating system (\<open>ErrNORMMapString\<close>), the columns of a record from the record layer; both are arguments.
\<close>

subsection \<open>Types\<close>

datatype JET_COLTYP =
    JET_coltypBit | JET_coltypUnsignedByte | JET_coltypShort | JET_coltypLong | JET_coltypCurrency | JET_coltypIEEESingle
  | JET_coltypIEEEDouble | JET_coltypDateTime | JET_coltypBinary | JET_coltypText | JET_coltypLongBinary | JET_coltypLongText
  | JET_coltypUnsignedLong | JET_coltypLongLong | JET_coltypGUID | JET_coltypUnsignedShort | JET_coltypUnsignedLongLong

datatype KEYERR =
    errSuccess | wrnColumnNull | wrnFLDKeyTooBig | wrnFLDOutOfKeys | wrnFLDOutOfTuples | wrnFLDNullKey | wrnFLDNullFirstSeg | wrnFLDNullSeg
  | errKeyTruncated | errIndexTuplesKeyTooSmall | errInvalidBufferSize | errInvalidGrbit | errInvalidParameter | errKeyIsMade | errKeyNotMade
  | errInvalidLanguageId | errOutOfMemory | errUnicodeNormalizationNotSupported

definition failure :: "KEYERR \<Rightarrow> bool" where
  "failure err \<longleftrightarrow> err \<in> {errKeyTruncated, errIndexTuplesKeyTooSmall, errInvalidBufferSize, errInvalidGrbit, errInvalidParameter, errKeyIsMade,
     errKeyNotMade, errInvalidLanguageId, errOutOfMemory, errUnicodeNormalizationNotSupported}"

definition FRECTextColumn :: "JET_COLTYP \<Rightarrow> bool" where
  "FRECTextColumn coltyp \<longleftrightarrow> coltyp = JET_coltypText \<or> coltyp = JET_coltypLongText"

definition FRECBinaryColumn :: "JET_COLTYP \<Rightarrow> bool" where
  "FRECBinaryColumn coltyp \<longleftrightarrow> coltyp = JET_coltypBinary \<or> coltyp = JET_coltypLongBinary"

text \<open>The column id tells whether the column is fixed, variable or tagged.\<close>

datatype COLKIND = colFixed | colVar | colTagged

record IDXSEG =
  Columnid :: nat
  colkind :: COLKIND
  FDescending :: bool

record FIELD =
  f_coltyp :: JET_COLTYP
  f_fUnicode :: bool
  f_cbMaxLen :: nat

record IDB =
  CbKeyMost :: nat
  CbVarSegMac :: nat
  FSortNullsHigh :: bool
  FDotNetGuid :: bool
  FDisallowTruncation :: bool
  FTuples :: bool
  FNestedTable :: bool
  FHasPlaceholderColumn :: bool
  CchTuplesLengthMin :: nat
  CchTuplesLengthMax :: nat
  rgidxseg :: "(IDXSEG \<times> FIELD) list"

definition bPrefixNull :: u8 where "bPrefixNull = 0x00"
definition bPrefixZeroLength :: u8 where "bPrefixZeroLength = 0x40"
definition bPrefixNullHigh :: u8 where "bPrefixNullHigh = 0xc0"
definition bPrefixData :: u8 where "bPrefixData = 0x7f"
definition bSentinel :: u8 where "bSentinel = 0xff"
definition bUnicodeSortKeySentinel :: u8 where "bUnicodeSortKeySentinel = 0x01"
definition bUnicodeSortKeyTerminator :: u8 where "bUnicodeSortKeyTerminator = 0x00"
definition bASCIISortKeyTerminator :: u8 where "bASCIISortKeyTerminator = 0x00"
definition cbFLDBinaryChunk :: nat where "cbFLDBinaryChunk = 8"
definition cbFLDBinaryChunkNormalized :: nat where "cbFLDBinaryChunkNormalized = 9"
definition JET_cbKeyMost_OLD :: nat where "JET_cbKeyMost_OLD = 255"

text \<open>Unsigned words in memory, in either order of the bytes.\<close>

primrec le_number :: "bytes \<Rightarrow> int" where
  "le_number [] = 0"
| "le_number (b # bs) = uint b + 256 * le_number bs"

definition Unaligned :: "bytes \<Rightarrow> 'a::len word" where
  "Unaligned pb = word_of_int (le_number (take (LENGTH('a) div 8) pb))"

primrec le_memory :: "nat \<Rightarrow> int \<Rightarrow> bytes" where
  "le_memory 0 x = []"
| "le_memory (Suc n) x = word_of_int x # le_memory n (x div 256)"

definition StoreUnaligned :: "'a::len word \<Rightarrow> bytes" where
  "StoreUnaligned w = le_memory (LENGTH('a) div 8) (uint w)"

definition StoreBigEndian :: "'a::len word \<Rightarrow> bytes" where
  "StoreBigEndian w = rev (le_memory (LENGTH('a) div 8) (uint w))"

definition UnalignedBigEndian :: "bytes \<Rightarrow> 'a::len word" where
  "UnalignedBigEndian pb = word_of_int (le_number (rev (take (LENGTH('a) div 8) pb)))"

definition maskHighBit :: "'a::len word" where
  "maskHighBit = push_bit (LENGTH('a) - 1) 1"

definition FlipHighBit :: "'a::len word \<Rightarrow> 'a word" where
  "FlipHighBit w = w XOR maskHighBit"

subsection \<open>Columns of a fixed type\<close>

text \<open>A signed or unsigned integer, and a floating-point number.\<close>

definition NormalizeSigned :: "'a::len itself \<Rightarrow> bytes \<Rightarrow> bytes option" where
  "NormalizeSigned _ pbField =
     (if length pbField < LENGTH('a) div 8 then None
      else Some (bPrefixData # StoreBigEndian (FlipHighBit (Unaligned pbField :: 'a word))))"

definition NormalizeUnsigned :: "'a::len itself \<Rightarrow> bytes \<Rightarrow> bytes option" where
  "NormalizeUnsigned _ pbField =
     (if length pbField < LENGTH('a) div 8 then None
      else Some (bPrefixData # StoreBigEndian (Unaligned pbField :: 'a word)))"

definition NormalizeFloat :: "'a::len itself \<Rightarrow> bytes \<Rightarrow> bytes option" where
  "NormalizeFloat _ pbField =
     (if length pbField < LENGTH('a) div 8 then None
      else
        let src = (Unaligned pbField :: 'a word)
        in Some (bPrefixData # StoreBigEndian (if src AND maskHighBit \<noteq> 0 then NOT src else FlipHighBit src)))"

definition rgDotNetGuidOrder :: "nat list" where
  "rgDotNetGuidOrder = [3, 2, 1, 0, 5, 4, 7, 6, 8, 9, 10, 11, 12, 13, 14, 15]"

definition rgGuidOrder :: "nat list" where
  "rgGuidOrder = [10, 11, 12, 13, 14, 15, 8, 9, 6, 7, 4, 5, 0, 1, 2, 3]"

definition FLDNormalizeFixedSegment :: "bytes \<Rightarrow> JET_COLTYP \<Rightarrow> bool \<Rightarrow> bool \<Rightarrow> bytes option" where
  "FLDNormalizeFixedSegment pbField coltyp fDotNetGuid fDataPassedFromUser =
     (case coltyp of
        JET_coltypBit \<Rightarrow> (case pbField of [] \<Rightarrow> None | b # _ \<Rightarrow> Some [bPrefixData, if b = 0 then 0x00 else 0xff])
      | JET_coltypUnsignedByte \<Rightarrow> (case pbField of [] \<Rightarrow> None | b # _ \<Rightarrow> Some [bPrefixData, b])
      | JET_coltypShort \<Rightarrow> NormalizeSigned TYPE(16) pbField
      | JET_coltypUnsignedShort \<Rightarrow> NormalizeUnsigned TYPE(16) pbField
      | JET_coltypLong \<Rightarrow> NormalizeSigned TYPE(32) pbField
      | JET_coltypUnsignedLong \<Rightarrow> NormalizeUnsigned TYPE(32) pbField
      | JET_coltypLongLong \<Rightarrow> NormalizeSigned TYPE(64) pbField
      | JET_coltypCurrency \<Rightarrow> NormalizeSigned TYPE(64) pbField
      | JET_coltypUnsignedLongLong \<Rightarrow> NormalizeUnsigned TYPE(64) pbField
      | JET_coltypIEEESingle \<Rightarrow> NormalizeFloat TYPE(32) pbField
      | JET_coltypIEEEDouble \<Rightarrow> NormalizeFloat TYPE(64) pbField
      | JET_coltypDateTime \<Rightarrow> NormalizeFloat TYPE(64) pbField
      | JET_coltypGUID \<Rightarrow>
          if length pbField < 16 then None
          else Some (bPrefixData # map (\<lambda>ib. pbField ! ib) (if fDotNetGuid then rgDotNetGuidOrder else rgGuidOrder))
      | _ \<Rightarrow> Some [])"

definition FLDNormalizeNullSegment :: "JET_COLTYP \<Rightarrow> bool \<Rightarrow> bool \<Rightarrow> bytes" where
  "FLDNormalizeNullSegment coltyp fZeroLength fSortNullsHigh =
     (let bPrefixNullT = (if fSortNullsHigh then bPrefixNullHigh else bPrefixNull)
      in if FRECTextColumn coltyp \<or> FRECBinaryColumn coltyp
         then [if fZeroLength then bPrefixZeroLength else bPrefixNullT]
         else [bPrefixNullT])"

subsection \<open>Binary columns\<close>

text \<open>
  The loop over the chunks: it returns the bytes that are left of the segment and of the column, the
  segment so far and the delimiter.  The column is not advanced behind its last chunk; the debug build sets
  the number of bytes left to 0 there.
\<close>

function ChunkLoop :: "bool \<Rightarrow> nat \<Rightarrow> bytes \<Rightarrow> bytes \<Rightarrow> nat \<Rightarrow> nat \<times> bytes \<times> bytes \<times> nat" where
  "ChunkLoop fNormalisedEntireColumn cbSegRemaining pbNextChunk pbSeg ibDelimiter =
     (if cbSegRemaining \<ge> cbFLDBinaryChunkNormalized then
        let cbFieldRemaining = length pbNextChunk
        in if cbFieldRemaining \<le> cbFLDBinaryChunk then
             let pbSeg = pbSeg @ pbNextChunk;
                 ibDelimiter = length pbSeg;
                 pbSeg = (if cbFieldRemaining = cbFLDBinaryChunk
                          then pbSeg @ [of_nat (if fNormalisedEntireColumn then cbFLDBinaryChunkNormalized - 1 else cbFLDBinaryChunkNormalized)]
                          else pbSeg @ replicate (cbFLDBinaryChunk - cbFieldRemaining) 0 @ [of_nat cbFieldRemaining])
             in ChunkLoop fNormalisedEntireColumn (cbSegRemaining - cbFLDBinaryChunkNormalized) pbNextChunk pbSeg ibDelimiter
           else
             ChunkLoop fNormalisedEntireColumn (cbSegRemaining - cbFLDBinaryChunkNormalized) (drop cbFLDBinaryChunk pbNextChunk)
               (pbSeg @ take cbFLDBinaryChunk pbNextChunk @ [of_nat cbFLDBinaryChunkNormalized]) ibDelimiter
      else (cbSegRemaining, pbNextChunk, pbSeg, ibDelimiter))"
  by pat_completeness auto

termination
  by (relation "measure (\<lambda>(_, cbSegRemaining, _). cbSegRemaining)") (auto simp: cbFLDBinaryChunkNormalized_def)

declare ChunkLoop.simps [simp del]

text \<open>The segment, whether the column was truncated, and the delimiter (0 if there is none).\<close>

definition FLDNormalizeBinarySegment :: "bytes \<Rightarrow> nat \<Rightarrow> nat \<Rightarrow> nat \<Rightarrow> bool \<Rightarrow> bytes \<times> bool \<times> nat" where
  "FLDNormalizeBinarySegment pbField cbKeyAvail cbKeyMost cbVarSegMac fFixedField =
     (if fFixedField then
        let cbSeg = length pbField + 1;
            cbSeg = (if cbVarSegMac < cbKeyMost \<and> cbSeg > cbVarSegMac then cbVarSegMac else cbSeg);
            fColumnTruncated = (cbSeg > cbKeyAvail);
            cbSeg = (if cbSeg > cbKeyAvail then cbKeyAvail else cbSeg)
        in (bPrefixData # take (cbSeg - 1) pbField, fColumnTruncated, 0)
      else
        let cChunks = (length pbField + (cbFLDBinaryChunk - 1)) div cbFLDBinaryChunk;
            cbSeg = cChunks * cbFLDBinaryChunkNormalized + 1;
            fNormalisedEntireColumn = \<not> (cbVarSegMac < cbKeyMost \<and> cbSeg > cbVarSegMac);
            cbSeg = (if cbVarSegMac < cbKeyMost \<and> cbSeg > cbVarSegMac then cbVarSegMac else cbSeg);
            fColumnTruncated = (cbSeg > cbKeyAvail);
            fNormalisedEntireColumn = (fNormalisedEntireColumn \<and> \<not> fColumnTruncated);
            cbSeg = (if cbSeg > cbKeyAvail then cbKeyAvail else cbSeg)
        in case ChunkLoop fNormalisedEntireColumn (cbSeg - 1) pbField [bPrefixData] 0 of
             (cbSegRemaining, pbNextChunk, pbSeg, ibDelimiter) \<Rightarrow>
               if cbSegRemaining > 0 then
                 if length pbNextChunk \<ge> cbSegRemaining
                 then (pbSeg @ take cbSegRemaining pbNextChunk, fColumnTruncated, ibDelimiter)
                 else (pbSeg @ pbNextChunk @ replicate (cbSegRemaining - length pbNextChunk) 0, fColumnTruncated, length pbSeg + length pbNextChunk)
               else (pbSeg, fColumnTruncated, ibDelimiter))"

subsection \<open>Text columns\<close>

text \<open>\<open>_strupr\<close> of the C locale and the subtraction that stands for \<open>_toupper\<close> (\<open>src/ese/_osu/normu.cxx\<close>).\<close>

definition crt_toupper :: "u8 \<Rightarrow> u8" where
  "crt_toupper c = (if 0x61 \<le> c \<and> c \<le> 0x7a then c - 0x20 else c)"

definition crt_clocale_strupr :: "bytes \<Rightarrow> bytes" where
  "crt_clocale_strupr string = map crt_toupper string"

definition crt_clocale_toupper_broken :: "u8 \<Rightarrow> u8" where
  "crt_clocale_toupper_broken c = c - 0x61 + 0x41"

definition strlen_cut :: "bytes \<Rightarrow> bytes" where
  "strlen_cut pb = takeWhile (\<lambda>b. b \<noteq> 0) pb"

definition ErrUtilNormText :: "bytes \<Rightarrow> nat \<Rightarrow> KEYERR \<times> bytes" where
  "ErrUtilNormText pbText cbKeyBufLeft =
     (if cbKeyBufLeft > length pbText then (errSuccess, crt_clocale_strupr (strlen_cut pbText) @ [0])
      else if cbKeyBufLeft > 0 then
        let pbNorm = strlen_cut (take (cbKeyBufLeft - 1) pbText);
            cbTextToNormalise = length pbNorm
        in if cbKeyBufLeft = cbTextToNormalise + 1 \<and> pbText ! cbTextToNormalise \<noteq> 0
           then (wrnFLDKeyTooBig, crt_clocale_strupr pbNorm @ [crt_clocale_toupper_broken (pbText ! cbTextToNormalise)])
           else (errSuccess, crt_clocale_strupr pbNorm @ [0])
      else (errSuccess, []))"

definition ErrFLDNormalizeTextSegment :: "(bytes \<Rightarrow> nat \<Rightarrow> KEYERR \<times> bytes) \<Rightarrow> bytes \<Rightarrow> nat \<Rightarrow> nat \<Rightarrow> nat \<Rightarrow> bool \<Rightarrow> KEYERR \<times> bytes" where
  "ErrFLDNormalizeTextSegment ErrNORMMapString pbField cbKeyAvail cbKeyMost cbVarSegMac fUnicodeCp =
     (let cbT = min cbKeyAvail cbVarSegMac - 1;
          cbChar = (if fUnicodeCp then 2 else 1);
          cbFieldT = length pbField div cbChar * cbChar;
          cbFieldT = (if cbKeyMost = JET_cbKeyMost_OLD then min cbFieldT ((cbKeyMost + cbChar - 1) div cbChar * cbChar) else cbFieldT);
          (err, rgbSeg) = (if fUnicodeCp then ErrNORMMapString else ErrUtilNormText) (take cbFieldT pbField) cbT
      in if failure err then (err, [])
         else
           (if err = wrnFLDKeyTooBig \<and> \<not> (cbVarSegMac > cbKeyMost \<or> length rgbSeg < cbVarSegMac - 1) then errSuccess else err,
            bPrefixData # rgbSeg))"

definition ErrFLDNormalizeTaggedData ::
  "(bytes \<Rightarrow> nat \<Rightarrow> KEYERR \<times> bytes) \<Rightarrow> FIELD \<Rightarrow> bytes \<Rightarrow> bool \<Rightarrow> (KEYERR \<times> bytes \<times> bool) option" where
  "ErrFLDNormalizeTaggedData ErrNORMMapString field dataRaw fDotNetGuid =
     (if dataRaw = [] then Some (errSuccess, FLDNormalizeNullSegment (f_coltyp field) True False, False)
      else if FRECTextColumn (f_coltyp field) then
        (case ErrFLDNormalizeTextSegment ErrNORMMapString dataRaw JET_cbKeyMost_OLD JET_cbKeyMost_OLD (JET_cbKeyMost_OLD + 1) (f_fUnicode field) of
           (err, dataNorm) \<Rightarrow> if failure err then Some (err, [], False) else Some (errSuccess, dataNorm, err = wrnFLDKeyTooBig))
      else if FRECBinaryColumn (f_coltyp field) then
        (case FLDNormalizeBinarySegment dataRaw JET_cbKeyMost_OLD JET_cbKeyMost_OLD (JET_cbKeyMost_OLD + 1) False of
           (dataNorm, fDataTruncated, _) \<Rightarrow> Some (errSuccess, dataNorm, fDataTruncated))
      else map_option (\<lambda>dataNorm. (errSuccess, dataNorm, False)) (FLDNormalizeFixedSegment dataRaw (f_coltyp field) fDotNetGuid False))"


text \<open>
  Keys out of segments (\<open>src/ese/fldnorm.cxx\<close>): the key of a record (\<open>ErrRECIIRetrieveKey\<close>) and the loop around it that reads longer columns.
\<close>

subsection \<open>The key of a record\<close>

text \<open>
  A column as the record layer finds it: null or data, and whether the offset of a tuple has been taken into account
  already (\<open>fTupleAdjusted\<close>), which the retrieval of long values does.
\<close>

record COLUMN =
  c_fNull :: bool
  c_data :: bytes
  c_fTupleAdjusted :: bool

text \<open>
  The variables of the loop; the key is what has been copied to \<open>pbSegCur\<close>.  The loop is left with an error or a warning and
  the value \<open>pfNeedMoreData\<close> has then.
\<close>

record KEYLOOP =
  kl_key :: bytes
  kl_cbKeyAvail :: nat
  kl_fAllNulls :: bool
  kl_fNullFirstSeg :: bool
  kl_fNullSeg :: bool
  kl_fColumnTruncated :: bool
  kl_fKeyTruncated :: bool
  kl_fAllMVOutOfValues :: bool
  kl_fNeedMoreData :: bool

definition cbVarSegMac_of :: "IDB \<Rightarrow> nat" where
  "cbVarSegMac_of idb = (if CbKeyMost idb = CbVarSegMac idb then CbKeyMost idb + 1 else CbVarSegMac idb)"

text \<open>The data a tuple index uses of its first column.\<close>

definition TupleData :: "IDB \<Rightarrow> FIELD \<Rightarrow> nat \<Rightarrow> COLUMN \<Rightarrow> bytes \<Rightarrow> bytes" where
  "TupleData idb field ichOffset column data =
     (let ibTupleOffset = (if f_fUnicode field then ichOffset * 2 else ichOffset);
          cbFieldMax = (if f_fUnicode field then CchTuplesLengthMax idb * 2 else CchTuplesLengthMax idb)
      in take cbFieldMax
           (if c_fNull column then []
            else if c_fTupleAdjusted column then data
            else if ibTupleOffset \<le> length data then drop ibTupleOffset data
            else []))"

text \<open>The normalisation of one column: the error, the segment and whether the column was truncated.\<close>

definition NormalizeColumn ::
  "(bytes \<Rightarrow> nat \<Rightarrow> KEYERR \<times> bytes) \<Rightarrow> IDB \<Rightarrow> IDXSEG \<Rightarrow> FIELD \<Rightarrow> bool \<Rightarrow> bytes \<Rightarrow> nat \<Rightarrow> bool \<Rightarrow> (KEYERR \<times> bytes \<times> bool) option" where
  "NormalizeColumn ErrNORMMapString idb idxseg field fNull pbField cbKeyAvail fColumnTruncated =
     (if fNull \<or> pbField = [] then
        Some (errSuccess, FLDNormalizeNullSegment (f_coltyp field) (\<not> fNull) (FSortNullsHigh idb), fColumnTruncated)
      else if FRECTextColumn (f_coltyp field) then
        (case ErrFLDNormalizeTextSegment ErrNORMMapString pbField cbKeyAvail (CbKeyMost idb) (cbVarSegMac_of idb) (f_fUnicode field) of
           (err, pbSeg) \<Rightarrow>
             Some (if err = wrnFLDKeyTooBig then (errSuccess, pbSeg, True) else (err, pbSeg, fColumnTruncated)))
      else if FRECBinaryColumn (f_coltyp field) then
        (case FLDNormalizeBinarySegment pbField cbKeyAvail (CbKeyMost idb) (cbVarSegMac_of idb) (colkind idxseg = colFixed) of
           (pbSeg, fTruncated, _) \<Rightarrow> Some (errSuccess, pbSeg, fColumnTruncated \<or> fTruncated))
      else
        map_option (\<lambda>pbSeg. (errSuccess, pbSeg, fColumnTruncated)) (FLDNormalizeFixedSegment pbField (f_coltyp field) (FDotNetGuid idb) False))"

definition flip_bits :: "bool \<Rightarrow> bytes \<Rightarrow> bytes" where
  "flip_bits fDescending pb = (if fDescending then map (\<lambda>b. b XOR 0xff) pb else pb)"

definition RetrieveKeyStep ::
  "(bytes \<Rightarrow> nat \<Rightarrow> KEYERR \<times> bytes) \<Rightarrow> IDB \<Rightarrow> nat \<Rightarrow> nat \<Rightarrow> nat \<Rightarrow> IDXSEG \<times> FIELD \<Rightarrow> nat \<Rightarrow> COLUMN \<Rightarrow> KEYLOOP \<Rightarrow> ((KEYERR \<times> bool) + KEYLOOP) option" where
  "RetrieveKeyStep ErrNORMMapString idb ichOffset cbDataMost iidxsegT seg itag column st =
     (let (idxseg, field) = seg;
          fNull = c_fNull column;
          st = (if colkind idxseg = colTagged
                then st\<lparr>kl_fAllMVOutOfValues := kl_fAllMVOutOfValues st \<and> itag > 1 \<and> fNull\<rparr> else st)
      in if kl_cbKeyAvail st = 0 then
           if FDisallowTruncation idb then Some (Inl (errKeyTruncated, kl_fNeedMoreData st))
           else if fNull then
             if itag > 1 \<and> \<not> FNestedTable idb then Some (Inl (wrnFLDOutOfKeys, kl_fNeedMoreData st))
             else Some (Inr (st\<lparr>kl_fKeyTruncated := True, kl_fNullFirstSeg := kl_fNullFirstSeg st \<or> iidxsegT = 0, kl_fNullSeg := True\<rparr>))
           else Some (Inr (st\<lparr>kl_fKeyTruncated := True\<rparr>))
         else
           let data = take cbDataMost (c_data column);
               fTuple = (FTuples idb \<and> iidxsegT = 0)
           in if itag > 1 \<and> fNull \<and> \<not> FNestedTable idb then Some (Inl (wrnFLDOutOfKeys, kl_fNeedMoreData st))
              else
                let pbField = (if fTuple then TupleData idb field ichOffset column data else data)
                in if fTuple \<and> length pbField < (if f_fUnicode field then CchTuplesLengthMin idb * 2 else CchTuplesLengthMin idb)
                   then Some (Inl (wrnFLDOutOfTuples, kl_fNeedMoreData st))
                   else
                     case NormalizeColumn ErrNORMMapString idb idxseg field fNull pbField (kl_cbKeyAvail st) (kl_fColumnTruncated st) of
                       None \<Rightarrow> None
                     | Some (err, pbSeg, fColumnTruncated) \<Rightarrow>
                         if failure err then Some (Inl (err, kl_fNeedMoreData st))
                         else
                           let st = st\<lparr>kl_fAllNulls := kl_fAllNulls st \<and> fNull,
                                  kl_fNullFirstSeg := kl_fNullFirstSeg st \<or> (fNull \<and> iidxsegT = 0),
                                  kl_fNullSeg := kl_fNullSeg st \<or> fNull,
                                  kl_fColumnTruncated := fColumnTruncated,
                                  kl_fNeedMoreData := kl_fNeedMoreData st \<or>
                                    (length pbField = cbDataMost \<and> length pbSeg < CbKeyMost idb \<and> length pbSeg < kl_cbKeyAvail st \<and>
                                     length pbSeg < CbVarSegMac idb \<and> CbKeyMost idb \<noteq> JET_cbKeyMost_OLD)\<rparr>
                           in if kl_fKeyTruncated st then Some (Inr st)
                              else
                                let fTruncate = (fColumnTruncated \<or> length pbSeg > kl_cbKeyAvail st)
                                in if fTruncate \<and> FDisallowTruncation idb then Some (Inl (errKeyTruncated, kl_fNeedMoreData st))
                                   else
                                     let pbSeg = flip_bits (FDescending idxseg) (if fColumnTruncated then pbSeg else take (kl_cbKeyAvail st) pbSeg)
                                     in Some (Inr (st\<lparr>kl_fKeyTruncated := fTruncate, kl_key := kl_key st @ pbSeg,
                                          kl_cbKeyAvail := kl_cbKeyAvail st - length pbSeg\<rparr>)))"

fun RetrieveKeyLoop ::
  "(bytes \<Rightarrow> nat \<Rightarrow> KEYERR \<times> bytes) \<Rightarrow> IDB \<Rightarrow> nat \<Rightarrow> nat \<Rightarrow> nat \<Rightarrow> (IDXSEG \<times> FIELD) list \<Rightarrow> nat list \<Rightarrow> COLUMN list \<Rightarrow> KEYLOOP \<Rightarrow>
    ((KEYERR \<times> nat \<times> bool) + KEYLOOP) option" where
  "RetrieveKeyLoop ErrNORMMapString idb ichOffset cbDataMost iidxsegT (seg # segs) (itag # rgitag) (column # columns) st =
     (case RetrieveKeyStep ErrNORMMapString idb ichOffset cbDataMost iidxsegT seg itag column st of
        None \<Rightarrow> None
      | Some (Inl (err, fNeedMoreData)) \<Rightarrow> Some (Inl (err, iidxsegT, fNeedMoreData))
      | Some (Inr st) \<Rightarrow> RetrieveKeyLoop ErrNORMMapString idb ichOffset cbDataMost (iidxsegT + 1) segs rgitag columns st)"
| "RetrieveKeyLoop ErrNORMMapString idb ichOffset cbDataMost iidxsegT segs rgitag columns st = (if segs = [] then Some (Inr st) else None)"

definition JET_ccolKeyMost :: int where "JET_ccolKeyMost = 16"

definition iidxsegNoRollover :: int where
  "iidxsegNoRollover = JET_ccolKeyMost + 1"

text \<open>
  The error, the key, \<open>piidxseg\<close> and \<open>pfNeedMoreData\<close>, for a record that fulfils the conditions of the
  index.  The columns are retrieved with the limit \<open>cbDataMost\<close>, the first one of a tuple index at the offset \<open>ichOffset\<close>.
\<close>

definition ErrRECIIRetrieveKey ::
  "(bytes \<Rightarrow> nat \<Rightarrow> KEYERR \<times> bytes) \<Rightarrow> (nat \<Rightarrow> COLUMN list) \<Rightarrow> IDB \<Rightarrow> nat list \<Rightarrow> nat \<Rightarrow> nat \<Rightarrow> (KEYERR \<times> bytes \<times> int \<times> bool) option" where
  "ErrRECIIRetrieveKey ErrNORMMapString columns idb rgitag ichOffset cbDataMost =
     (let st = \<lparr>kl_key = [], kl_cbKeyAvail = CbKeyMost idb, kl_fAllNulls = True, kl_fNullFirstSeg = False, kl_fNullSeg = False,
            kl_fColumnTruncated = False, kl_fKeyTruncated = False, kl_fAllMVOutOfValues = True, kl_fNeedMoreData = False\<rparr>
      in case RetrieveKeyLoop ErrNORMMapString idb ichOffset cbDataMost 0 (rgidxseg idb) rgitag (columns cbDataMost) st of
           None \<Rightarrow> None
         | Some (Inl (err, iidxsegT, fNeedMoreData)) \<Rightarrow>
             Some (err, [], if err = wrnFLDOutOfKeys then int iidxsegT else iidxsegNoRollover, fNeedMoreData)
         | Some (Inr st) \<Rightarrow>
             if FNestedTable idb \<and> kl_fAllMVOutOfValues st then Some (wrnFLDOutOfKeys, [], 0, kl_fNeedMoreData st)
             else
               Some (if kl_fAllNulls st then wrnFLDNullKey
                     else if kl_fNullFirstSeg st then wrnFLDNullFirstSeg
                     else if kl_fNullSeg st then wrnFLDNullSeg
                     else errSuccess, kl_key st, iidxsegNoRollover, kl_fNeedMoreData st))"

text \<open>As long as more data could make the key longer, twice as much is retrieved.\<close>

partial_function (option) RetrieveKeyRetry ::
  "(bytes \<Rightarrow> nat \<Rightarrow> KEYERR \<times> bytes) \<Rightarrow> (nat \<Rightarrow> COLUMN list) \<Rightarrow> IDB \<Rightarrow> nat list \<Rightarrow> nat \<Rightarrow> nat \<Rightarrow> (KEYERR \<times> bytes \<times> int) option" where
  "RetrieveKeyRetry ErrNORMMapString columns idb rgitag ichOffset cbDataMost =
     (case ErrRECIIRetrieveKey ErrNORMMapString columns idb rgitag ichOffset cbDataMost of
        None \<Rightarrow> None
      | Some (err, key, iidxseg, fNeedMoreData) \<Rightarrow>
          if \<not> failure err \<and> fNeedMoreData
          then RetrieveKeyRetry ErrNORMMapString columns idb rgitag ichOffset (cbDataMost * 2)
          else Some (err, key, iidxseg))"

definition ErrRECIRetrieveKey ::
  "(bytes \<Rightarrow> nat \<Rightarrow> KEYERR \<times> bytes) \<Rightarrow> (nat \<Rightarrow> COLUMN list) \<Rightarrow> IDB \<Rightarrow> nat list \<Rightarrow> nat \<Rightarrow> (KEYERR \<times> bytes \<times> int) option" where
  "ErrRECIRetrieveKey ErrNORMMapString columns idb rgitag ichOffset =
     RetrieveKeyRetry ErrNORMMapString columns idb rgitag ichOffset (CbKeyMost idb)"

end
