(* ===== verification/Key_Order.thy ===== *)
theory Key_Order
  imports Key_Build
begin

text \<open>
  The order of byte strings that differ at a position inside both, the interface of order-preserving, self-delimiting
  codes, and the concatenation of such codes: the reason why keys made of segments compare column by column.
\<close>

subsection \<open>A difference inside both strings\<close>

fun before :: "bytes \<Rightarrow> bytes \<Rightarrow> bool" where
  "before (x # xs) (y # ys) \<longleftrightarrow> x < y \<or> x = y \<and> before xs ys"
| "before xs ys \<longleftrightarrow> False"

lemma before_Nil [simp]: "\<not> before xs []" "\<not> before [] ys"
  by (cases xs; simp)+

lemma before_append: "before xs ys \<Longrightarrow> before (xs @ us) (ys @ vs)"
  by (induction xs ys rule: before.induct) auto

lemma before_prefix [simp]: "before (us @ xs) (us @ ys) \<longleftrightarrow> before xs ys"
  by (induction us) auto

lemma before_less: "before xs ys \<Longrightarrow> xs < ys"
  by (induction xs ys rule: before.induct) auto

lemma before_irrefl [simp]: "\<not> before xs xs"
  using before_less by blast

lemma before_cat: "before xs ys \<Longrightarrow> xs @ us < ys @ vs"
  by (rule before_less [OF before_append])

lemma less_before: "length xs = length ys \<Longrightarrow> xs < ys \<Longrightarrow> before xs ys"
  by (induction xs ys rule: list_induct2) auto

lemma take_mono_lex: "xs \<le> ys \<Longrightarrow> take n xs \<le> take n (ys :: bytes)"
proof (induction n arbitrary: xs ys)
  case (Suc n)
  then show ?case by (cases xs; cases ys) auto
qed simp

lemma append_less [simp]: "us @ xs < us @ ys \<longleftrightarrow> xs < (ys :: bytes)"
  by (induction us) auto

lemma append_above [simp]: "xs \<le> xs @ (ys :: bytes)"
  by (induction xs) auto

lemma uint_complement: "uint (x XOR 0xff :: u8) = 255 - uint x"
proof -
  have "(0xff :: u8) = - 1" by simp
  then have "x XOR 0xff = - 1 - x" using bit.xor_one_right [of x] by (simp only: not_eq_complement) simp
  also have "\<dots> = 0xff - x" by simp
  finally show ?thesis using uint_sub_lem [of x "0xff :: u8"] uint_lt2p [of x] by simp
qed

lemma complement_less: "x XOR 0xff < y XOR 0xff \<longleftrightarrow> y < (x :: u8)"
  by (simp add: word_less_def uint_complement)

lemma complement_inj: "x XOR 0xff = y XOR 0xff \<longleftrightarrow> (x :: u8) = y"
  by (metis complement_less linorder_less_linear order_less_irrefl)

lemma before_flip: "before (flip_bits d xs) (flip_bits d ys) \<longleftrightarrow> (if d then before ys xs else before xs ys)"
  by (induction xs ys rule: before.induct) (auto simp: flip_bits_def complement_less complement_inj)

lemma flip_bits_inj [simp]: "flip_bits d xs = flip_bits d ys \<longleftrightarrow> xs = ys"
  by (auto simp: flip_bits_def complement_inj inj_on_def dest!: map_inj_on [rotated])

lemma length_flip_bits [simp]: "length (flip_bits d xs) = length xs"
  by (simp add: flip_bits_def)

lemma take_flip_bits: "take n (flip_bits d xs) = flip_bits d (take n xs)"
  by (simp add: flip_bits_def take_map)

lemma flip_bits_append: "flip_bits d (xs @ ys) = flip_bits d xs @ flip_bits d ys"
  by (simp add: flip_bits_def)

lemma flip_bits_Nil [simp]: "flip_bits d [] = []"
  by (simp add: flip_bits_def)

lemma flip_flip [simp]: "flip_bits d (flip_bits d xs) = xs"
  by (simp add: flip_bits_def xor.assoc comp_def)

subsection \<open>Order-preserving codes\<close>

text \<open>The order of tuples column by column, and the concatenation of the codes.\<close>

fun tuple_smaller :: "('i \<Rightarrow> 'v \<Rightarrow> 'v \<Rightarrow> bool) \<Rightarrow> 'i list \<Rightarrow> 'v list \<Rightarrow> 'v list \<Rightarrow> bool" where
  "tuple_smaller smaller (i # is) (v # vs) (w # ws) \<longleftrightarrow> smaller i v w \<or> \<not> smaller i w v \<and> tuple_smaller smaller is vs ws"
| "tuple_smaller smaller is vs ws \<longleftrightarrow> False"

definition tuple_code :: "('i \<Rightarrow> 'v \<Rightarrow> bytes) \<Rightarrow> 'i list \<Rightarrow> 'v list \<Rightarrow> bytes" where
  "tuple_code code is vs = concat (map2 code is vs)"

lemma tuple_code_Cons [simp]: "tuple_code code (i # is) (v # vs) = code i v @ tuple_code code is vs"
  by (simp add: tuple_code_def)

text \<open>
  A family of codes, one for each position \<open>'i\<close>: smaller values have codes that are smaller within both, and values none of
  which is smaller than the other have the same code.
\<close>

locale order_codes =
  fixes code :: "'i \<Rightarrow> 'v \<Rightarrow> bytes"
    and smaller :: "'i \<Rightarrow> 'v \<Rightarrow> 'v \<Rightarrow> bool"
    and legal :: "'i \<Rightarrow> 'v \<Rightarrow> bool"
  assumes code_before: "legal i v \<Longrightarrow> legal i w \<Longrightarrow> smaller i v w \<Longrightarrow> before (code i v) (code i w)"
    and code_same: "legal i v \<Longrightarrow> legal i w \<Longrightarrow> \<not> smaller i v w \<Longrightarrow> \<not> smaller i w v \<Longrightarrow> code i v = code i w"
begin

lemma tuple_before:
  "list_all2 legal is vs \<Longrightarrow> list_all2 legal is ws \<Longrightarrow> tuple_smaller smaller is vs ws \<Longrightarrow>
    before (tuple_code code is vs) (tuple_code code is ws)"
proof (induction "is" arbitrary: vs ws)
  case (Cons i "is")
  obtain v vs' w ws' where c: "vs = v # vs'" "ws = w # ws'" "legal i v" "legal i w" "list_all2 legal is vs'" "list_all2 legal is ws'"
    using Cons.prems by (auto simp: list_all2_Cons1)
  show ?case
  proof (cases "smaller i v w")
    case True
    then show ?thesis using c by (simp add: before_append code_before)
  next
    case False
    then have "code i v = code i w" using c Cons.prems by (auto intro: code_same)
    then show ?thesis using c False Cons by auto
  qed
qed auto

lemma tuple_same:
  "list_all2 legal is vs \<Longrightarrow> list_all2 legal is ws \<Longrightarrow> \<not> tuple_smaller smaller is vs ws \<Longrightarrow> \<not> tuple_smaller smaller is ws vs \<Longrightarrow>
    tuple_code code is vs = tuple_code code is ws"
proof (induction "is" arbitrary: vs ws)
  case (Cons i "is")
  obtain v vs' w ws' where c: "vs = v # vs'" "ws = w # ws'" "legal i v" "legal i w" "list_all2 legal is vs'" "list_all2 legal is ws'"
    using Cons.prems by (auto simp: list_all2_Cons1)
  have n: "\<not> smaller i v w" "\<not> smaller i w v" "\<not> tuple_smaller smaller is vs' ws'" "\<not> tuple_smaller smaller is ws' vs'"
    using Cons.prems(3,4) unfolding c(1,2) by simp_all
  then show ?case unfolding c(1,2) by (simp add: code_same [OF c(3,4) n(1,2)] Cons.IH [OF c(5,6) n(3,4)])
qed auto

lemma tuple_order:
  assumes "list_all2 legal is vs" "list_all2 legal is ws"
  shows "tuple_code code is vs < tuple_code code is ws \<longleftrightarrow> tuple_smaller smaller is vs ws"
proof
  assume less: "tuple_code code is vs < tuple_code code is ws"
  then have "\<not> tuple_smaller smaller is ws vs"
    using before_less [OF tuple_before [OF assms(2,1)]] order_less_asym [OF less] by blast
  then show "tuple_smaller smaller is vs ws" using tuple_same [OF assms _ \<open>\<not> tuple_smaller smaller is ws vs\<close>] less
    by (metis order_less_irrefl)
next
  assume "tuple_smaller smaller is vs ws"
  then show "tuple_code code is vs < tuple_code code is ws" by (intro before_less tuple_before assms)
qed

end

end
