(* ===== verification/Key_Numbers.thy ===== *)
theory Key_Numbers
  imports Key_Order
begin

text \<open>
  The numbers of a key: words stored high byte first compare as the numbers, with the high bit flipped as the signed numbers,
  and IEEE numbers, transformed as the code does, by their value.
\<close>

subsection \<open>Bytes and numbers\<close>

lemma length_le_memory [simp]: "length (le_memory n x) = n"
  by (induction n arbitrary: x) auto

lemma le_number_bounds: "0 \<le> le_number pb" "le_number pb < 256 ^ length pb"
proof (induction pb)
  case (Cons b pb)
  { case 1 then show ?case using Cons.IH(1) by simp }
  { case 2 then show ?case using Cons.IH(2) uint_lt2p [of b] by simp }
qed simp_all

lemma le_number_memory: "0 \<le> x \<Longrightarrow> x < 256 ^ n \<Longrightarrow> le_number (le_memory n x) = x"
proof (induction n arbitrary: x)
  case (Suc n)
  have "x div 256 < 256 ^ n" using Suc.prems by (simp add: div_less_iff_less_mult mult.commute)
  then show ?case using Suc by (simp add: unsigned_of_int take_bit_int_def pos_imp_zdiv_nonneg_iff)
qed simp

lemma le_memory_number: "n = length pb \<Longrightarrow> le_memory n (le_number pb) = pb"
proof (induction pb arbitrary: n)
  case (Cons b pb)
  have "(word_of_int (uint b + 256 * le_number pb) :: u8) = b"
    by (rule word_uint_eqI, unfold uint_word_of_int) (use uint_lt2p [of b] in simp)
  moreover have "(uint b + 256 * le_number pb) div 256 = le_number pb" using uint_lt2p [of b] by simp
  ultimately show ?case using Cons by simp
qed simp

lemma before_snoc: "length xs = length ys \<Longrightarrow> before (xs @ [x]) (ys @ [y]) \<longleftrightarrow> before xs ys \<or> xs = ys \<and> x < y"
  by (induction xs ys rule: list_induct2) auto

lemma be_before: "0 \<le> x \<Longrightarrow> x < y \<Longrightarrow> y < 256 ^ n \<Longrightarrow> before (rev (le_memory n x)) (rev (le_memory n y))"
proof (induction n arbitrary: x y)
  case (Suc n)
  have b: "y div 256 < 256 ^ n" "0 \<le> x div 256" using Suc.prems by (simp_all add: div_less_iff_less_mult mult.commute pos_imp_zdiv_nonneg_iff)
  show ?case
  proof (cases "x div 256 < y div 256")
    case True
    then show ?thesis using Suc.IH b by (simp add: before_snoc)
  next
    case False
    then have e: "x div 256 = y div 256" using Suc.prems(2) zdiv_mono1 [of x y 256] by simp
    then have "x mod 256 < y mod 256"
      using Suc.prems(2) div_mult_mod_eq [of x 256] div_mult_mod_eq [of y 256] by linarith
    then have "(word_of_int x :: u8) < word_of_int y" by (simp add: word_less_def unsigned_of_int take_bit_int_def)
    then show ?thesis using e by (simp add: before_snoc)
  qed
qed simp

lemma rev_before: "length xs = length ys \<Longrightarrow> le_number xs < le_number ys \<Longrightarrow> before (rev xs) (rev ys)"
  using be_before [of "le_number xs" "le_number ys" "length xs"] le_number_bounds [of xs] le_number_bounds [of ys]
  by (simp add: le_memory_number)

lemma le_number_inj: "length xs = length ys \<Longrightarrow> le_number xs = le_number ys \<Longrightarrow> xs = ys"
  by (metis le_memory_number)

subsection \<open>Words\<close>

text \<open>The words of the engine fill their bytes.\<close>

definition whole_bytes :: "'a::len itself \<Rightarrow> bool" where
  "whole_bytes _ \<longleftrightarrow> 8 * (LENGTH('a) div 8) = LENGTH('a)"

lemma whole_bytes_simps [simp]: "whole_bytes TYPE(16)" "whole_bytes TYPE(32)" "whole_bytes TYPE(64)"
  by (simp_all add: whole_bytes_def)

lemma uint_less_bytes: "whole_bytes TYPE('a) \<Longrightarrow> uint (w :: 'a::len word) < 256 ^ (LENGTH('a) div 8)"
proof -
  assume "whole_bytes TYPE('a)"
  then have "(256 :: int) ^ (LENGTH('a) div 8) = 2 ^ LENGTH('a)"
    using power_mult [of "2 :: int" 8 "LENGTH('a) div 8"] by (simp add: whole_bytes_def)
  then show ?thesis using uint_lt2p [of w] by simp
qed

lemma StoreBigEndian_before: "whole_bytes TYPE('a) \<Longrightarrow> (v :: 'a::len word) < w \<Longrightarrow> before (StoreBigEndian v) (StoreBigEndian w)"
  unfolding StoreBigEndian_def by (rule be_before) (simp_all add: word_less_def uint_less_bytes)

lemma length_StoreBigEndian [simp]: "length (StoreBigEndian (w :: 'a::len word)) = LENGTH('a) div 8"
  by (simp add: StoreBigEndian_def)

lemma UnalignedBigEndian_Store: "whole_bytes TYPE('a) \<Longrightarrow> UnalignedBigEndian (StoreBigEndian (w :: 'a::len word) @ pb) = w"
  by (simp add: UnalignedBigEndian_def StoreBigEndian_def le_number_memory uint_less_bytes)

lemma uint_Unaligned:
  assumes "whole_bytes TYPE('a)" "LENGTH('a) div 8 \<le> length pb"
  shows "uint (Unaligned pb :: 'a::len word) = le_number (take (LENGTH('a) div 8) pb)"
proof -
  have "le_number (take (LENGTH('a) div 8) pb) < 2 ^ LENGTH('a)"
    using le_number_bounds(2) [of "take (LENGTH('a) div 8) pb"] assms power_mult [of "2 :: int" 8 "LENGTH('a) div 8"]
    by (simp add: whole_bytes_def)
  then show ?thesis by (simp add: Unaligned_def unsigned_of_int take_bit_int_eq_self le_number_bounds)
qed

lemma StoreUnaligned_Unaligned:
  assumes "whole_bytes TYPE('a)" "length pb = LENGTH('a) div 8"
  shows "StoreUnaligned (Unaligned pb :: 'a::len word) = pb"
  using assms by (simp add: StoreUnaligned_def uint_Unaligned le_memory_number)

subsection \<open>Flipping the high bit\<close>

lemma high_bit: "bit (uint (w :: 'a::len word)) (LENGTH('a) - 1) \<longleftrightarrow> 2 ^ (LENGTH('a) - 1) \<le> uint w"
proof -
  have "uint w < 2 * 2 ^ (LENGTH('a) - 1)" using uint_lt2p [of w] by (metis len_gt_0 power_Suc Suc_diff_1)
  then have "uint w div 2 ^ (LENGTH('a) - 1) = (if 2 ^ (LENGTH('a) - 1) \<le> uint w then 1 else 0)"
    using int_div_pos_eq [of "uint w" "2 ^ (LENGTH('a) - 1)" 1 "uint w - 2 ^ (LENGTH('a) - 1)"] by (simp add: div_pos_pos_trivial)
  then show ?thesis by (simp add: bit_iff_odd)
qed

lemma uint_FlipHighBit: "uint (FlipHighBit w) = sint w + 2 ^ (LENGTH('a) - 1)" for w :: "'a::len word"
proof -
  obtain n where n: "LENGTH('a) = Suc n" by (metis len_gt_0 Suc_diff_1)
  have f: "uint (FlipHighBit w) = flip_bit n (uint w)"
    by (simp add: FlipHighBit_def maskHighBit_def flip_bit_eq_xor n unsigned_xor_eq unsigned_push_bit_eq take_bit_push_bit del: push_bit_of_1)
  have s: "sint w = uint w - 2 ^ Suc n * of_bool (bit (uint w) n)"
    using uint_lt2p [of w] by (simp add: sint_uint n signed_take_bit_eq_take_bit_minus take_bit_int_eq_self)
  have b: "bit (uint w) n \<longleftrightarrow> 2 ^ n \<le> uint w" using high_bit [of w] by (simp add: n)
  have l: "uint w < 2 * 2 ^ n" using uint_lt2p [of w] by (simp add: n)
  show ?thesis
    using l b s unfolding f by (cases "bit (uint w) n") (simp_all add: n flip_bit_eq_if set_bit_eq unset_bit_eq take_bit_int_eq_self)
qed

lemma FlipHighBit_less: "FlipHighBit v < FlipHighBit w \<longleftrightarrow> sint v < sint w"
  by (simp add: word_less_def uint_FlipHighBit)

lemma FlipHighBit_inv [simp]: "FlipHighBit (FlipHighBit w) = w"
  by (simp add: FlipHighBit_def xor.assoc)


text \<open>
  The value of IEEE numbers.  A number with \<open>k\<close> bits of fraction is a sign, an exponent and a fraction; its value is given as a multiple of the
  smallest positive number of the format (\<open>2^-149\<close> for single, \<open>2^-1074\<close> for double), which is an integer.  Infinities come out
  above and below all finite numbers.  A NaN has no value; the code orders it by its bits, behind the infinity of its sign.
\<close>

definition Negative :: "'a::len word \<Rightarrow> bool" where
  "Negative w \<longleftrightarrow> 2 ^ (LENGTH('a) - 1) \<le> uint w"

definition Magnitude :: "'a::len word \<Rightarrow> int" where
  "Magnitude w = uint w mod 2 ^ (LENGTH('a) - 1)"

definition ScaledValue :: "nat \<Rightarrow> int \<Rightarrow> int" where
  "ScaledValue k m =
     (let exponent = m div 2 ^ k; fraction = m mod 2 ^ k
      in if exponent = 0 then fraction else (2 ^ k + fraction) * 2 ^ nat (exponent - 1))"

definition IEEEValue :: "nat \<Rightarrow> 'a::len word \<Rightarrow> int" where
  "IEEEValue k w = (if Negative w then - ScaledValue k (Magnitude w) else ScaledValue k (Magnitude w))"

text \<open>The order of the values; of the two zeros the negative one is the smaller.\<close>

definition FloatSmaller :: "nat \<Rightarrow> 'a::len word \<Rightarrow> 'a word \<Rightarrow> bool" where
  "FloatSmaller k v w \<longleftrightarrow> IEEEValue k v < IEEEValue k w \<or> IEEEValue k v = 0 \<and> IEEEValue k w = 0 \<and> Negative v \<and> \<not> Negative w"

lemma ScaledValue_Suc:
  assumes "0 \<le> m"
  shows "ScaledValue k m < ScaledValue k (m + 1)"
proof -
  let ?e = "m div 2 ^ k" and ?f = "m mod 2 ^ k"
  have f: "0 \<le> ?f" "?f < 2 ^ k" "m = ?e * 2 ^ k + ?f" and e: "0 \<le> ?e"
    using assms div_mult_mod_eq [of m "2 ^ k"] by (simp_all add: pos_imp_zdiv_nonneg_iff)
  show ?thesis
  proof (cases "?f + 1 < 2 ^ k")
    case True
    then have "(m + 1) div 2 ^ k = ?e" "(m + 1) mod 2 ^ k = ?f + 1"
      using f by (intro int_div_pos_eq [where r = "?f + 1"] int_mod_pos_eq [where q = ?e]; simp)+
    then show ?thesis by (simp add: ScaledValue_def Let_def)
  next
    case False
    then have "m + 1 = ?e * 2 ^ k + 2 ^ k" using f by linarith
    then have "m + 1 = (?e + 1) * 2 ^ k" by (simp only: distrib_right mult_1)
    then have d: "(m + 1) div 2 ^ k = ?e + 1" "(m + 1) mod 2 ^ k = 0" by simp_all
    show ?thesis
    proof (cases "?e = 0")
      case True
      then show ?thesis using f(2) d by (simp add: ScaledValue_def)
    next
      case ne: False
      then have "nat ?e = Suc (nat (?e - 1))" using e by simp
      then have "(2 :: int) ^ nat ?e = 2 * 2 ^ nat (?e - 1)" by simp
      moreover have "(2 ^ k + ?f) * 2 ^ nat (?e - 1) < (2 * 2 ^ k) * 2 ^ nat (?e - 1)" using f by (intro mult_strict_right_mono) simp_all
      ultimately show ?thesis using ne d e by (simp add: ScaledValue_def)
    qed
  qed
qed

lemma ScaledValue_mono: "0 \<le> m \<Longrightarrow> m < n \<Longrightarrow> ScaledValue k m < ScaledValue k n"
proof (induction "nat (n - m)" arbitrary: n)
  case (Suc d)
  show ?case
  proof (cases "m = n - 1")
    case True
    then show ?thesis using ScaledValue_Suc [of m k] Suc.prems by simp
  next
    case False
    then have "ScaledValue k m < ScaledValue k (n - 1)" using Suc by simp
    also have "\<dots> < ScaledValue k (n - 1 + 1)" using Suc.prems by (intro ScaledValue_Suc) simp
    finally show ?thesis by simp
  qed
qed simp

lemma ScaledValue_less: "0 \<le> m \<Longrightarrow> 0 \<le> n \<Longrightarrow> ScaledValue k m < ScaledValue k n \<longleftrightarrow> m < n"
  using ScaledValue_mono [of m n k] ScaledValue_mono [of n m k] by (cases m n rule: linorder_cases) auto

lemma ScaledValue_0 [simp]: "ScaledValue k 0 = 0"
  by (simp add: ScaledValue_def)

lemma ScaledValue_pos: "0 \<le> m \<Longrightarrow> 0 \<le> ScaledValue k m \<and> (ScaledValue k m = 0 \<longleftrightarrow> m = 0)"
  using ScaledValue_less [of 0 m k] ScaledValue_less [of m 0 k] by auto

text \<open>What the code stores.\<close>

definition FloatWord :: "'a::len word \<Rightarrow> 'a word" where
  "FloatWord src = (if src AND maskHighBit \<noteq> 0 then NOT src else FlipHighBit src)"

lemma uint_Magnitude: "uint w = Magnitude w + (if Negative w then 2 ^ (LENGTH('a) - 1) else 0)" for w :: "'a::len word"
proof -
  obtain n where n: "LENGTH('a) = Suc n" by (metis len_gt_0 Suc_diff_1)
  have "uint w < 2 * 2 ^ n" using uint_lt2p [of w] by (simp add: n)
  then show ?thesis
    using int_mod_pos_eq [of "uint w" "2 ^ n" 1 "uint w - 2 ^ n"]
    by (simp add: n Negative_def Magnitude_def mod_pos_pos_trivial)
qed

lemma Magnitude_bounds: "0 \<le> Magnitude w" "Magnitude (w :: 'a::len word) < 2 ^ (LENGTH('a) - 1)"
  by (simp_all add: Magnitude_def)

lemma mask_Negative: "w AND maskHighBit \<noteq> 0 \<longleftrightarrow> Negative (w :: 'a::len word)"
proof -
  have top: "n < LENGTH('a) \<and> LENGTH('a) - 1 \<le> n \<longleftrightarrow> n = LENGTH('a) - 1" for n using len_gt_0 [where 'a = 'a] by linarith
  have "bit (w AND maskHighBit) n \<longleftrightarrow> n = LENGTH('a) - 1 \<and> bit w n" for n
    using top [of n] by (auto simp: maskHighBit_def bit_simps simp del: push_bit_of_1)
  then have "w AND maskHighBit \<noteq> 0 \<longleftrightarrow> bit w (LENGTH('a) - 1)" using bit_eq_iff [of "w AND maskHighBit" 0] by fastforce
  also have "\<dots> \<longleftrightarrow> bit (uint w) (LENGTH('a) - 1)" by (simp add: bit_uint_iff)
  finally show ?thesis using high_bit [of w] by (simp add: Negative_def)
qed

lemma uint_FloatWord:
  "uint (FloatWord w) = (if Negative w then 2 ^ (LENGTH('a) - 1) - 1 - Magnitude w else 2 ^ (LENGTH('a) - 1) + Magnitude w)"
  for w :: "'a::len word"
proof -
  obtain n where n: "LENGTH('a) = Suc n" by (metis len_gt_0 Suc_diff_1)
  have "sint w = uint w - 2 ^ Suc n * of_bool (bit (uint w) n)"
    using uint_lt2p [of w] by (simp add: sint_uint n signed_take_bit_eq_take_bit_minus take_bit_int_eq_self)
  then have p: "\<not> Negative w \<Longrightarrow> uint (FlipHighBit w) = uint w + 2 ^ n"
    using high_bit [of w] by (simp add: uint_FlipHighBit n Negative_def)
  have q: "uint (NOT w) = 2 ^ Suc n - 1 - uint w"
    using uint_lt2p [of w] order_less_le_trans [OF _ uint_ge_0 [of w], of "- 1"] int_mod_pos_eq [of "- uint w - 1" "2 ^ Suc n" "- 1" "2 ^ Suc n - 1 - uint w"]
    by (simp add: unsigned_not_eq not_int_def n take_bit_int_def)
  show ?thesis using p q by (simp add: FloatWord_def mask_Negative uint_Magnitude n)
qed

lemma FloatWord_less: "FloatWord v < FloatWord w \<longleftrightarrow> FloatSmaller k v w" for v w :: "'a::len word"
  using ScaledValue_less [of "Magnitude v" "Magnitude w" k] ScaledValue_less [of "Magnitude w" "Magnitude v" k]
    ScaledValue_pos [of "Magnitude v" k] ScaledValue_pos [of "Magnitude w" k] Magnitude_bounds [of v] Magnitude_bounds [of w]
  by (simp add: word_less_def uint_FloatWord FloatSmaller_def IEEEValue_def) auto

lemma FloatWord_inj: "FloatWord v = FloatWord w \<longleftrightarrow> v = w" for v w :: "'a::len word"
proof
  assume "FloatWord v = FloatWord w"
  then have "uint (FloatWord v) = uint (FloatWord w)" by simp
  then have "Negative v = Negative w \<and> Magnitude v = Magnitude w"
    using Magnitude_bounds [of v] Magnitude_bounds [of w] unfolding uint_FloatWord by (simp split: if_splits)
  then show "v = w" by (simp add: word_uint_eq_iff uint_Magnitude)
qed simp

end
