(* ===== verification/Key_Segment.thy ===== *)
theory Key_Segment
  imports Key_Numbers
begin

text \<open>
  The segment of a column when there is room for all of it, the order of the columns as the types mean it, and the proof that the
  segments have that order: the interpretation of \<open>order_codes\<close>.
\<close>

subsection \<open>The segments\<close>

fun BinaryChunks :: "bytes \<Rightarrow> bytes" where
  "BinaryChunks pb =
     (if length pb \<le> 8 then pb @ replicate (8 - length pb) 0 @ [of_nat (length pb)]
      else take 8 pb @ [9] @ BinaryChunks (drop 8 pb))"

declare BinaryChunks.simps [simp del]

definition TextCode :: "bytes \<Rightarrow> bytes" where
  "TextCode pb = map crt_toupper (strlen_cut pb)"

text \<open>The bytes of data that is not empty, and of any column.\<close>

definition DataSegment :: "bool \<Rightarrow> COLKIND \<Rightarrow> FIELD \<Rightarrow> bytes \<Rightarrow> bytes" where
  "DataSegment fDotNetGuid kind field pb =
     (if FRECTextColumn (f_coltyp field) then bPrefixData # TextCode pb @ [0]
      else if FRECBinaryColumn (f_coltyp field) then bPrefixData # (if kind = colFixed then pb else BinaryChunks pb)
      else the (FLDNormalizeFixedSegment pb (f_coltyp field) fDotNetGuid False))"

definition NullColumn :: "COLUMN \<Rightarrow> bool" where
  "NullColumn column \<longleftrightarrow> c_fNull column \<or> c_data column = []"

definition Segment :: "IDB \<Rightarrow> IDXSEG \<times> FIELD \<Rightarrow> COLUMN \<Rightarrow> bytes" where
  "Segment idb seg column =
     flip_bits (FDescending (fst seg))
       (if NullColumn column then FLDNormalizeNullSegment (f_coltyp (snd seg)) (\<not> c_fNull column) (FSortNullsHigh idb)
        else DataSegment (FDotNetGuid idb) (colkind (fst seg)) (snd seg) (c_data column))"

subsection \<open>The order of the columns\<close>

text \<open>
  A GUID is a number of 4 bytes, two of 2 bytes and 8 bytes.  \<open>.Net\<close> compares these one after the other; the other
  order goes through the groups of the printed GUID from the last to the first, each by its bytes in memory.
\<close>

definition GuidFields :: "bool \<Rightarrow> bytes \<Rightarrow> int list" where
  "GuidFields fDotNetGuid pb =
     (if fDotNetGuid
      then [le_number (take 4 pb), le_number (take 2 (drop 4 pb)), le_number (take 2 (drop 6 pb))] @ map uint (drop 8 pb)
      else map uint (drop 10 pb @ take 2 (drop 8 pb) @ take 2 (drop 6 pb) @ take 2 (drop 4 pb) @ take 4 pb))"

definition cbFixedType :: "JET_COLTYP \<Rightarrow> nat" where
  "cbFixedType coltyp =
     (case coltyp of
        JET_coltypBit \<Rightarrow> 1 | JET_coltypUnsignedByte \<Rightarrow> 1 | JET_coltypShort \<Rightarrow> 2 | JET_coltypUnsignedShort \<Rightarrow> 2
      | JET_coltypLong \<Rightarrow> 4 | JET_coltypUnsignedLong \<Rightarrow> 4 | JET_coltypIEEESingle \<Rightarrow> 4 | JET_coltypGUID \<Rightarrow> 16 | _ \<Rightarrow> 8)"

definition DataSmaller :: "bool \<Rightarrow> FIELD \<Rightarrow> bytes \<Rightarrow> bytes \<Rightarrow> bool" where
  "DataSmaller fDotNetGuid field a b =
     (case f_coltyp field of
        JET_coltypBit \<Rightarrow> hd a = 0 \<and> hd b \<noteq> 0
      | JET_coltypUnsignedByte \<Rightarrow> hd a < hd b
      | JET_coltypShort \<Rightarrow> sint (Unaligned a :: u16) < sint (Unaligned b :: u16)
      | JET_coltypUnsignedShort \<Rightarrow> uint (Unaligned a :: u16) < uint (Unaligned b :: u16)
      | JET_coltypLong \<Rightarrow> sint (Unaligned a :: u32) < sint (Unaligned b :: u32)
      | JET_coltypUnsignedLong \<Rightarrow> uint (Unaligned a :: u32) < uint (Unaligned b :: u32)
      | JET_coltypLongLong \<Rightarrow> sint (Unaligned a :: u64) < sint (Unaligned b :: u64)
      | JET_coltypCurrency \<Rightarrow> sint (Unaligned a :: u64) < sint (Unaligned b :: u64)
      | JET_coltypUnsignedLongLong \<Rightarrow> uint (Unaligned a :: u64) < uint (Unaligned b :: u64)
      | JET_coltypIEEESingle \<Rightarrow> FloatSmaller 23 (Unaligned a :: u32) (Unaligned b :: u32)
      | JET_coltypIEEEDouble \<Rightarrow> FloatSmaller 52 (Unaligned a :: u64) (Unaligned b :: u64)
      | JET_coltypDateTime \<Rightarrow> FloatSmaller 52 (Unaligned a :: u64) (Unaligned b :: u64)
      | JET_coltypGUID \<Rightarrow> GuidFields fDotNetGuid a < GuidFields fDotNetGuid b
      | JET_coltypText \<Rightarrow> TextCode a < TextCode b
      | JET_coltypLongText \<Rightarrow> TextCode a < TextCode b
      | _ \<Rightarrow> a < b)"

text \<open>Null values come first, or last with \<open>FSortNullsHigh\<close>; then empty text and binary values, then data.  An empty value of a fixed type is null.\<close>

definition ColumnClass :: "bool \<Rightarrow> FIELD \<Rightarrow> COLUMN \<Rightarrow> nat" where
  "ColumnClass fSortNullsHigh field column =
     (if \<not> NullColumn column then 2
      else if \<not> c_fNull column \<and> (FRECTextColumn (f_coltyp field) \<or> FRECBinaryColumn (f_coltyp field)) then 1
      else if fSortNullsHigh then 3 else 0)"

definition Ascending :: "IDB \<Rightarrow> FIELD \<Rightarrow> COLUMN \<Rightarrow> COLUMN \<Rightarrow> bool" where
  "Ascending idb field c d \<longleftrightarrow>
     ColumnClass (FSortNullsHigh idb) field c < ColumnClass (FSortNullsHigh idb) field d \<or>
     \<not> NullColumn c \<and> \<not> NullColumn d \<and> DataSmaller (FDotNetGuid idb) field (c_data c) (c_data d)"

definition ColumnSmaller :: "IDB \<Rightarrow> IDXSEG \<times> FIELD \<Rightarrow> COLUMN \<Rightarrow> COLUMN \<Rightarrow> bool" where
  "ColumnSmaller idb seg c d \<longleftrightarrow> (if FDescending (fst seg) then Ascending idb (snd seg) d c else Ascending idb (snd seg) c d)"

text \<open>
  The columns a record can hold: a fixed type has its size, a fixed binary column its length.  Text is in a code page; the
  sort keys of Unicode are not the engine's.
\<close>

definition LegalData :: "COLKIND \<Rightarrow> FIELD \<Rightarrow> bytes \<Rightarrow> bool" where
  "LegalData kind field pb \<longleftrightarrow>
     (if FRECTextColumn (f_coltyp field) then \<not> f_fUnicode field
      else if FRECBinaryColumn (f_coltyp field) then kind = colFixed \<longrightarrow> length pb = f_cbMaxLen field
      else length pb = cbFixedType (f_coltyp field))"

definition LegalColumn :: "IDXSEG \<times> FIELD \<Rightarrow> COLUMN \<Rightarrow> bool" where
  "LegalColumn seg column \<longleftrightarrow> NullColumn column \<or> LegalData (colkind (fst seg)) (snd seg) (c_data column)"

subsection \<open>Binary values\<close>

lemma length_BinaryChunks: "pb \<noteq> [] \<Longrightarrow> length (BinaryChunks pb) = (length pb + 7) div 8 * 9"
proof (induction pb rule: BinaryChunks.induct)
  case (1 pb)
  show ?case
  proof (cases "length pb \<le> 8")
    case True
    then have "(length pb + 7) div 8 = 1" using 1 by (cases pb) auto
    then show ?thesis using True by (subst BinaryChunks.simps) simp
  next
    case False
    then have "(length pb + 7) div 8 = Suc ((length pb - 8 + 7) div 8)" by simp
    then show ?thesis using False 1 by (subst BinaryChunks.simps) simp
  qed
qed

lemma small_count: "m < 256 \<Longrightarrow> n < 256 \<Longrightarrow> (of_nat m :: u8) < of_nat n \<longleftrightarrow> m < n"
  by (simp add: word_less_nat_alt unat_of_nat)

lemma padded_before:
  "xs < ys \<Longrightarrow> length xs \<le> n \<Longrightarrow> length ys \<le> n \<Longrightarrow>
    before (xs @ replicate (n - length xs) 0) (ys @ replicate (n - length ys) 0) \<or>
    xs @ replicate (n - length xs) 0 = ys @ replicate (n - length ys) (0 :: u8) \<and> length xs < length ys"
proof (induction n arbitrary: xs ys)
  case (Suc n)
  show ?case
  proof (cases xs)
    case Nil
    then obtain y ys' where ys: "ys = y # ys'" using Suc.prems by (cases ys) auto
    show ?thesis
    proof (cases "y = 0")
      case True
      then show ?thesis using Suc.IH [of "[]" ys'] Suc.prems Nil ys by (cases "ys' = []") auto
    next
      case False
      then have "0 < y" by (simp add: word_gt_0)
      then show ?thesis using Nil ys by simp
    qed
  next
    case (Cons x xs')
    then obtain y ys' where ys: "ys = y # ys'" using Suc.prems by (cases ys) auto
    show ?thesis using Suc.IH [of xs' ys'] Suc.prems Cons ys by auto
  qed
qed simp

lemma pad_below:
  assumes "length xs \<le> n" "n \<le> length ys" "xs < ys"
  shows "before (xs @ replicate (n - length xs) 0) (take n ys) \<or> xs @ replicate (n - length xs) (0 :: u8) = take n ys"
proof -
  have "xs \<le> take n ys" using take_mono_lex [of xs ys n] assms by simp
  then show ?thesis using padded_before [of xs "take n ys" n] assms by (cases "xs = take n ys") auto
qed

lemma pad_above:
  assumes "length ys \<le> n" "n < length xs" "xs < ys"
  shows "before (take n xs) (ys @ replicate (n - length ys) (0 :: u8))"
proof -
  have "take n xs \<le> ys" using take_mono_lex [of xs ys n] assms by simp
  moreover have "take n xs \<noteq> ys"
  proof
    assume "take n xs = ys"
    then have "ys @ drop n xs = xs" by auto
    then have "ys \<le> xs" using append_above [of ys "drop n xs"] by simp
    then show False using assms by simp
  qed
  ultimately show ?thesis using padded_before [of "take n xs" ys n] assms by auto
qed

lemma chunks_before: "xs < ys \<Longrightarrow> before (BinaryChunks xs) (BinaryChunks ys)"
proof (induction xs arbitrary: ys rule: BinaryChunks.induct)
  case (1 xs)
  note [simp] = BinaryChunks.simps [of xs] BinaryChunks.simps [of ys]
  consider (s) "length xs \<le> 8" "length ys \<le> 8" | (l) "length xs \<le> 8" "8 < length ys" | (g) "8 < length xs" "length ys \<le> 8"
    | (b) "8 < length xs" "8 < length ys" by linarith
  then show ?case
  proof cases
    case s
    then show ?thesis using padded_before [OF "1.prems" s] small_count [of "length xs" "length ys"]
      by (auto simp: before_snoc simp flip: append_assoc)
  next
    case l
    have "(of_nat (length xs) :: u8) < 9" using small_count [of "length xs" 9] l by simp
    then show ?thesis using pad_below [of xs 8 ys] l "1.prems"
      by (auto simp: intro: before_append simp flip: append_assoc)
  next
    case g
    then show ?thesis using pad_above [of ys 8 xs] "1.prems" by (auto intro: before_append simp flip: append_assoc)
  next
    case b
    have "take 8 xs \<le> take 8 ys" using "1.prems" by (simp add: take_mono_lex)
    show ?thesis
    proof (cases "take 8 xs = take 8 ys")
      case True
      then have "drop 8 xs < drop 8 ys" using "1.prems" by (metis append_take_drop_id append_less)
      then show ?thesis using 1 b True by simp
    next
      case False
      then have "before (take 8 xs) (take 8 ys)" using \<open>take 8 xs \<le> take 8 ys\<close> b by (intro less_before) auto
      then show ?thesis using b by (simp add: before_append)
    qed
  qed
qed

subsection \<open>GUIDs\<close>

lemma map_uint_less: "map uint (xs :: bytes) < map uint ys \<longleftrightarrow> xs < ys"
proof (induction xs arbitrary: ys)
  case Nil
  show ?case by (cases ys) simp_all
next
  case (Cons x xs)
  show ?case by (cases ys) (simp_all add: word_less_def Cons.IH flip: word_uint_eq_iff)
qed

lemma sixteen:
  assumes "length pb = (16 :: nat)"
  obtains b0 b1 b2 b3 b4 b5 b6 b7 b8 b9 b10 b11 b12 b13 b14 b15 where
    "pb = [b0, b1, b2, b3, b4, b5, b6, b7, b8, b9, b10, b11, b12, b13, b14, b15]"
  using assms by (auto simp: length_Suc_conv numeral_eq_Suc)

lemma guid_order_lists:
  assumes "length (pb :: bytes) = 16"
  shows "map ((!) pb) rgDotNetGuidOrder = rev (take 4 pb) @ rev (take 2 (drop 4 pb)) @ rev (take 2 (drop 6 pb)) @ drop 8 pb"
    and "map ((!) pb) rgGuidOrder = drop 10 pb @ take 2 (drop 8 pb) @ take 2 (drop 6 pb) @ take 2 (drop 4 pb) @ take 4 pb"
  by (rule sixteen [OF assms], simp add: rgDotNetGuidOrder_def rgGuidOrder_def)+

lemma guid_pieces:
  fixes a1 a2 a3 a4 b1 b2 b3 b4 :: bytes
  assumes "length a1 = length b1" "length a2 = length b2" "length a3 = length b3" "length a4 = length b4"
    and less: "le_number a1 # le_number a2 # le_number a3 # map uint a4 < le_number b1 # le_number b2 # le_number b3 # map uint b4"
  shows "before (rev a1 @ rev a2 @ rev a3 @ a4) (rev b1 @ rev b2 @ rev b3 @ b4)"
proof -
  note r = rev_before [OF assms(1)] rev_before [OF assms(2)] rev_before [OF assms(3)]
    and i = le_number_inj [OF assms(1)] le_number_inj [OF assms(2)] le_number_inj [OF assms(3)]
  show ?thesis using r i less_before [OF assms(4)] less by (auto simp: map_uint_less intro: before_append)
qed

lemma guid_before:
  assumes "length a = 16" "length b = 16" "GuidFields net a < GuidFields net b"
  shows "before (map ((!) a) (if net then rgDotNetGuidOrder else rgGuidOrder))
      (map ((!) b) (if net then rgDotNetGuidOrder else rgGuidOrder))"
proof (cases net)
  case True
  show ?thesis unfolding guid_order_lists [OF assms(1)] guid_order_lists [OF assms(2)] if_P [OF True]
    by (rule guid_pieces) (use assms True in \<open>simp_all add: GuidFields_def\<close>)
next
  case False
  show ?thesis unfolding guid_order_lists [OF assms(1)] guid_order_lists [OF assms(2)] if_not_P [OF False]
    by (rule less_before) (use assms False in \<open>simp_all add: GuidFields_def map_uint_less del: map_append\<close>)
qed

lemma guid_same:
  assumes "length a = 16" "length b = 16" "GuidFields net a = GuidFields net b"
  shows "a = b"
proof -
  have cut: "pb = take 4 pb @ take 2 (drop 4 pb) @ take 2 (drop 6 pb) @ take 2 (drop 8 pb) @ drop 10 pb" if "length pb = 16" for pb :: bytes
    by (rule sixteen [OF that]) simp
  have u: "map uint xs = map uint ys \<longleftrightarrow> xs = ys" for xs ys :: bytes
    by (metis linorder_neq_iff map_uint_less)
  have n: "le_number xs = le_number ys \<longleftrightarrow> xs = ys" if "length xs = length ys" for xs ys
    using le_number_inj that by blast
  have "drop 8 a = drop 8 b \<and> take 4 a = take 4 b \<and> take 2 (drop 4 a) = take 2 (drop 4 b) \<and> take 2 (drop 6 a) = take 2 (drop 6 b)"
    if net using assms that by (simp add: GuidFields_def u n)
  moreover have "drop 10 pb = drop 2 (drop 8 pb)" for pb :: bytes by simp
  moreover have "take 4 a = take 4 b \<and> take 2 (drop 4 a) = take 2 (drop 4 b) \<and> take 2 (drop 6 a) = take 2 (drop 6 b) \<and>
      take 2 (drop 8 a) = take 2 (drop 8 b) \<and> drop 10 a = drop 10 b" if "\<not> net"
    using assms that by (simp add: GuidFields_def u del: map_append)
  ultimately show ?thesis using cut [OF assms(1)] cut [OF assms(2)] by metis
qed


text \<open>
  Every type has its order in the segments, and with it every column of an index: the segments are order-preserving codes.
\<close>

subsection \<open>Text\<close>

lemma crt_toupper_nonzero: "crt_toupper c = 0 \<longleftrightarrow> c = 0"
proof
  assume c: "crt_toupper c = 0"
  have "c - 0x20 \<noteq> 0" if "0x61 \<le> c" using that by auto
  then show "c = 0" using c by (auto simp: crt_toupper_def split: if_splits)
qed (simp add: crt_toupper_def)

lemma TextCode_nonzero: "0 \<notin> set (TextCode pb)"
  by (auto simp: TextCode_def strlen_cut_def dest!: set_takeWhileD sym [of 0] simp: crt_toupper_nonzero)

lemma terminated_before: "0 \<notin> set xs \<Longrightarrow> 0 \<notin> set ys \<Longrightarrow> xs < ys \<Longrightarrow> before (xs @ [0]) (ys @ [0 :: u8])"
proof (induction xs arbitrary: ys)
  case Nil
  then show ?case by (cases ys) (auto simp: word_gt_0)
next
  case (Cons x xs)
  then show ?case by (cases ys) auto
qed

subsection \<open>Data\<close>

lemma NormalizeSigned_full:
  "length pb = LENGTH('a) div 8 \<Longrightarrow> NormalizeSigned TYPE('a::len) pb = Some (bPrefixData # StoreBigEndian (FlipHighBit (Unaligned pb :: 'a word)))"
  by (simp add: NormalizeSigned_def)

lemma NormalizeUnsigned_full:
  "length pb = LENGTH('a) div 8 \<Longrightarrow> NormalizeUnsigned TYPE('a::len) pb = Some (bPrefixData # StoreBigEndian (Unaligned pb :: 'a word))"
  by (simp add: NormalizeUnsigned_def)

lemma NormalizeFloat_full:
  "length pb = LENGTH('a) div 8 \<Longrightarrow> NormalizeFloat TYPE('a::len) pb = Some (bPrefixData # StoreBigEndian (FloatWord (Unaligned pb :: 'a word)))"
  by (simp add: NormalizeFloat_def FloatWord_def Let_def)

lemmas Normalize_full = NormalizeSigned_full NormalizeUnsigned_full NormalizeFloat_full

lemmas type_defs = FRECTextColumn_def FRECBinaryColumn_def LegalData_def DataSegment_def DataSmaller_def cbFixedType_def FLDNormalizeFixedSegment_def

lemma single: "length xs = Suc 0 \<longleftrightarrow> (\<exists>x. xs = [x])"
  by (auto simp: length_Suc_conv)

lemma data_before:
  assumes "LegalData kind field a" "LegalData kind field b" "DataSmaller net field a b"
  shows "before (DataSegment net kind field a) (DataSegment net kind field b)"
  using assms
  by (cases "f_coltyp field")
    (auto simp: type_defs Normalize_full single word_gt_0 TextCode_nonzero FlipHighBit_less word_less_def [symmetric]
      intro!: StoreBigEndian_before chunks_before terminated_before
      intro: less_before guid_before [where net = True, simplified] guid_before [where net = False, simplified]
        iffD2 [OF FloatWord_less [where k = 23]] iffD2 [OF FloatWord_less [where k = 52]])

lemma not_smaller_eq: "\<not> x < y \<Longrightarrow> \<not> y < x \<Longrightarrow> x = (y :: 'a::linorder)"
  by simp

lemma float_total: "\<not> FloatSmaller k v w \<Longrightarrow> \<not> FloatSmaller k w v \<Longrightarrow> v = w"
  by (metis FloatWord_less FloatWord_inj linorder_neq_iff)

lemma sint_same: "sint v = sint w \<longleftrightarrow> v = (w :: 'a::len word)"
  by (auto intro: signed_word_eqI)

lemma uint_same: "uint v = uint w \<longleftrightarrow> v = (w :: 'a::len word)"
  by (simp add: word_uint_eq_iff)

lemma guid_eq: "length a = 16 \<Longrightarrow> length b = 16 \<Longrightarrow> GuidFields net a = GuidFields net b \<longleftrightarrow> a = b"
  using guid_same by blast

lemma data_same:
  assumes "LegalData kind field a" "LegalData kind field b" "\<not> DataSmaller net field a b" "\<not> DataSmaller net field b a"
  shows "DataSegment net kind field a = DataSegment net kind field b"
  using assms
  by (cases "f_coltyp field")
    (auto simp: type_defs Normalize_full single sint_same uint_same guid_eq simp del: not_less linorder_not_less
      dest: float_total not_smaller_eq [where 'a = bytes] not_smaller_eq [where 'a = u8])

subsection \<open>Columns\<close>

lemmas prefix_defs = bPrefixNull_def bPrefixZeroLength_def bPrefixNullHigh_def bPrefixData_def

text \<open>The first byte of a segment tells the class of the column.\<close>

definition ClassByte :: "nat \<Rightarrow> u8" where
  "ClassByte class = [bPrefixNull, bPrefixZeroLength, bPrefixData, bPrefixNullHigh] ! class"

lemma ClassByte_less: "m < n \<Longrightarrow> n < 4 \<Longrightarrow> ClassByte m < ClassByte n"
proof -
  assume "m < n" "n < 4"
  then consider "m = 0 \<and> n = 1" | "m = 0 \<and> n = 2" | "m = 0 \<and> n = 3" | "m = 1 \<and> n = 2" | "m = 1 \<and> n = 3" | "m = 2 \<and> n = 3" by linarith
  then show ?thesis by cases (simp_all add: ClassByte_def prefix_defs)
qed

lemma ColumnClass_less: "ColumnClass high field c < 4"
  by (simp add: ColumnClass_def)

lemma DataSegment_head:
  assumes "LegalData kind field pb"
  shows "\<exists>t. DataSegment net kind field pb = bPrefixData # t"
  using assms by (cases "f_coltyp field") (auto simp: type_defs Normalize_full single)

lemma Segment_head:
  assumes "LegalColumn seg c"
  shows "\<exists>t. flip_bits (FDescending (fst seg)) (Segment idb seg c) = ClassByte (ColumnClass (FSortNullsHigh idb) (snd seg) c) # t"
proof (cases "NullColumn c")
  case True
  then show ?thesis by (auto simp: Segment_def FLDNormalizeNullSegment_def ColumnClass_def ClassByte_def Let_def NullColumn_def)
next
  case False
  then have "LegalData (colkind (fst seg)) (snd seg) (c_data c)" using assms by (simp add: LegalColumn_def)
  from DataSegment_head [OF this] False show ?thesis by (simp add: Segment_def ColumnClass_def ClassByte_def)
qed

lemma before_heads: "\<exists>t. xs = x # t \<Longrightarrow> \<exists>t. ys = y # t \<Longrightarrow> x < y \<Longrightarrow> before xs ys"
  by auto

lemma Ascending_before:
  assumes "LegalColumn seg c" "LegalColumn seg d" "Ascending idb (snd seg) c d"
  shows "before (flip_bits (FDescending (fst seg)) (Segment idb seg c)) (flip_bits (FDescending (fst seg)) (Segment idb seg d))"
proof (cases "ColumnClass (FSortNullsHigh idb) (snd seg) c < ColumnClass (FSortNullsHigh idb) (snd seg) d")
  case True
  show ?thesis
    by (rule before_heads [OF Segment_head [OF assms(1)] Segment_head [OF assms(2)] ClassByte_less [OF True ColumnClass_less]])
next
  case False
  then show ?thesis using assms by (auto simp: Ascending_def LegalColumn_def Segment_def intro: data_before)
qed

lemma Ascending_same:
  assumes "LegalColumn seg c" "LegalColumn seg d" "\<not> Ascending idb (snd seg) c d" "\<not> Ascending idb (snd seg) d c"
  shows "Segment idb seg c = Segment idb seg d"
proof (cases "NullColumn c \<or> NullColumn d")
  case True
  then show ?thesis using assms(3,4)
    by (auto simp: Ascending_def ColumnClass_def Segment_def FLDNormalizeNullSegment_def NullColumn_def split: if_splits)
next
  case False
  then show ?thesis using assms by (auto simp: Ascending_def LegalColumn_def Segment_def intro: data_same)
qed

interpretation columns: order_codes "Segment idb" "ColumnSmaller idb" LegalColumn for idb
proof
  fix seg :: "IDXSEG \<times> FIELD" and c d :: COLUMN
  assume l: "LegalColumn seg c" "LegalColumn seg d"
  show "before (Segment idb seg c) (Segment idb seg d)" if "ColumnSmaller idb seg c d"
    using Ascending_before [OF l, of idb] Ascending_before [OF l(2,1), of idb] that
    by (auto simp: ColumnSmaller_def before_flip split: if_splits)
  show "Segment idb seg c = Segment idb seg d" if "\<not> ColumnSmaller idb seg c d" "\<not> ColumnSmaller idb seg d c"
    using that by (intro Ascending_same [OF l]) (simp_all add: ColumnSmaller_def split: if_splits)
qed

end
