(* ===== verification/Key_Loop.thy ===== *)
theory Key_Loop
  imports Key_Segment
begin

text \<open>
  What the code writes for one column when the key has only \<open>cbKeyAvail\<close> bytes left: the first bytes of the segment, and for text as many bytes.
\<close>

subsection \<open>Binary values\<close>

definition ChunkTail :: "nat \<times> bytes \<times> bytes \<times> nat \<Rightarrow> bytes" where
  "ChunkTail r =
     (case r of (cbSegRemaining, pbNextChunk, pbSeg, _) \<Rightarrow>
        if cbSegRemaining > 0 then
          if length pbNextChunk \<ge> cbSegRemaining then pbSeg @ take cbSegRemaining pbNextChunk
          else pbSeg @ pbNextChunk @ replicate (cbSegRemaining - length pbNextChunk) 0
        else pbSeg)"

lemma ChunkTail_spec:
  assumes "pb \<noteq> []" "r \<le> length (BinaryChunks pb)" "fNormalisedEntireColumn \<longleftrightarrow> r = length (BinaryChunks pb)"
  shows "ChunkTail (ChunkLoop fNormalisedEntireColumn r pb s d) = s @ take r (BinaryChunks pb)"
  using assms
proof (induction pb arbitrary: r s d rule: BinaryChunks.induct)
  case (1 pb)
  have chunks: "BinaryChunks pb = (if length pb \<le> 8 then pb @ replicate (8 - length pb) 0 @ [of_nat (length pb)]
      else take 8 pb @ [9] @ BinaryChunks (drop 8 pb))" by (subst BinaryChunks.simps) simp
  consider (short) "r < 9" | (last) "9 \<le> r" "length pb \<le> 8" | (more) "9 \<le> r" "8 < length pb" by linarith
  then show ?case
  proof cases
    case short
    then show ?thesis
      by (subst ChunkLoop.simps) (auto simp: cbFLDBinaryChunkNormalized_def ChunkTail_def chunks take_Cons')
  next
    case last
    have len: "length (BinaryChunks pb) = 9" using last by (simp add: chunks)
    then have r: "r = 9" "fNormalisedEntireColumn" using 1 last by simp_all
    show ?thesis
      by (subst ChunkLoop.simps, subst ChunkLoop.simps)
        (use r last in \<open>auto simp: Let_def cbFLDBinaryChunkNormalized_def cbFLDBinaryChunk_def ChunkTail_def chunks\<close>)
  next
    case more
    have len: "length (BinaryChunks pb) = 9 + length (BinaryChunks (drop 8 pb))" using more by (simp add: chunks)
    have "ChunkTail (ChunkLoop fNormalisedEntireColumn (r - 9) (drop 8 pb) (s @ take 8 pb @ [9]) d) =
        (s @ take 8 pb @ [9]) @ take (r - 9) (BinaryChunks (drop 8 pb))"
      by (rule "1.IH") (use 1 more len in auto)
    then show ?thesis
      by (subst ChunkLoop.simps) (use more in \<open>simp add: Let_def cbFLDBinaryChunkNormalized_def cbFLDBinaryChunk_def chunks take_Cons'\<close>)
  qed
qed

lemma FLDNormalizeBinarySegment_spec:
  assumes "pbField \<noteq> []" "cbKeyAvail > 0" "cbKeyMost \<le> cbVarSegMac"
  shows "\<exists>ib. FLDNormalizeBinarySegment pbField cbKeyAvail cbKeyMost cbVarSegMac fixed =
      (take cbKeyAvail (bPrefixData # (if fixed then pbField else BinaryChunks pbField)),
       cbKeyAvail < Suc (length (if fixed then pbField else BinaryChunks pbField)), ib)"
proof (cases fixed)
  case True
  then show ?thesis using assms by (cases cbKeyAvail) (auto simp: FLDNormalizeBinarySegment_def Let_def)
next
  case False
  let ?len = "length (BinaryChunks pbField)" and ?m = "min cbKeyAvail (Suc (length (BinaryChunks pbField)))"
  have len: "(length pbField + (cbFLDBinaryChunk - 1)) div cbFLDBinaryChunk * cbFLDBinaryChunkNormalized = ?len"
    using assms(1) by (simp add: length_BinaryChunks cbFLDBinaryChunk_def cbFLDBinaryChunkNormalized_def)
  obtain rest chunk seg ib where loop: "ChunkLoop (\<not> cbKeyAvail < Suc ?len) (?m - 1) pbField [bPrefixData] 0 = (rest, chunk, seg, ib)"
    by (metis prod_cases4)
  have "ChunkTail (rest, chunk, seg, ib) = [bPrefixData] @ take (?m - 1) (BinaryChunks pbField)"
    unfolding loop [symmetric] by (rule ChunkTail_spec) (use assms in auto)
  moreover have "take cbKeyAvail (bPrefixData # BinaryChunks pbField) = [bPrefixData] @ take (?m - 1) (BinaryChunks pbField)"
    using assms(2) by (cases cbKeyAvail) (auto simp: min_def)
  ultimately show ?thesis
    using assms False loop len
    by (auto simp: FLDNormalizeBinarySegment_def Let_def ChunkTail_def min_def not_less split: if_splits)
qed

subsection \<open>Text\<close>

lemma strlen_cut_take: "strlen_cut (take n pb) = take n (strlen_cut pb)"
  unfolding strlen_cut_def by (induction pb arbitrary: n) (auto simp: take_Cons')

lemma length_strlen_cut: "length (strlen_cut pb) \<le> length pb"
  by (simp add: strlen_cut_def length_takeWhile_le)

lemma strlen_cut_nth: "length (strlen_cut pb) < length pb \<Longrightarrow> pb ! length (strlen_cut pb) = 0"
  unfolding strlen_cut_def using nth_length_takeWhile by fastforce

lemma strlen_cut_inside: "n < length (strlen_cut pb) \<Longrightarrow> pb ! n \<noteq> 0"
  unfolding strlen_cut_def using nth_mem [of n "takeWhile (\<lambda>b. b \<noteq> 0) pb"] takeWhile_nth [of n "\<lambda>b. b \<noteq> 0" pb]
  by (auto dest: set_takeWhileD)

lemma length_TextCode [simp]: "length (TextCode pb) = length (strlen_cut pb)"
  by (simp add: TextCode_def)

lemma ErrUtilNormText_fits:
  assumes "length (strlen_cut pb) < n"
  shows "ErrUtilNormText pb n = (errSuccess, TextCode pb @ [0])"
proof (cases "length pb < n")
  case True
  then show ?thesis by (simp add: ErrUtilNormText_def TextCode_def crt_clocale_strupr_def)
next
  case False
  have cut: "strlen_cut (take (n - Suc 0) pb) = strlen_cut pb" using assms by (simp add: strlen_cut_take)
  have "n = length (strlen_cut pb) + 1 \<Longrightarrow> pb ! length (strlen_cut pb) = 0" using False by (intro strlen_cut_nth) simp
  then show ?thesis using False assms
    by (simp add: ErrUtilNormText_def Let_def cut TextCode_def crt_clocale_strupr_def)
qed

lemma ErrUtilNormText_cut:
  assumes "n \<le> length (strlen_cut pb)" "0 < n"
  shows "\<exists>out. ErrUtilNormText pb n = (wrnFLDKeyTooBig, out) \<and> length out = n"
proof -
  have "n \<le> length pb" "pb ! (n - 1) \<noteq> 0" using assms length_strlen_cut [of pb] strlen_cut_inside [of "n - 1" pb] by auto
  then show ?thesis
    using assms by (auto simp: ErrUtilNormText_def Let_def strlen_cut_take crt_clocale_strupr_def min_def)
qed

lemma ErrUtilNormText_0: "ErrUtilNormText pb 0 = (errSuccess, [])"
  by (simp add: ErrUtilNormText_def)


text \<open>
  The key of a record is the concatenation of the segments of its columns, cut off at \<open>CbKeyMost\<close>: the step and the loop of \<open>ErrRECIIRetrieveKey\<close>.
\<close>

subsection \<open>One column\<close>

text \<open>What of a segment \<open>full\<close> is written when \<open>avail\<close> bytes are left; \<open>short\<close> is the flag that the column was truncated.\<close>

definition SegmentPart :: "bool \<Rightarrow> nat \<Rightarrow> bytes \<Rightarrow> bytes \<Rightarrow> bool \<Rightarrow> bool" where
  "SegmentPart text avail full part short \<longleftrightarrow>
     (if length full \<le> avail then part = full \<and> \<not> short
      else avail \<le> length part \<and> (\<not> text \<longrightarrow> take avail part = take avail full) \<and> (short \<longrightarrow> length part = avail) \<and>
        (short \<or> avail < length part \<or> text \<and> avail = 1))"

definition TextData :: "IDXSEG \<times> FIELD \<Rightarrow> COLUMN \<Rightarrow> bool" where
  "TextData seg column \<longleftrightarrow> FRECTextColumn (f_coltyp (snd seg)) \<and> \<not> NullColumn column"

lemma SegmentPart_plain: "part = full \<Longrightarrow> SegmentPart text avail full part False"
  by (simp add: SegmentPart_def)

lemma SegmentPart_cut: "part = take avail full \<Longrightarrow> SegmentPart text avail full part (avail < length full)"
  by (simp add: SegmentPart_def)

lemma strlen_cut_255:
  "n \<le> 255 \<Longrightarrow> length (strlen_cut (take 255 pb)) < n \<longleftrightarrow> length (strlen_cut pb) < n"
  "n \<le> 255 \<Longrightarrow> length (strlen_cut pb) < n \<Longrightarrow> TextCode (take 255 pb) = TextCode pb"
  by (auto simp: strlen_cut_take TextCode_def min_def)

lemma TextSegment_spec:
  assumes "0 < avail" "avail \<le> cbKeyMost"
  shows "\<exists>out err. ErrFLDNormalizeTextSegment M pb avail cbKeyMost (cbKeyMost + 1) False = (err, bPrefixData # out) \<and> \<not> failure err \<and>
      SegmentPart True avail (bPrefixData # TextCode pb @ [0]) (bPrefixData # out) (err = wrnFLDKeyTooBig) \<and> (err = wrnFLDKeyTooBig \<or> err = errSuccess) \<and>
      length (bPrefixData # out) \<le> avail"
proof -
  define pb' where "pb' = (if cbKeyMost = JET_cbKeyMost_OLD then take 255 pb else pb)"
  have small: "n \<le> avail \<Longrightarrow> length (strlen_cut pb') < n \<longleftrightarrow> length (strlen_cut pb) < n"
    "n \<le> avail \<Longrightarrow> length (strlen_cut pb) < n \<Longrightarrow> TextCode pb' = TextCode pb" for n
    using assms(2) strlen_cut_255 [of n pb] by (auto simp: pb'_def JET_cbKeyMost_OLD_def)
  have min_take: "take (min (length pb) n) pb = take n pb" for n by (simp add: min_def)
  have field: "take (if cbKeyMost = JET_cbKeyMost_OLD then min (length pb div 1 * 1) ((cbKeyMost + 1 - 1) div 1 * 1) else length pb div 1 * 1) pb = pb'"
    by (simp add: pb'_def JET_cbKeyMost_OLD_def min_take)
  have avail': "min avail (cbKeyMost + 1) - 1 = avail - 1" using assms by simp
  have run: "ErrFLDNormalizeTextSegment M pb avail cbKeyMost (cbKeyMost + 1) False =
      (case ErrUtilNormText pb' (avail - 1) of (err, out) \<Rightarrow> if failure err then (err, []) else (err, bPrefixData # out))"
    unfolding ErrFLDNormalizeTextSegment_def Let_def if_False field avail' by (simp split: prod.split)
  consider (fits) "length (strlen_cut pb') < avail - 1" | (short) "0 < avail - 1" "avail - 1 \<le> length (strlen_cut pb')" | (one) "avail = 1"
    using assms by linarith
  then show ?thesis
  proof cases
    case fits
    then have "length (strlen_cut pb) < avail - 1" "TextCode pb' = TextCode pb" using small [of "avail - 1"] by auto
    then show ?thesis using ErrUtilNormText_fits [OF fits] unfolding run by (simp add: failure_def SegmentPart_def)
  next
    case short
    then have "\<not> length (strlen_cut pb) < avail - 1" using small(1) [of "avail - 1"] by auto
    moreover obtain out where "ErrUtilNormText pb' (avail - 1) = (wrnFLDKeyTooBig, out)" "length out = avail - 1"
      using ErrUtilNormText_cut [OF short(2,1)] by blast
    ultimately show ?thesis using short(1) assms(1) unfolding run
      by (intro exI [of _ out] exI [of _ wrnFLDKeyTooBig]) (simp add: failure_def SegmentPart_def)
  next
    case one
    then show ?thesis unfolding run by (simp add: ErrUtilNormText_0 failure_def SegmentPart_def)
  qed
qed

lemma DataSegment_fixed:
  assumes "LegalData kind field pb" "\<not> FRECTextColumn (f_coltyp field)" "\<not> FRECBinaryColumn (f_coltyp field)"
  shows "FLDNormalizeFixedSegment pb (f_coltyp field) net False = Some (DataSegment net kind field pb)"
  using assms by (cases "f_coltyp field") (auto simp: type_defs Normalize_full single)

lemma NormalizeColumn_spec:
  assumes limit: "CbVarSegMac idb = CbKeyMost idb" and avail: "0 < avail" "avail \<le> CbKeyMost idb" and legal: "LegalColumn (idxseg, field) c"
  shows "\<exists>part short. NormalizeColumn M idb idxseg field (c_fNull c) (c_data c) avail False = Some (errSuccess, part, short) \<and>
      SegmentPart (TextData (idxseg, field) c) avail (flip_bits (FDescending idxseg) (Segment idb (idxseg, field) c)) part short"
proof (cases "NullColumn c")
  case True
  then show ?thesis by (auto simp: NormalizeColumn_def NullColumn_def Segment_def intro: SegmentPart_plain)
next
  case data: False
  then have ld: "LegalData (colkind idxseg) field (c_data c)" using legal by (simp add: LegalColumn_def)
  have seg: "flip_bits (FDescending idxseg) (Segment idb (idxseg, field) c) = DataSegment (FDotNetGuid idb) (colkind idxseg) field (c_data c)"
    using data by (simp add: Segment_def)
  have mac: "cbVarSegMac_of idb = CbKeyMost idb + 1" by (simp add: cbVarSegMac_of_def limit)
  consider (chars) "FRECTextColumn (f_coltyp field)" | (binary) "\<not> FRECTextColumn (f_coltyp field)" "FRECBinaryColumn (f_coltyp field)"
    | (other) "\<not> FRECTextColumn (f_coltyp field)" "\<not> FRECBinaryColumn (f_coltyp field)" by blast
  then show ?thesis
  proof cases
    case chars
    then have "\<not> f_fUnicode field" using ld by (simp add: LegalData_def)
    then show ?thesis using TextSegment_spec [OF avail, of M "c_data c"] chars data unfolding seg
      by (auto simp: NormalizeColumn_def NullColumn_def mac DataSegment_def TextData_def)
  next
    case binary
    obtain ib where "FLDNormalizeBinarySegment (c_data c) avail (CbKeyMost idb) (cbVarSegMac_of idb) (colkind idxseg = colFixed) =
        (take avail (DataSegment (FDotNetGuid idb) (colkind idxseg) field (c_data c)),
         avail < length (DataSegment (FDotNetGuid idb) (colkind idxseg) field (c_data c)), ib)"
      using FLDNormalizeBinarySegment_spec [of "c_data c" avail "CbKeyMost idb" "cbVarSegMac_of idb" "colkind idxseg = colFixed"] data avail binary
      by (auto simp: NullColumn_def mac DataSegment_def)
    then show ?thesis using data binary unfolding seg
      by (auto simp: NormalizeColumn_def NullColumn_def intro: SegmentPart_cut)
  next
    case other
    then show ?thesis using DataSegment_fixed [OF ld other] data unfolding seg
      by (auto simp: NormalizeColumn_def NullColumn_def intro: SegmentPart_plain)
  qed
qed

subsection \<open>The loop\<close>

text \<open>
  The state of the loop after the columns of \<open>seen\<close>, given with their segments of the index: the key is what they
  make, cut off at \<open>CbKeyMost\<close>; cut text is only known by its length.  The flags are about all the columns as long as the key is not full.
\<close>

definition KeyOf :: "IDB \<Rightarrow> ((IDXSEG \<times> FIELD) \<times> COLUMN) list \<Rightarrow> bytes" where
  "KeyOf idb seen = concat (map (\<lambda>(seg, column). Segment idb seg column) seen)"

definition KeySoFar :: "IDB \<Rightarrow> ((IDXSEG \<times> FIELD) \<times> COLUMN) list \<Rightarrow> KEYLOOP \<Rightarrow> bool" where
  "KeySoFar idb seen st \<longleftrightarrow>
     kl_cbKeyAvail st = CbKeyMost idb - length (KeyOf idb seen) \<and>
     length (kl_key st) = min (CbKeyMost idb) (length (KeyOf idb seen)) \<and>
     (length (KeyOf idb seen) \<le> CbKeyMost idb \<or> (\<forall>(seg, column) \<in> set seen. \<not> TextData seg column) \<longrightarrow>
       kl_key st = take (CbKeyMost idb) (KeyOf idb seen)) \<and>
     (kl_fColumnTruncated st \<or> kl_fKeyTruncated st \<longrightarrow> CbKeyMost idb \<le> length (KeyOf idb seen)) \<and>
     (length (KeyOf idb seen) < CbKeyMost idb \<longrightarrow>
       kl_fAllNulls st = list_all (c_fNull \<circ> snd) seen \<and> kl_fNullSeg st = list_ex (c_fNull \<circ> snd) seen \<and>
       kl_fNullFirstSeg st = (seen \<noteq> [] \<and> c_fNull (snd (hd seen))))"

lemma KeyOf_snoc [simp]: "KeyOf idb (seen @ [(seg, column)]) = KeyOf idb seen @ Segment idb seg column"
  by (simp add: KeyOf_def)

lemma Segment_nonempty: "LegalColumn seg column \<Longrightarrow> 0 < length (Segment idb seg column)"
  using Segment_head [of seg column idb] by (metis length_flip_bits length_Cons zero_less_Suc)

lemma RetrieveKeyStep_spec:
  assumes inv: "KeySoFar idb seen st" and limit: "CbVarSegMac idb = CbKeyMost idb" and tuples: "\<not> FTuples idb"
    and legal: "LegalColumn seg column" "length (c_data column) \<le> cbDataMost"
    and step: "RetrieveKeyStep M idb ichOffset cbDataMost (length seen) seg itag column st = Some (Inr st')"
  shows "KeySoFar idb (seen @ [(seg, column)]) st'"
proof (cases "kl_cbKeyAvail st = 0")
  case True
  then have st': "kl_key st' = kl_key st" "kl_cbKeyAvail st' = 0" using step
    by (auto simp: RetrieveKeyStep_def Let_def split: prod.splits if_splits)
  have "CbKeyMost idb \<le> length (KeyOf idb seen)" using inv True by (simp add: KeySoFar_def)
  then show ?thesis using inv st' Segment_nonempty [OF legal(1), of idb] by (auto simp: KeySoFar_def)
next
  case False
  obtain idxseg field where seg: "seg = (idxseg, field)" by (cases seg)
  let ?S = "Segment idb seg column" and ?avail = "kl_cbKeyAvail st"
  have avail: "0 < ?avail" "?avail \<le> CbKeyMost idb" "CbKeyMost idb = length (KeyOf idb seen) + ?avail" "kl_key st = KeyOf idb seen"
    using inv False by (auto simp: KeySoFar_def)
  have flags: "\<not> kl_fColumnTruncated st" "\<not> kl_fKeyTruncated st" using inv avail by (auto simp: KeySoFar_def)
  obtain part short where part: "NormalizeColumn M idb idxseg field (c_fNull column) (c_data column) ?avail False = Some (errSuccess, part, short)"
      "SegmentPart (TextData seg column) ?avail (flip_bits (FDescending idxseg) ?S) part short"
    using NormalizeColumn_spec [OF limit avail(1,2), of idxseg field column M] legal(1) by (auto simp: seg)
  have st': "kl_key st' = KeyOf idb seen @ flip_bits (FDescending idxseg) (if short then part else take ?avail part)"
      "kl_cbKeyAvail st' = ?avail - length part" "kl_fColumnTruncated st' = short" "kl_fKeyTruncated st' = (short \<or> ?avail < length part)"
      "kl_fAllNulls st' = (kl_fAllNulls st \<and> c_fNull column)" "kl_fNullSeg st' = (kl_fNullSeg st \<or> c_fNull column)"
      "kl_fNullFirstSeg st' = (kl_fNullFirstSeg st \<or> (c_fNull column \<and> seen = []))"
    using step False flags part(1) legal(2) tuples avail(4)
    by (auto simp: RetrieveKeyStep_def Let_def seg failure_def split: if_splits)
  have nulls: "kl_fAllNulls st = list_all (c_fNull \<circ> snd) seen \<and> kl_fNullSeg st = list_ex (c_fNull \<circ> snd) seen \<and>
      kl_fNullFirstSeg st = (seen \<noteq> [] \<and> c_fNull (snd (hd seen)))"
    using inv avail by (simp add: KeySoFar_def)
  show ?thesis
  proof (cases "length ?S \<le> ?avail")
    case True
    then have "part = flip_bits (FDescending idxseg) ?S" "\<not> short" using part(2) by (simp_all add: SegmentPart_def)
    then show ?thesis using True st' avail nulls by (auto simp: KeySoFar_def hd_append)
  next
    case long: False
    then have p: "?avail \<le> length part" "short \<longrightarrow> length part = ?avail" "\<not> TextData seg column \<longrightarrow> take ?avail part = take ?avail (flip_bits (FDescending idxseg) ?S)"
      using part(2) by (simp_all add: SegmentPart_def)
    have cut_part: "(if short then part else take ?avail part) = take ?avail part" using p by auto
    have plain: "\<not> TextData seg column \<Longrightarrow> kl_key st' = take (CbKeyMost idb) (KeyOf idb seen @ ?S)"
      using st'(1) cut_part p avail(3) by (simp add: take_flip_bits)
    have "length (kl_key st') = CbKeyMost idb" using st'(1) cut_part p avail(3) by simp
    then show ?thesis using long st'(2) p plain avail by (auto simp: KeySoFar_def)
  qed
qed

lemma RetrieveKeyLoop_spec:
  assumes "KeySoFar idb seen st" "CbVarSegMac idb = CbKeyMost idb" "\<not> FTuples idb"
    and "list_all2 LegalColumn segs columns" "list_all (\<lambda>column. length (c_data column) \<le> cbDataMost) columns"
    and "RetrieveKeyLoop M idb ichOffset cbDataMost (length seen) segs rgitag columns st = Some (Inr st')"
  shows "KeySoFar idb (seen @ zip segs columns) st'"
  using assms(1,4,5,6)
proof (induction segs arbitrary: seen columns rgitag st)
  case Nil
  then show ?case by simp
next
  case (Cons seg segs)
  from Cons.prems(2) obtain column columns' where c: "columns = column # columns'" by (cases columns) auto
  show ?case
  proof (cases rgitag)
    case Nil
    then show ?thesis using Cons.prems(4) by simp
  next
    case (Cons itag rgitag')
    from Cons.prems(4) c Cons obtain st1 where
      s: "RetrieveKeyStep M idb ichOffset cbDataMost (length seen) seg itag column st = Some (Inr st1)"
         "RetrieveKeyLoop M idb ichOffset cbDataMost (length (seen @ [(seg, column)])) segs rgitag' columns' st1 = Some (Inr st')"
      by (auto split: option.splits sum.splits)
    have "KeySoFar idb (seen @ [(seg, column)]) st1"
      by (rule RetrieveKeyStep_spec [OF Cons.prems(1) assms(2,3) _ _ s(1)]) (use Cons.prems c in auto)
    from Cons.IH [OF this _ _ s(2)] show ?thesis using Cons.prems c by simp
  qed
qed


text \<open>
  The whole loop, from the first column of the index to the last: what is known when it made a key, and that it makes one unless truncation is disallowed.
\<close>

text \<open>The results that come with a key.\<close>

definition KeyMade :: "KEYERR \<Rightarrow> bool" where
  "KeyMade err \<longleftrightarrow> err \<in> {errSuccess, wrnFLDNullKey, wrnFLDNullFirstSeg, wrnFLDNullSeg}"

text \<open>Indexes without tuples and without a limit of their own for each column, and the columns of a record for them.\<close>

definition PlainIndex :: "IDB \<Rightarrow> bool" where
  "PlainIndex idb \<longleftrightarrow> CbVarSegMac idb = CbKeyMost idb \<and> \<not> FTuples idb"

definition LegalColumns :: "IDB \<Rightarrow> COLUMN list \<Rightarrow> bool" where
  "LegalColumns idb columns \<longleftrightarrow> list_all2 LegalColumn (rgidxseg idb) columns"

definition NoText :: "IDB \<Rightarrow> bool" where
  "NoText idb \<longleftrightarrow> list_all (\<lambda>(idxseg, field). \<not> FRECTextColumn (f_coltyp field)) (rgidxseg idb)"

abbreviation FullKey :: "IDB \<Rightarrow> COLUMN list \<Rightarrow> bytes" where
  "FullKey idb columns \<equiv> tuple_code (Segment idb) (rgidxseg idb) columns"

abbreviation ColumnsSmaller :: "IDB \<Rightarrow> COLUMN list \<Rightarrow> COLUMN list \<Rightarrow> bool" where
  "ColumnsSmaller idb c d \<equiv> tuple_smaller (ColumnSmaller idb) (rgidxseg idb) c d"

lemma KeyOf_zip: "KeyOf idb (zip segs columns) = tuple_code (Segment idb) segs columns"
  by (simp add: KeyOf_def tuple_code_def)

lemma NoText_seen: "NoText idb \<Longrightarrow> (seg, column) \<in> set (zip (rgidxseg idb) columns) \<Longrightarrow> \<not> TextData seg column"
  using set_zip_leftD [of seg column "rgidxseg idb" columns] by (cases seg) (auto simp: NoText_def TextData_def list_all_iff)

definition InitialLoop :: "IDB \<Rightarrow> KEYLOOP" where
  "InitialLoop idb = \<lparr>kl_key = [], kl_cbKeyAvail = CbKeyMost idb, kl_fAllNulls = True, kl_fNullFirstSeg = False, kl_fNullSeg = False,
     kl_fColumnTruncated = False, kl_fKeyTruncated = False, kl_fAllMVOutOfValues = True, kl_fNeedMoreData = False\<rparr>"

lemma KeySoFar_initial: "KeySoFar idb [] (InitialLoop idb)"
  by (simp add: KeySoFar_def InitialLoop_def KeyOf_def)

lemma RetrieveKeyStep_error:
  "RetrieveKeyStep M idb ichOffset cbDataMost i seg itag column st = Some (Inl (err, need)) \<Longrightarrow> \<not> KeyMade err"
  by (auto simp: RetrieveKeyStep_def Let_def KeyMade_def failure_def split: prod.splits if_splits option.splits)

lemma RetrieveKeyLoop_error:
  "RetrieveKeyLoop M idb ichOffset cbDataMost i segs rgitag columns st = Some (Inl (err, j, need)) \<Longrightarrow> \<not> KeyMade err"
proof (induction segs arbitrary: i rgitag columns st)
  case (Cons seg segs)
  then show ?case by (cases rgitag; cases columns) (auto split: option.splits sum.splits dest: RetrieveKeyStep_error)
qed (simp split: if_splits)

lemma RetrieveKey_unfold:
  assumes "PlainIndex idb" "LegalColumns idb (columns cbDataMost)" "list_all (\<lambda>column. length (c_data column) \<le> cbDataMost) (columns cbDataMost)"
    and "ErrRECIIRetrieveKey M columns idb rgitag ichOffset cbDataMost = Some (err, key, iidxseg, fNeedMoreData)" "KeyMade err"
  obtains st where "KeySoFar idb (zip (rgidxseg idb) (columns cbDataMost)) st" "key = kl_key st"
    "err = (if kl_fAllNulls st then wrnFLDNullKey else if kl_fNullFirstSeg st then wrnFLDNullFirstSeg else if kl_fNullSeg st then wrnFLDNullSeg else errSuccess)"
proof -
  note bad = RetrieveKeyLoop_error
  have not_out: "\<not> KeyMade wrnFLDOutOfKeys" by (simp add: KeyMade_def)
  obtain st where loop: "RetrieveKeyLoop M idb ichOffset cbDataMost 0 (rgidxseg idb) rgitag (columns cbDataMost) (InitialLoop idb) = Some (Inr st)"
      "key = kl_key st"
      "err = (if kl_fAllNulls st then wrnFLDNullKey else if kl_fNullFirstSeg st then wrnFLDNullFirstSeg else if kl_fNullSeg st then wrnFLDNullSeg else errSuccess)"
    using assms(4,5) not_out bad unfolding ErrRECIIRetrieveKey_def InitialLoop_def [symmetric] Let_def
    by (auto split: option.splits sum.splits if_splits)
  have "KeySoFar idb ([] @ zip (rgidxseg idb) (columns cbDataMost)) st"
    by (rule RetrieveKeyLoop_spec [where seen = "[]" and st = "InitialLoop idb"])
      (use assms loop(1) KeySoFar_initial in \<open>auto simp: PlainIndex_def LegalColumns_def\<close>)
  then show thesis using that loop by simp
qed

lemma length_KeyOf_zip: "length (KeyOf idb seen) \<le> length (KeyOf idb (seen @ rest))"
  by (simp add: KeyOf_def)

lemma RetrieveKeyStep_total:
  assumes inv: "KeySoFar idb seen st" and index: "PlainIndex idb"
    and legal: "LegalColumn seg column" "length (c_data column) \<le> cbDataMost" "itag \<le> 1 \<or> \<not> c_fNull column"
  shows "\<exists>r. RetrieveKeyStep M idb ichOffset cbDataMost (length seen) seg itag column st = Some r \<and>
      (case r of Inl (err, _) \<Rightarrow> err = errKeyTruncated \<and> FDisallowTruncation idb \<and> CbKeyMost idb < length (KeyOf idb (seen @ [(seg, column)]))
       | Inr st' \<Rightarrow> FDisallowTruncation idb \<and> \<not> TextData seg column \<longrightarrow> length (KeyOf idb (seen @ [(seg, column)])) \<le> CbKeyMost idb)"
proof (cases "kl_cbKeyAvail st = 0")
  case True
  then have "CbKeyMost idb < length (KeyOf idb (seen @ [(seg, column)]))"
    using inv Segment_nonempty [OF legal(1), of idb] by (simp add: KeySoFar_def flip: length_greater_0_conv) linarith?
  then show ?thesis using True legal(3) by (cases seg) (auto simp: RetrieveKeyStep_def Let_def)
next
  case False
  obtain idxseg field where seg: "seg = (idxseg, field)" by (cases seg)
  let ?S = "Segment idb seg column" and ?avail = "kl_cbKeyAvail st"
  have avail: "0 < ?avail" "?avail \<le> CbKeyMost idb" "CbKeyMost idb = length (KeyOf idb seen) + ?avail"
    using inv False by (auto simp: KeySoFar_def)
  have flags: "\<not> kl_fColumnTruncated st" "\<not> kl_fKeyTruncated st" using inv avail by (auto simp: KeySoFar_def)
  obtain part short where part: "NormalizeColumn M idb idxseg field (c_fNull column) (c_data column) ?avail False = Some (errSuccess, part, short)"
      "SegmentPart (TextData seg column) ?avail (flip_bits (FDescending idxseg) ?S) part short"
    using NormalizeColumn_spec [OF _ avail(1,2), of idxseg field column M] legal(1) index by (auto simp: seg PlainIndex_def)
  show ?thesis
    using False part flags legal index avail(3)
    by (auto simp: RetrieveKeyStep_def Let_def seg PlainIndex_def failure_def SegmentPart_def split: if_splits)
qed

lemma RetrieveKeyLoop_total:
  assumes "KeySoFar idb seen st" "PlainIndex idb" "list_all2 LegalColumn segs columns"
    and "list_all (\<lambda>column. length (c_data column) \<le> cbDataMost) columns"
    and "list_all2 (\<lambda>itag column. itag \<le> 1 \<or> \<not> c_fNull column) rgitag columns"
  shows "\<exists>r. RetrieveKeyLoop M idb ichOffset cbDataMost (length seen) segs rgitag columns st = Some r \<and>
      (case r of Inl (err, _) \<Rightarrow> err = errKeyTruncated \<and> FDisallowTruncation idb \<and> CbKeyMost idb < length (KeyOf idb (seen @ zip segs columns))
       | Inr st' \<Rightarrow> FDisallowTruncation idb \<and> (\<forall>(seg, column) \<in> set (zip segs columns). \<not> TextData seg column) \<and>
           length (KeyOf idb seen) \<le> CbKeyMost idb \<longrightarrow> length (KeyOf idb (seen @ zip segs columns)) \<le> CbKeyMost idb)"
  using assms(1,3,4,5)
proof (induction segs arbitrary: seen columns rgitag st)
  case Nil
  then show ?case by simp
next
  case (Cons seg segs)
  from Cons.prems(2,4) obtain column columns' itag rgitag' where c: "columns = column # columns'" "rgitag = itag # rgitag'"
    by (auto simp: list_all2_Cons1 list_all2_Cons2)
  have l: "LegalColumn seg column" "length (c_data column) \<le> cbDataMost" "itag \<le> 1 \<or> \<not> c_fNull column" using Cons.prems c by auto
  let ?seen = "seen @ [(seg, column)]"
  have app: "seen @ zip (seg # segs) columns = ?seen @ zip segs columns'" using c by simp
  from RetrieveKeyStep_total [OF Cons.prems(1) assms(2) l, of M ichOffset] obtain r where
    r: "RetrieveKeyStep M idb ichOffset cbDataMost (length seen) seg itag column st = Some r"
       "case r of Inl (err, _) \<Rightarrow> err = errKeyTruncated \<and> FDisallowTruncation idb \<and> CbKeyMost idb < length (KeyOf idb ?seen)
         | Inr st' \<Rightarrow> FDisallowTruncation idb \<and> \<not> TextData seg column \<longrightarrow> length (KeyOf idb ?seen) \<le> CbKeyMost idb" by blast
  show ?case
  proof (cases r)
    case (Inl e)
    then show ?thesis using r c length_KeyOf_zip [of idb ?seen "zip segs columns'"] unfolding app by auto
  next
    case (Inr st1)
    have "KeySoFar idb ?seen st1"
      using RetrieveKeyStep_spec [OF Cons.prems(1) _ _ l(1,2)] assms(2) r(1) Inr by (auto simp: PlainIndex_def)
    from Cons.IH [OF this, of columns' rgitag'] Cons.prems c obtain r' where
      "RetrieveKeyLoop M idb ichOffset cbDataMost (length ?seen) segs rgitag' columns' st1 = Some r'"
      "case r' of Inl (err, _) \<Rightarrow> err = errKeyTruncated \<and> FDisallowTruncation idb \<and> CbKeyMost idb < length (KeyOf idb (?seen @ zip segs columns'))
       | Inr st' \<Rightarrow> FDisallowTruncation idb \<and> (\<forall>(seg, column) \<in> set (zip segs columns'). \<not> TextData seg column) \<and>
           length (KeyOf idb ?seen) \<le> CbKeyMost idb \<longrightarrow> length (KeyOf idb (?seen @ zip segs columns')) \<le> CbKeyMost idb"
      by auto
    then show ?thesis using r Inr c unfolding app by (auto split: sum.splits)
  qed
qed

end
