(* ===== verification/Key_Retrieve.thy ===== *)
theory Key_Retrieve
  imports Key_Loop
begin

text \<open>
  The way back from a key to its columns (\<open>RECIRetrieveColumnFromKey\<close> and \<open>ErrRECIRetrieveColumnFromKey\<close>).  The key is the list of the bytes from
  \<open>pbKey\<close> to the end of its buffer; a read behind it is \<open>None\<close>.  A column comes back as its bytes, \<open>pfNull\<close> and the key behind it.
\<close>

subsection \<open>The columns of each type\<close>

definition bMask :: "bool \<Rightarrow> 'a::len word" where
  "bMask fDescending = (if fDescending then NOT 0 else 0)"

text \<open>Columns of a fixed size, as the words \<open>restore\<close> makes of the words in the key.\<close>

definition RetrieveWord :: "('a::len word \<Rightarrow> 'a word) \<Rightarrow> bool \<Rightarrow> u8 \<Rightarrow> bytes \<Rightarrow> (bytes \<times> bool \<times> bytes) option" where
  "RetrieveWord restore fDescending bPrefixNullT pbKey =
     (case pbKey of
        [] \<Rightarrow> None
      | b # pbKey \<Rightarrow>
          if b = bMask fDescending XOR bPrefixNullT then Some ([], True, pbKey)
          else if length pbKey < LENGTH('a) div 8 then None
          else Some (StoreUnaligned (restore (UnalignedBigEndian pbKey)), False, drop (LENGTH('a) div 8) pbKey))"

definition RestoreBit :: "bool \<Rightarrow> u8 \<Rightarrow> u8" where
  "RestoreBit fDescending b = (if bMask fDescending XOR b = 0 then 0x00 else 0xff)"

definition RestoreUnsigned :: "bool \<Rightarrow> 'a::len word \<Rightarrow> 'a word" where
  "RestoreUnsigned fDescending w = bMask fDescending XOR w"

definition RestoreSigned :: "bool \<Rightarrow> 'a::len word \<Rightarrow> 'a word" where
  "RestoreSigned fDescending w = bMask fDescending XOR FlipHighBit w"

definition RestoreFloat :: "bool \<Rightarrow> 'a::len word \<Rightarrow> 'a word" where
  "RestoreFloat fDescending w =
     (let dwT = bMask fDescending XOR w in if dwT AND maskHighBit \<noteq> 0 then FlipHighBit dwT else NOT dwT)"

text \<open>A GUID: the byte at \<open>order ! i\<close> of the column is the byte \<open>i\<close> of the key.\<close>

definition PutBytes :: "nat list \<Rightarrow> bytes \<Rightarrow> bytes" where
  "PutBytes order pbKey = fold (\<lambda>i pv. pv[order ! i := pbKey ! i]) [0..<length order] (replicate (length order) 0)"

definition RetrieveGuid :: "bool \<Rightarrow> bytes \<Rightarrow> (bytes \<times> bool \<times> bytes) option" where
  "RetrieveGuid fDotNetGuid pbKey =
     (case pbKey of
        [] \<Rightarrow> None
      | b # pbKey \<Rightarrow>
          if b = bPrefixData then
            if length pbKey < 16 then None
            else Some (PutBytes (if fDotNetGuid then rgDotNetGuidOrder else rgGuidOrder) pbKey, False, drop 16 pbKey)
          else Some ([], True, pbKey))"

text \<open>A binary or text column of fixed length.\<close>

definition RetrieveFixedField :: "bool \<Rightarrow> nat \<Rightarrow> bytes \<Rightarrow> (bytes \<times> bool \<times> bytes) option" where
  "RetrieveFixedField fDescending cbMaxLen pbKey =
     (case pbKey of
        [] \<Rightarrow> None
      | b # pbKey \<Rightarrow>
          if b = bMask fDescending XOR bPrefixData then
            if length pbKey < cbMaxLen then None else Some (flip_bits fDescending (take cbMaxLen pbKey), False, drop cbMaxLen pbKey)
          else Some ([], True, pbKey))"

text \<open>The chunks of a binary column, and text up to its terminator.\<close>

function RetrieveChunks :: "bool \<Rightarrow> bytes \<Rightarrow> bytes \<Rightarrow> (bytes \<times> bytes) option" where
  "RetrieveChunks fDescending pbKey pbColumn =
     (if length pbKey < cbFLDBinaryChunkNormalized then None
      else
        let bLast = pbKey ! (cbFLDBinaryChunkNormalized - 1);
            cbChunk = unat (bMask fDescending XOR bLast);
            cbChunk = (if cbChunk = cbFLDBinaryChunkNormalized then cbFLDBinaryChunkNormalized - 1 else cbChunk)
        in if length pbKey < cbChunk then None
           else
             let pbColumn = pbColumn @ flip_bits fDescending (take cbChunk pbKey);
                 pbKey = drop cbFLDBinaryChunkNormalized pbKey
             in if bLast = bMask fDescending XOR of_nat cbFLDBinaryChunkNormalized then RetrieveChunks fDescending pbKey pbColumn
                else Some (pbColumn, pbKey))"

  by pat_completeness auto

termination
  by (relation "measure (\<lambda>(_, pbKey, _). length pbKey)") (auto simp: Let_def cbFLDBinaryChunkNormalized_def)

declare RetrieveChunks.simps [simp del]

definition ScanTo :: "u8 \<Rightarrow> bytes \<Rightarrow> (bytes \<times> bytes) option" where
  "ScanTo delimiter pbKey =
     (case dropWhile (\<lambda>b. b \<noteq> delimiter) pbKey of
        [] \<Rightarrow> None
      | rest \<Rightarrow> Some (takeWhile (\<lambda>b. b \<noteq> delimiter) pbKey, rest))"

definition RetrieveText :: "bool \<Rightarrow> bool \<Rightarrow> bytes \<Rightarrow> (bytes \<times> bytes) option" where
  "RetrieveText fDescending fUnicode pbKey =
     (if fUnicode then
        Option.bind (ScanTo (bMask fDescending XOR bUnicodeSortKeySentinel) pbKey) (\<lambda>(pb1, pbKey).
        Option.bind (ScanTo (bMask fDescending XOR bUnicodeSortKeyTerminator) pbKey) (\<lambda>(pb2, pbKey).
        Some (flip_bits fDescending (pb1 @ pb2), drop 1 pbKey)))
      else
        Option.bind (ScanTo (bMask fDescending XOR bASCIISortKeyTerminator) pbKey) (\<lambda>(pb, pbKey).
        Some (flip_bits fDescending pb, drop 1 pbKey)))"

definition RetrieveVarField :: "bool \<Rightarrow> FIELD \<Rightarrow> u8 \<Rightarrow> bytes \<Rightarrow> (bytes \<times> bool \<times> bytes) option" where
  "RetrieveVarField fDescending field bPrefixNullT pbKey =
     (case pbKey of
        [] \<Rightarrow> None
      | b # pbKey \<Rightarrow>
          if b = bMask fDescending XOR bPrefixData then
            map_option (\<lambda>(pbColumn, pbKey). (pbColumn, False, pbKey))
              (if FRECBinaryColumn (f_coltyp field) then RetrieveChunks fDescending pbKey []
               else RetrieveText fDescending (f_fUnicode field) pbKey)
          else Some ([], b = bMask fDescending XOR bPrefixNullT, pbKey))"

definition RECIRetrieveColumnFromKey :: "IDB \<Rightarrow> IDXSEG \<times> FIELD \<Rightarrow> bytes \<Rightarrow> (bytes \<times> bool \<times> bytes) option" where
  "RECIRetrieveColumnFromKey idb seg pbKey =
     (let (idxseg, field) = seg;
          fDescending = FDescending idxseg;
          bPrefixNullT = (if FSortNullsHigh idb then bPrefixNullHigh else bPrefixNull);
          fFixedField = (colkind idxseg = colFixed)
      in case f_coltyp field of
           JET_coltypBit \<Rightarrow> RetrieveWord (RestoreBit fDescending) fDescending bPrefixNullT pbKey
         | JET_coltypUnsignedByte \<Rightarrow> RetrieveWord (RestoreUnsigned fDescending :: u8 \<Rightarrow> u8) fDescending bPrefixNullT pbKey
         | JET_coltypShort \<Rightarrow> RetrieveWord (RestoreSigned fDescending :: u16 \<Rightarrow> u16) fDescending bPrefixNullT pbKey
         | JET_coltypUnsignedShort \<Rightarrow> RetrieveWord (RestoreUnsigned fDescending :: u16 \<Rightarrow> u16) fDescending bPrefixNullT pbKey
         | JET_coltypLong \<Rightarrow> RetrieveWord (RestoreSigned fDescending :: u32 \<Rightarrow> u32) fDescending bPrefixNullT pbKey
         | JET_coltypUnsignedLong \<Rightarrow> RetrieveWord (RestoreUnsigned fDescending :: u32 \<Rightarrow> u32) fDescending bPrefixNullT pbKey
         | JET_coltypLongLong \<Rightarrow> RetrieveWord (RestoreSigned fDescending :: u64 \<Rightarrow> u64) fDescending bPrefixNullT pbKey
         | JET_coltypCurrency \<Rightarrow> RetrieveWord (RestoreSigned fDescending :: u64 \<Rightarrow> u64) fDescending bPrefixNullT pbKey
         | JET_coltypUnsignedLongLong \<Rightarrow> RetrieveWord (RestoreUnsigned fDescending :: u64 \<Rightarrow> u64) fDescending bPrefixNullT pbKey
         | JET_coltypIEEESingle \<Rightarrow> RetrieveWord (RestoreFloat fDescending :: u32 \<Rightarrow> u32) fDescending bPrefixNullT pbKey
         | JET_coltypIEEEDouble \<Rightarrow> RetrieveWord (RestoreFloat fDescending :: u64 \<Rightarrow> u64) fDescending bPrefixNullT pbKey
         | JET_coltypDateTime \<Rightarrow> RetrieveWord (RestoreFloat fDescending :: u64 \<Rightarrow> u64) fDescending bPrefixNullT pbKey
         | JET_coltypGUID \<Rightarrow> RetrieveGuid (FDotNetGuid idb) pbKey
         | _ \<Rightarrow>
             if fFixedField then RetrieveFixedField fDescending (f_cbMaxLen field) pbKey
             else RetrieveVarField fDescending field bPrefixNullT pbKey)"

subsection \<open>A column of the index\<close>

text \<open>
  The loop up to the column \<open>columnid\<close>.  Without it (or at the end of the buffer) the result is \<open>errSuccess\<close> with the last
  column that was found.
\<close>

fun RetrieveColumnLoop :: "IDB \<Rightarrow> nat \<Rightarrow> (IDXSEG \<times> FIELD) list \<Rightarrow> bytes \<Rightarrow> bytes \<Rightarrow> (KEYERR \<times> bytes) option" where
  "RetrieveColumnLoop idb columnid (seg # segs) pbKey dataColumn =
     (if pbKey = [] then Some (errSuccess, dataColumn)
      else
        case RECIRetrieveColumnFromKey idb seg pbKey of
          None \<Rightarrow> None
        | Some (dataColumn, fNull, pbKey) \<Rightarrow>
            if columnid = Columnid (fst seg) then Some (if fNull then wrnColumnNull else errSuccess, dataColumn)
            else RetrieveColumnLoop idb columnid segs pbKey dataColumn)"
| "RetrieveColumnLoop idb columnid [] pbKey dataColumn = Some (errSuccess, dataColumn)"

text \<open>The key is copied into a buffer of \<open>cbKeyMost\<close> bytes, which holds \<open>pvBuffer\<close> before.\<close>

definition ErrRECIRetrieveColumnFromKey :: "IDB \<Rightarrow> bytes KEY \<Rightarrow> nat \<Rightarrow> bytes \<Rightarrow> bytes \<Rightarrow> (KEYERR \<times> bytes) option" where
  "ErrRECIRetrieveColumnFromKey idb key columnid pvBuffer dataColumn =
     RetrieveColumnLoop idb columnid (rgidxseg idb) (CopyIntoBuffer key pvBuffer (int (CbKeyMost idb))) dataColumn"


text \<open>
  A segment gives back its column: every type, ascending and descending, and the loop over the columns of a key.
\<close>

subsection \<open>Words\<close>

lemma bMask_byte: "bMask d XOR b = (if d then b XOR 0xff else b)" for b :: u8
proof -
  have "(NOT 0 :: u8) = 0xff" by simp
  then show ?thesis by (simp only: bMask_def xor.commute [of _ b] split: if_split) simp
qed

lemma flip_bits_Cons [simp]: "flip_bits d (b # pb) = (bMask d XOR b) # flip_bits d pb"
  by (simp add: flip_bits_def bMask_byte)

lemma bMask_cancel [simp]: "bMask d XOR (bMask d XOR w) = w"
  by (simp flip: xor.assoc)

lemma bMask_same [simp]: "bMask d XOR v = bMask d XOR w \<longleftrightarrow> v = w"
  by (metis bMask_cancel)

lemma complement_memory: "0 \<le> x \<Longrightarrow> x < 256 ^ n \<Longrightarrow> map (\<lambda>b. b XOR 0xff) (le_memory n x) = le_memory n (256 ^ n - 1 - x)"
proof (induction n arbitrary: x)
  case (Suc n)
  have d: "x div 256 < 256 ^ n" "0 \<le> x div 256"
    using Suc.prems by (simp_all add: div_less_iff_less_mult mult.commute pos_imp_zdiv_nonneg_iff)
  have ring: "256 * p - 1 - (q * 256 + m) = 256 * (p - 1 - q) + (255 - m)" for p q m :: int by simp
  have rest: "256 ^ Suc n - 1 - x = 256 * (256 ^ n - 1 - x div 256) + (255 - x mod 256)"
    using ring [of "256 ^ n" "x div 256" "x mod 256"] unfolding div_mult_mod_eq power_Suc .
  have r: "0 \<le> 255 - x mod 256" "255 - x mod 256 < 256"
    using pos_mod_bound [of 256 x] pos_mod_sign [of 256 x] by simp_all
  have div: "(256 ^ Suc n - 1 - x) div 256 = 256 ^ n - 1 - x div 256"
    by (rule int_div_pos_eq [OF rest r])
  have mod: "(256 ^ Suc n - 1 - x) mod 256 = 255 - x mod 256"
    by (rule int_mod_pos_eq [OF rest r])
  have "word_of_int x XOR 0xff = (word_of_int (256 ^ Suc n - 1 - x) :: u8)"
  proof (rule word_uint_eqI)
    show "uint (word_of_int x XOR 0xff :: u8) = uint (word_of_int (256 ^ Suc n - 1 - x) :: u8)"
      unfolding uint_complement uint_word_of_int using mod by simp
  qed
  then show ?case using Suc.IH [OF d(2,1)] div by simp
qed simp

lemma flip_StoreBigEndian:
  assumes "whole_bytes TYPE('a)"
  shows "flip_bits d (StoreBigEndian (w :: 'a::len word)) = StoreBigEndian (bMask d XOR w)"
proof (cases d)
  case True
  have p: "(256 :: int) ^ (LENGTH('a) div 8) = 2 ^ LENGTH('a)"
    using power_mult [of "2 :: int" 8 "LENGTH('a) div 8"] assms by (simp add: whole_bytes_def)
  have "uint (NOT w) = 2 ^ LENGTH('a) - 1 - uint w"
    using uint_lt2p [of w] order_less_le_trans [OF _ uint_ge_0 [of w], of "- 1"]
      int_mod_pos_eq [of "- uint w - 1" "2 ^ LENGTH('a)" "- 1" "2 ^ LENGTH('a) - 1 - uint w"]
    by (simp add: unsigned_not_eq not_int_def take_bit_int_def)
  moreover have "bMask True XOR w = NOT w" by (simp add: bMask_def)
  ultimately show ?thesis
    using True complement_memory [of "uint w" "LENGTH('a) div 8"] uint_less_bytes [OF assms, of w]
    by (simp add: StoreBigEndian_def flip_bits_def p flip: rev_map)
qed (simp add: flip_bits_def bMask_def)

lemma flip_plain: "flip_bits False pb = pb"
  by (simp add: flip_bits_def)

lemma null_prefix: "(if high then bPrefixNullHigh else bPrefixNull) \<noteq> bPrefixData"
  by (simp add: prefix_defs)

lemma RetrieveWord_segment:
  assumes "whole_bytes TYPE('a)" "null \<noteq> bPrefixData"
  shows "RetrieveWord restore d null (flip_bits d (bPrefixData # StoreBigEndian (w :: 'a::len word)) @ rest) =
    Some (StoreUnaligned (restore (bMask d XOR w)), False, rest)"
  using assms UnalignedBigEndian_Store [OF assms(1)] by (simp add: RetrieveWord_def flip_StoreBigEndian [OF assms(1)] eq_sym_conv)

lemma RestoreSigned_inv: "RestoreSigned d (bMask d XOR FlipHighBit w) = w"
  by (simp add: RestoreSigned_def FlipHighBit_def ac_simps)

lemma RestoreUnsigned_inv: "RestoreUnsigned d (bMask d XOR w) = w"
  by (simp add: RestoreUnsigned_def)

lemma RestoreFloat_inv: "RestoreFloat d (bMask d XOR FloatWord w) = w" for w :: "'a::len word"
proof -
  have "Negative (FloatWord w) \<longleftrightarrow> \<not> Negative w"
    using Magnitude_bounds [of w] by (simp add: Negative_def [of "FloatWord w"] uint_FloatWord)
  then show ?thesis by (simp add: RestoreFloat_def Let_def mask_Negative) (simp add: FloatWord_def mask_Negative)
qed

subsection \<open>Bytes\<close>

lemma PutBytes_order:
  assumes "length (pb :: bytes) = 16"
  shows "PutBytes rgDotNetGuidOrder (map ((!) pb) rgDotNetGuidOrder @ rest) = pb"
    and "PutBytes rgGuidOrder (map ((!) pb) rgGuidOrder @ rest) = pb"
  by (rule sixteen [OF assms], simp add: PutBytes_def rgDotNetGuidOrder_def rgGuidOrder_def upt_rec numeral_eq_Suc)+

lemma RetrieveChunks_segment:
  "pb \<noteq> [] \<Longrightarrow> RetrieveChunks d (flip_bits d (BinaryChunks pb) @ rest) acc = Some (acc @ pb, rest)"
proof (induction pb arbitrary: acc rule: BinaryChunks.induct)
  case (1 pb)
  have chunks: "BinaryChunks pb = (if length pb \<le> 8 then pb @ replicate (8 - length pb) 0 @ [of_nat (length pb)]
      else take 8 pb @ [9] @ BinaryChunks (drop 8 pb))" by (subst BinaryChunks.simps) simp
  show ?case
  proof (cases "length pb \<le> 8")
    case True
    then have "unat (of_nat (length pb) :: u8) = length pb" "(of_nat (length pb) :: u8) \<noteq> 9"
      using small_count [of "length pb" 9] by (auto simp: unat_of_nat)
    then show ?thesis using True
      by (subst RetrieveChunks.simps)
        (auto simp: chunks Let_def cbFLDBinaryChunkNormalized_def flip_bits_append nth_append take_flip_bits min_def)
  next
    case False
    then have IH: "RetrieveChunks d (flip_bits d (BinaryChunks (drop 8 pb)) @ rest) (acc @ take 8 pb) = Some ((acc @ take 8 pb) @ drop 8 pb, rest)"
      using 1 by simp
    show ?thesis using False IH
      by (subst RetrieveChunks.simps)
        (auto simp: chunks Let_def cbFLDBinaryChunkNormalized_def flip_bits_append nth_append take_flip_bits min_def)
  qed
qed

lemma flip_bits_set: "x \<notin> set pb \<Longrightarrow> bMask d XOR x \<notin> set (flip_bits d pb)"
  by (induction pb) auto

lemma ScanTo_terminated: "x \<notin> set pb \<Longrightarrow> ScanTo x (pb @ x # rest) = Some (pb, x # rest)"
  by (induction pb) (auto simp: ScanTo_def split: list.splits)

lemma RetrieveText_segment:
  "0 \<notin> set pb \<Longrightarrow> RetrieveText d False (flip_bits d (pb @ [0]) @ rest) = Some (pb, rest)"
  using ScanTo_terminated [OF flip_bits_set [of 0 pb d], of rest]
  by (simp add: RetrieveText_def bASCIISortKeyTerminator_def flip_bits_append)

subsection \<open>Columns\<close>

text \<open>
  The columns that can be retrieved from a key: not a descending GUID, which comes back as a null value, and not data of a fixed text
  column, whose terminator stays in the key.  Text comes back in upper case, up to its first zero, and a bit as all ones.
\<close>

definition Retrievable :: "IDXSEG \<times> FIELD \<Rightarrow> COLUMN \<Rightarrow> bool" where
  "Retrievable seg column \<longleftrightarrow>
     \<not> (f_coltyp (snd seg) = JET_coltypGUID \<and> FDescending (fst seg)) \<and>
     (colkind (fst seg) = colFixed \<longrightarrow> \<not> TextData seg column \<and> (c_data column = [] \<longrightarrow> c_fNull column))"

definition RestoredData :: "FIELD \<Rightarrow> bytes \<Rightarrow> bytes" where
  "RestoredData field pb =
     (if FRECTextColumn (f_coltyp field) then TextCode pb
      else if f_coltyp field = JET_coltypBit then [if hd pb = 0 then 0 else 0xff]
      else pb)"

definition RestoredColumn :: "IDXSEG \<times> FIELD \<Rightarrow> COLUMN \<Rightarrow> bytes \<times> bool" where
  "RestoredColumn seg column =
     (if NullColumn column
      then ([], c_fNull column \<or> \<not> FRECTextColumn (f_coltyp (snd seg)) \<and> \<not> FRECBinaryColumn (f_coltyp (snd seg)))
      else (RestoredData (snd seg) (c_data column), False))"

lemma bMask_Cons: "flip_bits d [b] = [bMask d XOR b]"
  by simp

lemma RetrieveWord_null: "RetrieveWord restore d null ((bMask d XOR null) # rest) = Some ([], True, rest)"
  by (simp add: RetrieveWord_def)

lemmas retrieve_words = RetrieveWord_segment [where 'a = 8] RetrieveWord_segment [where 'a = 16] RetrieveWord_segment [where 'a = 32]
  RetrieveWord_segment [where 'a = 64]

lemma whole_byte [simp]: "whole_bytes TYPE(8)"
  by (simp add: whole_bytes_def)

lemma StoreBigEndian_byte: "StoreBigEndian (b :: u8) = [b]" "StoreUnaligned (b :: u8) = [b]"
  by (simp_all add: StoreBigEndian_def StoreUnaligned_def)

lemma bMask_plain: "bMask False XOR w = w"
  by (simp add: bMask_def)

lemma retrieve_byte:
  "null \<noteq> bPrefixData \<Longrightarrow>
    RetrieveWord restore d null (flip_bits d [bPrefixData, b] @ rest) = Some ([restore (bMask d XOR b)], False, rest)"
  using RetrieveWord_segment [OF whole_byte, of null restore d b rest] by (simp add: StoreBigEndian_byte)

lemma retrieve_fixed: "RetrieveFixedField d (length pb) (flip_bits d (bPrefixData # pb) @ rest) = Some (pb, False, rest)"
  by (simp add: RetrieveFixedField_def)

lemma length_guid_order: "length rgDotNetGuidOrder = 16" "length rgGuidOrder = 16"
  by (simp_all add: rgDotNetGuidOrder_def rgGuidOrder_def)

lemma retrieve_guid:
  "length pb = 16 \<Longrightarrow> RetrieveGuid True (flip_bits False (bPrefixData # map ((!) pb) rgDotNetGuidOrder) @ rest) = Some (pb, False, rest)"
  "length pb = 16 \<Longrightarrow> RetrieveGuid False (flip_bits False (bPrefixData # map ((!) pb) rgGuidOrder) @ rest) = Some (pb, False, rest)"
  using PutBytes_order [of pb rest] unfolding flip_plain
  by (simp_all add: RetrieveGuid_def length_guid_order del: flip_bits_Cons)

lemma RetrieveWord_data:
  fixes restore code :: "'a::len word \<Rightarrow> 'a word"
  assumes "whole_bytes TYPE('a)" "null \<noteq> bPrefixData" "length pb = LENGTH('a) div 8" "restore (bMask d XOR code (Unaligned pb)) = Unaligned pb"
  shows "RetrieveWord restore d null (flip_bits d (bPrefixData # StoreBigEndian (code (Unaligned pb))) @ rest) = Some (pb, False, rest)"
  using RetrieveWord_segment [OF assms(1,2), of restore d "code (Unaligned pb)" rest] assms(4) StoreUnaligned_Unaligned [OF assms(1,3)] by simp

lemma Retrieve_numbers:
  assumes "whole_bytes TYPE('a::len)" "length pb = LENGTH('a) div 8" "null \<noteq> bPrefixData"
  shows "RetrieveWord (RestoreSigned d :: 'a word \<Rightarrow> 'a word) d null
      (flip_bits d (bPrefixData # StoreBigEndian (FlipHighBit (Unaligned pb :: 'a word))) @ rest) = Some (pb, False, rest)"
    and "RetrieveWord (RestoreUnsigned d :: 'a word \<Rightarrow> 'a word) d null
      (flip_bits d (bPrefixData # StoreBigEndian (Unaligned pb :: 'a word)) @ rest) = Some (pb, False, rest)"
    and "RetrieveWord (RestoreFloat d :: 'a word \<Rightarrow> 'a word) d null
      (flip_bits d (bPrefixData # StoreBigEndian (FloatWord (Unaligned pb :: 'a word))) @ rest) = Some (pb, False, rest)"
  using assms by (simp_all add: RetrieveWord_data [where code = FlipHighBit] RetrieveWord_data [where code = "\<lambda>w. w"]
      RetrieveWord_data [where code = FloatWord] RestoreSigned_inv RestoreUnsigned_inv RestoreFloat_inv del: flip_bits_Cons)

lemma Retrieve_data:
  assumes legal: "LegalData (colkind (fst seg)) (snd seg) pb" "pb \<noteq> []"
    and guid: "\<not> (f_coltyp (snd seg) = JET_coltypGUID \<and> FDescending (fst seg))"
    and fixed: "\<not> (FRECTextColumn (f_coltyp (snd seg)) \<and> colkind (fst seg) = colFixed)"
  shows "RECIRetrieveColumnFromKey idb seg
      (flip_bits (FDescending (fst seg)) (DataSegment (FDotNetGuid idb) (colkind (fst seg)) (snd seg) pb) @ rest) =
    Some (RestoredData (snd seg) pb, False, rest)"
proof -
  obtain idxseg field where seg: "seg = (idxseg, field)" by (cases seg)
  let ?d = "FDescending idxseg"
  define null where "null = (if FSortNullsHigh idb then bPrefixNullHigh else bPrefixNull)"
  have null: "null \<noteq> bPrefixData" by (simp add: null_def null_prefix)
  have var: "RetrieveVarField ?d field n (flip_bits ?d (bPrefixData # TextCode pb @ [0]) @ rest) = Some (TextCode pb, False, rest)"
    if "\<not> FRECBinaryColumn (f_coltyp field)" "\<not> f_fUnicode field" for n
    using that RetrieveText_segment [OF TextCode_nonzero, of ?d pb rest] by (simp add: RetrieveVarField_def)
  have chunks: "RetrieveVarField ?d field n (flip_bits ?d (bPrefixData # BinaryChunks pb) @ rest) = Some (pb, False, rest)"
    if "FRECBinaryColumn (f_coltyp field)" for n
    using that RetrieveChunks_segment [OF legal(2), of ?d rest "[]"] by (simp add: RetrieveVarField_def)
  show ?thesis
    using legal guid fixed var chunks null
    unfolding seg RECIRetrieveColumnFromKey_def Let_def prod.case fst_conv snd_conv null_def [symmetric]
    by (cases "f_coltyp field")
      (auto simp: type_defs RestoredData_def Normalize_full single retrieve_byte RestoreUnsigned_inv
        Retrieve_numbers RestoreBit_def retrieve_fixed retrieve_guid simp del: flip_bits_Cons dest: sym [of "length pb"])
qed

lemma Retrieve_column:
  assumes "LegalColumn seg column" "Retrievable seg column"
  shows "RECIRetrieveColumnFromKey idb seg (Segment idb seg column @ rest) =
    Some (fst (RestoredColumn seg column), snd (RestoredColumn seg column), rest)"
proof (cases "NullColumn column")
  case False
  then show ?thesis
    using Retrieve_data [of seg "c_data column" idb rest] assms
    by (auto simp: Segment_def RestoredColumn_def LegalColumn_def Retrievable_def TextData_def NullColumn_def)
next
  case True
  define null where "null = (if FSortNullsHigh idb then bPrefixNullHigh else bPrefixNull)"
  have n: "null \<noteq> bPrefixData" "null \<noteq> bPrefixZeroLength" "bPrefixZeroLength \<noteq> bPrefixData" "bPrefixZeroLength \<noteq> null" "bPrefixData \<noteq> null"
    by (simp_all add: null_def prefix_defs)
  obtain idxseg field where seg: "seg = (idxseg, field)" by (cases seg)
  let ?d = "FDescending idxseg"
  have segment: "Segment idb seg column =
      flip_bits ?d [if \<not> c_fNull column \<and> (FRECTextColumn (f_coltyp field) \<or> FRECBinaryColumn (f_coltyp field)) then bPrefixZeroLength else null]"
    using True by (auto simp: Segment_def seg FLDNormalizeNullSegment_def null_def Let_def)
  have fixed: "colkind idxseg = colFixed \<Longrightarrow> c_fNull column" using assms(2) True by (auto simp: Retrievable_def seg NullColumn_def)
  show ?thesis
    using True n fixed assms(2)
    unfolding seg RECIRetrieveColumnFromKey_def Let_def prod.case fst_conv snd_conv null_def [symmetric] segment [unfolded seg]
    by (cases "f_coltyp field")
      (auto simp: type_defs RestoredColumn_def RetrieveWord_null RetrieveFixedField_def RetrieveVarField_def RetrieveGuid_def Retrievable_def
        NullColumn_def bMask_plain)
qed

subsection \<open>The columns of a key\<close>

lemma RetrieveColumnLoop_spec:
  assumes "list_all2 LegalColumn segs columns" "i < length segs" "Columnid (fst (segs ! i)) = columnid"
    and "\<forall>j < i. Columnid (fst (segs ! j)) \<noteq> columnid" "\<forall>j \<le> i. Retrievable (segs ! j) (columns ! j)"
  shows "RetrieveColumnLoop idb columnid segs (tuple_code (Segment idb) segs columns @ rest) dataColumn =
    Some (if snd (RestoredColumn (segs ! i) (columns ! i)) then wrnColumnNull else errSuccess, fst (RestoredColumn (segs ! i) (columns ! i)))"
  using assms
proof (induction segs arbitrary: columns i dataColumn)
  case (Cons seg segs)
  from Cons.prems(1) obtain column columns' where c: "columns = column # columns'" "LegalColumn seg column" "list_all2 LegalColumn segs columns'"
    by (auto simp: list_all2_Cons1)
  have ret: "Retrievable seg column" using Cons.prems(5) c by (metis le0 nth_Cons_0)
  have "Segment idb seg column \<noteq> []" using Segment_nonempty [OF c(2)] by auto
  then show ?case
  proof (cases i)
    case 0
    then show ?thesis using Cons.prems(3) c Retrieve_column [OF c(2) ret, of idb] \<open>Segment idb seg column \<noteq> []\<close> by simp
  next
    case (Suc k)
    have "Columnid (fst seg) \<noteq> columnid" using Cons.prems(4) Suc by (metis nth_Cons_0 zero_less_Suc)
    moreover have "\<forall>j < k. Columnid (fst (segs ! j)) \<noteq> columnid" "\<forall>j \<le> k. Retrievable (segs ! j) (columns' ! j)"
      using Cons.prems(4,5) Suc c(1) by fastforce+
    ultimately show ?thesis
      using Cons.IH [OF c(3), of k] Cons.prems(2,3) Suc c(1) Retrieve_column [OF c(2) ret, of idb] \<open>Segment idb seg column \<noteq> []\<close> by simp
  qed
qed simp

end
