(* ===== verification/Key_Make.thy ===== *)
theory Key_Make
  imports Key_Loop
begin

text \<open>
  The search key a client makes column by column (\<open>ErrIsamMakeKey\<close>), with its limits (\<open>src/ese/fldnorm.cxx\<close>, the state of the key
  in \<open>src/inc/fucb.hxx\<close>).  The index is the one the cursor has found; \<open>None\<close> is a table without one.
\<close>

subsection \<open>The state of the search key\<close>

record SEARCHKEY =
  dataSearchKey :: bytes
  cColumnsInSearchKey :: nat
  FKSPrepared :: bool
  FKSTooBig :: bool
  FKSLimit :: bool

definition KSReset :: "SEARCHKEY \<Rightarrow> SEARCHKEY" where
  "KSReset fucb = fucb\<lparr>FKSPrepared := False, FKSTooBig := False, FKSLimit := False\<rparr>"

definition KSSetPrepare :: "SEARCHKEY \<Rightarrow> SEARCHKEY" where
  "KSSetPrepare fucb = fucb\<lparr>FKSPrepared := True\<rparr>"

definition KSSetTooBig :: "SEARCHKEY \<Rightarrow> SEARCHKEY" where
  "KSSetTooBig fucb = fucb\<lparr>FKSTooBig := True\<rparr>"

definition KSSetLimit :: "SEARCHKEY \<Rightarrow> SEARCHKEY" where
  "KSSetLimit fucb = fucb\<lparr>FKSLimit := True\<rparr>"

definition JET_bitNewKey :: u32 where "JET_bitNewKey = 0x00000001"
definition JET_bitStrLimit :: u32 where "JET_bitStrLimit = 0x00000002"
definition JET_bitSubStrLimit :: u32 where "JET_bitSubStrLimit = 0x00000004"
definition JET_bitNormalizedKey :: u32 where "JET_bitNormalizedKey = 0x00000008"
definition JET_bitKeyDataZeroLength :: u32 where "JET_bitKeyDataZeroLength = 0x00000010"
definition JET_bitKeyOverridePrimaryIndexPlaceholder :: u32 where "JET_bitKeyOverridePrimaryIndexPlaceholder = 0x00000020"
definition JET_maskLimitOptions :: u32 where "JET_maskLimitOptions = 0x00000f00"
definition JET_bitFullColumnStartLimit :: u32 where "JET_bitFullColumnStartLimit = 0x00000100"
definition JET_bitFullColumnEndLimit :: u32 where "JET_bitFullColumnEndLimit = 0x00000200"
definition JET_bitPartialColumnStartLimit :: u32 where "JET_bitPartialColumnStartLimit = 0x00000400"
definition JET_bitPartialColumnEndLimit :: u32 where "JET_bitPartialColumnEndLimit = 0x00000800"

abbreviation has_bit :: "u32 \<Rightarrow> u32 \<Rightarrow> bool" where
  "has_bit grbit flag \<equiv> grbit AND flag \<noteq> 0"

definition JET_cbKeyMost :: nat where "JET_cbKeyMost = 255"
definition JET_cbColumnMost :: nat where "JET_cbColumnMost = 255"

definition CbLimitKeyMost :: "nat \<Rightarrow> nat" where
  "CbLimitKeyMost usT = (usT + 1) mod 65536"

subsection \<open>Limits\<close>

definition FLDISetFullColumnLimit :: "bytes \<Rightarrow> nat \<Rightarrow> bool \<Rightarrow> bytes" where
  "FLDISetFullColumnLimit plineNorm cbAvailWithSuffix fNeedSentinel =
     (if fNeedSentinel then plineNorm @ replicate (cbAvailWithSuffix - length plineNorm) bSentinel else plineNorm)"

text \<open>
  The end of the base weights of a Unicode sort key: the first delimiter behind the header byte, or the suffix byte.  Behind
  the segment the bytes are not defined.
\<close>

definition UnicodeDelimiter :: "bytes \<Rightarrow> nat \<Rightarrow> u8 \<Rightarrow> nat option" where
  "UnicodeDelimiter pbNorm ibSuffix bDelimiter =
     (let ibT = 1 + length (takeWhile (\<lambda>b. b \<noteq> bDelimiter) (drop 1 pbNorm))
      in if ibT < length pbNorm \<or> ibSuffix \<le> length pbNorm then Some (min ibT ibSuffix) else None)"

definition FLDISetPartialColumnLimitOnTextColumn :: "bytes \<Rightarrow> nat \<Rightarrow> bool \<Rightarrow> bool \<Rightarrow> bool \<Rightarrow> bytes option" where
  "FLDISetPartialColumnLimitOnTextColumn plineNorm cbAvailWithSuffix fDescending fNeedSentinel fUnicodeCp =
     (let ibSuffix = cbAvailWithSuffix - 1
      in if length plineNorm < 2 then Some (FLDISetFullColumnLimit plineNorm cbAvailWithSuffix fNeedSentinel)
         else
           map_option (\<lambda>ibT.
               let ibT = min ibT ibSuffix
               in take ibT plineNorm @ (if fNeedSentinel then replicate (ibSuffix - ibT + 1) bSentinel else []))
             (if fUnicodeCp then UnicodeDelimiter plineNorm ibSuffix (bUnicodeSortKeySentinel XOR (if fDescending then 0xff else 0x00))
              else
                let bTerminator = bASCIISortKeyTerminator XOR (if fDescending then 0xff else 0x00);
                    ibT = length plineNorm
                in Some (if bTerminator = plineNorm ! (ibT - 1) then ibT - 1 else ibT)))"

definition FLDITrySetPartialColumnLimitOnBinaryColumn :: "bytes \<Rightarrow> nat \<Rightarrow> nat \<Rightarrow> bool \<Rightarrow> bytes" where
  "FLDITrySetPartialColumnLimitOnBinaryColumn plineNorm cbAvailWithSuffix ibBinaryColumnDelimiter fNeedSentinel =
     (if ibBinaryColumnDelimiter = 0 then FLDISetFullColumnLimit plineNorm cbAvailWithSuffix fNeedSentinel
      else if fNeedSentinel then
        take ibBinaryColumnDelimiter plineNorm @ replicate (length plineNorm + 1 - ibBinaryColumnDelimiter) bSentinel
      else take ibBinaryColumnDelimiter plineNorm)"

subsection \<open>One column\<close>

text \<open>The segment of a column before its limits: the error, the bytes, whether it was too big, and the delimiter of a binary column.\<close>

definition NormalizeSearchColumn ::
  "(bytes \<Rightarrow> nat \<Rightarrow> KEYERR \<times> bytes) \<Rightarrow> IDB \<Rightarrow> FIELD \<Rightarrow> bytes option \<Rightarrow> nat \<Rightarrow> bool \<Rightarrow> bool \<Rightarrow> u32 \<Rightarrow> (KEYERR \<times> bytes \<times> bool \<times> nat) option" where
  "NormalizeSearchColumn ErrNORMMapString idb field plineColumn cbAvail fFixedField fTupleField grbit =
     (if plineColumn = None \<or> plineColumn = Some [] then
        if fTupleField then Some (errIndexTuplesKeyTooSmall, [], False, 0)
        else if has_bit grbit JET_bitKeyDataZeroLength \<and>
          (fFixedField \<or> (\<not> FRECTextColumn (f_coltyp field) \<and> \<not> FRECBinaryColumn (f_coltyp field)))
        then Some (errInvalidBufferSize, [], False, 0)
        else Some (errSuccess,
          FLDNormalizeNullSegment (f_coltyp field) (has_bit grbit JET_bitKeyDataZeroLength) (FSortNullsHigh idb), False, 0)
      else
        let pbColumn = the plineColumn
        in if FRECTextColumn (f_coltyp field) then
             let chColumn = (if f_fUnicode field then length pbColumn div 2 else length pbColumn);
                 cbColumnMax = (if f_fUnicode field then CchTuplesLengthMax idb * 2 else CchTuplesLengthMax idb)
             in if fTupleField \<and> chColumn < CchTuplesLengthMin idb then Some (errIndexTuplesKeyTooSmall, [], False, 0)
                else
                  let pbColumn = (if fTupleField then take cbColumnMax pbColumn else pbColumn);
                      (err, pbSeg) = ErrFLDNormalizeTextSegment ErrNORMMapString pbColumn cbAvail (CbKeyMost idb) (cbVarSegMac_of idb) (f_fUnicode field)
                  in if failure err then Some (err, [], False, 0)
                     else Some (errSuccess, pbSeg, err = wrnFLDKeyTooBig, 0)
           else if FRECBinaryColumn (f_coltyp field) then
             case FLDNormalizeBinarySegment pbColumn cbAvail (CbKeyMost idb) (cbVarSegMac_of idb) fFixedField of
               (pbSeg, fColumnTruncated, ibDelimiter) \<Rightarrow> Some (errSuccess, pbSeg, fColumnTruncated, ibDelimiter)
           else
             map_option (\<lambda>pbSeg. (errSuccess, take cbAvail pbSeg, cbAvail < length pbSeg, 0))
               (FLDNormalizeFixedSegment pbColumn (f_coltyp field) (FDotNetGuid idb) True))"

text \<open>The segment with its limits: whether the key has become a limit.\<close>

definition SetColumnLimits :: "FIELD \<Rightarrow> bytes \<Rightarrow> nat \<Rightarrow> bool \<Rightarrow> nat \<Rightarrow> u32 \<Rightarrow> (bytes \<times> bool) option" where
  "SetColumnLimits field plineNorm cbAvail fDescending ibBinaryColumnDelimiter grbit =
     (let options = grbit AND JET_maskLimitOptions
      in if options = JET_bitFullColumnStartLimit \<or> options = JET_bitFullColumnEndLimit then
           Some (FLDISetFullColumnLimit plineNorm (cbAvail + 1) (has_bit grbit JET_bitFullColumnEndLimit), True)
         else if options = JET_bitPartialColumnStartLimit \<or> options = JET_bitPartialColumnEndLimit then
           if FRECTextColumn (f_coltyp field) then
             map_option (\<lambda>plineNorm. (plineNorm, True))
               (FLDISetPartialColumnLimitOnTextColumn plineNorm (cbAvail + 1) fDescending (has_bit grbit JET_bitPartialColumnEndLimit) (f_fUnicode field))
           else Some (FLDITrySetPartialColumnLimitOnBinaryColumn plineNorm (cbAvail + 1) ibBinaryColumnDelimiter
               (has_bit grbit JET_bitPartialColumnEndLimit), True)
         else if has_bit grbit JET_bitSubStrLimit \<and> FRECTextColumn (f_coltyp field) then
           map_option (\<lambda>plineNorm. (plineNorm, True))
             (FLDISetPartialColumnLimitOnTextColumn plineNorm (cbAvail + 1) fDescending True (f_fUnicode field))
         else if has_bit grbit JET_bitStrLimit then
           Some (FLDITrySetPartialColumnLimitOnBinaryColumn plineNorm (cbAvail + 1) ibBinaryColumnDelimiter True, True)
         else Some (plineNorm, False))"

definition ErrFLDNormalizeSegment ::
  "(bytes \<Rightarrow> nat \<Rightarrow> KEYERR \<times> bytes) \<Rightarrow> IDB \<Rightarrow> IDXSEG \<times> FIELD \<Rightarrow> bytes option \<Rightarrow> nat \<Rightarrow> bool \<Rightarrow> u32 \<Rightarrow> SEARCHKEY \<Rightarrow>
    (KEYERR \<times> bytes \<times> SEARCHKEY) option" where
  "ErrFLDNormalizeSegment ErrNORMMapString idb seg plineColumn cbAvail fTupleField grbit fucb =
     (let (idxseg, field) = seg
      in case NormalizeSearchColumn ErrNORMMapString idb field plineColumn cbAvail (colkind idxseg = colFixed) fTupleField grbit of
           None \<Rightarrow> None
         | Some (err, plineNorm, fTooBig, ibBinaryColumnDelimiter) \<Rightarrow>
             if failure err then Some (err, [], fucb)
             else
               let fucb = (if fTooBig then KSSetTooBig fucb else fucb);
                   plineNorm = flip_bits (FDescending idxseg) plineNorm
               in map_option (\<lambda>(plineNorm, fLimit). (errSuccess, plineNorm, if fLimit then KSSetLimit fucb else fucb))
                    (SetColumnLimits field plineNorm cbAvail (FDescending idxseg) ibBinaryColumnDelimiter grbit))"

subsection \<open>The call\<close>

definition RECINormalisePlaceholder :: "IDB \<Rightarrow> SEARCHKEY \<Rightarrow> SEARCHKEY" where
  "RECINormalisePlaceholder idb fucb =
     (let fDescending = FDescending (fst (rgidxseg idb ! 0));
          bPrefix = (if fDescending then NOT bPrefixData else bPrefixData);
          bData = (if fDescending then 0xff else 0x00)
      in fucb\<lparr>dataSearchKey := [bPrefix, bData], cColumnsInSearchKey := 1\<rparr>)"

definition RECTextColumnPadding :: "bytes \<Rightarrow> nat \<Rightarrow> bool \<Rightarrow> bytes" where
  "RECTextColumnPadding pbData cbData fUnicodeCp =
     pbData @ map (\<lambda>ibDataFill. if fUnicodeCp \<and> ibDataFill mod 2 = 1 then 0x00 else 0x20) [length pbData..<cbData]"

text \<open>The length of a fixed column is checked, and short text padded.\<close>

definition FixedColumnKey :: "FIELD \<Rightarrow> nat \<Rightarrow> bytes \<Rightarrow> bytes option" where
  "FixedColumnKey field cbKeySeg lineKeySeg =
     (if cbKeySeg > 0 \<and> cbKeySeg \<noteq> f_cbMaxLen field then
        if f_coltyp field = JET_coltypText \<and> cbKeySeg < f_cbMaxLen field \<and> cbKeySeg < JET_cbColumnMost
        then Some (RECTextColumnPadding lineKeySeg (f_cbMaxLen field) (f_fUnicode field))
        else None
      else Some lineKeySeg)"

definition LimitOptionsAllowed :: "IDXSEG \<Rightarrow> FIELD \<Rightarrow> u32 \<Rightarrow> bool" where
  "LimitOptionsAllowed idxseg field grbit \<longleftrightarrow>
     (let options = grbit AND JET_maskLimitOptions
      in if options = JET_bitPartialColumnStartLimit \<or> options = JET_bitPartialColumnEndLimit
         then FRECTextColumn (f_coltyp field) \<or> (colkind idxseg \<noteq> colFixed \<and> FRECBinaryColumn (f_coltyp field))
         else options = 0 \<or> options = JET_bitFullColumnStartLimit \<or> options = JET_bitFullColumnEndLimit)"

text \<open>A key that is normalised already.\<close>

definition MakeNormalizedKey :: "nat \<Rightarrow> bytes \<Rightarrow> SEARCHKEY \<Rightarrow> KEYERR \<times> SEARCHKEY" where
  "MakeNormalizedKey cbKeyMost pbKeySeg fucb =
     (if length pbKeySeg > CbLimitKeyMost cbKeyMost \<and> length pbKeySeg > JET_cbKeyMost then (errInvalidParameter, fucb)
      else
        let pbKeySeg = take (CbLimitKeyMost cbKeyMost) pbKeySeg;
            fucb = KSSetPrepare ((KSReset fucb)\<lparr>cColumnsInSearchKey := 1, dataSearchKey := pbKeySeg\<rparr>)
        in (errSuccess, if length pbKeySeg > cbKeyMost then KSSetLimit fucb else fucb))"

text \<open>The next column.\<close>

definition MakeColumnKey ::
  "(bytes \<Rightarrow> nat \<Rightarrow> KEYERR \<times> bytes) \<Rightarrow> IDB \<Rightarrow> bytes \<Rightarrow> u32 \<Rightarrow> SEARCHKEY \<Rightarrow> (KEYERR \<times> SEARCHKEY) option" where
  "MakeColumnKey ErrNORMMapString idb pbKeySeg grbit fucb =
     (let cbKeySeg = length pbKeySeg;
          lineKeySeg = (if CbKeyMost idb = JET_cbKeyMost_OLD then take JET_cbKeyMost_OLD pbKeySeg else pbKeySeg);
          iidxsegCur = cColumnsInSearchKey fucb
      in if iidxsegCur \<ge> length (rgidxseg idb) then Some (errKeyIsMade, fucb)
         else
           let (idxseg, field) = rgidxseg idb ! iidxsegCur
           in case (if colkind idxseg = colFixed then FixedColumnKey field cbKeySeg lineKeySeg else Some lineKeySeg) of
                None \<Rightarrow> Some (errInvalidBufferSize, fucb)
              | Some lineKeySeg \<Rightarrow>
                  if \<not> LimitOptionsAllowed idxseg field grbit then Some (errInvalidGrbit, fucb)
                  else
                    map_option (\<lambda>(err, lineNormSeg, fucb).
                        if failure err then (err, fucb)
                        else
                          let lineNormSeg = take (CbLimitKeyMost (CbKeyMost idb) - length (dataSearchKey fucb)) lineNormSeg
                          in (errSuccess, KSSetPrepare (fucb\<lparr>cColumnsInSearchKey := cColumnsInSearchKey fucb + 1,
                               dataSearchKey := dataSearchKey fucb @ lineNormSeg\<rparr>)))
                      (if \<not> FKSTooBig fucb \<and> length (dataSearchKey fucb) < CbKeyMost idb then
                         ErrFLDNormalizeSegment ErrNORMMapString idb (idxseg, field)
                           (if cbKeySeg \<noteq> 0 \<or> has_bit grbit JET_bitKeyDataZeroLength then Some lineKeySeg else None)
                           (CbKeyMost idb - length (dataSearchKey fucb)) (iidxsegCur = 0 \<and> FTuples idb) grbit fucb
                       else Some (errSuccess, [], fucb)))"

definition ErrIsamMakeKey ::
  "(bytes \<Rightarrow> nat \<Rightarrow> KEYERR \<times> bytes) \<Rightarrow> IDB option \<Rightarrow> bytes \<Rightarrow> u32 \<Rightarrow> SEARCHKEY \<Rightarrow> (KEYERR \<times> SEARCHKEY) option" where
  "ErrIsamMakeKey ErrNORMMapString pidb pbKeySeg grbit fucb =
     (if has_bit grbit JET_bitNormalizedKey then
        Some (MakeNormalizedKey (case pidb of None \<Rightarrow> JET_cbKeyMost_OLD | Some idb \<Rightarrow> CbKeyMost idb) pbKeySeg fucb)
      else
        case pidb of
          None \<Rightarrow> None
        | Some idb \<Rightarrow>
            if \<not> has_bit grbit JET_bitNewKey \<and> FKSLimit fucb then Some (errKeyIsMade, fucb)
            else if \<not> has_bit grbit JET_bitNewKey \<and> \<not> FKSPrepared fucb then Some (errKeyNotMade, fucb)
            else
              let fucb = (if has_bit grbit JET_bitNewKey then (KSReset fucb)\<lparr>dataSearchKey := [], cColumnsInSearchKey := 0\<rparr> else fucb);
                  fucb = (if \<not> FKSPrepared fucb \<and> FHasPlaceholderColumn idb \<and> \<not> has_bit grbit JET_bitKeyOverridePrimaryIndexPlaceholder
                          then RECINormalisePlaceholder idb fucb else fucb)
              in MakeColumnKey ErrNORMMapString idb pbKeySeg grbit fucb)"

end
