(* ===== verification/Key_Search.thy ===== *)
theory Key_Search
  imports Key_Make
begin

text \<open>
  The search key made column by column is the key of the record with these columns.
\<close>

subsection \<open>One column\<close>

text \<open>
  The columns a client can name: a fixed column with all its bytes, an empty value only for variable text or binary columns, and not more than
  255 bytes for the keys of the old size.
\<close>

definition Searchable :: "IDB \<Rightarrow> IDXSEG \<times> FIELD \<Rightarrow> COLUMN \<Rightarrow> bool" where
  "Searchable idb seg column \<longleftrightarrow>
     (\<not> c_fNull column \<and> c_data column = [] \<longrightarrow>
       colkind (fst seg) \<noteq> colFixed \<and> (FRECTextColumn (f_coltyp (snd seg)) \<or> FRECBinaryColumn (f_coltyp (snd seg)))) \<and>
     (\<not> NullColumn column \<and> colkind (fst seg) = colFixed \<longrightarrow> length (c_data column) = f_cbMaxLen (snd seg)) \<and>
     (CbKeyMost idb = JET_cbKeyMost_OLD \<longrightarrow> length (c_data column) \<le> JET_cbKeyMost_OLD)"

definition ColumnBytes :: "COLUMN \<Rightarrow> bytes" where
  "ColumnBytes column = (if c_fNull column then [] else c_data column)"

definition EmptyColumn :: "COLUMN \<Rightarrow> bool" where
  "EmptyColumn column \<longleftrightarrow> \<not> c_fNull column \<and> c_data column = []"

lemma fixed_segment_source: "FLDNormalizeFixedSegment pb coltyp net b = FLDNormalizeFixedSegment pb coltyp net False"
  by (cases coltyp) (simp_all add: FLDNormalizeFixedSegment_def)

definition SearchPart :: "bool \<Rightarrow> nat \<Rightarrow> bytes \<Rightarrow> bytes \<Rightarrow> bool \<Rightarrow> bool" where
  "SearchPart text avail full part short \<longleftrightarrow>
     (if length full \<le> avail then part = full \<and> \<not> short
      else length part = avail \<and> (\<not> text \<longrightarrow> part = take avail full))"

lemma SearchPart_of:
  assumes "SegmentPart text avail full part short" "short \<or> length part \<le> avail"
  shows "SearchPart text avail full part short"
proof (cases "length full \<le> avail")
  case True
  then show ?thesis using assms(1) by (simp add: SegmentPart_def SearchPart_def)
next
  case False
  then have p: "avail \<le> length part" "short \<longrightarrow> length part = avail" "\<not> text \<longrightarrow> take avail part = take avail full"
    using assms(1) unfolding SegmentPart_def if_not_P [OF False] by blast+
  have l: "length part = avail" using p(1,2) assms(2) by (cases short) (simp_all only: simp_thms le_antisym)
  have "take avail part = part" by (rule take_all) (simp only: l order_refl)
  then show ?thesis unfolding SearchPart_def if_not_P [OF False] using l p(3) by simp
qed

lemma SearchPart_take:
  assumes "SegmentPart text avail full part False"
  shows "SearchPart text avail full (take avail part) (avail < length part)"
proof (cases "length full \<le> avail")
  case True
  then show ?thesis using assms by (simp add: SegmentPart_def SearchPart_def)
next
  case False
  then have p: "avail \<le> length part" "\<not> text \<longrightarrow> take avail part = take avail full"
    using assms unfolding SegmentPart_def if_not_P [OF False] by blast+
  then show ?thesis unfolding SearchPart_def if_not_P [OF False] by (simp only: length_take min_absorb2 simp_thms)
qed

lemma NormalizeSearchColumn_spec:
  assumes index: "PlainIndex idb" and avail: "0 < avail" "avail \<le> CbKeyMost idb"
    and legal: "LegalColumn (idxseg, field) c" "Searchable idb (idxseg, field) c"
    and zero: "has_bit grbit JET_bitKeyDataZeroLength \<longleftrightarrow> EmptyColumn c"
    and line: "plineColumn = (if ColumnBytes c = [] \<and> \<not> EmptyColumn c then None else Some (ColumnBytes c))"
  shows "\<exists>part short ib. NormalizeSearchColumn M idb field plineColumn avail (colkind idxseg = colFixed) False grbit = Some (errSuccess, part, short, ib) \<and>
      SearchPart (TextData (idxseg, field) c) avail (flip_bits (FDescending idxseg) (Segment idb (idxseg, field) c)) part short"
proof -
  from index have "CbVarSegMac idb = CbKeyMost idb" by (simp add: PlainIndex_def)
  from NormalizeColumn_spec [OF this avail legal(1), of M] obtain part short where
    n: "NormalizeColumn M idb idxseg field (c_fNull c) (c_data c) avail False = Some (errSuccess, part, short)"
    and p: "SegmentPart (TextData (idxseg, field) c) avail (flip_bits (FDescending idxseg) (Segment idb (idxseg, field) c)) part short" by blast
  show ?thesis
  proof (cases "NullColumn c")
    case True
    let ?null = "FLDNormalizeNullSegment (f_coltyp field) (\<not> c_fNull c) (FSortNullsHigh idb)"
    have c: "plineColumn = None \<or> plineColumn = Some []" "has_bit grbit JET_bitKeyDataZeroLength \<longleftrightarrow> \<not> c_fNull c"
      using True by (auto simp: line zero EmptyColumn_def ColumnBytes_def NullColumn_def)
    have v: "\<not> (\<not> c_fNull c \<and> (colkind idxseg = colFixed \<or> \<not> FRECTextColumn (f_coltyp field) \<and> \<not> FRECBinaryColumn (f_coltyp field)))"
      using legal(2) True by (auto simp: Searchable_def NullColumn_def)
    have part: "part = ?null" "\<not> short"
      using n True by (auto simp: NormalizeColumn_def NullColumn_def)
    have "length ?null = 1" by (simp add: FLDNormalizeNullSegment_def Let_def)
    then have "SearchPart (TextData (idxseg, field) c) avail (flip_bits (FDescending idxseg) (Segment idb (idxseg, field) c)) ?null False"
      using SearchPart_of [OF p] part avail by simp
    moreover have "NormalizeSearchColumn M idb field plineColumn avail (colkind idxseg = colFixed) False grbit = Some (errSuccess, ?null, False, 0)"
      unfolding NormalizeSearchColumn_def if_P [OF c(1)] c(2) if_not_P [OF v] by simp
    ultimately show ?thesis by blast
  next
    case False
    then have line': "plineColumn = Some (c_data c)" "c_data c \<noteq> []" by (auto simp: line ColumnBytes_def NullColumn_def)
    consider (chars) "FRECTextColumn (f_coltyp field)" | (binary) "\<not> FRECTextColumn (f_coltyp field)" "FRECBinaryColumn (f_coltyp field)"
      | (other) "\<not> FRECTextColumn (f_coltyp field)" "\<not> FRECBinaryColumn (f_coltyp field)" by blast
    then show ?thesis
    proof cases
      case chars
      have mac: "cbVarSegMac_of idb = CbKeyMost idb + 1" using index by (simp add: cbVarSegMac_of_def PlainIndex_def)
      have u: "\<not> f_fUnicode field" using legal(1) False chars by (simp add: LegalColumn_def LegalData_def)
      obtain out err where t: "ErrFLDNormalizeTextSegment M (c_data c) avail (CbKeyMost idb) (CbKeyMost idb + 1) False = (err, bPrefixData # out)"
        "\<not> failure err" "SegmentPart True avail (bPrefixData # TextCode (c_data c) @ [0]) (bPrefixData # out) (err = wrnFLDKeyTooBig)"
        "err = wrnFLDKeyTooBig \<or> err = errSuccess" "length (bPrefixData # out) \<le> avail"
        using TextSegment_spec [OF avail, of M "c_data c"] by blast
      then have part: "SearchPart True avail (bPrefixData # TextCode (c_data c) @ [0]) (bPrefixData # out) (err = wrnFLDKeyTooBig)"
        by (intro SearchPart_of) simp_all
      have full: "flip_bits (FDescending idxseg) (Segment idb (idxseg, field) c) = bPrefixData # TextCode (c_data c) @ [0]"
        using False chars by (simp add: Segment_def DataSegment_def)
      show ?thesis
        using line' chars u t(1,2) part False unfolding full
        by (simp add: NormalizeSearchColumn_def Let_def mac [simplified] TextData_def)
    next
      case binary
      obtain ib where b: "FLDNormalizeBinarySegment (c_data c) avail (CbKeyMost idb) (cbVarSegMac_of idb) (colkind idxseg = colFixed) = (part, short, ib)"
        using n binary False by (auto simp: NormalizeColumn_def NullColumn_def split: prod.splits)
      moreover have "length part \<le> avail"
        using b FLDNormalizeBinarySegment_spec [OF line'(2) avail(1), of "CbKeyMost idb" "cbVarSegMac_of idb" "colkind idxseg = colFixed"] index
        by (auto simp: cbVarSegMac_of_def PlainIndex_def)
      ultimately show ?thesis using line' binary SearchPart_of [OF p] by (simp add: NormalizeSearchColumn_def)
    next
      case other
      then have f: "FLDNormalizeFixedSegment (c_data c) (f_coltyp field) (FDotNetGuid idb) False = Some part" "\<not> short"
        using n False by (auto simp: NormalizeColumn_def NullColumn_def)
      then show ?thesis using line' other SearchPart_take [of _ avail _ part] p
        by (simp add: NormalizeSearchColumn_def fixed_segment_source [of _ _ _ True])
    qed
  qed
qed

subsection \<open>The calls\<close>

text \<open>The state after the columns of \<open>seen\<close>.\<close>

definition MadeSoFar :: "IDB \<Rightarrow> ((IDXSEG \<times> FIELD) \<times> COLUMN) list \<Rightarrow> SEARCHKEY \<Rightarrow> bool" where
  "MadeSoFar idb seen fucb \<longleftrightarrow>
     cColumnsInSearchKey fucb = length seen \<and> \<not> FKSLimit fucb \<and> (seen \<noteq> [] \<longrightarrow> FKSPrepared fucb) \<and>
     length (dataSearchKey fucb) = min (CbKeyMost idb) (length (KeyOf idb seen)) \<and>
     (length (KeyOf idb seen) \<le> CbKeyMost idb \<or> (\<forall>(seg, column) \<in> set seen. \<not> TextData seg column) \<longrightarrow>
       dataSearchKey fucb = take (CbKeyMost idb) (KeyOf idb seen)) \<and>
     (FKSTooBig fucb \<longrightarrow> CbKeyMost idb \<le> length (KeyOf idb seen))"

definition PlainGrbit :: "u32 \<Rightarrow> bool" where
  "PlainGrbit grbit \<longleftrightarrow> grbit AND JET_maskLimitOptions = 0 \<and> \<not> has_bit grbit JET_bitStrLimit \<and> \<not> has_bit grbit JET_bitSubStrLimit"

lemmas grbit_defs = JET_bitNewKey_def JET_bitStrLimit_def JET_bitSubStrLimit_def JET_bitNormalizedKey_def JET_bitKeyDataZeroLength_def
  JET_bitKeyOverridePrimaryIndexPlaceholder_def JET_maskLimitOptions_def JET_bitFullColumnStartLimit_def JET_bitFullColumnEndLimit_def
  JET_bitPartialColumnStartLimit_def JET_bitPartialColumnEndLimit_def

lemma PlainGrbit_limits: "PlainGrbit grbit \<Longrightarrow> SetColumnLimits field pb avail d ib grbit = Some (pb, False)"
  "PlainGrbit grbit \<Longrightarrow> LimitOptionsAllowed idxseg field grbit"
  by (simp_all add: PlainGrbit_def SetColumnLimits_def LimitOptionsAllowed_def JET_bitFullColumnStartLimit_def JET_bitFullColumnEndLimit_def
      JET_bitPartialColumnStartLimit_def JET_bitPartialColumnEndLimit_def Let_def)

definition SearchIndex :: "IDB \<Rightarrow> bool" where
  "SearchIndex idb \<longleftrightarrow> PlainIndex idb \<and> CbKeyMost idb + 1 < 65536"

text \<open>What a call leaves of its data for the column.\<close>

lemma column_line:
  assumes "Searchable idb (idxseg, field) c"
  shows "(if colkind idxseg = colFixed
      then FixedColumnKey field (length (ColumnBytes c)) (if CbKeyMost idb = JET_cbKeyMost_OLD then take JET_cbKeyMost_OLD (ColumnBytes c) else ColumnBytes c)
      else Some (if CbKeyMost idb = JET_cbKeyMost_OLD then take JET_cbKeyMost_OLD (ColumnBytes c) else ColumnBytes c)) = Some (ColumnBytes c)"
proof -
  have t: "(if CbKeyMost idb = JET_cbKeyMost_OLD then take JET_cbKeyMost_OLD (ColumnBytes c) else ColumnBytes c) = ColumnBytes c"
    using assms by (simp add: Searchable_def ColumnBytes_def)
  have "colkind idxseg = colFixed \<Longrightarrow> ColumnBytes c = [] \<or> length (ColumnBytes c) = f_cbMaxLen field"
    using assms by (auto simp: Searchable_def ColumnBytes_def NullColumn_def)
  then show ?thesis unfolding t by (auto simp: FixedColumnKey_def)
qed

lemma NormalizeSegment_spec:
  assumes "PlainIndex idb" "0 < avail" "avail \<le> CbKeyMost idb" "LegalColumn (idxseg, field) c" "Searchable idb (idxseg, field) c"
    and "has_bit grbit JET_bitKeyDataZeroLength \<longleftrightarrow> EmptyColumn c"
  shows "\<exists>part short ib. NormalizeSearchColumn M idb field
        (if length (ColumnBytes c) \<noteq> 0 \<or> has_bit grbit JET_bitKeyDataZeroLength then Some (ColumnBytes c) else None)
        avail (colkind idxseg = colFixed) False grbit = Some (errSuccess, part, short, ib) \<and>
      SearchPart (TextData (idxseg, field) c) avail (flip_bits (FDescending idxseg) (Segment idb (idxseg, field) c)) part short"
  by (rule NormalizeSearchColumn_spec [OF assms]) (simp add: assms(6))

lemma MakeColumnKey_spec:
  assumes inv: "MadeSoFar idb seen fucb" and index: "SearchIndex idb" and seg: "length seen < length (rgidxseg idb)" "rgidxseg idb ! length seen = seg"
    and legal: "LegalColumn seg c" "Searchable idb seg c"
    and zero: "has_bit grbit JET_bitKeyDataZeroLength \<longleftrightarrow> EmptyColumn c" and plain: "PlainGrbit grbit"
  shows "\<exists>fucb'. MakeColumnKey M idb (ColumnBytes c) grbit fucb = Some (errSuccess, fucb') \<and> MadeSoFar idb (seen @ [(seg, c)]) fucb'"
proof -
  obtain idxseg field where s: "seg = (idxseg, field)" by (cases seg)
  let ?avail = "CbKeyMost idb - length (dataSearchKey fucb)" and ?S = "Segment idb seg c"
  have c: "cColumnsInSearchKey fucb = length seen" using inv by (simp add: MadeSoFar_def)
  have limit: "CbLimitKeyMost (CbKeyMost idb) = CbKeyMost idb + 1" "(length seen = 0 \<and> FTuples idb) = False" using index by (auto simp: SearchIndex_def PlainIndex_def CbLimitKeyMost_def)
  note key = MakeColumnKey_def [of M idb "ColumnBytes c" grbit fucb, unfolded Let_def c seg s prod.case column_line [OF legal(2) [unfolded s]] option.case
      limit PlainGrbit_limits [OF plain] not_True_eq_False if_False if_not_P [OF seg(1) [folded not_le]] simp_thms]
  show ?thesis
  proof (cases "\<not> FKSTooBig fucb \<and> length (dataSearchKey fucb) < CbKeyMost idb")
    case False
    have "CbKeyMost idb \<le> length (KeyOf idb seen)"
      using inv False by (auto simp: MadeSoFar_def)
    moreover have "MakeColumnKey M idb (ColumnBytes c) grbit fucb =
        Some (errSuccess, KSSetPrepare (fucb\<lparr>cColumnsInSearchKey := length seen + 1\<rparr>))"
      unfolding key if_not_P [OF False] by (simp add: failure_def c PlainGrbit_limits(2) [OF plain])
    ultimately show ?thesis using inv Segment_nonempty [OF legal(1), of idb] by (auto simp: MadeSoFar_def KSSetPrepare_def)
  next
    case True
    then have len: "length (KeyOf idb seen) < CbKeyMost idb" "dataSearchKey fucb = KeyOf idb seen"
      using inv by (auto simp: MadeSoFar_def)
    have avail: "0 < ?avail" "?avail \<le> CbKeyMost idb" "CbKeyMost idb = length (KeyOf idb seen) + ?avail" using True len by auto
    obtain part short ib where p: "NormalizeSearchColumn M idb field
        (if length (ColumnBytes c) \<noteq> 0 \<or> has_bit grbit JET_bitKeyDataZeroLength then Some (ColumnBytes c) else None)
        ?avail (colkind idxseg = colFixed) False grbit = Some (errSuccess, part, short, ib)"
      "SearchPart (TextData seg c) ?avail (flip_bits (FDescending idxseg) ?S) part short"
      using NormalizeSegment_spec [OF _ avail(1,2) legal [unfolded s] zero, of M] index by (auto simp: s SearchIndex_def)
    have small: "length part \<le> ?avail" using p(2) by (simp add: SearchPart_def split: if_splits)
    let ?fucb = "KSSetPrepare ((if short then KSSetTooBig fucb else fucb)
        \<lparr>cColumnsInSearchKey := length seen + 1, dataSearchKey := KeyOf idb seen @ flip_bits (FDescending idxseg) part\<rparr>)"
    have norm: "ErrFLDNormalizeSegment M idb (idxseg, field)
        (if length (ColumnBytes c) \<noteq> 0 \<or> has_bit grbit JET_bitKeyDataZeroLength then Some (ColumnBytes c) else None) ?avail False grbit fucb =
      Some (errSuccess, flip_bits (FDescending idxseg) part, if short then KSSetTooBig fucb else fucb)"
      unfolding ErrFLDNormalizeSegment_def Let_def prod.case p(1) option.case by (simp add: failure_def PlainGrbit_limits [OF plain])
    have "MakeColumnKey M idb (ColumnBytes c) grbit fucb = Some (errSuccess, ?fucb)"
      unfolding key if_P [OF True] norm option.map prod.case using small len avail(3)
      by (simp add: failure_def PlainGrbit_limits(2) [OF plain] KSSetTooBig_def c)
    moreover have "MadeSoFar idb (seen @ [(seg, c)]) ?fucb"
    proof (cases "length ?S \<le> ?avail")
      case True
      then have "part = flip_bits (FDescending idxseg) ?S" "\<not> short" using p(2) by (simp_all add: SearchPart_def)
      then show ?thesis using inv len avail True by (auto simp: MadeSoFar_def KSSetPrepare_def)
    next
      case False
      then have q: "length part = ?avail" "\<not> TextData seg c \<longrightarrow> part = take ?avail (flip_bits (FDescending idxseg) ?S)"
        using p(2) by (simp_all add: SearchPart_def)
      have plain': "\<not> TextData seg c \<Longrightarrow> KeyOf idb seen @ flip_bits (FDescending idxseg) part = take (CbKeyMost idb) (KeyOf idb seen @ ?S)"
        using q(2) avail(3) len by (simp add: take_flip_bits)
      show ?thesis using inv False q(1) plain' avail(3) by (auto simp: MadeSoFar_def KSSetPrepare_def KSSetTooBig_def)
    qed
    ultimately show ?thesis by blast
  qed
qed

subsection \<open>All the columns\<close>

text \<open>
  A call for each column, the first one with \<open>JET_bitNewKey\<close>, those for empty values with \<open>JET_bitKeyDataZeroLength\<close> and the last
  one with the limit the client wants.
\<close>

definition ColumnGrbit :: "bool \<Rightarrow> COLUMN \<Rightarrow> u32" where
  "ColumnGrbit first column =
     (if first then JET_bitNewKey else 0) OR (if EmptyColumn column then JET_bitKeyDataZeroLength else 0)"

fun MakeKeys :: "(bytes \<Rightarrow> nat \<Rightarrow> KEYERR \<times> bytes) \<Rightarrow> IDB \<Rightarrow> u32 \<Rightarrow> bool \<Rightarrow> COLUMN list \<Rightarrow> SEARCHKEY \<Rightarrow> (KEYERR \<times> SEARCHKEY) option" where
  "MakeKeys M idb limit first (column # columns) fucb =
     (case ErrIsamMakeKey M (Some idb) (ColumnBytes column) (ColumnGrbit first column OR (if columns = [] then limit else 0)) fucb of
        None \<Rightarrow> None
      | Some (err, fucb) \<Rightarrow> if failure err then Some (err, fucb) else MakeKeys M idb limit False columns fucb)"
| "MakeKeys M idb limit first [] fucb = Some (errSuccess, fucb)"

lemma ColumnGrbit_facts:
  "PlainGrbit (ColumnGrbit first c)" "has_bit (ColumnGrbit first c) JET_bitKeyDataZeroLength \<longleftrightarrow> EmptyColumn c"
  "has_bit (ColumnGrbit first c) JET_bitNewKey \<longleftrightarrow> first" "\<not> has_bit (ColumnGrbit first c) JET_bitNormalizedKey"
  "\<not> has_bit (ColumnGrbit first c) JET_bitKeyOverridePrimaryIndexPlaceholder"
  by (simp_all add: ColumnGrbit_def PlainGrbit_def grbit_defs)

definition NewSearchKey :: "SEARCHKEY \<Rightarrow> SEARCHKEY" where
  "NewSearchKey fucb = (KSReset fucb)\<lparr>dataSearchKey := [], cColumnsInSearchKey := 0\<rparr>"

lemma MadeSoFar_new: "MadeSoFar idb [] (NewSearchKey fucb)"
  by (simp add: MadeSoFar_def NewSearchKey_def KSReset_def KeyOf_def)

lemma MakeKey_first:
  "\<not> FHasPlaceholderColumn idb \<Longrightarrow> ErrIsamMakeKey M (Some idb) (ColumnBytes c) (ColumnGrbit True c) fucb =
    MakeColumnKey M idb (ColumnBytes c) (ColumnGrbit True c) (NewSearchKey fucb)"
  by (simp add: ErrIsamMakeKey_def ColumnGrbit_facts NewSearchKey_def)

lemma MakeKey_next:
  "FKSPrepared fucb \<Longrightarrow> \<not> FKSLimit fucb \<Longrightarrow> ErrIsamMakeKey M (Some idb) (ColumnBytes c) (ColumnGrbit False c) fucb =
    MakeColumnKey M idb (ColumnBytes c) (ColumnGrbit False c) fucb"
  by (simp add: ErrIsamMakeKey_def ColumnGrbit_facts)

lemma drop_Suc_tl_drop: "drop (Suc n) xs = tl (drop n xs)"
  by (simp add: drop_Suc tl_drop)

lemma MakeKeys_split:
  "columns \<noteq> [] \<Longrightarrow> MakeKeys M idb limit first (columns @ [column]) fucb =
    (case MakeKeys M idb 0 first columns fucb of
       None \<Rightarrow> None
     | Some (err, fucb) \<Rightarrow> if failure err then Some (err, fucb) else MakeKeys M idb limit False [column] fucb)"
proof (induction columns arbitrary: first fucb)
  case (Cons c columns)
  show ?case
  proof (cases "ErrIsamMakeKey M (Some idb) (ColumnBytes c) (ColumnGrbit first c) fucb")
    case None
    then show ?thesis by simp
  next
    case (Some r)
    then show ?thesis using Cons.IH [of False "snd r"]
      by (cases r; cases "failure (fst r)"; cases "columns = []") (simp_all add: failure_def)
  qed
qed simp

lemma MakeKeys_next:
  assumes index: "SearchIndex idb" and seen: "MadeSoFar idb seen fucb" "seen \<noteq> []"
    and rest: "drop (length seen) (rgidxseg idb) = segs @ more_segs" "list_all2 LegalColumn segs columns" "list_all2 (Searchable idb) segs columns"
  shows "\<exists>fucb'. MakeKeys M idb 0 False columns fucb = Some (errSuccess, fucb') \<and> MadeSoFar idb (seen @ zip segs columns) fucb'"
  using seen rest
proof (induction columns arbitrary: seen segs fucb)
  case Nil
  then show ?case by simp
next
  case (Cons c columns)
  from Cons.prems(4) obtain seg segs' where s: "segs = seg # segs'" "LegalColumn seg c" "list_all2 LegalColumn segs' columns"
    by (auto simp: list_all2_Cons2)
  then have s': "Searchable idb seg c" "list_all2 (Searchable idb) segs' columns" using Cons.prems(5) by auto
  have d: "drop (length seen) (rgidxseg idb) = seg # (segs' @ more_segs)" using Cons.prems(3) s(1) by simp
  have at: "length seen < length (rgidxseg idb)" "rgidxseg idb ! length seen = seg"
      "drop (length (seen @ [(seg, c)])) (rgidxseg idb) = segs' @ more_segs"
  proof -
    show "length seen < length (rgidxseg idb)" using d by (cases "length seen < length (rgidxseg idb)") simp_all
    show "rgidxseg idb ! length seen = seg" using d by (rule nth_via_drop)
    show "drop (length (seen @ [(seg, c)])) (rgidxseg idb) = segs' @ more_segs"
      using d by (simp only: length_append_singleton drop_Suc_tl_drop list.sel)
  qed
  from MakeColumnKey_spec [OF Cons.prems(1) index at(1,2) s(2) s'(1) ColumnGrbit_facts(2,1) [of False], where M = M] obtain fucb1 where
    f: "MakeColumnKey M idb (ColumnBytes c) (ColumnGrbit False c) fucb = Some (errSuccess, fucb1)" "MadeSoFar idb (seen @ [(seg, c)]) fucb1" by blast
  have "FKSPrepared fucb" "\<not> FKSLimit fucb" using Cons.prems(1,2) by (simp_all add: MadeSoFar_def)
  note call = MakeKey_next [OF this, of M idb c]
  from Cons.IH [OF f(2) _ at(3) s(3) s'(2)] show ?case by (simp add: call f(1) failure_def s(1))
qed

lemma MakeKeys_spec:
  assumes index: "SearchIndex idb" "\<not> FHasPlaceholderColumn idb" and some: "columns \<noteq> []"
    and segs: "rgidxseg idb = segs @ more_segs" "list_all2 LegalColumn segs columns" "list_all2 (Searchable idb) segs columns"
  shows "\<exists>fucb'. MakeKeys M idb 0 True columns fucb = Some (errSuccess, fucb') \<and> MadeSoFar idb (zip segs columns) fucb'"
proof -
  obtain c columns' seg segs' where s: "columns = c # columns'" "segs = seg # segs'" "LegalColumn seg c" "Searchable idb seg c"
      "list_all2 LegalColumn segs' columns'" "list_all2 (Searchable idb) segs' columns'"
    using some segs(2,3) by (cases columns) (auto simp: list_all2_Cons2)
  have at: "length [] < length (rgidxseg idb)" "rgidxseg idb ! length [] = seg" "drop (length ([] @ [(seg, c)])) (rgidxseg idb) = segs' @ more_segs"
    using segs(1) s(2) by simp_all
  from MakeColumnKey_spec [OF MadeSoFar_new [of idb fucb] index(1) at(1,2) s(3,4) ColumnGrbit_facts(2,1) [of True], where M = M] obtain fucb1 where
    f: "MakeColumnKey M idb (ColumnBytes c) (ColumnGrbit True c) (NewSearchKey fucb) = Some (errSuccess, fucb1)" "MadeSoFar idb [(seg, c)] fucb1"
    by auto
  from MakeKeys_next [OF index(1) f(2), of segs' more_segs columns' M] at(3) s(5,6)
  show ?thesis by (simp add: s(1,2) MakeKey_first [OF index(2)] f(1) failure_def)
qed

end
