(* ===== verification/Key_Limits.thy ===== *)
theory Key_Limits
  imports Key_Search
begin

text \<open>
  The limits of a search key: the last column of a search key can stand for all values that are equal to it or, for text and binary columns, begin with it.
\<close>

subsection \<open>The delimiter of a binary column\<close>

definition BinaryDelimiter :: "bytes \<Rightarrow> nat" where
  "BinaryDelimiter pb = (length pb - 1) div 8 * 9 + (length pb - 1) mod 8 + 1"

lemma BinaryDelimiter_step:
  assumes "8 < length pb"
  shows "BinaryDelimiter pb = 9 + BinaryDelimiter (drop 8 pb)"
proof -
  have e: "length pb - 1 = 8 + (length pb - 9)" "length (drop 8 pb) - 1 = length pb - 9" using assms by simp_all
  have "(8 + x) div 8 = Suc (x div 8)" "(8 + x) mod 8 = x mod 8" for x :: nat by simp_all
  then show ?thesis unfolding BinaryDelimiter_def e by simp
qed

lemma ChunkLoop_delimiter:
  assumes "pb \<noteq> []"
  shows "\<exists>chunk. ChunkLoop True (length (BinaryChunks pb)) pb s d = (0, chunk, s @ BinaryChunks pb, length s + BinaryDelimiter pb)"
  using assms
proof (induction pb arbitrary: s d rule: BinaryChunks.induct)
  case (1 pb)
  have chunks: "BinaryChunks pb = (if length pb \<le> 8 then pb @ replicate (8 - length pb) 0 @ [of_nat (length pb)]
      else take 8 pb @ [9] @ BinaryChunks (drop 8 pb))" by (subst BinaryChunks.simps) simp
  show ?case
  proof (cases "length pb \<le> 8")
    case True
    have len: "length (BinaryChunks pb) = 9" using True by (simp add: chunks)
    have "length pb - 1 < 8" "0 < length pb" using True 1 by auto
    then have "BinaryDelimiter pb = length pb" by (simp add: BinaryDelimiter_def)
    then show ?thesis unfolding len
      by (subst ChunkLoop.simps, subst ChunkLoop.simps)
        (use True in \<open>auto simp: Let_def cbFLDBinaryChunkNormalized_def cbFLDBinaryChunk_def chunks\<close>)
  next
    case False
    have len: "length (BinaryChunks pb) = 9 + length (BinaryChunks (drop 8 pb))" using False by (simp add: chunks)
    have "BinaryDelimiter pb = 9 + BinaryDelimiter (drop 8 pb)" using False by (simp add: BinaryDelimiter_step)
    with "1.IH" [OF False, of "s @ take 8 pb @ [9]" d] False show ?thesis unfolding len
      by (subst ChunkLoop.simps) (simp add: Let_def cbFLDBinaryChunkNormalized_def cbFLDBinaryChunk_def chunks add.assoc)
  qed
qed

lemma FLDNormalizeBinarySegment_fits:
  assumes "pb \<noteq> []" "Suc (length (BinaryChunks pb)) \<le> cbKeyAvail" "cbKeyMost \<le> cbVarSegMac"
  shows "FLDNormalizeBinarySegment pb cbKeyAvail cbKeyMost cbVarSegMac False = (bPrefixData # BinaryChunks pb, False, Suc (BinaryDelimiter pb))"
proof -
  have len: "(length pb + (cbFLDBinaryChunk - 1)) div cbFLDBinaryChunk * cbFLDBinaryChunkNormalized = length (BinaryChunks pb)"
    using assms(1) by (simp add: length_BinaryChunks cbFLDBinaryChunk_def cbFLDBinaryChunkNormalized_def)
  obtain chunk where "ChunkLoop True (length (BinaryChunks pb)) pb [bPrefixData] 0 = (0, chunk, [bPrefixData] @ BinaryChunks pb, length [bPrefixData] + BinaryDelimiter pb)"
    using ChunkLoop_delimiter [OF assms(1)] by blast
  then show ?thesis using assms unfolding FLDNormalizeBinarySegment_def Let_def len by simp
qed

text \<open>
  A value that begins with \<open>p\<close> has the bytes of \<open>p\<close> up to its delimiter; in the rest of the chunk comes a count of at most 9.
\<close>

lemma BinaryChunks_begin:
  assumes "p \<noteq> []"
  shows "\<exists>u m v. BinaryChunks (p @ q) = take (BinaryDelimiter p) (BinaryChunks p) @ u @ m # v \<and> 0 < m \<and> m \<le> 9 \<and>
    length u + BinaryDelimiter p + 1 = length (BinaryChunks p)"
  using assms
proof (induction p rule: BinaryChunks.induct)
  case (1 p)
  have chunks: "BinaryChunks p = (if length p \<le> 8 then p @ replicate (8 - length p) 0 @ [of_nat (length p)]
      else take 8 p @ [9] @ BinaryChunks (drop 8 p))" by (subst BinaryChunks.simps) simp
  have chunks_q: "BinaryChunks (p @ q) = (if length (p @ q) \<le> 8 then (p @ q) @ replicate (8 - length (p @ q)) 0 @ [of_nat (length (p @ q))]
      else take 8 (p @ q) @ [9] @ BinaryChunks (drop 8 (p @ q)))" by (subst BinaryChunks.simps) simp
  show ?case
  proof (cases "length p \<le> 8")
    case True
    have "length p - 1 < 8" "0 < length p" using True 1 by auto
    then have d: "BinaryDelimiter p = length p" by (simp add: BinaryDelimiter_def)
    show ?thesis
    proof (cases "length (p @ q) \<le> 8")
      case short: True
      have "(0 :: u8) < of_nat (length (p @ q))" "(of_nat (length (p @ q)) :: u8) \<le> 9"
        using short \<open>0 < length p\<close> small_count [of 0 "length (p @ q)"] small_count [of 9 "length (p @ q)"] by (auto simp: not_less)
      then show ?thesis using True short d
        by (intro exI [of _ "q @ replicate (8 - length (p @ q)) 0"] exI [of _ "of_nat (length (p @ q))"] exI [of _ "[]"])
          (simp add: chunks chunks_q)
    next
      case False
      then show ?thesis using True d
        by (intro exI [of _ "take (8 - length p) q"] exI [of _ 9] exI [of _ "BinaryChunks (drop 8 (p @ q))"]) (simp add: chunks chunks_q)
    qed
  next
    case False
    have d: "BinaryDelimiter p = 9 + BinaryDelimiter (drop 8 p)" using False by (simp add: BinaryDelimiter_step)
    obtain u m v where "BinaryChunks (drop 8 p @ q) = take (BinaryDelimiter (drop 8 p)) (BinaryChunks (drop 8 p)) @ u @ m # v"
      "0 < m" "m \<le> 9" "length u + BinaryDelimiter (drop 8 p) + 1 = length (BinaryChunks (drop 8 p))"
      using "1.IH" [OF False] False by auto
    then show ?thesis using False d
      by (intro exI [of _ u] exI [of _ m] exI [of _ v]) (simp add: chunks chunks_q take_Cons')
  qed
qed

subsection \<open>Sentinels\<close>

lemma below_sentinels: "i < n \<Longrightarrow> length pb \<le> i \<or> pb ! i \<noteq> 0xff \<Longrightarrow> pb < replicate n (0xff :: u8)"
proof (induction n arbitrary: i pb)
  case (Suc n)
  have top: "b = 0xff \<or> b < 0xff" for b :: u8
    using uint_lt2p [of b] by (simp add: word_less_def word_uint_eq_iff) linarith
  show ?case
  proof (cases pb)
    case (Cons b pb')
    show ?thesis
    proof (cases "b = 0xff")
      case True
      then obtain k where "i = Suc k" using Suc.prems Cons by (cases i) auto
      then show ?thesis using Suc True Cons by auto
    next
      case False
      then show ?thesis using top [of b] Cons by auto
    qed
  qed simp
qed simp

subsection \<open>The call with a limit\<close>

definition SegmentDelimiter :: "IDXSEG \<times> FIELD \<Rightarrow> COLUMN \<Rightarrow> nat" where
  "SegmentDelimiter seg column = Suc (BinaryDelimiter (c_data column))"

lemma NormalizeSegment_fits:
  assumes "PlainIndex idb" "0 < avail" "avail \<le> CbKeyMost idb" "LegalColumn (idxseg, field) c" "Searchable idb (idxseg, field) c"
    and "has_bit grbit JET_bitKeyDataZeroLength \<longleftrightarrow> EmptyColumn c" "length (Segment idb (idxseg, field) c) \<le> avail"
  obtains ib where "NormalizeSearchColumn M idb field
        (if length (ColumnBytes c) \<noteq> 0 \<or> has_bit grbit JET_bitKeyDataZeroLength then Some (ColumnBytes c) else None)
        avail (colkind idxseg = colFixed) False grbit = Some (errSuccess, flip_bits (FDescending idxseg) (Segment idb (idxseg, field) c), False, ib)"
    "FRECBinaryColumn (f_coltyp field) \<and> colkind idxseg \<noteq> colFixed \<and> \<not> NullColumn c \<longrightarrow> ib = SegmentDelimiter (idxseg, field) c"
proof -
  obtain ib where n: "NormalizeSearchColumn M idb field
        (if length (ColumnBytes c) \<noteq> 0 \<or> has_bit grbit JET_bitKeyDataZeroLength then Some (ColumnBytes c) else None)
        avail (colkind idxseg = colFixed) False grbit = Some (errSuccess, flip_bits (FDescending idxseg) (Segment idb (idxseg, field) c), False, ib)"
    using NormalizeSegment_spec [OF assms(1-6), of M] assms(7) by (auto simp: SearchPart_def)
  have "ib = SegmentDelimiter (idxseg, field) c" if b: "FRECBinaryColumn (f_coltyp field)" "colkind idxseg \<noteq> colFixed" "\<not> NullColumn c"
  proof -
    have t: "\<not> FRECTextColumn (f_coltyp field)" using b(1) by (auto simp: FRECTextColumn_def FRECBinaryColumn_def)
    have d: "c_data c \<noteq> []" "ColumnBytes c = c_data c" using b(3) by (simp_all add: NullColumn_def ColumnBytes_def)
    have "Segment idb (idxseg, field) c = flip_bits (FDescending idxseg) (bPrefixData # BinaryChunks (c_data c))"
      using b t by (simp add: Segment_def DataSegment_def)
    then have "Suc (length (BinaryChunks (c_data c))) \<le> avail" using assms(7) by simp
    moreover have "CbKeyMost idb \<le> cbVarSegMac_of idb" using assms(1) by (simp add: cbVarSegMac_of_def PlainIndex_def)
    ultimately have "FLDNormalizeBinarySegment (c_data c) avail (CbKeyMost idb) (cbVarSegMac_of idb) False =
        (bPrefixData # BinaryChunks (c_data c), False, Suc (BinaryDelimiter (c_data c)))"
      by (intro FLDNormalizeBinarySegment_fits d)
    then show ?thesis using n b t d by (simp add: NormalizeSearchColumn_def SegmentDelimiter_def)
  qed
  then show thesis using that n by blast
qed

lemma MakeColumnKey_limit:
  assumes inv: "MadeSoFar idb seen fucb" and index: "SearchIndex idb" and seg: "length seen < length (rgidxseg idb)" "rgidxseg idb ! length seen = (idxseg, field)"
    and legal: "LegalColumn (idxseg, field) c" "Searchable idb (idxseg, field) c"
    and zero: "has_bit grbit JET_bitKeyDataZeroLength \<longleftrightarrow> EmptyColumn c" and allowed: "LimitOptionsAllowed idxseg field grbit"
    and fits: "length (KeyOf idb seen) + length (Segment idb (idxseg, field) c) \<le> CbKeyMost idb"
    and limits: "\<And>ib. (FRECBinaryColumn (f_coltyp field) \<and> colkind idxseg \<noteq> colFixed \<and> \<not> NullColumn c \<longrightarrow> ib = SegmentDelimiter (idxseg, field) c) \<Longrightarrow>
      SetColumnLimits field (Segment idb (idxseg, field) c) (CbKeyMost idb - length (KeyOf idb seen)) (FDescending idxseg) ib grbit = Some (out, True)"
    and small: "length out \<le> CbKeyMost idb - length (KeyOf idb seen) + 1"
  shows "\<exists>fucb'. MakeColumnKey M idb (ColumnBytes c) grbit fucb = Some (errSuccess, fucb') \<and> dataSearchKey fucb' = KeyOf idb seen @ out \<and> FKSLimit fucb'"
proof -
  let ?avail = "CbKeyMost idb - length (KeyOf idb seen)"
  have pos: "0 < length (Segment idb (idxseg, field) c)" using Segment_nonempty [OF legal(1)] .
  then have len: "length (KeyOf idb seen) < CbKeyMost idb" using fits by linarith
  then have f: "cColumnsInSearchKey fucb = length seen" "\<not> FKSTooBig fucb" "dataSearchKey fucb = KeyOf idb seen" using inv by (auto simp: MadeSoFar_def)
  have avail: "0 < ?avail" "?avail \<le> CbKeyMost idb" "length (Segment idb (idxseg, field) c) \<le> ?avail" using len fits by auto
  have limit: "CbLimitKeyMost (CbKeyMost idb) = CbKeyMost idb + 1" "(length seen = 0 \<and> FTuples idb) = False"
    using index by (auto simp: SearchIndex_def PlainIndex_def CbLimitKeyMost_def)
  have plain: "PlainIndex idb" using index by (simp add: SearchIndex_def)
  obtain ib where ib: "NormalizeSearchColumn M idb field
        (if length (ColumnBytes c) \<noteq> 0 \<or> has_bit grbit JET_bitKeyDataZeroLength then Some (ColumnBytes c) else None)
        ?avail (colkind idxseg = colFixed) False grbit = Some (errSuccess, flip_bits (FDescending idxseg) (Segment idb (idxseg, field) c), False, ib)"
      "FRECBinaryColumn (f_coltyp field) \<and> colkind idxseg \<noteq> colFixed \<and> \<not> NullColumn c \<longrightarrow> ib = SegmentDelimiter (idxseg, field) c"
    using NormalizeSegment_fits [OF plain avail(1,2) legal zero avail(3), of M] by blast
  note set_limits = limits [OF ib(2)]
  have norm: "ErrFLDNormalizeSegment M idb (idxseg, field)
      (if length (ColumnBytes c) \<noteq> 0 \<or> has_bit grbit JET_bitKeyDataZeroLength then Some (ColumnBytes c) else None) ?avail False grbit fucb =
      Some (errSuccess, out, KSSetLimit fucb)"
    unfolding ErrFLDNormalizeSegment_def Let_def prod.case ib(1) option.case by (simp add: failure_def set_limits)
  note key = MakeColumnKey_def [of M idb "ColumnBytes c" grbit fucb, unfolded Let_def f(1,3) seg prod.case column_line [OF legal(2)] option.case
      limit not_True_eq_False if_False if_not_P [OF seg(1) [folded not_le]] simp_thms]
  have cond: "\<not> FKSTooBig fucb \<and> length (KeyOf idb seen) < CbKeyMost idb" using f len by simp
  show ?thesis
    unfolding key if_P [OF cond] norm option.map prod.case using small len
    by (simp add: failure_def allowed KSSetLimit_def KSSetPrepare_def f(3))
qed

definition LimitOptions :: "u32 set" where
  "LimitOptions = {JET_bitFullColumnStartLimit, JET_bitFullColumnEndLimit, JET_bitPartialColumnStartLimit, JET_bitPartialColumnEndLimit}"

lemma grbit_limit:
  assumes "limit \<in> LimitOptions"
  shows "(ColumnGrbit first c OR limit) AND JET_maskLimitOptions = limit"
    "has_bit (ColumnGrbit first c OR limit) JET_bitFullColumnEndLimit \<longleftrightarrow> limit = JET_bitFullColumnEndLimit"
    "has_bit (ColumnGrbit first c OR limit) JET_bitPartialColumnEndLimit \<longleftrightarrow> limit = JET_bitPartialColumnEndLimit"
    "has_bit (ColumnGrbit first c OR limit) JET_bitKeyDataZeroLength \<longleftrightarrow> EmptyColumn c"
    "has_bit (ColumnGrbit first c OR limit) JET_bitNewKey \<longleftrightarrow> first"
    "\<not> has_bit (ColumnGrbit first c OR limit) JET_bitNormalizedKey"
  using assms by (auto simp: LimitOptions_def ColumnGrbit_def grbit_defs)

lemma limits_distinct:
  "JET_bitFullColumnStartLimit \<noteq> JET_bitFullColumnEndLimit" "JET_bitPartialColumnStartLimit \<noteq> JET_bitPartialColumnEndLimit"
  "JET_bitPartialColumnStartLimit \<noteq> JET_bitFullColumnStartLimit" "JET_bitPartialColumnStartLimit \<noteq> JET_bitFullColumnEndLimit"
  "JET_bitPartialColumnEndLimit \<noteq> JET_bitFullColumnStartLimit" "JET_bitPartialColumnEndLimit \<noteq> JET_bitFullColumnEndLimit"
  "JET_bitFullColumnEndLimit \<noteq> 0" "JET_bitPartialColumnEndLimit \<noteq> 0"
  by (simp_all add: grbit_defs)

lemmas limit_simps = limits_distinct limits_distinct [symmetric] grbit_limit LimitOptions_def

lemma full_limits:
  "SetColumnLimits field pb avail d ib (ColumnGrbit first c OR JET_bitFullColumnStartLimit) = Some (pb, True)"
  "SetColumnLimits field pb avail d ib (ColumnGrbit first c OR JET_bitFullColumnEndLimit) = Some (pb @ replicate (avail + 1 - length pb) bSentinel, True)"
  "LimitOptionsAllowed idxseg field (ColumnGrbit first c OR JET_bitFullColumnStartLimit)"
  "LimitOptionsAllowed idxseg field (ColumnGrbit first c OR JET_bitFullColumnEndLimit)"
  by (simp_all add: SetColumnLimits_def LimitOptionsAllowed_def FLDISetFullColumnLimit_def Let_def limit_simps)

lemma partial_limits_binary:
  assumes "FRECBinaryColumn (f_coltyp field)" "ib \<noteq> 0"
  shows "SetColumnLimits field pb avail d ib (ColumnGrbit first c OR JET_bitPartialColumnStartLimit) = Some (take ib pb, True)"
    "SetColumnLimits field pb avail d ib (ColumnGrbit first c OR JET_bitPartialColumnEndLimit) =
      Some (take ib pb @ replicate (length pb + 1 - ib) bSentinel, True)"
    "colkind idxseg \<noteq> colFixed \<Longrightarrow> LimitOptionsAllowed idxseg field (ColumnGrbit first c OR JET_bitPartialColumnStartLimit)"
    "colkind idxseg \<noteq> colFixed \<Longrightarrow> LimitOptionsAllowed idxseg field (ColumnGrbit first c OR JET_bitPartialColumnEndLimit)"
proof -
  have "\<not> FRECTextColumn (f_coltyp field)" using assms(1) by (auto simp: FRECTextColumn_def FRECBinaryColumn_def)
  then show "SetColumnLimits field pb avail d ib (ColumnGrbit first c OR JET_bitPartialColumnStartLimit) = Some (take ib pb, True)"
    "SetColumnLimits field pb avail d ib (ColumnGrbit first c OR JET_bitPartialColumnEndLimit) =
      Some (take ib pb @ replicate (length pb + 1 - ib) bSentinel, True)"
    using assms by (simp_all add: SetColumnLimits_def FLDITrySetPartialColumnLimitOnBinaryColumn_def Let_def limit_simps)
  show "colkind idxseg \<noteq> colFixed \<Longrightarrow> LimitOptionsAllowed idxseg field (ColumnGrbit first c OR JET_bitPartialColumnStartLimit)"
    "colkind idxseg \<noteq> colFixed \<Longrightarrow> LimitOptionsAllowed idxseg field (ColumnGrbit first c OR JET_bitPartialColumnEndLimit)"
    using assms(1) by (simp_all add: LimitOptionsAllowed_def Let_def limit_simps)
qed

lemma partial_limits_text:
  assumes "FRECTextColumn (f_coltyp field)" "\<not> f_fUnicode field" "1 \<le> length t" "length t + 1 \<le> avail"
  shows "SetColumnLimits field (flip_bits d (t @ [0])) avail d ib (ColumnGrbit first c OR JET_bitPartialColumnStartLimit) = Some (flip_bits d t, True)"
    "SetColumnLimits field (flip_bits d (t @ [0])) avail d ib (ColumnGrbit first c OR JET_bitPartialColumnEndLimit) =
      Some (flip_bits d t @ replicate (avail + 1 - length t) bSentinel, True)"
    "LimitOptionsAllowed idxseg field (ColumnGrbit first c OR JET_bitPartialColumnStartLimit)"
    "LimitOptionsAllowed idxseg field (ColumnGrbit first c OR JET_bitPartialColumnEndLimit)"
proof -
  have f: "flip_bits d (t @ [0]) = flip_bits d t @ [if d then 0xff else 0]" by (simp add: flip_bits_def)
  have m: "min (length t) avail = length t" "replicate (Suc avail - length t) bSentinel = bSentinel # replicate (avail - length t) bSentinel"
    "(flip_bits e t @ [x]) ! length t = x" for e x
    using assms(4) nth_append_length [of "flip_bits e t" x "[]"] by (simp_all add: Suc_diff_le)
  show "SetColumnLimits field (flip_bits d (t @ [0])) avail d ib (ColumnGrbit first c OR JET_bitPartialColumnStartLimit) = Some (flip_bits d t, True)"
    "SetColumnLimits field (flip_bits d (t @ [0])) avail d ib (ColumnGrbit first c OR JET_bitPartialColumnEndLimit) =
      Some (flip_bits d t @ replicate (avail + 1 - length t) bSentinel, True)"
    unfolding f using assms
    by (auto simp: SetColumnLimits_def FLDISetPartialColumnLimitOnTextColumn_def Let_def limit_simps bASCIISortKeyTerminator_def m)
  show "LimitOptionsAllowed idxseg field (ColumnGrbit first c OR JET_bitPartialColumnStartLimit)"
    "LimitOptionsAllowed idxseg field (ColumnGrbit first c OR JET_bitPartialColumnEndLimit)"
    using assms(1) by (simp_all add: LimitOptionsAllowed_def Let_def limit_simps)
qed

lemma MakeKeys_limit:
  assumes index: "SearchIndex idb" "\<not> FHasPlaceholderColumn idb"
    and segs: "rgidxseg idb = (segs @ [(idxseg, field)]) @ more_segs"
      "list_all2 LegalColumn (segs @ [(idxseg, field)]) (columns @ [c])" "list_all2 (Searchable idb) (segs @ [(idxseg, field)]) (columns @ [c])"
    and fits: "length (tuple_code (Segment idb) segs columns) + length (Segment idb (idxseg, field) c) \<le> CbKeyMost idb"
    and limit: "limit \<in> LimitOptions" "\<And>first. LimitOptionsAllowed idxseg field (ColumnGrbit first c OR limit)"
    and limits: "\<And>ib first. FRECBinaryColumn (f_coltyp field) \<and> colkind idxseg \<noteq> colFixed \<and> \<not> NullColumn c \<longrightarrow> ib = SegmentDelimiter (idxseg, field) c \<Longrightarrow>
      SetColumnLimits field (Segment idb (idxseg, field) c) (CbKeyMost idb - length (tuple_code (Segment idb) segs columns)) (FDescending idxseg) ib
        (ColumnGrbit first c OR limit) = Some (out, True)"
    and small: "length out \<le> CbKeyMost idb - length (tuple_code (Segment idb) segs columns) + 1"
  shows "\<exists>fucb'. MakeKeys M idb limit True (columns @ [c]) fucb = Some (errSuccess, fucb') \<and>
    dataSearchKey fucb' = tuple_code (Segment idb) segs columns @ out \<and> FKSLimit fucb'"
proof -
  have legal: "list_all2 LegalColumn segs columns" "list_all2 (Searchable idb) segs columns" "LegalColumn (idxseg, field) c" "Searchable idb (idxseg, field) c"
    using segs(2,3) list_all2_lengthD [OF segs(2)] by (simp_all add: list_all2_append)
  have len: "length segs = length columns" using legal(1) by (rule list_all2_lengthD)
  have last: "\<exists>fucb'. MakeColumnKey M idb (ColumnBytes c) (ColumnGrbit first c OR limit) fucb1 = Some (errSuccess, fucb') \<and>
      dataSearchKey fucb' = tuple_code (Segment idb) segs columns @ out \<and> FKSLimit fucb'"
    if "MadeSoFar idb (zip segs columns) fucb1" for fucb1 first
    using MakeColumnKey_limit [OF that index(1) _ _ legal(3,4) grbit_limit(4) [OF limit(1)] limit(2) [of first] fits [folded KeyOf_zip]
        limits [of _ first, folded KeyOf_zip] small [folded KeyOf_zip], of M]
      segs(1) len by (simp add: KeyOf_zip nth_append)
  show ?thesis
  proof (cases "columns = []")
    case True
    have "MadeSoFar idb (zip segs columns) (NewSearchKey fucb)" using MadeSoFar_new [of idb fucb] True by simp
    from last [OF this, of True] show ?thesis
      using True by (auto simp: ErrIsamMakeKey_def grbit_limit [OF limit(1)] NewSearchKey_def index(2) failure_def)
  next
    case False
    obtain fucb1 where f: "MakeKeys M idb 0 True columns fucb = Some (errSuccess, fucb1)" "MadeSoFar idb (zip segs columns) fucb1"
      using MakeKeys_spec [OF index False _ legal(1,2)] segs(1) by fastforce
    have "FKSPrepared fucb1" "\<not> FKSLimit fucb1" using f(2) False len by (auto simp: MadeSoFar_def)
    then show ?thesis using last [OF f(2), of False] f(1)
      by (auto simp: MakeKeys_split [OF False] ErrIsamMakeKey_def grbit_limit [OF limit(1)] failure_def)
  qed
qed

subsection \<open>Values that begin with the last column\<close>

definition PartialColumn :: "IDXSEG \<times> FIELD \<Rightarrow> COLUMN \<Rightarrow> bool" where
  "PartialColumn seg column \<longleftrightarrow> \<not> NullColumn column \<and>
     (FRECBinaryColumn (f_coltyp (snd seg)) \<and> colkind (fst seg) \<noteq> colFixed \<or> FRECTextColumn (f_coltyp (snd seg)) \<and> 0 \<notin> set (c_data column))"

text \<open>
  The bytes \<open>part\<close> in front of the limits, which are also in front of the segment of every value that begins with the column, and
  the number \<open>m\<close> of sentinels of the upper limit.
\<close>

definition PartialLimits :: "IDB \<Rightarrow> IDXSEG \<times> FIELD \<Rightarrow> COLUMN \<Rightarrow> nat \<Rightarrow> bytes \<Rightarrow> nat \<Rightarrow> bool" where
  "PartialLimits idb seg c avail part m \<longleftrightarrow>
     (\<forall>ib first. (FRECBinaryColumn (f_coltyp (snd seg)) \<and> colkind (fst seg) \<noteq> colFixed \<and> \<not> NullColumn c \<longrightarrow> ib = SegmentDelimiter seg c) \<longrightarrow>
       SetColumnLimits (snd seg) (Segment idb seg c) avail (FDescending (fst seg)) ib (ColumnGrbit first c OR JET_bitPartialColumnStartLimit) = Some (part, True) \<and>
       SetColumnLimits (snd seg) (Segment idb seg c) avail (FDescending (fst seg)) ib (ColumnGrbit first c OR JET_bitPartialColumnEndLimit) =
         Some (part @ replicate m 0xff, True)) \<and>
     (\<forall>first. LimitOptionsAllowed (fst seg) (snd seg) (ColumnGrbit first c OR JET_bitPartialColumnStartLimit) \<and>
       LimitOptionsAllowed (fst seg) (snd seg) (ColumnGrbit first c OR JET_bitPartialColumnEndLimit)) \<and>
     length part + m \<le> avail + 1"

definition BeginsWith :: "IDB \<Rightarrow> IDXSEG \<times> FIELD \<Rightarrow> COLUMN \<Rightarrow> nat \<Rightarrow> bytes \<Rightarrow> nat \<Rightarrow> bool" where
  "BeginsWith idb seg d avail part m \<longleftrightarrow>
     (\<exists>t. Segment idb seg d = part @ t \<and> (\<forall>rest. length (part @ t @ rest) \<le> avail \<longrightarrow> t @ rest < replicate m 0xff))"

lemma PartialLimits_binary:
  assumes "PartialColumn seg c" "FRECBinaryColumn (f_coltyp (snd seg))" "length (Segment idb seg c) \<le> avail"
    and "c_data d = c_data c @ q" "\<not> c_fNull d"
  shows "\<exists>part m. PartialLimits idb seg c avail part m \<and> BeginsWith idb seg d avail part m"
proof -
  let ?d = "FDescending (fst seg)" and ?ib = "SegmentDelimiter seg c" and ?p = "c_data c"
  have t: "\<not> FRECTextColumn (f_coltyp (snd seg))" using assms(2) by (auto simp: FRECTextColumn_def FRECBinaryColumn_def)
  have c: "\<not> NullColumn c" "colkind (fst seg) \<noteq> colFixed" "?p \<noteq> []" using assms(1) t by (auto simp: PartialColumn_def NullColumn_def)
  have S: "Segment idb seg c = flip_bits ?d (bPrefixData # BinaryChunks ?p)" "Segment idb seg d = flip_bits ?d (bPrefixData # BinaryChunks (?p @ q))"
    using c assms(2,4,5) t by (simp_all add: Segment_def DataSegment_def NullColumn_def)
  obtain u m v where u: "BinaryChunks (?p @ q) = take (BinaryDelimiter ?p) (BinaryChunks ?p) @ u @ m # v" "0 < m" "m \<le> 9"
      "length u + BinaryDelimiter ?p + 1 = length (BinaryChunks ?p)"
    using BinaryChunks_begin [OF c(3)] by blast
  let ?part = "flip_bits ?d (bPrefixData # take (BinaryDelimiter ?p) (BinaryChunks ?p))" and ?n = "length u + 2"
  have take: "take ?ib (Segment idb seg c) = ?part" "length (Segment idb seg c) + 1 - ?ib = ?n" "?ib \<noteq> 0"
    using u(4) by (simp_all add: S(1) SegmentDelimiter_def take_flip_bits)
  have lim: "SetColumnLimits (snd seg) (Segment idb seg c) avail ?d ?ib (ColumnGrbit first c OR JET_bitPartialColumnStartLimit) = Some (?part, True)"
    "SetColumnLimits (snd seg) (Segment idb seg c) avail ?d ?ib (ColumnGrbit first c OR JET_bitPartialColumnEndLimit) =
      Some (?part @ replicate ?n 0xff, True)" for first
    using partial_limits_binary(1,2) [OF assms(2) take(3), where pb = "Segment idb seg c"] unfolding take bSentinel_def by blast+
  have size: "length ?part + ?n \<le> avail + 1" using assms(3) u(4) by (simp add: S(1))
  have "PartialLimits idb seg c avail ?part ?n"
    unfolding PartialLimits_def using c assms(2) lim size partial_limits_binary(3,4) [OF assms(2) take(3) c(2)] by blast
  moreover have "BeginsWith idb seg d avail ?part ?n"
  proof -
    have count: "0 < uint m" "uint m \<le> 9" using u(2,3) by (simp_all add: word_less_def word_le_def)
    have "uint (m XOR 0xff) \<noteq> 255" "uint m \<noteq> 255" using count unfolding uint_complement by simp_all
    then have "m XOR 0xff \<noteq> 0xff" "m \<noteq> 0xff" by auto
    then have "flip_bits ?d (u @ m # v) ! length u \<noteq> 0xff" by (simp add: flip_bits_def nth_append)
    then have "flip_bits ?d (u @ m # v) @ rest < replicate ?n 0xff" for rest
      by (intro below_sentinels [of "length u"]) (simp_all add: nth_append)
    then show ?thesis unfolding BeginsWith_def S(2) u(1)
      by (intro exI [of _ "flip_bits ?d (u @ m # v)"]) (simp flip: flip_bits_append)
  qed
  ultimately show ?thesis by blast
qed

lemma PartialLimits_text:
  assumes "PartialColumn seg c" "FRECTextColumn (f_coltyp (snd seg))" "\<not> f_fUnicode (snd seg)" "length (Segment idb seg c) \<le> avail"
    and "c_data d = c_data c @ q" "\<not> c_fNull d"
  shows "\<exists>part m. PartialLimits idb seg c avail part m \<and> BeginsWith idb seg d avail part m"
proof -
  let ?d = "FDescending (fst seg)" and ?p = "c_data c"
  have b: "\<not> FRECBinaryColumn (f_coltyp (snd seg))" using assms(2) by (auto simp: FRECTextColumn_def FRECBinaryColumn_def)
  have c: "\<not> NullColumn c" "?p \<noteq> []" "0 \<notin> set ?p" using assms(1) b by (auto simp: PartialColumn_def NullColumn_def)
  have cut: "strlen_cut ?p = ?p" "strlen_cut (?p @ q) = ?p @ strlen_cut q" using c(3) takeWhile_append [of "\<lambda>b. b \<noteq> 0" ?p q] by (auto simp: strlen_cut_def)
  have S: "Segment idb seg c = flip_bits ?d ((bPrefixData # TextCode ?p) @ [0])"
      "Segment idb seg d = flip_bits ?d (bPrefixData # TextCode ?p) @ flip_bits ?d (TextCode q @ [0])"
    using c assms(2,5,6) by (simp_all add: Segment_def DataSegment_def NullColumn_def TextCode_def cut flip: flip_bits_append)
  let ?t = "bPrefixData # TextCode ?p" and ?n = "avail + 1 - length (bPrefixData # TextCode ?p)"
  have len: "1 \<le> length ?t" "length ?t + 1 \<le> avail" using assms(4) by (simp_all add: S(1))
  have "PartialLimits idb seg c avail (flip_bits ?d ?t) ?n"
    using b len partial_limits_text [OF assms(2,3) len] by (auto simp: PartialLimits_def S(1) bSentinel_def)
  moreover have "BeginsWith idb seg d avail (flip_bits ?d ?t) ?n"
  proof -
    have "flip_bits ?d (TextCode q @ [0]) @ rest < replicate ?n 0xff"
      if "length (flip_bits ?d ?t @ flip_bits ?d (TextCode q @ [0]) @ rest) \<le> avail" for rest
      using that by (intro below_sentinels [of "length (flip_bits ?d (TextCode q @ [0]) @ rest)"]) simp_all
    then show ?thesis unfolding BeginsWith_def S(2) by blast
  qed
  ultimately show ?thesis by blast
qed

end
