(* ===== verification/Key_Retry.thy ===== *)
theory Key_Retry
  imports Key_Limits
begin

text \<open>
  The columns of a record are retrieved with a limit, which is doubled as long as more data could make the key longer.  The loop ends,
  and the limit does not change the key.
\<close>

definition LimitedColumns :: "COLUMN list \<Rightarrow> nat \<Rightarrow> COLUMN list" where
  "LimitedColumns columns cbDataMost = map (\<lambda>column. column\<lparr>c_data := take cbDataMost (c_data column)\<rparr>) columns"

subsection \<open>One column\<close>

lemma BinaryDelimiter_length: "length pb \<le> BinaryDelimiter pb"
  using div_mult_mod_eq [of "length pb - 1" 8] unfolding BinaryDelimiter_def by linarith

lemma length_chunks: "pb \<noteq> [] \<Longrightarrow> length pb < length (BinaryChunks pb)"
  using BinaryChunks_begin [of pb "[]"] BinaryDelimiter_length [of pb] by fastforce

lemma BinaryChunks_take:
  assumes "0 < n" "n < length pb" "k \<le> n"
  shows "take k (BinaryChunks (take n pb)) = take k (BinaryChunks pb)"
proof -
  have p: "take n pb \<noteq> []" using assms(1,2) by auto
  obtain u m v where "BinaryChunks (take n pb @ drop n pb) = take (BinaryDelimiter (take n pb)) (BinaryChunks (take n pb)) @ u @ m # v"
    using BinaryChunks_begin [OF p] by blast
  moreover have "k \<le> BinaryDelimiter (take n pb)" using BinaryDelimiter_length [of "take n pb"] assms by simp
  moreover have "k \<le> length (BinaryChunks (take n pb))" using length_chunks [OF p] assms by simp
  ultimately show ?thesis by (simp add: min_def)
qed

lemma binary_limited:
  assumes "pb \<noteq> []" "0 < avail" "avail \<le> n" "most \<le> mac"
  shows "fst (FLDNormalizeBinarySegment (take n pb) avail most mac fixed) = fst (FLDNormalizeBinarySegment pb avail most mac fixed)"
    and "fst (snd (FLDNormalizeBinarySegment (take n pb) avail most mac fixed)) = fst (snd (FLDNormalizeBinarySegment pb avail most mac fixed))"
proof -
  have p: "take n pb \<noteq> []" using assms by auto
  obtain ib where ib: "FLDNormalizeBinarySegment pb avail most mac fixed =
      (take avail (bPrefixData # (if fixed then pb else BinaryChunks pb)), avail < Suc (length (if fixed then pb else BinaryChunks pb)), ib)"
    using FLDNormalizeBinarySegment_spec [OF assms(1,2,4)] by blast
  obtain ib' where ib': "FLDNormalizeBinarySegment (take n pb) avail most mac fixed =
      (take avail (bPrefixData # (if fixed then take n pb else BinaryChunks (take n pb))),
       avail < Suc (length (if fixed then take n pb else BinaryChunks (take n pb))), ib')"
    using FLDNormalizeBinarySegment_spec [OF p assms(2,4)] by blast
  have "take avail (bPrefixData # (if fixed then take n pb else BinaryChunks (take n pb))) = take avail (bPrefixData # (if fixed then pb else BinaryChunks pb)) \<and>
    (avail < Suc (length (if fixed then take n pb else BinaryChunks (take n pb))) \<longleftrightarrow> avail < Suc (length (if fixed then pb else BinaryChunks pb)))"
  proof (cases "n < length pb")
    case True
    have "take (avail - 1) (BinaryChunks (take n pb)) = take (avail - 1) (BinaryChunks pb)"
      using assms True by (intro BinaryChunks_take) simp_all
    moreover have "avail \<le> length (BinaryChunks (take n pb))" "avail \<le> length (BinaryChunks pb)"
      using length_chunks [OF p] length_chunks [OF assms(1)] assms True by simp_all
    moreover have "avail - Suc 0 \<le> n" using assms(3) by simp
    ultimately show ?thesis using assms True by (simp add: take_Cons' min_def)
  qed simp
  then show "fst (FLDNormalizeBinarySegment (take n pb) avail most mac fixed) = fst (FLDNormalizeBinarySegment pb avail most mac fixed)"
    and "fst (snd (FLDNormalizeBinarySegment (take n pb) avail most mac fixed)) = fst (snd (FLDNormalizeBinarySegment pb avail most mac fixed))"
    unfolding ib ib' by auto
qed

lemma ErrUtilNormText_limited: "k < n \<Longrightarrow> ErrUtilNormText (take n pb) k = ErrUtilNormText pb k"
proof (cases "length pb \<le> n")
  case False
  assume "k < n"
  have "length (strlen_cut (take (k - 1) pb)) \<le> k - 1" using length_strlen_cut [of "take (k - 1) pb"] by simp
  then show ?thesis using \<open>k < n\<close> False by (cases "k = 0") (auto simp: ErrUtilNormText_def Let_def min_def)
qed simp

lemma text_limited:
  assumes "0 < avail" "avail \<le> cbKeyMost" "cbKeyMost \<le> n"
  shows "ErrFLDNormalizeTextSegment M (take n pb) avail cbKeyMost (cbKeyMost + 1) False = ErrFLDNormalizeTextSegment M pb avail cbKeyMost (cbKeyMost + 1) False"
proof -
  have min_take: "take (min (length pb) n) pb = take n pb" for n :: nat and pb :: bytes by (simp add: min_def)
  have min3: "255 \<le> n \<Longrightarrow> min (min l n) 255 = min l (255 :: nat)" for l by simp
  have a: "avail - 1 < n" "min avail (cbKeyMost + 1) - 1 = avail - 1" using assms by simp_all
  show ?thesis
    unfolding ErrFLDNormalizeTextSegment_def Let_def a(2) if_False
    using ErrUtilNormText_limited [OF a(1), of pb] assms by (auto simp: min_take min3 JET_cbKeyMost_OLD_def)
qed

lemma fixed_type_small: "cbFixedType coltyp \<le> 16"
  by (cases coltyp) (simp_all add: cbFixedType_def)

lemma NormalizeColumn_limited:
  assumes "PlainIndex idb" "0 < avail" "avail \<le> CbKeyMost idb" "CbKeyMost idb \<le> n" "16 \<le> n" "LegalColumn (idxseg, field) c"
  shows "NormalizeColumn M idb idxseg field (c_fNull c) (take n (c_data c)) avail short = NormalizeColumn M idb idxseg field (c_fNull c) (c_data c) avail short"
proof (cases "NullColumn c")
  case True
  then show ?thesis using assms(5) by (auto simp: NormalizeColumn_def NullColumn_def)
next
  case False
  have d: "\<not> c_fNull c" "c_data c \<noteq> []" "take n (c_data c) \<noteq> []" using False assms(5) by (auto simp: NullColumn_def)
  have legal: "LegalData (colkind idxseg) field (c_data c)" using False assms(6) by (simp add: LegalColumn_def)
  have mac: "cbVarSegMac_of idb = CbKeyMost idb + 1" using assms(1) by (simp add: cbVarSegMac_of_def PlainIndex_def)
  consider (chars) "FRECTextColumn (f_coltyp field)" | (binary) "\<not> FRECTextColumn (f_coltyp field)" "FRECBinaryColumn (f_coltyp field)"
    | (other) "\<not> FRECTextColumn (f_coltyp field)" "\<not> FRECBinaryColumn (f_coltyp field)" by blast
  then show ?thesis
  proof cases
    case chars
    then have "\<not> f_fUnicode field" using legal by (simp add: LegalData_def)
    then show ?thesis using d chars text_limited [OF assms(2-4), of M "c_data c"] by (simp add: NormalizeColumn_def mac)
  next
    case binary
    then show ?thesis
      using d binary_limited [OF d(2) assms(2), of n "CbKeyMost idb" "cbVarSegMac_of idb" "colkind idxseg = colFixed"] assms(3,4) mac
      by (simp add: NormalizeColumn_def case_prod_beta)
  next
    case other
    then have "length (c_data c) \<le> n" using legal fixed_type_small [of "f_coltyp field"] assms(5) by (simp add: LegalData_def)
    then show ?thesis by simp
  qed
qed

subsection \<open>The loop over the columns\<close>

text \<open>The loop with limited and with complete columns differs only in whether more data is wanted.\<close>

definition forget :: "KEYLOOP \<Rightarrow> KEYLOOP" where
  "forget st = st\<lparr>kl_fNeedMoreData := False\<rparr>"

lemma forget_same: "forget st = forget st' \<Longrightarrow> \<exists>b. st' = st\<lparr>kl_fNeedMoreData := b\<rparr>"
  by (cases st; cases st') (simp add: forget_def)

definition fst_two :: "'a \<times> 'b \<times> 'c \<Rightarrow> 'a \<times> 'b" where
  "fst_two = (\<lambda>(a, b, _). (a, b))"

lemma RetrieveKeyStep_limited:
  assumes "PlainIndex idb" "kl_cbKeyAvail st \<le> CbKeyMost idb" "forget st = forget st'" "LegalColumn seg c"
    and "CbKeyMost idb \<le> n" "16 \<le> n" "length (c_data c) \<le> N"
  shows "map_option (map_sum fst forget) (RetrieveKeyStep M idb ichOffset n i seg itag (c\<lparr>c_data := take n (c_data c)\<rparr>) st) =
    map_option (map_sum fst forget) (RetrieveKeyStep M idb ichOffset N i seg itag c st')"
proof -
  obtain idxseg field where seg: "seg = (idxseg, field)" by (cases seg)
  obtain b where st': "st' = st\<lparr>kl_fNeedMoreData := b\<rparr>" using forget_same [OF assms(3)] by blast
  have t: "FTuples idb = False" using assms(1) by (simp add: PlainIndex_def)
  show ?thesis
  proof (cases "kl_cbKeyAvail st = 0")
    case True
    then show ?thesis by (simp add: RetrieveKeyStep_def Let_def seg st' forget_def)
  next
    case False
    have norm: "NormalizeColumn M idb idxseg field (c_fNull c) (take n (c_data c)) (kl_cbKeyAvail st) (kl_fColumnTruncated st) =
        NormalizeColumn M idb idxseg field (c_fNull c) (c_data c) (kl_cbKeyAvail st) (kl_fColumnTruncated st)"
      using NormalizeColumn_limited [OF assms(1) _ assms(2,5,6)] False assms(4) by (simp add: seg)
    show ?thesis
      using False assms(7)
      by (cases "NormalizeColumn M idb idxseg field (c_fNull c) (c_data c) (kl_cbKeyAvail st) (kl_fColumnTruncated st)")
        (auto simp: RetrieveKeyStep_def Let_def seg st' t norm forget_def)
  qed
qed

lemma RetrieveKeyStep_avail: "RetrieveKeyStep M idb ichOffset n i seg itag c st = Some (Inr st1) \<Longrightarrow> kl_cbKeyAvail st1 \<le> kl_cbKeyAvail st"
  by (auto simp: RetrieveKeyStep_def Let_def split: prod.splits if_splits option.splits)

lemma RetrieveKeyLoop_limited:
  assumes "PlainIndex idb" "kl_cbKeyAvail st \<le> CbKeyMost idb" "forget st = forget st'" "list_all2 LegalColumn segs columns"
    and "CbKeyMost idb \<le> n" "16 \<le> n" "list_all (\<lambda>column. length (c_data column) \<le> N) columns"
  shows "map_option (map_sum fst_two forget) (RetrieveKeyLoop M idb ichOffset n i segs rgitag (LimitedColumns columns n) st) =
    map_option (map_sum fst_two forget) (RetrieveKeyLoop M idb ichOffset N i segs rgitag columns st')"
  using assms(2,3,4,7)
proof (induction segs arbitrary: i rgitag columns st st')
  case Nil
  then show ?case by (cases rgitag) (simp_all add: LimitedColumns_def)
next
  case (Cons seg segs)
  then obtain c columns' where c: "columns = c # columns'" "LegalColumn seg c" "list_all2 LegalColumn segs columns'"
    by (auto simp: list_all2_Cons1)
  show ?case
  proof (cases rgitag)
    case Nil
    then show ?thesis by simp
  next
    case (Cons itag rgitag')
    let ?s = "RetrieveKeyStep M idb ichOffset n i seg itag (c\<lparr>c_data := take n (c_data c)\<rparr>) st"
    let ?s' = "RetrieveKeyStep M idb ichOffset N i seg itag c st'"
    have s: "map_option (map_sum fst forget) ?s = map_option (map_sum fst forget) ?s'"
      using Cons.prems c by (intro RetrieveKeyStep_limited assms) simp_all
    show ?thesis
    proof (cases ?s)
      case None
      then show ?thesis using s Cons c(1) by (simp add: LimitedColumns_def)
    next
      case (Some r)
      then obtain r' where r': "?s' = Some r'" "map_sum fst forget r = map_sum fst forget r'" using s by (cases ?s') auto
      show ?thesis
      proof (cases r)
        case (Inl e)
        then obtain e' where "r' = Inl e'" "fst e = fst e'" using r'(2) by (cases r') auto
        then show ?thesis using Some Inl r'(1) Cons c(1) by (cases e; cases e') (simp add: LimitedColumns_def fst_two_def)
      next
        case (Inr st1)
        then obtain st1' where i: "r' = Inr st1'" "forget st1 = forget st1'" using r'(2) by (cases r') auto
        have "kl_cbKeyAvail st1 \<le> CbKeyMost idb" using RetrieveKeyStep_avail [OF Some [unfolded Inr]] Cons.prems(1) by simp
        from Cons.IH [OF this i(2) c(3), of "i + 1" rgitag'] show ?thesis
          using Some Inr i r'(1) Cons c(1) Cons.prems(4) by (simp add: LimitedColumns_def)
      qed
    qed
  qed
qed

lemma ErrRECIIRetrieveKey_limited:
  assumes "PlainIndex idb" "LegalColumns idb columns" "CbKeyMost idb \<le> n" "16 \<le> n" "list_all (\<lambda>column. length (c_data column) \<le> N) columns"
  shows "map_option (\<lambda>(err, key, iidxseg, _). (err, key, iidxseg)) (ErrRECIIRetrieveKey M (LimitedColumns columns) idb rgitag ichOffset n) =
    map_option (\<lambda>(err, key, iidxseg, _). (err, key, iidxseg)) (ErrRECIIRetrieveKey M (\<lambda>_. columns) idb rgitag ichOffset N)"
proof -
  let ?r = "RetrieveKeyLoop M idb ichOffset n 0 (rgidxseg idb) rgitag (LimitedColumns columns n) (InitialLoop idb)"
  let ?r' = "RetrieveKeyLoop M idb ichOffset N 0 (rgidxseg idb) rgitag columns (InitialLoop idb)"
  have eq: "map_option (map_sum fst_two forget) ?r = map_option (map_sum fst_two forget) ?r'"
    using assms by (intro RetrieveKeyLoop_limited) (simp_all add: InitialLoop_def LegalColumns_def)
  show ?thesis
  proof (cases ?r)
    case None
    then show ?thesis using eq by (simp add: ErrRECIIRetrieveKey_def Let_def flip: InitialLoop_def)
  next
    case (Some r)
    then obtain r' where r': "?r' = Some r'" "map_sum fst_two forget r = map_sum fst_two forget r'" using eq by (cases ?r') auto
    show ?thesis
    proof (cases r)
      case (Inl e)
      then obtain e' where "r' = Inl e'" "fst_two e = fst_two e'" using r'(2) by (cases r') auto
      then show ?thesis using Some Inl r'(1) by (cases e; cases e') (simp add: fst_two_def ErrRECIIRetrieveKey_def Let_def flip: InitialLoop_def)
    next
      case (Inr st)
      then obtain st' where i: "r' = Inr st'" "forget st = forget st'" using r'(2) by (cases r') auto
      obtain b where "st' = st\<lparr>kl_fNeedMoreData := b\<rparr>" using forget_same [OF i(2)] by blast
      then show ?thesis using Some Inr i(1) r'(1) by (simp add: ErrRECIIRetrieveKey_def Let_def flip: InitialLoop_def)
    qed
  qed
qed

subsection \<open>The end of the retries\<close>

lemma RetrieveKeyStep_enough:
  assumes "RetrieveKeyStep M idb ichOffset n i seg itag c st = Some r" "\<not> FTuples idb" "length (c_data c) < n" "\<not> kl_fNeedMoreData st"
  shows "case r of Inl (_, need) \<Rightarrow> \<not> need | Inr st1 \<Rightarrow> \<not> kl_fNeedMoreData st1"
  using assms by (auto simp: RetrieveKeyStep_def Let_def split: prod.splits if_splits option.splits)

lemma RetrieveKeyLoop_enough:
  assumes "RetrieveKeyLoop M idb ichOffset n i segs rgitag columns st = Some r" "\<not> FTuples idb"
    and "list_all (\<lambda>column. length (c_data column) < n) columns" "\<not> kl_fNeedMoreData st"
  shows "case r of Inl (_, _, need) \<Rightarrow> \<not> need | Inr st1 \<Rightarrow> \<not> kl_fNeedMoreData st1"
  using assms(1,3,4)
proof (induction segs arbitrary: i rgitag columns st)
  case Nil
  then show ?case by (cases rgitag; cases columns) auto
next
  case (Cons seg segs)
  from Cons.prems(1) obtain itag rgitag' where g: "rgitag = itag # rgitag'" by (cases rgitag) auto
  from Cons.prems(1) g obtain c columns' where c: "columns = c # columns'" by (cases columns) auto
  from Cons.prems(1) g c obtain s where s: "RetrieveKeyStep M idb ichOffset n i seg itag c st = Some s"
    by (auto split: option.splits)
  have more: "case s of Inl (_, need) \<Rightarrow> \<not> need | Inr st1 \<Rightarrow> \<not> kl_fNeedMoreData st1"
    by (rule RetrieveKeyStep_enough [OF s assms(2)]) (use Cons.prems c in simp_all)
  show ?case
  proof (cases s)
    case (Inl e)
    then show ?thesis using Cons.prems(1) g c s more by (auto split: prod.splits)
  next
    case (Inr st2)
    then show ?thesis using Cons.IH [of "i + 1" rgitag' columns' st2] Cons.prems g c s more by simp
  qed
qed

lemma ErrRECIIRetrieveKey_enough:
  assumes "ErrRECIIRetrieveKey M (LimitedColumns columns) idb rgitag ichOffset n = Some (err, key, iidxseg, True)" "\<not> FTuples idb"
  shows "\<exists>column \<in> set columns. n \<le> length (c_data column)"
proof (rule ccontr)
  assume "\<not> ?thesis"
  then have small: "list_all (\<lambda>column. length (c_data column) < n) (LimitedColumns columns n)"
    by (auto simp: LimitedColumns_def list_all_iff not_le)
  have enough: "RetrieveKeyLoop M idb ichOffset n 0 (rgidxseg idb) rgitag (LimitedColumns columns n) (InitialLoop idb) = Some r \<Longrightarrow>
      case r of Inl (_, _, need) \<Rightarrow> \<not> need | Inr st1 \<Rightarrow> \<not> kl_fNeedMoreData st1" for r
    using RetrieveKeyLoop_enough [OF _ assms(2) small] by (simp add: InitialLoop_def)
  show False
    using assms(1) enough unfolding ErrRECIIRetrieveKey_def Let_def InitialLoop_def [symmetric]
    by (fastforce split: option.splits sum.splits prod.splits if_splits)
qed

lemma RetrieveKeyRetry_ends:
  assumes "PlainIndex idb" "LegalColumns idb columns" "CbKeyMost idb \<le> n" "16 \<le> n" "list_all (\<lambda>column. length (c_data column) \<le> N) columns"
    and "ErrRECIIRetrieveKey M (\<lambda>_. columns) idb rgitag ichOffset N = Some (err, key, iidxseg, need)"
  shows "RetrieveKeyRetry M (LimitedColumns columns) idb rgitag ichOffset n = Some (err, key, iidxseg)"
  using assms(3,4)
proof (induction "N + 1 - n" arbitrary: n rule: less_induct)
  case less
  obtain need' where r: "ErrRECIIRetrieveKey M (LimitedColumns columns) idb rgitag ichOffset n = Some (err, key, iidxseg, need')"
    using ErrRECIIRetrieveKey_limited [OF assms(1,2) less.prems assms(5), of M rgitag ichOffset] assms(6) by auto
  show ?case
  proof (cases "\<not> failure err \<and> need'")
    case False
    then show ?thesis by (subst RetrieveKeyRetry.simps) (auto simp: r)
  next
    case True
    then have "n \<le> N"
      using ErrRECIIRetrieveKey_enough [of M columns idb rgitag ichOffset n err key iidxseg] r assms(1,5)
      by (fastforce simp: PlainIndex_def list_all_iff)
    then have "RetrieveKeyRetry M (LimitedColumns columns) idb rgitag ichOffset (n * 2) = Some (err, key, iidxseg)"
      using less.prems by (intro less.hyps) simp_all
    then show ?thesis using True by (subst RetrieveKeyRetry.simps) (simp add: r)
  qed
qed

end
