(* ===== verification/Key_Props.thy ===== *)
theory Key_Props
  imports Key_Retrieve Key_Retry
begin

text \<open>
  What the keys of an index promise: the bytes of a record's key, its order, its warnings, and the rule against truncation.
\<close>

text \<open>The index and the records the witnesses use: a descending long column and a binary column.\<close>

definition ExampleIndex :: IDB where
  "ExampleIndex = \<lparr>CbKeyMost = 255, CbVarSegMac = 255, FSortNullsHigh = False, FDotNetGuid = False, FDisallowTruncation = False,
     FTuples = False, FNestedTable = False, FHasPlaceholderColumn = False, CchTuplesLengthMin = 3, CchTuplesLengthMax = 10,
     rgidxseg = [(\<lparr>Columnid = 1, colkind = colFixed, FDescending = True\<rparr>, \<lparr>f_coltyp = JET_coltypLong, f_fUnicode = False, f_cbMaxLen = 4\<rparr>),
       (\<lparr>Columnid = 128, colkind = colVar, FDescending = False\<rparr>, \<lparr>f_coltyp = JET_coltypBinary, f_fUnicode = False, f_cbMaxLen = 255\<rparr>)]\<rparr>"

definition ExampleRecord :: "bytes \<Rightarrow> bytes \<Rightarrow> COLUMN list" where
  "ExampleRecord a b = [\<lparr>c_fNull = False, c_data = a, c_fTupleAdjusted = False\<rparr>, \<lparr>c_fNull = False, c_data = b, c_fTupleAdjusted = False\<rparr>]"

abbreviation NoUnicode :: "bytes \<Rightarrow> nat \<Rightarrow> KEYERR \<times> bytes" where
  "NoUnicode \<equiv> \<lambda>_ _. (errUnicodeNormalizationNotSupported, [])"

definition ExampleKey :: bytes where
  "ExampleKey = [0x80, 0x7f, 0xff, 0xff, 0xfa, 0x7f, 0x61, 0x62, 0, 0, 0, 0, 0, 0, 2]"

lemma example_key:
  "ErrRECIIRetrieveKey NoUnicode (\<lambda>_. ExampleRecord [5, 0, 0, 0] [0x61, 0x62]) ExampleIndex [1, 1] 0 255 =
    Some (errSuccess, ExampleKey, iidxsegNoRollover, False)"
  unfolding ExampleKey_def by code_simp

lemma example_second_key:
  "ErrRECIIRetrieveKey NoUnicode (\<lambda>_. ExampleRecord [4, 0, 0, 0] [0x61]) ExampleIndex [1, 1] 0 255 =
    Some (errSuccess, [0x80, 0x7f, 0xff, 0xff, 0xfb, 0x7f, 0x61, 0, 0, 0, 0, 0, 0, 0, 1], iidxsegNoRollover, False)"
  by code_simp

lemma example_index:
  "PlainIndex ExampleIndex" "SearchIndex ExampleIndex" "NoText ExampleIndex" "CbKeyMost ExampleIndex = 255" "KeyMade errSuccess"
  "\<not> FNestedTable ExampleIndex" "\<not> FDisallowTruncation ExampleIndex" "\<not> FHasPlaceholderColumn ExampleIndex" "length ExampleKey = 15"
  by (simp_all add: PlainIndex_def SearchIndex_def NoText_def KeyMade_def FRECTextColumn_def ExampleIndex_def ExampleKey_def)

lemma example_records:
  "LegalColumns ExampleIndex (ExampleRecord [5, 0, 0, 0] [0x61, 0x62])" "LegalColumns ExampleIndex (ExampleRecord [4, 0, 0, 0] [0x61])"
  "list_all (\<lambda>column. length (c_data column) \<le> 255) (ExampleRecord [5, 0, 0, 0] [0x61, 0x62])"
  "list_all (\<lambda>column. length (c_data column) \<le> 255) (ExampleRecord [4, 0, 0, 0] [0x61])"
  by (simp_all add: LegalColumns_def LegalColumn_def type_defs ExampleIndex_def ExampleRecord_def)

definition ExampleCursor :: SEARCHKEY where
  "ExampleCursor = \<lparr>dataSearchKey = [], cColumnsInSearchKey = 0, FKSPrepared = False, FKSTooBig = False, FKSLimit = False\<rparr>"

definition ExampleGuid :: "IDXSEG \<times> FIELD" where
  "ExampleGuid = (\<lparr>Columnid = 2, colkind = colFixed, FDescending = True\<rparr>, \<lparr>f_coltyp = JET_coltypGUID, f_fUnicode = False, f_cbMaxLen = 16\<rparr>)"

lemma example_searchable: "list_all2 (Searchable ExampleIndex) (rgidxseg ExampleIndex) (ExampleRecord [5, 0, 0, 0] [0x61, 0x62])"
  by (simp add: Searchable_def ExampleIndex_def ExampleRecord_def JET_cbKeyMost_OLD_def)

lemma example_segments:
  "rgidxseg ExampleIndex \<noteq> []" "length (rgidxseg ExampleIndex) = 2"
  "rgidxseg ExampleIndex = [hd (rgidxseg ExampleIndex)] @ tl (rgidxseg ExampleIndex)"
  "rgidxseg ExampleIndex = ([hd (rgidxseg ExampleIndex)] @ [rgidxseg ExampleIndex ! 1]) @ []"
  by (simp_all add: ExampleIndex_def)

lemma example_first_column:
  "LegalColumn (hd (rgidxseg ExampleIndex)) (hd (ExampleRecord [5, 0, 0, 0] [0x61, 0x62]))" "Searchable ExampleIndex (hd (rgidxseg ExampleIndex)) (hd (ExampleRecord [5, 0, 0, 0] [0x61, 0x62]))"
  by (simp_all add: LegalColumn_def type_defs Searchable_def ExampleIndex_def ExampleRecord_def JET_cbKeyMost_OLD_def)

lemmas example = example_key example_second_key example_index example_records

lemma KeyOf_Nil: "KeyOf idb [] = []"
  by (simp add: KeyOf_def)

lemma key_not_full:
  assumes "PlainIndex idb" "LegalColumns idb (columns cbDataMost)" "list_all (\<lambda>column. length (c_data column) \<le> cbDataMost) (columns cbDataMost)"
    and "ErrRECIIRetrieveKey M columns idb rgitag ichOffset cbDataMost = Some (err, key, iidxseg, fNeedMoreData)" "KeyMade err"
    and "length key < CbKeyMost idb"
  shows "key = FullKey idb (columns cbDataMost)"
proof (rule RetrieveKey_unfold [OF assms(1-5)])
  fix st
  assume "KeySoFar idb (zip (rgidxseg idb) (columns cbDataMost)) st" "key = kl_key st"
  then show ?thesis using assms(6) by (auto simp: KeySoFar_def KeyOf_zip min_def split: if_splits)
qed

text \<open>
  C11: The key of a record is the concatenation of the segments of its columns, cut off at \<open>CbKeyMost\<close>, for
  indexes without text, and also with text when the key is not full; when the key is full it has \<open>CbKeyMost\<close> bytes.
\<close>
theorem record_key:
  assumes "PlainIndex idb" "LegalColumns idb (columns cbDataMost)" "list_all (\<lambda>column. length (c_data column) \<le> cbDataMost) (columns cbDataMost)"
    and "ErrRECIIRetrieveKey M columns idb rgitag ichOffset cbDataMost = Some (err, key, iidxseg, fNeedMoreData)" "KeyMade err"
  shows "(NoText idb \<or> length key < CbKeyMost idb \<longrightarrow> key = take (CbKeyMost idb) (FullKey idb (columns cbDataMost))) \<and>
    length key = min (CbKeyMost idb) (length (FullKey idb (columns cbDataMost)))"
proof (rule RetrieveKey_unfold [OF assms])
  fix st
  assume "KeySoFar idb (zip (rgidxseg idb) (columns cbDataMost)) st" "key = kl_key st"
  then show ?thesis using NoText_seen [of idb] by (auto simp: KeySoFar_def KeyOf_zip min_def split: if_splits)
qed

theorem record_key_witness:
  "ExampleKey = take 255 (FullKey ExampleIndex (ExampleRecord [5, 0, 0, 0] [0x61, 0x62])) \<and> length ExampleKey = 15"
  using record_key [of ExampleIndex "\<lambda>_. ExampleRecord [5, 0, 0, 0] [0x61, 0x62]" 255 NoUnicode "[1, 1]" 0] example by simp

text \<open>
  C12: Two records whose keys are not full have keys that the engine compares (\<open>CmpKey\<close>) as their columns compare one after the other: by type, with nulls
  low or high, empty values after low nulls, and each descending column reversed.  The keys are equal only for columns
  that are equal in this order.
\<close>
theorem key_order:
  assumes "PlainIndex idb" "LegalColumns idb (columns1 n1)" "LegalColumns idb (columns2 n2)"
    and "list_all (\<lambda>column. length (c_data column) \<le> n1) (columns1 n1)" "list_all (\<lambda>column. length (c_data column) \<le> n2) (columns2 n2)"
    and "ErrRECIIRetrieveKey M columns1 idb rgitag1 ich1 n1 = Some (err1, key1, iidxseg1, more1)" "KeyMade err1" "length key1 < CbKeyMost idb"
    and "ErrRECIIRetrieveKey M columns2 idb rgitag2 ich2 n2 = Some (err2, key2, iidxseg2, more2)" "KeyMade err2" "length key2 < CbKeyMost idb"
  shows "\<exists>cmp. CmpKey_pv key1 key2 = Some cmp \<and>
    (cmp < 0 \<longleftrightarrow> ColumnsSmaller idb (columns1 n1) (columns2 n2)) \<and>
    (0 < cmp \<longleftrightarrow> ColumnsSmaller idb (columns2 n2) (columns1 n1))"
proof -
  note k = key_not_full [OF assms(1,2,4,6-8)] key_not_full [OF assms(1,3,5,9-11)]
  show ?thesis
    using assms(2,3) columns.tuple_order [of "rgidxseg idb" "columns1 n1" "columns2 n2" idb] columns.tuple_order [of "rgidxseg idb" "columns2 n2" "columns1 n1" idb]
    by (simp add: CmpKey_pv_def CmpKey_spec key_bytes_def k order_cmp_less order_cmp_greater LegalColumns_def)
qed

theorem key_order_witness:
  "\<exists>cmp. CmpKey_pv ExampleKey [0x80, 0x7f, 0xff, 0xff, 0xfb, 0x7f, 0x61, 0, 0, 0, 0, 0, 0, 0, 1] = Some cmp \<and>
    (cmp < 0 \<longleftrightarrow> ColumnsSmaller ExampleIndex (ExampleRecord [5, 0, 0, 0] [0x61, 0x62]) (ExampleRecord [4, 0, 0, 0] [0x61])) \<and>
    (0 < cmp \<longleftrightarrow> ColumnsSmaller ExampleIndex (ExampleRecord [4, 0, 0, 0] [0x61]) (ExampleRecord [5, 0, 0, 0] [0x61, 0x62]))"
  by (rule key_order [where ?columns1.0 = "\<lambda>_. ExampleRecord [5, 0, 0, 0] [0x61, 0x62]" and ?columns2.0 = "\<lambda>_. ExampleRecord [4, 0, 0, 0] [0x61]" and ?n1.0 = 255 and ?n2.0 = 255
        and M = NoUnicode and ?rgitag1.0 = "[1, 1]" and ?rgitag2.0 = "[1, 1]" and ?ich1.0 = 0 and ?ich2.0 = 0, OF _ _ _ _ _ example(1) _ _ example(2)])
    (simp_all add: example)

text \<open>
  C13: Also keys that are full keep the order: of two records, the one whose columns come first does not have the larger key, for indexes without text.
\<close>
theorem cut_key_order:
  assumes "PlainIndex idb" "NoText idb" "LegalColumns idb (columns1 n1)" "LegalColumns idb (columns2 n2)"
    and "list_all (\<lambda>column. length (c_data column) \<le> n1) (columns1 n1)" "list_all (\<lambda>column. length (c_data column) \<le> n2) (columns2 n2)"
    and "ErrRECIIRetrieveKey M columns1 idb rgitag1 ich1 n1 = Some (err1, key1, iidxseg1, more1)" "KeyMade err1"
    and "ErrRECIIRetrieveKey M columns2 idb rgitag2 ich2 n2 = Some (err2, key2, iidxseg2, more2)" "KeyMade err2"
    and "ColumnsSmaller idb (columns1 n1) (columns2 n2)"
  shows "\<exists>cmp. CmpKey_pv key1 key2 = Some cmp \<and> cmp \<le> 0"
proof -
  have cut: "key = take (CbKeyMost idb) (FullKey idb (columns n))"
    if "KeySoFar idb (zip (rgidxseg idb) (columns n)) st" "key = kl_key st" for key st columns and n :: nat
    using that NoText_seen [OF assms(2)] by (auto simp: KeySoFar_def KeyOf_zip)
  have k: "key1 = take (CbKeyMost idb) (FullKey idb (columns1 n1))" "key2 = take (CbKeyMost idb) (FullKey idb (columns2 n2))"
    by (rule RetrieveKey_unfold [OF assms(1,3,5,7,8)], rule cut; assumption)
      (rule RetrieveKey_unfold [OF assms(1,4,6,9,10)], rule cut; assumption)
  have "FullKey idb (columns1 n1) < FullKey idb (columns2 n2)"
    using assms(3,4,11) by (simp add: columns.tuple_order LegalColumns_def)
  then have "key1 \<le> key2" unfolding k by (intro take_mono_lex) simp
  then show ?thesis using order_cmp_greater [of key1 key2] by (simp add: CmpKey_pv_def CmpKey_spec key_bytes_def) auto
qed

theorem cut_key_order_witness:
  "\<exists>cmp. CmpKey_pv ExampleKey [0x80, 0x7f, 0xff, 0xff, 0xfb, 0x7f, 0x61, 0, 0, 0, 0, 0, 0, 0, 1] = Some cmp \<and> cmp \<le> 0"
  by (rule cut_key_order [where ?columns1.0 = "\<lambda>_. ExampleRecord [5, 0, 0, 0] [0x61, 0x62]" and ?columns2.0 = "\<lambda>_. ExampleRecord [4, 0, 0, 0] [0x61]" and ?n1.0 = 255 and ?n2.0 = 255
        and M = NoUnicode and ?rgitag1.0 = "[1, 1]" and ?rgitag2.0 = "[1, 1]" and ?ich1.0 = 0 and ?ich2.0 = 0, OF _ _ _ _ _ _ example(1) _ example(2)])
    (simp_all add: example, code_simp)

text \<open>
  The warning that comes with a key that is not full tells which of its columns are null: all of them, the first one, some other one, or none.
\<close>
theorem key_warnings:
  assumes "PlainIndex idb" "LegalColumns idb (columns cbDataMost)" "list_all (\<lambda>column. length (c_data column) \<le> cbDataMost) (columns cbDataMost)"
    and "ErrRECIIRetrieveKey M columns idb rgitag ichOffset cbDataMost = Some (err, key, iidxseg, fNeedMoreData)" "KeyMade err"
    and "length key < CbKeyMost idb"
  shows "err =
    (if list_all c_fNull (columns cbDataMost) then wrnFLDNullKey
     else if c_fNull (hd (columns cbDataMost)) then wrnFLDNullFirstSeg
     else if list_ex c_fNull (columns cbDataMost) then wrnFLDNullSeg
     else errSuccess)"
proof (rule RetrieveKey_unfold [OF assms(1-5)])
  fix st
  assume st: "KeySoFar idb (zip (rgidxseg idb) (columns cbDataMost)) st" "key = kl_key st"
    "err = (if kl_fAllNulls st then wrnFLDNullKey else if kl_fNullFirstSeg st then wrnFLDNullFirstSeg else if kl_fNullSeg st then wrnFLDNullSeg else errSuccess)"
  have len: "length (rgidxseg idb) = length (columns cbDataMost)" using assms(2) by (auto simp: LegalColumns_def dest: list_all2_lengthD)
  have zip: "map snd (zip (rgidxseg idb) (columns cbDataMost)) = columns cbDataMost" using len by simp
  have all: "list_all (c_fNull \<circ> snd) (zip (rgidxseg idb) (columns cbDataMost)) = list_all c_fNull (columns cbDataMost)"
    "list_ex (c_fNull \<circ> snd) (zip (rgidxseg idb) (columns cbDataMost)) = list_ex c_fNull (columns cbDataMost)"
    using list.pred_map [of c_fNull snd "zip (rgidxseg idb) (columns cbDataMost)"] zip by (simp_all add: list_ex_iff list_all_iff) (metis (no_types, lifting) zip set_map image_iff)
  show ?thesis
    using st assms(6) len all by (cases "rgidxseg idb"; cases "columns cbDataMost") (auto simp: KeySoFar_def KeyOf_zip min_def split: if_splits)
qed

theorem key_warnings_witness: "\<not> list_ex c_fNull (ExampleRecord [5, 0, 0, 0] [0x61, 0x62])"
  using key_warnings [of ExampleIndex "\<lambda>_. ExampleRecord [5, 0, 0, 0] [0x61, 0x62]" 255 NoUnicode "[1, 1]" 0, OF _ _ _ example(1)] example
  by (simp add: ExampleRecord_def)

text \<open>
  C14: Every record has a key.  For an index that disallows truncation and has no text, the record is
  refused with \<open>errKeyTruncated\<close> exactly when the segments of its columns do not fit into \<open>CbKeyMost\<close> bytes; for an index that allows it, the key is made.
  Columns that are null have to be the first of their values (\<open>itag\<close>).
\<close>
theorem key_or_truncated:
  assumes "PlainIndex idb" "\<not> FNestedTable idb" "LegalColumns idb (columns cbDataMost)"
    and "list_all (\<lambda>column. length (c_data column) \<le> cbDataMost) (columns cbDataMost)"
    and "list_all2 (\<lambda>itag column. itag \<le> 1 \<or> \<not> c_fNull column) rgitag (columns cbDataMost)"
    and "FDisallowTruncation idb \<longrightarrow> NoText idb"
  shows "\<exists>err key iidxseg fNeedMoreData. ErrRECIIRetrieveKey M columns idb rgitag ichOffset cbDataMost = Some (err, key, iidxseg, fNeedMoreData) \<and>
    (if FDisallowTruncation idb \<and> CbKeyMost idb < length (FullKey idb (columns cbDataMost)) then err = errKeyTruncated else KeyMade err)"
proof -
  obtain r where r: "RetrieveKeyLoop M idb ichOffset cbDataMost 0 (rgidxseg idb) rgitag (columns cbDataMost) (InitialLoop idb) = Some r"
    "case r of Inl (err, _) \<Rightarrow> err = errKeyTruncated \<and> FDisallowTruncation idb \<and> CbKeyMost idb < length (FullKey idb (columns cbDataMost))
     | Inr st' \<Rightarrow> FDisallowTruncation idb \<and> (\<forall>(seg, column) \<in> set (zip (rgidxseg idb) (columns cbDataMost)). \<not> TextData seg column) \<longrightarrow>
         length (FullKey idb (columns cbDataMost)) \<le> CbKeyMost idb"
    using RetrieveKeyLoop_total [OF KeySoFar_initial assms(1) assms(3) [unfolded LegalColumns_def] assms(4,5), of M ichOffset,
        unfolded append_Nil KeyOf_zip KeyOf_Nil list.size(3) eqTrueI [OF le0] simp_thms]
    by (elim exE conjE) (rule that)
  note result = ErrRECIIRetrieveKey_def [of M columns idb rgitag ichOffset cbDataMost, folded InitialLoop_def, unfolded Let_def r(1)]
  show ?thesis
  proof (cases r)
    case (Inl e)
    then show ?thesis using r(2) unfolding result by (cases e) (auto intro: exI [of _ False])
  next
    case (Inr st)
    have "\<not> (FDisallowTruncation idb \<and> CbKeyMost idb < length (FullKey idb (columns cbDataMost)))"
      using r(2) Inr assms(6) NoText_seen [of idb _ _ "columns cbDataMost"] by auto
    then show ?thesis unfolding result Inr using assms(2) by (simp add: KeyMade_def)
  qed
qed

theorem key_or_truncated_witness:
  "\<exists>err key iidxseg fNeedMoreData. ErrRECIIRetrieveKey NoUnicode (\<lambda>_. ExampleRecord [5, 0, 0, 0] [0x61, 0x62]) ExampleIndex [1, 1] 0 255 =
    Some (err, key, iidxseg, fNeedMoreData) \<and> KeyMade err"
  using key_or_truncated [of ExampleIndex "\<lambda>_. ExampleRecord [5, 0, 0, 0] [0x61, 0x62]" 255 "[1, 1]" NoUnicode 0] example
  by (simp add: ExampleRecord_def)

text \<open>
  C16: \<open>ErrRECIRetrieveColumnFromKey\<close> gives back the column of a record from a key that is not full, whatever the buffer held before: the first column
  of the index with the wanted column id, null or its data, if this column and those before it can be retrieved.
  Text comes back in upper case and a bit as all ones.
\<close>
theorem column_from_key:
  assumes "PlainIndex idb" "LegalColumns idb (columns n)" "list_all (\<lambda>column. length (c_data column) \<le> n) (columns n)"
    and "ErrRECIIRetrieveKey M columns idb rgitag ichOffset n = Some (err, key_bytes key, iidxseg, fNeedMoreData)" "KeyMade err"
    and "length (key_bytes key) < CbKeyMost idb" "length pvBuffer = CbKeyMost idb"
    and "i < length (rgidxseg idb)" "Columnid (fst (rgidxseg idb ! i)) = columnid" "\<forall>j < i. Columnid (fst (rgidxseg idb ! j)) \<noteq> columnid"
    and "\<forall>j \<le> i. Retrievable (rgidxseg idb ! j) (columns n ! j)"
  shows "ErrRECIRetrieveColumnFromKey idb key columnid pvBuffer dataColumn =
    Some (if snd (RestoredColumn (rgidxseg idb ! i) (columns n ! i)) then wrnColumnNull else errSuccess,
      fst (RestoredColumn (rgidxseg idb ! i) (columns n ! i)))"
proof -
  have k: "key_bytes key = FullKey idb (columns n)" by (rule key_not_full [OF assms(1-6)])
  obtain rest where buffer: "CopyIntoBuffer key pvBuffer (int (CbKeyMost idb)) = FullKey idb (columns n) @ rest"
    using CopyIntoBuffer_spec [of "int (CbKeyMost idb)" pvBuffer key] assms(6,7) unfolding k by simp
  show ?thesis
    unfolding ErrRECIRetrieveColumnFromKey_def buffer
    by (rule RetrieveColumnLoop_spec [OF assms(2) [unfolded LegalColumns_def] assms(8-11)])
qed

theorem column_from_key_witness:
  "ErrRECIRetrieveColumnFromKey ExampleIndex (KEY [] ExampleKey) 128 (replicate 255 0) [] = Some (errSuccess, [0x61, 0x62])"
proof -
  have k: "key_bytes (KEY [] ExampleKey) = ExampleKey" by (simp add: key_bytes_def)
  have key: "ErrRECIIRetrieveKey NoUnicode (\<lambda>_. ExampleRecord [5, 0, 0, 0] [0x61, 0x62]) ExampleIndex [1, 1] 0 255 = Some (errSuccess, key_bytes (KEY [] ExampleKey), iidxsegNoRollover, False)"
    unfolding k by (rule example_key)
  have len: "length (key_bytes (KEY [] ExampleKey)) < CbKeyMost ExampleIndex" "length (replicate 255 (0 :: u8)) = CbKeyMost ExampleIndex"
    unfolding k by (simp_all add: example)
  have c: "1 < length (rgidxseg ExampleIndex)" "Columnid (fst (rgidxseg ExampleIndex ! 1)) = 128" "\<forall>j < 1. Columnid (fst (rgidxseg ExampleIndex ! j)) \<noteq> 128"
    by (simp_all add: ExampleIndex_def)
  have "Retrievable (rgidxseg ExampleIndex ! 0) (ExampleRecord [5, 0, 0, 0] [0x61, 0x62] ! 0)" "Retrievable (rgidxseg ExampleIndex ! 1) (ExampleRecord [5, 0, 0, 0] [0x61, 0x62] ! 1)"
    by (simp_all add: Retrievable_def TextData_def FRECTextColumn_def ExampleIndex_def ExampleRecord_def)
  then have r: "\<forall>j \<le> 1. Retrievable (rgidxseg ExampleIndex ! j) (ExampleRecord [5, 0, 0, 0] [0x61, 0x62] ! j)" by (auto simp: le_Suc_eq)
  have "RestoredColumn (rgidxseg ExampleIndex ! 1) (ExampleRecord [5, 0, 0, 0] [0x61, 0x62] ! 1) = ([0x61, 0x62], False)"
    by (simp add: RestoredColumn_def RestoredData_def NullColumn_def FRECTextColumn_def ExampleIndex_def ExampleRecord_def)
  then show ?thesis
    using column_from_key [where columns = "\<lambda>_. ExampleRecord [5, 0, 0, 0] [0x61, 0x62]" and n = 255, OF example_index(1) example_records(1,3) key example_index(5) len c r, of "[]"]
    by simp
qed

text \<open>
  C17: The search key a client makes with one call of \<open>ErrIsamMakeKey\<close> for each column is the key \<open>ErrRECIIRetrieveKey\<close> makes for the record with these columns,
  for indexes without text, and for keys that are not full.
\<close>
theorem search_key_of_columns:
  assumes "SearchIndex idb" "\<not> FHasPlaceholderColumn idb" "LegalColumns idb (columns n)" "list_all2 (Searchable idb) (rgidxseg idb) (columns n)"
    and "list_all (\<lambda>column. length (c_data column) \<le> n) (columns n)" "rgidxseg idb \<noteq> []"
    and "ErrRECIIRetrieveKey M columns idb rgitag ichOffset n = Some (err, key, iidxseg, fNeedMoreData)" "KeyMade err"
    and "NoText idb \<or> length key < CbKeyMost idb"
  shows "\<exists>fucb'. MakeKeys M idb 0 True (columns n) fucb = Some (errSuccess, fucb') \<and> dataSearchKey fucb' = key \<and>
    cColumnsInSearchKey fucb' = length (rgidxseg idb) \<and> FKSPrepared fucb' \<and> \<not> FKSLimit fucb'"
proof -
  have index: "PlainIndex idb" using assms(1) by (simp add: SearchIndex_def)
  have len: "length (rgidxseg idb) = length (columns n)" using assms(4) by (rule list_all2_lengthD)
  then have some: "columns n \<noteq> []" using assms(6) by auto
  obtain fucb' where f: "MakeKeys M idb 0 True (columns n) fucb = Some (errSuccess, fucb')" "MadeSoFar idb (zip (rgidxseg idb) (columns n)) fucb'"
    using MakeKeys_spec [OF assms(1,2) some, of "rgidxseg idb" "[]"] assms(3,4) unfolding LegalColumns_def by auto
  obtain st where st: "KeySoFar idb (zip (rgidxseg idb) (columns n)) st" "key = kl_key st"
    by (rule RetrieveKey_unfold [OF index assms(3,5,7,8)]) (rule that)
  have "dataSearchKey fucb' = key"
    using f(2) st assms(9) NoText_seen [of idb _ _ "columns n"] by (auto simp: MadeSoFar_def KeySoFar_def min_def split: if_splits)
  then show ?thesis using f some len assms(6) by (auto simp: MadeSoFar_def)
qed

theorem search_key_of_columns_witness:
  "\<exists>fucb'. MakeKeys NoUnicode ExampleIndex 0 True (ExampleRecord [5, 0, 0, 0] [0x61, 0x62]) ExampleCursor = Some (errSuccess, fucb') \<and> dataSearchKey fucb' = ExampleKey \<and>
    cColumnsInSearchKey fucb' = 2 \<and> FKSPrepared fucb' \<and> \<not> FKSLimit fucb'"
  using search_key_of_columns [of ExampleIndex "\<lambda>_. ExampleRecord [5, 0, 0, 0] [0x61, 0x62]" 255 NoUnicode "[1, 1]" 0 errSuccess ExampleKey iidxsegNoRollover False ExampleCursor]
    example example_searchable by (simp add: example_segments(1,2))

lemma record_key_split:
  assumes "length segs \<le> length columns"
  shows "tuple_code (Segment idb) (segs @ more_segs) columns =
    tuple_code (Segment idb) segs (take (length segs) columns) @ tuple_code (Segment idb) more_segs (drop (length segs) columns)"
  using assms by (simp add: tuple_code_def zip_append1)

text \<open>
  C18: Full column limits.  A search key made of the first columns of an index, whose last call asks for \<open>JET_bitFullColumnStartLimit\<close>, is not above the
  key of a record, and one with \<open>JET_bitFullColumnEndLimit\<close> above it, exactly when the first columns of the record are not smaller, and not greater, than those of the search key.
\<close>
theorem full_column_limits:
  assumes "SearchIndex idb" "\<not> FHasPlaceholderColumn idb" "rgidxseg idb = segs @ more_segs" "segs \<noteq> []"
    and "list_all2 LegalColumn segs columns" "list_all2 (Searchable idb) segs columns"
    and "length (tuple_code (Segment idb) segs columns) \<le> CbKeyMost idb"
    and "LegalColumns idb (record_columns n)" "list_all (\<lambda>column. length (c_data column) \<le> n) (record_columns n)"
    and "ErrRECIIRetrieveKey M record_columns idb rgitag ichOffset n = Some (err, key, iidxseg, fNeedMoreData)" "KeyMade err"
    and "length key < CbKeyMost idb"
  shows "\<exists>low high. MakeKeys M idb JET_bitFullColumnStartLimit True columns fucb = Some (errSuccess, low) \<and>
    MakeKeys M idb JET_bitFullColumnEndLimit True columns fucb = Some (errSuccess, high) \<and> FKSLimit low \<and> FKSLimit high \<and>
    (dataSearchKey low \<le> key \<longleftrightarrow> \<not> tuple_smaller (ColumnSmaller idb) segs (take (length segs) (record_columns n)) columns) \<and>
    (key < dataSearchKey high \<longleftrightarrow> \<not> tuple_smaller (ColumnSmaller idb) segs columns (take (length segs) (record_columns n)))"
proof -
  let ?F = "tuple_code (Segment idb) segs columns" and ?first = "take (length segs) (record_columns n)"
  have len: "length segs = length columns" using assms(5) by (rule list_all2_lengthD)
  obtain segs0 idxseg field where segs0: "segs = segs0 @ [(idxseg, field)]" using assms(4) by (metis append_butlast_last_id surj_pair)
  obtain columns0 c where columns0: "columns = columns0 @ [c]" using assms(4) len by (metis append_butlast_last_id length_0_conv)
  have F: "?F = tuple_code (Segment idb) segs0 columns0 @ Segment idb (idxseg, field) c"
    using len by (simp add: segs0 columns0 tuple_code_def)
  note make = MakeKeys_limit [OF assms(1,2) assms(3) [unfolded segs0] assms(5,6) [unfolded segs0 columns0] assms(7) [unfolded F length_append]]
  have fits: "length (tuple_code (Segment idb) segs0 columns0) + length (Segment idb (idxseg, field) c) \<le> CbKeyMost idb"
    using assms(7) unfolding F by simp
  then have small: "length (Segment idb (idxseg, field) c) \<le> CbKeyMost idb - length (tuple_code (Segment idb) segs0 columns0) + 1" by simp
  obtain low where low: "MakeKeys M idb JET_bitFullColumnStartLimit True columns fucb = Some (errSuccess, low)" "dataSearchKey low = ?F" "FKSLimit low"
    using make [of JET_bitFullColumnStartLimit "Segment idb (idxseg, field) c" M fucb] small
    by (auto simp: LimitOptions_def full_limits simp flip: F columns0)
  have n: "CbKeyMost idb - length (tuple_code (Segment idb) segs0 columns0) + 1 - length (Segment idb (idxseg, field) c) =
      CbKeyMost idb + 1 - (length (tuple_code (Segment idb) segs0 columns0) + length (Segment idb (idxseg, field) c))" using fits by simp
  obtain high where high: "MakeKeys M idb JET_bitFullColumnEndLimit True columns fucb = Some (errSuccess, high)"
      "dataSearchKey high = ?F @ replicate (CbKeyMost idb + 1 - length ?F) bSentinel" "FKSLimit high"
    using make [of JET_bitFullColumnEndLimit "Segment idb (idxseg, field) c @
        replicate (CbKeyMost idb - length (tuple_code (Segment idb) segs0 columns0) + 1 - length (Segment idb (idxseg, field) c)) bSentinel" M fucb] small n
    unfolding F columns0 [symmetric] by (auto simp: LimitOptions_def full_limits)
  have key: "key = FullKey idb (record_columns n)"
    using assms(1) by (intro key_not_full [OF _ assms(8-12)]) (simp add: SearchIndex_def)
  have rec: "length (rgidxseg idb) = length (record_columns n)" "list_all2 LegalColumn segs ?first"
    using assms(8) unfolding LegalColumns_def assms(3) by (auto dest: list_all2_lengthD simp: list_all2_append1)
  obtain rest where rest: "key = tuple_code (Segment idb) segs ?first @ rest"
    using key record_key_split [of segs "record_columns n" idb more_segs] rec(1) assms(3) by simp
  consider (less) "tuple_smaller (ColumnSmaller idb) segs ?first columns" | (greater) "tuple_smaller (ColumnSmaller idb) segs columns ?first"
    | (same) "\<not> tuple_smaller (ColumnSmaller idb) segs ?first columns" "\<not> tuple_smaller (ColumnSmaller idb) segs columns ?first" by blast
  then have "(dataSearchKey low \<le> key \<longleftrightarrow> \<not> tuple_smaller (ColumnSmaller idb) segs ?first columns) \<and>
    (key < dataSearchKey high \<longleftrightarrow> \<not> tuple_smaller (ColumnSmaller idb) segs columns ?first)"
  proof cases
    case less
    have b: "before (tuple_code (Segment idb) segs ?first) ?F" by (rule columns.tuple_before [OF rec(2) assms(5) less])
    have "key < dataSearchKey low" "key < dataSearchKey high"
      using before_cat [OF b, of rest "[]"] before_cat [OF b, of rest] unfolding rest low(2) high(2) by simp_all
    moreover have "\<not> tuple_smaller (ColumnSmaller idb) segs columns ?first"
      using columns.tuple_before [OF assms(5) rec(2)] before_less [OF b] by (meson before_less less_asym)
    ultimately show ?thesis using less by auto
  next
    case greater
    have b: "before ?F (tuple_code (Segment idb) segs ?first)" by (rule columns.tuple_before [OF assms(5) rec(2) greater])
    have "dataSearchKey low < key" "dataSearchKey high < key"
      using before_cat [OF b, of "[]" rest] before_cat [OF b] unfolding rest low(2) high(2) by simp_all
    moreover have "\<not> tuple_smaller (ColumnSmaller idb) segs ?first columns"
      using columns.tuple_before [OF rec(2) assms(5)] before_less [OF b] by (meson before_less less_asym)
    ultimately show ?thesis using greater by auto
  next
    case same
    have e: "tuple_code (Segment idb) segs ?first = ?F" by (rule columns.tuple_same [OF rec(2) assms(5) same])
    have "rest < replicate (CbKeyMost idb + 1 - length ?F) bSentinel"
      using assms(12) below_sentinels [of "length rest" "CbKeyMost idb + 1 - length ?F" rest] rest e by (simp add: bSentinel_def)
    then show ?thesis using same rest e low(2) high(2) by simp
  qed
  then show ?thesis using low high by blast
qed

theorem full_column_limits_witness:
  "\<exists>low high. MakeKeys NoUnicode ExampleIndex JET_bitFullColumnStartLimit True [hd (ExampleRecord [5, 0, 0, 0] [0x61, 0x62])] ExampleCursor = Some (errSuccess, low) \<and>
    MakeKeys NoUnicode ExampleIndex JET_bitFullColumnEndLimit True [hd (ExampleRecord [5, 0, 0, 0] [0x61, 0x62])] ExampleCursor = Some (errSuccess, high) \<and>
    dataSearchKey low \<le> ExampleKey \<and> ExampleKey < dataSearchKey high"
proof -
  have s: "\<not> tuple_smaller (ColumnSmaller ExampleIndex) [hd (rgidxseg ExampleIndex)] [hd (ExampleRecord [5, 0, 0, 0] [0x61, 0x62])] [hd (ExampleRecord [5, 0, 0, 0] [0x61, 0x62])]"
    by code_simp
  have t: "length (tuple_code (Segment ExampleIndex) [hd (rgidxseg ExampleIndex)] [hd (ExampleRecord [5, 0, 0, 0] [0x61, 0x62])]) \<le> 255" by code_simp
  have l: "list_all2 LegalColumn [hd (rgidxseg ExampleIndex)] [hd (ExampleRecord [5, 0, 0, 0] [0x61, 0x62])]"
    "list_all2 (Searchable ExampleIndex) [hd (rgidxseg ExampleIndex)] [hd (ExampleRecord [5, 0, 0, 0] [0x61, 0x62])]"
    using example_first_column by simp_all
  have r: "\<not> tuple_smaller (ColumnSmaller ExampleIndex) [hd (rgidxseg ExampleIndex)] (take (length [hd (rgidxseg ExampleIndex)]) (ExampleRecord [5, 0, 0, 0] [0x61, 0x62])) [hd (ExampleRecord [5, 0, 0, 0] [0x61, 0x62])]"
    "\<not> tuple_smaller (ColumnSmaller ExampleIndex) [hd (rgidxseg ExampleIndex)] [hd (ExampleRecord [5, 0, 0, 0] [0x61, 0x62])] (take (length [hd (rgidxseg ExampleIndex)]) (ExampleRecord [5, 0, 0, 0] [0x61, 0x62]))"
    using s by (simp_all add: ExampleRecord_def)
  have k: "length ExampleKey < CbKeyMost ExampleIndex" "length (tuple_code (Segment ExampleIndex) [hd (rgidxseg ExampleIndex)] [hd (ExampleRecord [5, 0, 0, 0] [0x61, 0x62])]) \<le> CbKeyMost ExampleIndex"
    using t by (simp_all add: example)
  show ?thesis
    using full_column_limits [where record_columns = "\<lambda>_. ExampleRecord [5, 0, 0, 0] [0x61, 0x62]" and n = 255, OF example_index(2,8) example_segments(3) list.distinct(2) l k(2) example_records(1,3)
        example_key example_index(5) k(1), of ExampleCursor] r by blast
qed

text \<open>
  C19: Partial column limits.  A search key whose last column is text or variable binary data has all records between its
  \<open>JET_bitPartialColumnStartLimit\<close> and its \<open>JET_bitPartialColumnEndLimit\<close> that agree with it in the columns before and whose value in the last one begins with the data given,
  ascending or descending.
\<close>
theorem partial_column_limits:
  assumes "SearchIndex idb" "\<not> FHasPlaceholderColumn idb" "rgidxseg idb = (segs @ [seg]) @ more_segs"
    and "list_all2 LegalColumn (segs @ [seg]) (columns @ [c])" "list_all2 (Searchable idb) (segs @ [seg]) (columns @ [c])" "PartialColumn seg c"
    and "length (tuple_code (Segment idb) segs columns) + length (Segment idb seg c) \<le> CbKeyMost idb"
    and "LegalColumns idb (record_columns n)" "list_all (\<lambda>column. length (c_data column) \<le> n) (record_columns n)"
    and "ErrRECIIRetrieveKey M record_columns idb rgitag ichOffset n = Some (err, key, iidxseg, fNeedMoreData)" "KeyMade err"
    and "length key < CbKeyMost idb"
    and "\<not> tuple_smaller (ColumnSmaller idb) segs columns (take (length segs) (record_columns n))"
    and "\<not> tuple_smaller (ColumnSmaller idb) segs (take (length segs) (record_columns n)) columns"
    and "c_data (record_columns n ! length segs) = c_data c @ q" "\<not> c_fNull (record_columns n ! length segs)"
  shows "\<exists>low high. MakeKeys M idb JET_bitPartialColumnStartLimit True (columns @ [c]) fucb = Some (errSuccess, low) \<and>
    MakeKeys M idb JET_bitPartialColumnEndLimit True (columns @ [c]) fucb = Some (errSuccess, high) \<and> FKSLimit low \<and> FKSLimit high \<and>
    dataSearchKey low \<le> key \<and> key < dataSearchKey high"
proof -
  let ?first = "take (length segs) (record_columns n)" and ?d = "record_columns n ! length segs"
  let ?avail = "CbKeyMost idb - length (tuple_code (Segment idb) segs columns)"
  obtain idxseg field where seg: "seg = (idxseg, field)" by (cases seg)
  have legal: "list_all2 LegalColumn segs columns" "LegalColumn seg c" using assms(4) list_all2_lengthD [OF assms(4)] by (simp_all add: list_all2_append)
  have rec: "length (rgidxseg idb) = length (record_columns n)" "list_all2 LegalColumn segs ?first"
    using assms(8) unfolding LegalColumns_def assms(3) by (auto dest: list_all2_lengthD simp: list_all2_append1)
  have same: "tuple_code (Segment idb) segs ?first = tuple_code (Segment idb) segs columns"
    by (rule columns.tuple_same [OF rec(2) legal(1) assms(14,13)])
  have "key = FullKey idb (record_columns n)"
    using assms(1) by (intro key_not_full [OF _ assms(8-12)]) (simp add: SearchIndex_def)
  moreover have "length segs < length (record_columns n)" using rec(1) assms(3) by simp
  ultimately obtain rest where rest: "key = tuple_code (Segment idb) segs columns @ Segment idb seg ?d @ rest"
    using record_key_split [of segs "record_columns n" idb "seg # more_segs"] same assms(3)
    by (simp add: Cons_nth_drop_Suc [symmetric])
  have small: "length (Segment idb seg c) \<le> ?avail" using assms(7) by simp
  have "FRECTextColumn (f_coltyp (snd seg)) \<longrightarrow> \<not> f_fUnicode (snd seg)"
    using legal(2) assms(6) by (auto simp: LegalColumn_def LegalData_def PartialColumn_def)
  then obtain part m where p: "PartialLimits idb seg c ?avail part m" "BeginsWith idb seg ?d ?avail part m"
    using PartialLimits_binary [OF assms(6) _ small assms(15,16)] PartialLimits_text [OF assms(6) _ _ small assms(15,16)] assms(6)
    unfolding PartialColumn_def by blast
  note make = MakeKeys_limit [OF assms(1,2) assms(3-5) [unfolded seg] assms(7) [unfolded seg], where fucb = fucb and M = M]
  obtain low where low: "MakeKeys M idb JET_bitPartialColumnStartLimit True (columns @ [c]) fucb = Some (errSuccess, low)"
      "dataSearchKey low = tuple_code (Segment idb) segs columns @ part" "FKSLimit low"
    using make [of JET_bitPartialColumnStartLimit part] p(1) by (auto simp: PartialLimits_def seg LimitOptions_def)
  obtain high where high: "MakeKeys M idb JET_bitPartialColumnEndLimit True (columns @ [c]) fucb = Some (errSuccess, high)"
      "dataSearchKey high = tuple_code (Segment idb) segs columns @ part @ replicate m 0xff" "FKSLimit high"
    using make [of JET_bitPartialColumnEndLimit "part @ replicate m 0xff"] p(1) by (auto simp: PartialLimits_def seg LimitOptions_def)
  obtain t where t: "Segment idb seg ?d = part @ t" "\<forall>rest. length (part @ t @ rest) \<le> ?avail \<longrightarrow> t @ rest < replicate m 0xff"
    using p(2) by (auto simp: BeginsWith_def)
  have key: "key = tuple_code (Segment idb) segs columns @ part @ t @ rest" using rest t(1) by simp
  have "t @ rest < replicate m 0xff" using t(2) assms(12) unfolding key by simp
  then have "key < dataSearchKey high" "dataSearchKey low \<le> key"
    unfolding key low(2) high(2) using append_above [of "tuple_code (Segment idb) segs columns @ part" "t @ rest"] by simp_all
  then show ?thesis using low high by blast
qed

theorem partial_column_limits_witness:
  "\<exists>low high. MakeKeys NoUnicode ExampleIndex JET_bitPartialColumnStartLimit True (ExampleRecord [5, 0, 0, 0] [0x61]) ExampleCursor = Some (errSuccess, low) \<and>
    MakeKeys NoUnicode ExampleIndex JET_bitPartialColumnEndLimit True (ExampleRecord [5, 0, 0, 0] [0x61]) ExampleCursor = Some (errSuccess, high) \<and>
    dataSearchKey low \<le> ExampleKey \<and> ExampleKey < dataSearchKey high"
proof -
  let ?seg = "rgidxseg ExampleIndex ! 1" and ?columns = "[hd (ExampleRecord [5, 0, 0, 0] [0x61, 0x62])]" and ?c = "\<lparr>c_fNull = False, c_data = [0x61], c_fTupleAdjusted = False\<rparr>"
  have s: "\<not> tuple_smaller (ColumnSmaller ExampleIndex) [hd (rgidxseg ExampleIndex)] ?columns ?columns" by code_simp
  have t: "length (tuple_code (Segment ExampleIndex) [hd (rgidxseg ExampleIndex)] ?columns) + length (Segment ExampleIndex ?seg ?c) \<le> 255" by code_simp
  have l: "list_all2 LegalColumn ([hd (rgidxseg ExampleIndex)] @ [?seg]) (?columns @ [?c])" "PartialColumn ?seg ?c"
    "list_all2 (Searchable ExampleIndex) ([hd (rgidxseg ExampleIndex)] @ [?seg]) (?columns @ [?c])"
    by (simp_all add: LegalColumn_def type_defs Searchable_def PartialColumn_def NullColumn_def ExampleIndex_def ExampleRecord_def JET_cbKeyMost_OLD_def)
  have r: "\<not> tuple_smaller (ColumnSmaller ExampleIndex) [hd (rgidxseg ExampleIndex)] (take (length [hd (rgidxseg ExampleIndex)]) (ExampleRecord [5, 0, 0, 0] [0x61, 0x62])) ?columns"
    "\<not> tuple_smaller (ColumnSmaller ExampleIndex) [hd (rgidxseg ExampleIndex)] ?columns (take (length [hd (rgidxseg ExampleIndex)]) (ExampleRecord [5, 0, 0, 0] [0x61, 0x62]))"
    "c_data (ExampleRecord [5, 0, 0, 0] [0x61, 0x62] ! length [hd (rgidxseg ExampleIndex)]) = c_data ?c @ [0x62]" "\<not> c_fNull (ExampleRecord [5, 0, 0, 0] [0x61, 0x62] ! length [hd (rgidxseg ExampleIndex)])"
    using s by (simp_all add: ExampleRecord_def)
  have k: "length ExampleKey < CbKeyMost ExampleIndex"
    "length (tuple_code (Segment ExampleIndex) [hd (rgidxseg ExampleIndex)] ?columns) + length (Segment ExampleIndex ?seg ?c) \<le> CbKeyMost ExampleIndex"
    using t by (simp_all add: example)
  have e: "?columns @ [?c] = ExampleRecord [5, 0, 0, 0] [0x61]" by (simp add: ExampleRecord_def)
  show ?thesis
    using partial_column_limits [where record_columns = "\<lambda>_. ExampleRecord [5, 0, 0, 0] [0x61, 0x62]" and n = 255, OF example_index(2,8) example_segments(4) l(1,3,2) k(2) example_records(1,3)
        example_key example_index(5) k(1) r(2,1,3,4), of ExampleCursor] unfolding e by blast
qed

text \<open>
  C15: \<open>ErrRECIRetrieveKey\<close> returns: it starts with \<open>CbKeyMost\<close> bytes of each column and doubles the limit only while a column has at least as many bytes as
  the limit; and its result is the one of the complete columns.
\<close>
theorem retrieve_key_ends:
  assumes "PlainIndex idb" "JET_cbKeyMost_OLD \<le> CbKeyMost idb" "LegalColumns idb columns"
    and "list_all2 (\<lambda>itag column. itag \<le> 1 \<or> \<not> c_fNull column) rgitag columns"
    and "list_all (\<lambda>column. length (c_data column) \<le> N) columns"
  shows "\<exists>err key iidxseg fNeedMoreData. ErrRECIRetrieveKey M (LimitedColumns columns) idb rgitag ichOffset = Some (err, key, iidxseg) \<and>
    ErrRECIIRetrieveKey M (\<lambda>_. columns) idb rgitag ichOffset N = Some (err, key, iidxseg, fNeedMoreData)"
proof -
  have "\<exists>r. RetrieveKeyLoop M idb ichOffset N 0 (rgidxseg idb) rgitag columns (InitialLoop idb) = Some r"
    using RetrieveKeyLoop_total [OF KeySoFar_initial assms(1) assms(3) [unfolded LegalColumns_def] assms(5,4), of M ichOffset]
    unfolding list.size(3) by (elim exE conjE) (rule exI)
  then obtain r where "RetrieveKeyLoop M idb ichOffset N 0 (rgidxseg idb) rgitag columns (InitialLoop idb) = Some r" by blast
  then have "ErrRECIIRetrieveKey M (\<lambda>_. columns) idb rgitag ichOffset N \<noteq> None"
    by (auto simp: ErrRECIIRetrieveKey_def Let_def simp flip: InitialLoop_def split: sum.split intro: exI [of _ False])
  then obtain err key iidxseg need where r: "ErrRECIIRetrieveKey M (\<lambda>_. columns) idb rgitag ichOffset N = Some (err, key, iidxseg, need)"
    by auto
  have "RetrieveKeyRetry M (LimitedColumns columns) idb rgitag ichOffset (CbKeyMost idb) = Some (err, key, iidxseg)"
    using assms(2) by (intro RetrieveKeyRetry_ends [OF assms(1,3) _ _ assms(5) r]) (simp_all add: JET_cbKeyMost_OLD_def)
  then show ?thesis using r by (simp add: ErrRECIRetrieveKey_def)
qed

theorem retrieve_key_ends_witness:
  "\<exists>err key iidxseg. ErrRECIRetrieveKey NoUnicode (LimitedColumns (ExampleRecord [5, 0, 0, 0] [0x61, 0x62])) ExampleIndex [1, 1] 0 = Some (err, key, iidxseg)"
  using retrieve_key_ends [of ExampleIndex "ExampleRecord [5, 0, 0, 0] [0x61, 0x62]" "[1, 1]" 255 NoUnicode 0] example by (auto simp: ExampleRecord_def JET_cbKeyMost_OLD_def)

text \<open>
  C20: A descending GUID does not come back from a key: whatever its value, \<open>RECIRetrieveColumnFromKey\<close> takes it for a null value and goes
  on behind its first byte, in the middle of the segment.
\<close>
theorem descending_guid_lost:
  assumes "f_coltyp field = JET_coltypGUID" "FDescending idxseg" "LegalColumn (idxseg, field) column" "\<not> NullColumn column"
  shows "\<exists>rest'. length rest' = 16 + length rest \<and>
    RECIRetrieveColumnFromKey idb (idxseg, field) (Segment idb (idxseg, field) column @ rest) = Some ([], True, rest')"
proof -
  have "length (c_data column) = 16" using assms(1,3,4) by (simp add: LegalColumn_def LegalData_def FRECTextColumn_def FRECBinaryColumn_def cbFixedType_def)
  then obtain t where t: "DataSegment (FDotNetGuid idb) (colkind idxseg) field (c_data column) = bPrefixData # t" "length t = 16"
    using assms(1) by (simp add: DataSegment_def FRECTextColumn_def FRECBinaryColumn_def FLDNormalizeFixedSegment_def rgDotNetGuidOrder_def rgGuidOrder_def)
  have "bMask True XOR bPrefixData \<noteq> bPrefixData" by (simp add: bMask_byte bPrefixData_def)
  then show ?thesis using assms t
    by (intro exI [of _ "flip_bits True t @ rest"]) (simp add: Segment_def RECIRetrieveColumnFromKey_def RetrieveGuid_def)
qed

theorem descending_guid_lost_witness:
  "\<exists>rest'. length rest' = 16 \<and>
    RECIRetrieveColumnFromKey ExampleIndex ExampleGuid (Segment ExampleIndex ExampleGuid \<lparr>c_fNull = False, c_data = replicate 16 7, c_fTupleAdjusted = False\<rparr>) =
    Some ([], True, rest')"
  using descending_guid_lost [of "snd ExampleGuid" "fst ExampleGuid" "\<lparr>c_fNull = False, c_data = replicate 16 7, c_fTupleAdjusted = False\<rparr>" "[]" ExampleIndex]
  by (simp add: ExampleGuid_def LegalColumn_def type_defs NullColumn_def)

end
