(* ===== verification/Spec2Isabelle.thy ===== *)
theory Spec2Isabelle
  imports Page_Scrub Page_Verify_Props Data_Compress_Props Red_Black_Facade Node_Order Node_Space_Props Ver_History Key_Props
begin

text \<open>
  The Extensible Storage Engine keeps tables in B-trees of pages.  A page of the database is a buffer
  with a header at its front, the lines (byte strings) behind it and an array of tags, one for each
  line, that grows from its end towards the lines.  The node layer stores keys and data in the lines,
  the version store keeps what uncommitted transactions replaced, and a page carries a checksum on its way to the
  disk and back.  This development follows the code from the bytes of a page up to the nodes,
  their versions and the keys of an index, with two independent components, the compression of columns and the
  red-black tree of the collection library.  All paths are below \<open>src/dev/ese\<close>.

  \<^bold>\<open>Conventions.\<close>  Structures are records, enumerations are datatypes, machine integers are words of their
  width where they may wrap around and integers where the code keeps them in range.  Memory is a function from addresses
  to bytes in the page components and a list of bytes where the code gets a buffer and its size.  A failing \<open>Enforce\<close>, an access outside
  the buffer of a list and a dereferenced null pointer are \<open>None\<close>; a returned \<open>ERR\<close> is a value of an error type.
  Assertions without an effect in the retail build are left out of the definitions and come back as theorems where they are
  invariants.  Loops run by structural recursion where there is a counter, by a measure where there is none,
  and as partial functions where the code says \<open>while( true )\<close>; for those the theorems say that they return.  No fuel is used.

  \<^bold>\<open>Prelude.\<close>  \<open>Ese_Prelude\<close> has the words, the memory, \<open>memmove\<close> and the shared lemmas on lists; \<open>Byte_Lists\<close>
  has little-endian words in lists of bytes.  \<open>Line_Store\<close>, \<open>Keyed_Map\<close>, the locale \<open>page_checksum\<close> of \<open>Page_Ecc_Props\<close>, \<open>snapshots\<close> of \<open>Ver_History\<close> and
  \<open>order_codes\<close> of \<open>Key_Order\<close> are the
  interfaces: a numbered list of lines with a budget, a finite map with operations that cannot fail, a checksum
  that is one sum over the set bits, readers of a snapshot, and codes whose concatenation keeps an order.  Each is interpreted on the model of the code, in \<open>Page_Props\<close>,
  \<open>Red_Black_Props\<close>, \<open>Page_Simd_Props\<close>, \<open>Ver_History\<close> and \<open>Key_Segment\<close>.

  \<^bold>\<open>The database page\<close> (\<open>src/inc/cpage.hxx\<close>, \<open>src/ese/cpage.cxx\<close>).
  \<open>Page_Layout\<close> is the layout: \<open>PGHDR\<close>, the bit fields of a tag in the small and the large format, the sizes.
  \<open>Page_Ops\<close> has the operations on lines (\<open>Insert_\<close>, \<open>Replace_\<close>, \<open>Delete_\<close>, \<open>ReplaceFlags_\<close>, the reserved tags,
  \<open>ReorganizeData_\<close>), \<open>Page_Image\<close> those on the image (new pages, header setters, the checked access, scrubbing, the
  logical checksum, dehydration).
  \<open>Page_Inv\<close>, \<open>Page_Reorg\<close>, \<open>Page_Lines\<close>, \<open>Page_Refine\<close> and \<open>Page_Replace\<close> define the invariant
  (\<open>shape_ok\<close>, \<open>tags_ok\<close>: the lines lie between header and tag array and do not overlap, and the counters add up) and the abstraction to a list of lines, and show that each
  operation keeps the one and changes the other as the list; \<open>Page_Props\<close> states it for the public operations, C1 to C4 and C21.
  \<open>Page_Image_Props\<close>, \<open>Page_Shrink\<close> and \<open>Page_Scrub\<close> do the same for the image, with C22 for an underflow of the counter.

  \<^bold>\<open>Checksums\<close> (\<open>src/checksum\<close>, \<open>src/ese/_osu/checksumu.cxx\<close>).
  \<open>Page_Checksum\<close> has the XOR and the error-correcting checksum of the C code, \<open>Page_Simd\<close> the SSE2 and AVX versions on registers and the choice by
  processor.  \<open>Page_Ecc\<close>, \<open>Page_Ecc_Props\<close> and \<open>Page_Simd_Props\<close> reduce all of them to one sum over GF(2): they agree, a flipped bit is located, two
  are noticed (C23 to C25).  \<open>Page_Verify\<close> is the writing, verification and repair of the checksums of a whole page, and
  \<open>Page_Verify_Props\<close> shows that a written page verifies, that one flipped bit is repaired and that damage is reported
  (C26, C27).

  \<^bold>\<open>Column compression\<close> (\<open>src/ese/compression.cxx\<close>).  \<open>Seven_Bit\<close> and \<open>Data_Compress\<close> have the 7-bit formats, the choice
  between them and the dispatch to Xpress, whose library is a parameter with its documented round trip as a hypothesis;
  \<open>Seven_Bit_Pack\<close>, \<open>Seven_Bit_Fast\<close>, \<open>Seven_Bit_Scheme\<close> and \<open>Seven_Bit_Codec\<close> relate the unrolled loops to bit streams, and
  \<open>Data_Compress_Props\<close> states round trip and memory safety, on any bytes in the case of the decompressors (C28 to C30).

  \<^bold>\<open>The red-black tree\<close> (\<open>published/inc/collection.hxx\<close>).  \<open>Red_Black\<close>, \<open>Red_Black_Delete\<close> and \<open>Red_Black_Root\<close> have \<open>InvasiveRedBlackTree\<close>,
  \<open>Red_Black_Inv\<close> the balance and order of its nodes, \<open>Red_Black_Props\<close> the refinement of a finite map, the bound of the height, the termination of \<open>ErrMerge\<close> and the
  ordered searches (C31, C32), \<open>Red_Black_Facade\<close> the allocating \<open>CRedBlackTree\<close>, which loses no node (C33).

  \<^bold>\<open>Keys and nodes\<close> (\<open>src/inc/daedef.hxx\<close>, \<open>src/inc/node.hxx\<close>, \<open>src/ese/node.cxx\<close>).  \<open>Node_Key\<close> has the two-part keys and their comparisons, \<open>Node\<close> the encoding of a node in a line and
  the searches, \<open>Node_Ops\<close> the operations without and \<open>Node_Log\<close> those with log and versions; the log is an argument that may fail or mark
  the page dirty.  \<open>Node_Lines\<close>, \<open>Node_Refine\<close>, \<open>Node_Replace\<close>, \<open>Node_Spec\<close> and \<open>Node_Prefix\<close> read a page as a list of nodes (\<open>nodes\<close>, with \<open>nodes_ok\<close> as the invariant) and show
  what every operation does to it, resting on the facts of the page; \<open>Node_Search\<close> and \<open>Node_Descend\<close> relate the two binary searches to the number of nodes
  in front of a bookmark.  \<open>Node_Order\<close> and \<open>Node_Props\<close> state the order of bookmarks, the searches, insertion in order, that every operation on an existing node is defined,
  and the round trip of the prefix (C34 to C38).

  \<^bold>\<open>The space of replaces\<close> (\<open>src/ese/ver.cxx\<close>, \<open>src/ese/node.cxx\<close>).  \<open>Ver_Space\<close> has the versions of a node with their sizes and the bytes they reserve.  \<open>Node_Space\<close>, \<open>Node_Undo\<close> and \<open>Node_Space_Props\<close> show
  that a replace keeps the reserved bytes within the free space on every way it can end, and that an undo therefore
  always finds its room (C39, C40).

  \<^bold>\<open>Versions and transactions\<close> (\<open>src/ese/ver.cxx\<close>, \<open>src/inc/ver.hxx\<close>, \<open>src/inc/pib.hxx\<close>, the numbers of transactions in \<open>src/ese/dir.cxx\<close> and \<open>src/ese/pib.cxx\<close>).
  \<open>Ver_Visible\<close> has the code: the numbers of transactions that wrap around, what a session sees of a node (\<open>ErrVERAccessNode\<close>) and of its escrow columns
  (\<open>DeltaVERGetDelta\<close>), write conflicts, and the creation, commit and removal of versions, on the chain of one node.
  \<open>Ver_Trx\<close> reads the numbers as times, carried along in additional fields no operation reads; \<open>Ver_Read\<close> states what a session should read, the node with every
  version it does not see undone, and shows that the code finds it on an ordered chain.  \<open>Ver_Machine\<close> is the machine: sessions that begin, lock, replace, change columns,
  delete, insert, roll back and commit, in the two steps where \<open>src/ese/bt.cxx\<close> takes two, and the clean-up, interleaved in any order (\<open>vstep\<close>, \<open>reach\<close>).
  \<open>Ver_Time\<close>, \<open>Ver_Order\<close> and \<open>Ver_Inv\<close> are the invariant: the times, the order of the chain that the check for conflicts keeps, and the state of the unfinished operations.
  \<open>Ver_Steps\<close>, \<open>Ver_Work\<close>, \<open>Ver_Undo\<close>, \<open>Ver_Ends\<close> and \<open>Ver_Clean\<close> take the steps one by one, \<open>Ver_Laws\<close> puts them together.  \<open>Ver_Snapshot\<close> states the
  promises: snapshot reads, repeatable reads, what a commit publishes, exact conflicts and no lost update (C5 to C9); \<open>Ver_History\<close> has the interface \<open>snapshots\<close> and
  what it means for whole histories (C10).  The machine assumes that the numbers in use lie within \<open>2 ^ 31\<close> of each other (\<open>room\<close>), which the engine does not check, and that
  the page was changed since the oldest transaction began where it says so (\<open>fPageRecentlyDirtied\<close>); a session in the machine is not in the middle
  of a prepared update and has one level of transactions, and rollback removes its versions (no index is being created).

  \<^bold>\<open>Index keys\<close> (\<open>src/ese/fldnorm.cxx\<close>, \<open>src/ese/_osu/normu.cxx\<close>, the state of the search key in \<open>src/inc/fucb.hxx\<close>).
  \<open>Key_Build\<close> has the normalisation of columns to segments, the key of a record (\<open>ErrRECIIRetrieveKey\<close>) and the loop that reads longer columns, \<open>Key_Make\<close> the search key
  (\<open>ErrIsamMakeKey\<close>, \<open>ErrFLDNormalizeSegment\<close> and the limits), \<open>Key_Retrieve\<close> the way back (\<open>RECIRetrieveColumnFromKey\<close>) and that it returns what went into the key.
  What the code should do is in \<open>Key_Segment\<close>, the complete segment of a column and the order of the values of each type, and in \<open>Key_Numbers\<close>, the value of floating-point numbers.  \<open>Key_Order\<close>,
  \<open>Key_Numbers\<close> and \<open>Key_Segment\<close> show that segments compare as the values, column by column.  \<open>Key_Loop\<close> gives the invariant of the loop over the columns (\<open>KeySoFar\<close>),
  \<open>Key_Search\<close> and \<open>Key_Limits\<close> the same for the search key, \<open>Key_Retry\<close> the retries.  \<open>Key_Props\<close> states the properties: the key and its order, also when it is cut
  off, the rule against truncation, the end of the retries, the columns that come back, the search key and its limits (C11 to C19), and that a descending GUID does not come back (C20).  Unicode
  sort keys come from the operating system and are an argument; the theorems are on indexes without tuples (\<open>FTuples\<close>) and without a maximum for variable
  segments (\<open>CbVarSegMac\<close>), on text that is not Unicode, and on keys with one value for each column.

  \<^bold>\<open>Bounds.\<close>  The invariant of a page bounds all offsets by the size of the page, at most 32 KB and 8 KB in the small format, so that the casts of
  the code do not lose bits.  The theorems on checksums hold for blocks of 256 bytes to 8 KB, the block of the largest page, whose
  number of words is a power of two.

  \<^bold>\<open>Not modelled.\<close>  The manifest lists every part with its reason.  In short: the buffer manager, the synchronisation library and the asynchronous IO are concurrent code under the latches the model takes for granted;
  the B-tree, space, catalogue, record and long-value layers (but for the keys of records) and the API are written over many latched pages and shared descriptions of tables; logging, recovery and
  backup drive files; the debugger extension, tools, bindings and tests are not part of the engine.  Unicode normalisation, Xpress and the processor-specific
  prefetching are not in the repository or have no effect on results.
\<close>

end
